(* ===== verification/AwaPrelude.thy ===== *)
theory AwaPrelude
  imports Main "HOL-Library.Word" "HOL-Library.Monad_Syntax"
begin

unbundle bit_operations_syntax

text \<open>
  Shared material of the development: the types that stand for the C++ types of the engine,
  memory access with a fault, and generic lemmas on lists and on bytes.

  A C++ \<open>int\<close> is an \<open>int\<close>; where a theorem needs it to stay in its 32 bits the bound is a hypothesis, and
  conversions to narrower types are written out. An unsigned value
  whose wrap-around matters is a \<open>word\<close>. A block of memory is a list, and reading or writing
  outside it, which is undefined behaviour in C++, is \<open>None\<close>: a function of result type
  \<open>'a option\<close> that returns \<open>Some\<close> has touched only memory it owns.
\<close>

named_theorems mem_simps \<open>reads and writes of memory blocks\<close>
named_theorems bit_simps' \<open>bits of bytes after set, unset and block operations\<close>

type_synonym byte = "8 word"
type_synonym u32 = "32 word"
type_synonym u64 = "64 word"

abbreviation int_max :: int where "int_max \<equiv> 2147483647"
abbreviation int_min :: int where "int_min \<equiv> - 2147483648"

text \<open>The division of C++ truncates towards zero.\<close>

definition cdiv :: "int \<Rightarrow> int \<Rightarrow> int" where
  "cdiv a b = sgn a * sgn b * (\<bar>a\<bar> div \<bar>b\<bar>)"

lemma cdiv_nonneg [simp]: "0 \<le> a \<Longrightarrow> 0 < b \<Longrightarrow> cdiv a b = a div b"
  by (cases "a = 0") (auto simp: cdiv_def)

subsection \<open>Memory blocks\<close>

definition fetch :: "'a list \<Rightarrow> int \<Rightarrow> 'a option" where
  "fetch xs i = (if 0 \<le> i \<and> i < int (length xs) then Some (xs ! nat i) else None)"

definition store :: "'a list \<Rightarrow> int \<Rightarrow> 'a \<Rightarrow> 'a list option" where
  "store xs i v = (if 0 \<le> i \<and> i < int (length xs) then Some (xs[nat i := v]) else None)"

lemma fetch_Some_iff [mem_simps]:
  "fetch xs i = Some v \<longleftrightarrow> 0 \<le> i \<and> i < int (length xs) \<and> xs ! nat i = v"
  by (auto simp: fetch_def)

lemma fetch_None_iff [mem_simps]: "fetch xs i = None \<longleftrightarrow> i < 0 \<or> int (length xs) \<le> i"
  by (auto simp: fetch_def)

lemma store_Some_iff [mem_simps]:
  "store xs i v = Some ys \<longleftrightarrow> 0 \<le> i \<and> i < int (length xs) \<and> ys = xs[nat i := v]"
  by (auto simp: store_def)

lemma store_None_iff [mem_simps]: "store xs i v = None \<longleftrightarrow> i < 0 \<or> int (length xs) \<le> i"
  by (auto simp: store_def)

lemma fetch_store:
  assumes "store xs i v = Some ys"
  shows "fetch ys j = (if j = i then Some v else fetch xs j)"
  using assms by (auto simp: store_Some_iff fetch_def nat_eq_iff2 nth_list_update)

lemma store_length: "store xs i v = Some ys \<Longrightarrow> length ys = length xs"
  by (auto simp: mem_simps)

subsection \<open>Bits of a byte\<close>

text \<open>The mask \<open>0x1 << (id & 0x7)\<close>.\<close>

definition bit_mask :: "int \<Rightarrow> byte" where
  "bit_mask i = push_bit (nat (i mod 8)) 1"

lemma nat_mod8_less [simp]: "nat (i mod 8) < 8"
  using pos_mod_bound [of 8 i] by linarith

lemma bit_mask_bit [bit_simps']: "bit (bit_mask i) k \<longleftrightarrow> k = nat (i mod 8)"
  by (auto simp: bit_mask_def bit_simps)

lemma and_mask_iff: "b AND bit_mask i \<noteq> 0 \<longleftrightarrow> bit b (nat (i mod 8))"
proof -
  have "b AND bit_mask i = (if bit b (nat (i mod 8)) then bit_mask i else 0)"
    by (rule bit_word_eqI) (auto simp: bit_and_iff bit_mask_bit)
  moreover have "bit_mask i \<noteq> 0"
    using bit_mask_bit [of i "nat (i mod 8)"] by auto
  ultimately show ?thesis by auto
qed

lemma bit_or_mask [bit_simps']: "bit (b OR bit_mask i) k \<longleftrightarrow> bit b k \<or> k = nat (i mod 8)"
  by (simp add: bit_or_iff bit_mask_bit)

lemma bit_andnot_mask [bit_simps']:
  "k < 8 \<Longrightarrow> bit (b AND NOT (bit_mask i)) k \<longleftrightarrow> bit b k \<and> k \<noteq> nat (i mod 8)"
  by (auto simp: bit_and_iff bit_not_iff bit_mask_bit)

lemma byte_pos_eq: "i div 8 = j div 8 \<Longrightarrow> nat (i mod 8) = nat (j mod 8) \<longleftrightarrow> i = (j::int)"
proof -
  assume d: "i div 8 = j div 8"
  have "nat (i mod 8) = nat (j mod 8) \<longleftrightarrow> i mod 8 = j mod 8"
    using pos_mod_sign [of 8 i] pos_mod_sign [of 8 j] by (metis eq_nat_nat_iff zero_less_numeral)
  also have "\<dots> \<longleftrightarrow> i = j"
    using d by (metis mult_div_mod_eq)
  finally show ?thesis .
qed

subsection \<open>Multiples of the word length\<close>

lemma div_mult64 [simp]: "64 * x div 8 = 8 * (x::int)" "64 * x div 64 = (x::int)"
proof -
  show "64 * x div 8 = 8 * x" by simp
  show "64 * x div 64 = x" by simp
qed

lemma less_8_div: "(n::nat) < 8 * (n div 8 + 1)"
proof -
  have "8 * (n div 8) + n mod 8 < 8 * (n div 8) + 8" by simp
  then show ?thesis by (simp only: mult_div_mod_eq distrib_left mult_1_right)
qed

lemma unat_u32_less: "unat (x :: u32) < 4294967296"
proof -
  have "unat x < 2 ^ LENGTH(32)" by (rule unsigned_less)
  then show ?thesis by simp
qed

lemma unat_byte_less: "unat (x :: byte) < 256"
proof -
  have "unat x < 2 ^ LENGTH(8)" by (rule unsigned_less)
  then show ?thesis by simp
qed

end
