(* ===== verification/Bitmap.thy ===== *)
theory Bitmap
  imports AwaPrelude
begin

text \<open>
  The raw bitmap of \<open>util/bitmap.cc\<close>: a block of bytes, bit \<open>id\<close> of which is bit \<open>id & 7\<close> of
  byte \<open>id >> 3\<close>. The contract of a bitmap is the locale \<open>bit_store\<close>, interpreted here on
  the raw operations and in \<open>BitmapManager\<close> on the checked ones.
\<close>

subsection \<open>Operations\<close>

text \<open>
  \<open>bitmap_create\<close>: \<open>bytes_count = (size >> 3) + 1\<close> zeroed bytes. A negative count is converted to a
  huge \<open>size_t\<close>, for which \<open>malloc\<close> returns null, and \<open>bitmap_create\<close> returns -1: here \<open>None\<close>.
\<close>

definition bitmap_create :: "int \<Rightarrow> byte list option" where
  "bitmap_create n = (if n div 8 + 1 < 0 then None else Some (replicate (nat (n div 8 + 1)) 0))"

definition bitmap_test :: "byte list \<Rightarrow> int \<Rightarrow> bool option" where
  "bitmap_test bm i = do { b \<leftarrow> fetch bm (i div 8); Some (b AND bit_mask i \<noteq> 0) }"

definition bitmap_set :: "byte list \<Rightarrow> int \<Rightarrow> byte list option" where
  "bitmap_set bm i = do { b \<leftarrow> fetch bm (i div 8); store bm (i div 8) (b OR bit_mask i) }"

definition bitmap_unset :: "byte list \<Rightarrow> int \<Rightarrow> byte list option" where
  "bitmap_unset bm i = do { b \<leftarrow> fetch bm (i div 8); store bm (i div 8) (b AND NOT (bit_mask i)) }"

subsection \<open>The set a bitmap stands for\<close>

definition bm_dom :: "byte list \<Rightarrow> int set" where
  "bm_dom bm = {i. 0 \<le> i \<and> i < 8 * int (length bm)}"

definition bm_set :: "byte list \<Rightarrow> int set" where
  "bm_set bm = {i. i \<in> bm_dom bm \<and> bit (bm ! nat (i div 8)) (nat (i mod 8))}"

lemma bm_dom_iff: "i \<in> bm_dom bm \<longleftrightarrow> 0 \<le> i div 8 \<and> i div 8 < int (length bm)"
  by (auto simp: bm_dom_def)

lemma bm_set_dom: "bm_set bm \<subseteq> bm_dom bm"
  by (auto simp: bm_set_def)

lemma finite_bm_set [simp]: "finite (bm_set bm)"
proof (rule finite_subset [OF bm_set_dom])
  have "bm_dom bm = {0..<8 * int (length bm)}" by (auto simp: bm_dom_def)
  then show "finite (bm_dom bm)" by simp
qed

lemma bitmap_test_eq: "bitmap_test bm i = (if i \<in> bm_dom bm then Some (i \<in> bm_set bm) else None)"
  by (auto simp: bitmap_test_def fetch_def bm_dom_iff bm_set_def and_mask_iff)

lemma update_bit_set:
  assumes i: "i \<in> bm_dom bm"
    and b: "\<And>k. k < 8 \<Longrightarrow> bit b k \<longleftrightarrow> (if k = nat (i mod 8) then v else bit (bm ! nat (i div 8)) k)"
  shows "bm_set (bm[nat (i div 8) := b]) = (if v then insert i (bm_set bm) else bm_set bm - {i})"
proof -
  let ?bm = "bm[nat (i div 8) := b]"
  have d: "bm_dom ?bm = bm_dom bm" by (simp add: bm_dom_def)
  have "\<forall>j \<in> bm_dom bm. j \<in> bm_set ?bm \<longleftrightarrow> (if j = i then v else j \<in> bm_set bm)"
  proof
    fix j
    assume j: "j \<in> bm_dom bm"
    show "j \<in> bm_set ?bm \<longleftrightarrow> (if j = i then v else j \<in> bm_set bm)"
    proof (cases "j div 8 = i div 8")
      case True
      with i have "?bm ! nat (j div 8) = b"
        by (simp add: bm_dom_iff nat_less_iff)
      then have "j \<in> bm_set ?bm \<longleftrightarrow> bit b (nat (j mod 8))"
        using j d by (simp add: bm_set_def)
      also have "\<dots> \<longleftrightarrow> (if j = i then v else j \<in> bm_set bm)"
        using b [of "nat (j mod 8)"] byte_pos_eq [OF True] True j by (simp add: bm_set_def)
      finally show ?thesis .
    next
      case False
      with i j have "nat (j div 8) \<noteq> nat (i div 8)"
        by (simp add: bm_dom_iff nat_eq_iff2)
      then have "?bm ! nat (j div 8) = bm ! nat (j div 8)" by simp
      with False d show ?thesis by (auto simp only: bm_set_def mem_Collect_eq split: if_split)
    qed
  qed
  moreover have "bm_set ?bm \<subseteq> bm_dom bm" "bm_set bm \<subseteq> bm_dom bm"
    using d bm_set_dom by blast+
  ultimately show ?thesis
    using i by (auto split: if_splits)
qed

lemma bitmap_set_eq:
  assumes "i \<in> bm_dom bm"
  shows "bitmap_set bm i = Some (bm[nat (i div 8) := bm ! nat (i div 8) OR bit_mask i])"
  using assms by (auto simp: bitmap_set_def fetch_def store_def bm_dom_iff)

lemma bitmap_unset_eq:
  assumes "i \<in> bm_dom bm"
  shows "bitmap_unset bm i = Some (bm[nat (i div 8) := bm ! nat (i div 8) AND NOT (bit_mask i)])"
  using assms by (auto simp: bitmap_unset_def fetch_def store_def bm_dom_iff)

lemma bitmap_set_Some:
  assumes "bitmap_set bm i = Some bm'"
  shows "i \<in> bm_dom bm \<and> length bm' = length bm \<and> bm_set bm' = insert i (bm_set bm)"
proof -
  have i: "i \<in> bm_dom bm"
    using assms by (cases "fetch bm (i div 8)") (simp_all add: bitmap_set_def fetch_Some_iff bm_dom_iff)
  have "bm_set (bm[nat (i div 8) := bm ! nat (i div 8) OR bit_mask i]) = insert i (bm_set bm)"
    by (subst update_bit_set [OF i, where v = True]) (simp_all add: bit_or_mask)
  then show ?thesis using assms i by (simp add: bitmap_set_eq) (metis length_list_update)
qed

lemma bitmap_unset_Some:
  assumes "bitmap_unset bm i = Some bm'"
  shows "i \<in> bm_dom bm \<and> length bm' = length bm \<and> bm_set bm' = bm_set bm - {i}"
proof -
  have i: "i \<in> bm_dom bm"
    using assms by (cases "fetch bm (i div 8)") (simp_all add: bitmap_unset_def fetch_Some_iff bm_dom_iff)
  have "bm_set (bm[nat (i div 8) := bm ! nat (i div 8) AND NOT (bit_mask i)]) = bm_set bm - {i}"
    by (subst update_bit_set [OF i, where v = False]) (simp_all add: bit_andnot_mask)
  then show ?thesis using assms i by (simp add: bitmap_unset_eq) (metis length_list_update)
qed

lemma bitmap_create_Some:
  assumes "0 \<le> n"
  shows "\<exists>bm. bitmap_create n = Some bm \<and> {0..n} \<subseteq> bm_dom bm \<and> bm_set bm = {}
    \<and> int (length bm) = n div 8 + 1"
proof -
  have n: "bitmap_create n = Some (replicate (nat (n div 8 + 1)) 0)"
    using assms by (simp add: bitmap_create_def pos_imp_zdiv_nonneg_iff not_less)
  have "bm_set (replicate k 0) = {}" for k
    by (auto simp: bm_set_def bm_dom_iff nat_less_iff)
  moreover have "n < 8 * (n div 8 + 1)"
    by presburger
  then have "{0..n} \<subseteq> bm_dom (replicate (nat (n div 8 + 1)) 0)"
    using assms by (auto simp: bm_dom_def)
  ultimately show ?thesis using n assms by (simp add: pos_imp_zdiv_nonneg_iff)
qed

subsection \<open>The contract of a bitmap\<close>

locale bit_store =
  fixes tst :: "'s \<Rightarrow> int \<Rightarrow> bool option"
    and put :: "'s \<Rightarrow> int \<Rightarrow> 's option"
    and clr :: "'s \<Rightarrow> int \<Rightarrow> 's option"
    and ids :: "'s \<Rightarrow> int set"
    and members :: "'s \<Rightarrow> int set"
  assumes tst: "i \<in> ids s \<Longrightarrow> tst s i = Some (i \<in> members s)"
    and put_ok: "i \<in> ids s \<Longrightarrow> \<exists>s'. put s i = Some s'"
    and clr_ok: "i \<in> ids s \<Longrightarrow> \<exists>s'. clr s i = Some s'"
    and put: "i \<in> ids s \<Longrightarrow> put s i = Some s' \<Longrightarrow> ids s' = ids s \<and> members s' = insert i (members s)"
    and clr: "i \<in> ids s \<Longrightarrow> clr s i = Some s' \<Longrightarrow> ids s' = ids s \<and> members s' = members s - {i}"
begin

fun put_all :: "'s \<Rightarrow> int list \<Rightarrow> 's option" where
  "put_all s [] = Some s"
| "put_all s (i # is) = do { s' \<leftarrow> put s i; put_all s' is }"

lemma put_all_members:
  "set is \<subseteq> ids s \<Longrightarrow>
    \<exists>s'. put_all s is = Some s' \<and> ids s' = ids s \<and> members s' = members s \<union> set is"
proof (induction "is" arbitrary: s)
  case Nil
  then show ?case by simp
next
  case (Cons i "is")
  from Cons.prems have i: "i \<in> ids s" by simp
  then obtain s1 where s1: "put s i = Some s1" using put_ok by blast
  with put [OF i] have 1: "ids s1 = ids s" "members s1 = insert i (members s)" by auto
  with Cons.prems have "set is \<subseteq> ids s1" by simp
  from Cons.IH [OF this] s1 1 show ?case by auto
qed

lemma put_then_test:
  assumes "i \<in> ids s" and "j \<in> ids s" and "put s i = Some s'"
  shows "tst s' j = Some (j = i \<or> j \<in> members s)"
  using assms put [of i s s'] tst [of j s'] by auto

lemma clr_then_test:
  assumes "i \<in> ids s" and "j \<in> ids s" and "clr s i = Some s'"
  shows "tst s' j = Some (j \<noteq> i \<and> j \<in> members s)"
  using assms clr [of i s s'] tst [of j s'] by auto

end

interpretation raw: bit_store bitmap_test bitmap_set bitmap_unset bm_dom bm_set
proof
  fix i :: int and s s' :: "byte list"
  assume i: "i \<in> bm_dom s"
  show "bitmap_test s i = Some (i \<in> bm_set s)" using i by (simp add: bitmap_test_eq)
  show "\<exists>s'. bitmap_set s i = Some s'" using i by (simp add: bitmap_set_eq)
  show "\<exists>s'. bitmap_unset s i = Some s'" using i by (simp add: bitmap_unset_eq)
  show "bm_dom s' = bm_dom s \<and> bm_set s' = insert i (bm_set s)" if "bitmap_set s i = Some s'"
    using bitmap_set_Some [OF that] by (simp add: bm_dom_def)
  show "bm_dom s' = bm_dom s \<and> bm_set s' = bm_set s - {i}" if "bitmap_unset s i = Some s'"
    using bitmap_unset_Some [OF that] by (simp add: bm_dom_def)
qed

end
