(* ===== verification/DiskFile.thy ===== *)
theory DiskFile
  imports AwaPrelude
begin

text \<open>
  Files as byte lists. \<open>pwrite\<close> at an offset overwrites or extends a file, with zeros in a gap;
  \<open>pread\<close> returns the bytes that are there, fewer than asked for at the end of the file, and leaves the
  rest of the buffer as it was. The storage code ignores what the two calls return, so a failing
  disk is not modelled here. Integers in a file are little-endian.
\<close>

type_synonym u16 = "16 word"

definition write_at :: "byte list \<Rightarrow> nat \<Rightarrow> byte list \<Rightarrow> byte list" where
  "write_at file off bs =
     take off (file @ replicate (off - length file) 0) @ bs @ drop (off + length bs) file"

definition mem_slice :: "'a list \<Rightarrow> nat \<Rightarrow> nat \<Rightarrow> 'a list option" where
  "mem_slice xs off n = (if off + n \<le> length xs then Some (take n (drop off xs)) else None)"

definition pread :: "byte list \<Rightarrow> nat \<Rightarrow> nat \<Rightarrow> byte list" where
  "pread fl off n = take n (drop off fl)"

text \<open>Writing at a position of a buffer, and the buffer a \<open>pread\<close> leaves.\<close>

definition splice :: "nat \<Rightarrow> byte list \<Rightarrow> byte list \<Rightarrow> byte list" where
  "splice pos bs b = take pos b @ bs @ drop (pos + length bs) b"

definition read_into :: "byte list \<Rightarrow> byte list \<Rightarrow> byte list" where
  "read_into b got = got @ drop (length got) b"

text \<open>\<open>ftruncate\<close>.\<close>

definition ftruncate :: "nat \<Rightarrow> byte list \<Rightarrow> byte list" where
  "ftruncate n fl = take n fl @ replicate (n - length fl) 0"

definition le32 :: "u32 \<Rightarrow> byte list" where
  "le32 x = [ucast x, ucast (drop_bit 8 x), ucast (drop_bit 16 x), ucast (drop_bit 24 x)]"

fun of_le32 :: "byte list \<Rightarrow> u32" where
  "of_le32 [a, b, c, d] = ucast a OR push_bit 8 (ucast b) OR push_bit 16 (ucast c) OR push_bit 24 (ucast d)"
| "of_le32 _ = 0"

lemma length_le32 [simp]: "length (le32 x) = 4"
  by (simp add: le32_def)

lemma of_le32_le32 [simp]: "of_le32 (le32 x) = x"
proof (rule bit_word_eqI)
  fix n assume "n < LENGTH(32)"
  then have "n < 8 \<or> 8 \<le> n \<and> n < 16 \<or> 16 \<le> n \<and> n < 24 \<or> 24 \<le> n \<and> n < 32" by auto
  then show "bit (of_le32 (le32 x)) n = bit x n"
    by (auto simp: le32_def bit_simps)
qed

lemma length_splice [simp]: "pos + length bs \<le> length b \<Longrightarrow> length (splice pos bs b) = length b"
  by (simp add: splice_def)

lemma splice_nth:
  "pos + length bs \<le> length b \<Longrightarrow> i < length b \<Longrightarrow>
    splice pos bs b ! i = (if pos \<le> i \<and> i < pos + length bs then bs ! (i - pos) else b ! i)"
  by (auto simp: splice_def nth_append)

lemma length_pread: "length (pread fl off n) = min n (length fl - off)"
  by (simp add: pread_def)

lemma pread_nth: "i < n \<Longrightarrow> off + i < length fl \<Longrightarrow> pread fl off n ! i = fl ! (off + i)"
  by (simp add: pread_def)

lemma read_into_full: "length got = length b \<Longrightarrow> read_into b got = got"
  by (simp add: read_into_def)

lemma length_read_into [simp]: "length got \<le> length b \<Longrightarrow> length (read_into b got) = length b"
  by (simp add: read_into_def)

lemma write_at_nth:
  "i < off \<Longrightarrow> i < length file \<Longrightarrow> write_at file off bs ! i = file ! i"
  "off \<le> i \<Longrightarrow> i < off + length bs \<Longrightarrow> write_at file off bs ! i = bs ! (i - off)"
  by (auto simp: write_at_def nth_append min_def)

lemma write_at_nth_after:
  "off + length bs \<le> i \<Longrightarrow> i < length fl \<Longrightarrow> write_at fl off bs ! i = fl ! i"
proof -
  assume a: "off + length bs \<le> i" "i < length fl"
  then have "take off (fl @ replicate (off - length fl) 0) = take off fl" by simp
  then show "write_at fl off bs ! i = fl ! i"
    using a by (auto simp: write_at_def nth_append)
qed

lemma write_at_length [simp]: "length (write_at file off bs) = max (length file) (off + length bs)"
  by (auto simp: write_at_def)

lemma mem_slice_Some: "mem_slice xs off n = Some ys \<longleftrightarrow> off + n \<le> length xs \<and> ys = take n (drop off xs)"
  by (auto simp: mem_slice_def)

text \<open>Reading back what was written, and what a write leaves alone.\<close>

lemma pread_write_same: "pread (write_at fl off bs) off (length bs) = bs"
  by (simp add: pread_def write_at_def)

lemma pread_write_other:
  assumes "a + n \<le> off \<or> off + length bs \<le> a" "a + n \<le> length fl"
  shows "pread (write_at fl off bs) a n = pread fl a n"
proof (rule nth_equalityI)
  show "length (pread (write_at fl off bs) a n) = length (pread fl a n)"
    using assms(2) by (simp add: length_pread)
next
  fix i assume "i < length (pread (write_at fl off bs) a n)"
  then have i: "i < n" by (simp add: length_pread)
  then have "write_at fl off bs ! (a + i) = fl ! (a + i)"
    using assms write_at_nth(1) [of "a + i" off fl bs] write_at_nth_after [of off bs "a + i" fl] by auto
  then show "pread (write_at fl off bs) a n ! i = pread fl a n ! i"
    using i assms(2) by (simp add: pread_nth)
qed

lemma pread_write_inside:
  assumes "a \<le> off" "off + length bs \<le> a + n" "a + n \<le> length fl"
  shows "pread (write_at fl off bs) a n = splice (off - a) bs (pread fl a n)"
proof (rule nth_equalityI)
  show l: "length (pread (write_at fl off bs) a n) = length (splice (off - a) bs (pread fl a n))"
    using assms by (simp add: length_pread)
  fix i assume "i < length (pread (write_at fl off bs) a n)"
  then have i: "i < n" by (simp add: length_pread)
  have "write_at fl off bs ! (a + i) = (if off \<le> a + i \<and> a + i < off + length bs then bs ! (a + i - off) else fl ! (a + i))"
    using assms i write_at_nth(1) [of "a + i" off fl bs] write_at_nth(2) [of off "a + i" bs fl]
      write_at_nth_after [of off bs "a + i" fl] by auto
  moreover have "a + i - off = i - (off - a)" using assms(1) by simp
  ultimately show "pread (write_at fl off bs) a n ! i = splice (off - a) bs (pread fl a n) ! i"
    using i assms by (simp add: pread_nth splice_nth length_pread) (auto simp: pread_nth)
qed

lemma pread_pread: "i + m \<le> n \<Longrightarrow> pread (pread fl off n) i m = pread fl (off + i) m"
  by (simp add: pread_def drop_take add.commute min_def)

lemma pread_whole: "length fl = n \<Longrightarrow> pread fl 0 n = fl"
  by (simp add: pread_def)

end
