(* ===== verification/BitmapManager.thy ===== *)
theory BitmapManager
  imports Bitmap DiskFile
begin

text \<open>
  Class \<open>BitmapManager\<close> of \<open>util/bitmap_manager.cc\<close>, which holds the deleted document ids: a
  bitmap with checked access, growth by doubling and a dump file. \<open>uint32_t\<close> values are words, so
  the bounds checks and sizes wrap as in the code.

  The system calls are inputs: \<open>opn\<close> gives the descriptor \<open>open\<close> returns for a path (-1 on an
  error), and \<open>io k n\<close> the value \<open>pwrite\<close> or \<open>pread\<close> returns on iteration \<open>k\<close> when asked for
  \<open>n\<close> bytes, by their manual between -1 and \<open>n\<close>. The file behind the descriptor is
  \<open>bm_file\<close>; \<open>pwrite\<close> past its end fills the gap with zeros.
\<close>

record bitmap_mgr =
  bm_bits :: "byte list option"
  bm_size :: u32
  bm_fd :: int
  bm_path :: string
  bm_file :: "byte list"

definition new_bitmap_mgr :: bitmap_mgr where
  "new_bitmap_mgr = \<lparr>bm_bits = None, bm_size = 0, bm_fd = -1, bm_path = [], bm_file = []\<rparr>"

definition bytes_count :: "u32 \<Rightarrow> u32" where
  "bytes_count bit_size = drop_bit 3 bit_size + 1"

text \<open>
  \<open>BM_Init\<close>: a bitmap handed in is zeroed in place, which is a fault when it is too short.
  \<open>file\<close> is the content of the file that \<open>open\<close> finds.
\<close>

definition BM_Init ::
    "(string \<Rightarrow> int) \<Rightarrow> (string \<Rightarrow> byte list) \<Rightarrow> bitmap_mgr \<Rightarrow> u32 \<Rightarrow> string \<Rightarrow> byte list option
      \<Rightarrow> (int \<times> bitmap_mgr) option" where
  "BM_Init opn content m bit_size fpath given =
     (if bit_size = 0 then Some (-1, m)
      else do {
        let n = unat (bytes_count bit_size);
        bits \<leftarrow> (case given of None \<Rightarrow> Some (replicate n 0)
                 | Some b \<Rightarrow> if n \<le> length b then Some (replicate n 0 @ drop n b) else None);
        let m1 = m\<lparr>bm_size := bit_size, bm_bits := Some bits\<rparr>;
        Some (if fpath \<noteq> [] \<and> bm_fd m = -1
              then (if opn fpath = -1 then -1 else 0,
                    m1\<lparr>bm_path := fpath, bm_fd := opn fpath, bm_file := content fpath\<rparr>)
              else (0, m1)) })"

definition BM_SetDumpFilePath ::
    "(string \<Rightarrow> int) \<Rightarrow> (string \<Rightarrow> byte list) \<Rightarrow> bitmap_mgr \<Rightarrow> string \<Rightarrow> int \<times> bitmap_mgr" where
  "BM_SetDumpFilePath opn content m fpath =
     (if fpath \<noteq> []
      then (if opn fpath = -1 then -1 else 0,
            m\<lparr>bm_path := fpath, bm_fd := opn fpath, bm_file := content fpath\<rparr>)
      else (-1, m))"

subsection \<open>The dump file\<close>

text \<open>
  The loop of \<open>BM_Dump\<close>. \<open>bytes\<close> is a \<open>uint32_t\<close>, so the -1 of a failed \<open>pwrite\<close> is
  \<open>2 ^ 32 - 1\<close> and \<open>written_bytes\<close> wraps; iteration 1000 gives up even when it was the last one
  needed. The kernel reads the bytes it writes, which is a fault outside the bitmap; a failed or
  empty \<open>pwrite\<close> reads nothing.
\<close>

function dump_loop :: "(nat \<Rightarrow> u32 \<Rightarrow> int) \<Rightarrow> byte list \<Rightarrow> u32 \<Rightarrow> u32 \<Rightarrow> u32 \<Rightarrow> nat \<Rightarrow> byte list
    \<Rightarrow> (int \<times> byte list) option" where
  "dump_loop io bits begin_b dump_b written k file =
     (if written < dump_b \<and> k < 1000 then
        let r = io k (dump_b - written); off = unat (begin_b + written) in
        case (if r \<le> 0 then Some file
              else map_option (write_at file off) (mem_slice bits off (nat r))) of
          None \<Rightarrow> None
        | Some file' \<Rightarrow>
            let written' = written + word_of_int r in
            if Suc k \<ge> 1000 then Some (-1, file')
            else dump_loop io bits begin_b dump_b written' (Suc k) file'
      else Some (0, file))"
  by pat_completeness auto
termination
  by (relation "measure (\<lambda>(io, bits, b, d, w, k, file). 1000 - k)") auto

text \<open>The range check of \<open>BM_Dump\<close> and \<open>BM_Load\<close>; an unsigned value is never below zero.\<close>

definition range_bad :: "bitmap_mgr \<Rightarrow> u32 \<Rightarrow> u32 \<Rightarrow> bool" where
  "range_bad m begin_bit bit_len \<longleftrightarrow> bm_size m < begin_bit + bit_len"

definition BM_Dump :: "(nat \<Rightarrow> u32 \<Rightarrow> int) \<Rightarrow> bitmap_mgr \<Rightarrow> u32 \<Rightarrow> u32 \<Rightarrow> (int \<times> bitmap_mgr) option" where
  "BM_Dump io m begin_bit bit_len0 =
     (let bit_len = (if bit_len0 = 0 then bm_size m else bit_len0) in
      if range_bad m begin_bit bit_len then Some (-1, m)
      else let begin_b = drop_bit 3 begin_bit;
               end_b = drop_bit 3 (begin_bit + bit_len - 1);
               dump_b = end_b - begin_b + 1 in
        if bm_fd m \<noteq> -1 then
          do { (ret, file) \<leftarrow> dump_loop io (case bm_bits m of None \<Rightarrow> [] | Some b \<Rightarrow> b)
                                begin_b dump_b 0 0 (bm_file m);
               Some (ret, m\<lparr>bm_file := file\<rparr>) }
        else Some (-1, m))"

text \<open>The loop of \<open>BM_Load\<close>; \<open>pread\<close> returns at most what the file still holds.\<close>

function load_loop :: "(nat \<Rightarrow> u32 \<Rightarrow> int) \<Rightarrow> byte list \<Rightarrow> u32 \<Rightarrow> u32 \<Rightarrow> u32 \<Rightarrow> nat \<Rightarrow> byte list
    \<Rightarrow> (int \<times> byte list) option" where
  "load_loop io file begin_b load_b rd k bits =
     (if rd < load_b \<and> k < 1000 then
        let off = unat (begin_b + rd);
            r = min (io k (load_b - rd)) (max 0 (int (length file) - int off)) in
        case (if r \<le> 0 then Some bits
              else if off + nat r \<le> length bits
              then Some (write_at bits off (take (nat r) (drop off file))) else None) of
          None \<Rightarrow> None
        | Some bits' \<Rightarrow>
            let rd' = rd + word_of_int r in
            if Suc k \<ge> 1000 then Some (-1, bits')
            else load_loop io file begin_b load_b rd' (Suc k) bits'
      else Some (0, bits))"
  by pat_completeness auto
termination
  by (relation "measure (\<lambda>(io, file, b, d, w, k, bits). 1000 - k)") auto

declare dump_loop.simps [simp del] load_loop.simps [simp del]

definition BM_Load :: "(nat \<Rightarrow> u32 \<Rightarrow> int) \<Rightarrow> bitmap_mgr \<Rightarrow> u32 \<Rightarrow> u32 \<Rightarrow> (int \<times> bitmap_mgr) option" where
  "BM_Load io m begin_bit bit_len0 =
     (let bit_len = (if bit_len0 = 0 then bm_size m else bit_len0) in
      if range_bad m begin_bit bit_len then Some (-1, m)
      else let begin_b = drop_bit 3 begin_bit;
               end_b = drop_bit 3 (begin_bit + bit_len - 1);
               load_b = end_b - begin_b + 1 in
        if bm_fd m \<noteq> -1 then
          do { (ret, bits) \<leftarrow> load_loop io (bm_file m) begin_b load_b 0 0
                                (case bm_bits m of None \<Rightarrow> [] | Some b \<Rightarrow> b);
               Some (ret, m\<lparr>bm_bits := map_option (\<lambda>_. bits) (bm_bits m)\<rparr>) }
        else Some (-1, m))"

definition BM_FileBytesSize :: "bitmap_mgr \<Rightarrow> u32" where
  "BM_FileBytesSize m = (if bm_fd m \<noteq> -1 then of_nat (length (bm_file m)) else 0)"

subsection \<open>Bits\<close>

definition BM_Set :: "bitmap_mgr \<Rightarrow> u32 \<Rightarrow> (int \<times> bitmap_mgr) option" where
  "BM_Set m bit_id =
     (case bm_bits m of
        Some bits \<Rightarrow>
          if bit_id < bm_size m
          then do { bits' \<leftarrow> bitmap_set bits (uint bit_id); Some (0, m\<lparr>bm_bits := Some bits'\<rparr>) }
          else Some (-1, m)
      | None \<Rightarrow> Some (-1, m))"

definition BM_Unset :: "bitmap_mgr \<Rightarrow> u32 \<Rightarrow> (int \<times> bitmap_mgr) option" where
  "BM_Unset m bit_id =
     (case bm_bits m of
        Some bits \<Rightarrow>
          if bit_id < bm_size m
          then do { bits' \<leftarrow> bitmap_unset bits (uint bit_id); Some (0, m\<lparr>bm_bits := Some bits'\<rparr>) }
          else Some (-1, m)
      | None \<Rightarrow> Some (-1, m))"

definition BM_Test :: "bitmap_mgr \<Rightarrow> u32 \<Rightarrow> bool option" where
  "BM_Test m bit_id =
     (case bm_bits m of
        Some bits \<Rightarrow> if bit_id < bm_size m then bitmap_test bits (uint bit_id) else Some False
      | None \<Rightarrow> Some False)"

text \<open>
  \<open>BM_SetMaxID\<close> doubles the bitmap once; \<open>memcpy\<close> of the old bytes is a fault when the doubled
  size has wrapped below them. The old block is freed later by a timer.
\<close>

definition BM_SetMaxID :: "(nat \<Rightarrow> u32 \<Rightarrow> int) \<Rightarrow> bitmap_mgr \<Rightarrow> u32 \<Rightarrow> bitmap_mgr option" where
  "BM_SetMaxID io m bit_id =
     (if bm_size m > bit_id then Some m
      else let old_n = unat (bytes_count (bm_size m));
               size' = bm_size m * 2;
               n = unat (bytes_count size') in
        do { old \<leftarrow> bm_bits m;
             src \<leftarrow> mem_slice old 0 old_n;
             bits \<leftarrow> (if old_n \<le> n then Some (src @ replicate (n - old_n) 0) else None);
             (ret, m') \<leftarrow> BM_Dump io (m\<lparr>bm_size := size', bm_bits := Some bits\<rparr>) 0 0;
             Some m' })"

subsection \<open>The checked operations meet the contract of a bitmap\<close>

definition mgr_ok :: "bitmap_mgr \<Rightarrow> bool" where
  "mgr_ok m \<longleftrightarrow> (case bm_bits m of None \<Rightarrow> False
     | Some b \<Rightarrow> length b = unat (bytes_count (bm_size m)))"

text \<open>No stray bit is set in the last byte, as long as bits are only set through the manager.\<close>

definition mgr_clean :: "bitmap_mgr \<Rightarrow> bool" where
  "mgr_clean m \<longleftrightarrow> (case bm_bits m of None \<Rightarrow> True | Some b \<Rightarrow> bm_set b \<subseteq> {0..<uint (bm_size m)})"

definition mgr_bits :: "bitmap_mgr \<Rightarrow> byte list" where
  "mgr_bits m = (case bm_bits m of None \<Rightarrow> [] | Some b \<Rightarrow> b)"

definition mgr_ids :: "bitmap_mgr \<Rightarrow> int set" where
  "mgr_ids m = (if mgr_ok m then {0..<uint (bm_size m)} else {})"

definition mgr_set :: "bitmap_mgr \<Rightarrow> int set" where
  "mgr_set m = bm_set (mgr_bits m) \<inter> mgr_ids m"

definition mgr_test :: "bitmap_mgr \<Rightarrow> int \<Rightarrow> bool option" where
  "mgr_test m i = BM_Test m (word_of_int i)"

definition mgr_put :: "bitmap_mgr \<Rightarrow> int \<Rightarrow> bitmap_mgr option" where
  "mgr_put m i = map_option snd (BM_Set m (word_of_int i))"

definition mgr_clr :: "bitmap_mgr \<Rightarrow> int \<Rightarrow> bitmap_mgr option" where
  "mgr_clr m i = map_option snd (BM_Unset m (word_of_int i))"

lemma unat_bytes_count: "unat (bytes_count s) = unat s div 8 + 1"
proof -
  have "unat (drop_bit 3 s) = unat s div 8"
    by (simp add: drop_bit_eq_div unat_div)
  moreover have "unat s div 8 + 1 < 2 ^ 32"
    using unat_u32_less [of s] by simp
  ultimately show ?thesis
    by (simp add: bytes_count_def unat_word_ariths)
qed

lemma mgr_ids_dom: "i \<in> mgr_ids m \<Longrightarrow> i \<in> bm_dom (mgr_bits m)"
proof -
  assume i: "i \<in> mgr_ids m"
  then have ok: "mgr_ok m" and b: "0 \<le> i" "i < uint (bm_size m)"
    by (auto simp: mgr_ids_def split: if_splits)
  have "length (mgr_bits m) = unat (bm_size m) div 8 + 1"
    using ok by (auto simp: mgr_ok_def mgr_bits_def unat_bytes_count split: option.splits)
  moreover have "nat i < unat (bm_size m)" using b by (simp add: nat_less_iff)
  then have "nat i < 8 * (unat (bm_size m) div 8 + 1)"
    using less_8_div less_trans by blast
  ultimately show ?thesis using b(1) by (simp add: bm_dom_def nat_less_iff)
qed

lemma uint_of_id:
  assumes "i \<in> mgr_ids m"
  shows "uint (word_of_int i :: u32) = i" and "(word_of_int i :: u32) < bm_size m"
proof -
  have b: "0 \<le> i" "i < uint (bm_size m)" using assms by (auto simp: mgr_ids_def split: if_splits)
  then have "i < 2 ^ 32" using uint_bounded [of "bm_size m"] by simp
  with b(1) show u: "uint (word_of_int i :: u32) = i"
    by (simp add: uint_word_of_int_eq take_bit_int_eq_self)
  show "(word_of_int i :: u32) < bm_size m" using b(2) u by (simp add: word_less_def)
qed

lemma mgr_bits_Some: "i \<in> mgr_ids m \<Longrightarrow> bm_bits m = Some (mgr_bits m)"
  by (auto simp: mgr_ids_def mgr_ok_def mgr_bits_def split: if_splits option.splits)

lemma mgr_ok_update:
  assumes "bm_bits m = Some b" and "length b' = length b"
  shows "mgr_ids (m\<lparr>bm_bits := Some b'\<rparr>) = mgr_ids m"
  using assms by (simp add: mgr_ids_def mgr_ok_def)

interpretation mgr: bit_store mgr_test mgr_put mgr_clr mgr_ids mgr_set
proof
  fix i :: int and s s' :: bitmap_mgr
  assume i: "i \<in> mgr_ids s"
  note b = mgr_bits_Some [OF i] and u = uint_of_id [OF i] and d = mgr_ids_dom [OF i]
  show "mgr_test s i = Some (i \<in> mgr_set s)"
    using b u d i by (simp add: mgr_test_def BM_Test_def bitmap_test_eq mgr_set_def)
  show "\<exists>s'. mgr_put s i = Some s'"
    using b u raw.put_ok [OF d] by (auto simp: mgr_put_def BM_Set_def)
  show "\<exists>s'. mgr_clr s i = Some s'"
    using b u raw.clr_ok [OF d] by (auto simp: mgr_clr_def BM_Unset_def)
  show "mgr_ids s' = mgr_ids s \<and> mgr_set s' = insert i (mgr_set s)" if "mgr_put s i = Some s'"
  proof -
    obtain b' where b': "bitmap_set (mgr_bits s) i = Some b'" using raw.put_ok [OF d] by blast
    then have s': "s' = s\<lparr>bm_bits := Some b'\<rparr>" using that b u by (simp add: mgr_put_def BM_Set_def)
    from bitmap_set_Some [OF b'] mgr_ok_update [OF b, of b'] i show ?thesis
      by (auto simp: s' mgr_set_def mgr_bits_def)
  qed
  show "mgr_ids s' = mgr_ids s \<and> mgr_set s' = mgr_set s - {i}" if "mgr_clr s i = Some s'"
  proof -
    obtain b' where b': "bitmap_unset (mgr_bits s) i = Some b'" using raw.clr_ok [OF d] by blast
    then have s': "s' = s\<lparr>bm_bits := Some b'\<rparr>" using that b u by (simp add: mgr_clr_def BM_Unset_def)
    from bitmap_unset_Some [OF b'] mgr_ok_update [OF b, of b'] i show ?thesis
      by (auto simp: s' mgr_set_def mgr_bits_def)
  qed
qed

text \<open>The integer results of the checked operations.\<close>

lemma BM_Set_code:
  assumes "mgr_ok m"
  shows "\<exists>m'. BM_Set m bid = Some (if bid < bm_size m then 0 else -1, m') \<and> mgr_ok m' \<and>
    bm_size m' = bm_size m \<and>
    mgr_set m' = (if bid < bm_size m then insert (uint bid) (mgr_set m) else mgr_set m)"
proof (cases "bid < bm_size m")
  case True
  then have i: "uint bid \<in> mgr_ids m" using assms by (simp add: mgr_ids_def word_less_def)
  obtain m' where m': "mgr_put m (uint bid) = Some m'" using mgr.put_ok [OF i] by blast
  then obtain r where r: "BM_Set m bid = Some (r, m')" by (auto simp: mgr_put_def)
  have "r = 0 \<and> bm_size m' = bm_size m \<and> mgr_ok m'"
    using r True assms bitmap_set_Some
    by (auto simp: BM_Set_def mgr_ok_def split: option.splits bind_splits)
  with mgr.put [OF i m'] r True show ?thesis by auto
next
  case False
  then show ?thesis
    using assms by (auto simp: BM_Set_def mgr_ok_def split: option.splits)
qed

subsection \<open>Growing\<close>

lemma bm_set_append_zeros: "bm_set (b @ replicate k 0) = bm_set b"
proof (rule set_eqI)
  fix i
  show "i \<in> bm_set (b @ replicate k 0) \<longleftrightarrow> i \<in> bm_set b"
  proof (cases "nat (i div 8) < length b")
    case True
    then show ?thesis by (auto simp: bm_set_def bm_dom_iff nth_append)
  next
    case False
    then have "bit ((b @ replicate k 0) ! nat (i div 8)) n = False" if "i \<in> bm_dom (b @ replicate k 0)" for n
      using that by (simp add: bm_dom_iff nth_append nat_less_iff)
    with False show ?thesis by (auto simp: bm_set_def bm_dom_iff)
  qed
qed

subsection \<open>The transfer loops\<close>

text \<open>The manual's bound on a transfer, and a transfer that makes progress (a short one at worst).\<close>

definition io_ok :: "(nat \<Rightarrow> u32 \<Rightarrow> int) \<Rightarrow> bool" where
  "io_ok io \<longleftrightarrow> (\<forall>k n. -1 \<le> io k n \<and> io k n \<le> uint n)"

definition io_live :: "(nat \<Rightarrow> u32 \<Rightarrow> int) \<Rightarrow> bool" where
  "io_live io \<longleftrightarrow> (\<forall>k n. io k n \<le> uint n \<and> (n \<noteq> 0 \<longrightarrow> 1 \<le> io k n))"

lemma u32_sub: "w \<le> d \<Longrightarrow> unat (d - w :: u32) = unat d - unat w"
  by (simp add: unat_sub_if_size word_le_nat_alt)

lemma u32_add:
  assumes "unat b + unat w < 4294967296"
  shows "unat (b + w :: u32) = unat b + unat w"
  using assms by (simp add: unat_word_ariths)

lemma u32_advance:
  assumes "0 \<le> r" and "unat w + nat r < 4294967296"
  shows "unat (w + word_of_int r :: u32) = unat w + nat r"
proof -
  have "unat (word_of_int r :: u32) = nat r"
  proof -
    have "nat r < 4294967296" using assms(2) by linarith
    then have "r < 2 ^ 32" using assms(1) by simp
    then have "uint (word_of_int r :: u32) = r"
      using assms(1) by (simp add: uint_word_of_int_eq take_bit_int_eq_self)
    then show ?thesis by (metis nat_uint_eq)
  qed
  with u32_add [of w "word_of_int r"] assms show ?thesis by simp
qed

lemma step_facts:
  assumes "(w :: u32) < d" and "unat b + unat d < 4294967296" and "r \<le> uint (d - w)"
  shows "unat (b + w) = unat b + unat w" and "nat r \<le> unat d - unat w"
    and "0 \<le> r \<Longrightarrow> unat (w + word_of_int r) = unat w + nat r"
    and "0 \<le> r \<Longrightarrow> w + word_of_int r \<le> d"
proof -
  have wd: "unat w < unat d" using assms(1) by (simp add: word_less_nat_alt)
  show "unat (b + w) = unat b + unat w" by (rule u32_add) (use assms(2) wd in linarith)
  have "uint (d - w) = int (unat d - unat w)"
    using assms(1) u32_sub [of w d] by (metis int_nat_eq nat_uint_eq uint_nat order_less_imp_le)
  with assms(3) show r: "nat r \<le> unat d - unat w" by simp
  show a: "unat (w + word_of_int r) = unat w + nat r" if "0 \<le> r"
    by (rule u32_advance [OF that]) (use assms(2) r wd in linarith)
  show "w + word_of_int r \<le> d" if "0 \<le> r"
    using a [OF that] r wd by (simp add: word_le_nat_alt)
qed

lemma dump_loop_safe:
  assumes "unat b + unat d \<le> length bits" and "unat b + unat d < 4294967296" and "io_ok io"
  shows "\<exists>res. dump_loop io bits b d w k fl = Some res"
  using assms
proof (induction io bits b d w k fl rule: dump_loop.induct)
  case (1 io bits b d w k fl)
  show ?case
  proof (cases "w < d \<and> k < 1000")
    case True
    define r where "r = io k (d - w)"
    have r: "r \<le> uint (d - w)" using "1.prems"(3) by (simp add: io_ok_def r_def)
    note f = step_facts [OF _ "1.prems"(2) r]
    have wd: "unat w < unat d" using True by (simp add: word_less_nat_alt)
    have "unat (b + w) + nat r \<le> length bits" using f(1,2) True "1.prems"(1) wd by simp
    then have "\<exists>x. (if r \<le> 0 then Some fl
        else map_option (write_at fl (unat (b + w))) (mem_slice bits (unat (b + w)) (nat r))) = Some x"
      by (simp add: mem_slice_def)
    then obtain fl' where f': "(if r \<le> 0 then Some fl
        else map_option (write_at fl (unat (b + w))) (mem_slice bits (unat (b + w)) (nat r))) = Some fl'"
      by blast
    then show ?thesis
      using True "1.IH" [OF True r_def refl f' refl] "1.prems"
      by (subst dump_loop.simps) (auto simp: Let_def r_def [symmetric])
  next
    case False
    then show ?thesis by (subst dump_loop.simps) auto
  qed
qed

text \<open>A dump loop that returns 0 and never failed has copied its whole range.\<close>

lemma dump_loop_copies:
  assumes "unat b + unat d \<le> length bits" and "unat b + unat d < 4294967296" and "io_live io"
    and "w \<le> d" and "dump_loop io bits b d w k fl = Some (0, fl')"
    and "unat b + unat w \<le> length fl" and "k < 1000"
  shows "unat b + unat d \<le> length fl' \<and>
    (\<forall>i < unat b + unat d. fl' ! i = (if i < unat b + unat w then fl ! i else bits ! i))"
  using assms
proof (induction io bits b d w k fl rule: dump_loop.induct)
  case (1 io bits b d w k fl)
  show ?case
  proof (cases "w < d")
    case True
    define r where "r = io k (d - w)"
    have "d - w \<noteq> 0" using True by simp
    then have r: "r \<le> uint (d - w)" "1 \<le> r" using "1.prems"(3) by (auto simp: io_live_def r_def)
    note f = step_facts [OF True "1.prems"(2) r(1)]
    have wd: "unat w < unat d" using True by (simp add: word_less_nat_alt)
    let ?off = "unat (b + w)"
    have off: "?off + nat r \<le> length bits" using f(1,2) "1.prems"(1) wd by simp
    define bs where "bs = take (nat r) (drop ?off bits)"
    have sl: "mem_slice bits ?off (nat r) = Some bs" using off by (simp add: mem_slice_def bs_def)
    let ?fl = "write_at fl ?off bs"
    have n: "unat (w + word_of_int r) = unat w + nat r" "w + word_of_int r \<le> d"
      using f(3,4) r(2) by auto
    have len: "length bs = nat r" using off by (simp add: bs_def)
    have step: "dump_loop io bits b d (w + word_of_int r) (Suc k) ?fl = Some (0, fl')" "Suc k < 1000"
      using "1.prems"(5,7) True r sl by (subst (asm) dump_loop.simps, auto simp: Let_def r_def [symmetric] split: if_splits)+
    have l: "unat b + unat (w + word_of_int r) \<le> length ?fl"
      using n f(1) len by (simp add: write_at_length)
    have c: "w < d \<and> k < 1000" using True "1.prems"(7) by simp
    have st: "(if r \<le> 0 then Some fl else map_option (write_at fl ?off) (mem_slice bits ?off (nat r))) = Some ?fl"
      using r sl by simp
    have "\<not> 1000 \<le> Suc k" using step(2) by simp
    note 2 = "1.IH" [OF c r_def refl st refl this "1.prems"(1-3) n(2) step(1) l step(2)]
    have ih: "unat b + unat d \<le> length fl'"
      "\<And>i. i < unat b + unat d \<Longrightarrow> fl' ! i = (if i < unat b + unat (w + word_of_int r) then ?fl ! i else bits ! i)"
      using 2 by blast+
    have "?fl ! i = (if i < unat b + unat w then fl ! i else bits ! i)" if "i < unat b + unat w + nat r" for i
      using that f(1) len "1.prems"(6) off write_at_nth(1) [of i ?off fl bs] write_at_nth(2) [of ?off i bs fl]
      by (auto simp: bs_def)
    with ih n show ?thesis by auto
  next
    case False
    then have "w = d" using "1.prems"(4) by simp
    moreover have "fl' = fl" using False "1.prems"(5) by (subst (asm) dump_loop.simps) auto
    ultimately show ?thesis using "1.prems"(6) by simp
  qed
qed

lemma load_loop_step:
  assumes "w < d" and "k < 1000" and "off = unat (b + w)"
    and "r = min (io k (d - w)) (max 0 (int (length fl) - int off))"
    and "(if r \<le> 0 then Some bits else if off + nat r \<le> length bits
          then Some (write_at bits off (take (nat r) (drop off fl))) else None) = Some bits1"
  shows "load_loop io fl b d w k bits =
    (if Suc k \<ge> 1000 then Some (-1, bits1)
     else load_loop io fl b d (w + word_of_int r) (Suc k) bits1)"
  unfolding load_loop.simps [of io fl b d w k bits] Let_def assms(3,4) [symmetric] assms(5)
  using assms(1,2) by simp

lemma load_loop_copies:
  assumes "unat b + unat d \<le> length fl" and "unat b + unat d < 4294967296" and "io_live io"
    and "w \<le> d" and "load_loop io fl b d w k bits = Some (0, bits')"
    and "unat b + unat d \<le> length bits" and "k < 1000"
  shows "length bits' = length bits \<and>
    (\<forall>i < length bits. bits' ! i =
       (if unat b + unat w \<le> i \<and> i < unat b + unat d then fl ! i else bits ! i))"
  using assms
proof (induction io fl b d w k bits rule: load_loop.induct)
  case (1 io fl b d w k bits)
  show ?case
  proof (cases "w < d")
    case True
    let ?off = "unat (b + w)"
    define r where "r = min (io k (d - w)) (max 0 (int (length fl) - int ?off))"
    have "d - w \<noteq> 0" using True by simp
    then have r0: "io k (d - w) \<le> uint (d - w)" "1 \<le> io k (d - w)"
      using "1.prems"(3) by (auto simp: io_live_def)
    note f0 = step_facts [OF True "1.prems"(2) r0(1)]
    have wd: "unat w < unat d" using True by (simp add: word_less_nat_alt)
    have "int ?off + io k (d - w) \<le> int (length fl)" using f0(1,2) r0(2) "1.prems"(1) wd by linarith
    then have rr: "r = io k (d - w)" by (simp add: r_def)
    have r: "r \<le> uint (d - w)" "1 \<le> r" using r0 rr by auto
    note f = step_facts [OF True "1.prems"(2) r(1)]
    have off: "?off + nat r \<le> length fl" "?off + nat r \<le> length bits"
      using f(1,2) "1.prems"(1,6) wd by simp_all
    define bs where "bs = take (nat r) (drop ?off fl)"
    let ?bits = "write_at bits ?off bs"
    have n: "unat (w + word_of_int r) = unat w + nat r" "w + word_of_int r \<le> d"
      using f(3,4) r(2) by auto
    have len: "length bs = nat r" using off by (simp add: bs_def)
    have st: "(if r \<le> 0 then Some bits else if ?off + nat r \<le> length bits
        then Some (write_at bits ?off (take (nat r) (drop ?off fl))) else None) = Some ?bits"
      using r off by (simp add: bs_def)
    have step: "load_loop io fl b d (w + word_of_int r) (Suc k) ?bits = Some (0, bits')" "Suc k < 1000"
      using "1.prems"(5,7) load_loop_step [of w d k ?off b r io fl bits ?bits, OF True "1.prems"(7) refl r_def st] by (auto split: if_splits)
    have l: "length ?bits = length bits" using off len by (simp add: write_at_length)
    have c: "w < d \<and> k < 1000" using True "1.prems"(7) by simp
    have "\<not> 1000 \<le> Suc k" using step(2) by simp
    note 2 = "1.IH" [OF c refl r_def st refl this "1.prems"(1-3) n(2) step(1) _ step(2), unfolded l,
        OF "1.prems"(6)]
    have b: "?bits ! i = (if ?off \<le> i \<and> i < ?off + nat r then fl ! i else bits ! i)"
      if i: "i < length bits" for i
    proof -
      consider "i < ?off" | "?off \<le> i" "i < ?off + nat r" | "?off + nat r \<le> i" by linarith
      then show ?thesis
      proof cases
        case 1
        then show ?thesis using i write_at_nth(1) [of i ?off bits bs] by simp
      next
        case 2
        then have "bs ! (i - ?off) = fl ! i" using off by (simp add: bs_def)
        with 2 show ?thesis using len write_at_nth(2) [of ?off i bs bits] by simp
      next
        case 3
        then show ?thesis using i len write_at_nth_after [of ?off bs i bits] by simp
      qed
    qed
    have e: "?off = unat b + unat w" "unat b + unat (w + word_of_int r) = unat b + unat w + nat r"
      using n(1) f(1) by simp_all
    from 2 have "length bits' = length bits" by blast
    moreover have "bits' ! i = (if unat b + unat w \<le> i \<and> i < unat b + unat d then fl ! i else bits ! i)"
      if i: "i < length bits" for i
    proof -
      have "bits' ! i = (if unat b + unat w + nat r \<le> i \<and> i < unat b + unat d then fl ! i else ?bits ! i)"
        using 2 i unfolding e(2) by blast
      then show ?thesis using b [OF i, unfolded e(1)] f(2) wd unfolding e(1) by (auto split: if_splits)
    qed
    ultimately show ?thesis by blast
  next
    case False
    then have "w = d" using "1.prems"(4) by simp
    moreover have "bits' = bits" using False "1.prems"(5) by (subst (asm) load_loop.simps) auto
    ultimately show ?thesis by auto
  qed
qed

subsection \<open>Dump and load\<close>

text \<open>The byte range of a run of bits: its byte count and that it lies inside the bitmap.\<close>

lemma byte_range:
  assumes "0 < unat l" and "unat b + unat l \<le> unat s"
  shows "unat (drop_bit 3 b :: u32) + unat (drop_bit 3 (b + l - 1) - drop_bit 3 b + 1 :: u32)
      = (unat b + unat l - 1) div 8 + 1"
    and "(unat b + unat l - 1) div 8 + 1 \<le> unat (bytes_count s)"
    and "unat (bytes_count s) < 4294967296"
    and "unat (drop_bit 3 b :: u32) = unat b div 8"
proof -
  have d: "unat (drop_bit 3 x) = unat x div 8" for x :: u32
    by (simp add: drop_bit_eq_div unat_div)
  show "unat (drop_bit 3 b :: u32) = unat b div 8" by (rule d)
  have bl: "unat (b + l) = unat b + unat l"
    by (rule u32_add) (use assms(2) unat_u32_less [of s] in linarith)
  have "1 \<le> b + l" using bl assms(1) by (simp add: word_le_nat_alt)
  then have e: "unat (b + l - 1) = unat b + unat l - 1" using bl by (simp add: u32_sub)
  have le: "drop_bit 3 b \<le> drop_bit 3 (b + l - 1)"
    using assms(1) by (auto simp: word_le_nat_alt d e intro: div_le_mono)
  have x: "(unat b + unat l - 1) div 8 < 4294967295"
    using assms(2) unat_u32_less [of s] by linarith
  then have x': "(unat b + unat l - 1) div 8 - unat b div 8 < 4294967295" by simp
  have "unat (drop_bit 3 (b + l - 1) - drop_bit 3 b + 1) = (unat b + unat l - 1) div 8 - unat b div 8 + 1"
    using u32_add [of "drop_bit 3 (b + l - 1) - drop_bit 3 b" 1] u32_sub [OF le] x' by (simp add: d e)
  then show "unat (drop_bit 3 b) + unat (drop_bit 3 (b + l - 1) - drop_bit 3 b + 1)
      = (unat b + unat l - 1) div 8 + 1"
    using le by (simp add: d e word_le_nat_alt)
  show "(unat b + unat l - 1) div 8 + 1 \<le> unat (bytes_count s)"
    using assms by (auto simp: unat_bytes_count intro!: div_le_mono)
  show "unat (bytes_count s) < 4294967296" by (rule unat_u32_less)
qed

lemma mgr_bits_length: "mgr_ok m \<Longrightarrow> length (mgr_bits m) = unat (bytes_count (bm_size m))"
  by (auto simp: mgr_ok_def mgr_bits_def split: option.splits)

text \<open>
  A dump without failed transfers, then a load of the same bits into a manager of the same size,
  restores every bit of the range, whatever the split into short transfers.
\<close>

lemma dump_load:
  assumes ok: "mgr_ok m" "mgr_ok m2" "bm_size m2 = bm_size m" "bm_fd m2 \<noteq> -1"
    and l: "0 < unat l" "unat b + unat l \<le> unat (bm_size m)"
    and io: "io_live io" "io_live io'"
    and fil: "unat b div 8 \<le> length (bm_file m)" "bm_file m2 = bm_file m1"
    and dump: "BM_Dump io m b l = Some (0, m1)" and load: "BM_Load io' m2 b l = Some (0, m3)"
    and i: "unat b div 8 \<le> i" "i \<le> (unat b + unat l - 1) div 8"
  shows "mgr_bits m3 ! i = mgr_bits m ! i" and "mgr_ok m3" and "bm_size m3 = bm_size m"
proof -
  note rng = byte_range [OF l]
  let ?b = "drop_bit 3 b" and ?d = "drop_bit 3 (b + l - 1) - drop_bit 3 b + 1"
  have l0: "l \<noteq> 0" using l(1) by auto
  have rb: "\<not> range_bad m b l" "\<not> range_bad m2 b l"
    using u32_add [of b l] l(2) ok(3) unat_u32_less [of "bm_size m"]
    by (simp_all add: range_bad_def word_less_nat_alt)
  have len: "unat ?b + unat ?d \<le> length (mgr_bits m)" "unat ?b + unat ?d \<le> length (mgr_bits m2)"
    "unat ?b + unat ?d < 4294967296"
    using rng mgr_bits_length [OF ok(1)] mgr_bits_length [OF ok(2)] ok(3) by auto
  have "dump_loop io (mgr_bits m) ?b ?d 0 0 (bm_file m) = Some (0, bm_file m1)"
    using dump rb l0 by (auto simp: BM_Dump_def Let_def mgr_bits_def [symmetric] split: if_splits bind_splits)
  from dump_loop_copies [OF len(1,3) io(1) _ this] fil(1) rng(4)
  have d: "unat ?b + unat ?d \<le> length (bm_file m1)"
    "\<And>i. i < unat ?b + unat ?d \<Longrightarrow> unat ?b \<le> i \<Longrightarrow> bm_file m1 ! i = mgr_bits m ! i"
    by (auto simp: word_le_nat_alt)
  obtain bits where lo: "load_loop io' (bm_file m2) ?b ?d 0 0 (mgr_bits m2) = Some (0, bits)"
    and m3: "m3 = m2\<lparr>bm_bits := map_option (\<lambda>_. bits) (bm_bits m2)\<rparr>"
    using load rb l0 ok(4) by (auto simp: BM_Load_def Let_def mgr_bits_def [symmetric] split: if_splits bind_splits)
  have "unat ?b + unat ?d \<le> length (bm_file m2)" using d(1) fil(2) by simp
  from load_loop_copies [OF this len(3) io(2) _ lo len(2)]
  have bits: "length bits = length (mgr_bits m2)"
    "\<And>i. i < length bits \<Longrightarrow> unat ?b \<le> i \<Longrightarrow> i < unat ?b + unat ?d \<Longrightarrow> bits ! i = bm_file m2 ! i"
    by (auto simp: word_le_nat_alt)
  have b3: "mgr_bits m3 = bits" "length bits = unat (bytes_count (bm_size m2))"
    using m3 ok(2) bits(1) mgr_bits_length [OF ok(2)]
    by (auto simp: mgr_bits_def mgr_ok_def split: option.splits)
  then show "mgr_ok m3" "bm_size m3 = bm_size m"
    using m3 ok by (auto simp: mgr_ok_def split: option.splits)
  show "mgr_bits m3 ! i = mgr_bits m ! i"
    using bits(2) [of i] d(2) [of i] i rng len(2) fil(2) b3(1) bits(1) by simp
qed

lemma BM_Dump_total:
  assumes "mgr_ok m" and "0 < unat (bm_size m)" and "io_ok io"
  shows "\<exists>r m'. BM_Dump io m 0 0 = Some (r, m') \<and> bm_bits m' = bm_bits m \<and> bm_size m' = bm_size m"
proof -
  let ?s = "bm_size m"
  have "unat (0 :: u32) + unat ?s \<le> unat ?s" by simp
  note rng = byte_range [OF assms(2) this]
  have "unat (drop_bit 3 (?s - 1) + 1 :: u32) \<le> length (mgr_bits m)"
    using rng(1,2) mgr_bits_length [OF assms(1)] by simp
  then obtain r fl where "dump_loop io (mgr_bits m) 0 (drop_bit 3 (?s - 1) + 1) 0 0 (bm_file m) = Some (r, fl)"
    using dump_loop_safe [of 0 "drop_bit 3 (?s - 1) + 1" "mgr_bits m" io 0 0 "bm_file m"] assms(3) unat_u32_less
    by auto
  then show ?thesis
    by (auto simp: BM_Dump_def Let_def range_bad_def mgr_bits_def [symmetric])
qed

text \<open>Doubling keeps the set, and \<open>size_\<close> is doubled once, whatever id was asked for.\<close>

lemma BM_SetMaxID_grow:
  assumes ok: "mgr_ok m" "mgr_clean m" and s: "0 < unat (bm_size m)" "unat (bm_size m) < 2147483648"
    and id: "bm_size m \<le> bit_id" and io: "io_ok io"
  shows "\<exists>m'. BM_SetMaxID io m bit_id = Some m' \<and> mgr_ok m' \<and> mgr_clean m' \<and>
    mgr_set m' = mgr_set m \<and> unat (bm_size m') = 2 * unat (bm_size m)"
proof -
  let ?s = "bm_size m * 2"
  let ?o = "unat (bytes_count (bm_size m))" and ?n = "unat (bytes_count ?s)"
  have s2: "unat ?s = 2 * unat (bm_size m)"
    using s(2) by (simp add: unat_word_ariths)
  have n: "?o \<le> ?n" unfolding unat_bytes_count s2 by (simp add: div_le_mono)
  let ?bits = "mgr_bits m @ replicate (?n - ?o) 0"
  let ?m = "m\<lparr>bm_size := ?s, bm_bits := Some ?bits\<rparr>"
  have some: "bm_bits m = Some (mgr_bits m)"
    using ok(1) by (auto simp: mgr_ok_def mgr_bits_def split: option.splits)
  have len: "length (mgr_bits m) = ?o" by (rule mgr_bits_length [OF ok(1)])
  have okm: "mgr_ok ?m" using len n by (simp add: mgr_ok_def)
  from BM_Dump_total [OF okm _ io] s(1) s2 obtain r m' where
    d: "BM_Dump io ?m 0 0 = Some (r, m')" "bm_bits m' = Some ?bits" "bm_size m' = ?s" by auto
  have "mem_slice (mgr_bits m) 0 ?o = Some (mgr_bits m)" using len by (simp add: mem_slice_def)
  then have "BM_SetMaxID io m bit_id = Some m'"
    using id some n d by (simp add: BM_SetMaxID_def Let_def)
  moreover have "mgr_ok m'" using d okm by (simp add: mgr_ok_def)
  moreover have b': "mgr_bits m' = ?bits" using d(2) by (simp add: mgr_bits_def)
  have c: "bm_set (mgr_bits m) \<subseteq> {0..<uint (bm_size m)}"
    using ok(2) some by (simp add: mgr_clean_def)
  have le: "uint (bm_size m) \<le> uint (bm_size m')"
    using d(3) s2 by (metis uint_nat of_nat_mono le_add1 mult_2)
  then have "mgr_clean m'" "mgr_set m' = mgr_set m"
    using c d(2) ok(1) \<open>mgr_ok m'\<close> unfolding mgr_set_def mgr_ids_def mgr_clean_def b' bm_set_append_zeros
    by (auto simp: bm_set_append_zeros)
  ultimately show ?thesis using d(3) s2 by auto
qed

lemma BM_Set_clean:
  assumes "mgr_clean m" and "BM_Set m bid = Some (r, m')"
  shows "mgr_clean m'"
  using assms bitmap_set_Some
  by (auto simp: BM_Set_def mgr_clean_def word_less_def split: option.splits if_splits bind_splits)

text \<open>A failed \<open>pwrite\<close> ends the loop with the return code of success and an unchanged file.\<close>

lemma dump_loop_error:
  assumes "0 < unat d" and "\<forall>n. io 0 n = -1"
  shows "dump_loop io bits b d 0 0 fl = Some (0, fl)"
proof -
  have m: "(0 :: u32) + word_of_int (-1) = -1" by simp
  have "\<not> (-1 :: u32) < d" using word_order.extremum_strict [of d] by auto
  then have "dump_loop io bits b d (-1) 1 fl = Some (0, fl)" by (subst dump_loop.simps) simp
  moreover have "0 < d" using assms(1) by (simp add: word_less_nat_alt)
  ultimately show ?thesis using assms(2) by (subst dump_loop.simps) (simp add: Let_def)
qed

end
