(* ===== verification/KeyTree.thy ===== *)
theory KeyTree
  imports AwaPrelude "HOL-Library.List_Lexorder"
begin

text \<open>
  The B-tree under a field index (\<open>third_party/btree/threadskv10h.c\<close>): keys are byte strings
  ordered by \<open>keycmp\<close>, values are pointers to nodes. \<open>keycmp\<close> is translated from the source; the
  pages are represented by their contents, the list of keys and values in key order, and
  \<open>bt_findkey\<close>, \<open>bt_insertkey\<close> and the scan from \<open>bt_startkey\<close> with \<open>bt_nextkey\<close> by what they do to
  that list. Pages, latches and the cache tree, which a field index leaves empty, are not
  modelled. The length of a key is one byte, \<open>BT_maxkey\<close> is 255: a longer key is outside the contract
  of the tree (\<open>bt_key_ok\<close>). What an index relies on is the locale \<open>key_store\<close>.
\<close>

type_synonym bkey = "byte list"

definition bt_key_ok :: "bkey \<Rightarrow> bool" where
  "bt_key_ok k \<longleftrightarrow> length k \<le> 255"

subsection \<open>The order of keys\<close>

fun memcmp :: "byte list \<Rightarrow> byte list \<Rightarrow> nat \<Rightarrow> int" where
  "memcmp (x # xs) (y # ys) (Suc n) =
     (if x < y then -1 else if y < x then 1 else memcmp xs ys n)"
| "memcmp xs ys n = 0"

definition keycmp :: "bkey \<Rightarrow> bkey \<Rightarrow> int" where
  "keycmp key1 key2 =
     (let len1 = length key1; len2 = length key2;
          ans = memcmp key1 key2 (if len1 > len2 then len2 else len1) in
      if ans \<noteq> 0 then ans
      else if len1 > len2 then 1 else if len1 < len2 then -1 else 0)"

lemma keycmp_Nil [simp]:
  "keycmp [] [] = 0" "keycmp [] (y # ys) = -1" "keycmp (x # xs) [] = 1"
  by (simp_all add: keycmp_def)

lemma keycmp_Cons [simp]:
  "keycmp (x # xs) (y # ys) = (if x < y then -1 else if y < x then 1 else keycmp xs ys)"
  by (simp add: keycmp_def Let_def min_def)

text \<open>\<open>keycmp\<close> is the comparison of the lexicographic order on byte strings.\<close>

lemma keycmp_lex: "keycmp a b = (if a < b then -1 else if b < a then 1 else 0)"
proof (induction a arbitrary: b)
  case Nil
  then show ?case by (cases b) simp_all
next
  case (Cons x xs)
  then show ?case by (cases b) auto
qed

lemma keycmp_simps [simp]:
  "keycmp a b < 0 \<longleftrightarrow> a < b" "keycmp a b = 0 \<longleftrightarrow> a = b" "keycmp a b > 0 \<longleftrightarrow> b < a"
  by (auto simp: keycmp_lex)

subsection \<open>The tree\<close>

fun bt_findkey :: "(bkey \<times> 'v) list \<Rightarrow> bkey \<Rightarrow> 'v option" where
  "bt_findkey [] k = None"
| "bt_findkey ((k', v) # t) k =
     (if keycmp k' k < 0 then bt_findkey t k else if keycmp k' k = 0 then Some v else None)"

fun bt_insertkey :: "(bkey \<times> 'v) list \<Rightarrow> bkey \<Rightarrow> 'v \<Rightarrow> (bkey \<times> 'v) list" where
  "bt_insertkey [] k v = [(k, v)]"
| "bt_insertkey ((k', v') # t) k v =
     (if keycmp k' k < 0 then (k', v') # bt_insertkey t k v
      else if keycmp k' k = 0 then (k, v) # t else (k, v) # (k', v') # t)"

text \<open>The entries from the first key that is not less than \<open>lo\<close> up to the last not above \<open>hi\<close>.\<close>

definition bt_scan :: "(bkey \<times> 'v) list \<Rightarrow> bkey \<Rightarrow> bkey \<Rightarrow> (bkey \<times> 'v) list" where
  "bt_scan t lo hi =
     takeWhile (\<lambda>(k, v). \<not> keycmp k hi > 0) (dropWhile (\<lambda>(k, v). keycmp k lo < 0) t)"

definition bt_inv :: "(bkey \<times> 'v) list \<Rightarrow> bool" where
  "bt_inv t \<longleftrightarrow> sorted_wrt (<) (map fst t)"

lemma bt_inv_Nil [simp]: "bt_inv []" by (simp add: bt_inv_def)

lemma bt_inv_Cons: "bt_inv ((k, v) # t) \<longleftrightarrow> (\<forall>k' \<in> fst ` set t. k < k') \<and> bt_inv t"
  by (auto simp: bt_inv_def)

lemma bt_findkey_mem: "bt_inv t \<Longrightarrow> bt_findkey t k = Some v \<longleftrightarrow> (k, v) \<in> set t"
proof (induction t)
  case (Cons a t)
  obtain k' v' where a: "a = (k', v')" by fastforce
  have inv: "bt_inv t" and gt: "(k, v) \<in> set t \<Longrightarrow> k' < k"
    using Cons.prems a by (force simp: bt_inv_Cons)+
  have "(k, v) \<in> set t \<Longrightarrow> \<not> k < k' \<and> k \<noteq> k'" using gt by (auto dest: less_asym)
  then show ?case using Cons.IH [OF inv] a gt by auto
qed simp

lemma bt_insertkey_keys: "fst ` set (bt_insertkey t k v) = insert k (fst ` set t)"
  by (induction t k v rule: bt_insertkey.induct) (simp_all add: insert_commute)

lemma bt_insertkey_inv: "bt_inv t \<Longrightarrow> bt_inv (bt_insertkey t k v)"
proof (induction t)
  case Nil
  then show ?case by (simp add: bt_inv_def)
next
  case (Cons a t)
  obtain k' v' where a: "a = (k', v')" by fastforce
  have "bt_inv (bt_insertkey t k v)" using Cons a by (simp add: bt_inv_Cons)
  then show ?case
    using Cons.prems a bt_insertkey_keys [of t k v] by (auto simp: bt_inv_Cons)
qed

lemma bt_find_insert:
  "bt_findkey (bt_insertkey t k v) k' = (if k' = k then Some v else bt_findkey t k')"
  by (induction t) (auto simp: not_less)

lemma bt_scan_mem:
  assumes "bt_inv t"
  shows "set (bt_scan t lo hi) = {(k, v). (k, v) \<in> set t \<and> lo \<le> k \<and> k \<le> hi}"
  using assms
proof (induction t)
  case Nil
  then show ?case by (simp add: bt_scan_def)
next
  case (Cons a t)
  obtain k v where a: "a = (k, v)" by fastforce
  have inv: "bt_inv t" and gt: "\<And>k' v'. (k', v') \<in> set t \<Longrightarrow> k < k'"
    using Cons.prems a by (force simp: bt_inv_Cons)+
  consider "k < lo" | "\<not> k < lo" "k \<le> hi" | "\<not> k < lo" "\<not> k \<le> hi" by blast
  then show ?case
  proof cases
    case 1
    then show ?thesis using Cons.IH [OF inv] a by (auto simp: bt_scan_def)
  next
    case 2
    have "dropWhile (\<lambda>(k, v). keycmp k lo < 0) t = t"
    proof (cases t)
      case (Cons b u)
      have "k < fst b" using gt [of "fst b" "snd b"] Cons by simp
      then show ?thesis using Cons 2 by (auto split: prod.splits)
    qed simp
    then have "bt_scan ((k, v) # t) lo hi = (k, v) # bt_scan t lo hi"
      using 2 by (simp add: bt_scan_def not_less)
    then show ?thesis using Cons.IH [OF inv] a 2 by auto
  next
    case 3
    then have "bt_scan ((k, v) # t) lo hi = []" by (simp add: bt_scan_def)
    moreover have "\<not> k' \<le> hi" if "(k', v') \<in> set t" for k' v'
      using gt [OF that] 3 by auto
    ultimately show ?thesis using a 3 by auto
  qed
qed

subsection \<open>The contract of a key store\<close>

locale key_store =
  fixes find :: "'t \<Rightarrow> 'k::linorder \<Rightarrow> 'v option"
    and put :: "'t \<Rightarrow> 'k \<Rightarrow> 'v \<Rightarrow> 't"
    and entries :: "'t \<Rightarrow> 'k::linorder \<Rightarrow> 'k \<Rightarrow> ('k \<times> 'v) list"
    and kinv :: "'t \<Rightarrow> bool"
    and empty :: "'t"
  assumes kinv_empty: "kinv empty"
    and find_empty: "find empty k = None"
    and kinv_put: "kinv t \<Longrightarrow> kinv (put t k v)"
    and find_put: "kinv t \<Longrightarrow> find (put t k v) k' = (if k' = k then Some v else find t k')"
    and entries_find: "kinv t \<Longrightarrow>
      set (entries t lo hi) = {(k, v). find t k = Some v \<and> lo \<le> k \<and> k \<le> hi}"
begin

text \<open>A property of all values survives the insertion of a value that has it.\<close>

definition all_values :: "('v \<Rightarrow> bool) \<Rightarrow> 't \<Rightarrow> bool" where
  "all_values P t \<longleftrightarrow> (\<forall>k v. find t k = Some v \<longrightarrow> P v)"

lemma all_values_empty: "all_values P empty"
  by (simp add: all_values_def find_empty)

lemma all_values_put: "kinv t \<Longrightarrow> all_values P t \<Longrightarrow> P v \<Longrightarrow> all_values P (put t k v)"
  by (auto simp: all_values_def find_put)

lemma entries_values: "kinv t \<Longrightarrow> all_values P t \<Longrightarrow> (k, v) \<in> set (entries t lo hi) \<Longrightarrow> P v"
  by (auto simp: all_values_def entries_find)

end

interpretation bt: key_store bt_findkey bt_insertkey bt_scan bt_inv "[]"
  by unfold_locales (auto simp: bt_insertkey_inv bt_find_insert bt_scan_mem bt_findkey_mem)

end
