(* ===== verification/WordBlocks.thy ===== *)
theory WordBlocks
  imports Bitmap
begin

text \<open>
  The word-wise loops of \<open>table/field_range_index.cc\<close>: a bitmap is cast to \<open>BM_OPERATE_TYPE *\<close>
  (a 64-bit \<open>long\<close>) and copied, or-ed or and-ed eight bytes at a time. A step on word \<open>d\<close> of the
  target and word \<open>s\<close> of the source combines the eight bytes of the two words; the three
  operators act on each bit alone, so the order of the bytes in a word does not matter.
\<close>

definition word_op ::
    "(byte \<Rightarrow> byte \<Rightarrow> byte) \<Rightarrow> byte list \<Rightarrow> int \<Rightarrow> byte list \<Rightarrow> int \<Rightarrow> byte list option" where
  "word_op f dst d src s =
     (if 0 \<le> d \<and> 8 * d + 8 \<le> int (length dst) \<and> 0 \<le> s \<and> 8 * s + 8 \<le> int (length src)
      then Some (map (\<lambda>k. if 8 * nat d \<le> k \<and> k < 8 * nat d + 8
                          then f (dst ! k) (src ! (k - 8 * nat d + 8 * nat s)) else dst ! k)
                     [0..<length dst])
      else None)"

text \<open>\<open>for (j = 0; j < n; ++j) dst[j + doff] = f (dst[j + doff], src[j + soff])\<close>.\<close>

fun word_loop :: "(byte \<Rightarrow> byte \<Rightarrow> byte) \<Rightarrow> byte list \<Rightarrow> int \<Rightarrow> byte list \<Rightarrow> int \<Rightarrow> nat
    \<Rightarrow> byte list option" where
  "word_loop f dst doff src soff 0 = Some dst"
| "word_loop f dst doff src soff (Suc j) =
     do { dst' \<leftarrow> word_loop f dst doff src soff j; word_op f dst' (int j + doff) src (int j + soff) }"

abbreviation copy_op :: "byte \<Rightarrow> byte \<Rightarrow> byte" where "copy_op x y \<equiv> y"
abbreviation or_op :: "byte \<Rightarrow> byte \<Rightarrow> byte" where "or_op x y \<equiv> x OR y"
abbreviation and_op :: "byte \<Rightarrow> byte \<Rightarrow> byte" where "and_op x y \<equiv> x AND y"

lemma word_loop_bytes:
  assumes "0 \<le> doff" and "8 * (doff + int n) \<le> int (length dst)"
    and "0 \<le> soff" and "8 * (soff + int n) \<le> int (length src)"
  shows "\<exists>r. word_loop f dst doff src soff n = Some r \<and> length r = length dst \<and>
    (\<forall>k < length dst. r ! k =
       (if 8 * nat doff \<le> k \<and> k < 8 * (nat doff + n)
        then f (dst ! k) (src ! (k - 8 * nat doff + 8 * nat soff)) else dst ! k))"
  using assms
proof (induction n)
  case 0
  then show ?case by auto
next
  case (Suc n)
  then obtain r where r: "word_loop f dst doff src soff n = Some r" "length r = length dst"
    and r_nth: "\<And>k. k < length dst \<Longrightarrow> r ! k =
       (if 8 * nat doff \<le> k \<and> k < 8 * (nat doff + n)
        then f (dst ! k) (src ! (k - 8 * nat doff + 8 * nat soff)) else dst ! k)"
    by auto
  let ?d = "nat doff + n" and ?s = "nat soff + n"
  have n: "nat (int n + doff) = ?d" "nat (int n + soff) = ?s"
    using Suc.prems by auto
  let ?r = "map (\<lambda>k. if 8 * ?d \<le> k \<and> k < 8 * ?d + 8
      then f (r ! k) (src ! (k - 8 * ?d + 8 * ?s)) else r ! k) [0..<length r]"
  have "word_op f r (int n + doff) src (int n + soff) = Some ?r"
    using Suc.prems r(2) by (simp add: word_op_def n)
  moreover have "?r ! k = (if 8 * nat doff \<le> k \<and> k < 8 * (nat doff + Suc n)
        then f (dst ! k) (src ! (k - 8 * nat doff + 8 * nat soff)) else dst ! k)"
    if k: "k < length dst" for k
  proof -
    have e: "8 * ?d \<le> k \<Longrightarrow> k - 8 * ?d + 8 * ?s = k - 8 * nat doff + 8 * nat soff"
      by auto
    show ?thesis using k r(2) r_nth [OF k] e by auto
  qed
  ultimately show ?case using r by auto
qed

text \<open>The same loop on the sets of bits, for an operator that acts on each bit alone.\<close>

lemma word_loop_set:
  assumes b: "0 \<le> doff" "8 * (doff + int n) \<le> int (length dst)"
      "0 \<le> soff" "8 * (soff + int n) \<le> int (length src)"
    and f: "\<And>x y k. k < 8 \<Longrightarrow> bit (f x y) k \<longleftrightarrow> P (bit x k) (bit y k)"
  shows "\<exists>r. word_loop f dst doff src soff n = Some r \<and> length r = length dst \<and>
    (\<forall>i. i \<in> bm_set r \<longleftrightarrow> i \<in> bm_dom dst \<and>
       (if 64 * doff \<le> i \<and> i < 64 * (doff + int n)
        then P (i \<in> bm_set dst) (i - 64 * doff + 64 * soff \<in> bm_set src) else i \<in> bm_set dst))"
proof -
  obtain r where r: "word_loop f dst doff src soff n = Some r" "length r = length dst"
    and r_nth: "\<And>k. k < length dst \<Longrightarrow> r ! k =
       (if 8 * nat doff \<le> k \<and> k < 8 * (nat doff + n)
        then f (dst ! k) (src ! (k - 8 * nat doff + 8 * nat soff)) else dst ! k)"
    using word_loop_bytes [OF b, of f] by blast
  have dom: "bm_dom r = bm_dom dst" using r(2) by (simp add: bm_dom_def)
  have "i \<in> bm_set r \<longleftrightarrow> i \<in> bm_dom dst \<and>
       (if 64 * doff \<le> i \<and> i < 64 * (doff + int n)
        then P (i \<in> bm_set dst) (i - 64 * doff + 64 * soff \<in> bm_set src) else i \<in> bm_set dst)" for i
  proof (cases "i \<in> bm_dom dst")
    case True
    define q where "q = i div 8"
    have q: "0 \<le> q" "q < int (length dst)" using True by (auto simp: bm_dom_iff q_def)
    have l: "nat q < length dst" using q by linarith
    have rng: "64 * doff \<le> i \<longleftrightarrow> 8 * nat doff \<le> nat q"
      "i < 64 * (doff + int n) \<longleftrightarrow> nat q < 8 * (nat doff + n)"
    proof -
      have "64 * doff \<le> i \<longleftrightarrow> 8 * doff \<le> q" "i < 64 * (doff + int n) \<longleftrightarrow> q < 8 * (doff + int n)"
        unfolding q_def by linarith+
      moreover obtain q' d' where "q = int q'" "doff = int d'"
        using b(1) q(1) zero_le_imp_eq_int by metis
      ultimately show "64 * doff \<le> i \<longleftrightarrow> 8 * nat doff \<le> nat q"
        "i < 64 * (doff + int n) \<longleftrightarrow> nat q < 8 * (nat doff + n)"
        by simp_all linarith+
    qed
    have i: "i \<in> bm_set r \<longleftrightarrow> bit (r ! nat q) (nat (i mod 8))"
      "i \<in> bm_set dst \<longleftrightarrow> bit (dst ! nat q) (nat (i mod 8))"
      using True dom by (auto simp only: bm_set_def q_def mem_Collect_eq)
    show ?thesis
    proof (cases "64 * doff \<le> i \<and> i < 64 * (doff + int n)")
      case in_rng: True
      let ?j = "i - 64 * doff + 64 * soff"
      have "?j = i + 8 * (8 * soff - 8 * doff)" by simp
      then have j: "?j div 8 = q - 8 * doff + 8 * soff" "?j mod 8 = i mod 8"
        unfolding q_def by (simp_all only: div_mult_self2 mod_mult_self2)
      have jn: "nat (q - 8 * doff + 8 * soff) = nat q - 8 * nat doff + 8 * nat soff"
        using in_rng rng b q by linarith
      have "?j \<in> bm_dom src"
        using j in_rng rng b q by (auto simp: bm_dom_iff)
      then have "?j \<in> bm_set src \<longleftrightarrow> bit (src ! (nat q - 8 * nat doff + 8 * nat soff)) (nat (i mod 8))"
        by (simp only: bm_set_def mem_Collect_eq j jn simp_thms)
      then show ?thesis
        using True in_rng rng i r_nth [OF l] f [of "nat (i mod 8)"] by simp
    next
      case False
      then show ?thesis using True rng i r_nth [OF l] by auto
    qed
  next
    case False
    then show ?thesis using dom bm_set_dom [of r] by auto
  qed
  then show ?thesis using r by blast
qed

lemmas word_copy_set = word_loop_set [where f = copy_op and P = "\<lambda>a b. b", OF _ _ _ _ refl]

lemma word_or_set:
  assumes "0 \<le> doff" "8 * (doff + int n) \<le> int (length dst)"
      "0 \<le> soff" "8 * (soff + int n) \<le> int (length src)"
  shows "\<exists>r. word_loop or_op dst doff src soff n = Some r \<and> length r = length dst \<and>
    bm_set r = bm_set dst \<union>
      {i. i \<in> bm_dom dst \<and> 64 * doff \<le> i \<and> i < 64 * (doff + int n) \<and> i - 64 * doff + 64 * soff \<in> bm_set src}"
  using word_loop_set [OF assms, of or_op "(\<or>)"] bm_set_dom [of dst]
  by (auto simp: bit_or_iff split: if_splits)

lemma word_and_set:
  assumes "0 \<le> doff" "8 * (doff + int n) \<le> int (length dst)"
      "0 \<le> soff" "8 * (soff + int n) \<le> int (length src)"
  shows "\<exists>r. word_loop and_op dst doff src soff n = Some r \<and> length r = length dst \<and>
    bm_set r = {i. i \<in> bm_set dst \<and>
      (64 * doff \<le> i \<and> i < 64 * (doff + int n) \<longrightarrow> i - 64 * doff + 64 * soff \<in> bm_set src)}"
  using word_loop_set [OF assms, of and_op "(\<and>)"] bm_set_dom [of dst]
  by (auto simp: bit_and_iff split: if_splits)

end
