(* ===== verification/RangeNode.thy ===== *)
theory RangeNode
  imports WordBlocks
begin

text \<open>
  The posting list of one key of a range index: class \<open>Node\<close> of \<open>table/field_range_index.cc\<close>.
  A node holds a set of document ids, either sparse (an array of ids) or dense (a bitmap that
  starts at \<open>min_aligned_\<close>), and changes its form when the density of the ids passes a bound.

  \<open>data_sparse\<close> holds the \<open>size_\<close> cells in use of the array of \<open>capacity_\<close> cells, where a cell
  that was allocated and never written is \<open>None\<close> and reading its value is a fault; a null
  pointer is an empty block. The densities are compared in \<open>double\<close> by the code; both bounds
  are decimal fractions with a numerator and a denominator far below the precision of a
  \<open>double\<close>, so the comparison of the rounded quotient with the rounded literal agrees with the
  comparison of the fractions that is used here.
\<close>

datatype node_type = Dense | Sparse

record node =
  n_min :: int
  n_max :: int
  n_min_al :: int
  n_max_al :: int
  n_type :: node_type
  n_cap :: int
  n_size :: int
  data_dense :: "byte list"
  data_sparse :: "int option list"

definition new_node :: node where
  "new_node = \<lparr>n_min = int_max, n_max = -1, n_min_al = int_max, n_max_al = -1, n_type = Sparse,
     n_cap = 0, n_size = 0, data_dense = [], data_sparse = []\<rparr>"

abbreviation op_len :: int where "op_len \<equiv> 64"

definition al_lo :: "int \<Rightarrow> int" where "al_lo val = cdiv val op_len * op_len"
definition al_hi :: "int \<Rightarrow> int" where "al_hi val = (cdiv val op_len + 1) * op_len - 1"

subsection \<open>Adding an id\<close>

text \<open>The three cases of \<open>AddDense\<close>; the result is the return code and the node.\<close>

definition add_dense_first :: "node \<Rightarrow> int \<Rightarrow> (int \<times> node) option" where
  "add_dense_first n val =
     (let n1 = n\<lparr>n_min := val, n_max := val, n_min_al := al_lo val, n_max_al := al_hi val\<rparr> in
      case bitmap_create (n_max_al n1 - n_min_al n1 + 1) of
        None \<Rightarrow> Some (-1, n1)
      | Some data \<Rightarrow> do {
          data' \<leftarrow> bitmap_set data (val - n_min_al n1);
          Some (0, n1\<lparr>data_dense := data', n_size := n_size n + 1\<rparr>) })"

definition add_dense_below :: "node \<Rightarrow> int \<Rightarrow> (int \<times> node) option" where
  "add_dense_below n val =
     (let min_aligned = al_lo val in
      case bitmap_create (n_max_al n - min_aligned + 1) of
        None \<Rightarrow> Some (-1, n)
      | Some data \<Rightarrow> do {
          data1 \<leftarrow> word_loop copy_op data (cdiv (n_min_al n - min_aligned) op_len) (data_dense n) 0
                     (nat (cdiv (n_max_al n - n_min_al n + 1) op_len));
          data2 \<leftarrow> bitmap_set data1 (val - min_aligned);
          Some (0, n\<lparr>data_dense := data2, n_min := val, n_min_al := min_aligned,
                     n_size := n_size n + 1\<rparr>) })"

definition add_dense_above :: "node \<Rightarrow> int \<Rightarrow> (int \<times> node) option" where
  "add_dense_above n val =
     (let max_aligned = (cdiv val op_len + 1) * op_len * 2 - 1 in
      case bitmap_create (max_aligned - n_min_al n + 1) of
        None \<Rightarrow> Some (-1, n)
      | Some data \<Rightarrow> do {
          data1 \<leftarrow> word_loop copy_op data 0 (data_dense n) 0
                     (nat (cdiv (n_max_al n - n_min_al n + 1) op_len));
          data2 \<leftarrow> bitmap_set data1 (val - n_min_al n);
          Some (0, n\<lparr>data_dense := data2, n_max := val, n_max_al := max_aligned,
                     n_size := n_size n + 1\<rparr>) })"

definition AddDense :: "node \<Rightarrow> int \<Rightarrow> (int \<times> node) option" where
  "AddDense n val =
     (if n_size n = 0 then add_dense_first n val
      else if val < n_min_al n then add_dense_below n val
      else if val > n_max_al n then add_dense_above n val
      else do {
        data \<leftarrow> bitmap_set (data_dense n) (val - n_min_al n);
        Some (0, n\<lparr>data_dense := data, n_min := min (n_min n) val, n_max := max (n_max n) val,
                   n_size := n_size n + 1\<rparr>) })"

text \<open>
  \<open>AddSparse\<close>: the array doubles when it is full. Writing cell \<open>size_\<close> needs
  \<open>0 \<le> size_ < capacity_\<close>.
\<close>

definition AddSparse :: "node \<Rightarrow> int \<Rightarrow> (int \<times> node) option" where
  "AddSparse n val =
     (let n1 = (if n_cap n = 0 then n\<lparr>n_cap := 1, data_sparse := []\<rparr>
                else if n_size n \<ge> n_cap n then n\<lparr>n_cap := n_cap n * 2\<rparr> else n)
      in if 0 \<le> n_size n \<and> n_size n < n_cap n1 then
        Some (0, n1\<lparr>data_sparse := data_sparse n1 @ [Some val], n_size := n_size n + 1,
             n_min := min (n_min n) val, n_max := max (n_max n) val,
             n_min_al := (if val < n_min_al n then al_lo val else n_min_al n),
             n_max_al := (if val > n_max_al n then al_hi val else n_max_al n)\<rparr>)
      else None)"

subsection \<open>Changing the form\<close>

text \<open>The loop of \<open>ConvertToSparse\<close> over the bits \<open>is\<close>; \<open>acc\<close> holds the \<open>idx\<close> cells written.\<close>

fun sparse_scan :: "byte list \<Rightarrow> int \<Rightarrow> int \<Rightarrow> int list \<Rightarrow> int list \<Rightarrow> int list option" where
  "sparse_scan bm sz mal [] acc = Some acc"
| "sparse_scan bm sz mal (i # is) acc =
     do { b \<leftarrow> bitmap_test bm i;
          if b then (if int (length acc) \<ge> sz then Some acc
                     else sparse_scan bm sz mal is (acc @ [i + mal]))
          else sparse_scan bm sz mal is acc }"

definition ConvertToSparse :: "node \<Rightarrow> node option" where
  "ConvertToSparse n =
     do { xs \<leftarrow> sparse_scan (data_dense n) (n_size n) (n_min_al n)
                  [0..n_max_al n - n_min_al n] [];
          Some (n\<lparr>data_sparse := map Some xs @ replicate (nat (n_size n) - length xs) None, n_cap := n_size n, n_type := Sparse, data_dense := []\<rparr>) }"

text \<open>The loop of \<open>ConvertToDense\<close> over the ids.\<close>

fun dense_fill :: "byte list \<Rightarrow> int \<Rightarrow> int \<Rightarrow> int option list \<Rightarrow> byte list option" where
  "dense_fill bm lo hi [] = Some bm"
| "dense_fill bm lo hi (None # vs) = None"
| "dense_fill bm lo hi (Some v # vs) =
     (if v < lo \<or> v > hi then dense_fill bm lo hi vs
      else do { bm' \<leftarrow> bitmap_set bm (v - lo); dense_fill bm' lo hi vs })"

definition ConvertToDense :: "node \<Rightarrow> (int \<times> node) option" where
  "ConvertToDense n =
     (case bitmap_create (n_max_al n - n_min_al n + 1) of
        None \<Rightarrow> Some (-1, n)
      | Some bm \<Rightarrow> do {
          bm' \<leftarrow> dense_fill bm (n_min_al n) (n_max_al n) (data_sparse n);
          Some (0, n\<lparr>data_dense := bm', n_type := Dense, data_sparse := []\<rparr>) })"

text \<open>\<open>density < 0.08\<close> and \<open>density > 0.1\<close>, for \<open>density = size_ / offset\<close> and a positive offset.\<close>

definition too_thin :: "node \<Rightarrow> bool" where
  "too_thin n \<longleftrightarrow> n_max n - n_min n > 100000 \<and> 100 * n_size n < 8 * (n_max n - n_min n)"

definition too_thick :: "node \<Rightarrow> bool" where
  "too_thick n \<longleftrightarrow> n_max n - n_min n > 100000 \<and> 10 * n_size n > n_max n - n_min n"

definition Node_Add :: "node \<Rightarrow> int \<Rightarrow> (int \<times> node) option" where
  "Node_Add n val =
     (case n_type n of
        Dense \<Rightarrow> if too_thin n then do { n' \<leftarrow> ConvertToSparse n; AddSparse n' val }
                 else AddDense n val
      | Sparse \<Rightarrow> if too_thick n then do { (r, n') \<leftarrow> ConvertToDense n; AddDense n' val }
                  else AddSparse n val)"

subsection \<open>Deleting an id\<close>

definition DeleteDense :: "node \<Rightarrow> int \<Rightarrow> (int \<times> node) option" where
  "DeleteDense n val =
     (let pos = val - n_min_al n in
      if pos < 0 \<or> val > n_max_al n then Some (-1, n)
      else do { bm \<leftarrow> bitmap_unset (data_dense n) pos;
                Some (0, n\<lparr>n_size := n_size n - 1, data_dense := bm\<rparr>) })"

fun find_pos :: "int option list \<Rightarrow> int \<Rightarrow> int \<Rightarrow> nat \<Rightarrow> int option" where
  "find_pos xs val i 0 = Some i"
| "find_pos xs val i (Suc k) =
     do { c \<leftarrow> fetch xs i; x \<leftarrow> c; if x = val then Some i else find_pos xs val (i + 1) k }"

fun shift_down :: "'a list \<Rightarrow> int \<Rightarrow> nat \<Rightarrow> 'a list option" where
  "shift_down xs j 0 = Some xs"
| "shift_down xs j (Suc k) =
     do { x \<leftarrow> fetch xs (j + 1); ys \<leftarrow> store xs j x; shift_down ys (j + 1) k }"

definition DeleteSparse :: "node \<Rightarrow> int \<Rightarrow> (int \<times> node) option" where
  "DeleteSparse n val =
     do { i \<leftarrow> find_pos (data_sparse n) val 0 (nat (n_size n));
          if i = n_size n then Some (-1, n)
          else do { xs \<leftarrow> shift_down (data_sparse n) i (nat (n_size n - 1 - i));
                    Some (0, n\<lparr>data_sparse := take (nat (n_size n - 1)) xs,
                               n_size := n_size n - 1\<rparr>) } }"

definition Node_Delete :: "node \<Rightarrow> int \<Rightarrow> (int \<times> node) option" where
  "Node_Delete n val = (case n_type n of Dense \<Rightarrow> DeleteDense n val | Sparse \<Rightarrow> DeleteSparse n val)"

text \<open>\<open>Node_MemorySize\<close> adds to the counters for dense and sparse nodes.\<close>

definition Node_MemorySize :: "node \<Rightarrow> int \<Rightarrow> int \<Rightarrow> int \<times> int" where
  "Node_MemorySize n dense sparse =
     (case n_type n of Dense \<Rightarrow> (dense + cdiv (n_max_al n - n_min_al n) 8, sparse)
      | Sparse \<Rightarrow> (dense, sparse + n_cap n * 4))"

subsection \<open>The set a node stands for\<close>

definition node_set :: "node \<Rightarrow> int set" where
  "node_set n = (case n_type n of
      Dense \<Rightarrow> (\<lambda>i. i + n_min_al n) ` bm_set (data_dense n)
    | Sparse \<Rightarrow> {v. Some v \<in> set (data_sparse n)})"

text \<open>
  The bounds of a node: those of a node that never held an id, or the ids lie between
  \<open>min_\<close> and \<open>max_\<close>, inside whole 64-bit words.
\<close>

definition fresh_bounds :: "node \<Rightarrow> bool" where
  "fresh_bounds n \<longleftrightarrow> n_min n = int_max \<and> n_max n = -1 \<and> n_min_al n = int_max \<and> n_max_al n = -1"

definition word_bounds :: "node \<Rightarrow> bool" where
  "word_bounds n \<longleftrightarrow> 0 \<le> n_min_al n \<and> n_min_al n \<le> n_min n \<and> n_min n \<le> n_max n \<and> n_max n \<le> n_max_al n
     \<and> 64 dvd n_min_al n \<and> 64 dvd n_max_al n + 1 \<and> n_max_al n \<le> int_max"

definition dense_inv :: "node \<Rightarrow> bool" where
  "dense_inv n \<longleftrightarrow> word_bounds n \<and>
     int (length (data_dense n)) = (n_max_al n - n_min_al n + 1) div 8 + 1 \<and>
     n_size n = int (card (node_set n)) \<and> (\<forall>v \<in> node_set n. n_min n \<le> v \<and> v \<le> n_max n)"

definition sparse_inv :: "node \<Rightarrow> bool" where
  "sparse_inv n \<longleftrightarrow> (\<exists>vs. data_sparse n = map Some vs \<and> distinct vs) \<and>
     n_size n = int (length (data_sparse n)) \<and> n_size n \<le> n_cap n \<and>
     (fresh_bounds n \<and> data_sparse n = [] \<or> word_bounds n) \<and>
     (\<forall>v \<in> node_set n. n_min n \<le> v \<and> v \<le> n_max n)"

definition node_inv :: "node \<Rightarrow> bool" where
  "node_inv n \<longleftrightarrow> (case n_type n of Dense \<Rightarrow> dense_inv n | Sparse \<Rightarrow> sparse_inv n)"

text \<open>The ids for which no bound leaves the 32-bit range (\<open>2 ^ 30 - 64\<close>).\<close>

definition docid_ok :: "int \<Rightarrow> bool" where
  "docid_ok v \<longleftrightarrow> 0 \<le> v \<and> v < 1073741760"

lemma new_node_inv: "node_inv new_node" and new_node_set: "node_set new_node = {}"
  by (auto simp: node_inv_def sparse_inv_def new_node_def fresh_bounds_def node_set_def)

subsection \<open>Adding to a dense node\<close>

lemma al_facts:
  assumes "0 \<le> val"
  shows "al_lo val \<le> val" "val \<le> al_hi val" "0 \<le> al_lo val" "64 dvd al_lo val" "64 dvd al_hi val + 1"
    "al_hi val = al_lo val + 63"
proof -
  have e: "al_lo val = val div 64 * 64" "al_hi val = val div 64 * 64 + 63"
    using assms by (simp_all add: al_lo_def al_hi_def)
  show "al_lo val \<le> val" "val \<le> al_hi val" "0 \<le> al_lo val" "64 dvd al_lo val" "64 dvd al_hi val + 1"
    "al_hi val = al_lo val + 63"
    using assms unfolding e by presburger+
qed

lemma al_hi_bound: "docid_ok val \<Longrightarrow> al_hi val \<le> int_max"
  unfolding docid_ok_def al_hi_def by (simp, linarith)

lemma dense_mem [simp]:
  "n_type n = Dense \<Longrightarrow> v \<in> node_set n \<longleftrightarrow> v - n_min_al n \<in> bm_set (data_dense n)"
  by (force simp: node_set_def image_iff)

lemma sparse_mem [simp]:
  "n_type n = Sparse \<Longrightarrow> v \<in> node_set n \<longleftrightarrow> Some v \<in> set (data_sparse n)"
  by (simp add: node_set_def)

lemma finite_node_set [simp]: "finite (node_set n)"
proof (cases "n_type n")
  case Dense
  then show ?thesis by (simp add: node_set_def)
next
  case Sparse
  have "node_set n \<subseteq> the ` set (data_sparse n)"
    using Sparse by (force simp: image_iff)
  then show ?thesis by (rule finite_subset) simp
qed

lemma grow_copy:
  assumes dvd: "64 dvd lo" "64 dvd lo'" "64 dvd hi + 1" "64 dvd hi' + 1"
    and le: "lo' \<le> lo" "lo \<le> hi" "hi \<le> hi'"
    and old: "int (length old) = (hi - lo + 1) div 8 + 1" "bm_set old \<subseteq> {0..hi - lo}"
  shows "\<exists>data r. bitmap_create (hi' - lo' + 1) = Some data \<and>
    word_loop copy_op data ((lo - lo') div 64) old 0 (nat ((hi - lo + 1) div 64)) = Some r \<and>
    int (length r) = (hi' - lo' + 1) div 8 + 1 \<and>
    bm_dom r = {0..<8 * ((hi' - lo' + 1) div 8 + 1)} \<and>
    (\<forall>i. i \<in> bm_set r \<longleftrightarrow> i - (lo - lo') \<in> bm_set old)"
proof -
  obtain a a' b b' where e: "lo = 64 * a" "lo' = 64 * a'" "hi = 64 * b - 1" "hi' = 64 * b' - 1"
    using dvd by (metis dvdE add_diff_cancel_right')
  have m: "lo - lo' = 64 * (a - a')" "hi - lo + 1 = 64 * (b - a)" "hi' - lo' + 1 = 64 * (b' - a')"
    by (simp_all add: e)
  have q: "(lo - lo') div 64 = a - a'" "(hi - lo + 1) div 64 = b - a"
    "(hi - lo + 1) div 8 = 8 * (b - a)" "(hi' - lo' + 1) div 8 = 8 * (b' - a')"
    by (simp_all only: m div_mult64)
  have o: "a' \<le> a" "a \<le> b" "b \<le> b'" using le unfolding e by linarith+
  obtain data where data: "bitmap_create (hi' - lo' + 1) = Some data" "bm_set data = {}"
      "int (length data) = 8 * (b' - a') + 1"
  proof -
    have "0 \<le> hi' - lo' + 1" using o unfolding m by simp
    from bitmap_create_Some [OF this] that show ?thesis by (auto simp only: q)
  qed
  obtain r where r: "word_loop copy_op data (a - a') old 0 (nat (b - a)) = Some r"
      "length r = length data"
    and mem: "\<And>i. i \<in> bm_set r \<longleftrightarrow> i \<in> bm_dom data \<and>
       (if 64 * (a - a') \<le> i \<and> i < 64 * (a - a' + int (nat (b - a)))
        then i - 64 * (a - a') + 64 * 0 \<in> bm_set old else i \<in> bm_set data)"
  proof -
    have "8 * (a - a' + int (nat (b - a))) \<le> int (length data)" "8 * (0 + int (nat (b - a))) \<le> int (length old)"
      using o data(3) old(1) q by simp_all
    with word_copy_set [of "a - a'" "nat (b - a)" data 0 old] o that show ?thesis by auto
  qed
  have "i \<in> bm_set r \<longleftrightarrow> i - (lo - lo') \<in> bm_set old" for i
  proof -
    have "i - (lo - lo') \<in> bm_set old \<Longrightarrow> 64 * (a - a') \<le> i \<and> i < 64 * (b - a')"
      using old(2) unfolding e by (auto dest!: subsetD)
    moreover have "0 \<le> i \<and> i < 64 * (b - a') \<Longrightarrow> i \<in> bm_dom data"
      using data(3) o by (simp add: bm_dom_def)
    ultimately show ?thesis
      using mem [of i] data(2) o unfolding m by auto
  qed
  moreover have "bm_dom r = {0..<8 * ((hi' - lo' + 1) div 8 + 1)}"
    using r(2) data(3) q by (auto simp: bm_dom_def)
  ultimately show ?thesis using data r q by auto
qed

lemma dense_insert:
  assumes "n_type n' = Dense" and "bitmap_set r (val - n_min_al n') = Some (data_dense n')"
    and "\<And>v. v - n_min_al n' \<in> bm_set r \<longleftrightarrow> v \<in> S"
  shows "node_set n' = insert val S"
proof (rule set_eqI)
  fix v
  show "v \<in> node_set n' \<longleftrightarrow> v \<in> insert val S"
    using bitmap_set_Some [OF assms(2)] assms(1,3) by auto
qed

lemma dense_bits_range:
  assumes "dense_inv n" and "n_type n = Dense"
  shows "bm_set (data_dense n) \<subseteq> {0..n_max_al n - n_min_al n}"
proof
  fix i
  assume i: "i \<in> bm_set (data_dense n)"
  then have "i + n_min_al n \<in> node_set n" using assms(2) by simp
  then have "i + n_min_al n \<le> n_max_al n" using assms(1) by (force simp: dense_inv_def word_bounds_def)
  moreover have "0 \<le> i" using i bm_set_dom by (force simp: bm_dom_def)
  ultimately show "i \<in> {0..n_max_al n - n_min_al n}" by simp
qed

lemma dense_invI:
  assumes "word_bounds n'" and "int (length (data_dense n')) = (n_max_al n' - n_min_al n' + 1) div 8 + 1"
    and "node_set n' = insert val S" and "val \<notin> S" and "finite S" and "n_size n' = int (card S) + 1"
    and "\<forall>v \<in> insert val S. n_min n' \<le> v \<and> v \<le> n_max n'"
  shows "dense_inv n'"
  using assms by (auto simp: dense_inv_def)

lemma add_dense_first_spec:
  assumes "dense_inv n" "n_type n = Dense" "docid_ok val" "n_size n = 0"
  shows "\<exists>n'. add_dense_first n val = Some (0, n') \<and> n_type n' = Dense \<and> dense_inv n' \<and>
    node_set n' = {val}"
proof -
  have v: "0 \<le> val" using assms(3) by (simp add: docid_ok_def)
  note al = al_facts [OF v] al_hi_bound [OF assms(3)]
  have n64: "al_hi val - al_lo val + 1 = 64" using al(6) by simp
  obtain data where data: "bitmap_create (al_hi val - al_lo val + 1) = Some data" "bm_set data = {}"
      "{0..64} \<subseteq> bm_dom data" "int (length data) = 9"
    using bitmap_create_Some [of 64] unfolding n64 by auto
  have "val - al_lo val \<in> bm_dom data" using data(3) al by auto
  then obtain data' where d: "bitmap_set data (val - al_lo val) = Some data'"
    using raw.put_ok by blast
  let ?n = "n\<lparr>n_min := val, n_max := val, n_min_al := al_lo val, n_max_al := al_hi val,
      data_dense := data', n_size := n_size n + 1\<rparr>"
  have "add_dense_first n val = Some (0, ?n)"
    using data(1) d by (simp add: add_dense_first_def)
  moreover have s: "node_set ?n = insert val {}"
    using d data(2) assms(2) by (intro dense_insert [where r = data]) auto
  moreover have "dense_inv ?n"
    by (rule dense_invI [where val = val and S = "{}"])
      (use s al(1-5,7) assms(4) bitmap_set_Some [OF d] data(4) n64 in \<open>auto simp: word_bounds_def\<close>)
  ultimately show ?thesis using assms(2) by auto
qed

lemma add_dense_below_spec:
  assumes "dense_inv n" "n_type n = Dense" "docid_ok val" "val \<notin> node_set n" "val < n_min_al n"
  shows "\<exists>n'. add_dense_below n val = Some (0, n') \<and> n_type n' = Dense \<and> dense_inv n' \<and>
    node_set n' = insert val (node_set n)"
proof -
  have v: "0 \<le> val" using assms(3) by (simp add: docid_ok_def)
  note al = al_facts [OF v]
  have wb: "word_bounds n" using assms(1) by (simp add: dense_inv_def)
  have dv: "64 dvd n_min_al n" "64 dvd n_max_al n + 1" and le: "n_min_al n \<le> n_max_al n" "al_lo val \<le> n_min_al n"
    using wb al assms(5) by (auto simp: word_bounds_def)
  obtain data r where r: "bitmap_create (n_max_al n - al_lo val + 1) = Some data"
      "word_loop copy_op data ((n_min_al n - al_lo val) div 64) (data_dense n) 0
         (nat ((n_max_al n - n_min_al n + 1) div 64)) = Some r"
      "int (length r) = (n_max_al n - al_lo val + 1) div 8 + 1"
      "bm_dom r = {0..<8 * ((n_max_al n - al_lo val + 1) div 8 + 1)}"
      "\<And>i. i \<in> bm_set r \<longleftrightarrow> i - (n_min_al n - al_lo val) \<in> bm_set (data_dense n)"
    using grow_copy [OF dv(1) al(4) dv(2) dv(2) le(2) le(1) order_refl _
        dense_bits_range [OF assms(1,2)]] assms(1) by (auto simp: dense_inv_def)
  have "val - al_lo val \<in> bm_dom r" using r(4) al le assms(5) by auto
  then obtain data' where d: "bitmap_set r (val - al_lo val) = Some data'"
    using raw.put_ok by blast
  let ?n = "n\<lparr>data_dense := data', n_min := val, n_min_al := al_lo val, n_size := n_size n + 1\<rparr>"
  have "add_dense_below n val = Some (0, ?n)"
    using r(1,2) d le by (simp add: add_dense_below_def)
  moreover have s: "node_set ?n = insert val (node_set n)"
    using d r(5) assms(2) by (intro dense_insert [where r = r]) auto
  moreover have "dense_inv ?n"
    by (rule dense_invI [where val = val and S = "node_set n"])
      (use s al assms wb bitmap_set_Some [OF d] r(3) in
        \<open>auto simp: word_bounds_def dense_inv_def simp del: dense_mem\<close>)
  ultimately show ?thesis using assms(2) by auto
qed

lemma above_facts:
  assumes "docid_ok val" and "hi < val" and "64 dvd hi + 1" and "0 \<le> hi"
  defines "hi' \<equiv> (cdiv val 64 + 1) * 64 * 2 - 1"
  shows "64 dvd hi' + 1" "val \<le> hi'" "hi \<le> hi'" "hi' \<le> int_max"
proof -
  have e: "hi' = val div 64 * 128 + 127" using assms by (simp add: hi'_def docid_ok_def)
  have b: "val div 64 * 64 \<le> val" "val < val div 64 * 64 + 64" "0 \<le> val div 64"
    using assms(1) unfolding docid_ok_def by linarith+
  show "64 dvd hi' + 1" unfolding e by (rule dvdI [of _ _ "val div 64 * 2 + 2"]) simp
  show "val \<le> hi'" "hi \<le> hi'" using b assms(2) unfolding e by linarith+
  have "val div 64 \<le> 16777214" using assms(1) unfolding docid_ok_def by linarith
  then show "hi' \<le> int_max" unfolding e by linarith
qed

lemma add_dense_above_spec:
  assumes "dense_inv n" "n_type n = Dense" "docid_ok val" "val \<notin> node_set n" "n_max_al n < val"
  shows "\<exists>n'. add_dense_above n val = Some (0, n') \<and> n_type n' = Dense \<and> dense_inv n' \<and>
    node_set n' = insert val (node_set n)"
proof -
  have wb: "word_bounds n" using assms(1) by (simp add: dense_inv_def)
  have dv: "64 dvd n_min_al n" "64 dvd n_max_al n + 1" and le: "n_min_al n \<le> n_max_al n" "0 \<le> n_max_al n"
    using wb by (auto simp: word_bounds_def)
  define hi where "hi = (cdiv val 64 + 1) * 64 * 2 - 1"
  note hi = above_facts [OF assms(3,5) dv(2) le(2), folded hi_def]
  obtain data r where r: "bitmap_create (hi - n_min_al n + 1) = Some data"
      "word_loop copy_op data 0 (data_dense n) 0 (nat ((n_max_al n - n_min_al n + 1) div 64)) = Some r"
      "int (length r) = (hi - n_min_al n + 1) div 8 + 1"
      "bm_dom r = {0..<8 * ((hi - n_min_al n + 1) div 8 + 1)}"
      "\<And>i. i \<in> bm_set r \<longleftrightarrow> i \<in> bm_set (data_dense n)"
    using grow_copy [OF dv(1,1,2) hi(1) order_refl le(1) hi(3) _
        dense_bits_range [OF assms(1,2)]] assms(1) by (auto simp: dense_inv_def)
  have "val - n_min_al n \<in> bm_dom r" using r(4) hi le assms(5) by auto
  then obtain data' where d: "bitmap_set r (val - n_min_al n) = Some data'"
    using raw.put_ok by blast
  let ?n = "n\<lparr>data_dense := data', n_max := val, n_max_al := hi, n_size := n_size n + 1\<rparr>"
  have "add_dense_above n val = Some (0, ?n)"
    unfolding add_dense_above_def hi_def [symmetric] Let_def using r(1,2) d le by simp
  moreover have s: "node_set ?n = insert val (node_set n)"
    using d r(5) assms(2) by (intro dense_insert [where r = r]) auto
  moreover have "dense_inv ?n"
    by (rule dense_invI [where val = val and S = "node_set n"])
      (use s hi assms wb bitmap_set_Some [OF d] r(3) in
        \<open>auto simp: word_bounds_def dense_inv_def simp del: dense_mem\<close>)
  ultimately show ?thesis using assms(2) by auto
qed

lemma AddDense_spec:
  assumes inv: "dense_inv n" "n_type n = Dense" and v: "docid_ok val" "val \<notin> node_set n"
  shows "\<exists>n'. AddDense n val = Some (0, n') \<and> n_type n' = Dense \<and> dense_inv n' \<and>
    node_set n' = insert val (node_set n)"
proof -
  consider (first) "n_size n = 0" | (below) "n_size n \<noteq> 0" "val < n_min_al n"
    | (above) "n_size n \<noteq> 0" "n_max_al n < val"
    | (inside) "n_size n \<noteq> 0" "n_min_al n \<le> val" "val \<le> n_max_al n"
    by linarith
  then show ?thesis
  proof cases
    case first
    with inv have "node_set n = {}" by (simp add: dense_inv_def)
    with add_dense_first_spec [OF inv v(1) first] first show ?thesis by (simp add: AddDense_def)
  next
    case below
    with add_dense_below_spec [OF inv v] show ?thesis by (simp add: AddDense_def)
  next
    case above
    then have "\<not> val < n_min_al n" using inv by (simp add: dense_inv_def word_bounds_def)
    with above add_dense_above_spec [OF inv v] show ?thesis by (simp add: AddDense_def)
  next
    case inside
    have wb: "word_bounds n" using inv by (simp add: dense_inv_def)
    have "val - n_min_al n \<in> bm_dom (data_dense n)"
      using inside inv(1) by (auto simp: bm_dom_def dense_inv_def)
    then obtain data where d: "bitmap_set (data_dense n) (val - n_min_al n) = Some data"
      using raw.put_ok by blast
    let ?n = "n\<lparr>data_dense := data, n_min := min (n_min n) val, n_max := max (n_max n) val,
        n_size := n_size n + 1\<rparr>"
    have "AddDense n val = Some (0, ?n)" using inside d by (simp add: AddDense_def)
    moreover have s: "node_set ?n = insert val (node_set n)"
      using d inv by (intro dense_insert [where r = "data_dense n"]) auto
    moreover have "dense_inv ?n"
      by (rule dense_invI [where val = val and S = "node_set n"])
        (use s inside inv v wb bitmap_set_Some [OF d] in
          \<open>auto simp: word_bounds_def dense_inv_def simp del: dense_mem\<close>)
    ultimately show ?thesis using inv by auto
  qed
qed

subsection \<open>Adding to a sparse node\<close>

lemma AddSparse_spec:
  assumes inv: "sparse_inv n" "n_type n = Sparse" and v: "docid_ok val" "val \<notin> node_set n"
  shows "\<exists>n'. AddSparse n val = Some (0, n') \<and> n_type n' = Sparse \<and> sparse_inv n' \<and>
    node_set n' = insert val (node_set n)"
proof -
  have v0: "0 \<le> val" "val < int_max" using v(1) by (auto simp: docid_ok_def)
  note al = al_facts(1-5) [OF v0(1)] al_hi_bound [OF v(1)]
  obtain vs where vs: "data_sparse n = map Some vs" "distinct vs" "n_size n = int (length vs)"
      "n_size n \<le> n_cap n"
    using inv by (auto simp: sparse_inv_def)
  have val: "val \<notin> set vs" using v(2) inv(2) vs(1) by auto
  let ?cap = "if n_cap n = 0 then 1 else if n_size n \<ge> n_cap n then n_cap n * 2 else n_cap n"
  let ?lo = "if val < n_min_al n then al_lo val else n_min_al n"
  let ?hi = "if val > n_max_al n then al_hi val else n_max_al n"
  let ?n = "n\<lparr>n_cap := ?cap, data_sparse := data_sparse n @ [Some val], n_size := n_size n + 1,
      n_min := min (n_min n) val, n_max := max (n_max n) val, n_min_al := ?lo, n_max_al := ?hi\<rparr>"
  have "AddSparse n val = Some (0, ?n)"
    using vs by (auto simp: AddSparse_def)
  moreover have s: "node_set ?n = insert val (node_set n)"
    using inv(2) by auto
  moreover have "word_bounds ?n"
    using inv al v0 by (auto simp: sparse_inv_def word_bounds_def fresh_bounds_def)
  then have "sparse_inv ?n"
    using vs val inv s v0 unfolding sparse_inv_def
    by (auto simp: fresh_bounds_def intro!: exI [of _ "vs @ [val]"])
  ultimately show ?thesis using inv(2) by auto
qed

subsection \<open>Changing the form keeps the set\<close>

lemma dense_fill_set:
  assumes "\<forall>v \<in> set vs. lo \<le> v \<and> v \<le> hi" and "{0..hi - lo} \<subseteq> bm_dom bm"
  shows "\<exists>r. dense_fill bm lo hi (map Some vs) = Some r \<and> length r = length bm \<and>
    bm_set r = bm_set bm \<union> (\<lambda>v. v - lo) ` set vs"
  using assms
proof (induction vs arbitrary: bm)
  case Nil
  then show ?case by simp
next
  case (Cons v vs)
  from Cons.prems have "v - lo \<in> bm_dom bm" by auto
  then obtain bm1 where 1: "bitmap_set bm (v - lo) = Some bm1"
    using raw.put_ok by blast
  note 2 = bitmap_set_Some [OF 1]
  then have "{0..hi - lo} \<subseteq> bm_dom bm1" using Cons.prems(2) by (simp add: bm_dom_def)
  with Cons.IH [of bm1] Cons.prems obtain r where
    "dense_fill bm1 lo hi (map Some vs) = Some r" "length r = length bm1"
    "bm_set r = bm_set bm1 \<union> (\<lambda>v. v - lo) ` set vs" by auto
  with 1 2 Cons.prems(1) show ?case by auto
qed

lemma ConvertToDense_spec:
  assumes inv: "sparse_inv n" "n_type n = Sparse" and wb: "word_bounds n"
  shows "\<exists>n'. ConvertToDense n = Some (0, n') \<and> n_type n' = Dense \<and> dense_inv n' \<and>
    node_set n' = node_set n"
proof -
  obtain vs where vs: "data_sparse n = map Some vs" "distinct vs" "n_size n = int (length vs)"
    using inv by (auto simp: sparse_inv_def)
  have ns: "node_set n = set vs" using inv(2) vs(1) by auto
  have rng: "\<forall>v \<in> set vs. n_min_al n \<le> v \<and> v \<le> n_max_al n"
    using inv(1) wb unfolding sparse_inv_def ns word_bounds_def by force
  obtain bm where bm: "bitmap_create (n_max_al n - n_min_al n + 1) = Some bm" "bm_set bm = {}"
      "{0..n_max_al n - n_min_al n + 1} \<subseteq> bm_dom bm"
      "int (length bm) = (n_max_al n - n_min_al n + 1) div 8 + 1"
    using bitmap_create_Some [of "n_max_al n - n_min_al n + 1"] wb by (auto simp: word_bounds_def)
  then have "{0..n_max_al n - n_min_al n} \<subseteq> bm_dom bm" by auto
  from dense_fill_set [OF rng this] obtain r where
    r: "dense_fill bm (n_min_al n) (n_max_al n) (map Some vs) = Some r" "length r = length bm"
      "bm_set r = (\<lambda>v. v - n_min_al n) ` set vs"
    using bm(2) by auto
  let ?n = "n\<lparr>data_dense := r, n_type := Dense, data_sparse := []\<rparr>"
  have "ConvertToDense n = Some (0, ?n)"
    using bm(1) r(1) vs(1) by (simp add: ConvertToDense_def)
  moreover have s: "node_set ?n = node_set n"
    using r(3) ns by (force simp: image_iff)
  moreover have "dense_inv ?n"
    unfolding dense_inv_def s
    using inv wb bm(4) r(2) vs distinct_card [OF vs(2)] ns by (auto simp: word_bounds_def sparse_inv_def)
  ultimately show ?thesis by auto
qed

lemma sparse_scan_list:
  assumes "set is \<subseteq> bm_dom bm"
    and "int (length acc + length (filter (\<lambda>i. i \<in> bm_set bm) is)) \<le> sz"
  shows "sparse_scan bm sz mal is acc =
    Some (acc @ map (\<lambda>i. i + mal) (filter (\<lambda>i. i \<in> bm_set bm) is))"
  using assms
  by (induction "is" arbitrary: acc) (auto simp: bitmap_test_eq)

lemma ConvertToSparse_spec:
  assumes inv: "dense_inv n" "n_type n = Dense"
  shows "\<exists>n'. ConvertToSparse n = Some n' \<and> n_type n' = Sparse \<and> sparse_inv n' \<and>
    node_set n' = node_set n"
proof -
  let ?hi = "n_max_al n - n_min_al n"
  let ?is = "filter (\<lambda>i. i \<in> bm_set (data_dense n)) [0..?hi]"
  let ?vs = "map (\<lambda>i. i + n_min_al n) ?is"
  have wb: "word_bounds n" using inv(1) by (simp add: dense_inv_def)
  have sub: "set ?is = bm_set (data_dense n)"
    using dense_bits_range [OF inv] by auto
  have vs: "set ?vs = node_set n" using sub inv(2) by (auto simp: node_set_def)
  have d: "distinct ?vs" by (simp add: distinct_map)
  have "length ?vs = card (node_set n)" using distinct_card [OF d] unfolding vs by simp
  then have len: "n_size n = int (length ?is)" using inv(1) by (simp add: dense_inv_def)
  have "sparse_scan (data_dense n) (n_size n) (n_min_al n) [0..?hi] [] = Some ?vs"
    using inv(1) len wb
    by (subst sparse_scan_list) (auto simp: bm_dom_def dense_inv_def word_bounds_def)
  then have "ConvertToSparse n =
      Some (n\<lparr>data_sparse := map Some ?vs, n_cap := n_size n, n_type := Sparse, data_dense := []\<rparr>)"
    (is "_ = Some ?n")
    using len by (simp add: ConvertToSparse_def)
  moreover have s: "node_set ?n = node_set n"
    unfolding vs [symmetric] by (auto simp: node_set_def)
  moreover have "sparse_inv ?n"
    unfolding sparse_inv_def s using inv(1) wb len d
    by (auto simp: dense_inv_def word_bounds_def intro!: exI [of _ ?vs])
  ultimately show ?thesis by auto
qed

subsection \<open>Deleting\<close>

lemma find_pos_takeWhile:
  assumes "i + k \<le> length vs"
  shows "find_pos (map Some vs) val (int i) k =
    Some (int (i + length (takeWhile (\<lambda>x. x \<noteq> val) (take k (drop i vs)))))"
  using assms
proof (induction k arbitrary: i)
  case 0
  then show ?case by simp
next
  case (Suc k)
  then have i: "i < length vs" by simp
  have f: "fetch (map Some vs) (int i) = Some (Some (vs ! i))" using i by (simp add: fetch_def)
  have d: "drop i vs = vs ! i # drop (Suc i) vs" using i by (simp add: Cons_nth_drop_Suc)
  show ?case
    using f Suc.IH [of "Suc i"] Suc.prems by (simp add: d add.commute)
qed

lemma shift_down_list:
  assumes "j + k + 1 \<le> length xs"
  shows "shift_down xs (int j) k = Some (take j xs @ take k (drop (Suc j) xs) @ drop (j + k) xs)"
  using assms
proof (induction k arbitrary: j xs)
  case 0
  then show ?case by simp
next
  case (Suc k)
  let ?ys = "xs[j := xs ! Suc j]"
  have f: "fetch xs (int j + 1) = Some (xs ! Suc j)"
    using Suc.prems by (simp add: fetch_def nat_add_distrib)
  have st: "store xs (int j) (xs ! Suc j) = Some ?ys"
    using Suc.prems by (simp add: store_def)
  have "take (Suc j) ?ys = take j xs @ [xs ! Suc j]"
    using Suc.prems by (simp add: take_Suc_conv_app_nth)
  moreover have "drop (Suc j) xs = xs ! Suc j # drop (Suc (Suc j)) xs"
    using Suc.prems by (simp add: Cons_nth_drop_Suc)
  ultimately show ?case
    using f st Suc.IH [of "Suc j" ?ys] Suc.prems by (simp add: add.commute)
qed

lemma DeleteSparse_present:
  assumes inv: "sparse_inv n" "n_type n = Sparse" and v: "val \<in> node_set n"
  shows "\<exists>n'. DeleteSparse n val = Some (0, n') \<and> n_type n' = Sparse \<and> sparse_inv n' \<and>
    node_set n' = node_set n - {val}"
proof -
  obtain vs where vs: "data_sparse n = map Some vs" "distinct vs" "n_size n = int (length vs)"
      "n_size n \<le> n_cap n"
    using inv by (auto simp: sparse_inv_def)
  have val: "val \<in> set vs" and ns: "node_set n = set vs" using v inv(2) vs(1) by auto
  define j where "j = length (takeWhile (\<lambda>x. x \<noteq> val) vs)"
  have j: "j < length vs" "vs ! j = val"
  proof -
    have "length (takeWhile (\<lambda>x. x \<noteq> val) vs) \<noteq> length vs"
      using val by (metis (mono_tags, lifting) takeWhile_eq_all_conv takeWhile_eq_take take_all order_refl)
    then show "j < length vs"
      unfolding j_def using length_takeWhile_le [of "\<lambda>x. x \<noteq> val" vs] by linarith
    then show "vs ! j = val"
      unfolding j_def using nth_length_takeWhile [of "\<lambda>x. x \<noteq> val" vs] by simp
  qed
  have find: "find_pos (data_sparse n) val 0 (nat (n_size n)) = Some (int j)"
    using find_pos_takeWhile [of 0 "length vs" vs val] vs by (simp add: j_def)
  let ?ws = "take j vs @ drop (Suc j) vs"
  have k: "nat (n_size n - 1 - int j) = length vs - 1 - j" using vs(3) by simp
  have sh: "shift_down (data_sparse n) (int j) (nat (n_size n - 1 - int j)) =
      Some (map Some ?ws @ drop (length vs - 1) (map Some vs))"
    unfolding k vs(1) using shift_down_list [of j "length vs - 1 - j" "map Some vs"] j
    by (simp add: take_map drop_map)
  have "length ?ws = nat (n_size n - 1)" using j vs(3) by simp
  then have tk: "take (nat (n_size n - 1)) (map Some ?ws @ drop (length vs - 1) (map Some vs)) = map Some ?ws"
    by simp
  have "int j \<noteq> n_size n" using j vs(3) by simp
  then have "DeleteSparse n val =
      Some (0, n\<lparr>data_sparse := map Some ?ws, n_size := n_size n - 1\<rparr>)" (is "_ = Some (0, ?n)")
    unfolding DeleteSparse_def find using sh tk by simp
  moreover have "vs = take j vs @ val # drop (Suc j) vs"
    using j id_take_nth_drop by blast
  then have dis: "distinct (take j vs @ val # drop (Suc j) vs)"
    and st: "set vs = insert val (set ?ws)"
    using vs(2) by (simp, metis list.set(2) set_append Un_insert_right)
  have s: "node_set ?n = node_set n - {val}"
    using dis st inv(2) ns by auto
  moreover have "sparse_inv ?n"
    using inv vs j dis s unfolding sparse_inv_def
    by (auto simp: fresh_bounds_def word_bounds_def intro!: exI [of _ ?ws])
  ultimately show ?thesis using inv(2) by auto
qed

lemma DeleteSparse_absent:
  assumes inv: "sparse_inv n" "n_type n = Sparse" and v: "val \<notin> node_set n"
  shows "DeleteSparse n val = Some (-1, n)"
proof -
  obtain vs where vs: "data_sparse n = map Some vs" "n_size n = int (length vs)"
    using inv by (auto simp: sparse_inv_def)
  have "val \<notin> set vs" using v inv(2) vs(1) by auto
  then have "find_pos (map Some vs) val 0 (length vs) = Some (int (length vs))"
    using find_pos_takeWhile [of 0 "length vs" vs val]
    by simp (metis (mono_tags, lifting) takeWhile_eq_all_conv)
  then show ?thesis
    using vs by (simp add: DeleteSparse_def)
qed

lemma DeleteDense_present:
  assumes inv: "dense_inv n" "n_type n = Dense" and v: "val \<in> node_set n"
  shows "\<exists>n'. DeleteDense n val = Some (0, n') \<and> n_type n' = Dense \<and> dense_inv n' \<and>
    node_set n' = node_set n - {val}"
proof -
  have wb: "word_bounds n" using inv(1) by (simp add: dense_inv_def)
  have p: "val - n_min_al n \<in> bm_set (data_dense n)" using v inv(2) by simp
  then have "val - n_min_al n \<in> bm_dom (data_dense n)" using bm_set_dom by blast
  from raw.clr_ok [OF this] obtain bm
    where bm: "bitmap_unset (data_dense n) (val - n_min_al n) = Some bm" by blast
  note 1 = bitmap_unset_Some [OF bm]
  have r: "n_min n \<le> val" "val \<le> n_max n" using inv(1) v by (auto simp only: dense_inv_def)
  let ?n = "n\<lparr>n_size := n_size n - 1, data_dense := bm\<rparr>"
  have "DeleteDense n val = Some (0, ?n)"
  proof -
    have "\<not> (val - n_min_al n < 0 \<or> val > n_max_al n)"
      using r wb unfolding word_bounds_def by linarith
    then show ?thesis unfolding DeleteDense_def Let_def using bm by simp
  qed
  moreover have s: "node_set ?n = node_set n - {val}"
    by (rule set_eqI) (use 1 inv(2) in simp)
  moreover have "card (node_set n) > 0" using v by (auto simp: card_gt_0_iff)
  then have "dense_inv ?n"
    using inv(1) wb 1 v unfolding dense_inv_def s
    by (auto simp: word_bounds_def card_Diff_singleton simp del: dense_mem)
  ultimately show ?thesis using inv(2) by auto
qed

subsection \<open>The node as a set of ids\<close>

lemma too_thick_bounds:
  assumes "sparse_inv n" "n_type n = Sparse" "too_thick n"
  shows "word_bounds n"
  using assms by (auto simp: sparse_inv_def too_thick_def fresh_bounds_def)

lemma Node_Add_spec:
  assumes inv: "node_inv n" and v: "docid_ok val" "val \<notin> node_set n"
  shows "\<exists>n'. Node_Add n val = Some (0, n') \<and> node_inv n' \<and> node_set n' = insert val (node_set n)"
proof (cases "n_type n")
  case Dense
  with inv have d: "dense_inv n" by (simp add: node_inv_def)
  show ?thesis
  proof (cases "too_thin n")
    case True
    obtain n1 where "ConvertToSparse n = Some n1" "n_type n1 = Sparse" "sparse_inv n1"
      "node_set n1 = node_set n"
      using ConvertToSparse_spec [OF d Dense] by blast
    then show ?thesis
      using AddSparse_spec [of n1 val] v True Dense by (auto simp: Node_Add_def node_inv_def)
  next
    case False
    then show ?thesis
      using AddDense_spec [OF d Dense v] Dense by (auto simp: Node_Add_def node_inv_def)
  qed
next
  case Sparse
  with inv have d: "sparse_inv n" by (simp add: node_inv_def)
  show ?thesis
  proof (cases "too_thick n")
    case True
    obtain n1 where "ConvertToDense n = Some (0, n1)" "n_type n1 = Dense" "dense_inv n1"
      "node_set n1 = node_set n"
      using ConvertToDense_spec [OF d Sparse too_thick_bounds [OF d Sparse True]] by blast
    then show ?thesis
      using AddDense_spec [of n1 val] v True Sparse by (auto simp: Node_Add_def node_inv_def)
  next
    case False
    then show ?thesis
      using AddSparse_spec [OF d Sparse v] Sparse by (auto simp: Node_Add_def node_inv_def)
  qed
qed

lemma Node_Delete_spec:
  assumes "node_inv n" and "val \<in> node_set n"
  shows "\<exists>n'. Node_Delete n val = Some (0, n') \<and> node_inv n' \<and> node_set n' = node_set n - {val}"
proof (cases "n_type n")
  case Dense
  with assms(1) have "dense_inv n" by (simp add: node_inv_def)
  from DeleteDense_present [OF this Dense assms(2)] obtain n' where
    "DeleteDense n val = Some (0, n')" "n_type n' = Dense" "dense_inv n'"
    "node_set n' = node_set n - {val}" by blast
  with Dense show ?thesis by (simp add: Node_Delete_def node_inv_def)
next
  case Sparse
  with assms(1) have "sparse_inv n" by (simp add: node_inv_def)
  from DeleteSparse_present [OF this Sparse assms(2)] obtain n' where
    "DeleteSparse n val = Some (0, n')" "n_type n' = Sparse" "sparse_inv n'"
    "node_set n' = node_set n - {val}" by blast
  with Sparse show ?thesis by (simp add: Node_Delete_def node_inv_def)
qed

end
