(* ===== verification/RangeResult.thy ===== *)
theory RangeResult
  imports Bitmap
begin

text \<open>
  The results of a filter: \<open>RangeQueryResult\<close>, a bitmap of document ids over a range, possibly
  negated, and \<open>MultiRangeQueryResults\<close>, the conjunction of several with an optional sorted list
  of ids from the text index (\<open>table/range_query_result.h\<close> and \<open>.cc\<close>). Asserts are compiled
  into release builds (the build files set no \<open>NDEBUG\<close>), so a failing one is \<open>None\<close>.
\<close>

record rqr =
  rr_min :: int
  rr_max :: int
  rr_min_al :: int
  rr_max_al :: int
  rr_next :: int
  rr_ndoc :: int
  rr_bits :: "byte list option"
  rr_not_in :: bool

definition RR_Clear :: "rqr \<Rightarrow> rqr" where
  "RR_Clear r = r\<lparr>rr_min := int_max, rr_max := 0, rr_next := -1, rr_ndoc := -1, rr_bits := None,
     rr_not_in := False\<rparr>"

text \<open>The constructor leaves \<open>min_aligned_\<close> and \<open>max_aligned_\<close> uninitialised: \<open>g1\<close> and \<open>g2\<close>.\<close>

definition RR_new :: "int \<Rightarrow> int \<Rightarrow> rqr" where
  "RR_new g1 g2 = RR_Clear \<lparr>rr_min = 0, rr_max = 0, rr_min_al = g1, rr_max_al = g2, rr_next = 0,
     rr_ndoc = 0, rr_bits = None, rr_not_in = False\<rparr>"

text \<open>Move assignment: the target and what is left of the source.\<close>

definition RR_move :: "rqr \<Rightarrow> rqr \<times> rqr" where
  "RR_move other = (other, other\<lparr>rr_bits := None\<rparr>)"

definition rr_block :: "rqr \<Rightarrow> byte list" where
  "rr_block r = (case rr_bits r of None \<Rightarrow> [] | Some b \<Rightarrow> b)"

definition RR_Has :: "rqr \<Rightarrow> int \<Rightarrow> bool option" where
  "RR_Has r doc =
     (if rr_not_in r then
        if doc < rr_min r \<or> doc > rr_max r then Some True
        else map_option Not (bitmap_test (rr_block r) (doc - rr_min_al r))
      else
        if doc < rr_min r \<or> doc > rr_max r then Some False
        else bitmap_test (rr_block r) (doc - rr_min_al r))"

function next_loop :: "byte list \<Rightarrow> int \<Rightarrow> int \<Rightarrow> int option" where
  "next_loop bm n i =
     (if i < n then do { b \<leftarrow> bitmap_test bm i; if b then Some i else next_loop bm n (i + 1) }
      else Some i)"
  by pat_completeness auto
termination
  by (relation "measure (\<lambda>(bm, n, i). nat (n - i))") auto

declare next_loop.simps [simp del]

definition RR_Next :: "rqr \<Rightarrow> (int \<times> rqr) option" where
  "RR_Next r =
     (let n = rr_max_al r - rr_min_al r + 1 in
      do { i \<leftarrow> next_loop (rr_block r) n (rr_next r + 1);
           Some (if i \<ge> n then -1 else i + rr_min_al r, r\<lparr>rr_next := i\<rparr>) })"

definition RR_SetRange :: "rqr \<Rightarrow> int \<Rightarrow> int \<Rightarrow> rqr" where
  "RR_SetRange r x y =
     (let mn = min (rr_min r) x; mx = max (rr_max r) y in
      r\<lparr>rr_min := mn, rr_max := mx, rr_min_al := cdiv mn 8 * 8,
        rr_max_al := (cdiv mx 8 + 1) * 8 - 1\<rparr>)"

definition RR_Resize :: "rqr \<Rightarrow> rqr option" where
  "RR_Resize r =
     (let n = rr_max_al r - rr_min_al r + 1 in
      if n > 0 then Some (r\<lparr>rr_bits := bitmap_create n\<rparr>) else None)"

definition RR_Set :: "rqr \<Rightarrow> int \<Rightarrow> rqr option" where
  "RR_Set r pos = do { b \<leftarrow> bitmap_set (rr_block r) pos; Some (r\<lparr>rr_bits := Some b\<rparr>) }"

text \<open>The ids of the set bits, in order; the loop of \<open>ToDocs\<close>.\<close>

fun docs_loop :: "byte list \<Rightarrow> int \<Rightarrow> int list \<Rightarrow> int list option" where
  "docs_loop bm mal [] = Some []"
| "docs_loop bm mal (i # is) =
     do { b \<leftarrow> bitmap_test bm i; ds \<leftarrow> docs_loop bm mal is;
          Some (if b then (i + mal) # ds else ds) }"

text \<open>
  With \<open>n_doc_ \<ge> 0\<close> the result vector has that length: more bits write past its end and fewer
  fail the assert, so both are \<open>None\<close>. Otherwise \<open>n_doc_\<close> is set.
\<close>

definition RR_ToDocs :: "rqr \<Rightarrow> (int list \<times> rqr) option" where
  "RR_ToDocs r =
     do { ds \<leftarrow> docs_loop (rr_block r) (rr_min_al r) [0..rr_max_al r - rr_min_al r];
          if rr_ndoc r \<ge> 0
          then (if int (length ds) = rr_ndoc r then Some (ds, r) else None)
          else Some (ds, r\<lparr>rr_ndoc := int (length ds)\<rparr>) }"

subsection \<open>Several results\<close>

record mrq =
  m_min :: int
  m_max :: int
  m_results :: "rqr list"
  m_text :: "int list"

definition MR_new :: mrq where
  "MR_new = \<lparr>m_min = 0, m_max = int_max, m_results = [], m_text = []\<rparr>"

definition MR_Clear :: "mrq \<Rightarrow> mrq" where
  "MR_Clear m = MR_new"

definition MR_Add :: "mrq \<Rightarrow> rqr \<Rightarrow> mrq" where
  "MR_Add m r = m\<lparr>m_min := (if rr_min r > m_min m then rr_min r else m_min m),
     m_max := (if rr_max r < m_max m then rr_max r else m_max m),
     m_results := m_results m @ [r]\<rparr>"

function text_loop :: "int list \<Rightarrow> int \<Rightarrow> int \<Rightarrow> int \<Rightarrow> bool option" where
  "text_loop xs docid start fin =
     (if start \<le> fin then do {
        start_value \<leftarrow> fetch xs start;
        if start = fin then Some (docid = start_value)
        else do {
          fin_value \<leftarrow> fetch xs fin;
          let mid = (fin + start) div 2;
          mid_value \<leftarrow> fetch xs mid;
          if docid < start_value \<or> docid > fin_value then Some False
          else if docid = start_value \<or> docid = fin_value then Some True
          else if docid = mid_value then Some True
          else if docid > mid_value then text_loop xs docid (mid + 1) fin
          else text_loop xs docid start (mid - 1) } }
      else Some False)"
  by pat_completeness auto
termination
  by (relation "measure (\<lambda>(xs, d, s, e). nat (e + 1 - s))") auto

declare text_loop.simps [simp del]

definition MR_TextHasDoc :: "mrq \<Rightarrow> int \<Rightarrow> bool option" where
  "MR_TextHasDoc m docid =
     (if m_text m = [] then Some False
      else text_loop (m_text m) docid 0 (int (length (m_text m)) - 1))"

fun has_loop :: "mrq \<Rightarrow> int \<Rightarrow> rqr list \<Rightarrow> bool option" where
  "has_loop m doc [] = Some True"
| "has_loop m doc (r # rs) =
     do { b \<leftarrow> RR_Has r doc;
          ret \<leftarrow> (if b \<and> m_text m \<noteq> [] then MR_TextHasDoc m doc else Some b);
          if ret then has_loop m doc rs else Some False }"

definition MR_Has :: "mrq \<Rightarrow> int \<Rightarrow> bool option" where
  "MR_Has m doc =
     (if m_results m = [] then
        (if m_text m \<noteq> [] then MR_TextHasDoc m doc else Some False)
      else has_loop m doc (m_results m))"

text \<open>\<open>ToDocs\<close> appends, result after result, the ids of \<open>[min_, max_]\<close> that the result has.\<close>

fun filter_has :: "rqr \<Rightarrow> int list \<Rightarrow> int list option" where
  "filter_has r [] = Some []"
| "filter_has r (d # ds) =
     do { b \<leftarrow> RR_Has r d; rest \<leftarrow> filter_has r ds; Some (if b then d # rest else rest) }"

fun todocs_loop :: "int \<Rightarrow> int \<Rightarrow> rqr list \<Rightarrow> int list option" where
  "todocs_loop lo hi [] = Some []"
| "todocs_loop lo hi (r # rs) =
     do { xs \<leftarrow> filter_has r [lo..hi]; ys \<leftarrow> todocs_loop lo hi rs; Some (xs @ ys) }"

definition MR_ToDocs :: "mrq \<Rightarrow> int list option" where
  "MR_ToDocs m = todocs_loop (m_min m) (m_max m) (m_results m)"

subsection \<open>The set a result stands for\<close>

definition rr_docs :: "rqr \<Rightarrow> int set" where
  "rr_docs r = {d. rr_min r \<le> d \<and> d \<le> rr_max r \<and> d - rr_min_al r \<in> bm_set (rr_block r)}"

text \<open>The documents the result lets through.\<close>

definition rr_sat :: "rqr \<Rightarrow> int set" where
  "rr_sat r = (if rr_not_in r then - rr_docs r else rr_docs r)"

definition rr_inv :: "rqr \<Rightarrow> bool" where
  "rr_inv r \<longleftrightarrow> rr_min_al r \<le> rr_min r \<and> rr_max r \<le> rr_max_al r \<and>
     {0..rr_max_al r - rr_min_al r} \<subseteq> bm_dom (rr_block r) \<and>
     (\<forall>i \<in> bm_set (rr_block r). rr_min r \<le> i + rr_min_al r \<and> i + rr_min_al r \<le> rr_max r)"

lemma RR_Has_spec:
  assumes "rr_inv r"
  shows "RR_Has r d = Some (d \<in> rr_sat r)"
proof (cases "d < rr_min r \<or> d > rr_max r")
  case True
  then show ?thesis by (auto simp: RR_Has_def rr_sat_def rr_docs_def)
next
  case False
  then have "d - rr_min_al r \<in> bm_dom (rr_block r)"
    using assms by (auto simp: rr_inv_def subset_iff)
  then show ?thesis
    using False by (auto simp: RR_Has_def rr_sat_def rr_docs_def bitmap_test_eq)
qed

lemma rr_docs_eq:
  assumes "rr_inv r"
  shows "rr_docs r = (\<lambda>i. i + rr_min_al r) ` bm_set (rr_block r)"
  using assms by (force simp: rr_docs_def rr_inv_def image_iff)

lemma docs_loop_eq:
  "set is \<subseteq> bm_dom bm \<Longrightarrow>
    docs_loop bm mal is = Some (map (\<lambda>i. i + mal) (filter (\<lambda>i. i \<in> bm_set bm) is))"
  by (induction "is") (auto simp: bitmap_test_eq)

text \<open>\<open>ToDocs\<close> of one result: the ids in order, whether or not the result is negated.\<close>

lemma RR_ToDocs_spec:
  assumes inv: "rr_inv r" and n: "rr_ndoc r < 0 \<or> rr_ndoc r = int (card (rr_docs r))"
  shows "\<exists>r'. RR_ToDocs r = Some (sorted_list_of_set (rr_docs r), r') \<and>
    rr_ndoc r' = int (card (rr_docs r)) \<and> rr_docs r' = rr_docs r"
proof -
  let ?is = "filter (\<lambda>i. i \<in> bm_set (rr_block r)) [0..rr_max_al r - rr_min_al r]"
  let ?ds = "map (\<lambda>i. i + rr_min_al r) ?is"
  have "i \<in> bm_set (rr_block r) \<Longrightarrow> 0 \<le> i \<and> i \<le> rr_max_al r - rr_min_al r" for i
    using inv bm_set_dom [of "rr_block r"] by (force simp: rr_inv_def bm_dom_def)
  then have "set ?is = bm_set (rr_block r)" by auto
  then have s: "set ?ds = rr_docs r" using rr_docs_eq [OF inv] by simp
  have sd: "sorted ?ds" "distinct ?ds"
    by (auto simp: sorted_map distinct_map sorted_wrt_filter)
  then have ds: "?ds = sorted_list_of_set (rr_docs r)"
    using s sorted_list_of_set.idem_if_sorted_distinct by metis
  have "docs_loop (rr_block r) (rr_min_al r) [0..rr_max_al r - rr_min_al r] = Some ?ds"
    using inv by (intro docs_loop_eq) (auto simp: rr_inv_def)
  moreover have "length ?ds = card (rr_docs r)" using distinct_card [OF sd(2)] s by simp
  ultimately show ?thesis
    using n ds by (auto simp: RR_ToDocs_def rr_docs_def rr_block_def)
qed

subsection \<open>Preparing a result\<close>

text \<open>A fresh result after \<open>SetRange\<close> and \<open>Resize\<close>: an empty bitmap over the aligned range.\<close>

lemma RR_prepare:
  fixes g1 g2 :: int
  assumes "0 \<le> x" "x \<le> y" "y \<le> int_max"
  defines "r \<equiv> RR_SetRange (RR_new g1 g2) x y"
  shows "\<exists>r' b. RR_Resize r = Some r' \<and> rr_bits r' = Some b \<and> bm_set b = {} \<and>
    rr_min r' = x \<and> rr_max r' = y \<and> rr_min_al r' = x div 8 * 8 \<and> rr_max_al r' = (y div 8 + 1) * 8 - 1 \<and>
    int (length b) = y div 8 - x div 8 + 2 \<and> rr_ndoc r' = -1 \<and> \<not> rr_not_in r'"
proof -
  have x: "min int_max x = x" "max 0 y = y" using assms(1-3) by auto
  have r: "r = (RR_new g1 g2)\<lparr>rr_min := x, rr_max := y, rr_min_al := x div 8 * 8,
      rr_max_al := (y div 8 + 1) * 8 - 1\<rparr>"
    using assms(1,2) x by (simp add: r_def RR_SetRange_def RR_new_def RR_Clear_def)
  let ?n = "8 * (y div 8 - x div 8 + 1)"
  have n: "rr_max_al r - rr_min_al r + 1 = ?n" by (simp add: r)
  have le: "x div 8 \<le> y div 8" using assms(2) by (simp add: zdiv_mono1)
  then obtain b where b: "bitmap_create ?n = Some b" "bm_set b = {}" "int (length b) = ?n div 8 + 1"
    using bitmap_create_Some [of ?n] by auto
  have m: "?n div 8 = y div 8 - x div 8 + 1" by (rule nonzero_mult_div_cancel_left) simp
  have "RR_Resize r = Some (r\<lparr>rr_bits := Some b\<rparr>)"
    using n b(1) le unfolding RR_Resize_def by (simp only: Let_def) simp
  then show ?thesis
    using b(2,3) m by (intro exI [of _ "r\<lparr>rr_bits := Some b\<rparr>"] exI [of _ b])
      (simp add: r RR_new_def RR_Clear_def)
qed

subsection \<open>Enumerating\<close>

lemma next_loop_spec:
  assumes "\<forall>k. i \<le> k \<and> k < n \<longrightarrow> k \<in> bm_dom bm" and "i \<le> n"
  shows "\<exists>j. next_loop bm n i = Some j \<and> i \<le> j \<and> j \<le> n \<and> (j < n \<longrightarrow> j \<in> bm_set bm) \<and>
    (\<forall>k. i \<le> k \<and> k < j \<longrightarrow> k \<notin> bm_set bm)"
  using assms
proof (induction bm n i rule: next_loop.induct)
  case (1 bm n i)
  show ?case
  proof (cases "i < n \<and> i \<notin> bm_set bm")
    case True
    then have t: "bitmap_test bm i = Some False" using "1.prems"(1) by (simp add: bitmap_test_eq)
    have "\<forall>k. i + 1 \<le> k \<and> k < n \<longrightarrow> k \<in> bm_dom bm" "i + 1 \<le> n"
      using "1.prems" True by auto
    from "1.IH" [OF _ t _ this] True obtain j where j: "next_loop bm n (i + 1) = Some j"
      "i + 1 \<le> j \<and> j \<le> n \<and> (j < n \<longrightarrow> j \<in> bm_set bm) \<and> (\<forall>k. i + 1 \<le> k \<and> k < j \<longrightarrow> k \<notin> bm_set bm)"
      by auto
    have "\<forall>k. i \<le> k \<and> k < j \<longrightarrow> k \<notin> bm_set bm"
      using j(2) True by (metis le_less zless_imp_add1_zle)
    moreover have "next_loop bm n i = Some j"
      using True t j(1) by (subst next_loop.simps) simp
    ultimately show ?thesis using j(2) by auto
  next
    case False
    then have "next_loop bm n i = Some i"
      using "1.prems" by (subst next_loop.simps) (auto simp: bitmap_test_eq)
    then show ?thesis using False "1.prems"(2) by auto
  qed
qed

text \<open>\<open>Next\<close> returns the least id after the last one, and -1 when there is none.\<close>

definition rr_after :: "rqr \<Rightarrow> int set" where
  "rr_after r = {d \<in> rr_docs r. rr_next r < d - rr_min_al r}"

lemma RR_Next_spec:
  assumes inv: "rr_inv r" and n: "-1 \<le> rr_next r" "rr_next r \<le> rr_max_al r - rr_min_al r"
  shows "\<exists>d r'. RR_Next r = Some (d, r') \<and> rr_docs r' = rr_docs r \<and> rr_inv r' \<and>
    (if rr_after r = {} then d = -1
     else d \<in> rr_after r \<and> (\<forall>e \<in> rr_after r. d \<le> e) \<and> rr_after r' = rr_after r - {d})"
proof -
  let ?n = "rr_max_al r - rr_min_al r + 1" and ?bm = "rr_block r"
  have "\<forall>k. rr_next r + 1 \<le> k \<and> k < ?n \<longrightarrow> k \<in> bm_dom ?bm"
    using inv n(1) by (auto simp: rr_inv_def subset_iff)
  from next_loop_spec [OF this] n(2) obtain j where
    j: "next_loop ?bm ?n (rr_next r + 1) = Some j" "rr_next r + 1 \<le> j" "j \<le> ?n"
      "j < ?n \<longrightarrow> j \<in> bm_set ?bm" "\<forall>k. rr_next r + 1 \<le> k \<and> k < j \<longrightarrow> k \<notin> bm_set ?bm"
    by auto
  let ?r = "r\<lparr>rr_next := j\<rparr>"
  have nx: "RR_Next r = Some (if j \<ge> ?n then -1 else j + rr_min_al r, ?r)"
    using j(1) by (simp add: RR_Next_def)
  have d: "rr_docs ?r = rr_docs r" "rr_inv ?r"
    using inv by (simp_all add: rr_docs_def rr_inv_def rr_block_def)
  have lt: "e - rr_min_al r < ?n" if "e \<in> rr_docs r" for e
    using that inv by (auto simp: rr_docs_def rr_inv_def)
  have ge: "j \<le> e - rr_min_al r" if "e \<in> rr_after r" for e
    using that j(5) unfolding rr_after_def rr_docs_def
    by (metis (no_types, lifting) add1_zle_eq mem_Collect_eq not_less)
  show ?thesis
  proof (cases "j < ?n")
    case True
    then have jd: "j + rr_min_al r \<in> rr_docs r"
      using j(4) unfolding rr_docs_eq [OF inv] by auto
    then have "j + rr_min_al r \<in> rr_after r" using j(2) by (simp add: rr_after_def)
    moreover have "rr_after ?r = rr_after r - {j + rr_min_al r}"
      using ge d(1) j(2) by (force simp: rr_after_def)
    ultimately show ?thesis
      using nx True d ge by (intro exI [of _ "j + rr_min_al r"] exI [of _ ?r]) (auto simp: algebra_simps)
  next
    case False
    then have "rr_after r = {}" using ge lt by (force simp: rr_after_def)
    then show ?thesis using nx False d by auto
  qed
qed

subsection \<open>The text filter\<close>

definition has_between :: "int list \<Rightarrow> int \<Rightarrow> int \<Rightarrow> int \<Rightarrow> bool" where
  "has_between xs start fin d \<longleftrightarrow> (\<exists>k. start \<le> int k \<and> int k \<le> fin \<and> xs ! k = d)"

lemma has_betweenI: "start \<le> int k \<Longrightarrow> int k \<le> fin \<Longrightarrow> has_between xs start fin (xs ! k)"
  by (auto simp: has_between_def)

lemma has_between_out:
  assumes "sorted xs" "f < length xs" "d < xs ! s \<or> xs ! f < d"
  shows "\<not> has_between xs (int s) (int f) d"
proof
  assume "has_between xs (int s) (int f) d"
  then obtain k where k: "s \<le> k" "k \<le> f" "xs ! k = d" by (auto simp: has_between_def)
  have "xs ! s \<le> xs ! k" "xs ! k \<le> xs ! f"
    using assms(1,2) k by (auto intro!: sorted_nth_mono)
  then show False using assms(3) k(3) by auto
qed

lemma has_between_up:
  assumes "sorted xs" "m < length xs" "xs ! m < d"
  shows "s \<le> m \<Longrightarrow> has_between xs (int m + 1) f d = has_between xs (int s) f d"
proof -
  assume sm: "s \<le> m"
  have "m < k" if "xs ! k = d" for k
    using assms that sorted_nth_mono [of xs k m] by (cases "k \<le> m") auto
  then have "int m + 1 \<le> int k \<and> int k \<le> f \<and> xs ! k = d \<longleftrightarrow> int s \<le> int k \<and> int k \<le> f \<and> xs ! k = d" for k
    using sm by force
  then show ?thesis unfolding has_between_def by (intro ex_cong1)
qed

lemma has_between_down:
  assumes "sorted xs" "d < xs ! m" "f < length xs"
  shows "m \<le> f \<Longrightarrow> has_between xs s (int m - 1) d = has_between xs s (int f) d"
proof -
  have "k < m" if "xs ! k = d" "k \<le> f" for k
    using assms that sorted_nth_mono [of xs m k] by (cases "m \<le> k") auto
  then show "m \<le> f \<Longrightarrow> ?thesis" unfolding has_between_def by fastforce
qed

lemma text_loop_spec:
  assumes "sorted xs" and "0 \<le> start" and "fin < int (length xs)"
  shows "text_loop xs docid start fin = Some (has_between xs start fin docid)"
  using assms
proof (induction xs docid start fin rule: text_loop.induct)
  case (1 xs docid start fin)
  show ?case
  proof (cases "start < fin")
    case False
    then show ?thesis
      using "1.prems" by (subst text_loop.simps) (force simp: has_between_def fetch_def)
  next
    case lt: True
    define s f m where "s = nat start" and "f = nat fin" and "m = nat ((fin + start) div 2)"
    have sf: "start = int s" "fin = int f" "(fin + start) div 2 = int m" "s \<le> m" "m < f" "f < length xs"
      using lt "1.prems" by (auto simp: s_def f_def m_def)
    have fe: "fetch xs start = Some (xs ! s)" "fetch xs fin = Some (xs ! f)"
      "fetch xs (int m) = Some (xs ! m)"
      using sf by (auto simp: fetch_def)
    note IH = "1.IH" [OF less_imp_le [OF lt] fe(1) _ fe(2) sf(3) [symmetric] fe(3)]
    note step = text_loop.simps [of xs docid start fin]
    consider (out) "docid < xs ! s \<or> docid > xs ! f"
      | (hit) "\<not> (docid < xs ! s \<or> docid > xs ! f)" "docid = xs ! s \<or> docid = xs ! f \<or> docid = xs ! m"
      | (up) "xs ! s < docid" "docid < xs ! f" "xs ! m < docid"
      | (down) "xs ! s < docid" "docid < xs ! f" "docid < xs ! m"
      by linarith
    then show ?thesis
    proof cases
      case out
      then show ?thesis
        using has_between_out [OF "1.prems"(1) sf(6) out] sf lt fe step by simp
    next
      case hit
      then have "has_between xs start fin docid"
        using has_betweenI [of start s fin xs] has_betweenI [of start f fin xs]
          has_betweenI [of start m fin xs] sf by auto
      then show ?thesis using hit sf lt fe step by (auto simp: Let_def)
    next
      case up
      have "has_between xs (int m + 1) fin docid = has_between xs start fin docid"
        using has_between_up [of xs m docid s fin] up(3) "1.prems"(1) sf by simp
      moreover have "text_loop xs docid (int m + 1) fin = Some (has_between xs (int m + 1) fin docid)"
        using IH(1) up sf lt "1.prems" by simp
      ultimately show ?thesis using up sf lt fe step by simp
    next
      case down
      have "has_between xs start (int m - 1) docid = has_between xs start fin docid"
        using has_between_down [of xs docid m f start] down(3) "1.prems"(1) sf by simp
      moreover have "text_loop xs docid start (int m - 1) = Some (has_between xs start (int m - 1) docid)"
        using IH(2) down sf lt "1.prems" by simp
      ultimately show ?thesis using down sf lt fe step by simp
    qed
  qed
qed

lemma MR_TextHasDoc_spec:
  assumes "sorted (m_text m)"
  shows "MR_TextHasDoc m d = Some (d \<in> set (m_text m))"
proof -
  have "has_between (m_text m) 0 (int (length (m_text m)) - 1) d \<longleftrightarrow> d \<in> set (m_text m)"
    by (force simp: has_between_def in_set_conv_nth)
  then show ?thesis
    using text_loop_spec [OF assms, of 0 "int (length (m_text m)) - 1" d]
    by (auto simp: MR_TextHasDoc_def)
qed

text \<open>The documents that pass all filters and, when there is one, the text filter.\<close>

definition mr_sat :: "mrq \<Rightarrow> int set" where
  "mr_sat m = (if m_results m = [] then set (m_text m)
     else (\<Inter>r \<in> set (m_results m). rr_sat r) \<inter> (if m_text m = [] then UNIV else set (m_text m)))"

lemma has_loop_spec:
  assumes "\<forall>r \<in> set rs. rr_inv r" and "sorted (m_text m)"
  shows "has_loop m d rs = Some (rs = [] \<or>
    (\<forall>r \<in> set rs. d \<in> rr_sat r) \<and> (m_text m = [] \<or> d \<in> set (m_text m)))"
  using assms(1) by (induction rs) (auto simp: RR_Has_spec MR_TextHasDoc_spec [OF assms(2)])

lemma MR_Has_spec:
  assumes "\<forall>r \<in> set (m_results m). rr_inv r" and "sorted (m_text m)"
  shows "MR_Has m d = Some (d \<in> mr_sat m)"
  using has_loop_spec [OF assms, of d] MR_TextHasDoc_spec [OF assms(2)]
  by (auto simp: MR_Has_def mr_sat_def)

text \<open>\<open>ToDocs\<close> lists, for each result in turn, its ids between the common bounds.\<close>

lemma filter_has_spec:
  "rr_inv r \<Longrightarrow> filter_has r ds = Some (filter (\<lambda>d. d \<in> rr_sat r) ds)"
  by (induction ds) (auto simp: RR_Has_spec)

lemma todocs_loop_spec:
  "\<forall>r \<in> set rs. rr_inv r \<Longrightarrow>
    todocs_loop lo hi rs = Some (concat (map (\<lambda>r. filter (\<lambda>d. d \<in> rr_sat r) [lo..hi]) rs))"
  by (induction rs) (auto simp: filter_has_spec)

lemma MR_ToDocs_spec:
  "\<forall>r \<in> set (m_results m). rr_inv r \<Longrightarrow>
    MR_ToDocs m = Some (concat (map (\<lambda>r. filter (\<lambda>d. d \<in> rr_sat r) [m_min m..m_max m]) (m_results m)))"
  by (simp add: MR_ToDocs_def todocs_loop_spec)

text \<open>With one result, and no text filter, that is the sorted list of the matching documents.\<close>

lemma MR_ToDocs_single:
  assumes "rr_inv r" "0 \<le> rr_min r" "rr_max r < int_max" "\<not> rr_not_in r"
  shows "MR_ToDocs (MR_Add MR_new r) = Some (sorted_list_of_set (mr_sat (MR_Add MR_new r)))"
proof -
  let ?m = "MR_Add MR_new r"
  let ?ds = "filter (\<lambda>d. d \<in> rr_sat r) [rr_min r..rr_max r]"
  have "MR_ToDocs ?m = Some ?ds"
    using assms MR_ToDocs_spec [of ?m] by (cases "rr_min r = 0") (auto simp: MR_Add_def MR_new_def)
  moreover have "set ?ds = mr_sat ?m"
    using assms(4) by (auto simp: mr_sat_def MR_Add_def MR_new_def rr_sat_def rr_docs_def)
  moreover have "sorted ?ds" "distinct ?ds" by (auto simp: sorted_wrt_filter)
  ultimately show ?thesis using sorted_list_of_set.idem_if_sorted_distinct by metis
qed

end
