(* ===== verification/FieldIndex.thy ===== *)
theory FieldIndex
  imports KeyTree RangeNode RangeResult
begin

text \<open>
  The index of one field, \<open>FieldRangeIndex\<close> (\<open>table/field_range_index.cc\<close>): a B-tree from keys to
  nodes of document ids. A numeric value is one key, its bytes reversed and its sign bit flipped;
  a string value is split at the delimiter into tags, one key each. A node is reached from one key
  only, so the tree holds the nodes themselves. The \<open>__APPLE__\<close> branches, which call another
  version of the B-tree for the same steps, are not modelled.
\<close>

subsection \<open>Keys\<close>

text \<open>Reversing an empty key writes to an array of length 0: \<open>None\<close>.\<close>

definition ReverseEndian :: "byte list \<Rightarrow> bkey option" where
  "ReverseEndian inp =
     (case rev inp of [] \<Rightarrow> None | b # bs \<Rightarrow> Some ((b + 0x80) # bs))"

text \<open>\<open>strtok_r\<close> on the copy of the key that ends at its first NUL byte.\<close>

lemma dropWhile_le: "length (dropWhile P xs) \<le> length xs"
  by (induction xs) auto

lemma dropWhile_hd: "dropWhile P xs = y # ys \<Longrightarrow> \<not> P y"
  by (metis hd_dropWhile list.discI list.sel(1))

lemma takeWhile_less: "\<exists>x \<in> set xs. \<not> P x \<Longrightarrow> length (takeWhile P xs) < length xs"
  by (induction xs) auto

function tokens :: "byte list \<Rightarrow> byte list \<Rightarrow> byte list list" where
  "tokens delim s =
     (case dropWhile (\<lambda>c. c \<in> set delim) s of [] \<Rightarrow> []
      | c # r \<Rightarrow> takeWhile (\<lambda>c. c \<notin> set delim) (c # r) # tokens delim (dropWhile (\<lambda>c. c \<notin> set delim) (c # r)))"
  by pat_completeness auto
termination
proof (relation "measure (\<lambda>(d, s). length s)", simp)
  fix delim s :: "byte list" and c r
  assume d: "dropWhile (\<lambda>c. c \<in> set delim) s = c # r"
  then have "c \<notin> set delim" "length r < length s"
    using dropWhile_hd [OF d] dropWhile_le [of "\<lambda>c. c \<in> set delim" s] by auto
  then show "((delim, dropWhile (\<lambda>c. c \<notin> set delim) (c # r)), delim, s) \<in> measure (\<lambda>(d, s). length s)"
    using dropWhile_le [of "\<lambda>c. c \<notin> set delim" r] by simp
qed

declare tokens.simps [simp del]

definition strtok_all :: "byte list \<Rightarrow> byte list \<Rightarrow> byte list list" where
  "strtok_all delim key = tokens delim (takeWhile (\<lambda>c. c \<noteq> 0) key)"

text \<open>\<open>utils::split\<close> (\<open>util/utils.cc\<close>), with the positions of \<open>std::string\<close>; \<open>None\<close> is \<open>npos\<close>.\<close>

fun find_from :: "(byte \<Rightarrow> bool) \<Rightarrow> byte list \<Rightarrow> nat \<Rightarrow> nat option" where
  "find_from P [] i = None"
| "find_from P (c # cs) 0 = (if P c then Some 0 else map_option Suc (find_from P cs 0))"
| "find_from P (c # cs) (Suc i) = map_option Suc (find_from P cs i)"

definition find_first_of :: "byte list \<Rightarrow> byte list \<Rightarrow> nat \<Rightarrow> nat option" where
  "find_first_of s sep i = find_from (\<lambda>c. c \<in> set sep) s i"

definition find_first_not_of :: "byte list \<Rightarrow> byte list \<Rightarrow> nat \<Rightarrow> nat option" where
  "find_first_not_of s sep i = find_from (\<lambda>c. c \<notin> set sep) s i"

definition substr :: "byte list \<Rightarrow> nat \<Rightarrow> nat \<Rightarrow> byte list" where
  "substr s pos n = take n (drop pos s)"

lemma find_from_drop:
  "find_from P s i = (if \<exists>c \<in> set (drop i s). P c
     then Some (i + length (takeWhile (\<lambda>c. \<not> P c) (drop i s))) else None)"
  by (induction P s i rule: find_from.induct) auto

function split_loop :: "byte list \<Rightarrow> byte list \<Rightarrow> nat option \<Rightarrow> byte list list" where
  "split_loop s sep None = []"
| "split_loop s sep (Some b) =
     (case find_first_of s sep b of
        None \<Rightarrow> [substr s b (length s - b)]
      | Some e \<Rightarrow> substr s b (e - b) # split_loop s sep (find_first_not_of s sep e))"
  by pat_completeness auto
termination
proof (relation "measure (\<lambda>(s, sep, b). case b of None \<Rightarrow> 0 | Some b \<Rightarrow> Suc (length s - b))", simp)
  fix s sep :: "byte list" and b e
  assume e: "find_first_of s sep b = Some e"
  let ?d = "drop e s"
  have be: "b \<le> e" "\<exists>c \<in> set (drop b s). c \<in> set sep"
    "e = b + length (takeWhile (\<lambda>c. c \<notin> set sep) (drop b s))"
    using e by (auto simp: find_first_of_def find_from_drop split: if_splits)
  then have le: "e < length s" "s ! e \<in> set sep"
  proof -
    have l: "length (takeWhile (\<lambda>c. c \<notin> set sep) (drop b s)) < length (drop b s)"
      using be(2) by (intro takeWhile_less) auto
    then show "e < length s" using be(3) by auto
    show "s ! e \<in> set sep" using nth_length_takeWhile [OF l] l be(3) by auto
  qed
  have "e < f \<and> f < length s" if "find_first_not_of s sep e = Some f" for f
  proof -
    have f: "\<exists>c \<in> set ?d. c \<notin> set sep" "f = e + length (takeWhile (\<lambda>c. c \<in> set sep) ?d)"
      using that by (auto simp: find_first_not_of_def find_from_drop split: if_splits)
    have "length (takeWhile (\<lambda>c. c \<in> set sep) ?d) < length ?d"
      using f(1) by (intro takeWhile_less) auto
    moreover have "?d = s ! e # drop (Suc e) s" using le by (simp add: Cons_nth_drop_Suc)
    ultimately show ?thesis using f(2) le by auto
  qed
  then show "((s, sep, find_first_not_of s sep e), s, sep, Some b)
      \<in> measure (\<lambda>(s, sep, b). case b of None \<Rightarrow> 0 | Some b \<Rightarrow> Suc (length s - b))"
    using be(1) le by (cases "find_first_not_of s sep e") auto
qed

declare split_loop.simps [simp del]

definition utils_split :: "byte list \<Rightarrow> byte list \<Rightarrow> byte list list" where
  "utils_split s sep = split_loop s sep (find_first_not_of s sep 0)"

text \<open>The position loop of \<open>utils::split\<close> yields the tokens \<open>strtok_r\<close> would.\<close>

lemma find_from_None: "find_from P s i = None \<longleftrightarrow> takeWhile (\<lambda>c. \<not> P c) (drop i s) = drop i s"
  by (auto simp: find_from_drop takeWhile_eq_all_conv)

lemma find_from_Some:
  assumes "find_from P s i = Some j"
  shows "i \<le> j \<and> drop j s = dropWhile (\<lambda>c. \<not> P c) (drop i s) \<and>
    substr s i (j - i) = takeWhile (\<lambda>c. \<not> P c) (drop i s) \<and> dropWhile (\<lambda>c. \<not> P c) (drop i s) \<noteq> []"
proof -
  have j: "j = i + length (takeWhile (\<lambda>c. \<not> P c) (drop i s))" and ex: "\<exists>c \<in> set (drop i s). P c"
    using assms by (auto simp: find_from_drop split: if_splits)
  have l: "length (takeWhile (\<lambda>c. \<not> P c) (drop i s)) < length (drop i s)"
    using ex by (intro takeWhile_less) auto
  have d: "drop j s = dropWhile (\<lambda>c. \<not> P c) (drop i s)"
    using j by (simp add: dropWhile_eq_drop add.commute)
  have t: "substr s i (j - i) = takeWhile (\<lambda>c. \<not> P c) (drop i s)"
    using j by (simp add: substr_def takeWhile_eq_take [symmetric])
  show ?thesis using d t j l ex by auto
qed

lemma split_loop_tokens: "split_loop s sep (find_first_not_of s sep e) = tokens sep (drop e s)"
proof (induction "length s - e" arbitrary: e rule: less_induct)
  case less
  show ?case
  proof (cases "find_first_not_of s sep e")
    case None
    then have d: "dropWhile (\<lambda>c. c \<in> set sep) (drop e s) = []"
      by (simp add: find_first_not_of_def find_from_None takeWhile_eq_all_conv)
    have "tokens sep (drop e s) = []" by (subst tokens.simps) (simp only: d list.case)
    then show ?thesis using None by (simp add: split_loop.simps)
  next
    case (Some b)
    have b: "e \<le> b" "drop b s = dropWhile (\<lambda>c. c \<in> set sep) (drop e s)" "drop b s \<noteq> []"
      using find_from_Some [OF Some [unfolded find_first_not_of_def]] by auto
    obtain c r where cr: "drop b s = c # r" using b(3) by (cases "drop b s") auto
    have nc: "c \<notin> set sep" using b(2) cr dropWhile_hd by metis
    have tok: "tokens sep (drop e s) =
        takeWhile (\<lambda>c. c \<notin> set sep) (drop b s) # tokens sep (dropWhile (\<lambda>c. c \<notin> set sep) (drop b s))"
      by (subst tokens.simps) (simp add: b(2) [symmetric] cr)
    show ?thesis
    proof (cases "find_first_of s sep b")
      case None
      then have t: "takeWhile (\<lambda>c. c \<notin> set sep) (drop b s) = drop b s"
        by (simp only: find_first_of_def find_from_None simp_thms)
      then have d: "dropWhile (\<lambda>c. c \<notin> set sep) (drop b s) = []"
        by (simp add: takeWhile_eq_all_conv)
      have "tokens sep [] = []" by (subst tokens.simps) simp
      then have "tokens sep (drop e s) = [drop b s]" using tok t d by (simp only:)
      then show ?thesis using None Some by (simp add: split_loop.simps substr_def)
    next
      case (Some f)
      note f = find_from_Some [OF Some [unfolded find_first_of_def]]
      have "b < f" using f cr nc by (cases "b = f") (auto simp: substr_def)
      moreover have "f < length s" using f by (metis drop_eq_Nil not_less)
      ultimately have "length s - f < length s - e" using b(1) by linarith
      from less.hyps [OF this] show ?thesis
        using f tok Some \<open>find_first_not_of s sep e = Some b\<close> by (simp add: split_loop.simps)
    qed
  qed
qed

lemma utils_split_tokens: "utils_split s sep = tokens sep s"
  using split_loop_tokens [of s sep 0] by (simp add: utils_split_def)

lemma strtok_split: "0 \<notin> set s \<Longrightarrow> strtok_all sep s = utils_split s sep"
proof -
  assume "0 \<notin> set s"
  then have "takeWhile (\<lambda>c. c \<noteq> 0) s = s" by (auto simp: takeWhile_eq_all_conv)
  then show ?thesis by (simp only: strtok_all_def utils_split_tokens)
qed

subsection \<open>Adding and deleting\<close>

type_synonym btree = "(bkey \<times> node) list"

record frx =
  fx_tree :: btree
  fx_num :: bool
  fx_delim :: "byte list"

definition InsertToBt :: "btree \<Rightarrow> bkey \<Rightarrow> int \<Rightarrow> btree option" where
  "InsertToBt t k value =
     (case bt_findkey t k of
        None \<Rightarrow> do { (r, n) \<leftarrow> Node_Add new_node value; Some (bt_insertkey t k n) }
      | Some p \<Rightarrow> do { (r, n) \<leftarrow> Node_Add p value; Some (bt_insertkey t k n) })"

definition DeleteFromBt :: "btree \<Rightarrow> bkey \<Rightarrow> int \<Rightarrow> btree option" where
  "DeleteFromBt t k value =
     (case bt_findkey t k of
        None \<Rightarrow> Some t
      | Some p \<Rightarrow> do { (r, n) \<leftarrow> Node_Delete p value; Some (bt_insertkey t k n) })"

fun each_key :: "(btree \<Rightarrow> bkey \<Rightarrow> int \<Rightarrow> btree option) \<Rightarrow> btree \<Rightarrow> bkey list \<Rightarrow> int \<Rightarrow> btree option" where
  "each_key f t [] value = Some t"
| "each_key f t (k # ks) value = do { t' \<leftarrow> f t k value; each_key f t' ks value }"

text \<open>A key that the tree cannot hold has no meaning in the model: \<open>None\<close>.\<close>

definition FRI_Add :: "frx \<Rightarrow> byte list \<Rightarrow> int \<Rightarrow> (int \<times> frx) option" where
  "FRI_Add x key value =
     (if fx_num x then do {
        k \<leftarrow> ReverseEndian key;
        t \<leftarrow> (if bt_key_ok k then InsertToBt (fx_tree x) k value else None);
        Some (0, x\<lparr>fx_tree := t\<rparr>) }
      else if \<not> (\<forall>k \<in> set (strtok_all (fx_delim x) key). bt_key_ok k) then None
      else do {
        t \<leftarrow> each_key InsertToBt (fx_tree x) (strtok_all (fx_delim x) key) value;
        Some (0, x\<lparr>fx_tree := t\<rparr>) })"

definition FRI_Delete :: "frx \<Rightarrow> byte list \<Rightarrow> int \<Rightarrow> (int \<times> frx) option" where
  "FRI_Delete x key value =
     (if fx_num x then do {
        k \<leftarrow> ReverseEndian key;
        t \<leftarrow> (if bt_key_ok k then DeleteFromBt (fx_tree x) k value else None);
        Some (0, x\<lparr>fx_tree := t\<rparr>) }
      else if \<not> (\<forall>k \<in> set (strtok_all (fx_delim x) key). bt_key_ok k) then None
      else do {
        t \<leftarrow> each_key DeleteFromBt (fx_tree x) (strtok_all (fx_delim x) key) value;
        Some (0, x\<lparr>fx_tree := t\<rparr>) })"

subsection \<open>Searching\<close>

text \<open>One node or-ed into the result bitmap, whose bit 0 is document \<open>lo\<close>.\<close>

fun set_cells :: "byte list \<Rightarrow> int \<Rightarrow> int option list \<Rightarrow> byte list option" where
  "set_cells bm lo [] = Some bm"
| "set_cells bm lo (None # cs) = None"
| "set_cells bm lo (Some v # cs) = do { bm' \<leftarrow> bitmap_set bm (v - lo); set_cells bm' lo cs }"

definition or_node :: "byte list \<Rightarrow> int \<Rightarrow> node \<Rightarrow> byte list option" where
  "or_node bm lo n =
     (case n_type n of
        Dense \<Rightarrow> word_loop or_op bm (cdiv (n_min_al n - lo) op_len) (data_dense n) 0
                   (nat (cdiv (n_max_al n - n_min_al n + 1) op_len))
      | Sparse \<Rightarrow> set_cells bm lo (take (nat (n_size n)) (data_sparse n)))"

text \<open>The bounds of a list of nodes: smallest and largest id, and the same aligned to words.\<close>

fun range_bounds :: "node list \<Rightarrow> int \<times> int \<times> int \<times> int \<Rightarrow> int \<times> int \<times> int \<times> int" where
  "range_bounds [] b = b"
| "range_bounds (n # ns) (min_doc, min_aligned, max_doc, max_aligned) =
     range_bounds ns (min min_doc (n_min n), min min_aligned (n_min_al n),
                      max max_doc (n_max n), max max_aligned (n_max_al n))"

fun range_or :: "byte list \<Rightarrow> int \<times> int \<times> int \<times> int \<Rightarrow> node list \<Rightarrow> int \<Rightarrow> (int \<times> byte list) option" where
  "range_or bm b [] tot = Some (tot, bm)"
| "range_or bm (min_doc, min_aligned, max_doc, max_aligned) (n # ns) tot =
     (let skip = (case n_type n of
                    Dense \<Rightarrow> n_min_al n < min_aligned \<or> n_max_al n > max_aligned
                  | Sparse \<Rightarrow> n_min n < min_doc \<or> n_max n > max_doc) in
      if skip then range_or bm (min_doc, min_aligned, max_doc, max_aligned) ns tot
      else do {
        bm' \<leftarrow> or_node bm min_aligned n;
        range_or bm' (min_doc, min_aligned, max_doc, max_aligned) ns (tot + n_size n) })"

definition FRI_SearchRange :: "frx \<Rightarrow> bkey \<Rightarrow> bkey \<Rightarrow> rqr \<Rightarrow> (int \<times> rqr) option" where
  "FRI_SearchRange x lower upper result =
     do {
       key_l \<leftarrow> ReverseEndian lower;
       key_u \<leftarrow> ReverseEndian upper;
       let lists = map snd (bt_scan (fx_tree x) key_l key_u);
       let b = range_bounds lists (int_max, int_max, 0, 0);
       (case b of (min_doc, min_aligned, max_doc, max_aligned) \<Rightarrow>
          if max_doc - min_doc + 1 \<le> 0 then Some (0, result)
          else do {
            r \<leftarrow> RR_Resize (RR_SetRange result min_aligned max_aligned);
            (tot, bm) \<leftarrow> range_or (rr_block r) b lists 0;
            Some (max_doc - min_doc + 1, r\<lparr>rr_bits := Some bm, rr_ndoc := tot\<rparr>) }) }"

fun tag_bounds :: "node option list \<Rightarrow> int \<times> int \<Rightarrow> int \<times> int" where
  "tag_bounds [] b = b"
| "tag_bounds (None # ns) b = tag_bounds ns b"
| "tag_bounds (Some n # ns) (min_doc, max_doc) =
     (if n_size n \<le> 0 then tag_bounds ns (min_doc, max_doc)
      else tag_bounds ns (min min_doc (n_min_al n), max max_doc (n_max_al n)))"

fun tag_or :: "byte list \<Rightarrow> int \<Rightarrow> node option list \<Rightarrow> int \<Rightarrow> (int \<times> byte list) option" where
  "tag_or bm lo [] tot = Some (tot, bm)"
| "tag_or bm lo (None # ns) tot = tag_or bm lo ns tot"
| "tag_or bm lo (Some n # ns) tot =
     do { bm' \<leftarrow> or_node bm lo n; tag_or bm' lo ns (tot + n_size n) }"

definition FRI_SearchTags :: "frx \<Rightarrow> byte list \<Rightarrow> rqr \<Rightarrow> (int \<times> rqr) option" where
  "FRI_SearchTags x tags result =
     (let nodes = map (bt_findkey (fx_tree x)) (utils_split tags (fx_delim x)) in
      case tag_bounds nodes (int_max, 0) of (min_doc, max_doc) \<Rightarrow>
        if max_doc - min_doc + 1 \<le> 0 then Some (0, result)
        else do {
          r \<leftarrow> RR_Resize (RR_SetRange result min_doc max_doc);
          (tot, bm) \<leftarrow> tag_or (rr_block r) min_doc nodes 0;
          Some (tot, r\<lparr>rr_bits := Some bm, rr_ndoc := tot\<rparr>) })"

definition FRI_Search :: "frx \<Rightarrow> bkey \<Rightarrow> bkey \<Rightarrow> rqr \<Rightarrow> (int \<times> rqr) option" where
  "FRI_Search x lower upper result =
     (if fx_num x then FRI_SearchRange x lower upper result else FRI_SearchTags x lower result)"

text \<open>\<open>sizeof(Node)\<close> with 8-byte pointers: seven \<open>int\<close>s, padding, two pointers, an \<open>int\<close>, padding.\<close>

abbreviation sizeof_Node :: int where "sizeof_Node \<equiv> 56"

fun scan_memory :: "node list \<Rightarrow> int \<Rightarrow> int \<Rightarrow> int \<Rightarrow> int \<times> int \<times> int" where
  "scan_memory [] tot dense sparse = (tot, dense, sparse)"
| "scan_memory (n # ns) tot dense sparse =
     (let (d, s) = Node_MemorySize n dense sparse in scan_memory ns (tot + sizeof_Node) d s)"

definition FRI_ScanMemory :: "frx \<Rightarrow> int \<Rightarrow> int \<Rightarrow> int \<times> int \<times> int" where
  "FRI_ScanMemory x dense sparse = scan_memory (map snd (fx_tree x)) 0 dense sparse"

subsection \<open>Postings: which documents a key leads to\<close>

text \<open>The contract of a node, and of a key store of nodes.\<close>

locale posting =
  fixes add :: "'n \<Rightarrow> int \<Rightarrow> (int \<times> 'n) option"
    and del :: "'n \<Rightarrow> int \<Rightarrow> (int \<times> 'n) option"
    and docs :: "'n \<Rightarrow> int set"
    and good :: "'n \<Rightarrow> bool"
    and fresh :: "'n"
    and docok :: "int \<Rightarrow> bool"
  assumes add_fresh: "docok d \<Longrightarrow> \<exists>r n. add fresh d = Some (r, n) \<and> good n \<and> docs n = {d}"
    and add_good: "good n \<Longrightarrow> docok d \<Longrightarrow> d \<notin> docs n \<Longrightarrow>
      \<exists>r n'. add n d = Some (r, n') \<and> good n' \<and> docs n' = insert d (docs n)"
    and del_good: "good n \<Longrightarrow> d \<in> docs n \<Longrightarrow>
      \<exists>r n'. del n d = Some (r, n') \<and> good n' \<and> docs n' = docs n - {d}"

locale posting_index = key_store find put entries kinv empty + posting add del docs good fresh docok
  for find :: "'t \<Rightarrow> 'k::linorder \<Rightarrow> 'n option" and put entries kinv empty
    and add :: "'n \<Rightarrow> int \<Rightarrow> (int \<times> 'n) option" and del docs good fresh docok
begin

definition docs_at :: "'t \<Rightarrow> 'k \<Rightarrow> int set" where
  "docs_at t k = (case find t k of None \<Rightarrow> {} | Some n \<Rightarrow> docs n)"

definition index_ok :: "'t \<Rightarrow> bool" where
  "index_ok t \<longleftrightarrow> kinv t \<and> all_values good t"

definition post :: "'t \<Rightarrow> 'k \<Rightarrow> int \<Rightarrow> 't option" where
  "post t k d = (case find t k of
      None \<Rightarrow> do { (r, n) \<leftarrow> add fresh d; Some (put t k n) }
    | Some p \<Rightarrow> do { (r, n) \<leftarrow> add p d; Some (put t k n) })"

definition unpost :: "'t \<Rightarrow> 'k \<Rightarrow> int \<Rightarrow> 't option" where
  "unpost t k d = (case find t k of
      None \<Rightarrow> Some t
    | Some p \<Rightarrow> do { (r, n) \<leftarrow> del p d; Some (put t k n) })"

lemma index_ok_empty: "index_ok empty"
  by (simp add: index_ok_def kinv_empty all_values_empty)

lemma docs_at_empty: "docs_at empty k = {}"
  by (simp add: docs_at_def find_empty)

lemma put_docs:
  assumes "index_ok t" "good n"
  shows "index_ok (put t k n) \<and> docs_at (put t k n) = (docs_at t)(k := docs n)"
  using assms by (auto simp: index_ok_def docs_at_def kinv_put find_put all_values_put fun_eq_iff)

lemma post_spec:
  assumes t: "index_ok t" and d: "docok d" "d \<notin> docs_at t k"
  shows "\<exists>t'. post t k d = Some t' \<and> index_ok t' \<and> docs_at t' = (docs_at t)(k := insert d (docs_at t k))"
proof (cases "find t k")
  case None
  then show ?thesis
    using add_fresh [OF d(1)] put_docs [OF t] by (force simp: post_def docs_at_def)
next
  case (Some p)
  then have "good p" "d \<notin> docs p"
    using t d by (auto simp: index_ok_def all_values_def docs_at_def)
  from add_good [OF this(1) d(1) this(2)] Some show ?thesis
    using put_docs [OF t] by (force simp: post_def docs_at_def)
qed

lemma unpost_spec:
  assumes t: "index_ok t" and d: "d \<in> docs_at t k"
  shows "\<exists>t'. unpost t k d = Some t' \<and> index_ok t' \<and> docs_at t' = (docs_at t)(k := docs_at t k - {d})"
proof (cases "find t k")
  case None
  then show ?thesis using d by (simp add: docs_at_def)
next
  case (Some p)
  then have "good p" "d \<in> docs p"
    using t d by (auto simp: index_ok_def all_values_def docs_at_def)
  from del_good [OF this] Some show ?thesis
    using put_docs [OF t] by (force simp: unpost_def docs_at_def)
qed

fun post_all :: "('t \<Rightarrow> 'k \<Rightarrow> int \<Rightarrow> 't option) \<Rightarrow> 't \<Rightarrow> 'k list \<Rightarrow> int \<Rightarrow> 't option" where
  "post_all f t [] d = Some t"
| "post_all f t (k # ks) d = do { t' \<leftarrow> f t k d; post_all f t' ks d }"

text \<open>Adding a document under distinct keys where it is not yet, and removing it again.\<close>

lemma post_all_spec:
  assumes "index_ok t" "docok d" "distinct ks" "\<forall>k \<in> set ks. d \<notin> docs_at t k"
  shows "\<exists>t'. post_all post t ks d = Some t' \<and> index_ok t' \<and>
    (\<forall>k. docs_at t' k = (if k \<in> set ks then insert d (docs_at t k) else docs_at t k))"
  using assms
proof (induction ks arbitrary: t)
  case (Cons k ks)
  then obtain t1 where t1: "post t k d = Some t1" "index_ok t1"
    "docs_at t1 = (docs_at t)(k := insert d (docs_at t k))"
    using post_spec [of t d k] by auto
  have "\<forall>j \<in> set ks. d \<notin> docs_at t1 j" using Cons.prems t1(3) by auto
  from Cons.IH [OF t1(2) Cons.prems(2) _ this] Cons.prems(3) t1 show ?case by auto
qed simp

lemma unpost_all_spec:
  assumes "index_ok t" "distinct ks" "\<forall>k \<in> set ks. d \<in> docs_at t k"
  shows "\<exists>t'. post_all unpost t ks d = Some t' \<and> index_ok t' \<and>
    (\<forall>k. docs_at t' k = (if k \<in> set ks then docs_at t k - {d} else docs_at t k))"
  using assms
proof (induction ks arbitrary: t)
  case (Cons k ks)
  then obtain t1 where t1: "unpost t k d = Some t1" "index_ok t1"
    "docs_at t1 = (docs_at t)(k := docs_at t k - {d})"
    using unpost_spec [of t d k] by auto
  have "\<forall>j \<in> set ks. d \<in> docs_at t1 j" using Cons.prems t1(3) by auto
  from Cons.IH [OF t1(2) _ this] Cons.prems(2) t1 show ?case by auto
qed simp

end

definition live_node :: "node \<Rightarrow> bool" where
  "live_node n \<longleftrightarrow> node_inv n \<and> word_bounds n \<and> docid_ok (n_max n)"

lemma live_nodeI: "node_inv n \<Longrightarrow> v \<in> node_set n \<Longrightarrow> word_bounds n"
  by (auto simp: node_inv_def dense_inv_def sparse_inv_def split: node_type.splits)

lemma Node_Add_max: "Node_Add n v = Some (r, n') \<Longrightarrow> n_max n' \<in> {n_max n, v}"
  by (auto simp: Node_Add_def AddDense_def AddSparse_def add_dense_first_def add_dense_below_def
      add_dense_above_def ConvertToSparse_def ConvertToDense_def Let_def max_def
      split: node_type.splits if_splits option.splits bind_splits)

lemma Node_Delete_bounds: "Node_Delete n v = Some (r, n') \<Longrightarrow> word_bounds n' = word_bounds n \<and> n_max n' = n_max n"
  by (auto simp: Node_Delete_def DeleteDense_def DeleteSparse_def word_bounds_def Let_def
      split: node_type.splits if_splits option.splits bind_splits)

interpretation np: posting Node_Add Node_Delete node_set live_node new_node docid_ok
proof
  fix d
  assume d: "docid_ok d"
  show "\<exists>r n. Node_Add new_node d = Some (r, n) \<and> live_node n \<and> node_set n = {d}"
  proof -
    obtain n where n: "Node_Add new_node d = Some (0, n)" "node_inv n" "node_set n = {d}"
      using Node_Add_spec [OF new_node_inv d] by (auto simp: new_node_set)
    then have w: "word_bounds n" using live_nodeI by blast
    moreover have "n_max n = d"
      using Node_Add_max [OF n(1)] w by (auto simp: word_bounds_def new_node_def)
    ultimately show ?thesis using n d by (auto simp: live_node_def)
  qed
next
  fix n d
  assume "live_node n" "docid_ok d" "d \<notin> node_set n"
  then show "\<exists>r n'. Node_Add n d = Some (r, n') \<and> live_node n' \<and> node_set n' = insert d (node_set n)"
    using Node_Add_spec [of n d] live_nodeI Node_Add_max [of n d] by (fastforce simp: live_node_def)
next
  fix n d
  assume "live_node n" "d \<in> node_set n"
  then show "\<exists>r n'. Node_Delete n d = Some (r, n') \<and> live_node n' \<and> node_set n' = node_set n - {d}"
    using Node_Delete_spec [of n d] Node_Delete_bounds [of n d] by (fastforce simp: live_node_def)
qed

interpretation fi: posting_index bt_findkey bt_insertkey bt_scan bt_inv "[]"
    Node_Add Node_Delete node_set live_node new_node docid_ok
  by unfold_locales

lemma each_key_posts: "each_key f = fi.post_all f"
proof (intro ext)
  fix t ks v
  show "each_key f t ks v = fi.post_all f t ks v" by (induction ks arbitrary: t) auto
qed

lemma bt_ops_posts: "InsertToBt = fi.post" "DeleteFromBt = fi.unpost"
  by (intro ext; simp add: InsertToBt_def fi.post_def DeleteFromBt_def fi.unpost_def)+

subsection \<open>Adding and deleting a value\<close>

text \<open>The keys a value of the field is posted under, when the tree can hold them.\<close>

definition frx_keys :: "frx \<Rightarrow> byte list \<Rightarrow> bkey list option" where
  "frx_keys x v =
     (case (if fx_num x then map_option (\<lambda>k. [k]) (ReverseEndian v) else Some (strtok_all (fx_delim x) v)) of
        None \<Rightarrow> None
      | Some ks \<Rightarrow> if \<forall>k \<in> set ks. bt_key_ok k then Some ks else None)"

lemma ReverseEndian_length: "ReverseEndian v = Some k \<Longrightarrow> length k = length v"
  by (cases "rev v") (auto simp: ReverseEndian_def dest: arg_cong [of _ _ length])

lemma strtok_all_Nil [simp]: "strtok_all sep [] = []"
  unfolding strtok_all_def by (subst takeWhile.simps, subst tokens.simps) simp

lemma frx_keys_num: "\<lbrakk>fx_num x; length v \<le> 255\<rbrakk> \<Longrightarrow> frx_keys x v = map_option (\<lambda>k. [k]) (ReverseEndian v)"
  by (cases "ReverseEndian v") (auto simp: frx_keys_def bt_key_ok_def ReverseEndian_length)

definition frx_ok :: "frx \<Rightarrow> bool" where
  "frx_ok x \<longleftrightarrow> fi.index_ok (fx_tree x)"

abbreviation frx_docs :: "frx \<Rightarrow> bkey \<Rightarrow> int set" where
  "frx_docs x \<equiv> fi.docs_at (fx_tree x)"

lemma FRI_Add_eq: "FRI_Add x v d = (case frx_keys x v of None \<Rightarrow> None
   | Some ks \<Rightarrow> map_option (\<lambda>t. (0, x\<lparr>fx_tree := t\<rparr>)) (fi.post_all fi.post (fx_tree x) ks d))"
  by (auto simp: FRI_Add_def frx_keys_def each_key_posts bt_ops_posts map_option_case
      split: option.splits bind_splits)

lemma FRI_Delete_eq: "FRI_Delete x v d = (case frx_keys x v of None \<Rightarrow> None
   | Some ks \<Rightarrow> map_option (\<lambda>t. (0, x\<lparr>fx_tree := t\<rparr>)) (fi.post_all fi.unpost (fx_tree x) ks d))"
  by (auto simp: FRI_Delete_def frx_keys_def each_key_posts bt_ops_posts map_option_case
      split: option.splits bind_splits)

lemma FRI_Add_spec:
  assumes x: "frx_ok x" and ks: "frx_keys x v = Some ks" "distinct ks"
    and d: "docid_ok d" "\<forall>k \<in> set ks. d \<notin> frx_docs x k"
  shows "\<exists>t. FRI_Add x v d = Some (0, x\<lparr>fx_tree := t\<rparr>) \<and> fi.index_ok t \<and>
    (\<forall>k. fi.docs_at t k = (if k \<in> set ks then insert d (frx_docs x k) else frx_docs x k))"
  using fi.post_all_spec [OF x [unfolded frx_ok_def] d(1) ks(2) d(2)]
  by (auto simp: FRI_Add_eq ks(1))

lemma FRI_Delete_spec:
  assumes x: "frx_ok x" and ks: "frx_keys x v = Some ks" "distinct ks"
    and d: "\<forall>k \<in> set ks. d \<in> frx_docs x k"
  shows "\<exists>t. FRI_Delete x v d = Some (0, x\<lparr>fx_tree := t\<rparr>) \<and> fi.index_ok t \<and>
    (\<forall>k. fi.docs_at t k = (if k \<in> set ks then frx_docs x k - {d} else frx_docs x k))"
  using fi.unpost_all_spec [OF x [unfolded frx_ok_def] ks(2) d]
  by (auto simp: FRI_Delete_eq ks(1))

lemma FRI_Add_other:
  "\<lbrakk>FRI_Add x v d = Some (r, x'); fx_num x; ReverseEndian v = Some k'; k' \<noteq> k\<rbrakk> \<Longrightarrow> bt_findkey (fx_tree x') k = bt_findkey (fx_tree x) k"
  by (auto simp: FRI_Add_def InsertToBt_def bind_eq_Some_conv bt_find_insert split: option.splits if_splits)

subsection \<open>Assembling a result\<close>

lemma set_cells_spec:
  "\<forall>v \<in> set vs. v - lo \<in> bm_dom bm \<Longrightarrow>
    \<exists>bm'. set_cells bm lo (map Some vs) = Some bm' \<and> length bm' = length bm \<and>
      bm_set bm' = bm_set bm \<union> (\<lambda>v. v - lo) ` set vs"
proof (induction vs arbitrary: bm)
  case (Cons v vs)
  then obtain b where b: "bitmap_set bm (v - lo) = Some b" by (auto simp: bitmap_set_eq)
  from bitmap_set_Some [OF this] have l: "length b = length bm" "bm_set b = insert (v - lo) (bm_set bm)"
    by auto
  then have "\<forall>v \<in> set vs. v - lo \<in> bm_dom b" using Cons.prems by (simp add: bm_dom_def)
  from Cons.IH [OF this] b l show ?case by auto
qed simp

text \<open>The block of bits for the documents \<open>lo..hi\<close>.\<close>

definition span_block :: "int \<Rightarrow> int \<Rightarrow> byte list \<Rightarrow> bool" where
  "span_block lo hi bm \<longleftrightarrow> 64 dvd lo \<and> lo \<le> hi \<and> int (length bm) = (hi - lo + 1) div 8 + 1"

lemma span_dom: "span_block lo hi bm \<Longrightarrow> lo \<le> v \<Longrightarrow> v \<le> hi \<Longrightarrow> v - lo \<in> bm_dom bm"
  unfolding span_block_def bm_dom_def by simp

lemma live_range:
  assumes n: "live_node n" and v: "v \<in> node_set n"
  shows "n_min n \<le> v \<and> v \<le> n_max n \<and> n_min_al n \<le> v \<and> v \<le> n_max_al n"
proof -
  have "\<forall>v \<in> node_set n. n_min n \<le> v \<and> v \<le> n_max n"
    using n unfolding live_node_def node_inv_def dense_inv_def sparse_inv_def
    by (cases "n_type n") simp_all
  with v have "n_min n \<le> v \<and> v \<le> n_max n" by blast
  moreover have "n_min_al n \<le> n_min n" "n_max n \<le> n_max_al n"
    using n by (simp_all add: live_node_def word_bounds_def)
  ultimately show ?thesis by auto
qed

lemma or_node_spec:
  assumes n: "live_node n" and b: "span_block lo hi bm"
    and r: "lo \<le> n_min_al n" "n_max_al n \<le> hi"
  shows "\<exists>bm'. or_node bm lo n = Some bm' \<and> length bm' = length bm \<and>
    bm_set bm' = bm_set bm \<union> (\<lambda>v. v - lo) ` node_set n"
proof (cases "n_type n")
  case Sparse
  then obtain vs where vs: "data_sparse n = map Some vs" "n_size n = int (length vs)"
    using n by (auto simp: live_node_def node_inv_def sparse_inv_def)
  have "\<forall>v \<in> set vs. v - lo \<in> bm_dom bm"
  proof
    fix v
    assume "v \<in> set vs"
    then have "v \<in> node_set n" using vs Sparse by (auto simp: node_set_def)
    from live_range [OF n this] have "n_min_al n \<le> v" "v \<le> n_max_al n" by auto
    then show "v - lo \<in> bm_dom bm" using r by (intro span_dom [OF b]) auto
  qed
  from set_cells_spec [OF this] show ?thesis
    using vs Sparse by (simp add: or_node_def node_set_def image_def)
next
  case Dense
  have inv: "dense_inv n" "word_bounds n" using n Dense by (auto simp: live_node_def node_inv_def)
  obtain a m l where w: "n_min_al n = 64 * a" "n_max_al n + 1 = 64 * m" "lo = 64 * l"
    using inv(2) b unfolding word_bounds_def span_block_def dvd_def by metis
  have "n_min_al n \<le> n_max_al n" using inv(2) by (auto simp: word_bounds_def)
  then have o: "l \<le> a" "a < m" using w r by linarith+
  have m: "n_max_al n = 64 * m - 1" using w(2) by simp
  have d1: "n_max_al n - n_min_al n + 1 = 64 * (m - a)" "n_min_al n - lo = 64 * (a - l)"
    using w m by simp_all
  have ln: "int (length (data_dense n)) = 8 * (m - a) + 1"
    using inv(1) unfolding dense_inv_def d1 div_mult64 by blast
  have "64 * (m - l) \<le> hi - lo + 1" using r(2) m w(3) by simp
  then have "64 * (m - l) div 8 \<le> (hi - lo + 1) div 8" by (rule zdiv_mono1) simp
  then have "8 * (m - l) \<le> (hi - lo + 1) div 8" by (simp only: div_mult64)
  then have lb: "8 * (a - l + int (nat (m - a))) \<le> int (length bm)"
    using b o by (simp add: span_block_def)
  have e: "or_node bm lo n = word_loop or_op bm (a - l) (data_dense n) 0 (nat (m - a))"
    using o Dense by (simp add: or_node_def d1)
  have rng: "0 \<le> i \<and> i < 64 * (m - a)" if "i \<in> bm_set (data_dense n)" for i
  proof -
    have "i + n_min_al n \<in> node_set n" using that Dense by (auto simp: node_set_def)
    from live_range [OF n this] show ?thesis using w(1) m by auto
  qed
  have "{i. i \<in> bm_dom bm \<and> 64 * (a - l) \<le> i \<and> i < 64 * (a - l + int (nat (m - a))) \<and>
      i - 64 * (a - l) + 64 * 0 \<in> bm_set (data_dense n)} = (\<lambda>v. v - lo) ` node_set n" (is "?A = ?B")
  proof
    have ns: "node_set n = (\<lambda>i. i + n_min_al n) ` bm_set (data_dense n)"
      using Dense by (simp add: node_set_def)
    show "?A \<subseteq> ?B"
    proof
      fix i
      assume "i \<in> ?A"
      then have "i - 64 * (a - l) + n_min_al n \<in> node_set n" unfolding ns by simp
      moreover have "i = (i - 64 * (a - l) + n_min_al n) - lo" using d1(2) by simp
      ultimately show "i \<in> ?B" by (metis imageI)
    qed
    have "i + n_min_al n - lo \<in> ?A" if i: "i \<in> bm_set (data_dense n)" for i
    proof -
      have "i + n_min_al n - lo \<in> bm_dom bm"
        using rng [OF i] r w m by (intro span_dom [OF b]) auto
      moreover have e: "i + n_min_al n - lo = i + 64 * (a - l)" using d1(2) by simp
      ultimately show ?thesis unfolding e mem_Collect_eq using rng [OF i] i o by simp
    qed
    then show "?B \<subseteq> ?A" unfolding ns by blast
  qed
  then show ?thesis
    using word_or_set [of "a - l" "nat (m - a)" bm 0 "data_dense n"] lb ln o e by auto
qed

text \<open>A result whose bitmap covers whole words, as every search returns it.\<close>

definition rr_words :: "rqr \<Rightarrow> bool" where
  "rr_words r \<longleftrightarrow> 0 \<le> rr_min r \<and> rr_min_al r = rr_min r \<and> rr_max_al r = rr_max r \<and>
     rr_max r \<le> int_max \<and> 64 dvd rr_max r + 1 \<and> span_block (rr_min r) (rr_max r) (rr_block r)"

lemma prepare_words:
  assumes "0 \<le> x" "x \<le> y" "y \<le> int_max" "64 dvd x" "64 dvd y + 1"
  shows "\<exists>r. RR_Resize (RR_SetRange (RR_new g1 g2) x y) = Some r \<and> rr_words r \<and>
    rr_min r = x \<and> rr_max r = y \<and> bm_set (rr_block r) = {} \<and> \<not> rr_not_in r"
proof -
  obtain a m where am: "x = 64 * a" "y + 1 = 64 * m" using assms(4,5) by (auto elim!: dvdE)
  then have y: "y = 64 * m - 1" by simp
  have yd: "y div 8 = 8 * m - 1"
  proof -
    have "y = 7 + (8 * m - 1) * 8" using y by simp
    then have "y div 8 = (7 + (8 * m - 1) * 8) div 8" by (rule arg_cong)
    also have "\<dots> = 8 * m - 1" by (subst div_mult_self1) simp_all
    finally show ?thesis .
  qed
  have xd: "x div 8 = 8 * a" using am(1) by simp
  have ln: "(y - x + 1) div 8 = 8 * m - 8 * a"
  proof -
    have "y - x + 1 = 64 * (m - a)" using am by simp
    then show ?thesis by (simp only: div_mult64 right_diff_distrib)
  qed
  from RR_prepare [OF assms(1-3), of g1 g2, unfolded xd yd] obtain r b where
    "RR_Resize (RR_SetRange (RR_new g1 g2) x y) = Some r" "rr_bits r = Some b" "bm_set b = {}"
    "rr_min r = x" "rr_max r = y" "rr_min_al r = 8 * a * 8" "rr_max_al r = (8 * m - 1 + 1) * 8 - 1"
    "int (length b) = 8 * m - 1 - 8 * a + 2" "\<not> rr_not_in r"
    by blast
  then show ?thesis
    using assms am y by (intro exI [of _ r])
      (simp add: rr_words_def span_block_def rr_block_def ln)
qed

lemma filled_words:
  assumes r: "rr_words r" and b: "length bm = length (rr_block r)"
    and d: "bm_set bm = (\<lambda>v. v - rr_min r) ` D" "\<forall>v \<in> D. rr_min r \<le> v \<and> v \<le> rr_max r"
  shows "rr_inv (r\<lparr>rr_bits := Some bm, rr_ndoc := n\<rparr>) \<and> rr_words (r\<lparr>rr_bits := Some bm, rr_ndoc := n\<rparr>)
    \<and> rr_docs (r\<lparr>rr_bits := Some bm, rr_ndoc := n\<rparr>) = D"
proof -
  let ?r = "r\<lparr>rr_bits := Some bm, rr_ndoc := n\<rparr>"
  have w: "rr_words ?r" using r b by (simp add: rr_words_def span_block_def rr_block_def)
  have "{0..rr_max r - rr_min r} \<subseteq> bm_dom bm"
  proof
    fix i
    assume "i \<in> {0..rr_max r - rr_min r}"
    then show "i \<in> bm_dom bm"
      using w span_dom [of "rr_min r" "rr_max r" bm "i + rr_min r"]
      by (simp add: rr_words_def rr_block_def)
  qed
  then have i: "rr_inv ?r"
    using r d by (auto simp: rr_inv_def rr_words_def rr_block_def)
  have "rr_docs ?r = (\<lambda>i. i + rr_min r) ` bm_set bm"
    using rr_docs_eq [OF i] r by (simp add: rr_words_def rr_block_def)
  then show ?thesis using w i d by (simp add: image_image)
qed

text \<open>The number of documents of a node is its size.\<close>

lemma live_size: "live_node n \<Longrightarrow> n_size n = int (card (node_set n))"
proof -
  assume n: "live_node n"
  show ?thesis
  proof (cases "n_type n")
    case Dense
    then show ?thesis using n by (simp add: live_node_def node_inv_def dense_inv_def)
  next
    case Sparse
    then obtain vs where "data_sparse n = map Some vs" "distinct vs" "n_size n = int (length (data_sparse n))"
      using n unfolding live_node_def node_inv_def sparse_inv_def by auto
    then show ?thesis using Sparse by (simp add: node_set_def image_def distinct_card)
  qed
qed

lemma live_bounds: "live_node n \<Longrightarrow> 0 \<le> n_min_al n \<and> n_min_al n \<le> n_max_al n \<and>
    n_max_al n \<le> int_max \<and> n_min n \<le> n_max n \<and> 64 dvd n_min_al n \<and> 64 dvd n_max_al n + 1"
  by (auto simp: live_node_def word_bounds_def)

subsection \<open>The range search\<close>

lemma range_bounds_spec:
  "range_bounds ns (a, b, c, d) = (a', b', c', d') \<Longrightarrow>
    (\<forall>n \<in> set ns. a' \<le> n_min n \<and> b' \<le> n_min_al n \<and> n_max n \<le> c' \<and> n_max_al n \<le> d') \<and>
    a' \<le> a \<and> b' \<le> b \<and> c \<le> c' \<and> d \<le> d' \<and>
    b' \<in> insert b (n_min_al ` set ns) \<and> d' \<in> insert d (n_max_al ` set ns) \<and>
    a' \<in> insert a (n_min ` set ns) \<and> c' \<in> insert c (n_max ` set ns)"
proof (induction ns arbitrary: a b c d)
  case (Cons n ns)
  from Cons.IH [OF Cons.prems [unfolded range_bounds.simps]] show ?case
    by (auto simp: min_def max_def split: if_splits)
qed simp

lemma aligned_hull:
  assumes n: "live_node n" "al \<le> n_min_al n" "n_max_al n \<le> ah"
    and p: "al = int_max \<or> live_node p \<and> al = n_min_al p"
    and q: "ah = 0 \<or> live_node q \<and> ah = n_max_al q"
  shows "0 \<le> al \<and> al \<le> ah \<and> ah \<le> int_max \<and> 64 dvd al \<and> 64 dvd ah + 1"
proof -
  note b = live_bounds [OF n(1)]
  have "al \<noteq> int_max"
  proof
    assume "al = int_max"
    then have "n_min_al n = int_max" using b n(2) by linarith
    then show False using b by simp
  qed
  moreover have "ah \<noteq> 0"
  proof
    assume "ah = 0"
    then have "n_max_al n = 0" using b n(3) by linarith
    then show False using b by simp
  qed
  ultimately show ?thesis
    using b n p q live_bounds [of p] live_bounds [of q] by auto
qed

lemma live_range_bounds:
  assumes b: "range_bounds ns (int_max, int_max, 0, 0) = (mn, al, mx, ah)" and ns: "ns \<noteq> []"
    and live: "\<forall>n \<in> set ns. live_node n"
  shows "0 < mx - mn + 1 \<and> mx - mn + 1 < int_max" "0 \<le> al" "al \<le> ah" "ah \<le> int_max" "64 dvd al" "64 dvd ah + 1"
proof -
  note bs = range_bounds_spec [OF b]
  obtain n where n: "n \<in> set ns" using ns by (metis last_in_set)
  then have nb: "live_node n" "mn \<le> n_min n" "al \<le> n_min_al n" "n_max n \<le> mx" "n_max_al n \<le> ah"
    using bs live by auto
  then have "0 < mx - mn + 1" using live_bounds [of n] by auto
  moreover have "0 \<le> mn"
  proof -
    have "0 \<le> n_min m" if "live_node m" for m using that by (auto simp: live_node_def word_bounds_def)
    then show ?thesis using bs live by auto
  qed
  moreover have "mx < 1073741760" using bs live by (auto simp: live_node_def docid_ok_def)
  ultimately show "0 < mx - mn + 1 \<and> mx - mn + 1 < int_max" by simp
  obtain p where "al = int_max \<or> live_node p \<and> al = n_min_al p" using bs live by blast
  moreover obtain q where "ah = 0 \<or> live_node q \<and> ah = n_max_al q" using bs live by blast
  ultimately have "0 \<le> al \<and> al \<le> ah \<and> ah \<le> int_max \<and> 64 dvd al \<and> 64 dvd ah + 1"
    using aligned_hull nb by blast
  then show "0 \<le> al" "al \<le> ah" "ah \<le> int_max" "64 dvd al" "64 dvd ah + 1" by auto
qed

lemma range_or_spec:
  assumes "\<forall>n \<in> set ns. live_node n \<and> mn \<le> n_min n \<and> lo \<le> n_min_al n \<and> n_max n \<le> mx \<and> n_max_al n \<le> hi"
    and "span_block lo hi bm"
  shows "\<exists>bm'. range_or bm (mn, lo, mx, hi) ns tot = Some (tot + sum_list (map n_size ns), bm') \<and>
    length bm' = length bm \<and> bm_set bm' = bm_set bm \<union> (\<Union>n \<in> set ns. (\<lambda>v. v - lo) ` node_set n)"
  using assms
proof (induction ns arbitrary: bm tot)
  case (Cons n ns)
  then obtain b where b: "or_node bm lo n = Some b" "length b = length bm"
    "bm_set b = bm_set bm \<union> (\<lambda>v. v - lo) ` node_set n"
    using or_node_spec [of n lo hi bm] by auto
  then have "span_block lo hi b" using Cons.prems(2) by (simp add: span_block_def)
  from Cons.IH [OF _ this, of "tot + n_size n"] Cons.prems(1) b show ?case
    by (auto split: node_type.splits)
qed simp

definition range_docs :: "frx \<Rightarrow> bkey \<Rightarrow> bkey \<Rightarrow> int set" where
  "range_docs x lo hi = (\<Union>k \<in> {lo..hi}. frx_docs x k)"

lemma scan_docs:
  assumes "frx_ok x"
  shows "(\<Union>n \<in> set (map snd (bt_scan (fx_tree x) lo hi)). node_set n) = range_docs x lo hi"
    and "\<forall>n \<in> set (map snd (bt_scan (fx_tree x) lo hi)). live_node n"
proof -
  have inv: "bt_inv (fx_tree x)" using assms by (simp add: frx_ok_def fi.index_ok_def)
  have s: "set (bt_scan (fx_tree x) lo hi) = {(k, v). bt_findkey (fx_tree x) k = Some v \<and> lo \<le> k \<and> k \<le> hi}"
    using bt.entries_find [OF inv] .
  show "(\<Union>n \<in> set (map snd (bt_scan (fx_tree x) lo hi)). node_set n) = range_docs x lo hi"
    by (force simp: s range_docs_def fi.docs_at_def split: option.splits)
  show "\<forall>n \<in> set (map snd (bt_scan (fx_tree x) lo hi)). live_node n"
    using assms by (auto simp: s frx_ok_def fi.index_ok_def bt.all_values_def)
qed

lemma sizes_sum:
  "\<forall>n \<in> set ns. live_node n \<Longrightarrow>
    0 \<le> sum_list (map n_size ns) \<and> (sum_list (map n_size ns) = 0 \<longrightarrow> (\<Union>n \<in> set ns. node_set n) = {})"
proof (induction ns)
  case (Cons n ns)
  then have "n_size n = int (card (node_set n))" by (simp add: live_size)
  then show ?case using Cons by (auto simp: add_nonneg_eq_0_iff)
qed simp

text \<open>What a search gives: 0 and nothing, or a positive number and the documents.\<close>

definition search_result :: "int set \<Rightarrow> (int \<times> rqr) option \<Rightarrow> bool" where
  "search_result D res \<longleftrightarrow> (\<exists>ret r. res = Some (ret, r) \<and> 0 \<le> ret \<and> ret < int_max \<and> (ret = 0 \<longrightarrow> D = {}) \<and>
     (0 < ret \<longrightarrow> rr_inv r \<and> rr_words r \<and> rr_docs r = D \<and> \<not> rr_not_in r \<and>
        0 \<le> rr_ndoc r \<and> (rr_ndoc r = 0 \<longrightarrow> D = {})))"

lemma FRI_SearchRange_spec:
  assumes x: "frx_ok x" and k: "ReverseEndian lower = Some lo" "ReverseEndian upper = Some hi"
  shows "search_result (range_docs x lo hi) (FRI_SearchRange x lower upper (RR_new g1 g2))"
proof -
  let ?ns = "map snd (bt_scan (fx_tree x) lo hi)"
  note live = scan_docs(2) [OF x, of lo hi]
  obtain mn al mx ah where b: "range_bounds ?ns (int_max, int_max, 0, 0) = (mn, al, mx, ah)"
    by (metis prod_cases4)
  note bs = range_bounds_spec [OF b]
  show ?thesis
  proof (cases "?ns = []")
    case True
    then have "range_docs x lo hi = {}" using scan_docs(1) [OF x, of lo hi] by simp
    then show ?thesis
      using True by (simp add: search_result_def FRI_SearchRange_def k)
  next
    case False
    note w = live_range_bounds [OF b False live]
    from prepare_words [OF w(2-), of g1 g2] obtain r where
      r: "RR_Resize (RR_SetRange (RR_new g1 g2) al ah) = Some r" "rr_words r"
        "rr_min r = al" "rr_max r = ah" "bm_set (rr_block r) = {}" "\<not> rr_not_in r" by blast
    then have sp: "span_block al ah (rr_block r)" by (simp add: rr_words_def)
    obtain bm where bm: "range_or (rr_block r) (mn, al, mx, ah) ?ns 0 = Some (sum_list (map n_size ?ns), bm)"
      "length bm = length (rr_block r)" "bm_set bm = (\<Union>n \<in> set ?ns. (\<lambda>v. v - al) ` node_set n)"
      using range_or_spec [OF _ sp, of ?ns mn mx 0] bs live r(5) by force
    have D: "bm_set bm = (\<lambda>v. v - rr_min r) ` range_docs x lo hi"
      unfolding bm(3) r(3) scan_docs(1) [OF x, symmetric] by blast
    have "\<forall>v \<in> range_docs x lo hi. rr_min r \<le> v \<and> v \<le> rr_max r"
    proof
      fix v
      assume "v \<in> range_docs x lo hi"
      then obtain n where n: "n \<in> set ?ns" "v \<in> node_set n"
        unfolding scan_docs(1) [OF x, symmetric] by blast
      then have "live_node n" "al \<le> n_min_al n" "n_max_al n \<le> ah" using live bs by blast+
      then show "rr_min r \<le> v \<and> v \<le> rr_max r" using live_range n(2) r(3,4) by fastforce
    qed
    note fw = filled_words [OF r(2) bm(2) D this, of "sum_list (map n_size ?ns)"]
    have "FRI_SearchRange x lower upper (RR_new g1 g2) = Some (mx - mn + 1,
        r\<lparr>rr_bits := Some bm, rr_ndoc := sum_list (map n_size ?ns)\<rparr>)"
      unfolding FRI_SearchRange_def Let_def k Option.bind.bind_lunit b using w(1) r(1) bm(1) by simp
    moreover have "0 \<le> sum_list (map n_size ?ns) \<and>
        (sum_list (map n_size ?ns) = 0 \<longrightarrow> range_docs x lo hi = {})"
      unfolding scan_docs(1) [OF x, symmetric] by (rule sizes_sum [OF live])
    ultimately show ?thesis unfolding search_result_def using fw w(1) r(6) by simp
  qed
qed

subsection \<open>The tag search\<close>

text \<open>
  A dense node whose documents have all been deleted is skipped when the bounds are taken but is
  or-ed in all the same, possibly outside the bitmap: no node that is found may be such a node.
\<close>

definition tag_node_ok :: "node \<Rightarrow> bool" where
  "tag_node_ok n \<longleftrightarrow> live_node n \<and> (0 < n_size n \<or> n_type n = Sparse)"

abbreviation somes :: "'a option list \<Rightarrow> 'a set" where
  "somes xs \<equiv> {n. Some n \<in> set xs}"

lemma or_node_empty:
  assumes "tag_node_ok n" "n_size n \<le> 0"
  shows "or_node bm lo n = Some bm" "node_set n = {}"
proof -
  have "live_node n" "n_type n = Sparse" using assms by (auto simp: tag_node_ok_def)
  then show "or_node bm lo n = Some bm" "node_set n = {}"
    using assms(2) live_size [of n] by (auto simp: or_node_def)
qed

lemma tag_bounds_spec:
  "tag_bounds ns (a, b) = (a', b') \<Longrightarrow>
    (\<forall>n \<in> somes ns. 0 < n_size n \<longrightarrow> a' \<le> n_min_al n \<and> n_max_al n \<le> b') \<and> a' \<le> a \<and> b \<le> b' \<and>
    (a' = a \<or> (\<exists>n \<in> somes ns. 0 < n_size n \<and> a' = n_min_al n)) \<and>
    (b' = b \<or> (\<exists>n \<in> somes ns. 0 < n_size n \<and> b' = n_max_al n))"
proof (induction ns "(a, b)" arbitrary: a b rule: tag_bounds.induct)
  case (3 n ns a b)
  then show ?case by (cases "n_size n \<le> 0") (auto simp: min_def max_def split: if_splits)
qed auto

fun tag_total :: "node option list \<Rightarrow> int" where
  "tag_total [] = 0"
| "tag_total (None # ns) = tag_total ns"
| "tag_total (Some n # ns) = n_size n + tag_total ns"

lemma tag_total_pos:
  "\<forall>n \<in> somes ns. live_node n \<Longrightarrow> 0 \<le> tag_total ns \<and> (\<forall>n \<in> somes ns. n_size n \<le> tag_total ns)"
  by (induction ns rule: tag_total.induct) (force simp: live_size)+

lemma tag_or_spec:
  assumes "\<forall>n \<in> somes ns. tag_node_ok n \<and> (0 < n_size n \<longrightarrow> lo \<le> n_min_al n \<and> n_max_al n \<le> hi)"
    and "span_block lo hi bm"
  shows "\<exists>bm'. tag_or bm lo ns tot = Some (tot + tag_total ns, bm') \<and>
    length bm' = length bm \<and> bm_set bm' = bm_set bm \<union> (\<Union>n \<in> somes ns. (\<lambda>v. v - lo) ` node_set n)"
  using assms
proof (induction bm lo ns tot rule: tag_or.induct)
  case (2 bm lo ns tot)
  then show ?case by simp
next
  case (3 bm lo n ns tot)
  have n: "tag_node_ok n" "0 < n_size n \<longrightarrow> lo \<le> n_min_al n \<and> n_max_al n \<le> hi"
    using "3.prems"(1) by auto
  have "\<exists>b. or_node bm lo n = Some b \<and> length b = length bm \<and>
      bm_set b = bm_set bm \<union> (\<lambda>v. v - lo) ` node_set n"
  proof (cases "0 < n_size n")
    case True
    then show ?thesis using or_node_spec [of n lo hi bm] n "3.prems"(2) by (simp add: tag_node_ok_def)
  next
    case False
    then show ?thesis using or_node_empty [of n] n by simp
  qed
  then obtain b where b: "or_node bm lo n = Some b" "length b = length bm"
    "bm_set b = bm_set bm \<union> (\<lambda>v. v - lo) ` node_set n" by blast
  then have "span_block lo hi b" using "3.prems"(2) by (simp add: span_block_def)
  from "3.IH" [OF b(1) _ this] "3.prems"(1) obtain bm' where
    "tag_or b lo ns (tot + n_size n) = Some (tot + n_size n + tag_total ns, bm')"
    "length bm' = length b" "bm_set bm' = bm_set b \<union> (\<Union>n \<in> somes ns. (\<lambda>v. v - lo) ` node_set n)"
    by auto
  then show ?case using b by auto
qed auto

lemma tag_total_card:
  assumes "frx_ok x"
  shows "tag_total (map (bt_findkey (fx_tree x)) ks) = (\<Sum>k \<leftarrow> ks. int (card (frx_docs x k)))"
proof (induction ks)
  case (Cons k ks)
  show ?case
  proof (cases "bt_findkey (fx_tree x) k")
    case (Some n)
    then have "live_node n" using assms by (auto simp: frx_ok_def fi.index_ok_def bt.all_values_def)
    then show ?thesis using Some Cons by (simp add: live_size fi.docs_at_def)
  qed (simp add: Cons fi.docs_at_def)
qed simp

definition tag_docs :: "frx \<Rightarrow> bkey \<Rightarrow> int set" where
  "tag_docs x tags = (\<Union>k \<in> set (utils_split tags (fx_delim x)). frx_docs x k)"

lemma FRI_SearchTags_spec:
  assumes x: "frx_ok x"
    and live: "\<forall>k \<in> set (utils_split tags (fx_delim x)). \<forall>n. bt_findkey (fx_tree x) k = Some n \<longrightarrow>
      0 < n_size n \<or> n_type n = Sparse"
    and small: "(\<Sum>k \<leftarrow> utils_split tags (fx_delim x). int (card (frx_docs x k))) < int_max"
  shows "search_result (tag_docs x tags) (FRI_SearchTags x tags (RR_new g1 g2))"
proof -
  define ns where "ns = map (bt_findkey (fx_tree x)) (utils_split tags (fx_delim x))"
  have ok: "\<forall>n \<in> somes ns. tag_node_ok n"
    using live x by (auto simp: ns_def tag_node_ok_def frx_ok_def fi.index_ok_def bt.all_values_def
        dest!: sym [of "Some _"])
  have sm: "somes ns = {n. \<exists>k \<in> set (utils_split tags (fx_delim x)). bt_findkey (fx_tree x) k = Some n}"
    by (auto simp: ns_def dest!: sym [of "Some _"] intro!: image_eqI [OF sym])
  have D: "tag_docs x tags = (\<Union>n \<in> somes ns. node_set n)"
    unfolding sm tag_docs_def fi.docs_at_def by (fastforce split: option.splits)
  obtain al ah where b: "tag_bounds ns (int_max, 0) = (al, ah)" by fastforce
  note bs = tag_bounds_spec [OF b]
  have lv: "\<forall>n \<in> somes ns. live_node n" using ok by (simp add: tag_node_ok_def)
  have e: "FRI_SearchTags x tags (RR_new g1 g2) = (if ah - al + 1 \<le> 0 then Some (0, RR_new g1 g2)
      else do {
        r \<leftarrow> RR_Resize (RR_SetRange (RR_new g1 g2) al ah);
        (tot, bm) \<leftarrow> tag_or (rr_block r) al ns 0;
        Some (tot, r\<lparr>rr_bits := Some bm, rr_ndoc := tot\<rparr>) })"
    unfolding FRI_SearchTags_def Let_def ns_def [symmetric] b by simp
  show ?thesis
  proof (cases "\<exists>n \<in> somes ns. 0 < n_size n")
    case False
    then have "al = int_max" "ah = 0" using bs by blast+
    moreover have "tag_docs x tags = {}" unfolding D using False ok or_node_empty(2) by force
    ultimately show ?thesis using e by (simp add: search_result_def)
  next
    case True
    then obtain n where n: "n \<in> somes ns" "0 < n_size n" by blast
    then have nb: "live_node n" "al \<le> n_min_al n" "n_max_al n \<le> ah" using bs lv by auto
    obtain p where p: "al = int_max \<or> live_node p \<and> al = n_min_al p" using bs lv by blast
    obtain q where q: "ah = 0 \<or> live_node q \<and> ah = n_max_al q" using bs lv by blast
    have w: "0 \<le> al" "al \<le> ah" "ah \<le> int_max" "64 dvd al" "64 dvd ah + 1"
      using aligned_hull [OF nb p q] by auto
    from prepare_words [OF w, of g1 g2] obtain r where
      r: "RR_Resize (RR_SetRange (RR_new g1 g2) al ah) = Some r" "rr_words r"
        "rr_min r = al" "rr_max r = ah" "bm_set (rr_block r) = {}" "\<not> rr_not_in r" by blast
    then have sp: "span_block al ah (rr_block r)" by (simp add: rr_words_def)
    have "\<forall>n \<in> somes ns. tag_node_ok n \<and> (0 < n_size n \<longrightarrow> al \<le> n_min_al n \<and> n_max_al n \<le> ah)"
      using bs ok by blast
    from tag_or_spec [OF this sp, of 0] r(5) obtain bm where
      bm: "tag_or (rr_block r) al ns 0 = Some (tag_total ns, bm)" "length bm = length (rr_block r)"
        "bm_set bm = (\<Union>n \<in> somes ns. (\<lambda>v. v - al) ` node_set n)" by auto
    have Dm: "bm_set bm = (\<lambda>v. v - rr_min r) ` tag_docs x tags"
      unfolding bm(3) r(3) D by blast
    have "\<forall>v \<in> tag_docs x tags. rr_min r \<le> v \<and> v \<le> rr_max r"
    proof
      fix v
      assume "v \<in> tag_docs x tags"
      then obtain n where n: "n \<in> somes ns" "v \<in> node_set n" unfolding D by blast
      then have "0 < n_size n" using live_size [of n] lv by (auto simp: card_gt_0_iff)
      then have "live_node n" "al \<le> n_min_al n" "n_max_al n \<le> ah" using n(1) lv bs by blast+
      then show "rr_min r \<le> v \<and> v \<le> rr_max r" using live_range n(2) r(3,4) by fastforce
    qed
    note fw = filled_words [OF r(2) bm(2) Dm this, of "tag_total ns"]
    have "n_size n \<le> tag_total ns" using tag_total_pos [OF lv] n(1) by blast
    then have "0 < tag_total ns" using n(2) by linarith
    moreover have "tag_total ns < int_max"
      using small tag_total_card [OF x] unfolding ns_def by simp
    ultimately have "0 < tag_total ns \<and> tag_total ns < int_max" ..
    then show ?thesis unfolding search_result_def e using w(2) r(1,6) bm(1) fw by simp
  qed
qed

subsection \<open>The order of numeric keys\<close>

text \<open>The bytes of an integer in memory, least significant first.\<close>

fun le_bytes :: "nat \<Rightarrow> int \<Rightarrow> byte list" where
  "le_bytes 0 v = []"
| "le_bytes (Suc n) v = word_of_int v # le_bytes n (v div 256)"

lemma le_bytes_length [simp]: "length (le_bytes n v) = n"
  by (induction n arbitrary: v) simp_all

lemma le_bytes_last: "le_bytes (Suc n) v = le_bytes n v @ [word_of_int (v div 256 ^ n)]"
  by (induction n arbitrary: v) (simp_all add: zdiv_zmult2_eq power_Suc2 mult.commute)

lemma word_of_int_mod256: "(word_of_int v :: byte) = word_of_int w \<longleftrightarrow> v mod 256 = w mod 256"
  by (simp add: word_of_int_eq_iff take_bit_eq_mod)

lemma le_bytes_mod: "le_bytes n (v mod 256 ^ n) = le_bytes n v"
proof (induction n arbitrary: v)
  case (Suc n)
  have "v mod 256 ^ Suc n div 256 = v div 256 mod 256 ^ n"
    by (simp add: mod_mult2_eq' zmod_zmult2_eq)
  moreover have "v mod 256 ^ Suc n mod 256 = v mod 256"
    by (simp add: mod_mult2_eq' zmod_zmult2_eq)
  ultimately show ?case using Suc by (simp add: word_of_int_mod256)
qed simp

lemma rev_le_bytes_less:
  "0 \<le> u \<Longrightarrow> u < 256 ^ n \<Longrightarrow> 0 \<le> w \<Longrightarrow> w < 256 ^ n \<Longrightarrow>
    rev (le_bytes n u) < rev (le_bytes n w) \<longleftrightarrow> u < w"
proof (induction n arbitrary: u w)
  case (Suc n)
  let ?a = "u div 256 ^ n" and ?b = "w div 256 ^ n"
  have lt: "x div 256 ^ n < 256" if "x < 256 * 256 ^ n" for x :: int
  proof (rule ccontr)
    assume "\<not> x div 256 ^ n < 256"
    then have "256 * 256 ^ n \<le> (x div 256 ^ n) * 256 ^ n" by (intro mult_right_mono) auto
    also have "\<dots> \<le> x" unfolding minus_mod_eq_div_mult [symmetric] by simp
    finally show False using that by simp
  qed
  have ab: "0 \<le> ?a" "?a < 256" "0 \<le> ?b" "?b < 256"
    using Suc.prems by (simp_all add: pos_imp_zdiv_nonneg_iff lt)
  have wl: "(word_of_int ?a :: byte) < word_of_int ?b \<longleftrightarrow> ?a < ?b"
    "(word_of_int ?a :: byte) = word_of_int ?b \<longleftrightarrow> ?a = ?b"
    using ab by (simp_all add: word_less_def word_of_int_mod256 uint_word_of_int)
  have u: "u = ?a * 256 ^ n + u mod 256 ^ n" and w: "w = ?b * 256 ^ n + w mod 256 ^ n"
    by (simp_all only: div_mult_mod_eq)
  have m: "0 \<le> u mod 256 ^ n" "u mod 256 ^ n < 256 ^ n" "0 \<le> w mod 256 ^ n" "w mod 256 ^ n < 256 ^ n"
    by simp_all
  have IH: "rev (le_bytes n u) < rev (le_bytes n w) \<longleftrightarrow> u mod 256 ^ n < w mod 256 ^ n"
    using Suc.IH [OF m] by (simp add: le_bytes_mod)
  have lex: "u < w \<longleftrightarrow> ?a < ?b \<or> ?a = ?b \<and> u mod 256 ^ n < w mod 256 ^ n"
  proof (cases "?a" "?b" rule: linorder_cases)
    case less
    then have "u < w" by (metis not_le zdiv_mono1 zero_less_numeral zero_less_power)
    then show ?thesis using less by simp
  next
    case equal
    then show ?thesis using u w by (metis add_less_cancel_left less_irrefl)
  next
    case greater
    then have "w < u" by (metis not_le zdiv_mono1 zero_less_numeral zero_less_power)
    then show ?thesis using greater by simp
  qed
  show ?case unfolding le_bytes_last rev_append using wl IH lex by simp
qed simp

text \<open>The key of a two's complement integer of \<open>n\<close> bytes is the big-endian form of the offset value.\<close>

lemma ReverseEndian_int:
  assumes "0 < n"
  shows "ReverseEndian (le_bytes n v) = Some (rev (le_bytes n (v + 2 ^ (8 * n - 1))))"
proof -
  obtain m where n: "n = Suc m" using assms by (cases n) auto
  have p: "(2::int) ^ (8 * n - 1) = 128 * 256 ^ m"
  proof -
    have "8 * n - 1 = 7 + 8 * m" using n by simp
    then show ?thesis by (simp add: power_add power_mult)
  qed
  have d: "(v + 128 * 256 ^ m) div 256 ^ m = v div 256 ^ m + 128"
    using div_mult_self1 [of "256 ^ m :: int" v 128] by simp
  have b: "le_bytes m (v + 128 * 256 ^ m) = le_bytes m v"
  proof -
    have "(v + 128 * 256 ^ m) mod 256 ^ m = v mod 256 ^ m" by simp
    then show ?thesis using le_bytes_mod by metis
  qed
  show ?thesis
    unfolding n le_bytes_last ReverseEndian_def using p n
    by (simp add: d b del: le_bytes.simps)
qed

lemma ReverseEndian_mono:
  assumes "0 < n" and v: "-(2 ^ (8 * n - 1)) \<le> v" "v < 2 ^ (8 * n - 1)"
    and w: "-(2 ^ (8 * n - 1)) \<le> w" "w < 2 ^ (8 * n - 1)"
  shows "\<exists>a b. ReverseEndian (le_bytes n v) = Some a \<and> ReverseEndian (le_bytes n w) = Some b \<and>
    (a < b \<longleftrightarrow> v < w) \<and> (a \<le> b \<longleftrightarrow> v \<le> w)"
proof -
  let ?h = "2 ^ (8 * n - 1) :: int"
  have "(256 :: int) ^ n = 2 ^ (8 * n)" by (simp add: power_mult)
  also have "\<dots> = ?h + ?h" using assms(1) by (metis mult_2 power_Suc Suc_diff_1 nat_0_less_mult_iff zero_less_numeral)
  finally have h: "(256 :: int) ^ n = ?h + ?h" .
  have b: "0 \<le> v + ?h" "v + ?h < 256 ^ n" "0 \<le> w + ?h" "w + ?h < 256 ^ n"
    using v w h by linarith+
  have l: "rev (le_bytes n (v + ?h)) < rev (le_bytes n (w + ?h)) \<longleftrightarrow> v < w"
    "rev (le_bytes n (w + ?h)) < rev (le_bytes n (v + ?h)) \<longleftrightarrow> w < v"
    using rev_le_bytes_less b by simp_all
  then have "rev (le_bytes n (v + ?h)) \<le> rev (le_bytes n (w + ?h)) \<longleftrightarrow> v \<le> w"
    using linorder_not_less by metis
  with l(1) ReverseEndian_int [OF assms(1)] show ?thesis by blast
qed

lemma le_bytes4: "le_bytes 4 v = [word_of_int v, word_of_int (v div 256), word_of_int (v div 65536), word_of_int (v div 16777216)]"
proof -
  have "v div 256 div 256 = v div 65536" "v div 65536 div 256 = v div 16777216"
    using zdiv_zmult2_eq [of 256 v 256] zdiv_zmult2_eq [of 256 v 65536] by simp_all
  then have "le_bytes (Suc (Suc (Suc (Suc 0)))) v =
      [word_of_int v, word_of_int (v div 256), word_of_int (v div 65536), word_of_int (v div 16777216)]"
    by (simp only: le_bytes.simps)
  then show ?thesis by (simp only: numeral_eq_Suc pred_numeral_simps BitM.simps)
qed

subsection \<open>The keys of floating-point numbers\<close>

text \<open>
  A float of \<open>n\<close> bytes with \<open>p\<close> fraction bits (\<open>n = 4\<close>, \<open>p = 23\<close> or \<open>n = 8\<close>, \<open>p = 52\<close>), read from its bit pattern \<open>u\<close>: the
  sign, the exponent and the fraction, as a multiple of the smallest positive number.
\<close>

definition float_mag :: "nat \<Rightarrow> int \<Rightarrow> int" where
  "float_mag p u = (if u div 2 ^ p = 0 then u mod 2 ^ p else (2 ^ p + u mod 2 ^ p) * 2 ^ nat (u div 2 ^ p - 1))"

definition float_value :: "nat \<Rightarrow> nat \<Rightarrow> int \<Rightarrow> int" where
  "float_value n p u = (if u < 2 ^ (8 * n - 1) then float_mag p u else - float_mag p (u - 2 ^ (8 * n - 1)))"

lemma float_mag_mono:
  assumes "0 \<le> u" "u \<le> w"
  shows "float_mag p u \<le> float_mag p w"
proof -
  let ?P = "2 ^ p :: int"
  define e m e' m' where em: "e = u div ?P" "m = u mod ?P" "e' = w div ?P" "m' = w mod ?P"
  have ee: "0 \<le> e" "e \<le> e'" using assms by (simp_all add: em zdiv_mono1 pos_imp_zdiv_nonneg_iff)
  have mm: "0 \<le> m" "m < ?P" "0 \<le> m'" "m' < ?P" by (simp_all add: em)
  consider "e = e'" | "e < e'" using ee by linarith
  then show ?thesis
  proof cases
    case 1
    have "u = ?P * e + m" "w = ?P * e' + m'" by (simp_all add: em)
    then have "m \<le> m'" using assms(2) 1 by simp
    then show ?thesis using 1 by (simp add: float_mag_def em [symmetric] mult_right_mono)
  next
    case 2
    have g: "?P * 2 ^ nat (e' - 1) \<le> (?P + m') * 2 ^ nat (e' - 1)" using mm by simp
    show ?thesis
    proof (cases "e = 0")
      case True
      have "?P * 1 \<le> ?P * 2 ^ nat (e' - 1)" by (rule mult_left_mono) simp_all
      then have "m \<le> (?P + m') * 2 ^ nat (e' - 1)" using g mm(2) by linarith
      then show ?thesis using True 2 by (simp add: float_mag_def em [symmetric])
    next
      case False
      then have k: "nat e = Suc (nat (e - 1))" "nat e \<le> nat (e' - 1)" using ee 2 by simp_all
      have "(?P + m) * 2 ^ nat (e - 1) \<le> (?P + ?P) * 2 ^ nat (e - 1)" using mm by (intro mult_right_mono) simp_all
      also have "\<dots> = ?P * 2 ^ nat e" unfolding k(1) by simp
      also have "\<dots> \<le> ?P * 2 ^ nat (e' - 1)" using k(2) by (intro mult_left_mono power_increasing) simp_all
      also note g
      finally show ?thesis using False ee 2 by (simp add: float_mag_def em [symmetric])
    qed
  qed
qed

lemma scan_backwards: "hi < lo \<Longrightarrow> bt_scan t lo hi = []"
proof -
  assume "hi < lo"
  then have "takeWhile (\<lambda>(k, v). \<not> keycmp k hi > 0) (dropWhile (\<lambda>(k, v). keycmp k lo < 0) t) = []"
    by (induction t) (auto split: if_splits)
  then show ?thesis by (simp add: bt_scan_def)
qed

end
