(* ===== verification/FieldsSearch.thy ===== *)
theory FieldsSearch
  imports FieldIndex
begin

text \<open>
  Searching several fields: \<open>MultiFieldsRangeIndex::Search\<close> and \<open>Intersect\<close>
  (\<open>table/field_range_index.cc\<close>). A filter names a field, two bounds (or the tags, in the lower
  one) and an operator. The search returns -1 when the filters exclude nothing (or a field has no
  index), 0 when they exclude everything, and otherwise a positive number with results to test
  documents against. \<open>None\<close> is a memory fault or a failed assert. \<open>g1\<close> and \<open>g2\<close> are the
  uninitialised members of the results built on the stack.
\<close>

datatype filter_op = FAnd | FOr | FNot

record filter_info =
  f_field :: int
  f_lower :: bkey
  f_upper :: bkey
  f_op :: filter_op

type_synonym findex = "frx option list"

subsection \<open>Intersection\<close>

definition and_step :: "byte list \<Rightarrow> int \<Rightarrow> int \<Rightarrow> rqr \<Rightarrow> byte list option" where
  "and_step dst min_doc max_doc r =
     (let mn = rr_min_al r; mx = rr_max_al r; data = rr_block r in
      if mn < min_doc then
        let offset = cdiv (min_doc - mn) op_len in
        if mx > max_doc then word_loop and_op dst 0 data offset (nat (cdiv (max_doc - min_doc + 1) op_len))
        else word_loop and_op dst 0 data offset (nat (cdiv (mx - min_doc + 1) op_len))
      else
        let offset = cdiv (mn - min_doc) op_len in
        if mx > max_doc then word_loop and_op dst offset data 0 (nat (cdiv (max_doc - min_doc + 1) op_len))
        else word_loop and_op dst offset data 0 (nat (cdiv (mx - min_doc + 1) op_len)))"

fun and_loop :: "byte list \<Rightarrow> int \<Rightarrow> int \<Rightarrow> int \<Rightarrow> int \<Rightarrow> rqr list \<Rightarrow> byte list option" where
  "and_loop dst min_doc max_doc shortest_idx i [] = Some dst"
| "and_loop dst min_doc max_doc shortest_idx i (r # rs) =
     (if i = shortest_idx then and_loop dst min_doc max_doc shortest_idx (i + 1) rs
      else do { dst' \<leftarrow> and_step dst min_doc max_doc r;
                and_loop dst' min_doc max_doc shortest_idx (i + 1) rs })"

fun common_range :: "rqr list \<Rightarrow> int \<times> int \<Rightarrow> int \<times> int" where
  "common_range [] b = b"
| "common_range (r # rs) (min_doc, max_doc) =
     common_range rs (if rr_min_al r > min_doc then rr_min_al r else min_doc,
                      if rr_max_al r < max_doc then rr_max_al r else max_doc)"

definition MFR_Intersect :: "rqr list \<Rightarrow> int \<Rightarrow> rqr \<Rightarrow> (int \<times> rqr) option" where
  "MFR_Intersect results shortest_idx out =
     do {
       r0 \<leftarrow> fetch results 0;
       let tot = rr_ndoc r0;
       (case common_range results (int_min, int_max) of (min_doc, max_doc) \<Rightarrow>
          if max_doc - min_doc + 1 \<le> 0 then Some (0, out)
          else do {
            r \<leftarrow> RR_Resize (RR_SetRange out min_doc max_doc);
            s \<leftarrow> fetch results shortest_idx;
            dst \<leftarrow> word_loop copy_op (rr_block r) 0 (rr_block s) (cdiv (min_doc - rr_min_al s) op_len)
                     (nat (cdiv (max_doc - min_doc + 1) op_len));
            dst' \<leftarrow> and_loop dst min_doc max_doc shortest_idx 0 results;
            Some (tot, r\<lparr>rr_bits := Some dst', rr_ndoc := tot\<rparr>) }) }"

subsection \<open>Search\<close>

text \<open>The first loop, which splits conjunctive tag filters: \<open>Some None\<close> is the early return of -1.\<close>

fun expand_filters :: "findex \<Rightarrow> filter_info list \<Rightarrow> filter_info list \<Rightarrow> filter_info list option option" where
  "expand_filters flds [] acc = Some (Some acc)"
| "expand_filters flds (f # fs) acc =
     (if f_field f < 0 then Some None
      else do {
        ix \<leftarrow> fetch flds (f_field f);
        case ix of None \<Rightarrow> Some None
        | Some x \<Rightarrow>
            if \<not> fx_num x \<and> f_op f = FAnd
            then expand_filters flds fs
                   (acc @ map (\<lambda>item. f\<lparr>f_lower := item\<rparr>) (utils_split (f_lower f) (fx_delim x)))
            else expand_filters flds fs (acc @ [f]) })"

definition search_one :: "int \<Rightarrow> int \<Rightarrow> findex \<Rightarrow> filter_info \<Rightarrow> mrq \<Rightarrow> (int \<times> mrq) option" where
  "search_one g1 g2 flds f out =
     do {
       ix \<leftarrow> fetch flds (f_field f);
       x \<leftarrow> ix;
       (retval, r) \<leftarrow> FRI_Search x (f_lower f) (f_upper f) (RR_new g1 g2);
       Some (if retval > 0 then (retval, MR_Add out (if f_op f = FNot then r\<lparr>rr_not_in := True\<rparr> else r))
             else if f_op f = FNot then (-1, out) else (retval, out)) }"

text \<open>The loop over several filters; \<open>Inl\<close> is the early return of 0.\<close>

type_synonym collected = "mrq \<times> rqr list \<times> int \<times> int"

fun collect :: "int \<Rightarrow> int \<Rightarrow> findex \<Rightarrow> filter_info list \<Rightarrow> collected \<Rightarrow> (mrq + collected) option" where
  "collect g1 g2 flds [] st = Some (Inr st)"
| "collect g1 g2 flds (f # fs) (out, results, shortest_idx, shortest) =
     do {
       ix \<leftarrow> fetch flds (f_field f);
       case ix of None \<Rightarrow> collect g1 g2 flds fs (out, results, shortest_idx, shortest)
       | Some x \<Rightarrow> do {
           (retval, r) \<leftarrow> FRI_Search x (f_lower f) (f_upper f) (RR_new g1 g2);
           if retval < 0 then collect g1 g2 flds fs (out, results, shortest_idx, shortest)
           else if retval = 0 then
             (if f_op f = FNot then collect g1 g2 flds fs (out, results, shortest_idx, shortest)
              else Some (Inl out))
           else if f_op f = FNot then
             collect g1 g2 flds fs (MR_Add out (r\<lparr>rr_not_in := True\<rparr>), results, shortest_idx, shortest)
           else if shortest > retval then
             collect g1 g2 flds fs (out, results @ [r], int (length results), retval)
           else collect g1 g2 flds fs (out, results @ [r], shortest_idx, shortest) } }"

definition MFR_Search :: "int \<Rightarrow> int \<Rightarrow> findex \<Rightarrow> filter_info list \<Rightarrow> (int \<times> mrq) option" where
  "MFR_Search g1 g2 flds origin_filters =
     do {
       fo \<leftarrow> expand_filters flds origin_filters [];
       case fo of None \<Rightarrow> Some (-1, MR_new)
       | Some filters \<Rightarrow>
           (case filters of [f] \<Rightarrow> search_one g1 g2 flds f MR_new
            | _ \<Rightarrow> do {
                c \<leftarrow> collect g1 g2 flds filters (MR_new, [], -1, int_max);
                case c of Inl out \<Rightarrow> Some (0, out)
                | Inr (out, results, shortest_idx, shortest) \<Rightarrow>
                    if results = [] then (if m_results out \<noteq> [] then Some (1, out) else Some (-1, out))
                    else do {
                      (count, tmp) \<leftarrow> MFR_Intersect results shortest_idx (RR_new g1 g2);
                      Some (count, if count > 0 then MR_Add out tmp else out) } }) }"

subsection \<open>Intersection is correct\<close>

text \<open>A result of a positive filter.\<close>

definition good_result :: "rqr \<Rightarrow> bool" where
  "good_result r \<longleftrightarrow> rr_inv r \<and> rr_words r \<and> \<not> rr_not_in r \<and> 0 \<le> rr_ndoc r \<and>
     (rr_ndoc r = 0 \<longrightarrow> rr_docs r = {})"

lemma good_bounds:
  "good_result r \<Longrightarrow> 0 \<le> rr_min r \<and> rr_min r \<le> rr_max r \<and> rr_max r \<le> int_max \<and>
    rr_min_al r = rr_min r \<and> rr_max_al r = rr_max r \<and> 64 dvd rr_min r \<and> 64 dvd rr_max r + 1 \<and>
    int (length (rr_block r)) = (rr_max r - rr_min r + 1) div 8 + 1"
  by (auto simp: good_result_def rr_words_def span_block_def)

lemma good_bit:
  assumes "good_result r"
  shows "i - rr_min r \<in> bm_set (rr_block r) \<longleftrightarrow> i \<in> rr_docs r"
proof -
  have d: "rr_docs r = (\<lambda>i. i + rr_min r) ` bm_set (rr_block r)"
    using assms rr_docs_eq by (simp add: good_result_def rr_words_def)
  show ?thesis unfolding d by (force simp: image_iff)
qed

lemma good_bit_at:
  assumes "good_result r" "lo - rr_min r = 64 * k"
  shows "i - 64 * 0 + 64 * k \<in> bm_set (rr_block r) \<longleftrightarrow> i + lo \<in> rr_docs r"
proof -
  have "i - 64 * 0 + 64 * k = i + lo - rr_min r" using assms(2) by simp
  then show ?thesis using good_bit [OF assms(1)] by metis
qed

text \<open>The words of \<open>lo..hi\<close>, inside a result.\<close>

lemma window:
  assumes r: "good_result r" and w: "rr_min r \<le> lo" "lo \<le> hi" "hi \<le> rr_max r" "64 dvd lo" "64 dvd hi + 1"
    and b: "span_block lo hi dst"
  shows "\<exists>o' n. cdiv (lo - rr_min r) op_len = o' \<and> nat (cdiv (hi - lo + 1) op_len) = n \<and>
    lo - rr_min r = 64 * o' \<and> hi - lo + 1 = 64 * int n \<and> 0 \<le> o' \<and>
    8 * int n \<le> int (length dst) \<and> 8 * (o' + int n) \<le> int (length (rr_block r))"
proof -
  note g = good_bounds [OF r]
  obtain a where a: "rr_min r = 64 * a" using g by (auto simp: dvd_def)
  obtain l where l: "lo = 64 * l" using w(4) by (auto simp: dvd_def)
  obtain m where m: "hi + 1 = 64 * m" using w(5) by (auto simp: dvd_def)
  have o: "a \<le> l" "l < m" using a l m w by linarith+
  have e: "lo - rr_min r = 64 * (l - a)" "hi - lo + 1 = 64 * (m - l)"
    using a l m by (simp_all add: algebra_simps)
  have "64 * (m - l) div 8 \<le> (hi - lo + 1) div 8" unfolding e(2) by simp
  then have "8 * (m - l) \<le> (hi - lo + 1) div 8" by (simp only: div_mult64)
  then have ld: "8 * (m - l) \<le> int (length dst)" using b unfolding span_block_def by linarith
  have "64 * (m - a) \<le> rr_max r - rr_min r + 1"
    using a m w(3) unfolding right_diff_distrib by linarith
  then have "64 * (m - a) div 8 \<le> (rr_max r - rr_min r + 1) div 8" by (rule zdiv_mono1) simp
  then have "8 * (m - a) \<le> (rr_max r - rr_min r + 1) div 8" by (simp only: div_mult64)
  then have lr: "8 * (m - a) \<le> int (length (rr_block r))" using g by linarith
  show ?thesis
    using o e ld lr by (intro exI [of _ "l - a"] exI [of _ "nat (m - l)"]) simp
qed

lemma and_step_spec:
  assumes r: "good_result r" and w: "rr_min r \<le> lo" "lo \<le> hi" "hi \<le> rr_max r" "64 dvd lo" "64 dvd hi + 1"
    and b: "span_block lo hi dst" and d: "bm_set dst \<subseteq> {0..hi - lo}"
  shows "\<exists>dst'. and_step dst lo hi r = Some dst' \<and> length dst' = length dst \<and>
    bm_set dst' = {i \<in> bm_set dst. i + lo \<in> rr_docs r}"
proof -
  note g = good_bounds [OF r]
  obtain k n where kn: "cdiv (lo - rr_min r) op_len = k" "nat (cdiv (hi - lo + 1) op_len) = n"
    "lo - rr_min r = 64 * k" "hi - lo + 1 = 64 * int n" "0 \<le> k"
    "8 * int n \<le> int (length dst)" "8 * (k + int n) \<le> int (length (rr_block r))"
    using window [OF r w b] by blast
  have "and_step dst lo hi r = word_loop and_op dst 0 (rr_block r) k n"
  proof (cases "rr_min r < lo")
    case True
    then show ?thesis using kn(1,2) w(3) g by (auto simp: and_step_def Let_def)
  next
    case False
    then have "lo = rr_min r" using w(1) by simp
    then show ?thesis using kn w(3) g by (auto simp: and_step_def Let_def)
  qed
  moreover obtain dst' where dst': "word_loop and_op dst 0 (rr_block r) k n = Some dst'"
    "length dst' = length dst" "bm_set dst' = {i. i \<in> bm_set dst \<and>
      (64 * 0 \<le> i \<and> i < 64 * (0 + int n) \<longrightarrow> i - 64 * 0 + 64 * k \<in> bm_set (rr_block r))}"
    using word_and_set [of 0 n dst k "rr_block r"] kn by auto
  moreover have "bm_set dst' = {i \<in> bm_set dst. i + lo \<in> rr_docs r}"
  proof -
    have "64 * 0 \<le> i \<and> i < 64 * (0 + int n)" if "i \<in> bm_set dst" for i
      using that d kn(4) by auto
    then show ?thesis unfolding dst'(3) using good_bit_at [OF r kn(3)] by blast
  qed
  ultimately show ?thesis by simp
qed

lemma and_loop_spec:
  assumes "\<forall>r \<in> set rs. good_result r \<and> rr_min r \<le> lo \<and> hi \<le> rr_max r"
    and w: "lo \<le> hi" "64 dvd lo" "64 dvd hi + 1"
    and "span_block lo hi dst" and "bm_set dst \<subseteq> {0..hi - lo}"
    and "\<forall>k < length rs. i + int k = s \<longrightarrow> (\<forall>j \<in> bm_set dst. j + lo \<in> rr_docs (rs ! k))"
  shows "\<exists>dst'. and_loop dst lo hi s i rs = Some dst' \<and> length dst' = length dst \<and>
    bm_set dst' = {j \<in> bm_set dst. \<forall>r \<in> set rs. j + lo \<in> rr_docs r}"
  using assms(1,5-7)
proof (induction rs arbitrary: dst i)
  case (Cons r rs)
  have tl: "\<forall>k < length rs. i + 1 + int k = s \<longrightarrow> (\<forall>j \<in> bm_set dst. j + lo \<in> rr_docs (rs ! k))"
  proof (intro allI impI)
    fix k
    assume "k < length rs" "i + 1 + int k = s"
    then show "\<forall>j \<in> bm_set dst. j + lo \<in> rr_docs (rs ! k)"
      using Cons.prems(4) [rule_format, of "Suc k"] by simp
  qed
  have good: "good_result r" "rr_min r \<le> lo" "hi \<le> rr_max r" using Cons.prems(1) by auto
  show ?case
  proof (cases "i = s")
    case True
    then have "\<forall>j \<in> bm_set dst. j + lo \<in> rr_docs r" using Cons.prems(4) [rule_format, of 0] by simp
    then show ?thesis
      using Cons.IH [OF _ Cons.prems(2,3) tl] Cons.prems(1) True by auto
  next
    case False
    obtain d where d: "and_step dst lo hi r = Some d" "length d = length dst"
      "bm_set d = {i \<in> bm_set dst. i + lo \<in> rr_docs r}"
      using and_step_spec [OF good(1,2) w(1) good(3) w(2,3) Cons.prems(2,3)] by blast
    have "span_block lo hi d" "bm_set d \<subseteq> {0..hi - lo}"
      "\<forall>k < length rs. i + 1 + int k = s \<longrightarrow> (\<forall>j \<in> bm_set d. j + lo \<in> rr_docs (rs ! k))"
      using Cons.prems(2,3) tl d by (auto simp: span_block_def)
    from Cons.IH [OF _ this] Cons.prems(1) obtain d' where "and_loop d lo hi s (i + 1) rs = Some d'"
      "length d' = length d" "bm_set d' = {j \<in> bm_set d. \<forall>r \<in> set rs. j + lo \<in> rr_docs r}"
      by auto
    then show ?thesis using False d by auto
  qed
qed auto

lemma common_range_spec:
  "common_range rs (a, b) = (a', b') \<Longrightarrow> a \<le> a' \<and> b' \<le> b \<and>
    (\<forall>r \<in> set rs. rr_min_al r \<le> a' \<and> b' \<le> rr_max_al r) \<and>
    a' \<in> insert a (rr_min_al ` set rs) \<and> b' \<in> insert b (rr_max_al ` set rs)"
proof (induction rs arbitrary: a b)
  case (Cons r rs)
  from Cons.IH [OF Cons.prems [unfolded common_range.simps]] show ?case
    by (auto split: if_splits)
qed simp

lemma MFR_Intersect_spec:
  assumes good: "\<forall>r \<in> set rs. good_result r" and ne: "rs \<noteq> []"
    and s: "0 \<le> s" "s < int (length rs)"
  shows "\<exists>count tmp. MFR_Intersect rs s (RR_new g1 g2) = Some (count, tmp) \<and> 0 \<le> count \<and>
    (if 0 < count then good_result tmp \<and> rr_docs tmp = (\<Inter>r \<in> set rs. rr_docs r)
     else (\<Inter>r \<in> set rs. rr_docs r) = {})"
proof -
  let ?r0 = "rs ! 0" and ?S = "\<Inter>r \<in> set rs. rr_docs r"
  have r0: "fetch rs 0 = Some ?r0" "?r0 \<in> set rs" using ne by (auto simp: fetch_def)
  then have g0: "good_result ?r0" using good by blast
  obtain lo hi where c: "common_range rs (int_min, int_max) = (lo, hi)" by fastforce
  note cr = common_range_spec [OF c]
  have rng: "rr_docs r \<subseteq> {rr_min r..rr_max r}" for r by (auto simp: rr_docs_def)
  have in_rng: "\<forall>r \<in> set rs. good_result r \<and> rr_min r \<le> lo \<and> hi \<le> rr_max r"
    using cr good good_bounds by (metis (no_types, lifting))
  show ?thesis
  proof (cases "hi - lo + 1 \<le> 0")
    case True
    have "?S \<subseteq> {lo..hi}"
    proof
      fix d
      assume d: "d \<in> ?S"
      have "lo \<noteq> int_min" using in_rng r0(2) good_bounds [OF g0] by auto
      then obtain p where p: "p \<in> set rs" "lo = rr_min_al p" using cr by auto
      obtain q where q: "q \<in> set rs" "hi = int_max \<or> hi = rr_max_al q" using cr r0(2) by auto
      have "lo \<le> d" using d p rng [of p] good good_bounds [of p] by force
      moreover have "d \<le> hi" using d q rng [of q] good good_bounds [of q] by force
      ultimately show "d \<in> {lo..hi}" by simp
    qed
    then show ?thesis using True c r0(1) by (simp add: MFR_Intersect_def)
  next
    case False
    have "lo \<noteq> int_min" using in_rng r0(2) good_bounds [OF g0] by auto
    then obtain p where p: "p \<in> set rs" "lo = rr_min_al p" using cr by auto
    obtain q where q: "q \<in> set rs" "hi = int_max \<or> hi = rr_max_al q" using cr r0(2) by auto
    have hq: "64 dvd hi + 1 \<and> hi \<le> int_max"
      using q good good_bounds [of q] cr by auto
    have w: "0 \<le> lo" "lo \<le> hi" "hi \<le> int_max" "64 dvd lo" "64 dvd hi + 1"
      using p good good_bounds [of p] hq False by auto
    from prepare_words [OF w, of g1 g2] obtain r where
      r: "RR_Resize (RR_SetRange (RR_new g1 g2) lo hi) = Some r" "rr_words r"
        "rr_min r = lo" "rr_max r = hi" "bm_set (rr_block r) = {}" "\<not> rr_not_in r" by blast
    then have sp: "span_block lo hi (rr_block r)" by (simp add: rr_words_def)
    let ?s = "rs ! nat s"
    have fs: "fetch rs s = Some ?s" "?s \<in> set rs" using s by (auto simp: fetch_def)
    then have gs: "good_result ?s" "rr_min ?s \<le> lo" "hi \<le> rr_max ?s" using in_rng by auto
    obtain k n where kn: "cdiv (lo - rr_min ?s) op_len = k" "nat (cdiv (hi - lo + 1) op_len) = n"
      "lo - rr_min ?s = 64 * k" "hi - lo + 1 = 64 * int n" "0 \<le> k"
      "8 * int n \<le> int (length (rr_block r))" "8 * (k + int n) \<le> int (length (rr_block ?s))"
      using window [OF gs(1,2) w(2) gs(3) w(4,5) sp] by blast
    obtain d where d: "word_loop copy_op (rr_block r) 0 (rr_block ?s) k n = Some d"
      "length d = length (rr_block r)"
      "\<forall>i. i \<in> bm_set d \<longleftrightarrow> i \<in> bm_dom (rr_block r) \<and>
         (if 64 * 0 \<le> i \<and> i < 64 * (0 + int n) then i - 64 * 0 + 64 * k \<in> bm_set (rr_block ?s)
          else i \<in> bm_set (rr_block r))"
      using word_copy_set [of 0 n "rr_block r" k "rr_block ?s"] kn by auto
    note bit = good_bit_at [OF gs(1) kn(3)]
    have dm: "i \<in> bm_dom (rr_block r)" if "0 \<le> i" "i \<le> hi - lo" for i
      using span_dom [OF sp, of "i + lo"] that by simp
    have ds: "bm_set d = {i. 0 \<le> i \<and> i \<le> hi - lo \<and> i + lo \<in> rr_docs ?s}"
      unfolding set_eq_iff using d(3) bit dm r(5) kn(4) by auto
    have spd: "span_block lo hi d" using sp d(2) by (simp add: span_block_def)
    have short: "\<forall>k < length rs. 0 + int k = s \<longrightarrow> (\<forall>j \<in> bm_set d. j + lo \<in> rr_docs (rs ! k))"
      unfolding ds by auto
    have sub: "bm_set d \<subseteq> {0..hi - lo}" unfolding ds by auto
    obtain d' where d': "and_loop d lo hi s 0 rs = Some d'" "length d' = length d"
      "bm_set d' = {j \<in> bm_set d. \<forall>r \<in> set rs. j + lo \<in> rr_docs r}"
      using and_loop_spec [OF in_rng w(2,4,5) spd sub short] by blast
    have Srng: "lo \<le> v \<and> v \<le> hi" if v: "v \<in> ?S" for v
    proof -
      have "lo \<le> v" using v p rng [of p] good good_bounds [of p] by force
      moreover have "v \<le> hi" using v q rng [of q] good good_bounds [of q] by force
      ultimately show ?thesis by simp
    qed
    have "bm_set d' = (\<lambda>v. v - lo) ` ?S"
    proof
      show "bm_set d' \<subseteq> (\<lambda>v. v - lo) ` ?S"
      proof
        fix i
        assume "i \<in> bm_set d'"
        then have "i + lo \<in> ?S" unfolding d'(3) by blast
        then show "i \<in> (\<lambda>v. v - lo) ` ?S" by (intro image_eqI [of _ _ "i + lo"]) simp_all
      qed
      show "(\<lambda>v. v - lo) ` ?S \<subseteq> bm_set d'"
        unfolding d'(3) ds using Srng fs(2) by auto
    qed
    then have D: "bm_set d' = (\<lambda>v. v - rr_min r) ` ?S" using r(3) by simp
    have ld: "length d' = length (rr_block r)" using d' d by simp
    let ?t = "r\<lparr>rr_bits := Some d', rr_ndoc := rr_ndoc ?r0\<rparr>"
    have fw: "rr_inv ?t \<and> rr_words ?t \<and> rr_docs ?t = ?S"
      using filled_words [OF r(2) ld D] Srng r(3,4) by auto
    have sm: "rr_min_al ?s = rr_min ?s" using good_bounds [OF gs(1)] by simp
    have I: "MFR_Intersect rs s (RR_new g1 g2) = Some (rr_ndoc ?r0, ?t)"
      unfolding MFR_Intersect_def Let_def
      using r0(1) c False r(1) fs(1) d(1) d'(1) kn(1,2) sm by simp
    have "0 \<le> rr_ndoc ?r0" "rr_ndoc ?r0 = 0 \<longrightarrow> ?S = {}"
      using g0 r0(2) by (auto simp: good_result_def)
    then show ?thesis using I fw r(6) by (auto simp: good_result_def)
  qed
qed

subsection \<open>What a filter lets through\<close>

text \<open>The documents a filter selects: of a conjunctive tag filter, those with all its tags.\<close>

definition filter_docs :: "findex \<Rightarrow> filter_info \<Rightarrow> int set" where
  "filter_docs flds f = (case fetch flds (f_field f) of
      Some (Some x) \<Rightarrow>
        if fx_num x then range_docs x (the (ReverseEndian (f_lower f))) (the (ReverseEndian (f_upper f)))
        else if f_op f = FAnd then {d. \<forall>k \<in> set (utils_split (f_lower f) (fx_delim x)). d \<in> frx_docs x k}
        else tag_docs x (f_lower f)
    | _ \<Rightarrow> {})"

definition filter_sat :: "findex \<Rightarrow> filter_info \<Rightarrow> int set" where
  "filter_sat flds f = (if f_op f = FNot then - filter_docs flds f else filter_docs flds f)"

definition tags_ok :: "frx \<Rightarrow> bkey list \<Rightarrow> bool" where
  "tags_ok x ks \<longleftrightarrow>
     (\<forall>k \<in> set ks. \<forall>n. bt_findkey (fx_tree x) k = Some n \<longrightarrow> 0 < n_size n \<or> n_type n = Sparse) \<and>
     (\<Sum>k \<leftarrow> ks. int (card (frx_docs x k))) < int_max"

definition filter_ok :: "findex \<Rightarrow> filter_info \<Rightarrow> bool" where
  "filter_ok flds f \<longleftrightarrow> 0 \<le> f_field f \<and> (\<exists>x. fetch flds (f_field f) = Some (Some x) \<and> frx_ok x \<and>
     (if fx_num x then f_lower f \<noteq> [] \<and> f_upper f \<noteq> []
      else tags_ok x (utils_split (f_lower f) (fx_delim x))))"

text \<open>A filter on a negative field or one without an index ends the first loop.\<close>

lemma expand_refused:
  "\<lbrakk>\<forall>f \<in> set fs. f_field f < int (length flds); \<exists>f \<in> set fs. f_field f < 0 \<or> fetch flds (f_field f) = Some None\<rbrakk> \<Longrightarrow>
    expand_filters flds fs acc = Some None"
proof (induction fs arbitrary: acc)
  case (Cons f fs)
  show ?case
  proof (cases "f_field f < 0")
    case False
    then obtain ix where "fetch flds (f_field f) = Some ix" using Cons.prems(1) by (simp add: fetch_def)
    then show ?thesis using Cons False by (cases ix) auto
  qed simp
qed simp

lemma tags_ok_single: "tags_ok x ks \<Longrightarrow> k \<in> set ks \<Longrightarrow> tags_ok x [k]"
proof -
  assume a: "tags_ok x ks" "k \<in> set ks"
  have "0 \<le> (\<Sum>j \<leftarrow> js. int (card (frx_docs x j)))" for js by (induction js) auto
  then have "k \<in> set js \<Longrightarrow> int (card (frx_docs x k)) \<le> (\<Sum>j \<leftarrow> js. int (card (frx_docs x j)))" for js
    by (induction js) (auto simp: add_increasing add_increasing2)
  from this [OF a(2)] a show ?thesis by (auto simp: tags_ok_def)
qed

text \<open>A token is its own only token.\<close>

lemma tokens_single:
  assumes "k \<noteq> []" "set k \<inter> set delim = {}"
  shows "tokens delim k = [k]"
proof -
  obtain c r where k: "k = c # r" using assms(1) by (cases k) auto
  have d: "dropWhile (\<lambda>c. c \<in> set delim) k = c # r" using assms(2) k by auto
  have t: "takeWhile (\<lambda>c. c \<notin> set delim) (c # r) = k" "dropWhile (\<lambda>c. c \<notin> set delim) (c # r) = []"
    using assms(2) k by (auto simp: takeWhile_eq_all_conv)
  have "tokens delim [] = []" by (subst tokens.simps) simp
  then show ?thesis by (subst tokens.simps) (simp only: d list.case t)
qed

lemma tokens_mem: "k \<in> set (tokens delim s) \<Longrightarrow> k \<noteq> [] \<and> set k \<inter> set delim = {}"
proof (induction delim s rule: tokens.induct)
  case (1 delim s)
  show ?case
  proof (cases "dropWhile (\<lambda>c. c \<in> set delim) s")
    case Nil
    then have "tokens delim s = []" by (subst tokens.simps) (simp only: list.case)
    then show ?thesis using "1.prems" by simp
  next
    case (Cons c r)
    then have "tokens delim s = takeWhile (\<lambda>c. c \<notin> set delim) (c # r)
        # tokens delim (dropWhile (\<lambda>c. c \<notin> set delim) (c # r))"
      by (subst tokens.simps) (simp only: list.case)
    then consider "k = takeWhile (\<lambda>c. c \<notin> set delim) (c # r)"
      | "k \<in> set (tokens delim (dropWhile (\<lambda>c. c \<notin> set delim) (c # r)))"
      using "1.prems" by auto
    then show ?thesis
    proof cases
      case 1
      then show ?thesis using dropWhile_hd [OF Cons] by (auto dest: set_takeWhileD)
    next
      case 2
      then show ?thesis using "1.IH" [OF Cons] by blast
    qed
  qed
qed

lemma split_single: "k \<in> set (utils_split s delim) \<Longrightarrow> utils_split k delim = [k]"
  using tokens_mem tokens_single by (simp add: utils_split_tokens)

text \<open>After the first loop a conjunctive tag filter has one tag.\<close>

definition plain :: "findex \<Rightarrow> filter_info \<Rightarrow> bool" where
  "plain flds f \<longleftrightarrow> (\<forall>x. fetch flds (f_field f) = Some (Some x) \<and> \<not> fx_num x \<and> f_op f = FAnd \<longrightarrow>
     utils_split (f_lower f) (fx_delim x) = [f_lower f])"

lemma expand_step:
  assumes f: "filter_ok flds f" and x: "fetch flds (f_field f) = Some (Some x)" "\<not> fx_num x" "f_op f = FAnd"
  defines "gs \<equiv> map (\<lambda>item. f\<lparr>f_lower := item\<rparr>) (utils_split (f_lower f) (fx_delim x))"
  shows "(\<forall>g \<in> set gs. filter_ok flds g \<and> plain flds g) \<and> filter_sat flds f = (\<Inter>g \<in> set gs. filter_sat flds g)"
proof
  have t: "tags_ok x (utils_split (f_lower f) (fx_delim x))" "frx_ok x" "0 \<le> f_field f"
    using f x by (auto simp: filter_ok_def)
  show "\<forall>g \<in> set gs. filter_ok flds g \<and> plain flds g"
    using t x tags_ok_single [OF t(1)] split_single
    by (auto simp: gs_def filter_ok_def plain_def)
  have "filter_sat flds (f\<lparr>f_lower := k\<rparr>) = frx_docs x k"
    if "k \<in> set (utils_split (f_lower f) (fx_delim x))" for k
    using x split_single [OF that] by (simp add: filter_sat_def filter_docs_def)
  then have "(\<Inter>g \<in> set gs. filter_sat flds g) =
      (\<Inter>k \<in> set (utils_split (f_lower f) (fx_delim x)). frx_docs x k)"
    by (simp add: gs_def image_image)
  also have "\<dots> = filter_sat flds f" using x by (auto simp: filter_sat_def filter_docs_def)
  finally show "filter_sat flds f = (\<Inter>g \<in> set gs. filter_sat flds g)" ..
qed

lemma expand_filters_spec:
  assumes "\<forall>f \<in> set fs. filter_ok flds f"
  shows "\<exists>gs. expand_filters flds fs acc = Some (Some (acc @ gs)) \<and>
    (\<forall>g \<in> set gs. filter_ok flds g \<and> plain flds g) \<and>
    (\<Inter>f \<in> set fs. filter_sat flds f) = (\<Inter>g \<in> set gs. filter_sat flds g)"
  using assms
proof (induction fs arbitrary: acc)
  case (Cons f fs)
  then obtain x where x: "fetch flds (f_field f) = Some (Some x)" "0 \<le> f_field f"
    by (auto simp: filter_ok_def)
  have fok: "filter_ok flds f" using Cons.prems by simp
  have "\<exists>hs. expand_filters flds (f # fs) acc = expand_filters flds fs (acc @ hs) \<and>
    (\<forall>g \<in> set hs. filter_ok flds g \<and> plain flds g) \<and> filter_sat flds f = (\<Inter>g \<in> set hs. filter_sat flds g)"
  proof (cases "\<not> fx_num x \<and> f_op f = FAnd")
    case True
    with expand_step [OF fok x(1)] show ?thesis
      using x by (intro exI [of _ "map (\<lambda>item. f\<lparr>f_lower := item\<rparr>) (utils_split (f_lower f) (fx_delim x))"]) simp
  next
    case False
    then show ?thesis using x fok by (intro exI [of _ "[f]"]) (auto simp: plain_def)
  qed
  then obtain hs where hs: "expand_filters flds (f # fs) acc = expand_filters flds fs (acc @ hs)"
    "\<forall>g \<in> set hs. filter_ok flds g \<and> plain flds g" "filter_sat flds f = (\<Inter>g \<in> set hs. filter_sat flds g)"
    by blast
  from Cons.IH [of "acc @ hs"] Cons.prems obtain gs where
    gs: "expand_filters flds fs (acc @ hs) = Some (Some ((acc @ hs) @ gs))"
      "\<forall>g \<in> set gs. filter_ok flds g \<and> plain flds g"
      "(\<Inter>f \<in> set fs. filter_sat flds f) = (\<Inter>g \<in> set gs. filter_sat flds g)" by auto
  show ?case
    using hs gs by (intro exI [of _ "hs @ gs"]) auto
qed auto

lemma ReverseEndian_Some: "k \<noteq> [] \<Longrightarrow> \<exists>r. ReverseEndian k = Some r"
  by (cases "rev k") (auto simp: ReverseEndian_def)

lemma FRI_Search_filter:
  assumes "filter_ok flds f" "plain flds f"
  shows "\<exists>x. fetch flds (f_field f) = Some (Some x) \<and>
    search_result (filter_docs flds f) (FRI_Search x (f_lower f) (f_upper f) (RR_new g1 g2))"
proof -
  obtain x where x: "fetch flds (f_field f) = Some (Some x)" "frx_ok x"
    "if fx_num x then f_lower f \<noteq> [] \<and> f_upper f \<noteq> [] else tags_ok x (utils_split (f_lower f) (fx_delim x))"
    using assms(1) by (auto simp: filter_ok_def)
  show ?thesis
  proof (cases "fx_num x")
    case True
    then obtain lo hi where "ReverseEndian (f_lower f) = Some lo" "ReverseEndian (f_upper f) = Some hi"
      using x(3) ReverseEndian_Some by metis
    then show ?thesis
      using FRI_SearchRange_spec [OF x(2)] True x(1) by (simp add: FRI_Search_def filter_docs_def)
  next
    case False
    have "search_result (tag_docs x (f_lower f)) (FRI_SearchTags x (f_lower f) (RR_new g1 g2))"
      using x(3) False by (intro FRI_SearchTags_spec [OF x(2)]) (auto simp: tags_ok_def)
    moreover have "filter_docs flds f = tag_docs x (f_lower f)"
      using x(1) False assms(2) by (auto simp: filter_docs_def plain_def tag_docs_def)
    ultimately show ?thesis using x(1) False by (simp add: FRI_Search_def)
  qed
qed

subsection \<open>The search is correct\<close>

text \<open>What the return value promises about the conjunction \<open>S\<close> of the filters.\<close>

definition search_ok :: "int set \<Rightarrow> int \<times> mrq \<Rightarrow> bool" where
  "search_ok S res \<longleftrightarrow> (case res of (ret, out) \<Rightarrow>
     if ret < 0 then S = UNIV
     else if ret = 0 then S = {}
     else m_text out = [] \<and> m_results out \<noteq> [] \<and> (\<forall>r \<in> set (m_results out). rr_inv r) \<and>
       (\<Inter>r \<in> set (m_results out). rr_sat r) = S)"

lemma negated:
  assumes "rr_inv r" "\<not> rr_not_in r"
  shows "rr_inv (r\<lparr>rr_not_in := True\<rparr>) \<and> rr_sat (r\<lparr>rr_not_in := True\<rparr>) = - rr_sat r"
  using assms by (simp add: rr_inv_def rr_sat_def rr_docs_def rr_block_def)

lemma search_one_spec:
  assumes "filter_ok flds f" "plain flds f"
  shows "\<exists>res. search_one g1 g2 flds f MR_new = Some res \<and> search_ok (filter_sat flds f) res"
proof -
  obtain x ret r where x: "fetch flds (f_field f) = Some (Some x)"
    "FRI_Search x (f_lower f) (f_upper f) (RR_new g1 g2) = Some (ret, r)" "0 \<le> ret"
    "ret = 0 \<longrightarrow> filter_docs flds f = {}"
    "0 < ret \<longrightarrow> rr_inv r \<and> rr_docs r = filter_docs flds f \<and> \<not> rr_not_in r"
    using FRI_Search_filter [OF assms] unfolding search_result_def by blast
  show ?thesis
  proof (cases "0 < ret")
    case True
    then have "rr_sat r = filter_docs flds f" using x(5) by (simp add: rr_sat_def)
    then show ?thesis
      using True x negated [of r]
      by (simp add: search_one_def search_ok_def filter_sat_def MR_Add_def MR_new_def)
  next
    case False
    then have "ret = 0" using x(3) by simp
    then show ?thesis
      using x(1,2,4) by (auto simp: search_one_def search_ok_def filter_sat_def)
  qed
qed

text \<open>The state of the collecting loop against the filters seen so far.\<close>

definition collected_ok :: "int set \<Rightarrow> collected \<Rightarrow> bool" where
  "collected_ok S st \<longleftrightarrow> (case st of (out, results, s, shortest) \<Rightarrow>
     m_text out = [] \<and> (\<forall>r \<in> set (m_results out). rr_inv r) \<and> (\<forall>r \<in> set results. good_result r) \<and>
     (if results = [] then shortest = int_max else 0 \<le> s \<and> s < int (length results)) \<and>
     S = (\<Inter>r \<in> set (m_results out). rr_sat r) \<inter> (\<Inter>r \<in> set results. rr_docs r))"

lemma collect_spec:
  assumes "\<forall>f \<in> set fs. filter_ok flds f \<and> plain flds f" and "collected_ok S st"
  shows "\<exists>c. collect g1 g2 flds fs st = Some c \<and> (case c of
      Inl out \<Rightarrow> S \<inter> (\<Inter>f \<in> set fs. filter_sat flds f) = {}
    | Inr st' \<Rightarrow> collected_ok (S \<inter> (\<Inter>f \<in> set fs. filter_sat flds f)) st')"
  using assms
proof (induction fs arbitrary: S st)
  case Nil
  then show ?case by (cases st) auto
next
  case (Cons f fs)
  obtain out results s shortest where st: "st = (out, results, s, shortest)" by (cases st) auto
  obtain x ret r where x: "fetch flds (f_field f) = Some (Some x)"
    "FRI_Search x (f_lower f) (f_upper f) (RR_new g1 g2) = Some (ret, r)" "0 \<le> ret" "ret < int_max"
    "ret = 0 \<longrightarrow> filter_docs flds f = {}"
    "0 < ret \<longrightarrow> good_result r \<and> rr_inv r \<and> rr_docs r = filter_docs flds f \<and> \<not> rr_not_in r"
    using FRI_Search_filter [of flds f] Cons.prems(1) unfolding search_result_def good_result_def
    by (metis list.set_intros(1))
  have tl: "\<forall>f \<in> set fs. filter_ok flds f \<and> plain flds f" using Cons.prems(1) by simp
  have step: "?case" if "collect g1 g2 flds (f # fs) st = collect g1 g2 flds fs st'"
    and "collected_ok (S \<inter> filter_sat flds f) st'" for st'
  proof -
    have "S \<inter> (\<Inter>g \<in> set (f # fs). filter_sat flds g) =
        S \<inter> filter_sat flds f \<inter> (\<Inter>g \<in> set fs. filter_sat flds g)" by auto
    then show ?thesis unfolding that(1) using Cons.IH [OF tl that(2)] by (simp only:)
  qed
  show ?case
  proof (cases "ret = 0")
    case ret: True
    show ?thesis
    proof (cases "f_op f = FNot")
      case True
      then have "filter_sat flds f = UNIV" using ret x(5) by (simp add: filter_sat_def)
      then show ?thesis using step [of st] Cons.prems(2) x(1,2) ret True by (simp add: st)
    next
      case False
      then have "filter_sat flds f = {}" using ret x(5) by (simp add: filter_sat_def)
      then show ?thesis using x(1,2) ret False by (simp add: st)
    qed
  next
    case False
    then have pos: "0 < ret" and r: "good_result r" "rr_inv r" "rr_docs r = filter_docs flds f" "\<not> rr_not_in r"
      using x(3,6) by auto
    show ?thesis
    proof (cases "f_op f = FNot")
      case True
      have "collected_ok (S \<inter> filter_sat flds f) (MR_Add out (r\<lparr>rr_not_in := True\<rparr>), results, s, shortest)"
        using Cons.prems(2) negated [OF r(2,4)] r(3,4) True
        by (auto simp: st collected_ok_def MR_Add_def filter_sat_def rr_sat_def)
      then show ?thesis using step x(1,2) pos True by (simp add: st)
    next
      case nnot: False
      then have fs: "filter_sat flds f = rr_docs r" by (simp add: filter_sat_def r)
      show ?thesis
      proof (cases "shortest > ret")
        case True
        have "collected_ok (S \<inter> filter_sat flds f) (out, results @ [r], int (length results), ret)"
          using Cons.prems(2) r fs by (auto simp: st collected_ok_def)
        then show ?thesis using step x(1,2) pos nnot True by (simp add: st)
      next
        case False
        then have "results \<noteq> []" using Cons.prems(2) x(4) by (auto simp: st collected_ok_def)
        then have "collected_ok (S \<inter> filter_sat flds f) (out, results @ [r], s, shortest)"
          using Cons.prems(2) r fs by (auto simp: st collected_ok_def)
        then show ?thesis using step x(1,2) pos nnot False by (simp add: st)
      qed
    qed
  qed
qed

lemma finish_spec:
  assumes "collected_ok S (out, results, s, shortest)"
  shows "\<exists>res. (if results = [] then (if m_results out \<noteq> [] then Some (1, out) else Some (-1, out))
      else do { (count, tmp) \<leftarrow> MFR_Intersect results s (RR_new g1 g2);
                Some (count, if count > 0 then MR_Add out tmp else out) }) = Some res \<and> search_ok S res"
proof (cases "results = []")
  case True
  then show ?thesis using assms by (auto simp: collected_ok_def search_ok_def)
next
  case False
  then have c: "\<forall>r \<in> set results. good_result r" "0 \<le> s" "s < int (length results)"
    using assms by (auto simp: collected_ok_def)
  from MFR_Intersect_spec [OF c(1) False c(2,3), of g1 g2] obtain count tmp where
    I: "MFR_Intersect results s (RR_new g1 g2) = Some (count, tmp)" "0 \<le> count"
      "if 0 < count then good_result tmp \<and> rr_docs tmp = (\<Inter>r \<in> set results. rr_docs r)
       else (\<Inter>r \<in> set results. rr_docs r) = {}" by blast
  show ?thesis
  proof (cases "0 < count")
    case True
    then have "rr_sat tmp = (\<Inter>r \<in> set results. rr_docs r)" "rr_inv tmp"
      using I(3) by (auto simp: good_result_def rr_sat_def)
    then show ?thesis
      using False True I(1) assms by (auto simp: search_ok_def collected_ok_def MR_Add_def)
  next
    case c0: False
    then show ?thesis using False I assms by (auto simp: search_ok_def collected_ok_def)
  qed
qed

lemma not_singleton: "\<not> (\<exists>g. gs = [g]) \<Longrightarrow> (case gs of [f] \<Rightarrow> A f | _ \<Rightarrow> B) = B"
  by (auto split: list.splits)

lemma MFR_Search_spec:
  assumes "\<forall>f \<in> set fs. filter_ok flds f"
  shows "\<exists>res. MFR_Search g1 g2 flds fs = Some res \<and> search_ok (\<Inter>f \<in> set fs. filter_sat flds f) res"
proof -
  obtain gs where gs: "expand_filters flds fs [] = Some (Some gs)"
    "\<forall>g \<in> set gs. filter_ok flds g \<and> plain flds g"
    "(\<Inter>f \<in> set fs. filter_sat flds f) = (\<Inter>g \<in> set gs. filter_sat flds g)"
    using expand_filters_spec [OF assms, of "[]"] by auto
  show ?thesis
  proof (cases "\<exists>g. gs = [g]")
    case True
    then show ?thesis using gs search_one_spec by (auto simp: MFR_Search_def)
  next
    case False
    have "collected_ok UNIV (MR_new, [], -1, int_max)"
      by (simp add: collected_ok_def MR_new_def)
    from collect_spec [OF gs(2) this, of g1 g2] obtain c where
      c: "collect g1 g2 flds gs (MR_new, [], -1, int_max) = Some c" and
      ok: "case c of Inl out \<Rightarrow> UNIV \<inter> (\<Inter>f \<in> set gs. filter_sat flds f) = {}
        | Inr st' \<Rightarrow> collected_ok (UNIV \<inter> (\<Inter>f \<in> set gs. filter_sat flds f)) st'" by blast
    have e: "MFR_Search g1 g2 flds fs = (case c of Inl out \<Rightarrow> Some (0, out)
        | Inr (out, results, shortest_idx, shortest) \<Rightarrow>
            if results = [] then (if m_results out \<noteq> [] then Some (1, out) else Some (-1, out))
            else do {
              (count, tmp) \<leftarrow> MFR_Intersect results shortest_idx (RR_new g1 g2);
              Some (count, if count > 0 then MR_Add out tmp else out) })"
      unfolding MFR_Search_def gs(1) Option.bind.bind_lunit option.case not_singleton [OF False] c
      by (cases c) simp_all
    show ?thesis
    proof (cases c)
      case (Inl out)
      then show ?thesis unfolding e gs(3) using ok by (simp add: search_ok_def)
    next
      case (Inr st)
      obtain out results s shortest where st: "st = (out, results, s, shortest)" by (cases st) auto
      show ?thesis unfolding e gs(3) using ok finish_spec Inr st by simp
    qed
  qed
qed

text \<open>Every document is then answered as the conjunction says.\<close>

lemma MFR_Search_Has:
  assumes "\<forall>f \<in> set fs. filter_ok flds f" and "MFR_Search g1 g2 flds fs = Some (ret, out)" "0 < ret"
  shows "MR_Has out d = Some (\<forall>f \<in> set fs. d \<in> filter_sat flds f)"
proof -
  have ok: "m_text out = []" "m_results out \<noteq> []" "\<forall>r \<in> set (m_results out). rr_inv r"
    "(\<Inter>r \<in> set (m_results out). rr_sat r) = (\<Inter>f \<in> set fs. filter_sat flds f)"
    using MFR_Search_spec [OF assms(1), of g1 g2] assms(2,3) by (auto simp: search_ok_def)
  then have "mr_sat out = (\<Inter>f \<in> set fs. filter_sat flds f)" by (simp add: mr_sat_def)
  then show ?thesis using MR_Has_spec [OF ok(3)] ok(1) by simp
qed

end
