(* ===== verification/IndexQueue.thy ===== *)
theory IndexQueue
  imports FieldsSearch
begin

text \<open>
  Keeping the field indexes up to date: \<open>MultiFieldsRangeIndex\<close> (\<open>table/field_range_index.cc\<close>).
  \<open>Add\<close> and \<open>Delete\<close> put an operation on a queue, which the thread \<open>FieldOperateWorker\<close> works off.
  An ADD reads the value from the table when it is worked off, a DELETE carries the value it had
  when it was queued, and \<open>Delete\<close> waits for the queue to be empty first. The worker takes an
  operation off the queue, reads the table and changes the trees in three separate steps, between
  which the engine may go on (\<open>worker_step\<close>); \<open>MFR_Worker\<close> is a turn of the worker in which nothing
  comes between them. \<open>raw\<close> stands for
  \<open>Table::GetFieldRawValue\<close> and \<open>col\<close> for \<open>Table::GetColFieldRawValue\<close>, \<open>None\<close> being a nonzero
  return. An access to \<open>fields_\<close> outside its bounds is \<open>None\<close>.
\<close>

datatype data_type = INT | LONG | FLOAT | DOUBLE | STRING | VECTOR | MULTI_STRING

datatype field_operate = OpAdd int int | OpDelete int int bkey

record mfx =
  mx_flds :: findex
  mx_queue :: "field_operate list"

definition new_mfx :: "nat \<Rightarrow> mfx" where
  "new_mfx fields_num = \<lparr>mx_flds = replicate fields_num None, mx_queue = []\<rparr>"

definition new_frx :: "data_type \<Rightarrow> frx" where
  "new_frx field_type = \<lparr>fx_tree = [], fx_num = (if field_type = STRING then False else True),
     fx_delim = [1]\<rparr>"

definition MFR_AddField :: "mfx \<Rightarrow> int \<Rightarrow> data_type \<Rightarrow> (int \<times> mfx) option" where
  "MFR_AddField m field field_type =
     do { flds \<leftarrow> store (mx_flds m) field (Some (new_frx field_type));
          Some (0, m\<lparr>mx_flds := flds\<rparr>) }"

text \<open>\<open>(size_t)fid\<close> of a negative \<open>fid\<close> exceeds every size; the loop then exhausts memory.\<close>

definition MFR_AddNewField :: "mfx \<Rightarrow> int \<Rightarrow> data_type \<Rightarrow> (int \<times> mfx) option" where
  "MFR_AddNewField m fid field_type =
     (if fid < 0 then None
      else if nat fid < length (mx_flds m) then Some (-1, m)
      else let flds = mx_flds m @ replicate (nat fid + 1 - length (mx_flds m)) None in
        Some (0, m\<lparr>mx_flds := flds[nat fid := Some (new_frx field_type)]\<rparr>))"

definition MFR_Add :: "mfx \<Rightarrow> int \<Rightarrow> int \<Rightarrow> (int \<times> mfx) option" where
  "MFR_Add m docid field =
     (if field < 0 then Some (-1, m)
      else do {
        ix \<leftarrow> fetch (mx_flds m) field;
        case ix of None \<Rightarrow> Some (0, m)
        | Some x \<Rightarrow> Some (0, m\<lparr>mx_queue := mx_queue m @ [OpAdd docid field]\<rparr>) })"

text \<open>The body of \<open>Delete\<close>; its wait for an empty queue is a guard of the step relation below.\<close>

definition MFR_Delete :: "(int \<Rightarrow> int \<Rightarrow> bkey option) \<Rightarrow> mfx \<Rightarrow> int \<Rightarrow> int \<Rightarrow> (int \<times> mfx) option" where
  "MFR_Delete raw m docid field =
     do {
       ix \<leftarrow> fetch (mx_flds m) field;
       case ix of None \<Rightarrow> Some (0, m)
       | Some x \<Rightarrow>
           let value = (case raw docid field of None \<Rightarrow> [] | Some v \<Rightarrow> v) in
           Some (0, m\<lparr>mx_queue := mx_queue m @ [OpDelete docid field value]\<rparr>) }"

fun add_keys :: "frx \<Rightarrow> bkey list \<Rightarrow> int \<Rightarrow> frx option" where
  "add_keys x [] docid = Some x"
| "add_keys x (k # ks) docid = do { (r, x') \<leftarrow> FRI_Add x k docid; add_keys x' ks docid }"

definition MFR_AddDoc :: "(int \<Rightarrow> int \<Rightarrow> bkey option) \<Rightarrow> (int \<Rightarrow> int \<Rightarrow> bkey list option) \<Rightarrow>
    findex \<Rightarrow> int \<Rightarrow> int \<Rightarrow> (int \<times> findex) option" where
  "MFR_AddDoc raw col flds docid field =
     do {
       ix \<leftarrow> fetch flds field;
       case ix of None \<Rightarrow> Some (0, flds)
       | Some x \<Rightarrow>
           (case raw docid field of
              Some key \<Rightarrow> do { (r, x') \<leftarrow> FRI_Add x key docid; flds' \<leftarrow> store flds field (Some x'); Some (0, flds') }
            | None \<Rightarrow>
                (case col docid field of None \<Rightarrow> Some (-1, flds)
                 | Some keys \<Rightarrow> do { x' \<leftarrow> add_keys x keys docid; flds' \<leftarrow> store flds field (Some x');
                                   Some (0, flds') })) }"

text \<open>The two parts of \<open>AddDoc\<close>, in this order: reading the table and adding the keys to the tree.\<close>

definition read_doc :: "(int \<Rightarrow> int \<Rightarrow> bkey option) \<Rightarrow> (int \<Rightarrow> int \<Rightarrow> bkey list option) \<Rightarrow>
    int \<Rightarrow> int \<Rightarrow> bkey list option" where
  "read_doc raw col docid field =
     (case raw docid field of Some key \<Rightarrow> Some [key] | None \<Rightarrow> col docid field)"

definition MFR_PutDoc :: "findex \<Rightarrow> int \<Rightarrow> int \<Rightarrow> bkey list option \<Rightarrow> (int \<times> findex) option" where
  "MFR_PutDoc flds docid field found =
     do {
       ix \<leftarrow> fetch flds field;
       case ix of None \<Rightarrow> Some (0, flds)
       | Some x \<Rightarrow>
           (case found of None \<Rightarrow> Some (-1, flds)
            | Some keys \<Rightarrow> do { x' \<leftarrow> add_keys x keys docid; flds' \<leftarrow> store flds field (Some x'); Some (0, flds') }) }"

lemma MFR_AddDoc_parts: "MFR_AddDoc raw col flds d f = MFR_PutDoc flds d f (read_doc raw col d f)"
proof -
  have "do { (r, x') \<leftarrow> FRI_Add x k d; flds' \<leftarrow> store flds f (Some x'); Some (0::int, flds') } =
      do { x' \<leftarrow> add_keys x [k] d; flds' \<leftarrow> store flds f (Some x'); Some (0, flds') }" for x k
    by (cases "FRI_Add x k d") auto
  then show ?thesis
    by (simp add: MFR_AddDoc_def MFR_PutDoc_def read_doc_def split: option.split cong: option.case_cong)
qed

definition MFR_DeleteDoc :: "findex \<Rightarrow> int \<Rightarrow> int \<Rightarrow> bkey \<Rightarrow> (int \<times> findex) option" where
  "MFR_DeleteDoc flds docid field key =
     do {
       ix \<leftarrow> fetch flds field;
       case ix of None \<Rightarrow> Some (0, flds)
       | Some x \<Rightarrow>
           if length key = 0 then Some (-1, flds)
           else do { (r, x') \<leftarrow> FRI_Delete x key docid; flds' \<leftarrow> store flds field (Some x'); Some (0, flds') } }"

text \<open>
  One turn of \<open>FieldOperateWorker\<close> that the engine does not disturb; with an empty queue it sleeps.
\<close>

definition MFR_Worker :: "(int \<Rightarrow> int \<Rightarrow> bkey option) \<Rightarrow> (int \<Rightarrow> int \<Rightarrow> bkey list option) \<Rightarrow> mfx \<Rightarrow> mfx option" where
  "MFR_Worker raw col m =
     (case mx_queue m of [] \<Rightarrow> Some m
      | op # q \<Rightarrow> do {
          (r, flds) \<leftarrow> (case op of
              OpAdd docid field \<Rightarrow> MFR_AddDoc raw col (mx_flds m) docid field
            | OpDelete docid field value \<Rightarrow> MFR_DeleteDoc (mx_flds m) docid field value);
          Some (m\<lparr>mx_flds := flds, mx_queue := q\<rparr>) })"

text \<open>\<open>sizeof(FieldRangeIndex)\<close> depends on the library's types: a parameter.\<close>

fun fields_memory :: "int \<Rightarrow> findex \<Rightarrow> int \<Rightarrow> int \<Rightarrow> int \<Rightarrow> int \<times> int \<times> int" where
  "fields_memory sz [] tot dense sparse = (tot, dense, sparse)"
| "fields_memory sz (None # fs) tot dense sparse = fields_memory sz fs tot dense sparse"
| "fields_memory sz (Some x # fs) tot dense sparse =
     (case FRI_ScanMemory x dense sparse of (t, d, s) \<Rightarrow> fields_memory sz fs (tot + t + sz) d s)"

definition MFR_MemorySize :: "int \<Rightarrow> mfx \<Rightarrow> int \<Rightarrow> int \<Rightarrow> int \<times> int \<times> int" where
  "MFR_MemorySize sz m dense sparse = fields_memory sz (mx_flds m) 0 dense sparse"

subsection \<open>Postings of all fields\<close>

type_synonym postings = "int \<Rightarrow> bkey \<Rightarrow> int set"

definition flds_docs :: "findex \<Rightarrow> postings" where
  "flds_docs flds f k = (case fetch flds f of Some (Some x) \<Rightarrow> frx_docs x k | _ \<Rightarrow> {})"

definition flds_keys :: "findex \<Rightarrow> int \<Rightarrow> bkey \<Rightarrow> bkey list option" where
  "flds_keys flds f v = (case fetch flds f of Some (Some x) \<Rightarrow> frx_keys x v | _ \<Rightarrow> None)"

definition flds_ok :: "findex \<Rightarrow> bool" where
  "flds_ok flds \<longleftrightarrow> (\<forall>x. Some x \<in> set flds \<longrightarrow> frx_ok x)"

lemma flds_okD: "flds_ok flds \<Longrightarrow> fetch flds f = Some (Some x) \<Longrightarrow> frx_ok x"
  by (auto simp: flds_ok_def fetch_Some_iff) (metis nth_mem nat_less_iff)

text \<open>What an operation does to the postings, and when it can be worked off.\<close>

definition post_in :: "int \<Rightarrow> bkey list \<Rightarrow> int \<Rightarrow> postings \<Rightarrow> postings" where
  "post_in f ks d P = (\<lambda>f' k. if f' = f \<and> k \<in> set ks then insert d (P f' k) else P f' k)"

definition post_out :: "int \<Rightarrow> bkey list \<Rightarrow> int \<Rightarrow> postings \<Rightarrow> postings" where
  "post_out f ks d P = (\<lambda>f' k. if f' = f \<and> k \<in> set ks then P f' k - {d} else P f' k)"

lemma store_field:
  assumes "fetch flds f = Some (Some x)" "frx_ok x'" "flds_ok flds"
    and "fx_num x' = fx_num x" "fx_delim x' = fx_delim x"
  shows "\<exists>flds'. store flds f (Some x') = Some flds' \<and> flds_ok flds' \<and> flds_keys flds' = flds_keys flds \<and>
    flds_docs flds' = (flds_docs flds)(f := frx_docs x')"
proof -
  have b: "0 \<le> f" "nat f < length flds" "flds ! nat f = Some x"
    using assms(1) by (auto simp: fetch_Some_iff)
  then have s: "store flds f (Some x') = Some (flds[nat f := Some x'])" by (simp add: store_def)
  have fe: "fetch (flds[nat f := Some x']) g = (if g = f then Some (Some x') else fetch flds g)" for g
    using b by (auto simp: fetch_def nth_list_update nat_eq_iff2)
  have "frx_keys x' = frx_keys x" using assms(4,5) by (simp add: frx_keys_def fun_eq_iff)
  then have "flds_keys (flds[nat f := Some x']) = flds_keys flds"
    using assms(1) by (auto simp: flds_keys_def fe fun_eq_iff)
  moreover have "flds_docs (flds[nat f := Some x']) = (flds_docs flds)(f := frx_docs x')"
    by (auto simp: flds_docs_def fe fun_eq_iff)
  moreover have "flds_ok (flds[nat f := Some x'])"
    using assms(2,3) set_update_subset_insert [of flds "nat f" "Some x'"] by (auto simp: flds_ok_def)
  ultimately show ?thesis using s by blast
qed

lemma MFR_AddDoc_spec:
  assumes ok: "flds_ok flds" and v: "raw d f = Some v" and ks: "flds_keys flds f v = Some ks" "distinct ks"
    and d: "docid_ok d" "\<forall>k \<in> set ks. d \<notin> flds_docs flds f k"
  shows "\<exists>flds'. MFR_AddDoc raw col flds d f = Some (0, flds') \<and> flds_ok flds' \<and>
    flds_keys flds' = flds_keys flds \<and> flds_docs flds' = post_in f ks d (flds_docs flds)"
proof -
  obtain x where x: "fetch flds f = Some (Some x)" "frx_keys x v = Some ks"
    using ks(1) by (auto simp: flds_keys_def split: option.splits)
  have dx: "\<forall>k \<in> set ks. d \<notin> frx_docs x k" using d(2) x(1) by (simp add: flds_docs_def)
  obtain t where t: "FRI_Add x v d = Some (0, x\<lparr>fx_tree := t\<rparr>)" "fi.index_ok t"
    "\<forall>k. fi.docs_at t k = (if k \<in> set ks then insert d (frx_docs x k) else frx_docs x k)"
    using FRI_Add_spec [OF flds_okD [OF ok x(1)] x(2) ks(2) d(1) dx] by blast
  obtain flds' where s: "store flds f (Some (x\<lparr>fx_tree := t\<rparr>)) = Some flds'" "flds_ok flds'"
    "flds_keys flds' = flds_keys flds" "flds_docs flds' = (flds_docs flds)(f := frx_docs (x\<lparr>fx_tree := t\<rparr>))"
    using store_field [OF x(1) _ ok, of "x\<lparr>fx_tree := t\<rparr>"] t(2) by (auto simp: frx_ok_def)
  have "flds_docs flds' = post_in f ks d (flds_docs flds)"
    using x(1) t(3) by (auto simp: s(4) post_in_def fun_eq_iff flds_docs_def)
  then show ?thesis using s x(1) v t(1) by (simp add: MFR_AddDoc_def)
qed

lemma MFR_DeleteDoc_spec:
  assumes ok: "flds_ok flds" and ks: "flds_keys flds f v = Some ks" "distinct ks"
    and d: "\<forall>k \<in> set ks. d \<in> flds_docs flds f k"
  shows "\<exists>r flds'. MFR_DeleteDoc flds d f v = Some (r, flds') \<and> flds_ok flds' \<and>
    flds_keys flds' = flds_keys flds \<and> flds_docs flds' = post_out f ks d (flds_docs flds)"
proof -
  obtain x where x: "fetch flds f = Some (Some x)" "frx_keys x v = Some ks"
    using ks(1) by (auto simp: flds_keys_def split: option.splits)
  show ?thesis
  proof (cases "v = []")
    case True
    have "tokens (fx_delim x) [] = []" by (subst tokens.simps) simp
    then have "ks = []" using x(2) True
      by (auto simp: frx_keys_def ReverseEndian_def strtok_all_def split: if_splits)
    then show ?thesis using True x(1) ok by (simp add: MFR_DeleteDoc_def post_out_def)
  next
    case False
    have dx: "\<forall>k \<in> set ks. d \<in> frx_docs x k" using d x(1) by (simp add: flds_docs_def)
    obtain t where t: "FRI_Delete x v d = Some (0, x\<lparr>fx_tree := t\<rparr>)" "fi.index_ok t"
      "\<forall>k. fi.docs_at t k = (if k \<in> set ks then frx_docs x k - {d} else frx_docs x k)"
      using FRI_Delete_spec [OF flds_okD [OF ok x(1)] x(2) ks(2) dx] by blast
    obtain flds' where s: "store flds f (Some (x\<lparr>fx_tree := t\<rparr>)) = Some flds'" "flds_ok flds'"
      "flds_keys flds' = flds_keys flds" "flds_docs flds' = (flds_docs flds)(f := frx_docs (x\<lparr>fx_tree := t\<rparr>))"
      using store_field [OF x(1) _ ok, of "x\<lparr>fx_tree := t\<rparr>"] t(2) by (auto simp: frx_ok_def)
    have "flds_docs flds' = post_out f ks d (flds_docs flds)"
      using x(1) t(3) by (auto simp: s(4) post_out_def fun_eq_iff flds_docs_def)
    then show ?thesis using s x(1) False t(1) by (simp add: MFR_DeleteDoc_def)
  qed
qed

subsection \<open>The engine, the table and the worker, interleaved\<close>

text \<open>
  The index, what the worker has in hand, the values of the table, and which pairs of a document and a
  field are indexed. The worker has taken an operation off the queue (\<open>Popped\<close>), or has read the
  value for an ADD as well (\<open>Fetched\<close>), or neither.
\<close>

datatype worker = Idle | Popped field_operate | Fetched int int "bkey list option"

record sys =
  s_m :: mfx
  s_hand :: worker
  s_tbl :: "int \<Rightarrow> int \<Rightarrow> bkey option"
  s_cur :: "(int \<times> int) set"

definition good_value :: "findex \<Rightarrow> int \<Rightarrow> bkey \<Rightarrow> bool" where
  "good_value flds f v \<longleftrightarrow> (case flds_keys flds f v of None \<Rightarrow> False | Some ks \<Rightarrow> distinct ks)"

abbreviation no_col :: "int \<Rightarrow> int \<Rightarrow> bkey list option" where "no_col \<equiv> \<lambda>d f. None"

text \<open>The next step of \<open>FieldOperateWorker\<close>: take an operation, read the table, change the tree.\<close>

definition worker_step :: "sys \<Rightarrow> sys option" where
  "worker_step s =
     (case s_hand s of
        Idle \<Rightarrow> (case mx_queue (s_m s) of [] \<Rightarrow> Some s
                 | op # q \<Rightarrow> Some (s\<lparr>s_m := (s_m s)\<lparr>mx_queue := q\<rparr>, s_hand := Popped op\<rparr>))
      | Popped (OpAdd d f) \<Rightarrow> do {
          ix \<leftarrow> fetch (mx_flds (s_m s)) f;
          case ix of None \<Rightarrow> Some (s\<lparr>s_hand := Idle\<rparr>)
          | Some x \<Rightarrow> Some (s\<lparr>s_hand := Fetched d f (read_doc (s_tbl s) no_col d f)\<rparr>) }
      | Popped (OpDelete d f v) \<Rightarrow> do {
          (r, flds) \<leftarrow> MFR_DeleteDoc (mx_flds (s_m s)) d f v;
          Some (s\<lparr>s_m := (s_m s)\<lparr>mx_flds := flds\<rparr>, s_hand := Idle\<rparr>) }
      | Fetched d f found \<Rightarrow> do {
          (r, flds) \<leftarrow> MFR_PutDoc (mx_flds (s_m s)) d f found;
          Some (s\<lparr>s_m := (s_m s)\<lparr>mx_flds := flds\<rparr>, s_hand := Idle\<rparr>) })"

fun worker_steps :: "nat \<Rightarrow> sys \<Rightarrow> sys option" where
  "worker_steps 0 s = Some s"
| "worker_steps (Suc n) s = do { s' \<leftarrow> worker_step s; worker_steps n s' }"

text \<open>
  The engine adds a document's value once it is in the table, and before it changes a value or
  deletes a document it deletes the old value from the index (\<open>GammaEngine::AddOrUpdate\<close>,
  \<open>Update\<close> and \<open>Delete\<close>). \<open>Delete\<close> waits for an empty queue, which says nothing about the operation
  that the worker has in hand.
\<close>

inductive sstep :: "sys \<Rightarrow> sys \<Rightarrow> bool" where
  engine_write: "(d, f) \<notin> s_cur s \<Longrightarrow>
    sstep s (s\<lparr>s_tbl := (s_tbl s)(d := (s_tbl s d)(f := Some v))\<rparr>)"
| engine_add: "(d, f) \<notin> s_cur s \<Longrightarrow> docid_ok d \<Longrightarrow> s_tbl s d f = Some v \<Longrightarrow>
    good_value (mx_flds (s_m s)) f v \<Longrightarrow> MFR_Add (s_m s) d f = Some (0, m) \<Longrightarrow>
    sstep s (s\<lparr>s_m := m, s_cur := insert (d, f) (s_cur s)\<rparr>)"
| engine_delete: "(d, f) \<in> s_cur s \<Longrightarrow> mx_queue (s_m s) = [] \<Longrightarrow>
    MFR_Delete (s_tbl s) (s_m s) d f = Some (0, m) \<Longrightarrow>
    sstep s (s\<lparr>s_m := m, s_cur := s_cur s - {(d, f)}\<rparr>)"
| worker_moves: "worker_step s = Some s' \<Longrightarrow> sstep s s'"

text \<open>
  Nothing in the code keeps the engine from changing a value between the moment in which the worker
  takes its ADD and the moment in which it reads it. A step is calm when it does not do that.
\<close>

definition calm :: "sys \<Rightarrow> sys \<Rightarrow> bool" where
  "calm s s' \<longleftrightarrow> (case s_hand s of Popped (OpAdd d f) \<Rightarrow> s_tbl s' d f = s_tbl s d f | _ \<Rightarrow> True)"

inductive reachable :: "sys \<Rightarrow> sys \<Rightarrow> bool" for s0 where
  start: "reachable s0 s0"
| move: "reachable s0 s \<Longrightarrow> sstep s s' \<Longrightarrow> calm s s' \<Longrightarrow> reachable s0 s'"

inductive_cases sstepE: "sstep s s'"

lemma reachable_trans: "reachable a b \<Longrightarrow> reachable b c \<Longrightarrow> reachable a c"
  by (rotate_tac, induction rule: reachable.induct) (auto intro: reachable.move)

lemma worker_step_frame: "worker_step s = Some s' \<Longrightarrow> s_tbl s' = s_tbl s \<and> s_cur s' = s_cur s"
  by (auto simp: worker_step_def bind_eq_Some_conv split: worker.splits list.splits field_operate.splits option.splits)

lemma worker_steps_reach: "worker_steps n s = Some s' \<Longrightarrow> reachable s s'"
proof (induction n arbitrary: s)
  case (Suc n)
  then obtain s1 where s1: "worker_step s = Some s1" "worker_steps n s1 = Some s'"
    by (auto simp: bind_eq_Some_conv)
  have "calm s s1" using worker_step_frame [OF s1(1)] by (simp add: calm_def split: worker.split field_operate.split)
  then have "reachable s s1" using worker_moves [OF s1(1)] by (intro reachable.move [OF reachable.start])
  then show ?case using Suc.IH [OF s1(2)] by (rule reachable_trans)
qed (simp add: reachable.start)

text \<open>The postings after the queue, when every operation of it can be worked off.\<close>

fun drained :: "(int \<Rightarrow> int \<Rightarrow> bkey option) \<Rightarrow> (int \<Rightarrow> bkey \<Rightarrow> bkey list option) \<Rightarrow>
    field_operate list \<Rightarrow> postings \<Rightarrow> postings option" where
  "drained tbl K [] P = Some P"
| "drained tbl K (OpAdd d f # q) P =
     (case tbl d f of None \<Rightarrow> None
      | Some v \<Rightarrow> (case K f v of None \<Rightarrow> None
          | Some ks \<Rightarrow> if distinct ks \<and> docid_ok d \<and> (\<forall>k \<in> set ks. d \<notin> P f k)
                      then drained tbl K q (post_in f ks d P) else None))"
| "drained tbl K (OpDelete d f v # q) P =
     (case K f v of None \<Rightarrow> None
      | Some ks \<Rightarrow> if distinct ks \<and> (\<forall>k \<in> set ks. d \<in> P f k)
                  then drained tbl K q (post_out f ks d P) else None)"

lemma drained_append:
  "drained tbl K (p @ q) P = (case drained tbl K p P of None \<Rightarrow> None | Some P' \<Rightarrow> drained tbl K q P')"
  by (induction tbl K p P rule: drained.induct) (auto split: option.splits)

text \<open>What the index is to hold: the documents whose current value has the key.\<close>

definition wanted :: "(int \<times> int) set \<Rightarrow> (int \<Rightarrow> int \<Rightarrow> bkey option) \<Rightarrow> findex \<Rightarrow> postings" where
  "wanted cur tbl flds f k =
     {d. (d, f) \<in> cur \<and> (\<exists>v ks. tbl d f = Some v \<and> flds_keys flds f v = Some ks \<and> k \<in> set ks)}"

text \<open>The postings after the operation in hand; a value that has been read is used as it was read.\<close>

fun handed :: "(int \<Rightarrow> int \<Rightarrow> bkey option) \<Rightarrow> (int \<Rightarrow> bkey \<Rightarrow> bkey list option) \<Rightarrow>
    worker \<Rightarrow> postings \<Rightarrow> postings option" where
  "handed tbl K Idle P = Some P"
| "handed tbl K (Popped op) P = drained tbl K [op] P"
| "handed tbl K (Fetched d f (Some [v])) P = drained (\<lambda>_ _. Some v) K [OpAdd d f] P"
| "handed tbl K (Fetched d f _) P = None"

definition pending :: "sys \<Rightarrow> postings option" where
  "pending s = do {
     P \<leftarrow> handed (s_tbl s) (flds_keys (mx_flds (s_m s))) (s_hand s) (flds_docs (mx_flds (s_m s)));
     drained (s_tbl s) (flds_keys (mx_flds (s_m s))) (mx_queue (s_m s)) P }"

definition sys_inv :: "sys \<Rightarrow> bool" where
  "sys_inv s \<longleftrightarrow> flds_ok (mx_flds (s_m s)) \<and>
     pending s = Some (wanted (s_cur s) (s_tbl s) (mx_flds (s_m s))) \<and>
     (\<forall>(d, f) \<in> s_cur s. docid_ok d \<and> (\<exists>v. s_tbl s d f = Some v \<and> good_value (mx_flds (s_m s)) f v)) \<and>
     (\<forall>d f. OpAdd d f \<in> set (mx_queue (s_m s)) \<longrightarrow> (d, f) \<in> s_cur s)"

lemma wanted_keys: "flds_keys a = flds_keys b \<Longrightarrow> wanted cur tbl a = wanted cur tbl b"
  by (simp add: wanted_def fun_eq_iff)

lemma good_value_keys: "flds_keys a = flds_keys b \<Longrightarrow> good_value a = good_value b"
  by (simp add: good_value_def fun_eq_iff)

lemma drained_cong:
  "\<forall>d f. OpAdd d f \<in> set q \<longrightarrow> tbl' d f = tbl d f \<Longrightarrow> drained tbl' K q P = drained tbl K q P"
proof (induction tbl K q P rule: drained.induct)
  case (2 tbl K d f q P)
  then have "tbl' d f = tbl d f" by simp
  then show ?case using 2 by (simp split: option.split)
next
  case (3 tbl K d f v q P)
  then show ?case by (simp split: option.split)
qed simp

lemma wanted_cong: "\<forall>(d, f) \<in> cur. tbl' d f = tbl d f \<Longrightarrow> wanted cur tbl' flds = wanted cur tbl flds"
  by (fastforce simp: wanted_def fun_eq_iff)

lemma drained_one: "tbl d f = Some v \<Longrightarrow> drained tbl K [OpAdd d f] P = drained (\<lambda>_ _. Some v) K [OpAdd d f] P"
  by (simp split: option.split)

lemma handed_cong:
  assumes "case h of Popped (OpAdd d f) \<Rightarrow> tbl' d f = tbl d f | _ \<Rightarrow> True"
  shows "handed tbl' K h P = handed tbl K h P"
proof (cases h)
  case (Popped op)
  then have "drained tbl' K [op] P = drained tbl K [op] P"
    using assms by (intro drained_cong) (auto split: field_operate.splits)
  then show ?thesis using Popped by simp
next
  case (Fetched d f found)
  then show ?thesis by (cases "(tbl, K, Fetched d f found, P)" rule: handed.cases) simp_all
qed simp

lemma inv_write:
  assumes inv: "sys_inv s" and tbl: "\<forall>(d, f) \<in> s_cur s. tbl d f = s_tbl s d f"
    and hand: "case s_hand s of Popped (OpAdd d f) \<Rightarrow> tbl d f = s_tbl s d f | _ \<Rightarrow> True"
  shows "sys_inv (s\<lparr>s_tbl := tbl\<rparr>)"
proof -
  have "\<forall>d f. OpAdd d f \<in> set (mx_queue (s_m s)) \<longrightarrow> tbl d f = s_tbl s d f"
    using inv tbl by (fastforce simp: sys_inv_def)
  note dc = drained_cong [OF this]
  have "\<forall>(d, f) \<in> s_cur s. docid_ok d \<and> (\<exists>v. tbl d f = Some v \<and> good_value (mx_flds (s_m s)) f v)"
    using inv tbl by (fastforce simp: sys_inv_def)
  then show ?thesis
    using inv by (simp add: sys_inv_def pending_def dc handed_cong [OF hand] wanted_cong [OF tbl])
qed

lemma pending_queue:
  "pending (s\<lparr>s_m := (s_m s)\<lparr>mx_queue := mx_queue (s_m s) @ q\<rparr>\<rparr>) =
     (case pending s of None \<Rightarrow> None | Some P \<Rightarrow> drained (s_tbl s) (flds_keys (mx_flds (s_m s))) q P)"
  by (simp add: pending_def drained_append split: bind_splits option.split)

lemma pending_cur [simp]: "pending (s\<lparr>s_cur := c\<rparr>) = pending s"
  by (simp add: pending_def)

lemma inv_add:
  assumes inv: "sys_inv s" and new: "(d, f) \<notin> s_cur s" "docid_ok d" "s_tbl s d f = Some v"
    "good_value (mx_flds (s_m s)) f v" "MFR_Add (s_m s) d f = Some (0, m)"
  shows "sys_inv (s\<lparr>s_m := m, s_cur := insert (d, f) (s_cur s)\<rparr>)"
proof -
  let ?F = "mx_flds (s_m s)" and ?W = "wanted (s_cur s) (s_tbl s) (mx_flds (s_m s))"
  obtain ks where ks: "flds_keys ?F f v = Some ks" "distinct ks"
    using new(4) by (auto simp: good_value_def split: option.splits)
  then have m: "m = (s_m s)\<lparr>mx_queue := mx_queue (s_m s) @ [OpAdd d f]\<rparr>"
    using new(5) by (auto simp: MFR_Add_def flds_keys_def split: option.splits if_splits bind_splits)
  have "d \<notin> ?W f k" for k using new(1) by (simp add: wanted_def)
  then have "pending (s\<lparr>s_m := m\<rparr>) = Some (post_in f ks d ?W)"
    using inv new ks unfolding m pending_queue by (simp add: sys_inv_def)
  moreover have "post_in f ks d ?W = wanted (insert (d, f) (s_cur s)) (s_tbl s) ?F"
    using new(3) ks(1) by (auto simp: post_in_def wanted_def fun_eq_iff)
  ultimately show ?thesis using inv new by (auto simp: sys_inv_def m)
qed

lemma inv_delete:
  assumes inv: "sys_inv s" and cur: "(d, f) \<in> s_cur s" "mx_queue (s_m s) = []"
    "MFR_Delete (s_tbl s) (s_m s) d f = Some (0, m)"
  shows "sys_inv (s\<lparr>s_m := m, s_cur := s_cur s - {(d, f)}\<rparr>)"
proof -
  let ?F = "mx_flds (s_m s)" and ?W = "wanted (s_cur s) (s_tbl s) (mx_flds (s_m s))"
  obtain v where v: "s_tbl s d f = Some v" "good_value ?F f v"
    using inv cur(1) by (auto simp: sys_inv_def)
  obtain ks where ks: "flds_keys ?F f v = Some ks" "distinct ks"
    using v(2) by (auto simp: good_value_def split: option.splits)
  then have m: "m = (s_m s)\<lparr>mx_queue := mx_queue (s_m s) @ [OpDelete d f v]\<rparr>"
    using cur v(1) by (auto simp: MFR_Delete_def flds_keys_def split: option.splits if_splits bind_splits)
  have "\<forall>k \<in> set ks. d \<in> ?W f k" using cur(1) v(1) ks(1) by (auto simp: wanted_def)
  then have "pending (s\<lparr>s_m := m\<rparr>) = Some (post_out f ks d ?W)"
    using inv ks unfolding m pending_queue by (simp add: sys_inv_def)
  moreover have "post_out f ks d ?W = wanted (s_cur s - {(d, f)}) (s_tbl s) ?F"
    using v(1) ks(1) by (auto simp: post_out_def wanted_def fun_eq_iff)
  ultimately show ?thesis using inv cur(2) by (auto simp: sys_inv_def m)
qed

text \<open>Working off one operation.\<close>

lemma put_ok:
  assumes "flds_ok F" "drained (\<lambda>_ _. Some v) (flds_keys F) [OpAdd d f] (flds_docs F) = Some P"
  shows "\<exists>F'. MFR_PutDoc F d f (Some [v]) = Some (0, F') \<and> flds_ok F' \<and> flds_keys F' = flds_keys F \<and> flds_docs F' = P"
proof -
  obtain ks where ks: "flds_keys F f v = Some ks" "distinct ks" "docid_ok d" "\<forall>k \<in> set ks. d \<notin> flds_docs F f k"
    "post_in f ks d (flds_docs F) = P"
    using assms(2) by (auto split: option.splits if_splits)
  from MFR_AddDoc_spec [where raw = "\<lambda>_ _. Some v" and col = no_col, OF assms(1) refl ks(1-4)] ks(5)
  show ?thesis by (simp add: MFR_AddDoc_parts read_doc_def)
qed

lemma del_ok:
  assumes "flds_ok F" "drained tbl (flds_keys F) [OpDelete d f v] (flds_docs F) = Some P"
  shows "\<exists>r F'. MFR_DeleteDoc F d f v = Some (r, F') \<and> flds_ok F' \<and> flds_keys F' = flds_keys F \<and> flds_docs F' = P"
proof -
  obtain ks where ks: "flds_keys F f v = Some ks" "distinct ks" "\<forall>k \<in> set ks. d \<in> flds_docs F f k"
    "post_out f ks d (flds_docs F) = P"
    using assms(2) by (auto split: option.splits if_splits)
  from MFR_DeleteDoc_spec [OF assms(1) ks(1-3)] ks(4) show ?thesis by simp
qed

lemma inv_fields:
  assumes inv: "sys_inv s" and F: "flds_ok F" "flds_keys F = flds_keys (mx_flds (s_m s))"
    and P: "handed (s_tbl s) (flds_keys F) (s_hand s) (flds_docs (mx_flds (s_m s))) = Some (flds_docs F)"
  shows "sys_inv (s\<lparr>s_m := (s_m s)\<lparr>mx_flds := F\<rparr>, s_hand := Idle\<rparr>)"
proof -
  have "pending (s\<lparr>s_m := (s_m s)\<lparr>mx_flds := F\<rparr>, s_hand := Idle\<rparr>) = pending s"
    using P F(2) by (simp add: pending_def)
  then show ?thesis using inv F wanted_keys [OF F(2)] good_value_keys [OF F(2)] by (simp add: sys_inv_def)
qed

text \<open>How much the worker has still to do: three steps for an ADD, two for a DELETE.\<close>

definition todo :: "sys \<Rightarrow> nat" where
  "todo s = 3 * length (mx_queue (s_m s)) + (case s_hand s of Idle \<Rightarrow> 0 | Popped op \<Rightarrow> 2 | Fetched d f ks \<Rightarrow> 1)"

lemma todo_0: "todo s = 0 \<longleftrightarrow> s_hand s = Idle \<and> mx_queue (s_m s) = []"
  by (auto simp: todo_def split: worker.split)

lemma worker_step_ok:
  assumes inv: "sys_inv s"
  shows "\<exists>s'. worker_step s = Some s' \<and> sys_inv s' \<and> flds_keys (mx_flds (s_m s')) = flds_keys (mx_flds (s_m s)) \<and>
    todo s' \<le> todo s - 1"
proof (cases "s_hand s")
  case Idle
  then show ?thesis
  proof (cases "mx_queue (s_m s)")
    case Nil
    then show ?thesis using inv Idle by (simp add: worker_step_def todo_def)
  next
    case (Cons op q)
    let ?s = "s\<lparr>s_m := (s_m s)\<lparr>mx_queue := q\<rparr>, s_hand := Popped op\<rparr>"
    have "pending ?s = pending s"
      using Idle Cons drained_append [of _ _ "[op]" q] by (simp add: pending_def split: bind_splits option.split)
    then have "sys_inv ?s" using inv Cons by (simp add: sys_inv_def)
    then show ?thesis using Idle Cons by (simp add: worker_step_def todo_def)
  qed
next
  case (Popped op)
  let ?F = "mx_flds (s_m s)"
  obtain P where P: "drained (s_tbl s) (flds_keys ?F) [op] (flds_docs ?F) = Some P"
    using inv Popped by (auto simp: sys_inv_def pending_def bind_eq_Some_conv)
  have ok: "flds_ok ?F" using inv by (simp add: sys_inv_def)
  show ?thesis
  proof (cases op)
    case (OpAdd d f)
    obtain v ks where v: "s_tbl s d f = Some v" "flds_keys ?F f v = Some ks"
      using P OpAdd by (auto split: option.splits)
    then obtain x where x: "fetch ?F f = Some (Some x)" by (auto simp: flds_keys_def split: option.splits)
    let ?s = "s\<lparr>s_hand := Fetched d f (Some [v])\<rparr>"
    have "pending ?s = pending s"
      using Popped OpAdd drained_one [of "s_tbl s", OF v(1)] by (simp add: pending_def del: drained.simps(2))
    then have "sys_inv ?s" using inv by (simp add: sys_inv_def)
    moreover have "worker_step s = Some ?s" using Popped OpAdd x v(1) by (simp add: worker_step_def read_doc_def)
    ultimately show ?thesis using Popped by (simp add: todo_def)
  next
    case (OpDelete d f v)
    obtain r F where F: "MFR_DeleteDoc ?F d f v = Some (r, F)" "flds_ok F" "flds_keys F = flds_keys ?F" "flds_docs F = P"
      using del_ok [OF ok, of "s_tbl s" d f v P] P OpDelete by blast
    then have "sys_inv (s\<lparr>s_m := (s_m s)\<lparr>mx_flds := F\<rparr>, s_hand := Idle\<rparr>)"
      using Popped P by (intro inv_fields [OF inv]) simp_all
    then show ?thesis using F(1,3) Popped OpDelete by (simp add: worker_step_def todo_def)
  qed
next
  case (Fetched d f found)
  let ?F = "mx_flds (s_m s)"
  obtain P where P: "handed (s_tbl s) (flds_keys ?F) (s_hand s) (flds_docs ?F) = Some P"
    using inv by (auto simp: sys_inv_def pending_def bind_eq_Some_conv)
  then obtain v where v: "found = Some [v]"
    using Fetched by (cases "(s_tbl s, flds_keys ?F, s_hand s, flds_docs ?F)" rule: handed.cases) auto
  have ok: "flds_ok ?F" using inv by (simp add: sys_inv_def)
  obtain F where F: "MFR_PutDoc ?F d f (Some [v]) = Some (0, F)" "flds_ok F" "flds_keys F = flds_keys ?F" "flds_docs F = P"
    using put_ok [OF ok, of v d f P] P Fetched v by auto
  then have "sys_inv (s\<lparr>s_m := (s_m s)\<lparr>mx_flds := F\<rparr>, s_hand := Idle\<rparr>)"
    using P by (intro inv_fields [OF inv]) simp_all
  then show ?thesis using F(1,3) Fetched v by (simp add: worker_step_def todo_def)
qed

lemma step_inv: "sstep s s' \<Longrightarrow> calm s s' \<Longrightarrow> sys_inv s \<Longrightarrow> sys_inv s'"
proof (induction rule: sstep.induct)
  case (engine_write d f s v)
  let ?tbl = "(s_tbl s)(d := (s_tbl s d)(f := Some v))"
  have "\<forall>(e, g) \<in> s_cur s. ?tbl e g = s_tbl s e g" using engine_write.hyps by auto
  moreover have t: "s_tbl (s\<lparr>s_tbl := ?tbl\<rparr>) = ?tbl" by simp
  have "case s_hand s of Popped (OpAdd d f) \<Rightarrow> ?tbl d f = s_tbl s d f | _ \<Rightarrow> True"
    using engine_write.prems(1) unfolding calm_def t .
  ultimately show ?case using inv_write [OF engine_write.prems(2), of ?tbl] by blast
next
  case (worker_moves s s')
  then show ?case using worker_step_ok [of s] by auto
qed (use inv_add inv_delete in blast)+

lemma reachable_inv: "reachable s0 s \<Longrightarrow> sys_inv s0 \<Longrightarrow> sys_inv s"
  by (induction rule: reachable.induct) (auto dest: step_inv)

text \<open>The worker needs at most \<open>todo s\<close> steps to do what there is to do.\<close>

lemma worker_steps_ok:
  "\<lbrakk>sys_inv s; todo s \<le> n\<rbrakk> \<Longrightarrow> \<exists>s'. worker_steps n s = Some s' \<and> sys_inv s' \<and> todo s' = 0 \<and>
     s_tbl s' = s_tbl s \<and> s_cur s' = s_cur s \<and> flds_keys (mx_flds (s_m s')) = flds_keys (mx_flds (s_m s))"
proof (induction n arbitrary: s)
  case (Suc n)
  obtain s1 where s1: "worker_step s = Some s1" "sys_inv s1" "flds_keys (mx_flds (s_m s1)) = flds_keys (mx_flds (s_m s))"
    "todo s1 \<le> n" using worker_step_ok [OF Suc.prems(1)] Suc.prems(2) by (force intro: order_trans)
  then show ?case using Suc.IH [OF s1(2,4)] worker_step_frame [OF s1(1)] by simp
qed simp

lemma drained_postings:
  assumes "sys_inv s" "s_hand s = Idle" "mx_queue (s_m s) = []"
  shows "flds_docs (mx_flds (s_m s)) = wanted (s_cur s) (s_tbl s) (mx_flds (s_m s))"
  using assms by (simp add: sys_inv_def pending_def)

text \<open>A turn of the worker that the engine does not disturb.\<close>

lemma worker_turn_steps:
  assumes h: "s_hand s = Idle" and w: "MFR_Worker (s_tbl s) no_col (s_m s) = Some m"
  shows "\<exists>n \<le> 3. worker_steps n s = Some (s\<lparr>s_m := m\<rparr>)"
proof (cases "mx_queue (s_m s)")
  case Nil
  then have "worker_steps 0 s = Some (s\<lparr>s_m := m\<rparr>)" using w by (simp add: MFR_Worker_def)
  then show ?thesis by blast
next
  case (Cons op q)
  show ?thesis
  proof (cases op)
    case (OpAdd d f)
    then obtain F r where F: "MFR_PutDoc (mx_flds (s_m s)) d f (read_doc (s_tbl s) no_col d f) = Some (r, F)"
      "m = (s_m s)\<lparr>mx_flds := F, mx_queue := q\<rparr>"
      using w Cons by (auto simp: MFR_Worker_def MFR_AddDoc_parts bind_eq_Some_conv)
    then obtain ix where ix: "fetch (mx_flds (s_m s)) f = Some ix" by (auto simp: MFR_PutDoc_def bind_eq_Some_conv)
    show ?thesis
    proof (cases ix)
      case None
      then have "F = mx_flds (s_m s)" using F(1) ix by (simp add: MFR_PutDoc_def)
      then have "worker_steps 2 s = Some (s\<lparr>s_m := m\<rparr>)"
        using h Cons OpAdd ix None F(2) by (simp add: numeral_eq_Suc worker_step_def)
      then show ?thesis by (intro exI [of _ 2]) simp
    next
      case (Some x)
      then have "worker_steps 3 s = Some (s\<lparr>s_m := m\<rparr>)"
        using h Cons OpAdd ix F by (simp add: numeral_eq_Suc worker_step_def)
      then show ?thesis by blast
    qed
  next
    case (OpDelete d f v)
    then have "worker_steps 2 s = Some (s\<lparr>s_m := m\<rparr>)"
      using w h Cons by (auto simp: MFR_Worker_def numeral_eq_Suc worker_step_def bind_eq_Some_conv)
    then show ?thesis by (intro exI [of _ 2]) simp
  qed
qed

lemma worker_ok:
  assumes inv: "sys_inv s" and idle: "s_hand s = Idle"
  shows "\<exists>m. MFR_Worker (s_tbl s) no_col (s_m s) = Some m \<and> sys_inv (s\<lparr>s_m := m\<rparr>) \<and>
    mx_queue m = tl (mx_queue (s_m s)) \<and> flds_keys (mx_flds m) = flds_keys (mx_flds (s_m s))"
proof (cases "mx_queue (s_m s)")
  case Nil
  then show ?thesis using inv by (simp add: MFR_Worker_def)
next
  case (Cons op q)
  let ?F = "mx_flds (s_m s)" and ?T = "s_tbl s"
  obtain P where P: "drained ?T (flds_keys ?F) [op] (flds_docs ?F) = Some P"
    using inv Cons idle drained_append [of ?T "flds_keys ?F" "[op]" q "flds_docs ?F"]
    by (auto simp: sys_inv_def pending_def split: option.splits)
  have ok: "flds_ok ?F" using inv by (simp add: sys_inv_def)
  have "\<exists>r F. (case op of OpAdd d f \<Rightarrow> MFR_AddDoc ?T no_col ?F d f
        | OpDelete d f v \<Rightarrow> MFR_DeleteDoc ?F d f v) = Some (r, F) \<and> flds_ok F \<and> flds_keys F = flds_keys ?F \<and> flds_docs F = P"
  proof (cases op)
    case (OpAdd d f)
    then obtain v where v: "?T d f = Some v" using P by (auto split: option.splits)
    then show ?thesis using put_ok [OF ok, of v d f P] P OpAdd drained_one [of ?T, OF v]
      by (force simp: MFR_AddDoc_parts read_doc_def simp del: drained.simps(2))
  next
    case (OpDelete d f v)
    then show ?thesis using del_ok [OF ok, of ?T d f v P] P by simp
  qed
  then obtain r F where F: "(case op of OpAdd d f \<Rightarrow> MFR_AddDoc ?T no_col ?F d f
        | OpDelete d f v \<Rightarrow> MFR_DeleteDoc ?F d f v) = Some (r, F)" "flds_ok F" "flds_keys F = flds_keys ?F" "flds_docs F = P"
    by blast
  let ?m = "(s_m s)\<lparr>mx_flds := F, mx_queue := q\<rparr>"
  have w: "MFR_Worker ?T no_col (s_m s) = Some ?m" using Cons F(1) by (simp add: MFR_Worker_def)
  have "pending (s\<lparr>s_m := ?m\<rparr>) = pending s"
    using Cons idle F(3,4) P drained_append [of ?T "flds_keys ?F" "[op]" q "flds_docs ?F"] by (simp add: pending_def)
  then have "sys_inv (s\<lparr>s_m := ?m\<rparr>)"
    using inv Cons F(2) wanted_keys [OF F(3)] good_value_keys [OF F(3)] by (simp add: sys_inv_def)
  then show ?thesis using w Cons F(3) by (intro exI [of _ ?m]) simp
qed

lemma start_inv:
  assumes "\<forall>x. Some x \<in> set flds \<longrightarrow> fx_tree x = []"
  shows "sys_inv \<lparr>s_m = \<lparr>mx_flds = flds, mx_queue = []\<rparr>, s_hand = Idle, s_tbl = tbl, s_cur = {}\<rparr>"
proof -
  have "flds_ok flds" using assms fi.index_ok_empty by (simp add: flds_ok_def frx_ok_def)
  moreover have "flds_docs flds f k = {}" for f k
  proof (cases "fetch flds f")
    case (Some ix)
    then have "ix = Some x \<Longrightarrow> fx_tree x = []" for x
      using assms by (auto simp: fetch_Some_iff) (metis nth_mem nat_less_iff)
    then show ?thesis using Some fi.docs_at_empty by (cases ix) (simp_all add: flds_docs_def)
  qed (simp add: flds_docs_def)
  ultimately show ?thesis by (auto simp: sys_inv_def pending_def wanted_def fun_eq_iff)
qed

subsection \<open>A numeric filter on the index of a reachable state\<close>

lemma wanted_numeric:
  assumes x: "fetch flds f = Some (Some x)" "fx_num x"
    and val: "\<forall>d. (d, f) \<in> cur \<longrightarrow> tbl d f = Some (le_bytes n (val d)) \<and>
      -(2 ^ (8 * n - 1)) \<le> val d \<and> val d < 2 ^ (8 * n - 1)"
    and n: "0 < n" "n \<le> 255" and l: "-(2 ^ (8 * n - 1)) \<le> l" "l < 2 ^ (8 * n - 1)"
    and h: "-(2 ^ (8 * n - 1)) \<le> h" "h < 2 ^ (8 * n - 1)"
  shows "(\<Union>k \<in> {the (ReverseEndian (le_bytes n l))..the (ReverseEndian (le_bytes n h))}. wanted cur tbl flds f k) =
    {d. (d, f) \<in> cur \<and> l \<le> val d \<and> val d \<le> h}"
proof -
  have iff: "the (ReverseEndian (le_bytes n l)) \<le> k \<and> k \<le> the (ReverseEndian (le_bytes n h)) \<longleftrightarrow> l \<le> v \<and> v \<le> h"
    if v: "-(2 ^ (8 * n - 1)) \<le> v" "v < 2 ^ (8 * n - 1)" and k: "ReverseEndian (le_bytes n v) = Some k" for v k
    using ReverseEndian_mono [OF n(1) l v] ReverseEndian_mono [OF n(1) v h] k by auto
  have W: "wanted cur tbl flds f k = {d. (d, f) \<in> cur \<and> ReverseEndian (le_bytes n (val d)) = Some k}" for k
    using x val n(2) by (auto simp: wanted_def flds_keys_def frx_keys_num)
  have ex: "\<exists>k. ReverseEndian (le_bytes n v) = Some k" for v using ReverseEndian_int [OF n(1)] by blast
  show ?thesis
  proof (rule set_eqI)
    fix d
    show "d \<in> (\<Union>k \<in> {the (ReverseEndian (le_bytes n l))..the (ReverseEndian (le_bytes n h))}. wanted cur tbl flds f k) \<longleftrightarrow>
      d \<in> {d. (d, f) \<in> cur \<and> l \<le> val d \<and> val d \<le> h}"
      unfolding W using iff [of "val d"] val ex [of "val d"] by auto
  qed
qed

lemma numeric_filter_sat:
  assumes inv: "sys_inv s" "s_hand s = Idle" "mx_queue (s_m s) = []"
    and x: "fetch (mx_flds (s_m s)) f = Some (Some x)" "fx_num x"
    and val: "\<forall>d. (d, f) \<in> s_cur s \<longrightarrow> s_tbl s d f = Some (le_bytes n (val d)) \<and>
      -(2 ^ (8 * n - 1)) \<le> val d \<and> val d < 2 ^ (8 * n - 1)"
    and n: "0 < n" "n \<le> 255" and l: "-(2 ^ (8 * n - 1)) \<le> l" "l < 2 ^ (8 * n - 1)"
    and h: "-(2 ^ (8 * n - 1)) \<le> h" "h < 2 ^ (8 * n - 1)"
  shows "filter_ok (mx_flds (s_m s)) \<lparr>f_field = f, f_lower = le_bytes n l, f_upper = le_bytes n h, f_op = FAnd\<rparr>"
    "filter_sat (mx_flds (s_m s)) \<lparr>f_field = f, f_lower = le_bytes n l, f_upper = le_bytes n h, f_op = FAnd\<rparr> =
      {d. (d, f) \<in> s_cur s \<and> l \<le> val d \<and> val d \<le> h}"
proof -
  let ?F = "mx_flds (s_m s)" and ?D = "{d. (d, f) \<in> s_cur s \<and> l \<le> val d \<and> val d \<le> h}"
  let ?fi = "\<lparr>f_field = f, f_lower = le_bytes n l, f_upper = le_bytes n h, f_op = FAnd\<rparr>"
  have ok: "flds_ok ?F" and W: "flds_docs ?F = wanted (s_cur s) (s_tbl s) ?F"
    using inv drained_postings by (simp_all add: sys_inv_def)
  have ne: "le_bytes n v \<noteq> []" for v using n(1) by (cases n) simp_all
  have "frx_ok x" using ok x(1) by (rule flds_okD)
  then show "filter_ok ?F ?fi" using x ne by (auto simp: filter_ok_def fetch_def split: if_splits)
  have "filter_sat ?F ?fi = (\<Union>k \<in> {the (ReverseEndian (le_bytes n l))..the (ReverseEndian (le_bytes n h))}. flds_docs ?F f k)"
    using x by (simp add: filter_sat_def filter_docs_def range_docs_def flds_docs_def)
  also have "\<dots> = ?D" unfolding W using wanted_numeric [where tbl = "s_tbl s" and val = val and cur = "s_cur s" and f = f and n = n, OF x val n l h] by blast
  finally show "filter_sat ?F ?fi = ?D" .
qed

lemma numeric_filter_spec:
  assumes inv: "sys_inv s" "s_hand s = Idle" "mx_queue (s_m s) = []"
    and x: "fetch (mx_flds (s_m s)) f = Some (Some x)" "fx_num x"
    and val: "\<forall>d. (d, f) \<in> s_cur s \<longrightarrow> s_tbl s d f = Some (le_bytes n (val d)) \<and>
      -(2 ^ (8 * n - 1)) \<le> val d \<and> val d < 2 ^ (8 * n - 1)"
    and n: "0 < n" "n \<le> 255" and l: "-(2 ^ (8 * n - 1)) \<le> l" "l < 2 ^ (8 * n - 1)"
    and h: "-(2 ^ (8 * n - 1)) \<le> h" "h < 2 ^ (8 * n - 1)"
  shows "\<exists>ret out. MFR_Search g1 g2 (mx_flds (s_m s))
      [\<lparr>f_field = f, f_lower = le_bytes n l, f_upper = le_bytes n h, f_op = FAnd\<rparr>] = Some (ret, out) \<and> 0 \<le> ret \<and>
    (if ret = 0 then {d. (d, f) \<in> s_cur s \<and> l \<le> val d \<and> val d \<le> h} = {}
     else \<forall>d. MR_Has out d = Some ((d, f) \<in> s_cur s \<and> l \<le> val d \<and> val d \<le> h))"
proof -
  let ?F = "mx_flds (s_m s)" and ?D = "{d. (d, f) \<in> s_cur s \<and> l \<le> val d \<and> val d \<le> h}"
  let ?fi = "\<lparr>f_field = f, f_lower = le_bytes n l, f_upper = le_bytes n h, f_op = FAnd\<rparr>"
  note sat = numeric_filter_sat [where val = val, OF inv x val n l h]
  have fok: "\<forall>g \<in> set [?fi]. filter_ok ?F g" and S: "(\<Inter>g \<in> set [?fi]. filter_sat ?F g) = ?D" using sat by simp_all
  obtain ret out where r: "MFR_Search g1 g2 ?F [?fi] = Some (ret, out)" "search_ok ?D (ret, out)"
    using MFR_Search_spec [OF fok, of g1 g2] unfolding S by auto
  have "-1 \<notin> ?D" using inv by (auto simp: sys_inv_def docid_ok_def)
  then have "0 \<le> ret" using r(2) by (auto simp: search_ok_def split: if_splits)
  moreover have "0 < ret \<Longrightarrow> MR_Has out d = Some (d \<in> ?D)" for d
    using MFR_Search_Has [OF fok r(1)] S by auto
  ultimately show ?thesis using r by (auto simp: search_ok_def)
qed

end
