(* ===== verification/ConcurrentVec.thy ===== *)
theory ConcurrentVec
  imports AwaPrelude
begin

text \<open>
  \<open>ConcurrentVector\<close> (\<open>util/concurrent_vector.h\<close>): a growing array of groups of equal size. The
  template parameter \<open>Base\<close>, \<open>uint8_t\<close> or \<open>uint16_t\<close> in the program, is the modulus \<open>bm\<close> (256 or
  65536) at which the counts of groups wrap; \<open>z\<close> is the zero of \<open>Value\<close> and \<open>vs\<close> its size in bytes. A group pointer
  that is null or uninitialised is \<open>None\<close>. Memory faults and division by zero are \<open>None\<close>;
  \<open>new\<close> throws when memory runs out, so its null checks never hold.
\<close>

record 'v cvec =
  cv_begin :: nat
  cv_cap :: nat
  cv_gap :: nat
  cv_num :: nat
  cv_size :: u32
  cv_grps :: "'v list option list"

definition new_cvec :: "'v cvec" where
  "new_cvec = \<lparr>cv_begin = 0, cv_cap = 0, cv_gap = 0, cv_num = 0, cv_size = 0, cv_grps = []\<rparr>"

definition CV_Init :: "'v cvec \<Rightarrow> nat \<Rightarrow> nat \<Rightarrow> 'v cvec" where
  "CV_Init v begin_grp_capacity grp_gap =
     v\<lparr>cv_begin := begin_grp_capacity, cv_cap := begin_grp_capacity, cv_gap := grp_gap,
       cv_grps := replicate begin_grp_capacity None\<rparr>"

text \<open>The larger array of \<open>PushBack\<close>; the sum of the capacities wraps.\<close>

definition cv_extend :: "nat \<Rightarrow> 'v cvec \<Rightarrow> 'v cvec option" where
  "cv_extend bm v =
     (let n = (cv_cap v + cv_begin v) mod bm in
      if cv_cap v + cv_begin v \<le> n \<and> cv_cap v \<le> length (cv_grps v)
      then Some (v\<lparr>cv_cap := n,
             cv_grps := take (cv_cap v) (cv_grps v) @ replicate (cv_begin v) None\<rparr>)
      else None)"

definition CV_PushBack :: "nat \<Rightarrow> 'v \<Rightarrow> 'v cvec \<Rightarrow> 'v \<Rightarrow> 'v cvec option" where
  "CV_PushBack bm z v x =
     (if cv_gap v = 0 then None
      else let r = unat (cv_size v) mod cv_gap v in
      if r = 0 then do {
        v1 \<leftarrow> (if cv_num v \<ge> cv_cap v then cv_extend bm v else Some v);
        grps \<leftarrow> store (cv_grps v1) (int (cv_num v1))
                  (Some ((replicate (cv_gap v1) z)[0 := x]));
        Some (v1\<lparr>cv_grps := grps, cv_num := (cv_num v1 + 1) mod bm, cv_size := cv_size v1 + 1\<rparr>) }
      else do {
        gp \<leftarrow> fetch (cv_grps v) (int (cv_num v) - 1);
        g \<leftarrow> gp;
        g' \<leftarrow> store g (int r) x;
        grps \<leftarrow> store (cv_grps v) (int (cv_num v) - 1) (Some g');
        Some (v\<lparr>cv_grps := grps, cv_size := cv_size v + 1\<rparr>) })"

definition cv_cell :: "'v cvec \<Rightarrow> nat \<Rightarrow> 'v option" where
  "cv_cell v i = do { gp \<leftarrow> fetch (cv_grps v) (int (i div cv_gap v)); g \<leftarrow> gp;
                      fetch g (int (i mod cv_gap v)) }"

definition CV_ResetData :: "'v cvec \<Rightarrow> u32 \<Rightarrow> 'v \<Rightarrow> (bool \<times> 'v cvec) option" where
  "CV_ResetData v i x =
     (if i \<ge> cv_size v then Some (False, v)
      else if cv_gap v = 0 then None
      else do {
        let k = int (unat i div cv_gap v);
        gp \<leftarrow> fetch (cv_grps v) k;
        g \<leftarrow> gp;
        g' \<leftarrow> store g (int (unat i mod cv_gap v)) x;
        grps \<leftarrow> store (cv_grps v) k (Some g');
        Some (True, v\<lparr>cv_grps := grps\<rparr>) })"

definition CV_GetData :: "'v \<Rightarrow> 'v cvec \<Rightarrow> u32 \<Rightarrow> 'v option" where
  "CV_GetData z v i =
     (if cv_gap v = 0 then None
      else if unat i div cv_gap v \<ge> cv_num v then Some z
      else cv_cell v (unat i))"

text \<open>The overload with an output parameter: false leaves \<open>value\<close> as it is, here \<open>None\<close>.\<close>

definition CV_GetDataChecked :: "'v cvec \<Rightarrow> u32 \<Rightarrow> (bool \<times> 'v option) option" where
  "CV_GetDataChecked v i =
     (if i \<ge> cv_size v then Some (False, None)
      else if cv_gap v = 0 then None
      else do { x \<leftarrow> cv_cell v (unat i); Some (True, Some x) })"

definition CV_GetLastData :: "'v cvec \<Rightarrow> (bool \<times> 'v option) option" where
  "CV_GetLastData v =
     (if cv_num v = 0 then Some (False, None)
      else if cv_gap v = 0 then None
      else do { x \<leftarrow> cv_cell v (unat (cv_size v - 1)); Some (True, Some x) })"

text \<open>
  \<open>Resize\<close>. Shrinking clears the rest of the last group with \<open>sizeof(Value *)\<close>, 8, for each cell.
  Growing past the capacity allocates \<open>new_grp_num / begin_grp_capacity_\<close> pointers, rounded up.
\<close>

definition cv_groups :: "u32 \<Rightarrow> nat \<Rightarrow> nat" where
  "cv_groups n gap = unat n div gap + (if unat n mod gap \<noteq> 0 then 1 else 0)"

definition cv_shrink :: "'v \<Rightarrow> nat \<Rightarrow> 'v cvec \<Rightarrow> u32 \<Rightarrow> 'v cvec option" where
  "cv_shrink z vs v n =
     (let new_num = cv_groups n (cv_gap v); r = unat n mod cv_gap v; old_num = cv_num v in
      do {
        grps \<leftarrow> (if r \<noteq> 0 then do {
            gp \<leftarrow> fetch (cv_grps v) (int new_num - 1);
            g \<leftarrow> gp;
            if 8 * (length g - r) \<le> vs * (length g - r)
            then store (cv_grps v) (int new_num - 1) (Some (take r g @ replicate (length g - r) z))
            else None }
          else Some (cv_grps v));
        if old_num \<le> length grps
        then Some (v\<lparr>cv_size := n, cv_num := new_num,
          cv_grps := take new_num grps @ replicate (old_num - new_num) None @ drop old_num grps\<rparr>)
        else None })"

fun cv_alloc :: "nat \<Rightarrow> 'v \<Rightarrow> nat \<Rightarrow> 'v cvec \<Rightarrow> 'v cvec option" where
  "cv_alloc bm z 0 v = Some v"
| "cv_alloc bm z (Suc k) v =
     do { grps \<leftarrow> store (cv_grps v) (int (cv_num v)) (Some (replicate (cv_gap v) z));
          cv_alloc bm z k (v\<lparr>cv_grps := grps, cv_num := (cv_num v + 1) mod bm\<rparr>) }"

definition cv_regrow :: "nat \<Rightarrow> 'v cvec \<Rightarrow> nat \<Rightarrow> 'v cvec option" where
  "cv_regrow bm v new_num =
     (if cv_begin v = 0 then None
      else let b = cv_begin v;
               n = (new_num div b + (if new_num mod b \<noteq> 0 then 1 else 0)) mod bm in
        if cv_cap v \<le> n
        then Some (v\<lparr>cv_cap := n,
               cv_grps := take (cv_cap v) (cv_grps v) @ replicate (n - cv_cap v) None\<rparr>)
        else None)"

definition CV_Resize :: "nat \<Rightarrow> 'v \<Rightarrow> nat \<Rightarrow> 'v cvec \<Rightarrow> u32 \<Rightarrow> 'v cvec option" where
  "CV_Resize bm z vs v n =
     (if cv_gap v = 0 then None
      else let new_num = cv_groups n (cv_gap v) in
        if new_num \<le> cv_num v then cv_shrink z vs v n
        else do {
          v1 \<leftarrow> (if new_num > cv_cap v then cv_regrow bm v new_num else Some v);
          v2 \<leftarrow> cv_alloc bm z (new_num - cv_num v1) v1;
          Some (v2\<lparr>cv_size := n\<rparr>) })"

subsection \<open>The sequence it stands for\<close>

text \<open>The contract of a growing array with bounded room.\<close>

locale seq_store =
  fixes push :: "'s \<Rightarrow> 'v \<Rightarrow> 's option"
    and get :: "'s \<Rightarrow> nat \<Rightarrow> 'v option"
    and elems :: "'s \<Rightarrow> 'v list"
    and room :: "'s \<Rightarrow> nat"
    and valid :: "'s \<Rightarrow> bool"
  assumes push_ok: "valid s \<Longrightarrow> 0 < room s \<Longrightarrow>
      \<exists>s'. push s x = Some s' \<and> valid s' \<and> elems s' = elems s @ [x] \<and> room s' = room s - 1"
    and get_ok: "valid s \<Longrightarrow> i < length (elems s) \<Longrightarrow> get s i = Some (elems s ! i)"
begin

fun push_all :: "'s \<Rightarrow> 'v list \<Rightarrow> 's option" where
  "push_all s [] = Some s"
| "push_all s (x # xs) = do { s' \<leftarrow> push s x; push_all s' xs }"

lemma push_all_ok:
  "valid s \<Longrightarrow> length xs \<le> room s \<Longrightarrow>
    \<exists>s'. push_all s xs = Some s' \<and> valid s' \<and> elems s' = elems s @ xs \<and> room s' = room s - length xs"
proof (induction xs arbitrary: s)
  case (Cons x xs)
  then obtain s1 where s1: "push s x = Some s1" "valid s1" "elems s1 = elems s @ [x]" "room s1 = room s - 1"
    using push_ok [of s x] by auto
  from Cons.IH [OF s1(2)] Cons.prems(2) s1 show ?case by auto
qed simp

text \<open>What was pushed onto an empty store is read back at its position.\<close>

lemma push_all_get:
  assumes "valid s" "length xs \<le> room s" "elems s = []" "i < length xs"
  shows "\<exists>s'. push_all s xs = Some s' \<and> get s' i = Some (xs ! i)"
  using push_all_ok [OF assms(1,2)] get_ok assms(3,4) by fastforce

end

definition cv_nth :: "'v cvec \<Rightarrow> nat \<Rightarrow> 'v" where
  "cv_nth v i = the (cv_grps v ! (i div cv_gap v)) ! (i mod cv_gap v)"

definition cv_list :: "'v cvec \<Rightarrow> 'v list" where
  "cv_list v = map (cv_nth v) [0..<unat (cv_size v)]"

definition cv_ok :: "nat \<Rightarrow> 'v cvec \<Rightarrow> bool" where
  "cv_ok bm v \<longleftrightarrow> 0 < cv_gap v \<and> 0 < cv_begin v \<and> length (cv_grps v) = cv_cap v \<and> cv_cap v < bm \<and>
     cv_num v = cv_groups (cv_size v) (cv_gap v) \<and> cv_num v \<le> cv_cap v \<and>
     (\<forall>i < cv_num v. \<exists>g. cv_grps v ! i = Some g \<and> length g = cv_gap v)"

definition cv_maxcap :: "nat \<Rightarrow> 'v cvec \<Rightarrow> nat" where
  "cv_maxcap bm v = cv_cap v + cv_begin v * ((bm - 1 - cv_cap v) div cv_begin v)"

definition cv_room :: "nat \<Rightarrow> 'v cvec \<Rightarrow> nat" where
  "cv_room bm v = min (cv_maxcap bm v * cv_gap v) 4294967295 - unat (cv_size v)"

lemma cv_groups_eq: "0 < g \<Longrightarrow> cv_groups n g * g < unat n + g \<and> unat n \<le> cv_groups n g * g"
proof -
  assume g: "0 < g"
  define q r where "q = unat n div g" and "r = unat n mod g"
  have n: "unat n = q * g + r" "r < g" using g by (simp_all add: q_def r_def)
  have "cv_groups n g = q + (if r \<noteq> 0 then 1 else 0)" by (simp add: cv_groups_def q_def r_def)
  then show ?thesis using n by auto
qed

lemma cv_groups_unique:
  assumes "N * g < unat n + g" "unat n \<le> N * g" "0 < g"
  shows "cv_groups n g = N"
proof -
  let ?M = "cv_groups n g"
  note M = cv_groups_eq [OF assms(3), of n]
  have "N * g < Suc ?M * g" "?M * g < Suc N * g" using assms(1,2) M by simp_all
  then have "N < Suc ?M" "?M < Suc N" by (simp_all only: mult_less_cancel2)
  then show ?thesis by simp
qed

lemma cv_cell_ok:
  assumes "cv_ok bm v" "i < unat (cv_size v)"
  shows "cv_cell v i = Some (cv_nth v i)"
proof -
  have g: "0 < cv_gap v" "cv_num v \<le> length (cv_grps v)" using assms(1) by (auto simp: cv_ok_def)
  have "i < cv_num v * cv_gap v"
    using cv_groups_eq [OF g(1), of "cv_size v"] assms by (simp add: cv_ok_def)
  then have k: "i div cv_gap v < cv_num v" using g(1) by (simp add: div_less_iff_less_mult)
  then obtain gr where "cv_grps v ! (i div cv_gap v) = Some gr" "length gr = cv_gap v"
    using assms(1) by (auto simp: cv_ok_def)
  then show ?thesis using k g by (simp add: cv_cell_def cv_nth_def fetch_def)
qed

lemma cv_extend_ok:
  assumes "cv_ok bm v" "cv_cap v + cv_begin v < bm"
  shows "\<exists>v1. cv_extend bm v = Some v1 \<and> cv_ok bm v1 \<and> cv_cap v1 = cv_cap v + cv_begin v \<and>
    cv_gap v1 = cv_gap v \<and> cv_num v1 = cv_num v \<and> cv_size v1 = cv_size v \<and> cv_maxcap bm v1 = cv_maxcap bm v \<and>
    (\<forall>i < cv_num v. cv_grps v1 ! i = cv_grps v ! i)"
proof -
  let ?v = "v\<lparr>cv_cap := cv_cap v + cv_begin v,
    cv_grps := take (cv_cap v) (cv_grps v) @ replicate (cv_begin v) None\<rparr>"
  have b: "0 < cv_begin v" using assms(1) by (simp add: cv_ok_def)
  have e: "bm - 1 - cv_cap v = bm - 1 - (cv_cap v + cv_begin v) + cv_begin v" using assms(2) by simp
  have "(m + cv_begin v) div cv_begin v = Suc (m div cv_begin v)" for m :: nat
    using b div_add_self2 [of "cv_begin v" m] by simp
  from this [of "bm - 1 - (cv_cap v + cv_begin v)"] e
  have "cv_maxcap bm ?v = cv_maxcap bm v" by (simp add: cv_maxcap_def)
  moreover have "cv_extend bm v = Some ?v"
    using assms by (simp add: cv_extend_def cv_ok_def)
  moreover have "cv_ok bm ?v" using assms by (auto simp: cv_ok_def nth_append)
  ultimately show ?thesis using assms(1) by (intro exI [of _ ?v]) (auto simp: cv_ok_def nth_append)
qed

lemma cv_list_snoc:
  assumes "unat (cv_size v') = Suc (unat (cv_size v))"
    and "\<forall>i < unat (cv_size v). cv_nth v' i = cv_nth v i" "cv_nth v' (unat (cv_size v)) = x"
  shows "cv_list v' = cv_list v @ [x]"
  using assms by (simp add: cv_list_def)

lemma cv_size_suc: "unat (n :: u32) < 4294967295 \<Longrightarrow> unat (n + 1) = Suc (unat n)"
  by (simp add: unat_word_ariths)

lemma PushBack_ok:
  assumes ok: "cv_ok bm v" and room: "0 < cv_room bm v"
  shows "\<exists>v'. CV_PushBack bm z v x = Some v' \<and> cv_ok bm v' \<and> cv_list v' = cv_list v @ [x] \<and>
    cv_room bm v' = cv_room bm v - 1"
proof -
  let ?g = "cv_gap v" and ?s = "unat (cv_size v)" and ?n = "cv_num v"
  have g: "0 < ?g" "length (cv_grps v) = cv_cap v" "?n \<le> cv_cap v"
    and n: "?n = cv_groups (cv_size v) ?g" using ok by (auto simp: cv_ok_def)
  note ge = cv_groups_eq [OF g(1), of "cv_size v", folded n]
  have s1: "unat (cv_size v + 1) = Suc ?s" using room by (intro cv_size_suc) (simp add: cv_room_def)
  show ?thesis
  proof (cases "?s mod ?g = 0")
    case True
    then have "?n = ?s div ?g" using n by (simp add: cv_groups_def)
    then have sn: "?s = ?n * ?g" using True div_mult_mod_eq [of ?s ?g] by simp
    have "\<exists>v1. (if cv_num v \<ge> cv_cap v then cv_extend bm v else Some v) = Some v1 \<and> cv_ok bm v1 \<and>
      ?n < cv_cap v1 \<and> cv_gap v1 = ?g \<and> cv_num v1 = ?n \<and> cv_size v1 = cv_size v \<and>
      cv_maxcap bm v1 = cv_maxcap bm v \<and> (\<forall>i < ?n. cv_grps v1 ! i = cv_grps v ! i)"
    proof (cases "cv_num v \<ge> cv_cap v")
      case full: True
      then have nc: "?n = cv_cap v" using g(3) by simp
      have "?n * ?g < cv_maxcap bm v * ?g" using room sn by (simp add: cv_room_def)
      then have "?n < cv_maxcap bm v" by simp
      then have "0 < (bm - 1 - cv_cap v) div cv_begin v" unfolding cv_maxcap_def nc by (metis
            add_0_right less_irrefl mult_0_right neq0_conv)
      then have "cv_begin v \<le> bm - 1 - cv_cap v" using div_greater_zero_iff by blast
      then have "cv_cap v + cv_begin v < bm" "0 < cv_begin v" using ok by (auto simp: cv_ok_def)
      then show ?thesis using cv_extend_ok [OF ok] full nc by auto
    next
      case False
      then show ?thesis using ok by auto
    qed
    then obtain v1 where v1: "(if cv_num v \<ge> cv_cap v then cv_extend bm v else Some v) = Some v1" "cv_ok bm v1"
      "?n < cv_cap v1" "cv_gap v1 = ?g" "cv_num v1 = ?n" "cv_size v1 = cv_size v"
      "cv_maxcap bm v1 = cv_maxcap bm v" "\<forall>i < ?n. cv_grps v1 ! i = cv_grps v ! i" by blast
    have l1: "length (cv_grps v1) = cv_cap v1" "cv_cap v1 < bm" "0 < cv_begin v1"
      using v1(2) by (auto simp: cv_ok_def)
    let ?grps = "(cv_grps v1)[?n := Some ((replicate ?g z)[0 := x])]"
    let ?v = "v1\<lparr>cv_grps := ?grps, cv_num := Suc ?n, cv_size := cv_size v + 1\<rparr>"
    have p: "CV_PushBack bm z v x = Some ?v"
      using g(1) True v1 l1 by (simp add: CV_PushBack_def store_def Let_def)
    have "cv_groups (cv_size v + 1) ?g = Suc ?n"
      using sn g(1) by (intro cv_groups_unique) (simp_all add: s1)
    then have okv: "cv_ok bm ?v"
      using v1 l1 ok by (auto simp: cv_ok_def nth_list_update less_Suc_eq)
    have "cv_list ?v = cv_list v @ [x]"
    proof (rule cv_list_snoc)
      show "unat (cv_size ?v) = Suc ?s" using s1 by simp
      show "\<forall>i < ?s. cv_nth ?v i = cv_nth v i"
      proof (intro allI impI)
        fix i
        assume "i < ?s"
        then have "i div ?g < ?n" using sn g(1) by (simp add: div_less_iff_less_mult)
        then show "cv_nth ?v i = cv_nth v i" using v1 l1 by (simp add: cv_nth_def)
      qed
      show "cv_nth ?v ?s = x"
        using sn g(1) v1(3,4) l1(1) by (simp add: cv_nth_def)
    qed
    moreover have "cv_room bm ?v = cv_room bm v - 1"
      using v1(4,7) s1 by (simp add: cv_room_def cv_maxcap_def)
    ultimately show ?thesis using p okv by blast
  next
    case False
    let ?r = "?s mod ?g" and ?k = "?s div ?g"
    have nk: "?n = Suc ?k" using False n by (simp add: cv_groups_def)
    then obtain gr where gr: "cv_grps v ! ?k = Some gr" "length gr = ?g" using ok by (auto simp: cv_ok_def)
    have k: "?k < length (cv_grps v)" using nk g by simp
    let ?v = "v\<lparr>cv_grps := (cv_grps v)[?k := Some (gr[?r := x])], cv_size := cv_size v + 1\<rparr>"
    have p: "CV_PushBack bm z v x = Some ?v"
      using False g(1) nk gr k by (simp add: CV_PushBack_def fetch_def store_def Let_def)
    have sk: "?s = ?k * ?g + ?r" "?r < ?g" using g(1) by simp_all
    have "cv_groups (cv_size v + 1) ?g = ?n"
    proof (rule cv_groups_unique)
      show "?n * ?g < unat (cv_size v + 1) + ?g" "unat (cv_size v + 1) \<le> ?n * ?g"
        unfolding nk s1 mult_Suc using sk by linarith+
    qed (rule g(1))
    then have okv: "cv_ok bm ?v"
      using ok gr k by (auto simp: cv_ok_def nth_list_update)
    have "cv_list ?v = cv_list v @ [x]"
    proof (rule cv_list_snoc)
      show "unat (cv_size ?v) = Suc ?s" using s1 by simp
      show "\<forall>i < ?s. cv_nth ?v i = cv_nth v i"
      proof (intro allI impI)
        fix i
        assume i: "i < ?s"
        show "cv_nth ?v i = cv_nth v i"
        proof (cases "i div ?g = ?k")
          case True
          then have "i mod ?g \<noteq> ?r" using i by (metis div_mult_mod_eq less_irrefl)
          then show ?thesis using True gr k by (simp add: cv_nth_def)
        qed (simp add: cv_nth_def)
      qed
      show "cv_nth ?v ?s = x" using gr k sk(2) by (simp add: cv_nth_def)
    qed
    moreover have "cv_room bm ?v = cv_room bm v - 1"
      using s1 by (simp add: cv_room_def cv_maxcap_def)
    ultimately show ?thesis using p okv by blast
  qed
qed

lemma length_cv_list [simp]: "length (cv_list v) = unat (cv_size v)"
  by (simp add: cv_list_def)

lemma cv_list_nth: "i < unat (cv_size v) \<Longrightarrow> cv_list v ! i = cv_nth v i"
  by (simp add: cv_list_def)

interpretation cv8: seq_store "CV_PushBack 256 z" cv_cell cv_list "cv_room 256" "cv_ok 256" for z
  by unfold_locales (simp_all only: PushBack_ok cv_cell_ok cv_list_nth length_cv_list)

interpretation cv16: seq_store "CV_PushBack 65536 z" cv_cell cv_list "cv_room 65536" "cv_ok 65536" for z
  by unfold_locales (simp_all only: PushBack_ok cv_cell_ok cv_list_nth length_cv_list)

lemma Init_ok:
  assumes "0 < b" "b < bm" "0 < g"
  shows "cv_ok bm (CV_Init new_cvec b g) \<and> cv_list (CV_Init new_cvec b g) = []"
  using assms by (simp add: cv_ok_def CV_Init_def new_cvec_def cv_groups_def cv_list_def)

text \<open>Reading: the value below the size, and otherwise the zero or a cleared cell.\<close>

lemma GetData_ok:
  assumes "cv_ok bm v" "i < cv_size v"
  shows "CV_GetData z v i = Some (cv_list v ! unat i)"
    and "CV_GetDataChecked v i = Some (True, Some (cv_list v ! unat i))"
proof -
  have l: "unat i < unat (cv_size v)" using assms(2) by (simp add: word_less_nat_alt)
  have g: "0 < cv_gap v" using assms(1) by (simp add: cv_ok_def)
  have "unat i < cv_num v * cv_gap v"
    using cv_groups_eq [OF g, of "cv_size v"] assms(1) l by (simp add: cv_ok_def)
  then have "unat i div cv_gap v < cv_num v" using g by (simp add: div_less_iff_less_mult)
  then show "CV_GetData z v i = Some (cv_list v ! unat i)"
    using cv_cell_ok [OF assms(1) l] g l by (simp add: CV_GetData_def cv_list_nth)
  show "CV_GetDataChecked v i = Some (True, Some (cv_list v ! unat i))"
    using cv_cell_ok [OF assms(1) l] g l assms(2) by (simp add: CV_GetDataChecked_def cv_list_nth)
qed

lemma GetLastData_ok:
  assumes "cv_ok bm v" "cv_size v \<noteq> 0"
  shows "CV_GetLastData v = Some (True, Some (last (cv_list v)))"
proof -
  have s: "0 < unat (cv_size v)" using assms(2) by (simp add: unat_gt_0)
  then have u: "unat (cv_size v - 1) = unat (cv_size v) - 1"
    using unat_minus_one [OF assms(2)] by simp
  have g: "0 < cv_gap v" using assms(1) by (simp add: cv_ok_def)
  then have "cv_groups (cv_size v) (cv_gap v) \<noteq> 0"
    using cv_groups_eq [OF g, of "cv_size v"] s by (cases "cv_groups (cv_size v) (cv_gap v)") auto
  then have "cv_num v \<noteq> 0" using assms(1) by (simp add: cv_ok_def)
  moreover have "last (cv_list v) = cv_nth v (unat (cv_size v) - 1)"
    using s last_conv_nth [of "cv_list v"] by (simp add: cv_list_nth flip: length_greater_0_conv)
  ultimately show ?thesis
    using cv_cell_ok [OF assms(1), of "unat (cv_size v) - 1"] s g u by (simp add: CV_GetLastData_def)
qed

lemma ResetData_ok:
  assumes ok: "cv_ok bm v" and i: "i < cv_size v"
  shows "\<exists>v'. CV_ResetData v i x = Some (True, v') \<and> cv_ok bm v' \<and> cv_list v' = (cv_list v)[unat i := x]"
proof -
  let ?g = "cv_gap v" and ?k = "unat i div cv_gap v" and ?r = "unat i mod cv_gap v"
  have l: "unat i < unat (cv_size v)" using i by (simp add: word_less_nat_alt)
  have g: "0 < ?g" "cv_num v \<le> length (cv_grps v)" using ok by (auto simp: cv_ok_def)
  have "unat i < cv_num v * ?g"
    using cv_groups_eq [OF g(1), of "cv_size v"] ok l by (simp add: cv_ok_def)
  then have k: "?k < cv_num v" using g by (simp add: div_less_iff_less_mult)
  then obtain gr where gr: "cv_grps v ! ?k = Some gr" "length gr = ?g" using ok by (auto simp: cv_ok_def)
  have kl: "?k < length (cv_grps v)" "?r < ?g" using k g by auto
  let ?v = "v\<lparr>cv_grps := (cv_grps v)[?k := Some (gr[?r := x])]\<rparr>"
  have r: "CV_ResetData v i x = Some (True, ?v)"
    using i g(1) gr kl by (simp add: CV_ResetData_def fetch_def store_def Let_def not_le)
  have "cv_ok bm ?v" using ok gr kl by (auto simp: cv_ok_def nth_list_update)
  moreover have "cv_list ?v = (cv_list v)[unat i := x]"
  proof (rule nth_equalityI)
    fix j
    assume "j < length (cv_list ?v)"
    then have j: "j < unat (cv_size v)" by simp
    have "cv_nth ?v j = (if j = unat i then x else cv_nth v j)"
    proof (cases "j div ?g = ?k")
      case True
      have "j = unat i \<longleftrightarrow> j mod ?g = ?r" using True by (metis div_mult_mod_eq)
      then show ?thesis using True gr kl by (auto simp: cv_nth_def)
    qed (auto simp: cv_nth_def)
    then show "cv_list ?v ! j = (cv_list v)[unat i := x] ! j"
      using j l by (simp add: cv_list_nth nth_list_update)
  qed simp
  ultimately show ?thesis using r by blast
qed

text \<open>
  Growing beyond the capacity always overruns the new array of pointers, unless the number of
  groups per extension is one: the capacity is divided by it.
\<close>

lemma Resize_overrun:
  assumes ok: "cv_ok bm v" and b: "1 < cv_begin v" "cv_begin v \<le> cv_cap v"
    and n: "cv_cap v < cv_groups n (cv_gap v)" "cv_groups n (cv_gap v) < bm"
  shows "CV_Resize bm z vs v n = None"
proof -
  let ?N = "cv_groups n (cv_gap v)" and ?b = "cv_begin v" and ?c = "cv_cap v"
  let ?m = "(?N div ?b + (if ?N mod ?b \<noteq> 0 then 1 else 0)) mod bm"
  have "?N div ?b < ?N" using b n(1) by (intro div_less_dividend) auto
  then have "?N div ?b + (if ?N mod ?b \<noteq> 0 then 1 else 0) \<le> ?N" by auto
  then have m: "?m = ?N div ?b + (if ?N mod ?b \<noteq> 0 then 1 else 0)" using n(2) by simp
  have mN: "?m < ?N"
  proof (cases "?N mod ?b = 0")
    case True
    then show ?thesis using m \<open>?N div ?b < ?N\<close> by simp
  next
    case False
    have "?N div ?b * 2 \<le> ?N div ?b * ?b" using b(1) by (intro mult_le_mono2) auto
    also have "\<dots> < ?N" using False div_mult_mod_eq [of ?N ?b] by linarith
    finally show ?thesis using m False b n(1) by auto
  qed
  have alloc: "cv_alloc bm z (?N - cv_num v) w = None"
    if w: "cv_num w = cv_num v" "length (cv_grps w) < ?N" for w :: "'a cvec"
  proof -
    have "length (cv_grps u) < cv_num u + k \<Longrightarrow> cv_num u + k < bm \<Longrightarrow> cv_num u \<le> length (cv_grps u)
        \<Longrightarrow> cv_alloc bm z k u = None" for k and u :: "'a cvec"
    proof (induction k arbitrary: u)
      case (Suc k)
      show ?case
      proof (cases "cv_num u < length (cv_grps u)")
        case True
        let ?u = "u\<lparr>cv_grps := (cv_grps u)[cv_num u := Some (replicate (cv_gap u) z)], cv_num := Suc (cv_num u)\<rparr>"
        have "cv_alloc bm z k ?u = None" using Suc.prems True by (intro Suc.IH) auto
        then show ?thesis using True Suc.prems(2) by (simp add: store_def)
      next
        case False
        then show ?thesis by (simp add: store_def)
      qed
    qed simp
    note gen = this
    show ?thesis
    proof (cases "cv_num w \<le> length (cv_grps w)")
      case True
      then show ?thesis using gen [of w "?N - cv_num v"] w n ok by (auto simp: cv_ok_def)
    next
      case False
      then have "\<exists>j. ?N - cv_num v = Suc j" using w ok n(1) by (intro not0_implies_Suc) (auto simp: cv_ok_def)
      then show ?thesis using False by (auto simp: store_def)
    qed
  qed
  have lc: "length (cv_grps v) = ?c" using ok by (simp add: cv_ok_def)
  have rg: "cv_regrow bm v ?N = (if ?c \<le> ?m then Some (v\<lparr>cv_cap := ?m,
      cv_grps := take ?c (cv_grps v) @ replicate (?m - ?c) None\<rparr>) else None)"
    using b(1) by (simp add: cv_regrow_def Let_def)
  have "cv_num v \<le> ?c" using ok by (simp add: cv_ok_def)
  then have "\<not> ?N \<le> cv_num v" using n(1) by linarith
  then have e: "CV_Resize bm z vs v n = (if cv_gap v = 0 then None else do {
      v1 \<leftarrow> cv_regrow bm v ?N; v2 \<leftarrow> cv_alloc bm z (?N - cv_num v1) v1; Some (v2\<lparr>cv_size := n\<rparr>) })"
    using n(1) by (simp add: CV_Resize_def Let_def)
  show ?thesis
  proof (cases "?c \<le> ?m")
    case True
    then show ?thesis unfolding e rg
      using alloc [of "v\<lparr>cv_cap := ?m, cv_grps := take ?c (cv_grps v) @ replicate (?m - ?c) None\<rparr>"] lc mN
      by simp
  next
    case False
    then show ?thesis unfolding e rg by simp
  qed
qed

end
