(* ===== verification/VidMgr.thy ===== *)
theory VidMgr
  imports AwaPrelude
begin

text \<open>
  \<open>VIDMgr\<close> (\<open>vector/raw_vector_common.h\<close>): which vectors belong to which document. Without
  \<open>multi_vids_\<close> a vector has the id of its document. A list of vector ids is an array of
  \<open>MAX_VECTOR_NUM_PER_DOC + 1\<close> ints, the first of which counts; a cell nobody wrote is \<open>None\<close>, and
  reading it, like leaving an array, is \<open>None\<close>.
\<close>

abbreviation max_vector_num_per_doc :: int where "max_vector_num_per_doc \<equiv> 10"

record vid_mgr =
  vm_multi :: bool
  vm_v2d :: "int list"
  vm_d2v :: "int option list option list"

definition new_vid_mgr :: "bool \<Rightarrow> vid_mgr" where
  "new_vid_mgr multi = \<lparr>vm_multi = multi, vm_v2d = [], vm_d2v = []\<rparr>"

definition resized :: "'a list \<Rightarrow> nat \<Rightarrow> 'a \<Rightarrow> 'a list" where
  "resized xs n x = take n xs @ replicate (n - length xs) x"

definition VM_Init :: "vid_mgr \<Rightarrow> nat \<Rightarrow> int \<Rightarrow> vid_mgr \<times> int" where
  "VM_Init m max_vector_size total_mem_bytes =
     (if vm_multi m
      then (m\<lparr>vm_v2d := resized (vm_v2d m) max_vector_size (-1),
              vm_d2v := resized (vm_d2v m) max_vector_size None\<rparr>,
            total_mem_bytes + int max_vector_size * 4 + int max_vector_size * 8)
      else (m, total_mem_bytes))"

definition VM_Add :: "vid_mgr \<Rightarrow> int \<Rightarrow> int \<Rightarrow> (int \<times> vid_mgr) option" where
  "VM_Add m vid docid =
     (if vm_multi m then do {
        v2d \<leftarrow> store (vm_v2d m) vid docid;
        let m1 = m\<lparr>vm_v2d := v2d\<rparr>;
        entry \<leftarrow> fetch (vm_d2v m1) docid;
        case entry of
          None \<Rightarrow> do {
            let vid_list = (replicate (nat (max_vector_num_per_doc + 1)) None)[0 := Some 1, 1 := Some vid];
            d2v \<leftarrow> store (vm_d2v m1) docid (Some vid_list);
            Some (0, m1\<lparr>vm_d2v := d2v\<rparr>) }
        | Some vid_list \<Rightarrow> do {
            c \<leftarrow> fetch vid_list 0;
            n \<leftarrow> c;
            if n \<ge> max_vector_num_per_doc then Some (-1, m1)
            else do {
              l1 \<leftarrow> store vid_list n (Some vid);
              c1 \<leftarrow> fetch l1 0;
              n1 \<leftarrow> c1;
              l2 \<leftarrow> store l1 0 (Some (n1 + 1));
              d2v \<leftarrow> store (vm_d2v m1) docid (Some l2);
              Some (0, m1\<lparr>vm_d2v := d2v\<rparr>) } } }
      else Some (0, m))"

definition VM_VID2DocID :: "vid_mgr \<Rightarrow> int \<Rightarrow> int option" where
  "VM_VID2DocID m vid = (if \<not> vm_multi m then Some vid else fetch (vm_v2d m) vid)"

definition vid_cell :: "vid_mgr \<Rightarrow> int \<Rightarrow> int \<Rightarrow> int option" where
  "vid_cell m docid i = do { entry \<leftarrow> fetch (vm_d2v m) docid; l \<leftarrow> entry; c \<leftarrow> fetch l i; c }"

fun vid_cells :: "vid_mgr \<Rightarrow> int \<Rightarrow> int list \<Rightarrow> int list option" where
  "vid_cells m docid [] = Some []"
| "vid_cells m docid (i # is) =
     do { v \<leftarrow> vid_cell m docid (i + 1); vs \<leftarrow> vid_cells m docid is; Some (v # vs) }"

definition VM_DocID2VID :: "vid_mgr \<Rightarrow> int \<Rightarrow> int list option" where
  "VM_DocID2VID m docid =
     (if \<not> vm_multi m then Some [docid]
      else do { n_vids \<leftarrow> vid_cell m docid 0; vid_cells m docid [0..n_vids - 1] })"

definition VM_GetFirstVID :: "vid_mgr \<Rightarrow> int \<Rightarrow> int option" where
  "VM_GetFirstVID m docid =
     (if \<not> vm_multi m then Some docid
      else do { n_vids \<leftarrow> vid_cell m docid 0; if n_vids \<le> 0 then Some (-1) else vid_cell m docid 1 })"

definition VM_GetLastVID :: "vid_mgr \<Rightarrow> int \<Rightarrow> int option" where
  "VM_GetLastVID m docid =
     (if \<not> vm_multi m then Some docid
      else do { n_vids \<leftarrow> vid_cell m docid 0; if n_vids \<le> 0 then Some (-1) else vid_cell m docid n_vids })"

text \<open>One vector for each document: every question is answered by the id itself.\<close>

lemma single_vids:
  assumes "\<not> vm_multi m"
  shows "VM_Add m v d = Some (0, m)" "VM_VID2DocID m v = Some v" "VM_DocID2VID m d = Some [d]"
    "VM_GetFirstVID m d = Some d" "VM_GetLastVID m d = Some d"
  using assms by (simp_all add: VM_Add_def VM_VID2DocID_def VM_DocID2VID_def VM_GetFirstVID_def VM_GetLastVID_def)

text \<open>The first vector of a document.\<close>

lemma Add_first:
  assumes m: "vm_multi m" "fetch (vm_v2d m) v = Some x" "fetch (vm_d2v m) d = Some None"
  shows "\<exists>m'. VM_Add m v d = Some (0, m') \<and> vm_multi m' \<and> VM_VID2DocID m' v = Some d \<and>
    VM_DocID2VID m' d = Some [v] \<and> VM_GetFirstVID m' d = Some v \<and> VM_GetLastVID m' d = Some v \<and>
    fetch (vm_d2v m') d = Some (Some ([Some 1, Some v] @ replicate 9 None)) \<and>
    length (vm_v2d m') = length (vm_v2d m)"
proof -
  have b: "0 \<le> v" "v < int (length (vm_v2d m))" "0 \<le> d" "d < int (length (vm_d2v m))"
    using m by (auto simp: fetch_Some_iff)
  let ?l = "[Some 1, Some v] @ replicate 9 None :: int option list"
  have l: "(replicate (nat (max_vector_num_per_doc + 1)) None)[0 := Some 1, 1 := Some v] = ?l"
    by (simp add: numeral_eq_Suc)
  let ?m = "m\<lparr>vm_v2d := (vm_v2d m)[nat v := d], vm_d2v := (vm_d2v m)[nat d := Some ?l]\<rparr>"
  have a: "VM_Add m v d = Some (0, ?m)"
    using m b l by (simp add: VM_Add_def store_def)
  have c: "vid_cell ?m d i = do { c \<leftarrow> fetch ?l i; c }" for i
    using b by (simp add: vid_cell_def fetch_def nat_less_iff)
  have c01: "vid_cell ?m d 0 = Some 1" "vid_cell ?m d 1 = Some v" unfolding c by (simp_all add: fetch_def)
  have z: "[0..1 - 1] = [0::int]" by (simp add: upto_rec1)
  show ?thesis
    using a b m(1) c01 z by (intro exI [of _ ?m])
      (simp add: VM_VID2DocID_def VM_DocID2VID_def VM_GetFirstVID_def VM_GetLastVID_def fetch_def nat_less_iff)
qed

text \<open>
  A second vector overwrites the first in the list of its document: the count goes up, but the
  cell written is the one at the old count.
\<close>

lemma Add_second:
  assumes m: "vm_multi m" "fetch (vm_v2d m) w = Some x"
    and l: "fetch (vm_d2v m) d = Some (Some ([Some 1, Some v] @ replicate 9 None))"
  shows "\<exists>m'. VM_Add m w d = Some (0, m') \<and> VM_VID2DocID m' w = Some d \<and>
    VM_GetFirstVID m' d = Some w \<and> VM_GetLastVID m' d = None \<and> VM_DocID2VID m' d = None"
proof -
  have b: "0 \<le> w" "w < int (length (vm_v2d m))" "0 \<le> d" "d < int (length (vm_d2v m))"
    using assms by (auto simp: fetch_Some_iff)
  let ?l = "[Some 2, Some w] @ replicate 9 None :: int option list"
  let ?m = "m\<lparr>vm_v2d := (vm_v2d m)[nat w := d], vm_d2v := (vm_d2v m)[nat d := Some ?l]\<rparr>"
  have a: "VM_Add m w d = Some (0, ?m)"
    using m(1) b l by (simp add: VM_Add_def store_def fetch_def)
  have c: "vid_cell ?m d i = do { c \<leftarrow> fetch ?l i; c }" for i
    using b by (simp add: vid_cell_def fetch_def nat_less_iff)
  have c2: "vid_cell ?m d 0 = Some 2" "vid_cell ?m d 1 = Some w" "vid_cell ?m d 2 = None"
    unfolding c by (simp_all add: fetch_def)
  have z: "[0..2 - 1] = [0, 1::int]" by (simp add: upto_rec1)
  show ?thesis
    using a b m(1) c2 z by (intro exI [of _ ?m])
      (simp add: VM_VID2DocID_def VM_DocID2VID_def VM_GetFirstVID_def VM_GetLastVID_def fetch_def nat_less_iff)
qed

end
