(* ===== verification/RealtimeData.thy ===== *)
theory RealtimeData
  imports Complex_Main BitmapManager VidMgr
begin

text \<open>
  The realtime inverted lists: \<open>RTInvertBucketData\<close> and \<open>RealTimeMemData\<close>
  (\<open>realtime/realtime_mem_data.{h,cc}\<close>). A bucket is an array of vector ids and one of their codes,
  \<open>cb\<close> bytes each, of which the first \<open>retrieve_idx_pos_\<close> are in use; a table gives the bucket and
  the position of every vector id. A cell that nobody wrote is \<open>None\<close>; leaving an array or a failed
  assert is \<open>None\<close>. The extended or compacted copy of the bucket data shares its arrays with the
  old one and replaces it, so one value stands for both; the deferred release of the old arrays is
  a list of the sizes still to be given back. Allocation with \<open>nothrow\<close> is taken to succeed.
\<close>

subsection \<open>Positions\<close>

definition pack_pos :: "int \<Rightarrow> int \<Rightarrow> u64" where
  "pack_pos bucket_no pos = push_bit 32 (word_of_int bucket_no) OR word_of_int pos"

definition pos_bucket :: "u64 \<Rightarrow> int" where
  "pos_bucket w = sint (ucast (signed_drop_bit 32 w) :: u32)"

definition pos_index :: "u64 \<Rightarrow> int" where
  "pos_index w = sint (ucast (w AND 0xffffffff) :: u32)"

abbreviation kDelIdxMask :: u64 where "kDelIdxMask \<equiv> 0x8000000000000000"
abbreviation kRecoverIdxMask :: u64 where "kRecoverIdxMask \<equiv> 0x7fffffffffffffff"

subsection \<open>Bucket data\<close>

record rtd =
  rt_idx :: "u64 option list list"
  rt_rpos :: "int list"
  rt_cap :: "int list"
  rt_ext :: "byte list"
  rt_codes :: "byte option list list"
  rt_vpos :: "u64 list"
  rt_del :: "int list"
  rt_compacted :: int
  rt_buckets :: int
  rt_nids :: int

definition RT_Init :: "nat \<Rightarrow> nat \<Rightarrow> nat \<Rightarrow> int \<Rightarrow> rtd \<times> int" where
  "RT_Init buckets_num bucket_keys cb tot =
     (\<lparr>rt_idx = replicate buckets_num (replicate bucket_keys None),
       rt_rpos = replicate buckets_num 0,
       rt_cap = replicate buckets_num (int bucket_keys),
       rt_ext = replicate buckets_num 0,
       rt_codes = replicate buckets_num (replicate (bucket_keys * cb) None),
       rt_vpos = replicate (buckets_num * bucket_keys) (-1),
       rt_del = replicate buckets_num 0,
       rt_compacted = 0, rt_buckets = int buckets_num, rt_nids = int (buckets_num * bucket_keys)\<rparr>,
      tot + int (buckets_num * bucket_keys) * 8 + int (buckets_num * bucket_keys * cb)
        + int buckets_num * 4 + int buckets_num * 8)"

text \<open>\<open>memcpy\<close> of \<open>n\<close> cells.\<close>

definition blit :: "'a list \<Rightarrow> int \<Rightarrow> 'a list \<Rightarrow> int \<Rightarrow> int \<Rightarrow> 'a list option" where
  "blit dst d src s n =
     (if 0 \<le> d \<and> 0 \<le> s \<and> 0 \<le> n \<and> d + n \<le> int (length dst) \<and> s + n \<le> int (length src)
      then Some (take (nat d) dst @ take (nat n) (drop (nat s) src) @ drop (nat (d + n)) dst)
      else None)"

definition rt_deleted :: "vid_mgr \<Rightarrow> bitmap_mgr \<Rightarrow> u64 \<Rightarrow> bool option" where
  "rt_deleted vm bmg k =
     do { d \<leftarrow> VM_VID2DocID vm (sint (ucast k :: u32)); BM_Test bmg (word_of_int d) }"

text \<open>\<open>CompactOne\<close> on entry \<open>i\<close>; the target so far, its length \<open>pos\<close> and the position table.\<close>

type_synonym compaction = "u64 option list \<times> byte option list \<times> int \<times> u64 list"

definition RT_CompactOne :: "vid_mgr \<Rightarrow> bitmap_mgr \<Rightarrow> int \<Rightarrow> int \<Rightarrow> u64 option list \<Rightarrow> byte option list \<Rightarrow>
    int \<Rightarrow> compaction \<Rightarrow> compaction option" where
  "RT_CompactOne vm bmg cb bucket_no src_idx src_codes i st =
     (case st of (dst_idx, dst_codes, pos, vpos) \<Rightarrow> do {
        c \<leftarrow> fetch src_idx i;
        k \<leftarrow> c;
        dead \<leftarrow> (if k AND kDelIdxMask \<noteq> 0 then Some True else rt_deleted vm bmg (k AND kRecoverIdxMask));
        if \<not> dead then do {
          dst_idx' \<leftarrow> store dst_idx pos (Some k);
          dst_codes' \<leftarrow> blit dst_codes (pos * cb) src_codes (i * cb) cb;
          vpos' \<leftarrow> store vpos (sint k) (pack_pos bucket_no pos);
          Some (dst_idx', dst_codes', pos + 1, vpos') }
        else Some st })"

fun compact_loop :: "vid_mgr \<Rightarrow> bitmap_mgr \<Rightarrow> int \<Rightarrow> int \<Rightarrow> u64 option list \<Rightarrow> byte option list \<Rightarrow>
    nat \<Rightarrow> compaction \<Rightarrow> compaction option" where
  "compact_loop vm bmg cb b src_idx src_codes 0 st = Some st"
| "compact_loop vm bmg cb b src_idx src_codes (Suc n) st =
     do { st' \<leftarrow> compact_loop vm bmg cb b src_idx src_codes n st;
          RT_CompactOne vm bmg cb b src_idx src_codes (int n) st' }"

definition RT_CompactBucket :: "vid_mgr \<Rightarrow> bitmap_mgr \<Rightarrow> int \<Rightarrow> rtd \<Rightarrow> int \<Rightarrow> rtd option" where
  "RT_CompactBucket vm bmg cb d b =
     do {
       old_pos \<leftarrow> fetch (rt_rpos d) b;
       src_idx \<leftarrow> fetch (rt_idx d) b;
       src_codes \<leftarrow> fetch (rt_codes d) b;
       cap \<leftarrow> fetch (rt_cap d) b;
       (dst_idx, dst_codes, pos, vpos) \<leftarrow> compact_loop vm bmg cb b src_idx src_codes (nat old_pos)
          (replicate (nat cap) None, replicate (nat (cb * cap)) None, 0, rt_vpos d);
       idx \<leftarrow> store (rt_idx d) b dst_idx;
       codes \<leftarrow> store (rt_codes d) b dst_codes;
       rpos \<leftarrow> store (rt_rpos d) b pos;
       del \<leftarrow> store (rt_del d) b 0;
       Some (d\<lparr>rt_idx := idx, rt_codes := codes, rt_rpos := rpos, rt_del := del, rt_vpos := vpos,
               rt_compacted := rt_compacted d + (old_pos - pos)\<rparr>) }"

text \<open>The growth of a bucket, over the reals instead of doubles; \<open>(int)\<close> rounds towards zero.\<close>

definition ExtendCoefficient :: "byte \<Rightarrow> real" where
  "ExtendCoefficient extend_time = 1.1 + 3.14159265 / 2 - arctan (real (unat extend_time))"

definition scaled :: "byte \<Rightarrow> int \<Rightarrow> int" where
  "scaled t x = \<lfloor>real_of_int x * ExtendCoefficient t\<rfloor>"

partial_function (option) extend_loop :: "byte \<Rightarrow> int \<Rightarrow> int \<Rightarrow> (byte \<times> int) option" where
  "extend_loop t extend_size least =
     (if extend_size < least then extend_loop (t + 1) (scaled (t + 1) extend_size) least
      else Some (t, extend_size))"

definition RT_ExtendBucketMem :: "rtd \<Rightarrow> int \<Rightarrow> int \<Rightarrow> int \<Rightarrow> int \<Rightarrow> (rtd \<times> int) option" where
  "RT_ExtendBucketMem d b increment cb tot =
     do {
       rpos \<leftarrow> fetch (rt_rpos d) b;
       cap \<leftarrow> fetch (rt_cap d) b;
       t \<leftarrow> fetch (rt_ext d) b;
       (t', extend_size) \<leftarrow> extend_loop (t + 1) (scaled (t + 1) cap) (rpos + increment);
       ext \<leftarrow> store (rt_ext d) b t';
       old_codes \<leftarrow> fetch (rt_codes d) b;
       new_codes \<leftarrow> blit (replicate (nat (extend_size * cb)) None) 0 old_codes 0 (rpos * cb);
       codes \<leftarrow> store (rt_codes d) b new_codes;
       old_idx \<leftarrow> fetch (rt_idx d) b;
       new_idx \<leftarrow> blit (replicate (nat extend_size) None) 0 old_idx 0 rpos;
       idx \<leftarrow> store (rt_idx d) b new_idx;
       caps \<leftarrow> store (rt_cap d) b extend_size;
       Some (d\<lparr>rt_ext := ext, rt_codes := codes, rt_idx := idx, rt_cap := caps\<rparr>,
             tot + extend_size * cb + extend_size * 8) }"

definition RT_Delete :: "rtd \<Rightarrow> int \<Rightarrow> rtd option" where
  "RT_Delete d vid =
     do {
       p \<leftarrow> fetch (rt_vpos d) vid;
       if p = -1 then Some d
       else do {
         n \<leftarrow> fetch (rt_del d) (pos_bucket p);
         del \<leftarrow> store (rt_del d) (pos_bucket p) (n + 1);
         Some (d\<lparr>rt_del := del\<rparr>) } }"

definition RT_ExtendIDs :: "rtd \<Rightarrow> rtd" where
  "RT_ExtendIDs d = d\<lparr>rt_vpos := take (nat (rt_nids d)) (rt_vpos d) @ replicate (nat (rt_nids d)) (-1),
     rt_nids := rt_nids d * 2\<rparr>"

subsection \<open>The realtime memory data\<close>

record rtm =
  rm_cur :: rtd
  rm_buckets :: int
  rm_limit :: int
  rm_cb :: int
  rm_mem :: int
  rm_frees :: "int list"

definition RM_Init :: "nat \<Rightarrow> nat \<Rightarrow> nat \<Rightarrow> nat \<Rightarrow> rtm" where
  "RM_Init buckets_num bucket_keys bucket_keys_limit cb =
     (case RT_Init buckets_num bucket_keys cb 0 of (d, tot) \<Rightarrow>
        \<lparr>rm_cur = d, rm_buckets = int buckets_num, rm_limit = int bucket_keys_limit, rm_cb = int cb,
         rm_mem = tot, rm_frees = []\<rparr>)"

text \<open>The deferred release of the old arrays of a bucket.\<close>

definition RM_FreeOldData :: "rtm \<Rightarrow> rtm" where
  "RM_FreeOldData m = (case rm_frees m of [] \<Rightarrow> m
     | sz # fs \<Rightarrow> m\<lparr>rm_mem := rm_mem m - sz, rm_frees := fs\<rparr>)"

definition RM_AdjustBucketMem :: "vid_mgr \<Rightarrow> bitmap_mgr \<Rightarrow> rtm \<Rightarrow> int \<Rightarrow> int \<Rightarrow> int \<Rightarrow> (bool \<times> rtm) option" where
  "RM_AdjustBucketMem vm bmg m b type increment =
     do {
       old_keys \<leftarrow> fetch (rt_cap (rm_cur m)) b;
       if type = 0 then do {
         (d, tot) \<leftarrow> RT_ExtendBucketMem (rm_cur m) b increment (rm_cb m) (rm_mem m);
         Some (True, m\<lparr>rm_cur := d, rm_mem := tot,
           rm_frees := rm_frees m @ [old_keys * 8 + old_keys * rm_cb m]\<rparr>) }
       else do {
         d \<leftarrow> RT_CompactBucket vm bmg (rm_cb m) (rm_cur m) b;
         Some (True, m\<lparr>rm_cur := d, rm_frees := rm_frees m @ [0]\<rparr>) } }"

definition RM_ExtendBucketMem :: "vid_mgr \<Rightarrow> bitmap_mgr \<Rightarrow> rtm \<Rightarrow> int \<Rightarrow> int \<Rightarrow> (bool \<times> rtm) option" where
  "RM_ExtendBucketMem vm bmg m b increment = RM_AdjustBucketMem vm bmg m b 0 increment"

definition RM_CompactBucket :: "vid_mgr \<Rightarrow> bitmap_mgr \<Rightarrow> rtm \<Rightarrow> int \<Rightarrow> (bool \<times> rtm) option" where
  "RM_CompactBucket vm bmg m b = RM_AdjustBucketMem vm bmg m b 1 0"

definition RM_ExtendBucketIfNeed :: "vid_mgr \<Rightarrow> bitmap_mgr \<Rightarrow> rtm \<Rightarrow> int \<Rightarrow> int \<Rightarrow> (int \<times> rtm) option" where
  "RM_ExtendBucketIfNeed vm bmg m b keys_size =
     do {
       rpos \<leftarrow> fetch (rt_rpos (rm_cur m)) b;
       cap \<leftarrow> fetch (rt_cap (rm_cur m)) b;
       if rpos + keys_size \<le> cap then Some (0, m)
       else if cap * 2 \<ge> rm_limit m then Some (-1, m)
       else do {
         (ok, m') \<leftarrow> RM_ExtendBucketMem vm bmg m b keys_size;
         Some (if ok then 0 else -2, m') } }"

partial_function (option) extend_ids :: "rtd \<Rightarrow> int \<Rightarrow> rtd option" where
  "extend_ids d key = (if key \<ge> rt_nids d then extend_ids (RT_ExtendIDs d) key else Some d)"

text \<open>The table entries of the keys added; a key of a deleted document counts as deleted at once.\<close>

fun place_keys :: "vid_mgr \<Rightarrow> bitmap_mgr \<Rightarrow> rtd \<Rightarrow> int \<Rightarrow> int \<Rightarrow> u64 list \<Rightarrow> (rtd \<times> int) option" where
  "place_keys vm bmg d b pos [] = Some (d, pos)"
| "place_keys vm bmg d b pos (k # ks) =
     do {
       d1 \<leftarrow> extend_ids d (uint k);
       vpos \<leftarrow> store (rt_vpos d1) (uint k) (pack_pos b pos);
       let d2 = d1\<lparr>rt_vpos := vpos\<rparr>;
       dead \<leftarrow> rt_deleted vm bmg k;
       d3 \<leftarrow> (if dead then RT_Delete d2 (sint (ucast k :: u32)) else Some d2);
       place_keys vm bmg d3 b (pos + 1) ks }"

definition RM_AddKeys :: "vid_mgr \<Rightarrow> bitmap_mgr \<Rightarrow> rtm \<Rightarrow> int \<Rightarrow> int \<Rightarrow> u64 list \<Rightarrow> byte list \<Rightarrow> (bool \<times> rtm) option" where
  "RM_AddKeys vm bmg m list_no n keys keys_codes =
     do {
       (e, m1) \<leftarrow> RM_ExtendBucketIfNeed vm bmg m list_no n;
       if e \<noteq> 0 then Some (False, m1)
       else if int (length keys) * rm_cb m1 \<noteq> int (length keys_codes) then Some (False, m1)
       else do {
         let d = rm_cur m1;
         rpos \<leftarrow> fetch (rt_rpos d) list_no;
         idx0 \<leftarrow> fetch (rt_idx d) list_no;
         idx1 \<leftarrow> blit idx0 rpos (map Some keys) 0 (int (length keys));
         idx \<leftarrow> store (rt_idx d) list_no idx1;
         codes0 \<leftarrow> fetch (rt_codes d) list_no;
         codes1 \<leftarrow> blit codes0 (rpos * rm_cb m1) (map Some keys_codes) 0 (int (length keys_codes));
         codes \<leftarrow> store (rt_codes d) list_no codes1;
         (d2, pos) \<leftarrow> place_keys vm bmg (d\<lparr>rt_idx := idx, rt_codes := codes\<rparr>) list_no rpos keys;
         rp \<leftarrow> store (rt_rpos d2) list_no pos;
         Some (True, m1\<lparr>rm_cur := d2\<lparr>rt_rpos := rp\<rparr>\<rparr>) } }"

text \<open>\<open>Update\<close>; \<open>AddKeys\<close>' result is converted to an \<open>int\<close>: 1 when it succeeds.\<close>

definition RM_Update :: "vid_mgr \<Rightarrow> bitmap_mgr \<Rightarrow> rtm \<Rightarrow> int \<Rightarrow> int \<Rightarrow> byte list \<Rightarrow> (int \<times> rtm) option" where
  "RM_Update vm bmg m b vid codes =
     (let d = rm_cur m in
      if vid < 0 \<or> vid \<ge> rt_nids d then Some (0, m)
      else do {
        p \<leftarrow> fetch (rt_vpos d) vid;
        if p = -1 then Some (0, m)
        else if rm_cb m \<noteq> int (length codes) then None
        else do {
          let ob = pos_bucket p;
          let op = pos_index p;
          if ob = b then do {
            c0 \<leftarrow> fetch (rt_codes d) ob;
            c1 \<leftarrow> blit c0 (op * rm_cb m) (map Some codes) 0 (int (length codes));
            cs \<leftarrow> store (rt_codes d) ob c1;
            Some (0, m\<lparr>rm_cur := d\<lparr>rt_codes := cs\<rparr>\<rparr>) }
          else do {
            l0 \<leftarrow> fetch (rt_idx d) ob;
            c \<leftarrow> fetch l0 op;
            k \<leftarrow> c;
            l1 \<leftarrow> store l0 op (Some (k OR kDelIdxMask));
            idx \<leftarrow> store (rt_idx d) ob l1;
            n \<leftarrow> fetch (rt_del d) ob;
            del \<leftarrow> store (rt_del d) ob (n + 1);
            (r, m') \<leftarrow> RM_AddKeys vm bmg (m\<lparr>rm_cur := d\<lparr>rt_idx := idx, rt_del := del\<rparr>\<rparr>) b 1
                         [word_of_int vid] codes;
            Some (if r then 1 else 0, m') } } })"

fun RM_Delete :: "rtm \<Rightarrow> int list \<Rightarrow> (int \<times> rtm) option" where
  "RM_Delete m [] = Some (0, m)"
| "RM_Delete m (vid # vids) =
     (if rt_nids (rm_cur m) > vid
      then do { d \<leftarrow> RT_Delete (rm_cur m) vid; RM_Delete (m\<lparr>rm_cur := d\<rparr>) vids }
      else RM_Delete m vids)"

text \<open>
  \<open>(float)deleted / size >= 0.3f\<close> for counts below \<open>2 ^ 24\<close>, which a \<open>float\<close> holds exactly: the
  rounded quotient is at least \<open>0.3f\<close> when the quotient is at least the midpoint below \<open>0.3f\<close>,
  which is \<open>20132659 / 2 ^ 26\<close>. A size of 0 gives NaN or infinity.
\<close>

definition compact_ratio :: "int \<Rightarrow> int \<Rightarrow> bool" where
  "compact_ratio deleted sz = (if sz = 0 then deleted > 0 else 67108864 * deleted \<ge> 20132659 * sz)"

definition RM_Compactable :: "rtm \<Rightarrow> int \<Rightarrow> bool option" where
  "RM_Compactable m b =
     do { n \<leftarrow> fetch (rt_del (rm_cur m)) b; sz \<leftarrow> fetch (rt_rpos (rm_cur m)) b; Some (compact_ratio n sz) }"

fun compact_buckets :: "vid_mgr \<Rightarrow> bitmap_mgr \<Rightarrow> rtm \<Rightarrow> int list \<Rightarrow> (int \<times> rtm) option" where
  "compact_buckets vm bmg m [] = Some (0, m)"
| "compact_buckets vm bmg m (b # bs) =
     do {
       c \<leftarrow> RM_Compactable m b;
       if c then do {
         (ok, m') \<leftarrow> RM_CompactBucket vm bmg m b;
         if ok then compact_buckets vm bmg m' bs else Some (-2, m') }
       else compact_buckets vm bmg m bs }"

definition RM_CompactIfNeed :: "vid_mgr \<Rightarrow> bitmap_mgr \<Rightarrow> rtm \<Rightarrow> (int \<times> rtm) option" where
  "RM_CompactIfNeed vm bmg m = compact_buckets vm bmg m [0..rm_buckets m - 1]"

definition RM_GetIvtList :: "rtm \<Rightarrow> int \<Rightarrow> (u64 option list \<times> byte option list) option" where
  "RM_GetIvtList m b = do { l \<leftarrow> fetch (rt_idx (rm_cur m)) b; c \<leftarrow> fetch (rt_codes (rm_cur m)) b; Some (l, c) }"

definition RM_RetrieveCodes :: "rtm \<Rightarrow> int \<Rightarrow> int \<Rightarrow> int \<Rightarrow> (byte option list \<times> u64 option list) option" where
  "RM_RetrieveCodes m b pos n =
     do { l \<leftarrow> fetch (rt_idx (rm_cur m)) b;
          vids \<leftarrow> blit (replicate (nat n) None) 0 l pos n;
          c \<leftarrow> fetch (rt_codes (rm_cur m)) b;
          codes \<leftarrow> blit (replicate (nat (n * rm_cb m)) None) 0 c (pos * rm_cb m) (n * rm_cb m);
          Some (codes, vids) }"

subsection \<open>The realtime index and its view as inverted lists\<close>

text \<open>
  \<open>RTInvertIndex\<close> and \<open>RTInvertedLists\<close> (\<open>realtime/realtime_invert_index.cc\<close>). A \<open>std::map\<close> is an
  association list with ascending keys.
\<close>

fun RI_AddKeys :: "vid_mgr \<Rightarrow> bitmap_mgr \<Rightarrow> int \<Rightarrow> rtm \<Rightarrow> (int \<times> u64 list) list \<Rightarrow> (int \<times> byte list) list \<Rightarrow>
    (bool \<times> rtm) option" where
  "RI_AddKeys vm bmg code_size m [] new_codes = Some (True, m)"
| "RI_AddKeys vm bmg code_size m ((b, keys) # rest) new_codes =
     (case map_of new_codes b of
        None \<Rightarrow> RI_AddKeys vm bmg code_size m rest new_codes
      | Some codes \<Rightarrow>
          if int (length keys) * code_size \<noteq> int (length codes)
          then RI_AddKeys vm bmg code_size m rest new_codes
          else do {
            (ok, m') \<leftarrow> RM_AddKeys vm bmg m b (int (length keys)) keys codes;
            if ok then RI_AddKeys vm bmg code_size m' rest new_codes else Some (False, m') })"

definition RI_GetIvtList :: "rtm \<Rightarrow> int \<Rightarrow> (int \<times> u64 option list \<times> byte option list) option" where
  "RI_GetIvtList m b = do { sz \<leftarrow> fetch (rt_rpos (rm_cur m)) b; (l, c) \<leftarrow> RM_GetIvtList m b; Some (sz, l, c) }"

definition RL_list_size :: "rtm option \<Rightarrow> int \<Rightarrow> int option" where
  "RL_list_size p list_no = (case p of None \<Rightarrow> Some 0
     | Some m \<Rightarrow> do { (sz, l, c) \<leftarrow> RI_GetIvtList m list_no; Some sz })"

definition RL_get_codes :: "rtm option \<Rightarrow> int \<Rightarrow> byte option list option option" where
  "RL_get_codes p list_no = (case p of None \<Rightarrow> Some None
     | Some m \<Rightarrow> do { (sz, l, c) \<leftarrow> RI_GetIvtList m list_no; Some (Some c) })"

definition RL_get_ids :: "rtm option \<Rightarrow> int \<Rightarrow> u64 option list option option" where
  "RL_get_ids p list_no = (case p of None \<Rightarrow> Some None
     | Some m \<Rightarrow> do { (sz, l, c) \<leftarrow> RI_GetIvtList m list_no; Some (Some l) })"

end
