(* ===== verification/RealtimeLists.thy ===== *)
theory RealtimeLists
  imports RealtimeData
begin

text \<open>
  What the realtime lists of \<open>RealtimeData\<close> store: a bucket is a list of pairs of a vector id and
  its code. Adding appends, extending keeps, compacting drops the entries that are marked or whose
  document is deleted, and the table of positions names the place of every unmarked entry.
\<close>

subsection \<open>Positions\<close>

lemma pack_pos_uint:
  assumes "0 \<le> b" "b < 2147483648" "0 \<le> p" "p < 2147483648"
  shows "uint (pack_pos b p) = b * 4294967296 + p"
proof -
  have b: "uint (word_of_int b :: u64) = b" and p: "uint (word_of_int p :: u64) = p"
    using assms by (simp_all add: uint_word_of_int)
  have tp: "take_bit 32 p = p" using assms(3,4) by (simp add: take_bit_int_eq_self)
  have pb: "push_bit 32 b = b * 4294967296" by (simp add: push_bit_eq_mult)
  have "uint (push_bit 32 (word_of_int b :: u64)) = push_bit 32 b"
    using assms(1,2) unfolding unsigned_push_bit_eq b pb by (simp add: take_bit_int_eq_self)
  then have "uint (pack_pos b p) = push_bit 32 b OR p"
    by (simp add: pack_pos_def uint_or p)
  also have "\<dots> = concat_bit 32 p b" by (simp add: concat_bit_def tp or.commute)
  also have "\<dots> = b * 4294967296 + p" by (simp add: concat_bit_eq tp pb)
  finally show ?thesis .
qed

lemma sint_u32_small:
  assumes "uint (x :: u64) = v" "v < 2147483648"
  shows "sint (ucast x :: u32) = v"
proof -
  have "0 \<le> v" using assms(1) uint_ge_0 [of x] by simp
  have "(ucast x :: u32) = word_of_int v" using assms(1) by (metis ucast_eq)
  then show ?thesis
    using assms(2) \<open>0 \<le> v\<close> by (simp add: sint_sbintrunc' signed_take_bit_int_eq_self)
qed

lemma pos_of_pack:
  assumes "0 \<le> b" "b < 2147483648" "0 \<le> p" "p < 2147483648"
  shows "pos_bucket (pack_pos b p) = b" "pos_index (pack_pos b p) = p" "pack_pos b p \<noteq> -1"
proof -
  let ?w = "pack_pos b p"
  note u = pack_pos_uint [OF assms]
  have lt: "0 \<le> uint ?w" "uint ?w < 2 ^ 63" unfolding u using assms by simp_all
  have s: "sint ?w = uint ?w"
  proof -
    have "- (2 ^ 63) \<le> uint ?w" by (rule order_trans [OF _ lt(1)]) simp
    then have "signed_take_bit 63 (uint ?w) = uint ?w" using lt(2) by (rule signed_take_bit_int_eq_self)
    then show ?thesis by (simp add: sint_uint)
  qed
  have d: "drop_bit 32 (b * 4294967296 + p) = b"
    using assms(3,4) by (simp add: drop_bit_eq_div)
  have "uint (signed_drop_bit 32 ?w) = take_bit 64 (sint (signed_drop_bit 32 ?w))"
    using uint_word_of_int_eq [of "sint (signed_drop_bit 32 ?w)", where ?'a = 64] by simp
  also have "\<dots> = b"
    using assms(1,2) d by (simp add: sint_signed_drop_bit_eq s u take_bit_int_eq_self)
  finally show "pos_bucket ?w = b" unfolding pos_bucket_def using assms(2) by (rule sint_u32_small)
  have "uint (?w AND 0xffffffff) = take_bit 32 (uint ?w)"
    by (simp add: uint_and take_bit_eq_mask mask_eq_exp_minus_1)
  also have "\<dots> = p" unfolding u using assms(3,4) by (simp add: take_bit_eq_mod)
  finally show "pos_index ?w = p" unfolding pos_index_def using assms(4) by (rule sint_u32_small)
  have "uint (-1 :: u64) = mask 64" by (simp add: unsigned_minus_1_eq_mask)
  also have "\<dots> = 2 ^ 64 - 1" by (simp add: mask_eq_exp_minus_1)
  finally show "?w \<noteq> -1" using lt by auto
qed

subsection \<open>Copying\<close>

lemma blit_splice_nth:
  assumes "d + n \<le> length dst" "s + n \<le> length src" "j < length dst"
  shows "(take d dst @ take n (drop s src) @ drop (d + n) dst) ! j =
    (if d \<le> j \<and> j < d + n then src ! (j - d + s) else dst ! j)"
proof -
  consider "j < d" | "d \<le> j" "j < d + n" | "d + n \<le> j" by linarith
  then show ?thesis
  proof cases
    case 1
    then show ?thesis using assms by (simp add: nth_append)
  next
    case 2
    then have "j - d < n" by linarith
    then show ?thesis using assms 2 by (simp add: nth_append add.commute)
  next
    case 3
    then have "\<not> j - d < n" by linarith
    then show ?thesis using assms 3 by (simp add: nth_append)
  qed
qed

lemma blit_ok:
  assumes "d + n \<le> length dst" "s + n \<le> length src"
  shows "\<exists>r. blit dst (int d) src (int s) (int n) = Some r \<and> length r = length dst \<and>
    (\<forall>j < length dst. r ! j = (if d \<le> j \<and> j < d + n then src ! (j - d + s) else dst ! j))"
proof -
  let ?r = "take d dst @ take n (drop s src) @ drop (d + n) dst"
  have "blit dst (int d) src (int s) (int n) = Some ?r"
    using assms by (simp add: blit_def nat_add_distrib del: nat_int_add)
  moreover have "length ?r = length dst" using assms by simp
  ultimately show ?thesis using blit_splice_nth [OF assms] by blast
qed

text \<open>The code of slot \<open>i\<close>.\<close>

definition slot :: "nat \<Rightarrow> 'a list \<Rightarrow> nat \<Rightarrow> 'a list" where
  "slot c xs i = take c (drop (i * c) xs)"

lemma slot_nth: "(i + 1) * c \<le> length xs \<Longrightarrow> j < c \<Longrightarrow> slot c xs i ! j = xs ! (i * c + j)"
  by (simp add: slot_def)

lemma length_slot: "(i + 1) * c \<le> length xs \<Longrightarrow> length (slot c xs i) = c"
  by (simp add: slot_def)

lemma slot_index: "j < (c::nat) \<Longrightarrow> p * c \<le> i * c + j \<longleftrightarrow> p \<le> i"
proof -
  assume j: "j < c"
  show ?thesis
  proof
    assume "p * c \<le> i * c + j"
    also have "\<dots> < Suc i * c" using j by simp
    finally show "p \<le> i" by (simp only: mult_less_cancel2 less_Suc_eq_le)
  next
    assume "p \<le> i"
    then have "p * c \<le> i * c" by (rule mult_le_mono1)
    also have "\<dots> \<le> i * c + j" by (rule le_add1)
    finally show "p * c \<le> i * c + j" .
  qed
qed

lemma blit_slots:
  assumes b: "(p + n) * c \<le> length dst" "(s + n) * c \<le> length src"
  shows "\<exists>r. blit dst (int (p * c)) src (int (s * c)) (int (n * c)) = Some r \<and> length r = length dst \<and>
    (\<forall>i. (i + 1) * c \<le> length dst \<longrightarrow>
       slot c r i = (if p \<le> i \<and> i < p + n then slot c src (i - p + s) else slot c dst i))"
proof -
  obtain r where r: "blit dst (int (p * c)) src (int (s * c)) (int (n * c)) = Some r" "length r = length dst"
    "\<forall>j < length dst. r ! j = (if p * c \<le> j \<and> j < p * c + n * c then src ! (j - p * c + s * c) else dst ! j)"
    using blit_ok [of "p * c" "n * c" dst "s * c" src] b unfolding add_mult_distrib by blast
  have "slot c r i = (if p \<le> i \<and> i < p + n then slot c src (i - p + s) else slot c dst i)"
    if i: "(i + 1) * c \<le> length dst" for i
  proof (rule nth_equalityI)
    show len: "length (slot c r i) = length (if p \<le> i \<and> i < p + n then slot c src (i - p + s) else slot c dst i)"
    proof (cases "p \<le> i \<and> i < p + n")
      case True
      then have "(i - p + s + 1) * c \<le> (s + n) * c" by (intro mult_le_mono1) auto
      then show ?thesis using True i r(2) b(2) by (simp add: length_slot)
    next
      case False
      then show ?thesis using i r(2) by (auto simp: length_slot)
    qed
    fix j
    assume "j < length (slot c r i)"
    then have j: "j < c" using i r(2) by (simp add: length_slot)
    have ij: "i * c + j < length dst" using i j by simp
    have c1: "p * c \<le> i * c + j \<longleftrightarrow> p \<le> i" using j by (rule slot_index)
    have c2: "i * c + j < p * c + n * c \<longleftrightarrow> i < p + n"
      using slot_index [OF j, of "p + n" i] by (auto simp: add_mult_distrib not_le)
    show "slot c r i ! j = (if p \<le> i \<and> i < p + n then slot c src (i - p + s) else slot c dst i) ! j"
    proof (cases "p \<le> i \<and> i < p + n")
      case True
      have "(i - p + s + 1) * c \<le> (s + n) * c" using True by (intro mult_le_mono1) auto
      then have le: "(i - p + s + 1) * c \<le> length src" using b(2) by simp
      have "r ! (i * c + j) = src ! (i * c + j - p * c + s * c)" using r(3) ij c1 c2 True by simp
      also have "i * c + j - p * c + s * c = (i - p + s) * c + j"
      proof -
        obtain e where "i = p + e" using True le_Suc_ex by blast
        then show ?thesis by (simp add: add_mult_distrib)
      qed
      finally show ?thesis
        using True i r(2) j slot_nth [OF le j] by (simp add: slot_nth)
    next
      case False
      then have "r ! (i * c + j) = dst ! (i * c + j)" using r(3) ij c1 c2 by auto
      then show ?thesis using False i r(2) j by (auto simp: slot_nth)
    qed
  qed
  then show ?thesis using r by blast
qed

subsection \<open>The growth of a bucket ends\<close>

lemma arctan_le_self: "0 \<le> x \<Longrightarrow> arctan x \<le> x"
proof -
  assume x: "0 \<le> x"
  have "(\<lambda>y. y - arctan y) 0 \<le> (\<lambda>y. y - arctan y) x"
  proof (rule DERIV_nonneg_imp_nondecreasing [OF x])
    fix y :: real
    have "DERIV (\<lambda>y. y - arctan y) y :> 1 - inverse (1 + y\<^sup>2)"
      by (intro DERIV_diff DERIV_ident DERIV_arctan)
    moreover have "inverse (1 + y\<^sup>2) \<le> 1" by (rule inverse_le_1_iff [THEN iffD2]) auto
    ultimately show "\<exists>d. DERIV (\<lambda>y. y - arctan y) y :> d \<and> 0 \<le> d"
      by (intro exI [of _ "1 - inverse (1 + y\<^sup>2)"]) simp
  qed
  then show ?thesis by simp
qed

lemma pi_bound: "pi \<le> 16 / 5"
proof -
  have "arctan (1 / 5) \<le> 1 / 5" by (rule arctan_le_self) simp
  moreover have "0 \<le> arctan (1 / 239)" by simp
  ultimately show ?thesis using machin by linarith
qed

text \<open>The coefficient exceeds 1, and 2 when the counter has wrapped to 0.\<close>

lemma coefficient_bounds: "1 \<le> ExtendCoefficient t" "2 \<le> ExtendCoefficient 0"
proof -
  have "arctan (real (unat t)) < pi / 2" by (rule arctan_ubound)
  then show "1 \<le> ExtendCoefficient t" using pi_bound by (simp add: ExtendCoefficient_def)
  show "2 \<le> ExtendCoefficient 0" by (simp add: ExtendCoefficient_def)
qed

lemma scaled_ge: "0 \<le> x \<Longrightarrow> x \<le> scaled t x"
proof -
  assume "0 \<le> x"
  then have "real_of_int x * 1 \<le> real_of_int x * ExtendCoefficient t"
    by (intro mult_left_mono coefficient_bounds) simp
  then show ?thesis by (simp add: scaled_def le_floor_iff)
qed

lemma scaled_wrap: "0 \<le> x \<Longrightarrow> 2 * x \<le> scaled 0 x"
proof -
  assume "0 \<le> x"
  then have "real_of_int x * 2 \<le> real_of_int x * ExtendCoefficient 0"
    by (intro mult_left_mono coefficient_bounds) simp
  then show ?thesis by (simp add: scaled_def le_floor_iff mult.commute)
qed

lemma extend_loop_returns:
  "1 \<le> x \<Longrightarrow> \<exists>t' y. extend_loop t x least = Some (t', y) \<and> x \<le> y \<and> least \<le> y"
proof (induction "(nat (least - x), 256 - unat t)" arbitrary: t x
    rule: wf_induct_rule [OF wf_lex_prod [OF wf_less_than wf_less_than]])
  case (1 t x)
  show ?case
  proof (cases "x < least")
    case True
    let ?y = "scaled (t + 1) x"
    have y: "x \<le> ?y" using scaled_ge 1(2) by simp
    have "((nat (least - ?y), 256 - unat (t + 1)), (nat (least - x), 256 - unat t)) \<in> less_than <*lex*> less_than"
    proof (cases "x < ?y")
      case True
      then show ?thesis using \<open>x < least\<close> by auto
    next
      case False
      then have e: "?y = x" using y by simp
      have "t + 1 \<noteq> 0"
      proof
        assume "t + 1 = 0"
        then have "2 * x \<le> ?y" using scaled_wrap [of x] 1(2) by simp
        then show False using e 1(2) by simp
      qed
      then have "unat (t + 1) \<noteq> 0" by (simp add: unat_eq_zero)
      moreover have "unat (t + 1) = (unat t + 1) mod 256" by (simp add: unat_word_ariths)
      moreover have "unat t < 256" by (rule unat_byte_less)
      ultimately have "unat (t + 1) = Suc (unat t)" by (cases "unat t = 255") simp_all
      moreover have "unat (t + 1) < 256" by (rule unat_byte_less)
      ultimately show ?thesis using e by auto
    qed
    from 1(1) [OF this] 1(2) y obtain t' z where "extend_loop (t + 1) ?y least = Some (t', z)" "?y \<le> z" "least \<le> z"
      by auto
    then show ?thesis using True y by (subst extend_loop.simps) auto
  next
    case False
    then show ?thesis by (subst extend_loop.simps) simp
  qed
qed

text \<open>With an empty bucket the loop never ends: the size stays 0.\<close>

lemma scaled_zero [simp]: "scaled t 0 = 0"
  by (simp add: scaled_def)

lemma extend_ids_returns:
  assumes "0 < rt_nids d" "int (length (rt_vpos d)) = rt_nids d"
  shows "\<exists>n. extend_ids d key = Some (d\<lparr>rt_vpos := rt_vpos d @ replicate n (-1), rt_nids := rt_nids d + int n\<rparr>)
    \<and> key < rt_nids d + int n"
  using assms
proof (induction "nat (key + 1 - rt_nids d)" arbitrary: d rule: less_induct)
  case less
  show ?case
  proof (cases "key \<ge> rt_nids d")
    case True
    let ?d = "RT_ExtendIDs d"
    have d: "?d = d\<lparr>rt_vpos := rt_vpos d @ replicate (nat (rt_nids d)) (-1), rt_nids := rt_nids d * 2\<rparr>"
    proof -
      have "nat (rt_nids d) = length (rt_vpos d)" using less.prems(2) by linarith
      then show ?thesis by (simp add: RT_ExtendIDs_def)
    qed
    have m: "nat (key + 1 - rt_nids ?d) < nat (key + 1 - rt_nids d)" using True less.prems d by simp
    have p: "0 < rt_nids ?d" "int (length (rt_vpos ?d)) = rt_nids ?d" using less.prems d by simp_all
    from less.hyps [OF m p] obtain n where n: "extend_ids ?d key =
        Some (?d\<lparr>rt_vpos := rt_vpos ?d @ replicate n (-1), rt_nids := rt_nids ?d + int n\<rparr>)"
      "key < rt_nids ?d + int n" by blast
    have "extend_ids d key = Some (d\<lparr>rt_vpos := rt_vpos d @ replicate (nat (rt_nids d) + n) (-1),
        rt_nids := rt_nids d + int (nat (rt_nids d) + n)\<rparr>)"
      using True n(1) less.prems(1) by (subst extend_ids.simps) (simp add: d replicate_add)
    moreover have "key < rt_nids d + int (nat (rt_nids d) + n)" using n(2) less.prems(1) d by simp
    ultimately show ?thesis by blast
  next
    case False
    then have "extend_ids d key = Some (d\<lparr>rt_vpos := rt_vpos d @ replicate 0 (-1), rt_nids := rt_nids d + int 0\<rparr>)"
      by (subst extend_ids.simps) simp
    then show ?thesis using False by (intro exI [of _ 0]) simp
  qed
qed

subsection \<open>The lists\<close>

definition bucket_ok :: "nat \<Rightarrow> int \<Rightarrow> int \<Rightarrow> u64 option list \<Rightarrow> byte option list \<Rightarrow> bool" where
  "bucket_ok c rpos cap idx codes \<longleftrightarrow> 0 \<le> rpos \<and> rpos \<le> cap \<and> rpos < 2147483648 \<and>
     int (length idx) = cap \<and> length codes = nat cap * c \<and> (\<forall>i < nat rpos. idx ! i \<noteq> None)"

definition rt_ok :: "nat \<Rightarrow> rtd \<Rightarrow> bool" where
  "rt_ok c d \<longleftrightarrow> length (rt_rpos d) = length (rt_idx d) \<and> length (rt_cap d) = length (rt_idx d) \<and>
     length (rt_ext d) = length (rt_idx d) \<and> length (rt_codes d) = length (rt_idx d) \<and>
     length (rt_del d) = length (rt_idx d) \<and> length (rt_idx d) \<le> 2147483648 \<and>
     0 < rt_nids d \<and> int (length (rt_vpos d)) = rt_nids d \<and>
     (\<forall>b < length (rt_idx d). bucket_ok c (rt_rpos d ! b) (rt_cap d ! b) (rt_idx d ! b) (rt_codes d ! b))"

definition bucket_list :: "nat \<Rightarrow> int \<Rightarrow> u64 option list \<Rightarrow> byte option list \<Rightarrow> (u64 \<times> byte option list) list" where
  "bucket_list c rpos idx codes = map (\<lambda>i. (the (idx ! i), slot c codes i)) [0..<nat rpos]"

definition rt_list :: "nat \<Rightarrow> rtd \<Rightarrow> nat \<Rightarrow> (u64 \<times> byte option list) list" where
  "rt_list c d b = bucket_list c (rt_rpos d ! b) (rt_idx d ! b) (rt_codes d ! b)"

lemma rt_okD:
  assumes "rt_ok c d" "b < length (rt_idx d)"
  shows "bucket_ok c (rt_rpos d ! b) (rt_cap d ! b) (rt_idx d ! b) (rt_codes d ! b)"
    "fetch (rt_rpos d) (int b) = Some (rt_rpos d ! b)" "fetch (rt_cap d) (int b) = Some (rt_cap d ! b)"
    "fetch (rt_ext d) (int b) = Some (rt_ext d ! b)" "fetch (rt_codes d) (int b) = Some (rt_codes d ! b)"
    "fetch (rt_idx d) (int b) = Some (rt_idx d ! b)" "fetch (rt_del d) (int b) = Some (rt_del d ! b)"
    "store (rt_rpos d) (int b) r = Some ((rt_rpos d)[b := r])" "store (rt_cap d) (int b) r = Some ((rt_cap d)[b := r])"
    "store (rt_ext d) (int b) t = Some ((rt_ext d)[b := t])" "store (rt_codes d) (int b) cs = Some ((rt_codes d)[b := cs])"
    "store (rt_idx d) (int b) l = Some ((rt_idx d)[b := l])" "store (rt_del d) (int b) r = Some ((rt_del d)[b := r])"
  using assms by (simp_all add: rt_ok_def fetch_def store_def)

text \<open>Replacing one bucket.\<close>

lemma rt_ok_bucket:
  assumes "rt_ok c d" "b < length (rt_idx d)" "bucket_ok c r cap l cs"
  shows "rt_ok c (d\<lparr>rt_rpos := (rt_rpos d)[b := r], rt_cap := (rt_cap d)[b := cap], rt_idx := (rt_idx d)[b := l],
    rt_codes := (rt_codes d)[b := cs]\<rparr>)"
  using assms by (auto simp: rt_ok_def nth_list_update)

lemma extended_bucket:
  assumes ok: "bucket_ok c r cap l cs" and y: "cap \<le> y"
  shows "\<exists>l' cs'. blit (replicate (nat y) None) 0 l 0 r = Some l' \<and>
    blit (replicate (nat (y * int c)) None) 0 cs 0 (r * int c) = Some cs' \<and>
    bucket_ok c r y l' cs' \<and> bucket_list c r l' cs' = bucket_list c r l cs"
proof -
  define n m k where "n = nat r" and "m = nat y" and "k = nat cap"
  have r: "r = int n" "y = int m" "cap = int k" "n \<le> k" "k \<le> m" "length l = k" "length cs = k * c"
    using ok y by (auto simp: bucket_ok_def n_def m_def k_def)
  have nc: "n * c \<le> m * c" "n * c \<le> k * c" using r by (simp_all add: mult_le_mono1)
  obtain l' where l': "blit (replicate m None) (int 0) l (int 0) (int n) = Some l'" "length l' = m"
    "\<forall>j < m. l' ! j = (if j < n then l ! j else replicate m None ! j)"
    using blit_ok [of 0 n "replicate m None" 0 l] r by auto
  obtain cs' where cs': "blit (replicate (m * c) None) (int (0 * c)) cs (int (0 * c)) (int (n * c)) = Some cs'"
    "length cs' = m * c" "\<forall>i. (i + 1) * c \<le> m * c \<longrightarrow>
      slot c cs' i = (if i < n then slot c cs i else slot c (replicate (m * c) None) i)"
    using blit_slots [of 0 n c "replicate (m * c) None" 0 cs] r nc by auto
  have "\<forall>i < n. l' ! i \<noteq> None" using l'(3) ok r by (auto simp: bucket_ok_def)
  then have "bucket_ok c r y l' cs'" using ok r l'(2) cs'(2) by (auto simp: bucket_ok_def)
  moreover have "bucket_list c r l' cs' = bucket_list c r l cs"
  proof -
    have "l' ! i = l ! i \<and> slot c cs' i = slot c cs i" if "i < n" for i
    proof -
      have "(i + 1) * c \<le> m * c" using that r by (intro mult_le_mono1) auto
      then show ?thesis using that l'(3) cs'(3) r by auto
    qed
    then show ?thesis using r(1) by (simp add: bucket_list_def)
  qed
  ultimately show ?thesis using l'(1) cs'(1) r(1,2)
    by (intro exI [of _ l'] exI [of _ cs']) (simp add: nat_mult_distrib)
qed

lemma RT_ExtendBucketMem_spec:
  assumes ok: "rt_ok c d" and b: "b < length (rt_idx d)" and cap: "1 \<le> rt_cap d ! b"
  shows "\<exists>d' tot'. RT_ExtendBucketMem d (int b) increment (int c) tot = Some (d', tot') \<and> rt_ok c d' \<and>
    (\<forall>a < length (rt_idx d). rt_list c d' a = rt_list c d a) \<and> rt_rpos d ! b + increment \<le> rt_cap d' ! b \<and>
    rt_cap d ! b \<le> rt_cap d' ! b \<and> rt_rpos d' = rt_rpos d \<and> rt_vpos d' = rt_vpos d \<and> rt_nids d' = rt_nids d \<and>
    rt_del d' = rt_del d \<and> length (rt_idx d') = length (rt_idx d) \<and>
    (\<forall>a < length (rt_idx d). \<forall>i < nat (rt_rpos d ! a). rt_idx d' ! a ! i = rt_idx d ! a ! i)"
proof -
  note D = rt_okD [OF ok b]
  let ?t = "rt_ext d ! b + 1" and ?cap = "rt_cap d ! b" and ?r = "rt_rpos d ! b"
  have "1 \<le> scaled ?t ?cap" using scaled_ge [of ?cap ?t] cap by simp
  then obtain t' y where y: "extend_loop ?t (scaled ?t ?cap) (?r + increment) = Some (t', y)"
    "scaled ?t ?cap \<le> y" "?r + increment \<le> y"
    using extend_loop_returns by blast
  then have yc: "?cap \<le> y" using scaled_ge [of ?cap ?t] cap by simp
  obtain l' cs' where n: "blit (replicate (nat y) None) 0 (rt_idx d ! b) 0 ?r = Some l'"
    "blit (replicate (nat (y * int c)) None) 0 (rt_codes d ! b) 0 (?r * int c) = Some cs'"
    "bucket_ok c ?r y l' cs'" "bucket_list c ?r l' cs' = bucket_list c ?r (rt_idx d ! b) (rt_codes d ! b)"
    using extended_bucket [OF D(1) yc] by blast
  let ?d = "d\<lparr>rt_ext := (rt_ext d)[b := t'], rt_codes := (rt_codes d)[b := cs'], rt_idx := (rt_idx d)[b := l'],
    rt_cap := (rt_cap d)[b := y]\<rparr>"
  have e: "RT_ExtendBucketMem d (int b) increment (int c) tot = Some (?d, tot + y * int c + y * 8)"
    by (simp add: RT_ExtendBucketMem_def D(2-) y(1) n(1,2))
  have okd: "rt_ok c ?d" using ok b n(3) by (auto simp: rt_ok_def nth_list_update)
  have ls: "rt_list c ?d a = rt_list c d a" if "a < length (rt_idx d)" for a
    using that n(4) ok b by (cases "a = b") (simp_all add: rt_list_def rt_ok_def)
  have ix: "rt_idx ?d ! a ! i = rt_idx d ! a ! i" if a: "a < length (rt_idx d)" "i < nat (rt_rpos d ! a)" for a i
  proof (cases "a = b")
    case True
    have "the (l' ! i) = the (rt_idx d ! b ! i)"
      using n(4) a(2) True by (simp add: bucket_list_def)
    moreover have "l' ! i \<noteq> None" "rt_idx d ! b ! i \<noteq> None"
      using n(3) D(1) a(2) True by (auto simp: bucket_ok_def)
    ultimately show ?thesis using True b by auto
  next
    case False
    then show ?thesis using a by simp
  qed
  have cb: "rt_cap ?d ! b = y" using ok b by (simp add: rt_ok_def)
  show ?thesis
    using e okd ls ix cb y(3) yc by (intro exI [of _ ?d] exI [of _ "tot + y * int c + y * 8"]) simp
qed

subsection \<open>Adding keys\<close>

definition key_ok :: "vid_mgr \<Rightarrow> bitmap_mgr \<Rightarrow> u64 \<Rightarrow> bool" where
  "key_ok vm bmg k \<longleftrightarrow> uint k < 2147483648 \<and> rt_deleted vm bmg k \<noteq> None"

lemma place_keys_spec:
  assumes "0 < rt_nids d" "int (length (rt_vpos d)) = rt_nids d" "\<forall>k \<in> set ks. key_ok vm bmg k" "distinct ks"
    and "b < length (rt_del d)" "b < 2147483648" "0 \<le> pos" "pos + int (length ks) \<le> 2147483648"
  shows "\<exists>vp nd dl. place_keys vm bmg d (int b) pos ks =
      Some (d\<lparr>rt_vpos := vp, rt_nids := nd, rt_del := dl\<rparr>, pos + int (length ks)) \<and>
    length dl = length (rt_del d) \<and> int (length vp) = nd \<and> rt_nids d \<le> nd \<and>
    (\<forall>i < length ks. unat (ks ! i) < length vp \<and> vp ! unat (ks ! i) = pack_pos (int b) (pos + int i)) \<and>
    (\<forall>u < length (rt_vpos d). u \<notin> (\<lambda>k. unat k) ` set ks \<longrightarrow> vp ! u = rt_vpos d ! u)"
  using assms
proof (induction ks arbitrary: d pos)
  case Nil
  then show ?case
    by (intro exI [of _ "rt_vpos d"] exI [of _ "rt_nids d"] exI [of _ "rt_del d"]) simp
next
  case (Cons k ks)
  let ?u = "unat k" and ?P = "pack_pos (int b) pos"
  obtain n where n: "extend_ids d (uint k) =
      Some (d\<lparr>rt_vpos := rt_vpos d @ replicate n (-1), rt_nids := rt_nids d + int n\<rparr>)" "uint k < rt_nids d + int n"
    using extend_ids_returns [OF Cons.prems(1,2)] by blast
  let ?vp = "(rt_vpos d @ replicate n (-1))[?u := ?P]"
  have lu: "?u < length (rt_vpos d @ replicate n (-1))"
  proof -
    have "int (unat k) < int (length (rt_vpos d) + n)" using n(2) Cons.prems(2) by simp
    then show ?thesis by (simp only: of_nat_less_iff length_append length_replicate)
  qed
  have st: "store (rt_vpos d @ replicate n (-1)) (uint k) ?P = Some ?vp"
    using n(2) Cons.prems(2) by (simp add: store_def)
  have k: "uint k < 2147483648" and kd: "rt_deleted vm bmg k \<noteq> None"
    using Cons.prems(3) by (auto simp: key_ok_def)
  obtain dead where dead: "rt_deleted vm bmg k = Some dead" using kd by blast
  have P: "pos_bucket ?P = int b" "?P \<noteq> -1"
    using pos_of_pack [of "int b" pos] Cons.prems by auto
  let ?d2 = "d\<lparr>rt_nids := rt_nids d + int n, rt_vpos := ?vp\<rparr>"
  have "fetch ?vp (uint k) = Some ?P" using lu n(2) Cons.prems(2) by (simp add: fetch_def)
  then have del: "RT_Delete ?d2 (uint k) = Some (?d2\<lparr>rt_del := (rt_del d)[b := rt_del d ! b + 1]\<rparr>)"
    using P Cons.prems(5) by (simp add: RT_Delete_def fetch_def store_def)
  have sk: "sint (ucast k :: u32) = uint k" using k by (intro sint_u32_small) simp_all
  obtain dl where dl: "(if dead then RT_Delete ?d2 (sint (ucast k :: u32)) else Some ?d2) = Some (?d2\<lparr>rt_del := dl\<rparr>)"
    "length dl = length (rt_del d)"
    using del sk by (cases dead) force+
  let ?d3 = "?d2\<lparr>rt_del := dl\<rparr>"
  have step: "place_keys vm bmg d (int b) pos (k # ks) = place_keys vm bmg ?d3 (int b) (pos + 1) ks"
  proof (cases dead)
    case True
    then show ?thesis using n(1) st dead dl(1) by (simp add: Let_def)
  next
    case False
    then have "?d3 = ?d2" using dl(1) by simp
    then show ?thesis using n(1) st dead False by (simp add: Let_def)
  qed
  have pr: "0 < rt_nids ?d3" "int (length (rt_vpos ?d3)) = rt_nids ?d3" "\<forall>k \<in> set ks. key_ok vm bmg k"
    "distinct ks" "b < length (rt_del ?d3)" "b < 2147483648" "0 \<le> pos + 1" "pos + 1 + int (length ks) \<le> 2147483648"
    using Cons.prems dl(2) by simp_all
  from Cons.IH [OF pr] obtain vp nd dl' where IH: "place_keys vm bmg ?d3 (int b) (pos + 1) ks =
      Some (?d3\<lparr>rt_vpos := vp, rt_nids := nd, rt_del := dl'\<rparr>, pos + 1 + int (length ks))"
    "length dl' = length (rt_del ?d3)" "int (length vp) = nd" "rt_nids ?d3 \<le> nd"
    "\<forall>i < length ks. unat (ks ! i) < length vp \<and> vp ! unat (ks ! i) = pack_pos (int b) (pos + 1 + int i)"
    "\<forall>u < length (rt_vpos ?d3). u \<notin> (\<lambda>k. unat k) ` set ks \<longrightarrow> vp ! u = rt_vpos ?d3 ! u" by blast
  have inj: "?u \<notin> (\<lambda>k. unat k) ` set ks"
    using Cons.prems(4) by (auto simp flip: word_unat_eq_iff)
  then have vk: "vp ! ?u = ?P" using IH(6) lu by simp
  have "length (rt_vpos d) + n \<le> length vp" using IH(3,4) Cons.prems(2) by simp
  then have lvp: "?u < length vp" using lu by simp
  have all: "\<forall>i < length (k # ks). unat ((k # ks) ! i) < length vp \<and>
      vp ! unat ((k # ks) ! i) = pack_pos (int b) (pos + int i)"
  proof (intro allI impI)
    fix i
    assume "i < length (k # ks)"
    then show "unat ((k # ks) ! i) < length vp \<and>
        vp ! unat ((k # ks) ! i) = pack_pos (int b) (pos + int i)"
      using vk lvp IH(5) by (cases i) (auto simp: algebra_simps)
  qed
  have old: "\<forall>u < length (rt_vpos d). u \<notin> (\<lambda>k. unat k) ` set (k # ks) \<longrightarrow> vp ! u = rt_vpos d ! u"
    using IH(6) by (simp add: nth_append)
  show ?case
    unfolding step
    using IH(1-4) all old dl(2) by (intro exI [of _ vp] exI [of _ nd] exI [of _ dl']) simp
qed

lemma added_bucket:
  assumes ok: "bucket_ok c r cap l cs" and fit: "r + int (length keys) \<le> cap" "r + int (length keys) < 2147483648"
    and codes: "length codes = length keys * c"
  shows "\<exists>l' cs'. blit l r (map Some keys) 0 (int (length keys)) = Some l' \<and>
    blit cs (r * int c) (map Some codes) 0 (int (length codes)) = Some cs' \<and>
    bucket_ok c (r + int (length keys)) cap l' cs' \<and>
    bucket_list c (r + int (length keys)) l' cs' = bucket_list c r l cs @
      map (\<lambda>i. (keys ! i, map Some (slot c codes i))) [0..<length keys] \<and>
    (\<forall>j < length l. l' ! j = (if nat r \<le> j \<and> j < nat r + length keys then Some (keys ! (j - nat r)) else l ! j))"
proof -
  define n k m where "n = nat r" and "k = nat cap" and "m = length keys"
  have r: "r = int n" "cap = int k" "n + m \<le> k" "length l = k" "length cs = k * c"
    using ok fit by (auto simp: bucket_ok_def n_def k_def m_def)
  have nc: "(n + m) * c \<le> k * c" using r(3) by (rule mult_le_mono1)
  obtain l' where l': "blit l (int n) (map Some keys) (int 0) (int m) = Some l'" "length l' = k"
    "\<forall>j < k. l' ! j = (if n \<le> j \<and> j < n + m then map Some keys ! (j - n + 0) else l ! j)"
    using blit_ok [of n m l 0 "map Some keys"] r by (auto simp: m_def)
  have l'k: "\<forall>j < k. l' ! j = (if n \<le> j \<and> j < n + m then Some (keys ! (j - n)) else l ! j)"
    using l'(3) by (auto simp: m_def)
  obtain cs' where cs': "blit cs (int (n * c)) (map Some codes) (int (0 * c)) (int (m * c)) = Some cs'"
    "length cs' = k * c" "\<forall>i. (i + 1) * c \<le> k * c \<longrightarrow>
      slot c cs' i = (if n \<le> i \<and> i < n + m then slot c (map Some codes) (i - n + 0) else slot c cs i)"
    using blit_slots [of n m c cs 0 "map Some codes"] r(5) nc codes by (auto simp: m_def)
  have some: "\<forall>i < n + m. l' ! i \<noteq> None"
  proof (intro allI impI)
    fix i
    assume i: "i < n + m"
    show "l' ! i \<noteq> None"
    proof (cases "n \<le> i")
      case True
      then show ?thesis using l'k i r(3) by simp
    next
      case False
      then show ?thesis using l'k i r(3) ok by (simp add: bucket_ok_def n_def)
    qed
  qed
  have okb: "bucket_ok c (r + int (length keys)) cap l' cs'"
    using fit r l'(2) cs'(2) some by (simp add: bucket_ok_def nat_add_distrib m_def)
  have sl: "slot c cs' i = slot c cs i" "l' ! i = l ! i" if i: "i < n" for i
  proof -
    have "(i + 1) * c \<le> k * c" using i r(3) by (intro mult_le_mono1) simp
    then show "slot c cs' i = slot c cs i" "l' ! i = l ! i" using i r(3) cs'(3) l'k by auto
  qed
  have sn: "slot c cs' (n + i) = map Some (slot c codes i)" "l' ! (n + i) = Some (keys ! i)" if i: "i < m" for i
  proof -
    have "(n + i + 1) * c \<le> k * c" using i r(3) by (intro mult_le_mono1) simp
    then show "slot c cs' (n + i) = map Some (slot c codes i)"
      using i cs'(3) by (simp add: slot_def take_map drop_map)
    show "l' ! (n + i) = Some (keys ! i)" using i r(3) l'k by simp
  qed
  have "bucket_list c (int n + int m) l' cs' = bucket_list c (int n) l cs @
      map (\<lambda>i. (keys ! i, map Some (slot c codes i))) [0..<m]"
  proof (rule nth_equalityI)
    fix j
    assume "j < length (bucket_list c (int n + int m) l' cs')"
    then have j: "j < n + m" by (simp add: bucket_list_def nat_add_distrib)
    show "bucket_list c (int n + int m) l' cs' ! j = (bucket_list c (int n) l cs @
        map (\<lambda>i. (keys ! i, map Some (slot c codes i))) [0..<m]) ! j"
    proof (cases "j < n")
      case True
      then show ?thesis using j sl [OF True] by (simp add: bucket_list_def nth_append nat_add_distrib)
    next
      case False
      then obtain i where "j = n + i" "i < m" using j le_Suc_ex [of n j] by auto
      then show ?thesis using sn by (simp add: bucket_list_def nth_append nat_add_distrib)
    qed
  qed (simp add: bucket_list_def nat_add_distrib)
  then show ?thesis
    using l'(1) cs'(1) okb l'k r codes by (intro exI [of _ l'] exI [of _ cs']) (simp add: m_def)
qed


text \<open>The table of positions: every unmarked entry is where the table says.\<close>

definition pos_ok :: "rtd \<Rightarrow> bool" where
  "pos_ok d \<longleftrightarrow> (\<forall>a < length (rt_idx d). \<forall>i < nat (rt_rpos d ! a).
     the (rt_idx d ! a ! i) AND kDelIdxMask = 0 \<longrightarrow>
     unat (the (rt_idx d ! a ! i)) < length (rt_vpos d) \<and>
     rt_vpos d ! unat (the (rt_idx d ! a ! i)) = pack_pos (int a) (int i))"

definition unmarked :: "rtd \<Rightarrow> u64 set" where
  "unmarked d = {k. k AND kDelIdxMask = 0 \<and> (\<exists>a < length (rt_idx d). \<exists>i < nat (rt_rpos d ! a). the (rt_idx d ! a ! i) = k)}"

lemma unmarkedI:
  "a < length (rt_idx d) \<Longrightarrow> i < nat (rt_rpos d ! a) \<Longrightarrow> the (rt_idx d ! a ! i) AND kDelIdxMask = 0 \<Longrightarrow>
   the (rt_idx d ! a ! i) \<in> unmarked d"
  by (auto simp: unmarked_def)

definition fits :: "rtm \<Rightarrow> nat \<Rightarrow> int \<Rightarrow> bool" where
  "fits m b n \<longleftrightarrow> rt_rpos (rm_cur m) ! b + n \<le> rt_cap (rm_cur m) ! b \<or> rt_cap (rm_cur m) ! b * 2 < rm_limit m"

text \<open>What extending leaves alone.\<close>

definition same_lists :: "nat \<Rightarrow> rtd \<Rightarrow> rtd \<Rightarrow> bool" where
  "same_lists c d d' \<longleftrightarrow> rt_rpos d' = rt_rpos d \<and> rt_vpos d' = rt_vpos d \<and> rt_nids d' = rt_nids d \<and> rt_del d' = rt_del d \<and>
     length (rt_idx d') = length (rt_idx d) \<and> (\<forall>a < length (rt_idx d). rt_list c d' a = rt_list c d a) \<and>
     (\<forall>a < length (rt_idx d). \<forall>i < nat (rt_rpos d ! a). rt_idx d' ! a ! i = rt_idx d ! a ! i)"

lemma same_lists_pos:
  assumes "same_lists c d d'"
  shows "pos_ok d' = pos_ok d" "unmarked d' = unmarked d"
proof -
  show "pos_ok d' = pos_ok d" using assms by (auto simp: same_lists_def pos_ok_def)
  show "unmarked d' = unmarked d" using assms by (simp add: same_lists_def unmarked_def cong: conj_cong)
qed

lemma RM_ExtendBucketIfNeed_spec:
  assumes ok: "rt_ok c (rm_cur m)" and cb: "rm_cb m = int c" and b: "b < length (rt_idx (rm_cur m))"
    and cap: "1 \<le> rt_cap (rm_cur m) ! b"
  shows "\<exists>e m'. RM_ExtendBucketIfNeed vm bmg m (int b) n = Some (e, m') \<and>
    (if fits m b n
     then e = 0 \<and> rt_ok c (rm_cur m') \<and> rm_cb m' = rm_cb m \<and> rm_limit m' = rm_limit m \<and> rm_buckets m' = rm_buckets m \<and>
       same_lists c (rm_cur m) (rm_cur m') \<and>
       rt_rpos (rm_cur m) ! b + n \<le> rt_cap (rm_cur m') ! b \<and> rt_cap (rm_cur m) ! b \<le> rt_cap (rm_cur m') ! b
     else e = -1 \<and> m' = m)"
proof -
  let ?d = "rm_cur m"
  note D = rt_okD [OF ok b]
  show ?thesis
  proof (cases "fits m b n \<and> \<not> rt_rpos ?d ! b + n \<le> rt_cap ?d ! b")
    case True
    obtain d' tot' where E: "RT_ExtendBucketMem ?d (int b) n (int c) (rm_mem m) = Some (d', tot')"
      "rt_ok c d'" "same_lists c ?d d'" "rt_rpos ?d ! b + n \<le> rt_cap d' ! b" "rt_cap ?d ! b \<le> rt_cap d' ! b"
      using RT_ExtendBucketMem_spec [OF ok b cap, of n "rm_mem m"] unfolding same_lists_def by blast
    then show ?thesis
      using True D cb
      by (simp add: RM_ExtendBucketIfNeed_def RM_ExtendBucketMem_def RM_AdjustBucketMem_def fits_def)
  next
    case False
    then show ?thesis using D ok cb
      by (auto simp: RM_ExtendBucketIfNeed_def fits_def same_lists_def)
  qed
qed


lemma RM_AddKeys_spec:
  assumes ok: "rt_ok c (rm_cur m)" and cb: "rm_cb m = int c" and b: "b < length (rt_idx (rm_cur m))"
    and cap: "1 \<le> rt_cap (rm_cur m) ! b"
    and keys: "\<forall>k \<in> set keys. key_ok vm bmg k" "distinct keys" "length codes = length keys * c"
    and r: "rt_rpos (rm_cur m) ! b + int (length keys) < 2147483648"
    and f: "fits m b (int (length keys))"
  shows "\<exists>m'. RM_AddKeys vm bmg m (int b) (int (length keys)) keys codes = Some (True, m') \<and>
    rt_ok c (rm_cur m') \<and> rm_cb m' = rm_cb m \<and> rm_limit m' = rm_limit m \<and>
    length (rt_idx (rm_cur m')) = length (rt_idx (rm_cur m)) \<and>
    (\<forall>a < length (rt_idx (rm_cur m)). rt_list c (rm_cur m') a = rt_list c (rm_cur m) a @
       (if a = b then map (\<lambda>i. (keys ! i, map Some (slot c codes i))) [0..<length keys] else [])) \<and>
    (pos_ok (rm_cur m) \<longrightarrow> unmarked (rm_cur m) \<inter> set keys = {} \<longrightarrow> pos_ok (rm_cur m'))"
proof -
  let ?n = "int (length keys)"
  obtain m1 where m1: "RM_ExtendBucketIfNeed vm bmg m (int b) ?n = Some (0, m1)" "rt_ok c (rm_cur m1)"
    "rm_cb m1 = rm_cb m" "rm_limit m1 = rm_limit m" "same_lists c (rm_cur m) (rm_cur m1)"
    "rt_rpos (rm_cur m) ! b + ?n \<le> rt_cap (rm_cur m1) ! b"
    using RM_ExtendBucketIfNeed_spec [OF ok cb b cap, of vm bmg ?n] f by auto
  let ?d = "rm_cur m1"
  let ?r = "rt_rpos ?d ! b"
  have b1: "b < length (rt_idx ?d)" and r1: "?r + ?n \<le> rt_cap ?d ! b" "?r + ?n < 2147483648"
    using m1(5,6) b r by (simp_all add: same_lists_def)
  note D = rt_okD [OF m1(2) b1]
  obtain l' cs' where l': "blit (rt_idx ?d ! b) ?r (map Some keys) 0 ?n = Some l'"
    "blit (rt_codes ?d ! b) (?r * int c) (map Some codes) 0 (int (length codes)) = Some cs'"
    "bucket_ok c (?r + ?n) (rt_cap ?d ! b) l' cs'"
    "bucket_list c (?r + ?n) l' cs' = bucket_list c ?r (rt_idx ?d ! b) (rt_codes ?d ! b) @
      map (\<lambda>i. (keys ! i, map Some (slot c codes i))) [0..<length keys]"
    "\<forall>j < length (rt_idx ?d ! b). l' ! j =
      (if nat ?r \<le> j \<and> j < nat ?r + length keys then Some (keys ! (j - nat ?r)) else rt_idx ?d ! b ! j)"
    using added_bucket [OF D(1) r1 keys(3)] by blast
  let ?d1 = "?d\<lparr>rt_idx := (rt_idx ?d)[b := l'], rt_codes := (rt_codes ?d)[b := cs']\<rparr>"
  have pre: "0 < rt_nids ?d1" "int (length (rt_vpos ?d1)) = rt_nids ?d1" "b < length (rt_del ?d1)" "b < 2147483648" "0 \<le> ?r"
    using m1(2) b1 D(1) by (auto simp: rt_ok_def bucket_ok_def)
  obtain vp nd dl where P: "place_keys vm bmg ?d1 (int b) ?r keys =
      Some (?d1\<lparr>rt_vpos := vp, rt_nids := nd, rt_del := dl\<rparr>, ?r + ?n)"
    "length dl = length (rt_del ?d)" "int (length vp) = nd" "rt_nids ?d \<le> nd"
    "\<forall>i < length keys. unat (keys ! i) < length vp \<and> vp ! unat (keys ! i) = pack_pos (int b) (?r + int i)"
    "\<forall>u < length (rt_vpos ?d). u \<notin> (\<lambda>k. unat k) ` set keys \<longrightarrow> vp ! u = rt_vpos ?d ! u"
    using place_keys_spec [OF pre(1,2) keys(1,2) pre(3,4,5)] r1(2) by auto
  let ?d2 = "?d1\<lparr>rt_vpos := vp, rt_nids := nd, rt_del := dl, rt_rpos := (rt_rpos ?d)[b := ?r + ?n]\<rparr>"
  have lc: "int (length keys) * int c = int (length codes)" using keys(3) by simp
  have e: "RM_AddKeys vm bmg m (int b) ?n keys codes = Some (True, m1\<lparr>rm_cur := ?d2\<rparr>)"
    using m1(1,3) cb lc D l'(1,2) P(1) by (simp add: RM_AddKeys_def Let_def)
  have okd: "rt_ok c ?d2"
    using m1(2) l'(3) P(2-4) b1 by (auto simp: rt_ok_def nth_list_update)
  have ls: "rt_list c ?d2 a = rt_list c (rm_cur m) a @
       (if a = b then map (\<lambda>i. (keys ! i, map Some (slot c codes i))) [0..<length keys] else [])"
    if a: "a < length (rt_idx (rm_cur m))" for a
  proof -
    have q: "rt_list c (rm_cur m) a = rt_list c ?d a" using m1(5) a by (simp add: same_lists_def)
    show ?thesis
    proof (cases "a = b")
      case True
      then show ?thesis unfolding q using l'(4) m1(2) b1 by (simp add: rt_list_def rt_ok_def)
    next
      case False
      then show ?thesis unfolding q by (simp add: rt_list_def)
    qed
  qed
  have ps: "pos_ok ?d2" if p: "pos_ok (rm_cur m)" and u: "unmarked (rm_cur m) \<inter> set keys = {}"
    unfolding pos_ok_def
  proof (intro allI impI)
    fix a i
    let ?k = "the (rt_idx ?d2 ! a ! i)"
    assume a: "a < length (rt_idx ?d2)" and i: "i < nat (rt_rpos ?d2 ! a)" and k: "?k AND kDelIdxMask = 0"
    show "unat ?k < length (rt_vpos ?d2) \<and> rt_vpos ?d2 ! unat ?k = pack_pos (int a) (int i)"
    proof (cases "a = b \<and> nat ?r \<le> i")
      case True
      then obtain j where j: "i = nat ?r + j" using le_Suc_ex by blast
      have lb: "b < length (rt_rpos ?d)" using m1(2) b1 by (simp add: rt_ok_def)
      then have jk: "j < length keys" using i j True pre(5) by simp
      have "nat ?r + length keys \<le> length (rt_idx ?d ! b)" using D(1) r1(1) unfolding bucket_ok_def by linarith
      then have "?k = keys ! j" using l'(5) j jk True b1 by simp
      moreover have "?r + int j = int i" using j pre(5) by simp
      ultimately show ?thesis using P(5) jk True by simp
    next
      case False
      have a1: "a < length (rt_idx ?d)" using a by simp
      have i1: "i < nat (rt_rpos ?d ! a)" using False i m1(2) b1 by (cases "a = b") (auto simp: rt_ok_def)
      have "i < length (rt_idx ?d ! a)" using i1 rt_okD(1) [OF m1(2) a1] by (auto simp: bucket_ok_def)
      then have k1: "?k = the (rt_idx ?d ! a ! i)" using l'(5) False a1 by (cases "a = b") auto
      have p1: "pos_ok ?d" "unmarked ?d \<inter> set keys = {}" using p u same_lists_pos [OF m1(5)] by simp_all
      have old: "unat ?k < length (rt_vpos ?d)" "rt_vpos ?d ! unat ?k = pack_pos (int a) (int i)"
        using p1(1) a1 i1 k unfolding k1 pos_ok_def by blast+
      have "?k \<in> unmarked ?d" using unmarkedI [OF a1 i1] k unfolding k1 by blast
      then have "unat ?k \<notin> (\<lambda>k. unat k) ` set keys" using p1(2) by (auto simp flip: word_unat_eq_iff)
      moreover have "length (rt_vpos ?d) \<le> length vp" using P(3,4) m1(2) by (simp add: rt_ok_def)
      ultimately show ?thesis using old P(6) by simp
    qed
  qed
  show ?thesis
    using e okd ls ps m1(3,4,5) by (intro exI [of _ "m1\<lparr>rm_cur := ?d2\<rparr>"]) (simp add: same_lists_def)
qed


lemma RM_AddKeys_full:
  assumes ok: "rt_ok c (rm_cur m)" and cb: "rm_cb m = int c" and b: "b < length (rt_idx (rm_cur m))"
    and cap: "1 \<le> rt_cap (rm_cur m) ! b" and f: "\<not> fits m b n"
  shows "RM_AddKeys vm bmg m (int b) n keys codes = Some (False, m)"
  using RM_ExtendBucketIfNeed_spec [OF ok cb b cap, of vm bmg n] f by (auto simp: RM_AddKeys_def)

subsection \<open>Compaction\<close>

text \<open>An entry survives when it is not marked and its document is not deleted.\<close>

definition entry_dead :: "vid_mgr \<Rightarrow> bitmap_mgr \<Rightarrow> u64 \<Rightarrow> bool" where
  "entry_dead vm bmg k \<longleftrightarrow> k AND kDelIdxMask \<noteq> 0 \<or> rt_deleted vm bmg k \<noteq> Some False"

lemma mask_parts:
  fixes k :: u64
  shows "k AND kDelIdxMask = 0 \<Longrightarrow> k AND kRecoverIdxMask = k"
proof -
  assume a: "k AND kDelIdxMask = 0"
  have "kDelIdxMask OR kRecoverIdxMask = (-1 :: u64)" by (simp add: word_uint_eq_iff unsigned_minus_1_eq_mask mask_eq_exp_minus_1)
  then have "k = k AND (kDelIdxMask OR kRecoverIdxMask)" by (simp only: and.right_neutral)
  also have "\<dots> = (k AND kDelIdxMask) OR (k AND kRecoverIdxMask)" by (rule bit.conj_disj_distrib)
  finally show ?thesis using a by simp
qed

definition survivors :: "vid_mgr \<Rightarrow> bitmap_mgr \<Rightarrow> nat \<Rightarrow> u64 option list \<Rightarrow> u64 list" where
  "survivors vm bmg n l = filter (\<lambda>k. \<not> entry_dead vm bmg k) (map the (take n l))"

lemma survivors_simps:
  "survivors vm bmg 0 l = []"
  "n < length l \<Longrightarrow> survivors vm bmg (Suc n) l =
     survivors vm bmg n l @ (if entry_dead vm bmg (the (l ! n)) then [] else [the (l ! n)])"
  by (simp_all add: survivors_def take_Suc_conv_app_nth)

lemma length_survivors: "length (survivors vm bmg n l) \<le> n"
  by (induction n arbitrary: l) (auto simp: survivors_def intro: le_trans [OF length_filter_le])

definition entry_ok :: "vid_mgr \<Rightarrow> bitmap_mgr \<Rightarrow> nat \<Rightarrow> u64 option \<Rightarrow> bool" where
  "entry_ok vm bmg nv e \<longleftrightarrow> (\<exists>k. e = Some k \<and> (k AND kDelIdxMask = 0 \<longrightarrow>
     rt_deleted vm bmg k \<noteq> None \<and> uint k < 2147483648 \<and> unat k < nv))"

lemma sint_u64_small: "uint (k :: u64) < 2147483648 \<Longrightarrow> sint k = uint k"
proof -
  assume k: "uint k < 2147483648"
  have "- (2 ^ 63) \<le> uint k" by (rule order_trans [OF _ uint_ge_0]) simp
  moreover have "uint k < 2 ^ 63" using k by simp
  ultimately show ?thesis by (simp add: sint_uint signed_take_bit_int_eq_self)
qed

lemma CompactOne_dead:
  assumes "entry_ok vm bmg nv (src_idx ! n)" "n < length src_idx" "entry_dead vm bmg (the (src_idx ! n))"
  shows "RT_CompactOne vm bmg c b src_idx src_codes (int n) st = Some st"
  using assms by (cases st) (auto simp: RT_CompactOne_def entry_ok_def entry_dead_def fetch_def mask_parts)

lemma CompactOne_alive:
  assumes "entry_ok vm bmg (length vp) (src_idx ! n)" "n < length src_idx" "\<not> entry_dead vm bmg (the (src_idx ! n))"
    and "blit dc (p * c) src_codes (int n * c) c = Some dc'" "0 \<le> p" "p < int (length di)"
  shows "RT_CompactOne vm bmg c b src_idx src_codes (int n) (di, dc, p, vp) =
    Some (di[nat p := src_idx ! n], dc', p + 1, vp[unat (the (src_idx ! n)) := pack_pos b p])"
proof -
  obtain k where k: "src_idx ! n = Some k" "k AND kDelIdxMask = 0" "rt_deleted vm bmg k = Some False"
    "uint k < 2147483648" "unat k < length vp"
    using assms(1,3) by (auto simp: entry_ok_def entry_dead_def)
  have "uint k < int (length vp)" using k(5) by (simp only: uint_nat of_nat_less_iff)
  then have "store vp (sint k) (pack_pos b p) = Some (vp[unat k := pack_pos b p])"
    using k(4,5) by (simp add: store_def sint_u64_small)
  then show ?thesis using assms(2,4-6) k(1,2,3) by (simp add: RT_CompactOne_def mask_parts fetch_def store_def)
qed

lemma compact_loop_spec:
  assumes src: "\<forall>i < n. entry_ok vm bmg (length vp) (src_idx ! i)"
    and len: "n \<le> length src_idx" "length src_codes = length src_idx * c" "n \<le> cap"
    and b: "b < 2147483648" and n: "int n < 2147483648"
    and dis: "distinct (survivors vm bmg n src_idx)"
  shows "\<exists>di dc vp'. compact_loop vm bmg (int c) (int b) src_idx src_codes n
      (replicate cap None, replicate (cap * c) None, 0, vp) =
      Some (di, dc, int (length (survivors vm bmg n src_idx)), vp') \<and>
    length di = cap \<and> length dc = cap * c \<and> length vp' = length vp \<and>
    bucket_list c (int (length (survivors vm bmg n src_idx))) di dc =
      filter (\<lambda>e. \<not> entry_dead vm bmg (fst e)) (bucket_list c (int n) src_idx src_codes) \<and>
    (\<forall>i < length (survivors vm bmg n src_idx). di ! i = Some (survivors vm bmg n src_idx ! i) \<and>
       vp' ! unat (survivors vm bmg n src_idx ! i) = pack_pos (int b) (int i)) \<and>
    (\<forall>u < length vp. u \<notin> (\<lambda>k. unat k) ` set (survivors vm bmg n src_idx) \<longrightarrow> vp' ! u = vp ! u)"
  using src len n dis
proof (induction n)
  case 0
  then show ?case by (simp add: bucket_list_def survivors_simps)
next
  case (Suc n)
  let ?F = "survivors vm bmg n src_idx" and ?k = "the (src_idx ! n)"
  have tk: "survivors vm bmg (Suc n) src_idx = ?F @ (if entry_dead vm bmg ?k then [] else [?k])"
    using Suc.prems(2) by (simp add: survivors_simps)
  have dis: "distinct ?F" using Suc.prems(6) unfolding tk by simp
  obtain di dc vp' where IH: "compact_loop vm bmg (int c) (int b) src_idx src_codes n
      (replicate cap None, replicate (cap * c) None, 0, vp) = Some (di, dc, int (length ?F), vp')"
    "length di = cap" "length dc = cap * c" "length vp' = length vp"
    "bucket_list c (int (length ?F)) di dc =
      filter (\<lambda>e. \<not> entry_dead vm bmg (fst e)) (bucket_list c (int n) src_idx src_codes)"
    "\<forall>i < length ?F. di ! i = Some (?F ! i) \<and> vp' ! unat (?F ! i) = pack_pos (int b) (int i)"
    "\<forall>u < length vp. u \<notin> (\<lambda>k. unat k) ` set ?F \<longrightarrow> vp' ! u = vp ! u"
    using Suc.IH Suc.prems dis by auto
  have en: "entry_ok vm bmg (length vp') (src_idx ! n)" "n < length src_idx" using Suc.prems IH(4) by auto
  have bl: "bucket_list c (int (Suc n)) src_idx src_codes =
      bucket_list c (int n) src_idx src_codes @ [(?k, slot c src_codes n)]"
    by (simp add: bucket_list_def nat_add_distrib)
  show ?case
  proof (cases "entry_dead vm bmg ?k")
    case True
    then have "compact_loop vm bmg (int c) (int b) src_idx src_codes (Suc n)
      (replicate cap None, replicate (cap * c) None, 0, vp) = Some (di, dc, int (length ?F), vp')"
      using IH(1) CompactOne_dead [OF en] by simp
    moreover have "survivors vm bmg (Suc n) src_idx = ?F" using True unfolding tk by simp
    ultimately show ?thesis
      using IH(2-7) True unfolding bl by (intro exI [of _ di] exI [of _ dc] exI [of _ vp']) simp
  next
    case False
    let ?p = "length ?F"
    have p: "?p \<le> n" by (rule length_survivors)
    have pc: "(?p + 1) * c \<le> cap * c" using p Suc.prems(4) by (intro mult_le_mono1) simp
    have nc: "(n + 1) * c \<le> length src_codes" using Suc.prems(2,3) by (metis Suc_eq_plus1 mult_le_mono1)
    obtain dc' where dc': "blit dc (int (?p * c)) src_codes (int (n * c)) (int (1 * c)) = Some dc'"
      "length dc' = cap * c" "\<forall>i. (i + 1) * c \<le> cap * c \<longrightarrow>
        slot c dc' i = (if ?p \<le> i \<and> i < ?p + 1 then slot c src_codes (i - ?p + n) else slot c dc i)"
      using blit_slots [of ?p 1 c dc n src_codes] IH(3) pc nc by auto
    have F: "survivors vm bmg (Suc n) src_idx = ?F @ [?k]" using False unfolding tk by simp
    have new: "?k \<notin> set ?F" using Suc.prems(6) unfolding F by simp
    then have newu: "unat ?k \<notin> (\<lambda>k. unat k) ` set ?F" by (auto simp flip: word_unat_eq_iff)
    obtain k where k: "src_idx ! n = Some k" "unat k < length vp'"
      using en(1) False by (auto simp: entry_ok_def entry_dead_def)
    let ?di = "di[?p := src_idx ! n]" and ?vp = "vp'[unat ?k := pack_pos (int b) (int ?p)]"
    have e: "compact_loop vm bmg (int c) (int b) src_idx src_codes (Suc n)
      (replicate cap None, replicate (cap * c) None, 0, vp) = Some (?di, dc', int ?p + 1, ?vp)"
      using IH(1) CompactOne_alive [OF en False, of dc "int ?p" "int c" src_codes dc' di "int b"] dc'(1) IH(2) p
        Suc.prems(4) by simp
    have old: "?di ! i = di ! i" "slot c dc' i = slot c dc i" if "i < ?p" for i
    proof -
      have "(i + 1) * c \<le> cap * c" using that p Suc.prems(4) by (intro mult_le_mono1) simp
      then show "?di ! i = di ! i" "slot c dc' i = slot c dc i" using that dc'(3) by auto
    qed
    have bl': "bucket_list c (int ?p + 1) ?di dc' = bucket_list c (int ?p) di dc @ [(?k, slot c src_codes n)]"
      using old dc'(3) pc IH(2) p Suc.prems(4) by (simp add: bucket_list_def nat_add_distrib)
    have at: "\<forall>i < length (?F @ [?k]). ?di ! i = Some ((?F @ [?k]) ! i) \<and>
        ?vp ! unat ((?F @ [?k]) ! i) = pack_pos (int b) (int i)"
    proof (intro allI impI)
      fix i
      assume i: "i < length (?F @ [?k])"
      show "?di ! i = Some ((?F @ [?k]) ! i) \<and> ?vp ! unat ((?F @ [?k]) ! i) = pack_pos (int b) (int i)"
      proof (cases "i < ?p")
        case True
        then have "unat (?F ! i) \<noteq> unat ?k" using newu by (metis image_eqI nth_mem)
        then show ?thesis using True IH(6) by (simp add: nth_append)
      next
        case False
        then have "i = ?p" using i by simp
        then show ?thesis using k IH(2) p Suc.prems(4) by (simp add: nth_append)
      qed
    qed
    have ln: "int (length (?F @ [?k])) = int ?p + 1" by simp
    have fin: "bucket_list c (int ?p + 1) ?di dc' =
        filter (\<lambda>e. \<not> entry_dead vm bmg (fst e)) (bucket_list c (int (Suc n)) src_idx src_codes)"
      unfolding bl bl' IH(5) using False by simp
    have keep: "\<forall>u < length vp. u \<notin> (\<lambda>k. unat k) ` set (?F @ [?k]) \<longrightarrow> ?vp ! u = vp ! u" using IH(7) by simp
    have lens: "length ?di = cap" "length ?vp = length vp" using IH(2,4) by simp_all
    show ?thesis
      unfolding F ln by (intro exI conjI) (rule e lens dc'(2) fin at keep)+
  qed
qed

lemma pos_okD:
  "pos_ok d \<Longrightarrow> a < length (rt_idx d) \<Longrightarrow> i < nat (rt_rpos d ! a) \<Longrightarrow> the (rt_idx d ! a ! i) = k \<Longrightarrow>
   k AND kDelIdxMask = 0 \<Longrightarrow> unat k < length (rt_vpos d) \<and> rt_vpos d ! unat k = pack_pos (int a) (int i)"
  unfolding pos_ok_def by blast

lemma pos_ok_unique:
  assumes p: "pos_ok d" "rt_ok c d" and i: "a < length (rt_idx d)" "i < nat (rt_rpos d ! a)"
    and j: "b < length (rt_idx d)" "j < nat (rt_rpos d ! b)"
    and k: "the (rt_idx d ! a ! i) = the (rt_idx d ! b ! j)" "the (rt_idx d ! a ! i) AND kDelIdxMask = 0"
  shows "a = b \<and> i = j"
proof -
  have e: "pack_pos (int a) (int i) = pack_pos (int b) (int j)"
    using p(1) i j k unfolding pos_ok_def by metis
  have "rt_rpos d ! a < 2147483648" "rt_rpos d ! b < 2147483648"
    using rt_okD(1) [OF p(2) i(1)] rt_okD(1) [OF p(2) j(1)] by (simp_all add: bucket_ok_def)
  then have "0 \<le> int a" "int a < 2147483648" "0 \<le> int i" "int i < 2147483648"
    "0 \<le> int b" "int b < 2147483648" "0 \<le> int j" "int j < 2147483648"
    using p(2) i j by (auto simp: rt_ok_def)
  then show ?thesis using e pos_of_pack(1,2) [of "int a" "int i"] pos_of_pack(1,2) [of "int b" "int j"] by simp
qed

lemma set_survivors:
  "n \<le> length l \<Longrightarrow> set (survivors vm bmg n l) = {k. \<exists>i < n. the (l ! i) = k \<and> \<not> entry_dead vm bmg k}"
  by (induction n) (auto simp: survivors_simps less_Suc_eq)

lemma distinct_survivors:
  assumes "n \<le> length l"
    and "\<And>i j. i < j \<Longrightarrow> j < n \<Longrightarrow> \<not> entry_dead vm bmg (the (l ! i)) \<Longrightarrow> the (l ! i) \<noteq> the (l ! j)"
  shows "distinct (survivors vm bmg n l)"
  using assms
proof (induction n)
  case (Suc n)
  have "the (l ! n) \<notin> set (survivors vm bmg n l)" if "\<not> entry_dead vm bmg (the (l ! n))"
  proof -
    have "the (l ! i) \<noteq> the (l ! n)" if "i < n" "\<not> entry_dead vm bmg (the (l ! i))" for i
      using Suc.prems(2) [of i n] that by simp
    then show ?thesis using Suc.prems(1) by (simp add: set_survivors) metis
  qed
  moreover have "distinct (survivors vm bmg n l)" using Suc by simp
  ultimately show ?case using Suc.prems(1) by (simp add: survivors_simps)
qed (simp add: survivors_simps)

text \<open>The ids a bucket may hold for compaction to read their deletion marks.\<close>

definition ids_known :: "vid_mgr \<Rightarrow> bitmap_mgr \<Rightarrow> rtd \<Rightarrow> nat \<Rightarrow> bool" where
  "ids_known vm bmg d b \<longleftrightarrow> (\<forall>e \<in> set (map the (take (nat (rt_rpos d ! b)) (rt_idx d ! b))).
     e AND kDelIdxMask = 0 \<longrightarrow> key_ok vm bmg e)"

lemma RT_CompactBucket_spec:
  assumes ok: "rt_ok c d" "pos_ok d" and b: "b < length (rt_idx d)" and ids: "ids_known vm bmg d b"
  shows "\<exists>d'. RT_CompactBucket vm bmg (int c) d (int b) = Some d' \<and> rt_ok c d' \<and> pos_ok d' \<and>
    length (rt_idx d') = length (rt_idx d) \<and>
    (\<forall>a < length (rt_idx d). rt_list c d' a =
      (if a = b then filter (\<lambda>e. \<not> entry_dead vm bmg (fst e)) (rt_list c d b) else rt_list c d a)) \<and>
    rt_del d' = (rt_del d)[b := 0] \<and>
    rt_compacted d' = rt_compacted d + (rt_rpos d ! b - rt_rpos d' ! b)"
proof -
  note D = rt_okD [OF ok(1) b]
  let ?n = "nat (rt_rpos d ! b)" and ?l = "rt_idx d ! b" and ?cs = "rt_codes d ! b" and ?cap = "nat (rt_cap d ! b)"
  let ?S = "survivors vm bmg ?n ?l"
  have len: "?n \<le> length ?l" "length ?cs = length ?l * c" "?n \<le> ?cap" "int ?n < 2147483648" "int ?n = rt_rpos d ! b"
    and some: "\<forall>i < ?n. ?l ! i \<noteq> None" and b31: "b < 2147483648"
    using D(1) ok(1) b by (auto simp: bucket_ok_def rt_ok_def)
  have src: "\<forall>i < ?n. entry_ok vm bmg (length (rt_vpos d)) (?l ! i)"
  proof (intro allI impI)
    fix i
    assume i: "i < ?n"
    obtain k where k: "?l ! i = Some k" using some i by auto
    have "map the (take ?n ?l) ! i = k" "i < length (map the (take ?n ?l))" using i len(1) k by simp_all
    then have "k \<in> set (map the (take ?n ?l))" by (metis nth_mem)
    then have "k AND kDelIdxMask = 0 \<Longrightarrow> key_ok vm bmg k" using ids unfolding ids_known_def by blast
    moreover have "k AND kDelIdxMask = 0 \<Longrightarrow> unat k < length (rt_vpos d)"
      using pos_okD [OF ok(2) b i, of k] k by simp
    ultimately show "entry_ok vm bmg (length (rt_vpos d)) (?l ! i)" using k by (auto simp: entry_ok_def key_ok_def)
  qed
  have dis: "distinct ?S"
  proof (rule distinct_survivors [OF len(1)])
    fix i j
    assume ij: "i < j" "j < ?n" and a: "\<not> entry_dead vm bmg (the (?l ! i))"
    then show "the (?l ! i) \<noteq> the (?l ! j)"
      using pos_ok_unique [OF ok(2,1) b _ b, of i j] by (auto simp: entry_dead_def)
  qed
  obtain di dc vp' where C: "compact_loop vm bmg (int c) (int b) ?l ?cs ?n
      (replicate ?cap None, replicate (?cap * c) None, 0, rt_vpos d) = Some (di, dc, int (length ?S), vp')"
    "length di = ?cap" "length dc = ?cap * c" "length vp' = length (rt_vpos d)"
    "bucket_list c (int (length ?S)) di dc = filter (\<lambda>e. \<not> entry_dead vm bmg (fst e)) (bucket_list c (int ?n) ?l ?cs)"
    "\<forall>i < length ?S. di ! i = Some (?S ! i) \<and> vp' ! unat (?S ! i) = pack_pos (int b) (int i)"
    "\<forall>u < length (rt_vpos d). u \<notin> (\<lambda>k. unat k) ` set ?S \<longrightarrow> vp' ! u = rt_vpos d ! u"
    using compact_loop_spec [OF src len(1,2,3) b31 len(4) dis] by blast
  have cp: "nat (int c * rt_cap d ! b) = ?cap * c" by (simp add: nat_mult_distrib mult.commute)
  let ?p = "int (length ?S)"
  let ?d = "d\<lparr>rt_idx := (rt_idx d)[b := di], rt_codes := (rt_codes d)[b := dc], rt_rpos := (rt_rpos d)[b := ?p],
    rt_del := (rt_del d)[b := 0], rt_vpos := vp', rt_compacted := rt_compacted d + (rt_rpos d ! b - ?p)\<rparr>"
  have e: "RT_CompactBucket vm bmg (int c) d (int b) = Some ?d"
    using C(1) by (simp add: RT_CompactBucket_def D(2-) cp)
  have pn: "length ?S \<le> ?n" by (rule length_survivors)
  have "?p \<le> rt_rpos d ! b" using pn len(5) by linarith
  then have bk: "bucket_ok c ?p (rt_cap d ! b) di dc"
    using D(1) C(2,3,6) unfolding bucket_ok_def by simp
  have okd: "rt_ok c ?d" using ok(1) bk C(4) b by (auto simp: rt_ok_def nth_list_update)
  have ls: "rt_list c ?d a = (if a = b then filter (\<lambda>e. \<not> entry_dead vm bmg (fst e)) (rt_list c d b) else rt_list c d a)"
    if "a < length (rt_idx d)" for a
    using that C(5) ok(1) b len(5) by (auto simp: rt_list_def rt_ok_def)
  have ps: "pos_ok ?d"
    unfolding pos_ok_def
  proof (intro allI impI)
    fix a i
    let ?k = "the (rt_idx ?d ! a ! i)"
    assume a: "a < length (rt_idx ?d)" and i: "i < nat (rt_rpos ?d ! a)" and k: "?k AND kDelIdxMask = 0"
    show "unat ?k < length (rt_vpos ?d) \<and> rt_vpos ?d ! unat ?k = pack_pos (int a) (int i)"
    proof (cases "a = b")
      case True
      have lb: "b < length (rt_rpos d)" using ok(1) b by (simp add: rt_ok_def)
      then have iS: "i < length ?S" using i True by simp
      then have kS: "?k = ?S ! i" using C(6) True b by simp
      then have "?k \<in> set ?S" using iS by simp
      then obtain j where "j < ?n" "the (?l ! j) = ?k" unfolding set_survivors [OF len(1)] by blast
      then have "unat ?k < length (rt_vpos d)" using ok(2) b k unfolding pos_ok_def by metis
      then show ?thesis using C(4,6) iS kS True by simp
    next
      case False
      have o: "a < length (rt_idx d)" "i < nat (rt_rpos d ! a)" "?k = the (rt_idx d ! a ! i)"
        using a i False by simp_all
      have "?k \<notin> set ?S"
        using pos_ok_unique [OF ok(2,1) o(1,2) b] False k
        unfolding set_survivors [OF len(1)] o(3) by force
      then have "unat ?k \<notin> (\<lambda>k. unat k) ` set ?S" by (auto simp flip: word_unat_eq_iff)
      then show ?thesis using ok(2) o k C(4,7) unfolding pos_ok_def by simp
    qed
  qed
  have lr: "rt_rpos ?d ! b = ?p" using ok(1) b by (simp add: rt_ok_def)
  show ?thesis using e okd ps ls lr by (intro exI [of _ ?d]) simp
qed

lemma compact_ratio_tenths:
  assumes "0 < sz" "sz < 16777216"
  shows "compact_ratio deleted sz \<longleftrightarrow> 3 * sz \<le> 10 * deleted"
proof
  assume "compact_ratio deleted sz"
  then have "20132659 * sz \<le> 67108864 * deleted" using assms by (simp add: compact_ratio_def)
  then show "3 * sz \<le> 10 * deleted" using assms(2) by linarith
next
  assume "3 * sz \<le> 10 * deleted"
  then have "20132659 * sz \<le> 67108864 * deleted" using assms(1) by linarith
  then show "compact_ratio deleted sz" using assms by (simp add: compact_ratio_def)
qed

subsection \<open>The start, and moving a vector\<close>

lemma RM_Init_ok:
  assumes "0 < n" "0 < k" "n \<le> 2147483648" "k < 2147483648"
  shows "rt_ok c (rm_cur (RM_Init n k limit c))" "pos_ok (rm_cur (RM_Init n k limit c))"
    "b < n \<Longrightarrow> rt_list c (rm_cur (RM_Init n k limit c)) b = []" "rm_cb (RM_Init n k limit c) = int c"
    "length (rt_idx (rm_cur (RM_Init n k limit c))) = n"
    "b < n \<Longrightarrow> rt_rpos (rm_cur (RM_Init n k limit c)) ! b = 0 \<and> rt_cap (rm_cur (RM_Init n k limit c)) ! b = int k"
    "rm_limit (RM_Init n k limit c) = int limit"
  using assms by (simp_all add: RM_Init_def RT_Init_def rt_ok_def bucket_ok_def pos_ok_def rt_list_def bucket_list_def)

text \<open>Marking an entry.\<close>

lemma marked_entry: "(k OR kDelIdxMask) AND kDelIdxMask \<noteq> (0 :: u64)"
  by (simp add: bit.conj_disj_distrib2)

lemma RM_Update_moved:
  assumes ok: "rt_ok c (rm_cur m)" "pos_ok (rm_cur m)" and cb: "rm_cb m = int c" "length codes = c"
    and a: "a < length (rt_idx (rm_cur m))" "i < nat (rt_rpos (rm_cur m) ! a)"
    and k: "the (rt_idx (rm_cur m) ! a ! i) = word_of_int v" "0 \<le> v" "v < 2147483648" "key_ok vm bmg (word_of_int v)"
    and b: "b < length (rt_idx (rm_cur m))" "b \<noteq> a" "1 \<le> rt_cap (rm_cur m) ! b"
    and r: "rt_rpos (rm_cur m) ! b + 1 < 2147483648" and f: "fits m b 1"
  shows "\<exists>m'. RM_Update vm bmg m (int b) v codes = Some (1, m') \<and> rt_ok c (rm_cur m') \<and> pos_ok (rm_cur m') \<and>
    rt_list c (rm_cur m') b = rt_list c (rm_cur m) b @ [(word_of_int v, map Some codes)] \<and>
    rt_list c (rm_cur m') a = (rt_list c (rm_cur m) a)[i := (word_of_int v OR kDelIdxMask, snd (rt_list c (rm_cur m) a ! i))]"
proof -
  let ?d = "rm_cur m" and ?k = "word_of_int v :: u64"
  note A = rt_okD [OF ok(1) a(1)]
  have uk: "uint ?k = v" using k(2,3) by (simp add: uint_word_of_int)
  have un: "?k AND kDelIdxMask = 0"
  proof -
    have "uint (?k AND kDelIdxMask) = v AND 2 ^ 63" by (simp add: uint_and uk)
    also have "\<dots> = 0"
    proof -
      have "v div 2 ^ 63 = 0" using k(2,3) by simp
      then have "\<not> bit v 63" by (simp only: bit_iff_odd) simp
      then show ?thesis by (simp only: and_exp_eq_0_iff_not_bit) simp
    qed
    finally show ?thesis by (simp only: uint_0_iff)
  qed
  note pos = pos_okD [OF ok(2) a k(1) un]
  have nv: "unat ?k = nat v" using uk by (metis nat_uint_eq)
  have vlt: "v < rt_nids ?d" "fetch (rt_vpos ?d) v = Some (pack_pos (int a) (int i))"
    using pos ok(1) k(2) unfolding nv by (auto simp: rt_ok_def fetch_def)
  have a31: "int a < 2147483648" and i31: "int i < 2147483648"
    using ok(1) a A(1) by (auto simp: rt_ok_def bucket_ok_def)
  note pp = pos_of_pack [of "int a" "int i", OF _ a31 _ i31, simplified]
  have li: "i < length (rt_idx ?d ! a)" "rt_idx ?d ! a ! i = Some ?k"
    using A(1) a(2) k(1) by (auto simp: bucket_ok_def)
  let ?l = "(rt_idx ?d ! a)[i := Some (?k OR kDelIdxMask)]"
  let ?d1 = "?d\<lparr>rt_idx := (rt_idx ?d)[a := ?l], rt_del := (rt_del ?d)[a := rt_del ?d ! a + 1]\<rparr>"
  have E: "RM_Update vm bmg m (int b) v codes =
      do { (r, m') \<leftarrow> RM_AddKeys vm bmg (m\<lparr>rm_cur := ?d1\<rparr>) (int b) 1 [?k] codes; Some (if r then 1 else 0, m') }"
    using vlt pp k(2) cb b(2) A li by (simp add: RM_Update_def Let_def fetch_def store_def)
  have other: "rt_idx ?d1 ! x = rt_idx ?d ! x" if "x \<noteq> a" for x using that by simp
  have ok1: "rt_ok c ?d1" using ok(1) a by (auto simp: rt_ok_def bucket_ok_def nth_list_update)
  have ent: "the (rt_idx ?d1 ! x ! j) = (if x = a \<and> j = i then ?k OR kDelIdxMask else the (rt_idx ?d ! x ! j))" for x j
    using a(1) li(1) by (cases "x = a"; cases "j = i") auto
  have entD: "the (rt_idx ?d ! x ! j) = e \<and> \<not> (x = a \<and> j = i)"
    if "the (rt_idx ?d1 ! x ! j) = e" "e AND kDelIdxMask = 0" for x j e
    using that marked_entry [of ?k] unfolding ent by (cases "x = a \<and> j = i") auto
  have pos1: "pos_ok ?d1"
    unfolding pos_ok_def
  proof (intro allI impI)
    fix x j
    assume x: "x < length (rt_idx ?d1)" "j < nat (rt_rpos ?d1 ! x)" and e: "the (rt_idx ?d1 ! x ! j) AND kDelIdxMask = 0"
    obtain e' where e': "the (rt_idx ?d1 ! x ! j) = e'" by blast
    then have "the (rt_idx ?d ! x ! j) = e'" using entD e by blast
    then have "unat e' < length (rt_vpos ?d) \<and> rt_vpos ?d ! unat e' = pack_pos (int x) (int j)"
      using pos_okD [OF ok(2)] x e e' by simp
    then show "unat (the (rt_idx ?d1 ! x ! j)) < length (rt_vpos ?d1) \<and>
        rt_vpos ?d1 ! unat (the (rt_idx ?d1 ! x ! j)) = pack_pos (int x) (int j)"
      unfolding e' by simp
  qed
  have "?k \<notin> unmarked ?d1"
  proof
    assume "?k \<in> unmarked ?d1"
    then obtain x j where xj: "x < length (rt_idx ?d)" "j < nat (rt_rpos ?d ! x)" "the (rt_idx ?d1 ! x ! j) = ?k"
      by (auto simp: unmarked_def)
    have "the (rt_idx ?d ! x ! j) = ?k" "\<not> (x = a \<and> j = i)" using entD [OF xj(3) un] by auto
    then show False using pos_ok_unique [OF ok(2,1) xj(1,2) a] k(1) un by simp
  qed
  then have fresh: "unmarked ?d1 \<inter> set [?k] = {}" by simp
  have pre: "\<forall>q \<in> set [?k]. key_ok vm bmg q" "distinct [?k]" "length codes = length [?k] * c"
    "rt_ok c (rm_cur (m\<lparr>rm_cur := ?d1\<rparr>))" "rm_cb (m\<lparr>rm_cur := ?d1\<rparr>) = int c"
    "b < length (rt_idx (rm_cur (m\<lparr>rm_cur := ?d1\<rparr>)))" "1 \<le> rt_cap (rm_cur (m\<lparr>rm_cur := ?d1\<rparr>)) ! b"
    "rt_rpos (rm_cur (m\<lparr>rm_cur := ?d1\<rparr>)) ! b + int (length [?k]) < 2147483648"
    "fits (m\<lparr>rm_cur := ?d1\<rparr>) b (int (length [?k]))"
    using k(4) cb ok1 b r f by (simp_all add: fits_def)
  obtain m' where m': "RM_AddKeys vm bmg (m\<lparr>rm_cur := ?d1\<rparr>) (int b) 1 [?k] codes = Some (True, m')"
    "rt_ok c (rm_cur m')" "pos_ok (rm_cur m')"
    "\<forall>x < length (rt_idx ?d). rt_list c (rm_cur m') x = rt_list c ?d1 x @
       (if x = b then [(?k, map Some (slot c codes 0))] else [])"
    using RM_AddKeys_spec [OF pre(4-7,1-3,8,9)] pos1 fresh by auto
  have sl: "slot c codes 0 = codes" using cb(2) by (simp add: slot_def)
  have lb: "rt_list c ?d1 b = rt_list c ?d b" using b(2) by (simp add: rt_list_def)
  have la: "rt_list c ?d1 a = (rt_list c ?d a)[i := (?k OR kDelIdxMask, snd (rt_list c ?d a ! i))]"
    using a li(1) by (intro nth_equalityI) (auto simp: rt_list_def bucket_list_def nth_list_update)
  show ?thesis using E m' sl lb la a(1) b by simp
qed

end
