(* ===== verification/LruCache.thy ===== *)
theory LruCache
  imports DiskFile "HOL-Library.Multiset"
begin

text \<open>
  The block caches of \<open>storage/lru_cache.h\<close>: the pool of equally large buffers, the LRU cache and
  the simple cache. A \<open>char *\<close> is an address of a heap of buffers; dereferencing an address that is
  not allocated, or a \<open>memcpy\<close> past the end of its buffer, is \<open>None\<close>. The content of a new buffer is
  indeterminate and is the argument \<open>g\<close>. The function that loads a block is the argument
  \<open>load key buffer token\<close>, which returns its result and the buffer it leaves, or \<open>None\<close> when it faults. \<open>SetOrGet\<close> is the
  composition of its three critical sections, which are definitions of their own. \<open>size_t\<close>
  counters are natural numbers: the invariant shows that they count cells and never go below 0.
\<close>

subsection \<open>The buffer pool\<close>

record pool =
  mp_heap :: "nat \<Rightarrow> byte list option"
  mp_brk :: nat
  mp_que :: "nat list"
  mp_use :: u32
  mp_max :: u32
  mp_cell :: nat

definition MP_Init :: "u32 \<Rightarrow> nat \<Rightarrow> pool" where
  "MP_Init max_cell_num cell_size = \<lparr>mp_heap = Map.empty, mp_brk = 0, mp_que = [], mp_use = 0,
     mp_max = max_cell_num, mp_cell = cell_size\<rparr>"

definition MP_GetBuffer :: "(nat \<Rightarrow> byte) \<Rightarrow> pool \<Rightarrow> nat \<times> pool" where
  "MP_GetBuffer g p = (case mp_que p of
     a # q \<Rightarrow> (a, p\<lparr>mp_que := q, mp_use := mp_use p + 1\<rparr>)
   | [] \<Rightarrow> (mp_brk p, p\<lparr>mp_heap := (mp_heap p)(mp_brk p \<mapsto> map g [0..<mp_cell p]),
       mp_brk := Suc (mp_brk p), mp_use := mp_use p + 1\<rparr>))"

definition MP_ReclaimBuffer :: "nat \<Rightarrow> pool \<Rightarrow> pool" where
  "MP_ReclaimBuffer a p =
     (let q = mp_que p @ [a]; u = mp_use p - 1
      in if unat u + length q > unat (mp_max p)
         then p\<lparr>mp_que := tl q, mp_use := u, mp_heap := (mp_heap p)(hd q := None)\<rparr>
         else p\<lparr>mp_que := q, mp_use := u\<rparr>)"

definition MP_SetMaxBufferNum :: "u32 \<Rightarrow> pool \<Rightarrow> u32 \<times> pool" where
  "MP_SetMaxBufferNum n p =
     (if length (mp_que p) + unat (mp_use p) \<le> unat n then (n, p\<lparr>mp_max := n\<rparr>)
      else let del = (if mp_use p > n then length (mp_que p)
                      else length (mp_que p) + unat (mp_use p) - unat n)
           in (n, p\<lparr>mp_heap := (\<lambda>a. if a \<in> set (take del (mp_que p)) then None else mp_heap p a),
                mp_que := drop del (mp_que p), mp_max := mp_max p - of_nat del\<rparr>))"

text \<open>\<open>memcpy\<close> into a buffer.\<close>

definition heap_write :: "(nat \<Rightarrow> byte list option) \<Rightarrow> nat \<Rightarrow> nat \<Rightarrow> byte list \<Rightarrow> (nat \<Rightarrow> byte list option) option" where
  "heap_write h a pos bs = do {
     b \<leftarrow> h a;
     if pos + length bs \<le> length b
     then Some (h(a \<mapsto> splice pos bs b)) else None }"

subsection \<open>The LRU cache\<close>

record cell =
  c_val :: nat
  c_hits :: nat

record insert_info =
  ii_clean :: bool
  ii_product :: bool
  ii_val :: nat

record lru =
  lc_max :: nat
  lc_over :: nat
  lc_pool :: pool
  lc_infos :: "u32 \<Rightarrow> nat option"
  lc_objs :: "insert_info list"
  lc_cur :: nat
  lc_hits :: nat
  lc_misses :: nat
  lc_set_hits :: nat
  lc_evict :: nat
  lc_cells :: "u32 \<Rightarrow> cell option"
  lc_queue :: "u32 list"

definition cache_sizes :: "nat \<Rightarrow> nat \<Rightarrow> nat \<times> nat" where
  "cache_sizes cache_size cell_size =
     (let n = (cache_size * 1024 * 1024) mod 2 ^ 64 div cell_size;
          over = (if n div 20 > 1000 then 1000 else n div 20)
      in (n - over, over))"

definition LC_new :: "nat \<Rightarrow> nat \<Rightarrow> lru" where
  "LC_new cache_size cell_size = (case cache_sizes cache_size cell_size of (max_size, over) \<Rightarrow>
     \<lparr>lc_max = max_size, lc_over = over, lc_pool = MP_Init (of_nat max_size + of_nat over + 500) cell_size,
      lc_infos = Map.empty, lc_objs = [], lc_cur = 0, lc_hits = 0, lc_misses = 0, lc_set_hits = 0,
      lc_evict = 0, lc_cells = Map.empty, lc_queue = []\<rparr>)"

definition touch :: "u32 \<Rightarrow> cell \<Rightarrow> lru \<Rightarrow> lru" where
  "touch key cell c =
     (if c_hits cell \<ge> 250
      then c\<lparr>lc_queue := remove1 key (lc_queue c) @ [key], lc_cells := (lc_cells c)(key \<mapsto> cell\<lparr>c_hits := 0\<rparr>)\<rparr>
      else c\<lparr>lc_cells := (lc_cells c)(key \<mapsto> cell\<lparr>c_hits := c_hits cell + 1\<rparr>)\<rparr>)"

definition LC_GetImpl :: "u32 \<Rightarrow> lru \<Rightarrow> nat option \<times> lru" where
  "LC_GetImpl key c = (case lc_cells c key of
     None \<Rightarrow> (None, c)
   | Some cell \<Rightarrow> (Some (c_val cell), touch key cell c))"

primrec evict_loop :: "nat \<Rightarrow> lru \<Rightarrow> nat \<times> lru" where
  "evict_loop 0 c = (0, c)"
| "evict_loop (Suc n) c =
     (case lc_queue c of
        [] \<Rightarrow> (case evict_loop n c of (f, c') \<Rightarrow> (Suc f, c'))
      | key # q \<Rightarrow> (case lc_cells c key of
          None \<Rightarrow> evict_loop n c
        | Some cell \<Rightarrow> evict_loop n (c\<lparr>lc_pool := MP_ReclaimBuffer (c_val cell) (lc_pool c),
            lc_cells := (lc_cells c)(key := None), lc_queue := q\<rparr>)))"

definition LC_EvictOverflow :: "lru \<Rightarrow> lru" where
  "LC_EvictOverflow c =
     (if lc_cur c \<ge> lc_max c + lc_over c
      then let n = lc_cur c - lc_max c
           in (case evict_loop n (c\<lparr>lc_cur := lc_cur c - n\<rparr>) of (f, c') \<Rightarrow> c'\<lparr>lc_cur := lc_cur c' + f\<rparr>)
      else c)"

definition LC_SetImpl :: "u32 \<Rightarrow> nat \<Rightarrow> lru \<Rightarrow> lru" where
  "LC_SetImpl key value c = (case lc_cells c key of
     None \<Rightarrow> LC_EvictOverflow (c\<lparr>lc_cells := (lc_cells c)(key \<mapsto> \<lparr>c_val = value, c_hits = 0\<rparr>),
       lc_queue := lc_queue c @ [key], lc_cur := lc_cur c + 1\<rparr>)
   | Some cell \<Rightarrow>
       let c' = touch key cell c
       in c'\<lparr>lc_pool := MP_ReclaimBuffer (c_val cell) (lc_pool c'),
             lc_cells := (lc_cells c')(key \<mapsto> (the (lc_cells c' key))\<lparr>c_val := value\<rparr>)\<rparr>)"

definition LC_Get :: "u32 \<Rightarrow> lru \<Rightarrow> nat option \<times> lru" where
  "LC_Get key c = (case LC_GetImpl key c of
     (None, c') \<Rightarrow> (None, c'\<lparr>lc_misses := lc_misses c' + 1\<rparr>)
   | (Some a, c') \<Rightarrow> (Some a, c'\<lparr>lc_hits := lc_hits c' + 1\<rparr>))"

definition LC_Set :: "u32 \<Rightarrow> nat \<Rightarrow> lru \<Rightarrow> lru" where
  "LC_Set key value c = LC_SetImpl key value c"

text \<open>\<open>Get2\<close> returns whether it was a hit, and on a miss a buffer for the caller to fill.\<close>

definition LC_Get2 :: "(nat \<Rightarrow> byte) \<Rightarrow> u32 \<Rightarrow> lru \<Rightarrow> bool \<times> nat \<times> lru" where
  "LC_Get2 g key c = (case LC_GetImpl key c of
     (None, c') \<Rightarrow> (case MP_GetBuffer g (lc_pool c') of
        (a, p) \<Rightarrow> (False, a, c'\<lparr>lc_pool := p, lc_misses := lc_misses c' + 1\<rparr>))
   | (Some a, c') \<Rightarrow> (True, a, c'\<lparr>lc_hits := lc_hits c' + 1\<rparr>))"

text \<open>The critical sections of \<open>SetOrGet\<close>: look the key up or take part in its insertion, \<dots>\<close>

definition SG_begin :: "(nat \<Rightarrow> byte) \<Rightarrow> u32 \<Rightarrow> lru \<Rightarrow> (nat + nat) \<times> lru" where
  "SG_begin g key c = (case LC_GetImpl key c of
     (Some a, c') \<Rightarrow> (Inl a, c'\<lparr>lc_hits := lc_hits c' + 1\<rparr>)
   | (None, c') \<Rightarrow> (case lc_infos c' key of
        Some i \<Rightarrow> (Inr i, c'\<lparr>lc_misses := lc_misses c' + 1\<rparr>)
      | None \<Rightarrow> (case MP_GetBuffer g (lc_pool c') of (a, p) \<Rightarrow>
          (Inr (length (lc_objs c')),
           c'\<lparr>lc_pool := p, lc_infos := (lc_infos c')(key \<mapsto> length (lc_objs c')),
              lc_objs := lc_objs c' @ [\<lparr>ii_clean = False, ii_product = False, ii_val = a\<rparr>],
              lc_misses := lc_misses c' + 1\<rparr>))))"

text \<open>\<dots> load the block unless another thread has, \<dots>\<close>

definition SG_load :: "(u32 \<Rightarrow> byte list \<Rightarrow> 'p \<Rightarrow> (bool \<times> byte list) option) \<Rightarrow> u32 \<Rightarrow> 'p \<Rightarrow> nat \<Rightarrow> lru \<Rightarrow>
    ((nat + bool) \<times> lru) option" where
  "SG_load load key token i c =
     (let ins = lc_objs c ! i
      in if ii_product ins then Some (Inl (ii_val ins), c\<lparr>lc_set_hits := lc_set_hits c + 1\<rparr>)
         else do {
           b \<leftarrow> mp_heap (lc_pool c) (ii_val ins);
           (res, b') \<leftarrow> load key b token;
           Some (Inr res, c\<lparr>lc_pool := (lc_pool c)\<lparr>mp_heap := (mp_heap (lc_pool c))(ii_val ins \<mapsto> b')\<rparr>,
             lc_objs := (if res then (lc_objs c)[i := ins\<lparr>ii_product := True\<rparr>] else lc_objs c)\<rparr>) })"

text \<open>\<dots> and publish it.\<close>

definition SG_publish :: "u32 \<Rightarrow> nat \<Rightarrow> bool \<Rightarrow> lru \<Rightarrow> nat option \<times> lru" where
  "SG_publish key i res c =
     (let ins = lc_objs c ! i;
          (value, c1) =
            (if res \<and> lc_infos c key = Some i then (Some (ii_val ins), LC_SetImpl key (ii_val ins) c)
             else (None, c\<lparr>lc_pool := MP_ReclaimBuffer (ii_val ins) (lc_pool c)\<rparr>))
      in (value, if \<not> ii_clean ins
                 then c1\<lparr>lc_objs := (lc_objs c1)[i := (lc_objs c1 ! i)\<lparr>ii_clean := True\<rparr>],
                         lc_infos := (lc_infos c1)(key := None)\<rparr>
                 else c1))"

text \<open>
  A call of \<open>SetOrGet\<close> with no other thread in between. The code gives up the lock of the cache between
  the three sections; what two threads can do then is the theorem \<open>failed_loads_free_a_buffer_twice\<close>.
\<close>

definition LC_SetOrGet :: "(nat \<Rightarrow> byte) \<Rightarrow> (u32 \<Rightarrow> byte list \<Rightarrow> 'p \<Rightarrow> (bool \<times> byte list) option) \<Rightarrow> u32 \<Rightarrow> 'p \<Rightarrow> lru \<Rightarrow>
    (bool \<times> nat option \<times> lru) option" where
  "LC_SetOrGet g load key token c = (case SG_begin g key c of
     (Inl a, c1) \<Rightarrow> Some (True, Some a, c1)
   | (Inr i, c1) \<Rightarrow> (case SG_load load key token i c1 of
        None \<Rightarrow> None
      | Some (Inl a, c2) \<Rightarrow> Some (True, Some a, c2)
      | Some (Inr res, c2) \<Rightarrow> (case SG_publish key i res c2 of (value, c3) \<Rightarrow> Some (res, value, c3))))"

definition LC_Evict :: "u32 \<Rightarrow> lru \<Rightarrow> lru" where
  "LC_Evict key c = (case lc_cells c key of
     None \<Rightarrow> c
   | Some cell \<Rightarrow> c\<lparr>lc_pool := MP_ReclaimBuffer (c_val cell) (lc_pool c), lc_queue := remove1 key (lc_queue c),
       lc_cells := (lc_cells c)(key := None), lc_cur := lc_cur c - 1, lc_evict := lc_evict c + 1\<rparr>)"

text \<open>Both branches of \<open>Update\<close> write into the cell when there is one; the second first waits for
  the insertion under way.\<close>

definition LC_Update :: "u32 \<Rightarrow> byte list \<Rightarrow> nat \<Rightarrow> lru \<Rightarrow> lru option" where
  "LC_Update key buffer begin_pos c = (case lc_cells c key of
     None \<Rightarrow> Some c
   | Some cell \<Rightarrow> do {
       h \<leftarrow> heap_write (mp_heap (lc_pool c)) (c_val cell) begin_pos buffer;
       Some (c\<lparr>lc_pool := (lc_pool c)\<lparr>mp_heap := h\<rparr>\<rparr>) })"

definition LC_AlterCacheSize :: "nat \<Rightarrow> lru \<Rightarrow> lru" where
  "LC_AlterCacheSize cache_size c =
     (case cache_sizes cache_size (mp_cell (lc_pool c)) of (max_size, over) \<Rightarrow>
        let c' = LC_EvictOverflow (c\<lparr>lc_max := max_size, lc_over := over\<rparr>)
        in c'\<lparr>lc_pool := snd (MP_SetMaxBufferNum (of_nat max_size + 500) (lc_pool c'))\<rparr>)"

definition LC_GetMaxSize :: "lru \<Rightarrow> int" where
  "LC_GetMaxSize c = int (lc_max c) + int (lc_over c)"

subsection \<open>The simple cache\<close>

record scache =
  sc_segs :: "(nat option list) option list"
  sc_gap :: nat
  sc_init :: nat
  sc_cell :: nat
  sc_num :: nat
  sc_heap :: "nat \<Rightarrow> byte list option"
  sc_brk :: nat

definition SC_new :: "nat \<Rightarrow> nat \<Rightarrow> nat \<Rightarrow> scache" where
  "SC_new cell_size segment_gap init_capacity =
     (let n = (if init_capacity > 0 then init_capacity else 512)
      in \<lparr>sc_segs = Some (replicate n None) # replicate 399 None, sc_gap = segment_gap, sc_init = n,
          sc_cell = cell_size, sc_num = 0, sc_heap = Map.empty, sc_brk = 0\<rparr>)"

text \<open>The pointer of a key; an index past the 400 segments is out of bounds.\<close>

definition SC_lookup :: "u32 \<Rightarrow> scache \<Rightarrow> nat option option" where
  "SC_lookup key c = do {
     segment \<leftarrow> fetch (sc_segs c) (int (unat key div sc_gap c));
     let i = unat key mod sc_gap c;
     Some (case segment of None \<Rightarrow> None | Some s \<Rightarrow> if i < length s then s ! i else None) }"

definition SC_Get :: "u32 \<Rightarrow> scache \<Rightarrow> (bool \<times> nat option) option" where
  "SC_Get key c = do { r \<leftarrow> SC_lookup key c; Some (r \<noteq> None, r) }"

text \<open>\<open>SetImpl\<close>: a missing segment is allocated, one that is too short is replaced by one of one and
  a half times the index, and the pointer is stored when the slot is empty.\<close>

definition SC_SetImpl :: "u32 \<Rightarrow> nat \<Rightarrow> scache \<Rightarrow> scache option" where
  "SC_SetImpl key value c = (let sid = unat key div sc_gap c; i = unat key mod sc_gap c in do {
     segment \<leftarrow> fetch (sc_segs c) (int sid);
     let s = (case segment of None \<Rightarrow> replicate (sc_init c) None | Some s \<Rightarrow> s);
     let s = (if length s \<le> i then s @ replicate (3 * i div 2 - length s) None else s);
     p \<leftarrow> fetch s (int i);
     case p of
       Some a \<Rightarrow> do {
         b \<leftarrow> sc_heap c value;
         h \<leftarrow> heap_write (sc_heap c) a 0 b;
         Some (c\<lparr>sc_segs := (sc_segs c)[sid := Some s], sc_heap := h(value := None)\<rparr>) }
     | None \<Rightarrow> Some (c\<lparr>sc_segs := (sc_segs c)[sid := Some (s[i := Some value])], sc_num := sc_num c + 1\<rparr>) })"

definition SC_SetOrGet :: "(nat \<Rightarrow> byte) \<Rightarrow> (u32 \<Rightarrow> byte list \<Rightarrow> 'p \<Rightarrow> (bool \<times> byte list) option) \<Rightarrow> u32 \<Rightarrow> 'p \<Rightarrow> scache \<Rightarrow>
    (bool \<times> nat option \<times> scache) option" where
  "SC_SetOrGet g load key token c = do {
     r \<leftarrow> SC_lookup key c;
     case r of
       Some a \<Rightarrow> Some (True, Some a, c)
     | None \<Rightarrow>
         do {
           (res, b) \<leftarrow> load key (map g [0..<sc_cell c]) token;
           let a = sc_brk c;
           if \<not> res then Some (False, None, c\<lparr>sc_brk := Suc a\<rparr>)
           else do {
             c' \<leftarrow> SC_SetImpl key a (c\<lparr>sc_heap := (sc_heap c)(a \<mapsto> b), sc_brk := Suc a\<rparr>);
             value \<leftarrow> SC_lookup key c';
             Some (True, value, c') } } }"

definition SC_Update :: "u32 \<Rightarrow> byte list \<Rightarrow> nat \<Rightarrow> scache \<Rightarrow> scache option" where
  "SC_Update key buffer begin_pos c = do {
     r \<leftarrow> SC_lookup key c;
     case r of
       None \<Rightarrow> Some c
     | Some a \<Rightarrow> do { h \<leftarrow> heap_write (sc_heap c) a begin_pos buffer; Some (c\<lparr>sc_heap := h\<rparr>) } }"

definition SC_CacheMemBytes :: "scache \<Rightarrow> nat" where
  "SC_CacheMemBytes c = sc_num c * sc_cell c + length (sc_segs c) * 12 +
     sum_list (map (\<lambda>s. case s of None \<Rightarrow> 0 | Some xs \<Rightarrow> 8 * length xs) (sc_segs c))"

subsection \<open>Buffers are owned once\<close>

text \<open>The pool and the list \<open>L\<close> of buffers in use: every allocated buffer is in exactly one of the
  two, so none is leaked, reclaimed twice or used after it was freed.\<close>

definition pool_ok :: "pool \<Rightarrow> nat list \<Rightarrow> bool" where
  "pool_ok p L \<longleftrightarrow> distinct (mp_que p @ L) \<and> dom (mp_heap p) = set (mp_que p @ L) \<and>
     (\<forall>a \<in> dom (mp_heap p). a < mp_brk p \<and> length (the (mp_heap p a)) = mp_cell p) \<and>
     unat (mp_use p) = length L \<and> (mp_que p \<noteq> [] \<longrightarrow> length (mp_que p) + length L \<le> unat (mp_max p))"

lemma pool_ok_perm: "pool_ok p L \<Longrightarrow> mset L = mset L' \<Longrightarrow> pool_ok p L'"
  unfolding pool_ok_def
  by (metis distinct_append mset_eq_length mset_eq_setD mset_eq_imp_distinct_iff set_append)

lemma pool_ok_live: "pool_ok p L \<Longrightarrow> a \<in> set L \<Longrightarrow> \<exists>b. mp_heap p a = Some b \<and> length b = mp_cell p"
proof -
  assume p: "pool_ok p L" "a \<in> set L"
  then have "a \<in> dom (mp_heap p)" by (simp add: pool_ok_def)
  then obtain b where b: "mp_heap p a = Some b" by blast
  then have "length b = mp_cell p" using p(1) unfolding pool_ok_def by (metis domI option.sel)
  then show ?thesis using b by blast
qed

lemma pool_ok_Init: "pool_ok (MP_Init n k) []"
  by (simp add: pool_ok_def MP_Init_def)

lemma unat_succ: "unat (x :: u32) + 1 < 2 ^ 32 \<Longrightarrow> unat (x + 1) = unat x + 1"
  by (simp add: unat_word_ariths)

lemma unat_pred: "0 < unat (x :: u32) \<Longrightarrow> unat (x - 1) = unat x - 1"
  by (simp add: unat_minus_one unat_gt_0)

lemma MP_GetBuffer_ok:
  assumes ok: "pool_ok p L" and n: "length L + 1 < 2 ^ 32"
  shows "\<exists>a p'. MP_GetBuffer g p = (a, p') \<and> pool_ok p' (a # L) \<and> a \<notin> set L \<and> mp_cell p' = mp_cell p \<and>
    (\<forall>x \<in> set L. mp_heap p' x = mp_heap p x)"
proof (cases "mp_que p")
  case Nil
  then have "mp_brk p \<notin> dom (mp_heap p)" using ok by (auto simp: pool_ok_def)
  then show ?thesis using ok n Nil by (auto simp: MP_GetBuffer_def pool_ok_def unat_succ less_SucI)
next
  case (Cons a q)
  then show ?thesis using ok n by (auto simp: MP_GetBuffer_def pool_ok_def unat_succ)
qed

lemma MP_ReclaimBuffer_ok:
  assumes ok: "pool_ok p (a # L)"
  shows "pool_ok (MP_ReclaimBuffer a p) L \<and> mp_cell (MP_ReclaimBuffer a p) = mp_cell p \<and>
    (\<forall>x \<in> set L. mp_heap (MP_ReclaimBuffer a p) x = mp_heap p x)"
proof -
  have u: "unat (mp_use p - 1) = length L" using ok by (simp add: pool_ok_def unat_pred)
  show ?thesis
  proof (cases "mp_que p")
    case Nil
    then show ?thesis using ok u by (auto simp: MP_ReclaimBuffer_def Let_def pool_ok_def)
  next
    case (Cons b q)
    then show ?thesis using ok u by (auto simp: MP_ReclaimBuffer_def Let_def pool_ok_def)
  qed
qed

lemma MP_SetMaxBufferNum_ok:
  assumes ok: "pool_ok p L"
  shows "pool_ok (snd (MP_SetMaxBufferNum n p)) L \<and> mp_cell (snd (MP_SetMaxBufferNum n p)) = mp_cell p \<and>
    (\<forall>x \<in> set L. mp_heap (snd (MP_SetMaxBufferNum n p)) x = mp_heap p x)"
proof (cases "length (mp_que p) + unat (mp_use p) \<le> unat n")
  case True
  then show ?thesis using ok by (auto simp: MP_SetMaxBufferNum_def pool_ok_def)
next
  case False
  define del where "del = (if mp_use p > n then length (mp_que p)
                      else length (mp_que p) + unat (mp_use p) - unat n)"
  have le: "del \<le> length (mp_que p)" using False by (auto simp: del_def word_less_nat_alt)
  have eq: "snd (MP_SetMaxBufferNum n p) = p\<lparr>mp_heap := (\<lambda>a. if a \<in> set (take del (mp_que p)) then None else mp_heap p a),
                mp_que := drop del (mp_que p), mp_max := mp_max p - of_nat del\<rparr>"
    using False by (simp add: MP_SetMaxBufferNum_def del_def Let_def)
  obtain T D where td: "mp_que p = T @ D" "take del (mp_que p) = T" "drop del (mp_que p) = D"
    by (metis append_take_drop_id)
  have eq: "snd (MP_SetMaxBufferNum n p) = p\<lparr>mp_heap := (\<lambda>a. if a \<in> set T then None else mp_heap p a),
                mp_que := D, mp_max := mp_max p - of_nat (length T)\<rparr>" (is "_ = ?p")
    using eq td(2,3) le by auto
  have d: "distinct (T @ D @ L)" and dm: "dom (mp_heap p) = set T \<union> set D \<union> set L"
    using ok by (auto simp: pool_ok_def td(1))
  have mx: "length D + length L \<le> unat (mp_max p - of_nat (length T))" if "D \<noteq> []"
  proof -
    have m: "length T + length D + length L \<le> unat (mp_max p)" using ok td(1) that by (simp add: pool_ok_def)
    then have "unat (of_nat (length T) :: u32) = length T"
      using unsigned_less [of "mp_max p", where ?'a = nat] by (simp add: unsigned_of_nat take_bit_nat_eq_self_iff)
    then show ?thesis using m by (simp add: unat_sub word_le_nat_alt)
  qed
  have h: "\<forall>x \<in> set L. mp_heap ?p x = mp_heap p x" using d by auto
  have "dom (mp_heap ?p) = dom (mp_heap p) - set T" by (auto split: if_splits)
  then have "dom (mp_heap ?p) = set (D @ L)" using d dm by auto
  moreover have "\<forall>a \<in> dom (mp_heap ?p). a < mp_brk ?p \<and> length (the (mp_heap ?p a)) = mp_cell ?p"
    using ok by (auto simp: pool_ok_def split: if_splits)
  moreover have "distinct (D @ L)" using d by simp
  moreover have "unat (mp_use ?p) = length L" using ok by (simp add: pool_ok_def)
  ultimately have "pool_ok ?p L" using mx by (simp add: pool_ok_def)
  then show ?thesis unfolding eq using h by simp
qed

subsection \<open>The cells of the LRU cache\<close>

definition bufs :: "lru \<Rightarrow> nat list" where
  "bufs c = map (\<lambda>k. c_val (the (lc_cells c k))) (lc_queue c)"

text \<open>What a lookup of each key finds.\<close>

definition lc_view :: "lru \<Rightarrow> u32 \<Rightarrow> byte list option" where
  "lc_view c k = (case lc_cells c k of None \<Rightarrow> None | Some cell \<Rightarrow> mp_heap (lc_pool c) (c_val cell))"

text \<open>\<open>F\<close> are the buffers of insertions under way.\<close>

definition cells_ok :: "nat list \<Rightarrow> lru \<Rightarrow> bool" where
  "cells_ok F c \<longleftrightarrow> distinct (lc_queue c) \<and> dom (lc_cells c) = set (lc_queue c) \<and> pool_ok (lc_pool c) (F @ bufs c)"

definition same_frame :: "nat list \<Rightarrow> lru \<Rightarrow> lru \<Rightarrow> bool" where
  "same_frame F c c' \<longleftrightarrow> lc_max c' = lc_max c \<and> lc_over c' = lc_over c \<and> lc_infos c' = lc_infos c \<and>
     lc_objs c' = lc_objs c \<and> mp_cell (lc_pool c') = mp_cell (lc_pool c) \<and>
     (\<forall>a \<in> set F. mp_heap (lc_pool c') a = mp_heap (lc_pool c) a)"

lemma same_frame_refl [simp]: "same_frame F c c"
  by (simp add: same_frame_def)

lemma same_frame_trans: "same_frame F c c' \<Longrightarrow> same_frame F c' c'' \<Longrightarrow> same_frame F c c''"
  by (simp add: same_frame_def)

lemma bufs_cong:
  "lc_queue c' = lc_queue c \<Longrightarrow> (\<And>k. k \<in> set (lc_queue c) \<Longrightarrow> c_val (the (lc_cells c' k)) = c_val (the (lc_cells c k))) \<Longrightarrow>
    bufs c' = bufs c"
  by (simp add: bufs_def)

lemma buf_in: "cells_ok F c \<Longrightarrow> lc_cells c k = Some cell \<Longrightarrow> c_val cell \<in> set (bufs c)"
  by (force simp: cells_ok_def bufs_def dom_def)

lemma view_live:
  assumes "cells_ok F c" "lc_cells c k = Some cell"
  shows "\<exists>b. lc_view c k = Some b \<and> mp_heap (lc_pool c) (c_val cell) = Some b \<and> length b = mp_cell (lc_pool c)"
  using pool_ok_live [of "lc_pool c" "F @ bufs c" "c_val cell"] buf_in [OF assms] assms
  by (auto simp: cells_ok_def lc_view_def)

lemma view_None: "cells_ok F c \<Longrightarrow> lc_view c k = None \<longleftrightarrow> lc_cells c k = None"
  using view_live [of F c k] by (cases "lc_cells c k") (auto simp: lc_view_def)

text \<open>No two keys share a buffer.\<close>

lemma bufs_inj:
  assumes ok: "cells_ok F c" and k: "lc_cells c k = Some x" "lc_cells c l = Some y" "c_val x = c_val y"
  shows "k = l"
proof -
  have d: "distinct (bufs c)" and kl: "k \<in> set (lc_queue c)" "l \<in> set (lc_queue c)"
    using ok k by (auto simp: cells_ok_def pool_ok_def)
  then have "inj_on (\<lambda>k. c_val (the (lc_cells c k))) (set (lc_queue c))" by (simp add: bufs_def distinct_map)
  from inj_onD [OF this _ kl] show ?thesis using k by simp
qed

lemma view_cong: "lc_cells c' = lc_cells c \<Longrightarrow> lc_pool c' = lc_pool c \<Longrightarrow> lc_view c' = lc_view c"
  by (simp add: lc_view_def fun_eq_iff split: option.splits)

lemma cells_ok_cong:
  "lc_cells c' = lc_cells c \<Longrightarrow> lc_pool c' = lc_pool c \<Longrightarrow> lc_queue c' = lc_queue c \<Longrightarrow> cells_ok F c' = cells_ok F c"
  by (simp add: cells_ok_def bufs_def)

lemma touch_ok:
  assumes ok: "cells_ok F c" and k: "lc_cells c k = Some cell"
  shows "cells_ok F (touch k cell c) \<and> same_frame F c (touch k cell c) \<and> lc_view (touch k cell c) = lc_view c \<and>
    lc_pool (touch k cell c) = lc_pool c \<and> length (lc_queue (touch k cell c)) = length (lc_queue c) \<and>
    lc_cur (touch k cell c) = lc_cur c \<and> dom (lc_cells (touch k cell c)) = dom (lc_cells c) \<and>
    map_option c_val (lc_cells (touch k cell c) k) = Some (c_val cell)"
proof -
  let ?c = "touch k cell c"
  have q: "mset (lc_queue ?c) = mset (lc_queue c)"
  proof -
    have "k \<in># mset (lc_queue c)" using ok k by (auto simp: cells_ok_def)
    then show ?thesis by (simp add: touch_def insert_DiffM)
  qed
  have v: "map_option c_val (lc_cells ?c x) = map_option c_val (lc_cells c x)" for x
    using k by (simp add: touch_def)
  have w: "c_val (the (lc_cells ?c x)) = c_val (the (lc_cells c x))" for x
    using k by (simp add: touch_def)
  have "mset (bufs ?c) = mset (bufs c)" using q by (simp add: bufs_def w)
  then have "mset (F @ bufs c) = mset (F @ bufs ?c)" by simp
  then have p: "pool_ok (lc_pool c) (F @ bufs ?c)" using pool_ok_perm ok by (auto simp: cells_ok_def)
  have vw: "lc_view ?c = lc_view c"
    using k by (intro ext) (simp add: lc_view_def touch_def split: option.splits)
  have d: "dom (lc_cells ?c) = dom (lc_cells c)" using k by (auto simp: touch_def)
  have pl: "lc_pool ?c = lc_pool c" "same_frame F c ?c" "lc_cur ?c = lc_cur c"
    by (simp_all add: touch_def same_frame_def)
  have dq: "distinct (lc_queue ?c)" "set (lc_queue ?c) = set (lc_queue c)"
    using ok mset_eq_imp_distinct_iff [OF q] mset_eq_setD [OF q] by (simp_all add: cells_ok_def)
  have "cells_ok F ?c" using ok p d dq by (simp add: cells_ok_def pl(1))
  then show ?thesis using vw d pl mset_eq_length [OF q] v [of k] k by simp
qed

text \<open>Dropping the cell at the front of the queue.\<close>

lemma drop_front:
  assumes ok: "cells_ok F c" and q: "lc_queue c = key # q" and k: "lc_cells c key = Some cell"
  defines "c' \<equiv> c\<lparr>lc_pool := MP_ReclaimBuffer (c_val cell) (lc_pool c), lc_cells := (lc_cells c)(key := None), lc_queue := q\<rparr>"
  shows "cells_ok F c'" "same_frame F c c'" "lc_view c' = (lc_view c)(key := None)"
proof -
  have kq: "key \<notin> set q" "distinct q" using ok q by (auto simp: cells_ok_def)
  then have b': "bufs c' = map (\<lambda>k. c_val (the (lc_cells c k))) q"
    unfolding bufs_def c'_def by (auto intro!: map_cong)
  then have b: "bufs c = c_val cell # bufs c'" using q k by (simp add: bufs_def)
  have p: "pool_ok (lc_pool c) (c_val cell # (F @ bufs c'))"
    using ok b pool_ok_perm [of "lc_pool c" "F @ bufs c"] by (simp add: cells_ok_def)
  note r = MP_ReclaimBuffer_ok [OF p]
  have pool: "lc_pool c' = MP_ReclaimBuffer (c_val cell) (lc_pool c)" by (simp add: c'_def)
  show ok': "cells_ok F c'" using ok r kq q by (auto simp: cells_ok_def pool c'_def)
  show "same_frame F c c'" using r by (simp add: same_frame_def pool) (simp add: c'_def)
  show "lc_view c' = (lc_view c)(key := None)"
  proof
    fix x
    show "lc_view c' x = ((lc_view c)(key := None)) x"
    proof (cases "lc_cells c' x")
      case None
      then show ?thesis using ok by (auto simp: lc_view_def c'_def split: if_splits)
    next
      case (Some y)
      then have "c_val y \<in> set (bufs c')" by (rule buf_in [OF ok'])
      then have "mp_heap (lc_pool c') (c_val y) = mp_heap (lc_pool c) (c_val y)" using r pool by simp
      then show ?thesis using Some by (auto simp: lc_view_def c'_def split: if_splits)
    qed
  qed
qed

text \<open>Eviction drops the least recent cells.\<close>

lemma evict_loop_ok:
  "cells_ok F c \<Longrightarrow> n \<le> length (lc_queue c) \<Longrightarrow>
    \<exists>c'. evict_loop n c = (0, c') \<and> cells_ok F c' \<and> same_frame F c c' \<and> lc_cur c' = lc_cur c \<and>
      lc_queue c' = drop n (lc_queue c) \<and> lc_cells c' = lc_cells c |` set (drop n (lc_queue c)) \<and>
      lc_view c' = lc_view c |` set (drop n (lc_queue c))"
proof (induction n arbitrary: c)
  case 0
  have "lc_view c k = None" if "k \<notin> set (lc_queue c)" for k
    using that 0(1) by (force simp: cells_ok_def lc_view_def split: option.splits)
  then have "lc_view c |` set (lc_queue c) = lc_view c" by (auto simp: restrict_map_def)
  moreover have "lc_cells c |` set (lc_queue c) = lc_cells c"
    using 0(1) by (intro ext) (metis cells_ok_def domIff restrict_map_def)
  ultimately show ?case using 0 by simp
next
  case (Suc n)
  then obtain key q where q: "lc_queue c = key # q" by (cases "lc_queue c") auto
  then obtain cell where k: "lc_cells c key = Some cell" using Suc.prems(1) by (force simp: cells_ok_def dom_def)
  let ?c = "c\<lparr>lc_pool := MP_ReclaimBuffer (c_val cell) (lc_pool c), lc_cells := (lc_cells c)(key := None), lc_queue := q\<rparr>"
  note d = drop_front [OF Suc.prems(1) q k]
  have "n \<le> length (lc_queue ?c)" using Suc.prems(2) q by simp
  from Suc.IH [OF d(1) this] obtain c' where c': "evict_loop n ?c = (0, c')" "cells_ok F c'" "same_frame F ?c c'"
    "lc_cur c' = lc_cur c" "lc_queue c' = drop n q" "lc_view c' = lc_view ?c |` set (drop n q)"
    "lc_cells c' = lc_cells ?c |` set (drop n q)" by (auto simp del: fun_upd_apply restrict_fun_upd fun_upd_restrict_conv)
  have kq: "key \<notin> set (drop n q)"
    using Suc.prems(1) q set_drop_subset [of n q] by (auto simp: cells_ok_def)
  then have "lc_view c' = lc_view c |` set (drop (Suc n) (lc_queue c))"
    "lc_cells c' = lc_cells c |` set (drop (Suc n) (lc_queue c))"
    using c'(6,7) d(3) q by (auto simp: restrict_map_def)
  then show ?case using c' q k same_frame_trans [OF d(2) c'(3)] by auto
qed

lemma LC_EvictOverflow_ok:
  assumes ok: "cells_ok F c" and cur: "lc_cur c = length (lc_queue c)" and m: "1 \<le> lc_max c"
  shows "cells_ok F (LC_EvictOverflow c) \<and> same_frame F c (LC_EvictOverflow c) \<and>
    lc_cur (LC_EvictOverflow c) = length (lc_queue (LC_EvictOverflow c)) \<and>
    lc_cur (LC_EvictOverflow c) \<le> lc_max c + lc_over c \<and> lc_view (LC_EvictOverflow c) \<subseteq>\<^sub>m lc_view c \<and>
    (lc_queue c \<noteq> [] \<longrightarrow> lc_view (LC_EvictOverflow c) (last (lc_queue c)) = lc_view c (last (lc_queue c)) \<and>
       lc_cells (LC_EvictOverflow c) (last (lc_queue c)) = lc_cells c (last (lc_queue c)))"
proof (cases "lc_cur c \<ge> lc_max c + lc_over c")
  case True
  let ?n = "lc_cur c - lc_max c"
  have n: "?n \<le> length (lc_queue c)" using cur by simp
  have ok': "cells_ok F (c\<lparr>lc_cur := lc_cur c - ?n\<rparr>)" using ok by (simp add: cells_ok_def bufs_def)
  from evict_loop_ok [OF ok'] n obtain c' where c': "evict_loop ?n (c\<lparr>lc_cur := lc_cur c - ?n\<rparr>) = (0, c')" "cells_ok F c'"
    "same_frame F (c\<lparr>lc_cur := lc_cur c - ?n\<rparr>) c'" "lc_cur c' = lc_cur c - ?n" "lc_queue c' = drop ?n (lc_queue c)"
    "lc_view c' = lc_view (c\<lparr>lc_cur := lc_cur c - ?n\<rparr>) |` set (drop ?n (lc_queue c))"
    "lc_cells c' = lc_cells c |` set (drop ?n (lc_queue c))" by auto
  have e: "LC_EvictOverflow c = c'" using True c'(1) by (simp add: LC_EvictOverflow_def)
  have v: "lc_view (c\<lparr>lc_cur := lc_cur c - ?n\<rparr>) = lc_view c" by (rule view_cong) simp_all
  have l: "last (lc_queue c) \<in> set (drop ?n (lc_queue c))" if "lc_queue c \<noteq> []"
  proof -
    have "?n < length (lc_queue c)" using that cur m True by (simp add: le_less_trans)
    then show ?thesis by (metis drop_eq_Nil last_drop last_in_set not_le)
  qed
  have "same_frame F c c'" using c'(3) by (simp add: same_frame_def)
  then show ?thesis using c' l v cur True by (simp add: e map_le_def restrict_map_def) (auto simp: dom_def)
next
  case False
  then show ?thesis using ok cur by (simp add: LC_EvictOverflow_def)
qed

subsection \<open>The invariant of the LRU cache\<close>

text \<open>Between the operations of one thread: no insertion is under way.\<close>

definition lru_ok :: "lru \<Rightarrow> bool" where
  "lru_ok c \<longleftrightarrow> cells_ok [] c \<and> lc_infos c = Map.empty \<and> lc_cur c = length (lc_queue c) \<and> 1 \<le> lc_max c \<and>
     lc_cur c \<le> lc_max c + lc_over c \<and> lc_max c + lc_over c + 500 < 2 ^ 32"

lemma cache_sizes_ok:
  assumes "1 \<le> cell_size" "cell_size \<le> cache_size * 1024 * 1024" "cache_size * 1024 * 1024 < 2 ^ 64"
    and "cache_size * 1024 * 1024 div cell_size + 500 < 2 ^ 32"
  shows "\<exists>m v. cache_sizes cache_size cell_size = (m, v) \<and> 1 \<le> m \<and> m + v + 500 < 2 ^ 32 \<and>
    m + v = cache_size * 1024 * 1024 div cell_size"
proof -
  let ?n = "cache_size * 1024 * 1024 div cell_size"
  have "1 \<le> ?n" using assms(1,2) by (simp add: Suc_leI div_greater_zero_iff)
  then show ?thesis using assms(3,4) by (auto simp: cache_sizes_def Let_def)
qed

lemma LC_new_ok:
  assumes "1 \<le> cell_size" "cell_size \<le> cache_size * 1024 * 1024" "cache_size * 1024 * 1024 < 2 ^ 64"
    and "cache_size * 1024 * 1024 div cell_size + 500 < 2 ^ 32"
  shows "lru_ok (LC_new cache_size cell_size)" "lc_view (LC_new cache_size cell_size) = Map.empty"
    "mp_cell (lc_pool (LC_new cache_size cell_size)) = cell_size"
  using cache_sizes_ok [OF assms] pool_ok_Init
  by (auto simp: lru_ok_def cells_ok_def LC_new_def lc_view_def bufs_def MP_Init_def pool_ok_def)

lemma SetImpl_new:
  assumes ok: "cells_ok (a # F) c" and k: "lc_cells c key = None"
    and cur: "lc_cur c = length (lc_queue c)" and m: "1 \<le> lc_max c"
  shows "cells_ok F (LC_SetImpl key a c) \<and> same_frame F c (LC_SetImpl key a c) \<and>
    lc_cur (LC_SetImpl key a c) = length (lc_queue (LC_SetImpl key a c)) \<and>
    lc_cur (LC_SetImpl key a c) \<le> lc_max c + lc_over c \<and>
    lc_view (LC_SetImpl key a c) \<subseteq>\<^sub>m (lc_view c)(key := mp_heap (lc_pool c) a) \<and>
    lc_view (LC_SetImpl key a c) key = mp_heap (lc_pool c) a \<and>
    mp_heap (lc_pool (LC_SetImpl key a c)) a = mp_heap (lc_pool c) a"
proof -
  let ?c = "c\<lparr>lc_cells := (lc_cells c)(key \<mapsto> \<lparr>c_val = a, c_hits = 0\<rparr>),
       lc_queue := lc_queue c @ [key], lc_cur := lc_cur c + 1\<rparr>"
  have kq: "key \<notin> set (lc_queue c)" using ok k by (metis cells_ok_def domIff)
  then have "bufs ?c = bufs c @ [a]" by (auto simp: bufs_def)
  then have "mset (F @ bufs ?c) = mset ((a # F) @ bufs c)" by simp
  then have "pool_ok (lc_pool c) (F @ bufs ?c)" using pool_ok_perm ok by (metis cells_ok_def)
  then have ok': "cells_ok F ?c" using ok kq by (auto simp: cells_ok_def)
  have v: "lc_view ?c = (lc_view c)(key := mp_heap (lc_pool c) a)"
    by (auto simp: lc_view_def fun_eq_iff split: option.splits)
  have f: "same_frame F c ?c" by (simp add: same_frame_def)
  have e: "LC_SetImpl key a c = LC_EvictOverflow ?c" using k by (simp add: LC_SetImpl_def)
  note EO = LC_EvictOverflow_ok [OF ok']
  have "lc_cur ?c = length (lc_queue ?c)" "1 \<le> lc_max ?c" using cur m by simp_all
  note EO = LC_EvictOverflow_ok [OF ok' this]
  have "same_frame F c (LC_EvictOverflow ?c)" using EO same_frame_trans [OF f] by blast
  moreover have "lc_cells (LC_EvictOverflow ?c) key = Some \<lparr>c_val = a, c_hits = 0\<rparr>"
    "lc_view (LC_EvictOverflow ?c) key = mp_heap (lc_pool c) a"
    using EO v by simp_all
  then have "mp_heap (lc_pool (LC_EvictOverflow ?c)) a = mp_heap (lc_pool c) a"
    by (simp only: lc_view_def [of "LC_EvictOverflow ?c"] option.case cell.simps)
  ultimately show ?thesis using EO v by (simp add: e)
qed

lemma GetImpl_None: "lc_cells c k = None \<Longrightarrow> LC_GetImpl k c = (None, c)"
  by (simp add: LC_GetImpl_def)

text \<open>A hit: the buffer of the key, and only the recency of the key changes.\<close>

lemma LC_SetOrGet_hit:
  assumes ok: "lru_ok c" and v: "lc_view c key = Some b"
  shows "\<exists>a c'. LC_SetOrGet g ld key token c = Some (True, Some a, c') \<and> lru_ok c' \<and> lc_view c' = lc_view c \<and>
    mp_heap (lc_pool c') a = Some b \<and> mp_cell (lc_pool c') = mp_cell (lc_pool c)"
proof -
  have co: "cells_ok [] c" using ok by (simp add: lru_ok_def)
  obtain cell where k: "lc_cells c key = Some cell" using v by (auto simp: lc_view_def split: option.splits)
  note t = touch_ok [OF co k]
  let ?c = "(touch key cell c)\<lparr>lc_hits := lc_hits (touch key cell c) + 1\<rparr>"
  have "LC_SetOrGet g ld key token c = Some (True, Some (c_val cell), ?c)"
    using k by (simp add: LC_SetOrGet_def SG_begin_def LC_GetImpl_def)
  moreover have "cells_ok [] ?c" "lc_view ?c = lc_view (touch key cell c)"
    using t view_cong [of ?c "touch key cell c"] cells_ok_cong [of ?c "touch key cell c"] by simp_all
  ultimately show ?thesis using t ok v k by (auto simp: lru_ok_def same_frame_def lc_view_def)
qed

text \<open>A miss: the block is loaded into a buffer, which a successful load makes the buffer of the key.\<close>

lemma LC_SetOrGet_miss:
  assumes ok: "lru_ok c" and v: "lc_view c key = None"
    and len: "\<And>b. length b = mp_cell (lc_pool c) \<Longrightarrow> \<exists>r b'. ld key b token = Some (r, b') \<and> length b' = mp_cell (lc_pool c)"
  shows "\<exists>b0 res b' value c'. ld key b0 token = Some (res, b') \<and>
    LC_SetOrGet g ld key token c = Some (res, value, c') \<and>
    length b0 = mp_cell (lc_pool c) \<and> lru_ok c' \<and> mp_cell (lc_pool c') = mp_cell (lc_pool c) \<and>
    (if res
     then (\<exists>a. value = Some a \<and> mp_heap (lc_pool c') a = Some b' \<and> lc_view c' \<subseteq>\<^sub>m (lc_view c)(key \<mapsto> b'))
     else value = None \<and> lc_view c' = lc_view c)"
proof -
  have co: "cells_ok [] c" and inf: "lc_infos c = Map.empty" using ok by (simp_all add: lru_ok_def)
  have k: "lc_cells c key = None" using view_None [OF co] v by blast
  have po: "pool_ok (lc_pool c) (bufs c)" and bl: "length (bufs c) + 1 < 2 ^ 32"
    using ok by (simp_all add: lru_ok_def cells_ok_def bufs_def)
  obtain a p where a: "MP_GetBuffer g (lc_pool c) = (a, p)" "pool_ok p (a # bufs c)" "a \<notin> set (bufs c)"
    "mp_cell p = mp_cell (lc_pool c)" "\<forall>x \<in> set (bufs c). mp_heap p x = mp_heap (lc_pool c) x"
    using MP_GetBuffer_ok [OF po bl, of g] by auto
  obtain b0 where b0: "mp_heap p a = Some b0" "length b0 = mp_cell (lc_pool c)"
    using pool_ok_live [OF a(2), of a] a(4) by auto
  let ?i = "length (lc_objs c)"
  let ?ins = "\<lparr>ii_clean = False, ii_product = False, ii_val = a\<rparr>"
  let ?c1 = "c\<lparr>lc_pool := p, lc_infos := [key \<mapsto> ?i], lc_objs := lc_objs c @ [?ins], lc_misses := lc_misses c + 1\<rparr>"
  have beg: "SG_begin g key c = (Inr ?i, ?c1)" using k a(1) inf by (simp add: SG_begin_def GetImpl_None)
  obtain res b' where ld: "ld key b0 token = Some (res, b')" and lb': "length b' = mp_cell p"
    using len [OF b0(2)] a(4) by auto
  let ?p2 = "p\<lparr>mp_heap := (mp_heap p)(a \<mapsto> b')\<rparr>"
  let ?c2 = "?c1\<lparr>lc_pool := ?p2, lc_objs := (if res then lc_objs c @ [?ins\<lparr>ii_product := True\<rparr>] else lc_objs c @ [?ins])\<rparr>"
  have load: "SG_load ld key token ?i ?c1 = Some (Inr res, ?c2)"
    using b0 ld by (simp add: SG_load_def nth_append list_update_append)
  have po2: "pool_ok ?p2 (a # bufs c)" using a(2) b0(1) lb' by (auto simp: pool_ok_def)
  have view2: "lc_view ?c2 = lc_view c"
  proof
    fix x
    show "lc_view ?c2 x = lc_view c x"
    proof (cases "lc_cells c x")
      case (Some y)
      then have "c_val y \<in> set (bufs c)" by (rule buf_in [OF co])
      then have "c_val y \<noteq> a" "mp_heap p (c_val y) = mp_heap (lc_pool c) (c_val y)" using a(3,5) by auto
      then show ?thesis using Some by (simp add: lc_view_def)
    qed (simp add: lc_view_def)
  qed
  have bf2: "bufs ?c2 = bufs c" by (simp add: bufs_def)
  have co2: "cells_ok [a] ?c2" using co po2 bf2 by (simp add: cells_ok_def)
  have sv: "ii_val (lc_objs ?c2 ! ?i) = a" "\<not> ii_clean (lc_objs ?c2 ! ?i)" by (simp_all add: nth_append)
  show ?thesis
  proof (cases res)
    case True
    let ?c3 = "LC_SetImpl key a ?c2"
    have "lc_cells ?c2 key = None" "lc_cur ?c2 = length (lc_queue ?c2)" "1 \<le> lc_max ?c2"
      using k ok by (simp_all add: lru_ok_def)
    note s = SetImpl_new [OF co2 this]
    define c4 where "c4 = ?c3\<lparr>lc_objs := (lc_objs ?c3)[?i := (lc_objs ?c3 ! ?i)\<lparr>ii_clean := True\<rparr>],
      lc_infos := (lc_infos ?c3)(key := None)\<rparr>"
    have pub: "SG_publish key ?i res ?c2 = (Some a, c4)"
      unfolding SG_publish_def using sv True by (simp add: Let_def c4_def)
    have v4: "lc_view c4 = lc_view ?c3" by (rule view_cong) (simp_all add: c4_def)
    have ok4: "lru_ok c4"
      using s ok by (simp add: lru_ok_def c4_def cells_ok_def bufs_def same_frame_def)
    have h: "lc_view c4 \<subseteq>\<^sub>m (lc_view c)(key \<mapsto> b')" "lc_view c4 key = Some b'"
      using s view2 v4 by simp_all
    have "mp_cell (lc_pool c4) = mp_cell (lc_pool c)" using s a(4) by (simp add: c4_def same_frame_def)
    moreover have "mp_heap (lc_pool c4) a = Some b'" using s by (simp add: c4_def)
    moreover have "LC_SetOrGet g ld key token c = Some (True, Some a, c4)"
      using beg load pub True by (simp add: LC_SetOrGet_def)
    ultimately show ?thesis using ok4 h ld True b0(2) by (intro exI [of _ b0] exI [of _ res] exI [of _ b'] exI [of _ "Some a"] exI [of _ c4]) simp
  next
    case False
    define p3 where "p3 = MP_ReclaimBuffer a ?p2"
    note r = MP_ReclaimBuffer_ok [OF po2, folded p3_def]
    define c4 where "c4 = ?c2\<lparr>lc_pool := p3, lc_objs := lc_objs c @ [?ins\<lparr>ii_clean := True\<rparr>], lc_infos := Map.empty\<rparr>"
    have "lc_infos ?c2 = [key \<mapsto> ?i]" "lc_pool ?c2 = ?p2" by simp_all
    then have pub: "SG_publish key ?i res ?c2 = (None, c4)"
      unfolding SG_publish_def using sv False by (simp add: Let_def c4_def p3_def list_update_append)
    have v4: "lc_view c4 = lc_view c"
    proof
      fix x
      show "lc_view c4 x = lc_view c x"
      proof (cases "lc_cells c x")
        case (Some y)
        then have "c_val y \<in> set (bufs c)" by (rule buf_in [OF co])
        then have "mp_heap p3 (c_val y) = mp_heap (lc_pool c) (c_val y)" using a(3,5) r by auto
        then show ?thesis using Some by (simp add: lc_view_def c4_def)
      qed (simp add: lc_view_def c4_def)
    qed
    have "bufs c4 = bufs c" by (simp add: bufs_def c4_def)
    then have "cells_ok [] c4" using co r by (simp add: cells_ok_def c4_def)
    then have ok4: "lru_ok c4" using ok by (simp add: lru_ok_def c4_def)
    have "mp_cell (lc_pool c4) = mp_cell (lc_pool c)" using r a(4) by (simp add: c4_def)
    moreover have "LC_SetOrGet g ld key token c = Some (False, None, c4)"
      using beg load pub False by (simp add: LC_SetOrGet_def)
    ultimately show ?thesis using ok4 v4 ld False b0(2) by (intro exI [of _ b0] exI [of _ res] exI [of _ b'] exI [of _ None] exI [of _ c4]) simp
  qed
qed

text \<open>\<open>Update\<close>, \<open>Evict\<close> and \<open>AlterCacheSize\<close>.\<close>

lemma LC_Update_ok:
  assumes ok: "lru_ok c" and len: "pos + length bs \<le> mp_cell (lc_pool c)"
  shows "\<exists>c'. LC_Update key bs pos c = Some c' \<and> lru_ok c' \<and> mp_cell (lc_pool c') = mp_cell (lc_pool c) \<and>
    lc_view c' = (lc_view c)(key := map_option (splice pos bs) (lc_view c key))"
proof (cases "lc_cells c key")
  case None
  then have "lc_view c key = None" by (simp add: lc_view_def)
  then have "lc_view c = (lc_view c)(key := map_option (splice pos bs) (lc_view c key))" by auto
  then show ?thesis using None ok by (auto simp: LC_Update_def)
next
  case (Some cell)
  have co: "cells_ok [] c" using ok by (simp add: lru_ok_def)
  obtain b where b: "lc_view c key = Some b" "mp_heap (lc_pool c) (c_val cell) = Some b" "length b = mp_cell (lc_pool c)"
    using view_live [OF co Some] by blast
  let ?c = "c\<lparr>lc_pool := (lc_pool c)\<lparr>mp_heap := (mp_heap (lc_pool c))(c_val cell \<mapsto> splice pos bs b)\<rparr>\<rparr>"
  have u: "LC_Update key bs pos c = Some ?c"
    using Some b len by (simp add: LC_Update_def heap_write_def splice_def)
  have v: "lc_view ?c x = ((lc_view c)(key := map_option (splice pos bs) (lc_view c key))) x" for x
  proof (cases "x = key")
    case False
    then have "lc_cells c x = Some y \<Longrightarrow> c_val y \<noteq> c_val cell" for y using bufs_inj [OF co _ Some] by blast
    then show ?thesis using False by (simp add: lc_view_def split: option.splits)
  qed (use Some b in \<open>simp add: lc_view_def\<close>)
  have bf: "bufs ?c = bufs c" by (simp add: bufs_def)
  have "pool_ok (lc_pool ?c) (bufs c)" using co b len by (auto simp: cells_ok_def pool_ok_def)
  then have "cells_ok [] ?c" using co bf by (simp add: cells_ok_def)
  then have "lru_ok ?c" using ok by (simp add: lru_ok_def)
  then show ?thesis using u v by auto
qed

lemma LC_Evict_ok:
  assumes ok: "lru_ok c"
  shows "lru_ok (LC_Evict key c)" "lc_view (LC_Evict key c) = (lc_view c)(key := None)"
proof -
  have co: "cells_ok [] c" using ok by (simp add: lru_ok_def)
  have "lru_ok (LC_Evict key c) \<and> lc_view (LC_Evict key c) = (lc_view c)(key := None)"
  proof (cases "lc_cells c key")
    case None
    then have "lc_view c key = None" by (simp add: lc_view_def)
    then show ?thesis using None ok by (auto simp: LC_Evict_def)
  next
    case (Some cell)
    let ?q = "key # remove1 key (lc_queue c)"
    let ?c = "c\<lparr>lc_queue := ?q\<rparr>"
    have kq: "key \<in> set (lc_queue c)" "distinct (lc_queue c)" using co Some by (auto simp: cells_ok_def)
    then have m: "mset ?q = mset (lc_queue c)" by (simp add: insert_DiffM)
    then have "mset (map f ?q) = mset (map f (lc_queue c))" for f :: "u32 \<Rightarrow> nat" by (metis mset_map)
    then have "mset (bufs ?c) = mset (bufs c)" unfolding bufs_def by simp
    then have "pool_ok (lc_pool c) (bufs ?c)" using co pool_ok_perm by (simp add: cells_ok_def) metis
    then have co': "cells_ok [] ?c"
      using co kq mset_eq_setD [OF m] by (simp add: cells_ok_def insert_absorb)
    have "lc_queue ?c = key # remove1 key (lc_queue c)" "lc_cells ?c key = Some cell" using Some by simp_all
    note d = drop_front [OF co' this]
    let ?e = "?c\<lparr>lc_pool := MP_ReclaimBuffer (c_val cell) (lc_pool ?c), lc_cells := (lc_cells ?c)(key := None),
      lc_queue := remove1 key (lc_queue c)\<rparr>"
    have v: "lc_view ?c = lc_view c" by (rule view_cong) simp_all
    have e: "lc_view (LC_Evict key c) = lc_view ?e" "cells_ok [] (LC_Evict key c) = cells_ok [] ?e"
      by (rule view_cong cells_ok_cong; simp add: LC_Evict_def Some)+
    have "length (lc_queue c) - Suc 0 \<le> lc_max c + lc_over c" using ok unfolding lru_ok_def by linarith
    then have "lru_ok (LC_Evict key c)"
      using d e ok kq unfolding lru_ok_def by (simp add: LC_Evict_def Some length_remove1)
    then show ?thesis using d(3) e v by simp
  qed
  then show "lru_ok (LC_Evict key c)" "lc_view (LC_Evict key c) = (lc_view c)(key := None)" by simp_all
qed

lemma LC_AlterCacheSize_ok:
  assumes ok: "lru_ok c" and sz: "1 \<le> mp_cell (lc_pool c)" "mp_cell (lc_pool c) \<le> cache_size * 1024 * 1024"
    "cache_size * 1024 * 1024 < 2 ^ 64" "cache_size * 1024 * 1024 div mp_cell (lc_pool c) + 500 < 2 ^ 32"
  shows "lru_ok (LC_AlterCacheSize cache_size c)" "lc_view (LC_AlterCacheSize cache_size c) \<subseteq>\<^sub>m lc_view c"
    "lc_cur (LC_AlterCacheSize cache_size c) \<le> cache_size * 1024 * 1024 div mp_cell (lc_pool c)"
    "mp_cell (lc_pool (LC_AlterCacheSize cache_size c)) = mp_cell (lc_pool c)"
proof -
  obtain m v where mv: "cache_sizes cache_size (mp_cell (lc_pool c)) = (m, v)" "1 \<le> m" "m + v + 500 < 2 ^ 32"
    "m + v = cache_size * 1024 * 1024 div mp_cell (lc_pool c)"
    using cache_sizes_ok [OF sz] by blast
  let ?c1 = "c\<lparr>lc_max := m, lc_over := v\<rparr>"
  have co: "cells_ok [] ?c1" using ok cells_ok_cong [of ?c1 c] by (simp add: lru_ok_def)
  have c1: "lc_cur ?c1 = length (lc_queue ?c1)" "1 \<le> lc_max ?c1" using ok mv by (simp_all add: lru_ok_def)
  define c2 where "c2 = LC_EvictOverflow ?c1"
  note e = LC_EvictOverflow_ok [OF co c1, folded c2_def]
  have p: "pool_ok (lc_pool c2) (bufs c2)" using e by (simp add: cells_ok_def)
  define p3 where "p3 = snd (MP_SetMaxBufferNum (of_nat m + 500) (lc_pool c2))"
  note r = MP_SetMaxBufferNum_ok [OF p, of "of_nat m + 500", folded p3_def]
  have a: "LC_AlterCacheSize cache_size c = c2\<lparr>lc_pool := p3\<rparr>"
    by (simp add: LC_AlterCacheSize_def mv(1) c2_def p3_def Let_def)
  have b: "bufs (c2\<lparr>lc_pool := p3\<rparr>) = bufs c2" by (simp add: bufs_def)
  have "cells_ok [] c2" using e by blast
  from buf_in [OF this] have "lc_view (c2\<lparr>lc_pool := p3\<rparr>) = lc_view c2"
    using r by (auto simp: lc_view_def fun_eq_iff split: option.splits)
  moreover have "lc_view ?c1 = lc_view c" by (rule view_cong) simp_all
  ultimately show "lc_view (LC_AlterCacheSize cache_size c) \<subseteq>\<^sub>m lc_view c" using e a by simp
  show "lru_ok (LC_AlterCacheSize cache_size c)"
    using ok e r b mv unfolding a by (simp add: lru_ok_def cells_ok_def same_frame_def)
  show "lc_cur (LC_AlterCacheSize cache_size c) \<le> cache_size * 1024 * 1024 div mp_cell (lc_pool c)"
    using e mv unfolding a by simp
  show "mp_cell (lc_pool (LC_AlterCacheSize cache_size c)) = mp_cell (lc_pool c)"
    using e r unfolding a by (simp add: same_frame_def)
qed

subsection \<open>What goes wrong\<close>

text \<open>\<open>SetMaxBufferNum\<close> subtracts the number of freed buffers from the old limit instead of storing
  the new one: a pool below its limit keeps a limit above the requested one.\<close>

lemma SetMax_not_stored:
  assumes ok: "pool_ok p L" and n: "length L \<le> unat n" "unat n < length (mp_que p) + length L"
    and slack: "length (mp_que p) + length L < unat (mp_max p)"
  shows "fst (MP_SetMaxBufferNum n p) = n" "unat n < unat (mp_max (snd (MP_SetMaxBufferNum n p)))"
proof -
  let ?d = "length (mp_que p) + length L - unat n"
  have u: "unat (mp_use p) = length L" using ok by (simp add: pool_ok_def)
  then have g: "\<not> mp_use p > n" using n(1) by (simp add: word_less_nat_alt)
  have e: "snd (MP_SetMaxBufferNum n p) = p\<lparr>mp_heap := (\<lambda>a. if a \<in> set (take ?d (mp_que p)) then None else mp_heap p a),
                mp_que := drop ?d (mp_que p), mp_max := mp_max p - of_nat ?d\<rparr>"
    using u g n(2) by (simp add: MP_SetMaxBufferNum_def Let_def)
  have d: "unat (of_nat ?d :: u32) = ?d"
    using slack unsigned_less [of "mp_max p", where ?'a = nat] by (simp add: unsigned_of_nat take_bit_nat_eq_self_iff)
  then have le: "of_nat ?d \<le> mp_max p" using slack by (simp only: word_le_nat_alt)
  have "unat (mp_max p - of_nat ?d) = unat (mp_max p) - ?d" using d unat_sub [OF le] by (simp only:)
  then show "unat n < unat (mp_max (snd (MP_SetMaxBufferNum n p)))" unfolding e using slack n by simp
  show "fst (MP_SetMaxBufferNum n p) = n" by (simp add: MP_SetMaxBufferNum_def Let_def)
qed

text \<open>Two threads miss the same key and both loads fail: each reclaims the buffer they share. The second
  loads only when the first has published, since it holds the lock of the entry until then.\<close>

lemma reclaim_twice:
  fixes h :: "nat \<Rightarrow> byte list option"
  assumes ok: "pool_ok p (a # L)" and room: "length L < unat (mp_max p)"
  defines "p1 \<equiv> MP_ReclaimBuffer a p"
  defines "p2 \<equiv> MP_ReclaimBuffer a (p1\<lparr>mp_heap := h\<rparr>)"
  shows "mp_heap p1 = mp_heap p" "count_list (mp_que p2) a = 2 \<or> a \<in> set (mp_que p2) \<and> mp_heap p2 a = None"
proof -
  have use: "unat (mp_use p) = length L + 1" and q: "a \<notin> set (mp_que p)"
    and le: "length (mp_que p) + length L + 1 \<le> unat (mp_max p)"
    using ok room by (cases "mp_que p"; auto simp: pool_ok_def)+
  have u1: "unat (mp_use p - 1) = length L" using unat_pred [of "mp_use p"] use by simp
  then have e1: "p1 = p\<lparr>mp_que := mp_que p @ [a], mp_use := mp_use p - 1\<rparr>"
    using le by (simp add: p1_def MP_ReclaimBuffer_def Let_def)
  then show "mp_heap p1 = mp_heap p" by simp
  have c0: "count_list (mp_que p) a = 0" using q by (simp add: count_list_0_iff)
  show "count_list (mp_que p2) a = 2 \<or> a \<in> set (mp_que p2) \<and> mp_heap p2 a = None"
  proof (cases "L = []")
    case False
    then have "unat (mp_use p - 1 - 1) = length L - 1" using unat_pred [of "mp_use p - 1"] u1 by simp
    then have "unat (mp_use p - 1 - 1) + length (mp_que p @ [a, a]) \<le> unat (mp_max p)" using le False by (cases L) simp_all
    then have "mp_que p2 = mp_que p @ [a, a]" by (simp add: p2_def e1 MP_ReclaimBuffer_def Let_def)
    then show ?thesis using c0 by simp
  next
    case True
    then have "mp_use p - 1 = 0" using u1 by (simp add: unat_eq_0)
    then have "unat (mp_use p - 1 - 1) = 4294967295" by (simp add: unsigned_minus_1_eq_mask mask_eq_exp_minus_1)
    moreover have "unat (mp_max p) < 4294967296" using unsigned_less [of "mp_max p", where ?'a = nat] by simp
    ultimately have "mp_que p2 = tl (mp_que p @ [a, a])" "mp_heap p2 = h(hd (mp_que p @ [a, a]) := None)"
      by (simp_all add: p2_def e1 MP_ReclaimBuffer_def Let_def)
    then show ?thesis using c0 q by (cases "mp_que p") auto
  qed
qed

lemma failed_loads:
  assumes ok: "lru_ok c" and v: "lc_view c key = None" and room: "unat (mp_use (lc_pool c)) < unat (mp_max (lc_pool c))"
    and fails: "\<And>b. length b = mp_cell (lc_pool c) \<Longrightarrow> \<exists>b'. ld key b token = Some (False, b') \<and> length b' = mp_cell (lc_pool c)"
  shows "\<exists>i c1 c2 c3 c4 c5 c6. SG_begin g key c = (Inr i, c1) \<and> SG_begin g key c1 = (Inr i, c2) \<and>
    SG_load ld key token i c2 = Some (Inr False, c3) \<and> SG_publish key i False c3 = (None, c4) \<and>
    SG_load ld key token i c4 = Some (Inr False, c5) \<and> SG_publish key i False c5 = (None, c6) \<and>
    (let a = ii_val (lc_objs c1 ! i); p = lc_pool c6
     in count_list (mp_que p) a = 2 \<or> a \<in> set (mp_que p) \<and> mp_heap p a = None)"
proof -
  have co: "cells_ok [] c" and inf: "lc_infos c = Map.empty" using ok by (simp_all add: lru_ok_def)
  have k: "lc_cells c key = None" using view_None [OF co] v by blast
  have po: "pool_ok (lc_pool c) (bufs c)" and bl: "length (bufs c) + 1 < 2 ^ 32"
    using ok by (simp_all add: lru_ok_def cells_ok_def bufs_def)
  obtain a p where a: "MP_GetBuffer g (lc_pool c) = (a, p)" "pool_ok p (a # bufs c)" "mp_cell p = mp_cell (lc_pool c)"
    using MP_GetBuffer_ok [OF po bl, of g] by auto
  have mx: "mp_max p = mp_max (lc_pool c)" using a(1) by (auto simp: MP_GetBuffer_def split: list.splits)
  have room': "length (bufs c) < unat (mp_max p)" using room po mx by (simp add: pool_ok_def)
  obtain b0 where b0: "mp_heap p a = Some b0" "length b0 = mp_cell (lc_pool c)"
    using pool_ok_live [OF a(2), of a] a(3) by auto
  obtain b1 where b1: "ld key b0 token = Some (False, b1)" "length b1 = mp_cell (lc_pool c)" using fails [OF b0(2)] by blast
  obtain b2 where b2: "ld key b1 token = Some (False, b2)" using fails [OF b1(2)] by blast
  let ?i = "length (lc_objs c)" and ?ins = "\<lparr>ii_clean = False, ii_product = False, ii_val = a\<rparr>"
  let ?c1 = "c\<lparr>lc_pool := p, lc_infos := [key \<mapsto> ?i], lc_objs := lc_objs c @ [?ins], lc_misses := lc_misses c + 1\<rparr>"
  let ?c2 = "?c1\<lparr>lc_misses := lc_misses c + 2\<rparr>"
  let ?p3 = "p\<lparr>mp_heap := (mp_heap p)(a \<mapsto> b1)\<rparr>"
  let ?c3 = "?c2\<lparr>lc_pool := ?p3\<rparr>"
  let ?p4 = "MP_ReclaimBuffer a ?p3"
  let ?c4 = "?c3\<lparr>lc_pool := ?p4, lc_objs := lc_objs c @ [?ins\<lparr>ii_clean := True\<rparr>], lc_infos := Map.empty\<rparr>"
  let ?p5 = "?p4\<lparr>mp_heap := (mp_heap ?p4)(a \<mapsto> b2)\<rparr>"
  let ?c5 = "?c4\<lparr>lc_pool := ?p5\<rparr>"
  let ?c6 = "?c5\<lparr>lc_pool := MP_ReclaimBuffer a ?p5\<rparr>"
  have po3: "pool_ok ?p3 (a # bufs c)" using a(2,3) b0(1) b1(2) by (auto simp: pool_ok_def)
  have "length (bufs c) < unat (mp_max ?p3)" using room' by simp
  note r = reclaim_twice [OF po3 this]
  have "SG_begin g key c = (Inr ?i, ?c1)" using k a(1) inf by (simp add: SG_begin_def GetImpl_None)
  moreover have "SG_begin g key ?c1 = (Inr ?i, ?c2)" using k by (simp add: SG_begin_def GetImpl_None)
  moreover have "SG_load ld key token ?i ?c2 = Some (Inr False, ?c3)" using b0(1) b1(1) by (simp add: SG_load_def nth_append)
  moreover have "SG_publish key ?i False ?c3 = (None, ?c4)" by (simp add: SG_publish_def Let_def list_update_append)
  moreover have "SG_load ld key token ?i ?c4 = Some (Inr False, ?c5)" using b2 r(1) by (simp add: SG_load_def nth_append)
  moreover have "SG_publish key ?i False ?c5 = (None, ?c6)" by (simp add: SG_publish_def Let_def)
  moreover have "ii_val (lc_objs ?c1 ! ?i) = a" by simp
  moreover have "count_list (mp_que (lc_pool ?c6)) a = 2 \<or> a \<in> set (mp_que (lc_pool ?c6)) \<and> mp_heap (lc_pool ?c6) a = None"
    using r(2) by simp
  ultimately show ?thesis unfolding Let_def by metis
qed

end
