(* ===== verification/BlockCache.thy ===== *)
theory BlockCache
  imports LruCache
begin

text \<open>
  The contract of the block caches: the simple cache's invariant, the virtual dispatch of
  \<open>CacheBase\<close>, and the interface \<open>block_cache\<close> that the two caches and the dispatch provide and
  that the blocks of a segment rely on.
\<close>

subsection \<open>The simple cache\<close>

definition sc_valid :: "scache \<Rightarrow> u32 \<Rightarrow> bool" where
  "sc_valid c k \<longleftrightarrow> unat k div sc_gap c < 400"

definition sc_ok :: "scache \<Rightarrow> bool" where
  "sc_ok c \<longleftrightarrow> length (sc_segs c) = 400 \<and> 0 < sc_gap c \<and> 2 \<le> sc_init c \<and>
     (\<forall>s. Some s \<in> set (sc_segs c) \<longrightarrow> 2 \<le> length s) \<and>
     (\<forall>k a. SC_lookup k c = Some (Some a) \<longrightarrow> a < sc_brk c \<and> (\<exists>b. sc_heap c a = Some b \<and> length b = sc_cell c)) \<and>
     (\<forall>k l a. SC_lookup k c = Some (Some a) \<longrightarrow> SC_lookup l c = Some (Some a) \<longrightarrow> k = l)"

definition sc_view :: "scache \<Rightarrow> u32 \<Rightarrow> byte list option" where
  "sc_view c k = (case SC_lookup k c of Some (Some a) \<Rightarrow> sc_heap c a | _ \<Rightarrow> None)"

lemma SC_lookup_alt:
  "SC_lookup k c = (if unat k div sc_gap c < length (sc_segs c)
     then Some (case sc_segs c ! (unat k div sc_gap c) of None \<Rightarrow> None
       | Some s \<Rightarrow> if unat k mod sc_gap c < length s then s ! (unat k mod sc_gap c) else None)
     else None)"
  by (simp add: SC_lookup_def fetch_def Let_def)

lemma sc_ok_live:
  "sc_ok c \<Longrightarrow> SC_lookup k c = Some (Some a) \<Longrightarrow> a < sc_brk c \<and> (\<exists>b. sc_heap c a = Some b \<and> length b = sc_cell c)"
  unfolding sc_ok_def by blast

lemma sc_ok_inj: "sc_ok c \<Longrightarrow> SC_lookup k c = Some (Some a) \<Longrightarrow> SC_lookup l c = Some (Some a) \<Longrightarrow> k = l"
  unfolding sc_ok_def by blast

lemma sc_ok_heap:
  assumes ok: "sc_ok c" and h: "\<And>a b. sc_heap c a = Some b \<Longrightarrow> \<exists>b'. h a = Some b' \<and> length b' = length b"
  shows "sc_ok (c\<lparr>sc_heap := h\<rparr>)"
proof -
  have l: "SC_lookup k (c\<lparr>sc_heap := h\<rparr>) = SC_lookup k c" for k by (simp add: SC_lookup_def)
  have "SC_lookup k c = Some (Some a) \<Longrightarrow> a < sc_brk c \<and> (\<exists>b. h a = Some b \<and> length b = sc_cell c)" for k a
    using sc_ok_live [OF ok] h by metis
  then show ?thesis using ok unfolding sc_ok_def l by (metis (no_types, lifting) scache.select_convs scache.surjective scache.update_convs(6))
qed

lemma lookup_valid: "sc_ok c \<Longrightarrow> sc_valid c k \<Longrightarrow> SC_lookup k c \<noteq> None"
  by (simp add: SC_lookup_alt [of k] sc_ok_def sc_valid_def)

lemma lookup_cong: "sc_segs c' = sc_segs c \<Longrightarrow> sc_gap c' = sc_gap c \<Longrightarrow> SC_lookup k c' = SC_lookup k c"
  by (simp add: SC_lookup_def)

lemma SC_new_ok:
  assumes "0 < gap" "i \<noteq> 1"
  shows "sc_ok (SC_new k gap i)" "sc_view (SC_new k gap i) = Map.empty" "sc_cell (SC_new k gap i) = k"
    "sc_gap (SC_new k gap i) = gap"
proof -
  have l: "SC_lookup x (SC_new k gap i) \<noteq> Some (Some a)" for x a
    by (auto simp: SC_lookup_alt SC_new_def nth_Cons split: if_splits nat.splits option.splits)
  then show "sc_ok (SC_new k gap i)" "sc_view (SC_new k gap i) = Map.empty"
    using assms by (auto simp: sc_ok_def sc_view_def split: option.splits) (auto simp: SC_new_def Let_def split: if_splits)
qed (simp_all add: SC_new_def)

text \<open>Storing a pointer in an empty slot changes the slot of its key only.\<close>

lemma SC_SetImpl_empty:
  assumes ok: "sc_ok c" and l: "SC_lookup key c = Some None"
  shows "\<exists>c'. SC_SetImpl key a c = Some c' \<and> (\<forall>k. SC_lookup k c' = (if k = key then Some (Some a) else SC_lookup k c)) \<and>
    sc_heap c' = sc_heap c \<and> sc_gap c' = sc_gap c \<and> sc_init c' = sc_init c \<and> sc_cell c' = sc_cell c \<and> sc_brk c' = sc_brk c \<and>
    length (sc_segs c') = length (sc_segs c) \<and> (\<forall>s. Some s \<in> set (sc_segs c') \<longrightarrow> 2 \<le> length s)"
proof -
  let ?sid = "unat key div sc_gap c" and ?i = "unat key mod sc_gap c"
  have sid: "?sid < length (sc_segs c)"
    using l by (simp add: SC_lookup_alt split: if_splits)
  define s0 where "s0 = (case sc_segs c ! ?sid of None \<Rightarrow> replicate (sc_init c) None | Some s \<Rightarrow> s)"
  define s where "s = (if length s0 \<le> ?i then s0 @ replicate (3 * ?i div 2 - length s0) None else s0)"
  have two: "2 \<le> length s0"
    using ok sid nth_mem [OF sid] unfolding s0_def sc_ok_def by (cases "sc_segs c ! ?sid") auto
  have ln: "?i < length s" using two unfolding s_def by (cases "length s0 \<le> ?i") auto
  have le: "length s0 \<le> length s" unfolding s_def
    by (cases "length s0 \<le> ?i") (simp_all only: if_True if_False length_append le_add1 order_refl)
  have nth: "j < length s \<Longrightarrow> s ! j = (if j < length s0 then s0 ! j else None)" for j
    by (auto simp: s_def nth_append)
  have emp: "s ! ?i = None"
    using l ln sid by (auto simp: nth s0_def SC_lookup_alt split: option.splits if_splits)
  let ?c = "c\<lparr>sc_segs := (sc_segs c)[?sid := Some (s[?i := Some a])], sc_num := sc_num c + 1\<rparr>"
  have e: "SC_SetImpl key a c = Some ?c"
  proof -
    have "fetch (sc_segs c) (int ?sid) = Some (sc_segs c ! ?sid)" "fetch s (int ?i) = Some None"
      using sid ln emp by (simp_all add: fetch_def)
    then show ?thesis
      by (simp only: SC_SetImpl_def Let_def Option.bind.simps s0_def [symmetric] s_def [symmetric] option.case)
  qed
  have lk: "SC_lookup k ?c = (if k = key then Some (Some a) else SC_lookup k c)" for k
  proof (cases "unat k div sc_gap c = ?sid")
    case True
    show ?thesis
    proof (cases "unat k mod sc_gap c = ?i")
      case im: True
      then have "unat k = unat key" using True by (metis div_mult_mod_eq)
      then have "k = key" by (simp add: word_unat_eq_iff)
      then show ?thesis using sid ln by (simp add: SC_lookup_alt)
    next
      case False
      then have k: "k \<noteq> key" by auto
      show ?thesis
        using False True sid k le nth [of "unat k mod sc_gap c"]
        by (auto simp: SC_lookup_alt s0_def split: option.splits)
    qed
  next
    case False
    then have "k \<noteq> key" by auto
    then show ?thesis using False by (simp add: SC_lookup_alt split: option.splits)
  qed
  have "2 \<le> length s" using two le by simp
  then have "\<forall>x. Some x \<in> set (sc_segs ?c) \<longrightarrow> 2 \<le> length x"
    using ok set_update_subset_insert [of "sc_segs c" ?sid "Some (s[?i := Some a])"] by (auto simp: sc_ok_def)
  then show ?thesis using e lk by auto
qed

lemma sc_valid_cong: "sc_gap c' = sc_gap c \<Longrightarrow> sc_valid c' = sc_valid c"
  by (simp add: sc_valid_def fun_eq_iff)

lemma SC_SetOrGet_hit:
  assumes ok: "sc_ok c" and v: "sc_view c key = Some b"
  shows "\<exists>a c'. SC_SetOrGet g ld key token c = Some (True, Some a, c') \<and> sc_ok c' \<and> sc_view c' = sc_view c \<and>
    sc_heap c' a = Some b \<and> sc_cell c' = sc_cell c \<and> sc_valid c' = sc_valid c"
  using assms by (auto simp: SC_SetOrGet_def sc_view_def split: option.splits)

lemma SC_SetOrGet_miss:
  assumes ok: "sc_ok c" and val: "sc_valid c key" and v: "sc_view c key = None"
    and len: "\<And>b. length b = sc_cell c \<Longrightarrow> \<exists>r b'. ld key b token = Some (r, b') \<and> length b' = sc_cell c"
  shows "\<exists>b0 res b' value c'. ld key b0 token = Some (res, b') \<and>
    SC_SetOrGet g ld key token c = Some (res, value, c') \<and>
    length b0 = sc_cell c \<and> sc_ok c' \<and> sc_cell c' = sc_cell c \<and> sc_valid c' = sc_valid c \<and>
    (if res
     then (\<exists>a. value = Some a \<and> sc_heap c' a = Some b' \<and> sc_view c' \<subseteq>\<^sub>m (sc_view c)(key \<mapsto> b'))
     else value = None \<and> sc_view c' = sc_view c)"
proof -
  have l: "SC_lookup key c = Some None"
    using lookup_valid [OF ok val] v sc_ok_live [OF ok, of key] by (auto simp: sc_view_def split: option.splits)
  let ?b0 = "map g [0..<sc_cell c]" and ?a = "sc_brk c"
  obtain res b' where ld: "ld key ?b0 token = Some (res, b')" "length b' = sc_cell c" using len [of ?b0] by auto
  have lt: "SC_lookup k c = Some (Some x) \<Longrightarrow> x < ?a" for k x using sc_ok_live [OF ok] by blast
  show ?thesis
  proof (cases res)
    case False
    let ?c = "c\<lparr>sc_brk := Suc ?a\<rparr>"
    have lk: "SC_lookup k ?c = SC_lookup k c" for k by (rule lookup_cong) simp_all
    have "sc_view ?c = sc_view c" by (simp add: sc_view_def lk fun_eq_iff split: option.splits)
    moreover have "sc_ok ?c" using ok by (auto simp: sc_ok_def lk intro: less_SucI)
    moreover have "SC_SetOrGet g ld key token c = Some (False, None, ?c)" using l ld False by (simp add: SC_SetOrGet_def)
    moreover have "sc_valid ?c = sc_valid c" by (rule sc_valid_cong) simp
    ultimately show ?thesis using ld False by (intro exI [of _ ?b0] exI [of _ res] exI [of _ b'] exI [of _ None] exI [of _ ?c]) simp
  next
    case True
    let ?c1 = "c\<lparr>sc_heap := (sc_heap c)(?a \<mapsto> b'), sc_brk := Suc ?a\<rparr>"
    have lk1: "SC_lookup k ?c1 = SC_lookup k c" for k by (rule lookup_cong) simp_all
    have ok1: "sc_ok ?c1" using ok lt by (fastforce simp: sc_ok_def lk1 intro: less_SucI)
    obtain c' where c': "SC_SetImpl key ?a ?c1 = Some c'"
      "\<forall>k. SC_lookup k c' = (if k = key then Some (Some ?a) else SC_lookup k c)"
      "sc_heap c' = (sc_heap c)(?a \<mapsto> b')" "sc_gap c' = sc_gap c" "sc_init c' = sc_init c" "sc_cell c' = sc_cell c" "sc_brk c' = Suc ?a"
      "length (sc_segs c') = length (sc_segs c)" "\<forall>s. Some s \<in> set (sc_segs c') \<longrightarrow> 2 \<le> length s"
      using SC_SetImpl_empty [OF ok1, of key ?a] l lk1 by auto
    have e: "SC_SetOrGet g ld key token c = Some (True, Some ?a, c')"
      using l ld True c'(1,2) by (simp add: SC_SetOrGet_def Let_def)
    have ok': "sc_ok c'"
      using ok c' ld(2) lt unfolding sc_ok_def by (auto simp: less_Suc_eq split: if_splits)
    have "sc_view c' k = ((sc_view c)(key \<mapsto> b')) k" for k
      using c'(2,3) lt [of k] by (auto simp: sc_view_def split: option.splits)
    then have "sc_view c' = (sc_view c)(key \<mapsto> b')" by blast
    moreover have "sc_valid c' = sc_valid c" by (rule sc_valid_cong) (rule c'(4))
    ultimately show ?thesis using e ok' c' ld True
      by (intro exI [of _ ?b0] exI [of _ res] exI [of _ b'] exI [of _ "Some ?a"] exI [of _ c']) simp
  qed
qed

lemma SC_Update_ok:
  assumes ok: "sc_ok c" and val: "sc_valid c key" and len: "pos + length bs \<le> sc_cell c"
  shows "\<exists>c'. SC_Update key bs pos c = Some c' \<and> sc_ok c' \<and> sc_cell c' = sc_cell c \<and> sc_valid c' = sc_valid c \<and>
    sc_view c' = (sc_view c)(key := map_option (splice pos bs) (sc_view c key))"
proof (cases "SC_lookup key c")
  case None
  then show ?thesis using lookup_valid [OF ok val] by simp
next
  case l: (Some p)
  show ?thesis
  proof (cases p)
    case None
    then have "sc_view c key = None" using l by (simp add: sc_view_def)
    then have "sc_view c = (sc_view c)(key := map_option (splice pos bs) (sc_view c key))" by auto
    then show ?thesis using None l ok by (auto simp: SC_Update_def)
  next
    case (Some a)
    then obtain b where b: "sc_heap c a = Some b" "length b = sc_cell c" using sc_ok_live [OF ok, of key] l by auto
    let ?c = "c\<lparr>sc_heap := (sc_heap c)(a \<mapsto> splice pos bs b)\<rparr>"
    have lk: "SC_lookup k ?c = SC_lookup k c" for k by (rule lookup_cong) simp_all
    have u: "SC_Update key bs pos c = Some ?c"
      using l Some b len by (simp add: SC_Update_def heap_write_def splice_def)
    have "sc_view ?c k = ((sc_view c)(key := map_option (splice pos bs) (sc_view c key))) k" for k
    proof (cases "k = key")
      case True
      then show ?thesis using l Some b by (simp add: sc_view_def lk)
    next
      case False
      then have "SC_lookup k c \<noteq> Some (Some a)" using sc_ok_inj [OF ok, of k a key] l Some by blast
      then show ?thesis using False by (simp add: sc_view_def lk split: option.splits)
    qed
    then have v: "sc_view ?c = (sc_view c)(key := map_option (splice pos bs) (sc_view c key))" by blast
    have "sc_ok ?c" using b len by (intro sc_ok_heap [OF ok]) auto
    moreover have "sc_valid ?c = sc_valid c" by (rule sc_valid_cong) simp
    ultimately show ?thesis using u v by (intro exI [of _ ?c]) simp
  qed
qed

text \<open>A capacity of one, asked for at construction, is not enough: the grown segment of one and a half
  times the index has no room for index 1.\<close>

lemma simple_cache_overrun: "SC_SetImpl 1 a (SC_new k 8 1) = None"
  by (simp add: SC_SetImpl_def SC_new_def fetch_def Let_def)

subsection \<open>The interface\<close>

text \<open>What a segment relies on: \<open>get\<close> is \<open>SetOrGet\<close>, \<open>buf c a\<close> the buffer a returned pointer points to,
  \<open>view\<close> the cached blocks. A hit returns the cached block, a miss the block that the load function
  leaves in a new buffer, and in both cases the other blocks stay as they are or are evicted.\<close>

locale block_cache =
  fixes ok :: "'c \<Rightarrow> bool"
    and valid :: "'c \<Rightarrow> u32 \<Rightarrow> bool"
    and view :: "'c \<Rightarrow> u32 \<Rightarrow> byte list option"
    and cell_size :: "'c \<Rightarrow> nat"
    and buf :: "'c \<Rightarrow> nat \<Rightarrow> byte list option"
    and get :: "(u32 \<Rightarrow> byte list \<Rightarrow> 'p \<Rightarrow> (bool \<times> byte list) option) \<Rightarrow> u32 \<Rightarrow> 'p \<Rightarrow> 'c \<Rightarrow> (bool \<times> nat option \<times> 'c) option"
    and upd :: "u32 \<Rightarrow> byte list \<Rightarrow> nat \<Rightarrow> 'c \<Rightarrow> 'c option"
  assumes hit: "\<lbrakk>ok c; valid c k; view c k = Some b\<rbrakk> \<Longrightarrow>
      \<exists>a c'. get ld k t c = Some (True, Some a, c') \<and> ok c' \<and> view c' = view c \<and> buf c' a = Some b \<and>
        cell_size c' = cell_size c \<and> valid c' = valid c"
    and miss: "\<lbrakk>ok c; valid c k; view c k = None;
        \<And>b. length b = cell_size c \<Longrightarrow> \<exists>r b'. ld k b t = Some (r, b') \<and> length b' = cell_size c\<rbrakk> \<Longrightarrow>
      \<exists>b0 res b' value c'. ld k b0 t = Some (res, b') \<and> get ld k t c = Some (res, value, c') \<and>
        length b0 = cell_size c \<and> ok c' \<and> cell_size c' = cell_size c \<and> valid c' = valid c \<and>
        (if res then (\<exists>a. value = Some a \<and> buf c' a = Some b' \<and> view c' \<subseteq>\<^sub>m (view c)(k \<mapsto> b'))
         else value = None \<and> view c' = view c)"
    and update: "\<lbrakk>ok c; valid c k; pos + length bs \<le> cell_size c\<rbrakk> \<Longrightarrow>
      \<exists>c'. upd k bs pos c = Some c' \<and> ok c' \<and> cell_size c' = cell_size c \<and> valid c' = valid c \<and>
        view c' = (view c)(k := map_option (splice pos bs) (view c k))"
begin

text \<open>The cached blocks agree, in their first \<open>n k\<close> bytes, with the blocks \<open>D\<close> on disk.\<close>

definition coherent :: "(u32 \<Rightarrow> byte list option) \<Rightarrow> 'c \<Rightarrow> bool" where
  "coherent D c \<longleftrightarrow> (\<forall>k b. view c k = Some b \<longrightarrow> length b = cell_size c \<and>
     (\<exists>d. D k = Some d \<and> length d \<le> cell_size c \<and> take (length d) b = d))"

lemma coherent_None: "coherent D c \<Longrightarrow> D k = None \<Longrightarrow> view c k = None"
  unfolding coherent_def by (metis not_Some_eq option.distinct(1))

lemma coherent_mono: "coherent D c \<Longrightarrow> D \<subseteq>\<^sub>m D' \<Longrightarrow> coherent D' c"
  unfolding coherent_def map_le_def by (metis domI)

text \<open>A load function that copies the block of the disk into the buffer.\<close>

definition loads :: "(u32 \<Rightarrow> byte list \<Rightarrow> 'p \<Rightarrow> (bool \<times> byte list) option) \<Rightarrow> u32 \<Rightarrow> 'p \<Rightarrow> byte list \<Rightarrow> bool" where
  "loads ld k t d \<longleftrightarrow> (\<forall>b. length d \<le> length b \<longrightarrow> ld k b t = Some (True, d @ drop (length d) b))"

lemma get_coherent:
  assumes ok: "ok c" "valid c k" and co: "coherent D c" and d: "D k = Some d" "length d \<le> cell_size c"
    and ld: "loads ld k t d"
  shows "\<exists>a c' b. get ld k t c = Some (True, Some a, c') \<and> ok c' \<and> valid c' = valid c \<and> cell_size c' = cell_size c \<and>
    coherent D c' \<and> buf c' a = Some b \<and> length b = cell_size c \<and> take (length d) b = d"
proof (cases "view c k")
  case (Some b)
  then have b: "length b = cell_size c" "take (length d) b = d"
    using co d unfolding coherent_def by (metis option.inject)+
  obtain a c' where c': "get ld k t c = Some (True, Some a, c')" "ok c'" "view c' = view c" "buf c' a = Some b"
    "cell_size c' = cell_size c" "valid c' = valid c" using hit [OF ok Some] by blast
  then have "coherent D c'" using co by (simp add: coherent_def)
  then show ?thesis using c' b by blast
next
  case None
  have "\<exists>r b'. ld k b t = Some (r, b') \<and> length b' = cell_size c" if "length b = cell_size c" for b
  proof -
    have "ld k b t = Some (True, d @ drop (length d) b)" using ld that d(2) by (simp add: loads_def)
    then show ?thesis using that d(2) by auto
  qed
  from miss [where ld = ld and t = t, OF ok None this] obtain b0 res b' vl c' where m: "ld k b0 t = Some (res, b')"
    "get ld k t c = Some (res, vl, c')" "length b0 = cell_size c" "ok c'" "cell_size c' = cell_size c" "valid c' = valid c"
    "if res then (\<exists>a. vl = Some a \<and> buf c' a = Some b' \<and> view c' \<subseteq>\<^sub>m (view c)(k \<mapsto> b'))
     else vl = None \<and> view c' = view c" by blast
  have r: "res" "b' = d @ drop (length d) b0" using ld m(1,3) d(2) by (auto simp: loads_def)
  then obtain a where a: "vl = Some a" "buf c' a = Some b'" "view c' \<subseteq>\<^sub>m (view c)(k \<mapsto> b')" using m(7) by auto
  have "coherent D c'" unfolding coherent_def
  proof (intro allI impI)
    fix x b assume x: "view c' x = Some b"
    then have "((view c)(k \<mapsto> b')) x = Some b" using a(3) by (auto simp: map_le_def dom_def)
    then show "length b = cell_size c' \<and> (\<exists>d. D x = Some d \<and> length d \<le> cell_size c' \<and> take (length d) b = d)"
      using co r(2) m(3,5) d by (cases "x = k") (auto simp: coherent_def)
  qed
  then show ?thesis using m a r d by auto
qed

text \<open>An update of a block that is not on disk, and so not in the cache, changes nothing.\<close>

lemma upd_absent:
  assumes ok: "ok c" "valid c k" and co: "coherent D c" and d: "D k = None" and sz: "pos + length bs \<le> cell_size c"
  shows "\<exists>c'. upd k bs pos c = Some c' \<and> ok c' \<and> valid c' = valid c \<and> cell_size c' = cell_size c \<and> coherent D c'"
proof -
  have v: "view c k = None" by (rule coherent_None [OF co d])
  obtain c' where c': "upd k bs pos c = Some c'" "ok c'" "cell_size c' = cell_size c" "valid c' = valid c"
    "view c' = (view c)(k := None)"
    using update [OF ok sz] v by auto
  moreover have "view c' = view c" using c'(5) v by auto
  ultimately show ?thesis using co by (auto simp: coherent_def)
qed

text \<open>Writing through: the block on disk and its cached copy change alike.\<close>

lemma upd_coherent:
  assumes ok: "ok c" "valid c k" and co: "coherent D c" and d: "D k = Some d" "pos + length bs \<le> length d"
    and sz: "length d \<le> cell_size c"
  shows "\<exists>c'. upd k bs pos c = Some c' \<and> ok c' \<and> valid c' = valid c \<and> cell_size c' = cell_size c \<and>
    coherent (D(k \<mapsto> splice pos bs d)) c'"
proof -
  obtain c' where c': "upd k bs pos c = Some c'" "ok c'" "cell_size c' = cell_size c" "valid c' = valid c"
    "view c' = (view c)(k := map_option (splice pos bs) (view c k))"
    using update [OF ok, of pos bs] d(2) sz by auto
  have tk: "take (length d) (splice pos bs b) = splice pos bs (take (length d) b)" if "length d \<le> length b" for b
    using d(2) that by (cases "pos = length d") (auto simp: splice_def min_def drop_take)
  have "coherent (D(k \<mapsto> splice pos bs d)) c'"
    unfolding coherent_def
  proof (intro allI impI)
    fix x b assume x: "view c' x = Some b"
    show "length b = cell_size c' \<and> (\<exists>d'. (D(k \<mapsto> splice pos bs d)) x = Some d' \<and> length d' \<le> cell_size c' \<and> take (length d') b = d')"
    proof (cases "x = k")
      case True
      then obtain v where v: "view c k = Some v" "b = splice pos bs v" using x c'(5) by auto
      then have "length v = cell_size c" "take (length d) v = d"
        using co d unfolding coherent_def by (metis option.inject)+
      then show ?thesis using True v(2) d(2) sz c'(3) tk [of v] by simp
    next
      case False
      then show ?thesis using x c'(3,5) co by (auto simp: coherent_def)
    qed
  qed
  then show ?thesis using c' by blast
qed

end

interpretation lruc: block_cache lru_ok "\<lambda>c k. True" lc_view "\<lambda>c. mp_cell (lc_pool c)" "\<lambda>c. mp_heap (lc_pool c)"
  "LC_SetOrGet g" LC_Update
proof (unfold_locales, goal_cases)
  case (1 c k b ld t)
  then show ?case using LC_SetOrGet_hit [of c k b g ld t] by simp
next
  case (2 c k ld t)
  show ?case using LC_SetOrGet_miss [where key = k and ld = ld and token = t, OF 2(1,3), of g] 2(4) by simp
next
  case (3 c k pos bs)
  then show ?case using LC_Update_ok [of c pos bs k] by simp
qed

interpretation simplec: block_cache sc_ok sc_valid sc_view sc_cell sc_heap "SC_SetOrGet g" SC_Update
  by unfold_locales (rule SC_SetOrGet_hit SC_SetOrGet_miss SC_Update_ok; assumption)+

subsection \<open>Virtual dispatch\<close>

datatype cache = CLru lru | CSimple scache

primrec C_SetOrGet :: "(nat \<Rightarrow> byte) \<Rightarrow> (u32 \<Rightarrow> byte list \<Rightarrow> 'p \<Rightarrow> (bool \<times> byte list) option) \<Rightarrow> u32 \<Rightarrow> 'p \<Rightarrow> cache \<Rightarrow>
    (bool \<times> nat option \<times> cache) option" where
  "C_SetOrGet g load key token (CLru c) = map_option (\<lambda>(r, p, c). (r, p, CLru c)) (LC_SetOrGet g load key token c)"
| "C_SetOrGet g load key token (CSimple c) = map_option (\<lambda>(r, p, c). (r, p, CSimple c)) (SC_SetOrGet g load key token c)"

primrec C_Update :: "u32 \<Rightarrow> byte list \<Rightarrow> nat \<Rightarrow> cache \<Rightarrow> cache option" where
  "C_Update key buffer begin_pos (CLru c) = map_option CLru (LC_Update key buffer begin_pos c)"
| "C_Update key buffer begin_pos (CSimple c) = map_option CSimple (SC_Update key buffer begin_pos c)"

primrec C_AlterCacheSize :: "nat \<Rightarrow> cache \<Rightarrow> cache" where
  "C_AlterCacheSize cache_size (CLru c) = CLru (LC_AlterCacheSize cache_size c)"
| "C_AlterCacheSize cache_size (CSimple c) = CSimple c"

primrec C_GetMaxSize :: "cache \<Rightarrow> int" where
  "C_GetMaxSize (CLru c) = LC_GetMaxSize c"
| "C_GetMaxSize (CSimple c) = -1"

primrec cache_ok :: "cache \<Rightarrow> bool" where
  "cache_ok (CLru c) = lru_ok c"
| "cache_ok (CSimple c) = sc_ok c"

primrec cache_valid :: "cache \<Rightarrow> u32 \<Rightarrow> bool" where
  "cache_valid (CLru c) = (\<lambda>k. True)"
| "cache_valid (CSimple c) = sc_valid c"

primrec cache_view :: "cache \<Rightarrow> u32 \<Rightarrow> byte list option" where
  "cache_view (CLru c) = lc_view c"
| "cache_view (CSimple c) = sc_view c"

primrec cache_cell :: "cache \<Rightarrow> nat" where
  "cache_cell (CLru c) = mp_cell (lc_pool c)"
| "cache_cell (CSimple c) = sc_cell c"

primrec cache_buf :: "cache \<Rightarrow> nat \<Rightarrow> byte list option" where
  "cache_buf (CLru c) = mp_heap (lc_pool c)"
| "cache_buf (CSimple c) = sc_heap c"

interpretation vc: block_cache cache_ok cache_valid cache_view cache_cell cache_buf "C_SetOrGet g" C_Update
proof (unfold_locales, goal_cases)
  case (1 c k b ld t)
  show ?case
  proof (cases c)
    case (CLru l)
    then show ?thesis using 1 lruc.hit [where c = l and k = k and b = b and g = g and ld = ld and t = t] by fastforce
  next
    case (CSimple l)
    then show ?thesis using 1 simplec.hit [where c = l and k = k and b = b and g = g and ld = ld and t = t] by fastforce
  qed
next
  case (2 c k ld t)
  show ?case
  proof (cases c)
    case (CLru l)
    then show ?thesis using 2(1-3) lruc.miss [where g = g and c = l and k = k and ld = ld and t = t] 2(4) by fastforce
  next
    case (CSimple l)
    then show ?thesis using 2(1-3) simplec.miss [where g = g and c = l and k = k and ld = ld and t = t] 2(4) by fastforce
  qed
next
  case (3 c k pos bs)
  show ?case
  proof (cases c)
    case (CLru l)
    then show ?thesis using 3 lruc.update [where c = l and k = k and pos = pos and bs = bs] by fastforce
  next
    case (CSimple l)
    then show ?thesis using 3 simplec.update [where c = l and k = k and pos = pos and bs = bs] by fastforce
  qed
qed

end
