(* ===== verification/StrBlock.thy ===== *)
theory StrBlock
  imports BlockCache "HOL-Library.Sublist"
begin

text \<open>
  \<open>storage/string_block.cc\<close>: the strings of a segment, written one after the other into a file that
  is cut into blocks of at most 64 KB. \<open>sb_pos\<close> is the vector of block positions (a
  \<open>ConcurrentVector\<close>, here its list of elements), \<open>sb_idx\<close> the index file they are appended to. A
  string is found by its block and its position in the block. All blocks but the last are read
  through the cache. The token of the load function is the read parameter with the content of the
  file its descriptor stands for.
\<close>

record rparam =
  rp_file :: "byte list"
  rp_len :: u32
  rp_offset :: u32

record strblk =
  sb_file :: "byte list"
  sb_pos :: "u32 list"
  sb_idx :: "byte list"
  sb_open :: bool
  sb_can_open :: bool
  sb_per_block :: u32
  sb_seg :: u32
  sb_capacity :: u32

abbreviation MAX_BLOCK_SIZE :: nat where "MAX_BLOCK_SIZE \<equiv> 65536"

definition ReadString :: "u32 \<Rightarrow> byte list \<Rightarrow> rparam \<Rightarrow> (bool \<times> byte list) option" where
  "ReadString key block param =
     (if unat (rp_len param) > MAX_BLOCK_SIZE then Some (False, block)
      else if unat (rp_len param) \<le> length block
      then Some (True, read_into block (pread (rp_file param) (unat (rp_offset param)) (unat (rp_len param))))
      else None)"

definition GetCacheBlockId :: "u32 \<Rightarrow> u32 \<Rightarrow> u32 \<Rightarrow> u32" where
  "GetCacheBlockId seg_id seg_block_capacity block_id = seg_id * seg_block_capacity + block_id"

definition SB_new :: "u32 \<Rightarrow> u32 \<Rightarrow> u32 \<Rightarrow> bool \<Rightarrow> byte list \<Rightarrow> strblk" where
  "SB_new per_block_size seg_id capacity can_open fl = \<lparr>sb_file = fl, sb_pos = [], sb_idx = [], sb_open = False,
     sb_can_open = can_open, sb_per_block = per_block_size, sb_seg = seg_id, sb_capacity = capacity\<rparr>"

text \<open>The read loop of \<open>LoadIndex\<close>; an incomplete record at the end is dropped.\<close>

fun read_index :: "byte list \<Rightarrow> u32 list" where
  "read_index (a # b # c # d # bs) = of_le32 [a, b, c, d] # read_index bs"
| "read_index _ = []"

definition SB_LoadIndex :: "byte list option \<Rightarrow> strblk \<Rightarrow> int \<times> strblk" where
  "SB_LoadIndex fl sb =
     (let s = (case fl of None \<Rightarrow> sb\<lparr>sb_idx := []\<rparr> | Some bs \<Rightarrow> sb\<lparr>sb_idx := bs, sb_pos := sb_pos sb @ read_index bs\<rparr>)
      in if sb_can_open sb then (0, s\<lparr>sb_open := True\<rparr>) else (-1, s\<lparr>sb_open := False\<rparr>))"

definition SB_CloseBlockPosFile :: "strblk \<Rightarrow> int \<times> strblk" where
  "SB_CloseBlockPosFile sb = (if sb_open sb then (0, sb\<lparr>sb_open := False\<rparr>) else (-1, sb))"

definition SB_AddBlockPos :: "u32 \<Rightarrow> strblk \<Rightarrow> int \<times> strblk" where
  "SB_AddBlockPos block_pos sb =
     (let s = sb\<lparr>sb_pos := sb_pos sb @ [block_pos]\<rparr>
      in if \<not> sb_open sb \<and> \<not> sb_can_open sb then (-1, s)
         else let s' = s\<lparr>sb_open := True, sb_idx := sb_idx s @ le32 block_pos\<rparr>
              in (0, if \<not> sb_open sb then snd (SB_CloseBlockPosFile s') else s'))"

definition SB_WriteString :: "byte list \<Rightarrow> u32 \<Rightarrow> strblk \<Rightarrow> u32 \<times> u16 \<times> strblk" where
  "SB_WriteString str start sb =
     (let s1 = sb\<lparr>sb_file := write_at (sb_file sb) (unat start) str\<rparr>;
          s2 = (if sb_pos s1 = [] then snd (SB_AddBlockPos 0 s1) else s1);
          in_block_pos = ucast (start - last (sb_pos s2)) :: u16;
          block_len = (ucast in_block_pos :: u32) + of_nat (length str);
          (s3, ip) = (if block_len \<ge> sb_per_block s2 then (snd (SB_AddBlockPos start s2), 0) else (s2, in_block_pos))
      in (of_nat (length (sb_pos s3)) - 1, ip, s3))"

text \<open>\<open>GetData\<close> of the vector: 0 is left where the index is out of range.\<close>

definition block_at :: "strblk \<Rightarrow> u32 \<Rightarrow> u32" where
  "block_at sb b = (if unat b < length (sb_pos sb) then sb_pos sb ! unat b else 0)"

definition SB_UpdateString :: "byte list \<Rightarrow> u32 \<Rightarrow> u16 \<Rightarrow> cache option \<Rightarrow> strblk \<Rightarrow> (int \<times> cache option \<times> strblk) option" where
  "SB_UpdateString str block_id in_block_pos c sb =
     (if \<not> unat block_id < length (sb_pos sb) \<or> unat in_block_pos + length str > unat (sb_per_block sb)
      then Some (-1, c, sb)
      else let sb' = sb\<lparr>sb_file := write_at (sb_file sb) (unat (block_at sb block_id + ucast in_block_pos)) str\<rparr>
           in (case c of
                 None \<Rightarrow> Some (0, None, sb')
               | Some cc \<Rightarrow> do {
                   cc' \<leftarrow> C_Update (GetCacheBlockId (sb_seg sb) (sb_capacity sb) block_id) str (unat in_block_pos) cc;
                   Some (0, Some cc', sb') }))"

definition direct_string :: "(nat \<Rightarrow> byte) \<Rightarrow> strblk \<Rightarrow> u32 \<Rightarrow> nat \<Rightarrow> byte list" where
  "direct_string g sb off n = read_into (map g [0..<n]) (pread (sb_file sb) (unat off) n)"

definition SB_Read :: "(nat \<Rightarrow> byte) \<Rightarrow> u32 \<Rightarrow> u16 \<Rightarrow> nat \<Rightarrow> cache option \<Rightarrow> strblk \<Rightarrow> (byte list \<times> cache option) option" where
  "SB_Read g block_id in_block_pos n c sb = (case c of
     None \<Rightarrow> Some (direct_string g sb (block_at sb block_id + ucast in_block_pos) n, None)
   | Some cc \<Rightarrow>
       (if block_id + 1 \<ge> of_nat (length (sb_pos sb))
        then Some (direct_string g sb (block_at sb block_id + ucast in_block_pos) n, Some cc)
        else let front = block_at sb block_id; back = block_at sb (block_id + 1);
                 param = \<lparr>rp_file = sb_file sb, rp_len = back - front, rp_offset = front\<rparr>
             in do {
               (res, value, cc') \<leftarrow>
                 C_SetOrGet g ReadString (GetCacheBlockId (sb_seg sb) (sb_capacity sb) block_id) param cc;
               case (res, value) of
                 (True, Some a) \<Rightarrow> do {
                   b \<leftarrow> cache_buf cc' a;
                   str \<leftarrow> mem_slice b (unat in_block_pos) n;
                   Some (str, Some cc') }
               | _ \<Rightarrow> Some (direct_string g sb (block_at sb block_id + ucast in_block_pos) n, Some cc') }))"

subsection \<open>The index file\<close>

lemma read_index_app: "length bs mod 4 = 0 \<Longrightarrow> read_index (bs @ cs) = read_index bs @ read_index cs"
proof (induction bs rule: read_index.induct)
  case (1 a b c d bs)
  then have "length bs mod 4 = 0" by simp
  then show ?case using 1 by simp
qed auto

lemma read_index_le32 [simp]: "read_index (le32 x) = [x]"
  using of_le32_le32 [of x] by (simp add: le32_def)

text \<open>The index file holds the positions of the vector.\<close>

definition idx_ok :: "strblk \<Rightarrow> bool" where
  "idx_ok sb \<longleftrightarrow> read_index (sb_idx sb) = sb_pos sb \<and> length (sb_idx sb) mod 4 = 0"

lemma AddBlockPos_simps [simp]:
  "sb_pos (snd (SB_AddBlockPos p sb)) = sb_pos sb @ [p]"
  "sb_file (snd (SB_AddBlockPos p sb)) = sb_file sb"
  "sb_per_block (snd (SB_AddBlockPos p sb)) = sb_per_block sb"
  "sb_seg (snd (SB_AddBlockPos p sb)) = sb_seg sb"
  "sb_capacity (snd (SB_AddBlockPos p sb)) = sb_capacity sb"
  "sb_can_open (snd (SB_AddBlockPos p sb)) = sb_can_open sb"
  by (simp_all add: SB_AddBlockPos_def SB_CloseBlockPosFile_def Let_def)

lemma AddBlockPos_idx:
  "idx_ok sb \<Longrightarrow> sb_can_open sb \<Longrightarrow> idx_ok (snd (SB_AddBlockPos p sb))"
  by (simp add: idx_ok_def SB_AddBlockPos_def SB_CloseBlockPosFile_def Let_def read_index_app)

text \<open>Reloading the index file gives the positions back.\<close>

lemma LoadIndex_restores:
  assumes "idx_ok sb" "sb_can_open sb"
  shows "SB_LoadIndex (Some (sb_idx sb)) (SB_new (sb_per_block sb) (sb_seg sb) (sb_capacity sb) True (sb_file sb)) =
    (0, sb\<lparr>sb_open := True\<rparr>)"
  using assms by (simp add: SB_LoadIndex_def SB_new_def idx_ok_def)

subsection \<open>The blocks of the file\<close>

text \<open>\<open>e\<close> is where the next string goes. The blocks follow each other and none is longer than 65535.\<close>

definition sb_ok :: "strblk \<Rightarrow> nat \<Rightarrow> bool" where
  "sb_ok sb e \<longleftrightarrow> 0 < unat (sb_per_block sb) \<and> unat (sb_per_block sb) \<le> MAX_BLOCK_SIZE \<and>
     e \<le> length (sb_file sb) \<and> e < 4294967296 \<and> (sb_pos sb = [] \<longrightarrow> e = 0) \<and>
     (sb_pos sb \<noteq> [] \<longrightarrow> unat (last (sb_pos sb)) \<le> e \<and> e \<le> unat (last (sb_pos sb)) + 65535) \<and>
     (\<forall>i. Suc i < length (sb_pos sb) \<longrightarrow> unat (sb_pos sb ! i) \<le> unat (sb_pos sb ! Suc i) \<and>
        unat (sb_pos sb ! Suc i) \<le> unat (sb_pos sb ! i) + 65535)"

definition block_end :: "strblk \<Rightarrow> nat \<Rightarrow> nat \<Rightarrow> nat" where
  "block_end sb e i = (if Suc i < length (sb_pos sb) then unat (sb_pos sb ! Suc i) else e)"

text \<open>The string \<open>s\<close> is stored at a position of a block.\<close>

definition located :: "strblk \<Rightarrow> nat \<Rightarrow> u32 \<Rightarrow> u16 \<Rightarrow> byte list \<Rightarrow> bool" where
  "located sb e b ip s \<longleftrightarrow> unat b < length (sb_pos sb) \<and>
     unat (sb_pos sb ! unat b) + unat ip + length s \<le> block_end sb e (unat b) \<and>
     pread (sb_file sb) (unat (sb_pos sb ! unat b) + unat ip) (length s) = s"

lemma unat_of_nat32: "n < 4294967296 \<Longrightarrow> unat (of_nat n :: u32) = n"
  by (simp add: unsigned_of_nat take_bit_nat_eq_self_iff)

lemma unat_diff32: "unat (b :: u32) \<le> unat a \<Longrightarrow> unat (a - b) = unat a - unat b"
  by (simp add: unat_sub word_le_nat_alt)

lemma unat_ucast16: "unat (x :: u32) < 65536 \<Longrightarrow> unat (ucast x :: u16) = unat x"
  by (simp add: unsigned_ucast_eq take_bit_nat_eq_self_iff)

lemma unat_ucast32 [simp]: "unat (ucast (x :: u16) :: u32) = unat x"
  by (simp add: unsigned_ucast_eq take_bit_nat_eq_self_iff less_trans [OF unsigned_less])

lemma unat_u16_less: "unat (x :: u16) < 65536"
  using unsigned_less [of x, where ?'a = nat] by simp

lemma last_block_end: "sb_pos sb \<noteq> [] \<Longrightarrow> block_end sb e (length (sb_pos sb) - Suc 0) = e"
  by (simp add: block_end_def)

text \<open>Within the file, blocks end before \<open>e\<close>.\<close>

lemma pos_mono:
  assumes "sb_ok sb e"
  shows "i \<le> j \<Longrightarrow> j < length (sb_pos sb) \<Longrightarrow> unat (sb_pos sb ! i) \<le> unat (sb_pos sb ! j)"
proof (induction j)
  case (Suc j)
  then show ?case using assms by (cases "i = Suc j") (auto simp: sb_ok_def intro: le_trans)
qed simp

lemma block_end_le:
  assumes "sb_ok sb e" "i < length (sb_pos sb)"
  shows "block_end sb e i \<le> e" "unat (sb_pos sb ! i) \<le> block_end sb e i" "block_end sb e i \<le> unat (sb_pos sb ! i) + 65535"
proof -
  have n: "sb_pos sb \<noteq> []" using assms(2) by auto
  have "unat (last (sb_pos sb)) \<le> e" using assms(1) n by (simp add: sb_ok_def)
  moreover have "unat (sb_pos sb ! j) \<le> unat (last (sb_pos sb))" if "j < length (sb_pos sb)" for j
    using pos_mono [OF assms(1), of j "length (sb_pos sb) - 1"] that n by (simp add: last_conv_nth)
  ultimately show "block_end sb e i \<le> e" by (force simp: block_end_def)
  show "unat (sb_pos sb ! i) \<le> block_end sb e i" "block_end sb e i \<le> unat (sb_pos sb ! i) + 65535"
  proof (atomize (full), cases "Suc i < length (sb_pos sb)")
    case True
    then show "unat (sb_pos sb ! i) \<le> block_end sb e i \<and> block_end sb e i \<le> unat (sb_pos sb ! i) + 65535"
      using assms(1) by (simp add: block_end_def sb_ok_def)
  next
    case False
    then have "i = length (sb_pos sb) - 1" using assms(2) by simp
    then show "unat (sb_pos sb ! i) \<le> block_end sb e i \<and> block_end sb e i \<le> unat (sb_pos sb ! i) + 65535"
      using assms(1) n by (simp add: block_end_def sb_ok_def last_conv_nth)
  qed
qed

text \<open>Writing a string at the end: it is found at the returned position, and so are the others.\<close>

definition new_pos :: "strblk \<Rightarrow> nat \<Rightarrow> nat \<Rightarrow> u32 list" where
  "new_pos sb e n =
     (let p = (if sb_pos sb = [] then [0] else sb_pos sb)
      in if unat (sb_per_block sb) \<le> e - unat (last p) + n then p @ [of_nat e] else p)"

lemma WriteString_spec:
  assumes ok: "sb_ok sb e" and v: "length v \<le> 65535" "e + length v < 4294967296" "length (sb_pos sb) + 2 < 4294967296"
  shows "\<exists>b ip sb'. SB_WriteString v (of_nat e) sb = (b, ip, sb') \<and> sb_ok sb' (e + length v) \<and> located sb' (e + length v) b ip v \<and>
    unat b = length (sb_pos sb') - 1 \<and> prefix (sb_pos sb) (sb_pos sb') \<and> length (sb_pos sb') \<le> length (sb_pos sb) + 2 \<and>
    sb_file sb' = write_at (sb_file sb) e v \<and> sb_seg sb' = sb_seg sb \<and> sb_capacity sb' = sb_capacity sb \<and>
    sb_per_block sb' = sb_per_block sb \<and> sb_can_open sb' = sb_can_open sb \<and>
    (sb_pos sb \<noteq> [] \<longrightarrow> sb_pos sb' = sb_pos sb \<or> sb_pos sb' = sb_pos sb @ [of_nat e]) \<and>
    sb_pos sb' = new_pos sb e (length v)"
proof -
  define s1 where "s1 = sb\<lparr>sb_file := write_at (sb_file sb) e v\<rparr>"
  define s2 where "s2 = (if sb_pos s1 = [] then snd (SB_AddBlockPos 0 s1) else s1)"
  define p where "p = (if sb_pos sb = [] then [0] else sb_pos sb)"
  have s2: "sb_pos s2 = p" "sb_file s2 = write_at (sb_file sb) e v" "sb_seg s2 = sb_seg sb" "sb_capacity s2 = sb_capacity sb"
    "sb_per_block s2 = sb_per_block sb" "sb_can_open s2 = sb_can_open sb"
    by (simp_all add: s2_def s1_def p_def)
  have p: "p \<noteq> []" "unat (last p) \<le> e" "e \<le> unat (last p) + 65535" "prefix (sb_pos sb) p" "length p \<le> length (sb_pos sb) + 1"
    using ok by (auto simp: p_def sb_ok_def)
  have ch: "unat (p ! i) \<le> unat (p ! Suc i) \<and> unat (p ! Suc i) \<le> unat (p ! i) + 65535" if "Suc i < length p" for i
    using that ok by (auto simp: p_def sb_ok_def split: if_splits)
  have ue: "unat (of_nat e :: u32) = e" using ok by (intro unat_of_nat32) (simp add: sb_ok_def)
  define ip where "ip = (ucast (of_nat e - last p) :: u16)"
  have "unat (of_nat e - last p) = e - unat (last p)" using p(2) ue by (simp add: unat_diff32)
  then have ip: "unat ip = e - unat (last p)" unfolding ip_def using p(3) by (simp add: unat_ucast16)
  have bl: "unat ((ucast ip :: u32) + of_nat (length v)) = e - unat (last p) + length v"
  proof -
    have "unat (of_nat (length v) :: u32) = length v" using v(1) by (intro unat_of_nat32) simp
    then show ?thesis using ip p(3) v(1) by (simp add: unat_word_ariths)
  qed
  have fl: "e + length v \<le> length (write_at (sb_file sb) e v)" by simp
  have rd: "pread (write_at (sb_file sb) e v) e (length v) = v" by (rule pread_write_same)
  have pb: "0 < unat (sb_per_block sb)" "unat (sb_per_block sb) \<le> 65536" using ok by (simp_all add: sb_ok_def)
  let ?c = "unat (sb_per_block sb) \<le> e - unat (last p) + length v"
  define s3 where "s3 = (if ?c then snd (SB_AddBlockPos (of_nat e) s2) else s2)"
  define ip' where "ip' = (if ?c then 0 else ip)"
  have w: "SB_WriteString v (of_nat e) sb = (of_nat (length (sb_pos s3)) - 1, ip', s3)"
    unfolding SB_WriteString_def Let_def ue s1_def [symmetric] s2_def [symmetric] s2(1) ip_def [symmetric]
    by (simp add: word_le_nat_alt bl s2(5) s3_def ip'_def)
  have s3: "sb_pos s3 = (if ?c then p @ [of_nat e] else p)" "sb_file s3 = write_at (sb_file sb) e v" "sb_seg s3 = sb_seg sb"
    "sb_capacity s3 = sb_capacity sb" "sb_per_block s3 = sb_per_block sb" "sb_can_open s3 = sb_can_open sb"
    by (simp_all add: s3_def s2)
  have len: "0 < length (sb_pos s3)" "length (sb_pos s3) \<le> length (sb_pos sb) + 2" using p(1,5) by (auto simp: s3(1))
  have ub: "unat (of_nat (length (sb_pos s3)) - 1 :: u32) = length (sb_pos s3) - 1"
  proof -
    have "unat (of_nat (length (sb_pos s3)) :: u32) = length (sb_pos s3)" using v(3) len(2) by (intro unat_of_nat32) simp
    then show ?thesis using len(1) unat_pred [of "of_nat (length (sb_pos s3))"] by simp
  qed
  have ls: "unat (last (sb_pos s3)) = (if ?c then e else unat (last p))" by (simp add: s3(1) ue)
  have chain: "unat (sb_pos s3 ! i) \<le> unat (sb_pos s3 ! Suc i) \<and> unat (sb_pos s3 ! Suc i) \<le> unat (sb_pos s3 ! i) + 65535"
    if i: "Suc i < length (sb_pos s3)" for i
  proof (cases "Suc i < length p")
    case True
    then show ?thesis using ch [OF True] by (simp add: s3(1) nth_append)
  next
    case False
    then have "?c" "Suc i = length p" using i by (auto simp: s3(1) split: if_splits)
    moreover have "p ! i = last p" using calculation(2) p(1) by (metis diff_Suc_1 last_conv_nth)
    ultimately show ?thesis using p(2,3) ue by (simp add: s3(1) nth_append)
  qed
  have "sb_ok s3 (e + length v)"
    unfolding sb_ok_def using pb fl v p(1,2) ls chain len(1) by (auto simp: s3(2,5) split: if_splits)
  moreover have "located s3 (e + length v) (of_nat (length (sb_pos s3)) - 1) ip' v"
  proof -
    have n: "sb_pos s3 ! (length (sb_pos s3) - 1) = last (sb_pos s3)" using len(1) by (simp add: last_conv_nth)
    have "unat (last (sb_pos s3)) + unat ip' = e" using ls ip p(2) by (simp add: ip'_def)
    then show ?thesis using len(1) rd n by (simp add: located_def ub s3(2) last_block_end)
  qed
  moreover have "prefix (sb_pos sb) (sb_pos s3)" using p(4) by (auto simp: s3(1) prefix_def)
  moreover have "sb_pos sb \<noteq> [] \<longrightarrow> sb_pos s3 = sb_pos sb \<or> sb_pos s3 = sb_pos sb @ [of_nat e]"
    by (simp add: s3(1) p_def)
  moreover have "sb_pos s3 = new_pos sb e (length v)" by (simp add: s3(1) new_pos_def Let_def flip: p_def)
  ultimately show ?thesis using w ub len(2) s3(2-6)
    by (intro exI [of _ "of_nat (length (sb_pos s3)) - 1"] exI [of _ ip'] exI [of _ s3]) simp
qed

lemma located_kept:
  assumes ok: "sb_ok sb e" and l: "located sb e b ip s" and w: "SB_WriteString v (of_nat e) sb = (b', ip', sb')"
    and v: "length v \<le> 65535" "e + length v < 4294967296" "length (sb_pos sb) + 2 < 4294967296"
  shows "located sb' (e + length v) b ip s"
proof -
  have b: "unat b < length (sb_pos sb)" using l by (simp add: located_def)
  then have ne: "sb_pos sb \<noteq> []" by auto
  have f: "sb_file sb' = write_at (sb_file sb) e v" "prefix (sb_pos sb) (sb_pos sb')"
    "sb_pos sb' = sb_pos sb \<or> sb_pos sb' = sb_pos sb @ [of_nat e]"
    using WriteString_spec [OF ok v] w ne by auto
  obtain q where q: "sb_pos sb' = sb_pos sb @ q" using f(2) by (auto simp: prefix_def)
  have be: "block_end sb e (unat b) \<le> block_end sb' (e + length v) (unat b)"
  proof (cases "Suc (unat b) < length (sb_pos sb)")
    case True
    then show ?thesis by (simp add: block_end_def q nth_append)
  next
    case False
    then have "Suc (unat b) = length (sb_pos sb)" using b by simp
    moreover have "unat (of_nat e :: u32) = e" using ok by (intro unat_of_nat32) (simp add: sb_ok_def)
    ultimately show ?thesis using f(3) by (auto simp: block_end_def nth_append)
  qed
  have "unat (sb_pos sb ! unat b) + unat ip + length s \<le> e"
    using l block_end_le(1) [OF ok b] by (simp add: located_def)
  moreover have "e \<le> length (sb_file sb)" using ok by (simp add: sb_ok_def)
  ultimately have "pread (sb_file sb') (unat (sb_pos sb ! unat b) + unat ip) (length s) =
      pread (sb_file sb) (unat (sb_pos sb ! unat b) + unat ip) (length s)"
    unfolding f(1) by (intro pread_write_other) auto
  then show ?thesis using l b be by (simp add: located_def q nth_append)
qed

subsection \<open>Reading through the cache\<close>

definition sb_key :: "strblk \<Rightarrow> nat \<Rightarrow> u32" where
  "sb_key sb i = GetCacheBlockId (sb_seg sb) (sb_capacity sb) (of_nat i)"

definition sb_block :: "strblk \<Rightarrow> nat \<Rightarrow> byte list" where
  "sb_block sb i = pread (sb_file sb) (unat (sb_pos sb ! i)) (unat (sb_pos sb ! Suc i) - unat (sb_pos sb ! i))"

text \<open>\<open>D\<close> holds the complete blocks of the segment under their keys, and nothing under the keys of
  the last block and of blocks to come.\<close>

definition sb_disk :: "strblk \<Rightarrow> (u32 \<Rightarrow> byte list option) \<Rightarrow> bool" where
  "sb_disk sb D \<longleftrightarrow> length (sb_pos sb) \<le> unat (sb_capacity sb) \<and>
     (\<forall>i < unat (sb_capacity sb). D (sb_key sb i) = (if Suc i < length (sb_pos sb) then Some (sb_block sb i) else None))"

definition cache_fits :: "cache \<Rightarrow> strblk \<Rightarrow> bool" where
  "cache_fits c sb \<longleftrightarrow> cache_ok c \<and> cache_cell c = MAX_BLOCK_SIZE \<and> (\<forall>i < unat (sb_capacity sb). cache_valid c (sb_key sb i))"

lemma block_next:
  fixes b :: u32
  assumes "unat b < length (sb_pos sb)" "length (sb_pos sb) < 4294967296"
  shows "b + 1 \<ge> of_nat (length (sb_pos sb)) \<longleftrightarrow> length (sb_pos sb) \<le> Suc (unat b)"
    and "unat (b + 1) = Suc (unat b)"
proof -
  show u: "unat (b + 1) = Suc (unat b)" using assms unat_succ [of b] by simp
  have "unat (of_nat (length (sb_pos sb)) :: u32) = length (sb_pos sb)" using assms(2) by (rule unat_of_nat32)
  then show "b + 1 \<ge> of_nat (length (sb_pos sb)) \<longleftrightarrow> length (sb_pos sb) \<le> Suc (unat b)"
    by (simp add: word_le_nat_alt u)
qed

lemma located_offset:
  assumes ok: "sb_ok sb e" and l: "located sb e b ip s"
  shows "block_at sb b = sb_pos sb ! unat b"
    "unat (block_at sb b + ucast ip) = unat (sb_pos sb ! unat b) + unat ip"
    "unat (sb_pos sb ! unat b) + unat ip + length s \<le> length (sb_file sb)"
proof -
  have b: "unat b < length (sb_pos sb)" using l by (simp add: located_def)
  then show ba: "block_at sb b = sb_pos sb ! unat b" by (simp add: block_at_def)
  have "unat (sb_pos sb ! unat b) + unat ip + length s \<le> e" using l block_end_le(1) [OF ok b] by (simp add: located_def)
  then show "unat (sb_pos sb ! unat b) + unat ip + length s \<le> length (sb_file sb)"
    "unat (block_at sb b + ucast ip) = unat (sb_pos sb ! unat b) + unat ip"
    using ok by (simp_all add: sb_ok_def ba unat_word_ariths)
qed

lemma direct_string_ok:
  assumes ok: "sb_ok sb e" and l: "located sb e b ip s"
  shows "direct_string g sb (block_at sb b + ucast ip) (length s) = s"
  using l located_offset [OF ok l] by (simp add: direct_string_def read_into_full located_def)

lemma ReadString_loads:
  assumes "unat len = length d" "length d \<le> MAX_BLOCK_SIZE" "pread fl (unat off) (length d) = d"
  shows "vc.loads ReadString k \<lparr>rp_file = fl, rp_len = len, rp_offset = off\<rparr> d"
  using assms by (simp add: vc.loads_def ReadString_def read_into_def)

lemma SB_Read_uncached:
  assumes "sb_ok sb e" "located sb e b ip s"
  shows "SB_Read g b ip (length s) None sb = Some (s, None)"
  using direct_string_ok [OF assms] by (simp add: SB_Read_def)

lemma SB_Read_spec:
  assumes ok: "sb_ok sb e" and l: "located sb e b ip s"
    and c: "cache_fits c sb" "vc.coherent D c" and D: "sb_disk sb D"
  shows "\<exists>c'. SB_Read g b ip (length s) (Some c) sb = Some (s, Some c') \<and> cache_fits c' sb \<and> vc.coherent D c' \<and> cache_valid c' = cache_valid c"
proof -
  let ?i = "unat b"
  have b: "?i < length (sb_pos sb)" using l by (simp add: located_def)
  have cap: "length (sb_pos sb) \<le> unat (sb_capacity sb)" using D by (simp add: sb_disk_def)
  then have n: "length (sb_pos sb) < 4294967296" using unat_u32_less [of "sb_capacity sb"] by simp
  note off = located_offset [OF ok l]
  show ?thesis
  proof (cases "length (sb_pos sb) \<le> Suc ?i")
    case True
    then show ?thesis using block_next(1) [OF b n] direct_string_ok [OF ok l] c by (auto simp: SB_Read_def)
  next
    case False
    then have i: "Suc ?i < length (sb_pos sb)" by simp
    let ?k = "GetCacheBlockId (sb_seg sb) (sb_capacity sb) b"
    let ?d = "sb_block sb ?i"
    let ?P = "\<lparr>rp_file = sb_file sb, rp_len = block_at sb (b + 1) - block_at sb b, rp_offset = block_at sb b\<rparr>"
    have k: "?k = sb_key sb ?i" by (simp add: sb_key_def)
    have ba: "block_at sb (b + 1) = sb_pos sb ! Suc ?i" using i block_next(2) [OF b n] by (simp add: block_at_def)
    have be: "block_end sb e ?i = unat (sb_pos sb ! Suc ?i)" using i by (simp add: block_end_def)
    note bl = block_end_le [OF ok b, unfolded be]
    have fe: "e \<le> length (sb_file sb)" using ok by (simp add: sb_ok_def)
    have ld: "length ?d = unat (sb_pos sb ! Suc ?i) - unat (sb_pos sb ! ?i)"
      using bl(1,2) fe by (simp add: sb_block_def length_pread)
    then have "vc.loads ReadString ?k ?P ?d"
      using bl off(1) ba by (intro ReadString_loads) (simp_all add: unat_diff32 sb_block_def)
    moreover have "D ?k = Some ?d" "cache_valid c ?k" "cache_ok c" "length ?d \<le> cache_cell c"
      using D i cap c(1) ld bl(3) by (simp_all add: k sb_disk_def cache_fits_def)
    ultimately obtain a c' w where g: "C_SetOrGet g ReadString ?k ?P c = Some (True, Some a, c')" "cache_ok c'"
      "cache_valid c' = cache_valid c" "cache_cell c' = cache_cell c" "vc.coherent D c'"
      "cache_buf c' a = Some w" "length w = cache_cell c" "take (length ?d) w = ?d"
      using vc.get_coherent [where c = c and k = ?k and D = D and d = ?d and g = g and ld = ReadString and t = ?P] c(2) by blast
    have "unat (sb_pos sb ! ?i) + unat ip + length s \<le> unat (sb_pos sb ! Suc ?i)" using l by (simp add: located_def be)
    then have s: "unat ip + length s \<le> length ?d" unfolding ld by linarith
    have "take (length s) (drop (unat ip) w) = pread (take (length ?d) w) (unat ip) (length s)"
      using s by (simp add: pread_def drop_take min_def)
    also have "\<dots> = s" unfolding g(8) using l s ld by (simp add: sb_block_def pread_pread located_def)
    finally have "mem_slice w (unat ip) (length s) = Some s"
      using s g(7) ld bl(3) c(1) by (simp add: mem_slice_Some cache_fits_def)
    then have "SB_Read g b ip (length s) (Some c) sb = Some (s, Some c')"
      using g(1,6) block_next(1) [OF b n] False by (simp add: SB_Read_def Let_def)
    moreover have "cache_fits c' sb" using c(1) g by (simp add: cache_fits_def)
    ultimately show ?thesis using g(3,5) by blast
  qed
qed

subsection \<open>Overwriting a string in place\<close>

lemma splice_prefix: "length v \<le> length s \<Longrightarrow> splice 0 v s = v @ drop (length v) s"
  by (simp add: splice_def)

lemma sb_block_cong:
  "sb_pos sb' = sb_pos sb \<Longrightarrow> sb_seg sb' = sb_seg sb \<Longrightarrow> sb_capacity sb' = sb_capacity sb \<Longrightarrow> sb_key sb' = sb_key sb"
  by (simp add: sb_key_def fun_eq_iff)

lemma sb_key_inj:
  assumes "sb_key sb i = sb_key sb j" "i < 4294967296" "j < 4294967296"
  shows "i = j"
proof -
  have "(of_nat i :: u32) = of_nat j" using assms(1) by (simp add: sb_key_def GetCacheBlockId_def)
  then have "unat (of_nat i :: u32) = unat (of_nat j :: u32)" by simp
  then show ?thesis using assms(2,3) by (simp only: unat_of_nat32)
qed

text \<open>The string, or its prefix when the new one is shorter, is replaced; strings that do not overlap
  it keep their content; the cache follows.\<close>

lemma SB_UpdateString_spec:
  assumes ok: "sb_ok sb e" and l: "located sb e b ip s" and v: "length v \<le> length s"
    and pb: "unat ip + length v \<le> unat (sb_per_block sb)"
    and c: "case c of None \<Rightarrow> True | Some cc \<Rightarrow> cache_fits cc sb \<and> vc.coherent D cc" and D: "sb_disk sb D"
  shows "\<exists>c' sb' D'. SB_UpdateString v b ip c sb = Some (0, c', sb') \<and> sb_ok sb' e \<and>
    located sb' e b ip (v @ drop (length v) s) \<and> sb_disk sb' D' \<and>
    (case c' of None \<Rightarrow> c = None | Some cc \<Rightarrow> cache_fits cc sb' \<and> vc.coherent D' cc) \<and>
    sb_pos sb' = sb_pos sb \<and>
    (\<forall>b2 ip2 s2. located sb e b2 ip2 s2 \<longrightarrow>
      unat (sb_pos sb ! unat b2) + unat ip2 + length s2 \<le> unat (sb_pos sb ! unat b) + unat ip \<or>
      unat (sb_pos sb ! unat b) + unat ip + length v \<le> unat (sb_pos sb ! unat b2) + unat ip2 \<longrightarrow> located sb' e b2 ip2 s2)"
proof -
  let ?i = "unat b" and ?P = "\<lambda>i. unat (sb_pos sb ! i)"
  let ?off = "?P ?i + unat ip"
  let ?sb = "sb\<lparr>sb_file := write_at (sb_file sb) ?off v\<rparr>"
  have b: "?i < length (sb_pos sb)" using l by (simp add: located_def)
  note off = located_offset [OF ok l]
  have fe: "e \<le> length (sb_file sb)" using ok by (simp add: sb_ok_def)
  have end1: "?off + length s \<le> block_end sb e ?i" using l by (simp add: located_def)
  have lf: "length (sb_file ?sb) = length (sb_file sb)" using off(3) v by simp
  have ok': "sb_ok ?sb e" using ok lf by (simp add: sb_ok_def)
  have be: "block_end ?sb e = block_end sb e" by (simp add: block_end_def fun_eq_iff)
  have here: "located ?sb e b ip (v @ drop (length v) s)"
  proof -
    have "pread (write_at (sb_file sb) ?off v) ?off (length s) = splice 0 v (pread (sb_file sb) ?off (length s))"
      using pread_write_inside [of ?off ?off v "length s" "sb_file sb"] off(3) v by simp
    also have "\<dots> = v @ drop (length v) s" using l v by (simp add: located_def splice_prefix)
    finally show ?thesis using l v by (simp add: located_def be)
  qed
  have others: "located ?sb e b2 ip2 s2" if l2: "located sb e b2 ip2 s2"
    and dj: "?P (unat b2) + unat ip2 + length s2 \<le> ?off \<or> ?off + length v \<le> ?P (unat b2) + unat ip2" for b2 ip2 s2
    using l2 dj located_offset(3) [OF ok l2] by (auto simp: located_def be pread_write_other)
  have "\<exists>D' c'. SB_UpdateString v b ip c sb = Some (0, c', ?sb) \<and> sb_disk ?sb D' \<and>
    (case c' of None \<Rightarrow> c = None | Some cc \<Rightarrow> cache_fits cc ?sb \<and> vc.coherent D' cc)"
  proof -
    have cap: "length (sb_pos sb) \<le> unat (sb_capacity sb)" using D by (simp add: sb_disk_def)
    have key: "sb_key ?sb = sb_key sb" by (rule sb_block_cong) simp_all
    define D' where "D' = (if Suc ?i < length (sb_pos sb) then D(sb_key sb ?i \<mapsto> splice (unat ip) v (sb_block sb ?i)) else D)"
    have blk: "sb_block ?sb j = (if j = ?i then splice (unat ip) v (sb_block sb j) else sb_block sb j)"
      if j: "Suc j < length (sb_pos sb)" for j
    proof -
      have j': "j < length (sb_pos sb)" and bj: "block_end sb e j = ?P (Suc j)" using j by (simp_all add: block_end_def)
      note bl = block_end_le [OF ok j', unfolded bj]
      have m: "?P j + (?P (Suc j) - ?P j) \<le> length (sb_file sb)" using bl(1,2) fe by simp
      consider "j = ?i" | "Suc j \<le> ?i" | "Suc ?i \<le> j" by linarith
      then show ?thesis
      proof cases
        case 1
        then have "?off + length v \<le> ?P j + (?P (Suc j) - ?P j)" using end1 v bl(2) bj by simp
        then show ?thesis using pread_write_inside [of "?P j" ?off v, OF _ _ m] 1 by (simp add: sb_block_def)
      next
        case 2
        then have "?P (Suc j) \<le> ?P ?i" using pos_mono [OF ok 2 b] by simp
        then show ?thesis using 2 m bl(2) by (simp add: sb_block_def pread_write_other)
      next
        case 3
        then have "block_end sb e ?i \<le> ?P j" using pos_mono [OF ok 3 j'] j by (simp add: block_end_def)
        then have "?off + length v \<le> ?P j" using end1 v by simp
        then show ?thesis using 3 m by (simp add: sb_block_def pread_write_other)
      qed
    qed
    have ci: "j < unat (sb_capacity sb) \<Longrightarrow> sb_key sb j = sb_key sb ?i \<longleftrightarrow> j = ?i" for j
      using sb_key_inj [of sb j ?i] unat_u32_less [of "sb_capacity sb"] unat_u32_less [of b] by auto
    have D': "sb_disk ?sb D'"
      using D blk ci unfolding sb_disk_def key by (simp add: D'_def)
    show ?thesis
    proof (cases c)
      case None
      then show ?thesis using b pb D' off by (auto simp: SB_UpdateString_def Let_def)
    next
      case (Some cc)
      then have cc: "cache_ok cc" "cache_cell cc = MAX_BLOCK_SIZE" "vc.coherent D cc" "cache_valid cc (sb_key sb ?i)"
        and fits: "cache_fits cc sb" using c b cap by (simp_all add: cache_fits_def)
      have k: "GetCacheBlockId (sb_seg sb) (sb_capacity sb) b = sb_key sb ?i" by (simp add: sb_key_def)
      have sz: "unat ip + length v \<le> cache_cell cc" using pb ok cc(2) by (simp add: sb_ok_def)
      have "\<exists>c'. C_Update (sb_key sb ?i) v (unat ip) cc = Some c' \<and> cache_ok c' \<and> cache_valid c' = cache_valid cc \<and>
        cache_cell c' = cache_cell cc \<and> vc.coherent D' c'"
      proof (cases "Suc ?i < length (sb_pos sb)")
        case True
        then have be1: "block_end sb e ?i = ?P (Suc ?i)" by (simp add: block_end_def)
        note bl = block_end_le [OF ok b, unfolded be1]
        have ld: "length (sb_block sb ?i) = ?P (Suc ?i) - ?P ?i"
          using bl(1,2) fe by (simp add: sb_block_def length_pread)
        have "D (sb_key sb ?i) = Some (sb_block sb ?i)" using D True b cap by (simp add: sb_disk_def)
        moreover have "unat ip + length v \<le> length (sb_block sb ?i)" "length (sb_block sb ?i) \<le> cache_cell cc"
          using end1 v bl ld cc(2) by (simp_all add: be1)
        ultimately show ?thesis using vc.upd_coherent [OF cc(1,4,3), of "sb_block sb ?i" "unat ip" v] True by (simp add: D'_def)
      next
        case False
        then have "D (sb_key sb ?i) = None" using D b cap by (simp add: sb_disk_def)
        then show ?thesis using vc.upd_absent [OF cc(1,4,3) _ sz] False by (simp add: D'_def)
      qed
      then obtain c' where c': "C_Update (sb_key sb ?i) v (unat ip) cc = Some c'" "cache_ok c'" "cache_valid c' = cache_valid cc"
        "cache_cell c' = cache_cell cc" "vc.coherent D' c'" by blast
      have "cache_fits c' ?sb" using fits c' by (simp add: cache_fits_def key)
      then show ?thesis using Some b pb D' off c' by (auto simp: SB_UpdateString_def Let_def k)
    qed
  qed
  then obtain D' c' where "SB_UpdateString v b ip c sb = Some (0, c', ?sb)" "sb_disk ?sb D'"
    "case c' of None \<Rightarrow> c = None | Some cc \<Rightarrow> cache_fits cc ?sb \<and> vc.coherent D' cc" by blast
  moreover have "sb_pos ?sb = sb_pos sb" by simp
  ultimately show ?thesis using ok' here others by blast
qed

subsection \<open>Blocks are completed\<close>

text \<open>A write may complete the last block; the complete blocks do not change, so a cache that agreed
  with the disk still does.\<close>

text \<open>Writing a string leaves the complete blocks as they are.\<close>

lemma WriteString_blocks:
  assumes ok: "sb_ok sb e" and w: "SB_WriteString v (of_nat e) sb = (b, ip, sb')"
    and v: "length v \<le> 65535" "e + length v < 4294967296" "length (sb_pos sb) + 2 < 4294967296"
    and i: "Suc i < length (sb_pos sb)"
  shows "sb_block sb' i = sb_block sb i"
proof -
  have f: "sb_file sb' = write_at (sb_file sb) e v" "prefix (sb_pos sb) (sb_pos sb')"
    using WriteString_spec [OF ok v] w by auto
  obtain q where q: "sb_pos sb' = sb_pos sb @ q" using f(2) by (auto simp: prefix_def)
  have b: "block_end sb e i = unat (sb_pos sb ! Suc i)" "i < length (sb_pos sb)" using i by (simp_all add: block_end_def)
  have "e \<le> length (sb_file sb)" using ok by (simp add: sb_ok_def)
  then show ?thesis using block_end_le [OF ok b(2)] i
    by (simp add: b(1) sb_block_def q nth_append f(1) pread_write_other)
qed

lemma WriteString_disk:
  assumes ok: "sb_ok sb e" and w: "SB_WriteString v (of_nat e) sb = (b, ip, sb')"
    and v: "length v \<le> 65535" "e + length v < 4294967296" "length (sb_pos sb) + 2 < 4294967296"
    and D: "sb_disk sb D" and cap: "length (sb_pos sb') \<le> unat (sb_capacity sb)"
  shows "\<exists>D'. D \<subseteq>\<^sub>m D' \<and> sb_disk sb' D'"
proof -
  have f: "sb_file sb' = write_at (sb_file sb) e v" "prefix (sb_pos sb) (sb_pos sb')" "sb_seg sb' = sb_seg sb"
    "sb_capacity sb' = sb_capacity sb"
    using WriteString_spec [OF ok v] w by auto
  obtain q where q: "sb_pos sb' = sb_pos sb @ q" using f(2) by (auto simp: prefix_def)
  have key: "sb_key sb' = sb_key sb" using f by (simp add: sb_key_def fun_eq_iff)
  let ?n = "length (sb_pos sb') - 1"
  let ?kv = "map (\<lambda>i. (sb_key sb i, sb_block sb' i)) [0..<?n]"
  have inj: "sb_key sb i = sb_key sb j \<longleftrightarrow> i = j" if "i < unat (sb_capacity sb)" "j < unat (sb_capacity sb)" for i j
    using sb_key_inj [of sb i j] that unat_u32_less [of "sb_capacity sb"] by auto
  have d: "distinct (map fst ?kv)"
    using cap inj by (simp add: comp_def distinct_map inj_on_def)
  have mo: "map_of ?kv (sb_key sb i) = (if Suc i < length (sb_pos sb') then Some (sb_block sb' i) else None)"
    if i: "i < unat (sb_capacity sb)" for i
  proof (cases "Suc i < length (sb_pos sb')")
    case True
    then have "(sb_key sb i, sb_block sb' i) \<in> set ?kv" by auto
    then show ?thesis using True map_of_is_SomeI [OF d] by simp
  next
    case False
    then have "sb_key sb i \<notin> fst ` set ?kv" using inj cap i by auto
    then show ?thesis using False by (simp add: map_of_eq_None_iff)
  qed
  have blk: "sb_block sb' i = sb_block sb i" if i: "Suc i < length (sb_pos sb)" for i
    by (rule WriteString_blocks [OF ok w v i])
  have Dk: "D (sb_key sb i) = (if Suc i < length (sb_pos sb) then Some (sb_block sb i) else None)"
    if "i < unat (sb_capacity sb)" for i
    using D that by (simp add: sb_disk_def)
  let ?D = "D ++ map_of ?kv"
  have k: "?D (sb_key sb i) = (if Suc i < length (sb_pos sb') then Some (sb_block sb' i) else None)"
    if i: "i < unat (sb_capacity sb)" for i
    using mo [OF i] Dk [OF i] by (simp add: map_add_def q)
  have "D \<subseteq>\<^sub>m ?D"
    unfolding map_le_def
  proof
    fix x assume "x \<in> dom D"
    then obtain d where x: "D x = Some d" by blast
    show "D x = ?D x"
    proof (cases "map_of ?kv x")
      case None
      then show ?thesis by (simp add: map_add_def)
    next
      case (Some y)
      then have "(x, y) \<in> set ?kv" by (rule map_of_SomeD)
      then obtain i where i: "i < ?n" "x = sb_key sb i" by auto
      then have c: "i < unat (sb_capacity sb)" using cap by simp
      then have "Suc i < length (sb_pos sb)" using Dk [OF c] x i(2) by (simp split: if_splits)
      then show ?thesis using Dk [OF c] k [OF c] i blk q by simp
    qed
  qed
  moreover have "sb_disk sb' ?D" using k cap f(4) unfolding sb_disk_def key by simp
  ultimately show ?thesis by blast
qed

end
