(* ===== verification/ItemBlock.thy ===== *)
theory ItemBlock
  imports StrBlock
begin

text \<open>
  The fixed-length items of a segment: \<open>storage/block.cc\<close> and \<open>storage/table_block.cc\<close> read them
  through the cache and write updates through it; \<open>storage/async_writer.cc\<close> writes new items from a
  queue, many at once. A segment's file and the atomic counter of the items on disk are
  \<open>segfile\<close>; the descriptor and the counter pointer of a write request are the number of its
  segment. A division by an item or block length of 0 and a batch that overruns the 1 MB buffer of the
  writer are faults.
\<close>

record segfile =
  sf_base :: "byte list"
  sf_cur :: u32

record iblk =
  ib_per_block :: u32
  ib_item :: u32
  ib_header :: u32
  ib_seg :: u32
  ib_capacity :: u32
  ib_last :: u32

definition IB_new :: "u32 \<Rightarrow> u32 \<Rightarrow> u32 \<Rightarrow> u32 \<Rightarrow> u32 \<Rightarrow> iblk" where
  "IB_new per_block_size len header_size seg_id capacity = \<lparr>ib_per_block = per_block_size, ib_item = len,
     ib_header = header_size, ib_seg = seg_id, ib_capacity = capacity, ib_last = 0\<rparr>"

subsection \<open>Reading\<close>

definition ReadBlock :: "u32 \<Rightarrow> byte list \<Rightarrow> rparam \<Rightarrow> (bool \<times> byte list) option" where
  "ReadBlock key block param =
     (if unat (rp_len param) > MAX_BLOCK_SIZE then Some (False, block)
      else if unat (rp_len param) \<le> length block
      then Some (True, read_into block (pread (rp_file param) (unat (rp_offset param)) (unat (rp_len param))))
      else None)"

definition GetReadFunParameter :: "iblk \<Rightarrow> segfile \<Rightarrow> u32 \<Rightarrow> u32 \<Rightarrow> rparam" where
  "GetReadFunParameter ib sf len off = \<lparr>rp_file = sf_base sf, rp_len = len, rp_offset = off + ib_header ib\<rparr>"

definition ReadContent :: "(nat \<Rightarrow> byte) \<Rightarrow> iblk \<Rightarrow> segfile \<Rightarrow> u32 \<Rightarrow> u32 \<Rightarrow> byte list" where
  "ReadContent g ib sf n_bytes start =
     read_into (map g [0..<unat n_bytes]) (pread (sf_base sf) (unat (ib_header ib + start)) (unat n_bytes))"

text \<open>The part of a request that lies in the block of \<open>start\<close>.\<close>

definition chunk :: "u32 \<Rightarrow> u32 \<Rightarrow> u32 \<Rightarrow> u32" where
  "chunk per_block n_bytes start =
     (let len = (if n_bytes > per_block then per_block else n_bytes)
      in if len > per_block - start mod per_block then per_block - start mod per_block else len)"

text \<open>One iteration: the bytes it stores, and the cache and \<open>last_bid_in_disk_\<close> it leaves.\<close>

definition read_chunk :: "(nat \<Rightarrow> byte) \<Rightarrow> segfile \<Rightarrow> u32 \<Rightarrow> u32 \<Rightarrow> cache \<Rightarrow> iblk \<Rightarrow> (byte list \<times> cache \<times> iblk) option" where
  "read_chunk g sf len start c ib =
     (let block_id = start div ib_per_block ib;
          block_pos = block_id * ib_per_block ib;
          block_offset = start mod ib_per_block ib;
          last = (if ib_last ib \<le> block_id then sf_cur sf * ib_item ib div ib_per_block ib else ib_last ib);
          ib' = ib\<lparr>ib_last := last\<rparr>
      in if last \<le> block_id then Some (ReadContent g ib sf len (block_pos + block_offset), c, ib')
         else do {
           (res, block, c') \<leftarrow> C_SetOrGet g ReadBlock (GetCacheBlockId (ib_seg ib) (ib_capacity ib) block_id)
             (GetReadFunParameter ib sf (ib_per_block ib) block_pos) c;
           case (res, block) of
             (True, Some a) \<Rightarrow> do {
               b \<leftarrow> cache_buf c' a;
               bs \<leftarrow> mem_slice b (unat block_offset) (unat len);
               Some (bs, c', ib') }
           | _ \<Rightarrow> Some (ReadContent g ib sf len (block_pos + block_offset), c', ib') })"

lemma chunk_bounds:
  assumes "0 < per_block" "0 < n"
  shows "0 < unat (chunk per_block n start)" "unat (chunk per_block n start) \<le> unat n"
    "unat (start mod per_block) + unat (chunk per_block n start) \<le> unat per_block"
proof -
  have m: "unat (start mod per_block) < unat per_block" using assms(1) by (simp add: unat_mod word_less_nat_alt)
  then have "unat (per_block - start mod per_block) = unat per_block - unat (start mod per_block)"
    by (simp add: unat_diff32)
  then show "0 < unat (chunk per_block n start)" "unat (chunk per_block n start) \<le> unat n"
    "unat (start mod per_block) + unat (chunk per_block n start) \<le> unat per_block"
    using m assms by (auto simp: chunk_def Let_def word_less_nat_alt)
qed

function read_loop :: "(nat \<Rightarrow> byte) \<Rightarrow> segfile \<Rightarrow> u32 \<Rightarrow> u32 \<Rightarrow> cache \<Rightarrow> iblk \<Rightarrow> (byte list \<times> cache \<times> iblk) option" where
  "read_loop g sf n_bytes start c ib =
     (if n_bytes = 0 then Some ([], c, ib)
      else if ib_per_block ib = 0 then None
      else let len = chunk (ib_per_block ib) n_bytes start
           in (case read_chunk g sf len start c ib of
                 None \<Rightarrow> None
               | Some (bs, c', ib') \<Rightarrow>
                   (case read_loop g sf (n_bytes - len) (start + len) c' ib' of
                      None \<Rightarrow> None
                    | Some (rest, r) \<Rightarrow> Some (bs @ rest, r))))"
  by pat_completeness auto
termination
proof (relation "measure (\<lambda>(g, sf, n, start, c, ib). unat n)")
  fix sf :: segfile and n start x :: u32 and ib :: iblk
  assume "n \<noteq> 0" "ib_per_block ib \<noteq> 0" "x = chunk (ib_per_block ib) n start"
  then have "0 < unat x" "unat x \<le> unat n"
    using chunk_bounds [of "ib_per_block ib" n start] by (simp_all add: word_neq_0_conv)
  then show "((g, sf, n - x, start + x, c', ib'), g, sf, n, start, c, ib)
      \<in> measure (\<lambda>(g, sf, n, start, c, ib). unat n)" for g c c' ib'
    by (simp add: unat_diff32)
qed simp_all

declare read_loop.simps [simp del]

definition Block_Read :: "(nat \<Rightarrow> byte) \<Rightarrow> segfile \<Rightarrow> u32 \<Rightarrow> u32 \<Rightarrow> cache option \<Rightarrow> iblk \<Rightarrow> (byte list \<times> cache option \<times> iblk) option" where
  "Block_Read g sf n_bytes start c ib = (case c of
     None \<Rightarrow> Some (ReadContent g ib sf n_bytes start, None, ib)
   | Some cc \<Rightarrow> map_option (\<lambda>(bs, c', ib'). (bs, Some c', ib')) (read_loop g sf n_bytes start cc ib))"

subsection \<open>Updating\<close>

text \<open>The write-through loop of \<open>Update\<close> over the cached blocks.\<close>

function update_loop :: "iblk \<Rightarrow> byte list \<Rightarrow> u32 \<Rightarrow> u32 \<Rightarrow> cache \<Rightarrow> cache option" where
  "update_loop ib value n_bytes start c =
     (if n_bytes = 0 then Some c
      else if ib_per_block ib = 0 then None
      else let len = chunk (ib_per_block ib) n_bytes start
           in (case C_Update (GetCacheBlockId (ib_seg ib) (ib_capacity ib) (start div ib_per_block ib))
                     (take (unat len) value) (unat (start mod ib_per_block ib)) c of
                 None \<Rightarrow> None
               | Some c' \<Rightarrow> update_loop ib (drop (unat len) value) (n_bytes - len) (start + len) c'))"
  by pat_completeness auto
termination
proof (relation "measure (\<lambda>(ib, value, n, start, c). unat n)")
  fix ib :: iblk and n start x :: u32
  assume "n \<noteq> 0" "ib_per_block ib \<noteq> 0" "x = chunk (ib_per_block ib) n start"
  then have "0 < unat x" "unat x \<le> unat n"
    using chunk_bounds [of "ib_per_block ib" n start] by (simp_all add: word_neq_0_conv)
  then show "((ib, drop (unat x) v, n - x, start + x, c'), ib, v, n, start, c)
      \<in> measure (\<lambda>(ib, value, n, start, c). unat n)" for v c c'
    by (simp add: unat_diff32)
qed simp_all

declare update_loop.simps [simp del]

definition Block_Update :: "byte list \<Rightarrow> u32 \<Rightarrow> segfile \<Rightarrow> cache option \<Rightarrow> iblk \<Rightarrow> (segfile \<times> cache option) option" where
  "Block_Update value start sf c ib =
     (let sf' = sf\<lparr>sf_base := write_at (sf_base sf) (unat (ib_header ib + start)) value\<rparr>
      in (case c of
            None \<Rightarrow> Some (sf', None)
          | Some cc \<Rightarrow> map_option (\<lambda>c'. (sf', Some c')) (update_loop ib value (of_nat (length value)) start cc)))"

subsection \<open>The write queue\<close>

record wreq =
  w_fd :: nat
  w_data :: "byte list"
  w_start :: u32

definition TableBlock_Write :: "nat \<Rightarrow> byte list \<Rightarrow> u32 \<Rightarrow> iblk \<Rightarrow> wreq list \<Rightarrow> wreq list" where
  "TableBlock_Write fd value start ib q = q @ [\<lparr>w_fd = fd, w_data = value, w_start = ib_header ib + start\<rparr>]"

type_synonym disk = "nat \<Rightarrow> segfile"

definition UpdateSize :: "nat \<Rightarrow> u32 \<Rightarrow> disk \<Rightarrow> disk" where
  "UpdateSize fd num d =
     (let sz = sf_cur (d fd) + num
      in d(fd := \<lparr>sf_base = write_at (sf_base (d fd)) 5 (le32 sz), sf_cur = sz\<rparr>))"

definition put_out :: "u32 \<Rightarrow> nat \<Rightarrow> byte list \<Rightarrow> u32 \<Rightarrow> disk \<Rightarrow> disk" where
  "put_out item_length fd bs start d =
     UpdateSize fd (of_nat (length bs) div item_length)
       (d(fd := (d fd)\<lparr>sf_base := write_at (sf_base (d fd)) (unat start) bs\<rparr>))"

abbreviation bulk_bytes :: nat where "bulk_bytes \<equiv> 1048576"

text \<open>The batch loop with its buffer, the descriptor and the start of what is buffered.\<close>

primrec batch_loop :: "u32 \<Rightarrow> wreq list \<Rightarrow> nat \<Rightarrow> byte list \<Rightarrow> u32 \<Rightarrow> disk \<Rightarrow> disk option" where
  "batch_loop L [] fd buf start d = Some (put_out L fd buf start d)"
| "batch_loop L (w # ws) fd buf start d =
     (if fd \<noteq> w_fd w \<or> length buf + length (w_data w) \<ge> bulk_bytes
      then if length (w_data w) \<le> bulk_bytes
           then batch_loop L ws (w_fd w) (w_data w) (w_start w) (put_out L fd buf start d) else None
      else batch_loop L ws fd (buf @ w_data w) start d)"

fun WriterHandler :: "u32 \<Rightarrow> wreq list \<Rightarrow> disk \<Rightarrow> disk option" where
  "WriterHandler L [] d = Some d"
| "WriterHandler L [w] d = (if L = 0 then None else Some (put_out L (w_fd w) (w_data w) (w_start w) d))"
| "WriterHandler L (w # ws) d =
     (if L = 0 \<or> length (w_data w) > bulk_bytes then None
      else batch_loop L ws (w_fd w) (w_data w) (w_start w) d)"

definition SyncWrite :: "u32 \<Rightarrow> wreq \<Rightarrow> disk \<Rightarrow> disk option" where
  "SyncWrite L w d = (if L = 0 then None else Some (put_out L (w_fd w) (w_data w) (w_start w) d))"

subsection \<open>Batches write what single writes do\<close>

lemma write_at_alt:
  "i < max (length f) (o' + length b) \<Longrightarrow> write_at f o' b ! i =
    (if i < o' then (if i < length f then f ! i else 0) else if i < o' + length b then b ! (i - o') else f ! i)"
  by (cases "i < length f") (auto simp: write_at_def nth_append min_def)

lemma write_at_append: "write_at (write_at f o' a) (o' + length a) b = write_at f o' (a @ b)"
  by (rule nth_equalityI) (auto simp: write_at_alt nth_append)

lemma write_at_swap:
  "o1 + length a \<le> o2 \<Longrightarrow> write_at (write_at f o1 a) o2 b = write_at (write_at f o2 b) o1 a"
  by (rule nth_equalityI) (auto simp: write_at_alt)

lemma write_at_twice: "length b = length a \<Longrightarrow> write_at (write_at f o' a) o' b = write_at f o' b"
  by (rule nth_equalityI) (auto simp: write_at_alt)

definition item_sized :: "u32 \<Rightarrow> wreq \<Rightarrow> bool" where
  "item_sized L w \<longleftrightarrow> length (w_data w) = unat L \<and> 9 \<le> unat (w_start w)"

definition put_req :: "u32 \<Rightarrow> wreq \<Rightarrow> disk \<Rightarrow> disk" where
  "put_req L w d = put_out L (w_fd w) (w_data w) (w_start w) d"

text \<open>Requests of one segment that follow each other in the queue are adjacent in the file.\<close>

fun adjacent :: "wreq list \<Rightarrow> bool" where
  "adjacent (w # w' # ws) \<longleftrightarrow>
     (w_fd w = w_fd w' \<longrightarrow> unat (w_start w') = unat (w_start w) + length (w_data w)) \<and> adjacent (w' # ws)"
| "adjacent _ \<longleftrightarrow> True"

lemma items_div:
  assumes "n < 4294967296" "L \<noteq> 0"
  shows "(of_nat n :: u32) div L = of_nat (n div unat L)"
  using assms unat_of_nat32 [of n] by (simp add: word_arith_nat_div)

lemma put_out_append:
  assumes L: "L \<noteq> 0" "unat L dvd length a" "unat L dvd length b" and n: "length a + length b < 4294967296"
    and s: "9 \<le> unat s" "unat s' = unat s + length a"
  shows "put_out L fd b s' (put_out L fd a s d) = put_out L fd (a @ b) s d"
proof -
  have z: "unat L \<noteq> 0" using L(1) by (simp add: unat_eq_0)
  have c: "(of_nat (length a + length b) :: u32) div L = of_nat (length a) div L + of_nat (length b) div L"
    using n L z items_div [OF _ L(1)] by (simp add: div_add flip: of_nat_add)
  let ?f = "sf_base (d fd)" and ?x = "sf_cur (d fd) + of_nat (length a) div L"
  let ?y = "?x + of_nat (length b) div L"
  have "write_at (write_at (write_at (write_at ?f (unat s) a) 5 (le32 ?x)) (unat s') b) 5 (le32 ?y) =
      write_at (write_at ?f (unat s) (a @ b)) 5 (le32 ?y)"
    using s by (simp add: write_at_swap [of 5 "le32 ?x"] write_at_twice write_at_append)
  then show ?thesis using c by (simp add: put_out_def UpdateSize_def Let_def add.assoc)
qed

lemma batch_loop_spec:
  assumes L: "L \<noteq> 0" "unat L < bulk_bytes"
  shows "\<lbrakk>unat L dvd length buf; length buf \<le> bulk_bytes; 9 \<le> unat start; \<forall>w \<in> set ws. item_sized L w; adjacent ws;
      ws \<noteq> [] \<and> w_fd (hd ws) = fd \<longrightarrow> unat (w_start (hd ws)) = unat start + length buf\<rbrakk> \<Longrightarrow>
    batch_loop L ws fd buf start d = Some (fold (put_req L) ws (put_out L fd buf start d))"
proof (induction ws arbitrary: fd buf start d)
  case (Cons w ws)
  have w: "length (w_data w) = unat L" "9 \<le> unat (w_start w)" using Cons.prems(4) by (simp_all add: item_sized_def)
  have ws: "\<forall>w \<in> set ws. item_sized L w" "adjacent ws"
    using Cons.prems(4,5) by (cases ws; simp)+
  have nxt: "ws \<noteq> [] \<and> w_fd (hd ws) = w_fd w \<Longrightarrow> unat (w_start (hd ws)) = unat (w_start w) + length (w_data w)"
    using Cons.prems(5) by (cases ws) auto
  show ?case
  proof (cases "fd \<noteq> w_fd w \<or> length buf + length (w_data w) \<ge> bulk_bytes")
    case True
    then have "batch_loop L (w # ws) fd buf start d =
        batch_loop L ws (w_fd w) (w_data w) (w_start w) (put_out L fd buf start d)" using w L by simp
    also have "\<dots> = Some (fold (put_req L) ws (put_out L (w_fd w) (w_data w) (w_start w) (put_out L fd buf start d)))"
      using w L ws nxt by (intro Cons.IH) auto
    finally show ?thesis by (simp add: put_req_def [of L w] del: batch_loop.simps)
  next
    case False
    then have st: "unat (w_start w) = unat start + length buf" using Cons.prems(6) by simp
    have "batch_loop L (w # ws) fd buf start d = batch_loop L ws fd (buf @ w_data w) start d" using False by simp
    also have "\<dots> = Some (fold (put_req L) ws (put_out L fd (buf @ w_data w) start d))"
      using False Cons.prems(1,3) w L ws nxt st by (intro Cons.IH) auto
    also have "put_out L fd (buf @ w_data w) start d = put_out L fd (w_data w) (w_start w) (put_out L fd buf start d)"
      using False Cons.prems(1,3) w st by (intro put_out_append [symmetric] L(1)) auto
    finally show ?thesis using False by (simp add: put_req_def [of L w] del: batch_loop.simps)
  qed
qed simp

lemma WriterHandler_spec:
  assumes L: "L \<noteq> 0" "unat L < bulk_bytes" and ws: "\<forall>w \<in> set ws. item_sized L w" "adjacent ws"
  shows "WriterHandler L ws d = Some (fold (put_req L) ws d)"
proof (cases "(L, ws, d)" rule: WriterHandler.cases)
  case (3 L' w w' vs d')
  have w: "item_sized L w" using ws 3 by simp
  have "batch_loop L (w' # vs) (w_fd w) (w_data w) (w_start w) d =
      Some (fold (put_req L) (w' # vs) (put_out L (w_fd w) (w_data w) (w_start w) d))"
    using 3 ws L w by (intro batch_loop_spec) (auto simp: item_sized_def)
  then show ?thesis using 3 L w by (simp add: item_sized_def put_req_def [of _ w] del: batch_loop.simps)
qed (use L in \<open>simp_all add: put_req_def\<close>)

subsection \<open>Reading through the cache\<close>

abbreviation on_disk :: "iblk \<Rightarrow> segfile \<Rightarrow> nat" where
  "on_disk ib sf \<equiv> unat (sf_cur sf) * unat (ib_item ib)"

definition ib_key :: "iblk \<Rightarrow> nat \<Rightarrow> u32" where
  "ib_key ib i = GetCacheBlockId (ib_seg ib) (ib_capacity ib) (of_nat i)"

definition ib_block :: "iblk \<Rightarrow> segfile \<Rightarrow> nat \<Rightarrow> byte list" where
  "ib_block ib sf i = pread (sf_base sf) (unat (ib_header ib) + i * unat (ib_per_block ib)) (unat (ib_per_block ib))"

text \<open>The blocks that are complete on disk.\<close>

definition ib_disk :: "iblk \<Rightarrow> segfile \<Rightarrow> (u32 \<Rightarrow> byte list option) \<Rightarrow> bool" where
  "ib_disk ib sf D \<longleftrightarrow> (\<forall>i < unat (ib_capacity ib). D (ib_key ib i) =
     (if (i + 1) * unat (ib_per_block ib) \<le> on_disk ib sf then Some (ib_block ib sf i) else None))"

definition ib_ok :: "iblk \<Rightarrow> segfile \<Rightarrow> bool" where
  "ib_ok ib sf \<longleftrightarrow> 0 < unat (ib_per_block ib) \<and> unat (ib_per_block ib) \<le> MAX_BLOCK_SIZE \<and>
     unat (ib_header ib) + on_disk ib sf < 4294967296 \<and> unat (ib_header ib) + on_disk ib sf \<le> length (sf_base sf) \<and>
     unat (ib_last ib) * unat (ib_per_block ib) \<le> on_disk ib sf \<and>
     on_disk ib sf div unat (ib_per_block ib) \<le> unat (ib_capacity ib)"

definition ib_fits :: "cache \<Rightarrow> iblk \<Rightarrow> bool" where
  "ib_fits c ib \<longleftrightarrow> cache_ok c \<and> cache_cell c = unat (ib_per_block ib) \<and>
     (\<forall>i < unat (ib_capacity ib). cache_valid c (ib_key ib i))"

lemma ReadBlock_loads:
  assumes "unat len = length d" "length d \<le> MAX_BLOCK_SIZE" "pread fl (unat off) (length d) = d"
  shows "vc.loads ReadBlock k \<lparr>rp_file = fl, rp_len = len, rp_offset = off\<rparr> d"
  using assms by (simp add: vc.loads_def ReadBlock_def read_into_def)

lemma unat_add32: "unat (a :: u32) + unat b < 4294967296 \<Longrightarrow> unat (a + b) = unat a + unat b"
  by (simp add: unat_word_ariths)

lemma unat_mult32: "unat (a :: u32) * unat b < 4294967296 \<Longrightarrow> unat (a * b) = unat a * unat b"
  by (simp add: unat_word_ariths)

lemma read_chunk_spec:
  assumes ok: "ib_ok ib sf" and r: "unat start + unat len \<le> on_disk ib sf" "0 < unat len"
    and blk: "unat (start mod ib_per_block ib) + unat len \<le> unat (ib_per_block ib)"
    and c: "ib_fits c ib" "vc.coherent D c" and D: "ib_disk ib sf D"
  shows "\<exists>c' l. read_chunk g sf len start c ib =
      Some (pread (sf_base sf) (unat (ib_header ib) + unat start) (unat len), c', ib\<lparr>ib_last := l\<rparr>) \<and>
    ib_ok (ib\<lparr>ib_last := l\<rparr>) sf \<and> ib_fits c' ib \<and> vc.coherent D c' \<and> cache_valid c' = cache_valid c"
proof -
  let ?p = "unat (ib_per_block ib)" and ?h = "unat (ib_header ib)"
  let ?bid = "start div ib_per_block ib" and ?o = "start mod ib_per_block ib"
  let ?n = "on_disk ib sf"
  have p: "0 < ?p" "?p \<le> MAX_BLOCK_SIZE" "?h + ?n < 4294967296" "?h + ?n \<le> length (sf_base sf)"
    "unat (ib_last ib) * ?p \<le> ?n" "?n div ?p \<le> unat (ib_capacity ib)"
    using ok by (simp_all add: ib_ok_def)
  have bid: "unat ?bid = unat start div ?p" and o: "unat ?o = unat start mod ?p"
    by (simp_all add: unat_div unat_mod)
  have sp: "unat start div ?p * ?p + unat start mod ?p = unat start" by simp
  define l where "l = (if ib_last ib \<le> ?bid then sf_cur sf * ib_item ib div ib_per_block ib else ib_last ib)"
  have "unat (sf_cur sf * ib_item ib div ib_per_block ib) = ?n div ?p"
    using p(3) by (simp add: unat_div unat_mult32)
  then have l: "unat l * ?p \<le> ?n" using p(5) by (simp add: l_def)
  then have lc: "unat l \<le> unat (ib_capacity ib)" using p(1,6) by (meson div_greater_zero_iff le_trans less_eq_div_iff_mult_less_eq)
  have ok': "ib_ok (ib\<lparr>ib_last := l\<rparr>) sf" using ok l by (simp add: ib_ok_def)
  have hs: "unat (ib_header ib + start) = ?h + unat start" using p(3) r by (intro unat_add32) simp
  have content: "ReadContent g (ib\<lparr>ib_last := x\<rparr>) sf len start = pread (sf_base sf) (?h + unat start) (unat len)"
    "ReadContent g ib sf len start = pread (sf_base sf) (?h + unat start) (unat len)" for x
    using p(4) r by (simp_all add: ReadContent_def hs read_into_full length_pread)
  have whole: "?bid * ib_per_block ib + ?o = start" by (rule word_mod_div_equality)
  show ?thesis
  proof (cases "l \<le> ?bid")
    case True
    then have "read_chunk g sf len start c ib = Some (ReadContent g ib sf len start, c, ib\<lparr>ib_last := l\<rparr>)"
      using whole unfolding read_chunk_def Let_def l_def by simp
    then show ?thesis using content ok' c by (intro exI [of _ c] exI [of _ l]) simp
  next
    case False
    then have bl: "unat ?bid < unat l" by (simp add: word_le_nat_alt)
    then have "(unat ?bid + 1) * ?p \<le> unat l * ?p" by (intro mult_le_mono1) simp
    then have full: "(unat ?bid + 1) * ?p \<le> ?n" using l by simp
    have bc: "unat ?bid < unat (ib_capacity ib)" using bl lc by simp
    let ?k = "GetCacheBlockId (ib_seg ib) (ib_capacity ib) ?bid"
    let ?P = "GetReadFunParameter ib sf (ib_per_block ib) (?bid * ib_per_block ib)"
    let ?d = "ib_block ib sf (unat ?bid)"
    have k: "?k = ib_key ib (unat ?bid)" by (simp add: ib_key_def)
    have bp: "unat (?bid * ib_per_block ib) = unat ?bid * ?p"
      using full p(3) by (intro unat_mult32) (simp add: add_mult_distrib)
    have ho: "unat (?bid * ib_per_block ib + ib_header ib) = ?h + unat ?bid * ?p"
      using full p(3) bp unat_add32 [of "?bid * ib_per_block ib" "ib_header ib"] by (simp add: add_mult_distrib)
    have ld: "length ?d = ?p" using full p(4) by (simp add: ib_block_def length_pread add_mult_distrib)
    have "vc.loads ReadBlock ?k ?P ?d"
      unfolding GetReadFunParameter_def using ld p(2) ho by (intro ReadBlock_loads) (simp_all add: ib_block_def)
    moreover have "D ?k = Some ?d" "cache_valid c ?k" "cache_ok c" "length ?d \<le> cache_cell c"
      using D full bc c(1) ld by (simp_all add: k ib_disk_def ib_fits_def)
    ultimately obtain a c' w where g: "C_SetOrGet g ReadBlock ?k ?P c = Some (True, Some a, c')" "cache_ok c'"
      "cache_valid c' = cache_valid c" "cache_cell c' = cache_cell c" "vc.coherent D c'"
      "cache_buf c' a = Some w" "length w = cache_cell c" "take (length ?d) w = ?d"
      using vc.get_coherent [where c = c and k = ?k and D = D and d = ?d and g = g and ld = ReadBlock and t = ?P] c(2) by blast
    have w: "w = ?d" using g(7,8) ld c(1) by (simp add: ib_fits_def)
    have "mem_slice w (unat ?o) (unat len) = Some (pread (sf_base sf) (?h + unat start) (unat len))"
    proof -
      have "pread ?d (unat ?o) (unat len) = pread (sf_base sf) (?h + unat ?bid * ?p + unat ?o) (unat len)"
        using blk by (simp add: ib_block_def pread_pread)
      also have "?h + unat ?bid * ?p + unat ?o = ?h + unat start" using sp by (simp only: bid o add.assoc)
      finally show ?thesis using blk ld by (simp add: w mem_slice_Some pread_def)
    qed
    then have "read_chunk g sf len start c ib =
        Some (pread (sf_base sf) (?h + unat start) (unat len), c', ib\<lparr>ib_last := l\<rparr>)"
      using False g(1,6) unfolding read_chunk_def Let_def l_def by simp
    moreover have "ib_fits c' ib" using c(1) g by (simp add: ib_fits_def)
    ultimately show ?thesis using ok' g(3,5) by blast
  qed
qed

lemma pread_split: "pread f a (m + n) = pread f a m @ pread f (a + m) n"
  by (simp add: pread_def take_add add.commute)

lemma ib_disk_cong [simp]: "ib_disk (ib\<lparr>ib_last := l\<rparr>) sf = ib_disk ib sf"
  by (simp add: ib_disk_def ib_key_def ib_block_def fun_eq_iff)

lemma ib_fits_cong [simp]: "ib_fits c (ib\<lparr>ib_last := l\<rparr>) = ib_fits c ib"
  by (simp add: ib_fits_def ib_key_def)

lemma read_loop_spec:
  "\<lbrakk>ib_ok ib sf; unat start + unat n \<le> on_disk ib sf; ib_fits c ib; vc.coherent D c; ib_disk ib sf D\<rbrakk> \<Longrightarrow>
    \<exists>c' l. read_loop g sf n start c ib =
      Some (pread (sf_base sf) (unat (ib_header ib) + unat start) (unat n), c', ib\<lparr>ib_last := l\<rparr>) \<and>
    ib_ok (ib\<lparr>ib_last := l\<rparr>) sf \<and> ib_fits c' ib \<and> vc.coherent D c' \<and> cache_valid c' = cache_valid c"
proof (induction "unat n" arbitrary: n start c ib rule: less_induct)
  case less
  note ok = less.prems(1)
  show ?case
  proof (cases "n = 0")
    case True
    then have "read_loop g sf n start c ib = Some ([], c, ib\<lparr>ib_last := ib_last ib\<rparr>)" by (simp add: read_loop.simps)
    then show ?thesis using less.prems True by (intro exI [of _ c] exI [of _ "ib_last ib"]) (simp add: pread_def)
  next
    case False
    have pb: "ib_per_block ib \<noteq> 0" "0 < ib_per_block ib" using ok by (auto simp: ib_ok_def word_less_nat_alt)
    define len where "len = chunk (ib_per_block ib) n start"
    have len: "0 < unat len" "unat len \<le> unat n" "unat (start mod ib_per_block ib) + unat len \<le> unat (ib_per_block ib)"
      using chunk_bounds [OF pb(2), of n start] False by (simp_all add: len_def word_neq_0_conv)
    have ub: "unat (ib_header ib) + on_disk ib sf < 4294967296" using ok by (simp add: ib_ok_def)
    have r1: "unat start + unat len \<le> on_disk ib sf" using less.prems(2) len(2) by simp
    obtain c1 l1 where c1: "read_chunk g sf len start c ib =
        Some (pread (sf_base sf) (unat (ib_header ib) + unat start) (unat len), c1, ib\<lparr>ib_last := l1\<rparr>)"
      "ib_ok (ib\<lparr>ib_last := l1\<rparr>) sf" "ib_fits c1 ib" "vc.coherent D c1" "cache_valid c1 = cache_valid c"
      using read_chunk_spec [OF ok r1 len(1,3) less.prems(3-5), of g] by blast
    let ?ib = "ib\<lparr>ib_last := l1\<rparr>"
    have nl: "unat (n - len) = unat n - unat len" using len(2) by (rule unat_diff32)
    have sl: "unat (start + len) = unat start + unat len" using r1 ub by (intro unat_add32) simp
    have "unat (n - len) < unat n" using nl len by simp
    moreover have "unat (start + len) + unat (n - len) \<le> on_disk ?ib sf" using nl sl len(2) less.prems(2) by simp
    ultimately obtain c2 l2 where c2: "read_loop g sf (n - len) (start + len) c1 ?ib =
        Some (pread (sf_base sf) (unat (ib_header ib) + unat (start + len)) (unat (n - len)), c2, ib\<lparr>ib_last := l2\<rparr>)"
      "ib_ok (ib\<lparr>ib_last := l2\<rparr>) sf" "ib_fits c2 ib" "vc.coherent D c2" "cache_valid c2 = cache_valid c1"
      using less.hyps [of "n - len" ?ib "start + len" c1] c1 less.prems(5) by auto
    have "read_loop g sf n start c ib =
        Some (pread (sf_base sf) (unat (ib_header ib) + unat start) (unat len) @
          pread (sf_base sf) (unat (ib_header ib) + unat (start + len)) (unat (n - len)), c2, ib\<lparr>ib_last := l2\<rparr>)"
      using False pb(1) c1(1) c2(1) by (subst read_loop.simps) (simp add: Let_def flip: len_def)
    also have "pread (sf_base sf) (unat (ib_header ib) + unat start) (unat len) @
          pread (sf_base sf) (unat (ib_header ib) + unat (start + len)) (unat (n - len)) =
        pread (sf_base sf) (unat (ib_header ib) + unat start) (unat n)"
      using pread_split [of "sf_base sf" "unat (ib_header ib) + unat start" "unat len" "unat n - unat len"] len(2)
      by (simp add: nl sl add.assoc)
    moreover have "cache_valid c2 = cache_valid c" using c1(5) c2(5) by simp
    ultimately show ?thesis using c2(2-4) by auto
  qed
qed

text \<open>\<open>Read\<close> returns the bytes of the file, with and without a cache, and terminates.\<close>

lemma Block_Read_spec:
  assumes ok: "ib_ok ib sf" and r: "unat start + unat n \<le> on_disk ib sf" and D: "ib_disk ib sf D"
    and c: "case c of None \<Rightarrow> True | Some cc \<Rightarrow> ib_fits cc ib \<and> vc.coherent D cc"
  shows "\<exists>c' l. Block_Read g sf n start c ib =
      Some (pread (sf_base sf) (unat (ib_header ib) + unat start) (unat n), c', ib\<lparr>ib_last := l\<rparr>) \<and>
    ib_ok (ib\<lparr>ib_last := l\<rparr>) sf \<and> (case c' of None \<Rightarrow> c = None | Some cc \<Rightarrow> ib_fits cc ib \<and> vc.coherent D cc \<and> map_option cache_valid c = Some (cache_valid cc))"
proof (cases c)
  case None
  have hs: "unat (ib_header ib + start) = unat (ib_header ib) + unat start"
    using ok r by (intro unat_add32) (simp add: ib_ok_def)
  have "unat (ib_header ib) + unat start + unat n \<le> length (sf_base sf)" using ok r by (simp add: ib_ok_def)
  then have "ReadContent g ib sf n start = pread (sf_base sf) (unat (ib_header ib) + unat start) (unat n)"
    by (simp add: ReadContent_def hs read_into_full length_pread)
  then show ?thesis using None ok by (intro exI [of _ None] exI [of _ "ib_last ib"]) (simp add: Block_Read_def)
next
  case (Some cc)
  obtain c' l where c': "read_loop g sf n start cc ib =
      Some (pread (sf_base sf) (unat (ib_header ib) + unat start) (unat n), c', ib\<lparr>ib_last := l\<rparr>)"
    "ib_ok (ib\<lparr>ib_last := l\<rparr>) sf" "ib_fits c' ib" "vc.coherent D c'" "cache_valid c' = cache_valid cc"
    using read_loop_spec [OF ok r _ _ D, of cc g] c Some by auto
  then show ?thesis using Some by (intro exI [of _ "Some c'"] exI [of _ l]) (simp add: Block_Read_def)
qed

subsection \<open>Updating through the cache\<close>

lemma ib_key_inj:
  assumes "ib_key ib i = ib_key ib j" "i < 4294967296" "j < 4294967296"
  shows "i = j"
proof -
  have "(of_nat i :: u32) = of_nat j" using assms(1) by (simp add: ib_key_def GetCacheBlockId_def)
  then have "unat (of_nat i :: u32) = unat (of_nat j :: u32)" by simp
  then show ?thesis using assms(2,3) by (simp only: unat_of_nat32)
qed

abbreviation patched :: "iblk \<Rightarrow> u32 \<Rightarrow> byte list \<Rightarrow> segfile \<Rightarrow> segfile" where
  "patched ib start bs sf \<equiv> sf\<lparr>sf_base := write_at (sf_base sf) (unat (ib_header ib) + unat start) bs\<rparr>"

lemma ib_ok_patched: "ib_ok ib sf \<Longrightarrow> ib_ok ib (patched ib start bs sf)"
  unfolding ib_ok_def by (auto intro: le_trans)

text \<open>The keys of the other segments keep their blocks.\<close>

definition same_elsewhere :: "iblk \<Rightarrow> (u32 \<Rightarrow> byte list option) \<Rightarrow> (u32 \<Rightarrow> byte list option) \<Rightarrow> bool" where
  "same_elsewhere ib D D' \<longleftrightarrow> (\<forall>x. x \<notin> ib_key ib ` {..<unat (ib_capacity ib)} \<longrightarrow> D' x = D x)"

lemma same_elsewhere_refl [simp]: "same_elsewhere ib D D"
  by (simp add: same_elsewhere_def)

lemma same_elsewhere_upd: "i < unat (ib_capacity ib) \<Longrightarrow> same_elsewhere ib D (D(ib_key ib i \<mapsto> b))"
  by (auto simp: same_elsewhere_def)

lemma same_elsewhere_trans: "same_elsewhere ib D D' \<Longrightarrow> same_elsewhere ib D' D'' \<Longrightarrow> same_elsewhere ib D D''"
  by (simp add: same_elsewhere_def)

lemma update_chunk:
  assumes ok: "ib_ok ib sf" and c: "ib_fits c ib" "vc.coherent D c" and D: "ib_disk ib sf D"
    and blk: "unat (start mod ib_per_block ib) + length bs \<le> unat (ib_per_block ib)"
    and cap: "unat (start div ib_per_block ib) < unat (ib_capacity ib)"
  shows "\<exists>c' D'. C_Update (GetCacheBlockId (ib_seg ib) (ib_capacity ib) (start div ib_per_block ib)) bs
      (unat (start mod ib_per_block ib)) c = Some c' \<and>
    ib_fits c' ib \<and> vc.coherent D' c' \<and> cache_valid c' = cache_valid c \<and>
    ib_disk ib (patched ib start bs sf) D' \<and> same_elsewhere ib D D'"
proof -
  let ?p = "unat (ib_per_block ib)" and ?h = "unat (ib_header ib)"
  let ?b = "unat (start div ib_per_block ib)" and ?o = "unat (start mod ib_per_block ib)"
  let ?sf = "patched ib start bs sf" and ?n = "on_disk ib sf"
  have s: "unat start = ?b * ?p + ?o" by (simp add: unat_div unat_mod)
  have k: "GetCacheBlockId (ib_seg ib) (ib_capacity ib) (start div ib_per_block ib) = ib_key ib ?b"
    by (simp add: ib_key_def)
  have fits: "cache_ok c" "cache_valid c (ib_key ib ?b)" "cache_cell c = ?p" "?h + ?n \<le> length (sf_base sf)"
    using c(1) cap ok by (simp_all add: ib_fits_def ib_ok_def)
  have blkeq: "ib_block ib ?sf i = (if i = ?b then splice ?o bs (ib_block ib sf i) else ib_block ib sf i)"
    if full: "(i + 1) * ?p \<le> ?n" for i
  proof -
    have len: "?h + i * ?p + ?p \<le> length (sf_base sf)" using full fits(4) by (simp add: add_mult_distrib)
    consider "i = ?b" | "i + 1 \<le> ?b" | "?b + 1 \<le> i" by linarith
    then show ?thesis
    proof cases
      case 1
      then have "pread (write_at (sf_base sf) (?h + unat start) bs) (?h + i * ?p) ?p =
          splice (?h + unat start - (?h + i * ?p)) bs (pread (sf_base sf) (?h + i * ?p) ?p)"
        using s blk len by (intro pread_write_inside) auto
      then show ?thesis using 1 s by (simp add: ib_block_def)
    next
      case 2
      then have "(i + 1) * ?p \<le> ?b * ?p" by (rule mult_le_mono1)
      then show ?thesis using 2 s len by (simp add: ib_block_def pread_write_other add_mult_distrib)
    next
      case 3
      then have "(?b + 1) * ?p \<le> i * ?p" by (rule mult_le_mono1)
      then show ?thesis using 3 s blk len by (simp add: ib_block_def pread_write_other add_mult_distrib)
    qed
  qed
  have inj: "i < unat (ib_capacity ib) \<Longrightarrow> ib_key ib i = ib_key ib ?b \<longleftrightarrow> i = ?b" for i
    using ib_key_inj [of ib i ?b] unat_u32_less [of "ib_capacity ib"] unat_u32_less [of "start div ib_per_block ib"] by auto
  have Db: "D (ib_key ib ?b) = (if (?b + 1) * ?p \<le> ?n then Some (ib_block ib sf ?b) else None)"
    using D cap by (simp add: ib_disk_def)
  show ?thesis
  proof (cases "(?b + 1) * ?p \<le> ?n")
    case True
    then have Dk: "D (ib_key ib ?b) = Some (ib_block ib sf ?b)" using Db by simp
    have ld: "length (ib_block ib sf ?b) = ?p" using True fits(4) by (simp add: ib_block_def length_pread add_mult_distrib)
    obtain c' where c': "C_Update (ib_key ib ?b) bs ?o c = Some c'" "cache_ok c'" "cache_valid c' = cache_valid c"
      "cache_cell c' = cache_cell c" "vc.coherent (D(ib_key ib ?b \<mapsto> splice ?o bs (ib_block ib sf ?b))) c'"
      using vc.upd_coherent [OF fits(1,2) c(2) Dk, of ?o bs] ld blk fits(3) by auto
    have "ib_disk ib ?sf (D(ib_key ib ?b \<mapsto> splice ?o bs (ib_block ib sf ?b)))"
      using D True blkeq inj unfolding ib_disk_def by simp
    moreover have "same_elsewhere ib D (D(ib_key ib ?b \<mapsto> splice ?o bs (ib_block ib sf ?b)))"
      by (rule same_elsewhere_upd [OF cap])
    ultimately show ?thesis using c' c(1) unfolding k by (auto simp: ib_fits_def)
  next
    case False
    then have "D (ib_key ib ?b) = None" using Db by simp
    then obtain c' where c': "C_Update (ib_key ib ?b) bs ?o c = Some c'" "cache_ok c'" "cache_valid c' = cache_valid c"
      "cache_cell c' = cache_cell c" "vc.coherent D c'"
      using vc.upd_absent [OF fits(1,2) c(2), of ?o bs] blk fits(3) by auto
    have "ib_disk ib ?sf D" using D False blkeq unfolding ib_disk_def by simp
    then show ?thesis using c' c(1) same_elsewhere_refl unfolding k ib_fits_def by auto
  qed
qed

lemma update_loop_spec:
  "\<lbrakk>ib_ok ib sf; ib_fits c ib; vc.coherent D c; ib_disk ib sf D; length v = unat n;
      unat start + unat n \<le> unat (ib_capacity ib) * unat (ib_per_block ib); unat start + unat n < 4294967296;
      unat (ib_header ib) + unat start + unat n \<le> length (sf_base sf)\<rbrakk> \<Longrightarrow>
    \<exists>c' D'. update_loop ib v n start c = Some c' \<and> ib_fits c' ib \<and> vc.coherent D' c' \<and> cache_valid c' = cache_valid c \<and>
      ib_disk ib (patched ib start v sf) D' \<and> same_elsewhere ib D D'"
proof (induction "unat n" arbitrary: n v start sf c D rule: less_induct)
  case less
  note ok = less.prems(1)
  let ?p = "unat (ib_per_block ib)"
  have wr: "patched ib start [] sf = sf" using less.prems(8) by (simp add: write_at_def)
  show ?case
  proof (cases "n = 0")
    case True
    then have "v = []" using less.prems by simp
    moreover have "update_loop ib [] n start c = Some c" using True by (simp add: update_loop.simps)
    ultimately show ?thesis using less.prems(2-4) wr same_elsewhere_refl by auto
  next
    case False
    have pb: "ib_per_block ib \<noteq> 0" "0 < ib_per_block ib" using ok by (auto simp: ib_ok_def word_less_nat_alt)
    define len where "len = chunk (ib_per_block ib) n start"
    have len: "0 < unat len" "unat len \<le> unat n" "unat (start mod ib_per_block ib) + unat len \<le> ?p"
      using chunk_bounds [OF pb(2), of n start] False by (simp_all add: len_def word_neq_0_conv)
    let ?bs = "take (unat len) v" and ?rest = "drop (unat len) v"
    have lb: "length ?bs = unat len" "length ?rest = unat (n - len)"
      using less.prems(5) len(2) unat_diff32 [OF len(2)] by simp_all
    have "unat (start div ib_per_block ib) < unat (ib_capacity ib)"
    proof -
      have "unat start < unat (ib_capacity ib) * ?p" using less.prems(6) len by simp
      then show ?thesis by (simp add: unat_div less_mult_imp_div_less)
    qed
    then obtain c1 D1 where c1: "C_Update (GetCacheBlockId (ib_seg ib) (ib_capacity ib) (start div ib_per_block ib)) ?bs
        (unat (start mod ib_per_block ib)) c = Some c1" "ib_fits c1 ib" "vc.coherent D1 c1" "cache_valid c1 = cache_valid c"
      "ib_disk ib (patched ib start ?bs sf) D1" "same_elsewhere ib D D1"
      using update_chunk [OF ok less.prems(2-4), of start ?bs] len(3) lb(1) by auto
    have nl: "unat (n - len) = unat n - unat len" using len(2) by (rule unat_diff32)
    have sl: "unat (start + len) = unat start + unat len" using less.prems(7) len by (intro unat_add32) simp
    obtain c2 D2 where c2: "update_loop ib ?rest (n - len) (start + len) c1 = Some c2" "ib_fits c2 ib" "vc.coherent D2 c2" "cache_valid c2 = cache_valid c1"
      "ib_disk ib (patched ib (start + len) ?rest (patched ib start ?bs sf)) D2" "same_elsewhere ib D1 D2"
      using less.hyps [of "n - len" "patched ib start ?bs sf" c1 D1 ?rest "start + len"] c1 lb nl sl len
        less.prems(6-8) ib_ok_patched [OF ok, of start ?bs] by auto
    have "patched ib (start + len) ?rest (patched ib start ?bs sf) = patched ib start v sf"
      using write_at_append [of "sf_base sf" "unat (ib_header ib) + unat start" ?bs ?rest] lb(1) by (simp add: sl add.assoc)
    moreover have "update_loop ib v n start c = Some c2"
      using False pb(1) c1(1) c2(1) by (subst update_loop.simps) (simp add: Let_def flip: len_def)
    ultimately show ?thesis using c2 same_elsewhere_trans [OF c1(6) c2(6)] c1(4) by auto
  qed
qed

lemma Block_Update_spec:
  assumes ok: "ib_ok ib sf" and D: "ib_disk ib sf D" and c: "case c of None \<Rightarrow> True | Some cc \<Rightarrow> ib_fits cc ib \<and> vc.coherent D cc"
    and r: "unat start + length v \<le> unat (ib_capacity ib) * unat (ib_per_block ib)"
      "unat (ib_header ib) + unat start + length v < 4294967296"
      "unat (ib_header ib) + unat start + length v \<le> length (sf_base sf)"
  shows "\<exists>c' D'. Block_Update v start sf c ib = Some (patched ib start v sf, c') \<and>
    (case c' of None \<Rightarrow> c = None | Some cc \<Rightarrow> ib_fits cc ib \<and> vc.coherent D' cc \<and> map_option cache_valid c = Some (cache_valid cc) \<and>
       ib_disk ib (patched ib start v sf) D' \<and> same_elsewhere ib D D')"
proof -
  have hs: "unat (ib_header ib + start) = unat (ib_header ib) + unat start" using r(2) by (intro unat_add32) simp
  show ?thesis
  proof (cases c)
    case None
    then show ?thesis by (intro exI [of _ None]) (simp add: Block_Update_def hs)
  next
    case (Some cc)
    have n: "unat (of_nat (length v) :: u32) = length v" using r(2) by (intro unat_of_nat32) simp
    obtain c' D' where "update_loop ib v (of_nat (length v)) start cc = Some c'" "ib_fits c' ib" "vc.coherent D' c'"
      "cache_valid c' = cache_valid cc" "ib_disk ib (patched ib start v sf) D'" "same_elsewhere ib D D'"
      using update_loop_spec [OF ok _ _ D, of cc v "of_nat (length v)" start] c Some r n by auto
    then show ?thesis using Some by (intro exI [of _ "Some c'"] exI [of _ D']) (simp add: Block_Update_def hs)
  qed
qed

end
