(* ===== verification/Segment.thy ===== *)
theory Segment
  imports ItemBlock
begin

text \<open>
  \<open>storage/segment.cc\<close>: a segment holds up to \<open>max_size\<close> items of \<open>item_length\<close> bytes behind a header
  of 30 bytes, and the strings of these items in a second file. The first file and the counter of
  the items on disk are the \<open>segfile\<close>, which the writer thread changes too; the rest of the state
  is the record \<open>seg\<close>. A segment of vectors has no string block.
\<close>

record seg =
  sg_max :: u32
  sg_item :: u32
  sg_buffered :: u32
  sg_str_offset :: u32
  sg_str_capacity :: nat
  sg_ib :: iblk
  sg_sb :: "strblk option"

subsection \<open>The header\<close>

abbreviation header_size :: nat where "header_size \<equiv> 30"

definition CapacityOff :: nat where "CapacityOff = 1"
definition SizeOff :: nat where "SizeOff = CapacityOff + 4"
definition StrCapacityOff :: nat where "StrCapacityOff = SizeOff + 4"
definition StrOffsetOff :: nat where "StrOffsetOff = StrCapacityOff + 8"
definition StrBlocksSizeOff :: nat where "StrBlocksSizeOff = StrOffsetOff + 4"
definition StrCompressedOff :: nat where "StrCompressedOff = StrBlocksSizeOff + 4"
definition BCompressedOff :: nat where "BCompressedOff = StrCompressedOff + 4"

definition le64 :: "nat \<Rightarrow> byte list" where
  "le64 n = le32 (of_nat n) @ le32 (of_nat (n div 2 ^ 32))"

definition of_le64 :: "byte list \<Rightarrow> nat" where
  "of_le64 bs = unat (of_le32 (take 4 bs)) + 2 ^ 32 * unat (of_le32 (drop 4 bs))"

definition BaseOffset :: "u32 \<Rightarrow> segfile \<Rightarrow> u32" where
  "BaseOffset item_length sf = of_le32 (pread (sf_base sf) SizeOff 4) * item_length"

definition StrCapacity :: "segfile \<Rightarrow> nat" where
  "StrCapacity sf = of_le64 (pread (sf_base sf) StrCapacityOff 8)"

definition SetStrCapacity :: "nat \<Rightarrow> segfile \<Rightarrow> segfile" where
  "SetStrCapacity n sf = sf\<lparr>sf_base := write_at (sf_base sf) StrCapacityOff (le64 n)\<rparr>"

definition StrOffset :: "segfile \<Rightarrow> u32" where
  "StrOffset sf = of_le32 (pread (sf_base sf) StrOffsetOff 4)"

definition SetStrOffset :: "u32 \<Rightarrow> segfile \<Rightarrow> segfile" where
  "SetStrOffset n sf = sf\<lparr>sf_base := write_at (sf_base sf) StrOffsetOff (le32 n)\<rparr>"

definition PersistentedSize :: "segfile \<Rightarrow> segfile" where
  "PersistentedSize sf = sf\<lparr>sf_cur := of_le32 (pread (sf_base sf) SizeOff 4)\<rparr>"

definition SetBaseSize :: "u32 \<Rightarrow> seg \<Rightarrow> segfile \<Rightarrow> seg \<times> segfile" where
  "SetBaseSize n s sf =
     (if sg_buffered s > n then s\<lparr>sg_buffered := n\<rparr> else s,
      \<lparr>sf_base = write_at (sf_base sf) SizeOff (le32 n), sf_cur = (if sf_cur sf > n then n else sf_cur sf)\<rparr>)"

subsection \<open>Construction\<close>

definition item_block_size :: "u32 \<Rightarrow> u32" where
  "item_block_size item_length = (let item_len = (if item_length = 0 then 1 else item_length) in 65536 div item_len * item_len)"

definition Seg_new :: "u32 \<Rightarrow> u32 \<Rightarrow> u32 \<Rightarrow> u32 \<Rightarrow> seg" where
  "Seg_new seg_id max_size item_length capacity =
     \<lparr>sg_max = max_size, sg_item = item_length, sg_buffered = 0, sg_str_offset = 0, sg_str_capacity = 0,
      sg_ib = IB_new (item_block_size item_length) item_length (of_nat header_size) seg_id capacity, sg_sb = None\<rparr>"

text \<open>\<open>InitBlock\<close>: \<open>files\<close> are the string file and its index file as \<open>OpenFile\<close> finds them; a segment of
  vectors has none.\<close>

definition SG_InitBlock :: "bool \<Rightarrow> (byte list \<times> byte list option) option \<Rightarrow> seg \<Rightarrow> seg" where
  "SG_InitBlock can_open files s = (case files of
     None \<Rightarrow> s
   | Some (str, idx) \<Rightarrow>
       let sb = snd (SB_LoadIndex idx (SB_new (ib_per_block (sg_ib s)) (ib_seg (sg_ib s)) (ib_capacity (sg_ib s)) can_open str));
           sb' = (if sg_buffered s = sg_max s then snd (SB_CloseBlockPosFile sb) else sb)
       in s\<lparr>sg_sb := Some sb'\<rparr>)"

definition SG_Init :: "bool \<Rightarrow> (byte list \<times> byte list option) option \<Rightarrow> seg \<Rightarrow> segfile \<Rightarrow> seg \<times> segfile" where
  "SG_Init can_open files s sf =
     (let sf1 = sf\<lparr>sf_base := ftruncate (header_size + unat (sg_item s * sg_max s)) (sf_base sf), sf_cur := 0\<rparr>;
          cap = (if files \<noteq> None then header_size + unat (sg_max s * 4) else sg_str_capacity s);
          files' = map_option (\<lambda>(str, idx). (ftruncate cap str, idx)) files;
          s1 = s\<lparr>sg_str_capacity := cap\<rparr>
      in (SG_InitBlock can_open files' s1, SetStrOffset (sg_str_offset s1) (SetStrCapacity cap sf1)))"

definition SG_Load :: "bool \<Rightarrow> (byte list \<times> byte list option) option \<Rightarrow> seg \<Rightarrow> segfile \<Rightarrow> seg \<times> segfile" where
  "SG_Load can_open files s sf =
     (let s1 = (SG_InitBlock can_open files s)\<lparr>sg_str_capacity := StrCapacity sf, sg_str_offset := StrOffset sf\<rparr>;
          sf1 = PersistentedSize sf;
          sf2 = (if sf_cur sf1 > sg_max s then sf1\<lparr>sf_cur := 0\<rparr> else sf1)
      in (s1\<lparr>sg_buffered := sf_cur sf2\<rparr>, sf2))"

subsection \<open>Items\<close>

definition SG_Add :: "nat \<Rightarrow> byte list \<Rightarrow> seg \<Rightarrow> wreq list \<Rightarrow> seg \<times> wreq list" where
  "SG_Add fd data s q =
     (s\<lparr>sg_buffered := sg_buffered s + 1\<rparr>, TableBlock_Write fd data (sg_buffered s * sg_item s) (sg_ib s) q)"

text \<open>\<open>GetValues\<close> waits until the items are on disk: while it waits there is no result.\<close>

definition SG_GetValues :: "(nat \<Rightarrow> byte) \<Rightarrow> int \<Rightarrow> int \<Rightarrow> cache option \<Rightarrow> segfile \<Rightarrow> seg \<Rightarrow> (byte list \<times> cache option \<times> seg) option" where
  "SG_GetValues g i n c sf s =
     (if i + n > uint (sf_cur sf) then None
      else do {
        (bs, c', ib) \<leftarrow> Block_Read g sf (word_of_int n * sg_item s) (word_of_int i * sg_item s) c (sg_ib s);
        Some (bs, c', s\<lparr>sg_ib := ib\<rparr>) })"

definition SG_Update :: "int \<Rightarrow> byte list \<Rightarrow> cache option \<Rightarrow> segfile \<Rightarrow> seg \<Rightarrow> (segfile \<times> cache option) option" where
  "SG_Update i data c sf s = Block_Update data (word_of_int i * sg_item s) sf c (sg_ib s)"

definition SG_IsFull :: "seg \<Rightarrow> bool \<times> seg" where
  "SG_IsFull s =
     (if sg_buffered s = sg_max s
      then (True, s\<lparr>sg_sb := map_option (\<lambda>sb. snd (SB_CloseBlockPosFile sb)) (sg_sb s)\<rparr>) else (False, s))"

subsection \<open>Strings\<close>

text \<open>The loop that multiplies the capacity by 1.3. The product of a \<open>double\<close> is truncated; below
  \<open>2 ^ 48\<close> that is the integer quotient. From a capacity below 4 the loop would not end.\<close>

partial_function (option) extend_capacity :: "nat \<Rightarrow> nat \<Rightarrow> nat option" where
  "extend_capacity need cap = (if need \<ge> cap then extend_capacity need (13 * cap div 10) else Some cap)"

definition SG_AddString :: "byte list \<Rightarrow> seg \<Rightarrow> segfile \<Rightarrow> (u32 \<times> u32 \<times> u16 \<times> seg \<times> segfile) option" where
  "SG_AddString str s sf = do {
     sb \<leftarrow> sg_sb s;
     let new_end = sg_str_offset s + of_nat (length str);
     (cap, sb1, sf1) \<leftarrow>
       (if unat new_end \<ge> sg_str_capacity s
        then do {
          cap \<leftarrow> extend_capacity (unat new_end) (13 * sg_str_capacity s div 10);
          Some (cap, sb\<lparr>sb_file := ftruncate cap (sb_file sb)\<rparr>, SetStrCapacity cap sf) }
        else Some (sg_str_capacity s, sb, sf));
     let (block_id, in_block_pos, sb2) = SB_WriteString str (sg_str_offset s) sb1;
     Some (new_end, block_id, in_block_pos,
       s\<lparr>sg_str_capacity := cap, sg_str_offset := new_end, sg_sb := Some sb2\<rparr>, SetStrOffset new_end sf1) }"

definition SG_UpdateString :: "byte list \<Rightarrow> u32 \<Rightarrow> u16 \<Rightarrow> cache option \<Rightarrow> seg \<Rightarrow> (int \<times> cache option \<times> seg) option" where
  "SG_UpdateString str block_id in_block_pos c s = do {
     sb \<leftarrow> sg_sb s;
     (r, c', sb') \<leftarrow> SB_UpdateString str block_id in_block_pos c sb;
     Some (r, c', s\<lparr>sg_sb := Some sb'\<rparr>) }"

definition SG_GetString :: "(nat \<Rightarrow> byte) \<Rightarrow> u32 \<Rightarrow> u16 \<Rightarrow> nat \<Rightarrow> cache option \<Rightarrow> seg \<Rightarrow> (byte list \<times> cache option) option" where
  "SG_GetString g block_id in_block_pos n c s = do { sb \<leftarrow> sg_sb s; SB_Read g block_id in_block_pos n c sb }"

end
