(* ===== verification/StorageMgr.thy ===== *)
theory StorageMgr
  imports Segment
begin

text \<open>
  \<open>storage/storage_manager.cc\<close>: the list of segments of a table or of raw vectors, with the queue of
  the writer thread and the two caches they share. \<open>sm_disk\<close> holds the first file of every segment
  number, with the counter of its segment; \<open>sm_files\<close> the string and index files of numbers that
  have no segment at present, and \<open>sm_nfiles\<close> the first number without files. Opening and truncating
  files succeeds.
\<close>

record sm =
  sm_fixed :: int
  sm_segment_size :: int
  sm_capacity :: u32
  sm_table :: bool
  sm_can_open :: bool
  sm_segs :: "seg list"
  sm_disk :: disk
  sm_files :: "nat \<Rightarrow> byte list \<times> byte list option"
  sm_nfiles :: nat
  sm_queue :: "wreq list"
  sm_size :: nat
  sm_cache :: "cache option"
  sm_str_cache :: "cache option"

abbreviation PARAM_ERR :: int where "PARAM_ERR \<equiv> 100"

definition new_seg :: "sm \<Rightarrow> seg" where
  "new_seg m = Seg_new (of_nat (length (sm_segs m))) (word_of_int (sm_segment_size m)) (word_of_int (sm_fixed m)) (sm_capacity m)"

definition seg_files :: "sm \<Rightarrow> (byte list \<times> byte list option) option" where
  "seg_files m = (if sm_table m then Some (sm_files m (length (sm_segs m))) else None)"

definition SM_Extend :: "sm \<Rightarrow> sm" where
  "SM_Extend m =
     (let k = length (sm_segs m); (s, sf) = SG_Init (sm_can_open m) (seg_files m) (new_seg m) (sm_disk m k)
      in m\<lparr>sm_segs := sm_segs m @ [s], sm_disk := (sm_disk m)(k := sf), sm_nfiles := max (Suc k) (sm_nfiles m)\<rparr>)"

primrec load_segments :: "nat \<Rightarrow> sm \<Rightarrow> sm" where
  "load_segments 0 m = m"
| "load_segments (Suc n) m =
     (let k = length (sm_segs m); (s, sf) = SG_Load (sm_can_open m) (seg_files m) (new_seg m) (sm_disk m k)
      in load_segments n (m\<lparr>sm_segs := sm_segs m @ [s], sm_disk := (sm_disk m)(k := sf),
           sm_size := sm_size m + unat (sf_cur sf)\<rparr>))"

definition SM_Load :: "sm \<Rightarrow> sm" where
  "SM_Load m = load_segments (sm_nfiles m - length (sm_segs m)) m"

text \<open>The caches, with the size of their cells.\<close>

definition fresh_cache :: "int \<Rightarrow> nat \<Rightarrow> u32 \<Rightarrow> cache option" where
  "fresh_cache cache_size cell_size capacity =
     (if cache_size > 0 then Some (CLru (LC_new (nat cache_size) cell_size))
      else if cache_size < 0 then Some (CSimple (SC_new cell_size (unat capacity) 0)) else None)"

definition SM_Init :: "int \<Rightarrow> int \<Rightarrow> sm \<Rightarrow> int \<times> sm" where
  "SM_Init cache_size str_cache_size m =
     (let m1 = m\<lparr>sm_cache := fresh_cache cache_size (unat (item_block_size (word_of_int (sm_fixed m)))) (sm_capacity m),
               sm_str_cache := fresh_cache str_cache_size MAX_BLOCK_SIZE (sm_capacity m)\<rparr>
      in if sm_segment_size m = -1 \<or> sm_fixed m = -1 \<or> sm_capacity m = 0 then (PARAM_ERR, m1)
         else let m2 = SM_Load m1 in (0, if sm_segs m2 = [] then SM_Extend m2 else m2))"

primrec is_simple :: "cache \<Rightarrow> bool" where
  "is_simple (CLru c) = False"
| "is_simple (CSimple c) = True"

definition alter_cache :: "int \<Rightarrow> nat \<Rightarrow> u32 \<Rightarrow> cache option \<Rightarrow> cache option" where
  "alter_cache cache_size cell_size capacity c =
     (if cache_size > 0
      then (case c of
              None \<Rightarrow> fresh_cache cache_size cell_size capacity
            | Some cc \<Rightarrow> if is_simple cc then fresh_cache cache_size cell_size capacity
                         else Some (C_AlterCacheSize (nat cache_size) cc))
      else if cache_size < 0
      then (case c of
              None \<Rightarrow> fresh_cache cache_size cell_size capacity
            | Some cc \<Rightarrow> if \<not> is_simple cc then fresh_cache cache_size cell_size capacity else c)
      else None)"

text \<open>The block size of \<open>AlterCacheSize\<close> divides by the item length, which \<open>Init\<close> replaces by 1 when it
  is 0.\<close>

definition SM_AlterCacheSize :: "int \<Rightarrow> int \<Rightarrow> sm \<Rightarrow> sm option" where
  "SM_AlterCacheSize cache_size str_cache_size m =
     (if sm_fixed m = 0 then None
      else Some (m\<lparr>sm_cache := alter_cache cache_size (unat (item_block_size (word_of_int (sm_fixed m)))) (sm_capacity m) (sm_cache m),
        sm_str_cache := (if sm_table m then alter_cache str_cache_size MAX_BLOCK_SIZE (sm_capacity m) (sm_str_cache m)
                         else sm_str_cache m)\<rparr>))"

definition size_mb :: "int \<Rightarrow> int" where
  "size_mb max_size = (if max_size < 0 then max_size else max_size * 64 div 1024)"

definition SM_GetCacheSize :: "sm \<Rightarrow> (int \<times> int) option" where
  "SM_GetCacheSize m =
     (let a = (case sm_cache m of None \<Rightarrow> 0 | Some c \<Rightarrow> size_mb (C_GetMaxSize c))
      in case sm_str_cache m of
           None \<Rightarrow> Some (a, 0)
         | Some _ \<Rightarrow> (case sm_cache m of None \<Rightarrow> None | Some c \<Rightarrow> Some (a, size_mb (C_GetMaxSize c))))"

definition SM_Add :: "byte list \<Rightarrow> sm \<Rightarrow> int \<times> sm" where
  "SM_Add value m =
     (if int (length value) \<noteq> sm_fixed m then (PARAM_ERR, m)
      else let k = length (sm_segs m) - 1;
               (s, q) = SG_Add k value (last (sm_segs m)) (sm_queue m);
               (full, s') = SG_IsFull s;
               m1 = m\<lparr>sm_segs := butlast (sm_segs m) @ [s'], sm_queue := q\<rparr>;
               m2 = (if full then SM_Extend m1 else m1)
           in (0, m2\<lparr>sm_size := sm_size m2 + 1\<rparr>))"

definition SM_AddString :: "byte list \<Rightarrow> sm \<Rightarrow> (u32 \<times> u32 \<times> u16 \<times> sm) option" where
  "SM_AddString str m =
     (let k = length (sm_segs m) - 1 in do {
        (r, block_id, in_block_pos, s, sf) \<leftarrow> SG_AddString str (last (sm_segs m)) (sm_disk m k);
        Some (r, block_id, in_block_pos, m\<lparr>sm_segs := butlast (sm_segs m) @ [s], sm_disk := (sm_disk m)(k := sf)\<rparr>) })"

definition seg_of :: "sm \<Rightarrow> int \<Rightarrow> int" where
  "seg_of m i = cdiv i (sm_segment_size m)"

definition SM_Get :: "(nat \<Rightarrow> byte) \<Rightarrow> int \<Rightarrow> sm \<Rightarrow> (int \<times> byte list \<times> sm) option" where
  "SM_Get g i m =
     (if i < 0 \<or> nat i \<ge> sm_size m then Some (PARAM_ERR, [], m)
      else let k = seg_of m i in case fetch (sm_segs m) k of
        None \<Rightarrow> Some (-1, [], m)
      | Some s \<Rightarrow> do {
          (bs, c, s') \<leftarrow> SG_GetValues g (i mod sm_segment_size m) 1 (sm_cache m) (sm_disk m (nat k)) s;
          Some (0, bs, m\<lparr>sm_cache := c, sm_segs := (sm_segs m)[nat k := s']\<rparr>) })"

text \<open>A negative start passes the check of \<open>GetHeaders\<close> when it is not beyond \<open>-n\<close>; the index into the
  vector of segments is then out of range.\<close>

function get_headers :: "(nat \<Rightarrow> byte) \<Rightarrow> int \<Rightarrow> int \<Rightarrow> sm \<Rightarrow> (int \<times> byte list list \<times> int list \<times> sm) option" where
  "get_headers g start_id n m =
     (if n = 0 then Some (0, [], [], m)
      else if n < 0 \<or> start_id < 0 \<or> sm_segment_size m \<le> 0 then None
      else let i = start_id mod sm_segment_size m;
               len = (if sm_segment_size m - i > n then n else sm_segment_size m - i);
               k = seg_of m start_id
           in case fetch (sm_segs m) k of
                None \<Rightarrow> Some (-1, [], [], m)
              | Some s \<Rightarrow> (case SG_GetValues g i len (sm_cache m) (sm_disk m (nat k)) s of
                  None \<Rightarrow> None
                | Some (bs, c, s') \<Rightarrow>
                    (case get_headers g (start_id + len) (n - len) (m\<lparr>sm_cache := c, sm_segs := (sm_segs m)[nat k := s']\<rparr>) of
                       None \<Rightarrow> None
                     | Some (r, vals, lens, m') \<Rightarrow> Some (r, bs # vals, len # lens, m'))))"
  by pat_completeness auto
termination
proof (relation "measure (\<lambda>(g, start_id, n, m). nat n)")
  fix n start_id x y :: int and m :: sm
  assume a: "n \<noteq> 0" "\<not> (n < 0 \<or> start_id < 0 \<or> sm_segment_size m \<le> 0)" "x = start_id mod sm_segment_size m"
    "y = (if n < sm_segment_size m - x then n else sm_segment_size m - x)"
  then have "0 < y" by simp
  then show "((g, start_id + y, n - y, m'), g, start_id, n, m) \<in> measure (\<lambda>(g, start_id, n, m). nat n)" for g m'
    using a by simp
qed simp_all

declare get_headers.simps [simp del]

definition SM_GetHeaders :: "(nat \<Rightarrow> byte) \<Rightarrow> int \<Rightarrow> int \<Rightarrow> sm \<Rightarrow> (int \<times> byte list list \<times> int list \<times> sm) option" where
  "SM_GetHeaders g start_id n m =
     (if (start_id + n) mod 2 ^ 64 > int (sm_size m) then Some (PARAM_ERR, [], [], m) else get_headers g start_id n m)"

definition SM_Update :: "int \<Rightarrow> byte list \<Rightarrow> sm \<Rightarrow> (int \<times> sm) option" where
  "SM_Update i value m =
     (if i < 0 \<or> nat i \<ge> sm_size m \<or> int (length value) \<noteq> sm_fixed m then Some (PARAM_ERR, m)
      else let k = seg_of m i in case fetch (sm_segs m) k of
        None \<Rightarrow> Some (-1, m)
      | Some s \<Rightarrow> do {
          (sf, c) \<leftarrow> SG_Update (i mod sm_segment_size m) value (sm_cache m) (sm_disk m (nat k)) s;
          Some (0, m\<lparr>sm_disk := (sm_disk m)(nat k := sf), sm_cache := c\<rparr>) })"

definition SM_UpdateString :: "int \<Rightarrow> byte list \<Rightarrow> nat \<Rightarrow> u32 \<Rightarrow> u16 \<Rightarrow> sm \<Rightarrow> (int \<times> u32 \<times> u16 \<times> sm) option" where
  "SM_UpdateString i value old_len block_id in_block_pos m =
     (if i < 0 \<or> nat i \<ge> sm_size m then Some (PARAM_ERR, block_id, in_block_pos, m)
      else let k = seg_of m i in case fetch (sm_segs m) k of
        None \<Rightarrow> Some (-1, block_id, in_block_pos, m)
      | Some s \<Rightarrow> do {
          (r, c, s1) \<leftarrow> (if length value \<le> old_len then SG_UpdateString value block_id in_block_pos (sm_str_cache m) s
                          else Some (-1, sm_str_cache m, s));
          (if r = -1
           then do {
             (e, b, p, s2, sf) \<leftarrow> SG_AddString value s1 (sm_disk m (nat k));
             Some (sint e, b, p, m\<lparr>sm_str_cache := c, sm_segs := (sm_segs m)[nat k := s2], sm_disk := (sm_disk m)(nat k := sf)\<rparr>) }
           else Some (r, block_id, in_block_pos, m\<lparr>sm_str_cache := c, sm_segs := (sm_segs m)[nat k := s1]\<rparr>)) })"

definition SM_GetString :: "(nat \<Rightarrow> byte) \<Rightarrow> int \<Rightarrow> u32 \<Rightarrow> u16 \<Rightarrow> nat \<Rightarrow> sm \<Rightarrow> (int \<times> byte list \<times> sm) option" where
  "SM_GetString g i block_id in_block_pos len m =
     (if i < 0 \<or> nat i \<ge> sm_size m then Some (PARAM_ERR, [], m)
      else let k = seg_of m i in case fetch (sm_segs m) k of
        None \<Rightarrow> Some (-1, [], m)
      | Some s \<Rightarrow> do {
          (str, c) \<leftarrow> SG_GetString g block_id in_block_pos len (sm_str_cache m) s;
          Some (0, str, m\<lparr>sm_str_cache := c\<rparr>) })"

text \<open>\<open>Truncate\<close>: the segments past the new size are deleted, their files stay. A queued write of a
  deleted segment would use its counter, which is freed.\<close>

definition keep_files :: "seg list \<Rightarrow> nat \<Rightarrow> (nat \<Rightarrow> byte list \<times> byte list option) \<Rightarrow> nat \<Rightarrow> byte list \<times> byte list option" where
  "keep_files segs n files k =
     (if n \<le> k \<and> k < length segs
      then (case sg_sb (segs ! k) of None \<Rightarrow> files k | Some sb \<Rightarrow> (sb_file sb, Some (sb_idx sb))) else files k)"

definition SM_Truncate :: "nat \<Rightarrow> sm \<Rightarrow> (int \<times> sm) option" where
  "SM_Truncate sz m =
     (let offset = sz mod nat (sm_segment_size m);
          seg_num = sz div nat (sm_segment_size m) + (if offset > 0 then 1 else 0)
      in if seg_num > length (sm_segs m) then Some (PARAM_ERR, m)
         else if \<exists>w \<in> set (sm_queue m). seg_num \<le> w_fd w then None
         else let m1 = m\<lparr>sm_files := keep_files (sm_segs m) seg_num (sm_files m), sm_segs := take seg_num (sm_segs m)\<rparr>;
                  m2 = (if offset > 0
                        then (case SetBaseSize (of_nat offset) (last (sm_segs m1)) (sm_disk m1 (seg_num - 1)) of
                                (s, sf) \<Rightarrow> m1\<lparr>sm_segs := butlast (sm_segs m1) @ [s], sm_disk := (sm_disk m1)(seg_num - 1 := sf)\<rparr>)
                        else m1);
                  m3 = m2\<lparr>sm_size := sz\<rparr>;
                  m4 = (if seg_num = 0 then SM_Extend m3 else m3);
                  (full, s) = SG_IsFull (last (sm_segs m4));
                  m5 = m4\<lparr>sm_segs := butlast (sm_segs m4) @ [s]\<rparr>
              in Some (0, if full then SM_Extend m5 else m5))"

text \<open>The writer thread takes the first \<open>n\<close> requests of the queue.\<close>

definition SM_Writer :: "nat \<Rightarrow> sm \<Rightarrow> sm option" where
  "SM_Writer n m = do {
     d \<leftarrow> WriterHandler (word_of_int (sm_fixed m)) (take n (sm_queue m)) (sm_disk m);
     Some (m\<lparr>sm_disk := d, sm_queue := drop n (sm_queue m)\<rparr>) }"

end
