(* ===== verification/StorageSpec.thy ===== *)
theory StorageSpec
  imports StorageMgr
begin

text \<open>
  The storage manager against its contract: a list of items of equal length, of which the first \<open>P\<close>
  are on disk and the others wait in the queue of the writer thread. \<open>S\<close> is the number of items of a
  segment, \<open>L\<close> the length of an item.
\<close>

subsection \<open>Configuration\<close>

definition blk :: "nat \<Rightarrow> nat" where
  "blk L = 65536 div L * L"

definition sm_cfg :: "nat \<Rightarrow> nat \<Rightarrow> sm \<Rightarrow> bool" where
  "sm_cfg S L m \<longleftrightarrow> sm_fixed m = int L \<and> sm_segment_size m = int S \<and> 0 < S \<and> 0 < L \<and> L \<le> MAX_BLOCK_SIZE \<and>
     header_size + S * L < 4294967296 \<and> 0 < unat (sm_capacity m) \<and> S * L \<le> unat (sm_capacity m) * blk L \<and>
     sm_capacity m \<noteq> -1"

definition ibk :: "sm \<Rightarrow> nat \<Rightarrow> nat \<Rightarrow> iblk" where
  "ibk m L k = IB_new (item_block_size (of_nat L)) (of_nat L) (of_nat header_size) (of_nat k) (sm_capacity m)"

lemma blk_bounds: "0 < L \<Longrightarrow> L \<le> MAX_BLOCK_SIZE \<Longrightarrow> L \<le> blk L \<and> blk L \<le> MAX_BLOCK_SIZE"
proof -
  assume L: "0 < L" "L \<le> MAX_BLOCK_SIZE"
  then have "1 \<le> 65536 div L" by (simp add: Suc_leI div_greater_zero_iff)
  then have "1 * L \<le> 65536 div L * L" by (rule mult_le_mono1)
  then show ?thesis by (simp add: blk_def)
qed

lemma unat_item_block_size: "0 < L \<Longrightarrow> L \<le> MAX_BLOCK_SIZE \<Longrightarrow> unat (item_block_size (of_nat L)) = blk L"
proof -
  assume L: "0 < L" "L \<le> MAX_BLOCK_SIZE"
  have u: "unat (of_nat L :: u32) = L" using L by (intro unat_of_nat32) simp
  then have "(of_nat L :: u32) \<noteq> 0" using L by (metis unat_0 less_irrefl)
  moreover have "unat (65536 div of_nat L :: u32) = 65536 div L" by (simp add: unat_div u)
  moreover have "65536 div L * L < 4294967296" by (rule le_less_trans [OF div_times_less_eq_dividend]) simp
  ultimately show ?thesis
    using u unat_mult32 [of "65536 div of_nat L" "of_nat L"] by (simp add: item_block_size_def blk_def Let_def)
qed

lemma ibk_simps:
  assumes "sm_cfg S L m"
  shows "unat (ib_per_block (ibk m L k)) = blk L" "unat (ib_item (ibk m L k)) = L" "unat (ib_header (ibk m L k)) = header_size"
    "ib_capacity (ibk m L k) = sm_capacity m" "ib_seg (ibk m L k) = of_nat k"
  using assms by (simp_all add: ibk_def IB_new_def sm_cfg_def unat_item_block_size unat_of_nat32)

subsection \<open>The blocks on disk of all segments\<close>

definition seg_blocks :: "nat \<Rightarrow> sm \<Rightarrow> u32 \<Rightarrow> byte list option" where
  "seg_blocks L m x =
     (let k = unat x div unat (sm_capacity m); i = unat x mod unat (sm_capacity m)
      in if k < length (sm_segs m) \<and> (i + 1) * blk L \<le> unat (sf_cur (sm_disk m k)) * L
         then Some (ib_block (ibk m L k) (sm_disk m k) i) else None)"

definition few_segs :: "nat \<Rightarrow> sm \<Rightarrow> bool" where
  "few_segs n m \<longleftrightarrow> n \<le> 400 \<and> n * unat (sm_capacity m) < 4294967296"

lemma unat_key:
  assumes "sm_cfg S L m" "few_segs n m" "k < n" "i < unat (sm_capacity m)"
  shows "unat (ib_key (ibk m L k) i) = k * unat (sm_capacity m) + i"
proof -
  let ?c = "unat (sm_capacity m)"
  have "(k + 1) * ?c \<le> n * ?c" using assms(3) by (intro mult_le_mono1) simp
  then have b: "k * ?c + i < 4294967296" using assms(2,4) by (simp add: few_segs_def)
  have k: "unat (of_nat k :: u32) = k" using assms(2,3) by (intro unat_of_nat32) (simp add: few_segs_def)
  have i: "unat (of_nat i :: u32) = i" using b by (intro unat_of_nat32) simp
  have "unat (of_nat k * sm_capacity m) = k * ?c" using unat_mult32 [of "of_nat k" "sm_capacity m"] b k by simp
  then show ?thesis
    using unat_add32 [of "of_nat k * sm_capacity m" "of_nat i"] b i
    by (simp add: ib_key_def GetCacheBlockId_def ibk_simps [OF assms(1)])
qed

lemma key_div_mod:
  assumes "sm_cfg S L m" "few_segs n m" "k < n" "i < unat (sm_capacity m)"
  shows "unat (ib_key (ibk m L k) i) div unat (sm_capacity m) = k" "unat (ib_key (ibk m L k) i) mod unat (sm_capacity m) = i"
  using unat_key [OF assms] assms(4) by simp_all

lemma seg_blocks_key:
  assumes c: "sm_cfg S L m" "few_segs n m" "k < n" "i < unat (sm_capacity m)"
  shows "seg_blocks L m (ib_key (ibk m L k) i) =
    (if k < length (sm_segs m) \<and> (i + 1) * blk L \<le> unat (sf_cur (sm_disk m k)) * L
     then Some (ib_block (ibk m L k) (sm_disk m k) i) else None)"
  by (simp add: seg_blocks_def Let_def key_div_mod [OF c])

lemma ib_key_last [simp]: "ib_key (ib\<lparr>ib_last := l\<rparr>) = ib_key ib"
  by (simp add: ib_key_def fun_eq_iff)

lemma seg_blocks_disk:
  assumes c: "sm_cfg S L m" "few_segs (length (sm_segs m)) m" "k < length (sm_segs m)"
  shows "ib_disk (ibk m L k) (sm_disk m k) (seg_blocks L m)"
  using c by (simp add: ib_disk_def ibk_simps [OF c(1)] seg_blocks_key [OF c])

text \<open>Every key is the key of a block of its segment.\<close>

lemma key_of:
  assumes c: "sm_cfg S L m"
  shows "x = ib_key (ibk m L (unat x div unat (sm_capacity m))) (unat x mod unat (sm_capacity m))"
proof -
  let ?c = "unat (sm_capacity m)"
  have w: "of_nat (unat y) = y" for y :: u32 by simp
  have "(of_nat (unat x div ?c) * sm_capacity m + of_nat (unat x mod ?c) :: u32) =
      of_nat (unat x div ?c * ?c + unat x mod ?c)"
    by (simp only: of_nat_add of_nat_mult w)
  also have "\<dots> = x" by (simp only: div_mult_mod_eq w)
  finally show ?thesis by (simp only: ib_key_def GetCacheBlockId_def ibk_simps(4,5) [OF c])
qed

subsection \<open>The representation\<close>

definition req :: "nat \<Rightarrow> nat \<Rightarrow> byte list list \<Rightarrow> nat \<Rightarrow> wreq" where
  "req S L items j = \<lparr>w_fd = j div S, w_data = items ! j, w_start = of_nat (header_size + j mod S * L)\<rparr>"

definition disk_repr :: "nat \<Rightarrow> nat \<Rightarrow> byte list list \<Rightarrow> nat \<Rightarrow> nat \<Rightarrow> segfile \<Rightarrow> bool" where
  "disk_repr S L items P k sf \<longleftrightarrow> unat (sf_cur sf) = min S (P - k * S) \<and> header_size + S * L \<le> length (sf_base sf) \<and>
     of_le32 (pread (sf_base sf) SizeOff 4) = sf_cur sf \<and>
     (\<forall>j < min S (P - k * S). pread (sf_base sf) (header_size + j * L) L = items ! (k * S + j))"

definition seg_repr :: "nat \<Rightarrow> nat \<Rightarrow> sm \<Rightarrow> byte list list \<Rightarrow> nat \<Rightarrow> nat \<Rightarrow> seg \<Rightarrow> bool" where
  "seg_repr S L m items P k s \<longleftrightarrow> sg_max s = of_nat S \<and> sg_item s = of_nat L \<and>
     (\<exists>l. sg_ib s = (ibk m L k)\<lparr>ib_last := l\<rparr> \<and> unat l * blk L \<le> min S (P - k * S) * L) \<and>
     unat (sg_buffered s) = min S (length items - k * S)"

definition cache_repr :: "nat \<Rightarrow> sm \<Rightarrow> cache \<Rightarrow> bool" where
  "cache_repr L m c \<longleftrightarrow> cache_ok c \<and> cache_cell c = blk L \<and>
     (\<forall>k < 400. \<forall>i < unat (sm_capacity m). few_segs (k + 1) m \<longrightarrow> cache_valid c (ib_key (ibk m L k) i)) \<and>
     vc.coherent (seg_blocks L m) c"

definition sm_repr :: "nat \<Rightarrow> nat \<Rightarrow> sm \<Rightarrow> byte list list \<Rightarrow> nat \<Rightarrow> bool" where
  "sm_repr S L m items P \<longleftrightarrow> sm_cfg S L m \<and> length (sm_segs m) = length items div S + 1 \<and>
     few_segs (length (sm_segs m)) m \<and> P \<le> length items \<and> sm_size m = length items \<and> (\<forall>v \<in> set items. length v = L) \<and>
     sm_queue m = map (req S L items) [P..<length items] \<and> (\<forall>k \<ge> length (sm_segs m). sf_base (sm_disk m k) = []) \<and>
     (\<forall>k < length (sm_segs m). seg_repr S L m items P k (sm_segs m ! k) \<and> disk_repr S L items P k (sm_disk m k)) \<and>
     (case sm_cache m of None \<Rightarrow> True | Some c \<Rightarrow> cache_repr L m c)"

subsection \<open>The writer thread\<close>

lemma put_req_disk:
  assumes c: "sm_cfg S L m" and d: "\<forall>k < n. disk_repr S L items P k (d k)"
    and P: "P < length items" "P div S < n" and len: "\<forall>v \<in> set items. length v = L" and k: "k < n"
  shows "disk_repr S L items (Suc P) k (put_req (of_nat L) (req S L items P) d k)"
    "i + blk L \<le> unat (sf_cur (d k)) * L \<Longrightarrow>
      pread (sf_base (put_req (of_nat L) (req S L items P) d k)) (header_size + i) (blk L) = pread (sf_base (d k)) (header_size + i) (blk L)"
    "unat (sf_cur (d k)) \<le> unat (sf_cur (put_req (of_nat L) (req S L items P) d k))"
proof -
  have S: "0 < S" "0 < L" "header_size + S * L < 4294967296" "L \<le> MAX_BLOCK_SIZE" using c by (simp_all add: sm_cfg_def)
  define q r where "q = P div S" and "r = P mod S"
  then have qr: "P div S = q" "P mod S = r" and P': "P = q * S + r" by simp_all
  have r: "r < S" using S(1) by (simp add: r_def)
  then have "(r + 1) * L \<le> S * L" by (intro mult_le_mono1) simp
  then have rl: "r * L + L \<le> S * L" by simp
  have lv: "length (items ! P) = L" using len P(1) by simp
  have st: "unat (of_nat (header_size + r * L) :: u32) = header_size + r * L" using rl S by (intro unat_of_nat32) simp
  have one: "(of_nat L :: u32) div of_nat L = 1"
  proof -
    have "unat (of_nat L :: u32) = L" using S by (intro unat_of_nat32) simp
    then show ?thesis using S(2) by (simp add: word_unat_eq_iff unat_div)
  qed
  show "disk_repr S L items (Suc P) k (put_req (of_nat L) (req S L items P) d k)"
    "i + blk L \<le> unat (sf_cur (d k)) * L \<Longrightarrow>
      pread (sf_base (put_req (of_nat L) (req S L items P) d k)) (header_size + i) (blk L) = pread (sf_base (d k)) (header_size + i) (blk L)"
    "unat (sf_cur (d k)) \<le> unat (sf_cur (put_req (of_nat L) (req S L items P) d k))"
  proof (atomize (full), cases "k = q")
    case False
    then have e: "put_req (of_nat L) (req S L items P) d k = d k"
      by (simp add: put_req_def put_out_def req_def UpdateSize_def Let_def qr)
    have m: "min S (Suc P - k * S) = min S (P - k * S)"
    proof (cases "k < q")
      case True
      then have "(k + 1) * S \<le> q * S" by (intro mult_le_mono1) simp
      then show ?thesis using P' by simp
    next
      case k': False
      then have "(q + 1) * S \<le> k * S" using False by (intro mult_le_mono1) simp
      then show ?thesis using P' r by simp
    qed
    show "disk_repr S L items (Suc P) k (put_req (of_nat L) (req S L items P) d k) \<and>
      (i + blk L \<le> unat (sf_cur (d k)) * L \<longrightarrow>
        pread (sf_base (put_req (of_nat L) (req S L items P) d k)) (header_size + i) (blk L) = pread (sf_base (d k)) (header_size + i) (blk L)) \<and>
      unat (sf_cur (d k)) \<le> unat (sf_cur (put_req (of_nat L) (req S L items P) d k))"
      using d k by (simp add: e disk_repr_def m)
  next
    case True
    let ?sf = "d k" and ?n = "sf_cur (d k) + 1"
    let ?b1 = "write_at (sf_base ?sf) (header_size + r * L) (items ! P)"
    have e: "put_req (of_nat L) (req S L items P) d k = \<lparr>sf_base = write_at ?b1 5 (le32 ?n), sf_cur = ?n\<rparr>"
      using True lv one st by (simp add: put_req_def put_out_def req_def UpdateSize_def Let_def qr)
    have dk: "disk_repr S L items P k ?sf" using d k by simp
    have kS: "P - k * S = r" using True P' by (metis add_diff_cancel_left')
    have cur: "unat (sf_cur ?sf) = r" and lb: "header_size + S * L \<le> length (sf_base ?sf)"
      and old: "\<forall>j < r. pread (sf_base ?sf) (header_size + j * L) L = items ! (k * S + j)"
      using dk r by (simp_all add: disk_repr_def kS)
    have "S \<le> S * L" using S(2) by simp
    then have "r < 4294967295" using r S(3) by linarith
    then have un: "unat ?n = Suc r" using cur unat_succ [of "sf_cur ?sf"] by simp
    have pr: "pread (write_at ?b1 5 (le32 ?n)) (header_size + a) l = pread (sf_base ?sf) (header_size + a) l"
      if "a + l \<le> r * L" for a l
    proof -
      have "pread (write_at ?b1 5 (le32 ?n)) (header_size + a) l = pread ?b1 (header_size + a) l"
        using that rl lb lv by (intro pread_write_other) auto
      also have "\<dots> = pread (sf_base ?sf) (header_size + a) l" using that rl lb by (intro pread_write_other) auto
      finally show ?thesis .
    qed
    have new: "pread (write_at ?b1 5 (le32 ?n)) (header_size + r * L) L = items ! P"
    proof -
      have "pread (write_at ?b1 5 (le32 ?n)) (header_size + r * L) L = pread ?b1 (header_size + r * L) L"
        using rl lb lv by (intro pread_write_other) auto
      also have "\<dots> = items ! P" using pread_write_same [of "sf_base ?sf" "header_size + r * L" "items ! P"] lv by simp
      finally show ?thesis .
    qed
    have mn: "min S (Suc P - k * S) = Suc r" using kS r True P' by (simp add: Suc_diff_le)
    have "disk_repr S L items (Suc P) k \<lparr>sf_base = write_at ?b1 5 (le32 ?n), sf_cur = ?n\<rparr>"
      unfolding disk_repr_def
    proof (intro conjI allI impI)
      show "unat (sf_cur \<lparr>sf_base = write_at ?b1 5 (le32 ?n), sf_cur = ?n\<rparr>) = min S (Suc P - k * S)" using un mn by simp
      show "header_size + S * L \<le> length (sf_base \<lparr>sf_base = write_at ?b1 5 (le32 ?n), sf_cur = ?n\<rparr>)" using lb by simp
      show "of_le32 (pread (sf_base \<lparr>sf_base = write_at ?b1 5 (le32 ?n), sf_cur = ?n\<rparr>) SizeOff 4) =
          sf_cur \<lparr>sf_base = write_at ?b1 5 (le32 ?n), sf_cur = ?n\<rparr>"
        using pread_write_same [of ?b1 5 "le32 ?n"] by (simp add: SizeOff_def CapacityOff_def)
      fix j assume "j < min S (Suc P - k * S)"
      then have "j < Suc r" unfolding mn .
      then consider "j = r" | "j < r" by (auto simp: less_Suc_eq)
      then show "pread (sf_base \<lparr>sf_base = write_at ?b1 5 (le32 ?n), sf_cur = ?n\<rparr>) (header_size + j * L) L = items ! (k * S + j)"
      proof cases
        case 1
        then show ?thesis using new True P' by simp
      next
        case 2
        then have "(j + 1) * L \<le> r * L" by (intro mult_le_mono1) simp
        then show ?thesis using pr [of "j * L" L] old 2 by simp
      qed
    qed
    moreover have "i + blk L \<le> unat (sf_cur (d k)) * L \<Longrightarrow>
        pread (write_at ?b1 5 (le32 ?n)) (header_size + i) (blk L) = pread (sf_base ?sf) (header_size + i) (blk L)"
      using pr [of i "blk L"] cur by simp
    ultimately show "disk_repr S L items (Suc P) k (put_req (of_nat L) (req S L items P) d k) \<and>
      (i + blk L \<le> unat (sf_cur (d k)) * L \<longrightarrow>
        pread (sf_base (put_req (of_nat L) (req S L items P) d k)) (header_size + i) (blk L) = pread (sf_base (d k)) (header_size + i) (blk L)) \<and>
      unat (sf_cur (d k)) \<le> unat (sf_cur (put_req (of_nat L) (req S L items P) d k))"
      using un cur unfolding e by simp
  qed
qed

text \<open>The requests of the queue have the length of an item, and those of a segment are adjacent.\<close>

lemma req_simps:
  assumes "sm_cfg S L m" "j < length items" "\<forall>v \<in> set items. length v = L"
  shows "w_fd (req S L items j) = j div S" "length (w_data (req S L items j)) = L"
    "unat (w_start (req S L items j)) = header_size + j mod S * L"
proof -
  have S: "0 < S" "header_size + S * L < 4294967296" using assms(1) by (simp_all add: sm_cfg_def)
  have "j mod S < S" using S(1) by simp
  then have "j mod S * L \<le> S * L" by (intro mult_le_mono1) simp
  then have "header_size + j mod S * L < 4294967296" using S(2) by linarith
  then show "unat (w_start (req S L items j)) = header_size + j mod S * L" by (simp add: req_def unat_of_nat32 del: of_nat_add of_nat_mult)
qed (use assms in \<open>simp_all add: req_def\<close>)

lemma req_item_sized:
  assumes "sm_cfg S L m" "j < length items" "\<forall>v \<in> set items. length v = L"
  shows "item_sized (of_nat L) (req S L items j)"
proof -
  have "unat (of_nat L :: u32) = L" using assms(1) by (intro unat_of_nat32) (simp add: sm_cfg_def)
  then show ?thesis using req_simps [OF assms] by (simp add: item_sized_def)
qed

lemma Suc_same_block: "0 < S \<Longrightarrow> j div S = Suc j div S \<Longrightarrow> Suc j mod S = Suc (j mod S)" for j S :: nat
  by (simp add: mod_Suc div_Suc split: if_splits)

lemma adjacent_reqs:
  assumes "sm_cfg S L m" "\<forall>v \<in> set items. length v = L"
  shows "a + n \<le> length items \<Longrightarrow> adjacent (map (req S L items) [a..<a + n])"
proof (induction n arbitrary: a)
  case (Suc n)
  have S: "0 < S" using assms(1) by (simp add: sm_cfg_def)
  have IH: "adjacent (map (req S L items) [Suc a..<Suc a + n])" using Suc.prems by (intro Suc.IH) simp
  have e: "[a..<a + Suc n] = a # [Suc a..<Suc a + n]" by (simp add: upt_conv_Cons)
  show ?case
  proof (cases n)
    case 0
    then show ?thesis by simp
  next
    case (Suc n')
    then have e2: "[Suc a..<Suc a + n] = Suc a # [Suc (Suc a)..<Suc a + n]" by (simp add: upt_conv_Cons)
    have "w_fd (req S L items a) = w_fd (req S L items (Suc a)) \<Longrightarrow>
        unat (w_start (req S L items (Suc a))) = unat (w_start (req S L items a)) + length (w_data (req S L items a))"
      using Suc_same_block [OF S, of a] Suc.prems Suc assms by (simp add: req_simps [OF assms(1)])
    then show ?thesis using IH unfolding e e2 by simp
  qed
qed simp

text \<open>More complete blocks on disk keep the caches coherent.\<close>

lemma ibk_cong: "sm_capacity m' = sm_capacity m \<Longrightarrow> ibk m' = ibk m"
  by (simp add: ibk_def fun_eq_iff)

lemma few_segs_cong: "sm_capacity m' = sm_capacity m \<Longrightarrow> few_segs n m' = few_segs n m"
  by (simp add: few_segs_def)

lemma sm_cfg_cong:
  "\<lbrakk>sm_fixed m' = sm_fixed m; sm_segment_size m' = sm_segment_size m; sm_capacity m' = sm_capacity m\<rbrakk> \<Longrightarrow>
    sm_cfg S L m' = sm_cfg S L m"
  by (simp add: sm_cfg_def)

lemma seg_blocks_mono:
  assumes c: "sm_cfg S L m" and cap: "sm_capacity m' = sm_capacity m" and n: "length (sm_segs m) \<le> length (sm_segs m')"
    and cur: "\<forall>k < length (sm_segs m). unat (sf_cur (sm_disk m k)) \<le> unat (sf_cur (sm_disk m' k))"
    and keep: "\<forall>k i. k < length (sm_segs m) \<longrightarrow> i + blk L \<le> unat (sf_cur (sm_disk m k)) * L \<longrightarrow>
      pread (sf_base (sm_disk m' k)) (header_size + i) (blk L) = pread (sf_base (sm_disk m k)) (header_size + i) (blk L)"
  shows "seg_blocks L m \<subseteq>\<^sub>m seg_blocks L m'"
proof (unfold map_le_def, intro ballI)
  fix x assume x: "x \<in> dom (seg_blocks L m)"
  define k i where "k = unat x div unat (sm_capacity m)" and "i = unat x mod unat (sm_capacity m)"
  then have k: "k < length (sm_segs m)" and full: "(i + 1) * blk L \<le> unat (sf_cur (sm_disk m k)) * L"
    using x by (auto simp: seg_blocks_def Let_def split: if_splits)
  have "unat (sf_cur (sm_disk m k)) * L \<le> unat (sf_cur (sm_disk m' k)) * L" using cur k by (intro mult_le_mono1) simp
  then have full': "(i + 1) * blk L \<le> unat (sf_cur (sm_disk m' k)) * L" using full by (rule le_trans [rotated])
  have "ib_block (ibk m' L k) (sm_disk m' k) i = ib_block (ibk m L k) (sm_disk m k) i"
    using keep k full by (simp add: ib_block_def ibk_cong [OF cap] ibk_simps [OF c])
  then show "seg_blocks L m x = seg_blocks L m' x"
    using k full full' n by (simp add: seg_blocks_def Let_def cap flip: k_def i_def)
qed

lemma cache_repr_mono:
  assumes "cache_repr L m c" "sm_capacity m' = sm_capacity m" "seg_blocks L m \<subseteq>\<^sub>m seg_blocks L m'"
  shows "cache_repr L m' c"
  using assms vc.coherent_mono [of "seg_blocks L m" c "seg_blocks L m'"]
  by (simp add: cache_repr_def ibk_cong [OF assms(2)] few_segs_cong [OF assms(2)])

lemma writer_one:
  assumes r: "sm_repr S L m items P" and P: "P < length items"
  defines "m' \<equiv> m\<lparr>sm_disk := put_req (of_nat L) (req S L items P) (sm_disk m),
    sm_queue := map (req S L items) [Suc P..<length items]\<rparr>"
  shows "sm_repr S L m' items (Suc P)"
proof -
  let ?n = "length (sm_segs m)"
  have c: "sm_cfg S L m" and n: "?n = length items div S + 1" and len: "\<forall>v \<in> set items. length v = L"
    and sg: "\<forall>k < ?n. seg_repr S L m items P k (sm_segs m ! k)" and dk: "\<forall>k < ?n. disk_repr S L items P k (sm_disk m k)"
    and fresh: "\<forall>k \<ge> ?n. sf_base (sm_disk m k) = []" and ch: "case sm_cache m of None \<Rightarrow> True | Some c \<Rightarrow> cache_repr L m c"
    and few: "few_segs ?n m" and sz: "sm_size m = length items"
    using r unfolding sm_repr_def by blast+
  have cap: "sm_capacity m' = sm_capacity m" by (simp add: m'_def)
  have f: "sm_segs m' = sm_segs m" "sm_cache m' = sm_cache m" "sm_size m' = sm_size m"
    "sm_queue m' = map (req S L items) [Suc P..<length items]" by (simp_all add: m'_def)
  have Pn: "P div S < ?n" using n P by (simp add: less_Suc_eq_le div_le_mono)
  note put = put_req_disk [OF c dk P Pn len]
  have "disk_repr S L items (Suc P) k (sm_disk m' k)" if "k < ?n" for k using put(1) that by (simp add: m'_def)
  moreover have "seg_repr S L m' items (Suc P) k (sm_segs m ! k)" if "k < ?n" for k
  proof -
    have "min S (P - k * S) * L \<le> min S (Suc P - k * S) * L" by (intro mult_le_mono1) simp
    then show ?thesis using sg that le_trans unfolding seg_repr_def ibk_cong [OF cap] by blast
  qed
  moreover have "case sm_cache m of None \<Rightarrow> True | Some c \<Rightarrow> cache_repr L m' c"
  proof -
    have "seg_blocks L m \<subseteq>\<^sub>m seg_blocks L m'"
      using put(2,3) by (intro seg_blocks_mono [OF c]) (simp_all add: m'_def)
    then show ?thesis using ch cache_repr_mono [OF _ cap] by (auto split: option.splits)
  qed
  moreover have "sf_base (sm_disk m' k) = []" if "k \<ge> ?n" for k
    using fresh Pn that by (simp add: m'_def put_req_def put_out_def UpdateSize_def Let_def req_def)
  moreover have "sm_cfg S L m'" using c by (simp add: sm_cfg_def m'_def)
  moreover have "few_segs ?n m'" "sm_size m' = length items" using few sz by (simp_all only: f few_segs_cong [OF cap])
  moreover have "Suc P \<le> length items" using P by simp
  ultimately show ?thesis using n len f(4) unfolding sm_repr_def f(1-3) by blast
qed

lemma writer_some:
  "\<lbrakk>sm_repr S L m items P; P + n \<le> length items\<rbrakk> \<Longrightarrow>
    sm_repr S L (m\<lparr>sm_disk := fold (put_req (of_nat L)) (map (req S L items) [P..<P + n]) (sm_disk m),
      sm_queue := map (req S L items) [P + n..<length items]\<rparr>) items (P + n)"
proof (induction n arbitrary: m P)
  case 0
  then have "sm_queue m = map (req S L items) [P..<length items]" by (simp add: sm_repr_def)
  then have "m\<lparr>sm_queue := map (req S L items) [P..<length items]\<rparr> = m" by simp
  then show ?case using 0 by simp
next
  case (Suc n)
  have e: "[P..<P + Suc n] = P # [Suc P..<Suc P + n]" by (simp add: upt_conv_Cons)
  have "P < length items" using Suc.prems by simp
  from Suc.IH [OF writer_one [OF Suc.prems(1) this]] show ?case using Suc.prems(2) unfolding e by simp
qed

theorem SM_Writer_spec:
  assumes r: "sm_repr S L m items P" and n: "n \<le> length (sm_queue m)"
  shows "\<exists>m'. SM_Writer n m = Some m' \<and> sm_repr S L m' items (P + n)"
proof -
  have c: "sm_cfg S L m" and q: "sm_queue m = map (req S L items) [P..<length items]" and P: "P \<le> length items"
    and len: "\<forall>v \<in> set items. length v = L" and fx: "sm_fixed m = int L" and L: "0 < L" "L \<le> MAX_BLOCK_SIZE"
    using r by (simp_all add: sm_repr_def sm_cfg_def)
  have Pn: "P + n \<le> length items" using n q P by simp
  have ws: "take n (sm_queue m) = map (req S L items) [P..<P + n]"
    using Pn by (simp add: q take_map)
  have dq: "drop n (sm_queue m) = map (req S L items) [P + n..<length items]" by (simp add: q drop_map)
  have u: "unat (of_nat L :: u32) = L" using L by (intro unat_of_nat32) simp
  then have L0: "(of_nat L :: u32) \<noteq> 0" using L by (metis unat_0 less_irrefl)
  have "WriterHandler (of_nat L) (take n (sm_queue m)) (sm_disk m) =
      Some (fold (put_req (of_nat L)) (map (req S L items) [P..<P + n]) (sm_disk m))"
    unfolding ws using u L L0 Pn adjacent_reqs [OF c len Pn] req_item_sized [OF c _ len]
    by (intro WriterHandler_spec) auto
  then show ?thesis using writer_some [OF r Pn] by (simp add: SM_Writer_def fx dq)
qed

subsection \<open>Reading\<close>

text \<open>A segment of a represented manager with its file satisfies the preconditions of the block layer.\<close>

lemma seg_block_ok:
  assumes r: "sm_repr S L m items P" and k: "k < length (sm_segs m)"
  shows "ib_ok (sg_ib (sm_segs m ! k)) (sm_disk m k)" "ib_disk (sg_ib (sm_segs m ! k)) (sm_disk m k) (seg_blocks L m)"
    "case sm_cache m of None \<Rightarrow> True | Some c \<Rightarrow> ib_fits c (sg_ib (sm_segs m ! k)) \<and> vc.coherent (seg_blocks L m) c"
proof -
  have c: "sm_cfg S L m" and few: "few_segs (length (sm_segs m)) m" and sg: "seg_repr S L m items P k (sm_segs m ! k)"
    and dk: "disk_repr S L items P k (sm_disk m k)" and ch: "case sm_cache m of None \<Rightarrow> True | Some c \<Rightarrow> cache_repr L m c"
    using r k unfolding sm_repr_def by blast+
  obtain l where ib: "sg_ib (sm_segs m ! k) = (ibk m L k)\<lparr>ib_last := l\<rparr>" and l: "unat l * blk L \<le> min S (P - k * S) * L"
    using sg by (auto simp: seg_repr_def)
  have S: "0 < L" "L \<le> MAX_BLOCK_SIZE" "header_size + S * L < 4294967296" "S * L \<le> unat (sm_capacity m) * blk L"
    using c by (simp_all add: sm_cfg_def)
  have b: "0 < blk L" "blk L \<le> MAX_BLOCK_SIZE" using blk_bounds [OF S(1,2)] S(1) by simp_all
  have cur: "unat (sf_cur (sm_disk m k)) = min S (P - k * S)" and lb: "header_size + S * L \<le> length (sf_base (sm_disk m k))"
    using dk by (simp_all add: disk_repr_def)
  have le: "unat (sf_cur (sm_disk m k)) * L \<le> S * L" unfolding cur by (intro mult_le_mono1) simp
  have "unat (sf_cur (sm_disk m k)) * L div blk L \<le> unat (sm_capacity m) * blk L div blk L"
    using le_trans [OF le S(4)] by (rule div_le_mono)
  then have dv: "unat (sf_cur (sm_disk m k)) * L div blk L \<le> unat (sm_capacity m)" using b(1) by simp
  have le1: "header_size + unat (sf_cur (sm_disk m k)) * L < 4294967296"
    and le2: "header_size + unat (sf_cur (sm_disk m k)) * L \<le> length (sf_base (sm_disk m k))"
    using le S(3) lb by linarith+
  show "ib_ok (sg_ib (sm_segs m ! k)) (sm_disk m k)"
    unfolding ib ib_ok_def using b le1 le2 l dv cur by (simp add: ibk_simps [OF c])
  show "ib_disk (sg_ib (sm_segs m ! k)) (sm_disk m k) (seg_blocks L m)"
    using seg_blocks_disk [OF c few k] by (simp add: ib)
  have fk: "few_segs (k + 1) m" and k4: "k < 400"
  proof -
    have "(k + 1) * unat (sm_capacity m) \<le> length (sm_segs m) * unat (sm_capacity m)" using k by (intro mult_le_mono1) simp
    then show "few_segs (k + 1) m" using few k unfolding few_segs_def by linarith
    show "k < 400" using few k by (simp add: few_segs_def)
  qed
  show "case sm_cache m of None \<Rightarrow> True | Some c \<Rightarrow> ib_fits c (sg_ib (sm_segs m ! k)) \<and> vc.coherent (seg_blocks L m) c"
    using ch fk k4 by (auto simp: ib cache_repr_def ib_fits_def ibk_simps [OF c] split: option.splits)
qed

text \<open>Reading leaves a represented manager: the cache changes and the segment remembers how far its blocks
  are complete.\<close>

lemma sm_repr_read:
  assumes r: "sm_repr S L m items P" and k: "k < length (sm_segs m)"
    and ib: "ib_ok ((sg_ib (sm_segs m ! k))\<lparr>ib_last := l\<rparr>) (sm_disk m k)"
    and c: "case c' of None \<Rightarrow> True | Some cc \<Rightarrow> ib_fits cc (sg_ib (sm_segs m ! k)) \<and> vc.coherent (seg_blocks L m) cc \<and>
      map_option cache_valid (sm_cache m) = Some (cache_valid cc)"
  defines "m' \<equiv> m\<lparr>sm_cache := c',
    sm_segs := (sm_segs m)[k := (sm_segs m ! k)\<lparr>sg_ib := (sg_ib (sm_segs m ! k))\<lparr>ib_last := l\<rparr>\<rparr>]\<rparr>"
  shows "sm_repr S L m' items P"
proof -
  let ?n = "length (sm_segs m)"
  have cf: "sm_cfg S L m" and sg: "\<forall>k < ?n. seg_repr S L m items P k (sm_segs m ! k)"
    and dk: "\<forall>k < ?n. disk_repr S L items P k (sm_disk m k)" and few: "few_segs ?n m"
    and ch: "case sm_cache m of None \<Rightarrow> True | Some c \<Rightarrow> cache_repr L m c"
    using r unfolding sm_repr_def by blast+
  have cap: "sm_capacity m' = sm_capacity m" by (simp add: m'_def)
  have sb: "seg_blocks L m' = seg_blocks L m" by (simp add: seg_blocks_def Let_def fun_eq_iff m'_def ibk_def)
  obtain l0 where ib0: "sg_ib (sm_segs m ! k) = (ibk m L k)\<lparr>ib_last := l0\<rparr>" using sg k by (auto simp: seg_repr_def)
  have cur: "unat (sf_cur (sm_disk m k)) = min S (P - k * S)" using dk k by (simp add: disk_repr_def)
  have l: "unat l * blk L \<le> min S (P - k * S) * L"
    using ib by (simp add: ib0 ib_ok_def ibk_simps [OF cf] cur)
  have "seg_repr S L m' items P j (sm_segs m' ! j)" if "j < ?n" for j
  proof (cases "j = k")
    case True
    then have "sm_segs m' ! j = (sm_segs m ! k)\<lparr>sg_ib := (ibk m L k)\<lparr>ib_last := l\<rparr>\<rparr>" using k by (simp add: m'_def ib0)
    then show ?thesis using sg k l True by (auto simp: seg_repr_def ibk_cong [OF cap] intro: exI [of _ l])
  next
    case False
    then show ?thesis using sg that by (simp add: m'_def seg_repr_def ibk_def)
  qed
  moreover have "case c' of None \<Rightarrow> True | Some c \<Rightarrow> cache_repr L m' c"
  proof (cases c')
    case (Some cc)
    then obtain c0 where "sm_cache m = Some c0" "cache_valid cc = cache_valid c0" using c by auto
    then show ?thesis
      using Some ch c by (simp add: cache_repr_def sb ibk_cong [OF cap] few_segs_cong [OF cap] ib_fits_def ib0 ibk_simps [OF cf] cap)
  qed simp
  moreover have "sm_cfg S L m'" using cf by (simp add: sm_cfg_def m'_def)
  moreover have f: "length (sm_segs m') = ?n" "sm_cache m' = c'" "sm_size m' = sm_size m" "sm_queue m' = sm_queue m"
    "sm_disk m' = sm_disk m" by (simp_all add: m'_def)
  moreover have "few_segs ?n m'" using few by (simp only: few_segs_cong [OF cap])
  ultimately show ?thesis using r dk unfolding sm_repr_def f by blast
qed

lemma SG_GetValues_spec:
  assumes r: "sm_repr S L m items P" and k: "k < length (sm_segs m)" and i: "i + n \<le> min S (P - k * S)"
  shows "\<exists>c' l. SG_GetValues g (int i) (int n) (sm_cache m) (sm_disk m k) (sm_segs m ! k) =
      Some (concat (map ((!) items) [k * S + i..<k * S + i + n]), c',
        (sm_segs m ! k)\<lparr>sg_ib := (sg_ib (sm_segs m ! k))\<lparr>ib_last := l\<rparr>\<rparr>) \<and>
    sm_repr S L (m\<lparr>sm_cache := c',
      sm_segs := (sm_segs m)[k := (sm_segs m ! k)\<lparr>sg_ib := (sg_ib (sm_segs m ! k))\<lparr>ib_last := l\<rparr>\<rparr>]\<rparr>) items P"
proof -
  let ?s = "sm_segs m ! k" and ?sf = "sm_disk m k"
  have cf: "sm_cfg S L m" and sg: "seg_repr S L m items P k ?s" and dk: "disk_repr S L items P k ?sf"
    using r k unfolding sm_repr_def by blast+
  have S: "0 < S" "0 < L" "L \<le> MAX_BLOCK_SIZE" "header_size + S * L < 4294967296" using cf by (simp_all add: sm_cfg_def)
  obtain l0 where ib0: "sg_ib ?s = (ibk m L k)\<lparr>ib_last := l0\<rparr>" using sg by (auto simp: seg_repr_def)
  have it: "sg_item ?s = of_nat L" using sg by (simp add: seg_repr_def)
  have cur: "unat (sf_cur ?sf) = min S (P - k * S)" using dk by (simp add: disk_repr_def)
  have "(i + n) * L \<le> min S (P - k * S) * L" using i by (rule mult_le_mono1)
  then have b1: "i * L + n * L \<le> min S (P - k * S) * L" by (simp only: add_mult_distrib)
  have "min S (P - k * S) * L \<le> S * L" by (intro mult_le_mono1) simp
  then have "i * L + n * L < 4294967296" using b1 S(4) by linarith
  note b = b1 this
  have u: "unat (of_nat n * of_nat L :: u32) = n * L" "unat (of_nat i * of_nat L :: u32) = i * L"
    using b by (simp_all add: unat_of_nat32 flip: of_nat_mult)
  note ok = seg_block_ok [OF r k]
  have "case sm_cache m of None \<Rightarrow> True | Some cc \<Rightarrow> ib_fits cc (sg_ib ?s) \<and> vc.coherent (seg_blocks L m) cc" by (rule ok(3))
  moreover have rd: "unat (of_nat i * of_nat L :: u32) + unat (of_nat n * of_nat L :: u32) \<le> on_disk (sg_ib ?s) ?sf"
    using b(1) by (simp add: u ib0 ibk_simps [OF cf] cur)
  ultimately obtain c' l where br: "Block_Read g ?sf (of_nat n * of_nat L) (of_nat i * of_nat L) (sm_cache m) (sg_ib ?s) =
      Some (pread (sf_base ?sf) (header_size + i * L) (n * L), c', (sg_ib ?s)\<lparr>ib_last := l\<rparr>)"
    "ib_ok ((sg_ib ?s)\<lparr>ib_last := l\<rparr>) ?sf"
    "case c' of None \<Rightarrow> sm_cache m = None | Some cc \<Rightarrow> ib_fits cc (sg_ib ?s) \<and> vc.coherent (seg_blocks L m) cc \<and>
       map_option cache_valid (sm_cache m) = Some (cache_valid cc)"
    using Block_Read_spec [OF ok(1) rd ok(2), of "sm_cache m" g] by (auto simp: u ib0 ibk_simps [OF cf])
  have items: "pread (sf_base ?sf) (header_size + i * L) (n * L) = concat (map ((!) items) [k * S + i..<k * S + i + n])"
    using i
  proof (induction n)
    case (Suc n)
    have "pread (sf_base ?sf) (header_size + (i + n) * L) L = items ! (k * S + (i + n))"
      using dk Suc.prems by (simp add: disk_repr_def)
    moreover have "pread (sf_base ?sf) (header_size + i * L) (Suc n * L) =
        pread (sf_base ?sf) (header_size + i * L) (n * L) @ pread (sf_base ?sf) (header_size + (i + n) * L) L"
      using pread_split [of "sf_base ?sf" "header_size + i * L" "n * L" L] by (simp add: add_mult_distrib add_ac)
    ultimately show ?case using Suc.IH Suc.prems by (simp add: add_ac)
  qed (simp add: pread_def)
  have "\<not> int i + int n > uint (sf_cur ?sf)"
  proof -
    have "int (unat (sf_cur ?sf)) = uint (sf_cur ?sf)" by simp
    then show ?thesis using i cur by linarith
  qed
  then have "SG_GetValues g (int i) (int n) (sm_cache m) ?sf ?s =
      Some (concat (map ((!) items) [k * S + i..<k * S + i + n]), c', ?s\<lparr>sg_ib := (sg_ib ?s)\<lparr>ib_last := l\<rparr>\<rparr>)"
    using br(1) items by (simp add: SG_GetValues_def it)
  moreover have "case c' of None \<Rightarrow> True | Some cc \<Rightarrow> ib_fits cc (sg_ib ?s) \<and> vc.coherent (seg_blocks L m) cc \<and>
      map_option cache_valid (sm_cache m) = Some (cache_valid cc)" using br(3) by (auto split: option.splits)
  ultimately show ?thesis using sm_repr_read [OF r k br(2)] by blast
qed

lemma seg_index:
  assumes "sm_repr S L m items P" "i < length items"
  shows "seg_of m (int i) = int (i div S)" "int i mod sm_segment_size m = int (i mod S)"
    "i div S < length (sm_segs m)" "fetch (sm_segs m) (int (i div S)) = Some (sm_segs m ! (i div S))"
    "i mod S < S" "i div S * S + i mod S = i"
proof -
  have ss: "sm_segment_size m = int S" "0 < S" and n: "length (sm_segs m) = length items div S + 1"
    using assms(1) by (simp_all add: sm_repr_def sm_cfg_def)
  show "seg_of m (int i) = int (i div S)" using ss by (simp add: seg_of_def zdiv_int)
  show "int i mod sm_segment_size m = int (i mod S)" using ss by (simp add: zmod_int)
  have "i div S \<le> length items div S" using assms(2) by (simp add: div_le_mono)
  then show k: "i div S < length (sm_segs m)" using n by simp
  then show "fetch (sm_segs m) (int (i div S)) = Some (sm_segs m ! (i div S))" by (simp add: mem_simps)
  show "i mod S < S" "i div S * S + i mod S = i" using ss(2) by simp_all
qed

lemma on_seg:
  fixes i :: nat
  assumes "0 < S" "i < P"
  shows "i mod S + 1 \<le> min S (P - i div S * S)"
proof -
  have "i div S * S + i mod S = i" by simp
  moreover have "i mod S < S" using assms(1) by simp
  ultimately show ?thesis using assms(2) by linarith
qed

theorem SM_Get_spec:
  assumes r: "sm_repr S L m items P" and i: "i < P"
  shows "\<exists>m'. SM_Get g (int i) m = Some (0, items ! i, m') \<and> sm_repr S L m' items P"
proof -
  let ?k = "i div S"
  have P: "P \<le> length items" and sz: "sm_size m = length items" and S: "0 < S"
    using r by (simp_all add: sm_repr_def sm_cfg_def)
  then have il: "i < length items" using i by simp
  note ix = seg_index [OF r il]
  obtain c' l where g: "SG_GetValues g (int (i mod S)) (int 1) (sm_cache m) (sm_disk m ?k) (sm_segs m ! ?k) =
      Some (concat (map ((!) items) [?k * S + i mod S..<?k * S + i mod S + 1]), c',
        (sm_segs m ! ?k)\<lparr>sg_ib := (sg_ib (sm_segs m ! ?k))\<lparr>ib_last := l\<rparr>\<rparr>)"
    "sm_repr S L (m\<lparr>sm_cache := c', sm_segs := (sm_segs m)[?k := (sm_segs m ! ?k)\<lparr>sg_ib := (sg_ib (sm_segs m ! ?k))\<lparr>ib_last := l\<rparr>\<rparr>]\<rparr>) items P"
    using SG_GetValues_spec [OF r ix(3) on_seg [OF S i]] by blast
  then show ?thesis using il by (simp add: SM_Get_def sz ix)
qed

lemma SM_Get_errors:
  "i < 0 \<or> nat i \<ge> sm_size m \<Longrightarrow> SM_Get g i m = Some (PARAM_ERR, [], m)"
  by (auto simp: SM_Get_def)

text \<open>An item that is still in the queue: \<open>Get\<close> waits for the writer.\<close>

lemma SM_Get_waits:
  assumes r: "sm_repr S L m items P" and i: "P \<le> i" "i < length items"
  shows "SM_Get g (int i) m = None"
proof -
  have sz: "sm_size m = length items" and dk: "disk_repr S L items P (i div S) (sm_disk m (i div S))"
    using r seg_index(3) [OF r i(2)] by (simp_all add: sm_repr_def)
  note ix = seg_index [OF r i(2)]
  have "int (unat (sf_cur (sm_disk m (i div S)))) = uint (sf_cur (sm_disk m (i div S)))" by simp
  moreover have "unat (sf_cur (sm_disk m (i div S))) \<le> P - i div S * S" using dk by (simp add: disk_repr_def)
  moreover have "P - i div S * S \<le> i mod S" using i(1) ix(6) by linarith
  ultimately have "int (i mod S) + 1 > uint (sf_cur (sm_disk m (i div S)))" by linarith
  then show ?thesis using i(2) by (simp add: SM_Get_def sz ix SG_GetValues_def)
qed

text \<open>\<open>GetHeaders\<close> returns the items as one piece per segment.\<close>

lemma get_headers_spec:
  "\<lbrakk>sm_repr S L m items P; start + n \<le> P\<rbrakk> \<Longrightarrow>
    \<exists>vals lens m'. get_headers g (int start) (int n) m = Some (0, vals, lens, m') \<and>
      concat vals = concat (map ((!) items) [start..<start + n]) \<and> sum_list lens = int n \<and>
      list_all2 (\<lambda>v l. int (length v) = l * int L) vals lens \<and> sm_repr S L m' items P"
proof (induction n arbitrary: start m rule: less_induct)
  case (less n)
  note r = less.prems(1)
  have P: "P \<le> length items" and S: "0 < S" "sm_segment_size m = int S" and len: "\<forall>v \<in> set items. length v = L"
    using r by (simp_all add: sm_repr_def sm_cfg_def)
  show ?case
  proof (cases "n = 0")
    case True
    then have "get_headers g (int start) (int n) m = Some (0, [], [], m)" by (simp add: get_headers.simps)
    then show ?thesis using r True by (intro exI [of _ "[]"] exI [of _ m]) simp
  next
    case False
    let ?k = "start div S" and ?i = "start mod S"
    define len' where "len' = min n (S - ?i)"
    have sl: "start < length items" using less.prems(2) False P by simp
    note ix = seg_index [OF r sl]
    have l: "0 < len'" "len' \<le> n" using False ix(5) by (simp_all add: len'_def)
    have "?i + len' \<le> min S (P - ?k * S)"
      using ix(5,6) less.prems(2) unfolding len'_def by linarith
    from SG_GetValues_spec [OF r ix(3) this, of g] obtain c' l' where
      g: "SG_GetValues g (int ?i) (int len') (sm_cache m) (sm_disk m ?k) (sm_segs m ! ?k) =
        Some (concat (map ((!) items) [start..<start + len']), c',
          (sm_segs m ! ?k)\<lparr>sg_ib := (sg_ib (sm_segs m ! ?k))\<lparr>ib_last := l'\<rparr>\<rparr>)" and
      r': "sm_repr S L (m\<lparr>sm_cache := c', sm_segs := (sm_segs m)[?k := (sm_segs m ! ?k)\<lparr>sg_ib := (sg_ib (sm_segs m ! ?k))\<lparr>ib_last := l'\<rparr>\<rparr>]\<rparr>) items P"
      using ix(6) by auto
    define m1 where "m1 = m\<lparr>sm_cache := c', sm_segs := (sm_segs m)[?k := (sm_segs m ! ?k)\<lparr>sg_ib := (sg_ib (sm_segs m ! ?k))\<lparr>ib_last := l'\<rparr>\<rparr>]\<rparr>"
    have r1: "sm_repr S L m1 items P" unfolding m1_def by (rule r')
    obtain vals lens m' where ih: "get_headers g (int (start + len')) (int (n - len')) m1 = Some (0, vals, lens, m')"
      "concat vals = concat (map ((!) items) [start + len'..<start + len' + (n - len')])" "sum_list lens = int (n - len')"
      "list_all2 (\<lambda>v l. int (length v) = l * int L) vals lens" "sm_repr S L m' items P"
      using less.IH [of "n - len'", OF _ r1, of "start + len'"] l less.prems(2) by auto
    have "(if sm_segment_size m - int ?i > int n then int n else sm_segment_size m - int ?i) = int len'"
      using ix(5) by (auto simp: S(2) len'_def min_def)
    then have "get_headers g (int start) (int n) m =
        Some (0, concat (map ((!) items) [start..<start + len']) # vals, int len' # lens, m')"
      using ih(1) g ix l S False by (subst get_headers.simps) (simp add: Let_def of_nat_diff flip: m1_def)
    moreover have "concat (map ((!) items) [start..<start + len']) @ concat vals = concat (map ((!) items) [start..<start + n])"
      using l(2) ih(2) upt_add_eq_append [of start "start + len'" "n - len'"] by simp
    moreover have "length (concat (map ((!) items) [start..<start + len'])) = len' * L"
    proof -
      have "\<forall>v \<in> set (map ((!) items) [start..<start + len']). length v = L" using len l(2) less.prems(2) P by simp
      then have "map length (map ((!) items) [start..<start + len']) = replicate len' L"
        by (intro replicate_eqI) auto
      then show ?thesis by (simp add: length_concat sum_list_replicate)
    qed
    ultimately show ?thesis using ih(3-5) l(2)
      by (intro exI [of _ "concat (map ((!) items) [start..<start + len']) # vals"] exI [of _ "int len' # lens"] exI [of _ m'])
        (simp add: of_nat_diff)
  qed
qed

theorem SM_GetHeaders_spec:
  assumes r: "sm_repr S L m items P" and n: "start + n \<le> P" and b: "P < 2 ^ 63"
  shows "\<exists>vals lens m'. SM_GetHeaders g (int start) (int n) m = Some (0, vals, lens, m') \<and>
    concat vals = concat (map ((!) items) [start..<start + n]) \<and> sum_list lens = int n \<and> sm_repr S L m' items P"
proof -
  have "P \<le> length items" "sm_size m = length items" using r by (simp_all add: sm_repr_def)
  moreover have "(int start + int n) mod 2 ^ 64 = int (start + n)" using n b by simp
  ultimately have "SM_GetHeaders g (int start) (int n) m = get_headers g (int start) (int n) m"
    using n by (simp add: SM_GetHeaders_def)
  then show ?thesis using get_headers_spec [OF r n, of g] by metis
qed

subsection \<open>Updating\<close>

lemma seg_blocks_eq:
  assumes c: "sm_cfg S L m" and few: "few_segs (length (sm_segs m)) m" and k: "k < length (sm_segs m)"
    and D: "ib_disk (ibk m L k) sf D'" and same: "same_elsewhere (ibk m L k) (seg_blocks L m) D'"
  shows "seg_blocks L (m\<lparr>sm_disk := (sm_disk m)(k := sf), sm_cache := c'\<rparr>) = D'" (is "seg_blocks L ?m = D'")
proof (rule ext)
  fix x :: u32
  let ?c = "unat (sm_capacity m)"
  have c0: "0 < ?c" using c by (simp add: sm_cfg_def)
  have i: "unat x mod ?c < ?c" using c0 by simp
  show "seg_blocks L ?m x = D' x"
  proof (cases "unat x div ?c = k")
    case True
    then have "x = ib_key (ibk m L k) (unat x mod ?c)" using key_of [OF c, of x] by simp
    then have "D' x = (if (unat x mod ?c + 1) * blk L \<le> unat (sf_cur sf) * L
        then Some (ib_block (ibk m L k) sf (unat x mod ?c)) else None)"
      using D i by (metis (mono_tags, lifting) ib_disk_def ibk_simps(1,2,4) [OF c])
    then show ?thesis using k True by (simp add: seg_blocks_def Let_def ibk_def)
  next
    case False
    have "x \<notin> ib_key (ibk m L k) ` {..<?c}"
      using False key_div_mod(1) [OF c few k] by auto
    then have "D' x = seg_blocks L m x" using same by (simp add: same_elsewhere_def ibk_simps [OF c])
    then show ?thesis using False by (simp add: seg_blocks_def Let_def ibk_def)
  qed
qed

lemma disk_repr_patch:
  assumes S: "0 < S" "SizeOff + 4 \<le> header_size" and dk: "disk_repr S L items P (i div S) sf"
    and i: "i < length items" and v: "length v = L"
  defines "items' \<equiv> (if i < P then items[i := v] else items)"
  shows "disk_repr S L items' P (i div S) (sf\<lparr>sf_base := write_at (sf_base sf) (header_size + i mod S * L) v\<rparr>)"
proof -
  let ?k = "i div S" and ?r = "i mod S"
  let ?f = "write_at (sf_base sf) (header_size + ?r * L) v"
  have ir: "?k * S + ?r = i" and r: "?r < S" using S by simp_all
  have "(?r + 1) * L \<le> S * L" using r by (intro mult_le_mono1) simp
  then have rl: "header_size + ?r * L + L \<le> length (sf_base sf)" using dk by (simp add: disk_repr_def)
  have len: "length ?f = length (sf_base sf)" using rl v by (simp add: write_at_length)
  have old: "pread ?f (header_size + j * L) L = items' ! (?k * S + j)" if j: "j < min S (P - ?k * S)" for j
  proof -
    have oldj: "pread (sf_base sf) (header_size + j * L) L = items ! (?k * S + j)" using dk j by (simp add: disk_repr_def)
    consider "j = ?r" | "j < ?r" | "?r < j" by linarith
    then show ?thesis
    proof cases
      case 1
      then have "i < P" using j ir by linarith
      then show ?thesis using 1 ir i v pread_write_same [of "sf_base sf" "header_size + ?r * L" v] by (simp add: items'_def)
    next
      case 2
      then have "(j + 1) * L \<le> ?r * L" by (intro mult_le_mono1) simp
      then have "pread ?f (header_size + j * L) L = pread (sf_base sf) (header_size + j * L) L"
        using rl by (intro pread_write_other) auto
      moreover have "?k * S + j \<noteq> i" using 2 ir by linarith
      ultimately show ?thesis using oldj by (simp add: items'_def)
    next
      case 3
      then have "(?r + 1) * L \<le> j * L" by (intro mult_le_mono1) simp
      moreover have "(j + 1) * L \<le> S * L" using j by (intro mult_le_mono1) simp
      moreover have "header_size + S * L \<le> length (sf_base sf)" using dk by (simp add: disk_repr_def)
      ultimately have "pread ?f (header_size + j * L) L = pread (sf_base sf) (header_size + j * L) L"
        using rl v by (intro pread_write_other) auto
      moreover have "?k * S + j \<noteq> i" using 3 ir by linarith
      ultimately show ?thesis using oldj by (simp add: items'_def)
    qed
  qed
  have "pread ?f SizeOff 4 = pread (sf_base sf) SizeOff 4" using S(2) rl by (intro pread_write_other) auto
  then show ?thesis using dk old by (simp add: disk_repr_def len le_max_iff_disj)
qed

lemma disk_repr_cong:
  assumes "disk_repr S L items P k sf" "\<And>j. j < P \<Longrightarrow> k * S \<le> j \<Longrightarrow> j < (k + 1) * S \<Longrightarrow> items' ! j = items ! j"
  shows "disk_repr S L items' P k sf"
  using assms by (auto simp: disk_repr_def)

theorem SM_Update_spec:
  assumes r: "sm_repr S L m items P" and i: "i < length items" and v: "length v = L"
  defines "items' \<equiv> (if i < P then items[i := v] else items)"
  shows "\<exists>m'. SM_Update (int i) v m = Some (0, m') \<and> sm_repr S L m' items' P"
proof -
  let ?k = "i div S" and ?n = "length (sm_segs m)"
  let ?ib = "sg_ib (sm_segs m ! ?k)" and ?sf = "sm_disk m ?k"
  have cf: "sm_cfg S L m" and few: "few_segs ?n m" and sz: "sm_size m = length items" and n: "?n = length items div S + 1"
    and P: "P \<le> length items" and len: "\<forall>v \<in> set items. length v = L" and q: "sm_queue m = map (req S L items) [P..<length items]"
    and fresh: "\<forall>k \<ge> ?n. sf_base (sm_disk m k) = []"
    and sg: "\<forall>k < ?n. seg_repr S L m items P k (sm_segs m ! k)" and dk: "\<forall>k < ?n. disk_repr S L items P k (sm_disk m k)"
    and ch: "case sm_cache m of None \<Rightarrow> True | Some c \<Rightarrow> cache_repr L m c"
    using r unfolding sm_repr_def by blast+
  have S: "0 < S" "header_size + S * L < 4294967296" "S * L \<le> unat (sm_capacity m) * blk L" "sm_fixed m = int L"
    using cf by (simp_all add: sm_cfg_def)
  note ix = seg_index [OF r i]
  note ok = seg_block_ok [OF r ix(3)]
  obtain l0 where ib0: "?ib = (ibk m L ?k)\<lparr>ib_last := l0\<rparr>" using sg ix(3) by (auto simp: seg_repr_def)
  have it: "sg_item (sm_segs m ! ?k) = of_nat L" using sg ix(3) by (simp add: seg_repr_def)
  have "(i mod S + 1) * L \<le> S * L" using ix(5) by (intro mult_le_mono1) simp
  then have rl: "i mod S * L + L \<le> S * L" by simp
  have st: "unat (of_nat (i mod S) * of_nat L :: u32) = i mod S * L"
    using rl S(2) unat_of_nat32 [of "i mod S * L"] by simp
  have lb: "header_size + S * L \<le> length (sf_base ?sf)" using dk ix(3) by (simp add: disk_repr_def)
  define sf' where "sf' = ?sf\<lparr>sf_base := write_at (sf_base ?sf) (header_size + i mod S * L) v\<rparr>"
  obtain c' D' where u: "Block_Update v (of_nat (i mod S) * of_nat L) ?sf (sm_cache m) ?ib = Some (sf', c')"
    "case c' of None \<Rightarrow> sm_cache m = None | Some cc \<Rightarrow> ib_fits cc ?ib \<and> vc.coherent D' cc \<and>
       map_option cache_valid (sm_cache m) = Some (cache_valid cc) \<and> ib_disk ?ib sf' D' \<and> same_elsewhere ?ib (seg_blocks L m) D'"
  proof -
    have pe: "patched ?ib (of_nat (i mod S) * of_nat L) v ?sf = sf'" by (simp add: sf'_def st ib0 ibk_simps [OF cf])
    have b1: "unat (of_nat (i mod S) * of_nat L :: u32) + length v \<le> unat (ib_capacity ?ib) * unat (ib_per_block ?ib)"
      using rl S(3) v by (simp add: st ib0 ibk_simps [OF cf])
    have b2: "unat (ib_header ?ib) + unat (of_nat (i mod S) * of_nat L :: u32) + length v < 4294967296"
      "unat (ib_header ?ib) + unat (of_nat (i mod S) * of_nat L :: u32) + length v \<le> length (sf_base ?sf)"
      using rl S(2) v lb by (simp_all add: st ib0 ibk_simps [OF cf])
    show ?thesis using Block_Update_spec [OF ok b1 b2, unfolded pe] that by blast
  qed
  define m' where "m' = m\<lparr>sm_disk := (sm_disk m)(?k := sf'), sm_cache := c'\<rparr>"
  have e: "SM_Update (int i) v m = Some (0, m')"
    using i u(1) v S(4) by (simp add: SM_Update_def sz ix SG_Update_def it m'_def)
  have cap: "sm_capacity m' = sm_capacity m" by (simp add: m'_def)
  have "case c' of None \<Rightarrow> True | Some c \<Rightarrow> cache_repr L m' c"
  proof (cases c')
    case (Some cc)
    then have cc: "ib_fits cc ?ib" "vc.coherent D' cc" "ib_disk (ibk m L ?k) sf' D'" "same_elsewhere (ibk m L ?k) (seg_blocks L m) D'"
      using u(2) by (simp_all add: ib0 same_elsewhere_def)
    obtain c0 where "sm_cache m = Some c0" "cache_valid cc = cache_valid c0" using u(2) Some by auto
    moreover have "seg_blocks L m' = D'" unfolding m'_def by (rule seg_blocks_eq [OF cf few ix(3) cc(3,4)])
    ultimately show ?thesis
      using Some ch cc by (simp add: cache_repr_def ibk_cong [OF cap] few_segs_cong [OF cap] ib_fits_def ib0 ibk_simps [OF cf] cap)
  qed simp
  moreover have "seg_repr S L m' items' P k (sm_segs m ! k)" if "k < ?n" for k
    using sg that by (simp add: seg_repr_def ibk_cong [OF cap] items'_def)
  moreover have "disk_repr S L items' P k (sm_disk m' k)" if "k < ?n" for k
  proof (cases "k = ?k")
    case True
    then show ?thesis
      using dk that disk_repr_patch [of S L items P i ?sf v] S(1) i v
      by (simp add: m'_def sf'_def items'_def SizeOff_def CapacityOff_def)
  next
    case False
    have "items' ! j = items ! j" if "k * S \<le> j" "j < (k + 1) * S" for j
    proof -
      have "j \<noteq> i" using False that div_nat_eqI [of S k j] by (auto simp: mult.commute)
      then show ?thesis by (simp add: items'_def)
    qed
    then show ?thesis using dk that False by (auto simp: m'_def intro: disk_repr_cong)
  qed
  moreover have "\<forall>k \<ge> ?n. sf_base (sm_disk m' k) = []" using fresh ix(3) by (simp add: m'_def)
  moreover have "sm_queue m' = map (req S L items') [P..<length items']"
    using q by (auto simp: m'_def items'_def req_def)
  moreover have "\<forall>v \<in> set items'. length v = L" using len v by (auto simp: items'_def dest: set_update_subset_insert [THEN subsetD])
  moreover have "sm_cfg S L m'" using cf by (simp add: sm_cfg_def m'_def)
  moreover have "few_segs ?n m'" using few by (simp only: few_segs_cong [OF cap])
  moreover have f: "sm_segs m' = sm_segs m" "sm_cache m' = c'" "sm_size m' = sm_size m" by (simp_all add: m'_def)
  moreover have ln: "length items' = length items" by (simp add: items'_def)
  ultimately have "sm_repr S L m' items' P" using n P sz unfolding sm_repr_def f ln by blast
  then show ?thesis using e by blast
qed

subsection \<open>Adding\<close>

text \<open>The representation without the size, and with any number \<open>K\<close> of segments.\<close>

definition sm_core :: "nat \<Rightarrow> nat \<Rightarrow> sm \<Rightarrow> byte list list \<Rightarrow> nat \<Rightarrow> nat \<Rightarrow> bool" where
  "sm_core S L m items P K \<longleftrightarrow> sm_cfg S L m \<and> length (sm_segs m) = K \<and> few_segs K m \<and> P \<le> length items \<and>
     (\<forall>v \<in> set items. length v = L) \<and>
     sm_queue m = map (req S L items) [P..<length items] \<and> (\<forall>k \<ge> K. sf_base (sm_disk m k) = []) \<and>
     (\<forall>k < K. seg_repr S L m items P k (sm_segs m ! k) \<and> disk_repr S L items P k (sm_disk m k)) \<and>
     (case sm_cache m of None \<Rightarrow> True | Some c \<Rightarrow> cache_repr L m c)"

lemma sm_repr_core:
  "sm_repr S L m items P \<longleftrightarrow> sm_core S L m items P (length items div S + 1) \<and> sm_size m = length items"
proof (cases "length (sm_segs m) = length items div S + 1")
  case True
  show ?thesis unfolding sm_repr_def sm_core_def True by blast
next
  case False
  then show ?thesis unfolding sm_repr_def sm_core_def by blast
qed

lemma sm_core_size: "sm_core S L (m\<lparr>sm_size := n\<rparr>) = sm_core S L m"
proof -
  let ?m = "m\<lparr>sm_size := n\<rparr>"
  have "ibk ?m = ibk m" "few_segs k ?m = few_segs k m" for k by (simp_all add: ibk_def fun_eq_iff few_segs_def)
  moreover have "seg_blocks L ?m = seg_blocks L m" by (simp add: seg_blocks_def Let_def fun_eq_iff ibk_def)
  ultimately have "cache_repr L ?m c = cache_repr L m c" "seg_repr S L ?m items P j s = seg_repr S L m items P j s" for c items P j s
    by (simp_all add: cache_repr_def seg_repr_def)
  then show ?thesis by (intro ext) (simp add: sm_core_def sm_cfg_def few_segs_def cong: option.case_cong)
qed

lemma SG_InitBlock_frame:
  "sg_max (SG_InitBlock o' fs s) = sg_max s" "sg_item (SG_InitBlock o' fs s) = sg_item s" "sg_ib (SG_InitBlock o' fs s) = sg_ib s"
  "sg_buffered (SG_InitBlock o' fs s) = sg_buffered s"
  by (auto simp: SG_InitBlock_def Let_def split: option.splits)

lemma SG_IsFull_frame:
  "sg_max (snd (SG_IsFull s)) = sg_max s" "sg_item (snd (SG_IsFull s)) = sg_item s"
  "sg_ib (snd (SG_IsFull s)) = sg_ib s" "sg_buffered (snd (SG_IsFull s)) = sg_buffered s"
  by (auto simp: SG_IsFull_def)

lemma SG_Init_spec:
  assumes "sf_base sf = []" "unat (sg_item s * sg_max s) = n"
  shows "\<exists>s' base. SG_Init o' fs s sf = (s', \<lparr>sf_base = base, sf_cur = 0\<rparr>) \<and> header_size + n \<le> length base \<and>
    of_le32 (pread base SizeOff 4) = 0 \<and>
    sg_max s' = sg_max s \<and> sg_item s' = sg_item s \<and> sg_ib s' = sg_ib s \<and> sg_buffered s' = sg_buffered s"
proof -
  define cap where "cap = (if fs \<noteq> None then header_size + unat (sg_max s * 4) else sg_str_capacity s)"
  define s1 where "s1 = s\<lparr>sg_str_capacity := cap\<rparr>"
  define base where "base = write_at (write_at (replicate (header_size + n) 0) StrCapacityOff (le64 cap)) StrOffsetOff (le32 (sg_str_offset s1))"
  have l8: "length (le64 cap) = 8" by (simp add: le64_def)
  have "pread base SizeOff 4 = pread (write_at (replicate (header_size + n) 0) StrCapacityOff (le64 cap)) SizeOff 4"
    unfolding base_def
    by (intro pread_write_other) (auto simp: l8 SizeOff_def CapacityOff_def StrOffsetOff_def StrCapacityOff_def)
  also have "\<dots> = pread (replicate (header_size + n) 0) SizeOff 4"
    by (intro pread_write_other) (auto simp: l8 SizeOff_def CapacityOff_def StrOffsetOff_def StrCapacityOff_def)
  also have "\<dots> = le32 0"
  proof -
    have "length (le32 0) = 4" "\<forall>b \<in> set (le32 0). b = 0" by (simp_all add: le32_def)
    then have "le32 0 = replicate 4 0" by (intro replicate_eqI) auto
    then show ?thesis by (simp add: pread_def SizeOff_def CapacityOff_def min_def)
  qed
  finally have "of_le32 (pread base SizeOff 4) = 0" by simp
  moreover have "header_size + n \<le> length base" by (simp add: base_def le_max_iff_disj)
  moreover have "SG_Init o' fs s sf =
      (SG_InitBlock o' (map_option (\<lambda>(str, idx). (ftruncate cap str, idx)) fs) s1, \<lparr>sf_base = base, sf_cur = 0\<rparr>)"
    using assms by (simp add: SG_Init_def Let_def SetStrOffset_def SetStrCapacity_def ftruncate_def base_def s1_def cap_def)
  ultimately show ?thesis by (simp add: SG_InitBlock_frame s1_def)
qed

lemma SM_Extend_spec:
  assumes r: "sm_core S L m items P K" and K: "length items \<le> K * S" "few_segs (K + 1) m"
  shows "sm_core S L (SM_Extend m) items P (K + 1)" "sm_size (SM_Extend m) = sm_size m"
    "sm_capacity (SM_Extend m) = sm_capacity m"
proof -
  have cf: "sm_cfg S L m" and n: "length (sm_segs m) = K" and P: "P \<le> length items" and len: "\<forall>v \<in> set items. length v = L"
    and q: "sm_queue m = map (req S L items) [P..<length items]" and fresh: "\<forall>k \<ge> K. sf_base (sm_disk m k) = []"
    and sg: "\<forall>k < K. seg_repr S L m items P k (sm_segs m ! k)" and dk: "\<forall>k < K. disk_repr S L items P k (sm_disk m k)"
    and ch: "case sm_cache m of None \<Rightarrow> True | Some c \<Rightarrow> cache_repr L m c"
    using r unfolding sm_core_def by blast+
  have fx: "sm_fixed m = int L" "sm_segment_size m = int S" "header_size + S * L < 4294967296" "0 < blk L"
    using cf blk_bounds [of L] by (auto simp: sm_cfg_def)
  have PK: "P - K * S = 0" "length items - K * S = 0" using P K by simp_all
  have ns: "sg_max (new_seg m) = of_nat S" "sg_item (new_seg m) = of_nat L" "sg_ib (new_seg m) = ibk m L K" "sg_buffered (new_seg m) = 0"
    by (simp_all add: new_seg_def Seg_new_def fx n ibk_def)
  have "unat (of_nat L * of_nat S :: u32) = S * L"
    using fx(3) unat_of_nat32 [of "L * S"] by (simp add: mult.commute)
  then obtain s' base where i: "SG_Init (sm_can_open m) (seg_files m) (new_seg m) (sm_disk m K) = (s', \<lparr>sf_base = base, sf_cur = 0\<rparr>)"
    "header_size + S * L \<le> length base" "of_le32 (pread base SizeOff 4) = 0"
    "sg_max s' = of_nat S" "sg_item s' = of_nat L" "sg_ib s' = ibk m L K" "sg_buffered s' = 0"
    using SG_Init_spec [of "sm_disk m K" "new_seg m" "S * L" "sm_can_open m" "seg_files m"] fresh by (auto simp: ns)
  define m' where "m' = SM_Extend m"
  have m': "m' = m\<lparr>sm_segs := sm_segs m @ [s'], sm_disk := (sm_disk m)(K := \<lparr>sf_base = base, sf_cur = 0\<rparr>), sm_nfiles := max (Suc K) (sm_nfiles m)\<rparr>"
    by (simp add: m'_def SM_Extend_def n i Let_def)
  have cap: "sm_capacity m' = sm_capacity m" by (simp add: m')
  have "seg_blocks L m \<subseteq>\<^sub>m seg_blocks L m'"
    by (rule seg_blocks_mono [OF cf cap]) (simp_all add: m' n)
  then have "case sm_cache m' of None \<Rightarrow> True | Some c \<Rightarrow> cache_repr L m' c"
    using ch cache_repr_mono [OF _ cap] by (auto simp: m' split: option.splits)
  moreover have "seg_repr S L m' items P k (sm_segs m' ! k)" if "k < K + 1" for k
  proof (cases "k = K")
    case True
    have "sm_segs m' ! k = s'" using True n by (simp add: m' nth_append)
    moreover have "ib_last (ibk m L K) = 0" by (simp add: ibk_def IB_new_def)
    then have "ibk m L K = (ibk m L K)\<lparr>ib_last := 0\<rparr>" by simp
    ultimately show ?thesis using True i PK unfolding seg_repr_def ibk_cong [OF cap]
      by (intro conjI exI [of _ 0]) simp_all
  next
    case False
    then show ?thesis using sg that n by (simp add: m' seg_repr_def nth_append ibk_def)
  qed
  moreover have "disk_repr S L items P k (sm_disk m' k)" if "k < K + 1" for k
    using dk that i(2,3) PK by (cases "k = K") (simp_all add: m' disk_repr_def)
  moreover have "\<forall>k \<ge> K + 1. sf_base (sm_disk m' k) = []" using fresh by (simp add: m')
  moreover have "sm_cfg S L m'" using cf by (simp add: sm_cfg_def m')
  moreover have "few_segs (K + 1) m'" using K(2) by (simp only: few_segs_cong [OF cap])
  moreover have "length (sm_segs m') = K + 1" "sm_queue m' = map (req S L items) [P..<length items]" using n q by (simp_all add: m')
  ultimately show "sm_core S L (SM_Extend m) items P (K + 1)"
    using P len unfolding sm_core_def m'_def by blast
  show "sm_size (SM_Extend m) = sm_size m" "sm_capacity (SM_Extend m) = sm_capacity m" by (simp_all add: m' flip: m'_def)
qed

theorem SM_Add_spec:
  assumes r: "sm_repr S L m items P" and v: "length v = L" and room: "few_segs (length (sm_segs m) + 1) m"
  shows "\<exists>m'. SM_Add v m = (0, m') \<and> sm_repr S L m' (items @ [v]) P"
proof -
  let ?N = "length items" and ?k = "length items div S" and ?r = "length items mod S"
  have cf: "sm_cfg S L m" and few: "few_segs (length (sm_segs m)) m" and sz: "sm_size m = ?N" and n: "length (sm_segs m) = ?k + 1"
    and P: "P \<le> ?N" and len: "\<forall>v \<in> set items. length v = L" and q: "sm_queue m = map (req S L items) [P..<?N]"
    and fresh: "\<forall>k \<ge> length (sm_segs m). sf_base (sm_disk m k) = []"
    and sg: "\<forall>k < length (sm_segs m). seg_repr S L m items P k (sm_segs m ! k)"
    and dk: "\<forall>k < length (sm_segs m). disk_repr S L items P k (sm_disk m k)"
    and ch: "case sm_cache m of None \<Rightarrow> True | Some c \<Rightarrow> cache_repr L m c"
    using r unfolding sm_repr_def by blast+
  have S: "0 < S" "0 < L" "header_size + S * L < 4294967296" "sm_fixed m = int L" using cf by (simp_all add: sm_cfg_def)
  have rS: "?r < S" and Nr: "?k * S + ?r = ?N" using S(1) by simp_all
  have NmS: "?N - ?k * S = ?r" using Nr by linarith
  have SL: "S \<le> S * L" using S(2) by simp
  have last: "last (sm_segs m) = sm_segs m ! ?k" using n by (metis add_diff_cancel_right' last_conv_nth list.size(3) add_is_0 zero_neq_one)
  define s where "s = sm_segs m ! ?k"
  have s: "sg_max s = of_nat S" "sg_item s = of_nat L" "unat (sg_buffered s) = ?r"
    using sg n rS NmS unfolding s_def seg_repr_def by auto
  obtain l0 where ib0: "sg_ib s = (ibk m L ?k)\<lparr>ib_last := l0\<rparr>" "unat l0 * blk L \<le> min S (P - ?k * S) * L"
    using sg n unfolding s_def seg_repr_def by auto
  define s1 where "s1 = s\<lparr>sg_buffered := sg_buffered s + 1\<rparr>"
  have b0: "?r + 1 < 4294967296" using rS SL S(3) by linarith
  then have sb: "sg_buffered s = of_nat ?r" using s(3) by (simp add: word_unat_eq_iff unat_of_nat32)
  have b1: "unat (sg_buffered s + 1) = ?r + 1" using s(3) b0 by (simp add: unat_succ)
  have uS: "unat (of_nat S :: u32) = S" using SL S(3) by (intro unat_of_nat32) linarith
  define full where "full \<longleftrightarrow> ?r + 1 = S"
  have fullw: "sg_buffered s + 1 = sg_max s \<longleftrightarrow> full"
    unfolding s(1) full_def using b1 uS by (metis word_unat_eq_iff)
  define s2 where "s2 = snd (SG_IsFull s1)"
  have isf: "SG_IsFull s1 = (full, s2)" using fullw by (simp add: s2_def s1_def SG_IsFull_def)
  have s2: "sg_max s2 = of_nat S" "sg_item s2 = of_nat L" "unat (sg_buffered s2) = ?r + 1" "sg_ib s2 = sg_ib s"
    using s b1 by (simp_all add: s2_def s1_def SG_IsFull_frame)
  have "(ib_header (sg_ib s) + sg_buffered s * sg_item s) = of_nat (header_size + ?r * L)"
    by (simp add: ib0 ibk_def IB_new_def s(2) sb)
  then have rq: "TableBlock_Write ?k v (sg_buffered s * sg_item s) (sg_ib s) (sm_queue m) = map (req S L (items @ [v])) [P..<?N + 1]"
    using P by (simp add: TableBlock_Write_def q req_def nth_append)
  define m1 where "m1 = m\<lparr>sm_segs := butlast (sm_segs m) @ [s2], sm_queue := map (req S L (items @ [v])) [P..<?N + 1]\<rparr>"
  have cap: "sm_capacity m1 = sm_capacity m" by (simp add: m1_def)
  have c1: "sm_core S L m1 (items @ [v]) P (?k + 1)"
    unfolding sm_core_def
  proof (intro conjI allI impI)
    have sb: "seg_blocks L m1 = seg_blocks L m" using n by (simp add: seg_blocks_def Let_def fun_eq_iff m1_def ibk_def)
    show "case sm_cache m1 of None \<Rightarrow> True | Some c \<Rightarrow> cache_repr L m1 c"
    proof -
      have "sm_cache m1 = sm_cache m" by (simp add: m1_def)
      then show ?thesis using ch cache_repr_mono [OF _ cap] by (auto simp: sb split: option.splits)
    qed
    fix k assume k: "k < ?k + 1"
    show "disk_repr S L (items @ [v]) P k (sm_disk m1 k)"
      using dk k n P by (auto simp: m1_def nth_append intro: disk_repr_cong)
    show "seg_repr S L m1 (items @ [v]) P k (sm_segs m1 ! k)"
    proof (cases "k = ?k")
      case True
      have "length (items @ [v]) = ?N + 1" by simp
      then have "length (items @ [v]) - k * S = ?r + 1" using Nr unfolding True by linarith
      moreover have "sm_segs m1 ! k = s2" using True n by (simp add: m1_def nth_append)
      ultimately show ?thesis using s2 rS ib0 True unfolding seg_repr_def ibk_cong [OF cap] by auto
    next
      case False
      then have "(k + 1) * S \<le> ?k * S" using k by (intro mult_le_mono1) simp
      then have "S + k * S \<le> ?N" using Nr by (simp only: add_mult_distrib mult_1)
      then have "S \<le> ?N - k * S" "S \<le> length (items @ [v]) - k * S" by simp_all
      moreover have "sm_segs m1 ! k = sm_segs m ! k" using False k n by (simp add: m1_def nth_append nth_butlast)
      ultimately show ?thesis using sg k n unfolding seg_repr_def ibk_cong [OF cap] by auto
    qed
  qed (use cf few n P len v fresh in \<open>simp_all add: m1_def sm_cfg_def few_segs_def\<close>)
  define m2 where "m2 = (if full then SM_Extend m1 else m1)"
  have m2: "sm_core S L m2 (items @ [v]) P (length (items @ [v]) div S + 1)" "sm_size m2 = sm_size m"
  proof -
    have "(?N + 1) div S = (if full then ?k + 1 else ?k)"
      using S(1) by (simp add: full_def div_Suc mod_Suc)
    moreover have "?N + 1 \<le> ?k * S + S" using Nr rS by linarith
    then have "length (items @ [v]) \<le> (?k + 1) * S" by simp
    moreover have "few_segs (?k + 1 + 1) m1" using room n by (simp add: few_segs_def m1_def)
    moreover have "sm_size m1 = sm_size m" by (simp add: m1_def)
    ultimately show "sm_core S L m2 (items @ [v]) P (length (items @ [v]) div S + 1)" "sm_size m2 = sm_size m"
      using SM_Extend_spec [OF c1] c1 by (auto simp: m2_def)
  qed
  have "SM_Add v m = (0, m2\<lparr>sm_size := sm_size m2 + 1\<rparr>)"
    using v S(4) isf n rq by (simp add: SM_Add_def last SG_Add_def Let_def m2_def m1_def flip: s_def s1_def)
  moreover have "sm_repr S L (m2\<lparr>sm_size := sm_size m2 + 1\<rparr>) (items @ [v]) P"
    using m2 sz by (simp add: sm_repr_core sm_core_size)
  ultimately show ?thesis by blast
qed

subsection \<open>Loading\<close>

text \<open>The number of items that the header of a segment file records.\<close>

definition stored :: "sm \<Rightarrow> nat \<Rightarrow> u32" where
  "stored m k = of_le32 (pread (sf_base (sm_disk m k)) SizeOff 4)"

lemma SG_Load_spec:
  assumes "of_le32 (pread (sf_base sf) SizeOff 4) \<le> sg_max s"
  shows "\<exists>s'. SG_Load o' fs s sf = (s', sf\<lparr>sf_cur := of_le32 (pread (sf_base sf) SizeOff 4)\<rparr>) \<and>
    sg_max s' = sg_max s \<and> sg_item s' = sg_item s \<and> sg_ib s' = sg_ib s \<and>
    sg_buffered s' = of_le32 (pread (sf_base sf) SizeOff 4)"
  using assms by (auto simp: SG_Load_def Let_def PersistentedSize_def SG_InitBlock_frame dest: leD)

lemma load_segments_spec:
  assumes "sm_cfg S L m" "\<forall>k. length (sm_segs m) \<le> k \<and> k < length (sm_segs m) + n \<longrightarrow> unat (stored m k) \<le> S"
  shows "\<exists>segs. load_segments n m = m\<lparr>sm_segs := sm_segs m @ segs,
      sm_disk := (\<lambda>k. if length (sm_segs m) \<le> k \<and> k < length (sm_segs m) + n then (sm_disk m k)\<lparr>sf_cur := stored m k\<rparr> else sm_disk m k),
      sm_size := sm_size m + (\<Sum>k = length (sm_segs m)..<length (sm_segs m) + n. unat (stored m k))\<rparr> \<and>
    length segs = n \<and> (\<forall>i < n. sg_max (segs ! i) = of_nat S \<and> sg_item (segs ! i) = of_nat L \<and>
      sg_ib (segs ! i) = ibk m L (length (sm_segs m) + i) \<and> sg_buffered (segs ! i) = stored m (length (sm_segs m) + i))"
  using assms
proof (induction n arbitrary: m)
  case 0
  have "(\<lambda>k. if length (sm_segs m) \<le> k \<and> k < length (sm_segs m) + 0 then (sm_disk m k)\<lparr>sf_cur := stored m k\<rparr> else sm_disk m k) = sm_disk m"
    by (auto simp: fun_eq_iff)
  then show ?case by (intro exI [of _ "[]"]) simp
next
  case (Suc n)
  let ?k = "length (sm_segs m)"
  have S: "sm_segment_size m = int S" "sm_fixed m = int L" "header_size + S * L < 4294967296" "0 < L"
    using Suc.prems(1) by (simp_all add: sm_cfg_def)
  have "S \<le> S * L" using S(4) by simp
  then have uS: "unat (of_nat S :: u32) = S" using S(3) by (intro unat_of_nat32) linarith
  have ns: "sg_max (new_seg m) = of_nat S" "sg_item (new_seg m) = of_nat L" "sg_ib (new_seg m) = ibk m L ?k"
    by (simp_all add: new_seg_def Seg_new_def S(1,2) ibk_def)
  have "stored m ?k \<le> of_nat S" using Suc.prems(2) uS by (simp add: word_le_nat_alt)
  then obtain s' where l: "SG_Load (sm_can_open m) (seg_files m) (new_seg m) (sm_disk m ?k) = (s', (sm_disk m ?k)\<lparr>sf_cur := stored m ?k\<rparr>)"
    "sg_max s' = of_nat S" "sg_item s' = of_nat L" "sg_ib s' = ibk m L ?k" "sg_buffered s' = stored m ?k"
    using SG_Load_spec [of "sm_disk m ?k" "new_seg m" "sm_can_open m" "seg_files m"] by (auto simp: ns stored_def)
  define m1 where "m1 = m\<lparr>sm_segs := sm_segs m @ [s'], sm_disk := (sm_disk m)(?k := (sm_disk m ?k)\<lparr>sf_cur := stored m ?k\<rparr>),
    sm_size := sm_size m + unat (stored m ?k)\<rparr>"
  have st: "stored m1 k = stored m k" for k by (simp add: m1_def stored_def)
  have e: "load_segments (Suc n) m = load_segments n m1" by (simp add: l Let_def m1_def)
  have c1: "sm_cfg S L m1" using Suc.prems(1) by (simp add: sm_cfg_def m1_def)
  have "\<forall>k. length (sm_segs m1) \<le> k \<and> k < length (sm_segs m1) + n \<longrightarrow> unat (stored m1 k) \<le> S"
    unfolding st using Suc.prems(2) by (simp add: m1_def)
  from Suc.IH [OF c1 this] obtain segs where
    ih: "load_segments n m1 = m1\<lparr>sm_segs := sm_segs m1 @ segs,
      sm_disk := (\<lambda>k. if length (sm_segs m1) \<le> k \<and> k < length (sm_segs m1) + n then (sm_disk m1 k)\<lparr>sf_cur := stored m k\<rparr> else sm_disk m1 k),
      sm_size := sm_size m1 + (\<Sum>k = length (sm_segs m1)..<length (sm_segs m1) + n. unat (stored m k))\<rparr>"
    "length segs = n" "\<forall>i < n. sg_max (segs ! i) = of_nat S \<and> sg_item (segs ! i) = of_nat L \<and>
      sg_ib (segs ! i) = ibk m1 L (length (sm_segs m1) + i) \<and> sg_buffered (segs ! i) = stored m (length (sm_segs m1) + i)"
    unfolding st by blast
  have k1: "length (sm_segs m1) = Suc ?k" "ibk m1 = ibk m" by (simp_all add: m1_def ibk_def fun_eq_iff)
  have "(\<lambda>k. if Suc ?k \<le> k \<and> k < Suc ?k + n then (sm_disk m1 k)\<lparr>sf_cur := stored m k\<rparr> else sm_disk m1 k) =
      (\<lambda>k. if ?k \<le> k \<and> k < ?k + Suc n then (sm_disk m k)\<lparr>sf_cur := stored m k\<rparr> else sm_disk m k)"
    by (auto simp: fun_eq_iff m1_def not_less_eq_eq)
  moreover have "sm_size m1 + (\<Sum>k = Suc ?k..<Suc ?k + n. unat (stored m k)) =
      sm_size m + (\<Sum>k = ?k..<?k + Suc n. unat (stored m k))"
    by (simp add: m1_def sum.atLeast_Suc_lessThan)
  ultimately have "load_segments n m1 = m\<lparr>sm_segs := sm_segs m @ s' # segs,
      sm_disk := (\<lambda>k. if ?k \<le> k \<and> k < ?k + Suc n then (sm_disk m k)\<lparr>sf_cur := stored m k\<rparr> else sm_disk m k),
      sm_size := sm_size m + (\<Sum>k = ?k..<?k + Suc n. unat (stored m k))\<rparr>"
    using ih(1) by (simp add: k1(1) m1_def)
  moreover have "sg_max ((s' # segs) ! i) = of_nat S \<and> sg_item ((s' # segs) ! i) = of_nat L \<and>
      sg_ib ((s' # segs) ! i) = ibk m L (?k + i) \<and> sg_buffered ((s' # segs) ! i) = stored m (?k + i)" if "i < Suc n" for i
    using that l ih(3) by (cases i) (simp_all add: k1)
  ultimately show ?case using ih(2) unfolding e by (intro exI [of _ "s' # segs"]) simp
qed

text \<open>The state of a new process over the files that \<open>m\<close> leaves.\<close>

definition restart :: "sm \<Rightarrow> sm" where
  "restart m = m\<lparr>sm_segs := [], sm_disk := \<lambda>k. (sm_disk m k)\<lparr>sf_cur := 0\<rparr>,
     sm_files := keep_files (sm_segs m) 0 (sm_files m), sm_queue := [], sm_size := 0, sm_cache := None, sm_str_cache := None\<rparr>"

definition cache_sized :: "int \<Rightarrow> nat \<Rightarrow> bool" where
  "cache_sized cs cell \<longleftrightarrow> cs < 2 ^ 31 \<and> nat cs * 1024 * 1024 div cell + 500 < 2 ^ 32"

lemma fresh_cache_repr:
  assumes c: "sm_cfg S L m" and f: "cache_sized cs (blk L)"
  shows "case fresh_cache cs (unat (item_block_size (word_of_int (sm_fixed m)))) (sm_capacity m) of
    None \<Rightarrow> True | Some c \<Rightarrow> cache_repr L m c"
proof -
  have L: "0 < L" "L \<le> MAX_BLOCK_SIZE" "sm_fixed m = int L" "0 < unat (sm_capacity m)" using c by (simp_all add: sm_cfg_def)
  have cell: "unat (item_block_size (word_of_int (sm_fixed m))) = blk L" using unat_item_block_size [OF L(1,2)] by (simp add: L(3))
  have b: "1 \<le> blk L" "blk L \<le> MAX_BLOCK_SIZE" using blk_bounds [OF L(1,2)] L(1) by simp_all
  consider "cs > 0" | "cs < 0" | "cs = 0" by linarith
  then show ?thesis
  proof cases
    case 1
    have "1 \<le> nat cs" "nat cs < 2 ^ 31" using 1 f by (simp_all add: cache_sized_def nat_less_iff)
    then have "blk L \<le> nat cs * 1024 * 1024" "nat cs * 1024 * 1024 < 2 ^ 64" using b by simp_all
    note ok = LC_new_ok [OF b(1) this]
    have "nat cs * 1024 * 1024 div blk L + 500 < 2 ^ 32" using f by (simp add: cache_sized_def)
    note ok = ok [OF this]
    have "vc.coherent (seg_blocks L m) (CLru (LC_new (nat cs) (blk L)))" by (simp add: vc.coherent_def ok)
    then show ?thesis using 1 ok by (simp add: fresh_cache_def cell cache_repr_def)
  next
    case 2
    note ok = SC_new_ok [OF L(4), of 0 "blk L", simplified]
    have "vc.coherent (seg_blocks L m) (CSimple (SC_new (blk L) (unat (sm_capacity m)) 0))" by (simp add: vc.coherent_def ok)
    moreover have "cache_valid (CSimple (SC_new (blk L) (unat (sm_capacity m)) 0)) (ib_key (ibk m L k) i)"
      if "k < 400" "i < unat (sm_capacity m)" "few_segs (k + 1) m" for k i
      using key_div_mod(1) [OF c that(3) _ that(2), of k] that(1) by (simp add: sc_valid_def ok)
    ultimately show ?thesis using 2 ok by (simp add: fresh_cache_def cell cache_repr_def)
  qed (simp add: fresh_cache_def)
qed

lemma sum_stored:
  fixes P S :: nat
  shows "(\<Sum>k = 0..<K. min S (P - k * S)) = min P (K * S)"
  by (induction K) auto

lemma load_files:
  assumes r: "sm_repr S L m items P" and n: "sm_nfiles m = length (sm_segs m)"
    and m0: "m0 = (restart m)\<lparr>sm_cache := c, sm_str_cache := c'\<rparr>"
  shows "\<exists>m'. SM_Load m0 = m' \<and> length (sm_segs m') = length (sm_segs m) \<and> sm_size m' = P \<and> sm_queue m' = [] \<and> sm_cache m' = c \<and>
    sm_cfg S L m' \<and> sm_capacity m' = sm_capacity m \<and>
    (\<forall>k < length (sm_segs m). sm_disk m' k = sm_disk m k \<and> sg_max (sm_segs m' ! k) = of_nat S \<and> sg_item (sm_segs m' ! k) = of_nat L \<and>
       sg_ib (sm_segs m' ! k) = ibk m L k \<and> unat (sg_buffered (sm_segs m' ! k)) = min S (P - k * S)) \<and>
    (\<forall>k \<ge> length (sm_segs m). sf_base (sm_disk m' k) = [])"
proof -
  let ?K = "length (sm_segs m)"
  have cf: "sm_cfg S L m" and K: "?K = length items div S + 1" and P: "P \<le> length items"
    and dk: "\<forall>k < ?K. disk_repr S L items P k (sm_disk m k)" and fresh: "\<forall>k \<ge> ?K. sf_base (sm_disk m k) = []"
    using r unfolding sm_repr_def by blast+
  have st: "stored m0 k = sf_cur (sm_disk m k)" "unat (stored m0 k) = min S (P - k * S)" if "k < ?K" for k
    using dk that by (simp_all add: stored_def m0 restart_def disk_repr_def)
  have c0: "sm_cfg S L m0" "sm_nfiles m0 = ?K" "ibk m0 = ibk m" using cf n by (simp_all add: sm_cfg_def m0 restart_def ibk_def fun_eq_iff)
  have "length items < (length items div S + 1) * S" using cf by (simp add: sm_cfg_def dividend_less_div_times)
  then have PK: "P \<le> ?K * S" using P K by simp
  have z: "sm_segs m0 = []" "sm_queue m0 = []" "sm_size m0 = 0" "sm_cache m0 = c" "sm_capacity m0 = sm_capacity m" by (simp_all add: m0 restart_def)
  have "\<forall>k. length (sm_segs m0) \<le> k \<and> k < length (sm_segs m0) + ?K \<longrightarrow> unat (stored m0 k) \<le> S" using st by (simp add: z)
  from load_segments_spec [OF c0(1) this] obtain segs where
    l: "load_segments ?K m0 = m0\<lparr>sm_segs := segs, sm_disk := (\<lambda>k. if k < ?K then (sm_disk m0 k)\<lparr>sf_cur := stored m0 k\<rparr> else sm_disk m0 k),
      sm_size := (\<Sum>k = 0..<?K. unat (stored m0 k))\<rparr>"
    "length segs = ?K" "\<forall>i < ?K. sg_max (segs ! i) = of_nat S \<and> sg_item (segs ! i) = of_nat L \<and>
      sg_ib (segs ! i) = ibk m L i \<and> sg_buffered (segs ! i) = stored m0 i"
    by (auto simp: z c0(3))
  have "(\<Sum>k = 0..<?K. unat (stored m0 k)) = (\<Sum>k = 0..<?K. min S (P - k * S))" by (intro sum.cong refl) (use st(2) in simp)
  also have "\<dots> = P" using PK by (simp add: sum_stored)
  finally have sz: "(\<Sum>k = 0..<?K. unat (stored m0 k)) = P" .
  have dsk: "(sm_disk m0 k)\<lparr>sf_cur := stored m0 k\<rparr> = sm_disk m k" if "k < ?K" for k
    using st(1) [OF that] by (simp add: m0 restart_def)
  have e: "SM_Load m0 = load_segments ?K m0" by (simp add: SM_Load_def z c0(2))
  show ?thesis unfolding e l(1) using l(2,3) dsk st fresh c0(1) z sz
    by (simp add: sm_cfg_def) (simp add: m0 restart_def)
qed

text \<open>A new manager over no files.\<close>

theorem SM_Init_empty:
  assumes c: "sm_cfg S L m" and z: "sm_segs m = []" "sm_queue m = []" "sm_size m = 0" "sm_nfiles m = 0" "\<forall>k. sf_base (sm_disk m k) = []"
    and f: "cache_sized cs (blk L)" and few: "few_segs 1 m"
  shows "\<exists>m'. SM_Init cs ss m = (0, m') \<and> sm_repr S L m' [] 0"
proof -
  define m1 where "m1 = m\<lparr>sm_cache := fresh_cache cs (unat (item_block_size (word_of_int (sm_fixed m)))) (sm_capacity m),
    sm_str_cache := fresh_cache ss MAX_BLOCK_SIZE (sm_capacity m)\<rparr>"
  have c1: "sm_cfg S L m1" using c by (simp add: sm_cfg_def m1_def)
  have "case sm_cache m1 of None \<Rightarrow> True | Some c \<Rightarrow> cache_repr L m1 c"
    using fresh_cache_repr [OF c1 f] by (simp add: m1_def)
  moreover have "sm_segs m1 = []" "sm_queue m1 = []" "\<forall>k. sf_base (sm_disk m1 k) = []" using z by (simp_all add: m1_def)
  ultimately have core: "sm_core S L m1 [] 0 0" using c1 by (simp add: sm_core_def few_segs_def)
  have "few_segs (0 + 1) m1" using few by (simp add: few_segs_def m1_def)
  from SM_Extend_spec [OF core _ this] have "sm_repr S L (SM_Extend m1) [] 0"
    using z(3) by (simp add: sm_repr_core m1_def)
  moreover have "SM_Init cs ss m = (0, SM_Extend m1)"
    using c z by (simp add: SM_Init_def Let_def sm_cfg_def SM_Load_def unat_gt_0 flip: m1_def) (simp add: m1_def z)
  ultimately show ?thesis by blast
qed

text \<open>After a restart exactly the items that the writer had put on disk are there, when those in the
  queue belong to the last segment.\<close>

theorem SM_Init_restart:
  assumes r: "sm_repr S L m items P" and n: "sm_nfiles m = length (sm_segs m)" and last: "P div S = length items div S"
    and f: "cache_sized cs (blk L)"
  shows "\<exists>m'. SM_Init cs ss (restart m) = (0, m') \<and> sm_repr S L m' (take P items) P"
proof -
  let ?K = "length (sm_segs m)"
  have cf: "sm_cfg S L m" and few: "few_segs ?K m" and K: "?K = length items div S + 1" and P: "P \<le> length items"
    and len: "\<forall>v \<in> set items. length v = L" and dk: "\<forall>k < ?K. disk_repr S L items P k (sm_disk m k)"
    using r unfolding sm_repr_def by blast+
  define m0 where "m0 = (restart m)\<lparr>sm_cache := fresh_cache cs (unat (item_block_size (word_of_int (sm_fixed m)))) (sm_capacity m),
    sm_str_cache := fresh_cache ss MAX_BLOCK_SIZE (sm_capacity m)\<rparr>"
  obtain m' where m': "SM_Load m0 = m'" "length (sm_segs m') = ?K" "sm_size m' = P" "sm_queue m' = []"
    "sm_cache m' = fresh_cache cs (unat (item_block_size (word_of_int (sm_fixed m)))) (sm_capacity m)" "sm_cfg S L m'"
    "sm_capacity m' = sm_capacity m"
    "\<forall>k < ?K. sm_disk m' k = sm_disk m k \<and> sg_max (sm_segs m' ! k) = of_nat S \<and> sg_item (sm_segs m' ! k) = of_nat L \<and>
       sg_ib (sm_segs m' ! k) = ibk m L k \<and> unat (sg_buffered (sm_segs m' ! k)) = min S (P - k * S)"
    "\<forall>k \<ge> ?K. sf_base (sm_disk m' k) = []"
    using load_files [OF r n m0_def] by metis
  have il: "ib_last (ibk m L k) = 0" for k by (simp add: ibk_def IB_new_def)
  have "case sm_cache m' of None \<Rightarrow> True | Some c \<Rightarrow> cache_repr L m' c"
    using fresh_cache_repr [OF m'(6) f] m'(6) cf by (simp add: m'(5,7) sm_cfg_def)
  moreover have "seg_repr S L m' (take P items) P k (sm_segs m' ! k)" if "k < ?K" for k
  proof -
    have "ibk m L k = (ibk m L k)\<lparr>ib_last := 0\<rparr>" by (simp add: il)
    then show ?thesis using m'(8) that P unfolding seg_repr_def ibk_cong [OF m'(7)]
      by (intro conjI exI [of _ 0]) simp_all
  qed
  moreover have "disk_repr S L (take P items) P k (sm_disk m' k)" if "k < ?K" for k
    using dk m'(8) that by (auto intro: disk_repr_cong)
  moreover have "few_segs ?K m'" using few by (simp only: few_segs_cong [OF m'(7)])
  moreover have lt: "length (take P items) = P" using P by simp
  moreover have "\<forall>v \<in> set (take P items). length v = L" using len by (auto dest: in_set_takeD)
  moreover have "?K = length (take P items) div S + 1" using K last lt by simp
  moreover have "sm_queue m' = map (req S L (take P items)) [P..<length (take P items)]" using m'(4) P by simp
  moreover have "sm_size m' = length (take P items)" using m'(3) lt by simp
  ultimately have "sm_repr S L m' (take P items) P"
    using m'(2,6,9) unfolding sm_repr_def by (metis order_refl)
  moreover have "SM_Init cs ss (restart m) = (0, m')"
  proof -
    have "sm_segs m' \<noteq> []" using m'(2) K by auto
    moreover have "sm_segment_size m \<noteq> -1" "sm_fixed m \<noteq> -1" "sm_capacity m \<noteq> 0" using cf by (auto simp: sm_cfg_def unat_gt_0)
    ultimately show ?thesis using m'(1) by (simp add: SM_Init_def Let_def m0_def restart_def)
  qed
  ultimately show ?thesis by blast
qed

subsection \<open>Truncation is lost at a restart\<close>

text \<open>A segment that is created over an old file starts with no items, but the header keeps the old
  number of items.\<close>

lemma SG_Init_stored:
  assumes "header_size \<le> length (sf_base sf)" "header_size + unat (sg_item s * sg_max s) \<le> length (sf_base sf)"
  shows "pread (sf_base (snd (SG_Init o' fs s sf))) SizeOff 4 = pread (sf_base sf) SizeOff 4"
proof -
  define cap where "cap = (if fs \<noteq> None then header_size + unat (sg_max s * 4) else sg_str_capacity s)"
  define f0 where "f0 = ftruncate (header_size + unat (sg_item s * sg_max s)) (sf_base sf)"
  have l8: "length (le64 cap) = 8" by (simp add: le64_def)
  have l0: "header_size \<le> length f0" using assms by (simp add: f0_def ftruncate_def)
  have "sf_base (snd (SG_Init o' fs s sf)) =
      write_at (write_at f0 StrCapacityOff (le64 cap)) StrOffsetOff (le32 (sg_str_offset s))"
    by (simp add: SG_Init_def Let_def SetStrOffset_def SetStrCapacity_def f0_def cap_def)
  also have "pread \<dots> SizeOff 4 = pread (write_at f0 StrCapacityOff (le64 cap)) SizeOff 4"
    using l0 by (intro pread_write_other) (auto simp: l8 SizeOff_def CapacityOff_def StrOffsetOff_def StrCapacityOff_def)
  also have "\<dots> = pread f0 SizeOff 4"
    using l0 by (intro pread_write_other) (auto simp: l8 SizeOff_def CapacityOff_def StrOffsetOff_def StrCapacityOff_def)
  also have "\<dots> = pread (sf_base sf) SizeOff 4"
    using assms by (simp add: pread_def f0_def ftruncate_def SizeOff_def CapacityOff_def take_drop)
  finally show ?thesis .
qed

lemma extend_stored:
  assumes c: "sm_cfg S L m" and l: "header_size + S * L \<le> length (sf_base (sm_disk m (length (sm_segs m))))"
  shows "stored (SM_Extend m) k = stored m k" "length (sm_segs (SM_Extend m)) = length (sm_segs m) + 1"
    "sm_nfiles (SM_Extend m) = max (length (sm_segs m) + 1) (sm_nfiles m)" "sm_size (SM_Extend m) = sm_size m"
    "sm_cfg S L (SM_Extend m)" "sg_buffered (last (sm_segs (SM_Extend m))) = 0" "sg_max (last (sm_segs (SM_Extend m))) = of_nat S"
proof -
  let ?K = "length (sm_segs m)"
  have fx: "sm_fixed m = int L" "sm_segment_size m = int S" "header_size + S * L < 4294967296" using c by (simp_all add: sm_cfg_def)
  have ns: "sg_max (new_seg m) = of_nat S" "sg_item (new_seg m) = of_nat L" "sg_buffered (new_seg m) = 0"
    by (simp_all add: new_seg_def Seg_new_def fx)
  obtain s sf where i: "SG_Init (sm_can_open m) (seg_files m) (new_seg m) (sm_disk m ?K) = (s, sf)" by force
  have s: "sg_buffered s = 0" "sg_max s = of_nat S"
    using i ns by (auto simp: SG_Init_def Let_def SG_InitBlock_frame)
  have e: "SM_Extend m = m\<lparr>sm_segs := sm_segs m @ [s], sm_disk := (sm_disk m)(?K := sf), sm_nfiles := max (Suc ?K) (sm_nfiles m)\<rparr>"
    by (simp add: SM_Extend_def Let_def i)
  have "unat (of_nat L * of_nat S :: u32) = S * L"
    using fx(3) unat_of_nat32 [of "L * S"] by (simp add: mult.commute)
  then have "pread (sf_base sf) SizeOff 4 = pread (sf_base (sm_disk m ?K)) SizeOff 4"
    using SG_Init_stored [of "sm_disk m ?K" "new_seg m" "sm_can_open m" "seg_files m"] l i by (simp add: ns)
  then show "stored (SM_Extend m) k = stored m k" by (simp add: e stored_def)
  show "length (sm_segs (SM_Extend m)) = ?K + 1" "sm_nfiles (SM_Extend m) = max (?K + 1) (sm_nfiles m)"
    "sm_size (SM_Extend m) = sm_size m" "sm_cfg S L (SM_Extend m)" "sg_buffered (last (sm_segs (SM_Extend m))) = 0"
    "sg_max (last (sm_segs (SM_Extend m))) = of_nat S"
    using c s by (simp_all add: e sm_cfg_def)
qed

text \<open>\<open>Truncate\<close> to a whole number of segments, when the queue is empty.\<close>

lemma SM_Truncate_stored:
  assumes r: "sm_repr S L m items (length items)" and q: "q < length (sm_segs m)" and n: "sm_nfiles m = length (sm_segs m)"
  shows "\<exists>m'. SM_Truncate (q * S) m = Some (0, m') \<and> sm_size m' = q * S \<and> length (sm_segs m') = q + 1 \<and>
    sm_nfiles m' = length (sm_segs m) \<and> sm_cfg S L m' \<and> (\<forall>k. stored m' k = stored m k)"
proof -
  let ?K = "length (sm_segs m)" and ?N = "length items"
  have cf: "sm_cfg S L m" and K: "?K = ?N div S + 1" and qe: "sm_queue m = []"
    and sg: "\<forall>k < ?K. seg_repr S L m items ?N k (sm_segs m ! k)" and dk: "\<forall>k < ?K. disk_repr S L items ?N k (sm_disk m k)"
    using r by (simp_all add: sm_repr_def)
  have S: "0 < S" "sm_segment_size m = int S" "header_size + S * L < 4294967296" "0 < L" using cf by (simp_all add: sm_cfg_def)
  have "S \<le> S * L" using S(4) by simp
  then have S0: "(of_nat S :: u32) \<noteq> 0" using S(1,3) unat_of_nat32 [of S] by (metis unat_0 less_irrefl le_less_trans le_add2)
  have idx: "q * S mod nat (sm_segment_size m) = 0" "q * S div nat (sm_segment_size m) = q" using S by simp_all
  define m3 where "m3 = m\<lparr>sm_files := keep_files (sm_segs m) q (sm_files m), sm_segs := take q (sm_segs m), sm_size := q * S\<rparr>"
  have c3: "sm_cfg S L m3" "length (sm_segs m3) = q" "\<And>k. stored m3 k = stored m k" "sm_nfiles m3 = ?K" "sm_size m3 = q * S"
    using cf q n by (simp_all add: sm_cfg_def m3_def stored_def)
  have lb: "header_size + S * L \<le> length (sf_base (sm_disk m3 (length (sm_segs m3))))"
    using dk q by (simp add: disk_repr_def m3_def)
  have tr: "SM_Truncate (q * S) m = (let m4 = (if q = 0 then SM_Extend m3 else m3);
      (full, s) = SG_IsFull (last (sm_segs m4)); m5 = m4\<lparr>sm_segs := butlast (sm_segs m4) @ [s]\<rparr>
      in Some (0, if full then SM_Extend m5 else m5))"
    using q by (cases "q = 0") (simp_all add: SM_Truncate_def idx Let_def m3_def qe)
  show ?thesis
  proof (cases "q = 0")
    case True
    let ?e = "SM_Extend m3"
    note ex = extend_stored [OF c3(1) lb]
    have "SG_IsFull (last (sm_segs ?e)) = (False, last (sm_segs ?e))"
      using ex(6,7) S0 by (simp add: SG_IsFull_def)
    moreover have "sm_segs ?e \<noteq> []" using ex(2) by auto
    ultimately have "SM_Truncate (q * S) m = Some (0, ?e)" unfolding tr using True by (simp add: Let_def)
    then show ?thesis using ex c3 True q by (intro exI [of _ ?e]) (simp add: max_def)
  next
    case False
    have "take q (sm_segs m) \<noteq> []" using False q by auto
    then have "last (sm_segs m3) = sm_segs m ! (q - 1)" using False q by (simp add: m3_def last_conv_nth)
    moreover have "seg_repr S L m items ?N (q - 1) (sm_segs m ! (q - 1))" using sg q by simp
    moreover have "S \<le> ?N - (q - 1) * S"
    proof -
      have "q * S \<le> ?N div S * S" using q K by (intro mult_le_mono1) simp
      then have "q * S \<le> ?N" by (meson div_times_less_eq_dividend le_trans)
      moreover have "q * S = (q - 1) * S + S" using False by (cases q) simp_all
      ultimately show ?thesis by linarith
    qed
    ultimately have "unat (sg_buffered (last (sm_segs m3))) = S" "sg_max (last (sm_segs m3)) = of_nat S"
      by (simp_all add: seg_repr_def)
    then have full: "sg_buffered (last (sm_segs m3)) = sg_max (last (sm_segs m3))"
      using \<open>S \<le> S * L\<close> S(3) unat_of_nat32 [of S] by (simp add: word_unat_eq_iff)
    obtain s where s: "SG_IsFull (last (sm_segs m3)) = (True, s)" using full by (simp add: SG_IsFull_def)
    define m5 where "m5 = m3\<lparr>sm_segs := butlast (sm_segs m3) @ [s]\<rparr>"
    have c5: "sm_cfg S L m5" "length (sm_segs m5) = q" "\<And>k. stored m5 k = stored m k" "sm_nfiles m5 = ?K" "sm_size m5 = q * S"
      "sm_disk m5 = sm_disk m3"
      using c3 False by (simp_all add: sm_cfg_def m5_def stored_def)
    have "header_size + S * L \<le> length (sf_base (sm_disk m5 (length (sm_segs m5))))" using lb c3(2) c5(2,6) by simp
    note ex = extend_stored [OF c5(1) this]
    have "SM_Truncate (q * S) m = Some (0, SM_Extend m5)" unfolding tr using False s by (simp add: Let_def m5_def)
    then show ?thesis using ex c5 q by (intro exI [of _ "SM_Extend m5"]) (simp add: max_def)
  qed
qed

theorem truncate_undone:
  assumes r: "sm_repr S L m items (length items)" and q: "q < length (sm_segs m)" and n: "sm_nfiles m = length (sm_segs m)"
  shows "\<exists>m' m''. SM_Truncate (q * S) m = Some (0, m') \<and> sm_size m' = q * S \<and>
    SM_Init cs ss (restart m') = (0, m'') \<and> sm_size m'' = length items"
proof -
  let ?K = "length (sm_segs m)" and ?N = "length items"
  have cf: "sm_cfg S L m" and K: "?K = ?N div S + 1" and dk: "\<forall>k < ?K. disk_repr S L items ?N k (sm_disk m k)"
    using r by (simp_all add: sm_repr_def)
  obtain m' where m': "SM_Truncate (q * S) m = Some (0, m')" "sm_size m' = q * S" "length (sm_segs m') = q + 1"
    "sm_nfiles m' = ?K" "sm_cfg S L m'" "\<forall>k. stored m' k = stored m k"
    using SM_Truncate_stored [OF r q n] by blast
  define m0 where "m0 = (restart m')\<lparr>sm_cache := fresh_cache cs (unat (item_block_size (word_of_int (sm_fixed m')))) (sm_capacity m'),
    sm_str_cache := fresh_cache ss MAX_BLOCK_SIZE (sm_capacity m')\<rparr>"
  have c0: "sm_cfg S L m0" "sm_segs m0 = []" "sm_nfiles m0 = ?K" "sm_size m0 = 0"
    using m'(4,5) by (simp_all add: sm_cfg_def m0_def restart_def)
  have st: "unat (stored m0 k) = min S (?N - k * S)" if "k < ?K" for k
  proof -
    have "stored m0 k = stored m' k" by (simp add: stored_def m0_def restart_def)
    then show ?thesis using m'(6) dk that by (simp add: stored_def disk_repr_def)
  qed
  have "\<forall>k. length (sm_segs m0) \<le> k \<and> k < length (sm_segs m0) + ?K \<longrightarrow> unat (stored m0 k) \<le> S" using st by (simp add: c0(2))
  from load_segments_spec [OF c0(1) this] obtain segs where
    l: "sm_segs (load_segments ?K m0) = segs" "sm_size (load_segments ?K m0) = (\<Sum>k = 0..<?K. unat (stored m0 k))" "length segs = ?K"
    by (auto simp: c0)
  have "(\<Sum>k = 0..<?K. unat (stored m0 k)) = (\<Sum>k = 0..<?K. min S (?N - k * S))" by (intro sum.cong refl) (use st in simp)
  moreover have "?N < ?K * S" using cf K by (simp add: sm_cfg_def dividend_less_div_times)
  ultimately have sz: "sm_size (load_segments ?K m0) = ?N" using l(2) by (simp add: sum_stored)
  have e: "SM_Load m0 = load_segments ?K m0" by (simp add: SM_Load_def c0)
  have "sm_segment_size m' \<noteq> -1" "sm_fixed m' \<noteq> -1" "sm_capacity m' \<noteq> 0" using m'(5) by (auto simp: sm_cfg_def unat_gt_0)
  then have "SM_Init cs ss (restart m') = (0, load_segments ?K m0)"
    using l(1,3) K e by (simp add: SM_Init_def Let_def m0_def restart_def) force
  then show ?thesis using m'(1,2) sz by blast
qed

end
