(* ===== verification/SegStrings.thy ===== *)
theory SegStrings
  imports Segment
begin

text \<open>
  The strings of a segment: the file grows until the new string fits, the string is written where the
  last one ended, and every string written before is still found under its block and position.
\<close>

subsection \<open>The capacity of the string file\<close>

text \<open>From 4 bytes on, the capacity grows in every round, so the loop ends.\<close>

lemma extend_capacity_returns:
  "4 \<le> cap \<Longrightarrow> \<exists>c. extend_capacity need cap = Some c \<and> need < c \<and> cap \<le> c"
proof (induction "Suc need - cap" arbitrary: cap rule: less_induct)
  case less
  show ?case
  proof (cases "need \<ge> cap")
    case True
    let ?c = "13 * cap div 10"
    have g: "cap < ?c" using less.prems by linarith
    then have "Suc need - ?c < Suc need - cap" using True by linarith
    moreover have "4 \<le> ?c" using g less.prems by linarith
    ultimately obtain c where "extend_capacity need ?c = Some c" "need < c" "?c \<le> c" using less.hyps by blast
    then show ?thesis using True g by (subst extend_capacity.simps) auto
  next
    case False
    then show ?thesis by (subst extend_capacity.simps) auto
  qed
qed

text \<open>Below 4 bytes it would not.\<close>

lemma extend_capacity_diverges:
  assumes "cap < 4" "cap \<le> need"
  shows "extend_capacity need cap = None"
proof -
  have "\<not> (cap < 4 \<and> cap \<le> need)" if "extend_capacity need cap = Some c" for c
  proof (rule extend_capacity.raw_induct [where P = "\<lambda>need cap _. \<not> (cap < 4 \<and> cap \<le> need)", OF _ that])
    fix f :: "nat \<Rightarrow> nat \<Rightarrow> nat option" and n k y :: nat
    assume 1: "\<And>n k z. f n k = Some z \<Longrightarrow> \<not> (k < 4 \<and> k \<le> n)" "(if k \<le> n then f n (13 * k div 10) else Some k) = Some y"
    show "\<not> (k < 4 \<and> k \<le> n)"
    proof
      assume k: "k < 4 \<and> k \<le> n"
      then have "13 * k div 10 = k" by linarith
      then show False using 1 k by (auto split: if_splits)
    qed
  qed
  then show ?thesis using assms by (cases "extend_capacity need cap") auto
qed

subsection \<open>Writing and reading strings\<close>

definition strs_ok :: "seg \<Rightarrow> bool" where
  "strs_ok s \<longleftrightarrow> (\<exists>sb. sg_sb s = Some sb \<and> sb_ok sb (unat (sg_str_offset s)) \<and>
     length (sb_file sb) = sg_str_capacity s \<and> 4 \<le> sg_str_capacity s)"

definition seg_has :: "seg \<Rightarrow> u32 \<Rightarrow> u16 \<Rightarrow> byte list \<Rightarrow> bool" where
  "seg_has s b ip v \<longleftrightarrow> (\<exists>sb. sg_sb s = Some sb \<and> located sb (unat (sg_str_offset s)) b ip v)"

definition seg_blocks_len :: "seg \<Rightarrow> nat" where
  "seg_blocks_len s = (case sg_sb s of None \<Rightarrow> 0 | Some sb \<Rightarrow> length (sb_pos sb))"

lemma grown_file:
  assumes "sb_ok sb e" "length (sb_file sb) \<le> cap"
  shows "sb_ok (sb\<lparr>sb_file := ftruncate cap (sb_file sb)\<rparr>) e"
    "located sb e b ip v \<Longrightarrow> located (sb\<lparr>sb_file := ftruncate cap (sb_file sb)\<rparr>) e b ip v"
proof -
  have f: "take (length (sb_file sb)) (ftruncate cap (sb_file sb)) = sb_file sb" "length (ftruncate cap (sb_file sb)) = cap"
    using assms(2) by (simp_all add: ftruncate_def)
  then show ok: "sb_ok (sb\<lparr>sb_file := ftruncate cap (sb_file sb)\<rparr>) e" using assms by (simp add: sb_ok_def)
  show "located (sb\<lparr>sb_file := ftruncate cap (sb_file sb)\<rparr>) e b ip v" if l: "located sb e b ip v"
  proof -
    have "unat (sb_pos sb ! unat b) + unat ip + length v \<le> length (sb_file sb)" by (rule located_offset(3) [OF assms(1) l])
    then have "pread (ftruncate cap (sb_file sb)) (unat (sb_pos sb ! unat b) + unat ip) (length v) =
        pread (sb_file sb) (unat (sb_pos sb ! unat b) + unat ip) (length v)"
      using assms(2) by (simp add: pread_def ftruncate_def)
    then show ?thesis using l by (auto simp: located_def block_end_def split: if_splits)
  qed
qed

theorem SG_AddString_spec:
  assumes ok: "strs_ok s" and v: "length v \<le> 65535" "unat (sg_str_offset s) + length v < 4294967296"
    "seg_blocks_len s + 2 < 4294967296"
  shows "\<exists>b ip s' sf'. SG_AddString v s sf = Some (sg_str_offset s + of_nat (length v), b, ip, s', sf') \<and> strs_ok s' \<and>
    sg_str_offset s' = sg_str_offset s + of_nat (length v) \<and> StrOffset sf' = sg_str_offset s' \<and>
    seg_has s' b ip v \<and> (\<forall>b0 ip0 u. seg_has s b0 ip0 u \<longrightarrow> seg_has s' b0 ip0 u) \<and>
    seg_blocks_len s' \<le> seg_blocks_len s + 2"
proof -
  let ?off = "unat (sg_str_offset s)" and ?fin = "sg_str_offset s + of_nat (length v)" and ?cap = "sg_str_capacity s"
  obtain sb where sb: "sg_sb s = Some sb" "sb_ok sb ?off" "length (sb_file sb) = ?cap" "4 \<le> ?cap"
    using ok by (auto simp: strs_ok_def)
  have ue: "unat ?fin = ?off + length v" using v(2) by (simp add: unat_word_ariths unat_of_nat32)
  obtain cap' sb1 sf1 where g:
    "(if unat ?fin \<ge> ?cap
        then do {
          cap \<leftarrow> extend_capacity (unat ?fin) (13 * ?cap div 10);
          Some (cap, sb\<lparr>sb_file := ftruncate cap (sb_file sb)\<rparr>, SetStrCapacity cap sf) }
        else Some (?cap, sb, sf)) = Some (cap', sb1, sf1)"
    "unat ?fin < cap'" "?cap \<le> cap'" "sb1 = sb\<lparr>sb_file := ftruncate cap' (sb_file sb)\<rparr>"
  proof (cases "unat ?fin \<ge> ?cap")
    case True
    have "4 \<le> 13 * ?cap div 10" using sb(4) by linarith
    then obtain c where "extend_capacity (unat ?fin) (13 * ?cap div 10) = Some c" "unat ?fin < c"
      using extend_capacity_returns by blast
    then show ?thesis using that True by (simp add: not_less)
  next
    case False
    moreover have "ftruncate ?cap (sb_file sb) = sb_file sb" using sb(3) by (simp add: ftruncate_def)
    ultimately show ?thesis using that by simp
  qed
  have len1: "length (sb_file sb1) = cap'" using g(3,4) sb(3) by (simp add: ftruncate_def)
  have le: "length (sb_file sb) \<le> cap'" using g(3) sb(3) by simp
  have ok1: "sb_ok sb1 ?off" unfolding g(4) by (rule grown_file(1) [OF sb(2) le])
  have n1: "length (sb_pos sb1) + 2 < 4294967296" using v(3) sb(1) g(4) by (simp add: seg_blocks_len_def)
  obtain b ip sb2 where w: "SB_WriteString v (of_nat ?off) sb1 = (b, ip, sb2)" "sb_ok sb2 (?off + length v)"
    "located sb2 (?off + length v) b ip v" "sb_file sb2 = write_at (sb_file sb1) ?off v" "length (sb_pos sb2) \<le> length (sb_pos sb1) + 2"
    using WriteString_spec [OF ok1 v(1,2) n1] by blast
  have keep: "located sb2 (?off + length v) b0 ip0 u" if "located sb ?off b0 ip0 u" for b0 ip0 u
    using located_kept [OF ok1 _ w(1) v(1,2) n1] grown_file(2) [OF sb(2) le that] g(4) by simp
  have len2: "length (sb_file sb2) = cap'" using w(4) len1 g(2) ue by simp
  define s' where "s' = s\<lparr>sg_str_capacity := cap', sg_str_offset := ?fin, sg_sb := Some sb2\<rparr>"
  have "SG_AddString v s sf = Some (?fin, b, ip, s', SetStrOffset ?fin sf1)"
    using g(1) w(1) unfolding SG_AddString_def sb(1) by (simp add: Let_def s'_def)
  moreover have "strs_ok s'" using w(2) len2 g(3) sb(4) ue by (simp add: strs_ok_def s'_def)
  moreover have "StrOffset (SetStrOffset ?fin sf1) = ?fin"
    using pread_write_same [of "sf_base sf1" StrOffsetOff "le32 ?fin"] by (simp add: StrOffset_def SetStrOffset_def)
  moreover have "seg_has s' b ip v" using w(3) ue by (simp add: seg_has_def s'_def)
  moreover have "seg_has s' b0 ip0 u" if "seg_has s b0 ip0 u" for b0 ip0 u
    using that keep sb(1) ue by (auto simp: seg_has_def s'_def)
  moreover have "seg_blocks_len s' \<le> seg_blocks_len s + 2" using w(5) g(4) sb(1) by (simp add: seg_blocks_len_def s'_def)
  ultimately show ?thesis by (intro exI [of _ b] exI [of _ ip] exI [of _ s'] exI [of _ "SetStrOffset ?fin sf1"]) (simp add: s'_def)
qed

text \<open>What is stored is what is read, with the cache and without it.\<close>

lemma SG_GetString_uncached:
  assumes "strs_ok s" "seg_has s b ip v"
  shows "SG_GetString g b ip (length v) None s = Some (v, None)"
  using assms SB_Read_uncached by (fastforce simp: strs_ok_def seg_has_def SG_GetString_def)

lemma SG_GetString_cached:
  assumes "strs_ok s" "seg_has s b ip v" and c: "sg_sb s = Some sb" "cache_fits c sb" "vc.coherent D c" "sb_disk sb D"
  shows "\<exists>c'. SG_GetString g b ip (length v) (Some c) s = Some (v, Some c') \<and> cache_fits c' sb \<and> vc.coherent D c' \<and>
    cache_valid c' = cache_valid c"
  using assms SB_Read_spec [of sb "unat (sg_str_offset s)" b ip v c D g] by (auto simp: strs_ok_def seg_has_def SG_GetString_def)

text \<open>A sequence of strings, with the block and the position each \<open>AddString\<close> returned.\<close>

fun add_strings :: "byte list list \<Rightarrow> seg \<Rightarrow> segfile \<Rightarrow> ((u32 \<times> u16) list \<times> seg \<times> segfile) option" where
  "add_strings [] s sf = Some ([], s, sf)"
| "add_strings (v # vs) s sf = do {
     (e, b, ip, s1, sf1) \<leftarrow> SG_AddString v s sf;
     (ps, s2, sf2) \<leftarrow> add_strings vs s1 sf1;
     Some ((b, ip) # ps, s2, sf2) }"

theorem add_strings_spec:
  "\<lbrakk>strs_ok s; \<forall>v \<in> set vs. length v \<le> 65535; unat (sg_str_offset s) + length (concat vs) < 4294967296;
      seg_blocks_len s + 2 * length vs < 4294967296\<rbrakk> \<Longrightarrow>
    \<exists>ps s' sf'. add_strings vs s sf = Some (ps, s', sf') \<and> strs_ok s' \<and>
      list_all2 (\<lambda>(b, ip) v. SG_GetString g b ip (length v) None s' = Some (v, None)) ps vs \<and>
      (\<forall>b ip u. seg_has s b ip u \<longrightarrow> seg_has s' b ip u)"
proof (induction vs arbitrary: s sf)
  case (Cons v vs)
  obtain b ip s1 sf1 where a: "SG_AddString v s sf = Some (sg_str_offset s + of_nat (length v), b, ip, s1, sf1)" "strs_ok s1"
    "sg_str_offset s1 = sg_str_offset s + of_nat (length v)" "seg_has s1 b ip v"
    "\<forall>b0 ip0 u. seg_has s b0 ip0 u \<longrightarrow> seg_has s1 b0 ip0 u" "seg_blocks_len s1 \<le> seg_blocks_len s + 2"
    using SG_AddString_spec [OF Cons.prems(1), of v sf] Cons.prems(2-4) by auto
  have off: "unat (sg_str_offset s1) = unat (sg_str_offset s) + length v"
    using Cons.prems(3) by (simp add: a(3) unat_word_ariths unat_of_nat32)
  obtain ps s2 sf2 where i: "add_strings vs s1 sf1 = Some (ps, s2, sf2)" "strs_ok s2"
    "list_all2 (\<lambda>(b, ip) v. SG_GetString g b ip (length v) None s2 = Some (v, None)) ps vs"
    "\<forall>b ip u. seg_has s1 b ip u \<longrightarrow> seg_has s2 b ip u"
    using Cons.IH [OF a(2), of sf1] Cons.prems(2-4) off a(6) by auto
  have "SG_GetString g b ip (length v) None s2 = Some (v, None)"
    using SG_GetString_uncached [OF i(2)] a(4) i(4) by blast
  then show ?case using a i by (intro exI [of _ "(b, ip) # ps"] exI [of _ s2] exI [of _ sf2]) auto
qed auto

subsection \<open>An index file that was left behind\<close>

text \<open>\<open>Truncate\<close> deletes segments but leaves their files. When the segment is created again over an index
  file with the positions 0 and 65000, its first string goes to offset 0 of the string file, and
  \<open>AddString\<close> reports block 1 and position 536, which is offset 65536.\<close>

definition stale_seg :: "byte list \<Rightarrow> segfile \<Rightarrow> seg \<times> segfile" where
  "stale_seg str sf = SG_Init True (Some (str, Some (le32 0 @ le32 65000))) (Seg_new 0 20000 1 100) sf"

lemma stale_index:
  "\<exists>s' sf'. SG_AddString v (fst (stale_seg str sf)) (snd (stale_seg str sf)) = Some (of_nat (length v), 1, 536, s', sf') \<and>
    SG_GetString g 1 536 (length v) None s' = Some (read_into (map g [0..<length v]) (pread (ftruncate 80030 str) 65536 (length v)), None)"
  if v: "length v < 1000"
proof -
  let ?f = "ftruncate 80030 str"
  define sb where "sb = \<lparr>sb_file = ?f, sb_pos = [0, 65000], sb_idx = le32 0 @ le32 65000, sb_open = True, sb_can_open = True,
    sb_per_block = 65536, sb_seg = 0, sb_capacity = 100\<rparr>"
  have len: "length (le32 0) mod 4 = 0" by simp
  have ri: "read_index (le32 0 @ le32 65000) = [0, 65000]" by (simp add: read_index_app [OF len])
  define s where "s = fst (stale_seg str sf)"
  have s: "sg_sb s = Some sb" "sg_str_offset s = 0" "sg_str_capacity s = 80030"
    by (simp_all add: s_def stale_seg_def SG_Init_def SG_InitBlock_def SB_LoadIndex_def SB_new_def Seg_new_def IB_new_def
      item_block_size_def Let_def ri sb_def)
  have n: "unat (of_nat (length v) :: u32) = length v" using v by (intro unat_of_nat32) simp
  define sb' where "sb' = sb\<lparr>sb_file := write_at ?f 0 v\<rparr>"
  have ip: "ucast (0 - 65000 :: u32) = (536 :: u16)" by simp
  have nb: "\<not> (536 + of_nat (length v) :: u32) \<ge> 65536"
  proof -
    have "unat (536 + of_nat (length v) :: u32) = 536 + length v" using v n by (simp add: unat_word_ariths)
    then show ?thesis using v by (simp add: word_le_nat_alt)
  qed
  have w: "SB_WriteString v 0 sb = (1, 536, sb')"
    using nb by (simp add: SB_WriteString_def Let_def sb_def sb'_def)
  obtain s' sf' where a: "SG_AddString v s (snd (stale_seg str sf)) = Some (of_nat (length v), 1, 536, s', sf')" "sg_sb s' = Some sb'"
    using v w by (simp add: SG_AddString_def s n Let_def)
  have "pread (write_at ?f 0 v) 65536 (length v) = pread ?f 65536 (length v)"
    using v by (intro pread_write_other) (auto simp: ftruncate_def)
  then have "SB_Read g 1 536 (length v) None sb' = Some (read_into (map g [0..<length v]) (pread ?f 65536 (length v)), None)"
    by (simp add: SB_Read_def direct_string_def block_at_def sb'_def sb_def)
  then show ?thesis using a by (intro exI [of _ s'] exI [of _ sf']) (simp add: SG_GetString_def flip: s_def)
qed

end
