(* ===== verification/StorageProps.thy ===== *)
theory StorageProps
  imports StorageSpec SegStrings
begin

text \<open>
  What the storage layer promises: a storage manager, from its initialisation on, is a list of items
  that the writer thread moves to disk; strings are read back as they were written; and the two
  caches hold what is on disk. Each property is followed by an application at a concrete input.
\<close>

subsection \<open>Operations on an abstract list\<close>

datatype sop = SAdd "byte list" | SWrite nat | SGet nat | SPut nat "byte list"

text \<open>The abstract state is the list of the items and the number of those that are on disk. An operation
  that the manager would refuse, or for which it would wait, has no result.\<close>

fun spec_step :: "nat \<Rightarrow> nat \<Rightarrow> nat \<Rightarrow> sop \<Rightarrow> byte list list \<times> nat \<Rightarrow> (byte list option \<times> byte list list \<times> nat) option" where
  "spec_step S L c (SAdd v) (items, P) =
     (if length v = L \<and> length items div S + 2 \<le> 400 \<and> (length items div S + 2) * c < 4294967296
      then Some (None, items @ [v], P) else None)"
| "spec_step S L c (SWrite n) (items, P) = (if P + n \<le> length items then Some (None, items, P + n) else None)"
| "spec_step S L c (SGet i) (items, P) = (if i < P then Some (Some (items ! i), items, P) else None)"
| "spec_step S L c (SPut i v) (items, P) =
     (if i < length items \<and> length v = L then Some (None, if i < P then items[i := v] else items, P) else None)"

fun sm_step :: "(nat \<Rightarrow> byte) \<Rightarrow> sop \<Rightarrow> sm \<Rightarrow> (byte list option \<times> sm) option" where
  "sm_step g (SAdd v) m = (case SM_Add v m of (r, m') \<Rightarrow> if r = 0 then Some (None, m') else None)"
| "sm_step g (SWrite n) m = map_option (Pair None) (SM_Writer n m)"
| "sm_step g (SGet i) m = (case SM_Get g (int i) m of
     Some (r, v, m') \<Rightarrow> if r = 0 then Some (Some v, m') else None | None \<Rightarrow> None)"
| "sm_step g (SPut i v) m = (case SM_Update (int i) v m of
     Some (r, m') \<Rightarrow> if r = 0 then Some (None, m') else None | None \<Rightarrow> None)"

fun run :: "('o \<Rightarrow> 's \<Rightarrow> ('r \<times> 's) option) \<Rightarrow> 'o list \<Rightarrow> 's \<Rightarrow> ('r list \<times> 's) option" where
  "run f [] s = Some ([], s)"
| "run f (x # xs) s = do { (r, s1) \<leftarrow> f x s; (rs, s2) \<leftarrow> run f xs s1; Some (r # rs, s2) }"

text \<open>The capacity is never changed.\<close>

lemma extend_capacity_const: "sm_capacity (SM_Extend m) = sm_capacity m"
  by (simp add: SM_Extend_def Let_def split: prod.splits)

lemma step_capacity: "sm_step g x m = Some (r, m') \<Longrightarrow> sm_capacity m' = sm_capacity m"
proof (cases x)
  case (SAdd v)
  assume "sm_step g x m = Some (r, m')"
  then show ?thesis using SAdd
    by (auto simp: SM_Add_def Let_def extend_capacity_const split: prod.splits if_splits)
next
  case (SWrite n)
  assume "sm_step g x m = Some (r, m')"
  then show ?thesis using SWrite by (auto simp: SM_Writer_def bind_eq_Some_conv)
next
  case (SGet i)
  assume "sm_step g x m = Some (r, m')"
  then show ?thesis using SGet
    by (auto simp: SM_Get_def Let_def bind_eq_Some_conv split: option.splits prod.splits if_splits)
next
  case (SPut i v)
  assume "sm_step g x m = Some (r, m')"
  then show ?thesis using SPut
    by (auto simp: SM_Update_def Let_def bind_eq_Some_conv split: option.splits prod.splits if_splits)
qed

lemma load_capacity: "sm_capacity (load_segments n m) = sm_capacity m"
  by (induction n arbitrary: m) (simp_all add: Let_def split: prod.splits)

lemma init_capacity: "SM_Init cs ss m = (r, m') \<Longrightarrow> sm_capacity m' = sm_capacity m"
  by (auto simp: SM_Init_def Let_def SM_Load_def extend_capacity_const load_capacity split: if_splits)

lemma step_refines:
  assumes r: "sm_repr S L m items P" and s: "spec_step S L (unat (sm_capacity m)) x (items, P) = Some (res, items', P')"
  shows "\<exists>m'. sm_step g x m = Some (res, m') \<and> sm_repr S L m' items' P'"
proof (cases x)
  case (SAdd v)
  then have v: "length v = L" "res = None" "items' = items @ [v]" "P' = P"
    and room: "length items div S + 2 \<le> 400" "(length items div S + 2) * unat (sm_capacity m) < 4294967296"
    using s by (auto split: if_splits)
  have "length (sm_segs m) = length items div S + 1" using r by (simp add: sm_repr_def)
  then have "few_segs (length (sm_segs m) + 1) m" using room by (simp add: few_segs_def)
  from SM_Add_spec [OF r v(1) this] show ?thesis using SAdd v by auto
next
  case (SWrite n)
  then have w: "P + n \<le> length items" "res = None" "items' = items" "P' = P + n" using s by (auto split: if_splits)
  have "length (sm_queue m) = length items - P" using r by (simp add: sm_repr_def)
  then have "n \<le> length (sm_queue m)" using w(1) by simp
  from SM_Writer_spec [OF r this] show ?thesis using SWrite w by auto
next
  case (SGet i)
  then have "i < P" "res = Some (items ! i)" "items' = items" "P' = P" using s by (auto split: if_splits)
  then show ?thesis using SGet SM_Get_spec [OF r, of i g] by auto
next
  case (SPut i v)
  then have "i < length items" "length v = L" "res = None" "items' = (if i < P then items[i := v] else items)" "P' = P"
    using s by (auto split: if_splits)
  then show ?thesis using SPut SM_Update_spec [OF r, of i v] by auto
qed

lemma run_refines:
  "\<lbrakk>sm_repr S L m items P; run (spec_step S L (unat (sm_capacity m))) ops (items, P) = Some (rs, items', P')\<rbrakk> \<Longrightarrow>
    \<exists>m'. run (sm_step g) ops m = Some (rs, m') \<and> sm_repr S L m' items' P'"
proof (induction ops arbitrary: m items P rs)
  case (Cons x xs)
  obtain res items1 P1 rs1 where s: "spec_step S L (unat (sm_capacity m)) x (items, P) = Some (res, items1, P1)"
    "run (spec_step S L (unat (sm_capacity m))) xs (items1, P1) = Some (rs1, items', P')" "rs = res # rs1"
    using Cons.prems(2) by (auto simp: bind_eq_Some_conv)
  obtain m1 where m1: "sm_step g x m = Some (res, m1)" "sm_repr S L m1 items1 P1" using step_refines [OF Cons.prems(1) s(1)] by blast
  have "unat (sm_capacity m1) = unat (sm_capacity m)" using step_capacity [OF m1(1)] by simp
  then obtain m' where "run (sm_step g) xs m1 = Some (rs1, m')" "sm_repr S L m' items' P'" using Cons.IH [OF m1(2)] s(2) by auto
  then show ?case using m1(1) s(3) by simp
qed simp

text \<open>
  C14: A storage manager that is initialised over no files behaves as the abstract list, for every
  sequence of additions, turns of the writer thread, reads and updates that the list allows: all
  results are those of the list, and no read or write leaves memory.
\<close>

theorem storage_refines_list:
  assumes "sm_cfg S L m" "cache_sized cs (blk L)" "few_segs 1 m"
    and "sm_segs m = [] \<and> sm_queue m = [] \<and> sm_size m = 0 \<and> sm_nfiles m = 0 \<and> (\<forall>k. sf_base (sm_disk m k) = [])"
    and "run (spec_step S L (unat (sm_capacity m))) ops ([], 0) = Some (rs, items, P)"
  shows "\<exists>m0 m'. SM_Init cs ss m = (0, m0) \<and> run (sm_step g) ops m0 = Some (rs, m') \<and> sm_size m' = length items"
proof -
  have z: "sm_segs m = []" "sm_queue m = []" "sm_size m = 0" "sm_nfiles m = 0" "\<forall>k. sf_base (sm_disk m k) = []"
    using assms(4) by simp_all
  obtain m0 where m0: "SM_Init cs ss m = (0, m0)" "sm_repr S L m0 [] 0"
    using SM_Init_empty [OF assms(1) z assms(2,3)] by blast
  have c: "sm_capacity m0 = sm_capacity m" by (rule init_capacity [OF m0(1)])
  obtain m' where "run (sm_step g) ops m0 = Some (rs, m')" "sm_repr S L m' items P"
    using run_refines [OF m0(2), unfolded c, OF assms(5)] by blast
  then show ?thesis using m0(1) by (auto simp: sm_repr_def)
qed

definition empty_mgr :: sm where
  "empty_mgr = \<lparr>sm_fixed = 2, sm_segment_size = 4, sm_capacity = 1, sm_table = False, sm_can_open = True, sm_segs = [],
     sm_disk = (\<lambda>k. \<lparr>sf_base = [], sf_cur = 0\<rparr>), sm_files = (\<lambda>k. ([], None)), sm_nfiles = 0, sm_queue = [], sm_size = 0,
     sm_cache = None, sm_str_cache = None\<rparr>"

lemma empty_mgr_cfg: "sm_cfg 4 2 empty_mgr" "cache_sized 1 (blk 2)" "few_segs 1 empty_mgr"
  by (simp_all add: sm_cfg_def empty_mgr_def blk_def cache_sized_def few_segs_def)

abbreviation demo_ops :: "sop list" where
  "demo_ops \<equiv> [SAdd [1, 2], SAdd [3, 4], SWrite 2, SGet 1, SPut 0 [7, 8], SGet 0]"

theorem storage_refines_list_witness:
  "\<exists>m0 m'. SM_Init 1 0 empty_mgr = (0, m0) \<and>
    run (sm_step (\<lambda>i. 0)) demo_ops m0 = Some ([None, None, None, Some [3, 4], None, Some [7, 8]], m') \<and> sm_size m' = 2"
proof -
  have "run (spec_step 4 2 (unat (sm_capacity empty_mgr))) demo_ops ([], 0) =
      Some ([None, None, None, Some [3, 4], None, Some [7, 8]], [[7, 8], [3, 4]], 2)"
    by (simp add: empty_mgr_def)
  moreover have "sm_segs empty_mgr = [] \<and> sm_queue empty_mgr = [] \<and> sm_size empty_mgr = 0 \<and> sm_nfiles empty_mgr = 0 \<and>
      (\<forall>k. sf_base (sm_disk empty_mgr k) = [])" by (simp add: empty_mgr_def)
  ultimately show ?thesis
    using storage_refines_list [OF empty_mgr_cfg, of demo_ops _ _ _ 0 "\<lambda>i. 0"] by fastforce
qed

subsection \<open>Restart, updates and truncation\<close>

text \<open>The manager of the applications: segments of 4 items of 2 bytes; of the 3 items, 2 are on disk.\<close>

definition demo_seg :: seg where
  "demo_seg = \<lparr>sg_max = 4, sg_item = 2, sg_buffered = 3, sg_str_offset = 0, sg_str_capacity = 0,
     sg_ib = IB_new 65536 2 30 0 1, sg_sb = None\<rparr>"

definition demo_file :: segfile where
  "demo_file = \<lparr>sf_base = replicate 5 0 @ [2, 0, 0, 0] @ replicate 21 0 @ [1, 2, 3, 4, 0, 0, 0, 0], sf_cur = 2\<rparr>"

abbreviation demo_items :: "byte list list" where "demo_items \<equiv> [[1, 2], [3, 4], [5, 6]]"

definition demo_mgr :: sm where
  "demo_mgr = empty_mgr\<lparr>sm_segs := [demo_seg], sm_disk := (\<lambda>k. \<lparr>sf_base = [], sf_cur = 0\<rparr>)(0 := demo_file),
     sm_nfiles := 1, sm_queue := [req 4 2 demo_items 2], sm_size := 3\<rparr>"

lemma demo_mgr_repr: "sm_repr 4 2 demo_mgr demo_items 2"
proof -
  have "item_block_size 2 = 65536" by (simp add: item_block_size_def)
  then have "seg_repr 4 2 demo_mgr demo_items 2 0 demo_seg"
    unfolding seg_repr_def by (intro conjI exI [of _ 0]) (simp_all add: demo_seg_def ibk_def demo_mgr_def empty_mgr_def IB_new_def)
  moreover have "disk_repr 4 2 demo_items 2 0 demo_file"
  proof -
    have "of_le32 [2, 0, 0, 0] = 2" using of_le32_le32 [of 2] by (simp add: le32_def)
    then show ?thesis
      by (auto simp: disk_repr_def demo_file_def pread_def SizeOff_def CapacityOff_def less_2_cases_iff)
  qed
  moreover have "sm_cfg 4 2 demo_mgr" "few_segs 1 demo_mgr" by (simp_all add: sm_cfg_def few_segs_def demo_mgr_def empty_mgr_def blk_def)
  moreover have "[2..<3] = [2::nat]" by (simp add: upt_rec)
  ultimately show ?thesis by (simp add: sm_repr_def) (simp add: demo_mgr_def empty_mgr_def numeral_2_eq_2)
qed

text \<open>
  C23: A new process over the files of a storage manager finds exactly the \<open>P\<close> items that the writer thread had
  put on disk, and from there on every run of reads, updates, additions and turns of the writer behaves as on the list of these
  items. This is for a restart with all items that were still queued belonging in the segment in which the
  next item on disk comes (there may be none), and with no segment files beyond those of the manager. When
  the queue crosses the end of a segment, the files of the next segment are there already, and new items go to that one.
\<close>

theorem restart_keeps_written_items:
  assumes "sm_repr S L m items P" "sm_nfiles m = length (sm_segs m)" "P div S = length items div S" "cache_sized cs (blk L)"
    and "run (spec_step S L (unat (sm_capacity m))) ops (take P items, P) = Some (rs, items', P')"
  shows "\<exists>m0 m'. SM_Init cs ss (restart m) = (0, m0) \<and> run (sm_step g) ops m0 = Some (rs, m') \<and> sm_size m' = length items'"
proof -
  obtain m0 where m0: "SM_Init cs ss (restart m) = (0, m0)" "sm_repr S L m0 (take P items) P"
    using SM_Init_restart [OF assms(1-4)] by blast
  have c: "sm_capacity m0 = sm_capacity m" using init_capacity [OF m0(1)] by (simp add: restart_def)
  obtain m' where "run (sm_step g) ops m0 = Some (rs, m')" "sm_repr S L m' items' P'"
    using run_refines [OF m0(2), unfolded c, OF assms(5)] by blast
  then show ?thesis using m0(1) by (auto simp: sm_repr_def)
qed

theorem restart_keeps_written_items_witness:
  "\<exists>m0 m'. SM_Init (-1) 0 (restart demo_mgr) = (0, m0) \<and>
    run (sm_step (\<lambda>i. 0)) [SGet 1, SAdd [9, 9], SWrite 1, SGet 2] m0 = Some ([Some [3, 4], None, None, Some [9, 9]], m') \<and> sm_size m' = 3"
proof -
  have "run (spec_step 4 2 (unat (sm_capacity demo_mgr))) [SGet 1, SAdd [9, 9], SWrite 1, SGet 2] (take 2 demo_items, 2) =
      Some ([Some [3, 4], None, None, Some [9, 9]], [[1, 2], [3, 4], [9, 9]], 3)"
    by (simp add: demo_mgr_def empty_mgr_def)
  moreover have "sm_nfiles demo_mgr = length (sm_segs demo_mgr)" by (simp add: demo_mgr_def)
  ultimately show ?thesis
    using restart_keeps_written_items [OF demo_mgr_repr, of "-1" "[SGet 1, SAdd [9, 9], SWrite 1, SGet 2]" _ _ _ 0 "\<lambda>i. 0"]
    by (fastforce simp: cache_sized_def)
qed

text \<open>
  C28: An update of an item that is still in the queue of the writer thread returns 0 and is lost: the
  writer then puts the old value on disk, and the next read returns it.
\<close>

theorem queued_update_lost:
  assumes r: "sm_repr S L m items P" and i: "P \<le> i" "i < length items" and v: "length v = L"
  shows "\<exists>m1 m2 m3. SM_Update (int i) v m = Some (0, m1) \<and> SM_Writer (length (sm_queue m1)) m1 = Some m2 \<and>
    sm_queue m2 = [] \<and> SM_Get g (int i) m2 = Some (0, items ! i, m3)"
proof -
  obtain m1 where m1: "SM_Update (int i) v m = Some (0, m1)" "sm_repr S L m1 items P"
    using SM_Update_spec [OF r i(2) v] i(1) by auto
  have q: "P + length (sm_queue m1) = length items" using m1(2) by (simp add: sm_repr_def)
  obtain m2 where m2: "SM_Writer (length (sm_queue m1)) m1 = Some m2" "sm_repr S L m2 items (length items)"
    using SM_Writer_spec [OF m1(2), of "length (sm_queue m1)"] q by auto
  then show ?thesis using m1(1) SM_Get_spec [OF m2(2) i(2), of g] by (fastforce simp: sm_repr_def)
qed

theorem queued_update_lost_witness:
  "\<exists>m1 m2 m3. SM_Update 2 [9, 9] demo_mgr = Some (0, m1) \<and> SM_Writer (length (sm_queue m1)) m1 = Some m2 \<and>
    sm_queue m2 = [] \<and> SM_Get (\<lambda>i. 0) 2 m2 = Some (0, [5, 6], m3)"
  using queued_update_lost [OF demo_mgr_repr, of 2 "[9, 9]" "\<lambda>i. 0"] by simp

text \<open>
  C33: \<open>GetHeaders\<close> returns the items of a range, in pieces of at most a segment that together are the
  concatenation of the items, with lengths that add up to the number of items.
\<close>

theorem headers_concatenate:
  assumes "sm_repr S L m items P" "start + n \<le> P" "P < 2 ^ 63"
  shows "\<exists>vals lens m'. SM_GetHeaders g (int start) (int n) m = Some (0, vals, lens, m') \<and>
    concat vals = concat (take n (drop start items)) \<and> sum_list lens = int n \<and> sm_repr S L m' items P"
proof -
  have "P \<le> length items" using assms(1) by (simp add: sm_repr_def)
  then have "map ((!) items) [start..<start + n] = take n (drop start items)"
    using assms(2) by (intro nth_equalityI) simp_all
  then show ?thesis using SM_GetHeaders_spec [OF assms, of g] by simp
qed

theorem headers_concatenate_witness:
  "\<exists>vals lens m'. SM_GetHeaders (\<lambda>i. 0) 0 2 demo_mgr = Some (0, vals, lens, m') \<and> concat vals = [1, 2, 3, 4] \<and> sum_list lens = 2"
  using headers_concatenate [OF demo_mgr_repr, of 0 2 "\<lambda>i. 0"] by auto

text \<open>
  After \<open>Truncate\<close> to a whole number of segments the size is what was asked for, but a restart
  brings all the items back: the files of the deleted segments stay, with their headers.
\<close>

theorem truncation_lost_at_restart:
  assumes "sm_repr S L m items (length items)" "q < length (sm_segs m)" "sm_nfiles m = length (sm_segs m)"
  shows "\<exists>m' m''. SM_Truncate (q * S) m = Some (0, m') \<and> sm_size m' = q * S \<and>
    SM_Init cs ss (restart m') = (0, m'') \<and> sm_size m'' = length items"
  by (rule truncate_undone [OF assms])

theorem truncation_lost_at_restart_witness:
  "\<exists>m m' m''. sm_size m = 3 \<and> SM_Truncate 0 m = Some (0, m') \<and> sm_size m' = 0 \<and>
    SM_Init 0 0 (restart m') = (0, m'') \<and> sm_size m'' = 3"
proof -
  have "length (sm_queue demo_mgr) = 1" by (simp add: demo_mgr_def)
  then obtain m where m: "SM_Writer 1 demo_mgr = Some m" "sm_repr 4 2 m demo_items 3"
    using SM_Writer_spec [OF demo_mgr_repr, of 1] by (auto simp: numeral_3_eq_3)
  have "sm_nfiles m = 1" using m(1) by (auto simp: SM_Writer_def bind_eq_Some_conv demo_mgr_def)
  moreover have "length (sm_segs m) = 1" "sm_size m = 3" using m(2) by (simp_all add: sm_repr_def)
  ultimately show ?thesis using truncation_lost_at_restart [of 4 2 m demo_items 0 0 0] m(2)
    by - (rule exI [of _ m], simp add: numeral_3_eq_3)
qed

end
