(* ===== verification/CacheProps.thy ===== *)
theory CacheProps
  imports StorageSpec SegStrings
begin

text \<open>
  What the writer thread, the string files and the two block caches promise, with an application of
  each property at a concrete input.
\<close>

subsection \<open>The writer thread\<close>

text \<open>The requests one by one, as \<open>SyncWrite\<close> writes them.\<close>

fun write_each :: "u32 \<Rightarrow> wreq list \<Rightarrow> disk \<Rightarrow> disk option" where
  "write_each L [] d = Some d"
| "write_each L (w # ws) d = do { d' \<leftarrow> SyncWrite L w d; write_each L ws d' }"

lemma write_each_fold: "L \<noteq> 0 \<Longrightarrow> write_each L ws d = Some (fold (put_req L) ws d)"
  by (induction ws arbitrary: d) (simp_all add: SyncWrite_def put_req_def)

text \<open>
  C35: The writer thread joins requests of adjacent items of a segment into batches of up to 1 MB. The
  files and the counters it leaves are those of writing every request on its own.
\<close>

theorem batches_write_what_single_writes_do:
  assumes "L \<noteq> 0" "unat L < bulk_bytes" "\<forall>w \<in> set ws. item_sized L w" "adjacent ws"
  shows "WriterHandler L ws d = write_each L ws d \<and> WriterHandler L ws d \<noteq> None"
  using WriterHandler_spec [OF assms] write_each_fold [OF assms(1)] by simp

abbreviation no_file :: segfile where "no_file \<equiv> \<lparr>sf_base = [], sf_cur = 0\<rparr>"

theorem batches_write_what_single_writes_do_witness:
  "WriterHandler 2 [\<lparr>w_fd = 0, w_data = [1, 2], w_start = 30\<rparr>, \<lparr>w_fd = 0, w_data = [3, 4], w_start = 32\<rparr>] (\<lambda>k. no_file) \<noteq> None"
  by (rule batches_write_what_single_writes_do [THEN conjunct2]) (simp_all add: item_sized_def)

subsection \<open>Strings\<close>

text \<open>
  Strings that are added to a segment, at most 65535 bytes each and less than 4 GB together, are all
  read back as they were written, from the block and the position that \<open>AddString\<close> returned for them.
\<close>

theorem strings_read_back:
  assumes "strs_ok s" "\<forall>v \<in> set vs. length v \<le> 65535" "unat (sg_str_offset s) + length (concat vs) < 4294967296"
    "seg_blocks_len s + 2 * length vs < 4294967296"
  shows "\<exists>ps s' sf'. add_strings vs s sf = Some (ps, s', sf') \<and> strs_ok s' \<and>
    list_all2 (\<lambda>(b, ip) v. SG_GetString g b ip (length v) None s' = Some (v, None)) ps vs"
  using add_strings_spec [OF assms, of sf g] by blast

definition demo_str_seg :: seg where
  "demo_str_seg = fst (SG_Init True (Some ([], None)) (Seg_new 0 10 4 100) \<lparr>sf_base = [], sf_cur = 0\<rparr>)"

lemma demo_str_seg_ok: "strs_ok demo_str_seg" "sg_str_offset demo_str_seg = 0" "seg_blocks_len demo_str_seg = 0"
  by (simp_all add: demo_str_seg_def SG_Init_def SG_InitBlock_def SB_LoadIndex_def SB_new_def Seg_new_def IB_new_def
    item_block_size_def Let_def strs_ok_def sb_ok_def ftruncate_def seg_blocks_len_def)

theorem strings_read_back_witness:
  "\<exists>ps s' sf'. add_strings [[7, 8], [], [9]] demo_str_seg \<lparr>sf_base = [], sf_cur = 0\<rparr> = Some (ps, s', sf') \<and> strs_ok s' \<and>
    list_all2 (\<lambda>(b, ip) v. SG_GetString (\<lambda>i. 0) b ip (length v) None s' = Some (v, None)) ps [[7, 8], [], [9]]"
  by (rule strings_read_back) (simp_all add: demo_str_seg_ok)

text \<open>
  A string is read through the cache as it is on disk, whether its block was in the cache or is
  loaded now, and the cache stays coherent with the disk.
\<close>

theorem string_read_through_cache:
  assumes "strs_ok s" "seg_has s b ip v" "sg_sb s = Some sb" "cache_fits c sb" "vc.coherent D c" "sb_disk sb D"
  shows "\<exists>c'. SG_GetString g b ip (length v) (Some c) s = Some (v, Some c') \<and> cache_fits c' sb \<and> vc.coherent D c'"
  using SG_GetString_cached [OF assms] by blast

definition two_blocks :: strblk where
  "two_blocks = \<lparr>sb_file = [7, 8, 9, 0, 0], sb_pos = [0, 2], sb_idx = le32 0 @ le32 2, sb_open = True, sb_can_open = True,
    sb_per_block = 4, sb_seg = 0, sb_capacity = 2\<rparr>"

definition two_block_seg :: seg where
  "two_block_seg = \<lparr>sg_max = 4, sg_item = 2, sg_buffered = 0, sg_str_offset = 3, sg_str_capacity = 5,
     sg_ib = IB_new 65536 2 30 0 2, sg_sb = Some two_blocks\<rparr>"

theorem string_read_through_cache_witness:
  "\<exists>c'. SG_GetString (\<lambda>i. 0) 0 0 2 (Some (CSimple (SC_new 65536 2 0))) two_block_seg = Some ([7, 8], Some c')"
proof -
  have ok: "strs_ok two_block_seg" "seg_has two_block_seg 0 0 [7, 8]" "sg_sb two_block_seg = Some two_blocks"
    by (simp_all add: strs_ok_def seg_has_def two_block_seg_def two_blocks_def sb_ok_def located_def block_end_def pread_def nth_Cons
      split: nat.splits)
  note sc = SC_new_ok [of 2 0 65536, simplified]
  have fits: "cache_fits (CSimple (SC_new 65536 2 0)) two_blocks"
    by (simp add: cache_fits_def sc sc_valid_def sb_key_def GetCacheBlockId_def two_blocks_def less_2_cases_iff)
  have "vc.coherent [0 \<mapsto> [7, 8]] (CSimple (SC_new 65536 2 0))" by (simp add: vc.coherent_def sc)
  moreover have "sb_disk two_blocks [0 \<mapsto> [7, 8]]"
    by (simp add: sb_disk_def sb_key_def GetCacheBlockId_def two_blocks_def sb_block_def pread_def less_2_cases_iff)
  ultimately show ?thesis using string_read_through_cache [OF ok fits, of "[0 \<mapsto> [7, 8]]" "\<lambda>i. 0"] by (auto simp: numeral_2_eq_2)
qed

text \<open>
  The loop that enlarges a string file by factors of 1.3 ends from every capacity of at least 4 bytes,
  with more than is needed; the capacities of the code start at 30. Below 4 it would run forever.
\<close>

theorem extend_capacity_ends:
  "(4 \<le> cap \<longrightarrow> (\<exists>c. extend_capacity need cap = Some c \<and> need < c \<and> cap \<le> c)) \<and>
   (cap < 4 \<and> cap \<le> need \<longrightarrow> extend_capacity need cap = None)"
  using extend_capacity_returns extend_capacity_diverges by blast

theorem extend_capacity_ends_witness: "\<exists>c. extend_capacity 1000 30 = Some c \<and> 1000 < c"
  using extend_capacity_ends [of 30 1000] by auto

text \<open>
  \<open>Truncate\<close> leaves the index file of the string blocks. A segment that is created again over one with
  the positions 0 and 65000 writes its first string at offset 0, but \<open>AddString\<close> reports block 1 and
  position 536, and reading there gives the bytes at offset 65536 of the file instead of the string.
\<close>

theorem stale_index_misplaces_strings:
  assumes "length v < 1000" "v \<noteq> replicate (length v) 0"
  shows "\<exists>s' sf'. SG_AddString v (fst (stale_seg [] sf)) (snd (stale_seg [] sf)) = Some (of_nat (length v), 1, 536, s', sf') \<and>
    SG_GetString g 1 536 (length v) None s' \<noteq> Some (v, None)"
proof -
  have "pread (ftruncate 80030 []) 65536 (length v) = replicate (length v) 0"
    using assms(1) by (simp add: pread_def ftruncate_def)
  then show ?thesis using stale_index [of v "[]" sf g] assms by (auto simp: read_into_def)
qed

theorem stale_index_misplaces_strings_witness:
  "\<exists>s' sf'. SG_AddString [1, 2] (fst (stale_seg [] no_file)) (snd (stale_seg [] no_file)) = Some (2, 1, 536, s', sf') \<and>
    SG_GetString (\<lambda>i. 0) 1 536 2 None s' \<noteq> Some ([1, 2], None)"
  using stale_index_misplaces_strings [of "[1, 2]" no_file "\<lambda>i. 0"] by (simp add: numeral_2_eq_2)

subsection \<open>The caches\<close>

text \<open>
  C36: Both caches, behind one interface, return for a block that is on disk a buffer of its own whose
  content is that of the disk, whether they held the block or load it now, and stay coherent.
\<close>

theorem cache_returns_the_disk:
  assumes "cache_ok c" "cache_valid c k" "vc.coherent D c" "D k = Some d" "length d \<le> cache_cell c"
    and "unat len = length d" "length d \<le> MAX_BLOCK_SIZE" "pread fl (unat off) (length d) = d"
  shows "\<exists>a c' b. C_SetOrGet g ReadBlock k \<lparr>rp_file = fl, rp_len = len, rp_offset = off\<rparr> c = Some (True, Some a, c') \<and>
    cache_buf c' a = Some b \<and> take (length d) b = d \<and> cache_ok c' \<and> vc.coherent D c'"
proof -
  have "vc.loads ReadBlock k \<lparr>rp_file = fl, rp_len = len, rp_offset = off\<rparr> d" by (rule ReadBlock_loads [OF assms(6-8)])
  from vc.get_coherent [OF assms(1-5) this, of g] show ?thesis by blast
qed

theorem cache_returns_the_disk_witness:
  "\<exists>a c' b. C_SetOrGet (\<lambda>i. 0) ReadBlock 5 \<lparr>rp_file = [0, 7, 8], rp_len = 2, rp_offset = 1\<rparr> (CLru (LC_new 1 4)) = Some (True, Some a, c') \<and>
    cache_buf c' a = Some b \<and> take (length [7 :: byte, 8]) b = [7, 8] \<and> cache_ok c' \<and> vc.coherent [5 \<mapsto> [7, 8]] c'"
proof -
  note lc = LC_new_ok [of 4 1, simplified]
  have "vc.coherent [5 \<mapsto> [7, 8]] (CLru (LC_new 1 4))" by (simp add: vc.coherent_def lc)
  then show ?thesis by (intro cache_returns_the_disk) (simp_all add: lc pread_def)
qed

text \<open>
  When buffers are in use and the free list is shortened, \<open>SetMaxBufferNum\<close> returns the new maximum but
  stores a larger one, so that the pool goes on handing out more buffers than it was told.
\<close>

theorem max_buffer_num_not_stored:
  assumes "pool_ok p L" "length L \<le> unat n" "unat n < length (mp_que p) + length L"
    and "length (mp_que p) + length L < unat (mp_max p)"
  shows "fst (MP_SetMaxBufferNum n p) = n \<and> unat n < unat (mp_max (snd (MP_SetMaxBufferNum n p)))"
  using SetMax_not_stored [OF assms] by simp

theorem max_buffer_num_not_stored_witness:
  "2 < unat (mp_max (snd (MP_SetMaxBufferNum 2 \<lparr>mp_heap = [0 \<mapsto> [1], 1 \<mapsto> [2], 2 \<mapsto> [3]], mp_brk = 3, mp_que = [1, 2], mp_use = 1,
    mp_max = 10, mp_cell = 1\<rparr>)))"
proof -
  let ?p = "\<lparr>mp_heap = [0 \<mapsto> [1], 1 \<mapsto> [2], 2 \<mapsto> [3]], mp_brk = 3, mp_que = [1, 2], mp_use = 1, mp_max = 10, mp_cell = 1\<rparr> :: pool"
  have "pool_ok ?p [0]" by (auto simp: pool_ok_def)
  from max_buffer_num_not_stored [OF this, of 2] show ?thesis by simp
qed

text \<open>
  C37: In every cache with a buffer to spare, two threads that look up the same missing key while the load function
  fails give the buffer of the entry back twice. The second thread finds the entry of the first, waits for its lock,
  loads into the buffer that the first has given back, and gives it back again. Afterwards the pool lists the
  buffer twice as free, so that it is handed out to two blocks, or lists it although it has been freed.
\<close>

theorem failed_loads_free_a_buffer_twice:
  assumes "lru_ok c" "lc_view c key = None" "unat (mp_use (lc_pool c)) < unat (mp_max (lc_pool c))"
    and "\<And>b. length b = mp_cell (lc_pool c) \<Longrightarrow> \<exists>b'. ld key b token = Some (False, b') \<and> length b' = mp_cell (lc_pool c)"
  shows "\<exists>i c1 c2 c3 c4 c5 c6. SG_begin g key c = (Inr i, c1) \<and> SG_begin g key c1 = (Inr i, c2) \<and>
    SG_load ld key token i c2 = Some (Inr False, c3) \<and> SG_publish key i False c3 = (None, c4) \<and>
    SG_load ld key token i c4 = Some (Inr False, c5) \<and> SG_publish key i False c5 = (None, c6) \<and>
    (let a = ii_val (lc_objs c1 ! i); p = lc_pool c6
     in count_list (mp_que p) a = 2 \<or> a \<in> set (mp_que p) \<and> mp_heap p a = None)"
  using assms by (rule failed_loads)

theorem failed_loads_free_a_buffer_twice_witness:
  "\<exists>i c1 c2 c3 c4 c5 c6. SG_begin (\<lambda>i. 0) 5 (LC_new 1 4) = (Inr i, c1) \<and> SG_begin (\<lambda>i. 0) 5 c1 = (Inr i, c2) \<and>
    SG_load (\<lambda>k b t. Some (False, b)) 5 () i c2 = Some (Inr False, c3) \<and> SG_publish 5 i False c3 = (None, c4) \<and>
    SG_load (\<lambda>k b t. Some (False, b)) 5 () i c4 = Some (Inr False, c5) \<and> SG_publish 5 i False c5 = (None, c6) \<and>
    (let a = ii_val (lc_objs c1 ! i); p = lc_pool c6
     in count_list (mp_que p) a = 2 \<or> a \<in> set (mp_que p) \<and> mp_heap p a = None)"
proof (rule failed_loads_free_a_buffer_twice)
  show "lru_ok (LC_new 1 4)" "lc_view (LC_new 1 4) 5 = None" using LC_new_ok [of 4 1] by simp_all
  show "unat (mp_use (lc_pool (LC_new 1 4))) < unat (mp_max (lc_pool (LC_new 1 4)))"
    by (simp add: LC_new_def cache_sizes_def MP_Init_def)
qed simp

text \<open>
  The simple cache has room for the blocks of 400 segments. A key of a later segment reads and
  writes outside its table.
\<close>

theorem simple_cache_of_400_segments:
  assumes "sc_ok c"
  shows "(\<exists>r. SC_lookup k c = Some r) = (unat k div sc_gap c < 400) \<and>
    (400 \<le> unat k div sc_gap c \<longrightarrow> SC_SetOrGet g ld k t c = None \<and> SC_SetImpl k a c = None)"
  using assms by (auto simp: SC_lookup_alt sc_ok_def SC_SetOrGet_def SC_SetImpl_def fetch_def Let_def)

theorem simple_cache_of_400_segments_witness: "SC_SetImpl 800 0 (SC_new 4 2 0) = None"
  using simple_cache_of_400_segments [of "SC_new 4 2 0" 800 "\<lambda>i. 0" "\<lambda>k b t. None" "()" 0] SC_new_ok [of 2 0 4] by simp

end
