(* ===== verification/DataProps.thy ===== *)
theory DataProps
  imports BitmapManager ConcurrentVec VidMgr RangeResult RealtimeLists
begin

text \<open>
  What the data structures of the engine promise: the bitmap of deleted documents, the growable
  vector, the ids of vectors, range results and the realtime inverted lists, with an application of
  each property at a concrete input.
\<close>

subsection \<open>The bitmap of deleted documents\<close>


definition demo_bitmap :: bitmap_mgr where
  "demo_bitmap = \<lparr>bm_bits = Some [5, 0], bm_size = 8, bm_fd = 3, bm_path = [], bm_file = []\<rparr>"

lemma demo_bitmap_ok: "mgr_ok demo_bitmap"
  by (simp add: demo_bitmap_def mgr_ok_def bytes_count_def)



abbreviation full_io :: "nat \<Rightarrow> u32 \<Rightarrow> int" where "full_io \<equiv> (\<lambda>k n. uint n)"






text \<open>
  When the id is at or above the size, \<open>SetMaxID\<close> doubles the bitmap and keeps its members, also when
  the dump of the larger bitmap fails. It doubles once only: an id of twice the size or more is still
  refused by \<open>Set\<close> afterwards.
\<close>

theorem set_max_id_doubles_once:
  assumes "mgr_ok m" "mgr_clean m" "0 < unat (bm_size m)" "unat (bm_size m) < 2147483648" "bm_size m \<le> i" "io_ok io"
  shows "\<exists>m'. BM_SetMaxID io m i = Some m' \<and> mgr_set m' = mgr_set m \<and> unat (bm_size m') = 2 * unat (bm_size m) \<and>
    (2 * unat (bm_size m) \<le> unat i \<longrightarrow> BM_Set m' i = Some (-1, m'))"
proof -
  obtain m' where m': "BM_SetMaxID io m i = Some m'" "mgr_ok m'" "mgr_set m' = mgr_set m" "unat (bm_size m') = 2 * unat (bm_size m)"
    using BM_SetMaxID_grow [OF assms] by blast
  have "BM_Set m' i = Some (-1, m')" if "2 * unat (bm_size m) \<le> unat i"
    using m'(2,4) that by (auto simp: BM_Set_def word_less_nat_alt mgr_ok_def split: option.splits)
  then show ?thesis using m' by blast
qed

theorem set_max_id_doubles_once_witness:
  "\<exists>m'. BM_SetMaxID full_io demo_bitmap 20 = Some m' \<and> mgr_set m' = mgr_set demo_bitmap \<and> BM_Set m' 20 = Some (-1, m')"
proof -
  have "mgr_clean demo_bitmap"
  proof -
    have "x < 8" if "x \<in> bm_set [5, 0]" for x :: int
    proof (rule ccontr)
      assume "\<not> x < 8"
      then have "x div 8 \<ge> 1" by linarith
      moreover have "x div 8 < 2" "x \<ge> 0" using that by (auto simp: bm_set_def bm_dom_def)
      ultimately have "x div 8 = 1" by linarith
      then show False using that by (simp add: bm_set_def)
    qed
    moreover have "0 \<le> x" if "x \<in> bm_set [5, 0]" for x :: int using that by (simp add: bm_set_def bm_dom_def)
    ultimately show ?thesis by (auto simp: mgr_clean_def demo_bitmap_def)
  qed
  moreover have "io_ok full_io" by (simp add: io_ok_def) (metis uint_ge_0 dual_order.trans neg_le_0_iff_le zero_le_one)
  ultimately show ?thesis
    using set_max_id_doubles_once [OF demo_bitmap_ok, of 20 full_io] by (auto simp: demo_bitmap_def)
qed

text \<open>
  When every \<open>pwrite\<close> fails, \<open>Dump\<close> returns 0, as after a success, and has written nothing: the result
  -1 is added to the unsigned count of bytes written, which ends the loop.
\<close>

theorem failed_dump_reports_success:
  assumes "mgr_ok m" "0 < unat (bm_size m)" "bm_fd m \<noteq> -1" "\<forall>n. io 0 n = -1"
  shows "BM_Dump io m 0 (bm_size m) = Some (0, m)"
proof -
  have "\<not> range_bad m 0 (bm_size m)" by (simp add: range_bad_def)
  moreover have "bm_size m \<noteq> 0" using assms(2) by auto
  moreover have "0 < unat (drop_bit 3 (bm_size m - 1) + 1 :: u32)"
    using byte_range [OF assms(2), of 0 "bm_size m"] by simp
  ultimately show ?thesis using dump_loop_error [of "drop_bit 3 (bm_size m - 1) + 1" io] assms(3,4) by (simp add: BM_Dump_def Let_def)
qed

theorem failed_dump_reports_success_witness: "BM_Dump (\<lambda>k n. -1) demo_bitmap 0 (bm_size demo_bitmap) = Some (0, demo_bitmap)"
  by (rule failed_dump_reports_success [OF demo_bitmap_ok]) (simp_all add: demo_bitmap_def)

subsection \<open>The growable vector\<close>

text \<open>
  C40: \<open>ConcurrentVector\<close> is a list: while the capacity, which wraps in its 8 or 16 bits, leaves room,
  \<open>PushBack\<close> appends its value, and \<open>GetData\<close> reads every element below the size.
\<close>

theorem vector_is_a_list:
  assumes "cv_ok bm v" "0 < cv_room bm v"
  shows "\<exists>v'. CV_PushBack bm z v x = Some v' \<and> cv_ok bm v' \<and> cv_list v' = cv_list v @ [x] \<and>
    cv_room bm v' = cv_room bm v - 1 \<and> (\<forall>i < cv_size v'. CV_GetData z v' i = Some (cv_list v' ! unat i))"
proof -
  obtain v' where v': "CV_PushBack bm z v x = Some v'" "cv_ok bm v'" "cv_list v' = cv_list v @ [x]" "cv_room bm v' = cv_room bm v - 1"
    using PushBack_ok [OF assms, of z x] by blast
  then show ?thesis using GetData_ok(1) [OF v'(2), of _ z] by blast
qed

definition demo_vec :: "int cvec" where "demo_vec = CV_Init new_cvec 2 3"

lemma demo_vec_ok: "cv_ok 256 demo_vec" "cv_list demo_vec = []" "cv_room 256 demo_vec = 762"
proof -
  show "cv_ok 256 demo_vec" "cv_list demo_vec = []" using Init_ok [of 2 256 3, where ?'a = int and ?'b = int] by (simp_all add: demo_vec_def)
  show "cv_room 256 demo_vec = 762" by (simp add: demo_vec_def cv_room_def cv_maxcap_def CV_Init_def new_cvec_def)
qed

theorem vector_is_a_list_witness: "\<exists>v'. CV_PushBack 256 0 demo_vec 7 = Some v' \<and> cv_list v' = [7]"
  using vector_is_a_list [of 256 demo_vec 0 7] demo_vec_ok by auto

text \<open>
  \<open>Resize\<close> beyond the capacity allocates too short an array of groups, the rounded-up quotient by
  the initial capacity instead of a multiple of it, and writes behind its end.
\<close>

theorem resize_overruns_the_groups:
  assumes "cv_ok bm v" "1 < cv_begin v" "cv_begin v \<le> cv_cap v" "cv_cap v < cv_groups n (cv_gap v)" "cv_groups n (cv_gap v) < bm"
  shows "CV_Resize bm z vs v n = None"
  by (rule Resize_overrun [OF assms])

theorem resize_overruns_the_groups_witness: "CV_Resize 256 0 8 demo_vec 20 = None"
  by (rule resize_overruns_the_groups [OF demo_vec_ok(1)]) (simp_all add: demo_vec_def CV_Init_def new_cvec_def cv_groups_def)

text \<open>
  With several vectors per document, \<open>VIDMgr::Add\<close> puts the second vector id of a document into the slot
  of the first and sets the number of ids to 2, so that the first is lost and the second slot is
  read uninitialised.
\<close>

theorem second_vector_id_overwrites_first:
  assumes "vm_multi m" "fetch (vm_v2d m) v = Some x" "fetch (vm_v2d m) w = Some y" "fetch (vm_d2v m) d = Some None"
  shows "\<exists>m1 m2. VM_Add m v d = Some (0, m1) \<and> VM_DocID2VID m1 d = Some [v] \<and> VM_Add m1 w d = Some (0, m2) \<and>
    VM_GetFirstVID m2 d = Some w \<and> VM_DocID2VID m2 d = None"
proof -
  obtain m1 where m1: "VM_Add m v d = Some (0, m1)" "vm_multi m1" "VM_DocID2VID m1 d = Some [v]"
    "fetch (vm_d2v m1) d = Some (Some ([Some 1, Some v] @ replicate 9 None))" "length (vm_v2d m1) = length (vm_v2d m)"
    using Add_first [OF assms(1,2,4)] by blast
  have "\<exists>y'. fetch (vm_v2d m1) w = Some y'" using assms(3) m1(5) by (auto simp: mem_simps)
  then obtain y' where "fetch (vm_v2d m1) w = Some y'" by blast
  from Add_second [OF m1(2) this m1(4)] show ?thesis using m1 by blast
qed

theorem second_vector_id_overwrites_first_witness:
  "\<exists>m1 m2. VM_Add \<lparr>vm_multi = True, vm_v2d = [-1, -1], vm_d2v = [None]\<rparr> 0 0 = Some (0, m1) \<and> VM_DocID2VID m1 0 = Some [0] \<and>
    VM_Add m1 1 0 = Some (0, m2) \<and> VM_GetFirstVID m2 0 = Some 1 \<and> VM_DocID2VID m2 0 = None"
  by (rule second_vector_id_overwrites_first) (simp_all add: fetch_def)

text \<open>
  \<open>ToDocs\<close> of a range result returns the documents in it, in ascending order and each once, and sets
  the number of documents.
\<close>

theorem to_docs_sorted:
  assumes "rr_inv r" "rr_ndoc r < 0 \<or> rr_ndoc r = int (card (rr_docs r))"
  shows "\<exists>r'. RR_ToDocs r = Some (sorted_list_of_set (rr_docs r), r') \<and> rr_ndoc r' = int (card (rr_docs r)) \<and> rr_docs r' = rr_docs r"
  by (rule RR_ToDocs_spec [OF assms])

abbreviation demo_result :: rqr where
  "demo_result \<equiv> \<lparr>rr_min = 0, rr_max = 2, rr_min_al = 0, rr_max_al = 7, rr_next = -1, rr_ndoc = -1, rr_bits = Some [5], rr_not_in = False\<rparr>"

theorem to_docs_sorted_witness: "\<exists>r'. RR_ToDocs demo_result = Some ([0, 2], r')"
proof -
  have bs: "x \<in> bm_set [5] \<longleftrightarrow> x = 0 \<or> x = 2" for x :: int
  proof
    assume x: "x \<in> bm_set [5]"
    then have b: "0 \<le> x div 8" "x div 8 < 1" by (auto simp: bm_set_def bm_dom_def)
    then have "x div 8 = 0" "0 \<le> x" "x < 8" by linarith+
    then have "x \<in> {0, 1, 2, 3, 4, 5, 6, 7}" "bit (5 :: byte) (nat x)" using x by (auto simp: bm_set_def)
    then show "x = 0 \<or> x = 2" by (auto simp: bit_numeral_rec)
  qed (auto simp: bm_set_def bm_dom_def bit_numeral_rec)
  have blk: "rr_block demo_result = [5]" by (simp add: rr_block_def)
  have "rr_inv demo_result" by (auto simp: rr_inv_def blk bs bm_dom_def)
  moreover have "rr_docs demo_result = {0, 2}" by (auto simp: rr_docs_def blk bs)
  ultimately show ?thesis using to_docs_sorted [of demo_result] by auto
qed

subsection \<open>The realtime inverted lists\<close>

text \<open>
  \<open>AddKeys\<close> appends the ids with their codes to the end of the list of their bucket, growing the
  bucket when it is full, and leaves every other list alone; the position table stays right. When the
  bucket has reached its limit the call returns false and changes nothing.
\<close>

theorem add_keys_appends:
  assumes "rt_ok c (rm_cur m)" "rm_cb m = int c" "b < length (rt_idx (rm_cur m))" "1 \<le> rt_cap (rm_cur m) ! b"
    and "(\<forall>k \<in> set keys. key_ok vm bmg k) \<and> distinct keys \<and> length codes = length keys * c"
    and "rt_rpos (rm_cur m) ! b + int (length keys) < 2147483648" "pos_ok (rm_cur m)" "unmarked (rm_cur m) \<inter> set keys = {}"
  shows "if fits m b (int (length keys))
    then \<exists>m'. RM_AddKeys vm bmg m (int b) (int (length keys)) keys codes = Some (True, m') \<and> rt_ok c (rm_cur m') \<and>
      pos_ok (rm_cur m') \<and> length (rt_idx (rm_cur m')) = length (rt_idx (rm_cur m)) \<and>
      (\<forall>a < length (rt_idx (rm_cur m)). rt_list c (rm_cur m') a = rt_list c (rm_cur m) a @
         (if a = b then map (\<lambda>i. (keys ! i, map Some (slot c codes i))) [0..<length keys] else []))
    else RM_AddKeys vm bmg m (int b) (int (length keys)) keys codes = Some (False, m)"
proof (cases "fits m b (int (length keys))")
  case True
  have k: "\<forall>k \<in> set keys. key_ok vm bmg k" "distinct keys" "length codes = length keys * c" using assms(5) by simp_all
  from RM_AddKeys_spec [OF assms(1-4) k assms(6) True] show ?thesis using True assms(7,8) by auto
next
  case False
  then show ?thesis using RM_AddKeys_full [OF assms(1-4) False] by simp
qed

abbreviation demo_vids :: vid_mgr where "demo_vids \<equiv> new_vid_mgr False"

definition demo_rt :: rtm where "demo_rt = RM_Init 2 4 100 1"

lemma demo_keys: "key_ok demo_vids demo_bitmap 1" "key_ok demo_vids demo_bitmap 3"
  "\<not> entry_dead demo_vids demo_bitmap 1" "\<not> entry_dead demo_vids demo_bitmap 3" "entry_dead demo_vids demo_bitmap 2"
  by (simp_all add: key_ok_def rt_deleted_def new_vid_mgr_def VM_VID2DocID_def BM_Test_def demo_bitmap_def bitmap_test_def
    fetch_def entry_dead_def bit_mask_def)

lemmas demo_rt_init = RM_Init_ok [where n = 2 and k = 4 and limit = 100 and c = 1]

lemma demo_rt_ok:
  "rt_ok 1 (rm_cur demo_rt)" "pos_ok (rm_cur demo_rt)" "rm_cb demo_rt = int 1" "length (rt_idx (rm_cur demo_rt)) = 2"
  "rt_cap (rm_cur demo_rt) ! 0 = 4" "rt_rpos (rm_cur demo_rt) ! 0 = 0" "fits demo_rt 0 2" "unmarked (rm_cur demo_rt) = {}"
  "rt_list 1 (rm_cur demo_rt) 0 = []" "rt_list 1 (rm_cur demo_rt) 1 = []"
proof -
  note i = demo_rt_init [simplified]
  show "rt_ok 1 (rm_cur demo_rt)" "pos_ok (rm_cur demo_rt)" "rm_cb demo_rt = int 1" "length (rt_idx (rm_cur demo_rt)) = 2"
    "rt_cap (rm_cur demo_rt) ! 0 = 4" "rt_rpos (rm_cur demo_rt) ! 0 = 0" "rt_list 1 (rm_cur demo_rt) 0 = []" "rt_list 1 (rm_cur demo_rt) 1 = []"
    using i(3) [of 0] i(3) [of 1] i(6) [of 0] by (simp_all add: i demo_rt_def)
  then show "fits demo_rt 0 2" by (simp add: fits_def)
  have "rt_rpos (rm_cur demo_rt) ! a = 0" if "a < 2" for a using i(6) [OF that] by (simp add: demo_rt_def)
  then show "unmarked (rm_cur demo_rt) = {}" by (auto simp: unmarked_def i(5) demo_rt_def)
qed

lemma demo_rt_added:
  "\<exists>m. RM_AddKeys demo_vids demo_bitmap demo_rt 0 2 [3, 1] [7, 8] = Some (True, m) \<and> rt_ok 1 (rm_cur m) \<and> pos_ok (rm_cur m) \<and>
    rm_cb m = 1 \<and> rm_limit m = 100 \<and> length (rt_idx (rm_cur m)) = 2 \<and>
    rt_list 1 (rm_cur m) 0 = [(3, [Some 7]), (1, [Some 8])] \<and> rt_list 1 (rm_cur m) 1 = []"
proof -
  have k: "\<forall>k \<in> set [3, 1]. key_ok demo_vids demo_bitmap k" "distinct [3, 1 :: u64]" "length [7, 8 :: byte] = length [3, 1 :: u64] * 1"
    using demo_keys by simp_all
  have z: "(0 :: nat) < length (rt_idx (rm_cur demo_rt))" "1 \<le> rt_cap (rm_cur demo_rt) ! 0"
    "rt_rpos (rm_cur demo_rt) ! 0 + int (length [3, 1 :: u64]) < 2147483648" "fits demo_rt 0 (int (length [3, 1 :: u64]))"
    using demo_rt_ok by simp_all
  have l: "rm_limit demo_rt = 100" by (simp add: demo_rt_def RM_Init_def RT_Init_def)
  obtain m where m: "RM_AddKeys demo_vids demo_bitmap demo_rt (int 0) (int (length [3, 1 :: u64])) [3, 1] [7, 8] = Some (True, m)"
    "rt_ok 1 (rm_cur m)" "rm_cb m = rm_cb demo_rt" "rm_limit m = rm_limit demo_rt" "length (rt_idx (rm_cur m)) = length (rt_idx (rm_cur demo_rt))"
    and lst: "\<forall>a < length (rt_idx (rm_cur demo_rt)). rt_list 1 (rm_cur m) a = rt_list 1 (rm_cur demo_rt) a @
       (if a = 0 then map (\<lambda>i. ([3, 1] ! i, map Some (slot 1 [7, 8] i))) [0..<length [3, 1 :: u64]] else [])"
    and p: "pos_ok (rm_cur demo_rt) \<longrightarrow> unmarked (rm_cur demo_rt) \<inter> set [3, 1] = {} \<longrightarrow> pos_ok (rm_cur m)"
    using RM_AddKeys_spec [OF demo_rt_ok(1,3) z(1,2) k z(3,4)] by blast
  have "rt_list 1 (rm_cur m) 0 = [(3, [Some 7]), (1, [Some 8])]"
    using lst [rule_format, of 0] demo_rt_ok(4,9) by (simp add: slot_def)
  moreover have "rt_list 1 (rm_cur m) 1 = []" using lst [rule_format, of 1] demo_rt_ok(4,10) by simp
  moreover have "pos_ok (rm_cur m)" using p demo_rt_ok by simp
  ultimately show ?thesis using m demo_rt_ok(3,4) l by (intro exI [of _ m]) simp
qed

theorem add_keys_appends_witness:
  "\<exists>m. RM_AddKeys demo_vids demo_bitmap demo_rt 0 2 [3, 1] [7, 8] = Some (True, m) \<and> pos_ok (rm_cur m)"
  using add_keys_appends [OF demo_rt_ok(1,3), of 0 "[3, 1]" demo_vids demo_bitmap "[7, 8]"] demo_keys demo_rt_ok
  by (auto simp: length_0_conv [symmetric] simp del: length_0_conv)

text \<open>
  Compacting a bucket keeps the order and the codes of its live entries, drops exactly those that
  are marked as moved or whose document is deleted, leaves the other lists alone and makes the
  position table right again.
\<close>

theorem compaction_drops_the_dead:
  assumes "rt_ok c d" "pos_ok d" "b < length (rt_idx d)" "ids_known vm bmg d b"
  shows "\<exists>d'. RT_CompactBucket vm bmg (int c) d (int b) = Some d' \<and> rt_ok c d' \<and> pos_ok d' \<and>
    (\<forall>a < length (rt_idx d). rt_list c d' a =
      (if a = b then filter (\<lambda>e. \<not> entry_dead vm bmg (fst e)) (rt_list c d b) else rt_list c d a))"
  using RT_CompactBucket_spec [OF assms] by blast

lemma ids_known_list:
  assumes "rt_ok c d" "b < length (rt_idx d)" "\<forall>e \<in> set (rt_list c d b). key_ok vm bmg (fst e)"
  shows "ids_known vm bmg d b"
proof -
  have "nat (rt_rpos d ! b) \<le> length (rt_idx d ! b)" using rt_okD(1) [OF assms(1,2)] by (auto simp: bucket_ok_def nat_le_iff)
  then have "map fst (rt_list c d b) = map the (take (nat (rt_rpos d ! b)) (rt_idx d ! b))"
    by (intro nth_equalityI) (simp_all add: rt_list_def bucket_list_def)
  then have "set (map the (take (nat (rt_rpos d ! b)) (rt_idx d ! b))) = fst ` set (rt_list c d b)" by (metis set_map)
  then show ?thesis using assms(3) by (auto simp: ids_known_def)
qed

theorem compaction_drops_the_dead_witness:
  "\<exists>d d'. rt_list 1 d 0 = [(3, [Some 7]), (1, [Some 8])] \<and> RT_CompactBucket demo_vids (demo_bitmap\<lparr>bm_bits := Some [8, 0]\<rparr>) 1 d 0 = Some d' \<and>
    rt_list 1 d' 0 = [(1, [Some 8])]"
proof -
  obtain m :: rtm where m: "rt_ok 1 (rm_cur m)" "pos_ok (rm_cur m)" "length (rt_idx (rm_cur m)) = 2"
    "rt_list 1 (rm_cur m) 0 = [(3, [Some 7]), (1, [Some 8])]" using demo_rt_added by blast
  let ?bm = "demo_bitmap\<lparr>bm_bits := Some [8, 0]\<rparr>"
  have k: "key_ok demo_vids ?bm 3" "key_ok demo_vids ?bm 1" "entry_dead demo_vids ?bm 3" "\<not> entry_dead demo_vids ?bm 1"
    by (simp_all add: key_ok_def rt_deleted_def new_vid_mgr_def VM_VID2DocID_def BM_Test_def demo_bitmap_def bitmap_test_def
      fetch_def entry_dead_def bit_mask_def)
  have b: "(0 :: nat) < length (rt_idx (rm_cur m))" using m(3) by simp
  have "ids_known demo_vids ?bm (rm_cur m) 0" using k(1,2) m(4) by (intro ids_known_list [OF m(1) b]) auto
  from compaction_drops_the_dead [OF m(1,2) b this] obtain d' where "RT_CompactBucket demo_vids ?bm 1 (rm_cur m) 0 = Some d'"
    "\<forall>a < length (rt_idx (rm_cur m)). rt_list 1 d' a =
      (if a = 0 then filter (\<lambda>e. \<not> entry_dead demo_vids ?bm (fst e)) (rt_list 1 (rm_cur m) 0) else rt_list 1 (rm_cur m) a)" by auto
  moreover from this have "rt_list 1 d' 0 = [(1, [Some 8])]" using m(4) k(3,4) b by (metis (no_types, lifting) filter.simps fst_conv)
  ultimately show ?thesis using m(4) by blast
qed

text \<open>
  Growing a bucket ends, also for the factors below 1 that the growth formula gives after many
  extensions: the 8-bit count of extensions wraps, and the large factors come again. The result holds
  what was asked for.
\<close>

theorem bucket_growth_ends:
  assumes "1 \<le> x"
  shows "\<exists>t' y. extend_loop t x least = Some (t', y) \<and> x \<le> y \<and> least \<le> y"
  by (rule extend_loop_returns [OF assms])

theorem bucket_growth_ends_witness: "\<exists>t' y. extend_loop 200 10 1000000 = Some (t', y) \<and> 10 \<le> y \<and> 1000000 \<le> y"
  by (rule bucket_growth_ends) simp

text \<open>
  \<open>Update\<close> of an id whose bucket changes marks the old entry as moved and appends the id with its new
  codes to the new bucket; it returns 1, the success of \<open>AddKeys\<close>, where the other branches return 0.
\<close>

theorem update_moves_the_entry:
  assumes "rt_ok c (rm_cur m)" "pos_ok (rm_cur m)" "rm_cb m = int c" "length codes = c"
    and "a < length (rt_idx (rm_cur m))" "i < nat (rt_rpos (rm_cur m) ! a)" "the (rt_idx (rm_cur m) ! a ! i) = word_of_int v"
    and "0 \<le> v" "v < 2147483648" "key_ok vm bmg (word_of_int v)"
    and "b < length (rt_idx (rm_cur m))" "b \<noteq> a" "1 \<le> rt_cap (rm_cur m) ! b"
    and "rt_rpos (rm_cur m) ! b + 1 < 2147483648" "fits m b 1"
  shows "\<exists>m'. RM_Update vm bmg m (int b) v codes = Some (1, m') \<and> rt_ok c (rm_cur m') \<and> pos_ok (rm_cur m') \<and>
    rt_list c (rm_cur m') b = rt_list c (rm_cur m) b @ [(word_of_int v, map Some codes)] \<and>
    rt_list c (rm_cur m') a = (rt_list c (rm_cur m) a)[i := (word_of_int v OR kDelIdxMask, snd (rt_list c (rm_cur m) a ! i))]"
  by (rule RM_Update_moved [OF assms])

definition demo_rtm :: rtm where
  "demo_rtm = \<lparr>rm_cur = \<lparr>rt_idx = [[Some 3, None], [None, None]], rt_rpos = [1, 0], rt_cap = [2, 2], rt_ext = [0, 0],
      rt_codes = [[Some 7, None], [None, None]], rt_vpos = [0, 0, 0, pack_pos 0 0], rt_del = [0, 0], rt_compacted = 0,
      rt_buckets = 2, rt_nids = 4\<rparr>,
    rm_buckets = 2, rm_limit = 100, rm_cb = 1, rm_mem = 0, rm_frees = []\<rparr>"

lemma demo_rtm_ok: "rt_ok 1 (rm_cur demo_rtm)" "pos_ok (rm_cur demo_rtm)"
  by (auto simp: demo_rtm_def rt_ok_def pos_ok_def bucket_ok_def less_Suc_eq)

theorem update_moves_the_entry_witness:
  "\<exists>m'. RM_Update demo_vids demo_bitmap demo_rtm 1 3 [9] = Some (1, m') \<and> rt_list 1 (rm_cur m') 1 = [(3, [Some 9])]"
proof -
  have r: "rm_cb demo_rtm = int 1" "length (rt_idx (rm_cur demo_rtm)) = 2" "rt_rpos (rm_cur demo_rtm) ! 0 = 1" "rt_rpos (rm_cur demo_rtm) ! 1 = 0"
    "the (rt_idx (rm_cur demo_rtm) ! 0 ! 0) = word_of_int 3" "rt_cap (rm_cur demo_rtm) ! 1 = 2" "fits demo_rtm 1 1"
    "rt_list 1 (rm_cur demo_rtm) 1 = []"
    by (simp_all add: demo_rtm_def fits_def rt_list_def bucket_list_def)
  show ?thesis
    using update_moves_the_entry [OF demo_rtm_ok r(1), of "[9]" 0 0 3 demo_vids demo_bitmap 1] r demo_keys by auto
qed

text \<open>
  A bucket is compacted when at least three tenths of its entries are deleted: for sizes below
  2^24 the comparison of single-precision floats is exact.
\<close>

theorem compaction_at_three_tenths:
  assumes "0 < sz" "sz < 16777216"
  shows "compact_ratio deleted sz \<longleftrightarrow> 3 * sz \<le> 10 * deleted"
  by (rule compact_ratio_tenths [OF assms])

theorem compaction_at_three_tenths_witness: "compact_ratio 3 10 \<and> \<not> compact_ratio 2 10"
  using compaction_at_three_tenths [of 10] by simp

end
