(* ===== verification/MgrStrings.thy ===== *)
theory MgrStrings
  imports StorageSpec SegStrings
begin

text \<open>
  Strings at the level of the storage manager: what \<open>AddString\<close> promises to the columns and to the
  table. The invariant \<open>sm_strings\<close> says that every segment has a string block that is in order and
  that the string cache agrees with the complete blocks of all segments; \<open>sm_has\<close> says that the
  segment of an item holds a string at a place. Adding items and strings, the writer thread and
  reading keep both.
\<close>

subsection \<open>What a change outside the items leaves\<close>

definition same_items :: "segfile \<Rightarrow> segfile \<Rightarrow> bool" where
  "same_items sf sf' \<longleftrightarrow> sf_cur sf' = sf_cur sf \<and> length (sf_base sf') = length (sf_base sf) \<and>
     (\<forall>a n. a + n \<le> StrCapacityOff \<or> header_size \<le> a \<longrightarrow> a + n \<le> length (sf_base sf) \<longrightarrow>
        pread (sf_base sf') a n = pread (sf_base sf) a n)"

lemma same_items_refl [simp]: "same_items sf sf"
  by (simp add: same_items_def)

lemma same_items_trans: "same_items a b \<Longrightarrow> same_items b c \<Longrightarrow> same_items a c"
  by (simp add: same_items_def)

lemma same_items_write:
  assumes "StrCapacityOff \<le> off" "off + length bs \<le> header_size" "header_size \<le> length (sf_base sf)"
  shows "same_items sf (sf\<lparr>sf_base := write_at (sf_base sf) off bs\<rparr>)"
  using assms unfolding same_items_def
  by (auto simp: write_at_length StrCapacityOff_def SizeOff_def CapacityOff_def intro!: pread_write_other)

lemma same_items_header:
  assumes "header_size \<le> length (sf_base sf)"
  shows "same_items sf (SetStrCapacity n sf)" "same_items sf (SetStrOffset e sf)"
  using assms unfolding SetStrCapacity_def SetStrOffset_def
  by (auto intro!: same_items_write simp: StrOffsetOff_def StrCapacityOff_def SizeOff_def CapacityOff_def le64_def)

lemma sm_repr_frame:
  assumes r: "sm_repr S L m items P"
    and same: "sm_fixed m' = sm_fixed m" "sm_segment_size m' = sm_segment_size m" "sm_capacity m' = sm_capacity m"
      "sm_queue m' = sm_queue m" "sm_size m' = sm_size m" "sm_cache m' = sm_cache m" "length (sm_segs m') = length (sm_segs m)"
    and sg: "\<And>k. k < length (sm_segs m) \<Longrightarrow> sg_max (sm_segs m' ! k) = sg_max (sm_segs m ! k) \<and>
      sg_item (sm_segs m' ! k) = sg_item (sm_segs m ! k) \<and> sg_ib (sm_segs m' ! k) = sg_ib (sm_segs m ! k) \<and>
      sg_buffered (sm_segs m' ! k) = sg_buffered (sm_segs m ! k)"
    and dk: "\<And>k. k < length (sm_segs m) \<Longrightarrow> same_items (sm_disk m k) (sm_disk m' k)"
    and new: "\<And>k. length (sm_segs m) \<le> k \<Longrightarrow> sm_disk m' k = sm_disk m k"
  shows "sm_repr S L m' items P"
proof -
  have cf: "sm_cfg S L m" and dr: "\<forall>k < length (sm_segs m). disk_repr S L items P k (sm_disk m k)"
    using r unfolding sm_repr_def by blast+
  have "seg_blocks L m \<subseteq>\<^sub>m seg_blocks L m'"
  proof (rule seg_blocks_mono [OF cf same(3)])
    show "\<forall>k i. k < length (sm_segs m) \<longrightarrow> i + blk L \<le> unat (sf_cur (sm_disk m k)) * L \<longrightarrow>
      pread (sf_base (sm_disk m' k)) (header_size + i) (blk L) = pread (sf_base (sm_disk m k)) (header_size + i) (blk L)"
    proof (intro allI impI)
      fix k i assume k: "k < length (sm_segs m)" and i: "i + blk L \<le> unat (sf_cur (sm_disk m k)) * L"
      have d: "disk_repr S L items P k (sm_disk m k)" using dr k by blast
      then have "unat (sf_cur (sm_disk m k)) * L \<le> S * L" by (intro mult_le_mono1) (simp add: disk_repr_def)
      moreover have "header_size + S * L \<le> length (sf_base (sm_disk m k))" using d by (simp add: disk_repr_def)
      ultimately have "header_size + i + blk L \<le> length (sf_base (sm_disk m k))" using i by linarith
      then show "pread (sf_base (sm_disk m' k)) (header_size + i) (blk L) = pread (sf_base (sm_disk m k)) (header_size + i) (blk L)"
        using dk [OF k] by (simp add: same_items_def)
    qed
  qed (use same dk in \<open>auto simp: same_items_def\<close>)
  then have ch: "case sm_cache m' of None \<Rightarrow> True | Some c \<Rightarrow> cache_repr L m' c"
    using r cache_repr_mono [OF _ same(3)] by (auto simp: sm_repr_def same split: option.splits)
  have "disk_repr S L items P k (sm_disk m' k)" if k: "k < length (sm_segs m)" for k
  proof -
    have d: "disk_repr S L items P k (sm_disk m k)" and s: "same_items (sm_disk m k) (sm_disk m' k)" using dr dk k by blast+
    have rd: "pread (sf_base (sm_disk m' k)) (header_size + j * L) L = pread (sf_base (sm_disk m k)) (header_size + j * L) L"
      if "j < min S (P - k * S)" for j
    proof -
      have "(j + 1) * L \<le> S * L" using that by (intro mult_le_mono1) simp
      then show ?thesis using s d by (simp add: same_items_def disk_repr_def)
    qed
    have "header_size \<le> length (sf_base (sm_disk m k))" using d by (simp add: disk_repr_def)
    then have "pread (sf_base (sm_disk m' k)) SizeOff 4 = pread (sf_base (sm_disk m k)) SizeOff 4"
      using s by (simp add: same_items_def StrCapacityOff_def SizeOff_def CapacityOff_def)
    then show ?thesis using d s rd by (simp add: disk_repr_def same_items_def)
  qed
  moreover have "seg_repr S L m' items P k (sm_segs m' ! k)" if "k < length (sm_segs m)" for k
    using r sg [OF that] that unfolding sm_repr_def seg_repr_def ibk_cong [OF same(3)] by auto
  ultimately show ?thesis
    using r ch new unfolding sm_repr_def few_segs_cong [OF same(3)] same sm_cfg_cong [OF same(1-3)] by auto
qed

subsection \<open>The number of blocks\<close>

text \<open>A block is closed when the string that follows would fill it, so the starts of every second block
  are a block length apart.\<close>

definition wide :: "strblk \<Rightarrow> nat \<Rightarrow> bool" where
  "wide sb e \<longleftrightarrow>
     (\<forall>i. i + 2 < length (sb_pos sb) \<longrightarrow> unat (sb_pos sb ! i) + unat (sb_per_block sb) \<le> unat (sb_pos sb ! (i + 2))) \<and>
     (\<forall>i. i + 2 = length (sb_pos sb) \<longrightarrow> unat (sb_pos sb ! i) + unat (sb_per_block sb) \<le> e)"

lemma wide_step:
  assumes ok: "sb_ok sb e" and w: "wide sb e" and sb': "sb_pos sb' = new_pos sb e n" "sb_per_block sb' = sb_per_block sb"
  shows "wide sb' (e + n)"
proof -
  define p where "p = (if sb_pos sb = [] then [0] else sb_pos sb)"
  let ?B = "unat (sb_per_block sb)"
  have ue: "unat (of_nat e :: u32) = e" using ok by (intro unat_of_nat32) (simp add: sb_ok_def)
  have p: "p \<noteq> []" "unat (last p) \<le> e" using ok by (auto simp: p_def sb_ok_def)
  have wp: "unat (p ! i) + ?B \<le> unat (p ! (i + 2))" if "i + 2 < length p" for i
    using w that by (auto simp: wide_def p_def split: if_splits)
  have we: "unat (p ! i) + ?B \<le> e" if "i + 2 = length p" for i
    using w that by (auto simp: wide_def p_def split: if_splits)
  show ?thesis
  proof (cases "?B \<le> e - unat (last p) + n")
    case True
    then have q: "sb_pos sb' = p @ [of_nat e]" by (simp add: sb' new_pos_def Let_def flip: p_def)
    have "p ! (length p - 1) = last p" using p(1) by (simp add: last_conv_nth)
    then have "unat (p ! i) + ?B \<le> e + n" if "i + 1 = length p" for i
      using p(2) True that [symmetric] by simp
    then show ?thesis using wp we ue unfolding wide_def q sb'(2)
      by (auto simp: nth_append less_Suc_eq)
  next
    case False
    then have q: "sb_pos sb' = p" by (simp add: sb' new_pos_def Let_def flip: p_def)
    show ?thesis unfolding wide_def q sb'(2) using wp we by (auto intro: le_trans trans_le_add1)
  qed
qed

lemma wide_pos:
  assumes w: "wide sb e"
  shows "2 * j < length (sb_pos sb) \<Longrightarrow> j * unat (sb_per_block sb) \<le> unat (sb_pos sb ! (2 * j))"
proof (induction j)
  case (Suc j)
  then have "unat (sb_pos sb ! (2 * j)) + unat (sb_per_block sb) \<le> unat (sb_pos sb ! (2 * j + 2))" using w by (simp add: wide_def)
  then show ?case using Suc by simp
qed simp

lemma wide_blocks:
  assumes w: "wide sb e" and B: "0 < unat (sb_per_block sb)" and ok: "sb_ok sb e"
  shows "length (sb_pos sb) \<le> 2 * (e div unat (sb_per_block sb)) + 2"
proof -
  let ?B = "unat (sb_per_block sb)" and ?n = "length (sb_pos sb)"
  define j where "j = (?n - 1) div 2"
  show ?thesis
  proof (cases "?n = 0")
    case False
    then have "2 * j < ?n" "?n \<le> 2 * j + 2" unfolding j_def by linarith+
    then have "j * ?B \<le> unat (sb_pos sb ! (2 * j))" "unat (sb_pos sb ! (2 * j)) \<le> e"
      using wide_pos [OF w] block_end_le [OF ok, of "2 * j"] by (auto intro: le_trans)
    then have "j * ?B \<le> e" by (rule le_trans)
    then have "j \<le> e div ?B" using B by (simp add: less_eq_div_iff_mult_less_eq)
    then show ?thesis using \<open>?n \<le> 2 * j + 2\<close> by linarith
  qed simp
qed

lemma blk_large: "0 < L \<Longrightarrow> L \<le> MAX_BLOCK_SIZE \<Longrightarrow> 32768 < blk L"
proof -
  assume L: "0 < L" "L \<le> MAX_BLOCK_SIZE"
  show "32768 < blk L"
  proof (cases "L \<le> 32768")
    case True
    have "65536 div L * L + 65536 mod L = 65536" by simp
    moreover have "65536 mod L < 32768 \<or> 65536 mod L = 0"
      using True L(1) by (cases "L = 32768") (auto intro: less_le_trans [OF mod_less_divisor])
    ultimately show ?thesis unfolding blk_def by linarith
  next
    case False
    then show ?thesis using blk_bounds(1) [OF L] by simp
  qed
qed

subsection \<open>The invariant\<close>

definition seg_strs :: "sm \<Rightarrow> nat \<Rightarrow> seg \<Rightarrow> bool" where
  "seg_strs m k s \<longleftrightarrow> strs_ok s \<and> (\<exists>sb. sg_sb s = Some sb \<and> sb_seg sb = of_nat k \<and> sb_capacity sb = sm_capacity m \<and>
     length (sb_pos sb) \<le> unat (sm_capacity m) \<and> wide sb (unat (sg_str_offset s)) \<and> 32768 < unat (sb_per_block sb))"

text \<open>The complete blocks of all segments under their keys.\<close>

definition seg_str_block :: "seg \<Rightarrow> nat \<Rightarrow> byte list option" where
  "seg_str_block s i = (case sg_sb s of None \<Rightarrow> None
     | Some sb \<Rightarrow> if Suc i < length (sb_pos sb) then Some (sb_block sb i) else None)"

definition str_blocks :: "sm \<Rightarrow> u32 \<Rightarrow> byte list option" where
  "str_blocks m x =
     (let k = unat x div unat (sm_capacity m); i = unat x mod unat (sm_capacity m)
      in if k < length (sm_segs m) then seg_str_block (sm_segs m ! k) i else None)"

definition str_cache_repr :: "sm \<Rightarrow> cache \<Rightarrow> bool" where
  "str_cache_repr m c \<longleftrightarrow> cache_ok c \<and> cache_cell c = MAX_BLOCK_SIZE \<and>
     (\<forall>k < 400. \<forall>i < unat (sm_capacity m). few_segs (k + 1) m \<longrightarrow>
        cache_valid c (GetCacheBlockId (of_nat k) (sm_capacity m) (of_nat i))) \<and>
     vc.coherent (str_blocks m) c"

definition sm_strings :: "sm \<Rightarrow> bool" where
  "sm_strings m \<longleftrightarrow> sm_table m \<and> (\<forall>k < length (sm_segs m). seg_strs m k (sm_segs m ! k)) \<and>
     (\<forall>k \<ge> length (sm_segs m). sm_files m k = ([], None)) \<and>
     (case sm_str_cache m of None \<Rightarrow> True | Some c \<Rightarrow> str_cache_repr m c)"

text \<open>The string of an item: it is in the segment of the item.\<close>

definition sm_has :: "nat \<Rightarrow> sm \<Rightarrow> nat \<Rightarrow> u32 \<Rightarrow> u16 \<Rightarrow> byte list \<Rightarrow> bool" where
  "sm_has S m i b ip v \<longleftrightarrow> i div S < length (sm_segs m) \<and> seg_has (sm_segs m ! (i div S)) b ip v"

text \<open>Room for a string in the last segment.\<close>

definition str_room :: "sm \<Rightarrow> nat \<Rightarrow> bool" where
  "str_room m n \<longleftrightarrow> n \<le> 65535 \<and> unat (sg_str_offset (last (sm_segs m))) + n < 4294967296 \<and>
     seg_blocks_len (last (sm_segs m)) + 2 \<le> unat (sm_capacity m) \<and> seg_blocks_len (last (sm_segs m)) + 2 < 4294967296"

abbreviation last_off :: "sm \<Rightarrow> nat" where
  "last_off m \<equiv> unat (sg_str_offset (last (sm_segs m)))"

text \<open>With the capacity of the tables, 4 GB of strings never fill the block numbers.\<close>

lemma str_room_bytes:
  assumes st: "sm_strings m" "sm_segs m \<noteq> []" and c: "262200 \<le> unat (sm_capacity m)" and n: "n \<le> 65535" "last_off m + n < 4294967296"
  shows "str_room m n"
proof -
  let ?s = "last (sm_segs m)"
  have "seg_strs m (length (sm_segs m) - 1) ?s" using st by (simp add: sm_strings_def last_conv_nth)
  then obtain sb where sb: "sg_sb ?s = Some sb" "sb_ok sb (last_off m)" "wide sb (last_off m)" "32768 < unat (sb_per_block sb)"
    by (auto simp: seg_strs_def strs_ok_def)
  have "last_off m div unat (sb_per_block sb) \<le> 4294967295 div 32769"
  proof -
    have "last_off m div unat (sb_per_block sb) \<le> last_off m div 32769" using sb(4) by (intro div_le_mono2) auto
    also have "\<dots> \<le> 4294967295 div 32769" using n(2) by (intro div_le_mono) auto
    finally show ?thesis .
  qed
  then have "length (sb_pos sb) \<le> 262138" using wide_blocks [OF sb(3) _ sb(2)] sb(4) by simp
  then show ?thesis using c n unat_u32_less [of "sm_capacity m"] by (simp add: str_room_def seg_blocks_len_def sb(1))
qed

lemma str_blocks_mono:
  assumes "sm_capacity m' = sm_capacity m" "length (sm_segs m) \<le> length (sm_segs m')"
    "\<And>k i. k < length (sm_segs m) \<Longrightarrow> seg_str_block (sm_segs m ! k) i \<noteq> None \<Longrightarrow>
       seg_str_block (sm_segs m' ! k) i = seg_str_block (sm_segs m ! k) i"
  shows "str_blocks m \<subseteq>\<^sub>m str_blocks m'"
  using assms unfolding map_le_def by (auto simp: str_blocks_def Let_def dom_def split: if_splits)

lemma str_cache_mono:
  "\<lbrakk>str_cache_repr m c; sm_capacity m' = sm_capacity m; str_blocks m \<subseteq>\<^sub>m str_blocks m'\<rbrakk> \<Longrightarrow> str_cache_repr m' c"
  using vc.coherent_mono [of "str_blocks m" c "str_blocks m'"] by (simp add: str_cache_repr_def few_segs_def)

text \<open>The part of a string block that its contents depend on: not the index file.\<close>

definition sb_core :: "strblk \<Rightarrow> strblk" where
  "sb_core sb = sb\<lparr>sb_idx := [], sb_open := False\<rparr>"

definition str_core :: "seg \<Rightarrow> strblk option \<times> u32 \<times> nat" where
  "str_core s = (map_option sb_core (sg_sb s), sg_str_offset s, sg_str_capacity s)"

lemma sb_core_simps [simp]:
  "sb_pos (sb_core sb) = sb_pos sb" "sb_file (sb_core sb) = sb_file sb" "sb_seg (sb_core sb) = sb_seg sb"
  "sb_capacity (sb_core sb) = sb_capacity sb" "sb_per_block (sb_core sb) = sb_per_block sb"
  by (simp_all add: sb_core_def)

lemma sb_core_contents [simp]:
  "sb_ok (sb_core sb) = sb_ok sb" "located (sb_core sb) = located sb" "sb_block (sb_core sb) = sb_block sb"
  "wide (sb_core sb) = wide sb"
  by (intro ext; simp add: wide_def sb_ok_def located_def block_end_def sb_block_def)+

lemma str_core_cong:
  assumes "str_core s' = str_core s"
  shows "seg_has s' = seg_has s" "strs_ok s' = strs_ok s" "seg_str_block s' = seg_str_block s"
    "sm_capacity m' = sm_capacity m \<Longrightarrow> seg_strs m' k s' = seg_strs m k s" "seg_blocks_len s' = seg_blocks_len s"
proof -
  have o: "sg_str_offset s' = sg_str_offset s" "sg_str_capacity s' = sg_str_capacity s" using assms by (simp_all add: str_core_def)
  have c: "map_option sb_core (sg_sb s') = map_option sb_core (sg_sb s)" using assms by (simp add: str_core_def)
  have "seg_has s' = seg_has s \<and> strs_ok s' = strs_ok s \<and> seg_str_block s' = seg_str_block s \<and>
    (sm_capacity m' = sm_capacity m \<longrightarrow> seg_strs m' k s' = seg_strs m k s) \<and> seg_blocks_len s' = seg_blocks_len s"
  proof (cases "sg_sb s")
    case None
    then have "sg_sb s' = None" using c by simp
    then show ?thesis using None by (simp add: seg_has_def strs_ok_def seg_str_block_def seg_strs_def seg_blocks_len_def fun_eq_iff)
  next
    case (Some sb)
    then obtain sb' where 2: "sg_sb s' = Some sb'" "sb_core sb' = sb_core sb" using c by auto
    from 2(2) have "sb_ok sb' = sb_ok sb" "located sb' = located sb" "sb_block sb' = sb_block sb" "sb_pos sb' = sb_pos sb"
      "sb_file sb' = sb_file sb" "sb_seg sb' = sb_seg sb" "sb_capacity sb' = sb_capacity sb" "wide sb' = wide sb"
      "sb_per_block sb' = sb_per_block sb"
      by (metis sb_core_simps sb_core_contents)+
    then show ?thesis using Some 2 o by (simp add: seg_has_def strs_ok_def seg_str_block_def seg_strs_def seg_blocks_len_def fun_eq_iff)
  qed
  then show "seg_has s' = seg_has s" "strs_ok s' = strs_ok s" "seg_str_block s' = seg_str_block s"
    "sm_capacity m' = sm_capacity m \<Longrightarrow> seg_strs m' k s' = seg_strs m k s" "seg_blocks_len s' = seg_blocks_len s" by auto
qed

text \<open>A change that leaves the strings alone.\<close>

lemma sm_strings_frame:
  assumes st: "sm_strings m" "sm_table m' = sm_table m" "sm_capacity m' = sm_capacity m" "sm_str_cache m' = sm_str_cache m"
    "sm_files m' = sm_files m" "length (sm_segs m') = length (sm_segs m)"
    and sg: "\<And>k. k < length (sm_segs m) \<Longrightarrow> str_core (sm_segs m' ! k) = str_core (sm_segs m ! k)"
  shows "sm_strings m'" "sm_has S m' = sm_has S m"
proof -
  have c: "seg_str_block (sm_segs m' ! k) = seg_str_block (sm_segs m ! k)" "seg_has (sm_segs m' ! k) = seg_has (sm_segs m ! k)"
    "seg_strs m' k (sm_segs m' ! k) = seg_strs m k (sm_segs m ! k)" if "k < length (sm_segs m)" for k
    using str_core_cong [OF sg [OF that]] st(3) by blast+
  have "str_blocks m \<subseteq>\<^sub>m str_blocks m'"
    by (rule str_blocks_mono) (simp_all add: st c)
  then have "case sm_str_cache m' of None \<Rightarrow> True | Some c \<Rightarrow> str_cache_repr m' c"
    using st str_cache_mono [OF _ st(3)] by (auto simp: sm_strings_def split: option.splits)
  then show "sm_strings m'"
    using st c unfolding sm_strings_def by simp
  show "sm_has S m' = sm_has S m"
    using st(6) c by (auto simp: fun_eq_iff sm_has_def)
qed

lemma str_disk:
  assumes cf: "sm_cfg S L m" and few: "few_segs (length (sm_segs m)) m" and k: "k < length (sm_segs m)"
    and s: "seg_strs m k (sm_segs m ! k)" "sg_sb (sm_segs m ! k) = Some sb"
  shows "sb_disk sb (str_blocks m)"
proof -
  have sb: "sb_seg sb = of_nat k" "sb_capacity sb = sm_capacity m" "length (sb_pos sb) \<le> unat (sm_capacity m)"
    using s by (auto simp: seg_strs_def)
  have key: "sb_key sb i = ib_key (ibk m L k) i" for i by (simp add: sb_key_def ib_key_def sb ibk_simps [OF cf])
  have "str_blocks m (sb_key sb i) = (if Suc i < length (sb_pos sb) then Some (sb_block sb i) else None)"
    if "i < unat (sm_capacity m)" for i
    using k s(2) by (simp add: str_blocks_def Let_def key key_div_mod [OF cf few k that] seg_str_block_def)
  then show ?thesis by (simp add: sb_disk_def sb)
qed

subsection \<open>Reading a string\<close>

lemma few_segs_le: "few_segs n m \<Longrightarrow> k \<le> n \<Longrightarrow> few_segs k m"
  unfolding few_segs_def by (meson le_less_trans le_trans mult_le_mono1)

lemma cache_fits_seg:
  assumes "sm_cfg S L m" "few_segs (length (sm_segs m)) m" "k < length (sm_segs m)" "str_cache_repr m c"
    "seg_strs m k (sm_segs m ! k)" "sg_sb (sm_segs m ! k) = Some sb"
  shows "cache_fits c sb"
proof -
  have "k < 400" "few_segs (k + 1) m" using assms(2,3) few_segs_le [OF assms(2), of "k + 1"] by (auto simp: few_segs_def)
  then show ?thesis using assms(4-6) by (auto simp: cache_fits_def str_cache_repr_def seg_strs_def sb_key_def)
qed

theorem SM_GetString_spec:
  assumes r: "sm_repr S L m items P" and st: "sm_strings m" and i: "i < length items" and h: "sm_has S m i b ip v"
  shows "\<exists>c'. SM_GetString g (int i) b ip (length v) m = Some (0, v, m\<lparr>sm_str_cache := c'\<rparr>) \<and>
    sm_repr S L (m\<lparr>sm_str_cache := c'\<rparr>) items P \<and> sm_strings (m\<lparr>sm_str_cache := c'\<rparr>) \<and>
    sm_has S (m\<lparr>sm_str_cache := c'\<rparr>) = sm_has S m"
proof -
  let ?k = "i div S" and ?s = "sm_segs m ! (i div S)"
  note ix = seg_index [OF r i]
  have cf: "sm_cfg S L m" and few: "few_segs (length (sm_segs m)) m" and sz: "sm_size m = length items"
    using r unfolding sm_repr_def by blast+
  have ss: "seg_strs m ?k ?s" using st ix(3) by (simp add: sm_strings_def)
  then obtain sb where sb: "sg_sb ?s = Some sb" and ok: "strs_ok ?s" by (auto simp: seg_strs_def)
  have hs: "seg_has ?s b ip v" using h by (simp add: sm_has_def)
  have has: "sm_has S (m\<lparr>sm_str_cache := c'\<rparr>) = sm_has S m" for c' by (simp add: sm_has_def fun_eq_iff)
  have rr: "sm_repr S L (m\<lparr>sm_str_cache := c'\<rparr>) items P" for c'
    by (rule sm_repr_frame [OF r]) simp_all
  obtain c' where c': "SG_GetString g b ip (length v) (sm_str_cache m) ?s = Some (v, c')"
    "case c' of None \<Rightarrow> True | Some c \<Rightarrow> str_cache_repr m c"
  proof (cases "sm_str_cache m")
    case None
    then show ?thesis using that SG_GetString_uncached [OF ok hs] by simp
  next
    case (Some c)
    then have c: "str_cache_repr m c" using st by (simp add: sm_strings_def)
    have f: "cache_fits c sb" by (rule cache_fits_seg [OF cf few ix(3) c ss sb])
    have co: "vc.coherent (str_blocks m) c" using c by (simp add: str_cache_repr_def)
    obtain c1 where c1: "SG_GetString g b ip (length v) (Some c) ?s = Some (v, Some c1)" "cache_fits c1 sb"
      "vc.coherent (str_blocks m) c1" "cache_valid c1 = cache_valid c"
      using SG_GetString_cached [OF ok hs sb f co str_disk [OF cf few ix(3) ss sb]] by blast
    then have "str_cache_repr m c1" using c by (simp add: str_cache_repr_def cache_fits_def)
    then show ?thesis using that [of "Some c1"] c1(1) Some by simp
  qed
  have "str_blocks (m\<lparr>sm_str_cache := c'\<rparr>) = str_blocks m" by (rule ext) (simp add: str_blocks_def Let_def)
  then have "str_cache_repr (m\<lparr>sm_str_cache := c'\<rparr>) c \<longleftrightarrow> str_cache_repr m c" for c
    by (simp add: str_cache_repr_def few_segs_def)
  moreover have "seg_strs (m\<lparr>sm_str_cache := c'\<rparr>) k s \<longleftrightarrow> seg_strs m k s" for k s by (simp add: seg_strs_def)
  ultimately have "sm_strings (m\<lparr>sm_str_cache := c'\<rparr>)" using st c'(2) by (simp add: sm_strings_def split: option.splits)
  moreover have "SM_GetString g (int i) b ip (length v) m = Some (0, v, m\<lparr>sm_str_cache := c'\<rparr>)"
    using c'(1) i by (simp add: SM_GetString_def sz ix)
  ultimately show ?thesis using rr has by blast
qed

subsection \<open>Adding a string\<close>

definition sb_grows :: "strblk \<Rightarrow> strblk \<Rightarrow> bool" where
  "sb_grows sb sb' \<longleftrightarrow> sb_seg sb' = sb_seg sb \<and> sb_capacity sb' = sb_capacity sb \<and> prefix (sb_pos sb) (sb_pos sb') \<and>
     sb_per_block sb' = sb_per_block sb \<and> (\<forall>i. Suc i < length (sb_pos sb) \<longrightarrow> sb_block sb' i = sb_block sb i)"

lemma SG_AddString_frame:
  assumes a: "SG_AddString v s sf = Some (e, b, ip, s', sf')" and ok: "strs_ok s"
    and v: "length v \<le> 65535" "unat (sg_str_offset s) + length v < 4294967296" "seg_blocks_len s + 2 < 4294967296"
  shows "sg_max s' = sg_max s" "sg_item s' = sg_item s" "sg_ib s' = sg_ib s" "sg_buffered s' = sg_buffered s"
    "header_size \<le> length (sf_base sf) \<Longrightarrow> same_items sf sf'"
    "\<exists>sb sb'. sg_sb s = Some sb \<and> sg_sb s' = Some sb' \<and> sb_grows sb sb' \<and>
      (wide sb (unat (sg_str_offset s)) \<longrightarrow> wide sb' (unat (sg_str_offset s')))"
proof -
  let ?off = "sg_str_offset s" and ?fin = "sg_str_offset s + of_nat (length v)" and ?cap = "sg_str_capacity s"
  obtain sb where sb: "sg_sb s = Some sb" "sb_ok sb (unat ?off)" "length (sb_file sb) = ?cap"
    using ok by (auto simp: strs_ok_def)
  let ?g = "if unat ?fin \<ge> ?cap
        then do { cap \<leftarrow> extend_capacity (unat ?fin) (13 * ?cap div 10);
          Some (cap, sb\<lparr>sb_file := ftruncate cap (sb_file sb)\<rparr>, SetStrCapacity cap sf) }
        else Some (?cap, sb, sf)"
  obtain x where x: "?g = Some x" "(case x of (cap, sb1, sf1) \<Rightarrow>
      let (block_id, in_block_pos, sb2) = SB_WriteString v ?off sb1
      in Some (?fin, block_id, in_block_pos, s\<lparr>sg_str_capacity := cap, sg_str_offset := ?fin, sg_sb := Some sb2\<rparr>,
           SetStrOffset ?fin sf1)) = Some (e, b, ip, s', sf')"
    using a by (auto simp: SG_AddString_def sb(1) Let_def bind_eq_Some_conv)
  obtain cap sb1 sf1 where xe: "x = (cap, sb1, sf1)" by (rule prod_cases3)
  obtain b2 ip2 sb2 where ws: "SB_WriteString v ?off sb1 = (b2, ip2, sb2)" by (rule prod_cases3)
  have g: "?g = Some (cap, sb1, sf1)" using x(1) xe by simp
  have s': "s' = s\<lparr>sg_str_capacity := cap, sg_str_offset := ?fin, sg_sb := Some sb2\<rparr>" "sf' = SetStrOffset ?fin sf1" "b2 = b" "ip2 = ip"
    using x(2) ws unfolding xe by auto
  then have w: "SB_WriteString v ?off sb1 = (b, ip, the (sg_sb s'))"
      "s' = s\<lparr>sg_str_capacity := cap, sg_str_offset := ?fin, sg_sb := sg_sb s'\<rparr>" "sf' = SetStrOffset ?fin sf1" "sg_sb s' \<noteq> None"
    using ws by simp_all
  have sf1: "sf1 = sf \<or> sf1 = SetStrCapacity cap sf" and sb1: "sb1 = sb\<lparr>sb_file := ftruncate cap (sb_file sb)\<rparr>" and le: "?cap \<le> cap"
  proof -
    have "?cap \<le> cap \<and> sb1 = sb\<lparr>sb_file := ftruncate cap (sb_file sb)\<rparr> \<and> (sf1 = sf \<or> sf1 = SetStrCapacity cap sf)"
    proof (cases "unat ?fin \<ge> ?cap")
      case True
      have c4: "4 \<le> ?cap" using ok sb(1) by (auto simp: strs_ok_def)
      have c13: "4 \<le> 13 * ?cap div 10" using c4 by linarith
      obtain c where "extend_capacity (unat ?fin) (13 * ?cap div 10) = Some c" "13 * ?cap div 10 \<le> c"
        using extend_capacity_returns [of "13 * ?cap div 10"] c4 c13 by blast
      then show ?thesis using g True c4 by auto
    next
      case False
      moreover have "ftruncate ?cap (sb_file sb) = sb_file sb" using sb(3) by (simp add: ftruncate_def)
      ultimately show ?thesis using g by auto
    qed
    then show "sf1 = sf \<or> sf1 = SetStrCapacity cap sf" "sb1 = sb\<lparr>sb_file := ftruncate cap (sb_file sb)\<rparr>" "?cap \<le> cap" by auto
  qed
  show "sg_max s' = sg_max s" "sg_item s' = sg_item s" "sg_ib s' = sg_ib s" "sg_buffered s' = sg_buffered s"
    by (subst w(2), simp)+
  show "same_items sf sf'" if h: "header_size \<le> length (sf_base sf)"
  proof -
    have "same_items sf sf1" using sf1 same_items_header(1) [OF h] by auto
    then show ?thesis unfolding w(3) using same_items_trans same_items_header(2) h by (metis same_items_def)
  qed
  have len: "length (sb_file sb) \<le> cap" using le sb(3) by simp
  have ok1: "sb_ok sb1 (unat ?off)" unfolding sb1 by (rule grown_file(1) [OF sb(2) len])
  have n1: "length (sb_pos sb1) + 2 < 4294967296" using v(3) sb(1) by (simp add: sb1 seg_blocks_len_def)
  have w': "SB_WriteString v (of_nat (unat ?off)) sb1 = (b, ip, the (sg_sb s'))" using w(1) by simp
  have f: "prefix (sb_pos sb1) (sb_pos (the (sg_sb s')))" "sb_seg (the (sg_sb s')) = sb_seg sb1" "sb_capacity (the (sg_sb s')) = sb_capacity sb1"
    "sb_per_block (the (sg_sb s')) = sb_per_block sb1" "sb_pos (the (sg_sb s')) = new_pos sb1 (unat ?off) (length v)"
    using WriteString_spec [OF ok1 v(1,2) n1] w' by auto
  have "sb_block (the (sg_sb s')) i = sb_block sb i" if i: "Suc i < length (sb_pos sb)" for i
  proof -
    have "sb_block (the (sg_sb s')) i = sb_block sb1 i"
      by (rule WriteString_blocks [OF ok1 w' v(1,2) n1]) (simp add: i sb1)
    moreover have "unat (sb_pos sb ! Suc i) \<le> length (sb_file sb)"
      using block_end_le [OF sb(2), of i] sb(2) i by (simp add: block_end_def sb_ok_def)
    then have "sb_block sb1 i = sb_block sb i" by (auto simp: sb_block_def sb1 pread_def ftruncate_def len)
    ultimately show ?thesis by simp
  qed
  then have gr: "sb_grows sb (the (sg_sb s'))" using f by (simp add: sb_grows_def sb1)
  have wd: "wide sb (unat ?off) \<longrightarrow> wide (the (sg_sb s')) (unat (sg_str_offset s'))"
  proof
    assume w0: "wide sb (unat ?off)"
    have "unat (sg_str_offset s') = unat ?off + length v" by (subst w(2)) (use v(2) in \<open>simp add: unat_word_ariths unat_of_nat32\<close>)
    moreover have "wide sb1 (unat ?off)" using w0 by (simp add: wide_def sb1)
    ultimately show "wide (the (sg_sb s')) (unat (sg_str_offset s'))" using wide_step [OF ok1 _ f(5,4)] by simp
  qed
  show "\<exists>sb sb'. sg_sb s = Some sb \<and> sg_sb s' = Some sb' \<and> sb_grows sb sb' \<and>
      (wide sb (unat (sg_str_offset s)) \<longrightarrow> wide sb' (unat (sg_str_offset s')))" using sb(1) w(4) wd gr
    by - (rule exI [of _ sb], rule exI [of _ "the (sg_sb s')"], auto)
qed

lemma last_seg:
  assumes "sm_repr S L m items P"
  shows "length (sm_segs m) - 1 = length items div S" "last (sm_segs m) = sm_segs m ! (length items div S)"
    "length items div S < length (sm_segs m)" "sm_segs m \<noteq> []"
proof -
  have n: "length (sm_segs m) = length items div S + 1" using assms by (simp add: sm_repr_def)
  then show "length (sm_segs m) - 1 = length items div S" "length items div S < length (sm_segs m)" "sm_segs m \<noteq> []" by auto
  then show "last (sm_segs m) = sm_segs m ! (length items div S)" by (simp add: last_conv_nth)
qed

theorem SM_AddString_spec:
  assumes r: "sm_repr S L m items P" and st: "sm_strings m" and room: "str_room m (length v)"
  shows "\<exists>e b ip m'. SM_AddString v m = Some (e, b, ip, m') \<and> sm_repr S L m' items P \<and> sm_strings m' \<and>
    sm_has S m' (length items) b ip v \<and> (\<forall>i b0 ip0 u. sm_has S m i b0 ip0 u \<longrightarrow> sm_has S m' i b0 ip0 u) \<and>
    sm_capacity m' = sm_capacity m \<and> last_off m' = last_off m + length v"
proof -
  let ?k = "length items div S"
  let ?s = "sm_segs m ! ?k"
  note ls = last_seg [OF r]
  have kl: "?k < length (sm_segs m)" by (rule ls(3))
  have h: "header_size \<le> length (sf_base (sm_disk m ?k))" using r kl unfolding sm_repr_def disk_repr_def by auto
  have ss: "seg_strs m ?k ?s" using st kl by (simp add: sm_strings_def)
  then have ok: "strs_ok ?s" by (simp add: seg_strs_def)
  have v: "length v \<le> 65535" "unat (sg_str_offset ?s) + length v < 4294967296" "seg_blocks_len ?s + 2 < 4294967296"
    and cap2: "seg_blocks_len ?s + 2 \<le> unat (sm_capacity m)"
    using room by (simp_all add: str_room_def ls(2))
  obtain e b ip s' sf' where a: "SG_AddString v ?s (sm_disk m ?k) = Some (e, b, ip, s', sf')" "strs_ok s'"
    "seg_has s' b ip v" "\<forall>b0 ip0 u. seg_has ?s b0 ip0 u \<longrightarrow> seg_has s' b0 ip0 u" "seg_blocks_len s' \<le> seg_blocks_len ?s + 2"
    "sg_str_offset s' = sg_str_offset ?s + of_nat (length v)"
    using SG_AddString_spec [OF ok v] by blast
  note fr = SG_AddString_frame [OF a(1) ok v]
  obtain sb sb' where g: "sg_sb ?s = Some sb" "sg_sb s' = Some sb'" "sb_grows sb sb'"
    and wd: "wide sb (unat (sg_str_offset ?s)) \<longrightarrow> wide sb' (unat (sg_str_offset s'))" using fr(6) by blast
  define m' where "m' = m\<lparr>sm_segs := butlast (sm_segs m) @ [s'], sm_disk := (sm_disk m)(?k := sf')\<rparr>"
  have e: "SM_AddString v m = Some (e, b, ip, m')" using a(1) by (simp add: SM_AddString_def Let_def ls(1,2)[unfolded One_nat_def] m'_def)
  have len: "length (sm_segs m') = length (sm_segs m)" using ls(4) by (simp add: m'_def)
  have nth: "sm_segs m' ! k = (if k = ?k then s' else sm_segs m ! k)" if "k < length (sm_segs m)" for k
    using that ls(1) by (simp add: m'_def nth_append nth_butlast)
  have rr: "sm_repr S L m' items P"
  proof (rule sm_repr_frame [OF r])
    show "same_items (sm_disk m k) (sm_disk m' k)" if "k < length (sm_segs m)" for k
      using fr(5) [OF h] by (simp add: m'_def)
    show "sm_disk m' k = sm_disk m k" if "length (sm_segs m) \<le> k" for k using that kl by (simp add: m'_def)
  qed (use fr(1-4) len nth in \<open>auto simp: m'_def\<close>)
  have len': "length (sb_pos sb') \<le> unat (sm_capacity m)" using a(5) cap2 g by (simp add: seg_blocks_len_def)
  have ss': "seg_strs m' ?k s'" using ss a(2) g wd len' by (simp add: seg_strs_def sb_grows_def m'_def)
  have "str_blocks m \<subseteq>\<^sub>m str_blocks m'"
  proof (rule str_blocks_mono)
    fix k i assume k: "k < length (sm_segs m)" and n: "seg_str_block (sm_segs m ! k) i \<noteq> None"
    obtain q where q: "sb_pos sb' = sb_pos sb @ q" using g(3) by (auto simp: sb_grows_def prefix_def)
    show "seg_str_block (sm_segs m' ! k) i = seg_str_block (sm_segs m ! k) i"
      using n g q by (auto simp: nth [OF k] seg_str_block_def sb_grows_def split: if_splits)
  qed (simp_all add: m'_def)
  then have ch: "case sm_str_cache m' of None \<Rightarrow> True | Some c \<Rightarrow> str_cache_repr m' c"
    using st str_cache_mono [of m _ m'] by (auto simp: sm_strings_def m'_def split: option.splits)
  have "seg_strs m' k (sm_segs m' ! k)" if "k < length (sm_segs m)" for k
    using ss' st that by (simp add: nth [OF that] sm_strings_def) (simp add: seg_strs_def m'_def)
  then have stm: "sm_strings m'" using st ch len by (simp add: sm_strings_def) (simp add: m'_def)
  have "sm_has S m' (length items) b ip v" using a(3) kl by (simp add: sm_has_def len nth)
  moreover have "sm_has S m' i b0 ip0 u" if "sm_has S m i b0 ip0 u" for i b0 ip0 u
    using that a(4) by (auto simp: sm_has_def len nth)
  moreover have "last_off m' = last_off m + length v"
    using a(6) v(2) by (simp add: m'_def ls(2) unat_word_ariths unat_of_nat32)
  moreover have "sm_capacity m' = sm_capacity m" by (simp add: m'_def)
  ultimately show ?thesis using e rr stm by auto
qed

subsection \<open>Adding an item\<close>

lemma close_core [simp]: "sb_core (snd (SB_CloseBlockPosFile sb)) = sb_core sb"
  by (simp add: SB_CloseBlockPosFile_def sb_core_def)

lemma full_core [simp]: "str_core (snd (SG_IsFull s)) = str_core s"
  by (cases "sg_sb s") (simp_all add: SG_IsFull_def str_core_def)

text \<open>A new segment over no files has an empty string block.\<close>

lemma new_seg_strs:
  assumes cf: "sm_cfg S L m" and st: "sm_strings m"
  shows "\<exists>s. sm_segs (SM_Extend m) = sm_segs m @ [s] \<and> seg_strs m (length (sm_segs m)) s \<and> seg_str_block s = (\<lambda>i. None) \<and>
    sg_str_offset s = 0 \<and> seg_blocks_len s = 0"
proof -
  define s where "s = fst (SG_Init (sm_can_open m) (seg_files m) (new_seg m) (sm_disk m (length (sm_segs m))))"
  let ?cap = "header_size + unat (sg_max (new_seg m) * 4)"
  have f: "seg_files m = Some ([], None)" using st by (simp add: seg_files_def sm_strings_def)
  have L: "0 < L" "L \<le> MAX_BLOCK_SIZE" "sm_fixed m = int L" using cf by (simp_all add: sm_cfg_def)
  obtain sb where sb: "sg_sb s = Some sb" "sb_pos sb = []" "sb_file sb = replicate ?cap 0" "sb_seg sb = of_nat (length (sm_segs m))"
    "sb_capacity sb = sm_capacity m" "unat (sb_per_block sb) = blk L" "sg_str_offset s = 0" "sg_str_capacity s = ?cap"
    by (auto simp: s_def SG_Init_def SG_InitBlock_def SB_LoadIndex_def SB_new_def SB_CloseBlockPosFile_def Let_def f new_seg_def
        Seg_new_def IB_new_def ftruncate_def unat_item_block_size [OF L(1,2)] L(3))
  have "strs_ok s" using sb blk_bounds [OF L(1,2)] L(1) by (simp add: strs_ok_def sb_ok_def)
  then have "seg_strs m (length (sm_segs m)) s" using sb blk_large [OF L(1,2)] by (simp add: seg_strs_def wide_def)
  moreover have "sm_segs (SM_Extend m) = sm_segs m @ [s]" by (simp add: SM_Extend_def Let_def s_def split: prod.splits)
  ultimately show ?thesis using sb by (auto simp: seg_str_block_def fun_eq_iff seg_blocks_len_def)
qed

lemma SM_Extend_strings:
  assumes cf: "sm_cfg S L m" and st: "sm_strings m"
  shows "sm_strings (SM_Extend m)" "sm_has S m i b ip v \<Longrightarrow> sm_has S (SM_Extend m) i b ip v"
proof -
  let ?m = "SM_Extend m"
  obtain s where s: "sm_segs ?m = sm_segs m @ [s]" "seg_strs m (length (sm_segs m)) s" "seg_str_block s = (\<lambda>i. None)"
    using new_seg_strs [OF cf st] by blast
  have f: "sm_table ?m = sm_table m" "sm_capacity ?m = sm_capacity m" "sm_str_cache ?m = sm_str_cache m" "sm_files ?m = sm_files m"
    by (simp_all add: SM_Extend_def Let_def split: prod.splits)
  have "str_blocks m \<subseteq>\<^sub>m str_blocks ?m" by (rule str_blocks_mono) (simp_all add: f s(1) nth_append)
  then have "case sm_str_cache ?m of None \<Rightarrow> True | Some c \<Rightarrow> str_cache_repr ?m c"
    using st str_cache_mono [OF _ f(2)] by (auto simp: sm_strings_def f split: option.splits)
  moreover have "seg_strs ?m k (sm_segs ?m ! k)" if "k < length (sm_segs ?m)" for k
  proof -
    have "seg_strs m k (sm_segs ?m ! k)" using that st s by (auto simp: nth_append sm_strings_def less_Suc_eq)
    then show ?thesis by (simp add: seg_strs_def f(2))
  qed
  ultimately show "sm_strings ?m" using st by (simp add: sm_strings_def f) (simp add: s(1))
  show "sm_has S m i b ip v \<Longrightarrow> sm_has S ?m i b ip v" by (simp add: sm_has_def s(1) nth_append)
qed

theorem SM_Add_strings:
  assumes r: "sm_repr S L m items P" and st: "sm_strings m" and v: "length v = L"
  shows "sm_strings (snd (SM_Add v m))" "sm_has S m i b ip u \<Longrightarrow> sm_has S (snd (SM_Add v m)) i b ip u"
    "last_off (snd (SM_Add v m)) = (if (length items + 1) mod S = 0 then 0 else last_off m)"
proof -
  let ?k = "length (sm_segs m) - 1"
  define s where "s = last (sm_segs m)"
  define q where "q = snd (SG_Add ?k v s (sm_queue m))"
  define s1 where "s1 = fst (SG_Add ?k v s (sm_queue m))"
  define m1 where "m1 = m\<lparr>sm_segs := butlast (sm_segs m) @ [snd (SG_IsFull s1)], sm_queue := q\<rparr>"
  have cf: "sm_cfg S L m" and fx: "sm_fixed m = int L" using r by (simp_all add: sm_repr_def sm_cfg_def)
  note ls = last_seg [OF r]
  have e: "snd (SM_Add v m) = (let m2 = (if fst (SG_IsFull s1) then SM_Extend m1 else m1) in m2\<lparr>sm_size := sm_size m2 + 1\<rparr>)"
    using v fx by (simp add: SM_Add_def Let_def m1_def s1_def q_def s_def split: prod.splits)
  have core: "str_core (sm_segs m1 ! k) = str_core (sm_segs m ! k)" if "k < length (sm_segs m)" for k
  proof (cases "k = ?k")
    case True
    have "str_core s1 = str_core s" by (simp add: s1_def SG_Add_def str_core_def)
    then show ?thesis using True ls(4) by (simp add: m1_def nth_append s_def last_conv_nth)
  next
    case False
    then have "k < length (sm_segs m) - 1" using that by linarith
    then show ?thesis by (simp add: m1_def nth_append nth_butlast)
  qed
  have "length (sm_segs m1) = length (sm_segs m)" using ls(4) by (simp add: m1_def)
  then have m1: "sm_strings m1" "sm_has S m1 = sm_has S m"
    using core by (auto intro!: sm_strings_frame [OF st] simp: m1_def)
  have cf1: "sm_cfg S L m1" using cf by (simp add: sm_cfg_def m1_def)
  define m2 where "m2 = (if fst (SG_IsFull s1) then SM_Extend m1 else m1)"
  have m2: "sm_strings m2" "sm_has S m i b ip u \<Longrightarrow> sm_has S m2 i b ip u"
    using SM_Extend_strings [OF cf1 m1(1)] m1 by (auto simp: m2_def)
  have "sm_strings (m2\<lparr>sm_size := n\<rparr>)" "sm_has S (m2\<lparr>sm_size := n\<rparr>) = sm_has S m2" for n
    by (rule sm_strings_frame [OF m2(1)]; simp)+
  then show "sm_strings (snd (SM_Add v m))" "sm_has S m i b ip u \<Longrightarrow> sm_has S (snd (SM_Add v m)) i b ip u"
    using m2(2) by (simp_all add: e Let_def flip: m2_def)
  have S: "0 < S" "S < 4294967296" using cf by (auto simp: sm_cfg_def intro: le_less_trans [of S "S * L"])
  have off: "sg_str_offset (snd (SG_IsFull s1)) = sg_str_offset s" by (simp add: s1_def SG_Add_def SG_IsFull_def)
  have "fst (SG_IsFull s1) \<longleftrightarrow> (length items + 1) mod S = 0"
  proof -
    have "seg_repr S L m items P (length items div S) s" using r ls by (simp add: s_def sm_repr_def)
    then have b: "unat (sg_buffered s) = length items mod S" "sg_max s = of_nat S"
      using S(1) by (auto simp: seg_repr_def min_def minus_div_mult_eq_mod dest: leD)
    have r: "length items mod S < S" using S(1) by simp
    then have "unat (sg_buffered s + 1) = length items mod S + 1" using b(1) S(2) by (simp add: unat_succ)
    then have "sg_buffered s + 1 = of_nat S \<longleftrightarrow> length items mod S + 1 = S"
      using S(2) by (simp add: word_unat_eq_iff unat_of_nat32)
    then show ?thesis using r by (auto simp: s1_def SG_Add_def SG_IsFull_def b(2) mod_Suc)
  qed
  moreover obtain s0 where "sm_segs (SM_Extend m1) = sm_segs m1 @ [s0]" "sg_str_offset s0 = 0"
    using new_seg_strs [OF cf1 m1(1)] by blast
  ultimately show "last_off (snd (SM_Add v m)) = (if (length items + 1) mod S = 0 then 0 else last_off m)"
    using off by (simp add: e Let_def s_def) (simp add: m1_def)
qed

subsection \<open>The writer, reading and the start\<close>

lemma SM_Writer_strings:
  assumes "sm_strings m" "SM_Writer n m = Some m'"
  shows "sm_strings m'" "sm_has S m' = sm_has S m"
proof -
  obtain d where d: "m' = m\<lparr>sm_disk := d, sm_queue := drop n (sm_queue m)\<rparr>"
    using assms(2) by (auto simp: SM_Writer_def bind_eq_Some_conv)
  show "sm_strings m'" "sm_has S m' = sm_has S m"
    by (rule sm_strings_frame [OF assms(1)]; simp add: d)+
qed

lemma SM_Get_strings:
  assumes "sm_strings m" "SM_Get g i m = Some (r, bs, m')"
  shows "sm_strings m'" "sm_has S m' = sm_has S m" "map sg_str_offset (sm_segs m') = map sg_str_offset (sm_segs m)"
proof -
  consider "m' = m" | k c s where "m' = m\<lparr>sm_cache := c, sm_segs := (sm_segs m)[k := s]\<rparr>" "str_core s = str_core (sm_segs m ! k)"
  proof (cases "i < 0 \<or> nat i \<ge> sm_size m \<or> fetch (sm_segs m) (seg_of m i) = None")
    case True
    then show ?thesis using that(1) assms(2) by (auto simp: SM_Get_def Let_def split: if_splits)
  next
    case False
    then obtain s where s: "fetch (sm_segs m) (seg_of m i) = Some s" by auto
    then obtain c s' where m': "SG_GetValues g (i mod sm_segment_size m) 1 (sm_cache m) (sm_disk m (nat (seg_of m i))) s = Some (bs, c, s')"
      "m' = m\<lparr>sm_cache := c, sm_segs := (sm_segs m)[nat (seg_of m i) := s']\<rparr>"
      using False assms(2) by (auto simp: SM_Get_def Let_def bind_eq_Some_conv)
    have "str_core s' = str_core s"
      using m'(1) by (auto simp: SG_GetValues_def bind_eq_Some_conv str_core_def split: if_splits)
    then show ?thesis using that(2) [OF m'(2)] s by (simp add: mem_simps)
  qed
  then have "sm_strings m' \<and> sm_has S m' = sm_has S m \<and> map sg_str_offset (sm_segs m') = map sg_str_offset (sm_segs m)"
  proof cases
    case (2 k c s)
    have "(map sg_str_offset (sm_segs m))[k := sg_str_offset s] = map sg_str_offset (sm_segs m)"
      using 2(2) by (cases "k < length (sm_segs m)") (simp_all add: str_core_def list_update_same_conv list_update_beyond)
    then have o: "map sg_str_offset (sm_segs m') = map sg_str_offset (sm_segs m)" by (simp add: 2(1) map_update)
    have c: "str_core (sm_segs m' ! j) = str_core (sm_segs m ! j)" if "j < length (sm_segs m)" for j
      using 2 that by (cases "j = k") simp_all
    show ?thesis using c o by (intro conjI sm_strings_frame [OF assms(1)]) (simp_all add: 2(1))
  qed (use assms(1) in simp)
  then show "sm_strings m'" "sm_has S m' = sm_has S m" "map sg_str_offset (sm_segs m') = map sg_str_offset (sm_segs m)" by simp_all
qed

lemma SM_Add_capacity: "sm_capacity (snd (SM_Add v m)) = sm_capacity m"
  by (simp add: SM_Add_def Let_def SM_Extend_def split: prod.splits)

lemma SM_Writer_capacity: "SM_Writer n m = Some m' \<Longrightarrow> sm_capacity m' = sm_capacity m"
  by (auto simp: SM_Writer_def bind_eq_Some_conv)

lemma SM_Get_capacity: "SM_Get g i m = Some (r, bs, m') \<Longrightarrow> sm_capacity m' = sm_capacity m"
  by (auto simp: SM_Get_def Let_def bind_eq_Some_conv split: option.splits if_splits)

lemma fresh_str_cache:
  assumes c: "0 < unat (sm_capacity m)" and f: "cache_sized cs MAX_BLOCK_SIZE" and e: "sm_segs m = []"
  shows "case fresh_cache cs MAX_BLOCK_SIZE (sm_capacity m) of None \<Rightarrow> True | Some c \<Rightarrow> str_cache_repr m c"
proof -
  consider "cs > 0" | "cs < 0" | "cs = 0" by linarith
  then show ?thesis
  proof cases
    case 1
    have "1 \<le> nat cs" "nat cs < 2 ^ 31" using 1 f by (simp_all add: cache_sized_def nat_less_iff)
    then have b: "(65536 :: nat) \<le> nat cs * 1024 * 1024" "nat cs * 1024 * 1024 < 2 ^ 64" by simp_all
    have "nat cs * 1024 * 1024 div 65536 + 500 < 2 ^ 32" using f by (simp add: cache_sized_def)
    note ok = LC_new_ok [OF _ b this]
    have "vc.coherent (str_blocks m) (CLru (LC_new (nat cs) MAX_BLOCK_SIZE))" by (simp add: vc.coherent_def ok)
    then show ?thesis using 1 ok by (simp add: fresh_cache_def str_cache_repr_def)
  next
    case 2
    note ok = SC_new_ok [OF c, of 0 MAX_BLOCK_SIZE, simplified]
    have "vc.coherent (str_blocks m) (CSimple (SC_new MAX_BLOCK_SIZE (unat (sm_capacity m)) 0))" by (simp add: vc.coherent_def ok)
    moreover have "cache_valid (CSimple (SC_new MAX_BLOCK_SIZE (unat (sm_capacity m)) 0)) (GetCacheBlockId (of_nat k) (sm_capacity m) (of_nat i))"
      if k: "k < 400" "i < unat (sm_capacity m)" "few_segs (k + 1) m" for k i
    proof -
      have b: "k * unat (sm_capacity m) + i < 4294967296" using k by (simp add: few_segs_def)
      have "unat (of_nat k :: u32) = k" "unat (of_nat i :: u32) = i" using k(1) b by (simp_all add: unat_of_nat32)
      then have "unat (GetCacheBlockId (of_nat k) (sm_capacity m) (of_nat i)) = k * unat (sm_capacity m) + i"
        using unat_mult32 [of "of_nat k" "sm_capacity m"] unat_add32 [of "of_nat k * sm_capacity m" "of_nat i"] b
        by (simp add: GetCacheBlockId_def)
      then show ?thesis using k by (simp add: sc_valid_def ok)
    qed
    ultimately show ?thesis using 2 ok by (simp add: fresh_cache_def str_cache_repr_def)
  qed (simp add: fresh_cache_def)
qed

theorem SM_Init_strings:
  assumes c: "sm_cfg S L m" and z: "sm_segs m = []" "sm_queue m = []" "sm_size m = 0" "sm_nfiles m = 0" "\<forall>k. sf_base (sm_disk m k) = []"
    and f: "cache_sized cs (blk L)" "cache_sized ss MAX_BLOCK_SIZE" and few: "few_segs 1 m"
    and t: "sm_table m" "\<forall>k. sm_files m k = ([], None)"
  shows "\<exists>m'. SM_Init cs ss m = (0, m') \<and> sm_repr S L m' [] 0 \<and> sm_strings m' \<and> sm_capacity m' = sm_capacity m \<and>
    sg_str_offset (last (sm_segs m')) = 0 \<and> seg_blocks_len (last (sm_segs m')) = 0"
proof -
  obtain m' where m': "SM_Init cs ss m = (0, m')" "sm_repr S L m' [] 0" using SM_Init_empty [OF c z f(1) few] by blast
  define m1 where "m1 = m\<lparr>sm_cache := fresh_cache cs (unat (item_block_size (word_of_int (sm_fixed m)))) (sm_capacity m),
    sm_str_cache := fresh_cache ss MAX_BLOCK_SIZE (sm_capacity m)\<rparr>"
  have e: "m' = SM_Extend m1"
    using c m'(1) z by (simp add: SM_Init_def Let_def sm_cfg_def SM_Load_def unat_gt_0 flip: m1_def) (simp add: m1_def z)
  have c1: "sm_cfg S L m1" "0 < unat (sm_capacity m1)" using c by (simp_all add: sm_cfg_def m1_def)
  have "sm_segs m1 = []" using z by (simp add: m1_def)
  from fresh_str_cache [OF c1(2) f(2) this]
  have "case sm_str_cache m1 of None \<Rightarrow> True | Some c \<Rightarrow> str_cache_repr m1 c" by (simp add: m1_def)
  moreover have "sm_segs m1 = []" "sm_table m1" "sm_files m1 = sm_files m" using z t by (simp_all add: m1_def)
  ultimately have s1: "sm_strings m1" using t by (simp add: sm_strings_def)
  obtain s where s: "sm_segs (SM_Extend m1) = sm_segs m1 @ [s]" "sg_str_offset s = 0" "seg_blocks_len s = 0"
    using new_seg_strs [OF c1(1) s1] by blast
  have "sm_capacity m' = sm_capacity m" unfolding e by (simp add: SM_Extend_def Let_def m1_def split: prod.splits)
  then show ?thesis using m' SM_Extend_strings(1) [OF c1(1) s1] s by (auto simp: e)
qed

end
