(* ===== verification/FieldColumn.thy ===== *)
theory FieldColumn
  imports MgrStrings IndexQueue
begin

text \<open>
  \<open>table/field_column_data.cc\<close>: the columns for fields that are added to a table later. A column keeps
  its values in a storage manager of its own: fixed-length values as items, strings as items of 8
  bytes that name their place among the strings, and several strings of a document packed into one
  string. A read through a null pointer and a copy beyond a buffer are \<open>None\<close>; \<open>c_str()\<close> ends in a
  NUL byte that may be copied too. The memory of \<open>Get\<close>, which is never freed, is not modelled.
\<close>

text \<open>\<open>struct Field\<close>.\<close>

record doc_field =
  fd_name :: "byte list"
  fd_value :: "byte list"
  fd_source :: "byte list"
  fd_type :: data_type
  fd_mul :: "byte list list"

record column =
  col_elem :: nat
  col_max :: u32
  col_sm :: "sm option"

definition new_column :: column where
  "new_column = \<lparr>col_elem = 0, col_max = 0, col_sm = None\<rparr>"

text \<open>The files of a folder as a storage manager finds them.\<close>

record folder =
  fo_disk :: disk
  fo_files :: "nat \<Rightarrow> byte list \<times> byte list option"
  fo_nfiles :: nat
  fo_can_open :: bool

definition empty_folder :: folder where
  "empty_folder = \<lparr>fo_disk = (\<lambda>k. \<lparr>sf_base = [], sf_cur = 0\<rparr>), fo_files = (\<lambda>k. ([], None)), fo_nfiles = 0, fo_can_open = True\<rparr>"

definition open_mgr :: "nat \<Rightarrow> folder \<Rightarrow> sm" where
  "open_mgr fixed_value_bytes fo =
     \<lparr>sm_fixed = int fixed_value_bytes, sm_segment_size = 500000, sm_capacity = 400000, sm_table = True,
      sm_can_open = fo_can_open fo, sm_segs = [], sm_disk = fo_disk fo, sm_files = fo_files fo, sm_nfiles = fo_nfiles fo,
      sm_queue = [], sm_size = 0, sm_cache = None, sm_str_cache = None\<rparr>"

subsection \<open>Opening\<close>

fun element_size :: "data_type \<Rightarrow> nat" where
  "element_size data_type.INT = 4"
| "element_size data_type.LONG = 8"
| "element_size data_type.FLOAT = 4"
| "element_size data_type.DOUBLE = 8"
| "element_size _ = 65535"

definition col_open :: "folder \<Rightarrow> column \<Rightarrow> bool \<times> column" where
  "col_open fo c = (case SM_Init 512 512 (open_mgr (col_elem c) fo) of
     (ret, m) \<Rightarrow> if ret \<noteq> 0 then (False, c\<lparr>col_sm := Some m\<rparr>)
                 else (True, c\<lparr>col_sm := Some m, col_max := of_nat (sm_size m)\<rparr>))"

definition Fixed_Init :: "folder \<Rightarrow> data_type \<Rightarrow> column \<Rightarrow> bool \<times> column" where
  "Fixed_Init fo element_type c =
     (let c1 = c\<lparr>col_elem := element_size element_type\<rparr>
      in case col_sm c1 of Some m \<Rightarrow> (True, c1) | None \<Rightarrow> col_open fo c1)"

definition Str_Init :: "folder \<Rightarrow> column \<Rightarrow> bool \<times> column" where
  "Str_Init fo c = (case col_sm c of Some m \<Rightarrow> (True, c) | None \<Rightarrow> col_open fo (c\<lparr>col_elem := 4 + 2 + 2\<rparr>))"

definition MulStr_Init :: "folder \<Rightarrow> column \<Rightarrow> bool \<times> column" where
  "MulStr_Init fo c = (case col_sm c of Some m \<Rightarrow> (True, c) | None \<Rightarrow> col_open fo (c\<lparr>col_elem := 4 + 2 + 2\<rparr>))"

subsection \<open>Fixed-length values\<close>

definition c_str :: "byte list \<Rightarrow> byte list" where
  "c_str s = s @ [0]"

definition Fixed_Put :: "doc_field \<Rightarrow> column \<Rightarrow> (int \<times> column) option" where
  "Fixed_Put f c = do {
     m \<leftarrow> col_sm c;
     v \<leftarrow> mem_slice (c_str (fd_value f)) 0 (col_elem c);
     Some (0, c\<lparr>col_sm := Some (snd (SM_Add v m)), col_max := col_max c + 1\<rparr>) }"

definition Fixed_Get :: "(nat \<Rightarrow> byte) \<Rightarrow> u32 \<Rightarrow> doc_field \<Rightarrow> column \<Rightarrow> (int \<times> doc_field \<times> column) option" where
  "Fixed_Get g i f c = (case col_sm c of
     None \<Rightarrow> Some (-1, f, c)
   | Some m \<Rightarrow> do {
       (r, bs, m') \<leftarrow> SM_Get g (sint i) m;
       v \<leftarrow> (if r = 0 then mem_slice bs 0 (col_elem c) else None);
       Some (0, f\<lparr>fd_value := v\<rparr>, c\<lparr>col_sm := Some m'\<rparr>) })"

text \<open>The versions for several fields return the last failure.\<close>

fun put_each :: "(doc_field \<Rightarrow> column \<Rightarrow> (int \<times> column) option) \<Rightarrow> int \<Rightarrow> doc_field list \<Rightarrow> column \<Rightarrow> (int \<times> column) option" where
  "put_each put ret [] c = Some (ret, c)"
| "put_each put ret (f # fs) c = do { (r, c') \<leftarrow> put f c; put_each put (if r \<noteq> 0 then r else ret) fs c' }"

definition Fixed_Puts :: "doc_field list \<Rightarrow> column \<Rightarrow> (int \<times> column) option" where
  "Fixed_Puts = put_each Fixed_Put 0"

fun get_each :: "(u32 \<Rightarrow> doc_field \<Rightarrow> column \<Rightarrow> (int \<times> doc_field \<times> column) option) \<Rightarrow> int \<Rightarrow> u32 list \<Rightarrow> doc_field list \<Rightarrow> column \<Rightarrow>
    (int \<times> doc_field list \<times> column) option" where
  "get_each get ret [] fs c = Some (ret, fs, c)"
| "get_each get ret (i # is) [] c = None"
| "get_each get ret (i # is) (f # fs) c = do {
     (r, f', c1) \<leftarrow> get i f c;
     (ret', fs', c2) \<leftarrow> get_each get (if r \<noteq> 0 then r else ret) is fs c1;
     Some (ret', f' # fs', c2) }"

definition Fixed_Gets :: "(nat \<Rightarrow> byte) \<Rightarrow> u32 list \<Rightarrow> doc_field list \<Rightarrow> column \<Rightarrow> (int \<times> doc_field list \<times> column) option" where
  "Fixed_Gets g = get_each (Fixed_Get g) 0"

subsection \<open>Strings\<close>

definition le16 :: "u16 \<Rightarrow> byte list" where
  "le16 x = [ucast x, ucast (drop_bit 8 x)]"

fun of_le16 :: "byte list \<Rightarrow> u16" where
  "of_le16 [a, b] = ucast a OR push_bit 8 (ucast b)"
| "of_le16 _ = 0"

definition pos_bytes :: "u32 \<Rightarrow> u16 \<Rightarrow> u16 \<Rightarrow> byte list" where
  "pos_bytes block_id in_block_pos len = le32 block_id @ le16 in_block_pos @ le16 len"

definition read_pos :: "byte list \<Rightarrow> nat \<Rightarrow> (u32 \<times> u16 \<times> u16) option" where
  "read_pos bs off = do {
     b \<leftarrow> mem_slice bs off 4;
     p \<leftarrow> mem_slice bs (off + 4) 2;
     n \<leftarrow> mem_slice bs (off + 6) 2;
     Some (of_le32 b, of_le16 p, of_le16 n) }"

definition put_string :: "byte list \<Rightarrow> u16 \<Rightarrow> column \<Rightarrow> (int \<times> column) option" where
  "put_string str len c = do {
     m \<leftarrow> col_sm c;
     v \<leftarrow> mem_slice str 0 (unat len);
     (e, block_id, in_block_pos, m1) \<leftarrow> SM_AddString v m;
     Some (0, c\<lparr>col_sm := Some (snd (SM_Add (pos_bytes block_id in_block_pos len) m1)), col_max := col_max c + 1\<rparr>) }"

definition Str_Put :: "doc_field \<Rightarrow> column \<Rightarrow> (int \<times> column) option" where
  "Str_Put f c = put_string (c_str (fd_value f)) (of_nat (length (fd_value f))) c"

definition Str_Puts :: "doc_field list \<Rightarrow> column \<Rightarrow> (int \<times> column) option" where
  "Str_Puts = put_each Str_Put 0"

text \<open>What both string columns read: the place of the string, then the string. When \<open>GetString\<close> fails
  the target keeps its contents.\<close>

definition get_string :: "(nat \<Rightarrow> byte) \<Rightarrow> u32 \<Rightarrow> byte list \<Rightarrow> sm \<Rightarrow> (byte list option \<times> sm) option" where
  "get_string g i str m = do {
     (r, bs, m1) \<leftarrow> SM_Get g (sint i) m;
     (if r \<noteq> 0 then Some (None, m1)
      else do {
        (block_id, p, len) \<leftarrow> read_pos bs 0;
        (r2, s, m2) \<leftarrow> SM_GetString g (sint i) block_id p (unat len) m1;
        Some (Some (if r2 = 0 then s else str), m2) }) }"

definition Str_Get :: "(nat \<Rightarrow> byte) \<Rightarrow> u32 \<Rightarrow> doc_field \<Rightarrow> column \<Rightarrow> (int \<times> doc_field \<times> column) option" where
  "Str_Get g i f c = do {
     m \<leftarrow> col_sm c;
     (s, m') \<leftarrow> get_string g i (fd_value f) m;
     (case s of None \<Rightarrow> Some (-1, f, c\<lparr>col_sm := Some m'\<rparr>)
      | Some str \<Rightarrow> Some (0, f\<lparr>fd_value := str\<rparr>, c\<lparr>col_sm := Some m'\<rparr>)) }"

definition Str_Gets :: "(nat \<Rightarrow> byte) \<Rightarrow> u32 list \<Rightarrow> doc_field list \<Rightarrow> column \<Rightarrow> (int \<times> doc_field list \<times> column) option" where
  "Str_Gets g = get_each (Str_Get g) 0"

subsection \<open>Several strings\<close>

text \<open>The packed form: the number of strings, their lengths, their bytes.\<close>

definition pack_strs :: "byte list list \<Rightarrow> int + byte list" where
  "pack_strs strs =
     (if length strs > 255 then Inl (-1)
      else if \<exists>s \<in> set strs. length s > 255 then Inl (-2)
      else Inr (of_nat (length strs) # map (\<lambda>s. of_nat (length s)) strs @ concat strs))"

definition MulStr_Put :: "doc_field \<Rightarrow> column \<Rightarrow> (int \<times> column) option" where
  "MulStr_Put f c =
     (if fd_mul f = [] then Some (0, c)
      else case pack_strs (fd_mul f) of
             Inl e \<Rightarrow> Some (e, c)
           | Inr mul_buf \<Rightarrow> put_string mul_buf (of_nat (length mul_buf)) c)"

text \<open>The loop over the strings: \<open>n\<close> of them are left from number \<open>i\<close> on.\<close>

primrec unpack_loop :: "byte list \<Rightarrow> nat \<Rightarrow> nat \<Rightarrow> nat \<Rightarrow> nat \<Rightarrow> byte list list option" where
  "unpack_loop mul_strs strs_count 0 i acc_bytes = Some []"
| "unpack_loop mul_strs strs_count (Suc n) i acc_bytes = do {
     l \<leftarrow> mem_slice (c_str mul_strs) (1 + i) 1;
     s \<leftarrow> mem_slice (c_str mul_strs) (1 + strs_count + acc_bytes) (unat (hd l));
     ss \<leftarrow> unpack_loop mul_strs strs_count n (i + 1) (acc_bytes + unat (hd l));
     Some (s # ss) }"

definition unpack_strs :: "byte list \<Rightarrow> (int + byte list list) option" where
  "unpack_strs mul_strs =
     (if length mul_strs \<le> 2 then Some (Inl (-2))
      else let strs_count = unat (hd mul_strs)
           in if length mul_strs \<le> strs_count + 1 then Some (Inl (-3))
              else map_option Inr (unpack_loop mul_strs strs_count strs_count 0 0))"

definition MulStr_Get :: "(nat \<Rightarrow> byte) \<Rightarrow> u32 \<Rightarrow> doc_field \<Rightarrow> column \<Rightarrow> (int \<times> doc_field \<times> column) option" where
  "MulStr_Get g i f c = do {
     m \<leftarrow> col_sm c;
     (s, m') \<leftarrow> get_string g i [] m;
     (case s of
        None \<Rightarrow> Some (-1, f, c\<lparr>col_sm := Some m'\<rparr>)
      | Some mul_strs \<Rightarrow> do {
          r \<leftarrow> unpack_strs mul_strs;
          (case r of
             Inl e \<Rightarrow> Some (e, f, c\<lparr>col_sm := Some m'\<rparr>)
           | Inr ss \<Rightarrow> Some (0, f\<lparr>fd_mul := fd_mul f @ ss\<rparr>, c\<lparr>col_sm := Some m'\<rparr>)) }) }"

subsection \<open>What a column promises\<close>

text \<open>The writer thread of a column's storage manager.\<close>

definition col_write :: "nat \<Rightarrow> column \<Rightarrow> column option" where
  "col_write n c = do { m \<leftarrow> col_sm c; m' \<leftarrow> SM_Writer n m; Some (c\<lparr>col_sm := Some m'\<rparr>) }"

text \<open>A column is a list of values of which the first are on disk. \<open>put\<close> appends what it stores of a
  field; \<open>get\<close> gives a field that the stored value fills. The three kinds of columns keep this
  contract as long as the value fits.\<close>

locale column_store =
  fixes repr :: "'v list \<Rightarrow> nat \<Rightarrow> column \<Rightarrow> bool"
    and put :: "doc_field \<Rightarrow> column \<Rightarrow> (int \<times> column) option"
    and get :: "(nat \<Rightarrow> byte) \<Rightarrow> u32 \<Rightarrow> doc_field \<Rightarrow> column \<Rightarrow> (int \<times> doc_field \<times> column) option"
    and fits :: "'v list \<Rightarrow> doc_field \<Rightarrow> bool"
    and stored :: "doc_field \<Rightarrow> 'v"
    and fill :: "'v \<Rightarrow> doc_field \<Rightarrow> doc_field"
  assumes put_ok: "\<lbrakk>repr vs P c; fits vs f\<rbrakk> \<Longrightarrow> \<exists>c'. put f c = Some (0, c') \<and> repr (vs @ [stored f]) P c'"
    and get_ok: "\<lbrakk>repr vs P c; i < P\<rbrakk> \<Longrightarrow> \<exists>c'. get g (of_nat i) f c = Some (0, fill (vs ! i) f, c') \<and> repr vs P c'"
    and write_ok: "\<lbrakk>repr vs P c; P + n \<le> length vs\<rbrakk> \<Longrightarrow> \<exists>c'. col_write n c = Some c' \<and> repr vs (P + n) c'"
    and max_id: "repr vs P c \<Longrightarrow> col_max c = of_nat (length vs) \<and> P \<le> length vs"
begin

text \<open>The number that \<open>GetCurMaxId\<close> gave before a put finds the value after any later puts, reads and
  turns of the writer that reach it.\<close>

lemma put_then_get:
  assumes r: "repr vs P c" and f: "fits vs f"
  shows "\<exists>c1. put f c = Some (0, c1) \<and> repr (vs @ [stored f]) P c1 \<and>
    (\<forall>ws Q c2 h. repr (vs @ stored f # ws) Q c2 \<longrightarrow> length vs < Q \<longrightarrow>
       (\<exists>c3. get g (col_max c) h c2 = Some (0, fill (stored f) h, c3)))"
proof -
  obtain c1 where c1: "put f c = Some (0, c1)" "repr (vs @ [stored f]) P c1" using put_ok [OF r f] by blast
  have "\<exists>c3. get g (col_max c) h c2 = Some (0, fill (stored f) h, c3)"
    if "repr (vs @ stored f # ws) Q c2" "length vs < Q" for ws Q c2 h
    using get_ok [OF that, of g h] max_id [OF r] by auto
  then show ?thesis using c1 by blast
qed

fun fits_each :: "'v list \<Rightarrow> doc_field list \<Rightarrow> bool" where
  "fits_each vs [] = True"
| "fits_each vs (f # fs) = (fits vs f \<and> fits_each (vs @ [stored f]) fs)"

lemma put_each_ok:
  "\<lbrakk>repr vs P c; fits_each vs fs\<rbrakk> \<Longrightarrow> \<exists>c'. put_each put 0 fs c = Some (0, c') \<and> repr (vs @ map stored fs) P c'"
proof (induction fs arbitrary: vs c)
  case (Cons f fs)
  obtain c1 where c1: "put f c = Some (0, c1)" "repr (vs @ [stored f]) P c1" using put_ok Cons.prems by fastforce
  then show ?case using Cons.IH [OF c1(2)] Cons.prems(2) by simp
qed simp

lemma get_each_ok:
  "\<lbrakk>repr vs P c; \<forall>i \<in> set is. i < P; length hs = length is\<rbrakk> \<Longrightarrow>
    \<exists>c'. get_each (get g) 0 (map of_nat is) hs c = Some (0, map2 (\<lambda>i h. fill (vs ! i) h) is hs, c') \<and> repr vs P c'"
proof (induction "is" arbitrary: c hs)
  case (Cons i "is")
  obtain h hs' where hs: "hs = h # hs'" using Cons.prems(3) by (cases hs) auto
  obtain c1 where c1: "get g (of_nat i) h c = Some (0, fill (vs ! i) h, c1)" "repr vs P c1"
    using get_ok Cons.prems(1,2) by force
  have "\<forall>i \<in> set is. i < P" "length hs' = length is" using Cons.prems hs by simp_all
  from Cons.IH [OF c1(2) this] show ?case using c1(1) by (auto simp: hs)
qed simp

end

subsection \<open>Fixed-length columns\<close>

abbreviation seg_items :: nat where "seg_items \<equiv> 500000"

definition fixed_repr :: "nat \<Rightarrow> byte list list \<Rightarrow> nat \<Rightarrow> column \<Rightarrow> bool" where
  "fixed_repr L vs P c \<longleftrightarrow> col_elem c = L \<and> col_max c = of_nat (length vs) \<and> length vs < 199000000 \<and>
     (\<exists>m. col_sm c = Some m \<and> sm_capacity m = 400000 \<and> sm_repr seg_items L m vs P)"

definition fixed_fits :: "nat \<Rightarrow> byte list list \<Rightarrow> doc_field \<Rightarrow> bool" where
  "fixed_fits L vs f \<longleftrightarrow> L \<le> length (fd_value f) + 1 \<and> length vs + 1 < 199000000"

lemma segs_left:
  assumes "sm_repr seg_items L m items P" "sm_capacity m = 400000" "length items < 199000000"
  shows "few_segs (length (sm_segs m) + 1) m"
proof -
  have "length (sm_segs m) = length items div seg_items + 1" using assms(1) by (simp add: sm_repr_def)
  then have "length (sm_segs m) + 1 \<le> 400" using assms(3) by auto
  then show ?thesis using assms(2) by (simp add: few_segs_def)
qed

lemma sint_of_nat32:
  fixes i :: nat
  assumes "i < 2147483648"
  shows "sint (of_nat i :: u32) = int i"
  using assms by (simp add: signed_of_nat signed_take_bit_int_eq_self_iff)

lemma mem_slice_all [simp]: "length bs = n \<Longrightarrow> mem_slice bs 0 n = Some bs"
  by (simp add: mem_slice_def)

lemma col_write_sm:
  assumes "col_sm c = Some m" "sm_repr S L m vs P" "P + n \<le> length vs"
  shows "\<exists>m'. SM_Writer n m = Some m' \<and> col_write n c = Some (c\<lparr>col_sm := Some m'\<rparr>) \<and> sm_repr S L m' vs (P + n)"
proof -
  have "length (sm_queue m) = length vs - P" using assms(2) by (simp add: sm_repr_def)
  then have "n \<le> length (sm_queue m)" using assms(3) by simp
  from SM_Writer_spec [OF assms(2) this] show ?thesis using assms(1) by (auto simp: col_write_def)
qed

interpretation fixed: column_store "fixed_repr L" Fixed_Put Fixed_Get "fixed_fits L"
  "\<lambda>f. take L (c_str (fd_value f))" "\<lambda>v f. f\<lparr>fd_value := v\<rparr>" for L
proof
  fix vs P c f
  assume "fixed_repr L vs P c" and f: "fixed_fits L vs f"
  then obtain m where c: "col_elem c = L" "col_max c = of_nat (length vs)" "col_sm c = Some m" "sm_capacity m = 400000"
    "sm_repr seg_items L m vs P" "length vs < 199000000"
    by (auto simp: fixed_repr_def)
  have v: "mem_slice (c_str (fd_value f)) 0 L = Some (take L (c_str (fd_value f)))" "length (take L (c_str (fd_value f))) = L"
    using f by (auto simp: fixed_fits_def mem_slice_def c_str_def min_def)
  obtain m' where m': "SM_Add (take L (c_str (fd_value f))) m = (0, m')" "sm_repr seg_items L m' (vs @ [take L (c_str (fd_value f))]) P"
    using SM_Add_spec [OF c(5) v(2) segs_left [OF c(5,4,6)]] by blast
  then have "sm_capacity m' = 400000" using SM_Add_capacity [of "take L (c_str (fd_value f))" m] c(4) by simp
  then show "\<exists>c'. Fixed_Put f c = Some (0, c') \<and> fixed_repr L (vs @ [take L (c_str (fd_value f))]) P c'"
    using c v m' f by (simp add: Fixed_Put_def fixed_repr_def fixed_fits_def)
next
  fix vs P c i g f
  assume "fixed_repr L vs P c" and i: "i < P"
  then obtain m where c: "col_elem c = L" "col_max c = of_nat (length vs)" "col_sm c = Some m" "sm_capacity m = 400000"
    "sm_repr seg_items L m vs P" "length vs < 199000000"
    by (auto simp: fixed_repr_def)
  have le: "P \<le> length vs" "\<forall>v \<in> set vs. length v = L" using c(5) by (simp_all add: sm_repr_def)
  then have s: "sint (of_nat i :: u32) = int i" "length (vs ! i) = L" using i c(6) by (simp_all add: sint_of_nat32)
  obtain m' where "SM_Get g (int i) m = Some (0, vs ! i, m')" "sm_repr seg_items L m' vs P" using SM_Get_spec [OF c(5) i] by blast
  moreover have "sm_capacity m' = 400000" using SM_Get_capacity [OF calculation(1)] c(4) by simp
  ultimately show "\<exists>c'. Fixed_Get g (of_nat i) f c = Some (0, f\<lparr>fd_value := vs ! i\<rparr>, c') \<and> fixed_repr L vs P c'"
    using c s by (simp add: Fixed_Get_def fixed_repr_def)
next
  fix vs P c n
  assume "fixed_repr L vs P c" "P + n \<le> length vs"
  then obtain m where c: "col_elem c = L" "col_max c = of_nat (length vs)" "col_sm c = Some m" "sm_capacity m = 400000"
    "sm_repr seg_items L m vs P" "length vs < 199000000" and n: "P + n \<le> length vs"
    by (auto simp: fixed_repr_def)
  obtain m' where m': "SM_Writer n m = Some m'" "col_write n c = Some (c\<lparr>col_sm := Some m'\<rparr>)" "sm_repr seg_items L m' vs (P + n)"
    using col_write_sm [OF c(3,5) n] by blast
  have "sm_capacity m' = 400000" using SM_Writer_capacity [OF m'(1)] c(4) by simp
  then show "\<exists>c'. col_write n c = Some c' \<and> fixed_repr L vs (P + n) c'"
    using c m' by (simp add: fixed_repr_def)
qed (auto simp: fixed_repr_def sm_repr_def)

subsection \<open>String columns\<close>

lemma of_le16_le16 [simp]: "of_le16 (le16 x) = x"
proof (rule bit_word_eqI)
  fix n assume "n < LENGTH(16)"
  then have "n < 8 \<or> 8 \<le> n \<and> n < 16" by auto
  then show "bit (of_le16 (le16 x)) n = bit x n" by (auto simp: le16_def bit_simps)
qed

lemma length_le16 [simp]: "length (le16 x) = 2"
  by (simp add: le16_def)

lemma length_pos_bytes [simp]: "length (pos_bytes b p n) = 8"
  by (simp add: pos_bytes_def)

text \<open>The place of a string that was written into a row is read back.\<close>

lemma read_pos_bytes: "length xs = off \<Longrightarrow> read_pos (xs @ pos_bytes b p n @ ys) off = Some (b, p, n)"
proof -
  assume o: "length xs = off"
  have "of_le32 (take 4 (le32 b @ zs)) = b" "of_le16 (take 2 (le16 p @ zs)) = p" for zs p by simp_all
  then show ?thesis using o by (simp add: read_pos_def mem_slice_def pos_bytes_def)
qed

lemma read_pos_bytes_0 [simp]: "read_pos (pos_bytes b p n) 0 = Some (b, p, n)"
  using read_pos_bytes [of "[]" 0 b p n "[]"] by simp

definition str_at :: "sm \<Rightarrow> nat \<Rightarrow> byte list \<Rightarrow> byte list \<Rightarrow> bool" where
  "str_at m i item v \<longleftrightarrow> length v \<le> 65535 \<and> (\<exists>b ip. item = pos_bytes b ip (of_nat (length v)) \<and> sm_has seg_items m i b ip v)"

definition str_items :: "sm \<Rightarrow> byte list list \<Rightarrow> byte list list \<Rightarrow> bool" where
  "str_items m items vs \<longleftrightarrow> length items = length vs \<and> (\<forall>i < length vs. str_at m i (items ! i) (vs ! i))"

lemma str_at_mono:
  "\<lbrakk>str_at m i item v; \<And>b ip u. sm_has seg_items m i b ip u \<Longrightarrow> sm_has seg_items m' i b ip u\<rbrakk> \<Longrightarrow> str_at m' i item v"
  unfolding str_at_def by blast

text \<open>The bytes of the strings in the segment of the next item.\<close>

definition seg_bytes :: "byte list list \<Rightarrow> nat" where
  "seg_bytes vs = sum_list (map length (drop (length vs div seg_items * seg_items) vs))"

definition str_repr :: "byte list list \<Rightarrow> nat \<Rightarrow> column \<Rightarrow> bool" where
  "str_repr vs P c \<longleftrightarrow> col_elem c = 8 \<and> col_max c = of_nat (length vs) \<and> length vs < 199000000 \<and>
     (\<exists>m items. col_sm c = Some m \<and> sm_capacity m = 400000 \<and> sm_repr seg_items 8 m items P \<and> sm_strings m \<and>
        str_items m items vs \<and> last_off m = seg_bytes vs)"

definition str_fits :: "byte list list \<Rightarrow> byte list \<Rightarrow> bool" where
  "str_fits vs v \<longleftrightarrow> length v \<le> 65535 \<and> length vs + 1 < 199000000 \<and> seg_bytes vs + length v < 4294967296"

lemma seg_bytes_snoc:
  "seg_bytes (vs @ [v]) = (if (length vs + 1) mod seg_items = 0 then 0 else seg_bytes vs + length v)"
proof -
  have q: "(length vs + 1) div seg_items * seg_items =
      (if (length vs + 1) mod seg_items = 0 then length vs + 1 else length vs div seg_items * seg_items)"
  proof (cases "(length vs + 1) mod seg_items = 0")
    case True
    then have "(length vs + 1) div seg_items * seg_items = length vs + 1"
      using div_mult_mod_eq [of "length vs + 1" seg_items] by linarith
    then show ?thesis using True by (simp only: if_True refl)
  next
    case False
    then have "(length vs + 1) div seg_items = length vs div seg_items" by (simp add: div_Suc)
    then show ?thesis using False by (simp only: if_False)
  qed
  have "length vs div seg_items * seg_items \<le> length vs" by (rule div_times_less_eq_dividend)
  then show ?thesis unfolding seg_bytes_def by (simp add: q [simplified])
qed

lemma put_string_ok:
  assumes r: "str_repr vs P c" and f: "str_fits vs v" and v: "mem_slice str 0 (unat len) = Some v"
  shows "\<exists>c'. put_string str len c = Some (0, c') \<and> str_repr (vs @ [v]) P c'"
proof -
  obtain m items where c: "col_elem c = 8" "col_max c = of_nat (length vs)" "length vs < 199000000" "col_sm c = Some m"
    "sm_capacity m = 400000" "sm_repr seg_items 8 m items P" "sm_strings m" "str_items m items vs" "last_off m = seg_bytes vs"
    using r by (auto simp: str_repr_def)
  have n: "length items = length vs" using c(8) by (simp add: str_items_def)
  have lv: "unat len = length v" using v by (auto simp: mem_slice_def split: if_splits)
  then have len: "len = of_nat (length v)" by (metis of_nat_unat ucast_id)
  have "str_room m (length v)"
    using str_room_bytes [OF c(7) last_seg(4) [OF c(6)]] c(5,9) f by (simp add: str_fits_def)
  then obtain e b ip m1 where m1: "SM_AddString v m = Some (e, b, ip, m1)" "sm_repr seg_items 8 m1 items P" "sm_strings m1"
    "sm_has seg_items m1 (length items) b ip v" "\<forall>i b0 ip0 u. sm_has seg_items m i b0 ip0 u \<longrightarrow> sm_has seg_items m1 i b0 ip0 u"
    "sm_capacity m1 = sm_capacity m" "last_off m1 = last_off m + length v"
    using SM_AddString_spec [OF c(6,7)] by blast
  let ?w = "pos_bytes b ip len"
  have "few_segs (length (sm_segs m1) + 1) m1" using segs_left [OF m1(2)] m1(6) c(3,5) n by simp
  then obtain m2 where m2: "SM_Add ?w m1 = (0, m2)" "sm_repr seg_items 8 m2 (items @ [?w]) P"
    using SM_Add_spec [OF m1(2), of ?w] by auto
  note st = SM_Add_strings [OF m1(2,3), of ?w, simplified m2 snd_conv length_pos_bytes, OF refl]
  have "str_at m2 (length vs) ?w v"
    unfolding str_at_def len using st(2) [OF m1(4)] f n by (auto simp: str_fits_def)
  moreover have "str_at m2 i (items ! i) (vs ! i)" if "i < length vs" for i
    using c(8) that m1(5) st(2) by (auto simp: str_items_def intro: str_at_mono)
  ultimately have "str_items m2 (items @ [?w]) (vs @ [v])"
    using n unfolding str_items_def by (simp add: nth_append less_Suc_eq)
  moreover have "sm_capacity m2 = 400000" using SM_Add_capacity [of ?w m1] m2(1) m1(6) c(5) by simp
  moreover have "last_off m2 = seg_bytes (vs @ [v])" using st(3) m1(7) c(9) by (simp add: n seg_bytes_snoc)
  ultimately show ?thesis
    using m1(1) m2 st(1) c f v by (auto simp: put_string_def str_repr_def str_fits_def)
qed

lemma get_string_ok:
  assumes r: "str_repr vs P c" and i: "i < P" and m: "col_sm c = Some m"
  shows "\<exists>m'. get_string g (of_nat i) str m = Some (Some (vs ! i), m') \<and> str_repr vs P (c\<lparr>col_sm := Some m'\<rparr>)"
proof -
  obtain items where c: "col_elem c = 8" "col_max c = of_nat (length vs)" "length vs < 199000000"
    "sm_capacity m = 400000" "sm_repr seg_items 8 m items P" "sm_strings m" "str_items m items vs" "last_off m = seg_bytes vs"
    using r m by (auto simp: str_repr_def)
  have n: "length items = length vs" "P \<le> length items" using c(5,7) by (simp_all add: str_items_def sm_repr_def)
  then have il: "i < length vs" "i < length items" using i by simp_all
  obtain b ip where it: "items ! i = pos_bytes b ip (of_nat (length (vs ! i)))" "sm_has seg_items m i b ip (vs ! i)" "length (vs ! i) \<le> 65535"
    using c(7) il by (auto simp: str_items_def str_at_def)
  have s: "sint (of_nat i :: u32) = int i" using il c(3) by (simp add: sint_of_nat32)
  have len: "unat (of_nat (length (vs ! i)) :: u16) = length (vs ! i)" using it(3) by (simp add: unat_of_nat take_bit_nat_eq_self_iff)
  obtain m1 where m1: "SM_Get g (int i) m = Some (0, items ! i, m1)" "sm_repr seg_items 8 m1 items P"
    using SM_Get_spec [OF c(5) i] by blast
  note st = SM_Get_strings [OF c(6) m1(1)]
  have cap: "sm_capacity m1 = 400000" using SM_Get_capacity [OF m1(1)] c(4) by simp
  have off: "last_off m1 = last_off m"
    using st(3) last_seg(4) [OF c(5)] last_seg(4) [OF m1(2)] by (metis last_map)
  obtain c' where c': "SM_GetString g (int i) b ip (length (vs ! i)) m1 = Some (0, vs ! i, m1\<lparr>sm_str_cache := c'\<rparr>)"
    "sm_repr seg_items 8 (m1\<lparr>sm_str_cache := c'\<rparr>) items P" "sm_strings (m1\<lparr>sm_str_cache := c'\<rparr>)"
    "sm_has seg_items (m1\<lparr>sm_str_cache := c'\<rparr>) = sm_has seg_items m1"
    using SM_GetString_spec [OF m1(2) st(1) il(2)] it(2) st(2) by metis
  have "get_string g (of_nat i) str m = Some (Some (vs ! i), m1\<lparr>sm_str_cache := c'\<rparr>)"
    using m1(1) c'(1) by (simp add: get_string_def s it(1) len)
  moreover have "str_repr vs P (c\<lparr>col_sm := Some (m1\<lparr>sm_str_cache := c'\<rparr>)\<rparr>)"
    using c c'(2-4) st(2) cap off by (auto simp: str_repr_def str_items_def str_at_def)
  ultimately show ?thesis by blast
qed

interpretation strc: column_store str_repr Str_Put Str_Get "\<lambda>vs f. str_fits vs (fd_value f)"
  fd_value "\<lambda>v f. f\<lparr>fd_value := v\<rparr>"
proof
  fix vs P c and f :: doc_field
  assume r: "str_repr vs P c" and f: "str_fits vs (fd_value f)"
  then have "unat (of_nat (length (fd_value f)) :: u16) = length (fd_value f)"
    by (simp add: str_fits_def unat_of_nat take_bit_nat_eq_self_iff)
  then have "mem_slice (c_str (fd_value f)) 0 (unat (of_nat (length (fd_value f)) :: u16)) = Some (fd_value f)"
    by (simp add: mem_slice_def c_str_def)
  from put_string_ok [OF r f this] show "\<exists>c'. Str_Put f c = Some (0, c') \<and> str_repr (vs @ [fd_value f]) P c'"
    by (simp add: Str_Put_def)
next
  fix vs P c i g and f :: doc_field
  assume r: "str_repr vs P c" and i: "i < P"
  then obtain m where m: "col_sm c = Some m" by (auto simp: str_repr_def)
  from get_string_ok [OF r i m, of g "fd_value f"] show "\<exists>c'. Str_Get g (of_nat i) f c = Some (0, f\<lparr>fd_value := vs ! i\<rparr>, c') \<and> str_repr vs P c'"
    using m by (auto simp: Str_Get_def)
next
  fix vs P c n
  assume r: "str_repr vs P c" and n: "P + n \<le> length vs"
  then obtain m items where c: "col_elem c = 8" "col_max c = of_nat (length vs)" "length vs < 199000000" "col_sm c = Some m"
    "sm_capacity m = 400000" "sm_repr seg_items 8 m items P" "sm_strings m" "str_items m items vs" "last_off m = seg_bytes vs"
    by (auto simp: str_repr_def)
  have "P + n \<le> length items" using n c(8) by (simp add: str_items_def)
  then obtain m' where m': "SM_Writer n m = Some m'" "col_write n c = Some (c\<lparr>col_sm := Some m'\<rparr>)" "sm_repr seg_items 8 m' items (P + n)"
    using col_write_sm [OF c(4,6)] by blast
  note st = SM_Writer_strings [OF c(7) m'(1)]
  have "sm_segs m' = sm_segs m" using m'(1) by (auto simp: SM_Writer_def bind_eq_Some_conv)
  moreover have "sm_capacity m' = 400000" using SM_Writer_capacity [OF m'(1)] c(5) by simp
  ultimately show "\<exists>c'. col_write n c = Some c' \<and> str_repr vs (P + n) c'"
    using c m' st by (auto simp: str_repr_def str_items_def str_at_def)
next
  fix vs P c
  assume "str_repr vs P c"
  then show "col_max c = of_nat (length vs) \<and> P \<le> length vs" by (auto simp: str_repr_def sm_repr_def str_items_def)
qed

subsection \<open>Columns of several strings\<close>

definition packed :: "byte list list \<Rightarrow> byte list" where
  "packed ss = of_nat (length ss) # map (\<lambda>s. of_nat (length s)) ss @ concat ss"

definition packable :: "byte list list \<Rightarrow> bool" where
  "packable ss \<longleftrightarrow> length ss \<le> 255 \<and> (\<forall>s \<in> set ss. length s \<le> 255) \<and> (\<exists>s \<in> set ss. s \<noteq> [])"

lemma mem_slice_app: "length xs = off \<Longrightarrow> length s = n \<Longrightarrow> mem_slice (xs @ s @ ys) off n = Some s"
  by (simp add: mem_slice_def)

lemma unat_of_nat8: "n \<le> 255 \<Longrightarrow> unat (of_nat n :: byte) = n"
  by (simp add: unat_of_nat take_bit_nat_eq_self_iff)

lemma unpack_loop_packed:
  assumes "\<forall>s \<in> set (pre @ rest). length s \<le> 255"
  shows "unpack_loop (packed (pre @ rest)) (length (pre @ rest)) (length rest) (length pre) (length (concat pre)) = Some rest"
  using assms
proof (induction rest arbitrary: pre)
  case (Cons s rest)
  let ?n = "of_nat (length (pre @ s # rest)) :: byte" and ?l = "\<lambda>s. of_nat (length s) :: byte"
  let ?buf = "packed (pre @ s # rest)"
  have b1: "c_str ?buf = (?n # map ?l pre) @ [?l s] @ (map ?l rest @ concat (pre @ s # rest) @ [0])"
    and b2: "c_str ?buf = (?n # map ?l (pre @ s # rest) @ concat pre) @ s @ (concat rest @ [0])"
    by (simp_all add: packed_def c_str_def)
  have "mem_slice (c_str ?buf) (1 + length pre) 1 = Some [?l s]" unfolding b1 by (rule mem_slice_app) simp_all
  moreover have u: "unat (?l s) = length s" using Cons.prems by (simp add: unat_of_nat8)
  moreover have "mem_slice (c_str ?buf) (1 + length (pre @ s # rest) + length (concat pre)) (length s) = Some s"
    unfolding b2 by (rule mem_slice_app) simp_all
  moreover have "unpack_loop ?buf (length (pre @ s # rest)) (length rest) (length pre + 1) (length (concat pre) + length s) = Some rest"
    using Cons.IH [of "pre @ [s]"] Cons.prems by simp
  ultimately show ?case by simp
qed simp

text \<open>Unpacking returns what was packed, unless all strings are empty.\<close>

lemma length_packed: "length (packed ss) = 1 + length ss + length (concat ss)"
  by (simp add: packed_def)

lemma concat_le: "\<forall>s \<in> set ss. length s \<le> n \<Longrightarrow> length (concat ss) \<le> length ss * n"
  by (induction ss) auto

lemma packed_short: "packable ss \<Longrightarrow> length (packed ss) \<le> 65281"
proof -
  assume p: "packable ss"
  then have "length (concat ss) \<le> length ss * 255" by (intro concat_le) (simp add: packable_def)
  also have "\<dots> \<le> 255 * 255" using p by (intro mult_le_mono1) (simp add: packable_def)
  finally show ?thesis using p by (simp add: length_packed packable_def)
qed

lemma unpack_packed:
  assumes "packable ss"
  shows "unpack_strs (packed ss) = Some (Inr ss)"
proof -
  obtain s where s: "s \<in> set ss" "s \<noteq> []" using assms by (auto simp: packable_def)
  then have "concat ss \<noteq> []" by auto
  then have ne: "0 < length (concat ss)" "0 < length ss" using s(1) by (auto simp: length_greater_0_conv)
  have u: "unat (hd (packed ss)) = length ss" using assms by (simp add: packed_def packable_def unat_of_nat8)
  have "unpack_loop (packed ss) (length ss) (length ss) 0 0 = Some ss"
    using unpack_loop_packed [of "[]" ss] assms by (simp add: packable_def)
  moreover have "\<not> length (packed ss) \<le> 2" "\<not> length (packed ss) \<le> length ss + 1"
    using ne unfolding length_packed by linarith+
  ultimately show ?thesis by (simp only: unpack_strs_def u Let_def if_False option.map)
qed

lemma pack_packed: "packable ss \<Longrightarrow> pack_strs ss = Inr (packed ss)"
  by (auto simp: pack_strs_def packable_def packed_def dest: leD)

text \<open>Strings that are all empty are written, but not read back: -3, or -2 for a single one.\<close>

lemma unpack_empty:
  assumes "ss \<noteq> []" "length ss \<le> 255" "\<forall>s \<in> set ss. s = []"
  shows "unpack_strs (packed ss) = Some (Inl (if length ss = 1 then -2 else -3))"
proof -
  have "concat ss = []" using assms(3) by simp
  moreover have "unat (hd (packed ss)) = length ss" using assms(2) by (simp add: packed_def unat_of_nat8)
  moreover have "length ss \<noteq> 0" using assms(1) by simp
  moreover have "length (packed ss) = 1 + length ss" using calculation(1) length_packed [of ss] by simp
  moreover have "length ss = 1 \<or> 2 \<le> length ss" using calculation(3) by linarith
  ultimately show ?thesis by (auto simp: unpack_strs_def)
qed

definition mul_repr :: "byte list list list \<Rightarrow> nat \<Rightarrow> column \<Rightarrow> bool" where
  "mul_repr vss P c \<longleftrightarrow> str_repr (map packed vss) P c \<and> (\<forall>ss \<in> set vss. packable ss)"

definition mul_fits :: "byte list list list \<Rightarrow> doc_field \<Rightarrow> bool" where
  "mul_fits vss f \<longleftrightarrow> packable (fd_mul f) \<and> str_fits (map packed vss) (packed (fd_mul f))"

interpretation mulc: column_store mul_repr MulStr_Put MulStr_Get mul_fits fd_mul "\<lambda>ss f. f\<lparr>fd_mul := fd_mul f @ ss\<rparr>"
proof
  fix vss P c f
  assume r: "mul_repr vss P c" and f: "mul_fits vss f"
  let ?v = "packed (fd_mul f)"
  have p: "packable (fd_mul f)" using f by (simp add: mul_fits_def)
  then have ne: "fd_mul f \<noteq> []" by (auto simp: packable_def)
  have "unat (of_nat (length ?v) :: u16) = length ?v" using packed_short [OF p] by (simp add: unat_of_nat take_bit_nat_eq_self_iff)
  then have "mem_slice ?v 0 (unat (of_nat (length ?v) :: u16)) = Some ?v" by simp
  then show "\<exists>c'. MulStr_Put f c = Some (0, c') \<and> mul_repr (vss @ [fd_mul f]) P c'"
    using put_string_ok [of "map packed vss" P c ?v] r f ne p by (auto simp: MulStr_Put_def mul_repr_def mul_fits_def pack_packed)
next
  fix vss P c i g and f :: doc_field
  assume r: "mul_repr vss P c" and i: "i < P"
  then have sr: "str_repr (map packed vss) P c" and pk: "\<forall>ss \<in> set vss. packable ss" by (simp_all add: mul_repr_def)
  obtain m where m: "col_sm c = Some m" using sr by (auto simp: str_repr_def)
  have il: "i < length vss" using strc.max_id [OF sr] i by simp
  then have u: "unpack_strs (packed (vss ! i)) = Some (Inr (vss ! i))" using pk by (intro unpack_packed) simp
  from get_string_ok [OF sr i m, of g "[]"] obtain m' where "get_string g (of_nat i) [] m = Some (Some (packed (vss ! i)), m')"
    "str_repr (map packed vss) P (c\<lparr>col_sm := Some m'\<rparr>)"
    using il by auto
  then show "\<exists>c'. MulStr_Get g (of_nat i) f c = Some (0, f\<lparr>fd_mul := fd_mul f @ vss ! i\<rparr>, c') \<and> mul_repr vss P c'"
    using m u pk by (auto simp: MulStr_Get_def mul_repr_def)
next
  fix vss P c n
  assume "mul_repr vss P c" "P + n \<le> length vss"
  then show "\<exists>c'. col_write n c = Some c' \<and> mul_repr vss (P + n) c'"
    using strc.write_ok [of "map packed vss" P c n] by (auto simp: mul_repr_def)
next
  fix vss P c
  assume "mul_repr vss P c"
  then show "col_max c = of_nat (length vss) \<and> P \<le> length vss"
    using strc.max_id [of "map packed vss" P c] by (simp add: mul_repr_def)
qed

subsection \<open>A column over an empty folder\<close>

lemma open_empty:
  assumes L: "L = 4 \<or> L = 8" and c: "col_elem c = L" "col_sm c = None"
  shows "\<exists>m. col_open empty_folder c = (True, c\<lparr>col_sm := Some m, col_max := 0\<rparr>) \<and> sm_repr seg_items L m [] 0 \<and>
    sm_strings m \<and> sm_capacity m = 400000 \<and> last_off m = 0"
proof -
  let ?m = "open_mgr L empty_folder"
  have b: "blk L = 65536" using L by (auto simp: blk_def)
  have cf: "sm_cfg seg_items L ?m" using L b by (auto simp: sm_cfg_def open_mgr_def)
  have few: "few_segs 1 ?m" by (simp add: few_segs_def open_mgr_def)
  have cs: "cache_sized 512 (blk L)" "cache_sized 512 MAX_BLOCK_SIZE" by (simp_all add: cache_sized_def b)
  obtain m where m: "SM_Init 512 512 ?m = (0, m)" "sm_repr seg_items L m [] 0" "sm_strings m" "sm_capacity m = sm_capacity ?m"
    "sg_str_offset (last (sm_segs m)) = 0"
    using SM_Init_strings [OF cf _ _ _ _ _ cs few] by (auto simp: open_mgr_def empty_folder_def)
  have "sm_size m = 0" using m(2) by (simp add: sm_repr_def)
  then have "col_open empty_folder c = (True, c\<lparr>col_sm := Some m, col_max := 0\<rparr>)" using m(1) c by (simp add: col_open_def)
  moreover have "sm_capacity m = 400000" using m(4) by (simp add: open_mgr_def)
  ultimately show ?thesis using m by auto
qed

lemma Fixed_Init_empty:
  assumes "t = data_type.INT \<or> t = data_type.LONG \<or> t = data_type.FLOAT \<or> t = data_type.DOUBLE"
  shows "\<exists>c. Fixed_Init empty_folder t new_column = (True, c) \<and> fixed_repr (element_size t) [] 0 c"
proof -
  let ?c = "new_column\<lparr>col_elem := element_size t\<rparr>"
  have "element_size t = 4 \<or> element_size t = 8" using assms by auto
  from open_empty [OF this, of ?c] show ?thesis
    by (auto simp: Fixed_Init_def fixed_repr_def new_column_def)
qed

lemma Str_Init_empty: "\<exists>c. Str_Init empty_folder new_column = (True, c) \<and> str_repr [] 0 c"
  using open_empty [of 8 "new_column\<lparr>col_elem := 8\<rparr>"]
  by (auto simp: Str_Init_def str_repr_def new_column_def str_items_def seg_bytes_def)

lemma MulStr_Init_empty: "\<exists>c. MulStr_Init empty_folder new_column = (True, c) \<and> mul_repr [] 0 c"
  using Str_Init_empty by (simp add: MulStr_Init_def Str_Init_def mul_repr_def)

end
