(* ===== verification/OrdMap.thy ===== *)
theory OrdMap
  imports AwaPrelude "HOL-Library.List_Lexorder"
begin

text \<open>
  \<open>std::map\<close>: the entries in key order. Strings as keys are byte lists in lexicographic order, which is
  how \<open>std::string\<close> compares. Looking up is \<open>map_of\<close>, iterating is the list itself.
\<close>

fun om_put :: "'k :: linorder \<Rightarrow> 'v \<Rightarrow> ('k \<times> 'v) list \<Rightarrow> ('k \<times> 'v) list" where
  "om_put k v [] = [(k, v)]"
| "om_put k v ((k', v') # m) =
     (if k < k' then (k, v) # (k', v') # m else if k = k' then (k, v) # m else (k', v') # om_put k v m)"

text \<open>\<open>insert\<close> leaves the value of a key that is there.\<close>

definition om_insert :: "'k :: linorder \<Rightarrow> 'v \<Rightarrow> ('k \<times> 'v) list \<Rightarrow> ('k \<times> 'v) list" where
  "om_insert k v m = (if map_of m k = None then om_put k v m else m)"

abbreviation om_ok :: "('k :: linorder \<times> 'v) list \<Rightarrow> bool" where
  "om_ok m \<equiv> sorted_wrt (<) (map fst m)"

lemma map_of_put_same [simp]: "map_of (om_put k v m) k = Some v"
  by (induction k v m rule: om_put.induct) auto

lemma map_of_put_other [simp]: "j \<noteq> k \<Longrightarrow> map_of (om_put k v m) j = map_of m j"
  by (induction k v m rule: om_put.induct) auto

lemma set_om_put: "fst ` set (om_put k v m) = insert k (fst ` set m)"
  by (induction k v m rule: om_put.induct) auto

lemma om_put_ok: "om_ok m \<Longrightarrow> om_ok (om_put k v m)"
proof (induction k v m rule: om_put.induct)
  case (2 k v k' v' m)
  then show ?case using set_om_put [of k v m] by (auto simp flip: set_map)
qed simp

lemma map_of_put: "map_of (om_put k v m) = (map_of m)(k \<mapsto> v)"
  by (rule ext) auto

lemma map_of_insert: "map_of (om_insert k v m) = (if map_of m k = None then (map_of m)(k \<mapsto> v) else map_of m)"
  by (simp add: om_insert_def map_of_put)

lemma om_insert_ok: "om_ok m \<Longrightarrow> om_ok (om_insert k v m)"
  by (simp add: om_insert_def om_put_ok)

lemma length_om_put: "map_of m k = None \<Longrightarrow> length (om_put k v m) = length m + 1"
  by (induction k v m rule: om_put.induct) (auto split: if_splits)

lemma om_distinct: "om_ok m \<Longrightarrow> distinct (map fst m)"
  by (induction m) auto

lemma om_get: "om_ok m \<Longrightarrow> map_of m k = Some v \<longleftrightarrow> (k, v) \<in> set m"
  by (simp add: om_distinct)

text \<open>Entries that arrive in key order build the same list.\<close>

lemma om_put_last: "\<forall>x \<in> fst ` set m. x < k \<Longrightarrow> om_put k v m = m @ [(k, v)]"
  by (induction k v m rule: om_put.induct) auto

lemma om_build: "om_ok (m @ xs) \<Longrightarrow> foldl (\<lambda>m (k, v). om_put k v m) m xs = m @ xs"
proof (induction xs arbitrary: m)
  case (Cons x xs)
  obtain k v where x: "x = (k, v)" by (cases x)
  have "\<forall>y \<in> fst ` set m. y < k" using Cons.prems by (auto simp: x sorted_wrt_append)
  then have "om_put k v m = m @ [(k, v)]" by (rule om_put_last)
  then show ?case using Cons.IH [of "m @ [(k, v)]"] Cons.prems by (simp add: x)
qed simp

text \<open>A map in key order is determined by what it holds.\<close>

lemma om_eq:
  assumes "om_ok m1" "om_ok m2" "map_of m1 = map_of m2"
  shows "m1 = m2"
proof -
  have s: "set m1 = set m2" using om_get assms by (metis subset_antisym subrelI)
  have "inj_on fst (set m1 \<union> set m2)" using om_distinct [OF assms(1)] s by (simp add: distinct_map)
  then show ?thesis
    using assms(1,2) s by (intro map_sorted_distinct_set_unique [of fst]) (simp_all add: strict_sorted_iff)
qed

lemma fold_put_other: "n \<notin> f ` set xs \<Longrightarrow> map_of (foldl (\<lambda>m x. om_put (f x) (g x) m) m xs) n = map_of m n"
  by (induction xs arbitrary: m) auto

lemma fold_put_in:
  "\<lbrakk>distinct (map f xs); x \<in> set xs\<rbrakk> \<Longrightarrow> map_of (foldl (\<lambda>m x. om_put (f x) (g x) m) m xs) (f x) = Some (g x)"
proof (induction xs arbitrary: m)
  case (Cons y xs)
  then show ?case by (cases "x = y") (simp_all add: fold_put_other)
qed simp

lemma fold_put_ok: "om_ok m \<Longrightarrow> om_ok (foldl (\<lambda>m x. om_put (f x) (g x) m) m xs)"
  by (induction xs arbitrary: m) (simp_all add: om_put_ok)

end
