(* ===== verification/DocFields.thy ===== *)
theory DocFields
  imports FieldColumn OrdMap
begin

text \<open>
  \<open>table/docid_fields_mgr.cc\<close>: the fields that documents have beyond the columns of the table. Each
  document has a row of bytes: the number of its fields, their ids, and for each the number of its
  value in the column of the field. The rows and the schema are dumped to a file and loaded from
  it. The parameter \<open>folders\<close> gives the folders below \<open>root_path_\<close>, with the files of the columns.
  \<open>Get\<close> for several fields, which nothing calls and whose last loop never ends, is left out.
\<close>

record field_info =
  fi_name :: "byte list"
  fi_type :: data_type
  fi_index :: bool

record docfields =
  df_rows :: "byte list option list option"
  df_capacity :: u32
  df_size :: u32
  df_flushed :: u32
  df_nfields :: byte
  df_block_docs :: u32
  df_name2id :: "(byte list \<times> byte) list"
  df_id2name :: "(byte \<times> byte list) list"
  df_name2type :: "(byte list \<times> data_type) list"
  df_index :: "(byte list \<times> bool) list"
  df_fixed :: "(byte list \<times> column) list"
  df_str :: "(byte list \<times> column) list"
  df_mul :: "(byte list \<times> column) list"

definition DF_new :: docfields where
  "DF_new = \<lparr>df_rows = None, df_capacity = 0, df_size = 0, df_flushed = 0, df_nfields = 0, df_block_docs = 0,
     df_name2id = [], df_id2name = [], df_name2type = [], df_index = [], df_fixed = [], df_str = [], df_mul = []\<rparr>"

text \<open>The chain of comparisons that chooses the kind of column for a type.\<close>

datatype kind = KFixed | KStr | KMul | KNone

fun col_kind :: "data_type \<Rightarrow> kind" where
  "col_kind data_type.INT = KFixed"
| "col_kind data_type.LONG = KFixed"
| "col_kind data_type.FLOAT = KFixed"
| "col_kind data_type.DOUBLE = KFixed"
| "col_kind STRING = KStr"
| "col_kind MULTI_STRING = KMul"
| "col_kind VECTOR = KNone"

fun df_cols :: "kind \<Rightarrow> docfields \<Rightarrow> (byte list \<times> column) list" where
  "df_cols KFixed d = df_fixed d"
| "df_cols KStr d = df_str d"
| "df_cols KMul d = df_mul d"
| "df_cols KNone d = []"

fun set_col :: "kind \<Rightarrow> byte list \<Rightarrow> column \<Rightarrow> docfields \<Rightarrow> docfields" where
  "set_col KFixed name c d = d\<lparr>df_fixed := om_put name c (df_fixed d)\<rparr>"
| "set_col KStr name c d = d\<lparr>df_str := om_put name c (df_str d)\<rparr>"
| "set_col KMul name c d = d\<lparr>df_mul := om_put name c (df_mul d)\<rparr>"
| "set_col KNone name c d = d"

fun col_init :: "data_type \<Rightarrow> folder \<Rightarrow> column \<Rightarrow> bool \<times> column" where
  "col_init STRING fo c = Str_Init fo c"
| "col_init MULTI_STRING fo c = MulStr_Init fo c"
| "col_init t fo c = Fixed_Init fo t c"

fun col_put :: "kind \<Rightarrow> doc_field \<Rightarrow> column \<Rightarrow> (int \<times> column) option" where
  "col_put KFixed = Fixed_Put"
| "col_put KStr = Str_Put"
| "col_put KMul = MulStr_Put"
| "col_put KNone = (\<lambda>f c. None)"

fun col_get :: "kind \<Rightarrow> (nat \<Rightarrow> byte) \<Rightarrow> u32 \<Rightarrow> doc_field \<Rightarrow> column \<Rightarrow> (int \<times> doc_field \<times> column) option" where
  "col_get KFixed = Fixed_Get"
| "col_get KStr = Str_Get"
| "col_get KMul = MulStr_Get"
| "col_get KNone = (\<lambda>g i f c. None)"

subsection \<open>Fields\<close>

text \<open>The result of a failing \<open>Init\<close> by kind.\<close>

fun init_error :: "kind \<Rightarrow> int" where
  "init_error KFixed = -1"
| "init_error KStr = -2"
| "init_error KMul = -3"
| "init_error KNone = 0"

definition DF_AddField :: "(byte list \<Rightarrow> folder option) \<Rightarrow> field_info \<Rightarrow> byte \<Rightarrow> docfields \<Rightarrow> int \<times> docfields" where
  "DF_AddField folders field_info fid d =
     (let name = fi_name field_info; t = fi_type field_info; k = col_kind t in
      if map_of (df_name2id d) name = None
      then let d1 = d\<lparr>df_name2id := om_put name fid (df_name2id d), df_id2name := om_put fid name (df_id2name d),
                 df_name2type := om_put name t (df_name2type d), df_index := om_put name (fi_index field_info) (df_index d)\<rparr>
           in if k = KNone then (int (unat fid), d1\<lparr>df_nfields := df_nfields d1 + 1\<rparr>)
              else let fo = (case folders name of None \<Rightarrow> empty_folder | Some fo \<Rightarrow> fo)
                   in case col_init t fo new_column of
                        (ok, c) \<Rightarrow> if \<not> ok then (init_error k, d1)
                                   else (int (unat fid), (set_col k name c d1)\<lparr>df_nfields := df_nfields d1 + 1\<rparr>)
      else (int (unat fid), d))"

definition DF_ContainField :: "byte list \<Rightarrow> docfields \<Rightarrow> bool" where
  "DF_ContainField name d = (map_of (df_name2id d) name \<noteq> None)"

definition DF_GetFieldId :: "byte list \<Rightarrow> docfields \<Rightarrow> int" where
  "DF_GetFieldId name d = (case map_of (df_name2id d) name of None \<Rightarrow> -1 | Some fid \<Rightarrow> int (unat fid))"

definition DF_GetFieldName :: "byte \<Rightarrow> docfields \<Rightarrow> int \<times> byte list option" where
  "DF_GetFieldName fid d = (case map_of (df_id2name d) fid of None \<Rightarrow> (-1, None) | Some name \<Rightarrow> (0, Some name))"

text \<open>\<open>operator[]\<close> gives the first type for a name without an entry.\<close>

definition df_type :: "byte list \<Rightarrow> docfields \<Rightarrow> data_type" where
  "df_type name d = (case map_of (df_name2type d) name of None \<Rightarrow> data_type.INT | Some t \<Rightarrow> t)"

definition DF_GetFieldType :: "byte list \<Rightarrow> docfields \<Rightarrow> data_type option" where
  "DF_GetFieldType name d = (if DF_ContainField name d then Some (df_type name d) else None)"

definition DF_GetAllInfos :: "docfields \<Rightarrow> field_info list" where
  "DF_GetAllInfos d = map (\<lambda>(name, t). \<lparr>fi_name = name, fi_type = t,
     fi_index = (case map_of (df_index d) name of None \<Rightarrow> False | Some b \<Rightarrow> b)\<rparr>) (df_name2type d)"

subsection \<open>Writing a document\<close>

text \<open>One field: its number in the column. What the column's \<open>Put\<close> returns is ignored.\<close>

definition put_field :: "doc_field \<Rightarrow> docfields \<Rightarrow> (u32 \<times> docfields) option" where
  "put_field f d =
     (let k = col_kind (fd_type f) in
      if k = KNone then Some (0, d)
      else do {
        c \<leftarrow> map_of (df_cols k d) (fd_name f);
        (r, c') \<leftarrow> col_put k f c;
        Some (col_max c, set_col k (fd_name f) c' d) })"

fun put_fields :: "doc_field list \<Rightarrow> byte list \<Rightarrow> u32 list \<Rightarrow> docfields \<Rightarrow> (byte list \<times> u32 list \<times> docfields) option" where
  "put_fields [] ids poss d = Some (ids, poss, d)"
| "put_fields (f # fs) ids poss d =
     (case map_of (df_name2id d) (fd_name f) of
        None \<Rightarrow> put_fields fs ids poss d
      | Some fid \<Rightarrow> do { (p, d') \<leftarrow> put_field f d; put_fields fs (ids @ [fid]) (poss @ [p]) d' })"

text \<open>The table of rows doubles once when the document is beyond it, and keeps the first \<open>size_\<close> rows.\<close>

definition extend_rows :: "u32 \<Rightarrow> docfields \<Rightarrow> docfields option" where
  "extend_rows docid d =
     (if docid < df_capacity d then Some d
      else let cap = df_capacity d * 2 in do {
        rows \<leftarrow> (if df_size d = 0 then Some [] else df_rows d);
        (if min (unat (df_size d)) (unat cap) \<le> length rows
         then Some (d\<lparr>df_capacity := cap,
                df_rows := Some (map (\<lambda>i. if i < unat (df_size d) then rows ! i else None) [0..<unat cap])\<rparr>)
         else None) })"

definition row_bytes :: "byte list \<Rightarrow> u32 list \<Rightarrow> byte list" where
  "row_bytes ids poss =
     (let n = of_nat (length ids) :: byte in n # take (unat n) ids @ concat (map le32 (take (unat n) poss)))"

definition DF_PutRow :: "u32 \<Rightarrow> byte list \<Rightarrow> u32 list \<Rightarrow> docfields \<Rightarrow> (int \<times> docfields) option" where
  "DF_PutRow docid ids poss d =
     (if length ids \<noteq> length poss then Some (-1, d)
      else do {
        d1 \<leftarrow> extend_rows docid d;
        rows \<leftarrow> df_rows d1;
        rows' \<leftarrow> store rows (uint docid) (Some (row_bytes ids poss));
        Some (0, d1\<lparr>df_rows := Some rows', df_size := df_size d1 + 1\<rparr>) })"

definition DF_Put :: "u32 \<Rightarrow> doc_field list \<Rightarrow> docfields \<Rightarrow> (int \<times> docfields) option" where
  "DF_Put docid fs d = do { (ids, poss, d') \<leftarrow> put_fields fs [] [] d; DF_PutRow docid ids poss d' }"

subsection \<open>Reading a document\<close>

text \<open>The search in the ids of a row: both ends, then the middle. When \<open>mid\<close> is 0 its value is that of
  \<open>start\<close>, which is less than \<open>fid\<close>, so \<open>mid - 1\<close> never wraps.\<close>

function find_loop :: "byte \<Rightarrow> byte list \<Rightarrow> nat \<Rightarrow> nat \<Rightarrow> int option" where
  "find_loop fid vals start end' = do {
     start_value \<leftarrow> fetch vals (int start);
     (if start_value = fid then Some (int start)
      else if start_value > fid then Some (-2)
      else do {
        end_value \<leftarrow> fetch vals (int end');
        (if end_value = fid then Some (int end')
         else if fid > end_value then Some (-3)
         else let mid = (start + end') div 2 in do {
           mid_value \<leftarrow> fetch vals (int mid);
           (if fid = mid_value then Some (int mid)
            else if fid > mid_value
            then (if mid + 1 < end' then find_loop fid vals (mid + 1) end' else Some (-4))
            else (if start < mid - 1 then find_loop fid vals start (mid - 1) else Some (-4))) }) }) }"
  by pat_completeness auto
termination by (relation "measure (\<lambda>(fid, vals, s, e). e - s)") auto

declare find_loop.simps [simp del]

definition DF_Find :: "byte \<Rightarrow> byte list \<Rightarrow> nat \<Rightarrow> int option" where
  "DF_Find fid vals fids_size = (if fids_size = 0 then Some (-1) else find_loop fid vals 0 (fids_size - 1))"

definition DF_Get :: "(nat \<Rightarrow> byte) \<Rightarrow> u32 \<Rightarrow> doc_field \<Rightarrow> docfields \<Rightarrow> (int \<times> doc_field \<times> docfields) option" where
  "DF_Get g docid f d =
     (if docid \<ge> df_size d then Some (-1, f, d)
      else case df_rows d of None \<Rightarrow> Some (-2, f, d)
      | Some rows \<Rightarrow> do {
          row \<leftarrow> fetch rows (uint docid);
          (case row of None \<Rightarrow> Some (-2, f, d)
           | Some bs \<Rightarrow> do {
               fields_num \<leftarrow> fetch bs 0;
               (case map_of (df_name2id d) (fd_name f) of None \<Rightarrow> Some (-3, f, d)
                | Some fid \<Rightarrow> do {
                    let f1 = f\<lparr>fd_type := df_type (fd_name f) d\<rparr>;
                    id_pos \<leftarrow> DF_Find fid (drop 1 bs) (unat fields_num);
                    (if id_pos < 0 then Some (-4, f1, d)
                     else do {
                       p \<leftarrow> mem_slice bs (1 + unat fields_num + 4 * nat id_pos) 4;
                       let k = col_kind (fd_type f1);
                       (if k = KNone then Some (0, f1, d)
                        else do {
                          c \<leftarrow> map_of (df_cols k d) (fd_name f);
                          (r, f2, c') \<leftarrow> col_get k g (of_le32 p) f1 c;
                          Some (0, f2, set_col k (fd_name f) c' d) }) }) }) }) })"

text \<open>All fields of a document, in the order of their names.\<close>

fun get_fields :: "(nat \<Rightarrow> byte) \<Rightarrow> u32 \<Rightarrow> byte list list \<Rightarrow> docfields \<Rightarrow> (doc_field list \<times> docfields) option" where
  "get_fields g docid [] d = Some ([], d)"
| "get_fields g docid (name # names) d = do {
     (r, f, d1) \<leftarrow> DF_Get g docid \<lparr>fd_name = name, fd_value = [], fd_source = [], fd_type = df_type name d, fd_mul = []\<rparr> d;
     (fs, d2) \<leftarrow> get_fields g docid names d1;
     Some (if r < 0 then fs else f # fs, d2) }"

definition DF_GetAllFields :: "(nat \<Rightarrow> byte) \<Rightarrow> u32 \<Rightarrow> docfields \<Rightarrow> (int \<times> doc_field list \<times> docfields) option" where
  "DF_GetAllFields g docid d = do { (fs, d') \<leftarrow> get_fields g docid (map fst (df_name2id d)) d; Some (0, fs, d') }"

subsection \<open>The search\<close>

lemma fetch_nth [simp]: "i < length xs \<Longrightarrow> fetch xs (int i) = Some (xs ! i)"
  by (simp add: fetch_def)

lemma find_loop_ok:
  assumes "s \<le> e" "e < length vals" "\<And>i j. \<lbrakk>s \<le> i; i < j; j \<le> e\<rbrakk> \<Longrightarrow> vals ! i < vals ! j"
  shows "\<exists>r. find_loop fid vals s e = Some r \<and>
    (if r < 0 then \<forall>j. s \<le> j \<and> j \<le> e \<longrightarrow> vals ! j \<noteq> fid else s \<le> nat r \<and> nat r \<le> e \<and> vals ! nat r = fid)"
  using assms
proof (induction "e - s" arbitrary: s e rule: less_induct)
  case less
  let ?mid = "(s + e) div 2"
  have le: "vals ! i \<le> vals ! j" if "s \<le> i" "i \<le> j" "j \<le> e" for i j
    using less.prems(3) [of i j] that by (cases "i = j") auto
  have f: "fetch vals (int s) = Some (vals ! s)" "fetch vals (int e) = Some (vals ! e)" "fetch vals (int ?mid) = Some (vals ! ?mid)"
    using less.prems(1,2) by (simp_all add: fetch_def)
  have m: "s \<le> ?mid" "?mid \<le> e" using less.prems(1) by linarith+
  consider "vals ! s = fid" | "fid < vals ! s" | "vals ! s < fid" "vals ! e = fid" | "vals ! s < fid" "vals ! e < fid"
    | "vals ! s < fid" "fid < vals ! e" "vals ! ?mid = fid" | "vals ! s < fid" "fid < vals ! e" "vals ! ?mid < fid"
    | "vals ! s < fid" "fid < vals ! e" "fid < vals ! ?mid"
    by fastforce
  then show ?case
  proof cases
    case 2
    then have "find_loop fid vals s e = Some (-2)" by (subst find_loop.simps) (auto simp: f Let_def)
    moreover have "vals ! j \<noteq> fid" if "s \<le> j" "j \<le> e" for j using le [of s j] that 2 by auto
    ultimately show ?thesis by auto
  next
    case 4
    then have "find_loop fid vals s e = Some (-3)" by (subst find_loop.simps) (auto simp: f Let_def)
    moreover have "vals ! j \<noteq> fid" if "s \<le> j" "j \<le> e" for j using le [of j e] that 4 by auto
    ultimately show ?thesis by auto
  next
    case 6
    have out: "vals ! j \<noteq> fid" if "s \<le> j" "j \<le> ?mid" for j using le [of j ?mid] that m 6 by auto
    have lt: "?mid < e" using 6 m by (cases "?mid = e") auto
    have st: "find_loop fid vals s e = (if ?mid + 1 < e then find_loop fid vals (?mid + 1) e else Some (-4))"
      using 6 by (subst find_loop.simps) (auto simp: f Let_def)
    show ?thesis
    proof (cases "?mid + 1 < e")
      case True
      have "e - (?mid + 1) < e - s" using m True by linarith
      from less.hyps [OF this] obtain r where r: "find_loop fid vals (?mid + 1) e = Some r"
        "if r < 0 then \<forall>j. ?mid + 1 \<le> j \<and> j \<le> e \<longrightarrow> vals ! j \<noteq> fid else ?mid + 1 \<le> nat r \<and> nat r \<le> e \<and> vals ! nat r = fid"
        using less.prems m True by fastforce
      have "\<forall>j. s \<le> j \<and> j \<le> e \<longrightarrow> vals ! j \<noteq> fid" if "r < 0"
        using r(2) that out by (metis Suc_eq_plus1 not_less_eq_eq)
      then show ?thesis using r m(1) st True by (auto split: if_splits)
    next
      case False
      then have "?mid + 1 = e" using lt by linarith
      then have "vals ! j \<noteq> fid" if "s \<le> j" "j \<le> e" for j using out [of j] that 6 by (cases "j = e") auto
      then show ?thesis using st False by auto
    qed
  next
    case 7
    have out: "vals ! j \<noteq> fid" if "?mid \<le> j" "j \<le> e" for j using le [of ?mid j] that m 7 by auto
    have lt: "s < ?mid" using 7 m by (cases "?mid = s") auto
    have st: "find_loop fid vals s e = (if s < ?mid - 1 then find_loop fid vals s (?mid - 1) else Some (-4))"
      using 7 by (subst find_loop.simps) (auto simp: f Let_def)
    show ?thesis
    proof (cases "s < ?mid - 1")
      case True
      have "?mid - 1 - s < e - s" using m True by linarith
      from less.hyps [OF this] obtain r where r: "find_loop fid vals s (?mid - 1) = Some r"
        "if r < 0 then \<forall>j. s \<le> j \<and> j \<le> ?mid - 1 \<longrightarrow> vals ! j \<noteq> fid else s \<le> nat r \<and> nat r \<le> ?mid - 1 \<and> vals ! nat r = fid"
        using less.prems m True by fastforce
      have "vals ! j \<noteq> fid" if "r < 0" "s \<le> j" "j \<le> e" for j
        using r(2) that out [of j] by (cases "j \<le> ?mid - 1") auto
      then show ?thesis using r m(2) st True by (auto split: if_splits)
    next
      case False
      then have "?mid - 1 = s" using lt by linarith
      then have "vals ! j \<noteq> fid" if "s \<le> j" "j \<le> e" for j using out [of j] that 7 by (cases "j = s") auto
      then show ?thesis using st False by auto
    qed
  next
    case 1
    then have "find_loop fid vals s e = Some (int s)" by (subst find_loop.simps) (simp add: f)
    then show ?thesis using 1 less.prems(1) by simp
  next
    case 3
    then have "find_loop fid vals s e = Some (int e)" by (subst find_loop.simps) (auto simp: f)
    then show ?thesis using 3 less.prems(1) by simp
  next
    case 5
    then have "find_loop fid vals s e = Some (int ?mid)" by (subst find_loop.simps) (auto simp: f Let_def)
    then show ?thesis using 5 m by simp
  qed
qed

text \<open>On ascending ids the search finds the place of an id, or fails with a negative number.\<close>

lemma DF_Find_ok:
  assumes "sorted_wrt (<) (ids :: byte list)"
  shows "\<exists>r. DF_Find fid (ids @ rest) (length ids) = Some r \<and>
    (if fid \<in> set ids then 0 \<le> r \<and> nat r < length ids \<and> ids ! nat r = fid else r < 0)"
proof (cases "ids = []")
  case False
  then have l: "0 \<le> length ids - 1" "length ids - 1 < length (ids @ rest)" by (auto intro: trans_less_add1 diff_less)
  have "(ids @ rest) ! i < (ids @ rest) ! j" if "0 \<le> i" "i < j" "j \<le> length ids - 1" for i j
    using that assms False by (auto simp: nth_append sorted_wrt_iff_nth_less)
  from find_loop_ok [OF l this] obtain r where r: "find_loop fid (ids @ rest) 0 (length ids - 1) = Some r"
    "if r < 0 then \<forall>j. 0 \<le> j \<and> j \<le> length ids - 1 \<longrightarrow> (ids @ rest) ! j \<noteq> fid
     else 0 \<le> nat r \<and> nat r \<le> length ids - 1 \<and> (ids @ rest) ! nat r = fid"
    by blast
  have in_range: "j < length ids \<longleftrightarrow> j \<le> length ids - 1" for j using False by (cases ids) auto
  have "if fid \<in> set ids then 0 \<le> r \<and> nat r < length ids \<and> ids ! nat r = fid else r < 0"
  proof (cases "r < 0")
    case True
    then have "\<forall>j < length ids. ids ! j \<noteq> fid" using r(2) in_range by (auto simp: nth_append)
    then show ?thesis using True by (auto simp: in_set_conv_nth)
  next
    case False
    then have "nat r < length ids" "ids ! nat r = fid" using r(2) in_range [of "nat r"] by (auto simp: nth_append)
    then show ?thesis using False by (auto simp: in_set_conv_nth)
  qed
  then show ?thesis using r(1) False by (simp add: DF_Find_def)
qed (simp add: DF_Find_def)

subsection \<open>One contract for all columns\<close>

datatype fval = FBytes (un_bytes: "byte list") | FStrs (un_strs: "byte list list")

fun any_repr :: "data_type \<Rightarrow> fval list \<Rightarrow> nat \<Rightarrow> column \<Rightarrow> bool" where
  "any_repr STRING vs P c \<longleftrightarrow> (\<forall>v \<in> set vs. is_FBytes v) \<and> str_repr (map un_bytes vs) P c"
| "any_repr MULTI_STRING vs P c \<longleftrightarrow> (\<forall>v \<in> set vs. \<not> is_FBytes v) \<and> mul_repr (map un_strs vs) P c"
| "any_repr VECTOR vs P c \<longleftrightarrow> False"
| "any_repr t vs P c \<longleftrightarrow> (\<forall>v \<in> set vs. is_FBytes v) \<and> fixed_repr (element_size t) (map un_bytes vs) P c"

fun any_fits :: "data_type \<Rightarrow> fval list \<Rightarrow> doc_field \<Rightarrow> bool" where
  "any_fits STRING vs f \<longleftrightarrow> str_fits (map un_bytes vs) (fd_value f)"
| "any_fits MULTI_STRING vs f \<longleftrightarrow> mul_fits (map un_strs vs) f"
| "any_fits VECTOR vs f \<longleftrightarrow> False"
| "any_fits t vs f \<longleftrightarrow> fixed_fits (element_size t) (map un_bytes vs) f"

fun any_stored :: "data_type \<Rightarrow> doc_field \<Rightarrow> fval" where
  "any_stored STRING f = FBytes (fd_value f)"
| "any_stored MULTI_STRING f = FStrs (fd_mul f)"
| "any_stored t f = FBytes (take (element_size t) (c_str (fd_value f)))"

fun any_fill :: "data_type \<Rightarrow> fval \<Rightarrow> doc_field \<Rightarrow> doc_field" where
  "any_fill MULTI_STRING v f = f\<lparr>fd_mul := fd_mul f @ un_strs v\<rparr>"
| "any_fill t v f = f\<lparr>fd_value := un_bytes v\<rparr>"

interpretation anyc: column_store "any_repr t" "col_put (col_kind t)" "col_get (col_kind t)" "any_fits t" "any_stored t" "any_fill t" for t
proof
  fix vs P c f
  assume "any_repr t vs P c" "any_fits t vs f"
  then show "\<exists>c'. col_put (col_kind t) f c = Some (0, c') \<and> any_repr t (vs @ [any_stored t f]) P c'"
    using fixed.put_ok [of "element_size t" "map un_bytes vs" P c f] strc.put_ok [of "map un_bytes vs" P c f]
      mulc.put_ok [of "map un_strs vs" P c f]
    by (cases t) (auto simp: fun_eq_iff)
next
  fix vs P c i g f
  assume r: "any_repr t vs P c" and i: "i < P"
  have le: "P \<le> length vs"
    using r fixed.max_id [of "element_size t" "map un_bytes vs" P c] strc.max_id [of "map un_bytes vs" P c]
      mulc.max_id [of "map un_strs vs" P c]
    by (cases t) auto
  then show "\<exists>c'. col_get (col_kind t) g (of_nat i) f c = Some (0, any_fill t (vs ! i) f, c') \<and> any_repr t vs P c'"
    using r i fixed.get_ok [of "element_size t" "map un_bytes vs" P c i g f] strc.get_ok [of "map un_bytes vs" P c i g f]
      mulc.get_ok [of "map un_strs vs" P c i g f]
    by (cases t) auto
next
  fix vs P c n
  assume "any_repr t vs P c" "P + n \<le> length vs"
  then show "\<exists>c'. col_write n c = Some c' \<and> any_repr t vs (P + n) c'"
    using fixed.write_ok [of "element_size t" "map un_bytes vs" P c n] strc.write_ok [of "map un_bytes vs" P c n]
      mulc.write_ok [of "map un_strs vs" P c n]
    by (cases t) auto
next
  fix vs P c
  assume "any_repr t vs P c"
  then show "col_max c = of_nat (length vs) \<and> P \<le> length vs"
    using fixed.max_id [of "element_size t" "map un_bytes vs" P c] strc.max_id [of "map un_bytes vs" P c]
      mulc.max_id [of "map un_strs vs" P c]
    by (cases t) auto
qed

lemma any_init_empty:
  assumes "col_kind t \<noteq> KNone"
  shows "\<exists>c. col_init t empty_folder new_column = (True, c) \<and> any_repr t [] 0 c"
  using assms Fixed_Init_empty [of t] Str_Init_empty MulStr_Init_empty by (cases t) auto

text \<open>A writer thread that empties its queue.\<close>

definition drain :: "column \<Rightarrow> column" where
  "drain c = (case col_sm c of None \<Rightarrow> c
     | Some m \<Rightarrow> (case col_write (length (sm_queue m)) c of None \<Rightarrow> c | Some c' \<Rightarrow> c'))"

lemma any_queue: "any_repr t vs P c \<Longrightarrow> \<exists>m. col_sm c = Some m \<and> length (sm_queue m) = length vs - P"
  by (cases t) (auto simp: fixed_repr_def str_repr_def mul_repr_def sm_repr_def str_items_def)

lemma drain_ok:
  assumes "any_repr t vs P c"
  shows "any_repr t vs (length vs) (drain c)"
proof -
  obtain m where m: "col_sm c = Some m" "length (sm_queue m) = length vs - P" using any_queue [OF assms] by blast
  have "P \<le> length vs" using anyc.max_id [OF assms] by simp
  then obtain c' where "col_write (length vs - P) c = Some c'" "any_repr t vs (length vs) c'"
    using anyc.write_ok [OF assms, of "length vs - P"] by auto
  then show ?thesis using m by (simp add: drain_def)
qed

subsection \<open>Documents as maps from names to values\<close>

definition schema_ok :: "docfields \<Rightarrow> bool" where
  "schema_ok d \<longleftrightarrow> dom (map_of (df_name2type d)) = dom (map_of (df_name2id d)) \<and>
     inj_on (map_of (df_name2id d)) (dom (map_of (df_name2id d)))"

definition cols_ok :: "(byte list \<Rightarrow> fval list) \<Rightarrow> (byte list \<Rightarrow> nat) \<Rightarrow> docfields \<Rightarrow> bool" where
  "cols_ok vals wr d \<longleftrightarrow> (\<forall>name t. map_of (df_name2type d) name = Some t \<longrightarrow>
     (if col_kind t = KNone then vals name = []
      else \<exists>c. map_of (df_cols (col_kind t) d) name = Some c \<and> any_repr t (vals name) (wr name) c))"

lemma cols_okD: "\<lbrakk>cols_ok vals wr d; map_of (df_name2type d) name = Some t; col_kind t \<noteq> KNone\<rbrakk> \<Longrightarrow>
    \<exists>c. map_of (df_cols (col_kind t) d) name = Some c \<and> any_repr t (vals name) (wr name) c"
  by (fastforce simp: cols_ok_def)

text \<open>The rows as lists of field ids and value numbers.\<close>

type_synonym frow = "(byte \<times> u32) list"

definition row_ok :: "docfields \<Rightarrow> (byte list \<Rightarrow> fval list) \<Rightarrow> frow \<Rightarrow> bool" where
  "row_ok d vals row \<longleftrightarrow> sorted_wrt (<) (map fst row) \<and> length row \<le> 255 \<and>
     (\<forall>name fid p. map_of (df_name2id d) name = Some fid \<longrightarrow> (fid, p) \<in> set row \<longrightarrow> unat p < length (vals name))"

definition rows_repr :: "frow list \<Rightarrow> docfields \<Rightarrow> bool" where
  "rows_repr rws d \<longleftrightarrow> unat (df_size d) = length rws \<and> (\<exists>rows. df_rows d = Some rows \<and> length rows = unat (df_capacity d) \<and>
     length rws \<le> length rows \<and> (\<forall>i < length rws. rows ! i = Some (row_bytes (map fst (rws ! i)) (map snd (rws ! i)))))"

definition df_repr :: "(byte list \<Rightarrow> fval list) \<Rightarrow> (byte list \<Rightarrow> nat) \<Rightarrow> frow list \<Rightarrow> docfields \<Rightarrow> bool" where
  "df_repr vals wr rws d \<longleftrightarrow> schema_ok d \<and> cols_ok vals wr d \<and> rows_repr rws d \<and> (\<forall>row \<in> set rws. row_ok d vals row)"

text \<open>The document of a row.\<close>

definition doc_of :: "docfields \<Rightarrow> (byte list \<Rightarrow> fval list) \<Rightarrow> frow \<Rightarrow> byte list \<rightharpoonup> fval" where
  "doc_of d vals row name =
     (case map_of (df_name2id d) name of None \<Rightarrow> None
      | Some fid \<Rightarrow> map_option (\<lambda>p. vals name ! unat p) (map_of row fid))"

definition same_schema :: "docfields \<Rightarrow> docfields \<Rightarrow> bool" where
  "same_schema d d' \<longleftrightarrow> df_name2id d' = df_name2id d \<and> df_id2name d' = df_id2name d \<and> df_name2type d' = df_name2type d \<and>
     df_index d' = df_index d \<and> df_nfields d' = df_nfields d"

lemma same_schema_simps:
  assumes "same_schema d d'"
  shows "schema_ok d' = schema_ok d" "row_ok d' = row_ok d" "doc_of d' = doc_of d" "df_type n d' = df_type n d"
  using assms by (simp_all add: same_schema_def schema_ok_def row_ok_def doc_of_def fun_eq_iff df_type_def)

text \<open>Changing the column of one field.\<close>

lemma set_col_frame:
  "same_schema d (set_col k name c d)" "df_rows (set_col k name c d) = df_rows d" "df_size (set_col k name c d) = df_size d"
  "df_capacity (set_col k name c d) = df_capacity d"
  by (cases k; simp add: same_schema_def)+

lemma set_col_get: "k \<noteq> KNone \<Longrightarrow>
    map_of (df_cols j (set_col k name c d)) n = (if j = k \<and> n = name then Some c else map_of (df_cols j d) n)"
  by (cases k; cases j) (simp_all add: map_of_put)

lemma set_col_ok:
  assumes "cols_ok vals wr d" "map_of (df_name2type d) name = Some t" "col_kind t \<noteq> KNone" "any_repr t vs P c"
  shows "cols_ok (vals(name := vs)) (wr(name := P)) (set_col (col_kind t) name c d)"
proof -
  have "df_name2type (set_col (col_kind t) name c d) = df_name2type d"
    using set_col_frame(1) by (simp add: same_schema_def)
  then show ?thesis using assms by (auto simp: cols_ok_def set_col_get)
qed

subsection \<open>Writing\<close>

definition field_ok :: "docfields \<Rightarrow> (byte list \<Rightarrow> fval list) \<Rightarrow> doc_field \<Rightarrow> bool" where
  "field_ok d vals f \<longleftrightarrow> map_of (df_name2type d) (fd_name f) = Some (fd_type f) \<and> col_kind (fd_type f) \<noteq> KNone \<and>
     any_fits (fd_type f) (vals (fd_name f)) f"

definition add_val :: "doc_field \<Rightarrow> (byte list \<Rightarrow> fval list) \<Rightarrow> byte list \<Rightarrow> fval list" where
  "add_val f vals = vals(fd_name f := vals (fd_name f) @ [any_stored (fd_type f) f])"

lemma put_field_ok:
  assumes c: "cols_ok vals wr d" and f: "field_ok d vals f"
  shows "\<exists>d'. put_field f d = Some (of_nat (length (vals (fd_name f))), d') \<and> cols_ok (add_val f vals) wr d' \<and>
    same_schema d d' \<and> df_rows d' = df_rows d \<and> df_size d' = df_size d \<and> df_capacity d' = df_capacity d"
proof -
  let ?t = "fd_type f" and ?n = "fd_name f"
  have t: "map_of (df_name2type d) ?n = Some ?t" "col_kind ?t \<noteq> KNone" "any_fits ?t (vals ?n) f"
    using f by (simp_all add: field_ok_def)
  obtain c0 where c0: "map_of (df_cols (col_kind ?t) d) ?n = Some c0" "any_repr ?t (vals ?n) (wr ?n) c0"
    using cols_okD [OF c t(1,2)] by blast
  obtain c1 where c1: "col_put (col_kind ?t) f c0 = Some (0, c1)" "any_repr ?t (vals ?n @ [any_stored ?t f]) (wr ?n) c1"
    using anyc.put_ok [OF c0(2) t(3)] by blast
  have "cols_ok (add_val f vals) wr (set_col (col_kind ?t) ?n c1 d)"
    using set_col_ok [OF c t(1,2) c1(2)] by (simp add: add_val_def)
  moreover have "col_max c0 = of_nat (length (vals ?n))" using anyc.max_id [OF c0(2)] by simp
  ultimately show ?thesis using c0(1) c1(1) t(2) set_col_frame [where d = d]
    by (simp add: put_field_def Let_def)
qed

text \<open>The known fields of a document, each once.\<close>

definition known :: "docfields \<Rightarrow> doc_field list \<Rightarrow> doc_field list" where
  "known d fs = filter (\<lambda>f. map_of (df_name2id d) (fd_name f) \<noteq> None) fs"

abbreviation id_of :: "docfields \<Rightarrow> doc_field \<Rightarrow> byte" where
  "id_of d f \<equiv> the (map_of (df_name2id d) (fd_name f))"

abbreviation add_vals :: "doc_field list \<Rightarrow> (byte list \<Rightarrow> fval list) \<Rightarrow> byte list \<Rightarrow> fval list" where
  "add_vals fs vals \<equiv> foldl (\<lambda>vs f. add_val f vs) vals fs"

lemma add_vals_other: "n \<notin> fd_name ` set fs \<Longrightarrow> add_vals fs vals n = vals n"
  by (induction fs arbitrary: vals) (auto simp: add_val_def)

lemma add_vals_in:
  "\<lbrakk>distinct (map fd_name fs); f \<in> set fs\<rbrakk> \<Longrightarrow> add_vals fs vals (fd_name f) = vals (fd_name f) @ [any_stored (fd_type f) f]"
proof (induction fs arbitrary: vals)
  case (Cons h fs)
  show ?case
  proof (cases "f = h")
    case True
    have "add_vals fs (add_val h vals) (fd_name h) = add_val h vals (fd_name h)"
      using Cons.prems(1) by (intro add_vals_other) simp
    also have "\<dots> = vals (fd_name h) @ [any_stored (fd_type h) h]" by (simp add: add_val_def)
    finally show ?thesis using True by simp
  next
    case False
    then have "fd_name h \<noteq> fd_name f" using Cons.prems by auto
    then show ?thesis using Cons False by (simp add: add_val_def)
  qed
qed simp

lemma put_fields_ok:
  "\<lbrakk>cols_ok vals wr d; distinct (map fd_name (known d fs)); \<forall>f \<in> set (known d fs). field_ok d vals f\<rbrakk> \<Longrightarrow>
    \<exists>d'. put_fields fs ids poss d = Some (ids @ map (id_of d) (known d fs),
        poss @ map (\<lambda>f. of_nat (length (vals (fd_name f)))) (known d fs), d') \<and>
      cols_ok (add_vals (known d fs) vals) wr d' \<and> same_schema d d' \<and> df_rows d' = df_rows d \<and> df_size d' = df_size d \<and>
      df_capacity d' = df_capacity d"
proof (induction fs arbitrary: vals d ids poss)
  case Nil
  then show ?case by (simp add: known_def same_schema_def)
next
  case (Cons f fs)
  show ?case
  proof (cases "map_of (df_name2id d) (fd_name f)")
    case None
    then have "known d (f # fs) = known d fs" by (simp add: known_def)
    then show ?thesis using Cons None by simp
  next
    case (Some fid)
    then have k: "known d (f # fs) = f # known d fs" by (simp add: known_def)
    then have f: "field_ok d vals f" using Cons.prems(3) by simp
    obtain d1 where d1: "put_field f d = Some (of_nat (length (vals (fd_name f))), d1)" "cols_ok (add_val f vals) wr d1"
      "same_schema d d1" "df_rows d1 = df_rows d" "df_size d1 = df_size d" "df_capacity d1 = df_capacity d"
      using put_field_ok [OF Cons.prems(1) f] by blast
    have k1: "known d1 fs = known d fs" using d1(3) by (simp add: known_def same_schema_def)
    have n: "fd_name h \<noteq> fd_name f" if "h \<in> set (known d fs)" for h
      using Cons.prems(2) that unfolding k by (metis distinct.simps(2) image_eqI list.simps(9) set_map)
    have "field_ok d1 (add_val f vals) h" if h: "h \<in> set (known d fs)" for h
    proof -
      have "field_ok d vals h" using Cons.prems(3) h by (simp add: k)
      then show ?thesis using n [OF h] d1(3) by (simp add: field_ok_def add_val_def same_schema_def)
    qed
    moreover have "distinct (map fd_name (known d1 fs))" using Cons.prems(2) by (simp add: k k1)
    ultimately obtain d' where d': "put_fields fs (ids @ [fid]) (poss @ [of_nat (length (vals (fd_name f)))]) d1 =
        Some ((ids @ [fid]) @ map (id_of d1) (known d1 fs), (poss @ [of_nat (length (vals (fd_name f)))]) @
          map (\<lambda>h. of_nat (length (add_val f vals (fd_name h)))) (known d1 fs), d')"
      "cols_ok (add_vals (known d1 fs) (add_val f vals)) wr d'" "same_schema d1 d'" "df_rows d' = df_rows d1" "df_size d' = df_size d1"
      "df_capacity d' = df_capacity d1"
      using Cons.IH [OF d1(2)] by (metis k1)
    have "map (\<lambda>h. of_nat (length (add_val f vals (fd_name h)))) (known d fs) =
        map (\<lambda>h. of_nat (length (vals (fd_name h))) :: u32) (known d fs)"
      using n by (simp add: add_val_def)
    then show ?thesis using Some d1 d' by (simp add: k k1) (simp add: same_schema_def)
  qed
qed

end
