(* ===== verification/DocRows.thy ===== *)
theory DocRows
  imports DocFields
begin

text \<open>
  What the document fields manager promises. Its rows and columns together are a list of documents,
  each a map from field names to values; \<open>Put\<close> appends a document and \<open>Get\<close> looks a name up, as
  long as documents come with consecutive numbers and the ids of their fields ascend.
\<close>

lemma u32_bound: "unat (w :: u32) < 4294967296"
  by (rule order_less_le_trans [OF unsigned_less]) simp

lemma u32_succ: "unat (w :: u32) + 1 < 4294967296 \<Longrightarrow> unat (w + 1) = unat w + 1"
  using unat_of_nat32 [of "unat w + 1"] by (simp add: add.commute)

subsection \<open>The bytes of a row\<close>

lemma length_concat_le32 [simp]: "length (concat (map le32 ps)) = 4 * length ps"
  by (induction ps) auto

lemma le32_at: "k < length ps \<Longrightarrow> concat (map le32 ps) = concat (map le32 (take k ps)) @ le32 (ps ! k) @ concat (map le32 (drop (Suc k) ps))"
  by (metis concat.simps(2) concat_append id_take_nth_drop list.map(2) map_append)

lemma row_bytes_parts:
  assumes "length ids = length ps" "length ids \<le> 255"
  shows "fetch (row_bytes ids ps) 0 = Some (of_nat (length ids))" "unat (of_nat (length ids) :: byte) = length ids"
    "drop 1 (row_bytes ids ps) = ids @ concat (map le32 ps)"
    "k < length ids \<Longrightarrow> mem_slice (row_bytes ids ps) (1 + length ids + 4 * k) 4 = Some (le32 (ps ! k))"
proof -
  have n: "unat (of_nat (length ids) :: byte) = length ids" using assms(2) by (rule unat_of_nat8)
  have b: "row_bytes ids ps = of_nat (length ids) # ids @ concat (map le32 ps)"
    using n assms(1) by (simp add: row_bytes_def Let_def)
  show "unat (of_nat (length ids) :: byte) = length ids" by (rule n)
  show "fetch (row_bytes ids ps) 0 = Some (of_nat (length ids))" "drop 1 (row_bytes ids ps) = ids @ concat (map le32 ps)"
    by (simp_all add: b fetch_def)
  assume k: "k < length ids"
  have e: "row_bytes ids ps = (of_nat (length ids) # ids @ concat (map le32 (take k ps))) @ le32 (ps ! k) @ concat (map le32 (drop (Suc k) ps))"
    using le32_at [of k ps] k assms(1) by (simp add: b)
  show "mem_slice (row_bytes ids ps) (1 + length ids + 4 * k) 4 = Some (le32 (ps ! k))"
    unfolding e by (rule mem_slice_app) (use k assms(1) in simp_all)
qed

subsection \<open>Writing a row\<close>

lemma extend_rows_ok:
  assumes r: "rows_repr rws d" and cap: "0 < df_capacity d" "2 * unat (df_capacity d) < 2 ^ 32"
  shows "\<exists>d'. extend_rows (of_nat (length rws)) d = Some d' \<and> rows_repr rws d' \<and> length rws < unat (df_capacity d') \<and>
    same_schema d d' \<and> (\<forall>k. df_cols k d' = df_cols k d)"
proof -
  obtain rows where rows: "unat (df_size d) = length rws" "df_rows d = Some rows" "length rows = unat (df_capacity d)"
    "length rws \<le> length rows" "\<forall>i < length rws. rows ! i = Some (row_bytes (map fst (rws ! i)) (map snd (rws ! i)))"
    using r by (auto simp: rows_repr_def)
  have l: "unat (of_nat (length rws) :: u32) = length rws" using rows(1) u32_bound [of "df_size d"] by (simp add: unat_of_nat32)
  show ?thesis
  proof (cases "length rws < length rows")
    case True
    then have "(of_nat (length rws) :: u32) < df_capacity d" using rows(3) l by (simp add: word_less_nat_alt)
    then have "extend_rows (of_nat (length rws)) d = Some d" by (simp add: extend_rows_def)
    then show ?thesis using r True rows(3) by (simp add: same_schema_def)
  next
    case False
    let ?cap = "df_capacity d * 2"
    let ?new = "map (\<lambda>i. if i < length rws then rows ! i else None) [0..<unat ?cap]"
    have c2: "unat ?cap = 2 * unat (df_capacity d)"
      using cap(2) by (simp add: unat_mult_lem [THEN iffD1])
    have c0: "0 < unat (df_capacity d)" using cap(1) by (simp add: word_less_nat_alt)
    have "\<not> (of_nat (length rws) :: u32) < df_capacity d" using False rows(3) l by (simp add: word_less_nat_alt)
    moreover have "(if df_size d = 0 then Some [] else df_rows d) = Some (if df_size d = 0 then [] else rows)"
      by (simp add: rows(2))
    moreover have "df_size d \<noteq> 0" using rows(1,3,4) False c0 by auto
    ultimately have "extend_rows (of_nat (length rws)) d = Some (d\<lparr>df_capacity := ?cap, df_rows := Some ?new\<rparr>)"
      using rows(1-4) by (simp add: extend_rows_def Let_def)
    moreover have "rows_repr rws (d\<lparr>df_capacity := ?cap, df_rows := Some ?new\<rparr>)"
      using rows c2 by (simp add: rows_repr_def)
    moreover have "df_cols k (d\<lparr>df_capacity := ?cap, df_rows := Some ?new\<rparr>) = df_cols k d" for k by (cases k) simp_all
    ultimately show ?thesis using c2 c0 rows(3,4) False by (simp add: same_schema_def)
  qed
qed

lemma DF_PutRow_ok:
  assumes r: "rows_repr rws d" and cap: "0 < df_capacity d" "2 * unat (df_capacity d) < 2 ^ 32"
  shows "\<exists>d'. DF_PutRow (of_nat (length rws)) (map fst row) (map snd row) d = Some (0, d') \<and> rows_repr (rws @ [row]) d' \<and>
    same_schema d d' \<and> (\<forall>k. df_cols k d' = df_cols k d)"
proof -
  obtain d1 where d1: "extend_rows (of_nat (length rws)) d = Some d1" "rows_repr rws d1" "length rws < unat (df_capacity d1)"
    "same_schema d d1" "\<forall>k. df_cols k d1 = df_cols k d"
    using extend_rows_ok [OF assms] by blast
  obtain rows where rows: "unat (df_size d1) = length rws" "df_rows d1 = Some rows" "length rows = unat (df_capacity d1)"
    "\<forall>i < length rws. rows ! i = Some (row_bytes (map fst (rws ! i)) (map snd (rws ! i)))"
    using d1(2) by (auto simp: rows_repr_def)
  let ?d = "d1\<lparr>df_rows := Some (rows[length rws := Some (row_bytes (map fst row) (map snd row))]), df_size := df_size d1 + 1\<rparr>"
  have lt: "length rws + 1 < 4294967296" using d1(3) u32_bound [of "df_capacity d1"] by simp
  then have l: "uint (of_nat (length rws) :: u32) = int (length rws)" by (simp add: uint_nat unat_of_nat32)
  have s: "unat (df_size d1 + 1) = length rws + 1" using u32_succ [of "df_size d1"] lt rows(1) by simp
  have in_rows: "length rws < length rows" using d1(3) rows(3) by simp
  have "store rows (uint (of_nat (length rws) :: u32)) (Some (row_bytes (map fst row) (map snd row))) =
      Some (rows[length rws := Some (row_bytes (map fst row) (map snd row))])"
    using in_rows by (simp add: store_def l)
  then have "DF_PutRow (of_nat (length rws)) (map fst row) (map snd row) d = Some (0, ?d)"
    by (simp add: DF_PutRow_def d1(1) rows(2))
  moreover have "rows_repr (rws @ [row]) ?d"
    using rows d1(3) s by (auto simp: rows_repr_def nth_append nth_list_update less_Suc_eq)
  moreover have "df_cols k ?d = df_cols k d1" for k by (cases k) simp_all
  ultimately show ?thesis using d1(4,5) by (simp add: same_schema_def)
qed

subsection \<open>Putting a document\<close>

lemma any_len: "any_repr t vs P c \<Longrightarrow> length vs < 199000000"
  by (cases t) (auto simp: fixed_repr_def str_repr_def mul_repr_def)

lemma cols_frame:
  assumes "cols_ok vals wr d" "\<forall>k. df_cols k d' = df_cols k d" "same_schema d d'"
  shows "cols_ok vals wr d'"
  using assms by (simp add: cols_ok_def same_schema_def)

lemma same_schema_trans: "\<lbrakk>same_schema a b; same_schema b c\<rbrakk> \<Longrightarrow> same_schema a c"
  by (simp add: same_schema_def)

lemma add_vals_prefix: "\<exists>ws. add_vals fs vals n = vals n @ ws"
proof (induction fs arbitrary: vals)
  case (Cons f fs)
  obtain ws where "add_vals fs (add_val f vals) n = add_val f vals n @ ws" using Cons.IH by blast
  moreover obtain us where "add_val f vals n = vals n @ us" by (cases "n = fd_name f") (simp_all add: add_val_def)
  ultimately show ?case by simp
qed simp

lemma row_mono:
  assumes "row_ok d vals row"
  shows "row_ok d (add_vals fs vals) row" "doc_of d (add_vals fs vals) row = doc_of d vals row"
proof -
  have pre: "\<exists>ws. add_vals fs vals n = vals n @ ws" for n by (rule add_vals_prefix)
  have "length (vals n) \<le> length (add_vals fs vals n)" for n using pre [of n] by auto
  then show "row_ok d (add_vals fs vals) row" using assms unfolding row_ok_def by (meson order_less_le_trans)
  show "doc_of d (add_vals fs vals) row = doc_of d vals row"
  proof
    fix n
    have "add_vals fs vals n ! unat p = vals n ! unat p" if "map_of (df_name2id d) n = Some fid" "map_of row fid = Some p" for fid p
      using assms that pre [of n] map_of_SomeD [OF that(2)] by (auto simp: row_ok_def nth_append)
    then show "doc_of d (add_vals fs vals) row n = doc_of d vals row n"
      by (cases "map_of (df_name2id d) n") (auto simp: doc_of_def intro: option.map_cong0)
  qed
qed

text \<open>The row and the map that a list of fields becomes.\<close>

definition new_row :: "docfields \<Rightarrow> (byte list \<Rightarrow> fval list) \<Rightarrow> doc_field list \<Rightarrow> frow" where
  "new_row d vals fs = map (\<lambda>f. (id_of d f, of_nat (length (vals (fd_name f))))) (known d fs)"

definition doc_map :: "docfields \<Rightarrow> doc_field list \<Rightarrow> byte list \<rightharpoonup> fval" where
  "doc_map d fs = map_of (map (\<lambda>f. (fd_name f, any_stored (fd_type f) f)) (known d fs))"

definition doc_fits :: "docfields \<Rightarrow> (byte list \<Rightarrow> fval list) \<Rightarrow> doc_field list \<Rightarrow> bool" where
  "doc_fits d vals fs \<longleftrightarrow> sorted_wrt (<) (map (id_of d) (known d fs)) \<and> length (known d fs) \<le> 255 \<and>
     (\<forall>f \<in> set (known d fs). field_ok d vals f)"

lemma known_distinct:
  assumes "sorted_wrt (<) (map (id_of d) (known d fs))"
  shows "distinct (map fd_name (known d fs))"
proof -
  have "map (id_of d) (known d fs) = map (\<lambda>n. the (map_of (df_name2id d) n)) (map fd_name (known d fs))" by simp
  then show ?thesis using assms by (metis distinct_map strict_sorted_iff)
qed

lemma known_has_id: "f \<in> set (known d fs) \<Longrightarrow> map_of (df_name2id d) (fd_name f) = Some (id_of d f)"
  by (auto simp: known_def)

lemma new_row_ok:
  assumes s: "schema_ok d" and c: "cols_ok vals wr d" and f: "doc_fits d vals fs"
  shows "row_ok d (add_vals (known d fs) vals) (new_row d vals fs)"
    "doc_of d (add_vals (known d fs) vals) (new_row d vals fs) = doc_map d fs"
proof -
  let ?fs = "known d fs" and ?row = "new_row d vals fs"
  let ?vals = "add_vals ?fs vals"
  have srt: "sorted_wrt (<) (map fst ?row)" and len: "length ?row \<le> 255"
    using f by (simp_all add: new_row_def doc_fits_def comp_def)
  have dn: "distinct (map fd_name ?fs)" using known_distinct f by (simp add: doc_fits_def)
  have di: "distinct (map fst ?row)" using srt by (simp add: strict_sorted_iff)
  have val: "?vals (fd_name h) = vals (fd_name h) @ [any_stored (fd_type h) h]" if "h \<in> set ?fs" for h
    by (rule add_vals_in [OF dn that])
  have small: "unat (of_nat (length (vals (fd_name h))) :: u32) = length (vals (fd_name h))" if "h \<in> set ?fs" for h
  proof -
    have "map_of (df_name2type d) (fd_name h) = Some (fd_type h)" "col_kind (fd_type h) \<noteq> KNone"
      using f that by (auto simp: doc_fits_def field_ok_def)
    then obtain cl where "any_repr (fd_type h) (vals (fd_name h)) (wr (fd_name h)) cl" using cols_okD [OF c] by blast
    then show ?thesis using any_len by (intro unat_of_nat32) fastforce
  qed
  have same: "fd_name h = n" if "h \<in> set ?fs" "map_of (df_name2id d) n = Some (id_of d h)" for h n
    using known_has_id [OF that(1)] that(2) s unfolding schema_ok_def inj_on_def by (metis domI)
  have entry: "\<exists>h \<in> set ?fs. fid = id_of d h \<and> p = of_nat (length (vals (fd_name h)))" if "(fid, p) \<in> set ?row" for fid p
    using that by (auto simp: new_row_def)
  have "unat p < length (?vals n)" if n: "map_of (df_name2id d) n = Some fid" and p: "(fid, p) \<in> set ?row" for n fid p
  proof -
    obtain h where h: "h \<in> set ?fs" "fid = id_of d h" "p = of_nat (length (vals (fd_name h)))" using entry p by blast
    then have "fd_name h = n" using same n by blast
    then show ?thesis using val [OF h(1)] small [OF h(1)] h(3) by simp
  qed
  then show "row_ok d ?vals ?row" using srt len by (simp add: row_ok_def)
  show "doc_of d ?vals ?row = doc_map d fs"
  proof
    fix n
    show "doc_of d ?vals ?row n = doc_map d fs n"
    proof (cases "\<exists>h \<in> set ?fs. fd_name h = n")
      case True
      then obtain h where h: "h \<in> set ?fs" "fd_name h = n" by blast
      have "(id_of d h, of_nat (length (vals n))) \<in> set ?row" using h by (auto simp: new_row_def)
      then have "map_of ?row (id_of d h) = Some (of_nat (length (vals n)))" using di by (rule map_of_is_SomeI [rotated])
      moreover have "doc_map d fs n = Some (any_stored (fd_type h) h)"
        unfolding doc_map_def using h dn by (intro map_of_is_SomeI) (auto simp: comp_def)
      moreover obtain fid where "map_of (df_name2id d) n = Some fid" "id_of d h = fid" using known_has_id [OF h(1)] h(2) by simp
      ultimately show ?thesis using val [OF h(1)] small [OF h(1)] h(2) by (simp add: doc_of_def)
    next
      case False
      then have "doc_map d fs n = None" by (auto simp: doc_map_def map_of_eq_None_iff)
      moreover have "map_of ?row fid = None" if n: "map_of (df_name2id d) n = Some fid" for fid
      proof (rule ccontr)
        assume "map_of ?row fid \<noteq> None"
        then obtain p where "(fid, p) \<in> set ?row" using map_of_SomeD by fastforce
        then obtain h where "h \<in> set ?fs" "fid = id_of d h" using entry by blast
        then show False using same n False by blast
      qed
      ultimately show ?thesis by (simp add: doc_of_def split: option.split)
    qed
  qed
qed


text \<open>\<open>Put\<close> appends the document to the list.\<close>

lemma DF_Put_ok:
  assumes r: "df_repr vals wr rws d" and f: "doc_fits d vals fs"
    and cap: "0 < df_capacity d" "2 * unat (df_capacity d) < 2 ^ 32"
  shows "\<exists>d' vals' row. DF_Put (of_nat (length rws)) fs d = Some (0, d') \<and> df_repr vals' wr (rws @ [row]) d' \<and> same_schema d d' \<and>
    (\<exists>gs. vals' = add_vals gs vals) \<and> map (doc_of d' vals') (rws @ [row]) = map (doc_of d vals) rws @ [doc_map d fs]"
proof -
  let ?vals = "add_vals (known d fs) vals" and ?row = "new_row d vals fs"
  have s: "schema_ok d" and c: "cols_ok vals wr d" and rw: "rows_repr rws d" and ro: "\<forall>row \<in> set rws. row_ok d vals row"
    using r by (simp_all add: df_repr_def)
  have "distinct (map fd_name (known d fs))" "\<forall>f \<in> set (known d fs). field_ok d vals f"
    using known_distinct f by (simp_all add: doc_fits_def)
  from put_fields_ok [OF c this, of "[]" "[]"] obtain d1 where d1: "put_fields fs [] [] d = Some (map fst ?row, map snd ?row, d1)"
    "cols_ok ?vals wr d1" "same_schema d d1" "df_rows d1 = df_rows d" "df_size d1 = df_size d" "df_capacity d1 = df_capacity d"
    by (auto simp: new_row_def comp_def)
  have rw1: "rows_repr rws d1" using rw d1(4-6) by (simp add: rows_repr_def)
  from DF_PutRow_ok [OF rw1, of ?row] obtain d2 where d2: "DF_PutRow (of_nat (length rws)) (map fst ?row) (map snd ?row) d1 = Some (0, d2)"
    "rows_repr (rws @ [?row]) d2" "same_schema d1 d2" "\<forall>k. df_cols k d2 = df_cols k d1"
    using cap d1(6) by auto
  have ss: "same_schema d d2" using same_schema_trans [OF d1(3) d2(3)] .
  have "row_ok d2 ?vals row" if "row \<in> set (rws @ [?row])" for row
    using that ro row_mono(1) new_row_ok(1) [OF s c f] by (auto simp: same_schema_simps [OF ss])
  then have "df_repr ?vals wr (rws @ [?row]) d2"
    using s d2 cols_frame [OF d1(2) d2(4,3)] by (simp add: df_repr_def same_schema_simps [OF ss])
  moreover have "map (doc_of d2 ?vals) (rws @ [?row]) = map (doc_of d vals) rws @ [doc_map d fs]"
    using row_mono(2) ro new_row_ok(2) [OF s c f] by (simp add: same_schema_simps [OF ss])
  ultimately show ?thesis using ss d1(1) d2(1) by (auto simp: DF_Put_def)
qed

subsection \<open>Getting a field\<close>

definition settled :: "(byte list \<Rightarrow> fval list) \<Rightarrow> (byte list \<Rightarrow> nat) \<Rightarrow> bool" where
  "settled vals wr \<longleftrightarrow> (\<forall>n. wr n = length (vals n))"

lemma row_at:
  assumes r: "df_repr vals wr rws d" and i: "i < length rws"
  defines "ids \<equiv> map fst (rws ! i)" and "ps \<equiv> map snd (rws ! i)"
  shows "\<not> (of_nat i :: u32) \<ge> df_size d"
    "\<exists>rows. df_rows d = Some rows \<and> fetch rows (uint (of_nat i :: u32)) = Some (Some (row_bytes ids ps))"
    "length ids = length ps" "length ids \<le> 255" "sorted_wrt (<) ids"
proof -
  have rw: "rows_repr rws d" and "row_ok d vals (rws ! i)" using r i by (simp_all add: df_repr_def)
  then show "length ids = length ps" "length ids \<le> 255" "sorted_wrt (<) ids" by (simp_all add: ids_def ps_def row_ok_def)
  obtain rows where rows: "unat (df_size d) = length rws" "df_rows d = Some rows" "length rws \<le> length rows"
    "rows ! i = Some (row_bytes ids ps)"
    using rw i by (auto simp: rows_repr_def ids_def ps_def)
  have u: "unat (of_nat i :: u32) = i" using i rows(1) u32_bound [of "df_size d"] by (simp add: unat_of_nat32)
  then show "\<not> (of_nat i :: u32) \<ge> df_size d" using i rows(1) by (simp add: word_le_nat_alt)
  show "\<exists>rows. df_rows d = Some rows \<and> fetch rows (uint (of_nat i :: u32)) = Some (Some (row_bytes ids ps))"
    using rows i u by (auto simp: fetch_def uint_nat)
qed

lemma DF_Get_missing:
  assumes r: "df_repr vals wr rws d" and i: "i < length rws" and n: "doc_of d vals (rws ! i) (fd_name f) = None"
  shows "DF_Get g (of_nat i) f d =
    Some (if DF_ContainField (fd_name f) d then (-4, f\<lparr>fd_type := df_type (fd_name f) d\<rparr>, d) else (-3, f, d))"
proof -
  let ?ids = "map fst (rws ! i)" and ?ps = "map snd (rws ! i)"
  obtain rows where rows: "df_rows d = Some rows" "fetch rows (uint (of_nat i :: u32)) = Some (Some (row_bytes ?ids ?ps))"
    using row_at(2) [OF r i] by blast
  note parts = row_bytes_parts [OF row_at(3,4) [OF r i]]
  show ?thesis
  proof (cases "map_of (df_name2id d) (fd_name f)")
    case None
    then show ?thesis using rows row_at(1) [OF r i] parts(1) by (simp add: DF_Get_def DF_ContainField_def)
  next
    case (Some fid)
    then have "fid \<notin> set ?ids" using n by (auto simp: doc_of_def map_of_eq_None_iff)
    then obtain q where "DF_Find fid (drop 1 (row_bytes ?ids ?ps)) (length ?ids) = Some q" "q < 0"
      using DF_Find_ok [OF row_at(5) [OF r i], of fid "concat (map le32 ?ps)"] parts(3) by auto
    then show ?thesis using Some rows row_at(1) [OF r i] parts(1,2) by (simp add: DF_Get_def DF_ContainField_def Let_def)
  qed
qed

lemma DF_Get_ok:
  assumes r: "df_repr vals wr rws d" and w: "settled vals wr" and i: "i < length rws"
    and v: "doc_of d vals (rws ! i) (fd_name f) = Some v"
  defines "t \<equiv> df_type (fd_name f) d"
  shows "\<exists>d'. DF_Get g (of_nat i) f d = Some (0, any_fill t v (f\<lparr>fd_type := t\<rparr>), d') \<and> df_repr vals wr rws d' \<and> same_schema d d'"
proof -
  let ?ids = "map fst (rws ! i)" and ?ps = "map snd (rws ! i)" and ?n = "fd_name f"
  obtain rows where rows: "df_rows d = Some rows" "fetch rows (uint (of_nat i :: u32)) = Some (Some (row_bytes ?ids ?ps))"
    using row_at(2) [OF r i] by blast
  note parts = row_bytes_parts [OF row_at(3,4) [OF r i]]
  obtain fid p where fid: "map_of (df_name2id d) ?n = Some fid" "map_of (rws ! i) fid = Some p" "v = vals ?n ! unat p"
    using v by (auto simp: doc_of_def split: option.splits)
  have df: "schema_ok d" "cols_ok vals wr d" "rows_repr rws d" "\<forall>row \<in> set rws. row_ok d vals row"
    using r by (simp_all add: df_repr_def)
  have "?n \<in> dom (map_of (df_name2type d))" using df(1) fid(1) by (auto simp: schema_ok_def)
  then have t: "map_of (df_name2type d) ?n = Some t" by (auto simp: t_def df_type_def)
  have p: "unat p < length (vals ?n)" using df(4) i fid map_of_SomeD [OF fid(2)] by (fastforce simp: row_ok_def)
  then have k: "col_kind t \<noteq> KNone" using df(2) t unfolding cols_ok_def by (metis list.size(3) not_less0)
  then obtain c where c: "map_of (df_cols (col_kind t) d) ?n = Some c" "any_repr t (vals ?n) (wr ?n) c"
    using cols_okD [OF df(2) t] by blast
  have "fid \<in> set ?ids" using map_of_SomeD [OF fid(2)] by force
  then obtain q where q: "DF_Find fid (drop 1 (row_bytes ?ids ?ps)) (length ?ids) = Some q" "0 \<le> q" "nat q < length ?ids" "?ids ! nat q = fid"
    using DF_Find_ok [OF row_at(5) [OF r i], of fid "concat (map le32 ?ps)"] parts(3) by auto
  have "distinct (map fst (rws ! i))" using row_at(5) [OF r i] by (simp add: strict_sorted_iff)
  moreover have "(fid, snd (rws ! i ! nat q)) \<in> set (rws ! i)" using q(3,4) by (metis length_map nth_map nth_mem prod.collapse)
  ultimately have sn: "?ps ! nat q = p" using fid(2) q(3) by (simp add: map_of_is_SomeI)
  have m: "mem_slice (row_bytes ?ids ?ps) (1 + length ?ids + 4 * nat q) 4 = Some (le32 p)" using parts(4) [OF q(3)] sn by simp
  have "unat p < wr ?n" using p w by (simp add: settled_def)
  from anyc.get_ok [OF c(2) this, of g "f\<lparr>fd_type := t\<rparr>"]
  obtain c' where c': "col_get (col_kind t) g p (f\<lparr>fd_type := t\<rparr>) c = Some (0, any_fill t v (f\<lparr>fd_type := t\<rparr>), c')"
    "any_repr t (vals ?n) (wr ?n) c'"
    by (auto simp: fid(3))
  let ?d = "set_col (col_kind t) ?n c' d"
  have "DF_Get g (of_nat i) f d = Some (0, any_fill t v (f\<lparr>fd_type := t\<rparr>), ?d)"
    using rows row_at(1) [OF r i] parts(1,2) fid(1) q(1,2) m c(1) c'(1) k by (simp add: DF_Get_def Let_def flip: t_def)
  moreover have ss: "same_schema d ?d" and fr: "df_rows ?d = df_rows d" "df_size ?d = df_size d" "df_capacity ?d = df_capacity d"
    by (simp_all add: set_col_frame)
  moreover have "cols_ok vals wr ?d" using set_col_ok [OF df(2) t k c'(2)] by simp
  then have "df_repr vals wr rws ?d"
    using df fr by (simp add: df_repr_def rows_repr_def same_schema_simps [OF ss])
  ultimately show ?thesis by blast
qed

text \<open>All fields of a document: those that have a value, in the order of the names.\<close>

definition shown :: "docfields \<Rightarrow> byte list \<Rightarrow> fval \<Rightarrow> doc_field" where
  "shown d n v = any_fill (df_type n d) v \<lparr>fd_name = n, fd_value = [], fd_source = [], fd_type = df_type n d, fd_mul = []\<rparr>"

definition listed :: "docfields \<Rightarrow> (byte list \<rightharpoonup> fval) \<Rightarrow> byte list list \<Rightarrow> doc_field list" where
  "listed d doc names = concat (map (\<lambda>n. case doc n of None \<Rightarrow> [] | Some v \<Rightarrow> [shown d n v]) names)"

lemma listed_Nil [simp]: "listed d doc [] = []"
  by (simp add: listed_def)

lemma listed_Cons: "listed d doc (n # names) = (case doc n of None \<Rightarrow> [] | Some v \<Rightarrow> [shown d n v]) @ listed d doc names"
  by (simp add: listed_def)

lemma get_fields_ok:
  "\<lbrakk>df_repr vals wr rws d; settled vals wr; i < length rws\<rbrakk> \<Longrightarrow>
    \<exists>d'. get_fields g (of_nat i) names d =
      Some (listed d (doc_of d vals (rws ! i)) names, d') \<and>
      df_repr vals wr rws d' \<and> same_schema d d'"
proof (induction names arbitrary: d)
  case Nil
  then show ?case by (simp add: same_schema_def)
next
  case (Cons n names)
  let ?f = "\<lparr>fd_name = n, fd_value = [], fd_source = [], fd_type = df_type n d, fd_mul = []\<rparr>"
  have "\<exists>r f d1. DF_Get g (of_nat i) ?f d = Some (r, f, d1) \<and> df_repr vals wr rws d1 \<and> same_schema d d1 \<and>
      (case doc_of d vals (rws ! i) n of None \<Rightarrow> r < 0 | Some v \<Rightarrow> r = 0 \<and> f = shown d n v)"
  proof (cases "doc_of d vals (rws ! i) n")
    case None
    then show ?thesis using DF_Get_missing [OF Cons.prems(1,3), of ?f g] Cons.prems(1)
      by (auto simp: same_schema_def split: if_splits)
  next
    case (Some v)
    then show ?thesis using DF_Get_ok [OF Cons.prems, of ?f v g] by (auto simp: shown_def)
  qed
  then obtain r f d1 where d1: "DF_Get g (of_nat i) ?f d = Some (r, f, d1)" "df_repr vals wr rws d1" "same_schema d d1"
    "case doc_of d vals (rws ! i) n of None \<Rightarrow> r < 0 | Some v \<Rightarrow> r = 0 \<and> f = shown d n v"
    by blast
  have "shown d1 = shown d" by (simp add: shown_def fun_eq_iff same_schema_simps [OF d1(3)])
  then have sh: "listed d1 = listed d" by (intro ext) (simp only: listed_def)
  show ?case using Cons.IH [OF d1(2) Cons.prems(2,3)] d1 same_schema_trans [OF d1(3)]
    by (auto simp: same_schema_simps [OF d1(3)] sh listed_Cons split: option.splits)
qed

lemma DF_GetAllFields_ok:
  assumes "df_repr vals wr rws d" "settled vals wr" "i < length rws"
  shows "\<exists>d'. DF_GetAllFields g (of_nat i) d =
      Some (0, listed d (doc_of d vals (rws ! i)) (map fst (df_name2id d)), d') \<and>
      df_repr vals wr rws d' \<and> same_schema d d'"
  using get_fields_ok [OF assms, of g "map fst (df_name2id d)"] by (auto simp: DF_GetAllFields_def)

subsection \<open>The writer threads\<close>

text \<open>Every column's writer thread empties its queue.\<close>

definition drain_all :: "docfields \<Rightarrow> docfields" where
  "drain_all d = (let dr = map (\<lambda>(n, c). (n, drain c)) in d\<lparr>df_fixed := dr (df_fixed d), df_str := dr (df_str d), df_mul := dr (df_mul d)\<rparr>)"

lemma drain_all_ok:
  assumes "df_repr vals wr rws d"
  shows "df_repr vals (\<lambda>n. length (vals n)) rws (drain_all d)" "same_schema d (drain_all d)"
proof -
  show ss: "same_schema d (drain_all d)" by (simp add: drain_all_def same_schema_def Let_def)
  have cols: "map_of (df_cols k (drain_all d)) n = map_option drain (map_of (df_cols k d) n)" for k n
    by (cases k) (simp_all add: drain_all_def Let_def map_of_map)
  have "cols_ok vals (\<lambda>n. length (vals n)) (drain_all d)"
    unfolding cols_ok_def
  proof (intro allI impI)
    fix n t assume "map_of (df_name2type (drain_all d)) n = Some t"
    then have t: "map_of (df_name2type d) n = Some t" using ss by (simp add: same_schema_def)
    have c: "cols_ok vals wr d" using assms by (simp add: df_repr_def)
    show "if col_kind t = KNone then vals n = []
       else \<exists>c. map_of (df_cols (col_kind t) (drain_all d)) n = Some c \<and> any_repr t (vals n) (length (vals n)) c"
    proof (cases "col_kind t = KNone")
      case True
      then show ?thesis using c t by (simp add: cols_ok_def)
    next
      case False
      then show ?thesis using cols_okD [OF c t False] drain_ok by (auto simp: cols)
    qed
  qed
  moreover have "df_rows (drain_all d) = df_rows d" "df_size (drain_all d) = df_size d" "df_capacity (drain_all d) = df_capacity d"
    by (simp_all add: drain_all_def Let_def)
  ultimately show "df_repr vals (\<lambda>n. length (vals n)) rws (drain_all d)"
    using assms by (simp add: df_repr_def rows_repr_def same_schema_simps [OF ss])
qed

subsection \<open>New fields\<close>

text \<open>A new field with an id of its own changes no document.\<close>

lemma col_init_empty_set:
  assumes "col_kind t \<noteq> KNone"
  obtains c where "col_init t empty_folder new_column = (True, c)" "any_repr t [] 0 c"
  using any_init_empty [OF assms] by blast

lemma DF_AddField_ok:
  assumes r: "df_repr vals wr rws d" and n: "\<not> DF_ContainField (fi_name fi) d" and fid: "fid \<notin> ran (map_of (df_name2id d))"
    and fo: "folders (fi_name fi) = None"
    and new: "vals (fi_name fi) = []" "wr (fi_name fi) = 0" "\<forall>row \<in> set rws. fid \<notin> fst ` set row"
  shows "\<exists>d'. DF_AddField folders fi fid d = (int (unat fid), d') \<and> df_repr vals wr rws d' \<and>
    map_of (df_name2id d') = (map_of (df_name2id d))(fi_name fi \<mapsto> fid) \<and>
    map_of (df_name2type d') = (map_of (df_name2type d))(fi_name fi \<mapsto> fi_type fi) \<and> df_capacity d' = df_capacity d \<and>
    map (doc_of d' vals) rws = map (doc_of d vals) rws"
proof -
  let ?n = "fi_name fi" and ?t = "fi_type fi"
  let ?d1 = "d\<lparr>df_name2id := om_put ?n fid (df_name2id d), df_id2name := om_put fid ?n (df_id2name d),
     df_name2type := om_put ?n ?t (df_name2type d), df_index := om_put ?n (fi_index fi) (df_index d), df_nfields := df_nfields d + 1\<rparr>"
  have df: "schema_ok d" "cols_ok vals wr d" "rows_repr rws d" "\<forall>row \<in> set rws. row_ok d vals row"
    using r by (simp_all add: df_repr_def)
  have n0: "map_of (df_name2id d) ?n = None" using n by (simp add: DF_ContainField_def)
  have "schema_ok ?d1"
    using df(1) fid n0 by (auto simp: schema_ok_def map_of_put inj_on_def ran_def dom_def)
  moreover have c1: "df_cols k ?d1 = df_cols k d" for k by (cases k) simp_all
  have rows1: "rows_repr rws ?d1" using df(3) by (simp add: rows_repr_def)
  have row1: "\<forall>row \<in> set rws. row_ok ?d1 vals row"
  proof
    fix row assume row: "row \<in> set rws"
    then have "(fid, p) \<notin> set row" for p using new(3) by force
    then show "row_ok ?d1 vals row" using df(4) row by (auto simp: row_ok_def map_of_put split: if_splits)
  qed
  have doc1: "map (doc_of ?d1 vals) rws = map (doc_of d vals) rws"
  proof (intro map_cong refl ext)
    fix row m assume "row \<in> set rws"
    then have "map_of row fid = None" using new(3) by (simp add: map_of_eq_None_iff)
    then show "doc_of ?d1 vals row m = doc_of d vals row m"
      by (cases "m = ?n") (simp_all add: doc_of_def map_of_put n0 del: fun_upd_apply, simp_all add: n0)
  qed
  show ?thesis
  proof (cases "col_kind ?t = KNone")
    case True
    have "cols_ok vals wr ?d1" using df(2) True new(1) by (auto simp: cols_ok_def c1 map_of_put)
    moreover have "DF_AddField folders fi fid d = (int (unat fid), ?d1)" using n0 True by (simp add: DF_AddField_def Let_def)
    ultimately show ?thesis using \<open>schema_ok ?d1\<close> rows1 row1 doc1 by (auto simp: df_repr_def map_of_put)
  next
    case False
    obtain c where c: "col_init ?t empty_folder new_column = (True, c)" "any_repr ?t [] 0 c" by (rule col_init_empty_set [OF False])
    let ?d2 = "set_col (col_kind ?t) ?n c ?d1"
    have ss: "same_schema ?d1 ?d2" and fr: "df_rows ?d2 = df_rows d" "df_size ?d2 = df_size d" "df_capacity ?d2 = df_capacity d"
      using set_col_frame [where d = ?d1 and k = "col_kind ?t" and name = ?n and c = c] by simp_all
    have "cols_ok vals wr ?d2"
      using df(2) False new(1,2) c(2) ss by (auto simp: cols_ok_def c1 map_of_put set_col_get same_schema_def)
    moreover have "DF_AddField folders fi fid d = (int (unat fid), ?d2)"
      using n0 False c(1) fo by (cases "col_kind ?t") (simp_all add: DF_AddField_def Let_def)
    moreover have "df_repr vals wr rws ?d2"
      using calculation(1) \<open>schema_ok ?d1\<close> rows1 row1 fr by (simp add: df_repr_def same_schema_simps [OF ss] rows_repr_def)
    moreover have "map_of (df_name2id ?d2) = (map_of (df_name2id d))(?n \<mapsto> fid)"
      "map_of (df_name2type ?d2) = (map_of (df_name2type d))(?n \<mapsto> ?t)"
      using ss by (simp_all add: same_schema_def map_of_put)
    moreover have "map (doc_of ?d2 vals) rws = map (doc_of d vals) rws" using doc1 by (simp add: same_schema_simps [OF ss])
    ultimately show ?thesis using fr(3) by blast
  qed
qed

end
