(* ===== verification/DocDump.thy ===== *)
theory DocDump
  imports DocRows
begin

text \<open>
  The file of the document fields manager: \<open>Dump\<close>, \<open>Load\<close> and \<open>Init\<close>. A dump is written from its
  start; a failing one leaves what was written so far. A short read, which leaves a variable without
  a value, is \<open>None\<close>. The folders that \<open>AddField\<close> makes are the parameter \<open>folders\<close>.
\<close>

fun type_byte :: "data_type \<Rightarrow> byte" where
  "type_byte data_type.INT = 0"
| "type_byte data_type.LONG = 1"
| "type_byte data_type.FLOAT = 2"
| "type_byte data_type.DOUBLE = 3"
| "type_byte STRING = 4"
| "type_byte VECTOR = 5"
| "type_byte MULTI_STRING = 6"

definition byte_type :: "byte \<Rightarrow> data_type" where
  "byte_type b = (if b = 0 then data_type.INT else if b = 1 then data_type.LONG else if b = 2 then data_type.FLOAT
     else if b = 3 then data_type.DOUBLE else if b = 4 then STRING else if b = 5 then VECTOR
     else if b = 6 then MULTI_STRING else data_type.INT)"

subsection \<open>Dumping\<close>

definition dump_field :: "docfields \<Rightarrow> byte \<Rightarrow> byte list \<Rightarrow> byte list option" where
  "dump_field d fid name = (case (map_of (df_name2type d) name, map_of (df_index d) name) of
     (Some t, Some is_index) \<Rightarrow>
       (let len = of_nat (length name) :: byte
        in Some (len # take (unat len) name @ [fid, type_byte t, if is_index then 1 else 0]))
   | _ \<Rightarrow> None)"

fun dump_fields :: "docfields \<Rightarrow> (byte \<times> byte list) list \<Rightarrow> bool \<times> byte list" where
  "dump_fields d [] = (True, [])"
| "dump_fields d ((fid, name) # fs) = (case dump_field d fid name of
     None \<Rightarrow> (False, [])
   | Some bs \<Rightarrow> (case dump_fields d fs of (ok, bs') \<Rightarrow> (ok, bs @ bs')))"

text \<open>The lengths of the rows, \<open>Some None\<close> when one is missing.\<close>

fun row_infos :: "byte list option list \<Rightarrow> nat list option option" where
  "row_infos [] = Some (Some [])"
| "row_infos (None # rows) = Some None"
| "row_infos (Some row # rows) = do {
     n \<leftarrow> fetch row 0;
     r \<leftarrow> row_infos rows;
     Some (map_option (\<lambda>infos. unat n * 5 # infos) r) }"

fun row_tails :: "byte list option list \<Rightarrow> nat list \<Rightarrow> byte list option" where
  "row_tails (Some row # rows) (n # ns) = do { t \<leftarrow> mem_slice row 1 n; ts \<leftarrow> row_tails rows ns; Some (t @ ts) }"
| "row_tails [] [] = Some []"
| "row_tails _ _ = None"

definition DF_Dump :: "docfields \<Rightarrow> (bool \<times> byte list option \<times> docfields) option" where
  "DF_Dump d =
     (if df_capacity d < df_size d then Some (False, None, d)
      else if unat (df_nfields d) \<noteq> length (df_id2name d) then Some (False, None, d)
      else let d1 = d\<lparr>df_flushed := df_size d\<rparr>;
               head = le32 (df_capacity d) @ le32 (df_size d) @ [df_nfields d]
           in case dump_fields d (df_id2name d) of
                (False, bs) \<Rightarrow> Some (False, Some (head @ bs), d1)
              | (True, bs) \<Rightarrow> do {
                  rows \<leftarrow> df_rows d;
                  rows \<leftarrow> mem_slice rows 0 (unat (df_size d));
                  infos \<leftarrow> row_infos rows;
                  (case infos of
                     None \<Rightarrow> Some (False, Some (head @ bs), d1)
                   | Some ns \<Rightarrow> do {
                       tails \<leftarrow> row_tails rows ns;
                       Some (True, Some (head @ bs @ concat (map (\<lambda>n. le32 (of_nat n)) ns) @ tails), d1) }) })"

text \<open>One round of the loop of \<open>Flush\<close>.\<close>

definition DF_Flush :: "docfields \<Rightarrow> (byte list option \<times> docfields) option" where
  "DF_Flush d = (if df_flushed d < df_size d then do { (ok, bs, d') \<leftarrow> DF_Dump d; Some (bs, d') } else Some (None, d))"

subsection \<open>Loading\<close>

definition fread :: "nat \<Rightarrow> byte list \<Rightarrow> (byte list \<times> byte list) option" where
  "fread n bs = (if n \<le> length bs then Some (take n bs, drop n bs) else None)"

definition register :: "byte \<Rightarrow> byte list \<Rightarrow> data_type \<Rightarrow> bool \<Rightarrow> docfields \<Rightarrow> docfields" where
  "register fid name t is_index d =
     d\<lparr>df_id2name := om_put fid name (df_id2name d), df_name2id := om_put name fid (df_name2id d),
       df_name2type := om_put name t (df_name2type d), df_index := om_put name is_index (df_index d)\<rparr>"

text \<open>The fields: the rest of the file, or \<open>None\<close> for it after the failing \<open>Init\<close> of a column.\<close>

fun load_fields :: "(byte list \<Rightarrow> folder option) \<Rightarrow> nat \<Rightarrow> byte list \<Rightarrow> docfields \<Rightarrow> (byte list option \<times> docfields) option" where
  "load_fields folders 0 bs d = Some (Some bs, d)"
| "load_fields folders (Suc n) bs d = do {
     (l, bs) \<leftarrow> fread 1 bs;
     (name, bs) \<leftarrow> fread (unat (hd l)) bs;
     (fid, bs) \<leftarrow> fread 1 bs;
     (ty, bs) \<leftarrow> fread 1 bs;
     (ix, bs) \<leftarrow> fread 1 bs;
     let t = byte_type (hd ty);
     let reg = register (hd fid) name t (hd ix = 1);
     (if col_kind t = KNone then load_fields folders n bs (reg d)
      else case folders name of
             None \<Rightarrow> load_fields folders n bs d
           | Some fo \<Rightarrow> (case col_init t fo new_column of
               (ok, c) \<Rightarrow> if \<not> ok then Some (None, d) else load_fields folders n bs (reg (set_col (col_kind t) name c d)))) }"

fun load_infos :: "nat \<Rightarrow> byte list \<Rightarrow> (u32 list \<times> byte list) option" where
  "load_infos 0 bs = Some ([], bs)"
| "load_infos (Suc n) bs = do { (w, bs) \<leftarrow> fread 4 bs; (ws, bs) \<leftarrow> load_infos n bs; Some (of_le32 w # ws, bs) }"

fun load_rows :: "u32 list \<Rightarrow> byte list \<Rightarrow> byte list option list option" where
  "load_rows [] bs = Some []"
| "load_rows (w # ws) bs = do {
     (row, bs) \<leftarrow> fread (unat w) bs;
     rows \<leftarrow> load_rows ws bs;
     Some (Some (of_nat (unat w div 5) # row) # rows) }"

text \<open>The result -1, -2 or -3 of a failing column is \<open>true\<close> as a \<open>bool\<close>.\<close>

definition DF_Load :: "(byte list \<Rightarrow> folder option) \<Rightarrow> byte list \<Rightarrow> docfields \<Rightarrow> (bool \<times> docfields) option" where
  "DF_Load folders bs d = do {
     (cap, bs) \<leftarrow> fread 4 bs;
     (sz, bs) \<leftarrow> fread 4 bs;
     (nf, bs) \<leftarrow> fread 1 bs;
     (rest, d1) \<leftarrow> load_fields folders (unat (hd nf)) bs
        (d\<lparr>df_capacity := of_le32 cap, df_size := of_le32 sz, df_nfields := hd nf\<rparr>);
     (case rest of
        None \<Rightarrow> Some (True, d1)
      | Some bs \<Rightarrow> do {
          (infos, bs) \<leftarrow> load_infos (unat (df_size d1)) bs;
          rows \<leftarrow> load_rows (take (unat (df_capacity d1)) infos) bs;
          Some (True, d1\<lparr>df_rows := Some (rows @ replicate (unat (df_capacity d1) - length rows) None)\<rparr>) }) }"

text \<open>\<open>Init\<close> with the file, if there is one; the thread that flushes starts in any case.\<close>

definition DF_Init :: "(byte list \<Rightarrow> folder option) \<Rightarrow> byte list option \<Rightarrow> u32 \<Rightarrow> docfields \<Rightarrow> (bool \<times> docfields) option" where
  "DF_Init folders persist_file block_docs_num d =
     (let d1 = d\<lparr>df_block_docs := block_docs_num\<rparr> in
      case persist_file of
        Some bs \<Rightarrow> do {
          (ret, d2) \<leftarrow> DF_Load folders bs d1;
          Some (if ret then True else df_rows d2 \<noteq> None, d2) }
      | None \<Rightarrow> Some (True, d1\<lparr>df_rows := Some (replicate (unat block_docs_num) None), df_capacity := block_docs_num\<rparr>))"

subsection \<open>The parts of a dump are read back\<close>

lemma fread_app: "length xs = n \<Longrightarrow> fread n (xs @ ys) = Some (xs, ys)"
  by (simp add: fread_def)

lemma fread_1 [simp]: "fread 1 (x # ys) = Some ([x], ys)" "fread (Suc 0) (x # ys) = Some ([x], ys)"
  by (simp_all add: fread_def)

lemma byte_type_byte [simp]: "byte_type (type_byte t) = t"
  by (cases t) (simp_all add: byte_type_def)

lemma load_infos_ok:
  "\<forall>n \<in> set ns. n < 4294967296 \<Longrightarrow>
    load_infos (length ns) (concat (map (\<lambda>n. le32 (of_nat n)) ns) @ bs) = Some (map of_nat ns, bs)"
  by (induction ns) (auto simp: fread_app)

text \<open>Rows as \<open>Put\<close> writes them.\<close>

definition good_row :: "byte list \<Rightarrow> bool" where
  "good_row row \<longleftrightarrow> row \<noteq> [] \<and> length row = 1 + 5 * unat (hd row)"

lemma row_bytes_good: "\<lbrakk>length ids = length ps; length ids \<le> 255\<rbrakk> \<Longrightarrow> good_row (row_bytes ids ps)"
  by (simp add: good_row_def row_bytes_def Let_def unat_of_nat8)

lemma good_rows_dump:
  "\<forall>row \<in> set rows. good_row row \<Longrightarrow>
    row_infos (map Some rows) = Some (Some (map (\<lambda>row. unat (hd row) * 5) rows)) \<and>
    row_tails (map Some rows) (map (\<lambda>row. unat (hd row) * 5) rows) = Some (concat (map tl rows))"
proof (induction rows)
  case (Cons row rows)
  have row: "row \<noteq> []" "length row = 1 + 5 * unat (hd row)" using Cons.prems by (simp_all add: good_row_def)
  have "fetch row 0 = Some (hd row)" using row(1) by (simp add: fetch_def hd_conv_nth)
  moreover have "mem_slice row 1 (unat (hd row) * 5) = Some (tl row)" using row(2) by (simp add: mem_slice_Some drop_Suc)
  moreover have "row_infos (map Some rows) = Some (Some (map (\<lambda>row. unat (hd row) * 5) rows))"
    "row_tails (map Some rows) (map (\<lambda>row. unat (hd row) * 5) rows) = Some (concat (map tl rows))"
    using Cons by simp_all
  ultimately show ?case by simp
qed simp

lemma load_rows_ok:
  "\<forall>row \<in> set rows. good_row row \<Longrightarrow>
    load_rows (map (\<lambda>row. of_nat (unat (hd row) * 5)) rows) (concat (map tl rows)) = Some (map Some rows)"
proof (induction rows)
  case (Cons row rows)
  obtain b t where row: "row = b # t" "length t = unat b * 5" using Cons.prems by (cases row) (auto simp: good_row_def)
  have "unat b * 5 < 4294967296" using unsigned_less [of b, where 'a = nat] by simp
  then have u: "unat (of_nat (unat b * 5) :: u32) = unat b * 5" by (rule unat_of_nat32)
  have IH: "load_rows (map (\<lambda>row. of_nat (unat (hd row) * 5)) rows) (concat (map tl rows)) = Some (map Some rows)"
    using Cons by simp
  have b: "of_nat (unat b * 5 div 5) = b" by simp
  show ?case unfolding list.map concat.simps load_rows.simps row(1) list.sel u
    using IH by (simp add: fread_app row(2) b)
qed simp

subsection \<open>Schemas\<close>

text \<open>The four maps of the schema as \<open>AddField\<close> keeps them while every field has an id of its own.\<close>

definition schema_full :: "docfields \<Rightarrow> bool" where
  "schema_full d \<longleftrightarrow> om_ok (df_name2id d) \<and> om_ok (df_id2name d) \<and> om_ok (df_name2type d) \<and> om_ok (df_index d) \<and>
     (\<forall>fid n. map_of (df_id2name d) fid = Some n \<longleftrightarrow> map_of (df_name2id d) n = Some fid) \<and>
     dom (map_of (df_name2type d)) = dom (map_of (df_name2id d)) \<and> dom (map_of (df_index d)) = dom (map_of (df_name2id d)) \<and>
     unat (df_nfields d) = length (df_id2name d) \<and> (\<forall>n \<in> dom (map_of (df_name2id d)). length n \<le> 255)"

text \<open>What loading a field does.\<close>

definition loaded_col :: "(byte list \<Rightarrow> folder option) \<Rightarrow> docfields \<Rightarrow> byte list \<Rightarrow> column" where
  "loaded_col folders d name = snd (col_init (df_type name d) (the (folders name)) new_column)"

definition load_one :: "(byte list \<Rightarrow> folder option) \<Rightarrow> docfields \<Rightarrow> docfields \<Rightarrow> byte \<times> byte list \<Rightarrow> docfields" where
  "load_one folders d d0 x = (let name = snd x; t = df_type name d in
     register (fst x) name t (the (map_of (df_index d) name))
       (if col_kind t = KNone then d0 else set_col (col_kind t) name (loaded_col folders d name) d0))"

lemma register_simps [simp]:
  "df_id2name (register fid name t b d) = om_put fid name (df_id2name d)" "df_name2id (register fid name t b d) = om_put name fid (df_name2id d)"
  "df_name2type (register fid name t b d) = om_put name t (df_name2type d)" "df_index (register fid name t b d) = om_put name b (df_index d)"
  "df_rows (register fid name t b d) = df_rows d" "df_size (register fid name t b d) = df_size d"
  "df_capacity (register fid name t b d) = df_capacity d" "df_nfields (register fid name t b d) = df_nfields d"
  "df_cols k (register fid name t b d) = df_cols k d"
  by (simp_all add: register_def) (cases k; simp)

lemma set_col_schema [simp]:
  "df_id2name (set_col k n c d) = df_id2name d" "df_name2id (set_col k n c d) = df_name2id d" "df_name2type (set_col k n c d) = df_name2type d"
  "df_index (set_col k n c d) = df_index d" "df_nfields (set_col k n c d) = df_nfields d"
  "df_rows (set_col k n c d) = df_rows d" "df_size (set_col k n c d) = df_size d" "df_capacity (set_col k n c d) = df_capacity d"
  by (cases k; simp)+

lemma load_one_simps [simp]:
  "df_id2name (load_one F d d0 x) = om_put (fst x) (snd x) (df_id2name d0)"
  "df_name2id (load_one F d d0 x) = om_put (snd x) (fst x) (df_name2id d0)"
  "df_name2type (load_one F d d0 x) = om_put (snd x) (df_type (snd x) d) (df_name2type d0)"
  "df_index (load_one F d d0 x) = om_put (snd x) (the (map_of (df_index d) (snd x))) (df_index d0)"
  "df_rows (load_one F d d0 x) = df_rows d0" "df_size (load_one F d d0 x) = df_size d0"
  "df_capacity (load_one F d d0 x) = df_capacity d0" "df_nfields (load_one F d d0 x) = df_nfields d0"
  by (simp_all add: load_one_def Let_def)

lemma load_one_col:
  "map_of (df_cols k (load_one F d d0 x)) n =
    (if n = snd x \<and> k = col_kind (df_type n d) \<and> k \<noteq> KNone then Some (loaded_col F d n) else map_of (df_cols k d0) n)"
  by (auto simp: load_one_def Let_def set_col_get)

lemma fold_load_simps:
  "df_id2name (foldl (load_one F d) d0 fs) = foldl (\<lambda>m (k, v). om_put k v m) (df_id2name d0) fs"
  "df_name2id (foldl (load_one F d) d0 fs) = foldl (\<lambda>m x. om_put (snd x) (fst x) m) (df_name2id d0) fs"
  "df_name2type (foldl (load_one F d) d0 fs) = foldl (\<lambda>m x. om_put (snd x) (df_type (snd x) d) m) (df_name2type d0) fs"
  "df_index (foldl (load_one F d) d0 fs) = foldl (\<lambda>m x. om_put (snd x) (the (map_of (df_index d) (snd x))) m) (df_index d0) fs"
  "df_rows (foldl (load_one F d) d0 fs) = df_rows d0" "df_size (foldl (load_one F d) d0 fs) = df_size d0"
  "df_capacity (foldl (load_one F d) d0 fs) = df_capacity d0" "df_nfields (foldl (load_one F d) d0 fs) = df_nfields d0"
  by (induction fs arbitrary: d0) (simp_all add: case_prod_beta)

lemma fold_load_col:
  "\<lbrakk>n \<in> snd ` set fs; col_kind (df_type n d) \<noteq> KNone\<rbrakk> \<Longrightarrow>
    map_of (df_cols (col_kind (df_type n d)) (foldl (load_one F d) d0 fs)) n = Some (loaded_col F d n)"
proof (induction fs rule: rev_induct)
  case (snoc x fs)
  then show ?case by (cases "n = snd x") (simp_all add: load_one_col)
qed simp

subsection \<open>Dumping and loading\<close>

text \<open>Folders whose columns hold the values.\<close>

definition folders_hold :: "(byte list \<Rightarrow> folder option) \<Rightarrow> docfields \<Rightarrow> (byte list \<Rightarrow> fval list) \<Rightarrow> (byte list \<Rightarrow> nat) \<Rightarrow> bool" where
  "folders_hold folders d vals wr \<longleftrightarrow> (\<forall>n t. map_of (df_name2type d) n = Some t \<longrightarrow> col_kind t \<noteq> KNone \<longrightarrow>
     (\<exists>fo c. folders n = Some fo \<and> col_init t fo new_column = (True, c) \<and> any_repr t (vals n) (wr n) c))"

lemma load_fields_ok:
  assumes h: "folders_hold folders d vals wr" and s: "schema_full d" and fs: "set fs \<subseteq> set (df_id2name d)"
  shows "\<exists>bs. dump_fields d fs = (True, bs) \<and>
    (\<forall>d0. load_fields folders (length fs) (bs @ rest) d0 = Some (Some rest, foldl (load_one folders d) d0 fs))"
  using fs
proof (induction fs)
  case (Cons x fs)
  obtain fid name where x: "x = (fid, name)" by (cases x)
  have n: "map_of (df_name2id d) name = Some fid" using Cons.prems s x om_get [of "df_id2name d" fid name] by (simp add: schema_full_def)
  then have dm: "name \<in> dom (map_of (df_name2type d))" "name \<in> dom (map_of (df_index d))" and len: "length name \<le> 255"
    using s by (auto simp: schema_full_def)
  then obtain t ix where t: "map_of (df_name2type d) name = Some t" "map_of (df_index d) name = Some ix" by blast
  have ty: "df_type name d = t" by (simp add: df_type_def t)
  let ?len = "of_nat (length name) :: byte"
  let ?bs = "?len # name @ [fid, type_byte t, if ix then 1 else 0]"
  have ul: "unat ?len = length name" using len by (rule unat_of_nat8)
  have df: "dump_field d fid name = Some ?bs" using t ul by (simp add: dump_field_def Let_def)
  obtain bs where bs: "dump_fields d fs = (True, bs)"
    "\<forall>d0. load_fields folders (length fs) (bs @ rest) d0 = Some (Some rest, foldl (load_one folders d) d0 fs)"
    using Cons.IH Cons.prems by auto
  have "load_fields folders (length (x # fs)) (?bs @ bs @ rest) d0 =
      load_fields folders (length fs) (bs @ rest) (load_one folders d d0 x)" for d0
  proof (cases "col_kind t = KNone")
    case True
    then show ?thesis by (simp add: ul fread_app x load_one_def ty t)
  next
    case False
    then obtain fo c where "folders name = Some fo" "col_init t fo new_column = (True, c)"
      using h t(1) False unfolding folders_hold_def by blast
    then show ?thesis using False by (simp add: ul fread_app x load_one_def ty t loaded_col_def)
  qed
  then show ?case using df bs by (simp add: x)
qed simp

lemma schema_loaded:
  fixes F :: "byte list \<Rightarrow> folder option"
  assumes s: "schema_full d" and e: "df_name2id d0 = []" "df_id2name d0 = []" "df_name2type d0 = []" "df_index d0 = []"
  defines "d1 \<equiv> foldl (load_one F d) d0 (df_id2name d)"
  shows "df_id2name d1 = df_id2name d" "df_name2id d1 = df_name2id d" "df_name2type d1 = df_name2type d" "df_index d1 = df_index d"
proof -
  let ?fs = "df_id2name d"
  have ok: "om_ok ?fs" "om_ok (df_name2id d)" "om_ok (df_name2type d)" "om_ok (df_index d)"
    and inv: "\<And>fid n. map_of ?fs fid = Some n \<longleftrightarrow> map_of (df_name2id d) n = Some fid"
    and dm: "dom (map_of (df_name2type d)) = dom (map_of (df_name2id d))" "dom (map_of (df_index d)) = dom (map_of (df_name2id d))"
    using s by (simp_all add: schema_full_def)
  show "df_id2name d1 = df_id2name d" using om_build [of "[]" ?fs] ok(1) by (simp add: d1_def fold_load_simps e)
  have mem: "(fid, n) \<in> set ?fs \<longleftrightarrow> map_of (df_name2id d) n = Some fid" for fid n using om_get [OF ok(1)] inv by blast
  have dist: "distinct (map snd ?fs)"
  proof -
    have "inj_on snd (set ?fs)" using mem by (auto simp: inj_on_def)
    then show ?thesis using om_distinct [OF ok(1)] by (simp add: distinct_map)
  qed
  have names: "n \<in> snd ` set ?fs \<longleftrightarrow> n \<in> dom (map_of (df_name2id d))" for n using mem by force
  have put: "foldl (\<lambda>m x. om_put (snd x) (g x) m) [] ?fs = m"
    if "om_ok m" "dom (map_of m) = dom (map_of (df_name2id d))" "\<And>fid n. (fid, n) \<in> set ?fs \<Longrightarrow> map_of m n = Some (g (fid, n))"
    for g :: "byte \<times> byte list \<Rightarrow> 'b" and m
  proof (rule om_eq [OF fold_put_ok that(1)])
    show "map_of (foldl (\<lambda>m x. om_put (snd x) (g x) m) [] ?fs) = map_of m"
    proof
      fix n
      show "map_of (foldl (\<lambda>m x. om_put (snd x) (g x) m) [] ?fs) n = map_of m n"
      proof (cases "n \<in> snd ` set ?fs")
        case True
        then obtain fid where "(fid, n) \<in> set ?fs" by auto
        then show ?thesis using fold_put_in [OF dist, of "(fid, n)" g "[]"] that(3) by simp
      next
        case False
        then have "n \<notin> dom (map_of m)" using names that(2) by blast
        then show ?thesis using fold_put_other [OF False, of g "[]"] by (simp add: domIff)
      qed
    qed
  qed simp
  show "df_name2id d1 = df_name2id d" unfolding d1_def fold_load_simps e by (rule put) (use ok mem in auto)
  show "df_name2type d1 = df_name2type d" unfolding d1_def fold_load_simps e
    by (rule put) (use ok dm mem in \<open>auto simp: df_type_def split: option.splits\<close>)
  have "map_of (df_index d) n = Some (the (map_of (df_index d) n))" if "(fid, n) \<in> set ?fs" for fid n
    using that mem dm(2) by (metis domD domI option.sel)
  then show "df_index d1 = df_index d" unfolding d1_def fold_load_simps e by (intro put) (use ok dm in simp_all)
qed

lemma df_repr_schema:
  assumes "df_repr vals wr rws d" "same_schema d d'" "cols_ok vals wr' d'" "rows_repr rws d'"
  shows "df_repr vals wr' rws d'" "map (doc_of d' vals) rws = map (doc_of d vals) rws"
  using assms(1,3,4) by (simp_all add: df_repr_def same_schema_simps [OF assms(2)])

lemma good_rows_repr:
  assumes r: "df_repr vals wr rws d"
  obtains rows where "df_rows d = Some rows" "length rows = unat (df_capacity d)" "length rws \<le> length rows" "unat (df_size d) = length rws"
    "take (length rws) rows = map Some (map (\<lambda>row. row_bytes (map fst row) (map snd row)) rws)"
    "\<forall>row \<in> set (map (\<lambda>row. row_bytes (map fst row) (map snd row)) rws). good_row row"
proof -
  have rw: "rows_repr rws d" and ro: "\<forall>row \<in> set rws. row_ok d vals row" using r by (simp_all add: df_repr_def)
  then obtain rows where rows: "unat (df_size d) = length rws" "df_rows d = Some rows" "length rows = unat (df_capacity d)"
    "length rws \<le> length rows" "\<forall>i < length rws. rows ! i = Some (row_bytes (map fst (rws ! i)) (map snd (rws ! i)))"
    by (auto simp: rows_repr_def)
  have "take (length rws) rows = map Some (map (\<lambda>row. row_bytes (map fst row) (map snd row)) rws)"
    using rows(4,5) by (intro nth_equalityI) simp_all
  moreover have "\<forall>row \<in> set (map (\<lambda>row. row_bytes (map fst row) (map snd row)) rws). good_row row"
    using ro by (auto simp: row_ok_def intro!: row_bytes_good)
  ultimately show thesis using that rows(1-4) by blast
qed

text \<open>A manager that is started on the dump of another one has the same fields and the same documents.\<close>

lemma DF_Dump_Init:
  assumes r: "df_repr vals wr rws d" and s: "schema_full d" and h: "folders_hold folders d vals wr'"
  shows "\<exists>bs d1 d2. DF_Dump d = Some (True, Some bs, d1) \<and> DF_Init folders (Some bs) N DF_new = Some (True, d2) \<and>
    df_repr vals wr' rws d2 \<and> same_schema d d2 \<and> map (doc_of d2 vals) rws = map (doc_of d vals) rws \<and>
    df_capacity d2 = df_capacity d \<and> schema_full d2"
proof -
  obtain rows where rows: "df_rows d = Some rows" "length rows = unat (df_capacity d)" "length rws \<le> length rows" "unat (df_size d) = length rws"
    "take (length rws) rows = map Some (map (\<lambda>row. row_bytes (map fst row) (map snd row)) rws)"
    "\<forall>row \<in> set (map (\<lambda>row. row_bytes (map fst row) (map snd row)) rws). good_row row"
    by (rule good_rows_repr [OF r])
  let ?rs = "map (\<lambda>row. row_bytes (map fst row) (map snd row)) rws"
  let ?ns = "map (\<lambda>row. unat (hd row) * 5) ?rs" and ?tails = "concat (map tl ?rs)"
  let ?infos = "concat (map (\<lambda>n. le32 (of_nat n)) ?ns)"
  let ?d0 = "DF_new\<lparr>df_block_docs := N, df_capacity := df_capacity d, df_size := df_size d, df_nfields := df_nfields d\<rparr>"
  let ?d1 = "foldl (load_one folders d) ?d0 (df_id2name d)"
  let ?d2 = "?d1\<lparr>df_rows := Some (map Some ?rs @ replicate (unat (df_capacity d) - length rws) None)\<rparr>"
  obtain bs where bs: "dump_fields d (df_id2name d) = (True, bs)"
    "load_fields folders (length (df_id2name d)) (bs @ ?infos @ ?tails) ?d0 = Some (Some (?infos @ ?tails), ?d1)"
    using load_fields_ok [OF h s subset_refl] by blast
  have cap: "\<not> df_capacity d < df_size d" using rows(2-4) by (simp add: word_less_nat_alt)
  have nf: "unat (df_nfields d) = length (df_id2name d)" using s by (simp add: schema_full_def)
  have sl: "mem_slice rows 0 (unat (df_size d)) = Some (map Some ?rs)" using rows(3-5) by (simp add: mem_slice_Some)
  note gr = good_rows_dump [OF rows(6)]
  let ?bs = "(le32 (df_capacity d) @ le32 (df_size d) @ [df_nfields d]) @ bs @ ?infos @ ?tails"
  have dump: "DF_Dump d = Some (True, Some ?bs, d\<lparr>df_flushed := df_size d\<rparr>)"
    unfolding DF_Dump_def Let_def bs(1) using cap nf sl gr by (simp add: rows(1))
  have small: "\<forall>n \<in> set ?ns. n < 4294967296"
  proof -
    have "unat (b :: byte) * 5 < 4294967296" for b using unsigned_less [of b, where 'a = nat] by simp
    then show ?thesis by auto
  qed
  have ls: "df_size ?d1 = df_size d" "df_capacity ?d1 = df_capacity d" "df_nfields ?d1 = df_nfields d" by (simp_all add: fold_load_simps)
  have li: "load_infos (length rws) (?infos @ ?tails) = Some (map of_nat ?ns, ?tails)" using load_infos_ok [OF small, of ?tails] by simp
  have lr: "load_rows (map of_nat ?ns) ?tails = Some (map Some ?rs)" using load_rows_ok [OF rows(6)] by (simp add: comp_def)
  have tk: "take (unat (df_capacity d)) (map of_nat ?ns :: u32 list) = map of_nat ?ns" using rows(2,3) by simp
  have d0: "DF_new\<lparr>df_block_docs := N\<rparr>\<lparr>df_capacity := df_capacity d, df_size := df_size d, df_nfields := df_nfields d\<rparr> = ?d0" by simp
  have "DF_Load folders ?bs (DF_new\<lparr>df_block_docs := N\<rparr>) = Some (True, ?d2)"
    using bs(2) li lr tk by (simp add: DF_Load_def fread_app nf ls rows(4))
  then have init: "DF_Init folders (Some ?bs) N DF_new = Some (True, ?d2)" by (simp add: DF_Init_def)
  note sch = schema_loaded [OF s, of ?d0 folders, simplified DF_new_def, simplified]
  have ss: "same_schema d ?d2" using sch ls(3) by (simp add: same_schema_def DF_new_def)
  have "cols_ok vals wr' ?d2"
    unfolding cols_ok_def
  proof (intro allI impI)
    fix n t assume "map_of (df_name2type ?d2) n = Some t"
    then have t: "map_of (df_name2type d) n = Some t" using ss by (simp add: same_schema_def)
    have ty: "df_type n d = t" by (simp add: df_type_def t)
    have "n \<in> dom (map_of (df_name2id d))" using t s by (auto simp: schema_full_def)
    then obtain fid where "map_of (df_name2id d) n = Some fid" by blast
    then have "map_of (df_id2name d) fid = Some n" using s by (simp add: schema_full_def)
    then have n: "n \<in> snd ` set (df_id2name d)" using map_of_SomeD by force
    have c: "df_cols k ?d2 = df_cols k ?d1" for k by (cases k) simp_all
    show "if col_kind t = KNone then vals n = []
       else \<exists>c. map_of (df_cols (col_kind t) ?d2) n = Some c \<and> any_repr t (vals n) (wr' n) c"
    proof (cases "col_kind t = KNone")
      case True
      then show ?thesis using r t by (simp add: df_repr_def cols_ok_def)
    next
      case False
      then obtain fo col where "folders n = Some fo" "col_init t fo new_column = (True, col)" "any_repr t (vals n) (wr' n) col"
        using h t unfolding folders_hold_def by blast
      moreover have "map_of (df_cols (col_kind t) ?d2) n = Some (loaded_col folders d n)"
        unfolding c using fold_load_col [OF n, of d folders ?d0] False by (simp add: ty)
      ultimately show ?thesis using False unfolding loaded_col_def ty by auto
    qed
  qed
  moreover have "rows_repr rws ?d2" using rows(2-4) ls by (simp add: rows_repr_def nth_append)
  ultimately have "df_repr vals wr' rws ?d2" "map (doc_of ?d2 vals) rws = map (doc_of d vals) rws"
    using df_repr_schema [OF r ss] by blast+
  moreover have "schema_full ?d2" using s ss by (simp add: schema_full_def same_schema_def)
  moreover have "df_capacity ?d2 = df_capacity d" using ls(2) by simp
  ultimately show ?thesis using dump init ss by blast
qed

subsection \<open>A new manager\<close>

definition fresh :: "u32 \<Rightarrow> docfields" where
  "fresh n = DF_new\<lparr>df_block_docs := n, df_rows := Some (replicate (unat n) None), df_capacity := n\<rparr>"

lemma DF_Init_fresh: "DF_Init folders None n DF_new = Some (True, fresh n)"
  by (simp add: DF_Init_def fresh_def Let_def DF_new_def)

lemma fresh_ok: "df_repr (\<lambda>n. []) (\<lambda>n. 0) [] (fresh n)" "schema_full (fresh n)"
  by (simp_all add: fresh_def DF_new_def df_repr_def schema_ok_def cols_ok_def rows_repr_def schema_full_def dom_def)

lemma schema_full_same: "\<lbrakk>schema_full d; same_schema d d'\<rbrakk> \<Longrightarrow> schema_full d'"
  by (simp add: schema_full_def same_schema_def)

lemma u8_succ: "unat (w :: byte) + 1 \<le> 255 \<Longrightarrow> unat (w + 1) = unat w + 1"
  using unat_of_nat8 [of "unat w + 1"] by (simp add: add.commute)

lemma DF_AddField_full:
  assumes s: "schema_full d" and n: "\<not> DF_ContainField (fi_name fi) d" and fid: "fid \<notin> ran (map_of (df_name2id d))"
    and len: "length (fi_name fi) \<le> 255" "length (df_id2name d) < 255"
    and add: "DF_AddField folders fi fid d = (int (unat fid), d')"
    and fo: "folders (fi_name fi) = None"
  shows "schema_full d'"
proof -
  let ?n = "fi_name fi" and ?t = "fi_type fi"
  let ?d1 = "d\<lparr>df_name2id := om_put ?n fid (df_name2id d), df_id2name := om_put fid ?n (df_id2name d),
     df_name2type := om_put ?n ?t (df_name2type d), df_index := om_put ?n (fi_index fi) (df_index d), df_nfields := df_nfields d + 1\<rparr>"
  have n0: "map_of (df_name2id d) ?n = None" using n by (simp add: DF_ContainField_def)
  have f0: "map_of (df_id2name d) fid = None"
    using fid s by (cases "map_of (df_id2name d) fid") (auto simp: schema_full_def ran_def)
  have f1: "map_of (df_name2id d) n \<noteq> Some fid" for n using fid by (auto simp: ran_def)
  have nf: "unat (df_nfields d) = length (df_id2name d)" using s by (simp add: schema_full_def)
  have "unat (df_nfields d + 1) = length (df_id2name d) + 1"
    using u8_succ [of "df_nfields d"] len(2) nf by simp
  then have d1: "schema_full ?d1"
    using s n0 f0 f1 len(1) unfolding schema_full_def
    by (auto simp: om_put_ok map_of_put length_om_put split: if_splits)
  have "same_schema ?d1 d'"
  proof (cases "col_kind ?t = KNone")
    case True
    then show ?thesis using add n0 by (simp add: DF_AddField_def Let_def same_schema_def)
  next
    case False
    obtain c where "col_init ?t empty_folder new_column = (True, c)" by (rule col_init_empty_set [OF False])
    then show ?thesis
      using add n0 False fo by (cases "col_kind ?t") (auto simp: DF_AddField_def Let_def same_schema_def)
  qed
  then show ?thesis using schema_full_same [OF d1] by blast
qed

end
