(* ===== verification/DocProps.thy ===== *)
theory DocProps
  imports DocDump
begin

text \<open>
  Properties of the document fields manager: documents are read back, also after a restart, and two
  orders of calls that lose them.
\<close>

text \<open>
  C17: The manager is a list of documents, each a map from names to values. For a document whose fields of the schema
  come in ascending order of their field ids, number at most 255 and have values that fit
  their columns (\<open>doc_fits\<close>), \<open>Put\<close> with the next number
  appends the map of these fields, keeps all earlier documents, and once the
  columns' writer threads have emptied their queues \<open>GetAllFields\<close> gives exactly this map, in the
  order of the names. The number of documents and twice the capacity are below 2 to the 32. For fields in
  another order the claim is false: \<open>unordered_fields_lost\<close>.
\<close>

theorem documents_list:
  assumes "df_repr vals wr rws d" "doc_fits d vals fs" "0 < df_capacity d" "2 * unat (df_capacity d) < 2 ^ 32"
  shows "\<exists>d' vals' row. DF_Put (of_nat (length rws)) fs d = Some (0, d') \<and> df_repr vals' wr (rws @ [row]) d' \<and>
    map (doc_of d' vals') (rws @ [row]) = map (doc_of d vals) rws @ [doc_map d fs] \<and>
    (\<exists>d''. DF_GetAllFields g (of_nat (length rws)) (drain_all d') = Some (0, listed d (doc_map d fs) (map fst (df_name2id d)), d''))"
proof -
  obtain d' vals' row where d': "DF_Put (of_nat (length rws)) fs d = Some (0, d')" "df_repr vals' wr (rws @ [row]) d'" "same_schema d d'"
    "map (doc_of d' vals') (rws @ [row]) = map (doc_of d vals) rws @ [doc_map d fs]"
    using DF_Put_ok [OF assms] by blast
  have ss: "same_schema d (drain_all d')" using same_schema_trans [OF d'(3) drain_all_ok(2) [OF d'(2)]] .
  have "doc_of (drain_all d') vals' row = doc_map d fs"
    using d'(4) same_schema_simps(3) [OF drain_all_ok(2) [OF d'(2)]] by simp
  moreover have "listed (drain_all d') = listed d" "df_name2id (drain_all d') = df_name2id d"
    using ss by (simp_all add: listed_def shown_def fun_eq_iff same_schema_simps [OF ss] cong: option.case_cong) (simp add: same_schema_def)
  ultimately have "\<exists>d''. DF_GetAllFields g (of_nat (length rws)) (drain_all d') =
      Some (0, listed d (doc_map d fs) (map fst (df_name2id d)), d'')"
    using DF_GetAllFields_ok [OF drain_all_ok(1) [OF d'(2)], of "length rws" g] by (auto simp: settled_def)
  then show ?thesis using d' by blast
qed

text \<open>A manager with one field of type \<open>INT\<close> and id 1.\<close>

definition field_a :: doc_field where
  "field_a = \<lparr>fd_name = [97], fd_value = [1, 2, 3, 4], fd_source = [], fd_type = data_type.INT, fd_mul = []\<rparr>"

abbreviation info_a :: field_info where
  "info_a \<equiv> \<lparr>fi_name = [97], fi_type = data_type.INT, fi_index = False\<rparr>"

lemma one_field:
  obtains d where "DF_AddField (\<lambda>n. None) info_a 1 (fresh 4) = (1, d)" "df_repr (\<lambda>n. []) (\<lambda>n. 0) [] d" "schema_full d"
    "map_of (df_name2id d) = [[97] \<mapsto> 1]" "map_of (df_name2type d) = [[97] \<mapsto> data_type.INT]" "df_capacity d = 4"
proof -
  have c: "\<not> DF_ContainField (fi_name info_a) (fresh 4)" "(1 :: byte) \<notin> ran (map_of (df_name2id (fresh 4)))"
    "df_name2id (fresh 4) = []" "df_name2type (fresh 4) = []" "df_id2name (fresh 4) = []" "df_capacity (fresh 4) = 4"
    by (simp_all add: DF_ContainField_def fresh_def DF_new_def)
  obtain d where d: "DF_AddField (\<lambda>n. None) info_a 1 (fresh 4) = (1, d)" "df_repr (\<lambda>n. []) (\<lambda>n. 0) [] d"
    "map_of (df_name2id d) = [[97] \<mapsto> 1]" "map_of (df_name2type d) = [[97] \<mapsto> data_type.INT]" "df_capacity d = 4"
    using DF_AddField_ok [OF fresh_ok(1) c(1,2), of "\<lambda>n. None"] by (auto simp: c)
  moreover have "schema_full d"
    using DF_AddField_full [OF fresh_ok(2) c(1,2), of "\<lambda>n. None" d] d(1) by (simp add: c)
  ultimately show thesis using that by blast
qed

theorem documents_list_witness:
  "\<exists>d d' d''. DF_AddField (\<lambda>n. None) info_a 1 (fresh 4) = (1, d) \<and> DF_Put 0 [field_a] d = Some (0, d') \<and>
    DF_GetAllFields (\<lambda>n. 0) 0 (drain_all d') = Some (0, [field_a], d'')"
proof -
  obtain d where d: "DF_AddField (\<lambda>n. None) info_a 1 (fresh 4) = (1, d)" "df_repr (\<lambda>n. []) (\<lambda>n. 0) [] d"
    "map_of (df_name2id d) = [[97] \<mapsto> 1]" "map_of (df_name2type d) = [[97] \<mapsto> data_type.INT]" "df_capacity d = 4" "schema_full d"
    by (rule one_field)
  have k: "known d [field_a] = [field_a]" by (simp add: known_def d(3) field_a_def)
  have f: "doc_fits d (\<lambda>n. []) [field_a]"
    unfolding doc_fits_def k by (simp add: field_ok_def d(4) field_a_def fixed_fits_def)
  have "om_ok (df_name2id d)" using d(6) by (simp add: schema_full_def)
  then have n: "df_name2id d = [([97], 1)]" using om_eq [of "df_name2id d" "[([97], 1)]"] d(3) by simp
  have "listed d (doc_map d [field_a]) [[97]] = [field_a]"
    by (simp add: listed_Cons doc_map_def k) (simp add: field_a_def shown_def df_type_def d(4) c_str_def)
  then show ?thesis using documents_list [OF d(2) f, where g = "\<lambda>n. 0"] d(1,5) by (auto simp: n)
qed

text \<open>
  C24: a dump and a restart. Loading the file of a manager gives a manager with the same fields, rows and
  documents, when the folders of the columns hold the values.
\<close>

theorem dump_restart:
  assumes "df_repr vals wr rws d" "schema_full d" "folders_hold folders d vals wr'"
  shows "\<exists>bs d1 d2. DF_Dump d = Some (True, Some bs, d1) \<and> DF_Init folders (Some bs) n DF_new = Some (True, d2) \<and>
    df_repr vals wr' rws d2 \<and> same_schema d d2 \<and> map (doc_of d2 vals) rws = map (doc_of d vals) rws"
  using DF_Dump_Init [OF assms] by blast

theorem dump_restart_witness:
  "\<exists>d bs d1 d2. DF_AddField (\<lambda>n. None) info_a 1 (fresh 4) = (1, d) \<and> DF_Dump d = Some (True, Some bs, d1) \<and>
    DF_Init (\<lambda>n. Some empty_folder) (Some bs) 4 DF_new = Some (True, d2) \<and> map_of (df_name2id d2) = [[97] \<mapsto> 1]"
proof -
  obtain d where d: "DF_AddField (\<lambda>n. None) info_a 1 (fresh 4) = (1, d)" "df_repr (\<lambda>n. []) (\<lambda>n. 0) [] d"
    "map_of (df_name2id d) = [[97] \<mapsto> 1]" "schema_full d"
    by (rule one_field)
  have "folders_hold (\<lambda>n. Some empty_folder) d (\<lambda>n. []) (\<lambda>n. 0)"
    using any_init_empty by (simp add: folders_hold_def)
  from dump_restart [OF d(2,4) this, of 4] show ?thesis using d(1,3) by (auto simp: same_schema_def)
qed

lemma put_two:
  assumes r: "df_repr vals wr rws d" and k: "known d [f, h] = [f, h]" and fh: "field_ok d vals f" "field_ok d vals h" "fd_name f \<noteq> fd_name h"
    and cap: "0 < df_capacity d" "2 * unat (df_capacity d) < 2 ^ 32"
  shows "\<exists>d' ps rows. DF_Put (of_nat (length rws)) [f, h] d = Some (0, d') \<and> same_schema d d' \<and> length ps = 2 \<and>
    \<not> (of_nat (length rws) :: u32) \<ge> df_size d' \<and> df_rows d' = Some rows \<and>
    fetch rows (uint (of_nat (length rws) :: u32)) = Some (Some (row_bytes [id_of d f, id_of d h] ps))"
proof -
  have c: "cols_ok vals wr d" and rw: "rows_repr rws d" using r by (simp_all add: df_repr_def)
  obtain d1 where d1: "put_fields [f, h] [] [] d = Some ([id_of d f, id_of d h],
      [of_nat (length (vals (fd_name f))), of_nat (length (vals (fd_name h)))], d1)"
    "same_schema d d1" "df_rows d1 = df_rows d" "df_size d1 = df_size d" "df_capacity d1 = df_capacity d"
    using put_fields_ok [OF c, of "[f, h]" "[]" "[]"] fh by (auto simp: k)
  let ?row = "[(id_of d f, of_nat (length (vals (fd_name f)))), (id_of d h, of_nat (length (vals (fd_name h))))] :: frow"
  have rw1: "rows_repr rws d1" using rw d1(3-5) by (simp add: rows_repr_def)
  obtain d2 where d2: "DF_PutRow (of_nat (length rws)) (map fst ?row) (map snd ?row) d1 = Some (0, d2)"
    "rows_repr (rws @ [?row]) d2" "same_schema d1 d2"
    using DF_PutRow_ok [OF rw1, of ?row] cap d1(5) by auto
  obtain rows where rows: "unat (df_size d2) = length rws + 1" "df_rows d2 = Some rows" "length rws < length rows"
    "rows ! length rws = Some (row_bytes (map fst ?row) (map snd ?row))"
    using d2(2) by (auto simp: rows_repr_def dest: spec [of _ "length rws"])
  have u: "unat (of_nat (length rws) :: u32) = length rws" using rows(1) u32_bound [of "df_size d2"] by (simp add: unat_of_nat32)
  have "\<not> (of_nat (length rws) :: u32) \<ge> df_size d2" using rows(1) u by (simp add: word_le_nat_alt)
  moreover have "fetch rows (uint (of_nat (length rws) :: u32)) = Some (Some (row_bytes (map fst ?row) (map snd ?row)))"
    using rows(3,4) u by (auto simp: fetch_def uint_nat)
  ultimately show ?thesis using d1(1,2) d2(1,3) rows(2) same_schema_trans
    by (intro exI [of _ d2] exI [of _ "map snd ?row"] exI [of _ rows]) (auto simp: DF_Put_def)
qed

text \<open>
  The search for a field relies on ascending ids, but \<open>Put\<close> keeps the order of the caller. When the
  second of two fields has the smaller id, \<open>Put\<close> stores both and returns 0, and \<open>Get\<close> of the second
  fails with -4.
\<close>

theorem unordered_fields_lost:
  assumes "df_repr vals wr rws d" "field_ok d vals f" "field_ok d vals h" "0 < df_capacity d" "2 * unat (df_capacity d) < 2 ^ 32"
    and ids: "map_of (df_name2id d) (fd_name f) = Some i" "map_of (df_name2id d) (fd_name h) = Some j" "j < i"
  shows "\<exists>d'. DF_Put (of_nat (length rws)) [f, h] d = Some (0, d') \<and> DF_Get g (of_nat (length rws)) h d' = Some (-4, h, d')"
proof -
  have k: "known d [f, h] = [f, h]" and ne: "fd_name f \<noteq> fd_name h" using ids by (auto simp: known_def)
  obtain d' ps rows where d': "DF_Put (of_nat (length rws)) [f, h] d = Some (0, d')" "same_schema d d'" "length ps = 2"
    "\<not> (of_nat (length rws) :: u32) \<ge> df_size d'" "df_rows d' = Some rows"
    "fetch rows (uint (of_nat (length rws) :: u32)) = Some (Some (row_bytes [i, j] ps))"
    using put_two [OF assms(1) k assms(2,3) ne assms(4,5)] ids by auto
  have t: "h\<lparr>fd_type := df_type (fd_name h) d'\<rparr> = h" using assms(3) d'(2) by (simp add: field_ok_def df_type_def same_schema_def)
  have n: "map_of (df_name2id d') (fd_name h) = Some j" using ids(2) d'(2) by (simp add: same_schema_def)
  have "DF_Find j ([i, j] @ concat (map le32 ps)) 2 = Some (-2)"
    using ids(3) by (auto simp: DF_Find_def fetch_def find_loop.simps)
  moreover note row_bytes_parts [of "[i, j]" ps, simplified]
  ultimately show ?thesis using d' n t by (simp add: DF_Get_def Let_def)
qed

lemma two_fields:
  obtains d1 d where "DF_AddField (\<lambda>n. None) \<lparr>fi_name = [98], fi_type = data_type.INT, fi_index = False\<rparr> 2 (fresh 4) = (2, d1)"
    "DF_AddField (\<lambda>n. None) info_a 1 d1 = (1, d)" "df_repr (\<lambda>n. []) (\<lambda>n. 0) [] d"
    "map_of (df_name2id d) = [[98] \<mapsto> 2, [97] \<mapsto> 1]" "map_of (df_name2type d) = [[98] \<mapsto> data_type.INT, [97] \<mapsto> data_type.INT]"
    "df_capacity d = 4"
proof -
  let ?b = "\<lparr>fi_name = [98], fi_type = data_type.INT, fi_index = False\<rparr>"
  have c: "\<not> DF_ContainField (fi_name ?b) (fresh 4)" "(2 :: byte) \<notin> ran (map_of (df_name2id (fresh 4)))"
    "df_name2id (fresh 4) = []" "df_name2type (fresh 4) = []" "df_capacity (fresh 4) = 4"
    by (simp_all add: DF_ContainField_def fresh_def DF_new_def)
  obtain d1 where d1: "DF_AddField (\<lambda>n. None) ?b 2 (fresh 4) = (2, d1)" "df_repr (\<lambda>n. []) (\<lambda>n. 0) [] d1"
    "map_of (df_name2id d1) = [[98] \<mapsto> 2]" "map_of (df_name2type d1) = [[98] \<mapsto> data_type.INT]" "df_capacity d1 = 4"
    using DF_AddField_ok [OF fresh_ok(1) c(1,2), of "\<lambda>n. None"] by (auto simp: c)
  have e: "\<not> DF_ContainField (fi_name info_a) d1" "(1 :: byte) \<notin> ran (map_of (df_name2id d1))"
    by (simp_all add: DF_ContainField_def d1(3) ran_def)
  obtain d where "DF_AddField (\<lambda>n. None) info_a 1 d1 = (1, d)" "df_repr (\<lambda>n. []) (\<lambda>n. 0) [] d"
    "map_of (df_name2id d) = [[98] \<mapsto> 2, [97] \<mapsto> 1]" "map_of (df_name2type d) = [[98] \<mapsto> data_type.INT, [97] \<mapsto> data_type.INT]"
    "df_capacity d = 4"
    using DF_AddField_ok [OF d1(2) e, of "\<lambda>n. None"] d1(5) by (auto simp: d1(3,4))
  then show thesis using that d1(1) by blast
qed

theorem unordered_fields_lost_witness:
  "\<exists>d d'. DF_Put 0 [field_a\<lparr>fd_name := [98]\<rparr>, field_a] d = Some (0, d') \<and> map_of (df_name2id d) [97] = Some 1 \<and>
    DF_Get (\<lambda>n. 0) 0 field_a d' = Some (-4, field_a, d')"
proof -
  obtain d where d: "df_repr (\<lambda>n. []) (\<lambda>n. 0) [] d" "map_of (df_name2id d) = [[98] \<mapsto> 2, [97] \<mapsto> 1]"
    "map_of (df_name2type d) = [[98] \<mapsto> data_type.INT, [97] \<mapsto> data_type.INT]" "df_capacity d = 4"
    using two_fields by metis
  have f: "field_ok d (\<lambda>n. []) (field_a\<lparr>fd_name := [98]\<rparr>)" "field_ok d (\<lambda>n. []) field_a"
    by (simp_all add: field_ok_def d(3) field_a_def fixed_fits_def)
  have "\<exists>d'. DF_Put (of_nat (length ([] :: frow list))) [field_a\<lparr>fd_name := [98]\<rparr>, field_a] d = Some (0, d') \<and>
      DF_Get (\<lambda>n. 0) (of_nat (length ([] :: frow list))) field_a d' = Some (-4, field_a, d')"
    by (rule unordered_fields_lost [OF d(1) f, where i = 2 and j = 1]) (simp_all add: d(2,4) field_a_def)
  moreover have "map_of (df_name2id d) [97] = Some 1" by (simp add: d(2))
  ultimately show ?thesis by auto
qed

text \<open>
  The manager counts the documents it was given, but compares document numbers with the count. A
  document whose number is beyond the count by one or more, because a document before it had no
  such fields, is stored and cannot be read: \<open>Get\<close> returns -1.
\<close>

theorem skipped_document_lost:
  assumes "DF_Put docid fs d = Some (r, d')" "r = 0" "unat (df_size d) < unat docid"
  shows "DF_Get g docid f d' = Some (-1, f, d')"
proof -
  obtain ids ps d1 where d1: "put_fields fs [] [] d = Some (ids, ps, d1)" "DF_PutRow docid ids ps d1 = Some (r, d')"
    using assms(1) by (auto simp: DF_Put_def bind_eq_Some_conv)
  have pf: "df_size d' = df_size d" if "put_field f d = Some (p, d')" for f d p d'
    using that by (cases "col_kind (fd_type f)") (auto simp: put_field_def Let_def bind_eq_Some_conv split: if_splits option.splits)
  have "put_fields fs ids ps d = Some (ids', ps', d1) \<Longrightarrow> df_size d1 = df_size d" for ids ps ids' ps' d1
    by (induction fs arbitrary: d ids ps) (auto simp: bind_eq_Some_conv pf split: option.splits)
  then have s1: "df_size d1 = df_size d" using d1(1) by blast
  have "df_size d2 = df_size d1" if "extend_rows docid d1 = Some d2" for d2
    using that by (auto simp: extend_rows_def Let_def bind_eq_Some_conv split: if_splits)
  then have "df_size d' = df_size d + 1" using d1(2) assms(2) s1 by (auto simp: DF_PutRow_def bind_eq_Some_conv split: if_splits)
  moreover have "unat (df_size d) + 1 < 4294967296" using assms(3) u32_bound [of docid] by simp
  ultimately have "docid \<ge> df_size d'" using assms(3) u32_succ [of "df_size d"] by (simp add: word_le_nat_alt)
  then show ?thesis by (simp add: DF_Get_def)
qed

theorem skipped_document_lost_witness:
  "\<exists>d'. DF_Put 1 [] (fresh 4) = Some (0, d') \<and> DF_Get (\<lambda>n. 0) 1 field_a d' = Some (-1, field_a, d')"
proof -
  obtain d' where "DF_Put 1 [] (fresh 4) = Some (0, d')"
    by (simp add: DF_Put_def DF_PutRow_def extend_rows_def fresh_def DF_new_def store_def)
  then show ?thesis using skipped_document_lost [of 1 "[]" "fresh 4" 0 d' "\<lambda>n. 0" field_a] by (simp add: fresh_def DF_new_def)
qed

end
