(* ===== verification/Table.thy ===== *)
theory Table
  imports DocDump BitmapManager
begin

text \<open>
  \<open>table/table.cc\<close>: the documents of an engine. The fields of the table form a row of fixed length in
  a storage manager, strings are 8 bytes in the row that name their place among the strings of the
  segment; fields that came later go to the document fields manager. A map leads from the key of a
  document to its number. Parameters: \<open>hash\<close>, the MD5-based \<open>StringToInt64\<close>; \<open>junk\<close>, the contents of
  variables that are not initialised; \<open>folder\<close>, \<open>folders\<close> and \<open>persist_file\<close>, what is on the disk. The
  cuckoo hash map is a map whose \<open>insert\<close> keeps an entry that is there.
\<close>

record table =
  tb_item_length :: nat
  tb_field_num :: byte
  tb_string_field_num :: byte
  tb_key_idx :: int
  tb_key_name :: "byte list"
  tb_offset :: "(byte list \<times> int) list"
  tb_idx_attr :: "(int \<times> byte list) list"
  tb_attr_idx :: "(byte list \<times> int) list"
  tb_attr_type :: "(byte list \<times> data_type) list"
  tb_is_index :: "(byte list \<times> bool) list"
  tb_idx_offset :: "nat list"
  tb_attrs :: "data_type list"
  tb_str_field :: "(int \<times> int) list"
  tb_id_type :: byte
  tb_compress :: bool
  tb_keys :: "u64 \<rightharpoonup> int"
  tb_created :: bool
  tb_last :: int
  tb_fields :: "docfields option"
  tb_bitmap :: "bitmap_mgr option"
  tb_sm :: "sm option"

text \<open>The key field is called \<open>_id\<close>; \<open>id_type_\<close> has no value before it is added.\<close>

definition Table_new :: "byte \<Rightarrow> bool \<Rightarrow> table" where
  "Table_new id_type b_compress =
     \<lparr>tb_item_length = 0, tb_field_num = 0, tb_string_field_num = 0, tb_key_idx = -1, tb_key_name = [95, 105, 100],
      tb_offset = [], tb_idx_attr = [], tb_attr_idx = [], tb_attr_type = [], tb_is_index = [], tb_idx_offset = [], tb_attrs = [],
      tb_str_field = [], tb_id_type = id_type, tb_compress = b_compress, tb_keys = Map.empty, tb_created = False, tb_last = -1,
      tb_fields = None, tb_bitmap = None, tb_sm = None\<rparr>"

fun FTypeSize :: "data_type \<Rightarrow> nat" where
  "FTypeSize data_type.INT = 4"
| "FTypeSize data_type.LONG = 8"
| "FTypeSize data_type.FLOAT = 4"
| "FTypeSize data_type.DOUBLE = 8"
| "FTypeSize STRING = 4 + 2 + 2"
| "FTypeSize VECTOR = 0"
| "FTypeSize MULTI_STRING = 0"

subsection \<open>The fields of a table\<close>

definition TB_AddField :: "byte list \<Rightarrow> data_type \<Rightarrow> bool \<Rightarrow> table \<Rightarrow> int \<times> table" where
  "TB_AddField name ftype is_index tb =
     (if map_of (tb_attr_idx tb) name \<noteq> None then (-1, tb)
      else let n = uint (tb_field_num tb);
               tb1 = (if name = tb_key_name tb
                      then tb\<lparr>tb_key_idx := n, tb_id_type := (if ftype = STRING then 0 else 1)\<rparr> else tb);
               tb2 = (if ftype = STRING
                      then tb1\<lparr>tb_str_field := om_insert n (uint (tb_string_field_num tb1)) (tb_str_field tb1),
                               tb_string_field_num := tb_string_field_num tb1 + 1\<rparr> else tb1);
               off = tb_item_length tb2
           in (0, tb2\<lparr>tb_idx_offset := tb_idx_offset tb2 @ [off], tb_offset := om_insert name (int off) (tb_offset tb2),
                tb_item_length := off + FTypeSize ftype, tb_attrs := tb_attrs tb2 @ [ftype],
                tb_idx_attr := om_insert n name (tb_idx_attr tb2), tb_attr_idx := om_insert name n (tb_attr_idx tb2),
                tb_attr_type := om_insert name ftype (tb_attr_type tb2), tb_is_index := om_insert name is_index (tb_is_index tb2),
                tb_field_num := tb_field_num tb2 + 1\<rparr>))"

definition TB_AddNewField :: "(byte list \<Rightarrow> folder option) \<Rightarrow> field_info \<Rightarrow> table \<Rightarrow> (int \<times> table) option" where
  "TB_AddNewField folders field_info tb =
     (if map_of (tb_attr_idx tb) (fi_name field_info) \<noteq> None then Some (-1, tb)
      else do {
        d \<leftarrow> tb_fields tb;
        let (r, d') = DF_AddField folders field_info (tb_field_num tb) d;
        Some (r, tb\<lparr>tb_attrs := tb_attrs tb @ [fi_type field_info], tb_field_num := tb_field_num tb + 1, tb_fields := Some d'\<rparr>) })"

definition TB_InitStorageMgr :: "folder \<Rightarrow> table \<Rightarrow> int \<times> table" where
  "TB_InitStorageMgr fo tb = (case tb_sm tb of
     Some m \<Rightarrow> (1, tb)
   | None \<Rightarrow> (case SM_Init 512 512 (open_mgr (tb_item_length tb) fo) of
       (ret, m) \<Rightarrow> (if ret \<noteq> 0 then ret else 0, tb\<lparr>tb_sm := Some m\<rparr>)))"

fun add_fields :: "field_info list \<Rightarrow> table \<Rightarrow> int \<times> table" where
  "add_fields [] tb = (0, tb)"
| "add_fields (f # fs) tb = (case TB_AddField (fi_name f) (fi_type f) (fi_index f) tb of
     (ret, tb') \<Rightarrow> if ret \<noteq> 0 then (ret, tb') else add_fields fs tb')"

definition TB_CreateTable :: "(byte list \<Rightarrow> folder option) \<Rightarrow> byte list option \<Rightarrow> folder \<Rightarrow> bool \<Rightarrow> field_info list \<Rightarrow> bitmap_mgr \<Rightarrow>
    table \<Rightarrow> (int \<times> table) option" where
  "TB_CreateTable folders persist_file fo compress fs bitmap_mgr tb =
     (if tb_created tb then Some (-10, tb)
      else case add_fields fs (tb\<lparr>tb_bitmap := Some bitmap_mgr, tb_compress := compress\<rparr>) of
        (ret, tb1) \<Rightarrow>
          (if ret \<noteq> 0 then Some (ret, tb1)
           else let tb2 = tb1\<lparr>tb_created := True, tb_item_length := (if tb_item_length tb1 = 0 then 8 else tb_item_length tb1)\<rparr>
                in do {
                  (ok, d) \<leftarrow> DF_Init folders persist_file 10000 DF_new;
                  Some (TB_InitStorageMgr fo (tb2\<lparr>tb_fields := Some d\<rparr>)) }))"

subsection \<open>Keys\<close>

definition key_of :: "(byte list \<Rightarrow> u64) \<Rightarrow> byte list \<Rightarrow> table \<Rightarrow> u64 option" where
  "key_of hash key tb =
     (if tb_id_type tb = 0 then Some (hash key)
      else map_option (\<lambda>bs. of_nat (of_le64 bs)) (mem_slice (c_str key) 0 8))"

definition insert_key :: "u64 \<Rightarrow> int \<Rightarrow> table \<Rightarrow> table" where
  "insert_key k docid tb = (if tb_keys tb k = None then tb\<lparr>tb_keys := (tb_keys tb)(k \<mapsto> docid)\<rparr> else tb)"

definition TB_GetDocIDByKey :: "(byte list \<Rightarrow> u64) \<Rightarrow> byte list \<Rightarrow> int \<Rightarrow> table \<Rightarrow> (int \<times> int) option" where
  "TB_GetDocIDByKey hash key docid tb = do {
     k \<leftarrow> key_of hash key tb;
     Some (case tb_keys tb k of Some i \<Rightarrow> (0, i) | None \<Rightarrow> (-1, docid)) }"

definition TB_Delete :: "(byte list \<Rightarrow> u64) \<Rightarrow> byte list \<Rightarrow> table \<Rightarrow> (int \<times> table) option" where
  "TB_Delete hash key tb = do { k \<leftarrow> key_of hash key tb; Some (0, tb\<lparr>tb_keys := (tb_keys tb)(k := None)\<rparr>) }"

subsection \<open>Writing a row\<close>

text \<open>\<open>operator[]\<close> of a map adds a missing key.\<close>

definition om_index :: "'k :: linorder \<Rightarrow> 'v \<Rightarrow> ('k \<times> 'v) list \<Rightarrow> 'v \<times> ('k \<times> 'v) list" where
  "om_index k v0 m = (case map_of m k of Some v \<Rightarrow> (v, m) | None \<Rightarrow> (v0, om_put k v0 m))"

definition TB_CheckStrLen :: "byte list \<Rightarrow> u16 \<Rightarrow> table \<Rightarrow> u16 \<times> table" where
  "TB_CheckStrLen field_name len tb =
     (if len > 2048
      then (case om_index field_name False (tb_is_index tb) of
              (b, m) \<Rightarrow> (if b then 2048 else len, tb\<lparr>tb_is_index := m\<rparr>))
      else (len, tb))"

definition mem_put :: "nat \<Rightarrow> byte list \<Rightarrow> byte list \<Rightarrow> byte list option" where
  "mem_put off bs row = (if off + length bs \<le> length row then Some (splice off bs row) else None)"

text \<open>The value of a field into the row.\<close>

definition put_value :: "byte list \<Rightarrow> data_type \<Rightarrow> nat \<Rightarrow> byte list \<Rightarrow> byte list \<Rightarrow> table \<Rightarrow> (byte list \<times> table) option" where
  "put_value name attr off val row tb =
     (if attr \<noteq> STRING
      then do { v \<leftarrow> mem_slice (c_str val) 0 (FTypeSize attr); row' \<leftarrow> mem_put off v row; Some (row', tb) }
      else case TB_CheckStrLen name (of_nat (length val)) tb of
        (len, tb1) \<Rightarrow> do {
          m \<leftarrow> tb_sm tb1;
          s \<leftarrow> mem_slice (c_str val) 0 (unat len);
          (e, block_id, in_block_pos, m') \<leftarrow> SM_AddString s m;
          row' \<leftarrow> mem_put off (pos_bytes block_id in_block_pos len) row;
          Some (row', tb1\<lparr>tb_sm := Some m'\<rparr>) })"

definition uninit_row :: "(nat \<Rightarrow> byte) \<Rightarrow> table \<Rightarrow> byte list" where
  "uninit_row junk tb = map junk [0..<tb_item_length tb]"

definition add_row :: "byte list \<Rightarrow> table \<Rightarrow> table option" where
  "add_row row tb = do { m \<leftarrow> tb_sm tb; Some (tb\<lparr>tb_sm := Some (snd (SM_Add row m))\<rparr>) }"

text \<open>\<open>Add\<close> gives an unknown name the offset 0 and the type \<open>INT\<close>, and adds it to both maps.\<close>

fun put_values :: "doc_field list \<Rightarrow> byte list \<Rightarrow> table \<Rightarrow> (byte list \<times> table) option" where
  "put_values [] row tb = Some (row, tb)"
| "put_values (f # fs) row tb =
     (case om_index (fd_name f) 0 (tb_offset tb) of
        (off, offs) \<Rightarrow> (case om_index (fd_name f) data_type.INT (tb_attr_type tb) of
          (attr, types) \<Rightarrow> do {
            (row', tb') \<leftarrow> put_value (fd_name f) attr (nat off) (fd_value f) row (tb\<lparr>tb_offset := offs, tb_attr_type := types\<rparr>);
            put_values fs row' tb' }))"

definition TB_Add :: "(byte list \<Rightarrow> u64) \<Rightarrow> (nat \<Rightarrow> byte) \<Rightarrow> byte list \<Rightarrow> doc_field list \<Rightarrow> int \<Rightarrow> table \<Rightarrow> (int \<times> table) option" where
  "TB_Add hash junk key fs docid tb =
     (if length fs \<noteq> length (tb_attr_idx tb) then Some (-2, tb)
      else if key = [] then Some (-3, tb)
      else do {
        k \<leftarrow> key_of hash key tb;
        (row, tb1) \<leftarrow> put_values fs (uninit_row junk tb) (insert_key k docid tb);
        tb2 \<leftarrow> add_row row tb1;
        Some (0, tb2\<lparr>tb_last := docid\<rparr>) })"

text \<open>A batch of documents. The first loop may run in several threads, which matters only when a key
  appears twice; here it runs in order. A document without a key is reported, but added all the same.\<close>

record doc =
  dc_key :: "byte list"
  dc_fields :: "doc_field list"

fun batch_keys :: "(byte list \<Rightarrow> u64) \<Rightarrow> int \<Rightarrow> doc list \<Rightarrow> table \<Rightarrow> (bool list \<times> table) option" where
  "batch_keys hash docid [] tb = Some ([], tb)"
| "batch_keys hash docid (d # ds) tb =
     (if dc_key d = [] then do { (bad, tb') \<leftarrow> batch_keys hash (docid + 1) ds tb; Some (True # bad, tb') }
      else do {
        k \<leftarrow> key_of hash (dc_key d) tb;
        (bad, tb') \<leftarrow> batch_keys hash (docid + 1) ds (insert_key k docid tb);
        Some (False # bad, tb') })"

definition with_id :: "table \<Rightarrow> doc \<Rightarrow> doc" where
  "with_id tb d = (if dc_fields d = []
     then d\<lparr>dc_fields := [\<lparr>fd_name = [95, 105, 100], fd_value = dc_key d, fd_source = [],
              fd_type = (if tb_id_type tb = 0 then STRING else data_type.LONG), fd_mul = []\<rparr>]\<rparr>
     else d)"

fun batch_values :: "doc_field list \<Rightarrow> doc_field list \<Rightarrow> byte list \<Rightarrow> table \<Rightarrow> (doc_field list \<times> byte list \<times> table) option" where
  "batch_values [] new row tb = Some (new, row, tb)"
| "batch_values (f # fs) new row tb =
     (case map_of (tb_offset tb) (fd_name f) of
        None \<Rightarrow> do {
          d \<leftarrow> tb_fields tb;
          batch_values fs (if DF_ContainField (fd_name f) d then new @ [f] else new) row tb }
      | Some off \<Rightarrow> (case om_index (fd_name f) data_type.INT (tb_attr_type tb) of
          (attr, types) \<Rightarrow> do {
            (row', tb') \<leftarrow> put_value (fd_name f) attr (nat off) (fd_value f) row (tb\<lparr>tb_attr_type := types\<rparr>);
            batch_values fs new row' tb' }))"

definition put_new :: "int \<Rightarrow> doc_field list \<Rightarrow> table \<Rightarrow> table option" where
  "put_new i new tb =
     (if new = [] then Some tb
      else do { d \<leftarrow> tb_fields tb; (r, d') \<leftarrow> DF_Put (word_of_int i) new d; Some (tb\<lparr>tb_fields := Some d'\<rparr>) })"

fun batch_rows :: "(nat \<Rightarrow> byte) \<Rightarrow> int \<Rightarrow> doc list \<Rightarrow> table \<Rightarrow> (doc list \<times> table) option" where
  "batch_rows junk i [] tb = Some ([], tb)"
| "batch_rows junk i (d # ds) tb = do {
     (new, row, tb1) \<leftarrow> batch_values (dc_fields (with_id tb d)) [] (uninit_row junk tb) tb;
     tb2 \<leftarrow> put_new i new tb1;
     tb3 \<leftarrow> add_row row tb2;
     (ds', tb4) \<leftarrow> batch_rows junk (i + 1) ds tb3;
     Some (with_id tb d # ds', tb4) }"

text \<open>The documents from \<open>start_id\<close> on are the batch; the result says which of them had no key.\<close>

definition TB_BatchAdd :: "(byte list \<Rightarrow> u64) \<Rightarrow> (nat \<Rightarrow> byte) \<Rightarrow> nat \<Rightarrow> nat \<Rightarrow> int \<Rightarrow> doc list \<Rightarrow> table \<Rightarrow>
    (bool list \<times> doc list \<times> table) option" where
  "TB_BatchAdd hash junk start_id batch_size docid doc_vec tb = do {
     docs \<leftarrow> mem_slice doc_vec start_id batch_size;
     (bad, tb1) \<leftarrow> batch_keys hash docid docs tb;
     (docs', tb2) \<leftarrow> batch_rows junk docid docs tb1;
     Some (bad, take start_id doc_vec @ docs' @ drop (start_id + batch_size) doc_vec, tb2\<lparr>tb_last := docid + int batch_size\<rparr>) }"

subsection \<open>Reading\<close>

text \<open>\<open>Get\<close> of the storage manager: the row, or a null pointer.\<close>

definition get_row :: "(nat \<Rightarrow> byte) \<Rightarrow> int \<Rightarrow> table \<Rightarrow> (int \<times> byte list option \<times> table) option" where
  "get_row g docid tb = do {
     m \<leftarrow> tb_sm tb;
     (r, bs, m') \<leftarrow> SM_Get g docid m;
     Some (r, if r = 0 then Some bs else None, tb\<lparr>tb_sm := Some m'\<rparr>) }"

text \<open>A value out of a row. A failing \<open>GetString\<close> leaves the target.\<close>

definition read_value :: "(nat \<Rightarrow> byte) \<Rightarrow> int \<Rightarrow> data_type \<Rightarrow> nat \<Rightarrow> byte list \<Rightarrow> byte list \<Rightarrow> table \<Rightarrow> (byte list \<times> table) option" where
  "read_value g docid data_type off val row tb =
     (if data_type = STRING
      then do {
        (block_id, in_block_pos, len) \<leftarrow> read_pos row off;
        m \<leftarrow> tb_sm tb;
        (r, s, m') \<leftarrow> SM_GetString g docid block_id in_block_pos (unat len) m;
        Some (if r = 0 then s else val, tb\<lparr>tb_sm := Some m'\<rparr>) }
      else do { v \<leftarrow> mem_slice row off (FTypeSize data_type); Some (v, tb) })"

definition given_row :: "(nat \<Rightarrow> byte) \<Rightarrow> int \<Rightarrow> byte list option \<Rightarrow> table \<Rightarrow> (byte list option \<times> table) option" where
  "given_row g docid doc_v tb = (case doc_v of
     Some row \<Rightarrow> Some (Some row, tb)
   | None \<Rightarrow> do { (r, row, tb') \<leftarrow> get_row g docid tb; Some (row, tb') })"

definition TB_GetFieldRawValue :: "(nat \<Rightarrow> byte) \<Rightarrow> int \<Rightarrow> int \<Rightarrow> byte list \<Rightarrow> byte list option \<Rightarrow> table \<Rightarrow> (int \<times> byte list \<times> table) option" where
  "TB_GetFieldRawValue g docid field_id val doc_v tb =
     (if docid < 0 \<or> field_id < 0 \<or> uint (tb_field_num tb) \<le> field_id then Some (-1, val, tb)
      else do {
        (row, tb1) \<leftarrow> given_row g docid doc_v tb;
        data_type \<leftarrow> fetch (tb_attrs tb1) field_id;
        (if int (length (tb_offset tb1)) \<le> field_id then Some (-2, val, tb1)
         else do {
           off \<leftarrow> fetch (tb_idx_offset tb1) field_id;
           row \<leftarrow> row;
           (v, tb2) \<leftarrow> read_value g docid data_type off val row tb1;
           Some (0, v, tb2) }) })"

text \<open>The version for a vector of bytes does not compare with the number of offsets.\<close>

definition TB_GetFieldRawBytes :: "(nat \<Rightarrow> byte) \<Rightarrow> int \<Rightarrow> int \<Rightarrow> byte list \<Rightarrow> byte list option \<Rightarrow> table \<Rightarrow> (int \<times> byte list \<times> table) option" where
  "TB_GetFieldRawBytes g docid field_id val doc_v tb =
     (if docid < 0 \<or> field_id < 0 \<or> uint (tb_field_num tb) \<le> field_id then Some (-1, val, tb)
      else do {
        (row, tb1) \<leftarrow> given_row g docid doc_v tb;
        data_type \<leftarrow> fetch (tb_attrs tb1) field_id;
        off \<leftarrow> fetch (tb_idx_offset tb1) field_id;
        row \<leftarrow> row;
        (v, tb2) \<leftarrow> read_value g docid data_type off [] row tb1;
        Some (0, v, tb2) })"

definition TB_GetFieldRawValueByName :: "(nat \<Rightarrow> byte) \<Rightarrow> int \<Rightarrow> byte list \<Rightarrow> byte list \<Rightarrow> byte list option \<Rightarrow> table \<Rightarrow> (int \<times> byte list \<times> table) option" where
  "TB_GetFieldRawValueByName g docid field_name val doc_v tb =
     (case map_of (tb_attr_idx tb) field_name of
        None \<Rightarrow> Some (-1, val, tb)
      | Some field_id \<Rightarrow> do { (r, v, tb') \<leftarrow> TB_GetFieldRawValue g docid field_id val doc_v tb; Some (0, v, tb') })"

definition col_values :: "doc_field \<Rightarrow> byte list list \<Rightarrow> byte list list" where
  "col_values f vals = (if fd_type f = MULTI_STRING then fd_mul f else vals @ [fd_value f])"

text \<open>A \<open>Field\<close> that was declared without a value: only its type has none.\<close>

definition named_field :: "data_type \<Rightarrow> byte list \<Rightarrow> doc_field" where
  "named_field junk_type name = \<lparr>fd_name = name, fd_value = [], fd_source = [], fd_type = junk_type, fd_mul = []\<rparr>"

definition TB_GetColFieldRawValueByName :: "(nat \<Rightarrow> byte) \<Rightarrow> data_type \<Rightarrow> int \<Rightarrow> byte list \<Rightarrow> byte list list \<Rightarrow> table \<Rightarrow>
    (int \<times> byte list list \<times> table) option" where
  "TB_GetColFieldRawValueByName g junk_type docid field_name vals tb = do {
     d \<leftarrow> tb_fields tb;
     (r, f, d') \<leftarrow> DF_Get g (word_of_int docid) (named_field junk_type field_name) d;
     (if r < 0 then Some (-1, vals, tb\<lparr>tb_fields := Some d'\<rparr>) else Some (0, col_values f vals, tb\<lparr>tb_fields := Some d'\<rparr>)) }"

definition TB_GetColFieldRawValue :: "(nat \<Rightarrow> byte) \<Rightarrow> data_type \<Rightarrow> int \<Rightarrow> byte \<Rightarrow> byte list list \<Rightarrow> table \<Rightarrow>
    (int \<times> byte list list \<times> table) option" where
  "TB_GetColFieldRawValue g junk_type docid field_id vals tb = do {
     d \<leftarrow> tb_fields tb;
     (case DF_GetFieldName field_id d of
        (ret, None) \<Rightarrow> Some (ret, vals, tb)
      | (ret, Some name) \<Rightarrow>
          (if ret \<noteq> 0 then Some (ret, vals, tb)
           else do {
             (r, f, d') \<leftarrow> DF_Get g (word_of_int docid) (named_field junk_type name) d;
             (if r < 0 then Some (-2, vals, tb\<lparr>tb_fields := Some d'\<rparr>)
              else Some (0, col_values f vals, tb\<lparr>tb_fields := Some d'\<rparr>)) })) }"

text \<open>\<open>check_docid\<close> has no value when the key is not found: \<open>junk\<close>.\<close>

definition TB_GetKeyByDocid :: "(byte list \<Rightarrow> u64) \<Rightarrow> (nat \<Rightarrow> byte) \<Rightarrow> int \<Rightarrow> int \<Rightarrow> byte list \<Rightarrow> table \<Rightarrow> (int \<times> byte list \<times> table) option" where
  "TB_GetKeyByDocid hash g junk docid key tb =
     (if tb_last tb < docid then Some (-1, key, tb)
      else do {
        (r, row, tb1) \<leftarrow> get_row g docid tb;
        (if r \<noteq> 0 then Some (-1, key, tb1)
         else case om_index (tb_key_name tb1) 0 (tb_attr_idx tb1) of
           (field_id, idx) \<Rightarrow> do {
             (r2, key', tb2) \<leftarrow> TB_GetFieldRawValue g docid field_id key row (tb1\<lparr>tb_attr_idx := idx\<rparr>);
             (r3, check_docid) \<leftarrow> TB_GetDocIDByKey hash key' junk tb2;
             Some (if check_docid \<noteq> docid then (-1, [], tb2) else (0, key', tb2)) }) })"

subsection \<open>Updating\<close>

text \<open>The type that decides is the one of the given field; other values are copied with their own length.\<close>

definition update_value :: "int \<Rightarrow> doc_field \<Rightarrow> byte list \<Rightarrow> table \<Rightarrow> (byte list \<times> table) option" where
  "update_value docid f row tb =
     (case map_of (tb_attr_idx tb) (fd_name f) of
        None \<Rightarrow> Some (row, tb)
      | Some field_id \<Rightarrow> do {
          off \<leftarrow> fetch (tb_idx_offset tb) field_id;
          (if fd_type f = STRING
           then do {
             (old_block_id, old_in_block_pos, old_len) \<leftarrow> read_pos row off;
             let (len, tb1) = TB_CheckStrLen (fd_name f) (of_nat (length (fd_value f))) tb;
             m \<leftarrow> tb_sm tb1;
             s \<leftarrow> mem_slice (c_str (fd_value f)) 0 (unat len);
             (r, block_id, in_block_pos, m') \<leftarrow> SM_UpdateString docid s (unat old_len) old_block_id old_in_block_pos m;
             row' \<leftarrow> mem_put off (pos_bytes block_id in_block_pos len) row;
             Some (row', tb1\<lparr>tb_sm := Some m'\<rparr>) }
           else do { row' \<leftarrow> mem_put off (fd_value f) row; Some (row', tb) }) })"

fun update_values :: "int \<Rightarrow> doc_field list \<Rightarrow> byte list \<Rightarrow> table \<Rightarrow> (byte list \<times> table) option" where
  "update_values docid [] row tb = Some (row, tb)"
| "update_values docid (f # fs) row tb = do { (row', tb') \<leftarrow> update_value docid f row tb; update_values docid fs row' tb' }"

definition TB_Update :: "(nat \<Rightarrow> byte) \<Rightarrow> doc_field list \<Rightarrow> int \<Rightarrow> table \<Rightarrow> (int \<times> table) option" where
  "TB_Update g fs docid tb =
     (if fs = [] then Some (0, tb)
      else do {
        (r, ori, tb1) \<leftarrow> get_row g docid tb;
        ori \<leftarrow> ori;
        row \<leftarrow> mem_slice ori 0 (tb_item_length tb1);
        (row', tb2) \<leftarrow> update_values docid fs row tb1;
        m \<leftarrow> tb_sm tb2;
        (r2, m') \<leftarrow> SM_Update docid row' m;
        Some (0, tb2\<lparr>tb_sm := Some m'\<rparr>) })"

subsection \<open>Numbers as text\<close>

text \<open>\<open>std::to_string\<close>: integers in decimal, floating point numbers as \<open>%f\<close> prints them, that is
  rounded to six places, half to even.\<close>

fun dec_nat :: "nat \<Rightarrow> byte list" where
  "dec_nat n = (if n < 10 then [of_nat (48 + n)] else dec_nat (n div 10) @ [of_nat (48 + n mod 10)])"

declare dec_nat.simps [simp del]

definition dec_int :: "int \<Rightarrow> byte list" where
  "dec_int i = (if i < 0 then 45 # dec_nat (nat (- i)) else dec_nat (nat i))"

definition round_div :: "nat \<Rightarrow> nat \<Rightarrow> nat" where
  "round_div a b = (let q = a div b; r = a mod b
     in if 2 * r < b then q else if b < 2 * r then q + 1 else if even q then q else q + 1)"

definition fmt_f :: "bool \<Rightarrow> nat \<Rightarrow> int \<Rightarrow> byte list" where
  "fmt_f neg m e =
     (let n = (if 0 \<le> e then m * 2 ^ nat e * 1000000 else round_div (m * 1000000) (2 ^ nat (- e)));
          frac = dec_nat (n mod 1000000)
      in (if neg then [45] else []) @ dec_nat (n div 1000000) @ [46] @ replicate (6 - length frac) 48 @ frac)"

text \<open>A number of sign, \<open>ebits\<close> bits of exponent and \<open>mbits\<close> bits of mantissa.\<close>

definition show_float :: "nat \<Rightarrow> nat \<Rightarrow> nat \<Rightarrow> byte list" where
  "show_float ebits mbits n =
     (let neg = (n div 2 ^ (ebits + mbits) = 1); ex = n div 2 ^ mbits mod 2 ^ ebits; fr = n mod 2 ^ mbits;
          bias = 2 ^ (ebits - 1) - 1 + int mbits
      in if ex = 2 ^ ebits - 1 then (if neg then [45] else []) @ (if fr = 0 then [105, 110, 102] else [110, 97, 110])
         else if ex = 0 then fmt_f neg fr (1 - bias)
         else fmt_f neg (fr + 2 ^ mbits) (int ex - bias))"

text \<open>The bytes of the value are copied over a variable that is 0.\<close>

definition TB_NumericValueToStr :: "doc_field \<Rightarrow> doc_field option" where
  "TB_NumericValueToStr f = (case fd_type f of
     data_type.INT \<Rightarrow> do { w \<leftarrow> mem_put 0 (fd_value f) (replicate 4 0); Some (f\<lparr>fd_value := dec_int (sint (of_le32 w))\<rparr>) }
   | data_type.FLOAT \<Rightarrow> do { w \<leftarrow> mem_put 0 (fd_value f) (replicate 4 0); Some (f\<lparr>fd_value := show_float 8 23 (unat (of_le32 w))\<rparr>) }
   | data_type.LONG \<Rightarrow> do {
       w \<leftarrow> mem_put 0 (fd_value f) (replicate 8 0);
       Some (f\<lparr>fd_value := dec_int (sint (of_nat (of_le64 w) :: u64))\<rparr>) }
   | data_type.DOUBLE \<Rightarrow> do { w \<leftarrow> mem_put 0 (fd_value f) (replicate 8 0); Some (f\<lparr>fd_value := show_float 11 52 (of_le64 w)\<rparr>) }
   | _ \<Rightarrow> Some f)"

subsection \<open>Documents\<close>

text \<open>One field of the table into a document; an empty string is left out.\<close>

definition info_field :: "(nat \<Rightarrow> byte) \<Rightarrow> int \<Rightarrow> byte list \<Rightarrow> byte list \<Rightarrow> int \<Rightarrow> table \<Rightarrow> (doc_field option \<times> table) option" where
  "info_field g docid row name idx tb =
     (case om_index name data_type.INT (tb_attr_type tb) of
        (t, types) \<Rightarrow> do {
          (r, v, tb1) \<leftarrow> TB_GetFieldRawValue g docid idx [] (Some row) (tb\<lparr>tb_attr_type := types\<rparr>);
          (if t = STRING \<and> v = [] then Some (None, tb1)
           else do { f \<leftarrow> TB_NumericValueToStr ((named_field t name)\<lparr>fd_value := v\<rparr>); Some (Some f, tb1) }) })"

fun info_all :: "(nat \<Rightarrow> byte) \<Rightarrow> int \<Rightarrow> byte list \<Rightarrow> (byte list \<times> int) list \<Rightarrow> doc \<Rightarrow> table \<Rightarrow> (doc \<times> table) option" where
  "info_all g docid row [] doc tb = Some (doc, tb)"
| "info_all g docid row ((name, idx) # names) doc tb = do {
     (f, tb1) \<leftarrow> info_field g docid row name idx tb;
     (case f of
        None \<Rightarrow> info_all g docid row names doc tb1
      | Some f \<Rightarrow> info_all g docid row names
          (doc\<lparr>dc_fields := dc_fields doc @ [f], dc_key := (if name = tb_key_name tb1 then fd_value f else dc_key doc)\<rparr>) tb1) }"

fun info_some :: "(nat \<Rightarrow> byte) \<Rightarrow> data_type \<Rightarrow> int \<Rightarrow> byte list \<Rightarrow> byte list list \<Rightarrow> doc \<Rightarrow> table \<Rightarrow> (doc \<times> table) option" where
  "info_some g junk_type docid row [] doc tb = Some (doc, tb)"
| "info_some g junk_type docid row (name # names) doc tb =
     (case map_of (tb_attr_idx tb) name of
        None \<Rightarrow> do {
          d \<leftarrow> tb_fields tb;
          (if DF_ContainField name d
           then do {
             (r, f, d') \<leftarrow> DF_Get g (word_of_int docid) (named_field junk_type name) d;
             info_some g junk_type docid row names (if r = 0 then doc\<lparr>dc_fields := dc_fields doc @ [f]\<rparr> else doc)
               (tb\<lparr>tb_fields := Some d'\<rparr>) }
           else info_some g junk_type docid row names doc tb) }
      | Some idx \<Rightarrow> do {
          (f, tb1) \<leftarrow> info_field g docid row name idx tb;
          info_some g junk_type docid row names
            (case f of None \<Rightarrow> doc | Some f \<Rightarrow> doc\<lparr>dc_fields := dc_fields doc @ [f]\<rparr>) tb1 })"

definition TB_GetDocInfo :: "(nat \<Rightarrow> byte) \<Rightarrow> data_type \<Rightarrow> int \<Rightarrow> byte list list \<Rightarrow> doc \<Rightarrow> table \<Rightarrow> (int \<times> doc \<times> table) option" where
  "TB_GetDocInfo g junk_type docid names doc tb =
     (if tb_last tb < docid then Some (-1, doc, tb)
      else do {
        (ret, row, tb1) \<leftarrow> get_row g docid tb;
        (case row of
           None \<Rightarrow> Some (ret, doc, tb1)
         | Some row \<Rightarrow>
             (if names = []
              then do {
                d \<leftarrow> tb_fields tb1;
                (r, fs, d') \<leftarrow> DF_GetAllFields g (word_of_int docid) d;
                (doc', tb2) \<leftarrow> info_all g docid row (tb_attr_idx tb1) (doc\<lparr>dc_fields := dc_fields doc @ fs\<rparr>)
                  (tb1\<lparr>tb_fields := Some d'\<rparr>);
                Some (0, doc', tb2) }
              else do { (doc', tb2) \<leftarrow> info_some g junk_type docid row names doc tb1; Some (0, doc', tb2) })) })"

definition TB_GetDocInfoByKey :: "(byte list \<Rightarrow> u64) \<Rightarrow> (nat \<Rightarrow> byte) \<Rightarrow> data_type \<Rightarrow> byte list \<Rightarrow> byte list list \<Rightarrow> doc \<Rightarrow> table \<Rightarrow>
    (int \<times> doc \<times> table) option" where
  "TB_GetDocInfoByKey hash g junk_type key names doc tb = do {
     (ret, docid) \<leftarrow> TB_GetDocIDByKey hash key 0 tb;
     (if ret < 0 then Some (ret, doc, tb) else TB_GetDocInfo g junk_type docid names doc tb) }"

subsection \<open>The schema\<close>

definition TB_GetAttrType :: "byte list \<Rightarrow> table \<Rightarrow> data_type option option" where
  "TB_GetAttrType field tb = (case map_of (tb_attr_type tb) field of
     Some t \<Rightarrow> Some (Some t)
   | None \<Rightarrow> map_option (DF_GetFieldType field) (tb_fields tb))"

fun TB_GetAllAttrType :: "byte list list \<Rightarrow> (byte list \<times> data_type) list \<Rightarrow> table \<Rightarrow> (byte list \<times> data_type) list option" where
  "TB_GetAllAttrType [] types tb = Some types"
| "TB_GetAllAttrType (name # names) types tb = do {
     t \<leftarrow> TB_GetAttrType name tb;
     TB_GetAllAttrType names (case t of None \<Rightarrow> types | Some t \<Rightarrow> om_put name t types) tb }"

definition TB_GetAllFields :: "table \<Rightarrow> field_info list option" where
  "TB_GetAllFields tb = do {
     d \<leftarrow> tb_fields tb;
     Some (map (\<lambda>(name, t). \<lparr>fi_name = name, fi_type = t,
       fi_index = (case map_of (tb_is_index tb) name of None \<Rightarrow> False | Some b \<Rightarrow> b)\<rparr>) (tb_attr_type tb) @ DF_GetAllInfos d) }"

definition TB_GetAttrIsIndex :: "(byte list \<times> bool) list \<Rightarrow> table \<Rightarrow> (byte list \<times> bool) list" where
  "TB_GetAttrIsIndex out tb = foldl (\<lambda>m (name, b). om_insert name b m) out (tb_is_index tb)"

definition TB_GetAttrIdx :: "byte list \<Rightarrow> table \<Rightarrow> int option" where
  "TB_GetAttrIdx field tb = (case map_of (tb_attr_idx tb) field of
     Some i \<Rightarrow> Some i
   | None \<Rightarrow> map_option (DF_GetFieldId field) (tb_fields tb))"

text \<open>The fields of a document: known ones must have their type, the others become new fields.\<close>

fun check_fields :: "doc_field list \<Rightarrow> field_info list \<Rightarrow> table \<Rightarrow> field_info list option option" where
  "check_fields [] new tb = Some (Some new)"
| "check_fields (f # fs) new tb = do {
     t \<leftarrow> TB_GetAttrType (fd_name f) tb;
     (case t of
        None \<Rightarrow> check_fields fs (new @ [\<lparr>fi_name = fd_name f, fi_type = fd_type f, fi_index = True\<rparr>]) tb
      | Some t \<Rightarrow> if fd_type f \<noteq> t then Some None else check_fields fs new tb) }"

fun add_new_fields :: "(byte list \<Rightarrow> folder option) \<Rightarrow> field_info list \<Rightarrow> table \<Rightarrow> table option" where
  "add_new_fields folders [] tb = Some tb"
| "add_new_fields folders (f # fs) tb = do { (r, tb') \<leftarrow> TB_AddNewField folders f tb; add_new_fields folders fs tb' }"

definition TB_CheckDocFields :: "(byte list \<Rightarrow> folder option) \<Rightarrow> doc \<Rightarrow> table \<Rightarrow> (bool \<times> table) option" where
  "TB_CheckDocFields folders doc tb = do {
     r \<leftarrow> check_fields (dc_fields doc) [] tb;
     (case r of None \<Rightarrow> Some (False, tb) | Some new \<Rightarrow> do { tb' \<leftarrow> add_new_fields folders new tb; Some (True, tb') }) }"

subsection \<open>Loading\<close>

text \<open>The keys of the documents that the bitmap does not mark as deleted.\<close>

fun load_keys :: "(byte list \<Rightarrow> u64) \<Rightarrow> (nat \<Rightarrow> byte) \<Rightarrow> int \<Rightarrow> nat list \<Rightarrow> table \<Rightarrow> table option" where
  "load_keys hash g idx [] tb = Some tb"
| "load_keys hash g idx (i # is) tb = do {
     bm \<leftarrow> tb_bitmap tb;
     deleted \<leftarrow> BM_Test bm (of_nat i);
     (if deleted then load_keys hash g idx is tb
      else do {
        (r, key, tb1) \<leftarrow> TB_GetFieldRawValue g (int i) idx [] None tb;
        k \<leftarrow> key_of hash key tb1;
        load_keys hash g idx is (insert_key k (int i) tb1) }) }"

definition TB_Load :: "(byte list \<Rightarrow> u64) \<Rightarrow> (nat \<Rightarrow> byte) \<Rightarrow> nat \<Rightarrow> table \<Rightarrow> (int \<times> table) option" where
  "TB_Load hash g num tb = do {
     m \<leftarrow> tb_sm tb;
     (r, m') \<leftarrow> SM_Truncate num m;
     let tb1 = tb\<lparr>tb_sm := Some m'\<rparr>;
     (case map_of (tb_attr_idx tb1) (tb_key_name tb1) of
        None \<Rightarrow> Some (-1, tb1)
      | Some idx \<Rightarrow> do { tb2 \<leftarrow> load_keys hash g idx [0..<num] tb1; Some (0, tb2\<lparr>tb_last := int num - 1\<rparr>) }) }"

subsection \<open>Caches and sizes\<close>

definition TB_AlterCacheSize :: "int \<Rightarrow> int \<Rightarrow> table \<Rightarrow> table option" where
  "TB_AlterCacheSize cache_size str_cache_size tb = do {
     m \<leftarrow> tb_sm tb;
     m' \<leftarrow> SM_AlterCacheSize cache_size str_cache_size m;
     Some (tb\<lparr>tb_sm := Some m'\<rparr>) }"

definition TB_GetCacheSize :: "table \<Rightarrow> (int \<times> int) option" where
  "TB_GetCacheSize tb = Option.bind (tb_sm tb) SM_GetCacheSize"

definition TB_GetStorageManagerSize :: "table \<Rightarrow> nat" where
  "TB_GetStorageManagerSize tb = (case tb_sm tb of None \<Rightarrow> 0 | Some m \<Rightarrow> sm_size m)"

definition TB_SetKeyFieldName :: "byte list \<Rightarrow> table \<Rightarrow> table" where
  "TB_SetKeyFieldName name tb = tb\<lparr>tb_key_name := name\<rparr>"

definition TB_GetDocBuffer :: "(nat \<Rightarrow> byte) \<Rightarrow> int \<Rightarrow> table \<Rightarrow> (byte list option \<times> table) option" where
  "TB_GetDocBuffer g docid tb = do { (r, row, tb') \<leftarrow> get_row g docid tb; Some (row, tb') }"

end
