(* ===== verification/TableSpec.thy ===== *)
theory TableSpec
  imports Table
begin

text \<open>
  What the table promises. \<open>layout cols tb\<close> is its type invariant: every field has a range of its own in
  the row and the maps agree. \<open>tbl_repr cols rows P tb\<close> says that the table holds the documents \<open>rows\<close>,
  each a map from the names of the fields that were written to their values, the first \<open>P\<close> of them
  on disk. Adding, the writer thread and reading keep it.
\<close>

subsection \<open>The layout\<close>

definition row_size :: "field_info list \<Rightarrow> nat" where
  "row_size cols = sum_list (map (\<lambda>c. FTypeSize (fi_type c)) cols)"

definition off_of :: "field_info list \<Rightarrow> nat \<Rightarrow> nat" where
  "off_of cols j = row_size (take j cols)"

abbreviation col_size :: "field_info list \<Rightarrow> nat \<Rightarrow> nat" where
  "col_size cols j \<equiv> FTypeSize (fi_type (cols ! j))"

definition col_map :: "field_info list \<Rightarrow> (nat \<Rightarrow> 'a) \<Rightarrow> byte list \<rightharpoonup> 'a" where
  "col_map cols f = map_of (zip (map fi_name cols) (map f [0..<length cols]))"

definition layout :: "field_info list \<Rightarrow> table \<Rightarrow> bool" where
  "layout cols tb \<longleftrightarrow> distinct (map fi_name cols) \<and>
     tb_idx_offset tb = map (off_of cols) [0..<length cols] \<and> row_size cols \<le> tb_item_length tb \<and>
     (\<exists>later. tb_attrs tb = map fi_type cols @ later \<and> length cols + length later \<le> 255 \<and> uint (tb_field_num tb) = int (length cols + length later)) \<and>
     map_of (tb_attr_idx tb) = col_map cols int \<and> length (tb_attr_idx tb) = length cols \<and>
     map_of (tb_offset tb) = col_map cols (\<lambda>j. int (off_of cols j)) \<and> length (tb_offset tb) = length cols \<and>
     map_of (tb_attr_type tb) = col_map cols (\<lambda>j. fi_type (cols ! j)) \<and>
     map_of (tb_is_index tb) = col_map cols (\<lambda>j. fi_index (cols ! j))"

lemma row_size_snoc: "row_size (cols @ [c]) = row_size cols + FTypeSize (fi_type c)"
  by (simp add: row_size_def)

lemma off_of_snoc: "j < length cols \<Longrightarrow> off_of (cols @ [c]) j = off_of cols j" "off_of (cols @ [c]) (length cols) = row_size cols"
  by (simp_all add: off_of_def)

text \<open>The ranges of two fields do not overlap and lie in the row.\<close>

lemma off_of_Suc: "j < length cols \<Longrightarrow> off_of cols (Suc j) = off_of cols j + col_size cols j"
  by (simp add: off_of_def row_size_def take_Suc_conv_app_nth)

lemma off_of_mono: "\<lbrakk>i \<le> j; j \<le> length cols\<rbrakk> \<Longrightarrow> off_of cols i \<le> off_of cols j"
proof (induction j)
  case (Suc j)
  then show ?case using off_of_Suc [of j cols] by (cases "i = Suc j") auto
qed simp

lemma off_of_apart: "\<lbrakk>i < j; j < length cols\<rbrakk> \<Longrightarrow> off_of cols i + col_size cols i \<le> off_of cols j"
  using off_of_mono [of "Suc i" j cols] off_of_Suc [of i cols] by simp

lemma off_of_in: "j < length cols \<Longrightarrow> off_of cols j + col_size cols j \<le> row_size cols"
  using off_of_mono [of "Suc j" "length cols" cols] off_of_Suc [of j cols] by (simp add: off_of_def)

lemma col_map_in: "\<lbrakk>distinct (map fi_name cols); j < length cols\<rbrakk> \<Longrightarrow> col_map cols f (fi_name (cols ! j)) = Some (f j)"
  using map_of_zip_nth [of "map fi_name cols" "map f [0..<length cols]" j] by (simp add: col_map_def)

lemma col_map_None: "col_map cols f name = None \<longleftrightarrow> name \<notin> fi_name ` set cols"
  by (simp add: col_map_def map_of_zip_is_None)

lemma col_map_snoc:
  assumes n: "fi_name c \<notin> fi_name ` set cols" and f: "\<And>j. j < length cols \<Longrightarrow> f j = f' j"
  shows "col_map (cols @ [c]) f = (col_map cols f')(fi_name c \<mapsto> f (length cols))"
proof -
  have e: "map f [0..<length cols] = map f' [0..<length cols]" using f by simp
  have "col_map (cols @ [c]) f = [fi_name c \<mapsto> f (length cols)] ++ col_map cols f'"
    by (simp add: col_map_def e map_add_def)
  moreover have "col_map cols f' (fi_name c) = None" using n by (simp add: col_map_None)
  ultimately show ?thesis by (auto simp: map_add_def fun_eq_iff split: option.split)
qed

text \<open>\<open>AddField\<close> adds a column.\<close>

lemma layout_new: "layout [] (Table_new id_type b)"
  by (simp add: layout_def Table_new_def row_size_def col_map_def)

lemma length_om_insert: "map_of m k = None \<Longrightarrow> length (om_insert k v m) = length m + 1"
  by (simp add: om_insert_def length_om_put)

lemma TB_AddField_layout:
  assumes l: "layout cols tb" and n: "fi_name c \<notin> fi_name ` set cols" and len: "length cols < 255"
    and i: "tb_item_length tb = row_size cols" "tb_attrs tb = map fi_type cols"
  shows "\<exists>tb'. TB_AddField (fi_name c) (fi_type c) (fi_index c) tb = (0, tb') \<and> layout (cols @ [c]) tb' \<and>
    tb_item_length tb' = row_size (cols @ [c]) \<and> tb_attrs tb' = map fi_type (cols @ [c]) \<and>
    tb_sm tb' = tb_sm tb \<and> tb_keys tb' = tb_keys tb \<and> tb_created tb' = tb_created tb \<and> tb_last tb' = tb_last tb"
proof -
  have none: "map_of (tb_attr_idx tb) (fi_name c) = None" "map_of (tb_offset tb) (fi_name c) = None"
    "map_of (tb_attr_type tb) (fi_name c) = None" "map_of (tb_is_index tb) (fi_name c) = None"
    using l n unfolding layout_def by (simp_all add: col_map_None)
  have num: "uint (tb_field_num tb) = int (length cols)" using l i(2) by (auto simp: layout_def)
  have "unat (tb_field_num tb) = length cols" using num by (simp add: unat_eq_nat_uint)
  then have num1: "uint (tb_field_num tb + 1) = int (length cols) + 1"
    using u8_succ [of "tb_field_num tb"] len by (simp add: uint_nat)
  obtain tb' where tb': "TB_AddField (fi_name c) (fi_type c) (fi_index c) tb = (0, tb')"
    "tb_idx_offset tb' = tb_idx_offset tb @ [tb_item_length tb]"
    "tb_offset tb' = om_insert (fi_name c) (int (tb_item_length tb)) (tb_offset tb)"
    "tb_item_length tb' = tb_item_length tb + FTypeSize (fi_type c)" "tb_attrs tb' = tb_attrs tb @ [fi_type c]"
    "tb_attr_idx tb' = om_insert (fi_name c) (uint (tb_field_num tb)) (tb_attr_idx tb)"
    "tb_attr_type tb' = om_insert (fi_name c) (fi_type c) (tb_attr_type tb)"
    "tb_is_index tb' = om_insert (fi_name c) (fi_index c) (tb_is_index tb)" "tb_field_num tb' = tb_field_num tb + 1"
    "tb_sm tb' = tb_sm tb" "tb_keys tb' = tb_keys tb" "tb_created tb' = tb_created tb" "tb_last tb' = tb_last tb"
    using none(1) by (simp add: TB_AddField_def Let_def)
  have mp: "map_of (tb_attr_idx tb') = col_map (cols @ [c]) int"
    "map_of (tb_offset tb') = col_map (cols @ [c]) (\<lambda>j. int (off_of (cols @ [c]) j))"
    "map_of (tb_attr_type tb') = col_map (cols @ [c]) (\<lambda>j. fi_type ((cols @ [c]) ! j))"
    "map_of (tb_is_index tb') = col_map (cols @ [c]) (\<lambda>j. fi_index ((cols @ [c]) ! j))"
    using l n none num i(1) unfolding tb' map_of_insert
    by (simp_all add: layout_def col_map_snoc [where f' = int] col_map_snoc [where f' = "\<lambda>j. int (off_of cols j)"]
      col_map_snoc [where f' = "\<lambda>j. fi_type (cols ! j)"] col_map_snoc [where f' = "\<lambda>j. fi_index (cols ! j)"] off_of_snoc nth_append)
  have "length (tb_attr_idx tb') = length (cols @ [c])" "length (tb_offset tb') = length (cols @ [c])"
    "tb_idx_offset tb' = map (off_of (cols @ [c])) [0..<length (cols @ [c])]" "distinct (map fi_name (cols @ [c]))"
    using l n none i(1) by (simp_all add: layout_def tb' length_om_insert off_of_snoc)
  then have "layout (cols @ [c]) tb'"
    unfolding layout_def using mp len num1 i tb'(4,5,9) by (simp add: row_size_snoc)
  then show ?thesis using tb' i by (simp add: row_size_snoc)
qed

lemma add_fields_layout:
  "\<lbrakk>add_fields fs tb = (0, tb'); layout cols tb; tb_item_length tb = row_size cols; tb_attrs tb = map fi_type cols;
    length (cols @ fs) \<le> 255\<rbrakk> \<Longrightarrow>
    layout (cols @ fs) tb' \<and> tb_item_length tb' = row_size (cols @ fs) \<and> tb_attrs tb' = map fi_type (cols @ fs) \<and>
    tb_sm tb' = tb_sm tb \<and> tb_keys tb' = tb_keys tb \<and> tb_last tb' = tb_last tb"
proof (induction fs arbitrary: cols tb)
  case (Cons c fs)
  have "map_of (tb_attr_idx tb) (fi_name c) = None"
    using Cons.prems(1) by (cases "map_of (tb_attr_idx tb) (fi_name c)") (simp_all add: TB_AddField_def)
  then have n: "fi_name c \<notin> fi_name ` set cols" using Cons.prems(2) by (simp add: layout_def col_map_None)
  obtain tb1 where tb1: "TB_AddField (fi_name c) (fi_type c) (fi_index c) tb = (0, tb1)" "layout (cols @ [c]) tb1"
    "tb_item_length tb1 = row_size (cols @ [c])" "tb_attrs tb1 = map fi_type (cols @ [c])" "tb_sm tb1 = tb_sm tb" "tb_keys tb1 = tb_keys tb"
    "tb_last tb1 = tb_last tb"
    using TB_AddField_layout [OF Cons.prems(2) n _ Cons.prems(3,4)] Cons.prems(5) by auto
  then have "add_fields fs tb1 = (0, tb')" using Cons.prems(1) by simp
  then show ?case using Cons.IH [OF _ tb1(2-4)] Cons.prems(5) tb1(5-7) by simp
qed (simp add: layout_def)

lemma add_fields_ok:
  "\<lbrakk>layout cols tb; tb_item_length tb = row_size cols; tb_attrs tb = map fi_type cols; length (cols @ fs) \<le> 255;
    distinct (map fi_name (cols @ fs))\<rbrakk> \<Longrightarrow> \<exists>tb'. add_fields fs tb = (0, tb')"
proof (induction fs arbitrary: cols tb)
  case (Cons c fs)
  have n: "fi_name c \<notin> fi_name ` set cols" using Cons.prems(5) by auto
  obtain tb1 where tb1: "TB_AddField (fi_name c) (fi_type c) (fi_index c) tb = (0, tb1)" "layout (cols @ [c]) tb1"
    "tb_item_length tb1 = row_size (cols @ [c])" "tb_attrs tb1 = map fi_type (cols @ [c])"
    using TB_AddField_layout [OF Cons.prems(1) n _ Cons.prems(2,3)] Cons.prems(4) by auto
  then show ?case using Cons.IH [OF tb1(2-4)] Cons.prems(4,5) by simp
qed simp

lemma layout_update:
  assumes "layout cols tb" "tb_idx_offset tb' = tb_idx_offset tb" "tb_item_length tb \<le> tb_item_length tb'" "tb_attrs tb' = tb_attrs tb"
    "tb_field_num tb' = tb_field_num tb" "tb_attr_idx tb' = tb_attr_idx tb" "tb_offset tb' = tb_offset tb" "tb_attr_type tb' = tb_attr_type tb"
    "tb_is_index tb' = tb_is_index tb"
  shows "layout cols tb'"
  using assms by (auto simp: layout_def)

subsection \<open>Slots of a row\<close>

lemma mem_slice_splice_same: "off + length bs \<le> length row \<Longrightarrow> mem_slice (splice off bs row) off (length bs) = Some bs"
  by (simp add: mem_slice_Some) (simp add: splice_def)

lemma mem_slice_splice_other:
  assumes "off + length bs \<le> length row" "a + n \<le> off \<or> off + length bs \<le> a"
  shows "mem_slice (splice off bs row) a n = mem_slice row a n"
proof -
  have "take n (drop a (splice off bs row)) = take n (drop a row)" if "a + n \<le> length row"
    using that assms by (intro nth_equalityI) (auto simp: splice_nth)
  then show ?thesis using assms(1) by (simp add: mem_slice_def)
qed

lemma slot_read_pos: "mem_slice row off 8 = Some (pos_bytes b p n) \<Longrightarrow> read_pos row off = Some (b, p, n)"
proof -
  assume a: "mem_slice row off 8 = Some (pos_bytes b p n)"
  then have l: "off + 8 \<le> length row" and t: "take 8 (drop off row) = pos_bytes b p n" by (simp_all add: mem_slice_Some)
  have "row = take off row @ pos_bytes b p n @ drop (off + 8) row"
    using t by (metis append_take_drop_id drop_drop add.commute)
  then show ?thesis using read_pos_bytes [of "take off row" off b p n "drop (off + 8) row"] l by simp
qed

definition value_at :: "sm \<Rightarrow> nat \<Rightarrow> data_type \<Rightarrow> byte list \<Rightarrow> byte list \<Rightarrow> bool" where
  "value_at m i t bs v \<longleftrightarrow> (if t = STRING then str_at m i bs v else bs = v)"

definition doc_at :: "field_info list \<Rightarrow> sm \<Rightarrow> nat \<Rightarrow> byte list \<Rightarrow> (byte list \<rightharpoonup> byte list) \<Rightarrow> bool" where
  "doc_at cols m i row rc \<longleftrightarrow> (\<forall>j < length cols. \<forall>v. rc (fi_name (cols ! j)) = Some v \<longrightarrow>
     (\<exists>bs. mem_slice row (off_of cols j) (col_size cols j) = Some bs \<and> value_at m i (fi_type (cols ! j)) bs v))"

lemma value_at_mono:
  "\<lbrakk>value_at m i t bs v; \<And>b ip u. sm_has seg_items m i b ip u \<Longrightarrow> sm_has seg_items m' i b ip u\<rbrakk> \<Longrightarrow> value_at m' i t bs v"
  by (auto simp: value_at_def intro: str_at_mono)

lemma doc_at_mono:
  "\<lbrakk>doc_at cols m i row rc; \<And>b ip u. sm_has seg_items m i b ip u \<Longrightarrow> sm_has seg_items m' i b ip u\<rbrakk> \<Longrightarrow> doc_at cols m' i row rc"
  unfolding doc_at_def using value_at_mono by blast

text \<open>What a row keeps of a value.\<close>

definition kept :: "field_info \<Rightarrow> byte list \<Rightarrow> byte list" where
  "kept c v = (if fi_type c = STRING then (if fi_index c \<and> 2048 < length v then take 2048 v else v)
     else take (FTypeSize (fi_type c)) (c_str v))"

definition val_ok :: "field_info \<Rightarrow> byte list \<Rightarrow> bool" where
  "val_ok c v \<longleftrightarrow> (if fi_type c = STRING then length v \<le> 65535 else FTypeSize (fi_type c) \<le> length v + 1)"

text \<open>The storage manager of a table, with rows of length \<open>L\<close>.\<close>

definition rows_mgr :: "nat \<Rightarrow> byte list list \<Rightarrow> nat \<Rightarrow> sm \<Rightarrow> bool" where
  "rows_mgr L items P m \<longleftrightarrow> sm_repr seg_items L m items P \<and> sm_strings m \<and> sm_capacity m = 400000"

definition has_all :: "sm \<Rightarrow> sm \<Rightarrow> bool" where
  "has_all m m' \<longleftrightarrow> (\<forall>i b ip u. sm_has seg_items m i b ip u \<longrightarrow> sm_has seg_items m' i b ip u)"

lemma has_all_refl [simp]: "has_all m m"
  by (simp add: has_all_def)

lemma has_all_trans: "\<lbrakk>has_all a b; has_all b c\<rbrakk> \<Longrightarrow> has_all a c"
  by (simp add: has_all_def)

lemma rows_mgr_AddString:
  assumes m: "rows_mgr L items P m" and v: "length v \<le> 65535" "last_off m + length v < 4294967296"
  shows "\<exists>e b ip m'. SM_AddString v m = Some (e, b, ip, m') \<and> rows_mgr L items P m' \<and> has_all m m' \<and>
    sm_has seg_items m' (length items) b ip v \<and> last_off m' = last_off m + length v"
proof -
  have r: "sm_repr seg_items L m items P" and st: "sm_strings m" and c: "sm_capacity m = 400000"
    using m by (simp_all add: rows_mgr_def)
  have "str_room m (length v)" using str_room_bytes [OF st last_seg(4) [OF r] _ v] c by simp
  from SM_AddString_spec [OF r st this] show ?thesis using c by (auto simp: rows_mgr_def has_all_def)
qed

lemma rows_mgr_Add:
  assumes m: "rows_mgr L items P m" and v: "length v = L" and n: "length items < 199000000"
  shows "\<exists>m'. SM_Add v m = (0, m') \<and> rows_mgr L (items @ [v]) P m' \<and> has_all m m' \<and> last_off m' \<le> last_off m"
proof -
  have r: "sm_repr seg_items L m items P" and st: "sm_strings m" and c: "sm_capacity m = 400000"
    using m by (simp_all add: rows_mgr_def)
  obtain m' where m': "SM_Add v m = (0, m')" "sm_repr seg_items L m' (items @ [v]) P"
    using SM_Add_spec [OF r v segs_left [OF r c n]] by blast
  show ?thesis using m' SM_Add_strings [OF r st v] SM_Add_capacity [of v m] c by (auto simp: rows_mgr_def has_all_def)
qed

lemma rows_mgr_Get:
  assumes m: "rows_mgr L items P m" and i: "i < P"
  shows "\<exists>m'. SM_Get g (int i) m = Some (0, items ! i, m') \<and> rows_mgr L items P m' \<and> has_all m m'"
proof -
  have r: "sm_repr seg_items L m items P" and st: "sm_strings m" and c: "sm_capacity m = 400000"
    using m by (simp_all add: rows_mgr_def)
  obtain m' where m': "SM_Get g (int i) m = Some (0, items ! i, m')" "sm_repr seg_items L m' items P"
    using SM_Get_spec [OF r i] by blast
  show ?thesis using m' SM_Get_strings [OF st m'(1)] SM_Get_capacity [OF m'(1)] c by (auto simp: rows_mgr_def has_all_def)
qed

lemma rows_mgr_GetString:
  assumes m: "rows_mgr L items P m" and i: "i < length items" and h: "sm_has seg_items m i b ip v"
  shows "\<exists>m'. SM_GetString g (int i) b ip (length v) m = Some (0, v, m') \<and> rows_mgr L items P m' \<and> has_all m m'"
proof -
  have r: "sm_repr seg_items L m items P" and st: "sm_strings m" and c: "sm_capacity m = 400000"
    using m by (simp_all add: rows_mgr_def)
  obtain c' where c': "SM_GetString g (int i) b ip (length v) m = Some (0, v, m\<lparr>sm_str_cache := c'\<rparr>)"
    "sm_repr seg_items L (m\<lparr>sm_str_cache := c'\<rparr>) items P" "sm_strings (m\<lparr>sm_str_cache := c'\<rparr>)"
    "sm_has seg_items (m\<lparr>sm_str_cache := c'\<rparr>) = sm_has seg_items m"
    using SM_GetString_spec [OF r st i h] by metis
  then show ?thesis using c by (intro exI [of _ "m\<lparr>sm_str_cache := c'\<rparr>"]) (simp add: rows_mgr_def has_all_def)
qed

lemma rows_mgr_Writer:
  assumes m: "rows_mgr L items P m" and n: "P + n \<le> length items"
  shows "\<exists>m'. SM_Writer n m = Some m' \<and> rows_mgr L items (P + n) m' \<and> has_all m m'"
proof -
  have r: "sm_repr seg_items L m items P" and st: "sm_strings m" and c: "sm_capacity m = 400000"
    using m by (simp_all add: rows_mgr_def)
  have "n \<le> length (sm_queue m)" using r n by (simp add: sm_repr_def)
  from SM_Writer_spec [OF r this] obtain m' where m': "SM_Writer n m = Some m'" "sm_repr seg_items L m' items (P + n)" by blast
  show ?thesis using m' SM_Writer_strings [OF st m'(1)] SM_Writer_capacity [OF m'(1)] c by (auto simp: rows_mgr_def has_all_def)
qed

subsection \<open>Writing a value\<close>

lemma CheckStrLen_kept:
  assumes l: "layout cols tb" and j: "j < length cols" and v: "length val \<le> 65535"
  shows "TB_CheckStrLen (fi_name (cols ! j)) (of_nat (length val)) tb =
    (if fi_index (cols ! j) \<and> 2048 < length val then 2048 else of_nat (length val), tb)"
proof -
  have i: "map_of (tb_is_index tb) (fi_name (cols ! j)) = Some (fi_index (cols ! j))"
    using l j col_map_in [of cols j] by (simp add: layout_def)
  have "unat (of_nat (length val) :: u16) = length val" using v by (simp add: unat_of_nat take_bit_nat_eq_self_iff)
  then have "(2048 :: u16) < of_nat (length val) \<longleftrightarrow> 2048 < length val" by (simp add: word_less_nat_alt)
  then show ?thesis using i by (simp add: TB_CheckStrLen_def om_index_def)
qed

lemma put_value_ok:
  assumes l: "layout cols tb" and j: "j < length cols" and m: "tb_sm tb = Some m" "rows_mgr L items P m"
    and v: "val_ok (cols ! j) val" "last_off m + length val < 4294967296" and row: "length row = tb_item_length tb"
  shows "\<exists>row' m'. put_value (fi_name (cols ! j)) (fi_type (cols ! j)) (off_of cols j) val row tb = Some (row', tb\<lparr>tb_sm := Some m'\<rparr>) \<and>
    rows_mgr L items P m' \<and> has_all m m' \<and> last_off m' \<le> last_off m + length val \<and> length row' = length row \<and>
    (\<exists>bs. mem_slice row' (off_of cols j) (col_size cols j) = Some bs \<and> value_at m' (length items) (fi_type (cols ! j)) bs (kept (cols ! j) val)) \<and>
    (\<forall>a n. a + n \<le> off_of cols j \<or> off_of cols j + col_size cols j \<le> a \<longrightarrow> mem_slice row' a n = mem_slice row a n)"
proof -
  let ?c = "cols ! j" and ?off = "off_of cols j"
  have fit: "?off + col_size cols j \<le> length row" using off_of_in [OF j] l row by (simp add: layout_def)
  show ?thesis
  proof (cases "fi_type ?c = STRING")
    case False
    let ?bs = "take (col_size cols j) (c_str val)"
    have cl: "col_size cols j \<le> length (c_str val)" using v(1) False by (simp add: val_ok_def c_str_def)
    then have lb: "length ?bs = col_size cols j" by simp
    have s: "mem_slice (c_str val) 0 (col_size cols j) = Some ?bs" using cl by (simp add: mem_slice_Some)
    have p: "mem_put ?off ?bs row = Some (splice ?off ?bs row)" using fit lb by (simp add: mem_put_def)
    have "put_value (fi_name ?c) (fi_type ?c) ?off val row tb = Some (splice ?off ?bs row, tb\<lparr>tb_sm := Some m\<rparr>)"
      using False s p m(1) by (simp add: put_value_def)
    moreover have "mem_slice (splice ?off ?bs row) ?off (col_size cols j) = Some ?bs"
      using mem_slice_splice_same [of ?off ?bs row] fit lb by simp
    moreover have "value_at m (length items) (fi_type ?c) ?bs (kept ?c val)" using False by (simp add: value_at_def kept_def)
    moreover have "mem_slice (splice ?off ?bs row) a n = mem_slice row a n" if "a + n \<le> ?off \<or> ?off + col_size cols j \<le> a" for a n
      using mem_slice_splice_other [of ?off ?bs row a n] fit lb that by simp
    moreover have "length (splice ?off ?bs row) = length row" using fit lb by simp
    ultimately show ?thesis using m(2) by (intro exI [of _ "splice ?off ?bs row"] exI [of _ m]) (simp del: take_eq_Nil)
  next
    case True
    have vl: "length val \<le> 65535" using v(1) True by (simp add: val_ok_def)
    let ?v = "kept ?c val"
    have kl: "length ?v \<le> length val" "length ?v \<le> 65535" and pre: "?v = take (length ?v) val" using True vl by (auto simp: kept_def)
    let ?len = "if fi_index ?c \<and> 2048 < length val then 2048 else of_nat (length val) :: u16"
    have le: "?len = of_nat (length ?v)" using True by (simp add: kept_def)
    have lu: "unat (of_nat (length ?v) :: u16) = length ?v" using kl(2) by (simp add: unat_of_nat take_bit_nat_eq_self_iff)
    have sl: "mem_slice (c_str val) 0 (length ?v) = Some ?v" using pre kl(1) by (simp add: mem_slice_Some c_str_def)
    have "last_off m + length ?v < 4294967296" using v(2) kl(1) by simp
    then obtain e b ip m' where m': "SM_AddString ?v m = Some (e, b, ip, m')" "rows_mgr L items P m'" "has_all m m'"
      "sm_has seg_items m' (length items) b ip ?v" "last_off m' = last_off m + length ?v"
      using rows_mgr_AddString [OF m(2) kl(2)] by blast
    let ?bs = "pos_bytes b ip (of_nat (length ?v))"
    have sz: "col_size cols j = 8" using True by simp
    have p: "mem_put ?off ?bs row = Some (splice ?off ?bs row)" using fit sz by (simp add: mem_put_def)
    have "put_value (fi_name ?c) (fi_type ?c) ?off val row tb = Some (splice ?off ?bs row, tb\<lparr>tb_sm := Some m'\<rparr>)"
      using True CheckStrLen_kept [OF l j vl] sl m'(1) p m(1) by (simp only: put_value_def le) (simp add: lu)
    moreover have "mem_slice (splice ?off ?bs row) ?off (col_size cols j) = Some ?bs"
      using mem_slice_splice_same [of ?off ?bs row] fit sz by simp
    moreover have "value_at m' (length items) (fi_type ?c) ?bs ?v" using True m'(4) kl(2) by (auto simp: value_at_def str_at_def)
    moreover have "mem_slice (splice ?off ?bs row) a n = mem_slice row a n" if "a + n \<le> ?off \<or> ?off + col_size cols j \<le> a" for a n
      using mem_slice_splice_other [of ?off ?bs row a n] fit sz that by simp
    moreover have "length (splice ?off ?bs row) = length row" using fit sz by simp
    ultimately show ?thesis using m' kl(1) by (intro exI [of _ "splice ?off ?bs row"] exI [of _ m']) auto
  qed
qed

subsection \<open>Writing the fields of a document\<close>

definition fields_ok :: "field_info list \<Rightarrow> doc_field list \<Rightarrow> bool" where
  "fields_ok cols fs \<longleftrightarrow> (\<forall>f \<in> set fs. \<exists>j < length cols. fd_name f = fi_name (cols ! j) \<and> val_ok (cols ! j) (fd_value f))"

definition rec_add :: "field_info list \<Rightarrow> doc_field \<Rightarrow> (byte list \<rightharpoonup> byte list) \<Rightarrow> byte list \<rightharpoonup> byte list" where
  "rec_add cols f rc = rc(fd_name f \<mapsto> kept (the (col_map cols (\<lambda>j. cols ! j) (fd_name f))) (fd_value f))"

definition rec_of :: "field_info list \<Rightarrow> doc_field list \<Rightarrow> byte list \<rightharpoonup> byte list" where
  "rec_of cols fs = foldl (\<lambda>rc f. rec_add cols f rc) Map.empty fs"

definition bytes_of :: "doc_field list \<Rightarrow> nat" where
  "bytes_of fs = sum_list (map (\<lambda>f. length (fd_value f)) fs)"

lemma layout_lookup:
  assumes "layout cols tb" "j < length cols"
  shows "map_of (tb_offset tb) (fi_name (cols ! j)) = Some (int (off_of cols j))"
    "map_of (tb_attr_type tb) (fi_name (cols ! j)) = Some (fi_type (cols ! j))"
    "map_of (tb_attr_idx tb) (fi_name (cols ! j)) = Some (int j)"
  using assms col_map_in [of cols j] by (simp_all add: layout_def)

lemma rec_add_col:
  "\<lbrakk>distinct (map fi_name cols); j < length cols; fd_name f = fi_name (cols ! j)\<rbrakk> \<Longrightarrow>
    rec_add cols f rc = rc(fi_name (cols ! j) \<mapsto> kept (cols ! j) (fd_value f))"
  by (simp add: rec_add_def col_map_in)

text \<open>Writing one field.\<close>

lemma doc_at_put:
  assumes d: "distinct (map fi_name cols)" and j: "j < length cols" and doc: "doc_at cols m i row rc" and m: "has_all m m'"
    and new: "mem_slice row' (off_of cols j) (col_size cols j) = Some bs" "value_at m' i (fi_type (cols ! j)) bs v"
    and old: "\<And>a n. a + n \<le> off_of cols j \<or> off_of cols j + col_size cols j \<le> a \<Longrightarrow> mem_slice row' a n = mem_slice row a n"
  shows "doc_at cols m' i row' (rc(fi_name (cols ! j) \<mapsto> v))"
  unfolding doc_at_def
proof (intro allI impI)
  fix k u assume k: "k < length cols" and u: "(rc(fi_name (cols ! j) \<mapsto> v)) (fi_name (cols ! k)) = Some u"
  show "\<exists>bs. mem_slice row' (off_of cols k) (col_size cols k) = Some bs \<and> value_at m' i (fi_type (cols ! k)) bs u"
  proof (cases "k = j")
    case True
    then show ?thesis using new u by simp
  next
    case False
    then have "fi_name (cols ! k) \<noteq> fi_name (cols ! j)" using d j k nth_eq_iff_index_eq [of "map fi_name cols" k j] by simp
    then have "rc (fi_name (cols ! k)) = Some u" using u by simp
    then obtain bs' where "mem_slice row (off_of cols k) (col_size cols k) = Some bs'" "value_at m i (fi_type (cols ! k)) bs' u"
      using doc k by (auto simp: doc_at_def)
    moreover have "off_of cols k + col_size cols k \<le> off_of cols j \<or> off_of cols j + col_size cols j \<le> off_of cols k"
      using False j k off_of_apart [of k j cols] off_of_apart [of j k cols] by linarith
    ultimately show ?thesis using old value_at_mono m unfolding has_all_def by metis
  qed
qed

lemma put_values_ok:
  "\<lbrakk>layout cols tb; fields_ok cols fs; tb_sm tb = Some m; rows_mgr L items P m; last_off m + bytes_of fs < 4294967296;
    length row = tb_item_length tb; doc_at cols m (length items) row rc\<rbrakk> \<Longrightarrow>
    \<exists>row' m'. put_values fs row tb = Some (row', tb\<lparr>tb_sm := Some m'\<rparr>) \<and> rows_mgr L items P m' \<and> has_all m m' \<and>
      last_off m' \<le> last_off m + bytes_of fs \<and> length row' = length row \<and>
      doc_at cols m' (length items) row' (foldl (\<lambda>rc f. rec_add cols f rc) rc fs)"
proof (induction fs arbitrary: row tb m rc)
  case Nil
  then show ?case by (intro exI [of _ row] exI [of _ m]) simp
next
  case (Cons f fs)
  obtain j where j: "j < length cols" "fd_name f = fi_name (cols ! j)" "val_ok (cols ! j) (fd_value f)"
    using Cons.prems(2) by (auto simp: fields_ok_def)
  have b: "bytes_of (f # fs) = length (fd_value f) + bytes_of fs" by (simp add: bytes_of_def)
  have off: "last_off m + length (fd_value f) < 4294967296" using Cons.prems(5) b by simp
  obtain row1 m1 bs where p: "put_value (fi_name (cols ! j)) (fi_type (cols ! j)) (off_of cols j) (fd_value f) row tb =
      Some (row1, tb\<lparr>tb_sm := Some m1\<rparr>)"
    "rows_mgr L items P m1" "has_all m m1" "last_off m1 \<le> last_off m + length (fd_value f)" "length row1 = length row"
    "mem_slice row1 (off_of cols j) (col_size cols j) = Some bs" "value_at m1 (length items) (fi_type (cols ! j)) bs (kept (cols ! j) (fd_value f))"
    "\<forall>a n. a + n \<le> off_of cols j \<or> off_of cols j + col_size cols j \<le> a \<longrightarrow> mem_slice row1 a n = mem_slice row a n"
    using put_value_ok [OF Cons.prems(1) j(1) Cons.prems(3,4) j(3) off Cons.prems(6)] by blast
  have d: "distinct (map fi_name cols)" using Cons.prems(1) by (simp add: layout_def)
  have "doc_at cols m1 (length items) row1 (rc(fi_name (cols ! j) \<mapsto> kept (cols ! j) (fd_value f)))"
    using doc_at_put [OF d j(1) Cons.prems(7) p(3,6,7)] p(8) by blast
  then have doc: "doc_at cols m1 (length items) row1 (rec_add cols f rc)" using rec_add_col [OF d j(1,2)] by simp
  have step: "put_values (f # fs) row tb = put_values fs row1 (tb\<lparr>tb_sm := Some m1\<rparr>)"
    using p(1) layout_lookup [OF Cons.prems(1) j(1)] by (simp add: om_index_def j(2))
  have l1: "layout cols (tb\<lparr>tb_sm := Some m1\<rparr>)" using Cons.prems(1) by (rule layout_update) simp_all
  have "fields_ok cols fs" using Cons.prems(2) by (simp add: fields_ok_def)
  moreover have "last_off m1 + bytes_of fs < 4294967296" using p(4) Cons.prems(5) b by simp
  ultimately obtain row' m' where "put_values fs row1 (tb\<lparr>tb_sm := Some m1\<rparr>) = Some (row', tb\<lparr>tb_sm := Some m1\<rparr>\<lparr>tb_sm := Some m'\<rparr>)"
    "rows_mgr L items P m'" "has_all m1 m'" "last_off m' \<le> last_off m1 + bytes_of fs" "length row' = length row1"
    "doc_at cols m' (length items) row' (foldl (\<lambda>rc f. rec_add cols f rc) (rec_add cols f rc) fs)"
    using Cons.IH [OF l1 _ _ p(2) _ _ doc] p(5) Cons.prems(6) by auto
  then show ?case using step p(3-5) b has_all_trans by (intro exI [of _ row'] exI [of _ m']) auto
qed

subsection \<open>The table as a list of documents\<close>

definition tbl_repr :: "field_info list \<Rightarrow> (byte list \<rightharpoonup> byte list) list \<Rightarrow> nat \<Rightarrow> table \<Rightarrow> bool" where
  "tbl_repr cols rows P tb \<longleftrightarrow> layout cols tb \<and> (\<exists>m items. tb_sm tb = Some m \<and> rows_mgr (tb_item_length tb) items P m \<and>
     length items = length rows \<and> (\<forall>i < length rows. doc_at cols m i (items ! i) (rows ! i)))"

definition str_used :: "table \<Rightarrow> nat" where
  "str_used tb = (case tb_sm tb of None \<Rightarrow> 0 | Some m \<Rightarrow> last_off m)"

lemma tbl_insert_key: "tbl_repr cols rows P (insert_key k i tb) = tbl_repr cols rows P tb"
proof -
  have "layout cols (insert_key k i tb) = layout cols tb" by (simp add: insert_key_def layout_def)
  then show ?thesis by (simp add: tbl_repr_def) (simp add: insert_key_def)
qed

lemma insert_key_simps [simp]:
  "tb_id_type (insert_key k i tb) = tb_id_type tb" "tb_bitmap (insert_key k i tb) = tb_bitmap tb" "tb_fields (insert_key k i tb) = tb_fields tb"
  "tb_keys (insert_key k i tb) = [k \<mapsto> i] ++ tb_keys tb" "tb_last (insert_key k i tb) = tb_last tb" "tb_sm (insert_key k i tb) = tb_sm tb"
  "tb_item_length (insert_key k i tb) = tb_item_length tb" "tb_attr_idx (insert_key k i tb) = tb_attr_idx tb"
  by (auto simp: insert_key_def map_add_def fun_eq_iff split: option.split)

lemma sm_only:
  assumes "tb' = tb\<lparr>tb_sm := x\<rparr>"
  shows "tb_id_type tb' = tb_id_type tb" "tb_keys tb' = tb_keys tb" "tb_bitmap tb' = tb_bitmap tb" "tb_fields tb' = tb_fields tb"
    "tb_last tb' = tb_last tb" "tb_key_name tb' = tb_key_name tb" "tb_attr_idx tb' = tb_attr_idx tb" "tb_item_length tb' = tb_item_length tb"
  using assms by simp_all

lemma tbl_last: "tbl_repr cols rows P (tb\<lparr>tb_last := x\<rparr>) = tbl_repr cols rows P tb"
  by (simp add: tbl_repr_def layout_def)

text \<open>Writing the row of a document appends it.\<close>

lemma write_doc_ok:
  assumes r: "tbl_repr cols rows P tb" and fs: "fields_ok cols fs"
    and room: "length rows < 199000000" "str_used tb + bytes_of fs < 4294967296"
  shows "\<exists>row m1 m2. put_values fs (uninit_row junk tb) tb = Some (row, tb\<lparr>tb_sm := Some m1\<rparr>) \<and>
    add_row row (tb\<lparr>tb_sm := Some m1\<rparr>) = Some (tb\<lparr>tb_sm := Some m2\<rparr>) \<and>
    tbl_repr cols (rows @ [rec_of cols fs]) P (tb\<lparr>tb_sm := Some m2\<rparr>) \<and> last_off m2 \<le> str_used tb + bytes_of fs"
proof -
  obtain m items where m: "layout cols tb" "tb_sm tb = Some m" "rows_mgr (tb_item_length tb) items P m" "length items = length rows"
    "\<forall>i < length rows. doc_at cols m i (items ! i) (rows ! i)"
    using r by (auto simp: tbl_repr_def)
  have "doc_at cols m (length items) (uninit_row junk tb) Map.empty" by (simp add: doc_at_def)
  moreover have su: "str_used tb = last_off m" using m(2) by (simp add: str_used_def)
  ultimately obtain row m1 where p: "put_values fs (uninit_row junk tb) tb = Some (row, tb\<lparr>tb_sm := Some m1\<rparr>)"
    "rows_mgr (tb_item_length tb) items P m1" "has_all m m1" "last_off m1 \<le> last_off m + bytes_of fs" "length row = tb_item_length tb"
    "doc_at cols m1 (length items) row (rec_of cols fs)"
    using put_values_ok [OF m(1) fs(1) m(2,3), of "uninit_row junk tb" Map.empty] room(2) by (auto simp: rec_of_def uninit_row_def)
  obtain m2 where m2: "SM_Add row m1 = (0, m2)" "rows_mgr (tb_item_length tb) (items @ [row]) P m2" "has_all m1 m2" "last_off m2 \<le> last_off m1"
    using rows_mgr_Add [OF p(2,5)] room(1) m(4) by auto
  have "layout cols (tb\<lparr>tb_sm := Some m2\<rparr>)" using m(1) by (rule layout_update) simp_all
  moreover have "doc_at cols m2 i ((items @ [row]) ! i) ((rows @ [rec_of cols fs]) ! i)" if "i < length (rows @ [rec_of cols fs])" for i
  proof -
    have h: "\<And>b ip u. sm_has seg_items m i b ip u \<Longrightarrow> sm_has seg_items m2 i b ip u"
      "\<And>b ip u. sm_has seg_items m1 i b ip u \<Longrightarrow> sm_has seg_items m2 i b ip u" for i
      using p(3) m2(3) by (auto simp: has_all_def)
    show ?thesis
    proof (cases "i < length rows")
      case True
      then show ?thesis using doc_at_mono [OF m(5) [rule_format, OF True] h(1)] m(4) by (simp add: nth_append)
    next
      case False
      then have "i = length items" using that m(4) by simp
      then show ?thesis using doc_at_mono [OF p(6) h(2)] m(4) by (simp add: nth_append)
    qed
  qed
  ultimately have "tbl_repr cols (rows @ [rec_of cols fs]) P (tb\<lparr>tb_sm := Some m2\<rparr>)"
    using m2(2) m(4) by (auto simp: tbl_repr_def)
  moreover have "add_row row (tb\<lparr>tb_sm := Some m1\<rparr>) = Some (tb\<lparr>tb_sm := Some m2\<rparr>)" by (simp add: add_row_def m2(1))
  moreover have "last_off m2 \<le> str_used tb + bytes_of fs" using p(4) m2(4) su by simp
  ultimately show ?thesis using p(1) by blast
qed

lemma TB_Add_ok:
  assumes r: "tbl_repr cols rows P tb" and fs: "fields_ok cols fs" "length fs = length cols" and key: "key \<noteq> []" "key_of hash key tb = Some k"
    and room: "length rows < 199000000" "str_used tb + bytes_of fs < 4294967296"
  shows "\<exists>tb'. TB_Add hash junk key fs docid tb = Some (0, tb') \<and> tbl_repr cols (rows @ [rec_of cols fs]) P tb' \<and>
    tb_keys tb' = [k \<mapsto> docid] ++ tb_keys tb \<and> tb_last tb' = docid \<and> str_used tb' \<le> str_used tb + bytes_of fs \<and>
    tb_id_type tb' = tb_id_type tb \<and> tb_fields tb' = tb_fields tb \<and> tb_bitmap tb' = tb_bitmap tb"
proof -
  let ?t1 = "insert_key k docid tb"
  have "tbl_repr cols rows P ?t1" using r by (simp add: tbl_insert_key)
  moreover have "str_used ?t1 = str_used tb" "uninit_row junk ?t1 = uninit_row junk tb" by (simp_all add: str_used_def uninit_row_def)
  ultimately obtain row m1 m2 where w: "put_values fs (uninit_row junk tb) ?t1 = Some (row, ?t1\<lparr>tb_sm := Some m1\<rparr>)"
    "add_row row (?t1\<lparr>tb_sm := Some m1\<rparr>) = Some (?t1\<lparr>tb_sm := Some m2\<rparr>)" "tbl_repr cols (rows @ [rec_of cols fs]) P (?t1\<lparr>tb_sm := Some m2\<rparr>)"
    "last_off m2 \<le> str_used tb + bytes_of fs"
    using write_doc_ok [of cols rows P ?t1 fs junk] fs(1) room by auto
  have "length (tb_attr_idx tb) = length cols" using r by (simp add: tbl_repr_def layout_def)
  then have "TB_Add hash junk key fs docid tb = Some (0, ?t1\<lparr>tb_sm := Some m2, tb_last := docid\<rparr>)"
    using fs(2) key w(1,2) by (simp add: TB_Add_def)
  moreover have "tbl_repr cols (rows @ [rec_of cols fs]) P (?t1\<lparr>tb_sm := Some m2, tb_last := docid\<rparr>)"
    using w(3) tbl_last [where tb = "?t1\<lparr>tb_sm := Some m2\<rparr>" and x = docid] by simp
  ultimately show ?thesis using w(4) by (intro exI [of _ "?t1\<lparr>tb_sm := Some m2, tb_last := docid\<rparr>"]) (simp add: str_used_def)
qed

subsection \<open>Reading\<close>

lemma tblE:
  assumes "tbl_repr cols rows P tb"
  obtains m items where "layout cols tb" "tb_sm tb = Some m" "rows_mgr (tb_item_length tb) items P m" "length items = length rows"
    "\<forall>i < length rows. doc_at cols m i (items ! i) (rows ! i)" "P \<le> length rows"
proof -
  obtain m items where m: "layout cols tb" "tb_sm tb = Some m" "rows_mgr (tb_item_length tb) items P m" "length items = length rows"
    "\<forall>i < length rows. doc_at cols m i (items ! i) (rows ! i)"
    using assms by (auto simp: tbl_repr_def)
  then have "P \<le> length rows" by (auto simp: rows_mgr_def sm_repr_def)
  then show thesis using that m by blast
qed

text \<open>Only the storage manager changes, and its contents stay.\<close>

lemma tbl_frame:
  assumes r: "layout cols tb" "length items = length rows" "\<forall>i < length rows. doc_at cols m i (items ! i) (rows ! i)"
    and m: "rows_mgr (tb_item_length tb) items P' m'" "has_all m m'"
  shows "tbl_repr cols rows P' (tb\<lparr>tb_sm := Some m'\<rparr>)"
proof -
  have "layout cols (tb\<lparr>tb_sm := Some m'\<rparr>)" using r(1) by (rule layout_update) simp_all
  moreover have "doc_at cols m' i (items ! i) (rows ! i)" if "i < length rows" for i
    using doc_at_mono [OF r(3) [rule_format, OF that]] m(2) by (simp add: has_all_def)
  ultimately show ?thesis using r(2) m(1) by (auto simp: tbl_repr_def)
qed

definition tbl_write :: "nat \<Rightarrow> table \<Rightarrow> table option" where
  "tbl_write n tb = do { m \<leftarrow> tb_sm tb; m' \<leftarrow> SM_Writer n m; Some (tb\<lparr>tb_sm := Some m'\<rparr>) }"

lemma tbl_write_ok:
  assumes "tbl_repr cols rows P tb" "P + n \<le> length rows"
  shows "\<exists>tb'. tbl_write n tb = Some tb' \<and> tbl_repr cols rows (P + n) tb' \<and> tb' = tb\<lparr>tb_sm := tb_sm tb'\<rparr>"
proof -
  obtain m items where m: "layout cols tb" "tb_sm tb = Some m" "rows_mgr (tb_item_length tb) items P m" "length items = length rows"
    "\<forall>i < length rows. doc_at cols m i (items ! i) (rows ! i)"
    by (rule tblE [OF assms(1)])
  obtain m' where m': "SM_Writer n m = Some m'" "rows_mgr (tb_item_length tb) items (P + n) m'" "has_all m m'"
    using rows_mgr_Writer [OF m(3)] assms(2) m(4) by auto
  then show ?thesis using tbl_frame [OF m(1,4,5) m'(2,3)] m(2) by (auto simp: tbl_write_def)
qed

lemma get_row_ok:
  assumes m: "layout cols tb" "tb_sm tb = Some m" "rows_mgr (tb_item_length tb) items P m" and i: "i < P"
  shows "\<exists>m'. get_row g (int i) tb = Some (0, Some (items ! i), tb\<lparr>tb_sm := Some m'\<rparr>) \<and> rows_mgr (tb_item_length tb) items P m' \<and> has_all m m'"
  using rows_mgr_Get [OF m(3) i, of g] m(2) by (auto simp: get_row_def)

text \<open>Reading past the documents fails.\<close>

lemma get_row_beyond:
  assumes m: "tb_sm tb = Some m" "rows_mgr L items P m" and i: "int (length items) \<le> i"
  shows "get_row g i tb = Some (PARAM_ERR, None, tb)"
proof -
  have "sm_size m = length items" using m(2) by (simp add: rows_mgr_def sm_repr_def)
  then have "SM_Get g i m = Some (PARAM_ERR, [], m)" using i by (auto simp: SM_Get_def)
  then show ?thesis by (simp add: get_row_def m(1))
qed

lemma read_value_ok:
  assumes m: "tb_sm tb = Some m" "rows_mgr L items P m" and i: "i < length items"
    and bs: "mem_slice row off (FTypeSize t) = Some bs" "value_at m i t bs v"
  shows "\<exists>m'. read_value g (int i) t off val row tb = Some (v, tb\<lparr>tb_sm := Some m'\<rparr>) \<and> rows_mgr L items P m' \<and> has_all m m'"
proof (cases "t = STRING")
  case False
  then have "read_value g (int i) t off val row tb = Some (v, tb)" using bs by (simp add: read_value_def value_at_def)
  moreover have "tb\<lparr>tb_sm := Some m\<rparr> = tb" using m(1) by simp
  ultimately show ?thesis using m(2) by (intro exI [of _ m]) simp
next
  case True
  then obtain b ip where p: "bs = pos_bytes b ip (of_nat (length v))" "sm_has seg_items m i b ip v" "length v \<le> 65535"
    using bs(2) by (auto simp: value_at_def str_at_def)
  have pos: "read_pos row off = Some (b, ip, of_nat (length v))" using slot_read_pos [of row off] bs(1) True p(1) by simp
  have "unat (of_nat (length v) :: u16) = length v" using p(3) by (simp add: unat_of_nat take_bit_nat_eq_self_iff)
  then show ?thesis using rows_mgr_GetString [OF m(2) i p(2), of g] pos True m(1) by (auto simp: read_value_def)
qed

lemma layout_fetch:
  assumes l: "layout cols tb" and j: "j < length cols"
  shows "\<not> uint (tb_field_num tb) \<le> int j" "fetch (tb_attrs tb) (int j) = Some (fi_type (cols ! j))"
    "fetch (tb_idx_offset tb) (int j) = Some (off_of cols j)" "\<not> int (length (tb_offset tb)) \<le> int j"
  using l j by (auto simp: layout_def fetch_def nth_append)

lemma TB_GetFieldRawValue_row:
  assumes l: "layout cols tb" and j: "j < length cols" and m: "tb_sm tb = Some m" "rows_mgr L items P m"
    and i: "i < length items" and bs: "mem_slice row (off_of cols j) (col_size cols j) = Some bs" "value_at m i (fi_type (cols ! j)) bs v"
  shows "\<exists>m'. TB_GetFieldRawValue g (int i) (int j) val (Some row) tb = Some (0, v, tb\<lparr>tb_sm := Some m'\<rparr>) \<and> rows_mgr L items P m' \<and> has_all m m'"
  using read_value_ok [OF m i bs, of g val] layout_fetch [OF l j]
  by (auto simp: TB_GetFieldRawValue_def given_row_def)

lemma TB_GetFieldRawValue_ok:
  assumes r: "tbl_repr cols rows P tb" and i: "i < P" and j: "j < length cols" and v: "(rows ! i) (fi_name (cols ! j)) = Some v"
  shows "\<exists>tb'. TB_GetFieldRawValue g (int i) (int j) val None tb = Some (0, v, tb') \<and> tbl_repr cols rows P tb' \<and>
    tb' = tb\<lparr>tb_sm := tb_sm tb'\<rparr>"
proof -
  obtain m items where m: "layout cols tb" "tb_sm tb = Some m" "rows_mgr (tb_item_length tb) items P m" "length items = length rows"
    "\<forall>i < length rows. doc_at cols m i (items ! i) (rows ! i)" "P \<le> length rows"
    by (rule tblE [OF r])
  have il: "i < length rows" "i < length items" using i m(4,6) by simp_all
  obtain m1 where m1: "get_row g (int i) tb = Some (0, Some (items ! i), tb\<lparr>tb_sm := Some m1\<rparr>)" "rows_mgr (tb_item_length tb) items P m1" "has_all m m1"
    using get_row_ok [OF m(1-3) i] by blast
  let ?t1 = "tb\<lparr>tb_sm := Some m1\<rparr>"
  obtain bs where bs: "mem_slice (items ! i) (off_of cols j) (col_size cols j) = Some bs" "value_at m i (fi_type (cols ! j)) bs v"
  proof -
    have "doc_at cols m i (items ! i) (rows ! i)" using m(5) il(1) by blast
    then show thesis using that j v unfolding doc_at_def by blast
  qed
  then have "value_at m1 i (fi_type (cols ! j)) bs v" using value_at_mono m1(3) by (auto simp: has_all_def)
  from read_value_ok [OF _ m1(2) il(2) bs(1) this, of ?t1 g val] obtain m2 where
    m2: "read_value g (int i) (fi_type (cols ! j)) (off_of cols j) val (items ! i) ?t1 = Some (v, ?t1\<lparr>tb_sm := Some m2\<rparr>)"
    "rows_mgr (tb_item_length tb) items P m2" "has_all m1 m2"
    by auto
  have l1: "layout cols ?t1" using m(1) by (rule layout_update) simp_all
  have "TB_GetFieldRawValue g (int i) (int j) val None tb = Some (0, v, tb\<lparr>tb_sm := Some m2\<rparr>)"
    using m1(1) m2(1) layout_fetch [OF l1 j] by (simp add: TB_GetFieldRawValue_def given_row_def)
  moreover have "tbl_repr cols rows P (tb\<lparr>tb_sm := Some m2\<rparr>)"
    using tbl_frame [OF m(1,4,5) m2(2) has_all_trans [OF m1(3) m2(3)]] by blast
  ultimately show ?thesis by auto
qed

subsection \<open>A new table\<close>

lemma row_size_le: "row_size cols \<le> 8 * length cols"
proof (induction cols)
  case (Cons c cols)
  have "FTypeSize (fi_type c) \<le> 8" by (cases "fi_type c") simp_all
  then show ?case using Cons by (simp add: row_size_def)
qed (simp add: row_size_def)

lemma open_rows:
  assumes L: "0 < L" "L \<le> 2040"
  shows "\<exists>m. SM_Init 512 512 (open_mgr L empty_folder) = (0, m) \<and> rows_mgr L [] 0 m \<and> last_off m = 0"
proof -
  let ?m = "open_mgr L empty_folder"
  have b: "65536 - L < blk L" "blk L \<le> 65536"
  proof -
    have "65536 div L * L + 65536 mod L = 65536" by (rule div_mult_mod_eq)
    moreover have "65536 mod L < L" using L(1) by simp
    ultimately show "65536 - L < blk L" "blk L \<le> 65536" unfolding blk_def using L(2) by linarith+
  qed
  have "500000 * L \<le> 400000 * blk L" using L b by simp
  then have cf: "sm_cfg seg_items L ?m" using L by (auto simp: sm_cfg_def open_mgr_def)
  have few: "few_segs 1 ?m" by (simp add: few_segs_def open_mgr_def)
  have "536870912 div blk L + 500 < 4294967296" using div_le_dividend [of 536870912 "blk L"] by linarith
  then have cs: "cache_sized 512 (blk L)" "cache_sized 512 MAX_BLOCK_SIZE" by (simp_all add: cache_sized_def)
  obtain m where m: "SM_Init 512 512 ?m = (0, m)" "sm_repr seg_items L m [] 0" "sm_strings m" "sm_capacity m = sm_capacity ?m"
    "sg_str_offset (last (sm_segs m)) = 0"
    using SM_Init_strings [OF cf _ _ _ _ _ cs few] by (auto simp: open_mgr_def empty_folder_def)
  have "sm_capacity m = 400000" using m(4) by (simp add: open_mgr_def)
  then show ?thesis using m by (auto simp: rows_mgr_def)
qed

lemma TB_CreateTable_ok:
  assumes d: "distinct (map fi_name fs)" "length fs \<le> 255"
  shows "\<exists>tb. TB_CreateTable folders None empty_folder compress fs bm (Table_new id_type b) = Some (0, tb) \<and>
    tbl_repr fs [] 0 tb \<and> tb_keys tb = Map.empty \<and> tb_fields tb = Some (fresh 10000) \<and> tb_last tb = -1 \<and> str_used tb = 0"
proof -
  let ?t0 = "Table_new id_type b\<lparr>tb_bitmap := Some bm, tb_compress := compress\<rparr>"
  have l0: "layout [] ?t0" using layout_new by (rule layout_update) simp_all
  have z: "tb_item_length ?t0 = row_size []" "tb_attrs ?t0 = map fi_type []" by (simp_all add: Table_new_def row_size_def)
  obtain t1 where t1: "add_fields fs ?t0 = (0, t1)" using add_fields_ok [OF l0 z] d by auto
  have l1: "layout fs t1" "tb_item_length t1 = row_size fs" "tb_sm t1 = None" "tb_keys t1 = Map.empty" "tb_last t1 = -1"
    using add_fields_layout [OF t1 l0 z] d(2) by (simp_all add: Table_new_def)
  define L where "L = (if row_size fs = 0 then 8 else row_size fs)"
  let ?t2 = "t1\<lparr>tb_created := True, tb_item_length := L, tb_fields := Some (fresh 10000)\<rparr>"
  obtain m where m: "SM_Init 512 512 (open_mgr L empty_folder) = (0, m)" "rows_mgr L [] 0 m" "last_off m = 0"
  proof -
    have "0 < L" "L \<le> 2040" using row_size_le [of fs] d(2) by (auto simp: L_def)
    from open_rows [OF this] show thesis using that by blast
  qed
  have l2: "layout fs (?t2\<lparr>tb_sm := Some m\<rparr>)" using l1(1,2) by (intro layout_update [OF l1(1)]) (simp_all add: L_def)
  have "TB_CreateTable folders None empty_folder compress fs bm (Table_new id_type b) = Some (0, ?t2\<lparr>tb_sm := Some m\<rparr>)"
    using t1 l1(3) m(1) unfolding L_def
    by (cases "row_size fs = 0") (simp_all add: TB_CreateTable_def Let_def DF_Init_fresh TB_InitStorageMgr_def l1(2) Table_new_def)
  moreover have "tbl_repr fs [] 0 (?t2\<lparr>tb_sm := Some m\<rparr>)" using l2 m(2) by (simp add: tbl_repr_def)
  ultimately show ?thesis using l1(4,5) m(3) by (intro exI [of _ "?t2\<lparr>tb_sm := Some m\<rparr>"]) (simp add: str_used_def)
qed

end
