(* ===== verification/TableOps.thy ===== *)
theory TableOps
  imports TableSpec
begin

text \<open>
  The operations of the table beyond adding and reading one document: keys, batches, updates and the
  loading of the key map, over the abstract list of documents of \<open>TableSpec\<close>.
\<close>

subsection \<open>Loading\<close>

lemma le32_of_le32: "length bs = 4 \<Longrightarrow> le32 (of_le32 bs) = bs"
proof -
  assume "length bs = 4"
  then obtain a b c d where bs: "bs = [a, b, c, d]" by (auto simp: length_Suc_conv eval_nat_numeral)
  show ?thesis unfolding bs le32_def of_le32.simps list.inject
    by (intro conjI refl; rule bit_word_eqI; auto simp: bit_simps dest: bit_imp_le_length)
qed

lemma write_same: "\<lbrakk>off + n \<le> length fl; pread fl off n = bs; length bs = n\<rbrakk> \<Longrightarrow> write_at fl off bs = fl"
  by (auto simp: write_at_def pread_def) (metis append_take_drop_id drop_drop add.commute)

text \<open>Truncating to the size it has leaves the manager as it is.\<close>

lemma SM_Truncate_same:
  assumes r: "sm_repr S L m items (length items)" and part: "length items mod S \<noteq> 0"
  shows "SM_Truncate (length items) m = Some (0, m)"
proof -
  let ?n = "length items" and ?k = "length items div S" and ?o = "length items mod S"
  have cf: "sm_cfg S L m" and len: "length (sm_segs m) = ?k + 1" and q: "sm_queue m = []"
    and sz: "sm_size m = ?n"
    and sg: "\<forall>k < length (sm_segs m). seg_repr S L m items ?n k (sm_segs m ! k) \<and> disk_repr S L items ?n k (sm_disk m k)"
    using r unfolding sm_repr_def by auto
  have S: "nat (sm_segment_size m) = S" "0 < S" using cf by (simp_all add: sm_cfg_def)
  let ?s = "sm_segs m ! ?k" and ?sf = "sm_disk m ?k"
  have lst: "last (sm_segs m) = ?s" using len by (metis add_diff_cancel_right' last_conv_nth length_0_conv nat_arith.rule0 add_is_0 zero_neq_one)
  have srk: "seg_repr S L m items ?n ?k ?s" and drk: "disk_repr S L items ?n ?k ?sf" using sg len by simp_all
  have mn: "min S (?n - ?k * S) = ?o" using S(2) by (simp add: minus_div_mult_eq_mod min_def) (meson less_le_not_le mod_less_divisor)
  have buf: "unat (sg_buffered ?s) = ?o" and mx: "sg_max ?s = of_nat S" using srk mn by (simp_all add: seg_repr_def)
  have cur: "unat (sf_cur ?sf) = ?o" "of_le32 (pread (sf_base ?sf) SizeOff 4) = sf_cur ?sf" "header_size + S * L \<le> length (sf_base ?sf)"
    using drk mn by (simp_all add: disk_repr_def)
  have ow: "of_nat ?o = sg_buffered ?s" "of_nat ?o = sf_cur ?sf" using buf cur(1) by (metis of_nat_unat ucast_id)+
  have hl: "SizeOff + 4 \<le> length (sf_base ?sf)" using cur(3) by (simp add: SizeOff_def CapacityOff_def)
  have "le32 (sf_cur ?sf) = pread (sf_base ?sf) SizeOff 4"
    using le32_of_le32 [of "pread (sf_base ?sf) SizeOff 4"] cur(2) hl by (simp add: length_pread)
  then have w: "write_at (sf_base ?sf) SizeOff (le32 (sf_cur ?sf)) = sf_base ?sf" 
    by (intro write_same [OF hl]) (use hl in \<open>simp_all add: length_pread\<close>)
  have "\<not> of_nat ?o < sg_buffered ?s" "\<not> of_nat ?o < sf_cur ?sf" "write_at (sf_base ?sf) SizeOff (le32 (of_nat ?o)) = sf_base ?sf"
    unfolding ow(2) using ow w by auto
  then have sb: "SetBaseSize (of_nat ?o) ?s ?sf = (?s, ?sf)" by (simp add: SetBaseSize_def)
  have su: "unat (of_nat S :: u32) = S"
  proof -
    have "header_size + S * L < 4294967296" "0 < L" using cf by (simp_all add: sm_cfg_def)
    moreover have "S * 1 \<le> S * L" using \<open>0 < L\<close> by (intro mult_le_mono2) simp
    ultimately have "S < 4294967296" by linarith
    then show ?thesis by (rule unat_of_nat32)
  qed
  have "?o < S" using S(2) by simp
  then have nf: "sg_buffered ?s \<noteq> sg_max ?s" using buf mx su by auto
  have seg: "?n div S + (if 0 < ?o then 1 else 0) = ?k + 1" using part by simp
  have kf: "keep_files (sm_segs m) (?k + 1) (sm_files m) = sm_files m" using len by (auto simp: keep_files_def fun_eq_iff)
  have bl: "butlast (sm_segs m) @ [?s] = sm_segs m" using len lst by (metis append_butlast_last_id length_0_conv add_is_0 zero_neq_one)
  show ?thesis
    using part len kf lst sb nf bl sz by (simp add: SM_Truncate_def S(1) q Let_def SG_IsFull_def)
qed

text \<open>The number of the first document that is not deleted and has the key.\<close>

definition first_with :: "(nat \<Rightarrow> bool) \<Rightarrow> (nat \<Rightarrow> u64) \<Rightarrow> nat list \<Rightarrow> u64 \<rightharpoonup> int" where
  "first_with deleted keys is k = map_option int (find (\<lambda>i. \<not> deleted i \<and> keys i = k) is)"

lemma first_with_Nil [simp]: "first_with deleted keys [] = Map.empty"
  by (simp add: first_with_def fun_eq_iff)

lemma first_with_Cons:
  "first_with deleted keys (i # is) =
    (if deleted i then first_with deleted keys is else (first_with deleted keys is)(keys i \<mapsto> int i))"
  by (auto simp: first_with_def fun_eq_iff)

lemma key_of_same: "tb_id_type tb' = tb_id_type tb \<Longrightarrow> key_of hash v tb' = key_of hash v tb"
  by (simp add: key_of_def)

lemma load_keys_ok:
  "\<lbrakk>tbl_repr cols rows P tb; \<forall>i \<in> set is. i < P; j < length cols; tb_bitmap tb = Some bm; \<forall>i \<in> set is. BM_Test bm (of_nat i) = Some (deleted i);
    \<forall>i \<in> set is. \<not> deleted i \<longrightarrow> (\<exists>v. (rows ! i) (fi_name (cols ! j)) = Some v \<and> key_of hash v tb = Some (keys i))\<rbrakk> \<Longrightarrow>
    \<exists>tb'. load_keys hash g (int j) is tb = Some tb' \<and> tbl_repr cols rows P tb' \<and>
      tb_keys tb' = first_with deleted keys is ++ tb_keys tb \<and> tb_id_type tb' = tb_id_type tb \<and> tb_bitmap tb' = tb_bitmap tb \<and>
      tb_fields tb' = tb_fields tb"
proof (induction "is" arbitrary: tb)
  case (Cons i "is")
  show ?case
  proof (cases "deleted i")
    case True
    then have "load_keys hash g (int j) (i # is) tb = load_keys hash g (int j) is tb" using Cons.prems(4,5) by simp
    then show ?thesis using Cons.IH [OF Cons.prems(1) _ Cons.prems(3,4)] Cons.prems(2,5,6) True by (simp add: first_with_Cons)
  next
    case False
    obtain v where v: "(rows ! i) (fi_name (cols ! j)) = Some v" "key_of hash v tb = Some (keys i)" using Cons.prems(6) False by auto
    obtain tb1 where tb1: "TB_GetFieldRawValue g (int i) (int j) [] None tb = Some (0, v, tb1)" "tbl_repr cols rows P tb1"
      "tb1 = tb\<lparr>tb_sm := tb_sm tb1\<rparr>"
      using TB_GetFieldRawValue_ok [OF Cons.prems(1) _ Cons.prems(3) v(1), of g "[]"] Cons.prems(2) by auto
    note so = sm_only [OF tb1(3)]
    let ?t2 = "insert_key (keys i) (int i) tb1"
    have k: "key_of hash u tb1 = key_of hash u tb" for u using so(1) by (rule key_of_same)
    then have k2: "key_of hash u ?t2 = key_of hash u tb" for u using key_of_same [of ?t2 tb1] by simp
    have step: "load_keys hash g (int j) (i # is) tb = load_keys hash g (int j) is ?t2"
      using Cons.prems(4,5) False tb1(1) k v(2) by simp
    have "tbl_repr cols rows P ?t2" using tb1(2) by (simp add: tbl_insert_key)
    from Cons.IH [OF this _ Cons.prems(3)] obtain tb' where "load_keys hash g (int j) is ?t2 = Some tb'" "tbl_repr cols rows P tb'"
      "tb_keys tb' = first_with deleted keys is ++ tb_keys ?t2" "tb_id_type tb' = tb_id_type ?t2" "tb_bitmap tb' = tb_bitmap ?t2"
      "tb_fields tb' = tb_fields ?t2"
      using Cons.prems(2,4-6) so(3) k2 by auto
    moreover have "first_with deleted keys is ++ ([keys i \<mapsto> int i] ++ tb_keys tb) = first_with deleted keys (i # is) ++ tb_keys tb"
      using False by (simp add: first_with_Cons map_add_assoc)
    ultimately show ?thesis using step so by simp
  qed
qed simp

lemma TB_Load_ok:
  assumes r: "tbl_repr cols rows (length rows) tb" and n: "length rows mod seg_items \<noteq> 0" and j: "j < length cols" "fi_name (cols ! j) = tb_key_name tb"
    and bm: "tb_bitmap tb = Some bm" "\<forall>i < length rows. BM_Test bm (of_nat i) = Some (deleted i)"
    and keys: "\<forall>i < length rows. \<not> deleted i \<longrightarrow> (\<exists>v. (rows ! i) (tb_key_name tb) = Some v \<and> key_of hash v tb = Some (keys i))"
  shows "\<exists>tb'. TB_Load hash g (length rows) tb = Some (0, tb') \<and> tbl_repr cols rows (length rows) tb' \<and>
    tb_keys tb' = first_with deleted keys [0..<length rows] ++ tb_keys tb \<and> tb_last tb' = int (length rows) - 1"
proof -
  obtain m items where m: "layout cols tb" "tb_sm tb = Some m" "rows_mgr (tb_item_length tb) items (length rows) m" "length items = length rows"
    by (rule tblE [OF r])
  have "SM_Truncate (length items) m = Some (0, m)" using m(3,4) n 
    by (intro SM_Truncate_same [where L = "tb_item_length tb"]) (simp_all add: rows_mgr_def)
  then have t: "SM_Truncate (length rows) m = Some (0, m)" by (simp add: m(4))
  have e: "tb\<lparr>tb_sm := Some m\<rparr> = tb" using m(2) by simp
  have idx: "map_of (tb_attr_idx tb) (tb_key_name tb) = Some (int j)" using layout_lookup(3) [OF m(1) j(1)] j(2) by simp
  obtain tb' where tb': "load_keys hash g (int j) [0..<length rows] tb = Some tb'" "tbl_repr cols rows (length rows) tb'"
    "tb_keys tb' = first_with deleted keys [0..<length rows] ++ tb_keys tb"
    using load_keys_ok [OF r _ j(1) bm(1), of "[0..<length rows]" deleted hash keys g] bm(2) keys j(2) by auto
  then show ?thesis using t idx m(2) by (simp add: TB_Load_def tbl_last e)
qed

subsection \<open>Keys\<close>

lemma key_lookup: "key_of hash key tb = Some k \<Longrightarrow> TB_GetDocIDByKey hash key d tb = Some (case tb_keys tb k of Some i \<Rightarrow> (0, i) | None \<Rightarrow> (-1, d))"
  by (simp add: TB_GetDocIDByKey_def)

subsection \<open>Batches\<close>

text \<open>The keys of a batch: the first document with a key gets it.\<close>

fun batch_map :: "(doc \<Rightarrow> u64) \<Rightarrow> int \<Rightarrow> doc list \<Rightarrow> u64 \<rightharpoonup> int" where
  "batch_map kk docid [] = Map.empty"
| "batch_map kk docid (d # ds) =
     (if dc_key d = [] then batch_map kk (docid + 1) ds else (batch_map kk (docid + 1) ds)(kk d \<mapsto> docid))"

lemma batch_keys_ok:
  "\<forall>d \<in> set docs. dc_key d \<noteq> [] \<longrightarrow> key_of hash (dc_key d) tb = Some (kk d) \<Longrightarrow>
    \<exists>tb'. batch_keys hash docid docs tb = Some (map (\<lambda>d. dc_key d = []) docs, tb') \<and>
      tb_keys tb' = batch_map kk docid docs ++ tb_keys tb \<and> tb' = tb\<lparr>tb_keys := tb_keys tb'\<rparr>"
proof (induction docs arbitrary: docid tb)
  case (Cons d ds)
  show ?case
  proof (cases "dc_key d = []")
    case True
    then show ?thesis using Cons.IH [of tb "docid + 1"] Cons.prems by auto
  next
    case False
    let ?t = "insert_key (kk d) docid tb"
    have "\<forall>e \<in> set ds. dc_key e \<noteq> [] \<longrightarrow> key_of hash (dc_key e) ?t = Some (kk e)"
      using Cons.prems key_of_same [of ?t tb] by simp
    from Cons.IH [OF this, of "docid + 1"] obtain tb' where tb': "batch_keys hash (docid + 1) ds ?t = Some (map (\<lambda>d. dc_key d = []) ds, tb')"
      "tb_keys tb' = batch_map kk (docid + 1) ds ++ tb_keys ?t" "tb' = ?t\<lparr>tb_keys := tb_keys tb'\<rparr>"
      by blast
    have "?t\<lparr>tb_keys := x\<rparr> = tb\<lparr>tb_keys := x\<rparr>" for x by (simp add: insert_key_def)
    then have "tb' = tb\<lparr>tb_keys := tb_keys tb'\<rparr>" using tb'(3) by metis
    moreover have "batch_map kk (docid + 1) ds ++ ([kk d \<mapsto> docid] ++ tb_keys tb) = batch_map kk docid (d # ds) ++ tb_keys tb"
      using False by (simp add: map_add_assoc)
    moreover have "key_of hash (dc_key d) tb = Some (kk d)" using Cons.prems False by simp
    ultimately show ?thesis using False tb'(1,2) by (auto simp del: fun_upd_apply)
  qed
qed simp

lemma put_value_maps:
  assumes "put_value name t off v row tb = Some (row', tb')"
  shows "tb_offset tb' = tb_offset tb" "tb_attr_type tb' = tb_attr_type tb"
proof -
  have "tb_offset (snd (TB_CheckStrLen n l tb)) = tb_offset tb" "tb_attr_type (snd (TB_CheckStrLen n l tb)) = tb_attr_type tb" for n l
    by (simp_all add: TB_CheckStrLen_def split: prod.split)
  then show "tb_offset tb' = tb_offset tb" "tb_attr_type tb' = tb_attr_type tb"
    using assms by (auto simp: put_value_def bind_eq_Some_conv split: if_splits prod.splits) (metis snd_conv)+
qed

text \<open>When all fields are fields of the table, a batch writes a row as \<open>Add\<close> does.\<close>

lemma batch_values_known:
  "\<forall>f \<in> set fs. map_of (tb_offset tb) (fd_name f) \<noteq> None \<and> map_of (tb_attr_type tb) (fd_name f) \<noteq> None \<Longrightarrow>
    batch_values fs new row tb = map_option (\<lambda>(row', tb'). (new, row', tb')) (put_values fs row tb)"
proof (induction fs arbitrary: row tb)
  case (Cons f fs)
  obtain off t where o: "map_of (tb_offset tb) (fd_name f) = Some off" "map_of (tb_attr_type tb) (fd_name f) = Some t" using Cons.prems by auto
  have u: "tb\<lparr>tb_attr_type := tb_attr_type tb\<rparr> = tb" "tb\<lparr>tb_offset := tb_offset tb, tb_attr_type := tb_attr_type tb\<rparr> = tb" by simp_all
  show ?case
  proof (cases "put_value (fd_name f) t (nat off) (fd_value f) row tb")
    case None
    then show ?thesis using o by (simp add: om_index_def u)
  next
    case (Some r)
    then obtain row1 tb1 where r: "put_value (fd_name f) t (nat off) (fd_value f) row tb = Some (row1, tb1)" by (cases r) auto
    have "batch_values fs new row1 tb1 = map_option (\<lambda>(row', tb'). (new, row', tb')) (put_values fs row1 tb1)"
      using Cons.prems put_value_maps [OF r] by (intro Cons.IH) simp
    then show ?thesis using o r by (simp add: om_index_def u)
  qed
qed simp

lemma batch_rows_ok:
  "\<lbrakk>tbl_repr cols rows P tb; \<forall>d \<in> set docs. fields_ok cols (dc_fields (with_id tb d)); length rows + length docs \<le> 199000000;
    str_used tb + sum_list (map (\<lambda>d. bytes_of (dc_fields (with_id tb d))) docs) < 4294967296\<rbrakk> \<Longrightarrow>
    \<exists>tb'. batch_rows junk docid docs tb = Some (map (with_id tb) docs, tb') \<and>
      tbl_repr cols (rows @ map (\<lambda>d. rec_of cols (dc_fields (with_id tb d))) docs) P tb' \<and> tb' = tb\<lparr>tb_sm := tb_sm tb'\<rparr>"
proof (induction docs arbitrary: rows docid tb)
  case Nil
  then show ?case by simp
next
  case (Cons d ds)
  let ?fs = "dc_fields (with_id tb d)"
  have fs: "fields_ok cols ?fs" and b: "str_used tb + bytes_of ?fs < 4294967296" and n: "length rows < 199000000" using Cons.prems by auto
  obtain row m1 m2 where w: "put_values ?fs (uninit_row junk tb) tb = Some (row, tb\<lparr>tb_sm := Some m1\<rparr>)"
    "add_row row (tb\<lparr>tb_sm := Some m1\<rparr>) = Some (tb\<lparr>tb_sm := Some m2\<rparr>)"
    "tbl_repr cols (rows @ [rec_of cols ?fs]) P (tb\<lparr>tb_sm := Some m2\<rparr>)" "last_off m2 \<le> str_used tb + bytes_of ?fs"
    using write_doc_ok [OF Cons.prems(1) fs n b, of junk] by blast
  have l: "layout cols tb" using Cons.prems(1) by (simp add: tbl_repr_def)
  have "map_of (tb_offset tb) (fd_name f) \<noteq> None \<and> map_of (tb_attr_type tb) (fd_name f) \<noteq> None" if f: "f \<in> set ?fs" for f
  proof -
    obtain j where "j < length cols" "fd_name f = fi_name (cols ! j)" using fs f by (auto simp: fields_ok_def)
    then show ?thesis using layout_lookup [OF l] by simp
  qed
  then have bv: "batch_values ?fs [] (uninit_row junk tb) tb = Some ([], row, tb\<lparr>tb_sm := Some m1\<rparr>)"
    using batch_values_known [of ?fs tb "[]" "uninit_row junk tb"] w(1) by simp
  let ?t = "tb\<lparr>tb_sm := Some m2\<rparr>"
  have wid: "with_id ?t = with_id tb" by (simp add: with_id_def fun_eq_iff)
  have "str_used ?t + sum_list (map (\<lambda>d. bytes_of (dc_fields (with_id ?t d))) ds) < 4294967296"
    using w(4) Cons.prems(4) by (simp add: str_used_def wid)
  moreover have "length (rows @ [rec_of cols ?fs]) + length ds \<le> 199000000" using Cons.prems(3) by simp
  moreover have "\<forall>d \<in> set ds. fields_ok cols (dc_fields (with_id ?t d))" using Cons.prems(2) by (simp add: wid)
  ultimately obtain tb' where tb': "batch_rows junk (docid + 1) ds ?t = Some (map (with_id ?t) ds, tb')"
    "tbl_repr cols ((rows @ [rec_of cols ?fs]) @ map (\<lambda>d. rec_of cols (dc_fields (with_id ?t d))) ds) P tb'" "tb' = ?t\<lparr>tb_sm := tb_sm tb'\<rparr>"
    using Cons.IH [OF w(3)] by blast
  have "batch_rows junk docid (d # ds) tb = Some (map (with_id tb) (d # ds), tb')"
    using bv w(2) tb'(1) by (simp add: put_new_def wid)
  moreover have "tb' = tb\<lparr>tb_sm := tb_sm tb'\<rparr>" using tb'(3) by simp
  ultimately show ?case using tb'(2) by (auto simp: wid)
qed

lemma TB_BatchAdd_ok:
  assumes r: "tbl_repr cols rows P tb" and docs: "mem_slice doc_vec start_id n = Some docs"
    and fs: "\<forall>d \<in> set docs. fields_ok cols (dc_fields (with_id tb d))"
    and keys: "\<forall>d \<in> set docs. dc_key d \<noteq> [] \<longrightarrow> key_of hash (dc_key d) tb = Some (kk d)"
    and room: "length rows + length docs \<le> 199000000"
      "str_used tb + sum_list (map (\<lambda>d. bytes_of (dc_fields (with_id tb d))) docs) < 4294967296"
  shows "\<exists>vec tb'. TB_BatchAdd hash junk start_id n docid doc_vec tb = Some (map (\<lambda>d. dc_key d = []) docs, vec, tb') \<and>
    tbl_repr cols (rows @ map (\<lambda>d. rec_of cols (dc_fields (with_id tb d))) docs) P tb' \<and>
    tb_keys tb' = batch_map kk docid docs ++ tb_keys tb \<and> tb_last tb' = docid + int n \<and> tb_fields tb' = tb_fields tb"
proof -
  obtain t1 where t1: "batch_keys hash docid docs tb = Some (map (\<lambda>d. dc_key d = []) docs, t1)"
    "tb_keys t1 = batch_map kk docid docs ++ tb_keys tb" "t1 = tb\<lparr>tb_keys := tb_keys t1\<rparr>"
    using batch_keys_ok [OF keys] by blast
  have e: "tb_id_type (tb\<lparr>tb_keys := x\<rparr>) = tb_id_type tb" "str_used (tb\<lparr>tb_keys := x\<rparr>) = str_used tb"
    "tbl_repr cols rows P (tb\<lparr>tb_keys := x\<rparr>) = tbl_repr cols rows P tb" for x
    by (simp_all add: str_used_def tbl_repr_def layout_def)
  have e1: "tb_id_type t1 = tb_id_type tb" "str_used t1 = str_used tb" "tbl_repr cols rows P t1" "tb_fields t1 = tb_fields tb"
    using e [of "tb_keys t1"] r t1(3) by (metis table.select_convs(19) table.update_convs(16) table.surjective)+
  have wid: "with_id t1 = with_id tb" using e1(1) by (simp add: with_id_def fun_eq_iff)
  obtain t2 where t2: "batch_rows junk docid docs t1 = Some (map (with_id t1) docs, t2)"
    "tbl_repr cols (rows @ map (\<lambda>d. rec_of cols (dc_fields (with_id t1 d))) docs) P t2" "t2 = t1\<lparr>tb_sm := tb_sm t2\<rparr>"
    using batch_rows_ok [OF e1(3), of docs junk docid] fs room e1(2) by (auto simp: wid)
  note so = sm_only [OF t2(3)]
  show ?thesis
    using t1(1,2) t2(1,2) docs so e1(4) by (simp add: TB_BatchAdd_def tbl_last wid)
qed

subsection \<open>Updating numbers\<close>

lemma SM_Update_strings:
  assumes "sm_strings m" "SM_Update i v m = Some (r, m')"
  shows "sm_strings m'" "sm_has S m' = sm_has S m" "sm_capacity m' = sm_capacity m"
proof -
  obtain d c where d: "m' = m\<lparr>sm_disk := d, sm_cache := c\<rparr>"
  proof (cases "i < 0 \<or> nat i \<ge> sm_size m \<or> int (length v) \<noteq> sm_fixed m \<or> fetch (sm_segs m) (seg_of m i) = None")
    case True
    then have "m' = m\<lparr>sm_disk := sm_disk m, sm_cache := sm_cache m\<rparr>" using assms(2) by (auto simp: SM_Update_def Let_def split: if_splits)
    then show thesis by (rule that)
  next
    case False
    then show thesis using assms(2) that by (auto simp: SM_Update_def Let_def bind_eq_Some_conv split: if_splits)
  qed
  show "sm_strings m'" "sm_has S m' = sm_has S m" by (rule sm_strings_frame [OF assms(1)]; simp add: d)+
  show "sm_capacity m' = sm_capacity m" by (simp add: d)
qed

lemma rows_mgr_Update:
  assumes m: "rows_mgr L items P m" and i: "i < P" and v: "length v = L"
  shows "\<exists>m'. SM_Update (int i) v m = Some (0, m') \<and> rows_mgr L (items[i := v]) P m' \<and> has_all m m'"
proof -
  have r: "sm_repr seg_items L m items P" and st: "sm_strings m" and c: "sm_capacity m = 400000"
    using m by (simp_all add: rows_mgr_def)
  have "i < length items" using r i by (simp add: sm_repr_def)
  from SM_Update_spec [OF r this v] obtain m' where m': "SM_Update (int i) v m = Some (0, m')" "sm_repr seg_items L m' (items[i := v]) P"
    using i by auto
  show ?thesis using m' SM_Update_strings [OF st m'(1)] c by (auto simp: rows_mgr_def has_all_def)
qed

text \<open>Bytes written from column \<open>j\<close> on, over \<open>r\<close> columns.\<close>

definition over :: "field_info list \<Rightarrow> nat \<Rightarrow> nat \<Rightarrow> byte list \<Rightarrow> (byte list \<rightharpoonup> byte list) \<Rightarrow> byte list \<rightharpoonup> byte list" where
  "over cols j r val rc n = (case find (\<lambda>k. fi_name (cols ! k) = n) [j..<j + r] of
     Some k \<Rightarrow> Some (take (col_size cols k) (drop (off_of cols k - off_of cols j) val))
   | None \<Rightarrow> rc n)"

lemma find_col:
  assumes d: "distinct (map fi_name cols)" and k: "k < length cols" "j + r \<le> length cols"
  shows "find (\<lambda>l. fi_name (cols ! l) = fi_name (cols ! k)) [j..<j + r] = (if j \<le> k \<and> k < j + r then Some k else None)"
proof -
  have eq: "fi_name (cols ! l) = fi_name (cols ! k) \<longleftrightarrow> l = k" if "l < length cols" for l
    using d k(1) that nth_eq_iff_index_eq [of "map fi_name cols" l k] by simp
  have "find (\<lambda>l. fi_name (cols ! l) = fi_name (cols ! k)) [j..<j + r] = find (\<lambda>l. l = k) [j..<j + r]"
    using k(2) eq by (intro find_cong) auto
  also have "\<dots> = (if j \<le> k \<and> k < j + r then Some k else None)"
  proof (cases "j \<le> k \<and> k < j + r")
    case True
    then have "find (\<lambda>l. l = k) [j..<j + r] \<noteq> None" by (auto simp: find_None_iff)
    then show ?thesis using True by (auto simp: find_Some_iff)
  qed (auto simp: find_None_iff)
  finally show ?thesis .
qed

lemma mem_slice_splice_in:
  assumes "off + length bs \<le> length row" "off \<le> a" "a + n \<le> off + length bs"
  shows "mem_slice (splice off bs row) a n = Some (take n (drop (a - off) bs))"
proof -
  have "take n (drop a (splice off bs row)) = take n (drop (a - off) bs)"
    using assms by (intro nth_equalityI) (auto simp: splice_nth)
  then show ?thesis using assms by (simp add: mem_slice_Some)
qed

lemma doc_at_over:
  assumes d: "distinct (map fi_name cols)" and doc: "doc_at cols m i row rc" and jr: "j + r \<le> length cols"
    and val: "off_of cols j + length val = off_of cols (j + r)" and row: "off_of cols (j + r) \<le> length row"
    and num: "\<forall>k. j \<le> k \<and> k < j + r \<longrightarrow> fi_type (cols ! k) \<noteq> STRING"
  shows "doc_at cols m i (splice (off_of cols j) val row) (over cols j r val rc)"
  unfolding doc_at_def
proof (intro allI impI)
  fix k u assume k: "k < length cols" and u: "over cols j r val rc (fi_name (cols ! k)) = Some u"
  let ?row = "splice (off_of cols j) val row"
  show "\<exists>bs. mem_slice ?row (off_of cols k) (col_size cols k) = Some bs \<and> value_at m i (fi_type (cols ! k)) bs u"
  proof (cases "j \<le> k \<and> k < j + r")
    case True
    have o: "off_of cols j \<le> off_of cols k" "off_of cols k + col_size cols k \<le> off_of cols (j + r)"
      using off_of_mono [of j k cols] off_of_mono [of "Suc k" "j + r" cols] off_of_Suc [of k cols] True k jr by simp_all
    have "mem_slice ?row (off_of cols k) (col_size cols k) = Some (take (col_size cols k) (drop (off_of cols k - off_of cols j) val))"
      using mem_slice_splice_in [of "off_of cols j" val row] o val row by simp
    moreover have "u = take (col_size cols k) (drop (off_of cols k - off_of cols j) val)"
      using u True find_col [OF d k jr] by (simp add: over_def)
    ultimately show ?thesis using num True by (simp add: value_at_def)
  next
    case False
    then have "rc (fi_name (cols ! k)) = Some u" using u find_col [OF d k jr] by (auto simp: over_def)
    moreover have "off_of cols k + col_size cols k \<le> off_of cols j \<or> off_of cols (j + r) \<le> off_of cols k"
      using False off_of_mono [of "Suc k" j cols] off_of_mono [of "j + r" k cols] off_of_Suc [of k cols] k jr by auto
    then have "mem_slice ?row (off_of cols k) (col_size cols k) = mem_slice row (off_of cols k) (col_size cols k)"
      using val row by (intro mem_slice_splice_other) auto
    ultimately show ?thesis using doc k by (simp add: doc_at_def)
  qed
qed

lemma TB_Update_over:
  assumes r: "tbl_repr cols rows P tb" and i: "i < P" and jr: "0 < r" "j + r \<le> length cols"
    and f: "fd_name f = fi_name (cols ! j)" "fd_type f \<noteq> STRING" "off_of cols j + length (fd_value f) = off_of cols (j + r)"
    and num: "\<forall>k. j \<le> k \<and> k < j + r \<longrightarrow> fi_type (cols ! k) \<noteq> STRING"
  shows "\<exists>tb'. TB_Update g [f] (int i) tb = Some (0, tb') \<and> tbl_repr cols (rows[i := over cols j r (fd_value f) (rows ! i)]) P tb'"
proof -
  obtain m items where m: "layout cols tb" "tb_sm tb = Some m" "rows_mgr (tb_item_length tb) items P m" "length items = length rows"
    "\<forall>i < length rows. doc_at cols m i (items ! i) (rows ! i)" "P \<le> length rows"
    by (rule tblE [OF r])
  have il: "i < length rows" "i < length items" using i m(4,6) by simp_all
  obtain m1 where m1: "get_row g (int i) tb = Some (0, Some (items ! i), tb\<lparr>tb_sm := Some m1\<rparr>)" "rows_mgr (tb_item_length tb) items P m1" "has_all m m1"
    using get_row_ok [OF m(1-3) i] by blast
  have len: "length (items ! i) = tb_item_length tb" using m1(2) il(2) by (simp add: rows_mgr_def sm_repr_def)
  have fit: "off_of cols (j + r) \<le> tb_item_length tb"
    using off_of_mono [of "j + r" "length cols" cols] jr(2) m(1) by (simp add: layout_def off_of_def)
  let ?row = "splice (off_of cols j) (fd_value f) (items ! i)"
  have put: "mem_put (off_of cols j) (fd_value f) (items ! i) = Some ?row" using fit len f(3) by (simp add: mem_put_def)
  have jl: "j < length cols" using jr by simp
  have l1: "layout cols (tb\<lparr>tb_sm := Some m1\<rparr>)" using m(1) by (rule layout_update) simp_all
  have upd: "update_value (int i) f (items ! i) (tb\<lparr>tb_sm := Some m1\<rparr>) = Some (?row, tb\<lparr>tb_sm := Some m1\<rparr>)"
    using layout_lookup(3) [OF l1 jl] layout_fetch(3) [OF l1 jl] put f(1,2) by (simp add: update_value_def)
  obtain m2 where m2: "SM_Update (int i) ?row m1 = Some (0, m2)" "rows_mgr (tb_item_length tb) (items[i := ?row]) P m2" "has_all m1 m2"
    using rows_mgr_Update [OF m1(2) i, of ?row] len fit f(3) by auto
  have "TB_Update g [f] (int i) tb = Some (0, tb\<lparr>tb_sm := Some m2\<rparr>)"
    using m1(1) upd m2(1) len by (simp add: TB_Update_def)
  moreover have "tbl_repr cols (rows[i := over cols j r (fd_value f) (rows ! i)]) P (tb\<lparr>tb_sm := Some m2\<rparr>)"
  proof (rule tbl_frame [OF m(1) _ _ m2(2)])
    show "has_all m2 m2" by simp
    have h: "\<And>b ip u. sm_has seg_items m k b ip u \<Longrightarrow> sm_has seg_items m2 k b ip u" for k
      using m1(3) m2(3) by (auto simp: has_all_def)
    have d: "distinct (map fi_name cols)" using m(1) by (simp add: layout_def)
    show "\<forall>k < length (rows[i := over cols j r (fd_value f) (rows ! i)]).
        doc_at cols m2 k (items[i := ?row] ! k) (rows[i := over cols j r (fd_value f) (rows ! i)] ! k)"
    proof (intro allI impI)
      fix k assume "k < length (rows[i := over cols j r (fd_value f) (rows ! i)])"
      then have k: "k < length rows" by simp
      have dk: "doc_at cols m2 k (items ! k) (rows ! k)" using doc_at_mono [OF m(5) [rule_format, OF k] h] .
      show "doc_at cols m2 k (items[i := ?row] ! k) (rows[i := over cols j r (fd_value f) (rows ! i)] ! k)"
      proof (cases "k = i")
        case True
        then show ?thesis using doc_at_over [OF d dk jr(2) f(3) _ num] fit len il by simp
      next
        case False
        then show ?thesis using dk by simp
      qed
    qed
  qed (use m(4) in simp)
  ultimately show ?thesis by blast
qed

end
