(* ===== verification/TableProps.thy ===== *)
theory TableProps
  imports TableOps
begin

text \<open>
  Properties of the table: its layout, documents and keys that are read back, and calls whose result is
  not what the comments promise. Each is followed by an application to a small table.
\<close>

subsection \<open>A small table\<close>

definition demo_cols :: "field_info list" where
  "demo_cols = [\<lparr>fi_name = [95, 105, 100], fi_type = STRING, fi_index = False\<rparr>, \<lparr>fi_name = [97], fi_type = data_type.INT, fi_index = True\<rparr>,
     \<lparr>fi_name = [98], fi_type = data_type.INT, fi_index = True\<rparr>]"

definition demo_hash :: "byte list \<Rightarrow> u64" where
  "demo_hash s = of_nat (length s)"

abbreviation demo_create :: "(int \<times> table) option" where
  "demo_create \<equiv> TB_CreateTable (\<lambda>n. None) None empty_folder False demo_cols new_bitmap_mgr (Table_new 1 False)"

lemma demo_table:
  obtains tb where "demo_create = Some (0, tb)" "tbl_repr demo_cols [] 0 tb" "tb_keys tb = Map.empty" "tb_id_type tb = 0"
    "str_used tb = 0" "tb_key_name tb = [95, 105, 100]" "tb_bitmap tb = Some new_bitmap_mgr" "tb_fields tb = Some (fresh 10000)"
proof -
  obtain tb where tb: "demo_create = Some (0, tb)" "tbl_repr demo_cols [] 0 tb" "tb_keys tb = Map.empty" "str_used tb = 0"
    "tb_fields tb = Some (fresh 10000)"
    using TB_CreateTable_ok [of demo_cols "\<lambda>n. None" False new_bitmap_mgr 1 False] by (auto simp: demo_cols_def)
  have "tb_id_type tb = 0" "tb_key_name tb = [95, 105, 100]" "tb_bitmap tb = Some new_bitmap_mgr"
    using tb(1) by (auto simp: TB_CreateTable_def demo_cols_def Table_new_def TB_AddField_def om_insert_def Let_def DF_Init_fresh
      TB_InitStorageMgr_def split: prod.splits)
  then show thesis using that tb by blast
qed

definition demo_fields :: "doc_field list" where
  "demo_fields = [(named_field data_type.INT [97])\<lparr>fd_value := [1, 0, 0, 0]\<rparr>, (named_field STRING [95, 105, 100])\<lparr>fd_value := [120, 121]\<rparr>,
     (named_field data_type.INT [98])\<lparr>fd_value := [2, 0, 0, 0]\<rparr>]"

lemma demo_fields_ok: "fields_ok demo_cols demo_fields" "length demo_fields = length demo_cols" "bytes_of demo_fields = 10"
proof -
  have "\<exists>j < length demo_cols. fd_name f = fi_name (demo_cols ! j) \<and> val_ok (demo_cols ! j) (fd_value f)" if "f \<in> set demo_fields" for f
    using that by (auto simp: demo_fields_def demo_cols_def named_field_def val_ok_def
      intro: exI [of _ 0] exI [of _ "1 :: nat"] exI [of _ "2 :: nat"])
  then show "fields_ok demo_cols demo_fields" by (simp add: fields_ok_def)
qed (simp_all add: demo_fields_def demo_cols_def bytes_of_def named_field_def)

lemma demo_rec:
  "rec_of demo_cols demo_fields [97] = Some [1, 0, 0, 0]" "rec_of demo_cols demo_fields [95, 105, 100] = Some [120, 121]"
  "rec_of demo_cols demo_fields [98] = Some [2, 0, 0, 0]"
  by (simp_all add: rec_of_def rec_add_def demo_fields_def demo_cols_def named_field_def kept_def c_str_def col_map_def)

text \<open>
  C16: a table that was created has a consistent layout: every field has the number, the type and the
  offset that the maps give for its name, and the ranges of the fields lie in the row one after the
  other.
\<close>

theorem created_table_layout:
  assumes "TB_CreateTable folders persist_file fo compress fs bm (Table_new id_type b) = Some (0, tb)" "length fs \<le> 255"
  shows "distinct (map fi_name fs) \<and> (\<forall>j < length fs.
    map_of (tb_attr_idx tb) (fi_name (fs ! j)) = Some (int j) \<and> map_of (tb_attr_type tb) (fi_name (fs ! j)) = Some (fi_type (fs ! j)) \<and>
    map_of (tb_offset tb) (fi_name (fs ! j)) = Some (int (tb_idx_offset tb ! j)) \<and> tb_attrs tb ! j = fi_type (fs ! j) \<and>
    tb_idx_offset tb ! j + FTypeSize (fi_type (fs ! j)) \<le> tb_item_length tb \<and>
    (\<forall>i < j. tb_idx_offset tb ! i + FTypeSize (fi_type (fs ! i)) \<le> tb_idx_offset tb ! j))"
proof -
  let ?t0 = "Table_new id_type b\<lparr>tb_bitmap := Some bm, tb_compress := compress\<rparr>"
  have l0: "layout [] ?t0" using layout_new by (rule layout_update) simp_all
  have z: "tb_item_length ?t0 = row_size []" "tb_attrs ?t0 = map fi_type []" "\<not> tb_created (Table_new id_type b)"
    by (simp_all add: Table_new_def row_size_def)
  obtain ret t1 where t1: "add_fields fs ?t0 = (ret, t1)" by (cases "add_fields fs ?t0")
  then have r: "ret = 0" using assms(1) z(3) by (auto simp: TB_CreateTable_def split: if_splits)
  let ?L = "if tb_item_length t1 = 0 then 8 else tb_item_length t1"
  obtain d m where tb: "tb = t1\<lparr>tb_created := True, tb_item_length := ?L, tb_fields := Some d, tb_sm := m\<rparr>"
    using assms(1) z(3) t1 r
    by (auto simp: TB_CreateTable_def TB_InitStorageMgr_def Let_def bind_eq_Some_conv split: option.splits prod.splits)
  have "layout fs t1" using add_fields_layout [OF t1 [unfolded r] l0 z(1,2)] assms(2) by simp
  then have l: "layout fs tb" by (rule layout_update) (simp_all add: tb)
  have at: "tb_attrs tb ! j = fi_type (fs ! j)" "tb_idx_offset tb ! j = off_of fs j" if "j < length fs" for j
    using l that by (auto simp: layout_def nth_append)
  have "tb_idx_offset tb ! j + FTypeSize (fi_type (fs ! j)) \<le> tb_item_length tb" if "j < length fs" for j
    using off_of_in [OF that] l that by (simp add: layout_def)
  moreover have "tb_idx_offset tb ! i + FTypeSize (fi_type (fs ! i)) \<le> tb_idx_offset tb ! j" if "j < length fs" "i < j" for i j
    using off_of_apart [OF that(2,1)] at that by simp
  ultimately show ?thesis using l layout_lookup [OF l] at by (auto simp: layout_def)
qed

theorem created_table_layout_witness:
  "\<exists>tb. demo_create = Some (0, tb) \<and> map_of (tb_offset tb) [98] = Some (int (tb_idx_offset tb ! 2)) \<and>
    tb_idx_offset tb ! 0 + 8 \<le> tb_idx_offset tb ! 1 \<and> tb_idx_offset tb ! 1 + 4 \<le> tb_idx_offset tb ! 2 \<and> tb_idx_offset tb ! 2 + 4 \<le> tb_item_length tb"
proof -
  obtain tb where tb: "demo_create = Some (0, tb)" by (rule demo_table)
  have "length demo_cols \<le> 255" by (simp add: demo_cols_def)
  note l = created_table_layout [OF tb this]
  have n: "length demo_cols = 3" "demo_cols ! 0 = \<lparr>fi_name = [95, 105, 100], fi_type = STRING, fi_index = False\<rparr>"
    "demo_cols ! 1 = \<lparr>fi_name = [97], fi_type = data_type.INT, fi_index = True\<rparr>"
    "demo_cols ! 2 = \<lparr>fi_name = [98], fi_type = data_type.INT, fi_index = True\<rparr>"
    by (simp_all add: demo_cols_def)
  have "\<forall>j < 3. map_of (tb_offset tb) (fi_name (demo_cols ! j)) = Some (int (tb_idx_offset tb ! j)) \<and>
      tb_idx_offset tb ! j + FTypeSize (fi_type (demo_cols ! j)) \<le> tb_item_length tb \<and>
      (\<forall>i < j. tb_idx_offset tb ! i + FTypeSize (fi_type (demo_cols ! i)) \<le> tb_idx_offset tb ! j)"
    using l n(1) by simp
  then have "map_of (tb_offset tb) (fi_name (demo_cols ! 2)) = Some (int (tb_idx_offset tb ! 2))"
    "tb_idx_offset tb ! 2 + FTypeSize (fi_type (demo_cols ! 2)) \<le> tb_item_length tb"
    "tb_idx_offset tb ! 0 + FTypeSize (fi_type (demo_cols ! 0)) \<le> tb_idx_offset tb ! 1"
    "tb_idx_offset tb ! 1 + FTypeSize (fi_type (demo_cols ! 1)) \<le> tb_idx_offset tb ! 2"
    by (metis one_less_numeral_iff numeral_less_iff semiring_norm(76,77,78) zero_less_one lessI numeral_2_eq_2 numeral_3_eq_3 One_nat_def less_Suc_eq)+
  then show ?thesis using tb n by simp
qed

subsection \<open>Documents and keys\<close>

text \<open>
  C15: the table is a list of documents, each a map from field names to values. \<open>Add\<close> appends the document
  and keeps the others; when the writer thread has emptied its queue, \<open>GetFieldRawValue\<close> gives the
  value of every field of every document; and the key leads to the new document, unless it led to
  another one before.
\<close>

theorem table_documents:
  assumes r: "tbl_repr cols rows P tb" and fs: "fields_ok cols fs" "length fs = length cols" and key: "key \<noteq> []" "key_of hash key tb = Some k"
    and room: "length rows < 199000000" "str_used tb + bytes_of fs < 4294967296"
  shows "\<exists>tb1 tb2. TB_Add hash junk key fs docid tb = Some (0, tb1) \<and> tbl_write (length rows + 1 - P) tb1 = Some tb2 \<and>
    tbl_repr cols (rows @ [rec_of cols fs]) (length rows + 1) tb2 \<and>
    (\<forall>i j v. i \<le> length rows \<and> j < length cols \<and> ((rows @ [rec_of cols fs]) ! i) (fi_name (cols ! j)) = Some v \<longrightarrow>
      (\<exists>tb3. TB_GetFieldRawValue g (int i) (int j) [] None tb2 = Some (0, v, tb3))) \<and>
    TB_GetDocIDByKey hash key d tb2 = Some (0, case tb_keys tb k of None \<Rightarrow> docid | Some i \<Rightarrow> i)"
proof -
  obtain tb1 where tb1: "TB_Add hash junk key fs docid tb = Some (0, tb1)" "tbl_repr cols (rows @ [rec_of cols fs]) P tb1"
    "tb_keys tb1 = [k \<mapsto> docid] ++ tb_keys tb" "tb_id_type tb1 = tb_id_type tb"
    using TB_Add_ok [OF assms] by blast
  have "P \<le> length rows" by (rule tblE [OF r])
  then have n: "P + (length rows + 1 - P) = length rows + 1" by simp
  obtain tb2 where tb2: "tbl_write (length rows + 1 - P) tb1 = Some tb2" "tbl_repr cols (rows @ [rec_of cols fs]) (length rows + 1) tb2"
    "tb2 = tb1\<lparr>tb_sm := tb_sm tb2\<rparr>"
    using tbl_write_ok [OF tb1(2), of "length rows + 1 - P"] n by auto
  note so = sm_only [OF tb2(3)]
  have "key_of hash key tb2 = Some k" using key_of_same [of tb2 tb] so(1) tb1(4) key(2) by simp
  then have "TB_GetDocIDByKey hash key d tb2 = Some (0, case tb_keys tb k of None \<Rightarrow> docid | Some i \<Rightarrow> i)"
    using key_lookup so(2) tb1(3) by (auto simp: map_add_def split: option.splits)
  moreover have "\<exists>tb3. TB_GetFieldRawValue g (int i) (int j) [] None tb2 = Some (0, v, tb3)"
    if "i \<le> length rows \<and> j < length cols \<and> ((rows @ [rec_of cols fs]) ! i) (fi_name (cols ! j)) = Some v" for i j v
    using TB_GetFieldRawValue_ok [OF tb2(2), of i j v g "[]"] that by auto
  ultimately show ?thesis using tb1(1) tb2(1,2) by blast
qed

theorem table_documents_witness:
  "\<exists>tb tb1 tb2 tb3. demo_create = Some (0, tb) \<and> TB_Add demo_hash (\<lambda>i. 7) [120, 121] demo_fields 0 tb = Some (0, tb1) \<and>
    tbl_write 1 tb1 = Some tb2 \<and> TB_GetFieldRawValue (\<lambda>i. 0) 0 0 [] None tb2 = Some (0, [120, 121], tb3) \<and>
    TB_GetDocIDByKey demo_hash [120, 121] 9 tb2 = Some (0, 0)"
proof -
  obtain tb where tb: "demo_create = Some (0, tb)" "tbl_repr demo_cols [] 0 tb" "tb_keys tb = Map.empty" "tb_id_type tb = 0" "str_used tb = 0"
    by (rule demo_table)
  have k: "key_of demo_hash [120, 121] tb = Some 2" using tb(4) by (simp add: key_of_def demo_hash_def)
  let ?rows = "[] @ [rec_of demo_cols demo_fields]"
  have room: "length ([] :: (byte list \<rightharpoonup> byte list) list) < 199000000" "str_used tb + bytes_of demo_fields < 4294967296"
    using tb(5) demo_fields_ok(3) by simp_all
  have key: "[120, 121] \<noteq> ([] :: byte list)" by simp
  obtain tb1 tb2 where t: "TB_Add demo_hash (\<lambda>i. 7) [120, 121] demo_fields 0 tb = Some (0, tb1)" "tbl_write 1 tb1 = Some tb2"
    "\<forall>i j v. i \<le> 0 \<and> j < length demo_cols \<and> (?rows ! i) (fi_name (demo_cols ! j)) = Some v \<longrightarrow>
      (\<exists>tb3. TB_GetFieldRawValue (\<lambda>i. 0) (int i) (int j) [] None tb2 = Some (0, v, tb3))"
    "TB_GetDocIDByKey demo_hash [120, 121] 9 tb2 = Some (0, case tb_keys tb 2 of None \<Rightarrow> 0 | Some i \<Rightarrow> i)"
    using table_documents [OF tb(2) demo_fields_ok(1,2) key k room, of "\<lambda>i. 7" 0 "\<lambda>i. 0" 9] by auto
  have "(?rows ! 0) (fi_name (demo_cols ! 0)) = Some [120, 121]" "0 < length demo_cols" using demo_rec(2) by (simp_all add: demo_cols_def)
  then obtain tb3 where "TB_GetFieldRawValue (\<lambda>i. 0) 0 0 [] None tb2 = Some (0, [120, 121], tb3)"
    using t(3) [rule_format, of 0 0 "[120, 121]"] by auto
  moreover have "TB_GetDocIDByKey demo_hash [120, 121] 9 tb2 = Some (0, 0)" using t(4) tb(3) by simp
  ultimately show ?thesis using tb(1) t(1,2) by blast
qed

text \<open>The small table with one document that is on disk.\<close>

lemma demo_doc:
  obtains tb where "tbl_repr demo_cols [rec_of demo_cols demo_fields] 1 tb" "tb_keys tb = [2 \<mapsto> 0]" "tb_id_type tb = 0" "tb_last tb = 0"
    "tb_key_name tb = [95, 105, 100]" "tb_bitmap tb = Some new_bitmap_mgr" "str_used tb \<le> 10"
proof -
  obtain tb where tb: "demo_create = Some (0, tb)" "tbl_repr demo_cols [] 0 tb" "tb_keys tb = Map.empty" "tb_id_type tb = 0"
    "str_used tb = 0" "tb_key_name tb = [95, 105, 100]" "tb_bitmap tb = Some new_bitmap_mgr"
    by (rule demo_table)
  have k: "key_of demo_hash [120, 121] tb = Some 2" using tb(4) by (simp add: key_of_def demo_hash_def)
  have room: "length ([] :: (byte list \<rightharpoonup> byte list) list) < 199000000" "str_used tb + bytes_of demo_fields < 4294967296"
    using tb(5) demo_fields_ok(3) by simp_all
  obtain row m1 m2 where w: "put_values demo_fields (uninit_row (\<lambda>i. 7) tb) tb = Some (row, tb\<lparr>tb_sm := Some m1\<rparr>)"
    "add_row row (tb\<lparr>tb_sm := Some m1\<rparr>) = Some (tb\<lparr>tb_sm := Some m2\<rparr>)"
    "tbl_repr demo_cols ([] @ [rec_of demo_cols demo_fields]) 0 (tb\<lparr>tb_sm := Some m2\<rparr>)" "last_off m2 \<le> str_used tb + bytes_of demo_fields"
    using write_doc_ok [OF tb(2) demo_fields_ok(1) room, of "\<lambda>i. 7"] by blast
  let ?t = "insert_key 2 0 (tb\<lparr>tb_sm := Some m2\<rparr>)\<lparr>tb_last := 0\<rparr>"
  have "tbl_repr demo_cols [rec_of demo_cols demo_fields] 0 ?t" using w(3) by (simp add: tbl_last tbl_insert_key)
  from tbl_write_ok [OF this, of 1] obtain t2 where t2: "tbl_repr demo_cols [rec_of demo_cols demo_fields] 1 t2" "t2 = ?t\<lparr>tb_sm := tb_sm t2\<rparr>"
    "tbl_write 1 ?t = Some t2"
    by auto
  obtain m3 where m3: "SM_Writer 1 m2 = Some m3" "tb_sm t2 = Some m3" using t2(3) by (auto simp: tbl_write_def bind_eq_Some_conv)
  then have "sm_segs m3 = sm_segs m2" by (auto simp: SM_Writer_def bind_eq_Some_conv)
  then have "str_used t2 \<le> 10" using m3(2) w(4) tb(5) demo_fields_ok(3) by (simp add: str_used_def)
  moreover note sm_only [OF t2(2)]
  ultimately show thesis using that [of t2] t2(1) tb(3,4,6,7) by (simp add: insert_key_def)
qed

text \<open>
  C26: after a start, \<open>Load\<close> leads every key to the first document with it that is not marked as deleted,
  and to no other.
\<close>

theorem load_finds_documents:
  assumes "tbl_repr cols rows (length rows) tb" "length rows mod seg_items \<noteq> 0" "j < length cols" "fi_name (cols ! j) = tb_key_name tb"
    and "tb_bitmap tb = Some bm" "\<forall>i < length rows. BM_Test bm (of_nat i) = Some (deleted i)" "tb_keys tb = Map.empty"
    and "\<forall>i < length rows. \<not> deleted i \<longrightarrow> (\<exists>v. (rows ! i) (tb_key_name tb) = Some v \<and> key_of hash v tb = Some (keys i))"
  shows "\<exists>tb'. TB_Load hash g (length rows) tb = Some (0, tb') \<and> tbl_repr cols rows (length rows) tb' \<and> tb_last tb' = int (length rows) - 1 \<and>
    (\<forall>k. tb_keys tb' k = map_option int (find (\<lambda>i. \<not> deleted i \<and> keys i = k) [0..<length rows]))"
  using TB_Load_ok [OF assms(1-6,8), of g] assms(7) by (auto simp: first_with_def fun_eq_iff)

theorem load_finds_documents_witness:
  "\<exists>tb tb'. tb_keys tb = Map.empty \<and> TB_Load demo_hash (\<lambda>i. 0) 1 tb = Some (0, tb') \<and> tb_keys tb' 2 = Some 0 \<and> tb_keys tb' 3 = None"
proof -
  obtain t where t: "tbl_repr demo_cols [rec_of demo_cols demo_fields] 1 t" "tb_id_type t = 0" "tb_key_name t = [95, 105, 100]"
    "tb_bitmap t = Some new_bitmap_mgr"
    by (rule demo_doc)
  let ?t = "t\<lparr>tb_keys := Map.empty\<rparr>" and ?rows = "[rec_of demo_cols demo_fields]"
  have r: "tbl_repr demo_cols ?rows (length ?rows) ?t" using t(1) by (simp add: tbl_repr_def layout_def)
  have "fi_name (demo_cols ! 0) = tb_key_name ?t" "0 < length demo_cols" by (simp_all add: demo_cols_def t(3))
  moreover have "\<forall>i < length ?rows. BM_Test new_bitmap_mgr (of_nat i) = Some False" by (simp add: BM_Test_def new_bitmap_mgr_def)
  moreover have "\<forall>i < length ?rows. \<not> False \<longrightarrow> (\<exists>v. (?rows ! i) (tb_key_name ?t) = Some v \<and> key_of demo_hash v ?t = Some 2)"
    using demo_rec(2) by (simp add: t(2,3) key_of_def demo_hash_def)
  ultimately have "\<exists>tb'. TB_Load demo_hash (\<lambda>i. 0) (length ?rows) ?t = Some (0, tb') \<and> tbl_repr demo_cols ?rows (length ?rows) tb' \<and>
      tb_last tb' = int (length ?rows) - 1 \<and> (\<forall>k. tb_keys tb' k = map_option int (find (\<lambda>i. \<not> False \<and> 2 = k) [0..<length ?rows]))"
    using t(4) by (intro load_finds_documents [OF r]) simp_all
  then obtain tb' where "TB_Load demo_hash (\<lambda>i. 0) 1 ?t = Some (0, tb')" "\<forall>k. tb_keys tb' k = map_option int (find (\<lambda>i. 2 = k) [0])"
    by auto
  then show ?thesis by (intro exI [of _ ?t] exI [of _ tb']) simp
qed

text \<open>
  \<open>GetKeyByDocid\<close> compares the number of the document with a variable that the look-up of the key
  leaves alone when the key was deleted. If that variable happens to hold the number, the key of the
  deleted document is returned with 0; otherwise the result is -1.
\<close>

theorem deleted_key_by_docid:
  assumes r: "tbl_repr cols rows P tb" and i: "i < P" "int i \<le> tb_last tb" and j: "j < length cols" "fi_name (cols ! j) = tb_key_name tb"
    and v: "(rows ! i) (tb_key_name tb) = Some v" "key_of hash v tb = Some k" "tb_keys tb k = None"
  shows "\<exists>tb'. TB_GetKeyByDocid hash g junk (int i) key tb = Some (if junk = int i then (0, v, tb') else (-1, [], tb'))"
proof -
  obtain m items where m: "layout cols tb" "tb_sm tb = Some m" "rows_mgr (tb_item_length tb) items P m" "length items = length rows"
    "\<forall>i < length rows. doc_at cols m i (items ! i) (rows ! i)" "P \<le> length rows"
    by (rule tblE [OF r])
  have il: "i < length rows" "i < length items" using i m(4,6) by simp_all
  obtain m1 where m1: "get_row g (int i) tb = Some (0, Some (items ! i), tb\<lparr>tb_sm := Some m1\<rparr>)" "rows_mgr (tb_item_length tb) items P m1" "has_all m m1"
    using get_row_ok [OF m(1-3) i(1)] by blast
  have "doc_at cols m i (items ! i) (rows ! i)" using m(5) il(1) by blast
  then obtain bs where bs: "mem_slice (items ! i) (off_of cols j) (col_size cols j) = Some bs" "value_at m i (fi_type (cols ! j)) bs v"
    using j v(1) unfolding doc_at_def by metis
  then have va: "value_at m1 i (fi_type (cols ! j)) bs v" using value_at_mono m1(3) by (auto simp: has_all_def)
  let ?t1 = "tb\<lparr>tb_sm := Some m1\<rparr>"
  have l1: "layout cols ?t1" using m(1) by (rule layout_update) simp_all
  obtain m2 where m2: "TB_GetFieldRawValue g (int i) (int j) key (Some (items ! i)) ?t1 = Some (0, v, ?t1\<lparr>tb_sm := Some m2\<rparr>)"
    using TB_GetFieldRawValue_row [OF l1 j(1) _ m1(2) il(2) bs(1) va, of g key] by auto
  have idx: "map_of (tb_attr_idx tb) (tb_key_name tb) = Some (int j)" using layout_lookup(3) [OF m(1) j(1)] j(2) by simp
  have "key_of hash v (tb\<lparr>tb_sm := Some m2\<rparr>) = Some k" using v(2) by (simp add: key_of_def)
  then have "TB_GetDocIDByKey hash v junk (tb\<lparr>tb_sm := Some m2\<rparr>) = Some (-1, junk)" using key_lookup v(3) by simp
  then show ?thesis using m1(1) m2 idx i(2)
    by (intro exI [of _ "tb\<lparr>tb_sm := Some m2\<rparr>"]) (simp add: TB_GetKeyByDocid_def om_index_def)
qed

theorem deleted_key_by_docid_witness:
  "\<exists>tb tb1 tb2. TB_Delete demo_hash [120, 121] tb = Some (0, tb1) \<and>
    TB_GetKeyByDocid demo_hash (\<lambda>i. 0) 0 0 [] tb1 = Some (0, [120, 121], tb2)"
proof -
  obtain t where t: "tbl_repr demo_cols [rec_of demo_cols demo_fields] 1 t" "tb_keys t = [2 \<mapsto> 0]" "tb_id_type t = 0" "tb_last t = 0"
    "tb_key_name t = [95, 105, 100]"
    by (rule demo_doc)
  let ?t = "t\<lparr>tb_keys := (tb_keys t)(2 := None)\<rparr>"
  have d: "TB_Delete demo_hash [120, 121] t = Some (0, ?t)" using t(3) by (simp add: TB_Delete_def key_of_def demo_hash_def)
  have "tbl_repr demo_cols [rec_of demo_cols demo_fields] 1 ?t" using t(1) by (simp add: tbl_repr_def layout_def)
  from deleted_key_by_docid [OF this, of 0 0 "[120, 121]" demo_hash 2 "\<lambda>i. 0" 0 "[]"]
  show ?thesis using d t(3-5) demo_rec(2) by (auto simp: demo_cols_def key_of_def demo_hash_def)
qed

text \<open>
  C27: \<open>BatchAdd\<close> appends all documents of the batch, also the ones it reports for an empty key, and
  enters the keys of the others. It then counts one document too many as the last one: the check of
  \<open>GetDocInfo\<close> lets the number after the batch pass, and the call returns the storage manager's
  parameter error instead of -1.
\<close>

theorem batch_documents:
  assumes r: "tbl_repr cols rows P tb" and docs: "mem_slice doc_vec start_id n = Some docs"
    and fs: "\<forall>d \<in> set docs. fields_ok cols (dc_fields (with_id tb d))"
    and keys: "\<forall>d \<in> set docs. dc_key d \<noteq> [] \<longrightarrow> key_of hash (dc_key d) tb = Some (kk d)"
    and room: "length rows + length docs \<le> 199000000"
      "str_used tb + sum_list (map (\<lambda>d. bytes_of (dc_fields (with_id tb d))) docs) < 4294967296"
  shows "\<exists>vec tb'. TB_BatchAdd hash junk start_id n (int (length rows)) doc_vec tb = Some (map (\<lambda>d. dc_key d = []) docs, vec, tb') \<and>
    tbl_repr cols (rows @ map (\<lambda>d. rec_of cols (dc_fields (with_id tb d))) docs) P tb' \<and>
    tb_keys tb' = batch_map kk (int (length rows)) docs ++ tb_keys tb \<and>
    TB_GetDocInfo g t (int (length rows + n)) names d tb' = Some (PARAM_ERR, d, tb')"
proof -
  obtain vec tb' where tb': "TB_BatchAdd hash junk start_id n (int (length rows)) doc_vec tb = Some (map (\<lambda>d. dc_key d = []) docs, vec, tb')"
    "tbl_repr cols (rows @ map (\<lambda>d. rec_of cols (dc_fields (with_id tb d))) docs) P tb'"
    "tb_keys tb' = batch_map kk (int (length rows)) docs ++ tb_keys tb" "tb_last tb' = int (length rows) + int n"
    using TB_BatchAdd_ok [OF assms] by blast
  obtain m items where m: "tb_sm tb' = Some m" "rows_mgr (tb_item_length tb') items P m"
    "length items = length (rows @ map (\<lambda>d. rec_of cols (dc_fields (with_id tb d))) docs)"
    by (rule tblE [OF tb'(2)])
  have "length docs = n" using docs by (auto simp: mem_slice_Some)
  then have "int (length items) \<le> int (length rows + n)" using m(3) by simp
  from get_row_beyond [OF m(1,2) this, of g] have "TB_GetDocInfo g t (int (length rows + n)) names d tb' = Some (PARAM_ERR, d, tb')"
    using tb'(4) by (simp add: TB_GetDocInfo_def)
  then show ?thesis using tb'(1-3) by blast
qed

theorem batch_documents_witness:
  "\<exists>tb vec tb'. demo_create = Some (0, tb) \<and>
    TB_BatchAdd demo_hash (\<lambda>i. 7) 0 2 0 [\<lparr>dc_key = [120, 121], dc_fields = demo_fields\<rparr>, \<lparr>dc_key = [], dc_fields = demo_fields\<rparr>] tb =
      Some ([False, True], vec, tb') \<and> tb_keys tb' = [2 \<mapsto> 0] \<and>
    TB_GetDocInfo (\<lambda>i. 0) data_type.INT 2 [] \<lparr>dc_key = [], dc_fields = []\<rparr> tb' = Some (100, \<lparr>dc_key = [], dc_fields = []\<rparr>, tb')"
proof -
  obtain tb where tb: "demo_create = Some (0, tb)" "tbl_repr demo_cols [] 0 tb" "tb_keys tb = Map.empty" "tb_id_type tb = 0" "str_used tb = 0"
    by (rule demo_table)
  let ?docs = "[\<lparr>dc_key = [120, 121], dc_fields = demo_fields\<rparr>, \<lparr>dc_key = [], dc_fields = demo_fields\<rparr>] :: doc list"
  have w: "dc_fields (with_id tb d) = demo_fields" if "d \<in> set ?docs" for d
    using that by (auto simp: with_id_def demo_fields_def)
  have "\<forall>d \<in> set ?docs. fields_ok demo_cols (dc_fields (with_id tb d))" using w demo_fields_ok(1) by auto
  moreover have "\<forall>d \<in> set ?docs. dc_key d \<noteq> [] \<longrightarrow> key_of demo_hash (dc_key d) tb = Some 2"
    by (simp add: key_of_def demo_hash_def tb(4))
  moreover have "length ([] :: (byte list \<rightharpoonup> byte list) list) + length ?docs \<le> 199000000" by simp
  moreover have "str_used tb + sum_list (map (\<lambda>d. bytes_of (dc_fields (with_id tb d))) ?docs) < 4294967296"
    using demo_fields_ok(3) w tb(5) by simp
  ultimately obtain vec tb' where
    "TB_BatchAdd demo_hash (\<lambda>i. 7) 0 2 (int (length ([] :: (byte list \<rightharpoonup> byte list) list))) ?docs tb = Some (map (\<lambda>d. dc_key d = []) ?docs, vec, tb')"
    "tb_keys tb' = batch_map (\<lambda>d. 2) (int (length ([] :: (byte list \<rightharpoonup> byte list) list))) ?docs ++ tb_keys tb"
    "TB_GetDocInfo (\<lambda>i. 0) data_type.INT (int (length ([] :: (byte list \<rightharpoonup> byte list) list) + 2)) [] \<lparr>dc_key = [], dc_fields = []\<rparr> tb' =
      Some (PARAM_ERR, \<lparr>dc_key = [], dc_fields = []\<rparr>, tb')"
    using batch_documents [OF tb(2), of ?docs 0 2 ?docs demo_hash "\<lambda>d. 2" "\<lambda>i. 7" "\<lambda>i. 0" data_type.INT "[]" "\<lparr>dc_key = [], dc_fields = []\<rparr>"]
    by (auto simp: mem_slice_def)
  then show ?thesis using tb(1,3) by auto
qed

text \<open>
  \<open>Update\<close> copies a value that is not a string with the length the caller gives. A value that is longer
  than its field replaces the field behind it, and the call returns 0.
\<close>

theorem update_overruns:
  assumes "tbl_repr cols rows P tb" "i < P" "j + 1 < length cols" "fd_name f = fi_name (cols ! j)" "fd_type f \<noteq> STRING"
    and "length (fd_value f) = FTypeSize (fi_type (cols ! j)) + FTypeSize (fi_type (cols ! (j + 1)))"
    and "fi_type (cols ! j) \<noteq> STRING" "fi_type (cols ! (j + 1)) \<noteq> STRING"
  shows "\<exists>tb' tb''. TB_Update g [f] (int i) tb = Some (0, tb') \<and>
    TB_GetFieldRawValue h (int i) (int (j + 1)) [] None tb' = Some (0, drop (FTypeSize (fi_type (cols ! j))) (fd_value f), tb'')"
proof -
  have o: "off_of cols (j + 1) = off_of cols j + col_size cols j" "off_of cols (j + 2) = off_of cols (j + 1) + col_size cols (j + 1)"
    using off_of_Suc [of j cols] off_of_Suc [of "j + 1" cols] assms(3) by simp_all
  have "\<forall>k. j \<le> k \<and> k < j + 2 \<longrightarrow> fi_type (cols ! k) \<noteq> STRING"
  proof (intro allI impI)
    fix k assume "j \<le> k \<and> k < j + 2"
    then have "k = j \<or> k = j + 1" by auto
    then show "fi_type (cols ! k) \<noteq> STRING" using assms(7,8) by auto
  qed
  moreover have "off_of cols j + length (fd_value f) = off_of cols (j + 2)" using o assms(6) by simp
  ultimately obtain tb' where tb': "TB_Update g [f] (int i) tb = Some (0, tb')"
    "tbl_repr cols (rows[i := over cols j 2 (fd_value f) (rows ! i)]) P tb'"
    using TB_Update_over [OF assms(1,2), of 2 j f g] assms(3-5) by auto
  have d: "distinct (map fi_name cols)" using assms(1) by (simp add: tbl_repr_def layout_def)
  have "find (\<lambda>l. fi_name (cols ! l) = fi_name (cols ! (j + 1))) [j..<j + 2] = Some (j + 1)"
    using find_col [OF d, of "j + 1" j 2] assms(3) by simp
  then have "over cols j 2 (fd_value f) (rows ! i) (fi_name (cols ! (j + 1))) = Some (drop (col_size cols j) (fd_value f))"
    using o assms(6) by (simp add: over_def)
  moreover have "i < length rows" using tblE [OF assms(1)] assms(2) by (metis order_less_le_trans)
  ultimately show ?thesis
    using TB_GetFieldRawValue_ok [OF tb'(2) assms(2,3), of "drop (col_size cols j) (fd_value f)" h "[]"] tb'(1) by auto
qed

theorem update_overruns_witness:
  "\<exists>tb tb' tb''. TB_Update (\<lambda>i. 0) [(named_field data_type.LONG [97])\<lparr>fd_value := [9, 9, 9, 9, 8, 8, 8, 8]\<rparr>] 0 tb = Some (0, tb') \<and>
    TB_GetFieldRawValue (\<lambda>i. 0) 0 2 [] None tb' = Some (0, [8, 8, 8, 8], tb'') \<and>
    tbl_repr demo_cols [rec_of demo_cols demo_fields] 1 tb \<and> rec_of demo_cols demo_fields [98] = Some [2, 0, 0, 0]"
proof -
  obtain t where t: "tbl_repr demo_cols [rec_of demo_cols demo_fields] 1 t" by (rule demo_doc)
  let ?f = "(named_field data_type.LONG [97])\<lparr>fd_value := [9, 9, 9, 9, 8, 8, 8, 8]\<rparr>"
  have n: "demo_cols ! 1 = \<lparr>fi_name = [97], fi_type = data_type.INT, fi_index = True\<rparr>" "length demo_cols = 3"
    "demo_cols ! 2 = \<lparr>fi_name = [98], fi_type = data_type.INT, fi_index = True\<rparr>"
    by (simp_all add: demo_cols_def)
  have "\<exists>tb' tb''. TB_Update (\<lambda>i. 0) [?f] (int 0) t = Some (0, tb') \<and>
      TB_GetFieldRawValue (\<lambda>i. 0) (int 0) (int (1 + 1)) [] None tb' = Some (0, drop (FTypeSize (fi_type (demo_cols ! 1))) (fd_value ?f), tb'')"
    by (rule update_overruns [OF t]) (simp_all add: n n [unfolded One_nat_def] named_field_def numeral_2_eq_2 [symmetric])
  then show ?thesis using t demo_rec(3) by (auto simp: n n [unfolded One_nat_def] named_field_def)
qed

subsection \<open>New fields\<close>

definition types_ok :: "table \<Rightarrow> bool" where
  "types_ok tb \<longleftrightarrow> dom (map_of (tb_attr_type tb)) = dom (map_of (tb_attr_idx tb)) \<and>
     (\<exists>d. tb_fields tb = Some d \<and> dom (map_of (df_name2type d)) = dom (map_of (df_name2id d)))"

lemma DF_AddField_types:
  assumes "DF_AddField folders fi fid d = (r, d')" "\<not> DF_ContainField (fi_name fi) d"
  shows "map_of (df_name2type d') = (map_of (df_name2type d))(fi_name fi \<mapsto> fi_type fi)"
    "map_of (df_name2id d') = (map_of (df_name2id d))(fi_name fi \<mapsto> fid)"
  using assms by (auto simp: DF_AddField_def DF_ContainField_def Let_def map_of_put split: if_splits prod.splits)

lemma DF_GetFieldType_map:
  "dom (map_of (df_name2type d)) = dom (map_of (df_name2id d)) \<Longrightarrow> DF_GetFieldType n d = map_of (df_name2type d) n"
proof -
  assume "dom (map_of (df_name2type d)) = dom (map_of (df_name2id d))"
  then have "map_of (df_name2type d) n = None \<longleftrightarrow> map_of (df_name2id d) n = None" by (metis domIff)
  then show ?thesis by (cases "map_of (df_name2type d) n") (auto simp: DF_GetFieldType_def DF_ContainField_def df_type_def)
qed

lemma attr_type_total: "types_ok tb \<Longrightarrow> \<exists>t. TB_GetAttrType n tb = Some t"
  by (cases "map_of (tb_attr_type tb) n") (auto simp: TB_GetAttrType_def types_ok_def)

lemma TB_AddNewField_types:
  assumes ok: "types_ok tb" and n: "TB_GetAttrType (fi_name fi) tb = Some None"
  shows "\<exists>r tb'. TB_AddNewField folders fi tb = Some (r, tb') \<and> types_ok tb' \<and>
    (\<forall>n. TB_GetAttrType n tb' = (if n = fi_name fi then Some (Some (fi_type fi)) else TB_GetAttrType n tb))"
proof -
  obtain d where d: "tb_fields tb = Some d" "dom (map_of (df_name2type d)) = dom (map_of (df_name2id d))" using ok by (auto simp: types_ok_def)
  have at: "map_of (tb_attr_type tb) (fi_name fi) = None" "map_of (df_name2type d) (fi_name fi) = None"
    using n d DF_GetFieldType_map [OF d(2)] by (auto simp: TB_GetAttrType_def split: option.splits)
  have "map_of (tb_attr_idx tb) (fi_name fi) = None" using at(1) ok unfolding types_ok_def by (metis domIff)
  moreover have "\<not> DF_ContainField (fi_name fi) d" using at(2) d(2) unfolding DF_ContainField_def by (metis domIff)
  moreover obtain r d' where a: "DF_AddField folders fi (tb_field_num tb) d = (r, d')" by (cases "DF_AddField folders fi (tb_field_num tb) d")
  note t = DF_AddField_types [OF a calculation(2)]
  let ?tb' = "tb\<lparr>tb_attrs := tb_attrs tb @ [fi_type fi], tb_field_num := tb_field_num tb + 1, tb_fields := Some d'\<rparr>"
  have "TB_AddNewField folders fi tb = Some (r, ?tb')" using calculation(1) d(1) a by (simp add: TB_AddNewField_def)
  moreover have dm: "dom (map_of (df_name2type d')) = dom (map_of (df_name2id d'))" using t d(2) by simp
  then have "types_ok ?tb'" using ok by (simp add: types_ok_def)
  moreover have "TB_GetAttrType n ?tb' = (if n = fi_name fi then Some (Some (fi_type fi)) else TB_GetAttrType n tb)" for n
    using at(1) t(1) d by (simp add: TB_GetAttrType_def DF_GetFieldType_map [OF dm] DF_GetFieldType_map [OF d(2)] split: option.split)
  ultimately show ?thesis by blast
qed

lemma add_new_fields_types:
  "\<lbrakk>types_ok tb; distinct (map fi_name fs); \<forall>f \<in> set fs. TB_GetAttrType (fi_name f) tb = Some None\<rbrakk> \<Longrightarrow>
    \<exists>tb'. add_new_fields folders fs tb = Some tb' \<and> types_ok tb' \<and>
      (\<forall>f \<in> set fs. TB_GetAttrType (fi_name f) tb' = Some (Some (fi_type f))) \<and>
      (\<forall>n. n \<notin> fi_name ` set fs \<longrightarrow> TB_GetAttrType n tb' = TB_GetAttrType n tb)"
proof (induction fs arbitrary: tb)
  case (Cons f fs)
  obtain r t1 where t1: "TB_AddNewField folders f tb = Some (r, t1)" "types_ok t1"
    "\<forall>n. TB_GetAttrType n t1 = (if n = fi_name f then Some (Some (fi_type f)) else TB_GetAttrType n tb)"
    using TB_AddNewField_types [OF Cons.prems(1), of f folders] Cons.prems(3) by auto
  have "fi_name f \<notin> fi_name ` set fs" using Cons.prems(2) by simp
  then have "fi_name h \<noteq> fi_name f" if "h \<in> set fs" for h using that by (metis image_eqI)
  moreover have "\<forall>h \<in> set fs. TB_GetAttrType (fi_name h) t1 = Some None" using t1(3) Cons.prems(3) calculation by auto
  ultimately obtain tb' where "add_new_fields folders fs t1 = Some tb'" "types_ok tb'"
    "\<forall>f \<in> set fs. TB_GetAttrType (fi_name f) tb' = Some (Some (fi_type f))"
    "\<forall>n. n \<notin> fi_name ` set fs \<longrightarrow> TB_GetAttrType n tb' = TB_GetAttrType n t1"
    using Cons.IH [OF t1(2)] Cons.prems(2) by auto
  then show ?case using t1(1,3) \<open>fi_name f \<notin> fi_name ` set fs\<close> by auto
qed simp

definition unknown :: "table \<Rightarrow> doc_field list \<Rightarrow> field_info list" where
  "unknown tb fs = map (\<lambda>f. \<lparr>fi_name = fd_name f, fi_type = fd_type f, fi_index = True\<rparr>) (filter (\<lambda>f. TB_GetAttrType (fd_name f) tb = Some None) fs)"

lemma check_fields_result:
  assumes "types_ok tb"
  shows "check_fields fs new tb = Some (if \<forall>f \<in> set fs. TB_GetAttrType (fd_name f) tb = Some None \<or> TB_GetAttrType (fd_name f) tb = Some (Some (fd_type f))
    then Some (new @ unknown tb fs) else None)"
proof (induction fs arbitrary: new)
  case (Cons f fs)
  obtain t where "TB_GetAttrType (fd_name f) tb = Some t" using attr_type_total [OF assms] by blast
  then show ?case using Cons by (cases t) (auto simp: unknown_def)
qed (simp add: unknown_def)

text \<open>
  C31: \<open>CheckDocFields\<close> refuses a document in which a known field has another type, and then changes nothing.
  Otherwise it makes the other fields of the document new fields: all its fields are known afterwards,
  with the types they have in the document.
\<close>

theorem document_fields_known:
  assumes "types_ok tb" "distinct (map fd_name (dc_fields doc))"
  shows "\<exists>ok tb'. TB_CheckDocFields folders doc tb = Some (ok, tb') \<and>
    ok = (\<forall>f \<in> set (dc_fields doc). \<forall>t. TB_GetAttrType (fd_name f) tb = Some (Some t) \<longrightarrow> t = fd_type f) \<and>
    (if ok then \<forall>f \<in> set (dc_fields doc). TB_GetAttrType (fd_name f) tb' = Some (Some (fd_type f)) else tb' = tb)"
proof -
  let ?fs = "dc_fields doc"
  have e: "TB_GetAttrType n tb = Some None \<or> TB_GetAttrType n tb = Some (Some u) \<longleftrightarrow> (\<forall>t. TB_GetAttrType n tb = Some (Some t) \<longrightarrow> t = u)" for n u
  proof -
    obtain t where "TB_GetAttrType n tb = Some t" using attr_type_total [OF assms(1)] by blast
    then show ?thesis by (cases t) auto
  qed
  show ?thesis
  proof (cases "\<forall>f \<in> set ?fs. \<forall>t. TB_GetAttrType (fd_name f) tb = Some (Some t) \<longrightarrow> t = fd_type f")
    case False
    then have "check_fields ?fs [] tb = Some None" using check_fields_result [OF assms(1), of ?fs "[]"] by (simp only: e if_False)
    then have "TB_CheckDocFields folders doc tb = Some (False, tb)" by (simp add: TB_CheckDocFields_def)
    then show ?thesis using False by auto
  next
    case True
    have "distinct (map fi_name (unknown tb ?fs))" using assms(2) by (simp add: unknown_def comp_def distinct_map_filter)
    moreover have "\<forall>f \<in> set (unknown tb ?fs). TB_GetAttrType (fi_name f) tb = Some None" by (auto simp: unknown_def)
    ultimately obtain tb' where tb': "add_new_fields folders (unknown tb ?fs) tb = Some tb'"
      "\<forall>f \<in> set (unknown tb ?fs). TB_GetAttrType (fi_name f) tb' = Some (Some (fi_type f))"
      "\<forall>n. n \<notin> fi_name ` set (unknown tb ?fs) \<longrightarrow> TB_GetAttrType n tb' = TB_GetAttrType n tb"
      using add_new_fields_types [OF assms(1)] by blast
    have "TB_GetAttrType (fd_name f) tb' = Some (Some (fd_type f))" if f: "f \<in> set ?fs" for f
    proof (cases "TB_GetAttrType (fd_name f) tb = Some None")
      case True
      then have "\<lparr>fi_name = fd_name f, fi_type = fd_type f, fi_index = True\<rparr> \<in> set (unknown tb ?fs)" using f by (auto simp: unknown_def)
      then show ?thesis using tb'(2) by force
    next
      case False
      then have "TB_GetAttrType (fd_name f) tb = Some (Some (fd_type f))" using True f e by blast
      moreover have "fd_name f \<notin> fi_name ` set (unknown tb ?fs)" using False by (auto simp: unknown_def)
      ultimately show ?thesis using tb'(3) by simp
    qed
    moreover have "TB_CheckDocFields folders doc tb = Some (True, tb')"
      using check_fields_result [OF assms(1), of ?fs "[]"] True e tb'(1) by (simp add: TB_CheckDocFields_def)
    ultimately show ?thesis using True by auto
  qed
qed

lemma demo_types_ok:
  assumes "tbl_repr cols rows P tb" "tb_fields tb = Some (fresh n)"
  shows "types_ok tb"
proof -
  have "layout cols tb" using assms(1) by (simp add: tbl_repr_def)
  then have "map_of (tb_attr_type tb) x = None \<longleftrightarrow> map_of (tb_attr_idx tb) x = None" for x by (simp add: layout_def col_map_None)
  then have "dom (map_of (tb_attr_type tb)) = dom (map_of (tb_attr_idx tb))" by (intro set_eqI) (simp only: domIff)
  then show ?thesis using assms(2) by (auto simp: types_ok_def fresh_def DF_new_def)
qed

theorem document_fields_known_witness:
  "\<exists>tb tb' tb''. demo_create = Some (0, tb) \<and>
    TB_CheckDocFields (\<lambda>n. None) \<lparr>dc_key = [], dc_fields = [named_field data_type.INT [97], named_field STRING [99]]\<rparr> tb = Some (True, tb') \<and>
    TB_GetAttrType [99] tb' = Some (Some STRING) \<and>
    TB_CheckDocFields (\<lambda>n. None) \<lparr>dc_key = [], dc_fields = [named_field STRING [97]]\<rparr> tb = Some (False, tb)"
proof -
  obtain tb where tb: "demo_create = Some (0, tb)" "tbl_repr demo_cols [] 0 tb" "tb_fields tb = Some (fresh 10000)" by (rule demo_table)
  have ok: "types_ok tb" by (rule demo_types_ok [OF tb(2,3)])
  have l: "layout demo_cols tb" using tb(2) by (simp add: tbl_repr_def)
  have a: "TB_GetAttrType [97] tb = Some (Some data_type.INT)"
    using layout_lookup(2) [OF l, of 1] by (simp add: TB_GetAttrType_def demo_cols_def)
  have "map_of (tb_attr_type tb) [99] = None" using l by (simp add: layout_def col_map_None demo_cols_def)
  then have c: "TB_GetAttrType [99] tb = Some None"
    using tb(3) by (simp add: TB_GetAttrType_def DF_GetFieldType_def DF_ContainField_def fresh_def DF_new_def)
  let ?d1 = "\<lparr>dc_key = [], dc_fields = [named_field data_type.INT [97], named_field STRING [99]]\<rparr>"
  let ?d2 = "\<lparr>dc_key = [], dc_fields = [named_field STRING [97]]\<rparr>"
  have "distinct (map fd_name (dc_fields ?d1))" "distinct (map fd_name (dc_fields ?d2))" by (simp_all add: named_field_def)
  note th = document_fields_known [OF ok this(1), of "\<lambda>n. None"] document_fields_known [OF ok this(2), of "\<lambda>n. None"]
  show ?thesis using th tb(1) a c by (auto simp: named_field_def)
qed

subsection \<open>Numbers as text\<close>

text \<open>The number a text in decimal stands for.\<close>

definition text_nat :: "byte list \<Rightarrow> nat" where
  "text_nat bs = foldl (\<lambda>n b. 10 * n + (unat b - 48)) 0 bs"

definition text_int :: "byte list \<Rightarrow> int" where
  "text_int bs = (if bs \<noteq> [] \<and> hd bs = 45 then - int (text_nat (tl bs)) else int (text_nat bs))"

lemma digit: "n < 10 \<Longrightarrow> unat (of_nat (48 + n) :: byte) = 48 + n"
  by (rule unat_of_nat8) simp

lemma text_dec_nat: "text_nat (dec_nat n) = n"
proof (induction n rule: dec_nat.induct)
  case (1 n)
  show ?case
  proof (cases "n < 10")
    case True
    then show ?thesis using digit [of n] by (subst dec_nat.simps) (simp add: text_nat_def)
  next
    case False
    then have "dec_nat n = dec_nat (n div 10) @ [of_nat (48 + n mod 10)]" by (subst dec_nat.simps) simp
    then show ?thesis using 1 [OF False] digit [of "n mod 10"] by (simp add: text_nat_def)
  qed
qed

lemma dec_nat_digits: "b \<in> set (dec_nat n) \<Longrightarrow> 48 \<le> unat b"
proof (induction n rule: dec_nat.induct)
  case (1 n)
  show ?case
  proof (cases "n < 10")
    case True
    then show ?thesis using 1(2) digit [of n] by (subst (asm) dec_nat.simps) simp
  next
    case False
    then have "b \<in> set (dec_nat (n div 10)) \<or> b = of_nat (48 + n mod 10)" using 1(2) by (subst (asm) dec_nat.simps) auto
    then show ?thesis using 1(1) [OF False] digit [of "n mod 10"] by (metis le_add1 mod_less_divisor zero_less_numeral)
  qed
qed

lemma text_dec_int: "text_int (dec_int i) = i"
proof (cases "i < 0")
  case False
  have "hd (dec_nat (nat i)) \<noteq> 45" if "dec_nat (nat i) \<noteq> []"
    using dec_nat_digits [of "hd (dec_nat (nat i))" "nat i"] that by auto
  then have "text_int (dec_nat (nat i)) = int (text_nat (dec_nat (nat i)))"
    by (auto simp: text_int_def)
  then show ?thesis using False by (simp add: dec_int_def text_dec_nat)
qed (simp add: dec_int_def text_int_def text_dec_nat)

text \<open>
  The text that \<open>GetDocInfo\<close> gives for a field of type \<open>INT\<close> or \<open>LONG\<close> stands for the number in the row.
\<close>

theorem number_text:
  "map_option (\<lambda>f. text_int (fd_value f)) (TB_NumericValueToStr (f\<lparr>fd_type := data_type.INT, fd_value := le32 w\<rparr>)) = Some (sint w) \<and>
   map_option (\<lambda>f. text_int (fd_value f)) (TB_NumericValueToStr (f\<lparr>fd_type := data_type.LONG, fd_value := le64 (unat x)\<rparr>)) = Some (sint (x :: u64))"
proof -
  have a: "mem_put 0 bs (replicate (length bs) 0) = Some bs" for bs by (simp add: mem_put_def splice_def)
  have "of_le64 (le64 (unat x)) = unat x"
  proof -
    have x: "unat x < 2 ^ 64" by (rule order_less_le_trans [OF unsigned_less]) simp
    then have q: "unat x div 2 ^ 32 < 2 ^ 32" by (auto simp: div_less_iff_less_mult)
    have "unat (of_nat n :: u32) = n mod 2 ^ 32" for n :: nat by (simp add: unat_of_nat take_bit_eq_mod)
    from this [of "unat x"] have lo: "unat (of_nat (unat x) :: u32) = unat x mod 2 ^ 32" .
    have hi: "unat (of_nat (unat x div 2 ^ 32) :: u32) = unat x div 2 ^ 32" using q by (simp add: unat_of_nat32)
    have "take 4 (le32 a @ le32 b) = le32 a" "drop 4 (le32 a @ le32 b) = le32 b" for a b by simp_all
    then show ?thesis unfolding of_le64_def le64_def by (simp only: of_le32_le32 lo hi) simp
  qed
  moreover have "length (le64 (unat x)) = 8" by (simp add: le64_def)
  ultimately show ?thesis using a [of "le32 w"] a [of "le64 (unat x)"] by (simp add: TB_NumericValueToStr_def text_dec_int)
qed

end
