(* ===== verification/VectorBlk.thy ===== *)
theory VectorBlk
  imports StorageProps
begin

text \<open>
  \<open>storage/vector_block.cc\<close> without \<open>WITH_ZFP\<close>, that is without a compressor: the overrides of
  \<open>Block\<close> that the segments of raw vectors use. They agree with the block of tables, so the storage
  manager's properties hold for vectors as well.
\<close>

subsection \<open>Writing\<close>

text \<open>The request takes \<open>vec_item_len_\<close> bytes of the value, whatever its length.\<close>

definition VB_Write :: "nat \<Rightarrow> byte list \<Rightarrow> u32 \<Rightarrow> iblk \<Rightarrow> wreq list \<Rightarrow> wreq list option" where
  "VB_Write fd val start ib q = do {
     data \<leftarrow> mem_slice val 0 (unat (ib_item ib));
     Some (q @ [\<lparr>w_fd = fd, w_data = data, w_start = ib_header ib + start\<rparr>]) }"

lemma VB_Write_eq: "length val = unat (ib_item ib) \<Longrightarrow> VB_Write fd val start ib q = Some (TableBlock_Write fd val start ib q)"
  by (simp add: VB_Write_def TableBlock_Write_def mem_slice_def)

subsection \<open>Reading\<close>

definition VB_GetReadFunParameter :: "iblk \<Rightarrow> segfile \<Rightarrow> u32 \<Rightarrow> u32 \<Rightarrow> rparam" where
  "VB_GetReadFunParameter ib sf len off =
     (let p = \<lparr>rp_file = sf_base sf, rp_len = len, rp_offset = off\<rparr> in p\<lparr>rp_offset := rp_offset p + ib_header ib\<rparr>)"

definition VB_ReadBlock :: "u32 \<Rightarrow> byte list \<Rightarrow> rparam \<Rightarrow> (bool \<times> byte list) option" where
  "VB_ReadBlock key block param =
     (if unat (rp_len param) > MAX_BLOCK_SIZE then Some (False, block)
      else if unat (rp_len param) \<le> length block
      then Some (True, read_into block (pread (rp_file param) (unat (rp_offset param)) (unat (rp_len param))))
      else None)"

definition VB_ReadContent :: "(nat \<Rightarrow> byte) \<Rightarrow> iblk \<Rightarrow> segfile \<Rightarrow> u32 \<Rightarrow> u32 \<Rightarrow> byte list" where
  "VB_ReadContent g ib sf n_bytes start =
     read_into (map g [0..<unat n_bytes]) (pread (sf_base sf) (unat (ib_header ib + start)) (unat n_bytes))"

text \<open>One round of \<open>Read\<close>: the block through the cache when it is on disk, the file otherwise and when
  the cache fails.\<close>

definition VB_cached :: "(nat \<Rightarrow> byte) \<Rightarrow> segfile \<Rightarrow> u32 \<Rightarrow> u32 \<Rightarrow> u32 \<Rightarrow> u32 \<Rightarrow> cache \<Rightarrow> iblk \<Rightarrow>
    (byte list option \<times> cache) option" where
  "VB_cached g sf len block_id block_pos block_offset c ib =
     (if ib_last ib > block_id
      then do {
        (res, block, c') \<leftarrow> C_SetOrGet g VB_ReadBlock (GetCacheBlockId (ib_seg ib) (ib_capacity ib) block_id)
          (VB_GetReadFunParameter ib sf (ib_per_block ib) block_pos) c;
        (case (res, block) of
           (True, Some a) \<Rightarrow> do { b \<leftarrow> cache_buf c' a; bs \<leftarrow> mem_slice b (unat block_offset) (unat len); Some (Some bs, c') }
         | _ \<Rightarrow> Some (None, c')) }
      else Some (None, c))"

definition VB_read_chunk :: "(nat \<Rightarrow> byte) \<Rightarrow> segfile \<Rightarrow> u32 \<Rightarrow> u32 \<Rightarrow> cache \<Rightarrow> iblk \<Rightarrow> (byte list \<times> cache \<times> iblk) option" where
  "VB_read_chunk g sf len start c ib =
     (let block_id = start div ib_per_block ib;
          block_pos = block_id * ib_per_block ib;
          block_offset = start mod ib_per_block ib;
          ib' = (if ib_last ib \<le> block_id then ib\<lparr>ib_last := sf_cur sf * ib_item ib div ib_per_block ib\<rparr> else ib)
      in do {
        (bs, c') \<leftarrow> VB_cached g sf len block_id block_pos block_offset c ib';
        Some (case bs of None \<Rightarrow> VB_ReadContent g ib sf len (block_pos + block_offset) | Some bs \<Rightarrow> bs, c', ib') })"

lemma VB_funs_eq:
  "VB_ReadBlock = ReadBlock" "VB_GetReadFunParameter = GetReadFunParameter" "VB_ReadContent = ReadContent"
  "GetReadFunParameter (ib\<lparr>ib_last := l\<rparr>) = GetReadFunParameter ib"
  by (simp_all add: fun_eq_iff VB_ReadBlock_def ReadBlock_def VB_GetReadFunParameter_def GetReadFunParameter_def
    VB_ReadContent_def ReadContent_def)

lemma VB_read_chunk_eq: "VB_read_chunk g sf len start c ib = read_chunk g sf len start c ib"
proof -
  let ?bid = "start div ib_per_block ib"
  define l where "l = (if ib_last ib \<le> ?bid then sf_cur sf * ib_item ib div ib_per_block ib else ib_last ib)"
  have ib: "(if ib_last ib \<le> ?bid then ib\<lparr>ib_last := sf_cur sf * ib_item ib div ib_per_block ib\<rparr> else ib) = ib\<lparr>ib_last := l\<rparr>"
    by (simp add: l_def)
  show ?thesis
  proof (cases "l \<le> ?bid")
    case True
    then have "\<not> ?bid < l" by simp
    with True show ?thesis
      unfolding VB_read_chunk_def read_chunk_def VB_cached_def Let_def ib l_def [symmetric] by (simp add: VB_funs_eq del: not_less)
  next
    case False
    then have lt: "?bid < l" by simp
    show ?thesis
    proof (cases "C_SetOrGet g ReadBlock (GetCacheBlockId (ib_seg ib) (ib_capacity ib) ?bid)
        (GetReadFunParameter ib sf (ib_per_block ib) (?bid * ib_per_block ib)) c")
      case None
      then show ?thesis
        unfolding VB_read_chunk_def read_chunk_def VB_cached_def Let_def ib l_def [symmetric] using lt by (simp add: VB_funs_eq)
    next
      case (Some x)
      obtain res block c' where "x = (res, block, c')" by (cases x)
      with Some show ?thesis
        unfolding VB_read_chunk_def read_chunk_def VB_cached_def Let_def ib l_def [symmetric] using lt False
        by (cases res; cases block) (simp_all add: VB_funs_eq Option.bind_assoc)
    qed
  qed
qed

function VB_read_loop :: "(nat \<Rightarrow> byte) \<Rightarrow> segfile \<Rightarrow> u32 \<Rightarrow> u32 \<Rightarrow> cache \<Rightarrow> iblk \<Rightarrow> (byte list \<times> cache \<times> iblk) option" where
  "VB_read_loop g sf n_bytes start c ib =
     (if n_bytes = 0 then Some ([], c, ib)
      else if ib_per_block ib = 0 then None
      else let len = chunk (ib_per_block ib) n_bytes start
           in (case VB_read_chunk g sf len start c ib of
                 None \<Rightarrow> None
               | Some (bs, c', ib') \<Rightarrow>
                   (case VB_read_loop g sf (n_bytes - len) (start + len) c' ib' of
                      None \<Rightarrow> None
                    | Some (rest, r) \<Rightarrow> Some (bs @ rest, r))))"
  by pat_completeness auto
termination
proof (relation "measure (\<lambda>(g, sf, n, start, c, ib). unat n)")
  fix sf :: segfile and n start x :: u32 and ib :: iblk
  assume "n \<noteq> 0" "ib_per_block ib \<noteq> 0" "x = chunk (ib_per_block ib) n start"
  then have "0 < unat x" "unat x \<le> unat n"
    using chunk_bounds [of "ib_per_block ib" n start] by (simp_all add: word_neq_0_conv)
  then show "((g, sf, n - x, start + x, c', ib'), g, sf, n, start, c, ib)
      \<in> measure (\<lambda>(g, sf, n, start, c, ib). unat n)" for g c c' ib'
    by (simp add: unat_diff32)
qed simp_all

declare VB_read_loop.simps [simp del]

definition VB_Read :: "(nat \<Rightarrow> byte) \<Rightarrow> segfile \<Rightarrow> u32 \<Rightarrow> u32 \<Rightarrow> cache option \<Rightarrow> iblk \<Rightarrow> (byte list \<times> cache option \<times> iblk) option" where
  "VB_Read g sf n_bytes start c ib = (case c of
     None \<Rightarrow> Some (VB_ReadContent g ib sf n_bytes start, None, ib)
   | Some cc \<Rightarrow> map_option (\<lambda>(bs, c', ib'). (bs, Some c', ib')) (VB_read_loop g sf n_bytes start cc ib))"

lemma VB_read_loop_eq: "VB_read_loop g sf n start c ib = read_loop g sf n start c ib"
  by (induction g sf n start c ib rule: read_loop.induct)
    (subst VB_read_loop.simps, subst read_loop.simps, auto simp: VB_read_chunk_eq Let_def split: option.splits)

lemma VB_Read_eq: "VB_Read g sf n start c ib = Block_Read g sf n start c ib"
  by (cases c) (simp_all add: VB_Read_def Block_Read_def VB_read_loop_eq VB_ReadContent_def ReadContent_def)

subsection \<open>Updating\<close>

definition VB_Update :: "byte list \<Rightarrow> u32 \<Rightarrow> segfile \<Rightarrow> cache option \<Rightarrow> iblk \<Rightarrow> (segfile \<times> cache option) option" where
  "VB_Update val start sf c ib =
     (let sf' = sf\<lparr>sf_base := write_at (sf_base sf) (unat (ib_header ib + start)) val\<rparr>
      in (case c of
            None \<Rightarrow> Some (sf', None)
          | Some cc \<Rightarrow> map_option (\<lambda>c'. (sf', Some c')) (update_loop ib val (of_nat (length val)) start cc)))"

lemma VB_Update_eq: "VB_Update val start sf c ib = Block_Update val start sf c ib"
  by (simp add: VB_Update_def Block_Update_def)

text \<open>All overrides together.\<close>

lemma vector_block_is_block:
  "VB_Read = Block_Read" "VB_Update = Block_Update"
  by (simp_all add: fun_eq_iff VB_Read_eq VB_Update_eq)

text \<open>
  Vectors of more than 64 KB leave \<open>per_block_size_\<close> 0, and a read through a cache divides by it.
\<close>

lemma long_vectors_fault:
  assumes "65536 < unat item" "n \<noteq> 0"
  shows "VB_Read g sf n start (Some c) (IB_new (item_block_size item) item header k cap) = None"
proof -
  have "65536 < item" using assms(1) by (simp add: word_less_nat_alt)
  then have "item \<noteq> 0" "65536 div item = 0" by (auto simp: word_less_nat_alt unat_div word_unat_eq_iff)
  then have "item_block_size item = 0" by (simp add: item_block_size_def Let_def)
  then show ?thesis using assms(2) by (simp add: VB_Read_def VB_read_loop.simps IB_new_def)
qed

end
