(* ===== verification/RawVec.thy ===== *)
theory RawVec
  imports VectorBlk VidMgr DocFields
begin

text \<open>
  Raw vectors (\<open>vector/raw_vector.cc\<close>, \<open>memory_raw_vector.cc\<close>, \<open>mmap_raw_vector.cc\<close>, and
  \<open>io/mmap_raw_vector_io.cc\<close> for restarts). \<open>RawVector\<close> leaves the store to its two subclasses: one keeps the
  vectors on disk through a storage manager, the other has them in memory as well, in segments. A
  segment is the list of the vectors written to it; a vector nobody wrote is \<open>None\<close>. Compression
  (\<open>WITH_ZFP\<close>) is left out, sources are refused by \<open>Init\<close>.
\<close>

record memsegs =
  ms_segs :: "byte list list list"
  ms_seg_size :: int

record rawvec =
  rv_dim :: nat
  rv_binary :: bool
  rv_size :: nat
  rv_bytes :: nat
  rv_cache :: int
  rv_seg_size :: int
  rv_vids :: vid_mgr
  rv_sm :: "sm option"
  rv_mem :: "memsegs option"

abbreviation max_segments :: nat where "max_segments \<equiv> 10000"
abbreviation LIMIT_ERR :: int where "LIMIT_ERR \<equiv> 303"
abbreviation ALLOC_ERR :: int where "ALLOC_ERR \<equiv> 301"
abbreviation INTERNAL_ERR :: int where "INTERNAL_ERR \<equiv> 300"

definition data_size :: "rawvec \<Rightarrow> nat" where
  "data_size v = (if rv_binary v then 1 else 4)"

text \<open>The constructors: \<open>mem\<close> says which subclass.\<close>

definition RV_new :: "nat \<Rightarrow> bool \<Rightarrow> int \<Rightarrow> int \<Rightarrow> bool \<Rightarrow> rawvec" where
  "RV_new dim binary cache_size segment_size mem =
     \<lparr>rv_dim = dim, rv_binary = binary, rv_size = 0, rv_bytes = (if binary then 1 else 4) * dim, rv_cache = cache_size,
      rv_seg_size = segment_size, rv_vids = new_vid_mgr False, rv_sm = None,
      rv_mem = (if mem then Some \<lparr>ms_segs = [], ms_seg_size = segment_size\<rparr> else None)\<rparr>"

subsection \<open>The segments in memory\<close>

text \<open>A new segment: the product of its \<open>int\<close> sizes must not overflow; a negative one cannot be allocated.\<close>

definition ExtendSegments :: "nat \<Rightarrow> memsegs \<Rightarrow> (int \<times> memsegs) option" where
  "ExtendSegments bytes ms =
     (if length (ms_segs ms) \<ge> max_segments then Some (LIMIT_ERR, ms)
      else if \<bar>ms_seg_size ms * int bytes\<bar> > 2147483647 then None
      else if ms_seg_size ms * int bytes < 0 then Some (ALLOC_ERR, ms)
      else Some (0, ms\<lparr>ms_segs := ms_segs ms @ [[]]\<rparr>))"

definition AddToMem :: "nat \<Rightarrow> byte list \<Rightarrow> memsegs \<Rightarrow> (int \<times> memsegs) option" where
  "AddToMem bytes v ms =
     (if ms_segs ms = [] then None
      else do {
        (e, ms1) \<leftarrow> (if int (length (last (ms_segs ms))) = ms_seg_size ms then ExtendSegments bytes ms else Some (0, ms));
        (if e \<noteq> 0 then Some (-2, ms)
         else do {
           w \<leftarrow> mem_slice v 0 bytes;
           Some (0, ms1\<lparr>ms_segs := butlast (ms_segs ms1) @ [last (ms_segs ms1) @ [w]]\<rparr>) }) })"

text \<open>\<open>segments_[vid / segment_size_]\<close> and the place in it, where \<open>vid\<close> is converted to \<open>size_t\<close>.\<close>

definition mem_place :: "memsegs \<Rightarrow> int \<Rightarrow> (nat \<times> nat) option" where
  "mem_place ms vid = (if ms_seg_size ms \<le> 0 \<or> cdiv vid (ms_seg_size ms) < 0 then None
     else Some (nat (cdiv vid (ms_seg_size ms)), nat (vid mod 2 ^ 64 mod ms_seg_size ms)))"

definition mem_get :: "memsegs \<Rightarrow> int \<Rightarrow> byte list option" where
  "mem_get ms vid = do { (k, i) \<leftarrow> mem_place ms vid; seg \<leftarrow> fetch (ms_segs ms) (int k); fetch seg (int i) }"

definition mem_update :: "nat \<Rightarrow> memsegs \<Rightarrow> int \<Rightarrow> byte list \<Rightarrow> memsegs option" where
  "mem_update bytes ms vid v = do {
     (k, i) \<leftarrow> mem_place ms vid;
     seg \<leftarrow> fetch (ms_segs ms) (int k);
     w \<leftarrow> mem_slice v 0 bytes;
     seg' \<leftarrow> store seg (int i) w;
     Some (ms\<lparr>ms_segs := (ms_segs ms)[k := seg']\<rparr>) }"

text \<open>\<open>GetVectorHeader\<close>: the pieces of a range that lie in one segment each.\<close>

function mem_headers :: "memsegs \<Rightarrow> int \<Rightarrow> int \<Rightarrow> (byte list list \<times> int list) option" where
  "mem_headers ms start n =
     (if n = 0 then Some ([], [])
      else if n < 0 \<or> start < 0 \<or> ms_seg_size ms \<le> 0 then None
      else let i = start mod ms_seg_size ms; len = min n (ms_seg_size ms - i) in
        (case fetch (ms_segs ms) (start div ms_seg_size ms) of
           None \<Rightarrow> None
         | Some seg \<Rightarrow> (case mem_slice seg (nat i) (nat len) of
             None \<Rightarrow> None
           | Some vs \<Rightarrow> (case mem_headers ms (start + len) (n - len) of
               None \<Rightarrow> None
             | Some (vals, lens) \<Rightarrow> Some (concat vs # vals, len # lens)))))"
  by pat_completeness auto
termination
proof (relation "measure (\<lambda>(ms, start, n). nat n)")
  fix ms :: memsegs and start n i len :: int and seg :: "byte list list" and vs :: "byte list list"
  assume a: "n \<noteq> 0" "\<not> (n < 0 \<or> start < 0 \<or> ms_seg_size ms \<le> 0)" "i = start mod ms_seg_size ms" "len = min n (ms_seg_size ms - i)"
  then have "i < ms_seg_size ms" by simp
  then have "0 < len" "len \<le> n" using a by auto
  then show "((ms, start + len, n - len), ms, start, n) \<in> measure (\<lambda>(ms, start, n). nat n)" by simp
qed simp

declare mem_headers.simps [simp del]

subsection \<open>Opening the store\<close>

text \<open>The number of vectors of a segment and the number of its blocks: \<open>limit\<close> is \<open>INT_MAX\<close> for the
  store on disk and \<open>UINT_MAX\<close> for the one in memory. A dimension of 0 divides by 0.\<close>

definition seg_layout :: "int \<Rightarrow> nat \<Rightarrow> int \<Rightarrow> (int \<times> int) option" where
  "seg_layout limit bytes segment_size =
     (if bytes = 0 then None
      else let max_seg_size = limit div int bytes; as_int = sint (word_of_int max_seg_size :: u32) in
        (if as_int < segment_size
         then (if max_seg_size = 0 then None
               else Some (as_int, 4000000000 div (1000000000 div max_seg_size + 1) - 1))
         else Some (segment_size, 2000000)))"

definition vec_mgr :: "nat \<Rightarrow> int \<Rightarrow> int \<Rightarrow> folder \<Rightarrow> sm" where
  "vec_mgr bytes segment_size seg_block_capacity fo =
     \<lparr>sm_fixed = int bytes, sm_segment_size = segment_size, sm_capacity = word_of_int seg_block_capacity, sm_table = False,
      sm_can_open = fo_can_open fo, sm_segs = [], sm_disk = fo_disk fo, sm_files = fo_files fo, sm_nfiles = fo_nfiles fo,
      sm_queue = [], sm_size = 0, sm_cache = None, sm_str_cache = None\<rparr>"

definition Mmap_InitStore :: "folder \<Rightarrow> rawvec \<Rightarrow> (int \<times> rawvec) option" where
  "Mmap_InitStore fo v = do {
     (segment_size, capacity) \<leftarrow> seg_layout 2147483647 (rv_bytes v) (rv_seg_size v);
     let (ret, m) = SM_Init (rv_cache v) 0 (vec_mgr (rv_bytes v) segment_size capacity fo);
     Some (ret, v\<lparr>rv_seg_size := segment_size, rv_sm := Some m\<rparr>) }"

definition Mem_InitStore :: "folder \<Rightarrow> rawvec \<Rightarrow> (int \<times> rawvec) option" where
  "Mem_InitStore fo v = do {
     ms \<leftarrow> rv_mem v;
     (e, ms1) \<leftarrow> ExtendSegments (rv_bytes v) ms;
     (if e \<noteq> 0 then Some (-2, v\<lparr>rv_mem := Some ms1\<rparr>)
      else do {
        (segment_size, capacity) \<leftarrow> seg_layout 4294967295 (rv_bytes v) (rv_seg_size v);
        let (ret, m) = SM_Init 0 0 (vec_mgr (rv_bytes v) segment_size capacity fo);
        Some (ret, v\<lparr>rv_seg_size := segment_size, rv_mem := Some ms1, rv_sm := Some m\<rparr>) }) }"

definition RV_Init :: "folder \<Rightarrow> bool \<Rightarrow> bool \<Rightarrow> rawvec \<Rightarrow> (int \<times> rawvec) option" where
  "RV_Init fo has_source multi_vids v =
     (if has_source \<or> multi_vids then Some (-1, v)
      else let v1 = v\<lparr>rv_vids := fst (VM_Init (new_vid_mgr multi_vids) 1000000 0), rv_bytes := data_size v * rv_dim v\<rparr> in do {
        (e, v2) \<leftarrow> (if rv_mem v1 = None then Mmap_InitStore fo v1 else Mem_InitStore fo v1);
        Some (if e \<noteq> 0 then -2 else 0, v2) })"

subsection \<open>Adding and updating\<close>

text \<open>\<open>AddToStore\<close> in memory ignores what the storage manager returns.\<close>

definition RV_AddToStore :: "byte list \<Rightarrow> rawvec \<Rightarrow> (int \<times> rawvec) option" where
  "RV_AddToStore bs v = do {
     m \<leftarrow> rv_sm v;
     let (ret, m') = SM_Add bs m;
     let v1 = v\<lparr>rv_sm := Some m'\<rparr>;
     (case rv_mem v of
        None \<Rightarrow> Some (ret, v1)
      | Some ms \<Rightarrow> do { (r, ms') \<leftarrow> AddToMem (rv_bytes v) bs ms; Some (r, v1\<lparr>rv_mem := Some ms'\<rparr>) }) }"

definition RV_AddVec :: "int \<Rightarrow> byte list \<Rightarrow> rawvec \<Rightarrow> (int \<times> rawvec) option" where
  "RV_AddVec docid bs v = do {
     (ret, v1) \<leftarrow> RV_AddToStore bs v;
     (if ret \<noteq> 0 then Some (-2, v1)
      else do {
        (r, vids) \<leftarrow> VM_Add (rv_vids v1) (int (rv_size v1)) docid;
        Some (r, v1\<lparr>rv_vids := vids, rv_size := rv_size v1 + 1\<rparr>) }) }"

definition RV_Add :: "int \<Rightarrow> doc_field \<Rightarrow> rawvec \<Rightarrow> (int \<times> rawvec) option" where
  "RV_Add docid f v = (if length (fd_value f) \<noteq> data_size v * rv_dim v then Some (-1, v) else RV_AddVec docid (fd_value f) v)"

text \<open>\<open>Add\<close> of a bare pointer reads the bytes of one vector.\<close>

definition RV_AddData :: "int \<Rightarrow> byte list \<Rightarrow> rawvec \<Rightarrow> (int \<times> rawvec) option" where
  "RV_AddData docid p v = do { bs \<leftarrow> mem_slice p 0 (data_size v * rv_dim v); RV_AddVec docid bs v }"

definition RV_UpdateToStore :: "int \<Rightarrow> byte list \<Rightarrow> rawvec \<Rightarrow> (int \<times> rawvec) option" where
  "RV_UpdateToStore vid bs v = do {
     ms \<leftarrow> (case rv_mem v of None \<Rightarrow> Some None | Some ms \<Rightarrow> map_option Some (mem_update (rv_bytes v) ms vid (c_str bs)));
     m \<leftarrow> rv_sm v;
     (r, m') \<leftarrow> SM_Update vid bs m;
     Some (r, v\<lparr>rv_mem := ms, rv_sm := Some m'\<rparr>) }"

definition RV_Update :: "int \<Rightarrow> doc_field \<Rightarrow> rawvec \<Rightarrow> (int \<times> rawvec) option" where
  "RV_Update docid f v =
     (if vm_multi (rv_vids v) \<or> int (rv_size v) \<le> docid then Some (-1, v)
      else if length (fd_value f) div data_size v = 0 then Some (-1, v)
      else do { (r, v') \<leftarrow> RV_UpdateToStore docid (fd_value f) v; Some (if r \<noteq> 0 then -1 else 0, v') })"

subsection \<open>Reading\<close>

text \<open>A vector, or the null pointer that \<open>Get\<close> of the storage manager leaves.\<close>

definition RV_GetVector :: "(nat \<Rightarrow> byte) \<Rightarrow> int \<Rightarrow> rawvec \<Rightarrow> (int \<times> byte list option \<times> rawvec) option" where
  "RV_GetVector g vid v = (case rv_mem v of
     Some ms \<Rightarrow> do { bs \<leftarrow> mem_get ms vid; Some (0, Some bs, v) }
   | None \<Rightarrow> do {
       m \<leftarrow> rv_sm v;
       (r, bs, m') \<leftarrow> SM_Get g vid m;
       Some (r, if r = 0 then Some bs else None, v\<lparr>rv_sm := Some m'\<rparr>) })"

fun RV_Gets :: "(nat \<Rightarrow> byte) \<Rightarrow> int list \<Rightarrow> rawvec \<Rightarrow> (byte list option list \<times> rawvec) option" where
  "RV_Gets g [] v = Some ([], v)"
| "RV_Gets g (vid # vids) v = do {
     (r, bs, v1) \<leftarrow> RV_GetVector g vid v;
     (rest, v2) \<leftarrow> RV_Gets g vids v1;
     Some (bs # rest, v2) }"

definition RV_GetVectorHeader :: "(nat \<Rightarrow> byte) \<Rightarrow> int \<Rightarrow> int \<Rightarrow> rawvec \<Rightarrow> (int \<times> byte list list \<times> int list \<times> rawvec) option" where
  "RV_GetVectorHeader g start n v = (case rv_mem v of
     Some ms \<Rightarrow>
       (if start + n > int (rv_size v) then Some (-1, [], [], v)
        else map_option (\<lambda>(vals, lens). (0, vals, lens, v)) (mem_headers ms start n))
   | None \<Rightarrow> do {
       m \<leftarrow> rv_sm v;
       (r, vals, lens, m') \<leftarrow> SM_GetHeaders g start n m;
       Some (r, vals, lens, v\<lparr>rv_sm := Some m'\<rparr>) })"

text \<open>There are no sources: the length is 0 for every vector that is there.\<close>

definition RV_GetSource :: "int \<Rightarrow> rawvec \<Rightarrow> int \<times> nat option" where
  "RV_GetSource vid v = (if vid < 0 \<or> int (rv_size v) \<le> vid then (-1, None) else (0, Some 0))"

definition RV_AlterCacheSize :: "int \<Rightarrow> rawvec \<Rightarrow> (int \<times> rawvec) option" where
  "RV_AlterCacheSize cache_size v =
     (if rv_mem v \<noteq> None then Some (-1, v)
      else case rv_sm v of
        None \<Rightarrow> Some (-1, v)
      | Some m \<Rightarrow> do { m' \<leftarrow> SM_AlterCacheSize cache_size 0 m; Some (0, v\<lparr>rv_sm := Some m'\<rparr>) })"

definition RV_GetCacheSize :: "rawvec \<Rightarrow> (int \<times> int option) option" where
  "RV_GetCacheSize v =
     (if rv_mem v \<noteq> None then Some (-1, None)
      else case rv_sm v of
        None \<Rightarrow> Some (-1, None)
      | Some m \<Rightarrow> do { (c, s) \<leftarrow> SM_GetCacheSize m; Some (0, Some c) })"

subsection \<open>Restarts\<close>

definition IO_GetDiskVecNum :: "rawvec \<Rightarrow> nat" where
  "IO_GetDiskVecNum v = (case rv_sm v of None \<Rightarrow> 0 | Some m \<Rightarrow> sm_size m)"

fun add_all :: "byte list list \<Rightarrow> rawvec \<Rightarrow> rawvec option" where
  "add_all [] v = Some v"
| "add_all (bs # rest) v = do { (r, v') \<leftarrow> RV_AddToStore bs v; add_all rest v' }"

text \<open>The vectors of the pieces that \<open>GetHeaders\<close> gave.\<close>

fun split_pieces :: "nat \<Rightarrow> byte list list \<Rightarrow> int list \<Rightarrow> byte list list option" where
  "split_pieces bytes vals [] = Some []"
| "split_pieces bytes [] (l # lens) = None"
| "split_pieces bytes (p # vals) (l # lens) = do {
     vs \<leftarrow> those (map (\<lambda>j. mem_slice p (j * bytes) bytes) [0..<nat l]);
     rest \<leftarrow> split_pieces bytes vals lens;
     Some (vs @ rest) }"

text \<open>\<open>Load\<close>: the store in memory is filled through \<open>AddToStore\<close>, which also adds to the storage manager.\<close>

definition IO_Load :: "(nat \<Rightarrow> byte) \<Rightarrow> nat \<Rightarrow> rawvec \<Rightarrow> (int \<times> rawvec) option" where
  "IO_Load g vec_num v = do {
     m \<leftarrow> rv_sm v;
     (e, m1) \<leftarrow> SM_Truncate vec_num m;
     (if e \<noteq> 0 then Some (INTERNAL_ERR, v\<lparr>rv_sm := Some m1\<rparr>)
      else let v1 = v\<lparr>rv_sm := Some m1, rv_size := vec_num\<rparr> in
        (if rv_mem v = None then Some (0, v1)
         else do {
           (ret, vals, lens, m2) \<leftarrow> SM_GetHeaders g 0 (int vec_num) m1;
           (if ret \<noteq> 0 then Some (ret, v1\<lparr>rv_sm := Some m2\<rparr>)
            else do {
              vs \<leftarrow> split_pieces (nat (sm_fixed m2)) vals lens;
              v2 \<leftarrow> add_all vs (v1\<lparr>rv_sm := Some m2\<rparr>);
              Some (0, v2) }) })) }"

end
