(* ===== verification/RawVecSpec.thy ===== *)
theory RawVecSpec
  imports RawVec
begin

text \<open>
  Raw vectors against their contract: a list of vectors of equal length. The locale \<open>vector_store\<close>
  states what the users of \<open>RawVector\<close> rely on; both subclasses keep it.
\<close>

subsection \<open>Segments in memory\<close>

definition segs_repr :: "nat \<Rightarrow> nat \<Rightarrow> byte list list \<Rightarrow> memsegs \<Rightarrow> bool" where
  "segs_repr Z L vs ms \<longleftrightarrow> ms_seg_size ms = int Z \<and> 0 < Z \<and> Z * L \<le> 2147483647 \<and> ms_segs ms \<noteq> [] \<and>
     length (ms_segs ms) \<le> max_segments \<and>
     (length (ms_segs ms) - 1) * Z \<le> length vs \<and> length vs \<le> length (ms_segs ms) * Z \<and> (\<forall>v \<in> set vs. length v = L) \<and>
     (\<forall>k < length (ms_segs ms). ms_segs ms ! k = take Z (drop (k * Z) vs))"

lemma mem_last_seg:
  assumes "segs_repr Z L vs ms"
  shows "last (ms_segs ms) = drop ((length (ms_segs ms) - 1) * Z) vs"
    "length (last (ms_segs ms)) = length vs - (length (ms_segs ms) - 1) * Z" "length (last (ms_segs ms)) \<le> Z"
proof -
  let ?n = "length (ms_segs ms)"
  have n: "0 < ?n" "length vs \<le> ?n * Z" "(?n - 1) * Z \<le> length vs" using assms by (auto simp: segs_repr_def)
  then have le: "length vs - (?n - 1) * Z \<le> Z" by (cases ?n) auto
  have "last (ms_segs ms) = ms_segs ms ! (?n - 1)" using n(1) by (simp add: last_conv_nth)
  also have "\<dots> = take Z (drop ((?n - 1) * Z) vs)" using assms n(1) by (simp add: segs_repr_def)
  also have "\<dots> = drop ((?n - 1) * Z) vs" using le by simp
  finally show "last (ms_segs ms) = drop ((?n - 1) * Z) vs" .
  then show "length (last (ms_segs ms)) = length vs - (?n - 1) * Z" "length (last (ms_segs ms)) \<le> Z" using le by simp_all
qed

lemma snoc_seg:
  assumes r: "segs_repr Z L vs ms" and v: "length v = L" and l: "length (last (ms_segs ms)) < Z"
  shows "segs_repr Z L (vs @ [v]) (ms\<lparr>ms_segs := butlast (ms_segs ms) @ [last (ms_segs ms) @ [v]]\<rparr>)"
proof -
  let ?s = "ms_segs ms" let ?n = "length ?s"
  have n: "0 < ?n" "(?n - 1) * Z \<le> length vs" and k: "\<And>k. k < ?n \<Longrightarrow> ?s ! k = take Z (drop (k * Z) vs)"
    using r by (auto simp: segs_repr_def)
  have lt: "length vs - (?n - 1) * Z < Z" using l mem_last_seg(2) [OF r] by simp
  then have bound: "length vs < ?n * Z" using n by (cases ?n) auto
  have "(butlast ?s @ [last ?s @ [v]]) ! k = take Z (drop (k * Z) (vs @ [v]))" if "k < ?n" for k
  proof (cases "k = ?n - 1")
    case True
    have "drop (k * Z) (vs @ [v]) = drop (k * Z) vs @ [v]" using True n(2) by simp
    moreover have "length (drop (k * Z) vs @ [v]) \<le> Z" using True lt by simp
    ultimately show ?thesis using True mem_last_seg(1) [OF r] by (simp add: nth_append)
  next
    case False
    then have k1: "k < ?n - 1" "Suc k \<le> ?n - 1" using that by simp_all
    then have "Suc k * Z \<le> (?n - 1) * Z" by (intro mult_le_mono1)
    then have "k * Z + Z \<le> length vs" using n(2) by simp
    then show ?thesis using k1(1) k [OF that] by (simp add: nth_append nth_butlast)
  qed
  moreover have "length (butlast ?s @ [last ?s @ [v]]) = ?n" using n(1) by simp
  ultimately show ?thesis using r v bound by (auto simp: segs_repr_def)
qed

lemma extend_segs:
  assumes r: "segs_repr Z L vs ms" and l: "length (last (ms_segs ms)) = Z" and room: "length vs < max_segments * Z"
  shows "ExtendSegments L ms = Some (0, ms\<lparr>ms_segs := ms_segs ms @ [[]]\<rparr>)" "segs_repr Z L vs (ms\<lparr>ms_segs := ms_segs ms @ [[]]\<rparr>)"
proof -
  let ?s = "ms_segs ms" let ?n = "length ?s"
  have n: "0 < ?n" "(?n - 1) * Z \<le> length vs" "0 < Z" "Z * L \<le> 2147483647" "ms_seg_size ms = int Z"
    and k: "\<And>k. k < ?n \<Longrightarrow> ?s ! k = take Z (drop (k * Z) vs)" using r by (auto simp: segs_repr_def)
  have len: "length vs = ?n * Z" using l mem_last_seg(2) [OF r] n(1-3) by (cases ?n) auto
  then have "?n * Z < max_segments * Z" using room by simp
  then have few: "?n < max_segments" by simp
  have "int (Z * L) \<le> 2147483647" using n(4) by linarith
  moreover have "0 \<le> int Z * int L" by simp
  ultimately have "\<not> 2147483647 < \<bar>int Z * int L\<bar>" "\<not> int Z * int L < 0" unfolding of_nat_mult by linarith+
  then show "ExtendSegments L ms = Some (0, ms\<lparr>ms_segs := ?s @ [[]]\<rparr>)"
    unfolding ExtendSegments_def n(5) using few by (simp only: if_False) simp
  have "(?s @ [[]]) ! j = take Z (drop (j * Z) vs)" if "j < Suc ?n" for j
    using that k [of j] len by (cases "j = ?n") (simp_all add: nth_append)
  then show "segs_repr Z L vs (ms\<lparr>ms_segs := ?s @ [[]]\<rparr>)" using r len few by (simp add: segs_repr_def)
qed

lemma AddToMem_ok:
  assumes r: "segs_repr Z L vs ms" and v: "length v = L" and room: "length vs < max_segments * Z"
  shows "\<exists>ms'. AddToMem L v ms = Some (0, ms') \<and> segs_repr Z L (vs @ [v]) ms'"
proof -
  have n: "ms_segs ms \<noteq> []" "ms_seg_size ms = int Z" "0 < Z" using r by (auto simp: segs_repr_def)
  have w: "mem_slice v 0 L = Some v" using v by (simp add: mem_slice_def)
  show ?thesis
  proof (cases "length (last (ms_segs ms)) = Z")
    case True
    let ?m = "ms\<lparr>ms_segs := ms_segs ms @ [[]]\<rparr>"
    have "segs_repr Z L (vs @ [v]) (?m\<lparr>ms_segs := butlast (ms_segs ?m) @ [last (ms_segs ?m) @ [v]]\<rparr>)"
      using snoc_seg [OF extend_segs(2) [OF r True room] v] n(3) by simp
    then show ?thesis using n(1,2) True w extend_segs(1) [OF r True room] by (simp add: AddToMem_def)
  next
    case False
    then have "length (last (ms_segs ms)) < Z" using mem_last_seg(3) [OF r] by simp
    then show ?thesis using snoc_seg [OF r v] False n w by (simp add: AddToMem_def)
  qed
qed

lemma place_ok:
  assumes r: "segs_repr Z L vs ms" and i: "i < length vs" "length vs < 2 ^ 63"
  shows "mem_place ms (int i) = Some (i div Z, i mod Z)" "i div Z < length (ms_segs ms)"
    "fetch (ms_segs ms) (int (i div Z)) = Some (take Z (drop (i div Z * Z) vs))" "i mod Z < length (take Z (drop (i div Z * Z) vs))"
    "take Z (drop (i div Z * Z) vs) ! (i mod Z) = vs ! i"
proof -
  have Z: "ms_seg_size ms = int Z" "0 < Z" and len: "length vs \<le> length (ms_segs ms) * Z"
    and k: "\<forall>k < length (ms_segs ms). ms_segs ms ! k = take Z (drop (k * Z) vs)" using r by (auto simp: segs_repr_def)
  have "int i mod 18446744073709551616 = int i" using i by simp
  then show "mem_place ms (int i) = Some (i div Z, i mod Z)"
    using Z by (simp add: mem_place_def flip: zdiv_int zmod_int)
  have "i < length (ms_segs ms) * Z" using i len by simp
  then show d: "i div Z < length (ms_segs ms)" by (simp add: less_mult_imp_div_less)
  then show "fetch (ms_segs ms) (int (i div Z)) = Some (take Z (drop (i div Z * Z) vs))" using k by (simp add: fetch_def)
  have e: "i div Z * Z + i mod Z = i" by simp
  then have "i mod Z < length vs - i div Z * Z" using i by linarith
  then show "i mod Z < length (take Z (drop (i div Z * Z) vs))" using Z(2) by simp
  moreover have "drop (i div Z * Z) vs ! (i mod Z) = vs ! i" 
  proof -
    have "i div Z * Z \<le> length vs" using e i(1) by linarith
    from nth_drop [OF this, of "i mod Z"] show ?thesis by (simp only: e)
  qed
  ultimately show "take Z (drop (i div Z * Z) vs) ! (i mod Z) = vs ! i" by simp
qed

lemma mem_get_ok:
  assumes "segs_repr Z L vs ms" "i < length vs" "length vs < 2 ^ 63"
  shows "mem_get ms (int i) = Some (vs ! i)"
  using place_ok [OF assms] by (simp add: mem_get_def fetch_def)

lemma take_drop_update:
  assumes "0 < Z"
  shows "take Z (drop (k * Z) (vs[i := v])) =
    (if k = i div Z then (take Z (drop (k * Z) vs))[i mod Z := v] else take Z (drop (k * Z) vs))"
proof (cases "i < length vs")
  case True
  show ?thesis
  proof (intro nth_equalityI)
    fix j assume "j < length (take Z (drop (k * Z) (vs[i := v])))"
    then have j: "j < Z" "k * Z + j < length vs" by auto
    have "k * Z + j = i \<longleftrightarrow> k = i div Z \<and> j = i mod Z" using j(1) by (auto simp: mult.commute)
    then show "take Z (drop (k * Z) (vs[i := v])) ! j =
        (if k = i div Z then (take Z (drop (k * Z) vs))[i mod Z := v] else take Z (drop (k * Z) vs)) ! j"
      using j by (auto simp: nth_list_update)
  qed auto
next
  case False
  have "i div Z * Z + i mod Z = i" by simp
  then have "length vs - i div Z * Z \<le> i mod Z" using False by linarith
  then have "length (take Z (drop (i div Z * Z) vs)) \<le> i mod Z" by (simp add: min_le_iff_disj)
  then show ?thesis using False by (auto simp: list_update_beyond)
qed

lemma mem_update_ok:
  assumes r: "segs_repr Z L vs ms" and i: "i < length vs" "length vs < 2 ^ 63" and v: "length v = L"
  shows "\<exists>ms'. mem_update L ms (int i) (c_str v) = Some ms' \<and> segs_repr Z L (vs[i := v]) ms'"
proof -
  have Z: "0 < Z" "\<forall>k < length (ms_segs ms). ms_segs ms ! k = take Z (drop (k * Z) vs)" using r by (auto simp: segs_repr_def)
  note p = place_ok [OF r i]
  let ?seg = "(take Z (drop (i div Z * Z) vs))[i mod Z := v]"
  have w: "mem_slice (c_str v) 0 L = Some v" using v by (simp add: mem_slice_def c_str_def)
  have "mem_update L ms (int i) (c_str v) = Some (ms\<lparr>ms_segs := (ms_segs ms)[i div Z := ?seg]\<rparr>)"
    using p(1,3,4) w by (simp add: mem_update_def store_def)
  moreover have "segs_repr Z L (vs[i := v]) (ms\<lparr>ms_segs := (ms_segs ms)[i div Z := ?seg]\<rparr>)"
    using r p(2) v by (auto simp: segs_repr_def take_drop_update nth_list_update dest!: set_update_subset_insert [THEN subsetD])
  ultimately show ?thesis by blast
qed

lemma piece_ok:
  assumes r: "segs_repr Z L vs ms" and n: "i \<le> start mod Z" "start div Z * Z + i + len \<le> length vs" "i + len \<le> Z" "i = start mod Z"
  shows "mem_slice (take Z (drop (start div Z * Z) vs)) i len = Some (take len (drop start vs))"
proof -
  have e: "start div Z * Z + i = start" using n(4) by simp
  have "take len (drop i (take Z (drop (start div Z * Z) vs))) = take len (take (Z - i) (drop start vs))"
    using e by (simp add: drop_take add.commute)
  also have "\<dots> = take len (drop start vs)" using n(3) by (simp add: take_take min_absorb1)
  finally show ?thesis using n(2,3) by (simp add: mem_slice_def)
qed

lemma length_concat_const: "\<forall>x \<in> set xs. length x = L \<Longrightarrow> length (concat xs) = length xs * L"
  by (induction xs) auto

lemma mem_headers_ok:
  assumes r: "segs_repr Z L vs ms"
  shows "start + n \<le> length vs \<Longrightarrow>
    \<exists>vals lens. mem_headers ms (int start) (int n) = Some (vals, lens) \<and> concat vals = concat (take n (drop start vs)) \<and>
      sum_list lens = int n \<and> list_all2 (\<lambda>p l. int (length p) = l * int L) vals lens"
proof (induction n arbitrary: start rule: less_induct)
  case (less n)
  have Z: "ms_seg_size ms = int Z" "0 < Z" and lv: "\<forall>v \<in> set vs. length v = L"
    and k: "\<forall>k < length (ms_segs ms). ms_segs ms ! k = take Z (drop (k * Z) vs)" and len: "length vs \<le> length (ms_segs ms) * Z"
    using r by (auto simp: segs_repr_def)
  show ?case
  proof (cases "n = 0")
    case True
    then show ?thesis by (simp add: mem_headers.simps)
  next
    case False
    define i l where "i = start mod Z" and "l = min n (Z - i)"
    have i: "i < Z" using Z(2) by (simp add: i_def)
    then have l: "0 < l" "l \<le> n" "i + l \<le> Z" using False by (auto simp: l_def)
    have "start < length (ms_segs ms) * Z" using less.prems False len by linarith
    then have seg: "fetch (ms_segs ms) (int (start div Z)) = Some (take Z (drop (start div Z * Z) vs))"
      using k by (simp add: fetch_def less_mult_imp_div_less)
    have e: "start div Z * Z + i = start" by (simp add: i_def)
    have sl: "mem_slice (take Z (drop (start div Z * Z) vs)) i l = Some (take l (drop start vs))"
      using e l less.prems by (intro piece_ok [OF r]) (simp_all add: i_def)
    obtain vals lens where rest: "mem_headers ms (int (start + l)) (int (n - l)) = Some (vals, lens)"
      "concat vals = concat (take (n - l) (drop (start + l) vs))" "sum_list lens = int (n - l)"
      "list_all2 (\<lambda>p l. int (length p) = l * int L) vals lens"
      using less.IH [of "n - l" "start + l"] l less.prems by auto
    have d: "int start div int Z = int (start div Z)" "int start mod int Z = int i" "min (int n) (int Z - int i) = int l"
      using i by (simp_all add: i_def l_def of_nat_diff flip: zdiv_int zmod_int of_nat_min) (simp add: min_def of_nat_diff)?
    have a: "int start + int l = int (start + l)" "int n - int l = int (n - l)" using l by simp_all
    have "mem_headers ms (int start) (int n) = Some (concat (take l (drop start vs)) # vals, int l # lens)"
      using False Z seg sl rest(1)
      by (subst mem_headers.simps) (simp only: d a Z(1) Let_def nat_int, simp add: Z(2))
    moreover have "take l (drop start vs) @ take (n - l) (drop (start + l) vs) = take n (drop start vs)"
      using l(2) by (metis add.commute drop_drop le_add_diff_inverse take_add)
    then have "concat (take l (drop start vs)) @ concat vals = concat (take n (drop start vs))"
      using rest(2) by (metis concat_append)
    moreover have "length (concat (take l (drop start vs))) = l * L"
    proof -
      have "\<forall>v \<in> set (take l (drop start vs)). length v = L" using lv by (auto dest: in_set_takeD in_set_dropD)
      moreover have "length (take l (drop start vs)) = l" using less.prems l by simp
      ultimately show ?thesis using length_concat_const by metis
    qed
    ultimately show ?thesis using rest(3,4) l(2)
      by (intro exI [of _ "concat (take l (drop start vs)) # vals"] exI [of _ "int l # lens"]) simp
  qed
qed

subsection \<open>What a raw vector promises\<close>

text \<open>The writer thread of the storage manager works through its whole queue.\<close>

definition RV_Flush :: "rawvec \<Rightarrow> rawvec option" where
  "RV_Flush v = do { m \<leftarrow> rv_sm v; m' \<leftarrow> SM_Writer (length (sm_queue m)) m; Some (v\<lparr>rv_sm := Some m'\<rparr>) }"

text \<open>What both subclasses have in common. \<open>vs\<close> are the vectors, \<open>L\<close> is their length.\<close>

definition rv_common :: "nat \<Rightarrow> byte list list \<Rightarrow> rawvec \<Rightarrow> bool" where
  "rv_common L vs v \<longleftrightarrow> data_size v * rv_dim v = L \<and> rv_bytes v = L \<and> 0 < L \<and> rv_size v = length vs \<and> \<not> vm_multi (rv_vids v) \<and>
     length vs < 2147483648 \<and> (\<forall>x \<in> set vs. length x = L)"

text \<open>\<open>repr L vs P v\<close>: the raw vector is the list \<open>vs\<close>, of which the first \<open>P\<close> can be read; \<open>room n\<close>: there is
  room for one more than \<open>n\<close>.\<close>

locale vector_store =
  fixes repr :: "nat \<Rightarrow> byte list list \<Rightarrow> nat \<Rightarrow> rawvec \<Rightarrow> bool"
    and room :: "nat \<Rightarrow> bool"
  assumes common: "repr L vs P v \<Longrightarrow> rv_common L vs v \<and> P \<le> length vs"
    and add_ok: "\<lbrakk>repr L vs P v; length bs = L; room (length vs)\<rbrakk> \<Longrightarrow>
      \<exists>v' P'. RV_AddVec docid bs v = Some (0, v') \<and> repr L (vs @ [bs]) P' v' \<and> P \<le> P'"
    and update_ok: "\<lbrakk>repr L vs P v; i < P; length bs = L\<rbrakk> \<Longrightarrow>
      \<exists>v'. RV_UpdateToStore (int i) bs v = Some (0, v') \<and> repr L (vs[i := bs]) P v'"
    and get_ok: "\<lbrakk>repr L vs P v; i < P\<rbrakk> \<Longrightarrow> \<exists>v'. RV_GetVector g (int i) v = Some (0, Some (vs ! i), v') \<and> repr L vs P v'"
    and headers_ok: "\<lbrakk>repr L vs P v; start + n \<le> P\<rbrakk> \<Longrightarrow>
      \<exists>vals lens v'. RV_GetVectorHeader g (int start) (int n) v = Some (0, vals, lens, v') \<and> repr L vs P v' \<and>
        concat vals = concat (take n (drop start vs)) \<and> sum_list lens = int n \<and>
        list_all2 (\<lambda>p l. int (length p) = l * int L) vals lens"
    and flush_ok: "repr L vs P v \<Longrightarrow> \<exists>v'. RV_Flush v = Some v' \<and> repr L vs (length vs) v'"
begin

lemma Add_ok:
  assumes "repr L vs P v" "length (fd_value f) = L" "room (length vs)"
  shows "\<exists>v' P'. RV_Add docid f v = Some (0, v') \<and> repr L (vs @ [fd_value f]) P' v' \<and> P \<le> P'"
  using add_ok [OF assms] common [OF assms(1)] assms(2) by (simp add: RV_Add_def rv_common_def)

lemma Add_refused: "\<lbrakk>repr L vs P v; length (fd_value f) \<noteq> L\<rbrakk> \<Longrightarrow> RV_Add docid f v = Some (-1, v)"
  using common [of L vs P v] by (simp add: RV_Add_def rv_common_def)

lemma Update_ok:
  assumes r: "repr L vs P v" and i: "i < P" and f: "length (fd_value f) = L"
  shows "\<exists>v'. RV_Update (int i) f v = Some (0, v') \<and> repr L (vs[i := fd_value f]) P v'"
proof -
  have c: "rv_common L vs v" "P \<le> length vs" using common [OF r] by simp_all
  have "data_size v * rv_dim v = L" "0 < L" using c(1) by (simp_all add: rv_common_def)
  then have "0 < data_size v" "data_size v \<le> L" by (auto simp: data_size_def)
  then have "length (fd_value f) div data_size v \<noteq> 0" using f by (simp add: div_eq_0_iff)
  then show ?thesis using update_ok [OF r i f] c i by (auto simp: RV_Update_def rv_common_def)
qed

lemma Update_beyond: "\<lbrakk>repr L vs P v; length vs \<le> i\<rbrakk> \<Longrightarrow> RV_Update (int i) f v = Some (-1, v)"
  using common [of L vs P v] by (simp add: RV_Update_def rv_common_def)

lemma Gets_ok:
  "\<lbrakk>repr L vs P v; \<forall>i \<in> set is. i < P\<rbrakk> \<Longrightarrow>
    \<exists>v'. RV_Gets g (map int is) v = Some (map (\<lambda>i. Some (vs ! i)) is, v') \<and> repr L vs P v'"
proof (induction "is" arbitrary: v)
  case (Cons i "is")
  obtain v1 where v1: "RV_GetVector g (int i) v = Some (0, Some (vs ! i), v1)" "repr L vs P v1"
    using get_ok [OF Cons.prems(1), of i g] Cons.prems(2) by auto
  then show ?case using Cons.IH [OF v1(2)] Cons.prems(2) by auto
qed simp

lemma GetSource_ok: "\<lbrakk>repr L vs P v; i < length vs\<rbrakk> \<Longrightarrow> RV_GetSource (int i) v = (0, Some 0)"
  using common [of L vs P v] by (simp add: RV_GetSource_def rv_common_def)

end

text \<open>The storage manager of a raw vector is not one of a table, and its segments are all its files.\<close>

definition sm_tidy :: "nat \<Rightarrow> sm \<Rightarrow> bool" where
  "sm_tidy cap m \<longleftrightarrow> \<not> sm_table m \<and> sm_nfiles m = length (sm_segs m) \<and> unat (sm_capacity m) = cap"

lemma tidy_Extend: "sm_tidy cap m \<Longrightarrow> sm_tidy cap (SM_Extend m)"
  by (auto simp: SM_Extend_def sm_tidy_def Let_def split: prod.splits)

lemma tidy_kept:
  "SM_Add bs m = (r, m') \<Longrightarrow> sm_segs m \<noteq> [] \<Longrightarrow> sm_tidy cap m \<Longrightarrow> sm_tidy cap m'"
  "SM_Update i bs m = Some (r, m') \<Longrightarrow> sm_tidy cap m \<Longrightarrow> sm_tidy cap m'"
  "SM_Get g i m = Some (r, bs, m') \<Longrightarrow> sm_tidy cap m \<Longrightarrow> sm_tidy cap m'"
  "SM_Writer n m = Some m' \<Longrightarrow> sm_tidy cap m \<Longrightarrow> sm_tidy cap m'"
proof -
  show "SM_Add bs m = (r, m') \<Longrightarrow> sm_segs m \<noteq> [] \<Longrightarrow> sm_tidy cap m \<Longrightarrow> sm_tidy cap m'"
    using tidy_Extend by (auto simp: SM_Add_def Let_def split: prod.splits if_splits) (auto simp: sm_tidy_def)
qed (auto simp: SM_Update_def SM_Get_def SM_Writer_def sm_tidy_def Let_def bind_eq_Some_conv split: option.splits prod.splits if_splits)

text \<open>The store on disk.\<close>

definition mmap_repr :: "nat \<Rightarrow> nat \<Rightarrow> nat \<Rightarrow> byte list list \<Rightarrow> nat \<Rightarrow> rawvec \<Rightarrow> bool" where
  "mmap_repr S cap L vs P v \<longleftrightarrow> rv_common L vs v \<and> rv_mem v = None \<and>
     (\<exists>m. rv_sm v = Some m \<and> sm_tidy cap m \<and> sm_repr S L m vs P)"

definition disk_room :: "nat \<Rightarrow> nat \<Rightarrow> nat \<Rightarrow> bool" where
  "disk_room S cap n \<longleftrightarrow> n + 1 < 2147483648 \<and> n div S + 2 \<le> 400 \<and> (n div S + 2) * cap < 4294967296"

lemma SM_Add_room:
  assumes r: "sm_repr S L m vs P" and v: "length bs = L" and room: "disk_room S cap (length vs)"
    and t: "sm_tidy cap m"
  shows "\<exists>m'. SM_Add bs m = (0, m') \<and> sm_repr S L m' (vs @ [bs]) P \<and> sm_tidy cap m'"
proof -
  have "length (sm_segs m) = length vs div S + 1" using r by (simp add: sm_repr_def)
  then have "few_segs (length (sm_segs m) + 1) m" using room t by (simp add: few_segs_def disk_room_def sm_tidy_def)
  from SM_Add_spec [OF r v this] obtain m' where m': "SM_Add bs m = (0, m')" "sm_repr S L m' (vs @ [bs]) P" by blast
  moreover have "sm_segs m \<noteq> []" using r by (auto simp: sm_repr_def)
  ultimately show ?thesis using tidy_kept(1) t by blast
qed

lemma get_headers_tidy: "get_headers g start n m = Some (r, vals, lens, m') \<Longrightarrow> sm_tidy cap m \<Longrightarrow> sm_tidy cap m'"
proof (induction "nat n" arbitrary: start n m r vals lens rule: less_induct)
  case less
  consider "n = 0" | "n \<noteq> 0" "n < 0 \<or> start < 0 \<or> sm_segment_size m \<le> 0" | "0 < n" "0 \<le> start" "0 < sm_segment_size m"
    by linarith
  then show ?case
  proof cases
    case 3
    define i where "i = start mod sm_segment_size m"
    define len where "len = (if sm_segment_size m - i > n then n else sm_segment_size m - i)"
    have "i < sm_segment_size m" using 3(3) by (simp add: i_def)
    then have len: "0 < len" using 3 by (simp add: len_def)
    have u: "get_headers g start n m = (case fetch (sm_segs m) (seg_of m start) of
        None \<Rightarrow> Some (-1, [], [], m)
      | Some s \<Rightarrow> (case SG_GetValues g i len (sm_cache m) (sm_disk m (nat (seg_of m start))) s of
          None \<Rightarrow> None
        | Some (bs, c, s') \<Rightarrow>
            (case get_headers g (start + len) (n - len) (m\<lparr>sm_cache := c, sm_segs := (sm_segs m)[nat (seg_of m start) := s']\<rparr>) of
               None \<Rightarrow> None
             | Some (r, vals, lens, m') \<Rightarrow> Some (r, bs # vals, len # lens, m'))))"
    proof -
      have "n \<noteq> 0" "\<not> (n < 0 \<or> start < 0 \<or> sm_segment_size m \<le> 0)" using 3 by simp_all
      then show ?thesis by (subst get_headers.simps) (simp only: if_False Let_def i_def [symmetric] len_def [symmetric])
    qed
    show ?thesis
    proof (cases "fetch (sm_segs m) (seg_of m start)")
      case (Some s)
      obtain bs c s' vals' lens' where "get_headers g (start + len) (n - len)
          (m\<lparr>sm_cache := c, sm_segs := (sm_segs m)[nat (seg_of m start) := s']\<rparr>) = Some (r, vals', lens', m')"
        using less.prems u Some by (auto split: option.splits)
      moreover have "sm_tidy cap (m\<lparr>sm_cache := c, sm_segs := (sm_segs m)[nat (seg_of m start) := s']\<rparr>)"
        using less.prems(2) by (simp add: sm_tidy_def)
      ultimately show ?thesis using less.hyps [of "n - len"] len 3(1) by simp
    qed (use less.prems u in simp)
  qed (use less.prems in \<open>simp_all add: get_headers.simps\<close>)
qed

interpretation disk: vector_store "mmap_repr S cap" "disk_room S cap" for S cap
proof
  fix L vs P v
  show "mmap_repr S cap L vs P v \<Longrightarrow> rv_common L vs v \<and> P \<le> length vs" by (auto simp: mmap_repr_def sm_repr_def)
next
  fix L vs P v and bs :: "byte list" and docid
  assume r: "mmap_repr S cap L vs P v" and l: "length bs = L" and room: "disk_room S cap (length vs)"
  obtain m where m: "rv_mem v = None" "rv_sm v = Some m" "sm_tidy cap m" "sm_repr S L m vs P" "rv_common L vs v"
    using r by (auto simp: mmap_repr_def)
  obtain m' where m': "SM_Add bs m = (0, m')" "sm_repr S L m' (vs @ [bs]) P" "sm_tidy cap m'"
    using SM_Add_room [OF m(4) l room m(3)] by auto
  have "RV_AddVec docid bs v = Some (0, v\<lparr>rv_sm := Some m', rv_size := rv_size v + 1\<rparr>)"
    using m(1,2,5) m'(1) by (simp add: RV_AddVec_def RV_AddToStore_def VM_Add_def rv_common_def)
  moreover have "mmap_repr S cap L (vs @ [bs]) P (v\<lparr>rv_sm := Some m', rv_size := rv_size v + 1\<rparr>)"
    using m m' l room by (auto simp: mmap_repr_def rv_common_def data_size_def disk_room_def)
  ultimately show "\<exists>v' P'. RV_AddVec docid bs v = Some (0, v') \<and> mmap_repr S cap L (vs @ [bs]) P' v' \<and> P \<le> P'" by blast
next
  fix L vs P v i and bs :: "byte list"
  assume r: "mmap_repr S cap L vs P v" and i: "i < P" and l: "length bs = L"
  obtain m where m: "rv_mem v = None" "rv_sm v = Some m" "sm_tidy cap m" "sm_repr S L m vs P" "rv_common L vs v"
    using r by (auto simp: mmap_repr_def)
  have il: "i < length vs" using m(4) i by (simp add: sm_repr_def)
  obtain m' where m': "SM_Update (int i) bs m = Some (0, m')" "sm_repr S L m' (vs[i := bs]) P"
    using SM_Update_spec [OF m(4) il l] i by auto
  have c: "sm_tidy cap m'" using tidy_kept(2) [OF m'(1) m(3)] .
  have "rv_common L (vs[i := bs]) (v\<lparr>rv_sm := Some m'\<rparr>)"
    using m(5) l by (auto simp: rv_common_def data_size_def dest!: set_update_subset_insert [THEN subsetD])
  then show "\<exists>v'. RV_UpdateToStore (int i) bs v = Some (0, v') \<and> mmap_repr S cap L (vs[i := bs]) P v'"
    using m m' c by (intro exI [of _ "v\<lparr>rv_sm := Some m'\<rparr>"]) (auto simp: RV_UpdateToStore_def mmap_repr_def)
next
  fix L vs P v i g
  assume r: "mmap_repr S cap L vs P v" and i: "i < P"
  obtain m where m: "rv_mem v = None" "rv_sm v = Some m" "sm_tidy cap m" "sm_repr S L m vs P" "rv_common L vs v"
    using r by (auto simp: mmap_repr_def)
  obtain m' where m': "SM_Get g (int i) m = Some (0, vs ! i, m')" "sm_repr S L m' vs P" using SM_Get_spec [OF m(4) i] by blast
  have c: "sm_tidy cap m'" using tidy_kept(3) [OF m'(1) m(3)] .
  have "rv_common L vs (v\<lparr>rv_sm := Some m'\<rparr>)" using m(5) by (simp add: rv_common_def data_size_def)
  then show "\<exists>v'. RV_GetVector g (int i) v = Some (0, Some (vs ! i), v') \<and> mmap_repr S cap L vs P v'"
    using m m' c by (intro exI [of _ "v\<lparr>rv_sm := Some m'\<rparr>"]) (auto simp: RV_GetVector_def mmap_repr_def)
next
  fix L vs P v start n g
  assume r: "mmap_repr S cap L vs P v" and n: "start + n \<le> P"
  obtain m where m: "rv_mem v = None" "rv_sm v = Some m" "sm_tidy cap m" "sm_repr S L m vs P" "rv_common L vs v"
    using r by (auto simp: mmap_repr_def)
  have sz: "sm_size m = length vs" "P \<le> length vs" using m(4) by (simp_all add: sm_repr_def)
  obtain vals lens m' where m': "get_headers g (int start) (int n) m = Some (0, vals, lens, m')"
    "concat vals = concat (map ((!) vs) [start..<start + n])" "sum_list lens = int n"
    "list_all2 (\<lambda>p l. int (length p) = l * int L) vals lens" "sm_repr S L m' vs P"
    using get_headers_spec [OF m(4) n] by blast
  have e: "map ((!) vs) [start..<start + n] = take n (drop start vs)"
    using n sz(2) by (intro nth_equalityI) auto
  have "(int start + int n) mod 2 ^ 64 = int (start + n)" using n sz m(5) by (simp add: rv_common_def)
  then have h: "SM_GetHeaders g (int start) (int n) m = Some (0, vals, lens, m')"
    using m'(1) n sz by (simp add: SM_GetHeaders_def)
  have c: "sm_tidy cap m'" using get_headers_tidy [OF m'(1) m(3)] .
  have "rv_common L vs (v\<lparr>rv_sm := Some m'\<rparr>)" using m(5) by (simp add: rv_common_def data_size_def)
  then show "\<exists>vals lens v'. RV_GetVectorHeader g (int start) (int n) v = Some (0, vals, lens, v') \<and> mmap_repr S cap L vs P v' \<and>
      concat vals = concat (take n (drop start vs)) \<and> sum_list lens = int n \<and> list_all2 (\<lambda>p l. int (length p) = l * int L) vals lens"
    using m m' c h e by (intro exI [of _ vals] exI [of _ lens] exI [of _ "v\<lparr>rv_sm := Some m'\<rparr>"]) (auto simp: RV_GetVectorHeader_def mmap_repr_def)
next
  fix L vs P v
  assume r: "mmap_repr S cap L vs P v"
  obtain m where m: "rv_mem v = None" "rv_sm v = Some m" "sm_tidy cap m" "sm_repr S L m vs P" "rv_common L vs v"
    using r by (auto simp: mmap_repr_def)
  have q: "P + length (sm_queue m) = length vs" using m(4) by (simp add: sm_repr_def)
  obtain m' where m': "SM_Writer (length (sm_queue m)) m = Some m'" "sm_repr S L m' vs (length vs)"
    using SM_Writer_spec [OF m(4), of "length (sm_queue m)"] q by auto
  have "rv_common L vs (v\<lparr>rv_sm := Some m'\<rparr>)" using m(5) by (simp add: rv_common_def data_size_def)
  then have "RV_Flush v = Some (v\<lparr>rv_sm := Some m'\<rparr>) \<and> mmap_repr S cap L vs (length vs) (v\<lparr>rv_sm := Some m'\<rparr>)"
    using m m' tidy_kept(4) [OF m'(1) m(3)] by (simp add: RV_Flush_def mmap_repr_def)
  then show "\<exists>v'. RV_Flush v = Some v' \<and> mmap_repr S cap L vs (length vs) v'" by blast
qed

text \<open>The store in memory: every vector can be read at once; the storage manager holds as many
  vectors, but perhaps older ones.\<close>

definition mem_repr :: "nat \<Rightarrow> nat \<Rightarrow> nat \<Rightarrow> nat \<Rightarrow> byte list list \<Rightarrow> nat \<Rightarrow> rawvec \<Rightarrow> bool" where
  "mem_repr Z S cap L vs P v \<longleftrightarrow> rv_common L vs v \<and> P = length vs \<and>
     (\<exists>ms m items P0. rv_mem v = Some ms \<and> segs_repr Z L vs ms \<and> rv_sm v = Some m \<and> sm_tidy cap m \<and>
        sm_repr S L m items P0 \<and> length items = length vs)"

definition mem_room :: "nat \<Rightarrow> nat \<Rightarrow> nat \<Rightarrow> nat \<Rightarrow> bool" where
  "mem_room Z S cap n \<longleftrightarrow> disk_room S cap n \<and> n < max_segments * Z"

lemma mem_reprE:
  assumes "mem_repr Z S cap L vs P v"
  obtains ms m items P0 where "rv_mem v = Some ms" "segs_repr Z L vs ms" "rv_sm v = Some m" "sm_tidy cap m"
    "sm_repr S L m items P0" "length items = length vs" "rv_common L vs v" "P = length vs"
  using assms by (auto simp: mem_repr_def)

lemma mem_reprI:
  assumes "rv_mem v = Some ms" "segs_repr Z L vs ms" "rv_sm v = Some m" "sm_tidy cap m"
    "sm_repr S L m items P0" "length items = length vs" "rv_common L vs v"
  shows "mem_repr Z S cap L vs (length vs) v"
  using assms by (auto simp: mem_repr_def)

lemma rv_common_put:
  "rv_common L vs v \<Longrightarrow> length bs = L \<Longrightarrow> rv_common L (vs[i := bs]) (v\<lparr>rv_mem := ms, rv_sm := m\<rparr>)"
  "rv_common L vs v \<Longrightarrow> length bs = L \<Longrightarrow> length vs + 1 < 2147483648 \<Longrightarrow>
    rv_common L (vs @ [bs]) (v\<lparr>rv_size := rv_size v + 1, rv_mem := ms, rv_sm := m\<rparr>)"
  by (auto simp: rv_common_def data_size_def dest!: set_update_subset_insert [THEN subsetD])

interpretation mem: vector_store "mem_repr Z S cap" "mem_room Z S cap" for Z S cap
proof
  fix L vs P v
  show "mem_repr Z S cap L vs P v \<Longrightarrow> rv_common L vs v \<and> P \<le> length vs" by (simp add: mem_repr_def)
next
  fix L vs P v and bs :: "byte list" and docid
  assume r: "mem_repr Z S cap L vs P v" and l: "length bs = L" and room: "mem_room Z S cap (length vs)"
  obtain ms m items P0 where m: "rv_mem v = Some ms" "segs_repr Z L vs ms" "rv_sm v = Some m" "sm_tidy cap m"
    "sm_repr S L m items P0" "length items = length vs" "rv_common L vs v" "P = length vs"
    using r by (rule mem_reprE)
  obtain m' where m': "SM_Add bs m = (0, m')" "sm_repr S L m' (items @ [bs]) P0" "sm_tidy cap m'"
    using SM_Add_room [OF m(5) l _ m(4)] room m(6) by (auto simp: mem_room_def)
  obtain ms' where ms': "AddToMem L bs ms = Some (0, ms')" "segs_repr Z L (vs @ [bs]) ms'"
    using AddToMem_ok [OF m(2) l] room by (auto simp: mem_room_def)
  let ?v = "v\<lparr>rv_size := rv_size v + 1, rv_mem := Some ms', rv_sm := Some m'\<rparr>"
  have "RV_AddVec docid bs v = Some (0, ?v)"
    using m(1,3,7) m'(1) ms'(1) by (simp add: RV_AddVec_def RV_AddToStore_def VM_Add_def rv_common_def)
  moreover have "rv_common L (vs @ [bs]) ?v"
    using rv_common_put(2) [OF m(7) l] room by (simp add: mem_room_def disk_room_def)
  then have "mem_repr Z S cap L (vs @ [bs]) (length (vs @ [bs])) ?v"
    using m m' ms' by (intro mem_reprI [of _ ms' _ _ _ m' _ _ "items @ [bs]"]) simp_all
  moreover have "P \<le> length (vs @ [bs])" using m(8) by simp
  ultimately show "\<exists>v' P'. RV_AddVec docid bs v = Some (0, v') \<and> mem_repr Z S cap L (vs @ [bs]) P' v' \<and> P \<le> P'" by blast
next
  fix L vs P v i and bs :: "byte list"
  assume r: "mem_repr Z S cap L vs P v" and i: "i < P" and l: "length bs = L"
  obtain ms m items P0 where m: "rv_mem v = Some ms" "segs_repr Z L vs ms" "rv_sm v = Some m" "sm_tidy cap m"
    "sm_repr S L m items P0" "length items = length vs" "rv_common L vs v" "P = length vs"
    using r by (rule mem_reprE)
  obtain ms' where ms': "mem_update L ms (int i) (c_str bs) = Some ms'" "segs_repr Z L (vs[i := bs]) ms'"
    using mem_update_ok [OF m(2), of i bs] m(7,8) i l by (auto simp: rv_common_def)
  have il: "i < length items" using i m(6,8) by simp
  obtain m' items' where m': "SM_Update (int i) bs m = Some (0, m')" "sm_repr S L m' items' P0" "length items' = length items"
    using SM_Update_spec [OF m(5) il l] by fastforce
  have "rv_bytes v = L" using m(7) by (simp add: rv_common_def)
  then have "RV_UpdateToStore (int i) bs v = Some (0, v\<lparr>rv_mem := Some ms', rv_sm := Some m'\<rparr>)"
    using m(1,3) m'(1) ms'(1) by (simp add: RV_UpdateToStore_def)
  moreover have "mem_repr Z S cap L (vs[i := bs]) (length (vs[i := bs])) (v\<lparr>rv_mem := Some ms', rv_sm := Some m'\<rparr>)"
    using m m' ms' tidy_kept(2) [OF m'(1) m(4)] rv_common_put(1) [OF m(7) l]
    by (intro mem_reprI [of _ ms' _ _ _ m' _ _ items' P0]) simp_all
  ultimately show "\<exists>v'. RV_UpdateToStore (int i) bs v = Some (0, v') \<and> mem_repr Z S cap L (vs[i := bs]) P v'" using m(8) by auto
next
  fix L vs P v i g
  assume r: "mem_repr Z S cap L vs P v" and i: "i < P"
  obtain ms m items P0 where m: "rv_mem v = Some ms" "segs_repr Z L vs ms" "rv_common L vs v" "P = length vs"
    using r by (rule mem_reprE)
  have "mem_get ms (int i) = Some (vs ! i)" using mem_get_ok [OF m(2), of i] m(3,4) i by (simp add: rv_common_def)
  then show "\<exists>v'. RV_GetVector g (int i) v = Some (0, Some (vs ! i), v') \<and> mem_repr Z S cap L vs P v'"
    using r m(1) by (simp add: RV_GetVector_def)
next
  fix L vs P v start n g
  assume r: "mem_repr Z S cap L vs P v" and n: "start + n \<le> P"
  obtain ms m items P0 where m: "rv_mem v = Some ms" "segs_repr Z L vs ms" "rv_common L vs v" "P = length vs"
    using r by (rule mem_reprE)
  show "\<exists>vals lens v'. RV_GetVectorHeader g (int start) (int n) v = Some (0, vals, lens, v') \<and> mem_repr Z S cap L vs P v' \<and>
      concat vals = concat (take n (drop start vs)) \<and> sum_list lens = int n \<and> list_all2 (\<lambda>p l. int (length p) = l * int L) vals lens"
    using mem_headers_ok [OF m(2), of start n] r m(1,3,4) n by (auto simp: RV_GetVectorHeader_def rv_common_def)
next
  fix L vs P v
  assume r: "mem_repr Z S cap L vs P v"
  obtain ms m items P0 where m: "rv_mem v = Some ms" "segs_repr Z L vs ms" "rv_sm v = Some m" "sm_tidy cap m"
    "sm_repr S L m items P0" "length items = length vs" "rv_common L vs v" "P = length vs"
    using r by (rule mem_reprE)
  obtain m' where m': "SM_Writer (length (sm_queue m)) m = Some m'" "sm_repr S L m' items (P0 + length (sm_queue m))"
    using SM_Writer_spec [OF m(5), of "length (sm_queue m)"] by auto
  have "rv_common L vs (v\<lparr>rv_sm := Some m'\<rparr>)" using m(7) by (simp add: rv_common_def data_size_def)
  then have "mem_repr Z S cap L vs (length vs) (v\<lparr>rv_sm := Some m'\<rparr>)"
    using m m' tidy_kept(4) [OF m'(1) m(4)] by (intro mem_reprI [of _ ms _ _ _ m' _ _ items]) simp_all
  then show "\<exists>v'. RV_Flush v = Some v' \<and> mem_repr Z S cap L vs (length vs) v'"
    using m(3) m'(1) by (auto simp: RV_Flush_def)
qed

end
