(* ===== verification/VecResult.thy ===== *)
theory VecResult
  imports VidMgr DiskFile "HOL-Library.Multiset" "HOL-Library.AList"
begin

text \<open>
  \<open>VectorResult\<close> (\<open>common/common_query_data.h\<close>): what an index found for one vector field, for a batch of
  \<open>n\<close> queries with \<open>topn\<close> rows each. The four arrays for ids, distances, sources and their lengths are
  always read and written together, so they are one list of rows here. Distances have any type with
  the operations of \<open>float\<close> that are used; theorems about scores are for exact arithmetic.
\<close>

record ('f, 's) vrow =
  vr_docid :: int
  vr_dist :: 'f
  vr_src :: "'s option"

record ('f, 's) vresult =
  vs_n :: nat
  vs_topn :: nat
  vs_rows :: "('f, 's) vrow list"
  vs_total :: "int list"
  vs_idx :: "int list"
  vs_limit :: "'f list"

definition VS_init :: "nat \<Rightarrow> nat \<Rightarrow> ('f :: zero, 's) vresult" where
  "VS_init n topn = \<lparr>vs_n = n, vs_topn = topn, vs_rows = replicate (n * topn) \<lparr>vr_docid = -1, vr_dist = 0, vr_src = None\<rparr>,
     vs_total = replicate n 0, vs_idx = replicate n (-1), vs_limit = replicate n 0\<rparr>"

subsection \<open>Seeking a document\<close>

primrec seek_from :: "('f, 's) vrow list \<Rightarrow> int \<Rightarrow> nat \<Rightarrow> nat \<Rightarrow> nat option option" where
  "seek_from rows docid i 0 = Some None"
| "seek_from rows docid i (Suc n) = do {
     r \<leftarrow> fetch rows (int i);
     (if vr_docid r \<ge> docid then Some (Some i) else seek_from rows docid (i + 1) n) }"

text \<open>The id found, or -1, and the row that goes with it; \<open>idx\<close> remembers where to go on.\<close>

definition VS_seek :: "nat \<Rightarrow> int \<Rightarrow> ('f, 's) vresult \<Rightarrow> (int \<times> ('f, 's) vrow option \<times> ('f, 's) vresult) option" where
  "VS_seek req_no docid r = do {
     start \<leftarrow> fetch (vs_idx r) (int req_no);
     (if start = -1 then Some (-1, None, r)
      else let base = req_no * vs_topn r in do {
        found \<leftarrow> seek_from (vs_rows r) docid (base + nat start) (vs_topn r - nat start);
        Some (case found of
            None \<Rightarrow> (-1, None, r\<lparr>vs_idx := (vs_idx r)[req_no := -1]\<rparr>)
          | Some i \<Rightarrow> let row = vs_rows r ! i in
              (vr_docid row, Some row,
               r\<lparr>vs_idx := (vs_idx r)[req_no := if vr_docid row = -1 then -1 else int (i - base)]\<rparr>)) }) }"

subsection \<open>Merging the results of several fields\<close>

record 'f merge =
  mg_scores :: "(int \<times> 'f) list"
  mg_accu :: 'f
  mg_count :: "(int \<times> int) list"
  mg_idx :: "(int \<times> (nat \<times> nat) list) list"

definition merge_start :: "('f :: zero) merge" where
  "merge_start = \<lparr>mg_scores = [], mg_accu = 0, mg_count = [], mg_idx = []\<rparr>"

definition found_idx :: "'f merge \<Rightarrow> int \<Rightarrow> (nat \<times> nat) list" where
  "found_idx m d = (case map_of (mg_idx m) d of None \<Rightarrow> [] | Some l \<Rightarrow> l)"

definition merge_row :: "bool \<Rightarrow> nat \<Rightarrow> 'f \<Rightarrow> 'f \<Rightarrow> nat \<times> ('f, 's) vrow \<Rightarrow> ('f :: {plus, minus, times}) merge \<Rightarrow> 'f merge" where
  "merge_row is_and vec_no boost max_score = (\<lambda>(pos, row) m.
     (let d = vr_docid row in
      if d = -1 then m
      else let
          (s0, l) = (case map_of (mg_scores m) d of
              None \<Rightarrow> (mg_accu m, [(vec_no, pos)])
            | Some s \<Rightarrow> (s, AList.update vec_no pos (found_idx m d)));
          s = s0 - max_score + vr_dist row * boost
        in m\<lparr>mg_scores := AList.update d s (mg_scores m), mg_idx := AList.update d l (mg_idx m),
             mg_count := (if is_and then AList.update d (case map_of (mg_count m) d of None \<Rightarrow> 1 | Some c \<Rightarrow> c + 1) (mg_count m)
                          else mg_count m)\<rparr>))"

text \<open>For a disjunction with distances, documents that this field does not have get its worst distance.\<close>

definition worst :: "bool \<Rightarrow> bool \<Rightarrow> 'f \<Rightarrow> 'f \<Rightarrow> ('f :: {zero, times})" where
  "worst is_and is_l2 boost limit_value = (if \<not> is_and \<and> is_l2 then boost * limit_value else 0)"

definition VS_logic_op :: "nat \<Rightarrow> nat \<Rightarrow> bool \<Rightarrow> 'f \<Rightarrow> bool \<Rightarrow> ('f, 's) vresult \<Rightarrow> 'f merge \<Rightarrow> ('f :: {zero, plus, minus, times}) merge option" where
  "VS_logic_op req_no vec_no is_and boost is_l2 r m = do {
     limit_value \<leftarrow> (if \<not> is_and \<and> is_l2 then fetch (vs_limit r) (int req_no) else Some 0);
     let max_score = worst is_and is_l2 boost limit_value;
     let m1 = (if \<not> is_and \<and> is_l2
               then m\<lparr>mg_scores := map (\<lambda>(d, s). (d, s + max_score)) (mg_scores m), mg_accu := mg_accu m + max_score\<rparr> else m);
     let base = req_no * vs_topn r;
     rows \<leftarrow> mem_slice (vs_rows r) base (vs_topn r);
     Some (fold (merge_row is_and vec_no boost max_score) (zip [base..<base + vs_topn r] rows) m1) }"

subsection \<open>Sorting by document\<close>

function scan_down :: "('f, 's) vrow list \<Rightarrow> int \<Rightarrow> nat \<Rightarrow> nat \<Rightarrow> nat" where
  "scan_down rows pivot low high =
     (if low < high \<and> vr_docid (rows ! high) \<ge> pivot then scan_down rows pivot low (high - 1) else high)"
  by pat_completeness auto
termination by (relation "measure (\<lambda>(rows, pivot, low, high). high)") auto

function scan_up :: "('f, 's) vrow list \<Rightarrow> int \<Rightarrow> nat \<Rightarrow> nat \<Rightarrow> nat" where
  "scan_up rows pivot low high =
     (if low < high \<and> vr_docid (rows ! low) \<le> pivot then scan_up rows pivot (low + 1) high else low)"
  by pat_completeness auto
termination by (relation "measure (\<lambda>(rows, pivot, low, high). high - low)") auto

declare scan_down.simps [simp del] scan_up.simps [simp del]

lemma scan_down_ok:
  "low \<le> high \<Longrightarrow> low \<le> scan_down rows pivot low high \<and> scan_down rows pivot low high \<le> high \<and>
    (\<forall>i. scan_down rows pivot low high < i \<and> i \<le> high \<longrightarrow> pivot \<le> vr_docid (rows ! i)) \<and>
    (low < scan_down rows pivot low high \<longrightarrow> vr_docid (rows ! scan_down rows pivot low high) < pivot)"
proof (induction rows pivot low high rule: scan_down.induct)
  case (1 rows pivot low high)
  show ?case
  proof (cases "low < high \<and> vr_docid (rows ! high) \<ge> pivot")
    case True
    then have e: "scan_down rows pivot low high = scan_down rows pivot low (high - 1)" by (simp add: scan_down.simps [of rows pivot low high])
    have ih: "low \<le> scan_down rows pivot low (high - 1) \<and> scan_down rows pivot low (high - 1) \<le> high - 1 \<and>
      (\<forall>i. scan_down rows pivot low (high - 1) < i \<and> i \<le> high - 1 \<longrightarrow> pivot \<le> vr_docid (rows ! i)) \<and>
      (low < scan_down rows pivot low (high - 1) \<longrightarrow> vr_docid (rows ! scan_down rows pivot low (high - 1)) < pivot)"
    proof -
      have "low \<le> high - 1" using True by arith
      then show ?thesis using 1(1) True by blast
    qed
    have "i \<le> high - 1 \<or> i = high" if "i \<le> high" for i using that by auto
    then show ?thesis unfolding e using ih True by (metis le_diff_conv le_trans diff_le_self)
  next
    case False
    then show ?thesis using 1 by (subst (1 2 3 4 5) scan_down.simps) auto
  qed
qed

lemma scan_up_ok:
  "low \<le> high \<Longrightarrow> low \<le> scan_up rows pivot low high \<and> scan_up rows pivot low high \<le> high \<and>
    (\<forall>i. low \<le> i \<and> i < scan_up rows pivot low high \<longrightarrow> vr_docid (rows ! i) \<le> pivot) \<and>
    (scan_up rows pivot low high < high \<longrightarrow> pivot < vr_docid (rows ! scan_up rows pivot low high))"
proof (induction rows pivot low high rule: scan_up.induct)
  case (1 rows pivot low high)
  show ?case
  proof (cases "low < high \<and> vr_docid (rows ! low) \<le> pivot")
    case True
    then have e: "scan_up rows pivot low high = scan_up rows pivot (low + 1) high" by (simp add: scan_up.simps [of rows pivot low high])
    have "low + 1 \<le> i \<or> i = low" if "low \<le> i" for i using that by auto
    then show ?thesis unfolding e using 1(1) True by (metis Suc_eq_plus1 Suc_leI Suc_leD)
  next
    case False
    then show ?thesis using 1 by (subst (1 2 3 4 5) scan_up.simps) auto
  qed
qed

text \<open>One round of \<open>partition\<close> for the pivot row \<open>p\<close>: the place \<open>low\<close> is free before and after it.\<close>

definition part_step :: "int \<Rightarrow> ('f, 's) vrow list \<times> nat \<times> nat \<Rightarrow> ('f, 's) vrow list \<times> nat \<times> nat" where
  "part_step pivot = (\<lambda>(rows, low, high).
     let high' = scan_down rows pivot low high;
         rows1 = rows[low := rows ! high'];
         low' = scan_up rows1 pivot low high';
         rows2 = rows1[high' := rows1 ! low']
     in (rows2, low', high'))"

text \<open>What a round keeps, for the rows \<open>rows0\<close> before the sort of the places \<open>lo\<close> to \<open>hi\<close>.\<close>

definition part_inv :: "('f, 's) vrow list \<Rightarrow> nat \<Rightarrow> nat \<Rightarrow> ('f, 's) vrow \<Rightarrow> ('f, 's) vrow list \<times> nat \<times> nat \<Rightarrow> bool" where
  "part_inv rows0 lo hi p = (\<lambda>(rows, low, high).
     lo \<le> low \<and> low \<le> high \<and> high \<le> hi \<and> hi < length rows \<and> length rows = length rows0 \<and> mset (rows[low := p]) = mset rows0 \<and>
     (\<forall>i. lo \<le> i \<and> i < low \<longrightarrow> vr_docid (rows ! i) \<le> vr_docid p) \<and> (\<forall>i. high < i \<and> i \<le> hi \<longrightarrow> vr_docid p \<le> vr_docid (rows ! i)) \<and>
     (\<forall>i. i < lo \<or> hi < i \<longrightarrow> rows ! i = rows0 ! i))"

lemma move_hole:
  assumes "i < length xs" "j < length xs"
  shows "mset (xs[i := xs ! j, j := p]) = mset (xs[i := p])"
proof (cases "i = j")
  case False
  then have "xs[i := xs ! j, j := p] = (xs[i := p])[i := (xs[i := p]) ! j, j := (xs[i := p]) ! i]" using assms by simp
  then show ?thesis using assms mset_swap [of j "xs[i := p]" i] by (simp only: length_list_update)
qed simp

lemma part_step_shrinks:
  assumes lt: "low < high" "high < length rows" and st: "part_step pivot (rows, low, high) = (rows', low', high')"
  shows "high' - low' < high - low"
proof -
  define rows1 where "rows1 = rows[low := rows ! high']"
  have h': "high' = scan_down rows pivot low high" and l': "low' = scan_up rows1 pivot low high'"
    using st by (auto simp: part_step_def Let_def rows1_def)
  have h: "low \<le> high'" "high' \<le> high" "low < high' \<Longrightarrow> vr_docid (rows ! high') < pivot"
    using scan_down_ok [of low high rows pivot] lt unfolding h' by auto
  have l: "low \<le> low'" "low' \<le> high'" "low' < high' \<Longrightarrow> pivot < vr_docid (rows1 ! low')"
    using scan_up_ok [of low high' rows1 pivot] h(1) unfolding l' by auto
  have "low < low'" if "high' = high"
  proof -
    have "vr_docid (rows1 ! low) < pivot" using h(3) lt that by (simp add: rows1_def)
    then show ?thesis using l lt that by (metis less_le_not_le le_neq_implies_less order.asym)
  qed
  then show ?thesis using h(1,2) l(1,2) lt(1) by (cases "high' = high") auto
qed

lemma part_step_ok:
  assumes inv: "part_inv rows0 lo hi p (rows, low, high)" and lt: "low < high"
  shows "part_inv rows0 lo hi p (part_step (vr_docid p) (rows, low, high))"
proof -
  define h where "h = scan_down rows (vr_docid p) low high"
  define rows1 where "rows1 = rows[low := rows ! h]"
  define l where "l = scan_up rows1 (vr_docid p) low h"
  define rows2 where "rows2 = rows1[h := rows1 ! l]"
  have st: "part_step (vr_docid p) (rows, low, high) = (rows2, l, h)"
    by (simp add: part_step_def Let_def h_def rows1_def l_def rows2_def)
  have b: "lo \<le> low" "high \<le> hi" "hi < length rows" "length rows = length rows0" "mset (rows[low := p]) = mset rows0"
    "\<forall>i. lo \<le> i \<and> i < low \<longrightarrow> vr_docid (rows ! i) \<le> vr_docid p" "\<forall>i. high < i \<and> i \<le> hi \<longrightarrow> vr_docid p \<le> vr_docid (rows ! i)"
    "\<forall>i. i < lo \<or> hi < i \<longrightarrow> rows ! i = rows0 ! i"
    using inv by (auto simp: part_inv_def)
  have h: "low \<le> h" "h \<le> high" "\<forall>i. h < i \<and> i \<le> high \<longrightarrow> vr_docid p \<le> vr_docid (rows ! i)" "low < h \<Longrightarrow> vr_docid (rows ! h) < vr_docid p"
    using scan_down_ok [of low high rows "vr_docid p"] lt unfolding h_def by auto
  have l: "low \<le> l" "l \<le> h" "\<forall>i. low \<le> i \<and> i < l \<longrightarrow> vr_docid (rows1 ! i) \<le> vr_docid p" "l < h \<Longrightarrow> vr_docid p < vr_docid (rows1 ! l)"
    using scan_up_ok [of low h rows1 "vr_docid p"] h(1) unfolding l_def by auto
  have len: "low < length rows" "h < length rows" "l < length rows" using b(2,3) h l lt by auto
  have "mset (rows2[l := p]) = mset (rows1[h := p])" unfolding rows2_def using len by (intro move_hole) (simp_all add: rows1_def)
  also have "\<dots> = mset (rows[low := p])" unfolding rows1_def using len by (intro move_hole)
  finally have m: "mset (rows2[l := p]) = mset rows0" using b(5) by simp
  have at: "rows2 ! i = (if i = h then rows1 ! l else if i = low then rows ! h else rows ! i)" if "i < length rows" for i
    using that len by (simp add: rows2_def rows1_def nth_list_update)
  have left: "vr_docid (rows2 ! i) \<le> vr_docid p" if "lo \<le> i" "i < l" for i
  proof -
    have ne: "i \<noteq> h" "i < length rows" using that l(2) len by auto
    then have "rows2 ! i = rows1 ! i" by (simp add: rows2_def)
    show ?thesis
    proof (cases "low \<le> i")
      case True
      then show ?thesis using l(3) that \<open>rows2 ! i = rows1 ! i\<close> by simp
    next
      case False
      then show ?thesis using b(6) that at [OF ne(2)] ne(1) by simp
    qed
  qed
  have right: "vr_docid p \<le> vr_docid (rows2 ! i)" if "h < i" "i \<le> hi" for i
  proof -
    have "i \<noteq> low" "i < length rows" using that h(1) b(3) by auto
    then have "rows2 ! i = rows ! i" using at that(1) by simp
    then show ?thesis using h(3) b(7) that by (cases "i \<le> high") auto
  qed
  have same: "rows2 ! i = rows0 ! i" if "i < lo \<or> hi < i" for i
  proof -
    have "i \<noteq> h" "i \<noteq> low" using that b(1,2) h(1,2) by auto
    then have "rows2 ! i = rows ! i" by (simp add: rows2_def rows1_def)
    then show ?thesis using b(8) that by metis
  qed
  have "length rows2 = length rows" by (simp add: rows2_def rows1_def)
  then show "part_inv rows0 lo hi p (part_step (vr_docid p) (rows, low, high))"
    unfolding st part_inv_def using b(1-4) h(1,2) l(1,2) m left right same by simp
qed

function part_loop :: "('f, 's) vrow \<Rightarrow> ('f, 's) vrow list \<Rightarrow> nat \<Rightarrow> nat \<Rightarrow> ('f, 's) vrow list \<times> nat" where
  "part_loop p rows low high =
     (if low < high \<and> high < length rows
      then (case part_step (vr_docid p) (rows, low, high) of (rows', low', high') \<Rightarrow> part_loop p rows' low' high')
      else (rows[low := p], low))"
  by pat_completeness auto
termination
proof (relation "measure (\<lambda>(p, rows, low, high). high - low)")
  fix p :: "('a, 'b) vrow" and rows rows' :: "('a, 'b) vrow list" and low high low' high' :: nat and y
  assume a: "low < high \<and> high < length rows" "(rows', y) = part_step (vr_docid p) (rows, low, high)" "(low', high') = y"
  then have "part_step (vr_docid p) (rows, low, high) = (rows', low', high')" by simp
  then have "high' - low' < high - low" using a(1) by (intro part_step_shrinks) simp_all
  then show "((p, rows', low', high'), p, rows, low, high) \<in> measure (\<lambda>(p, rows, low, high). high - low)" by simp
qed simp

declare part_loop.simps [simp del]

text \<open>\<open>partition\<close> takes the row at \<open>low\<close> as the pivot and returns its final place.\<close>

definition VS_partition :: "('f, 's) vrow list \<Rightarrow> nat \<Rightarrow> nat \<Rightarrow> ('f, 's) vrow list \<times> nat" where
  "VS_partition rows low high = part_loop (rows ! low) rows low high"

lemma part_loop_ok:
  "part_inv rows0 lo hi p (rows, low, high) \<Longrightarrow> part_loop p rows low high = (rows', k) \<Longrightarrow>
    lo \<le> k \<and> k \<le> hi \<and> length rows' = length rows0 \<and> mset rows' = mset rows0 \<and>
    (\<forall>i. lo \<le> i \<and> i < k \<longrightarrow> vr_docid (rows' ! i) \<le> vr_docid (rows' ! k)) \<and>
    (\<forall>i. k < i \<and> i \<le> hi \<longrightarrow> vr_docid (rows' ! k) \<le> vr_docid (rows' ! i)) \<and> (\<forall>i. i < lo \<or> hi < i \<longrightarrow> rows' ! i = rows0 ! i)"
proof (induction p rows low high rule: part_loop.induct)
  case (1 p rows low high)
  show ?case
  proof (cases "low < high \<and> high < length rows")
    case True
    obtain rows1 low1 high1 where st: "part_step (vr_docid p) (rows, low, high) = (rows1, low1, high1)" by (cases "part_step (vr_docid p) (rows, low, high)")
    have "part_inv rows0 lo hi p (rows1, low1, high1)" using part_step_ok [OF 1(2)] True unfolding st by simp
    moreover have "part_loop p rows1 low1 high1 = (rows', k)" using 1(3) True st by (subst (asm) part_loop.simps) simp
    ultimately show ?thesis using 1(1) [OF True] st by metis
  next
    case False
    have inv: "lo \<le> low" "low \<le> high" "high \<le> hi" "hi < length rows" "length rows = length rows0" "mset (rows[low := p]) = mset rows0"
      "\<forall>i. lo \<le> i \<and> i < low \<longrightarrow> vr_docid (rows ! i) \<le> vr_docid p" "\<forall>i. high < i \<and> i \<le> hi \<longrightarrow> vr_docid p \<le> vr_docid (rows ! i)"
      "\<forall>i. i < lo \<or> hi < i \<longrightarrow> rows ! i = rows0 ! i"
      using 1(2) by (auto simp: part_inv_def)
    then have "high = low" using False by auto
    have "part_loop p rows low high = (rows[low := p], low)" unfolding part_loop.simps [of p rows low high] using False by (simp only: if_False)
    then have "rows' = rows[low := p]" "k = low" using 1(3) by simp_all
    then show ?thesis using inv \<open>high = low\<close> by (auto simp: nth_list_update)
  qed
qed

lemma VS_partition_ok:
  assumes "lo < hi" "hi < length rows" "VS_partition rows lo hi = (rows', k)"
  shows "lo \<le> k" "k \<le> hi" "length rows' = length rows" "mset rows' = mset rows"
    "\<And>i. lo \<le> i \<Longrightarrow> i < k \<Longrightarrow> vr_docid (rows' ! i) \<le> vr_docid (rows' ! k)"
    "\<And>i. k < i \<Longrightarrow> i \<le> hi \<Longrightarrow> vr_docid (rows' ! k) \<le> vr_docid (rows' ! i)"
    "\<And>i. i < lo \<or> hi < i \<Longrightarrow> rows' ! i = rows ! i"
proof -
  have "part_inv rows lo hi (rows ! lo) (rows, lo, hi)" using assms(1,2) by (simp add: part_inv_def)
  from part_loop_ok [OF this assms(3) [unfolded VS_partition_def]]
  show "lo \<le> k" "k \<le> hi" "length rows' = length rows" "mset rows' = mset rows"
    "\<And>i. lo \<le> i \<Longrightarrow> i < k \<Longrightarrow> vr_docid (rows' ! i) \<le> vr_docid (rows' ! k)"
    "\<And>i. k < i \<Longrightarrow> i \<le> hi \<Longrightarrow> vr_docid (rows' ! k) \<le> vr_docid (rows' ! i)"
    "\<And>i. i < lo \<or> hi < i \<Longrightarrow> rows' ! i = rows ! i" by blast+
qed

function quick_sort :: "('f, 's) vrow list \<Rightarrow> int \<Rightarrow> int \<Rightarrow> ('f, 's) vrow list" where
  "quick_sort rows low high =
     (if 0 \<le> low \<and> low < high \<and> high < int (length rows)
      then (case VS_partition rows (nat low) (nat high) of
          (rows1, pivot) \<Rightarrow> quick_sort (quick_sort rows1 low (int pivot - 1)) (int pivot + 1) high)
      else rows)"
  by pat_completeness auto
termination
proof (relation "measure (\<lambda>(rows, low, high). nat (high + 1 - low))")
  fix rows rows1 :: "('a, 'b) vrow list" and low high :: int and pivot :: nat
  assume a: "0 \<le> low \<and> low < high \<and> high < int (length rows)" "(rows1, pivot) = VS_partition rows (nat low) (nat high)"
  have n: "nat low < nat high" "nat high < length rows" using a(1) by linarith+
  have "low \<le> int pivot" "int pivot \<le> high"
    using VS_partition_ok(1,2) [OF n sym [OF a(2)]] a(1) by linarith+
  then show "((rows1, low, int pivot - 1), rows, low, high) \<in> measure (\<lambda>(rows, low, high). nat (high + 1 - low))"
    "((r, int pivot + 1, high), rows, low, high) \<in> measure (\<lambda>(rows, low, high). nat (high + 1 - low))" for r :: "('a, 'b) vrow list"
    using a by auto
qed simp

declare quick_sort.simps [simp del]

text \<open>\<open>sort_by_docid\<close> sorts the rows of each query on their own; \<open>None\<close> outside the arrays.\<close>

fun sort_queries :: "nat \<Rightarrow> nat \<Rightarrow> ('f, 's) vrow list \<Rightarrow> ('f, 's) vrow list option" where
  "sort_queries 0 topn rows = Some []"
| "sort_queries (Suc n) topn rows = do {
     part \<leftarrow> mem_slice rows 0 topn;
     rest \<leftarrow> sort_queries n topn (drop topn rows);
     Some (quick_sort part 0 (int topn - 1) @ rest) }"

definition VS_sort_by_docid :: "('f, 's) vresult \<Rightarrow> ('f, 's) vresult option" where
  "VS_sort_by_docid r = do { rows \<leftarrow> sort_queries (vs_n r) (vs_topn r) (vs_rows r); Some (r\<lparr>vs_rows := rows\<rparr>) }"

definition docs_sorted :: "('f, 's) vrow list \<Rightarrow> bool" where
  "docs_sorted rows = sorted (map vr_docid rows)"

text \<open>A permutation that keeps everything outside a range permutes the range.\<close>

lemma mset_range:
  assumes "mset xs = mset ys" "\<And>i. i < a \<or> b \<le> i \<Longrightarrow> xs ! i = ys ! i" "a \<le> b" "b \<le> length ys"
  shows "mset (drop a (take b xs)) = mset (drop a (take b ys))"
proof -
  have len: "length xs = length ys" using assms(1) by (rule mset_eq_length)
  have sp: "zs = take a zs @ drop a (take b zs) @ drop b zs" for zs :: "'a list"
    using assms(3) by (metis append_take_drop_id append.assoc min_absorb1 take_take)
  have "take a xs = take a ys" "drop b xs = drop b ys" using assms(2-4) len by (auto intro!: nth_equalityI)
  then show ?thesis using assms(1) sp [of xs] sp [of ys] by (metis mset_append add_left_cancel add_right_cancel)
qed

lemma range_values:
  assumes "mset xs = mset ys" "\<And>i. i < a \<or> b \<le> i \<Longrightarrow> xs ! i = ys ! i" "a \<le> b" "b \<le> length ys"
    and "a \<le> i" "i < b"
  shows "\<exists>j. a \<le> j \<and> j < b \<and> xs ! i = ys ! j"
proof -
  have len: "length xs = length ys" using assms(1) by (rule mset_eq_length)
  have "drop a (take b xs) ! (i - a) = xs ! i" using assms(4-6) len by simp
  moreover have "drop a (take b xs) ! (i - a) \<in> set (drop a (take b xs))" using assms(4-6) len by (intro nth_mem) simp
  ultimately have "xs ! i \<in> set (drop a (take b ys))" using mset_eq_setD [OF mset_range [OF assms(1-4)]] by simp
  then obtain k where "k < length (drop a (take b ys))" "drop a (take b ys) ! k = xs ! i" by (auto simp: in_set_conv_nth)
  moreover from this(1) have "drop a (take b ys) ! k = ys ! (a + k)" by (simp add: less_diff_conv add.commute)
  ultimately show ?thesis by (intro exI [of _ "a + k"]) auto
qed

lemma quick_sort_ok:
  "0 \<le> low \<Longrightarrow> low \<le> high + 1 \<Longrightarrow> high < int (length rows) \<Longrightarrow>
    length (quick_sort rows low high) = length rows \<and> mset (quick_sort rows low high) = mset rows \<and>
    (\<forall>i. int i < low \<or> high < int i \<longrightarrow> quick_sort rows low high ! i = rows ! i) \<and>
    (\<forall>i j. low \<le> int i \<and> i \<le> j \<and> int j \<le> high \<longrightarrow> vr_docid (quick_sort rows low high ! i) \<le> vr_docid (quick_sort rows low high ! j))"
proof (induction rows low high rule: quick_sort.induct)
  case (1 rows low high)
  show ?case
  proof (cases "0 \<le> low \<and> low < high \<and> high < int (length rows)")
    case False
    then have e: "quick_sort rows low high = rows" unfolding quick_sort.simps [of rows low high] by (simp only: if_False)
    have "i = j" if "low \<le> int i" "i \<le> j" "int j \<le> high" for i j using False 1(3-5) that by linarith
    then show ?thesis unfolding e by auto
  next
    case True
    obtain rows1 p where p: "VS_partition rows (nat low) (nat high) = (rows1, p)" by fastforce
    have nn: "nat low < nat high" "nat high < length rows" "int (nat low) = low" "int (nat high) = high" using True by auto
    note pp = VS_partition_ok [OF nn(1,2) p]
    define rows2 where "rows2 = quick_sort rows1 low (int p - 1)"
    define rows3 where "rows3 = quick_sort rows2 (int p + 1) high"
    have e: "quick_sort rows low high = rows3"
      unfolding quick_sort.simps [of rows low high] rows2_def rows3_def if_P [OF True] p by simp
    have b: "low \<le> int p" "int p \<le> high" "p < length rows" using pp(1,2) nn by linarith+
    have q2: "length rows2 = length rows" "mset rows2 = mset rows1" "\<And>i. int i < low \<or> int p - 1 < int i \<Longrightarrow> rows2 ! i = rows1 ! i"
      "\<And>i j. low \<le> int i \<Longrightarrow> i \<le> j \<Longrightarrow> int j \<le> int p - 1 \<Longrightarrow> vr_docid (rows2 ! i) \<le> vr_docid (rows2 ! j)"
      using 1(1) [OF True p [symmetric]] 1(3) b pp(3) unfolding rows2_def by auto
    have q3: "length rows3 = length rows" "mset rows3 = mset rows2" "\<And>i. int i < int p + 1 \<or> high < int i \<Longrightarrow> rows3 ! i = rows2 ! i"
      "\<And>i j. int p + 1 \<le> int i \<Longrightarrow> i \<le> j \<Longrightarrow> int j \<le> high \<Longrightarrow> vr_docid (rows3 ! i) \<le> vr_docid (rows3 ! j)"
      using 1(2) [OF True p [symmetric]] 1(5) b q2(1) unfolding rows3_def rows2_def by auto
    have piv: "rows3 ! p = rows1 ! p" using q3(3) [of p] q2(3) [of p] by simp
    have left: "vr_docid (rows3 ! i) \<le> vr_docid (rows1 ! p)" if i: "low \<le> int i" "i < p" for i
    proof -
      have out: "\<And>i. i < nat low \<or> p \<le> i \<Longrightarrow> rows2 ! i = rows1 ! i" using q2(3) True by force
      have "\<exists>j. nat low \<le> j \<and> j < p \<and> rows2 ! i = rows1 ! j"
        by (rule range_values [OF q2(2) out]) (use i b pp(3) in linarith)+
      then obtain j where "nat low \<le> j" "j < p" "rows2 ! i = rows1 ! j" by blast
      then show ?thesis using pp(5) [of j] q3(3) [of i] i(2) by simp
    qed
    have right: "vr_docid (rows1 ! p) \<le> vr_docid (rows3 ! i)" if i: "p < i" "int i \<le> high" for i
    proof -
      have out: "\<And>i. i < p + 1 \<or> nat high + 1 \<le> i \<Longrightarrow> rows3 ! i = rows2 ! i" using q3(3) True by force
      have "\<exists>j. p + 1 \<le> j \<and> j < nat high + 1 \<and> rows3 ! i = rows2 ! j"
        by (rule range_values [OF q3(2) out]) (use i b q2(1) nn in linarith)+
      then obtain j where j: "p + 1 \<le> j" "j < nat high + 1" "rows3 ! i = rows2 ! j" by blast
      have "rows2 ! j = rows1 ! j" using q2(3) [of j] j(1) by simp
      then show ?thesis using pp(6) [of j] j by simp
    qed
    have "vr_docid (rows3 ! i) \<le> vr_docid (rows3 ! j)" if ij: "low \<le> int i" "i \<le> j" "int j \<le> high" for i j
    proof -
      consider "j < p" | "i < p" "p \<le> j" | "i = p" | "p < i" by linarith
      then show ?thesis
      proof cases
        case 1
        then show ?thesis using q2(4) [of i j] q3(3) [of i] q3(3) [of j] ij by simp
      next
        case 2
        then show ?thesis using left [of i] right [of j] piv ij by (cases "j = p") force+
      next
        case 3
        then show ?thesis using right [of j] piv ij by (cases "j = p") force+
      next
        case 4
        then show ?thesis using q3(4) [of i j] ij by simp
      qed
    qed
    moreover have "rows3 ! i = rows ! i" if "int i < low \<or> high < int i" for i
    proof -
      have "i < nat low \<or> nat high < i" using that True by linarith
      then have "rows1 ! i = rows ! i" by (rule pp(7))
      moreover have "rows3 ! i = rows2 ! i" "rows2 ! i = rows1 ! i" using that b by (intro q3(3) q2(3); linarith)+
      ultimately show ?thesis by simp
    qed
    ultimately show ?thesis unfolding e using q2(1,2) q3(1,2) pp(4) by simp
  qed
qed

lemma quick_sort_sorts: "docs_sorted (quick_sort rows 0 (int (length rows) - 1)) \<and> mset (quick_sort rows 0 (int (length rows) - 1)) = mset rows"
  using quick_sort_ok [of 0 "int (length rows) - 1" rows] by (auto simp: docs_sorted_def sorted_iff_nth_mono)

lemma sort_queries_ok:
  "n * topn \<le> length rows \<Longrightarrow> \<exists>rows'. sort_queries n topn rows = Some rows' \<and> length rows' = n * topn \<and>
    (\<forall>i < n. docs_sorted (take topn (drop (i * topn) rows')) \<and>
       mset (take topn (drop (i * topn) rows')) = mset (take topn (drop (i * topn) rows)))"
proof (induction n arbitrary: rows)
  case (Suc n)
  have l: "topn \<le> length rows" "n * topn \<le> length (drop topn rows)" using Suc.prems by simp_all
  let ?p = "take topn rows"
  have len: "length ?p = topn" using l by simp
  note q = quick_sort_sorts [of ?p, unfolded len]
  have lq: "length (quick_sort ?p 0 (int topn - 1)) = topn" using mset_eq_length [OF conjunct2 [OF q]] len by simp
  obtain rest where rest: "sort_queries n topn (drop topn rows) = Some rest" "length rest = n * topn"
    "\<forall>i < n. docs_sorted (take topn (drop (i * topn) rest)) \<and>
       mset (take topn (drop (i * topn) rest)) = mset (take topn (drop (i * topn) (drop topn rows)))"
    using Suc.IH [OF l(2)] by blast
  have "docs_sorted (take topn (drop (i * topn) (quick_sort ?p 0 (int topn - 1) @ rest))) \<and>
      mset (take topn (drop (i * topn) (quick_sort ?p 0 (int topn - 1) @ rest))) = mset (take topn (drop (i * topn) rows))" if "i < Suc n" for i
  proof (cases i)
    case 0
    then show ?thesis using q lq by simp
  next
    case (Suc k)
    then have "k < n" using that by simp
    then show ?thesis using Suc rest(3) lq by (simp add: add.commute)
  qed
  then show ?case using l(1) rest(1,2) lq by (simp add: mem_slice_def)
qed simp

end
