(* ===== verification/VecMerge.thy ===== *)
theory VecMerge
  imports VecResult
begin

text \<open>
  What \<open>logic_op\<close> computes: with exact arithmetic the score of a document is the sum of its weighted
  distances in the fields that have it and, for a disjunction with distances, of the weighted worst
  distances of the fields that do not.
\<close>

definition row_of :: "('f, 's) vrow list \<Rightarrow> int \<Rightarrow> ('f, 's) vrow option" where
  "row_of rows d = (if d = -1 then None else find (\<lambda>r. vr_docid r = d) rows)"

definition proper :: "('f, 's) vrow list \<Rightarrow> bool" where
  "proper rows = distinct (filter (\<lambda>d. d \<noteq> -1) (map vr_docid rows))"

lemma row_of_Cons: "row_of (r # rows) d = (if d \<noteq> -1 \<and> vr_docid r = d then Some r else row_of rows d)"
  by (simp add: row_of_def)

lemma row_of_None: "d \<noteq> -1 \<Longrightarrow> row_of rows d = None \<longleftrightarrow> d \<notin> vr_docid ` set rows"
  by (auto simp: row_of_def find_None_iff)

lemma merge_row_at:
  fixes m :: "('f :: comm_ring) merge"
  shows "mg_accu (merge_row is_and v boost mx (p, r) m) = mg_accu m"
    and "map_of (mg_scores (merge_row is_and v boost mx (p, r) m)) d = (if d \<noteq> -1 \<and> vr_docid r = d
       then Some ((case map_of (mg_scores m) d of None \<Rightarrow> mg_accu m | Some s \<Rightarrow> s) - mx + vr_dist r * boost) else map_of (mg_scores m) d)"
    and "map_of (mg_count (merge_row is_and v boost mx (p, r) m)) d = (if is_and \<and> d \<noteq> -1 \<and> vr_docid r = d
       then Some (case map_of (mg_count m) d of None \<Rightarrow> 1 | Some c \<Rightarrow> c + 1) else map_of (mg_count m) d)"
  by (auto simp: merge_row_def Let_def update_conv' split: option.splits prod.splits)

lemma merge_rows:
  fixes m :: "('f :: comm_ring) merge"
  shows "\<lbrakk>proper rows; length ps = length rows\<rbrakk> \<Longrightarrow>
    map_of (mg_scores (fold (merge_row is_and v boost mx) (zip ps rows) m)) d =
      (case row_of rows d of
         None \<Rightarrow> map_of (mg_scores m) d
       | Some r \<Rightarrow> Some ((case map_of (mg_scores m) d of None \<Rightarrow> mg_accu m | Some s \<Rightarrow> s) - mx + vr_dist r * boost)) \<and>
    mg_accu (fold (merge_row is_and v boost mx) (zip ps rows) m) = mg_accu m \<and>
    map_of (mg_count (fold (merge_row is_and v boost mx) (zip ps rows) m)) d =
      (if is_and \<and> row_of rows d \<noteq> None then Some (case map_of (mg_count m) d of None \<Rightarrow> 1 | Some c \<Rightarrow> c + 1)
       else map_of (mg_count m) d)"
proof (induction rows arbitrary: ps m)
  case (Cons r rows)
  obtain p ps' where ps: "ps = p # ps'" "length ps' = length rows" using Cons.prems(2) by (cases ps) auto
  have p: "proper rows" using Cons.prems(1) by (simp add: proper_def split: if_splits)
  have n: "row_of rows (vr_docid r) = None"
  proof (cases "vr_docid r = -1")
    case True
    then show ?thesis by (simp add: row_of_def)
  next
    case False
    then have "vr_docid r \<notin> vr_docid ` set rows" using Cons.prems(1) by (auto simp: proper_def)
    then show ?thesis by (rule row_of_None [OF False, THEN iffD2])
  qed
  note pr = p n
  have f: "fold (merge_row is_and v boost mx) (zip ps (r # rows)) m =
      fold (merge_row is_and v boost mx) (zip ps' rows) (merge_row is_and v boost mx (p, r) m)" by (simp add: ps)
  note ih = Cons.IH [OF pr(1) ps(2), of "merge_row is_and v boost mx (p, r) m", unfolded merge_row_at]
  show ?case unfolding f
  proof (intro conjI, goal_cases)
    case 1
    then show ?case using conjunct1 [OF ih] pr(2) by (auto simp: row_of_Cons split: option.splits if_splits)
  next
    case 2
    then show ?case using ih by blast
  next
    case 3
    then show ?case using conjunct2 [OF conjunct2 [OF ih]] pr(2) by (auto simp: row_of_Cons split: option.splits if_splits)
  qed
qed (simp add: row_of_def)

text \<open>The rows of query \<open>i\<close>.\<close>

definition block_rows :: "nat \<Rightarrow> ('f, 's) vresult \<Rightarrow> ('f, 's) vrow list" where
  "block_rows i r = take (vs_topn r) (drop (i * vs_topn r) (vs_rows r))"

definition in_range :: "nat \<Rightarrow> ('f, 's) vresult \<Rightarrow> bool" where
  "in_range i r \<longleftrightarrow> (i + 1) * vs_topn r \<le> length (vs_rows r) \<and> i < length (vs_limit r)"

lemma logic_op_ok:
  fixes m :: "('f :: comm_ring) merge"
  assumes r: "in_range i r" and p: "proper (block_rows i r)"
    and mx: "mx = worst is_and is_l2 boost (vs_limit r ! i)"
  shows "\<exists>m'. VS_logic_op i v is_and boost is_l2 r m = Some m' \<and> mg_accu m' = mg_accu m + mx \<and>
    (\<forall>d. map_of (mg_scores m') d =
      (case row_of (block_rows i r) d of
         None \<Rightarrow> map_option (\<lambda>s. s + mx) (map_of (mg_scores m) d)
       | Some w \<Rightarrow> Some ((case map_of (mg_scores m) d of None \<Rightarrow> mg_accu m | Some s \<Rightarrow> s) + vr_dist w * boost))) \<and>
    (\<forall>d. map_of (mg_count m') d =
      (if is_and \<and> row_of (block_rows i r) d \<noteq> None then Some (case map_of (mg_count m) d of None \<Rightarrow> 1 | Some c \<Rightarrow> c + 1)
       else map_of (mg_count m) d))"
proof -
  let ?l2 = "\<not> is_and \<and> is_l2"
  define lim where "lim = (if ?l2 then vs_limit r ! i else 0)"
  have mx: "mx = worst is_and is_l2 boost lim" by (simp add: mx lim_def worst_def)
  define m1 where "m1 = (if ?l2
    then m\<lparr>mg_scores := map (\<lambda>(d, s). (d, s + mx)) (mg_scores m), mg_accu := mg_accu m + mx\<rparr> else m)"
  let ?base = "i * vs_topn r"
  have l: "(if ?l2 then fetch (vs_limit r) (int i) else Some 0) = Some lim" using r by (simp add: lim_def fetch_def in_range_def)
  have sl: "mem_slice (vs_rows r) ?base (vs_topn r) = Some (block_rows i r)"
    using r by (simp add: mem_slice_def block_rows_def in_range_def add.commute)
  have len: "length [?base..<?base + vs_topn r] = length (block_rows i r)" using r by (auto simp: block_rows_def in_range_def min_def)
  have e: "VS_logic_op i v is_and boost is_l2 r m = Some (fold (merge_row is_and v boost mx) (zip [?base..<?base + vs_topn r] (block_rows i r)) m1)"
    unfolding VS_logic_op_def l by (simp add: Let_def mx m1_def sl)
  have z: "mx = 0" if "\<not> ?l2" using that by (auto simp: mx worst_def)
  have m1: "mg_accu m1 = mg_accu m + mx" "map_of (mg_scores m1) d = map_option (\<lambda>s. s + mx) (map_of (mg_scores m) d)"
    "mg_count m1 = mg_count m" for d
    using z by (auto simp: m1_def map_of_map [of "\<lambda>s. s + mx", simplified] option.map_ident)
  note f = merge_rows [OF p len, of is_and v boost mx m1]
  show ?thesis unfolding e using f m1 by (auto split: option.splits)
qed

subsection \<open>All fields of a request\<close>

fun merge_fields :: "nat \<Rightarrow> nat \<Rightarrow> bool \<Rightarrow> bool \<Rightarrow> (('f, 's) vresult \<times> 'f) list \<Rightarrow> 'f merge \<Rightarrow> ('f :: {zero, plus, minus, times}) merge option" where
  "merge_fields i v is_and is_l2 [] m = Some m"
| "merge_fields i v is_and is_l2 ((r, boost) # fs) m = do {
     m' \<leftarrow> VS_logic_op i v is_and boost is_l2 r m;
     merge_fields i (v + 1) is_and is_l2 fs m' }"

text \<open>The specification: what a field adds to the score of a document.\<close>

definition share :: "nat \<Rightarrow> bool \<Rightarrow> bool \<Rightarrow> int \<Rightarrow> ('f, 's) vresult \<times> 'f \<Rightarrow> ('f :: {zero, times})" where
  "share i is_and is_l2 d = (\<lambda>(r, boost). case row_of (block_rows i r) d of
     Some w \<Rightarrow> vr_dist w * boost | None \<Rightarrow> worst is_and is_l2 boost (vs_limit r ! i))"

definition found_in :: "nat \<Rightarrow> int \<Rightarrow> ('f, 's) vresult \<times> 'f \<Rightarrow> bool" where
  "found_in i d = (\<lambda>(r, boost). row_of (block_rows i r) d \<noteq> None)"

definition merged :: "nat \<Rightarrow> bool \<Rightarrow> bool \<Rightarrow> (('f, 's) vresult \<times> 'f) list \<Rightarrow> ('f :: comm_ring) merge \<Rightarrow> bool" where
  "merged i is_and is_l2 fs m \<longleftrightarrow>
     mg_accu m = (\<Sum>(r, boost)\<leftarrow>fs. worst is_and is_l2 boost (vs_limit r ! i)) \<and>
     (\<forall>d. map_of (mg_scores m) d = (if list_ex (found_in i d) fs then Some (sum_list (map (share i is_and is_l2 d) fs)) else None)) \<and>
     (is_and \<longrightarrow> (\<forall>d. map_of (mg_count m) d =
        (if list_ex (found_in i d) fs then Some (int (length (filter (found_in i d) fs))) else None)))"

lemma share_absent: "\<not> list_ex (found_in i d) fs \<Longrightarrow>
    sum_list (map (share i is_and is_l2 d) fs) = (\<Sum>(r, boost)\<leftarrow>fs. worst is_and is_l2 boost (vs_limit r ! i))"
  by (induction fs) (auto simp: found_in_def share_def)

lemma merged_start: "merged i is_and is_l2 [] merge_start"
  by (simp add: merged_def merge_start_def)

lemma merged_step:
  assumes m: "merged i is_and is_l2 fs m" and r: "in_range i r" "proper (block_rows i r)"
  shows "\<exists>m'. VS_logic_op i v is_and boost is_l2 r m = Some m' \<and> merged i is_and is_l2 (fs @ [(r, boost)]) m'"
proof -
  let ?mx = "worst is_and is_l2 boost (vs_limit r ! i)"
  obtain m' where m': "VS_logic_op i v is_and boost is_l2 r m = Some m'" "mg_accu m' = mg_accu m + ?mx"
    "\<forall>d. map_of (mg_scores m') d =
      (case row_of (block_rows i r) d of
         None \<Rightarrow> map_option (\<lambda>s. s + ?mx) (map_of (mg_scores m) d)
       | Some w \<Rightarrow> Some ((case map_of (mg_scores m) d of None \<Rightarrow> mg_accu m | Some s \<Rightarrow> s) + vr_dist w * boost))"
    "\<forall>d. map_of (mg_count m') d =
      (if is_and \<and> row_of (block_rows i r) d \<noteq> None then Some (case map_of (mg_count m) d of None \<Rightarrow> 1 | Some c \<Rightarrow> c + 1)
       else map_of (mg_count m) d)"
    using logic_op_ok [OF r refl, of v is_and boost is_l2 m] by blast
  have a: "mg_accu m = (\<Sum>(r, boost)\<leftarrow>fs. worst is_and is_l2 boost (vs_limit r ! i))"
    and s: "\<And>d. map_of (mg_scores m) d = (if list_ex (found_in i d) fs then Some (sum_list (map (share i is_and is_l2 d) fs)) else None)"
    and c: "\<And>d. is_and \<Longrightarrow> map_of (mg_count m) d =
        (if list_ex (found_in i d) fs then Some (int (length (filter (found_in i d) fs))) else None)"
    using m by (auto simp: merged_def)
  have none: "filter (found_in i d) fs = []" if "\<not> list_ex (found_in i d) fs" for d
    using that by (simp add: list_ex_iff filter_empty_conv)
  have "map_of (mg_scores m') d = (if list_ex (found_in i d) (fs @ [(r, boost)])
      then Some (sum_list (map (share i is_and is_l2 d) (fs @ [(r, boost)]))) else None)" for d
    using m'(3) s [of d] share_absent [of i d fs is_and is_l2] a
    by (cases "row_of (block_rows i r) d") (auto simp: found_in_def share_def)
  moreover have "map_of (mg_count m') d = (if list_ex (found_in i d) (fs @ [(r, boost)])
      then Some (int (length (filter (found_in i d) (fs @ [(r, boost)])))) else None)" if "is_and" for d
    using m'(4) c [OF that, of d] none [of d] that by (cases "row_of (block_rows i r) d") (auto simp: found_in_def)
  ultimately have "merged i is_and is_l2 (fs @ [(r, boost)]) m'" using m'(2) a unfolding merged_def by simp
  then show ?thesis using m'(1) by blast
qed

lemma merge_fields_ok:
  "\<lbrakk>merged i is_and is_l2 fs m; \<forall>(r, boost) \<in> set fs'. in_range i r \<and> proper (block_rows i r)\<rbrakk> \<Longrightarrow>
    \<exists>m'. merge_fields i v is_and is_l2 fs' m = Some m' \<and> merged i is_and is_l2 (fs @ fs') m'"
proof (induction fs' arbitrary: fs m v)
  case (Cons f fs')
  obtain r boost where f: "f = (r, boost)" by (cases f)
  obtain m1 where m1: "VS_logic_op i v is_and boost is_l2 r m = Some m1" "merged i is_and is_l2 (fs @ [f]) m1"
    using merged_step [OF Cons.prems(1), of r v boost] Cons.prems(2) by (auto simp: f)
  then show ?case using Cons.IH [OF m1(2), of "v + 1"] Cons.prems(2) by (auto simp: f)
qed auto

subsection \<open>The keys and the places of the rows\<close>

definition merge_wf :: "(('f, 's) vresult \<times> 'f) list \<Rightarrow> 'f merge \<Rightarrow> bool" where
  "merge_wf rs m \<longleftrightarrow> distinct (map fst (mg_scores m)) \<and> distinct (map fst (mg_count m)) \<and>
     (\<forall>d. \<forall>(v, p) \<in> set (found_idx m d). v < length rs \<and> p < length (vs_rows (fst (rs ! v))))"

lemma set_update_alist: "set (AList.update k v al) \<subseteq> insert (k, v) (set al)"
  by (induction al) auto

lemma merge_row_wf:
  assumes m: "merge_wf rs m" and p: "v < length rs" "p < length (vs_rows (fst (rs ! v)))"
  shows "merge_wf rs (merge_row is_and v boost mx (p, r) m)"
proof (cases "vr_docid r = -1")
  case True
  then show ?thesis using m by (simp add: merge_row_def)
next
  case False
  let ?d = "vr_docid r" and ?m = "merge_row is_and v boost mx (p, r) m"
  obtain l where l: "mg_idx ?m = AList.update ?d l (mg_idx m)" "set l \<subseteq> insert (v, p) (set (found_idx m ?d))"
    using False set_update_alist [of v p "found_idx m ?d"]
    by (cases "map_of (mg_scores m) ?d") (auto simp: merge_row_def Let_def)
  have f: "found_idx ?m d = (if d = ?d then l else found_idx m d)" for d
    by (simp add: found_idx_def l(1) update_conv')
  have keys: "distinct (map fst (mg_scores ?m))" "distinct (map fst (mg_count ?m))"
    using m False by (auto simp: merge_wf_def merge_row_def Let_def distinct_update split: option.splits prod.splits)
  have "\<forall>(v, p) \<in> set (found_idx m d). v < length rs \<and> p < length (vs_rows (fst (rs ! v)))" for d using m by (auto simp: merge_wf_def)
  then have "\<forall>(v, p) \<in> set (found_idx ?m d). v < length rs \<and> p < length (vs_rows (fst (rs ! v)))" for d
    using l(2) p unfolding f by (cases "d = ?d") auto
  then show ?thesis using keys unfolding merge_wf_def by blast
qed

lemma merge_rows_wf:
  "\<lbrakk>merge_wf rs m; v < length rs; \<forall>(p, r) \<in> set prs. p < length (vs_rows (fst (rs ! v)))\<rbrakk> \<Longrightarrow>
    merge_wf rs (fold (merge_row is_and v boost mx) prs m)"
proof (induction prs arbitrary: m)
  case (Cons pr prs)
  obtain p r where pr: "pr = (p, r)" by (cases pr)
  have "merge_wf rs (merge_row is_and v boost mx pr m)" using Cons.prems unfolding pr by (intro merge_row_wf) auto
  then show ?case using Cons by simp
qed simp

lemma logic_op_wf:
  assumes m: "merge_wf rs m" and v: "v < length rs" "rs ! v = (r, boost)" and o: "VS_logic_op i v is_and boost is_l2 r m = Some m'"
  shows "merge_wf rs m'"
proof -
  let ?base = "i * vs_topn r"
  obtain lm rows where s: "mem_slice (vs_rows r) ?base (vs_topn r) = Some rows"
    "m' = fold (merge_row is_and v boost (worst is_and is_l2 boost lm)) (zip [?base..<?base + vs_topn r] rows)
       (if \<not> is_and \<and> is_l2
        then m\<lparr>mg_scores := map (\<lambda>(d, s). (d, s + worst is_and is_l2 boost lm)) (mg_scores m), mg_accu := mg_accu m + worst is_and is_l2 boost lm\<rparr>
        else m)"
    using o unfolding VS_logic_op_def Let_def by (auto simp: bind_eq_Some_conv)
  have "?base + vs_topn r \<le> length (vs_rows r)" using s(1) by (auto simp: mem_slice_def split: if_splits)
  then have "\<forall>(p, w) \<in> set (zip [?base..<?base + vs_topn r] rows). p < length (vs_rows (fst (rs ! v)))"
    using v(2) by (auto dest!: set_zip_leftD)
  moreover have "merge_wf rs (m\<lparr>mg_scores := map (\<lambda>(d, s). (d, s + x)) (mg_scores m), mg_accu := y\<rparr>)" for x y
    using m by (simp add: merge_wf_def found_idx_def comp_def case_prod_unfold)
  ultimately show ?thesis unfolding s(2) using m v(1) by (intro merge_rows_wf) auto
qed

lemma merge_fields_wf:
  "\<lbrakk>merge_fields i v is_and is_l2 fs m = Some m'; merge_wf rs m; v + length fs = length rs; drop v rs = fs\<rbrakk> \<Longrightarrow> merge_wf rs m'"
proof (induction i v is_and is_l2 fs m rule: merge_fields.induct)
  case (2 i v is_and is_l2 r boost fs m)
  obtain m1 where m1: "VS_logic_op i v is_and boost is_l2 r m = Some m1" "merge_fields i (v + 1) is_and is_l2 fs m1 = Some m'"
    using 2(2) by (auto simp: bind_eq_Some_conv)
  have v: "v < length rs" "rs ! v = (r, boost)" "drop (v + 1) rs = fs"
    using 2(4,5) by (simp_all add: nth_via_drop) (metis drop_Suc list.sel(3) tl_drop)
  show ?case using 2(1) [OF m1(1,2)] logic_op_wf [OF 2(3) v(1,2) m1(1)] 2(4) v(3) m1 by simp
qed simp

end
