(* ===== verification/VecMgr.thy ===== *)
theory VecMgr
  imports RawVecSpec BitmapManager VecMerge RangeResult
begin

text \<open>
  The vector manager (\<open>vector/vector_manager.cc\<close>): the raw vectors of a table by the names of their
  fields, and their indexes by the name of field and model. An index is a parameter with the virtual
  functions of \<open>RetrievalModel\<close>; the manager keeps how many vectors it has got and which were updated.
\<close>

text \<open>The condition of a search; \<open>sc_filter\<close> are the documents that the filters leave, when there are filters.\<close>

record scond =
  sc_topn :: nat
  sc_is_l2 :: bool
  sc_and :: bool
  sc_rank :: bool
  sc_params :: "byte list"
  sc_brute :: bool
  sc_sqrt :: bool
  sc_filter :: "mrq option"

record ('i, 'f) index_ops =
  io_init :: "byte list \<Rightarrow> int \<Rightarrow> int \<times> 'i"
  io_indexing :: "'i \<Rightarrow> int \<times> 'i"
  io_add :: "nat \<Rightarrow> byte list \<Rightarrow> 'i \<Rightarrow> bool \<times> 'i"
  io_update :: "int list \<Rightarrow> byte list option list \<Rightarrow> 'i \<Rightarrow> int \<times> 'i"
  io_delete :: "int list \<Rightarrow> 'i \<Rightarrow> int \<times> 'i"
  io_dump :: "'i \<Rightarrow> int \<times> 'i"
  io_load :: "'i \<Rightarrow> int \<times> 'i"
  io_search :: "scond \<Rightarrow> nat \<Rightarrow> byte list \<Rightarrow> nat \<Rightarrow> 'f \<Rightarrow> 'f \<Rightarrow> 'i \<Rightarrow> int \<times> ('f \<times> int) list"
  io_is_l2 :: "byte list \<Rightarrow> 'i \<Rightarrow> bool"

record ('i, 'f) rmodel =
  rm_vec :: "byte list"
  rm_ops :: "('i, 'f) index_ops"
  rm_ix :: 'i
  rm_indexed :: int
  rm_updated :: "int list"

record ('i, 'f) vecmgr =
  vg_created :: bool
  vg_raw :: "(byte list \<times> rawvec) list"
  vg_index :: "(byte list \<times> ('i, 'f) rmodel) list"
  vg_types :: "byte list list"

definition VG_new :: "('i, 'f) vecmgr" where
  "VG_new = \<lparr>vg_created = False, vg_raw = [], vg_index = [], vg_types = []\<rparr>"

definition IndexName :: "byte list \<Rightarrow> byte list \<Rightarrow> byte list" where
  "IndexName field_name retrieval_type = field_name @ [95] @ retrieval_type"

subsection \<open>Creating the vectors and indexes of a table\<close>

record vector_info =
  vi_name :: "byte list"
  vi_dim :: nat
  vi_store :: "byte list"
  vi_param :: "byte list"
  vi_has_source :: bool
  vi_is_index :: bool

record table_vectors =
  tv_infos :: "vector_info list"
  tv_type :: "byte list"
  tv_param :: "byte list"
  tv_types :: "byte list list"
  tv_params :: "byte list list"
  tv_indexing_size :: int

definition lower :: "byte \<Rightarrow> byte" where
  "lower b = (if 65 \<le> b \<and> b \<le> 90 then b + 32 else b)"

definition same_text :: "byte list \<Rightarrow> byte list \<Rightarrow> bool" where
  "same_text s t \<longleftrightarrow> map lower s = map lower t"

definition BINARYIVF :: "byte list" where "BINARYIVF = [66, 73, 78, 65, 82, 89, 73, 86, 70]"
definition MemoryOnly :: "byte list" where "MemoryOnly = [77, 101, 109, 111, 114, 121, 79, 110, 108, 121]"
definition Mmap :: "byte list" where "Mmap = [77, 109, 97, 112]"

text \<open>The parameters: the JSON parser for store parameters (cache and segment size), the parameters that
  the meta file of an earlier process holds, the folders, and the registry of models.\<close>

record ('i, 'f) vec_env =
  ve_parse :: "byte list \<Rightarrow> (int \<times> int) option"
  ve_meta :: "byte list \<Rightarrow> (int \<times> int) option"
  ve_folder :: "byte list \<Rightarrow> folder"
  ve_models :: "byte list \<Rightarrow> ('i, 'f) index_ops option"

definition store_type :: "vector_info \<Rightarrow> bool option" where
  "store_type vi = (if vi_store vi = [] then Some False
     else if same_text MemoryOnly (vi_store vi) then Some True
     else if same_text Mmap (vi_store vi) then Some False else None)"

text \<open>The default store parameters are 1024 MB of cache and segments of 500000 vectors.\<close>

definition store_params :: "('i, 'f) vec_env \<Rightarrow> vector_info \<Rightarrow> (int \<times> int) option" where
  "store_params env vi = do {
     p \<leftarrow> (if vi_param vi = [] then Some (1024, 500000) else ve_parse env (vi_param vi));
     Some (case ve_meta env (vi_name vi) of None \<Rightarrow> p | Some q \<Rightarrow> q) }"

fun create_indexes :: "('i, 'f) vec_env \<Rightarrow> byte list \<Rightarrow> int \<Rightarrow> byte list list \<Rightarrow> byte list list \<Rightarrow> ('i, 'f) vecmgr \<Rightarrow> (int \<times> ('i, 'f) vecmgr) option" where
  "create_indexes env name sz [] params vm = Some (0, vm)"
| "create_indexes env name sz (ty # tys) params vm =
     (case ve_models env ty of
        None \<Rightarrow> Some (-1, vm)
      | Some ops \<Rightarrow> (case params of
          [] \<Rightarrow> None
        | p # ps \<Rightarrow>
            (let (e, ix) = io_init ops p sz in
             if e \<noteq> 0 then Some (-1, vm)
             else create_indexes env name sz tys ps
               (vm\<lparr>vg_index := om_put (IndexName name ty)
                  \<lparr>rm_vec = name, rm_ops = ops, rm_ix = ix, rm_indexed = 0, rm_updated = []\<rparr> (vg_index vm)\<rparr>))))"

definition create_vector :: "('i, 'f) vec_env \<Rightarrow> table_vectors \<Rightarrow> byte list list \<Rightarrow> vector_info \<Rightarrow> ('i, 'f) vecmgr \<Rightarrow> (int \<times> ('i, 'f) vecmgr) option" where
  "create_vector env tv params vi vm =
     (case store_type vi of
        None \<Rightarrow> Some (-1, vm)
      | Some mem \<Rightarrow> do {
          ty0 \<leftarrow> fetch (vg_types vm) 0;
          let binary = (ty0 = BINARYIVF);
          let dim = (if binary then vi_dim vi div 8 else vi_dim vi);
          (case store_params env vi of
             None \<Rightarrow> Some (PARAM_ERR, vm)
           | Some (cs, seg) \<Rightarrow> do {
               let multi = (1 < length (filter (\<lambda>w. vi_name w = vi_name vi) (tv_infos tv)));
               (ret, v) \<leftarrow> RV_Init (ve_folder env (vi_name vi)) (vi_has_source vi) multi (RV_new dim binary cs seg mem);
               (if ret \<noteq> 0 then Some (-1, vm)
                else let vm1 = vm\<lparr>vg_raw := om_put (vi_name vi) v (vg_raw vm)\<rparr> in
                  if vi_is_index vi then create_indexes env (vi_name vi) (tv_indexing_size tv) (vg_types vm) params vm1 else Some (0, vm1)) }) })"

fun create_vectors :: "('i, 'f) vec_env \<Rightarrow> table_vectors \<Rightarrow> byte list list \<Rightarrow> vector_info list \<Rightarrow> ('i, 'f) vecmgr \<Rightarrow> (int \<times> ('i, 'f) vecmgr) option" where
  "create_vectors env tv params [] vm = Some (0, vm)"
| "create_vectors env tv params (vi # vis) vm = do {
     (ret, vm1) \<leftarrow> create_vector env tv params vi vm;
     (if ret \<noteq> 0 then Some (ret, vm1) else create_vectors env tv params vis vm1) }"

definition VG_CreateVectorTable :: "('i, 'f) vec_env \<Rightarrow> table_vectors \<Rightarrow> ('i, 'f) vecmgr \<Rightarrow> (int \<times> ('i, 'f) vecmgr) option" where
  "VG_CreateVectorTable env tv vm =
     (if vg_created vm then Some (-1, vm)
      else let one = (tv_type tv \<noteq> []);
               types = (if one then vg_types vm @ [tv_type tv] else tv_types tv);
               params = (if one then [tv_param tv] else tv_params tv);
               vm1 = vm\<lparr>vg_types := types\<rparr>
        in if \<not> one \<and> BINARYIVF \<in> set types \<and> 1 < length types then Some (PARAM_ERR, vm1)
           else do {
             (ret, vm2) \<leftarrow> create_vectors env tv params (tv_infos tv) vm1;
             Some (ret, if ret = 0 then vm2\<lparr>vg_created := True\<rparr> else vm2) })"

subsection \<open>Documents\<close>

fun VG_AddToStore :: "int \<Rightarrow> doc_field list \<Rightarrow> ('i, 'f) vecmgr \<Rightarrow> (int \<times> ('i, 'f) vecmgr) option" where
  "VG_AddToStore docid [] vm = Some (0, vm)"
| "VG_AddToStore docid (f # fs) vm =
     (case map_of (vg_raw vm) (fd_name f) of
        None \<Rightarrow> VG_AddToStore docid fs vm
      | Some v \<Rightarrow> do {
          (ret, v') \<leftarrow> RV_Add docid f v;
          let vm1 = vm\<lparr>vg_raw := om_put (fd_name f) v' (vg_raw vm)\<rparr>;
          (if ret \<noteq> 0 then Some (ret, vm1) else VG_AddToStore docid fs vm1) })"

text \<open>The indexes of a field remember the vectors that were updated.\<close>

definition push_updated :: "byte list list \<Rightarrow> byte list \<Rightarrow> int \<Rightarrow> (byte list \<times> ('i, 'f) rmodel) list \<Rightarrow> (byte list \<times> ('i, 'f) rmodel) list" where
  "push_updated types name vid ixs =
     fold (\<lambda>ty ixs. map (\<lambda>(n, rm). if n = IndexName name ty then (n, rm\<lparr>rm_updated := rm_updated rm @ [vid]\<rparr>) else (n, rm)) ixs) types ixs"

fun VG_Update :: "int \<Rightarrow> doc_field list \<Rightarrow> ('i, 'f) vecmgr \<Rightarrow> (int \<times> ('i, 'f) vecmgr) option" where
  "VG_Update docid [] vm = Some (0, vm)"
| "VG_Update docid (f # fs) vm =
     (case map_of (vg_raw vm) (fd_name f) of
        None \<Rightarrow> VG_Update docid fs vm
      | Some v \<Rightarrow>
          (if rv_dim v \<noteq> length (fd_value f) div data_size v then Some (-1, vm)
           else do {
             (ret, v') \<leftarrow> RV_Update docid f v;
             let vm1 = vm\<lparr>vg_raw := om_put (fd_name f) v' (vg_raw vm)\<rparr>;
             (if ret \<noteq> 0 then Some (ret, vm1)
              else VG_Update docid fs (vm1\<lparr>vg_index := push_updated (vg_types vm) (fd_name f) docid (vg_index vm1)\<rparr>)) }))"

definition raw_of :: "('i, 'f) vecmgr \<Rightarrow> ('i, 'f) rmodel \<Rightarrow> rawvec option" where
  "raw_of vm rm = map_of (vg_raw vm) (rm_vec rm)"

fun delete_from :: "int \<Rightarrow> ('i, 'f) vecmgr \<Rightarrow> (byte list \<times> ('i, 'f) rmodel) list \<Rightarrow> (int \<times> (byte list \<times> ('i, 'f) rmodel) list) option" where
  "delete_from docid vm [] = Some (0, [])"
| "delete_from docid vm ((n, rm) # ixs) = do {
     v \<leftarrow> raw_of vm rm;
     vids \<leftarrow> VM_DocID2VID (rv_vids v) docid;
     let (e, ix) = io_delete (rm_ops rm) vids (rm_ix rm);
     let entry = (n, rm\<lparr>rm_ix := ix\<rparr>);
     (if e \<noteq> 0 then Some (-1, entry # ixs)
      else do { (r, rest) \<leftarrow> delete_from docid vm ixs; Some (r, entry # rest) }) }"

definition VG_Delete :: "int \<Rightarrow> ('i, 'f) vecmgr \<Rightarrow> (int \<times> ('i, 'f) vecmgr) option" where
  "VG_Delete docid vm = do { (r, ixs) \<leftarrow> delete_from docid vm (vg_index vm); Some (r, vm\<lparr>vg_index := ixs\<rparr>) }"

fun indexing_all :: "(byte list \<times> ('i, 'f) rmodel) list \<Rightarrow> int \<times> (byte list \<times> ('i, 'f) rmodel) list" where
  "indexing_all [] = (0, [])"
| "indexing_all ((n, rm) # ixs) =
     (let (e, ix) = io_indexing (rm_ops rm) (rm_ix rm); (r, rest) = indexing_all ixs
      in (if e \<noteq> 0 then -1 else r, (n, rm\<lparr>rm_ix := ix\<rparr>) # rest))"

definition VG_Indexing :: "('i, 'f) vecmgr \<Rightarrow> int \<times> ('i, 'f) vecmgr" where
  "VG_Indexing vm = (let (r, ixs) = indexing_all (vg_index vm) in (r, vm\<lparr>vg_index := ixs\<rparr>))"

subsection \<open>Giving new vectors to the indexes\<close>

text \<open>The vectors of a chunk in one piece: the only piece itself, or a new array of \<open>total\<close> bytes into which
  the pieces are copied; what is not written is garbage.\<close>

definition chunk_data :: "(nat \<Rightarrow> byte) \<Rightarrow> nat \<Rightarrow> nat \<Rightarrow> byte list list \<Rightarrow> int list \<Rightarrow> byte list option" where
  "chunk_data g bytes n vals lens =
     (if length lens = 1 then (case vals of [] \<Rightarrow> None | p # ps \<Rightarrow> mem_slice p 0 (n * bytes))
      else do {
        pieces \<leftarrow> those (map2 (\<lambda>p l. mem_slice p 0 (bytes * nat l)) vals lens);
        let data = concat pieces;
        (if length data \<le> n * bytes then Some (data @ map g [0..<n * bytes - length data]) else None) })"

text \<open>The state of the loop over an index: the vectors, the index, the result and the dirty flag.\<close>

record ('i, 'f) feed =
  fe_raw :: rawvec
  fe_model :: "('i, 'f) rmodel"
  fe_ret :: int
  fe_dirty :: bool

fun add_chunks :: "(nat \<Rightarrow> byte) \<Rightarrow> int \<Rightarrow> nat \<Rightarrow> ('i, 'f) feed \<Rightarrow> ('i, 'f) feed option" where
  "add_chunks g nvec 0 fe = Some fe"
| "add_chunks g nvec (Suc k) fe =
     (let rm = fe_model fe; start = rm_indexed rm; n = (if k = 0 then nvec - start else 1000) in
      if n = 0 then Some fe
      else do {
        (r, vals, lens, v) \<leftarrow> RV_GetVectorHeader g start n (fe_raw fe);
        data \<leftarrow> chunk_data g (data_size v * rv_dim v) (nat n) vals lens;
        let (ok, ix) = io_add (rm_ops rm) (nat n) data (rm_ix rm);
        add_chunks g nvec k
          (if ok then fe\<lparr>fe_raw := v, fe_model := rm\<lparr>rm_ix := ix, rm_indexed := start + n\<rparr>, fe_dirty := True\<rparr>
           else fe\<lparr>fe_raw := v, fe_model := rm\<lparr>rm_ix := ix\<rparr>, fe_ret := -2\<rparr>) })"

definition add_new :: "(nat \<Rightarrow> byte) \<Rightarrow> ('i, 'f) feed \<Rightarrow> ('i, 'f) feed option" where
  "add_new g fe =
     (let nvec = int (rv_size (fe_raw fe)); indexed = rm_indexed (fe_model fe) in
      if indexed > nvec then Some (fe\<lparr>fe_ret := -1\<rparr>)
      else if indexed = nvec then Some fe
      else do {
        fe1 \<leftarrow> add_chunks g nvec (nat ((nvec - indexed) div 1000 + 1)) fe;
        Some (if fe_ret fe1 = 0 then fe1\<lparr>fe_ret := nvec - indexed\<rparr> else fe1) })"

text \<open>The updated vectors to index again: deleted documents are left out; one that is not indexed yet goes
  back into the queue and ends the loop.\<close>

fun take_updated :: "bitmap_mgr \<Rightarrow> vid_mgr \<Rightarrow> int \<Rightarrow> int list \<Rightarrow> int list \<Rightarrow> (int list \<times> int list) option" where
  "take_updated bm vids indexed [] acc = Some (acc, [])"
| "take_updated bm vids indexed (vid # q) acc = do {
     docid \<leftarrow> VM_VID2DocID vids vid;
     deleted \<leftarrow> BM_Test bm (word_of_int docid);
     (if deleted then take_updated bm vids indexed q acc
      else if vid \<ge> indexed then Some (acc, q @ [vid])
      else if length acc + 1 \<ge> 20000 then Some (acc @ [vid], q)
      else take_updated bm vids indexed q (acc @ [vid])) }"

definition update_old :: "(nat \<Rightarrow> byte) \<Rightarrow> bitmap_mgr \<Rightarrow> ('i, 'f) feed \<Rightarrow> ('i, 'f) feed option" where
  "update_old g bm fe =
     (let rm = fe_model fe in do {
        (vids, q) \<leftarrow> take_updated bm (rv_vids (fe_raw fe)) (rm_indexed rm) (rm_updated rm) [];
        (if vids = [] then Some (fe\<lparr>fe_model := rm\<lparr>rm_updated := q\<rparr>\<rparr>)
         else do {
           (vecs, v) \<leftarrow> RV_Gets g vids (fe_raw fe);
           let (e, ix) = io_update (rm_ops rm) vids vecs (rm_ix rm);
           Some (fe\<lparr>fe_raw := v, fe_model := rm\<lparr>rm_ix := ix, rm_updated := q\<rparr>, fe_ret := if e \<noteq> 0 then -4 else fe_ret fe, fe_dirty := True\<rparr>) }) })"

fun feed_all :: "(nat \<Rightarrow> byte) \<Rightarrow> bitmap_mgr \<Rightarrow> byte list list \<Rightarrow> int \<Rightarrow> bool \<Rightarrow> ('i, 'f) vecmgr \<Rightarrow> (int \<times> bool \<times> ('i, 'f) vecmgr) option" where
  "feed_all g bm [] ret dirty vm = Some (ret, dirty, vm)"
| "feed_all g bm (n # ns) ret dirty vm = do {
     rm \<leftarrow> map_of (vg_index vm) n;
     v \<leftarrow> raw_of vm rm;
     fe1 \<leftarrow> add_new g \<lparr>fe_raw = v, fe_model = rm, fe_ret = ret, fe_dirty = dirty\<rparr>;
     fe \<leftarrow> update_old g bm fe1;
     feed_all g bm ns (fe_ret fe) (fe_dirty fe)
       (vm\<lparr>vg_raw := om_put (rm_vec rm) (fe_raw fe) (vg_raw vm), vg_index := om_put n (fe_model fe) (vg_index vm)\<rparr>) }"

definition VG_AddRTVecsToIndex :: "(nat \<Rightarrow> byte) \<Rightarrow> bitmap_mgr \<Rightarrow> ('i, 'f) vecmgr \<Rightarrow> (int \<times> bool \<times> ('i, 'f) vecmgr) option" where
  "VG_AddRTVecsToIndex g bm vm = feed_all g bm (map fst (vg_index vm)) 0 False vm"

subsection \<open>Reading vectors\<close>

text \<open>The bytes of one vector with its length in front; a null pointer cannot be copied.\<close>

definition doc_vector :: "(nat \<Rightarrow> byte) \<Rightarrow> int \<Rightarrow> rawvec \<Rightarrow> (byte list option \<times> rawvec) option" where
  "doc_vector g docid v = do {
     vid \<leftarrow> VM_GetFirstVID (rv_vids v) docid;
     (case RV_GetSource vid v of (ret, len) \<Rightarrow>
        if ret \<noteq> 0 \<or> len = None then Some (None, v)
        else do {
          (r, bs, v') \<leftarrow> RV_GetVector g vid v;
          let d_byte = rv_dim v * data_size v;
          feature \<leftarrow> bs;
          data \<leftarrow> mem_slice feature 0 d_byte;
          Some (Some (le32 (of_nat d_byte) @ data), v') }) }"

definition VG_GetDocVector :: "(nat \<Rightarrow> byte) \<Rightarrow> int \<Rightarrow> byte list \<Rightarrow> ('i, 'f) vecmgr \<Rightarrow> (int \<times> byte list \<times> ('i, 'f) vecmgr) option" where
  "VG_GetDocVector g docid name vm =
     (case map_of (vg_raw vm) name of
        None \<Rightarrow> Some (-1, [], vm)
      | Some v \<Rightarrow> do {
          (bs, v') \<leftarrow> doc_vector g docid v;
          Some (case bs of None \<Rightarrow> (-1, [], vm) | Some b \<Rightarrow> (0, b, vm\<lparr>vg_raw := om_put name v' (vg_raw vm)\<rparr>)) })"

text \<open>The elements as text, each followed by a comma; the last comma is dropped. The elements are read as
  floats for either type of vector. \<open>to_str\<close> is \<open>std::to_string\<close> of the float with these bytes.\<close>

definition vector_text :: "(byte list \<Rightarrow> byte list) \<Rightarrow> nat \<Rightarrow> byte list \<Rightarrow> byte list option" where
  "vector_text to_str d feature = do {
     es \<leftarrow> those (map (\<lambda>i. mem_slice feature (4 * i) 4) [0..<d]);
     let str = concat (map (\<lambda>e. to_str e @ [44]) es);
     (if str = [] then None else Some (butlast str)) }"

fun VG_GetVector :: "(byte list \<Rightarrow> byte list) \<Rightarrow> (nat \<Rightarrow> byte) \<Rightarrow> bool \<Rightarrow> (byte list \<times> int) list \<Rightarrow> ('i, 'f) vecmgr \<Rightarrow>
    (int \<times> byte list list \<times> ('i, 'f) vecmgr) option" where
  "VG_GetVector to_str g raw [] vm = Some (0, [], vm)"
| "VG_GetVector to_str g raw ((name, docid) # rest) vm =
     (case map_of (vg_raw vm) name of
        None \<Rightarrow> VG_GetVector to_str g raw rest vm
      | Some v \<Rightarrow> do {
          (bs, v') \<leftarrow> doc_vector g docid v;
          (case bs of
             None \<Rightarrow> Some (-1, [], vm)
           | Some b \<Rightarrow> do {
               out \<leftarrow> (if raw then Some b else vector_text to_str (rv_dim v) (drop 4 b));
               (r, outs, vm') \<leftarrow> VG_GetVector to_str g raw rest (vm\<lparr>vg_raw := om_put name v' (vg_raw vm)\<rparr>);
               Some (r, out # outs, vm') }) })"

subsection \<open>Dump and load\<close>

fun dump_indexes :: "(byte list \<times> ('i, 'f) rmodel) list \<Rightarrow> int \<times> (byte list \<times> ('i, 'f) rmodel) list" where
  "dump_indexes [] = (0, [])"
| "dump_indexes ((n, rm) # ixs) =
     (let (e, ix) = io_dump (rm_ops rm) (rm_ix rm) in
      if e \<noteq> 0 then (-1, (n, rm\<lparr>rm_ix := ix\<rparr>) # ixs)
      else let (r, rest) = dump_indexes ixs in (r, (n, rm\<lparr>rm_ix := ix\<rparr>) # rest))"

fun dump_raw :: "int \<Rightarrow> int \<Rightarrow> (byte list \<times> rawvec) list \<Rightarrow> (byte list \<times> rawvec) list option" where
  "dump_raw dump_docid max_docid [] = Some []"
| "dump_raw dump_docid max_docid ((n, v) # vs) = do {
     start \<leftarrow> VM_GetFirstVID (rv_vids v) dump_docid;
     end_vid \<leftarrow> VM_GetLastVID (rv_vids v) max_docid;
     v' \<leftarrow> RV_Flush v;
     rest \<leftarrow> dump_raw dump_docid max_docid vs;
     Some ((n, v') # rest) }"

definition VG_Dump :: "int \<Rightarrow> int \<Rightarrow> ('i, 'f) vecmgr \<Rightarrow> (int \<times> ('i, 'f) vecmgr) option" where
  "VG_Dump dump_docid max_docid vm =
     (let (e, ixs) = dump_indexes (vg_index vm); vm1 = vm\<lparr>vg_index := ixs\<rparr> in
      if e \<noteq> 0 then Some (-1, vm1)
      else do { raw \<leftarrow> dump_raw dump_docid max_docid (vg_raw vm1); Some (0, vm1\<lparr>vg_raw := raw\<rparr>) })"

fun load_raw :: "(nat \<Rightarrow> byte) \<Rightarrow> nat \<Rightarrow> (byte list \<times> rawvec) list \<Rightarrow> (int \<times> (byte list \<times> rawvec) list) option" where
  "load_raw g n [] = Some (0, [])"
| "load_raw g n ((name, v) # vs) = do {
     (e, v') \<leftarrow> IO_Load g n v;
     (if e \<noteq> 0 then Some (-1, (name, v') # vs)
      else do { (r, rest) \<leftarrow> load_raw g n vs; Some (r, (name, v') # rest) }) }"

fun load_indexes :: "int \<Rightarrow> (byte list \<times> ('i, 'f) rmodel) list \<Rightarrow> int \<times> (byte list \<times> ('i, 'f) rmodel) list" where
  "load_indexes n [] = (0, [])"
| "load_indexes n ((name, rm) # ixs) =
     (let (load_num, ix) = io_load (rm_ops rm) (rm_ix rm) in
      if load_num < 0 \<or> load_num > n then (-1, (name, rm\<lparr>rm_ix := ix\<rparr>) # ixs)
      else let (r, rest) = load_indexes n ixs in (r, (name, rm\<lparr>rm_ix := ix, rm_indexed := load_num\<rparr>) # rest))"

text \<open>All vectors are cut to the shortest; \<open>with_index\<close>: there is a dump of the indexes.\<close>

definition min_vec_num :: "int \<Rightarrow> ('i, 'f) vecmgr \<Rightarrow> int" where
  "min_vec_num doc_num vm = fold (\<lambda>(n, v) m. min (int (IO_GetDiskVecNum v)) m) (vg_raw vm) doc_num"

definition VG_Load :: "(nat \<Rightarrow> byte) \<Rightarrow> bool \<Rightarrow> int \<Rightarrow> ('i, 'f) vecmgr \<Rightarrow> (int \<times> int \<times> ('i, 'f) vecmgr) option" where
  "VG_Load g with_index doc_num vm =
     (let n = min_vec_num doc_num vm in do {
        (e, raw) \<leftarrow> load_raw g (nat n) (vg_raw vm);
        let vm1 = vm\<lparr>vg_raw := raw\<rparr>;
        (if e \<noteq> 0 then Some (-1, doc_num, vm1)
         else let (e', ixs) = (if with_index then load_indexes n (vg_index vm1) else (0, vg_index vm1)); vm2 = vm1\<lparr>vg_index := ixs\<rparr> in
              if e' \<noteq> 0 then Some (-1, doc_num, vm2) else Some (0, n, vm2)) })"

subsection \<open>Fields, caches and progress\<close>

definition VG_Contains :: "byte list \<Rightarrow> ('i, 'f) vecmgr \<Rightarrow> bool" where
  "VG_Contains name vm \<longleftrightarrow> map_of (vg_raw vm) name \<noteq> None"

definition vec_dimension :: "doc_field \<Rightarrow> int" where
  "vec_dimension f = (if fd_type f \<noteq> VECTOR then -1 else int (length (fd_value f) div 4))"

fun VG_CheckDocVecFields :: "doc_field list \<Rightarrow> ('i, 'f) vecmgr \<Rightarrow> bool" where
  "VG_CheckDocVecFields [] vm = True"
| "VG_CheckDocVecFields (f # fs) vm =
     (case map_of (vg_raw vm) (fd_name f) of
        None \<Rightarrow> False
      | Some v \<Rightarrow> if int (rv_dim v) \<noteq> vec_dimension f then False else VG_CheckDocVecFields fs vm)"

definition VG_MinIndexedNum :: "('i, 'f) vecmgr \<Rightarrow> int" where
  "VG_MinIndexedNum vm = fold (\<lambda>(n, rm) m. if rm_indexed rm < m \<or> m = 0 then rm_indexed rm else m) (vg_index vm) 0"

definition VG_AlterCacheSize :: "byte list \<Rightarrow> int \<Rightarrow> ('i, 'f) vecmgr \<Rightarrow> (int \<times> ('i, 'f) vecmgr) option" where
  "VG_AlterCacheSize name cache_size vm =
     (case map_of (vg_raw vm) name of
        None \<Rightarrow> Some (0, vm)
      | Some v \<Rightarrow> do { (r, v') \<leftarrow> RV_AlterCacheSize cache_size v; Some (0, vm\<lparr>vg_raw := om_put name v' (vg_raw vm)\<rparr>) })"

fun cache_sizes :: "(byte list \<times> rawvec) list \<Rightarrow> (byte list \<times> int) list option" where
  "cache_sizes [] = Some []"
| "cache_sizes ((n, v) # vs) = do {
     (r, c) \<leftarrow> RV_GetCacheSize v;
     rest \<leftarrow> cache_sizes vs;
     Some (if r \<noteq> 0 then rest else case c of None \<Rightarrow> (n, 0) # rest | Some c \<Rightarrow> (n, c) # rest) }"

definition VG_GetAllCacheSize :: "('i, 'f) vecmgr \<Rightarrow> (byte list \<times> int) list option" where
  "VG_GetAllCacheSize vm = cache_sizes (vg_raw vm)"

definition VG_GetAllFields :: "('i, 'f) vecmgr \<Rightarrow> (byte list \<times> nat) list" where
  "VG_GetAllFields vm = map (\<lambda>(n, v). (n, rv_dim v)) (vg_raw vm)"

end
