(* ===== verification/VecSearch.thy ===== *)
theory VecSearch
  imports VecMgr
begin

text \<open>
  \<open>VectorManager::Search\<close>: every vector field of a request is searched in its index, the ids of vectors become
  ids of documents, and the results of several fields are merged. The parameters \<open>order\<close> and \<open>srt\<close> stand for
  the iteration order of \<open>std::unordered_map\<close> and for \<open>std::sort\<close>.
\<close>

subsection \<open>From vectors to documents\<close>

definition int_of :: "int \<Rightarrow> int" where
  "int_of x = signed_take_bit 31 x"

definition source_len :: "rawvec \<Rightarrow> int \<Rightarrow> nat" where
  "source_len v vid = (case RV_GetSource vid v of (ret, len) \<Rightarrow> if ret \<noteq> 0 then 0 else case len of None \<Rightarrow> 0 | Some l \<Rightarrow> l)"

text \<open>The rows of a query from place \<open>j\<close> on: the first row of each document moves to place \<open>pos\<close>.\<close>

fun parse_loop :: "rawvec \<Rightarrow> bool \<Rightarrow> nat \<Rightarrow> nat list \<Rightarrow> nat \<Rightarrow> int list \<Rightarrow> ('f :: ord, nat) vrow list \<times> 'f \<Rightarrow>
    (nat \<times> ('f, nat) vrow list \<times> 'f) option" where
  "parse_loop v is_l2 base [] pos seen (rows, lim) = Some (pos, rows, lim)"
| "parse_loop v is_l2 base (j # js) pos seen (rows, lim) = do {
     r \<leftarrow> fetch rows (int (base + j));
     (if vr_docid r = -1 then parse_loop v is_l2 base js pos seen (rows, lim)
      else do {
        let vid = int_of (vr_docid r);
        d \<leftarrow> VM_VID2DocID (rv_vids v) vid;
        (if d \<in> set seen then parse_loop v is_l2 base js pos seen (rows, lim)
         else do {
           rows' \<leftarrow> store rows (int (base + pos)) \<lparr>vr_docid = d, vr_dist = vr_dist r, vr_src = Some (source_len v vid)\<rparr>;
           parse_loop v is_l2 base js (pos + 1) (d # seen)
             (rows', if is_l2 \<and> lim < vr_dist r then vr_dist r else lim) }) }) }"

definition blank :: "('f :: {one, uminus}, nat) vrow \<Rightarrow> ('f, nat) vrow" where
  "blank r = r\<lparr>vr_docid := -1, vr_dist := - 1\<rparr>"

fun pad_rows :: "nat list \<Rightarrow> ('f :: {one, uminus}, nat) vrow list \<Rightarrow> ('f, nat) vrow list option" where
  "pad_rows [] rows = Some rows"
| "pad_rows (p # ps) rows = do { r \<leftarrow> fetch rows (int p); rows' \<leftarrow> store rows (int p) (blank r); pad_rows ps rows' }"

definition parse_query :: "rawvec \<Rightarrow> bool \<Rightarrow> nat \<Rightarrow> ('f :: {ord, one, uminus}, nat) vresult \<Rightarrow> ('f, nat) vresult option" where
  "parse_query v is_l2 i r = (let k = vs_topn r; base = i * k in do {
     lim \<leftarrow> fetch (vs_limit r) (int i);
     (pos, rows, lim') \<leftarrow> parse_loop v is_l2 base [0..<k] 0 [] (vs_rows r, lim);
     rows' \<leftarrow> pad_rows (map ((+) base) [pos..<k]) rows;
     Some (r\<lparr>vs_rows := rows', vs_limit := (vs_limit r)[i := lim'], vs_idx := (if pos > 0 then (vs_idx r)[i := 0] else vs_idx r)\<rparr>) })"

fun parse_queries :: "rawvec \<Rightarrow> bool \<Rightarrow> nat list \<Rightarrow> ('f :: {ord, one, uminus}, nat) vresult \<Rightarrow> ('f, nat) vresult option" where
  "parse_queries v is_l2 [] r = Some r"
| "parse_queries v is_l2 (i # is) r = do { r' \<leftarrow> parse_query v is_l2 i r; parse_queries v is_l2 is r' }"

definition parse_index_search_result :: "rawvec \<Rightarrow> bool \<Rightarrow> ('f :: {ord, one, uminus}, nat) vresult \<Rightarrow> ('f, nat) vresult option" where
  "parse_index_search_result v is_l2 r = parse_queries v is_l2 [0..<vs_n r] r"

subsection \<open>Searching the fields\<close>

record 'f vquery =
  vq_name :: "byte list"
  vq_value :: "byte list"
  vq_min :: 'f
  vq_max :: 'f
  vq_boost :: 'f
  vq_has_boost :: bool
  vq_type :: "byte list"

definition query_index :: "('i, 'f) vecmgr \<Rightarrow> 'f vquery \<Rightarrow> byte list option" where
  "query_index vm q = do {
     ty0 \<leftarrow> fetch (vg_types vm) 0;
     Some (IndexName (vq_name q) (if 1 < length (vg_types vm) \<and> vq_type q \<noteq> [] then vq_type q else ty0)) }"

text \<open>One field: the number of queries in the batch, the rows and whether the index uses L2, or an error.
  The arrays of the result are filled by the index.\<close>

definition search_field :: "('i, 'f) vecmgr \<Rightarrow> scond \<Rightarrow> bool \<Rightarrow> 'f vquery \<Rightarrow>
    (int + nat \<times> ('f :: {zero, ord, one, uminus}, nat) vresult \<times> bool) option" where
  "search_field vm c is_l2 q = do {
     name \<leftarrow> query_index vm q;
     (case map_of (vg_index vm) name of
        None \<Rightarrow> Some (Inl (-1))
      | Some rm \<Rightarrow> do {
          v \<leftarrow> raw_of vm rm;
          let bytes = data_size v * rv_dim v;
          (if bytes = 0 then None
           else let n = length (vq_value q) div bytes in
             if n = 0 then Some (Inl (-1))
             else let (ret, found) = io_search (rm_ops rm) c n (vq_value q) (sc_topn c) (vq_min q) (vq_max q) (rm_ix rm);
                      r = VS_init n (sc_topn c)
               in if ret \<noteq> 0 then Some (Inl (-3))
                  else do {
                    r' \<leftarrow> parse_index_search_result v is_l2 (r\<lparr>vs_rows := map (\<lambda>(dist, vid). \<lparr>vr_docid = vid, vr_dist = dist, vr_src = None\<rparr>) found\<rparr>);
                    Some (Inr (n, r', io_is_l2 (rm_ops rm) (sc_params c) (rm_ix rm))) }) }) }"

text \<open>The metric of the request is overwritten with that of each index, but \<open>is_l2\<close> keeps the first one.\<close>

fun search_fields :: "('i, 'f) vecmgr \<Rightarrow> scond \<Rightarrow> bool \<Rightarrow> 'f vquery list \<Rightarrow> nat \<Rightarrow> bool \<Rightarrow>
    (int + nat \<times> bool \<times> ('f :: {zero, ord, one, uminus}, nat) vresult list) option" where
  "search_fields vm c is_l2 [] n metric = Some (Inr (n, metric, []))"
| "search_fields vm c is_l2 (q # qs) n metric = do {
     x \<leftarrow> search_field vm c is_l2 q;
     (case x of
        Inl e \<Rightarrow> Some (Inl e)
      | Inr (n', r, metric') \<Rightarrow> do {
          y \<leftarrow> search_fields vm c is_l2 qs n' metric';
          Some (case y of Inl e \<Rightarrow> Inl e | Inr (m, l2, rs) \<Rightarrow> Inr (m, l2, r # rs)) }) }"

subsection \<open>Results\<close>

record 'f gdoc =
  gd_docid :: int
  gd_score :: 'f
  gd_fields :: "('f \<times> nat) list"

record 'f gresult =
  gr_total :: int
  gr_docs :: "'f gdoc list"

definition boost_of :: "'f vquery \<Rightarrow> ('f :: one)" where
  "boost_of q = (if vq_has_boost q then vq_boost q else 1)"

text \<open>The scores of a document in the fields that have it.\<close>

fun set_fields :: "(('f :: times, nat) vresult \<times> 'f) list \<Rightarrow> (nat \<times> nat) list \<Rightarrow> ('f \<times> nat) list \<Rightarrow> ('f \<times> nat) list option" where
  "set_fields rs [] fls = Some fls"
| "set_fields rs ((vec_no, idx) # rest) fls = do {
     (r, boost) \<leftarrow> fetch rs (int vec_no);
     row \<leftarrow> fetch (vs_rows r) (int idx);
     fls' \<leftarrow> store fls (int vec_no) (vr_dist row * boost, case vr_src row of None \<Rightarrow> 0 | Some l \<Rightarrow> l);
     set_fields rs rest fls' }"

definition field_totals :: "nat \<Rightarrow> (('f, nat) vresult \<times> 'f) list \<Rightarrow> (nat \<times> nat) list \<Rightarrow> int list option" where
  "field_totals i rs l = those (map (\<lambda>(vec_no, idx). do { (r, boost) \<leftarrow> fetch rs (int vec_no); fetch (vs_total r) (int i) }) l)"

definition merged_doc :: "(('f :: {zero, times}, nat) vresult \<times> 'f) list \<Rightarrow> 'f merge \<Rightarrow> (int \<times> 'f) list \<Rightarrow> int \<Rightarrow> 'f gdoc option" where
  "merged_doc rs m scores d = do {
     s \<leftarrow> map_of scores d;
     fls \<leftarrow> set_fields rs (found_idx m d) (replicate (length rs) (0, 0));
     Some \<lparr>gd_docid = d, gd_score = s, gd_fields = fls\<rparr> }"

definition new_total :: "bool \<Rightarrow> int list \<Rightarrow> int \<Rightarrow> int" where
  "new_total is_and ts old =
     (if is_and then fold min ts 2147483647
      else let t = fold max ts (-1) in if t > 0 then t else old)"

fun merged_docs :: "nat \<Rightarrow> bool \<Rightarrow> (('f :: {zero, times}, nat) vresult \<times> 'f) list \<Rightarrow> 'f merge \<Rightarrow> (int \<times> 'f) list \<Rightarrow> int list \<Rightarrow> 'f gresult \<Rightarrow>
    'f gresult option" where
  "merged_docs i is_and rs m scores [] res = Some res"
| "merged_docs i is_and rs m scores (d # ds) res = do {
     doc \<leftarrow> merged_doc rs m scores d;
     ts \<leftarrow> field_totals i rs (found_idx m d);
     merged_docs i is_and rs m scores ds (res\<lparr>gr_docs := gr_docs res @ [doc], gr_total := new_total is_and ts (gr_total res)\<rparr>) }"

text \<open>The documents of a query: those in all fields, or those in any field.\<close>

definition chosen :: "((int \<times> int) list \<Rightarrow> (int \<times> int) list) \<Rightarrow> bool \<Rightarrow> nat \<Rightarrow> 'f merge \<Rightarrow> int list" where
  "chosen order is_and vec_num m =
     (if is_and then map fst (filter (\<lambda>(d, c). c = int vec_num) (order (mg_count m)))
      else map fst (order (map (\<lambda>(d, s). (d, 0)) (mg_scores m))))"

definition score_cmp :: "bool \<Rightarrow> 'f gdoc \<Rightarrow> ('f :: ord) gdoc \<Rightarrow> bool" where
  "score_cmp is_l2 a b = (if is_l2 then gd_score a < gd_score b else gd_score b < gd_score a)"

definition merge_query :: "((int \<times> int) list \<Rightarrow> (int \<times> int) list) \<Rightarrow> (('f gdoc \<Rightarrow> 'f gdoc \<Rightarrow> bool) \<Rightarrow> 'f gdoc list \<Rightarrow> 'f gdoc list) \<Rightarrow>
    scond \<Rightarrow> bool \<Rightarrow> bool \<Rightarrow> (('f, nat) vresult \<times> 'f) list \<Rightarrow> nat \<Rightarrow> 'f gresult \<Rightarrow>
    ('f :: {zero, plus, minus, times, inverse, ord}) gresult option" where
  "merge_query order srt c is_l2 metric rs i res = do {
     m \<leftarrow> merge_fields i 0 (sc_and c) is_l2 rs merge_start;
     let total_boost = fold (\<lambda>(r, b) t. t + b) rs 0;
     let scores = (if is_l2 then mg_scores m else map (\<lambda>(d, s). (d, s / total_boost)) (mg_scores m));
     res1 \<leftarrow> merged_docs i (sc_and c) rs m scores (chosen order (sc_and c) (length rs) m) (res\<lparr>gr_docs := []\<rparr>);
     (if length (gr_docs res1) > (if sc_and c then sc_topn c else sc_topn c * length rs) then None
      else Some (if sc_rank c
        then res1\<lparr>gr_docs := srt (score_cmp metric) (gr_docs res1)\<rparr>
        else res1)) }"

definition single_doc :: "'f vquery \<Rightarrow> ('f :: times, nat) vrow \<Rightarrow> 'f gdoc" where
  "single_doc q row =
     (let score = (if vq_has_boost q then vr_dist row * vq_boost q else vr_dist row)
      in \<lparr>gd_docid = vr_docid row, gd_score = score, gd_fields = [(score, case vr_src row of None \<Rightarrow> 0 | Some l \<Rightarrow> l)]\<rparr>)"

definition single_query :: "'f vquery \<Rightarrow> ('f :: times, nat) vresult \<Rightarrow> nat \<Rightarrow> 'f gresult \<Rightarrow> 'f gresult option" where
  "single_query q r i res = do {
     t \<leftarrow> fetch (vs_total r) (int i);
     rows \<leftarrow> mem_slice (vs_rows r) (i * vs_topn r) (vs_topn r);
     Some (res\<lparr>gr_total := if t > 0 then t else gr_total res,
              gr_docs := map (single_doc q) (filter (\<lambda>row. vr_docid row \<noteq> -1) rows)\<rparr>) }"

text \<open>The results of the \<open>n\<close> queries go into the array of the caller.\<close>

fun each_query :: "(nat \<Rightarrow> 'f gresult \<Rightarrow> 'f gresult option) \<Rightarrow> nat list \<Rightarrow> 'f gresult list \<Rightarrow> 'f gresult list option" where
  "each_query f [] results = Some results"
| "each_query f (i # is) results = do {
     res \<leftarrow> fetch results (int i);
     res' \<leftarrow> f i res;
     results' \<leftarrow> store results (int i) res';
     each_query f is results' }"

definition VG_Search :: "((int \<times> int) list \<Rightarrow> (int \<times> int) list) \<Rightarrow> (('f gdoc \<Rightarrow> 'f gdoc \<Rightarrow> bool) \<Rightarrow> 'f gdoc list \<Rightarrow> 'f gdoc list) \<Rightarrow>
    scond \<Rightarrow> 'f vquery list \<Rightarrow> 'f gresult list \<Rightarrow> ('i, 'f) vecmgr \<Rightarrow>
    (int \<times> ('f :: {zero, one, uminus, plus, minus, times, inverse, ord}) gresult list) option" where
  "VG_Search order srt c qs results vm = do {
     x \<leftarrow> search_fields vm c (sc_is_l2 c) qs 0 (sc_is_l2 c);
     (case x of
        Inl e \<Rightarrow> Some (e, results)
      | Inr (n, metric, rs) \<Rightarrow> do {
          results' \<leftarrow> each_query
            (if 1 < length qs then merge_query order srt c (sc_is_l2 c) metric (zip rs (map boost_of qs))
             else (\<lambda>i res. case (qs, rs) of (q # _, r # _) \<Rightarrow> single_query q r i res | _ \<Rightarrow> Some res))
            [0..<n] results;
          Some (0, results') }) }"

end
