(* ===== verification/RawVecProps.thy ===== *)
theory RawVecProps
  imports RawVecSpec TableOps
begin

text \<open>
  Properties of raw vectors: every run of their operations is the run of a list, for both subclasses, and
  what happens to the files of vectors in memory at restarts.
\<close>

subsection \<open>Runs\<close>

datatype vop = VAdd int doc_field | VUpd nat doc_field | VGets "nat list" | VRange nat nat | VFlush
datatype vres = VRet int | VVecs "byte list option list" | VBytes "byte list"

fun vec_step :: "(nat \<Rightarrow> byte) \<Rightarrow> vop \<Rightarrow> rawvec \<Rightarrow> (vres \<times> rawvec) option" where
  "vec_step g (VAdd d f) v = map_option (\<lambda>(r, v'). (VRet r, v')) (RV_Add d f v)"
| "vec_step g (VUpd i f) v = map_option (\<lambda>(r, v'). (VRet r, v')) (RV_Update (int i) f v)"
| "vec_step g (VGets is) v = map_option (\<lambda>(vs, v'). (VVecs vs, v')) (RV_Gets g (map int is) v)"
| "vec_step g (VRange start n) v = (case RV_GetVectorHeader g (int start) (int n) v of
     Some (r, vals, lens, v') \<Rightarrow> if r = 0 then Some (VBytes (concat vals), v') else None | None \<Rightarrow> None)"
| "vec_step g VFlush v = map_option (Pair (VRet 0)) (RV_Flush v)"

text \<open>The list: \<open>P\<close> of its vectors can be read.\<close>

fun list_step :: "nat \<Rightarrow> (nat \<Rightarrow> bool) \<Rightarrow> vop \<Rightarrow> byte list list \<times> nat \<Rightarrow> (vres \<times> byte list list \<times> nat) option" where
  "list_step L room (VAdd d f) (vs, P) =
     (if length (fd_value f) \<noteq> L then Some (VRet (-1), vs, P)
      else if room (length vs) then Some (VRet 0, vs @ [fd_value f], P) else None)"
| "list_step L room (VUpd i f) (vs, P) =
     (if length vs \<le> i then Some (VRet (-1), vs, P)
      else if i < P \<and> length (fd_value f) = L then Some (VRet 0, vs[i := fd_value f], P) else None)"
| "list_step L room (VGets is) (vs, P) =
     (if \<forall>i \<in> set is. i < P then Some (VVecs (map (\<lambda>i. Some (vs ! i)) is), vs, P) else None)"
| "list_step L room (VRange start n) (vs, P) =
     (if start + n \<le> P then Some (VBytes (concat (take n (drop start vs))), vs, P) else None)"
| "list_step L room VFlush (vs, P) = Some (VRet 0, vs, length vs)"

context vector_store begin

lemma step_ok:
  assumes r: "repr L vs Q v" "P \<le> Q" and s: "list_step L room x (vs, P) = Some (res, vs', P')"
  shows "\<exists>v' Q'. vec_step g x v = Some (res, v') \<and> repr L vs' Q' v' \<and> P' \<le> Q'"
proof (cases x)
  case (VAdd d f)
  show ?thesis
  proof (cases "length (fd_value f) = L")
    case True
    then have "room (length vs)" "res = VRet 0" "vs' = vs @ [fd_value f]" "P' = P" using s VAdd by (auto split: if_splits)
    then show ?thesis using VAdd Add_ok [OF r(1) True, of d] r(2) by (auto intro: le_trans)
  next
    case False
    then show ?thesis using s VAdd Add_refused [OF r(1) False, of d] r by auto
  qed
next
  case (VUpd i f)
  show ?thesis
  proof (cases "length vs \<le> i")
    case True
    then show ?thesis using s VUpd Update_beyond [OF r(1) True, of f] r by auto
  next
    case False
    then have "i < Q" "length (fd_value f) = L" "res = VRet 0" "vs' = vs[i := fd_value f]" "P' = P"
      using s VUpd r(2) by (auto split: if_splits)
    then show ?thesis using VUpd Update_ok [OF r(1), of i f] r(2) by auto
  qed
next
  case (VGets "is")
  then have "\<forall>i \<in> set is. i < P" "res = VVecs (map (\<lambda>i. Some (vs ! i)) is)" "vs' = vs" "P' = P"
    using s by (auto split: if_splits)
  then show ?thesis using VGets Gets_ok [OF r(1), of "is" g] r(2) by fastforce
next
  case (VRange start n)
  then have "start + n \<le> Q" "res = VBytes (concat (take n (drop start vs)))" "vs' = vs" "P' = P"
    using s r(2) by (auto split: if_splits)
  then show ?thesis using VRange headers_ok [OF r(1), of start n g] r(2) by fastforce
next
  case VFlush
  then have "res = VRet 0" "vs' = vs" "P' = length vs" using s by auto
  then show ?thesis using VFlush flush_ok [OF r(1)] by auto
qed

lemma run_ok:
  "\<lbrakk>repr L vs Q v; P \<le> Q; run (list_step L room) ops (vs, P) = Some (rs, vs', P')\<rbrakk> \<Longrightarrow>
    \<exists>v'. run (vec_step g) ops v = Some (rs, v') \<and> rv_size v' = length vs' \<and> (\<exists>Q'. repr L vs' Q' v' \<and> P' \<le> Q')"
proof (induction ops arbitrary: v vs P Q rs)
  case Nil
  then show ?case using common [OF Nil.prems(1)] by (auto simp: rv_common_def)
next
  case (Cons x xs)
  obtain res vs1 P1 rs1 where s: "list_step L room x (vs, P) = Some (res, vs1, P1)"
    "run (list_step L room) xs (vs1, P1) = Some (rs1, vs', P')" "rs = res # rs1"
    using Cons.prems(3) by (auto simp: bind_eq_Some_conv)
  obtain v1 Q1 where v1: "vec_step g x v = Some (res, v1)" "repr L vs1 Q1 v1" "P1 \<le> Q1"
    using step_ok [OF Cons.prems(1,2) s(1)] by blast
  then show ?case using Cons.IH [OF v1(2,3) s(2)] s(3) by auto
qed

end

subsection \<open>A new store\<close>

definition vec_sizes :: "nat \<Rightarrow> nat \<Rightarrow> bool" where
  "vec_sizes L Z \<longleftrightarrow> 1 < L \<and> L \<le> 65535 \<and> 0 < Z \<and> Z * L \<le> 2147483647"

lemma vec_mgr_cfg:
  assumes "vec_sizes L Z"
  shows "sm_cfg Z L (vec_mgr L (int Z) 2000000 fo)" "few_segs 1 (vec_mgr L (int Z) 2000000 fo)"
    "unat (sm_capacity (vec_mgr L (int Z) 2000000 fo)) = 2000000"
proof -
  have a: "1 < L" "L \<le> 65535" "0 < Z" "Z * L \<le> 2147483647" using assms by (simp_all add: vec_sizes_def)
  have "65536 = 65536 div L * L + 65536 mod L" by simp
  moreover have "65536 mod L < L" using a(1) by simp
  moreover have "L \<le> 65536 div L * L" using blk_bounds [of L] a by (simp add: blk_def)
  ultimately have "32768 \<le> blk L" unfolding blk_def by linarith
  then have "Z * L \<le> 2000000 * blk L" using a(4) by linarith
  then show "sm_cfg Z L (vec_mgr L (int Z) 2000000 fo)" using a by (simp add: sm_cfg_def vec_mgr_def)
qed (simp_all add: few_segs_def vec_mgr_def)

lemma seg_layout_ok:
  assumes v: "vec_sizes L Z" and limit: "limit = 2147483647 \<or> limit = 4294967295"
  shows "seg_layout limit L (int Z) = Some (int Z, 2000000)"
proof -
  have a: "1 < L" "0 < Z" "Z * L \<le> 2147483647" using v by (simp_all add: vec_sizes_def)
  let ?m = "limit div int L"
  have zl: "int Z * int L \<le> 2147483647" using a(3) by (metis of_nat_le_iff of_nat_mult of_nat_numeral)
  have "int Z = int Z * int L div int L" using a(1) by simp
  also have "\<dots> \<le> ?m" using zl limit a(1) by (intro zdiv_mono1) auto
  finally have z: "int Z \<le> ?m" .
  have "?m \<le> limit div 2" using limit a(1) by (intro zdiv_mono2) auto
  then have "?m \<le> 2147483647" using limit by auto
  then have "sint (word_of_int ?m :: u32) = ?m" using z a(2) by (simp add: signed_of_int signed_take_bit_int_eq_self)
  then show ?thesis using a(1) z by (simp add: seg_layout_def)
qed

lemma empty_folder_mgr:
  "sm_segs (vec_mgr L z c empty_folder) = []" "sm_queue (vec_mgr L z c empty_folder) = []" "sm_size (vec_mgr L z c empty_folder) = 0"
  "sm_nfiles (vec_mgr L z c empty_folder) = 0" "\<forall>k. sf_base (sm_disk (vec_mgr L z c empty_folder) k) = []"
  by (simp_all add: vec_mgr_def empty_folder_def)

lemma new_vids: "\<not> vm_multi (fst (VM_Init (new_vid_mgr False) n b))"
  by (simp add: VM_Init_def new_vid_mgr_def)

abbreviation vec_len :: "bool \<Rightarrow> nat \<Rightarrow> nat" where
  "vec_len binary dim \<equiv> (if binary then 1 else 4) * dim"

text \<open>The vector that \<open>Init\<close> leaves, with the manager and the segments of the store.\<close>

definition opened_vec :: "nat \<Rightarrow> bool \<Rightarrow> int \<Rightarrow> nat \<Rightarrow> memsegs option \<Rightarrow> sm \<Rightarrow> rawvec" where
  "opened_vec dim binary cs Z ms m =
     \<lparr>rv_dim = dim, rv_binary = binary, rv_size = 0, rv_bytes = vec_len binary dim, rv_cache = cs, rv_seg_size = int Z,
      rv_vids = new_vid_mgr False, rv_sm = Some m, rv_mem = ms\<rparr>"

lemma opened_vec_common: "vec_sizes (vec_len binary dim) Z \<Longrightarrow> rv_common (vec_len binary dim) [] (opened_vec dim binary cs Z ms m)"
  unfolding vec_sizes_def by (auto simp: rv_common_def opened_vec_def data_size_def new_vid_mgr_def intro: gr0I)

lemma Init_disk:
  assumes v: "vec_sizes (vec_len binary dim) Z" and m: "SM_Init cs 0 (vec_mgr (vec_len binary dim) (int Z) 2000000 fo) = (0, m)"
  shows "RV_Init fo False False (RV_new dim binary cs (int Z) False) = Some (0, opened_vec dim binary cs Z None m)"
  using seg_layout_ok [OF v, of 2147483647] m
  by (simp add: RV_Init_def Mmap_InitStore_def RV_new_def data_size_def opened_vec_def VM_Init_def new_vid_mgr_def split del: if_split)

lemma Init_mem:
  assumes v: "vec_sizes (vec_len binary dim) Z" and m: "SM_Init 0 0 (vec_mgr (vec_len binary dim) (int Z) 2000000 fo) = (0, m)"
  shows "RV_Init fo False False (RV_new dim binary cs (int Z) True) =
    Some (0, opened_vec dim binary cs Z (Some \<lparr>ms_segs = [[]], ms_seg_size = int Z\<rparr>) m)"
proof -
  let ?L = "vec_len binary dim"
  have L: "0 < ?L" "0 < Z" "Z * ?L \<le> 2147483647" using v unfolding vec_sizes_def by linarith+
  have "int Z * int ?L \<le> 2147483647" "0 \<le> int Z * int ?L" using L(3) by (metis of_nat_le_iff of_nat_mult of_nat_numeral) simp
  then have "\<not> \<bar>int Z * int ?L\<bar> > 2147483647" "\<not> int Z * int ?L < 0" by linarith+
  then have "ExtendSegments ?L \<lparr>ms_segs = [], ms_seg_size = int Z\<rparr> = Some (0, \<lparr>ms_segs = [[]], ms_seg_size = int Z\<rparr>)"
    unfolding ExtendSegments_def memsegs.simps by (simp only: if_False) simp
  then show ?thesis using seg_layout_ok [OF v, of 4294967295] m
    by (simp add: RV_Init_def Mem_InitStore_def RV_new_def data_size_def opened_vec_def VM_Init_def new_vid_mgr_def split del: if_split)
qed

lemma opened_disk:
  assumes "vec_sizes (vec_len binary dim) Z" "sm_repr Z (vec_len binary dim) m [] 0" "sm_tidy 2000000 m"
  shows "mmap_repr Z 2000000 (vec_len binary dim) [] 0 (opened_vec dim binary cs Z None m)"
  using assms opened_vec_common [OF assms(1)] by (simp add: mmap_repr_def opened_vec_def split del: if_split)

lemma opened_segs: "vec_sizes L Z \<Longrightarrow> segs_repr Z L [] \<lparr>ms_segs = [[]], ms_seg_size = int Z\<rparr>"
  by (simp add: segs_repr_def vec_sizes_def)

lemma opened_mem:
  assumes "vec_sizes (vec_len binary dim) Z" "sm_repr Z (vec_len binary dim) m [] 0" "sm_tidy 2000000 m"
  shows "mem_repr Z Z 2000000 (vec_len binary dim) [] 0 (opened_vec dim binary cs Z (Some \<lparr>ms_segs = [[]], ms_seg_size = int Z\<rparr>) m)"
  unfolding mem_repr_def using assms opened_vec_common [OF assms(1)] opened_segs [OF assms(1)]
  by (intro conjI exI [of _ "\<lparr>ms_segs = [[]], ms_seg_size = int Z\<rparr>"] exI [of _ m] exI [of _ "[]"] exI [of _ 0])
    (simp_all add: opened_vec_def split del: if_split)

lemma load_segments_kept:
  "length (sm_segs (load_segments n m)) = length (sm_segs m) + n" "sm_nfiles (load_segments n m) = sm_nfiles m"
  "sm_table (load_segments n m) = sm_table m"
  by (induction n arbitrary: m) (simp_all add: Let_def split: prod.splits)

lemma init_tidy:
  assumes i: "SM_Init cs ss m = (0, m')" and m: "sm_segs m = []" "\<not> sm_table m"
  shows "sm_tidy (unat (sm_capacity m)) m'"
proof -
  have "sm_capacity m' = sm_capacity m" by (rule init_capacity [OF i])
  moreover have "\<not> sm_table m' \<and> sm_nfiles m' = length (sm_segs m')"
  proof -
    let ?m1 = "m\<lparr>sm_cache := fresh_cache cs (unat (item_block_size (word_of_int (sm_fixed m)))) (sm_capacity m),
      sm_str_cache := fresh_cache ss MAX_BLOCK_SIZE (sm_capacity m)\<rparr>"
    define x where "x = load_segments (sm_nfiles m) ?m1"
    have x: "length (sm_segs x) = sm_nfiles m" "sm_nfiles x = sm_nfiles m" "\<not> sm_table x"
      using m by (simp_all add: x_def load_segments_kept)
    have "m' = (if sm_segs x = [] then SM_Extend x else x)"
      using i m(1) by (simp add: SM_Init_def Let_def SM_Load_def x_def split: if_splits)
    then show ?thesis using x by (auto simp: SM_Extend_def Let_def split: prod.splits)
  qed
  ultimately show ?thesis by (simp add: sm_tidy_def)
qed

lemma new_manager:
  assumes v: "vec_sizes L Z" and c: "cache_sized cs (blk L)"
  shows "\<exists>m. SM_Init cs 0 (vec_mgr L (int Z) 2000000 empty_folder) = (0, m) \<and> sm_repr Z L m [] 0 \<and> sm_tidy 2000000 m"
proof -
  let ?m = "vec_mgr L (int Z) 2000000 empty_folder"
  obtain m where m: "SM_Init cs 0 ?m = (0, m)" "sm_repr Z L m [] 0"
    using SM_Init_empty [OF vec_mgr_cfg(1) [OF v] empty_folder_mgr c vec_mgr_cfg(2) [OF v]] by blast
  moreover have "sm_tidy 2000000 m" using init_tidy [OF m(1)] by (simp add: vec_mgr_def)
  ultimately show ?thesis by blast
qed

text \<open>
  C18: A raw vector of either kind behaves as a list of vectors of one length: from a new store on, for
  every sequence of additions, updates, reads, reads of ranges and turns of the writer thread that the
  list allows, all results are those of the list. Vectors of a wrong length and updates beyond the end
  are refused.
\<close>

theorem vectors_refine_list:
  assumes "vec_sizes (vec_len binary dim) Z" "mem \<or> cache_sized cs (blk (vec_len binary dim))"
    and "run (list_step (vec_len binary dim) (if mem then mem_room Z Z 2000000 else disk_room Z 2000000)) ops ([], 0) = Some (rs, vs, P)"
  shows "\<exists>v0 v. RV_Init empty_folder False False (RV_new dim binary cs (int Z) mem) = Some (0, v0) \<and>
    run (vec_step g) ops v0 = Some (rs, v) \<and> rv_size v = length vs"
proof (cases mem)
  case True
  obtain m where m: "SM_Init 0 0 (vec_mgr (vec_len binary dim) (int Z) 2000000 empty_folder) = (0, m)"
    "sm_repr Z (vec_len binary dim) m [] 0" "sm_tidy 2000000 m"
    using new_manager [OF assms(1), of 0] by (auto simp: cache_sized_def)
  show ?thesis
    using Init_mem [OF assms(1) m(1), of cs] mem.run_ok [OF opened_mem [OF assms(1) m(2,3)] order_refl, of ops rs vs P g cs] assms(3) True
    by auto
next
  case False
  obtain m where m: "SM_Init cs 0 (vec_mgr (vec_len binary dim) (int Z) 2000000 empty_folder) = (0, m)"
    "sm_repr Z (vec_len binary dim) m [] 0" "sm_tidy 2000000 m"
    using new_manager [OF assms(1)] assms(2) False by blast
  show ?thesis
    using Init_disk [OF assms(1) m(1)] disk.run_ok [OF opened_disk [OF assms(1) m(2,3)] order_refl, of ops rs vs P g cs] assms(3) False
    by auto
qed

definition demo_vec :: "byte list \<Rightarrow> doc_field" where
  "demo_vec bs = \<lparr>fd_name = [118], fd_value = bs, fd_source = [], fd_type = VECTOR, fd_mul = []\<rparr>"

abbreviation demo_vops :: "vop list" where
  "demo_vops \<equiv> [VAdd 0 (demo_vec [1, 2]), VAdd 1 (demo_vec [3]), VAdd 1 (demo_vec [3, 4]), VFlush, VUpd 0 (demo_vec [7, 8]),
     VGets [1, 0], VRange 0 2, VUpd 2 (demo_vec [7, 8])]"

theorem vectors_refine_list_witness:
  "\<exists>v0 v. RV_Init empty_folder False False (RV_new 2 True 0 4 True) = Some (0, v0) \<and>
    run (vec_step (\<lambda>i. 0)) demo_vops v0 = Some ([VRet 0, VRet (-1), VRet 0, VRet 0, VRet 0, VVecs [Some [3, 4], Some [7, 8]],
      VBytes [7, 8, 3, 4], VRet (-1)], v) \<and> rv_size v = 2"
proof -
  have "run (list_step 2 (mem_room 4 4 2000000)) demo_vops ([], 0) = Some ([VRet 0, VRet (-1), VRet 0, VRet 0, VRet 0,
      VVecs [Some [3, 4], Some [7, 8]], VBytes [7, 8, 3, 4], VRet (-1)], [[7, 8], [3, 4]], 2)"
    by (simp add: demo_vec_def mem_room_def disk_room_def)
  then show ?thesis
    using vectors_refine_list [of True 2 4 True 0 demo_vops _ _ _ "\<lambda>i. 0"] by (fastforce simp: vec_sizes_def)
qed

subsection \<open>Restarts\<close>

lemma split_one: "length p = l * L \<Longrightarrow> \<forall>x \<in> set us. length x = L \<Longrightarrow> length us = l \<Longrightarrow> concat us = p \<Longrightarrow>
    those (map (\<lambda>j. mem_slice p (j * L) L) [0..<l]) = Some us"
proof (induction us arbitrary: p l)
  case (Cons u us)
  obtain k where l: "l = Suc k" using Cons.prems(3) by auto
  have u: "length u = L" using Cons.prems(2) by simp
  have p: "p = u @ concat us" "length (concat us) = k * L" using Cons.prems l u by auto
  have "those (map (\<lambda>j. mem_slice (concat us) (j * L) L) [0..<k]) = Some us"
    using Cons.IH [OF p(2) _ _ refl] Cons.prems(2,3) l by simp
  moreover have "map (\<lambda>j. mem_slice p (j * L) L) [0..<Suc k] = Some u # map (\<lambda>j. mem_slice (concat us) (j * L) L) [0..<k]"
    unfolding map_upt_Suc by (simp add: mem_slice_def p(1) u)
  ultimately show ?case by (simp add: l)
qed simp

lemma split_pieces_ok:
  "\<lbrakk>list_all2 (\<lambda>p l. int (length p) = l * int L) vals lens; 0 < L; \<forall>x \<in> set us. length x = L; concat vals = concat us\<rbrakk> \<Longrightarrow>
    split_pieces L vals lens = Some us"
proof (induction vals lens arbitrary: us rule: list_all2_induct)
  case Nil
  then have "us = []" by (cases us) auto
  then show ?case by simp
next
  case (Cons p vals l lens)
  have "0 \<le> l * int L" using Cons.hyps(1) by (metis of_nat_0_le_iff)
  then have l0: "0 \<le> l" using Cons.prems(1) by (simp add: zero_le_mult_iff)
  have "int (length p) = int (nat l * L)" using Cons.hyps(1) l0 by simp
  then have p: "length p = nat l * L" using of_nat_eq_iff by blast
  have c: "p @ concat vals = concat us" using Cons.prems(3) by simp
  then have "nat l * L \<le> length us * L" using p length_concat_const [OF Cons.prems(2)] by (metis le_add1 length_append)
  then have le: "nat l \<le> length us" using Cons.prems(1) by simp
  have len: "\<forall>x \<in> set (take (nat l) us). length x = L" "\<forall>x \<in> set (drop (nat l) us). length x = L"
    using Cons.prems(2) by (auto dest: in_set_takeD in_set_dropD)
  have "concat us = concat (take (nat l) us) @ concat (drop (nat l) us)" by (metis append_take_drop_id concat_append)
  moreover have "length (concat (take (nat l) us)) = length p" using length_concat_const [OF len(1)] le p by simp
  ultimately have "p = concat (take (nat l) us)" "concat vals = concat (drop (nat l) us)" using c by (metis append_eq_append_conv)+
  then show ?case
    using split_one [OF p len(1)] le Cons.IH [OF Cons.prems(1) len(2)] by simp
qed

text \<open>The vectors that \<open>Load\<close> adds: each goes into the segments and into the storage manager.\<close>

lemma add_all_ok:
  "\<lbrakk>rv_mem v = Some ms; segs_repr Z L us ms; rv_sm v = Some m; sm_repr S L m items P; rv_bytes v = L; \<forall>x \<in> set bs. length x = L;
    \<forall>k < length bs. mem_room Z S cap (length items + k); length us \<le> length items; sm_tidy cap m\<rbrakk> \<Longrightarrow>
    \<exists>ms' m'. add_all bs v = Some (v\<lparr>rv_mem := Some ms', rv_sm := Some m'\<rparr>) \<and> segs_repr Z L (us @ bs) ms' \<and>
      sm_repr S L m' (items @ bs) P \<and> sm_tidy cap m'"
proof (induction bs arbitrary: v ms m us items)
  case Nil
  have "v = v\<lparr>rv_mem := Some ms, rv_sm := Some m\<rparr>" using Nil.prems(1,3) by simp
  then show ?case using Nil.prems by (metis add_all.simps(1) append_Nil2)
next
  case (Cons b bs)
  have b: "length b = L" using Cons.prems(6) by simp
  have room: "mem_room Z S cap (length items)" using Cons.prems(7) by force
  obtain m1 where m1: "SM_Add b m = (0, m1)" "sm_repr S L m1 (items @ [b]) P" "sm_tidy cap m1"
    using SM_Add_room [OF Cons.prems(4) b _ Cons.prems(9)] room by (auto simp: mem_room_def)
  have "length us < max_segments * Z" using room Cons.prems(8) by (simp add: mem_room_def)
  then obtain ms1 where ms1: "AddToMem L b ms = Some (0, ms1)" "segs_repr Z L (us @ [b]) ms1"
    using AddToMem_ok [OF Cons.prems(2) b] by blast
  define v1 where "v1 = v\<lparr>rv_sm := Some m1, rv_mem := Some ms1\<rparr>"
  have st: "RV_AddToStore b v = Some (0, v1)" using Cons.prems(1,3,5) m1(1) ms1(1) by (simp add: RV_AddToStore_def v1_def)
  have "\<forall>k < length bs. mem_room Z S cap (length (items @ [b]) + k)"
    using Cons.prems(7) by (auto dest: spec [of _ "Suc k" for k])
  moreover have "rv_mem v1 = Some ms1" "rv_sm v1 = Some m1" "rv_bytes v1 = L" using Cons.prems(5) by (simp_all add: v1_def)
  moreover have "\<forall>x \<in> set bs. length x = L" "length (us @ [b]) \<le> length (items @ [b])" using Cons.prems(6,8) by auto
  ultimately obtain ms' m' where "add_all bs v1 = Some (v1\<lparr>rv_mem := Some ms', rv_sm := Some m'\<rparr>)"
    "segs_repr Z L ((us @ [b]) @ bs) ms'" "sm_repr S L m' ((items @ [b]) @ bs) P" "sm_tidy cap m'"
    using Cons.IH [of v1 ms1 "us @ [b]" m1 "items @ [b]"] ms1(2) m1(2,3) by blast
  then show ?case using st by (auto simp: v1_def)
qed

text \<open>The files that a process leaves; the manager of the next process is made over them.\<close>

definition folder_of :: "sm \<Rightarrow> folder" where
  "folder_of m = \<lparr>fo_disk = sm_disk (restart m), fo_files = sm_files (restart m), fo_nfiles = sm_nfiles m, fo_can_open = sm_can_open m\<rparr>"

lemma restart_folder:
  assumes "sm_cfg Z L m" "sm_tidy 2000000 m"
  shows "restart m = vec_mgr L (int Z) 2000000 (folder_of m)"
proof -
  have "sm_capacity m = 2000000" using assms(2) by (intro word_unat_eq_iff [THEN iffD2]) (simp add: sm_tidy_def)
  then show ?thesis using assms by (simp add: restart_def vec_mgr_def folder_of_def sm_cfg_def sm_tidy_def)
qed

lemma reopened_manager:
  assumes r: "sm_repr Z L m vs (length vs)" and t: "sm_tidy 2000000 m" and c: "cache_sized cs (blk L)"
  shows "\<exists>m'. SM_Init cs 0 (vec_mgr L (int Z) 2000000 (folder_of m)) = (0, m') \<and> sm_repr Z L m' vs (length vs) \<and> sm_tidy 2000000 m'"
proof -
  have f: "restart m = vec_mgr L (int Z) 2000000 (folder_of m)" using r t by (intro restart_folder) (simp_all add: sm_repr_def)
  have "sm_nfiles m = length (sm_segs m)" using t by (simp add: sm_tidy_def)
  then obtain m' where m': "SM_Init cs 0 (restart m) = (0, m')" "sm_repr Z L m' vs (length vs)"
    using SM_Init_restart [OF r _ refl c, of 0] by auto
  moreover have "sm_tidy 2000000 m'" using init_tidy [OF m'(1)] t by (simp add: restart_def sm_tidy_def)
  ultimately show ?thesis by (metis f)
qed

lemma disk_restart:
  assumes r: "mmap_repr Z 2000000 (vec_len binary dim) vs (length vs) v" and s: "vec_sizes (vec_len binary dim) Z"
    and part: "length vs mod Z \<noteq> 0" and c: "cache_sized cs (blk (vec_len binary dim))"
  shows "\<exists>m v1 v2. rv_sm v = Some m \<and> RV_Init (folder_of m) False False (RV_new dim binary cs (int Z) False) = Some (0, v1) \<and>
    IO_Load g (length vs) v1 = Some (0, v2) \<and> mmap_repr Z 2000000 (vec_len binary dim) vs (length vs) v2"
proof -
  let ?L = "vec_len binary dim"
  obtain m where m: "rv_sm v = Some m" "sm_tidy 2000000 m" "sm_repr Z ?L m vs (length vs)"
    and small: "length vs < 2147483648" "\<forall>x \<in> set vs. length x = ?L"
    using r unfolding mmap_repr_def rv_common_def by blast
  obtain m' where m': "SM_Init cs 0 (vec_mgr ?L (int Z) 2000000 (folder_of m)) = (0, m')" "sm_repr Z ?L m' vs (length vs)" "sm_tidy 2000000 m'"
    using reopened_manager [OF m(3,2) c] by blast
  define v1 where "v1 = opened_vec dim binary cs Z None m'"
  have i: "RV_Init (folder_of m) False False (RV_new dim binary cs (int Z) False) = Some (0, v1)"
    unfolding v1_def by (rule Init_disk [OF s m'(1)])
  have l: "IO_Load g (length vs) v1 = Some (0, v1\<lparr>rv_size := length vs\<rparr>)"
    using SM_Truncate_same [OF m'(2) part] by (simp add: IO_Load_def v1_def opened_vec_def)
  have "rv_common ?L vs (v1\<lparr>rv_size := length vs\<rparr>)"
    using opened_vec_common [OF s, of cs None m'] small by (simp add: rv_common_def v1_def data_size_def split del: if_split)
  then have "mmap_repr Z 2000000 ?L vs (length vs) (v1\<lparr>rv_size := length vs\<rparr>)"
    using m'(2,3) by (simp add: mmap_repr_def v1_def opened_vec_def split del: if_split)
  with i l m(1) show ?thesis by blast
qed

text \<open>
  C25: Vectors on disk survive a restart: after any operations that left the queue of the writer thread
  empty, \<open>Init\<close> over the files and \<open>Load\<close> of as many vectors give a store that goes on as the same list, for
  every further sequence of operations.
\<close>

theorem disk_vectors_survive_restart:
  assumes "vec_sizes (vec_len binary dim) Z" "cache_sized cs (blk (vec_len binary dim))" "length vs mod Z \<noteq> 0"
    and "run (list_step (vec_len binary dim) (disk_room Z 2000000)) ops ([], 0) = Some (rs, vs, length vs)"
    and "run (list_step (vec_len binary dim) (disk_room Z 2000000)) ops' (vs, length vs) = Some (rs', vs', P')"
  shows "\<exists>v0 v m v1 v2 v3. RV_Init empty_folder False False (RV_new dim binary cs (int Z) False) = Some (0, v0) \<and>
    run (vec_step g) ops v0 = Some (rs, v) \<and> rv_sm v = Some m \<and>
    RV_Init (folder_of m) False False (RV_new dim binary cs (int Z) False) = Some (0, v1) \<and>
    IO_Load g (length vs) v1 = Some (0, v2) \<and> run (vec_step g) ops' v2 = Some (rs', v3) \<and> rv_size v3 = length vs'"
proof -
  let ?L = "vec_len binary dim"
  obtain m0 where m0: "SM_Init cs 0 (vec_mgr ?L (int Z) 2000000 empty_folder) = (0, m0)" "sm_repr Z ?L m0 [] 0" "sm_tidy 2000000 m0"
    using new_manager [OF assms(1,2)] by blast
  obtain v Q where v: "run (vec_step g) ops (opened_vec dim binary cs Z None m0) = Some (rs, v)"
    "mmap_repr Z 2000000 ?L vs Q v" "length vs \<le> Q"
    using disk.run_ok [OF opened_disk [OF assms(1) m0(2,3)] order_refl assms(4), of g cs] by blast
  have "Q = length vs" using disk.common [OF v(2)] v(3) by simp
  then obtain m v1 v2 where r: "rv_sm v = Some m"
    "RV_Init (folder_of m) False False (RV_new dim binary cs (int Z) False) = Some (0, v1)"
    "IO_Load g (length vs) v1 = Some (0, v2)" "mmap_repr Z 2000000 ?L vs (length vs) v2"
    using disk_restart [OF _ assms(1,3,2), of v g] v(2) by blast
  then show ?thesis
    using disk.run_ok [OF r(4) order_refl assms(5), of g] Init_disk [OF assms(1) m0(1)] v(1) by blast
qed

theorem disk_vectors_survive_restart_witness:
  "\<exists>v0 v m v1 v2 v3. RV_Init empty_folder False False (RV_new 2 True 0 4 False) = Some (0, v0) \<and>
    run (vec_step (\<lambda>i. 0)) [VAdd 0 (demo_vec [1, 2]), VAdd 1 (demo_vec [3, 4]), VFlush] v0 = Some ([VRet 0, VRet 0, VRet 0], v) \<and>
    rv_sm v = Some m \<and> RV_Init (folder_of m) False False (RV_new 2 True 0 4 False) = Some (0, v1) \<and>
    IO_Load (\<lambda>i. 0) 2 v1 = Some (0, v2) \<and>
    run (vec_step (\<lambda>i. 0)) [VGets [1], VAdd 2 (demo_vec [5, 6]), VFlush, VRange 1 2] v2 =
      Some ([VVecs [Some [3, 4]], VRet 0, VRet 0, VBytes [3, 4, 5, 6]], v3) \<and> rv_size v3 = 3"
proof -
  let ?vs = "[[1, 2], [3, 4]] :: byte list list"
  have a: "run (list_step (vec_len True 2) (disk_room 4 2000000)) [VAdd 0 (demo_vec [1, 2]), VAdd 1 (demo_vec [3, 4]), VFlush] ([], 0) =
      Some ([VRet 0, VRet 0, VRet 0], ?vs, length ?vs)"
    by (simp add: demo_vec_def disk_room_def)
  have b: "run (list_step (vec_len True 2) (disk_room 4 2000000)) [VGets [1], VAdd 2 (demo_vec [5, 6]), VFlush, VRange 1 2] (?vs, length ?vs) =
      Some ([VVecs [Some [3, 4]], VRet 0, VRet 0, VBytes [3, 4, 5, 6]], [[1, 2], [3, 4], [5, 6]], 3)"
    by (simp add: demo_vec_def disk_room_def)
  have "vec_sizes (vec_len True 2) 4" "cache_sized 0 (blk (vec_len True 2))" "length ?vs mod 4 \<noteq> 0"
    by (simp_all add: vec_sizes_def cache_sized_def)
  note w = disk_vectors_survive_restart [OF this a b, of "\<lambda>i. 0"]
  have "length ?vs = 2" "length [[1, 2], [3, 4], [5, 6 :: byte]] = 3" by simp_all
  then show ?thesis using w by (simp only: of_nat_numeral)
qed

text \<open>
  C29: \<open>Load\<close> of vectors kept in memory adds them to the storage manager once more. The vector that is
  added next gets the number \<open>n\<close> as its id, and can be read under it in memory; but on disk the item
  \<open>n\<close> is a copy of the first vector, so the next restart loads that instead of the new one.
\<close>

theorem memory_restart_doubles:
  assumes "mem_repr Z Z 2000000 (vec_len binary dim) vs (length vs) v" "rv_sm v = Some m" "sm_repr Z (vec_len binary dim) m vs (length vs)"
    and "vec_sizes (vec_len binary dim) Z" "vs \<noteq> []" "length bs = vec_len binary dim"
    and "length vs mod Z \<noteq> 0" "mem_room Z Z 2000000 (2 * length vs)"
  shows "\<exists>v1 v2 v3 v4 m4 m5. RV_Init (folder_of m) False False (RV_new dim binary cs (int Z) True) = Some (0, v1) \<and>
    IO_Load g (length vs) v1 = Some (0, v2) \<and> RV_AddVec docid bs v2 = Some (0, v3) \<and>
    RV_GetVector g (int (length vs)) v3 = Some (0, Some bs, v3) \<and>
    RV_Flush v3 = Some v4 \<and> rv_sm v4 = Some m4 \<and> sm_size m4 = 2 * length vs + 1 \<and>
    SM_Get g (int (length vs)) m4 = Some (0, hd vs, m5)"
proof -
  let ?L = "vec_len binary dim" and ?n = "length vs"
  have small: "?n < 2147483648" "\<forall>x \<in> set vs. length x = ?L" using assms(1) unfolding mem_repr_def rv_common_def by auto
  have tm: "sm_tidy 2000000 m" using assms(1,2) by (auto simp: mem_repr_def)
  obtain m' where m': "SM_Init 0 0 (vec_mgr ?L (int Z) 2000000 (folder_of m)) = (0, m')" "sm_repr Z ?L m' vs ?n" "sm_tidy 2000000 m'"
    using reopened_manager [OF assms(3) tm, of 0] by (auto simp: cache_sized_def)
  define v1 where "v1 = opened_vec dim binary cs Z (Some \<lparr>ms_segs = [[]], ms_seg_size = int Z\<rparr>) m'"
  have i: "RV_Init (folder_of m) False False (RV_new dim binary cs (int Z) True) = Some (0, v1)"
    unfolding v1_def by (rule Init_mem [OF assms(4) m'(1)])
  have L: "0 < ?L" using assms(4) unfolding vec_sizes_def by linarith
  obtain vals lens m1 where h: "SM_GetHeaders g 0 (int ?n) m' = Some (0, vals, lens, m1)"
    "concat vals = concat vs" "list_all2 (\<lambda>p l. int (length p) = l * int ?L) vals lens" "sm_repr Z ?L m1 vs ?n"
    "sm_tidy 2000000 m1"
  proof -
    obtain vals lens m1 where h: "get_headers g 0 (int ?n) m' = Some (0, vals, lens, m1)"
      "concat vals = concat (map ((!) vs) [0..<?n])" "list_all2 (\<lambda>p l. int (length p) = l * int ?L) vals lens" "sm_repr Z ?L m1 vs ?n"
      using get_headers_spec [OF m'(2), of 0 ?n g] by auto
    have "sm_size m' = ?n" using m'(2) by (simp add: sm_repr_def)
    then have "SM_GetHeaders g 0 (int ?n) m' = Some (0, vals, lens, m1)"
      using h(1) small(1) by (simp add: SM_GetHeaders_def)
    then show ?thesis using that h get_headers_tidy [OF h(1) m'(3)] by (simp add: map_nth)
  qed
  have sp: "split_pieces ?L vals lens = Some vs" by (rule split_pieces_ok [OF h(3) L small(2) h(2)])
  have "sm_fixed m1 = int ?L" using h(4) unfolding sm_repr_def sm_cfg_def by blast
  then have fx: "nat (sm_fixed m1) = ?L" by (metis nat_int)
  define w where "w = v1\<lparr>rv_size := ?n, rv_sm := Some m1\<rparr>"
  have "mem_room Z Z 2000000 (?n + k)" if "k \<le> ?n" for k
  proof -
    have "(?n + k) div Z \<le> 2 * ?n div Z" using that by (intro div_le_mono) simp
    then show ?thesis using assms(8) that by (simp add: mem_room_def disk_room_def)
  qed
  then have "\<forall>k < ?n. mem_room Z Z 2000000 (?n + k)" by simp
  then obtain ms2 m2 where a: "add_all vs w = Some (w\<lparr>rv_mem := Some ms2, rv_sm := Some m2\<rparr>)" "segs_repr Z ?L vs ms2"
    "sm_repr Z ?L m2 (vs @ vs) ?n" "sm_tidy 2000000 m2"
    using add_all_ok [of w "\<lparr>ms_segs = [[]], ms_seg_size = int Z\<rparr>" Z ?L "[]" m1 Z vs ?n vs 2000000] h(4,5) opened_segs [OF assms(4)] small(2)
    by (auto simp: w_def v1_def opened_vec_def split del: if_split)
  define v2 where "v2 = w\<lparr>rv_mem := Some ms2, rv_sm := Some m2\<rparr>"
  have w: "v1\<lparr>rv_sm := Some m', rv_size := ?n, rv_sm := Some m1\<rparr> = w" by (simp add: w_def)
  have v1: "rv_sm v1 = Some m'" "rv_mem v1 = Some \<lparr>ms_segs = [[]], ms_seg_size = int Z\<rparr>" by (simp_all add: v1_def opened_vec_def)
  have l: "IO_Load g ?n v1 = Some (0, v2)"
    using SM_Truncate_same [OF m'(2) assms(7)] h(1) sp fx a(1) v1 w by (simp add: IO_Load_def Let_def v2_def w_def split del: if_split)
  obtain m3 where m3: "SM_Add bs m2 = (0, m3)" "sm_repr Z ?L m3 (vs @ vs @ [bs]) ?n"
    using SM_Add_room [OF a(3) assms(6) _ a(4)] assms(8) by (auto simp: mem_room_def mult_2)
  obtain ms3 where ms3: "AddToMem ?L bs ms2 = Some (0, ms3)" "segs_repr Z ?L (vs @ [bs]) ms3"
    using AddToMem_ok [OF a(2) assms(6)] assms(8) by (auto simp: mem_room_def)
  define v3 where "v3 = v2\<lparr>rv_sm := Some m3, rv_mem := Some ms3, rv_size := ?n + 1\<rparr>"
  have v2: "rv_sm v2 = Some m2" "rv_mem v2 = Some ms2" "rv_bytes v2 = ?L" "rv_size v2 = ?n" "rv_vids v2 = new_vid_mgr False"
    by (simp_all add: v2_def w_def v1_def opened_vec_def)
  have ad: "RV_AddVec docid bs v2 = Some (0, v3)"
    using v2 m3(1) ms3(1) by (simp add: RV_AddVec_def RV_AddToStore_def VM_Add_def new_vid_mgr_def v3_def)
  have g3: "RV_GetVector g (int ?n) v3 = Some (0, Some bs, v3)"
    using mem_get_ok [OF ms3(2), of ?n] small(1) by (simp add: RV_GetVector_def v3_def)
  have q: "?n + length (sm_queue m3) = 2 * ?n + 1" using m3(2) by (simp add: sm_repr_def)
  obtain m4 where m4: "SM_Writer (length (sm_queue m3)) m3 = Some m4" "sm_repr Z ?L m4 (vs @ vs @ [bs]) (2 * ?n + 1)"
    using SM_Writer_spec [OF m3(2), of "length (sm_queue m3)"] q by auto
  obtain m5 where "SM_Get g (int ?n) m4 = Some (0, (vs @ vs @ [bs]) ! ?n, m5)" using SM_Get_spec [OF m4(2), of ?n g] by auto
  then have "SM_Get g (int ?n) m4 = Some (0, hd vs, m5)" using assms(5) by (simp add: nth_append hd_conv_nth)
  moreover have "sm_size m4 = 2 * ?n + 1" using m4(2) by (simp add: sm_repr_def)
  moreover have "RV_Flush v3 = Some (v3\<lparr>rv_sm := Some m4\<rparr>)" using m4(1) by (simp add: RV_Flush_def v3_def)
  ultimately show ?thesis using i l ad g3 by fastforce
qed

theorem memory_restart_doubles_witness:
  "\<exists>(v :: rawvec) m v1 v2 v3 v4 m4 m5. rv_size v = 1 \<and> rv_sm v = Some m \<and>
    RV_Init (folder_of m) False False (RV_new 2 True 0 4 True) = Some (0, v1) \<and> IO_Load (\<lambda>i. 0) 1 v1 = Some (0, v2) \<and>
    RV_AddVec 1 [3, 4] v2 = Some (0, v3) \<and> RV_GetVector (\<lambda>i. 0) 1 v3 = Some (0, Some [3, 4], v3) \<and>
    RV_Flush v3 = Some v4 \<and> rv_sm v4 = Some m4 \<and> sm_size m4 = 3 \<and> SM_Get (\<lambda>i. 0) 1 m4 = Some (0, [1, 2], m5)"
proof -
  let ?vs = "[[1, 2]] :: byte list list"
  have s: "vec_sizes (vec_len True 2) 4" "vec_sizes 2 4" by (simp_all add: vec_sizes_def)
  obtain m0 where m0: "SM_Init 0 0 (vec_mgr 2 (int 4) 2000000 empty_folder) = (0, m0)" "sm_repr 4 2 m0 [] 0" "sm_tidy 2000000 m0"
    using new_manager [OF s(2), of 0] by (auto simp: cache_sized_def)
  define ms where "ms = \<lparr>ms_segs = [?vs], ms_seg_size = int 4\<rparr>"
  obtain m1 where m1: "SM_Add [1, 2] m0 = (0, m1)" "sm_repr 4 2 m1 ?vs 0" "sm_tidy 2000000 m1"
    using SM_Add_room [OF m0(2) _ _ m0(3), of "[1, 2]"] by (auto simp: disk_room_def)
  have "length (sm_queue m1) = 1" using m1(2) by (simp add: sm_repr_def)
  then obtain m where m: "SM_Writer 1 m1 = Some m" "sm_repr 4 2 m ?vs 1" using SM_Writer_spec [OF m1(2), of 1] by auto
  have t: "sm_tidy 2000000 m" using tidy_kept(4) [OF m(1) m1(3)] .
  define v where "v = (opened_vec 2 True 0 4 (Some ms) m)\<lparr>rv_size := 1\<rparr>"
  have "segs_repr 4 2 ?vs ms" by (simp add: segs_repr_def ms_def)
  moreover have "rv_common 2 ?vs v" by (simp add: rv_common_def v_def opened_vec_def data_size_def new_vid_mgr_def)
  ultimately have r: "mem_repr 4 4 2000000 (vec_len True 2) ?vs (length ?vs) v"
    using m t mem_reprI [of v ms 4 2 ?vs m 2000000 4 ?vs 1] by (simp add: v_def opened_vec_def)
  have v: "rv_sm v = Some m" "rv_size v = 1" by (simp_all add: v_def opened_vec_def)
  have m': "sm_repr 4 (vec_len True 2) m ?vs (length ?vs)" using m(2) by simp
  have c: "?vs \<noteq> []" "length [3, 4 :: byte] = vec_len True 2" "length ?vs mod 4 \<noteq> 0" "mem_room 4 4 2000000 (2 * length ?vs)"
    by (simp_all add: mem_room_def disk_room_def)
  show ?thesis
    using memory_restart_doubles [OF r v(1) m' s(1) c, of 0 "\<lambda>i. 0" 1] v by (intro exI [of _ v]) simp
qed

subsection \<open>Sizes of segments\<close>

text \<open>
  C34: When a segment of the configured size would have more than \<open>INT_MAX\<close> bytes, the store on disk takes
  the largest number of vectors that fit; for the store in memory the product of the two sizes
  overflows in \<open>ExtendSegments\<close> before any such limit is applied.
\<close>

theorem large_segments:
  assumes "0 < vec_len binary dim" "vec_len binary dim \<le> 2147483647" "2147483647 < Z * int (vec_len binary dim)"
  shows "RV_Init fo False False (RV_new dim binary cs Z True) = None \<and>
    (\<exists>r v. RV_Init fo False False (RV_new dim binary cs Z False) = Some (r, v) \<and>
      rv_seg_size v * int (vec_len binary dim) \<le> 2147483647 \<and> 2147483647 < (rv_seg_size v + 1) * int (vec_len binary dim))"
proof
  let ?L = "vec_len binary dim"
  have "ExtendSegments ?L \<lparr>ms_segs = [], ms_seg_size = Z\<rparr> = None"
    unfolding ExtendSegments_def memsegs.simps using assms(3) by (simp split del: if_split)
  then show "RV_Init fo False False (RV_new dim binary cs Z True) = None"
    by (simp add: RV_Init_def Mem_InitStore_def RV_new_def data_size_def split del: if_split)
next
  let ?L = "vec_len binary dim"
  define q where "q = 2147483647 div int ?L"
  have L: "0 < int ?L" using assms(1) by linarith
  have "int ?L \<le> 2147483647" using assms(2) by linarith
  then have "0 < q" using L pos_imp_zdiv_pos_iff [of "int ?L" 2147483647] by (simp only: q_def)
  moreover have "2147483647 div int ?L \<le> 2147483647 div 1" by (rule zdiv_mono2) (use L in linarith)+
  then have "q \<le> 2147483647" by (simp only: q_def div_by_1)
  ultimately have q: "0 < q" "q \<le> 2147483647" by simp_all
  have "q * int ?L + 2147483647 mod int ?L = 2147483647" unfolding q_def by (rule div_mult_mod_eq)
  moreover have "0 \<le> 2147483647 mod int ?L" "2147483647 mod int ?L < int ?L" using L by (simp_all only: pos_mod_sign pos_mod_bound)
  ultimately have b: "q * int ?L \<le> 2147483647" "2147483647 < (q + 1) * int ?L" unfolding distrib_right mult_1 by linarith+
  have "q * int ?L < Z * int ?L" using b(1) assms(3) by linarith
  then have lt: "q < Z" using L by (simp only: mult_less_cancel_right_pos)
  have s: "sint (word_of_int q :: u32) = q" using q by (simp add: signed_of_int signed_take_bit_int_eq_self)
  have "?L \<noteq> 0" using assms(1) by linarith
  then obtain c where c: "seg_layout 2147483647 ?L Z = Some (q, c)"
    using lt q(1) s unfolding seg_layout_def Let_def q_def [symmetric] by (simp split del: if_split)
  obtain r m where m: "SM_Init cs 0 (vec_mgr ?L q c fo) = (r, m)" by fastforce
  have "\<exists>r v. RV_Init fo False False (RV_new dim binary cs Z False) = Some (r, v) \<and> rv_seg_size v = q"
    using c m by (simp add: RV_Init_def Mmap_InitStore_def RV_new_def data_size_def split del: if_split)
  then show "\<exists>r v. RV_Init fo False False (RV_new dim binary cs Z False) = Some (r, v) \<and>
      rv_seg_size v * int ?L \<le> 2147483647 \<and> 2147483647 < (rv_seg_size v + 1) * int ?L"
    using b by metis
qed

theorem large_segments_witness:
  "RV_Init empty_folder False False (RV_new 1536 False 0 500000 True) = None \<and>
    (\<exists>r v. RV_Init empty_folder False False (RV_new 1536 False 0 500000 False) = Some (r, v) \<and>
       rv_seg_size v * 6144 \<le> 2147483647 \<and> 2147483647 < (rv_seg_size v + 1) * 6144)"
  using large_segments [of False 1536 500000 empty_folder 0] by simp

end
