(* ===== verification/VecProps.thy ===== *)
theory VecProps
  imports VecSearch RawVecProps Complex_Main
begin

text \<open>
  Properties of the vector manager: results by document, merged scores, the feeding of indexes, and what
  goes wrong with documents that are refused halfway.
\<close>

subsection \<open>Sorting results\<close>

text \<open>
  C22: \<open>sort_by_docid\<close> terminates and sorts the rows of every query of a batch by document, keeping the
  rows of each query.
\<close>

theorem sort_by_docid_sorts:
  assumes "length (vs_rows r) = vs_n r * vs_topn r"
  shows "\<exists>r'. VS_sort_by_docid r = Some r' \<and> length (vs_rows r') = length (vs_rows r) \<and>
    (\<forall>i < vs_n r. docs_sorted (block_rows i r') \<and> mset (block_rows i r') = mset (block_rows i r))"
  using sort_queries_ok [of "vs_n r" "vs_topn r" "vs_rows r"] assms by (auto simp: VS_sort_by_docid_def block_rows_def)

definition demo_row :: "int \<Rightarrow> rat \<Rightarrow> (rat, nat) vrow" where
  "demo_row d x = \<lparr>vr_docid = d, vr_dist = x, vr_src = None\<rparr>"

definition demo_result :: "(rat, nat) vresult" where
  "demo_result = (VS_init 2 3)\<lparr>vs_rows := [demo_row 7 1, demo_row 2 2, demo_row 7 3, demo_row 5 1, demo_row (-1) 0, demo_row 4 1]\<rparr>"

theorem sort_by_docid_sorts_witness:
  "\<exists>r'. VS_sort_by_docid demo_result = Some r' \<and> length (vs_rows r') = 6 \<and>
    (\<forall>i < 2. docs_sorted (block_rows i r') \<and> mset (block_rows i r') = mset (block_rows i demo_result))"
proof -
  have "length (vs_rows demo_result) = 6" "vs_n demo_result = 2" "vs_topn demo_result = 3"
    by (simp_all add: demo_result_def VS_init_def)
  then show ?thesis using sort_by_docid_sorts [of demo_result] by simp
qed

subsection \<open>Documents of the rows\<close>

text \<open>The first row of each document, in order.\<close>

fun keep_first :: "rawvec \<Rightarrow> int list \<Rightarrow> ('f, nat) vrow list \<Rightarrow> ('f, nat) vrow list" where
  "keep_first v seen [] = []"
| "keep_first v seen (r # rs) =
     (let vid = int_of (vr_docid r) in
      if vr_docid r = -1 \<or> vid \<in> set seen then keep_first v seen rs
      else \<lparr>vr_docid = vid, vr_dist = vr_dist r, vr_src = Some (source_len v vid)\<rparr> # keep_first v (vid # seen) rs)"

lemma keep_first_docs:
  "distinct (map vr_docid (keep_first v seen rs)) \<and> set (map vr_docid (keep_first v seen rs)) \<inter> set seen = {} \<and>
    set (map vr_docid (keep_first v seen rs)) \<union> set seen = int_of ` (vr_docid ` set rs - {-1}) \<union> set seen"
  by (induction v seen rs rule: keep_first.induct) (auto simp: Let_def)

lemma keep_first_le: "length (keep_first v seen rs) \<le> length rs"
  by (induction v seen rs rule: keep_first.induct) (auto simp: Let_def)

text \<open>The limit of a field after these rows: with L2 their largest distance, if it exceeds the old limit.\<close>

fun largest_dist :: "bool \<Rightarrow> ('f :: ord, nat) vrow list \<Rightarrow> 'f \<Rightarrow> 'f" where
  "largest_dist l2 [] m = m"
| "largest_dist l2 (r # rs) m = largest_dist l2 rs (if l2 \<and> m < vr_dist r then vr_dist r else m)"

lemma parse_loop_ok:
  assumes single: "\<not> vm_multi (rv_vids v)"
  shows "\<lbrakk>base + j + n \<le> length rows; pos \<le> j; kp = keep_first v seen (take n (drop (base + j) rows))\<rbrakk> \<Longrightarrow>
    \<exists>rows' lm'. parse_loop v l2 base [j..<j + n] pos seen (rows, lm) = Some (pos + length kp, rows', lm') \<and>
      rows' = take (base + pos) rows @ kp @ drop (base + pos + length kp) rows \<and>
      lm' = largest_dist l2 kp lm"
proof (induction n arbitrary: j pos seen rows lm kp)
  case 0
  then show ?case by simp
next
  case (Suc n)
  let ?r = "rows ! (base + j)"
  have e: "[j..<j + Suc n] = j # [Suc j..<Suc j + n]" by (simp add: upt_conv_Cons)
  have dr: "take (Suc n) (drop (base + j) rows) = ?r # take n (drop (base + Suc j) rows)"
    using Suc.prems(1) by (simp add: Cons_nth_drop_Suc [symmetric])
  have f: "fetch rows (int base + int j) = Some ?r" using Suc.prems(1) by (simp add: fetch_def nat_add_distrib)
  let ?vid = "int_of (vr_docid ?r)"
  show ?case
  proof (cases "vr_docid ?r = -1 \<or> ?vid \<in> set seen")
    case True
    then have k: "kp = keep_first v seen (take n (drop (base + Suc j) rows))" using Suc.prems(3) by (auto simp: dr Let_def)
    have "parse_loop v l2 base [j..<j + Suc n] pos seen (rows, lm) = parse_loop v l2 base [Suc j..<Suc j + n] pos seen (rows, lm)"
      using True f single unfolding e by (auto simp: Let_def VM_VID2DocID_def)
    then show ?thesis using Suc.IH [of "Suc j" rows pos kp seen lm] Suc.prems(1,2) k by simp
  next
    case False
    let ?w = "\<lparr>vr_docid = ?vid, vr_dist = vr_dist ?r, vr_src = Some (source_len v ?vid)\<rparr>"
    let ?rows = "rows[base + pos := ?w]"
    let ?lm = "if l2 \<and> lm < vr_dist ?r then vr_dist ?r else lm"
    have st: "store rows (int base + int pos) ?w = Some ?rows" using Suc.prems(1,2) by (simp add: store_def nat_add_distrib)
    define k where "k = keep_first v (?vid # seen) (take n (drop (base + Suc j) rows))"
    have kp: "kp = ?w # k" using False Suc.prems(3) by (simp add: dr Let_def k_def)
    have "drop (base + Suc j) ?rows = drop (base + Suc j) rows" using Suc.prems(2) by simp
    then have k': "k = keep_first v (?vid # seen) (take n (drop (base + Suc j) ?rows))" by (simp add: k_def)
    have "parse_loop v l2 base [j..<j + Suc n] pos seen (rows, lm) =
        parse_loop v l2 base [Suc j..<Suc j + n] (pos + 1) (?vid # seen) (?rows, ?lm)"
      using False f st single unfolding e by (simp add: Let_def VM_VID2DocID_def)
    moreover obtain rows' lm' where "parse_loop v l2 base [Suc j..<Suc j + n] (pos + 1) (?vid # seen) (?rows, ?lm) =
        Some (pos + 1 + length k, rows', lm')" "rows' = take (base + (pos + 1)) ?rows @ k @ drop (base + (pos + 1) + length k) ?rows"
      "lm' = largest_dist l2 k ?lm"
      using Suc.IH [of "Suc j" ?rows "pos + 1" k "?vid # seen" ?lm] Suc.prems(1,2) k' by auto
    moreover have "take (base + (pos + 1)) ?rows @ k @ drop (base + (pos + 1) + length k) ?rows =
        take (base + pos) rows @ kp @ drop (base + pos + length kp) rows"
      using Suc.prems(1,2) by (simp add: kp take_Suc_conv_app_nth)
    ultimately show ?thesis by (simp add: kp)
  qed
qed

lemma pad_rows_ok:
  "\<lbrakk>base + pos + n \<le> length rows\<rbrakk> \<Longrightarrow> pad_rows (map ((+) base) [pos..<pos + n]) rows =
    Some (take (base + pos) rows @ map blank (take n (drop (base + pos) rows)) @ drop (base + pos + n) rows)"
proof (induction n arbitrary: pos rows)
  case (Suc n)
  let ?r = "rows ! (base + pos)"
  let ?rows = "rows[base + pos := blank ?r]"
  have e: "[pos..<pos + Suc n] = pos # [Suc pos..<Suc pos + n]" by (simp add: upt_conv_Cons)
  have f: "fetch rows (int base + int pos) = Some ?r" "store rows (int base + int pos) (blank ?r) = Some ?rows"
    using Suc.prems by (simp_all add: fetch_def store_def nat_add_distrib)
  have dr: "drop (base + pos) rows = ?r # drop (base + Suc pos) rows" using Suc.prems by (simp add: Cons_nth_drop_Suc [symmetric])
  have ih: "pad_rows (map ((+) base) [Suc pos..<Suc pos + n]) ?rows =
    Some (take (base + Suc pos) ?rows @ map blank (take n (drop (base + Suc pos) ?rows)) @ drop (base + Suc pos + n) ?rows)"
    using Suc.prems by (intro Suc.IH) simp
  have "take (base + Suc pos) ?rows = take (base + pos) rows @ [blank ?r]" using Suc.prems by (simp add: take_Suc_conv_app_nth)
  then show ?case using f ih unfolding e by (simp add: dr)
qed simp

lemma map_docid_blank: "map vr_docid (map blank rs) = replicate (length rs) (-1)"
  by (induction rs) (simp_all add: blank_def)

text \<open>
  C21: The vectors that an index found for a query become documents: each document keeps its first row, in
  the order of the index, and the places left over are marked with -1. The worst distance that the merging of
  fields later uses for this query is, for L2, the largest of the kept rows or the value it had. The other queries of the batch
  are not touched. Every document has one vector (\<open>vm_multi\<close> is false, as \<open>RawVector::Init\<close> demands).
\<close>

theorem rows_become_documents:
  assumes "\<not> vm_multi (rv_vids v)" "in_range i r"
  shows "\<exists>r'. parse_query v l2 i r = Some r' \<and> length (vs_rows r') = length (vs_rows r) \<and> vs_topn r' = vs_topn r \<and>
    take (length (keep_first v [] (block_rows i r))) (block_rows i r') = keep_first v [] (block_rows i r) \<and>
    map vr_docid (block_rows i r') = map vr_docid (keep_first v [] (block_rows i r)) @
      replicate (vs_topn r - length (keep_first v [] (block_rows i r))) (-1) \<and>
    proper (block_rows i r') \<and>
    vs_limit r' = (vs_limit r)[i := largest_dist l2 (keep_first v [] (block_rows i r)) (vs_limit r ! i)] \<and>
    (\<forall>k. k < i * vs_topn r \<or> i * vs_topn r + vs_topn r \<le> k \<longrightarrow> vs_rows r' ! k = vs_rows r ! k)"
proof -
  let ?b = "i * vs_topn r" and ?n = "vs_topn r"
  define kp where "kp = keep_first v [] (block_rows i r)"
  have len: "?b + ?n \<le> length (vs_rows r)" "i < length (vs_limit r)" using assms(2) by (simp_all add: in_range_def add.commute)
  have kl: "length kp \<le> ?n" using keep_first_le [of v "[]" "block_rows i r"] len by (simp add: kp_def block_rows_def)
  obtain rows1 lm where p: "parse_loop v l2 ?b [0..<?n] 0 [] (vs_rows r, vs_limit r ! i) = Some (length kp, rows1, lm)"
    "rows1 = take ?b (vs_rows r) @ kp @ drop (?b + length kp) (vs_rows r)" "lm = largest_dist l2 kp (vs_limit r ! i)"
    using parse_loop_ok [OF assms(1), of ?b 0 ?n "vs_rows r" 0 kp "[]" l2 "vs_limit r ! i"] len by (auto simp: kp_def block_rows_def)
  have l1: "length rows1 = length (vs_rows r)" using kl len by (simp add: p(2))
  let ?m = "?n - length kp"
  define bl where "bl = map blank (take ?m (drop (?b + length kp) rows1))"
  have lb: "length bl = ?m" using kl len by (simp add: bl_def l1)
  have pd: "pad_rows (map ((+) ?b) [length kp..<?n]) rows1 = Some (take (?b + length kp) rows1 @ bl @ drop (?b + ?n) rows1)"
    using pad_rows_ok [of ?b "length kp" ?m rows1] kl len l1 by (simp add: bl_def)
  define rows2 where "rows2 = take (?b + length kp) rows1 @ bl @ drop (?b + ?n) rows1"
  have t: "take (?b + length kp) rows1 = take ?b (vs_rows r) @ kp" using len by (simp add: p(2))
  have d: "drop (?b + ?n) rows1 = drop (?b + ?n) (vs_rows r)" using len kl by (simp add: p(2) add.commute)
  have r2: "rows2 = take ?b (vs_rows r) @ (kp @ bl) @ drop (?b + ?n) (vs_rows r)" by (simp add: rows2_def t d)
  have l2: "length (kp @ bl) = ?n" using kl lb by simp
  have blk: "take ?n (drop ?b rows2) = kp @ bl" using len l2 unfolding r2 by simp
  obtain idx where q: "parse_query v l2 i r = Some (r\<lparr>vs_rows := rows2, vs_limit := (vs_limit r)[i := lm], vs_idx := idx\<rparr>)"
    using p(1) pd len(2) by (simp add: parse_query_def Let_def fetch_def rows2_def)
  let ?r' = "r\<lparr>vs_rows := rows2, vs_limit := (vs_limit r)[i := lm], vs_idx := idx\<rparr>"
  have b': "block_rows i ?r' = kp @ bl" using blk by (simp add: block_rows_def)
  have ids: "map vr_docid (kp @ bl) = map vr_docid kp @ replicate ?m (-1)"
    using lb map_docid_blank [of "take ?m (drop (?b + length kp) rows1)"] unfolding bl_def by (simp only: map_append length_map)
  have "distinct (map vr_docid kp)" using keep_first_docs [of v "[]" "block_rows i r"] by (simp add: kp_def)
  then have "proper (kp @ bl)" unfolding proper_def ids by simp
  moreover have "rows2 ! k = vs_rows r ! k" if "k < ?b \<or> ?b + ?n \<le> k" for k
  proof (cases "k < ?b")
    case True
    then show ?thesis using len by (simp add: r2 nth_append)
  next
    case False
    then have k: "?b + ?n \<le> k" using that by simp
    show ?thesis
    proof (cases "k < length (vs_rows r)")
      case True
      then show ?thesis using k len l2 unfolding r2 by (simp add: nth_append)
    next
      case False
      then show ?thesis using k len l2 l1 unfolding r2 by (simp add: nth_append)
    qed
  qed
  moreover have "length rows2 = length (vs_rows r)" using len l2 unfolding r2 by simp
  ultimately show ?thesis using q b' ids p(3) unfolding kp_def [symmetric] by (intro exI [of _ ?r']) simp
qed

definition empty_vec :: rawvec where
  "empty_vec = RV_new 2 True 0 4 False"

theorem rows_become_documents_witness:
  "\<exists>r'. parse_query empty_vec True 0 demo_result = Some r' \<and> map vr_docid (block_rows 0 r') = [7, 2, -1] \<and>
    map vr_dist (take 2 (block_rows 0 r')) = [1, 2] \<and> vs_limit r' = [2, 0]"
proof -
  have "\<not> vm_multi (rv_vids empty_vec)" "in_range 0 demo_result"
    by (simp_all add: empty_vec_def RV_new_def new_vid_mgr_def in_range_def demo_result_def VS_init_def)
  note w = rows_become_documents [OF this, of True]
  have b: "block_rows 0 demo_result = [demo_row 7 1, demo_row 2 2, demo_row 7 3]"
    by (simp add: block_rows_def demo_result_def VS_init_def)
  have k: "map vr_docid (keep_first empty_vec [] (block_rows 0 demo_result)) = [7, 2]"
    "map vr_dist (keep_first empty_vec [] (block_rows 0 demo_result)) = [1, 2]"
    "length (keep_first empty_vec [] (block_rows 0 demo_result)) = 2"
    unfolding b by (simp_all add: demo_row_def int_of_def signed_take_bit_int_eq_self Let_def)
  have "vs_topn demo_result = 3" "vs_limit demo_result = [0, 0]" by (simp_all add: demo_result_def VS_init_def numeral_2_eq_2)
  moreover have "largest_dist True (keep_first empty_vec [] (block_rows 0 demo_result)) 0 = 2"
    unfolding b by (simp add: demo_row_def int_of_def signed_take_bit_int_eq_self Let_def)
  ultimately show ?thesis using w k by auto
qed

subsection \<open>Several fields\<close>

lemma set_fields_ok:
  "\<lbrakk>\<forall>(v, p) \<in> set l. v < length rs \<and> p < length (vs_rows (fst (rs ! v))); length fl = length rs\<rbrakk> \<Longrightarrow>
    \<exists>fl'. set_fields rs l fl = Some fl' \<and> length fl' = length rs"
proof (induction rs l fl rule: set_fields.induct)
  case (2 rs v p l fl)
  obtain r b where rb: "rs ! v = (r, b)" by (cases "rs ! v")
  have "fetch rs (int v) = Some (r, b)" "fetch (vs_rows r) (int p) = Some (vs_rows r ! p)" using 2(2) rb by (auto simp: fetch_def)
  moreover have "store fl (int v) x = Some (fl[v := x])" for x using 2(2,3) by (auto simp: store_def)
  ultimately show ?case using 2(1) [of "(r, b)" r b "vs_rows r ! p"] 2(2,3) by (auto simp: rb)
qed simp

lemma field_totals_ok:
  "\<lbrakk>\<forall>(v, p) \<in> set l. v < length rs; \<forall>(r, b) \<in> set rs. i < length (vs_total r)\<rbrakk> \<Longrightarrow> \<exists>ts. field_totals i rs l = Some ts"
proof (induction l)
  case Nil
  then show ?case by (simp add: field_totals_def)
next
  case (Cons x l)
  obtain v p where x: "x = (v, p)" by (cases x)
  obtain r b where rb: "rs ! v = (r, b)" by (cases "rs ! v")
  have v: "v < length rs" using Cons.prems(1) by (simp add: x)
  then have "(r, b) \<in> set rs" using rb by (metis nth_mem)
  then have "i < length (vs_total r)" using Cons.prems(2) by auto
  then show ?case using Cons v rb by (auto simp: field_totals_def x fetch_def)
qed

lemma merged_docs_ok:
  assumes wf: "merge_wf rs m" and tot: "\<forall>(r, b) \<in> set rs. i < length (vs_total r)"
  shows "\<forall>d \<in> set ds. map_of scores d \<noteq> None \<Longrightarrow>
    \<exists>res'. merged_docs i is_and rs m scores ds res = Some res' \<and> map gd_docid (gr_docs res') = map gd_docid (gr_docs res) @ ds \<and>
      (\<forall>x \<in> set (gr_docs res'). x \<in> set (gr_docs res) \<or> map_of scores (gd_docid x) = Some (gd_score x))"
proof (induction ds arbitrary: res)
  case (Cons d ds)
  obtain s where s: "map_of scores d = Some s" using Cons.prems by auto
  have ok: "\<forall>(v, p) \<in> set (found_idx m d). v < length rs \<and> p < length (vs_rows (fst (rs ! v)))" using wf by (simp add: merge_wf_def)
  obtain fl where fl: "set_fields rs (found_idx m d) (replicate (length rs) (0, 0)) = Some fl"
    using set_fields_ok [OF ok, of "replicate (length rs) (0, 0)"] by auto
  obtain ts where ts: "field_totals i rs (found_idx m d) = Some ts" using field_totals_ok [OF _ tot, of "found_idx m d"] ok by fastforce
  let ?res = "res\<lparr>gr_docs := gr_docs res @ [\<lparr>gd_docid = d, gd_score = s, gd_fields = fl\<rparr>], gr_total := new_total is_and ts (gr_total res)\<rparr>"
  obtain res' where r: "merged_docs i is_and rs m scores ds ?res = Some res'" "map gd_docid (gr_docs res') = map gd_docid (gr_docs ?res) @ ds"
    "\<forall>x \<in> set (gr_docs res'). x \<in> set (gr_docs ?res) \<or> map_of scores (gd_docid x) = Some (gd_score x)"
    using Cons.IH [of ?res] Cons.prems by auto
  then show ?case using s fl ts by (auto simp: merged_doc_def)
qed simp

lemma found_card: "finite {d. row_of rows d \<noteq> None}" "card {d. row_of rows d \<noteq> None} \<le> length rows"
proof -
  have s: "{d. row_of rows d \<noteq> None} \<subseteq> set (map vr_docid rows)"
  proof
    fix d assume "d \<in> {d. row_of rows d \<noteq> None}"
    then have "d \<noteq> -1" "row_of rows d \<noteq> None" by (auto simp: row_of_def)
    then show "d \<in> set (map vr_docid rows)" using row_of_None [of d rows] by auto
  qed
  then show "finite {d. row_of rows d \<noteq> None}" by (rule finite_subset) simp
  have "card {d. row_of rows d \<noteq> None} \<le> card (set (map vr_docid rows))" by (rule card_mono [OF _ s]) simp
  also have "\<dots> \<le> length rows" by (metis card_length length_map)
  finally show "card {d. row_of rows d \<noteq> None} \<le> length rows" .
qed

lemma found_bound:
  assumes "\<forall>(r, b) \<in> set rs. vs_topn r = k"
  shows "finite {d. list_ex (found_in i d) rs} \<and> card {d. list_ex (found_in i d) rs} \<le> k * length rs"
  using assms
proof (induction rs)
  case (Cons f rs)
  obtain r b where f: "f = (r, b)" by (cases f)
  have e: "{d. list_ex (found_in i d) (f # rs)} = {d. row_of (block_rows i r) d \<noteq> None} \<union> {d. list_ex (found_in i d) rs}"
    by (auto simp: f found_in_def)
  have "card {d. row_of (block_rows i r) d \<noteq> None} \<le> k"
    using found_card(2) [of "block_rows i r"] Cons.prems by (auto simp: f block_rows_def intro: le_trans)
  then show ?case unfolding e using Cons found_card(1) [of "block_rows i r"] card_Un_le
    by (auto intro: le_trans [OF card_Un_le])
qed simp

lemma fold_boosts: "fold (\<lambda>(r, b) t. t + b) rs x = x + (\<Sum>(r, b)\<leftarrow>rs. b :: 'f :: comm_ring)"
  by (induction rs arbitrary: x) (auto simp: add.assoc)

lemma map_of_scaled: "map_of (map (\<lambda>(d, s). (d, f s)) xs) d = map_option f (map_of xs d)"
  by (induction xs) auto

lemma all_filter: "list_all P xs \<longleftrightarrow> length (filter P xs) = length xs"
proof (induction xs)
  case (Cons x xs)
  have "length (filter P xs) \<noteq> Suc (length xs)" using length_filter_le [of P xs] by linarith
  with Cons show ?case by simp
qed simp

text \<open>
  C20: A query over several fields returns each document once: for a conjunction those that all fields
  found, otherwise those that any field found. With exact arithmetic the score is the sum of the
  weighted distances, with the weighted worst distance for a field that did not find the document
  (disjunction with L2) and divided by the sum of the weights (inner product). The results fit the
  array and, when a rank is asked for, are sorted by the score.
\<close>

theorem merged_documents:
  fixes rs :: "(('f :: linordered_field, nat) vresult \<times> 'f) list"
  assumes "rs \<noteq> []" "\<forall>(r, b) \<in> set rs. in_range i r \<and> proper (block_rows i r) \<and> vs_topn r = sc_topn c \<and> i < length (vs_total r)"
    and "\<forall>xs. mset (order xs) = mset xs"
    and "\<forall>l2 xs. mset (srt (score_cmp l2) xs) = mset xs \<and> sorted_wrt (\<lambda>a b. \<not> score_cmp l2 b a) (srt (score_cmp l2) xs)"
  shows "\<exists>res'. merge_query order srt c l2 metric rs i res = Some res' \<and> distinct (map gd_docid (gr_docs res')) \<and>
    set (map gd_docid (gr_docs res')) = {d. if sc_and c then list_all (found_in i d) rs else list_ex (found_in i d) rs} \<and>
    (\<forall>x \<in> set (gr_docs res'). gd_score x =
       sum_list (map (share i (sc_and c) l2 (gd_docid x)) rs) / (if l2 then 1 else (\<Sum>(r, b)\<leftarrow>rs. b))) \<and>
    length (gr_docs res') \<le> (if sc_and c then sc_topn c else sc_topn c * length rs) \<and>
    (sc_rank c \<longrightarrow> sorted_wrt (\<lambda>a b. \<not> score_cmp metric b a) (gr_docs res'))"
proof -
  let ?and = "sc_and c"
  obtain m where m: "merge_fields i 0 ?and l2 rs merge_start = Some m" "merged i ?and l2 rs m"
    using merge_fields_ok [OF merged_start, of rs i 0 ?and l2] assms(2) by fastforce
  have wf: "merge_wf rs m" using merge_fields_wf [OF m(1), of rs] by (simp add: merge_wf_def merge_start_def found_idx_def)
  have sc: "\<And>d. map_of (mg_scores m) d = (if list_ex (found_in i d) rs then Some (sum_list (map (share i ?and l2 d) rs)) else None)"
    and ct: "\<And>d. ?and \<Longrightarrow> map_of (mg_count m) d = (if list_ex (found_in i d) rs then Some (int (length (filter (found_in i d) rs))) else None)"
    using m(2) by (auto simp: merged_def)
  have dk: "distinct (map fst (mg_scores m))" "distinct (map fst (mg_count m))" using wf by (simp_all add: merge_wf_def)
  define ds where "ds = chosen order ?and (length rs) m"
  have os: "set (order xs) = set xs" for xs using assms(3) by (metis mset_eq_setD)
  have od: "distinct (map fst (order xs)) = distinct (map fst xs)" for xs
    using assms(3) by (metis mset_map mset_eq_imp_distinct_iff)
  have "d \<in> {d. list_all (found_in i d) rs} \<Longrightarrow> list_ex (found_in i d) rs" for d
    using assms(1) by (cases rs) auto
  then have all: "list_all (found_in i d) rs \<longleftrightarrow> list_ex (found_in i d) rs \<and> length (filter (found_in i d) rs) = length rs" for d
    using all_filter [of "found_in i d" rs] by blast
  have dsd: "distinct ds" "set ds = {d. if ?and then list_all (found_in i d) rs else list_ex (found_in i d) rs}"
  proof -
    show "distinct ds"
    proof (cases ?and)
      case True
      then show ?thesis using dk(2) od [of "mg_count m"] by (simp add: ds_def chosen_def distinct_map_filter)
    next
      case False
      have "map fst (map (\<lambda>(d, s). (d, 0 :: int)) (mg_scores m)) = map fst (mg_scores m)" by auto
      then show ?thesis using False dk(1) od [of "map (\<lambda>(d, s). (d, 0)) (mg_scores m)"] by (simp only: ds_def chosen_def if_False)
    qed
    show "set ds = {d. if ?and then list_all (found_in i d) rs else list_ex (found_in i d) rs}"
    proof (cases ?and)
      case True
      have "d \<in> set ds \<longleftrightarrow> (d, int (length rs)) \<in> set (mg_count m)" for d using True by (force simp: ds_def chosen_def os)
      also have "\<dots> d \<longleftrightarrow> map_of (mg_count m) d = Some (int (length rs))" for d using dk(2) by simp
      finally show ?thesis using True ct [OF True] all by (auto split: if_splits)
    next
      case False
      have "d \<in> set ds \<longleftrightarrow> map_of (mg_scores m) d \<noteq> None" for d
        using False by (force simp: ds_def chosen_def os map_of_eq_None_iff)
      then show ?thesis using False sc by (auto split: if_splits)
    qed
  qed
  define tb where "tb = (\<Sum>(r, b)\<leftarrow>rs. b)"
  define scores where "scores = (if l2 then mg_scores m else map (\<lambda>(d, s). (d, s / tb)) (mg_scores m))"
  have so: "map_of scores d = map_option (\<lambda>s. s / (if l2 then 1 else tb)) (map_of (mg_scores m) d)" for d
    by (simp add: scores_def map_of_scaled option.map_ident)
  have "\<forall>d \<in> set ds. map_of scores d \<noteq> None" using dsd(2) sc so all by (auto split: if_splits)
  then obtain res1 where r1: "merged_docs i ?and rs m scores ds (res\<lparr>gr_docs := []\<rparr>) = Some res1" "map gd_docid (gr_docs res1) = ds"
    "\<forall>x \<in> set (gr_docs res1). map_of scores (gd_docid x) = Some (gd_score x)"
    using merged_docs_ok [OF wf, of i ds scores ?and "res\<lparr>gr_docs := []\<rparr>"] assms(2) by fastforce
  have score: "gd_score x = sum_list (map (share i ?and l2 (gd_docid x)) rs) / (if l2 then 1 else tb)" if "x \<in> set (gr_docs res1)" for x
    using r1(3) that so [of "gd_docid x"] sc [of "gd_docid x"] by (auto split: if_splits)
  have "length ds = card (set ds)" using dsd(1) by (simp add: distinct_card)
  also have "\<dots> \<le> (if ?and then sc_topn c else sc_topn c * length rs)"
  proof (cases ?and)
    case True
    obtain r b where rb: "hd rs = (r, b)" "(r, b) \<in> set rs" using assms(1) by (metis list.set_sel(1) surj_pair)
    have "set ds \<subseteq> {d. row_of (block_rows i r) d \<noteq> None}" using True dsd(2) rb(2) by (auto simp: list_all_iff found_in_def)
    then have "card (set ds) \<le> length (block_rows i r)" using card_mono found_card by (metis le_trans)
    then show ?thesis using True assms(2) rb(2) by (force simp: block_rows_def)
  next
    case False
    then have "set ds = {d. list_ex (found_in i d) rs}" by (simp add: dsd(2))
    moreover have "card {d. list_ex (found_in i d) rs} \<le> sc_topn c * length rs"
      using assms(2) by (intro conjunct2 [OF found_bound]) auto
    ultimately show ?thesis using False by simp
  qed
  finally have bd: "length (gr_docs res1) \<le> (if ?and then sc_topn c else sc_topn c * length rs)" using r1(2) by (metis length_map)
  define res2 where "res2 = (if sc_rank c then res1\<lparr>gr_docs := srt (score_cmp metric) (gr_docs res1)\<rparr> else res1)"
  have f: "fold (\<lambda>(r, b) t. t + b) rs 0 = tb" by (simp add: fold_boosts tb_def)
  have "merge_query order srt c l2 metric rs i res = Some res2"
    using bd unfolding merge_query_def m(1) Let_def f Option.bind.simps scores_def [symmetric] ds_def [symmetric] r1(1)
    by (simp add: res2_def split del: if_split)
  moreover have ms: "mset (gr_docs res2) = mset (gr_docs res1)" using assms(4) by (simp add: res2_def)
  moreover have "mset (map gd_docid (gr_docs res2)) = mset ds" using ms r1(2) by (metis mset_map)
  then have "distinct (map gd_docid (gr_docs res2))" "set (map gd_docid (gr_docs res2)) = set ds"
    using dsd(1) mset_eq_imp_distinct_iff mset_eq_setD by blast+
  moreover have "set (gr_docs res2) = set (gr_docs res1)" "length (gr_docs res2) = length (gr_docs res1)"
    using ms mset_eq_setD mset_eq_length by blast+
  moreover have "sc_rank c \<longrightarrow> sorted_wrt (\<lambda>a b. \<not> score_cmp metric b a) (gr_docs res2)" using assms(4) by (simp add: res2_def)
  ultimately show ?thesis using score bd dsd(2) unfolding tb_def by (intro exI [of _ res2]) simp
qed

text \<open>A sorting function for the witness: insertion by a comparison.\<close>

fun ins_by :: "('a \<Rightarrow> 'a \<Rightarrow> bool) \<Rightarrow> 'a \<Rightarrow> 'a list \<Rightarrow> 'a list" where
  "ins_by lt x [] = [x]"
| "ins_by lt x (y # ys) = (if lt y x then y # ins_by lt x ys else x # y # ys)"

definition sort_by :: "('a \<Rightarrow> 'a \<Rightarrow> bool) \<Rightarrow> 'a list \<Rightarrow> 'a list" where
  "sort_by lt xs = foldr (ins_by lt) xs []"

lemma mset_ins_by: "mset (ins_by lt x xs) = add_mset x (mset xs)"
  by (induction xs) auto

lemma mset_sort_by: "mset (sort_by lt xs) = mset xs"
  by (induction xs) (simp_all add: sort_by_def mset_ins_by)

lemma set_ins_by: "set (ins_by lt x xs) = insert x (set xs)"
  by (induction xs) auto

lemma sorted_ins_by:
  "sorted_wrt (\<lambda>a b. \<not> score_cmp l2 b a) xs \<Longrightarrow>
    sorted_wrt (\<lambda>a b. \<not> score_cmp l2 b a) (ins_by (score_cmp l2) x (xs :: ('f :: linorder) gdoc list))"
  by (induction xs) (auto simp: set_ins_by score_cmp_def split: if_splits)

lemma sorted_sort_by: "sorted_wrt (\<lambda>a b. \<not> score_cmp l2 b a) (sort_by (score_cmp l2) (xs :: ('f :: linorder) gdoc list))"
  by (induction xs) (simp_all add: sort_by_def sorted_ins_by)

definition one_field :: "(rat, nat) vrow list \<Rightarrow> (rat, nat) vresult" where
  "one_field rows = (VS_init 1 2)\<lparr>vs_rows := rows\<rparr>"

theorem merged_documents_witness:
  "\<exists>res'. merge_query (\<lambda>xs. xs) sort_by \<lparr>sc_topn = 2, sc_is_l2 = False, sc_and = False, sc_rank = True, sc_params = [], sc_brute = False, sc_sqrt = False, sc_filter = None\<rparr> False False
      [(one_field [demo_row 3 1, demo_row 1 4], 1), (one_field [demo_row 1 2, demo_row 5 1], 3)] 0 \<lparr>gr_total = 0, gr_docs = []\<rparr> = Some res' \<and>
    set (map gd_docid (gr_docs res')) = {1, 3, 5} \<and> (\<forall>x \<in> set (gr_docs res'). gd_docid x = 1 \<longrightarrow> gd_score x = 5 / 2)"
proof -
  let ?rs = "[(one_field [demo_row 3 1, demo_row 1 4], 1), (one_field [demo_row 1 2, demo_row 5 1], 3)]"
  let ?c = "\<lparr>sc_topn = 2, sc_is_l2 = False, sc_and = False, sc_rank = True, sc_params = [], sc_brute = False, sc_sqrt = False, sc_filter = None\<rparr> :: scond"
  have b: "block_rows 0 (one_field [x, y]) = [x, y]" for x y by (simp add: block_rows_def one_field_def VS_init_def)
  have "?rs \<noteq> []" by simp
  moreover have "\<forall>(r, b) \<in> set ?rs. in_range 0 r \<and> proper (block_rows 0 r) \<and> vs_topn r = sc_topn ?c \<and> 0 < length (vs_total r)"
    by (simp add: b) (simp add: in_range_def one_field_def VS_init_def proper_def demo_row_def)
  moreover have "\<forall>xs :: (int \<times> int) list. mset xs = mset xs" by simp
  moreover have "\<forall>l2 (xs :: rat gdoc list). mset (sort_by (score_cmp l2) xs) = mset xs \<and>
      sorted_wrt (\<lambda>a b. \<not> score_cmp l2 b a) (sort_by (score_cmp l2) xs)" by (simp add: mset_sort_by sorted_sort_by)
  ultimately obtain res' where r: "merge_query (\<lambda>xs. xs) sort_by ?c False False ?rs 0 \<lparr>gr_total = 0, gr_docs = []\<rparr> = Some res'"
    "set (map gd_docid (gr_docs res')) = {d. if sc_and ?c then list_all (found_in 0 d) ?rs else list_ex (found_in 0 d) ?rs}"
    "\<forall>x \<in> set (gr_docs res'). gd_score x = sum_list (map (share 0 (sc_and ?c) False (gd_docid x)) ?rs) / (if False then 1 else (\<Sum>(r, b)\<leftarrow>?rs. b))"
    using merged_documents [of ?rs 0 ?c "\<lambda>xs. xs" sort_by False False "\<lparr>gr_total = 0, gr_docs = []\<rparr>"] by blast
  have "{d. list_ex (found_in 0 d) ?rs} = {1, 3, 5}" by (auto simp: found_in_def b row_of_def demo_row_def)
  moreover have "sum_list (map (share 0 False False 1) ?rs) = 10" by (simp add: share_def b row_of_def demo_row_def)
  ultimately show ?thesis using r by auto
qed

subsection \<open>Feeding the indexes\<close>

text \<open>An index that takes vectors: \<open>holds ix us\<close> says that it has got the vectors \<open>us\<close>.\<close>

definition takes_vectors :: "nat \<Rightarrow> ('i \<Rightarrow> byte list list \<Rightarrow> bool) \<Rightarrow> (nat \<Rightarrow> byte list \<Rightarrow> 'i \<Rightarrow> bool \<times> 'i) \<Rightarrow> bool" where
  "takes_vectors L holds add \<longleftrightarrow> (\<forall>ix us ws. holds ix us \<and> 0 < length ws \<and> length ws \<le> 1000 \<and> (\<forall>w \<in> set ws. length w = L) \<longrightarrow>
     (\<exists>ix'. add (length ws) (concat ws) ix = (True, ix') \<and> holds ix' (us @ ws)))"

definition fed :: "('i \<Rightarrow> byte list list \<Rightarrow> bool) \<Rightarrow> byte list list \<Rightarrow> nat \<Rightarrow> ('i, 'f) rmodel \<Rightarrow> bool" where
  "fed holds vs k rm \<longleftrightarrow> k \<le> length vs \<and> rm_indexed rm = int k \<and> holds (rm_ix rm) (take k vs) \<and> rm_updated rm = []"

lemma chunk_data_ok:
  assumes "list_all2 (\<lambda>p l. int (length p) = l * int L) vals lens" "0 < L" "length (concat vals) = n * L"
  shows "chunk_data g L n vals lens = Some (concat vals)"
proof (cases "length lens = 1")
  case True
  then obtain l where l: "lens = [l]" by (auto simp: length_Suc_conv)
  then obtain p where "vals = [p]" using assms(1) by (auto simp: list_all2_Cons2)
  then show ?thesis using l assms(3) by (simp add: chunk_data_def mem_slice_def)
next
  case False
  have "those (map2 (\<lambda>p l. mem_slice p 0 (L * nat l)) vals lens) = Some vals" using assms(1)
  proof (induction vals lens rule: list_all2_induct)
    case (Cons p vals l lens)
    have "0 \<le> l" using Cons(1) assms(2) by (metis of_nat_0_le_iff of_nat_0_less_iff zero_le_mult_iff not_less)
    then have "L * nat l = length p" using Cons(1) by (metis mult.commute nat_int nat_mult_distrib)
    then show ?case using Cons(3) by (simp add: mem_slice_def)
  qed simp
  then show ?thesis using False assms(3) by (simp add: chunk_data_def Let_def)
qed

context vector_store
begin

lemma chunk_ok:
  assumes "repr L vs P v" "start + n \<le> P"
  shows "\<exists>vals lens v'. RV_GetVectorHeader g (int start) (int n) v = Some (0, vals, lens, v') \<and> repr L vs P v' \<and>
    chunk_data g (data_size v' * rv_dim v') n vals lens = Some (concat (take n (drop start vs)))"
proof -
  have c: "0 < L" "\<forall>x \<in> set vs. length x = L" "P \<le> length vs"
    using common [OF assms(1)] by (simp_all add: rv_common_def)
  obtain vals lens v' where h: "RV_GetVectorHeader g (int start) (int n) v = Some (0, vals, lens, v')" "repr L vs P v'"
    "concat vals = concat (take n (drop start vs))" "list_all2 (\<lambda>p l. int (length p) = l * int L) vals lens"
    using headers_ok [OF assms, of g] by blast
  have "\<forall>x \<in> set (take n (drop start vs)). length x = L" using c(2) by (auto dest: in_set_takeD in_set_dropD)
  moreover have "length (take n (drop start vs)) = n" using assms(2) c(3) by simp
  ultimately have "length (concat vals) = n * L" using length_concat_const [of "take n (drop start vs)" L] h(3) by simp
  moreover have "data_size v' * rv_dim v' = L" using common [OF h(2)] by (simp add: rv_common_def)
  ultimately show ?thesis using h chunk_data_ok [OF h(4) c(1)] by auto
qed

lemma add_chunks_ok:
  assumes add: "takes_vectors L holds (io_add ops)"
  shows "\<lbrakk>repr L vs (length vs) (fe_raw fe); rm_ops (fe_model fe) = ops; fed holds vs s (fe_model fe); k = (length vs - s) div 1000 + 1\<rbrakk> \<Longrightarrow>
    \<exists>fe'. add_chunks g (int (length vs)) k fe = Some fe' \<and> repr L vs (length vs) (fe_raw fe') \<and>
      fed holds vs (length vs) (fe_model fe') \<and> fe_ret fe' = fe_ret fe \<and> rm_vec (fe_model fe') = rm_vec (fe_model fe)"
proof (induction k arbitrary: fe s)
  case (Suc k)
  let ?rm = "fe_model fe"
  define n where "n = (if k = 0 then length vs - s else 1000)"
  have s: "s \<le> length vs" "rm_indexed ?rm = int s" "holds (rm_ix ?rm) (take s vs)" "rm_updated ?rm = []"
    using Suc.prems(3) by (simp_all add: fed_def)
  have k: "k = (length vs - s) div 1000" using Suc.prems(4) by simp
  have n: "s + n \<le> length vs" "n \<le> 1000" "(if k = 0 then int (length vs) - int s else 1000) = int n"
    using k s(1) by (auto simp: n_def of_nat_diff div_eq_0_iff)
  show ?case
  proof (cases "n = 0")
    case True
    then have "s = length vs" using s(1) by (auto simp: n_def split: if_splits)
    then show ?thesis using Suc.prems True s by (auto simp: n_def)
  next
    case False
    obtain vals lens v' where h: "RV_GetVectorHeader g (int s) (int n) (fe_raw fe) = Some (0, vals, lens, v')" "repr L vs (length vs) v'"
      "chunk_data g (data_size v' * rv_dim v') n vals lens = Some (concat (take n (drop s vs)))"
      using chunk_ok [OF Suc.prems(1) n(1)] by blast
    have "\<forall>x \<in> set vs. length x = L" using common [OF Suc.prems(1)] by (simp add: rv_common_def)
    then have w: "\<forall>w \<in> set (take n (drop s vs)). length w = L" by (auto dest: in_set_takeD in_set_dropD)
    have ln: "length (take n (drop s vs)) = n" using n(1) by simp
    have "s < length vs" using n(1) False by linarith
    then obtain ix where ix: "io_add ops n (concat (take n (drop s vs))) (rm_ix ?rm) = (True, ix)" "holds ix (take s vs @ take n (drop s vs))"
      using add [unfolded takes_vectors_def, rule_format, OF conjI [OF s(3)], of "take n (drop s vs)"] ln w n(2) False by auto
    let ?fe = "fe\<lparr>fe_raw := v', fe_model := ?rm\<lparr>rm_ix := ix, rm_indexed := int s + int n\<rparr>, fe_dirty := True\<rparr>"
    have st: "add_chunks g (int (length vs)) (Suc k) fe = add_chunks g (int (length vs)) k ?fe"
      unfolding add_chunks.simps Let_def s(2) n(3) using False h(1,3) ix(1) Suc.prems(2) by simp
    have f: "fed holds vs (s + n) (fe_model ?fe)" using ix(2) n(1) s(4) by (simp add: fed_def take_add)
    show ?thesis
    proof (cases "k = 0")
      case True
      then have "s + n = length vs" using s(1) by (simp add: n_def)
      then show ?thesis using st f True h(2) by (intro exI [of _ ?fe]) simp
    next
      case False
      then have "1000 \<le> length vs - s" using k by (metis div_less not_le)
      then have "k = (length vs - (s + n)) div 1000 + 1" using False k by (simp add: n_def le_div_geq)
      then show ?thesis using Suc.IH [of ?fe "s + n"] f st h(2) Suc.prems(2) by auto
    qed
  qed
qed simp

lemma add_new_ok:
  assumes "takes_vectors L holds (io_add (rm_ops (fe_model fe)))" "repr L vs (length vs) (fe_raw fe)" "fed holds vs s (fe_model fe)" "0 \<le> fe_ret fe"
  shows "\<exists>fe'. add_new g fe = Some fe' \<and> repr L vs (length vs) (fe_raw fe') \<and> fed holds vs (length vs) (fe_model fe') \<and>
    0 \<le> fe_ret fe' \<and> rm_vec (fe_model fe') = rm_vec (fe_model fe)"
proof -
  have sz: "rv_size (fe_raw fe) = length vs" using common [OF assms(2)] by (simp add: rv_common_def)
  have s: "s \<le> length vs" "rm_indexed (fe_model fe) = int s" using assms(3) by (simp_all add: fed_def)
  show ?thesis
  proof (cases "s = length vs")
    case True
    then show ?thesis using assms sz s by (simp add: add_new_def Let_def)
  next
    case False
    have "nat ((int (length vs) - int s) div 1000 + 1) = (length vs - s) div 1000 + 1"
      using s(1) by (simp add: nat_add_distrib nat_div_distrib nat_diff_distrib' flip: of_nat_diff)
    then obtain fe' where "add_chunks g (int (length vs)) (nat ((int (length vs) - int s) div 1000 + 1)) fe = Some fe'"
      "repr L vs (length vs) (fe_raw fe')" "fed holds vs (length vs) (fe_model fe')" "fe_ret fe' = fe_ret fe"
      "rm_vec (fe_model fe') = rm_vec (fe_model fe)"
      using add_chunks_ok [OF assms(1,2) refl assms(3)] by metis
    then show ?thesis using False s sz assms(4) by (auto simp: add_new_def Let_def)
  qed
qed

end

definition stored_vec :: "nat \<Rightarrow> byte list list \<Rightarrow> rawvec \<Rightarrow> bool" where
  "stored_vec L vs v \<longleftrightarrow> (\<exists>S cap. mmap_repr S cap L vs (length vs) v) \<or> (\<exists>Z S cap. mem_repr Z S cap L vs (length vs) v)"

lemma add_new_stored:
  assumes "takes_vectors L holds (io_add (rm_ops (fe_model fe)))" "stored_vec L vs (fe_raw fe)" "fed holds vs s (fe_model fe)" "0 \<le> fe_ret fe"
  shows "\<exists>fe'. add_new g fe = Some fe' \<and> stored_vec L vs (fe_raw fe') \<and> fed holds vs (length vs) (fe_model fe') \<and>
    0 \<le> fe_ret fe' \<and> rm_vec (fe_model fe') = rm_vec (fe_model fe)"
  using assms(2) unfolding stored_vec_def [of _ _ "fe_raw fe"]
proof (elim disjE exE)
  fix S cap assume "mmap_repr S cap L vs (length vs) (fe_raw fe)"
  from disk.add_new_ok [OF assms(1) this assms(3,4)] show ?thesis unfolding stored_vec_def by blast
next
  fix Z S cap assume "mem_repr Z S cap L vs (length vs) (fe_raw fe)"
  from mem.add_new_ok [OF assms(1) this assms(3,4)] show ?thesis unfolding stored_vec_def by blast
qed

text \<open>The raw vectors hold \<open>vecs\<close>, each of \<open>len\<close> bytes.\<close>

definition raws_hold :: "(byte list \<Rightarrow> nat) \<Rightarrow> (byte list \<Rightarrow> byte list list) \<Rightarrow> ('i, 'f) vecmgr \<Rightarrow> bool" where
  "raws_hold len vecs vm \<longleftrightarrow> (\<forall>name v. map_of (vg_raw vm) name = Some v \<longrightarrow> stored_vec (len name) (vecs name) v)"

definition feedable :: "(byte list \<Rightarrow> nat) \<Rightarrow> (byte list \<Rightarrow> byte list list) \<Rightarrow> ('i \<Rightarrow> byte list list \<Rightarrow> bool) \<Rightarrow> ('i, 'f) vecmgr \<Rightarrow>
    ('i, 'f) rmodel \<Rightarrow> bool" where
  "feedable len vecs holds vm rm \<longleftrightarrow> map_of (vg_raw vm) (rm_vec rm) \<noteq> None \<and>
     takes_vectors (len (rm_vec rm)) holds (io_add (rm_ops rm)) \<and> (\<exists>k. fed holds (vecs (rm_vec rm)) k rm)"

definition all_fed :: "(byte list \<Rightarrow> byte list list) \<Rightarrow> ('i \<Rightarrow> byte list list \<Rightarrow> bool) \<Rightarrow> ('i, 'f) rmodel \<Rightarrow> bool" where
  "all_fed vecs holds rm \<longleftrightarrow> fed holds (vecs (rm_vec rm)) (length (vecs (rm_vec rm))) rm"

lemma feed_all_ok:
  "\<lbrakk>raws_hold len vecs vm; distinct ns; \<forall>n \<in> set ns. \<exists>rm. map_of (vg_index vm) n = Some rm \<and> feedable len vecs holds vm rm; 0 \<le> ret\<rbrakk> \<Longrightarrow>
    \<exists>r d vm'. feed_all g bm ns ret dirty vm = Some (r, d, vm') \<and> 0 \<le> r \<and> raws_hold len vecs vm' \<and>
      (\<forall>n \<in> set ns. \<exists>rm. map_of (vg_index vm') n = Some rm \<and> all_fed vecs holds rm) \<and>
      (\<forall>n. n \<notin> set ns \<longrightarrow> map_of (vg_index vm') n = map_of (vg_index vm) n)"
proof (induction ns arbitrary: vm ret dirty)
  case (Cons n ns)
  obtain rm k where rm: "map_of (vg_index vm) n = Some rm" "feedable len vecs holds vm rm" "fed holds (vecs (rm_vec rm)) k rm"
    using Cons.prems(3) by (auto simp: feedable_def)
  then obtain v where v: "raw_of vm rm = Some v" by (auto simp: feedable_def raw_of_def)
  then have st: "stored_vec (len (rm_vec rm)) (vecs (rm_vec rm)) v" using Cons.prems(1) by (auto simp: raws_hold_def raw_of_def)
  let ?fe = "\<lparr>fe_raw = v, fe_model = rm, fe_ret = ret, fe_dirty = dirty\<rparr>"
  obtain fe where fe: "add_new g ?fe = Some fe" "stored_vec (len (rm_vec rm)) (vecs (rm_vec rm)) (fe_raw fe)"
    "all_fed vecs holds (fe_model fe)" "0 \<le> fe_ret fe" "rm_vec (fe_model fe) = rm_vec rm"
    using add_new_stored [of "len (rm_vec rm)" holds ?fe "vecs (rm_vec rm)" k g] rm(2,3) st Cons.prems(4)
    by (auto simp: feedable_def all_fed_def)
  have "rm_updated (fe_model fe) = []" using fe(3) by (simp add: all_fed_def fed_def)
  then have up: "update_old g bm fe = Some fe" by (cases fe) (auto simp: update_old_def Let_def)
  let ?vm = "vm\<lparr>vg_raw := om_put (rm_vec rm) (fe_raw fe) (vg_raw vm), vg_index := om_put n (fe_model fe) (vg_index vm)\<rparr>"
  have m: "map_of (om_put k x m) j = (if j = k then Some x else map_of m j)" for k x m and j :: "byte list" by simp
  have "raws_hold len vecs ?vm" using Cons.prems(1) fe(2) by (simp add: raws_hold_def m)
  moreover have "feedable len vecs holds ?vm x" if "feedable len vecs holds vm x" for x using that by (simp add: feedable_def m)
  then have "\<forall>n' \<in> set ns. \<exists>rm. map_of (vg_index ?vm) n' = Some rm \<and> feedable len vecs holds ?vm rm"
    using Cons.prems(2,3) by (auto simp: m)
  ultimately obtain r d vm' where r: "feed_all g bm ns (fe_ret fe) (fe_dirty fe) ?vm = Some (r, d, vm')" "0 \<le> r" "raws_hold len vecs vm'"
    "\<forall>n \<in> set ns. \<exists>rm. map_of (vg_index vm') n = Some rm \<and> all_fed vecs holds rm"
    "\<forall>n. n \<notin> set ns \<longrightarrow> map_of (vg_index vm') n = map_of (vg_index ?vm) n"
    using Cons.IH [of ?vm "fe_ret fe" "fe_dirty fe"] Cons.prems(2) fe(4) by auto
  have "feed_all g bm (n # ns) ret dirty vm = Some (r, d, vm')" using rm(1) v fe(1) up r(1) by simp
  then show ?case using r(2-5) fe(3) Cons.prems(2) by (auto simp: m)
qed (simp add: raws_hold_def)

text \<open>
  C19: \<open>AddRTVecsToIndex\<close> gives every index the vectors of its field that it has not got yet, each of them
  once and in the order of their ids, in chunks of at most 1000; afterwards every index has got all
  vectors of its field, and the vectors are as before.
\<close>

theorem indexed_once:
  assumes "raws_hold len vecs vm" "distinct (map fst (vg_index vm))"
    and "\<forall>(n, rm) \<in> set (vg_index vm). feedable len vecs holds vm rm"
  shows "\<exists>r d vm'. VG_AddRTVecsToIndex g bm vm = Some (r, d, vm') \<and> 0 \<le> r \<and> raws_hold len vecs vm' \<and>
    (\<forall>n. map_of (vg_index vm) n \<noteq> None \<longrightarrow> (\<exists>rm. map_of (vg_index vm') n = Some rm \<and> all_fed vecs holds rm)) \<and>
    (\<forall>n. map_of (vg_index vm) n = None \<longrightarrow> map_of (vg_index vm') n = None)"
proof -
  have "\<forall>n \<in> set (map fst (vg_index vm)). \<exists>rm. map_of (vg_index vm) n = Some rm \<and> feedable len vecs holds vm rm"
    using assms(2,3) by fastforce
  then obtain r d vm' where r: "feed_all g bm (map fst (vg_index vm)) 0 False vm = Some (r, d, vm')" "0 \<le> r" "raws_hold len vecs vm'"
    "\<forall>n \<in> set (map fst (vg_index vm)). \<exists>rm. map_of (vg_index vm') n = Some rm \<and> all_fed vecs holds rm"
    "\<forall>n. n \<notin> set (map fst (vg_index vm)) \<longrightarrow> map_of (vg_index vm') n = map_of (vg_index vm) n"
    using feed_all_ok [OF assms(1,2), of holds 0 g bm False] by auto
  then show ?thesis unfolding VG_AddRTVecsToIndex_def by (intro exI [of _ r] exI [of _ d] exI [of _ vm']) (auto simp: map_of_eq_None_iff)
qed

text \<open>An index that keeps a copy of what it has got.\<close>

definition copy_ops :: "(nat \<times> byte list, rat) index_ops" where
  "copy_ops = \<lparr>io_init = (\<lambda>p sz. (0, (0, []))), io_indexing = (\<lambda>ix. (0, ix)), io_add = (\<lambda>n d (c, b). (True, (c + n, b @ d))),
     io_update = (\<lambda>vids vecs ix. (0, ix)), io_delete = (\<lambda>vids ix. (0, ix)), io_dump = (\<lambda>ix. (0, ix)), io_load = (\<lambda>ix. (0, ix)),
     io_search = (\<lambda>c n q k lo hi ix. (0, [])), io_is_l2 = (\<lambda>p ix. True)\<rparr>"

definition copy_holds :: "nat \<times> byte list \<Rightarrow> byte list list \<Rightarrow> bool" where
  "copy_holds ix us \<longleftrightarrow> ix = (length us, concat us)"

lemma copy_takes: "takes_vectors L copy_holds (io_add copy_ops)"
  by (auto simp: takes_vectors_def copy_holds_def copy_ops_def)

lemma two_in_memory: "\<exists>v. mem_repr 4 4 2000000 2 [[1, 2], [3, 4]] 2 v"
proof -
  obtain m0 where m0: "SM_Init 0 0 (vec_mgr 2 (int 4) 2000000 empty_folder) = (0, m0)" "sm_repr 4 2 m0 [] 0" "sm_tidy 2000000 m0"
    using new_manager [of 2 4 0] by (auto simp: cache_sized_def vec_sizes_def)
  have "mem_repr 4 4 2000000 (vec_len True 2) [] 0 (opened_vec 2 True 0 4 (Some \<lparr>ms_segs = [[]], ms_seg_size = int 4\<rparr>) m0)"
    by (rule opened_mem) (use m0 in \<open>simp_all add: vec_sizes_def\<close>)
  then have r0: "mem_repr 4 4 2000000 2 [] 0 (opened_vec 2 True 0 4 (Some \<lparr>ms_segs = [[]], ms_seg_size = int 4\<rparr>) m0)" by simp
  obtain v1 P1 where v1: "mem_repr 4 4 2000000 2 ([] @ [[1, 2]]) P1 v1"
    using mem.add_ok [OF r0, of "[1, 2]" 0] by (auto simp: mem_room_def disk_room_def)
  then obtain v2 P2 where v2: "mem_repr 4 4 2000000 2 (([] @ [[1, 2]]) @ [[3, 4]]) P2 v2"
    using mem.add_ok [OF v1, of "[3, 4]" 1] by (auto simp: mem_room_def disk_room_def)
  then have "P2 = 2" by (simp add: mem_repr_def)
  with v2 show ?thesis by auto
qed

theorem indexed_once_witness:
  "\<exists>v r d vm' rm. mem_repr 4 4 2000000 2 [[1, 2], [3, 4]] 2 v \<and>
    VG_AddRTVecsToIndex (\<lambda>i. 0) new_bitmap_mgr \<lparr>vg_created = True, vg_raw = [([97], v)],
      vg_index = [([97, 95, 98], \<lparr>rm_vec = [97], rm_ops = copy_ops, rm_ix = (1, [1, 2]), rm_indexed = 1, rm_updated = []\<rparr>)],
      vg_types = [[98]]\<rparr> = Some (r, d, vm') \<and>
    map_of (vg_index vm') [97, 95, 98] = Some rm \<and> rm_indexed rm = 2 \<and> rm_ix rm = (2, [1, 2, 3, 4])"
proof -
  obtain v where v: "mem_repr 4 4 2000000 2 [[1, 2], [3, 4]] 2 v" using two_in_memory by blast
  define vecs where "vecs = (\<lambda>name :: byte list. [[1, 2], [3, 4 :: byte]])"
  let ?vm = "\<lparr>vg_created = True, vg_raw = [([97], v)],
      vg_index = [([97, 95, 98], \<lparr>rm_vec = [97], rm_ops = copy_ops, rm_ix = (1, [1, 2]), rm_indexed = 1, rm_updated = []\<rparr>)],
      vg_types = [[98]]\<rparr>"
  have l: "length (vecs n) = 2" for n by (simp add: vecs_def)
  have "stored_vec 2 (vecs n) v" for n unfolding stored_vec_def l using v by (auto simp: vecs_def)
  then have "raws_hold (\<lambda>n. 2) vecs ?vm" by (simp add: raws_hold_def)
  moreover have "distinct (map fst (vg_index ?vm))" by simp
  moreover have "fed copy_holds (vecs n) 1 \<lparr>rm_vec = [97], rm_ops = copy_ops, rm_ix = (1, [1, 2]), rm_indexed = 1, rm_updated = []\<rparr>" for n
    by (simp add: fed_def copy_holds_def vecs_def)
  then have "\<forall>(n, rm) \<in> set (vg_index ?vm). feedable (\<lambda>n. 2) vecs copy_holds ?vm rm" using copy_takes by (auto simp: feedable_def)
  ultimately obtain r d vm' where vm': "VG_AddRTVecsToIndex (\<lambda>i. 0) new_bitmap_mgr ?vm = Some (r, d, vm')"
    "\<And>n. map_of (vg_index ?vm) n \<noteq> None \<Longrightarrow> \<exists>rm. map_of (vg_index vm') n = Some rm \<and> all_fed vecs copy_holds rm"
    using indexed_once [of "\<lambda>n. 2" vecs ?vm copy_holds "\<lambda>i. 0" new_bitmap_mgr] by metis
  obtain rm where "map_of (vg_index vm') [97, 95, 98] = Some rm" "all_fed vecs copy_holds rm"
    using vm'(2) [of "[97, 95, 98]"] by auto
  moreover from this(2) have "rm_indexed rm = 2" "rm_ix rm = (2, [1, 2, 3, 4])"
    by (simp_all add: all_fed_def fed_def copy_holds_def vecs_def)
  ultimately show ?thesis using v vm'(1) by blast
qed

subsection \<open>Refused documents\<close>

text \<open>
  C30: A document whose second vector has the wrong length is refused, but its first vector stays. The next
  document gets the same id, and from then on the first field shows the vectors of other documents: the
  id of this document leads to the vector of the refused one.
\<close>

theorem refused_document_shifts_vectors:
  assumes "map_of (vg_raw vm) (fd_name fa) = Some va" "map_of (vg_raw vm) (fd_name fb) = Some vb" "fd_name fa \<noteq> fd_name fb"
    and "mem_repr Z S cap L as (length as) va" "mem_repr Z S cap K bs (length bs) vb" "length bs = length as"
    and "length (fd_value fa) = L" "length (fd_value fb) \<noteq> K"
    and "fd_name fa' = fd_name fa" "fd_name fb' = fd_name fb" "length (fd_value fa') = L" "length (fd_value fb') = K"
    and "mem_room Z S cap (length as)" "mem_room Z S cap (length as + 1)" "docid = int (length as)"
  shows "\<exists>vm1 vm2 va2 vb2. VG_AddToStore docid [fa, fb] vm = Some (-1, vm1) \<and> VG_AddToStore docid [fa', fb'] vm1 = Some (0, vm2) \<and>
    map_of (vg_raw vm2) (fd_name fa) = Some va2 \<and> map_of (vg_raw vm2) (fd_name fb) = Some vb2 \<and>
    (\<exists>v'. RV_GetVector g docid va2 = Some (0, Some (fd_value fa), v')) \<and> (\<exists>v'. RV_GetVector g docid vb2 = Some (0, Some (fd_value fb'), v'))"
proof -
  obtain va1 P1 where va1: "RV_Add docid fa va = Some (0, va1)" "mem_repr Z S cap L (as @ [fd_value fa]) P1 va1"
    using mem.Add_ok [OF assms(4,7,13)] by blast
  let ?vm1 = "vm\<lparr>vg_raw := om_put (fd_name fa) va1 (vg_raw vm)\<rparr>"
  let ?vm1' = "?vm1\<lparr>vg_raw := om_put (fd_name fb) vb (vg_raw ?vm1)\<rparr>"
  have one: "VG_AddToStore docid [fa, fb] vm = Some (-1, ?vm1')"
    using assms(1-3) va1(1) mem.Add_refused [OF assms(5,8), of docid] by simp
  have "length (as @ [fd_value fa]) = length as + 1" by simp
  then obtain va2 P2 where va2: "RV_Add docid fa' va1 = Some (0, va2)" "mem_repr Z S cap L ((as @ [fd_value fa]) @ [fd_value fa']) P2 va2"
    using mem.Add_ok [OF va1(2) assms(11)] assms(14) by metis
  obtain vb2 P3 where vb2: "RV_Add docid fb' vb = Some (0, vb2)" "mem_repr Z S cap K (bs @ [fd_value fb']) P3 vb2"
    using mem.Add_ok [OF assms(5,12)] assms(6,13) by metis
  let ?vm2 = "?vm1'\<lparr>vg_raw := om_put (fd_name fa) va2 (vg_raw ?vm1')\<rparr>"
  let ?vm2' = "?vm2\<lparr>vg_raw := om_put (fd_name fb) vb2 (vg_raw ?vm2)\<rparr>"
  have two: "VG_AddToStore docid [fa', fb'] ?vm1' = Some (0, ?vm2')"
    using assms(3,9,10) va2(1) vb2(1) by simp
  have P: "P2 = length as + 2" "P3 = length as + 1" using va2(2) vb2(2) assms(6) by (simp_all add: mem_repr_def)
  obtain v' where "RV_GetVector g docid va2 = Some (0, Some (((as @ [fd_value fa]) @ [fd_value fa']) ! length as), v')"
    using mem.get_ok [OF va2(2), of "length as" g] P assms(15) by auto
  moreover obtain v'' where "RV_GetVector g docid vb2 = Some (0, Some ((bs @ [fd_value fb']) ! length as), v'')"
    using mem.get_ok [OF vb2(2), of "length as" g] P assms(15) by auto
  ultimately show ?thesis using one two assms(3,6) by (fastforce simp: nth_append)
qed

definition demo_field :: "byte \<Rightarrow> byte list \<Rightarrow> doc_field" where
  "demo_field name bs = \<lparr>fd_name = [name], fd_value = bs, fd_source = [], fd_type = VECTOR, fd_mul = []\<rparr>"

theorem refused_document_shifts_vectors_witness:
  "\<exists>v vm1 vm2 va2 vb2. mem_repr 4 4 2000000 2 [[1, 2], [3, 4]] 2 v \<and>
    VG_AddToStore 2 [demo_field 97 [5, 6], demo_field 98 [5]] ((VG_new :: (unit, rat) vecmgr)\<lparr>vg_raw := [([97], v), ([98], v)]\<rparr>) =
      Some (-1, vm1) \<and>
    VG_AddToStore 2 [demo_field 97 [7, 8], demo_field 98 [9, 9]] vm1 = Some (0, vm2) \<and>
    map_of (vg_raw vm2) [97] = Some va2 \<and> map_of (vg_raw vm2) [98] = Some vb2 \<and>
    (\<exists>v'. RV_GetVector (\<lambda>i. 0) 2 va2 = Some (0, Some [5, 6], v')) \<and> (\<exists>v'. RV_GetVector (\<lambda>i. 0) 2 vb2 = Some (0, Some [9, 9], v'))"
proof -
  let ?vs = "[[1, 2], [3, 4]] :: byte list list"
  obtain v where v: "mem_repr 4 4 2000000 2 ?vs 2 v" using two_in_memory by blast
  then have v': "mem_repr 4 4 2000000 2 ?vs (length ?vs) v" by (simp add: numeral_2_eq_2)
  let ?vm = "(VG_new :: (unit, rat) vecmgr)\<lparr>vg_raw := [([97], v), ([98], v)]\<rparr>"
  let ?a = "demo_field 97 [5, 6]" and ?b = "demo_field 98 [5]" and ?a' = "demo_field 97 [7, 8]" and ?b' = "demo_field 98 [9, 9]"
  have n: "map_of (vg_raw ?vm) (fd_name ?a) = Some v" "map_of (vg_raw ?vm) (fd_name ?b) = Some v" "fd_name ?a \<noteq> fd_name ?b"
    by (simp_all add: demo_field_def)
  have l: "length (fd_value ?a) = 2" "length (fd_value ?b) \<noteq> 2" "fd_name ?a' = fd_name ?a" "fd_name ?b' = fd_name ?b"
    "length (fd_value ?a') = 2" "length (fd_value ?b') = 2" by (simp_all add: demo_field_def)
  have r: "mem_room 4 4 2000000 (length ?vs)" "mem_room 4 4 2000000 (length ?vs + 1)" "(2 :: int) = int (length ?vs)"
    by (simp_all add: mem_room_def disk_room_def)
  have f: "fd_name ?a = [97]" "fd_name ?b = [98]" "fd_value ?a = [5, 6]" "fd_value ?b' = [9, 9]" by (simp_all add: demo_field_def)
  from refused_document_shifts_vectors [OF n v' v' refl l r, of "\<lambda>i. 0", unfolded f] v show ?thesis by blast
qed

end
