(* ===== verification/Retrieval.thy ===== *)
theory Retrieval
  imports AwaPrelude OrdMap
begin

text \<open>
  The text index (\<open>search/awadb_retrieval.cc\<close>): for every word the documents that contain it, with its
  frequency, and the search for the documents that contain all words of a query. The two arrays of a
  \<open>DocDetail\<close> are the lists of their used cells and a capacity; \<open>new\<close> succeeds.
\<close>

record doc_detail =
  dd_ids :: "u32 list"
  dd_freqs :: "byte list"
  dd_capacity :: nat

definition kDefaultListSize :: nat where "kDefaultListSize = 128"

definition DD_Init :: doc_detail where
  "DD_Init = \<lparr>dd_ids = [], dd_freqs = [], dd_capacity = kDefaultListSize\<rparr>"

definition DD_Add :: "u32 \<Rightarrow> byte \<Rightarrow> doc_detail \<Rightarrow> int \<times> doc_detail" where
  "DD_Add docid freq d =
     (0, d\<lparr>dd_capacity := (if length (dd_ids d) \<ge> dd_capacity d then dd_capacity d + kDefaultListSize else dd_capacity d),
           dd_ids := dd_ids d @ [docid], dd_freqs := dd_freqs d @ [freq]\<rparr>)"

text \<open>The first id from \<open>pos\<close> on that is not below \<open>docid\<close>, as an \<open>int\<close>; the position goes behind it.\<close>

function DD_Seek :: "u32 list \<Rightarrow> u32 \<Rightarrow> nat \<Rightarrow> int \<times> nat" where
  "DD_Seek ids docid pos =
     (if length ids \<le> pos then (-1, pos)
      else if docid \<le> ids ! pos then (sint (ids ! pos), pos + 1)
      else DD_Seek ids docid (pos + 1))"
  by pat_completeness auto
termination by (relation "measure (\<lambda>(ids, docid, pos). length ids - pos)") auto

declare DD_Seek.simps [simp del]

type_synonym inverted = "(byte list \<times> doc_detail) list"

fun AR_AddDoc :: "u32 \<Rightarrow> (byte list \<times> nat) list \<Rightarrow> inverted \<Rightarrow> bool \<times> inverted" where
  "AR_AddDoc docid [] il = (True, il)"
| "AR_AddDoc docid ((w, n) # ws) il =
     (let d = (case map_of il w of None \<Rightarrow> DD_Init | Some d \<Rightarrow> d);
          (e, d') = DD_Add docid (of_nat n) d; il' = om_put w d' il
      in if e \<noteq> 0 then (False, il') else AR_AddDoc docid ws il')"

text \<open>The largest first id of the lists, and the number of its list; the inner \<open>None\<close> is an unknown word.\<close>

fun first_docid :: "inverted \<Rightarrow> byte list list \<Rightarrow> nat \<Rightarrow> u32 \<Rightarrow> nat \<Rightarrow> (u32 \<times> nat) option option" where
  "first_docid il [] i start base = Some (Some (start, base))"
| "first_docid il (w # ws) i start base =
     (case map_of il w of
        None \<Rightarrow> Some None
      | Some d \<Rightarrow> (case dd_ids d of
          [] \<Rightarrow> None
        | x # _ \<Rightarrow> if start < x then first_docid il ws (i + 1) x i else first_docid il ws (i + 1) start base))"

lemma Seek_cases:
  "p \<le> length ids \<Longrightarrow> case DD_Seek ids d p of (n, p') \<Rightarrow>
     (p' = length ids \<and> n = -1 \<and> (\<forall>j. p \<le> j \<and> j < length ids \<longrightarrow> ids ! j < d)) \<or>
     (p < p' \<and> p' \<le> length ids \<and> n = sint (ids ! (p' - 1)) \<and> d \<le> ids ! (p' - 1) \<and> (\<forall>j. p \<le> j \<and> j < p' - 1 \<longrightarrow> ids ! j < d))"
proof (induction ids d p rule: DD_Seek.induct)
  case (1 ids d p)
  show ?case
  proof (cases "length ids \<le> p \<or> d \<le> ids ! p")
    case True
    then show ?thesis using "1.prems" by (subst DD_Seek.simps) (auto simp: not_le)
  next
    case False
    then have l: "\<not> length ids \<le> p" "\<not> d \<le> ids ! p" by simp_all
    then have e: "DD_Seek ids d p = DD_Seek ids d (p + 1)" by (subst DD_Seek.simps) simp
    have k: "p \<le> j \<longleftrightarrow> j = p \<or> p + 1 \<le> j" for j by auto
    show ?thesis using "1.IH" [OF l] l unfolding e by (auto simp: k not_le split: prod.splits)
  qed
qed

lemma Seek_bounds: "DD_Seek ids d p = (n, p') \<Longrightarrow> n \<noteq> -1 \<Longrightarrow> p < p' \<and> p' \<le> length ids"
  using Seek_cases [of p ids d] DD_Seek.simps [of ids d p] by (cases "p \<le> length ids") (auto split: if_splits)

definition left_over :: "u32 list list \<Rightarrow> nat list \<Rightarrow> nat" where
  "left_over ls pos = (\<Sum>(ids, p)\<leftarrow>zip ls pos. length ids - p)"

lemma left_over_update:
  "\<lbrakk>i < length ls; i < length pos; pos ! i < p'; p' \<le> length (ls ! i)\<rbrakk> \<Longrightarrow>
    left_over ls (pos[i := p']) < left_over ls pos"
proof (induction ls arbitrary: i pos)
  case (Cons ids ls)
  obtain p ps where pos: "pos = p # ps" using Cons.prems(2) by (cases pos) auto
  show ?case
  proof (cases i)
    case 0
    then show ?thesis using Cons.prems pos by (simp add: left_over_def)
  next
    case (Suc k)
    then show ?thesis using Cons.IH [of k ps] Cons.prems pos by (simp add: left_over_def)
  qed
qed simp

text \<open>The two loops of \<open>Retrieve\<close>: the ls in turn are asked for the document \<open>start\<close> of the list \<open>base\<close>; a
  larger answer is the next document to look for.\<close>

function retrieve_loop :: "u32 list list \<Rightarrow> u32 \<Rightarrow> nat \<Rightarrow> nat list \<Rightarrow> nat \<Rightarrow> int list \<Rightarrow> int list option" where
  "retrieve_loop ls start base pos count docids =
     (if count < length ls
      then if base = count then retrieve_loop ls start base pos (count + 1) docids
           else (case fetch ls (int count) of None \<Rightarrow> None
             | Some ids \<Rightarrow> (case fetch pos (int count) of None \<Rightarrow> None
               | Some p \<Rightarrow>
                   (let s = DD_Seek ids start p; next_docid = fst s; pos' = pos[count := snd s] in
                    if next_docid = -1 then Some docids
                    else if word_of_int next_docid = start then retrieve_loop ls start base pos' (count + 1) docids
                    else retrieve_loop ls (word_of_int next_docid) count pos' 0 docids)))
      else (case fetch ls (int base) of None \<Rightarrow> None
        | Some ids \<Rightarrow> (case fetch pos (int base) of None \<Rightarrow> None
          | Some p \<Rightarrow>
              (let docids' = docids @ [sint start]; s = DD_Seek ids start p; next_docid = fst s in
               if next_docid = -1 then Some docids'
               else retrieve_loop ls (word_of_int next_docid) base (pos[base := snd s]) 0 docids'))))"
  by pat_completeness auto
termination
proof (relation "measures [\<lambda>(ls, start, base, pos, count, docids). left_over ls pos, \<lambda>(ls, start, base, pos, count, docids). length ls - count]")
qed (use left_over_update Seek_bounds in \<open>auto simp: fetch_Some_iff prod_eq_iff\<close>)

declare retrieve_loop.simps [simp del]

definition AR_Retrieve :: "byte list list \<Rightarrow> inverted \<Rightarrow> int list \<Rightarrow> (int \<times> int list) option" where
  "AR_Retrieve query il docids = do {
     f \<leftarrow> first_docid il query 0 0 0;
     (case f of
        None \<Rightarrow> Some (-1, docids)
      | Some (start, base) \<Rightarrow> do {
          ls \<leftarrow> those (map (\<lambda>w. map_option dd_ids (map_of il w)) query);
          docids' \<leftarrow> retrieve_loop ls start base (replicate (length query) 0) 0 docids;
          Some (int (length docids'), docids') }) }"

subsection \<open>What is found\<close>

text \<open>The documents of a word: their numbers increase and are below \<open>2 ^ 31\<close>.\<close>

definition doc_list :: "u32 list \<Rightarrow> bool" where
  "doc_list ids \<longleftrightarrow> sorted_wrt (<) ids \<and> (\<forall>x \<in> set ids. x < 2147483648)"

lemma sint_small:
  assumes "(x :: u32) < 2147483648"
  shows "sint x = uint x" "sint x \<noteq> -1"
proof -
  have u: "uint x < 2147483648" using assms by (simp add: word_less_def)
  have l: "-(2 ^ 31) \<le> uint x" by (rule order_trans [OF _ uint_ge_0]) simp
  show s: "sint x = uint x" using signed_take_bit_int_eq_self [OF l] u by (simp add: sint_uint)
  have "0 \<le> uint x" by simp
  then show "sint x \<noteq> -1" unfolding s by linarith
qed

text \<open>What \<open>Seek\<close> does to the part of the list that is behind it.\<close>

lemma Seek_sets:
  assumes "doc_list ids" "p \<le> length ids" "DD_Seek ids d p = (n, p')"
  shows "(n = -1 \<and> (\<forall>y \<in> set (drop p ids). y < d)) \<or>
    (\<exists>x. n = sint x \<and> n \<noteq> -1 \<and> d \<le> x \<and> p' \<le> length ids \<and> x \<in> set (take p' ids) \<and> x \<in> set ids \<and> x \<notin> set (take p ids) \<and>
       set (take p ids) \<subseteq> set (take p' ids) \<and>
       (\<forall>y \<in> set (drop p ids). y < x \<longrightarrow> y < d) \<and> (\<forall>y \<in> set (take p' ids). y \<le> x))"
proof -
  consider (no) "n = -1" "\<forall>j. p \<le> j \<and> j < length ids \<longrightarrow> ids ! j < d"
    | (yes) "p < p'" "p' \<le> length ids" "n = sint (ids ! (p' - 1))" "d \<le> ids ! (p' - 1)" "\<forall>j. p \<le> j \<and> j < p' - 1 \<longrightarrow> ids ! j < d"
    using Seek_cases [OF assms(2), of d] assms(3) by auto
  then show ?thesis
  proof cases
    case no
    then have "\<forall>y \<in> set (drop p ids). y < d" by (auto simp: in_set_conv_nth)
    then show ?thesis using no by simp
  next
    case yes
    define q where "q = p' - 1"
    have q: "p \<le> q" "q < length ids" "p' = Suc q" using yes(1,2) by (simp_all add: q_def)
    have srt: "\<And>i j. i < j \<Longrightarrow> j < length ids \<Longrightarrow> ids ! i < ids ! j" using assms(1) by (simp add: doc_list_def sorted_wrt_nth_less)
    have "ids ! q \<in> set ids" using q by simp
    then have "sint (ids ! q) \<noteq> -1" using assms(1) sint_small(2) unfolding doc_list_def by blast
    moreover have "ids ! q \<in> set (take p' ids)" using q by (simp add: take_Suc_conv_app_nth)
    moreover have "ids ! q \<notin> set (take p ids)"
    proof
      assume "ids ! q \<in> set (take p ids)"
      then obtain j where "j < p" "j < length ids" "ids ! j = ids ! q" by (auto simp: in_set_conv_nth)
      then show False using srt [of j q] q by simp
    qed
    moreover have "set (take p ids) \<subseteq> set (take p' ids)" using q by (intro set_take_subset_set_take) simp
    moreover have "\<forall>y \<in> set (drop p ids). y < ids ! q \<longrightarrow> y < d"
    proof safe
      fix y assume y: "y \<in> set (drop p ids)" "y < ids ! q"
      then obtain j where "j < length (drop p ids)" "drop p ids ! j = y" by (auto simp: in_set_conv_nth)
      then have j: "p + j < length ids" "y = ids ! (p + j)" by simp_all
      then have "\<not> q < p + j" "p + j \<noteq> q" using srt [of q "p + j"] y(2) by auto
      then show "y < d" using yes(5) j by (simp add: q_def)
    qed
    moreover have "\<forall>y \<in> set (take p' ids). y \<le> ids ! q"
    proof
      fix y assume "y \<in> set (take p' ids)"
      then obtain j where "j < p'" "y = ids ! j" by (auto simp: in_set_conv_nth)
      then show "y \<le> ids ! q" using srt [of j q] q by (cases "j = q") auto
    qed
    ultimately show ?thesis using yes(2-4) \<open>ids ! q \<in> set ids\<close> unfolding q_def by blast
  qed
qed

definition common :: "u32 list list \<Rightarrow> u32 set" where
  "common ls = {x. \<forall>ids \<in> set ls. x \<in> set ids}"

text \<open>The state of the loops: \<open>out\<close> has the common documents before \<open>start\<close>, possibly \<open>start\<close> itself, and
  no list has been read past \<open>start\<close>.\<close>

definition ret_core :: "u32 list list \<Rightarrow> u32 \<Rightarrow> nat \<Rightarrow> nat list \<Rightarrow> u32 list \<Rightarrow> bool" where
  "ret_core ls start base pos out \<longleftrightarrow>
     length pos = length ls \<and> base < length ls \<and> (\<forall>i < length ls. pos ! i \<le> length (ls ! i)) \<and>
     start \<in> set (ls ! base) \<and> sorted out \<and> set out \<subseteq> common ls \<and> (2 \<le> length ls \<longrightarrow> distinct out) \<and>
     (\<forall>x \<in> common ls. x < start \<longrightarrow> x \<in> set out) \<and> (\<forall>x \<in> set out. x \<le> start) \<and>
     (\<forall>i < length ls. \<forall>y \<in> set (take (pos ! i) (ls ! i)). y \<le> start)"

definition ret_turn :: "u32 list list \<Rightarrow> u32 \<Rightarrow> nat \<Rightarrow> nat list \<Rightarrow> nat \<Rightarrow> u32 list \<Rightarrow> bool" where
  "ret_turn ls start base pos count out \<longleftrightarrow>
     (\<forall>i < count. i < length ls \<and> i \<noteq> base \<longrightarrow> start \<in> set (take (pos ! i) (ls ! i))) \<and>
     (\<forall>i < length ls. i \<noteq> base \<and> count \<le> i \<longrightarrow> start \<in> set out \<or> start \<notin> set (take (pos ! i) (ls ! i))) \<and>
     (\<forall>i < length ls. i \<noteq> base \<and> start \<in> set out \<longrightarrow> count \<le> i \<and> start \<in> set (take (pos ! i) (ls ! i)))"

lemma set_split: "x \<in> set ids \<longleftrightarrow> x \<in> set (take p ids) \<or> x \<in> set (drop p ids)"
  using set_append [of "take p ids" "drop p ids"] by simp

text \<open>Common documents that a list is past are in \<open>out\<close>.\<close>

lemma passed_found:
  assumes core: "ret_core ls start base pos out" and turn: "ret_turn ls start base pos i out" and i: "i < length ls" "i \<noteq> base"
    and x: "x \<in> common ls" "x \<in> set (drop (pos ! i) (ls ! i)) \<longrightarrow> x < start"
  shows "x \<in> set out"
proof -
  have less: "x < start \<longrightarrow> x \<in> set out" using core x(1) by (simp add: ret_core_def)
  have "x \<in> set (ls ! i)" using x(1) i(1) by (simp add: common_def)
  then consider "x \<in> set (take (pos ! i) (ls ! i))" | "x < start" using set_split [of x "ls ! i" "pos ! i"] x(2) by blast
  then show ?thesis
  proof cases
    case 1
    then have "x \<le> start" using core i by (simp add: ret_core_def)
    moreover have "start \<in> set out \<or> start \<notin> set (take (pos ! i) (ls ! i))" using turn i by (auto simp: ret_turn_def)
    ultimately show ?thesis using 1 less by (cases "x = start") auto
  next
    case 2
    then show ?thesis using less by simp
  qed
qed

lemma sint_back: "word_of_int (sint (x :: u32)) = x"
  by simp

text \<open>The three kinds of steps: another list has \<open>start\<close> too, a list goes on to a larger document, and all
  lists have \<open>start\<close>.\<close>

lemma step_same:
  assumes core: "ret_core ls start base pos out" and turn: "ret_turn ls start base pos i out" and i: "i < length ls" "i \<noteq> base"
    and p: "p' \<le> length (ls ! i)" "start \<in> set (take p' (ls ! i))" "start \<notin> set (take (pos ! i) (ls ! i))"
      "\<forall>y \<in> set (take p' (ls ! i)). y \<le> start"
  shows "ret_core ls start base (pos[i := p']) out" "ret_turn ls start base (pos[i := p']) (i + 1) out"
proof -
  show "ret_core ls start base (pos[i := p']) out" using core p(1,4) i(1) by (auto simp: ret_core_def nth_list_update)
  have no: "start \<notin> set out" using turn i p(3) by (auto simp: ret_turn_def)
  have l: "length pos = length ls" using core by (simp add: ret_core_def)
  show "ret_turn ls start base (pos[i := p']) (i + 1) out"
    unfolding ret_turn_def
  proof (intro conjI allI impI)
    fix j assume "j < i + 1" "j < length ls \<and> j \<noteq> base"
    then show "start \<in> set (take (pos[i := p'] ! j) (ls ! j))"
      using turn p(2) l by (cases "j = i") (auto simp: ret_turn_def)
  next
    fix j assume "j < length ls" "j \<noteq> base \<and> i + 1 \<le> j"
    then show "start \<in> set out \<or> start \<notin> set (take (pos[i := p'] ! j) (ls ! j))"
      using turn by (auto simp: ret_turn_def)
  qed (use no in auto)
qed

lemma step_on:
  assumes core: "ret_core ls start base pos out" and i: "i < length ls" and x: "start < x" "x \<in> set (ls ! i)"
    and p: "p' \<le> length (ls ! i)" "\<forall>y \<in> set (take p' (ls ! i)). y \<le> x"
    and out: "sorted out'" "set out' \<subseteq> common ls" "2 \<le> length ls \<longrightarrow> distinct out'" "\<forall>y \<in> set out'. y \<le> start"
      "\<forall>y \<in> common ls. y < x \<longrightarrow> y \<in> set out'"
  shows "ret_core ls x i (pos[i := p']) out'" "ret_turn ls x i (pos[i := p']) 0 out'"
proof -
  have l: "length pos = length ls" and t: "\<forall>j < length ls. \<forall>y \<in> set (take (pos ! j) (ls ! j)). y \<le> start"
    and b: "\<forall>j < length ls. pos ! j \<le> length (ls ! j)"
    using core by (simp_all add: ret_core_def)
  have t': "\<forall>y \<in> set (take (pos[i := p'] ! j) (ls ! j)). y \<le> x" if "j < length ls" for j
  proof (cases "j = i")
    case False
    then have "\<forall>y \<in> set (take (pos[i := p'] ! j) (ls ! j)). y \<le> start" using that t by simp
    then show ?thesis using x(1) by (meson le_less_trans less_imp_le)
  qed (use that p(2) l in simp)
  then show "ret_core ls x i (pos[i := p']) out'"
    using l b i x p(1) out by (auto simp: ret_core_def nth_list_update intro: order_trans less_imp_le)
  have "x \<notin> set out'" using out(4) x(1) by (auto simp: leD)
  moreover have "x \<notin> set (take (pos[i := p'] ! j) (ls ! j))" if "j < length ls" "j \<noteq> i" for j
    using that t x(1) by (auto simp: leD)
  ultimately show "ret_turn ls x i (pos[i := p']) 0 out'" by (simp add: ret_turn_def)
qed

lemma full_turn:
  assumes core: "ret_core ls start base pos out" and turn: "ret_turn ls start base pos count out" and c: "length ls \<le> count"
  shows "sorted (out @ [start])" "set (out @ [start]) \<subseteq> common ls" "2 \<le> length ls \<longrightarrow> distinct (out @ [start])"
    "\<forall>y \<in> set (out @ [start]). y \<le> start" "\<forall>i < length ls. i \<noteq> base \<longrightarrow> start \<in> set (take (pos ! i) (ls ! i))"
    "\<forall>y \<in> common ls. y \<le> start \<longrightarrow> y \<in> set (out @ [start])"
proof -
  show t: "\<forall>i < length ls. i \<noteq> base \<longrightarrow> start \<in> set (take (pos ! i) (ls ! i))"
    using turn c by (auto simp: ret_turn_def)
  show le: "\<forall>y \<in> set (out @ [start]). y \<le> start" using core by (auto simp: ret_core_def)
  then show "sorted (out @ [start])" using core by (auto simp: ret_core_def sorted_append)
  have "start \<in> set (ls ! i)" if "i < length ls" for i
    using that t core in_set_takeD by (cases "i = base") (auto simp: ret_core_def dest: in_set_takeD)
  then have "start \<in> common ls" by (auto simp: common_def in_set_conv_nth)
  then show "set (out @ [start]) \<subseteq> common ls" using core by (auto simp: ret_core_def)
  show "2 \<le> length ls \<longrightarrow> distinct (out @ [start])"
  proof
    assume n: "2 \<le> length ls"
    obtain i where i: "i < length ls" "i \<noteq> base"
    proof (cases "base = 0")
      case True
      then show thesis using that [of 1] n by simp
    next
      case False
      then show thesis using that [of 0] n by (cases ls) simp_all
    qed
    then have "start \<notin> set out" using turn c by (auto simp: ret_turn_def)
    then show "distinct (out @ [start])" using core n by (simp add: ret_core_def)
  qed
  show "\<forall>y \<in> common ls. y \<le> start \<longrightarrow> y \<in> set (out @ [start])" using core by (auto simp: ret_core_def le_less)
qed

lemma retrieve_loop_ok:
  "\<lbrakk>\<forall>ids \<in> set ls. doc_list ids; ret_core ls start base pos out; ret_turn ls start base pos count out\<rbrakk> \<Longrightarrow>
    \<exists>out'. retrieve_loop ls start base pos count (map sint out) = Some (map sint out') \<and>
      sorted out' \<and> set out' = common ls \<and> (2 \<le> length ls \<longrightarrow> distinct out')"
proof (induction ls start base pos count "map sint out" arbitrary: out rule: retrieve_loop.induct)
  case (1 ls start base pos count)
  note good = "1.prems"(1) and core = "1.prems"(2) and turn = "1.prems"(3)
  have b: "base < length ls" "length pos = length ls" using core by (simp_all add: ret_core_def)
  have f: "fetch ls (int i) = Some (ls ! i)" "fetch pos (int i) = Some (pos ! i)" "doc_list (ls ! i)" "pos ! i \<le> length (ls ! i)"
    if "i < length ls" for i
    using that b good core by (simp_all add: fetch_def ret_core_def)
  have found: "sorted out" "set out \<subseteq> common ls" "2 \<le> length ls \<longrightarrow> distinct out" "\<forall>y \<in> set out. y \<le> start"
    using core by (simp_all add: ret_core_def)
  show ?case
  proof (cases "count < length ls")
    case True
    note f = f [OF True]
    show ?thesis
    proof (cases "base = count")
      case base: True
      have "ret_turn ls start base pos (count + 1) out" using turn base by (auto simp: ret_turn_def less_Suc_eq Suc_le_eq)
      then show ?thesis using "1.hyps"(1) [OF True base refl good core] True base by (subst retrieve_loop.simps) simp
    next
      case base: False
      obtain n p' where s: "DD_Seek (ls ! count) start (pos ! count) = (n, p')" by fastforce
      have past: "y \<in> set out" if "y \<in> common ls" "y \<in> set (drop (pos ! count) (ls ! count)) \<longrightarrow> y < start" for y
        using passed_found [OF core turn True] base that by auto
      note simps = retrieve_loop.simps [of ls start base pos count] True base f(1,2) s
      from Seek_sets [OF f(3,4) s] show ?thesis
      proof (elim disjE conjE exE)
        assume "n = -1" "\<forall>y \<in> set (drop (pos ! count) (ls ! count)). y < start"
        then show ?thesis using found past by (intro exI [of _ out]) (auto simp: simps)
      next
        fix x assume x: "n = sint x" "n \<noteq> -1" "start \<le> x" "p' \<le> length (ls ! count)" "x \<in> set (take p' (ls ! count))" "x \<in> set (ls ! count)"
          "x \<notin> set (take (pos ! count) (ls ! count))" "\<forall>y \<in> set (drop (pos ! count) (ls ! count)). y < x \<longrightarrow> y < start"
          "\<forall>y \<in> set (take p' (ls ! count)). y \<le> x"
        show ?thesis
        proof (cases "x = start")
          case eq: True
          have "\<exists>out'. retrieve_loop ls start base (pos[count := p']) (count + 1) (map sint out) = Some (map sint out') \<and>
              sorted out' \<and> set out' = common ls \<and> (2 \<le> length ls \<longrightarrow> distinct out')"
            using "1.hyps"(2) [OF True base f(1,2) refl refl refl _ _ refl good] s x(1,2) eq
              step_same [OF core turn True _ x(4), unfolded eq [symmetric]] base x(5,7,9) by auto
          then show ?thesis using x(1,2) eq by (simp add: simps)
        next
          case ne: False
          then have lt: "start < x" using x(3) by simp
          note on = step_on [OF core True lt x(6,4,9) found]
          have "\<exists>out'. retrieve_loop ls x count (pos[count := p']) 0 (map sint out) = Some (map sint out') \<and>
              sorted out' \<and> set out' = common ls \<and> (2 \<le> length ls \<longrightarrow> distinct out')"
            using "1.hyps"(3) [OF True base f(1,2) refl refl refl _ _ refl good] s x(1,2) ne on past x(8) by auto
          then show ?thesis using x(1,2) ne by (simp add: simps)
        qed
      qed
    qed
  next
    case False
    note f = f [OF b(1)]
    from False have c: "length ls \<le> count" by simp
    note full = full_turn [OF core turn c]
    obtain n p' where s: "DD_Seek (ls ! base) start (pos ! base) = (n, p')" by fastforce
    note simps = retrieve_loop.simps [of ls start base pos count] False f(1,2) s
    have past: "y \<in> set (out @ [start])" if "y \<in> common ls" "y \<in> set (drop (pos ! base) (ls ! base)) \<longrightarrow> y < start" for y
    proof -
      have "y \<in> set (ls ! base)" using that(1) b(1) by (simp add: common_def)
      then have "y \<le> start" using set_split [of y "ls ! base" "pos ! base"] that(2) core b(1) by (auto simp: ret_core_def)
      then show ?thesis using full(6) that(1) by blast
    qed
    have out: "map sint out @ [sint start] = map sint (out @ [start])" by simp
    from Seek_sets [OF f(3,4) s] show ?thesis
    proof (elim disjE conjE exE)
      assume "n = -1" "\<forall>y \<in> set (drop (pos ! base) (ls ! base)). y < start"
      then show ?thesis using full(1-3) past by (intro exI [of _ "out @ [start]"]) (auto simp: simps)
    next
      fix x assume x: "n = sint x" "n \<noteq> -1" "start \<le> x" "p' \<le> length (ls ! base)" "x \<in> set (ls ! base)"
        "\<forall>y \<in> set (drop (pos ! base) (ls ! base)). y < x \<longrightarrow> y < start" "\<forall>y \<in> set (take p' (ls ! base)). y \<le> x"
      have "ret_core ls x base (pos[base := p']) (out @ [start]) \<and> ret_turn ls x base (pos[base := p']) 0 (out @ [start])"
      proof (cases "x = start")
        case True
        have "ret_core ls x base (pos[base := p']) (out @ [start])"
          using core full x(4,7) b unfolding True by (auto simp: ret_core_def nth_list_update)
        then show ?thesis using full(5) unfolding True by (auto simp: ret_turn_def)
      next
        case False
        then have lt: "start < x" using x(3) by simp
        show ?thesis using step_on [OF core b(1) lt x(5,4,7) full(1-4)] past x(6) by blast
      qed
      then have c: "ret_core ls x base (pos[base := p']) (out @ [start])" "ret_turn ls x base (pos[base := p']) 0 (out @ [start])" by simp_all
      have k: "fst (DD_Seek (ls ! base) start (pos ! base)) = sint x" "snd (DD_Seek (ls ! base) start (pos ! base)) = p'"
        using s x(1) by simp_all
      have nx: "sint x \<noteq> -1" using x(1,2) by simp
      from "1.hyps"(4) [OF False f(1,2) out [symmetric] refl refl _ good, unfolded k sint_back, OF nx c]
      have "\<exists>out'. retrieve_loop ls x base (pos[base := p']) 0 (map sint out @ [sint start]) = Some (map sint out') \<and>
          sorted out' \<and> set out' = common ls \<and> (2 \<le> length ls \<longrightarrow> distinct out')"
        unfolding out .
      then show ?thesis using x(1,2) by (simp add: simps)
    qed
  qed
qed

subsection \<open>The index of a list of documents\<close>

text \<open>The documents with their words, in the order in which they were added.\<close>

type_synonym text_doc = "u32 \<times> (byte list \<times> nat) list"

definition has_word :: "byte list \<Rightarrow> text_doc \<Rightarrow> bool" where
  "has_word w = (\<lambda>(d, ws). w \<in> fst ` set ws)"

definition ids_of :: "inverted \<Rightarrow> byte list \<Rightarrow> u32 list" where
  "ids_of il w = (case map_of il w of None \<Rightarrow> [] | Some d \<Rightarrow> dd_ids d)"

definition indexes :: "text_doc list \<Rightarrow> inverted \<Rightarrow> bool" where
  "indexes docs il \<longleftrightarrow> (\<forall>w. ids_of il w = map fst (filter (has_word w) docs) \<and> (map_of il w = None \<longleftrightarrow> ids_of il w = []))"

lemma AR_AddDoc_ok:
  "\<lbrakk>distinct (map fst ws); \<forall>w. map_of il w = None \<longleftrightarrow> ids_of il w = []\<rbrakk> \<Longrightarrow>
    \<exists>il'. AR_AddDoc d ws il = (True, il') \<and> (\<forall>w. ids_of il' w = (if w \<in> fst ` set ws then ids_of il w @ [d] else ids_of il w)) \<and>
      (\<forall>w. map_of il' w = None \<longleftrightarrow> ids_of il' w = [])"
proof (induction ws arbitrary: il)
  case (Cons x ws)
  obtain w n where x: "x = (w, n)" by (cases x)
  define dd where "dd = (case map_of il w of None \<Rightarrow> DD_Init | Some d \<Rightarrow> d)"
  define dd' where "dd' = snd (DD_Add d (of_nat n) dd)"
  have ids: "dd_ids dd' = ids_of il w @ [d]"
    by (simp add: dd'_def DD_Add_def dd_def ids_of_def DD_Init_def split: option.split)
  let ?il = "om_put w dd' il"
  have i: "ids_of ?il v = (if v = w then ids_of il w @ [d] else ids_of il v)" for v
    by (cases "v = w") (simp_all add: ids_of_def ids)
  have "\<forall>v. map_of ?il v = None \<longleftrightarrow> ids_of ?il v = []"
  proof
    fix v show "map_of ?il v = None \<longleftrightarrow> ids_of ?il v = []" using Cons.prems(2) i by (cases "v = w") simp_all
  qed
  then obtain il' where il': "AR_AddDoc d ws ?il = (True, il')"
    "\<forall>v. ids_of il' v = (if v \<in> fst ` set ws then ids_of ?il v @ [d] else ids_of ?il v)" "\<forall>v. map_of il' v = None \<longleftrightarrow> ids_of il' v = []"
    using Cons.IH [of ?il] Cons.prems(1) by auto
  have "DD_Add d (of_nat n) dd = (0, dd')" by (simp add: DD_Add_def dd'_def)
  then have "AR_AddDoc d (x # ws) il = (True, il')" using il'(1) by (simp add: x Let_def dd_def [symmetric])
  moreover have "w \<notin> fst ` set ws" using Cons.prems(1) by (simp add: x)
  ultimately show ?case using il'(2,3) i by (auto simp: x)
qed simp

fun add_docs :: "text_doc list \<Rightarrow> inverted \<Rightarrow> inverted" where
  "add_docs [] il = il"
| "add_docs ((d, ws) # docs) il = add_docs docs (snd (AR_AddDoc d ws il))"

lemma add_docs_ok:
  "\<lbrakk>indexes done il; \<forall>(d, ws) \<in> set docs. distinct (map fst ws)\<rbrakk> \<Longrightarrow> indexes (done @ docs) (add_docs docs il)"
proof (induction docs arbitrary: "done" il)
  case (Cons x docs)
  obtain d ws where x: "x = (d, ws)" by (cases x)
  obtain il' where il': "AR_AddDoc d ws il = (True, il')" "\<forall>w. ids_of il' w = (if w \<in> fst ` set ws then ids_of il w @ [d] else ids_of il w)"
    "\<forall>w. map_of il' w = None \<longleftrightarrow> ids_of il' w = []"
    using AR_AddDoc_ok [of ws il d] Cons.prems by (auto simp: x indexes_def)
  have "indexes (done @ [x]) il'" using Cons.prems(1) il'(2,3) by (auto simp: indexes_def x has_word_def)
  then show ?case using Cons.IH [of "done @ [x]" il'] Cons.prems(2) il'(1) by (simp add: x)
qed simp

lemma first_docid_ok:
  "\<forall>w \<in> set ws. map_of il w \<noteq> None \<and> ids_of il w \<noteq> [] \<Longrightarrow>
    \<exists>s b. first_docid il ws i start base = Some (Some (s, b)) \<and>
      ((s = start \<and> b = base \<and> (\<forall>w \<in> set ws. hd (ids_of il w) \<le> start)) \<or>
       (\<exists>k < length ws. b = i + k \<and> s = hd (ids_of il (ws ! k))))"
proof (induction ws arbitrary: i start base)
  case (Cons w ws)
  obtain d x xs where d: "map_of il w = Some d" "dd_ids d = x # xs" "ids_of il w = x # xs"
    using Cons.prems by (cases "ids_of il w") (auto simp: ids_of_def split: option.splits)
  show ?case
  proof (cases "start < x")
    case True
    have e: "first_docid il (w # ws) i start base = first_docid il ws (i + 1) x i" using True d by simp
    from Cons.IH [of "i + 1" x i] Cons.prems obtain s b where s: "first_docid il ws (i + 1) x i = Some (Some (s, b))"
      "(s = x \<and> b = i) \<or> (\<exists>k < length ws. b = i + 1 + k \<and> s = hd (ids_of il (ws ! k)))" by auto
    from s(2) have "\<exists>k < length (w # ws). b = i + k \<and> s = hd (ids_of il ((w # ws) ! k))"
    proof (elim disjE exE conjE)
      assume "s = x" "b = i"
      then show ?thesis using d(3) by (intro exI [of _ 0]) simp
    next
      fix k assume "k < length ws" "b = i + 1 + k" "s = hd (ids_of il (ws ! k))"
      then show ?thesis by (intro exI [of _ "Suc k"]) simp
    qed
    then show ?thesis using e s(1) by auto
  next
    case False
    have e: "first_docid il (w # ws) i start base = first_docid il ws (i + 1) start base" using False d by simp
    from Cons.IH [of "i + 1" start base] Cons.prems obtain s b where s: "first_docid il ws (i + 1) start base = Some (Some (s, b))"
      "(s = start \<and> b = base \<and> (\<forall>w \<in> set ws. hd (ids_of il w) \<le> start)) \<or> (\<exists>k < length ws. b = i + 1 + k \<and> s = hd (ids_of il (ws ! k)))"
      by auto
    from s(2) show ?thesis
    proof (elim disjE exE conjE)
      assume "s = start" "b = base" "\<forall>w \<in> set ws. hd (ids_of il w) \<le> start"
      then show ?thesis using e s(1) False d(3) by auto
    next
      fix k assume "k < length ws" "b = i + 1 + k" "s = hd (ids_of il (ws ! k))"
      then show ?thesis using e s(1) by (intro exI [of _ s] exI [of _ b]) (auto intro!: exI [of _ "Suc k"])
    qed
  qed
qed simp

lemma first_docid_unknown:
  "\<lbrakk>\<exists>w \<in> set ws. map_of il w = None; \<forall>w. map_of il w = None \<longleftrightarrow> ids_of il w = []\<rbrakk> \<Longrightarrow> first_docid il ws i s b = Some None"
proof (induction ws arbitrary: i s b)
  case (Cons w ws)
  show ?case
  proof (cases "map_of il w")
    case (Some d)
    then obtain x xs where d: "dd_ids d = x # xs" using Cons.prems(2) by (cases "dd_ids d") (auto simp: ids_of_def dest: spec [of _ w])
    have "\<exists>w \<in> set ws. map_of il w = None" using Cons.prems(1) Some by auto
    then have "first_docid il ws i s b = Some None" for i s b using Cons.IH Cons.prems(2) by blast
    then show ?thesis using Some d by simp
  qed simp
qed simp

text \<open>The documents with all words of a query.\<close>

definition matches :: "text_doc list \<Rightarrow> byte list list \<Rightarrow> int set" where
  "matches docs query = {sint d |d ws. (d, ws) \<in> set docs \<and> (\<forall>w \<in> set query. w \<in> fst ` set ws)}"

lemma matches_filter: "matches docs query = (sint \<circ> fst) ` set (filter (\<lambda>(d, ws). \<forall>w \<in> set query. w \<in> fst ` set ws) docs)"
  by (force simp: matches_def image_iff)

lemma sorted_filter_ids: "sorted_wrt (<) (map fst docs) \<Longrightarrow> sorted_wrt (<) (map fst (filter P docs))"
  by (induction docs) auto

lemma sorted_sint: "\<lbrakk>sorted out; \<forall>x \<in> set out. (x :: u32) < 2147483648\<rbrakk> \<Longrightarrow> sorted (map sint out)"
  by (induction out) (auto simp: sint_small word_le_def)

lemma retrieve_ok:
  assumes il: "indexes docs il" and docs: "sorted_wrt (<) (map fst docs)" "\<forall>(d, ws) \<in> set docs. d < 2147483648"
    and q: "query \<noteq> []" "\<forall>w \<in> set query. \<exists>x \<in> set docs. has_word w x"
  shows "\<exists>out :: u32 list. AR_Retrieve query il [] = Some (int (length out), map sint out) \<and> sorted (map sint out) \<and>
    set (map sint out) = matches docs query \<and> (2 \<le> length query \<longrightarrow> distinct (map sint out))"
proof -
  define ls where "ls = map (ids_of il) query"
  have ids: "ids_of il w = map fst (filter (has_word w) docs)" "map_of il w = None \<longleftrightarrow> ids_of il w = []" for w
    using il by (simp_all add: indexes_def)
  have ne: "\<forall>w \<in> set query. map_of il w \<noteq> None \<and> ids_of il w \<noteq> []"
    using q(2) ids by (auto simp: filter_empty_conv)
  have good: "\<forall>ids \<in> set ls. doc_list ids"
  proof
    fix x assume "x \<in> set ls"
    then obtain w where "x = map fst (filter (has_word w) docs)" using ids(1) by (auto simp: ls_def)
    then show "doc_list x" using sorted_filter_ids [OF docs(1)] docs(2) by (auto simp: doc_list_def)
  qed
  have lists: "those (map (\<lambda>w. map_option dd_ids (map_of il w)) query) = Some ls" using ne unfolding ls_def
    by (induction query) (auto simp: ids_of_def split: option.splits)
  obtain s b where f: "first_docid il query 0 0 0 = Some (Some (s, b))"
    "(s = 0 \<and> b = 0 \<and> (\<forall>w \<in> set query. hd (ids_of il w) \<le> 0)) \<or> (\<exists>k < length query. b = 0 + k \<and> s = hd (ids_of il (query ! k)))"
    using first_docid_ok [OF ne, of 0 0 0] by blast
  have sb: "b < length ls" "s = hd (ls ! b)" "ls ! b \<noteq> []"
  proof -
    have z: "hd (ids_of il (query ! 0)) = 0" if "\<forall>w \<in> set query. hd (ids_of il w) \<le> 0"
    proof -
      have "hd (ids_of il (query ! 0)) \<le> 0" using that q(1) by simp
      then show ?thesis by simp
    qed
    show "b < length ls" "s = hd (ls ! b)" using f(2) q(1) z by (auto simp: ls_def)
    then show "ls ! b \<noteq> []" using ne by (auto simp: ls_def)
  qed
  have low: "s \<le> x" if "x \<in> common ls" for x
  proof -
    have "x \<in> set (ls ! b)" "doc_list (ls ! b)" using that sb(1) good by (simp_all add: common_def)
    then show ?thesis using sb(2,3) by (cases "ls ! b") (auto simp: doc_list_def)
  qed
  have "ret_core ls s b (replicate (length query) 0) []" "ret_turn ls s b (replicate (length query) 0) 0 []"
    using sb low by (auto simp: ret_core_def ret_turn_def ls_def leD)
  then obtain out where out: "retrieve_loop ls s b (replicate (length query) 0) 0 [] = Some (map sint out)" "sorted out" "set out = common ls"
    "2 \<le> length ls \<longrightarrow> distinct out"
    using retrieve_loop_ok [OF good, of s b "replicate (length query) 0" "[]" 0] by auto
  have small: "\<forall>x \<in> set out. x < 2147483648" 
  proof
    fix x assume "x \<in> set out"
    then have "x \<in> set (ls ! b)" using out(3) sb(1) by (simp add: common_def)
    moreover have "ls ! b \<in> set ls" using sb(1) by simp
    ultimately show "x < 2147483648" using good unfolding doc_list_def by blast
  qed
  have "common ls = {d. \<exists>ws. (d, ws) \<in> set docs \<and> (\<forall>w \<in> set query. w \<in> fst ` set ws)}"
  proof (intro set_eqI iffI)
    fix d assume d: "d \<in> common ls"
    have uniq: "ws = ws'" if "(d, ws) \<in> set docs" "(d, ws') \<in> set docs" for d ws ws'
    proof -
      have "distinct (map fst docs)" using docs(1) strict_sorted_iff by blast
      then show ?thesis using that by (meson eq_key_imp_eq_value)
    qed
    have w: "\<forall>w \<in> set query. \<exists>ws. (d, ws) \<in> set docs \<and> w \<in> fst ` set ws"
    proof
      fix w assume "w \<in> set query"
      then have "d \<in> set (ids_of il w)" using d by (simp add: common_def ls_def)
      then obtain x where "x \<in> set docs" "has_word w x" "d = fst x" unfolding ids(1) by auto
      then show "\<exists>ws. (d, ws) \<in> set docs \<and> w \<in> fst ` set ws" by (cases x) (auto simp: has_word_def)
    qed
    obtain w0 where "w0 \<in> set query" using q(1) by (cases query) auto
    then obtain ws where "(d, ws) \<in> set docs" using w by blast
    then show "d \<in> {d. \<exists>ws. (d, ws) \<in> set docs \<and> (\<forall>w \<in> set query. w \<in> fst ` set ws)}" using w uniq by blast
  next
    fix d assume "d \<in> {d. \<exists>ws. (d, ws) \<in> set docs \<and> (\<forall>w \<in> set query. w \<in> fst ` set ws)}"
    then obtain ws where "(d, ws) \<in> set docs" "\<forall>w \<in> set query. has_word w (d, ws)" by (auto simp: has_word_def)
    then show "d \<in> common ls" by (auto simp: common_def ls_def ids intro!: image_eqI [of _ _ "(d, ws)"])
  qed
  then have "set (map sint out) = matches docs query" unfolding matches_def using out(3) by auto
  moreover have "distinct (map sint out)" if "2 \<le> length query"
  proof -
    have "inj_on sint (set out)" by (rule inj_onI) (metis sint_back)
    then show ?thesis using that out(4) by (simp add: distinct_map ls_def)
  qed
  moreover have "AR_Retrieve query il [] = Some (int (length out), map sint out)" using f(1) lists out(1) by (simp add: AR_Retrieve_def)
  moreover note sorted_sint [OF out(2) small]
  ultimately show ?thesis by (intro exI [of _ out]) (simp del: set_map)
qed

subsection \<open>One word\<close>

text \<open>A query of one word lists its first document twice: the first \<open>Seek\<close> in the base list finds \<open>start\<close> again.\<close>

lemma single_loop:
  assumes "doc_list ids" "p < length ids"
  shows "retrieve_loop [ids] (ids ! p) 0 [Suc p] 0 docids = Some (docids @ map sint (drop p ids))"
  using assms(2)
proof (induction "length ids - p" arbitrary: p docids)
  case (Suc k)
  have e: "drop p ids = ids ! p # drop (Suc p) ids" using Suc.prems by (simp add: Cons_nth_drop_Suc)
  have f: "fetch [ids] 0 = Some ids" "fetch [Suc p] 0 = Some (Suc p)" by (simp_all add: fetch_def)
  have l1: "retrieve_loop [ids] (ids ! p) 0 [Suc p] 0 docids = retrieve_loop [ids] (ids ! p) 0 [Suc p] (Suc 0) docids"
    by (subst retrieve_loop.simps) simp
  show ?case
  proof (cases "Suc p < length ids")
    case True
    have lt: "ids ! p < ids ! Suc p" using assms(1) True by (simp add: doc_list_def sorted_wrt_nth_less)
    then have s: "DD_Seek ids (ids ! p) (Suc p) = (sint (ids ! Suc p), Suc (Suc p))"
      using True less_imp_le [OF lt] by (subst DD_Seek.simps) simp
    have "ids ! Suc p < 2147483648" using assms(1) True by (simp add: doc_list_def)
    then have "retrieve_loop [ids] (ids ! p) 0 [Suc p] (Suc 0) docids =
        retrieve_loop [ids] (ids ! Suc p) 0 [Suc (Suc p)] 0 (docids @ [sint (ids ! p)])"
      using f s sint_small(2) by (subst retrieve_loop.simps) (simp add: Let_def)
    then show ?thesis using Suc.hyps(1) [of "Suc p"] Suc.hyps(2) True l1 e by simp
  next
    case False
    then have s: "DD_Seek ids (ids ! p) (Suc p) = (-1, Suc p)" by (subst DD_Seek.simps) simp
    have "retrieve_loop [ids] (ids ! p) 0 [Suc p] (Suc 0) docids = Some (docids @ [sint (ids ! p)])"
      using f s by (subst retrieve_loop.simps) (simp add: Let_def)
    then show ?thesis using False e l1 by simp
  qed
qed simp

lemma single_word_ok:
  assumes il: "indexes docs il" and docs: "sorted_wrt (<) (map fst docs)" "\<forall>(d, ws) \<in> set docs. d < 2147483648"
    and w: "filter (has_word w) docs = x # xs"
  shows "AR_Retrieve [w] il [] = Some (int (length xs) + 2, map (sint \<circ> fst) (x # x # xs))"
proof -
  define ids where "ids = map fst (x # xs)"
  have i: "ids_of il w = ids" "doc_list ids" "ids = fst x # map fst xs"
  proof -
    show "ids_of il w = ids" using il w by (simp add: indexes_def ids_def)
    have "ids = map fst (filter (has_word w) docs)" using w by (simp add: ids_def)
    then show "doc_list ids" using sorted_filter_ids [OF docs(1)] docs(2) by (auto simp: doc_list_def)
  qed (simp add: ids_def)
  then obtain d where d: "map_of il w = Some d" "dd_ids d = ids" by (cases "map_of il w") (auto simp: ids_of_def)
  let ?x = "fst x"
  have f: "first_docid il [w] 0 0 0 = Some (Some (?x, 0))"
  proof -
    have "\<not> 0 < ?x \<longleftrightarrow> ?x = 0" by (simp add: word_neq_0_conv [symmetric] del: word_neq_0_conv)
    then show ?thesis using d i(3) by auto
  qed
  have s: "DD_Seek ids ?x 0 = (sint ?x, Suc 0)" using i(3) by (subst DD_Seek.simps) simp
  have "?x < 2147483648" using i(2,3) by (simp add: doc_list_def)
  then have n: "sint ?x \<noteq> -1" by (rule sint_small(2))
  have "retrieve_loop [ids] ?x 0 [0] 0 [] = retrieve_loop [ids] ?x 0 [0] (Suc 0) []" by (subst retrieve_loop.simps) simp
  also have "\<dots> = retrieve_loop [ids] (ids ! 0) 0 [Suc 0] 0 [sint ?x]"
    using s n i(3) by (subst retrieve_loop.simps) (simp add: Let_def fetch_def)
  also have "\<dots> = Some ([sint ?x] @ map sint (drop 0 ids))" using i(3) by (intro single_loop [OF i(2)]) simp
  finally show ?thesis using f d i(3) by (simp add: AR_Retrieve_def)
qed

text \<open>
  C10: The text index finds the documents that contain all words of a query, in increasing order and,
  for two or more words, each of them once: when every document was added with its distinct words and
  in the order of the ids. A query with a word that no document contains finds nothing.
\<close>

theorem text_index_finds_documents:
  assumes "sorted_wrt (<) (map fst docs)" "\<forall>(d, ws) \<in> set docs. d < 2147483648 \<and> distinct (map fst ws)" "query \<noteq> []"
  shows "\<exists>r docids. AR_Retrieve query (add_docs docs []) [] = Some (r, docids) \<and> sorted docids \<and>
    set docids = matches docs query \<and> (2 \<le> length query \<longrightarrow> distinct docids)"
proof -
  have il: "indexes docs (add_docs docs [])"
    using add_docs_ok [of "[]" "[]" docs] assms(2) by (auto simp: indexes_def ids_of_def)
  show ?thesis
  proof (cases "\<forall>w \<in> set query. \<exists>x \<in> set docs. has_word w x")
    case True
    then show ?thesis using retrieve_ok [OF il assms(1) _ assms(3) True] assms(2) by fastforce
  next
    case False
    obtain w where w: "w \<in> set query" "\<forall>x \<in> set docs. \<not> has_word w x" using False by blast
    have u: "ids_of (add_docs docs []) w = []" "\<forall>w. map_of (add_docs docs []) w = None \<longleftrightarrow> ids_of (add_docs docs []) w = []"
      using il w(2) by (simp_all add: indexes_def)
    have "first_docid (add_docs docs []) query 0 0 0 = Some None"
      by (rule first_docid_unknown) (use u w(1) in blast)+
    moreover have "matches docs query = {}" using w by (auto simp: matches_def has_word_def)
    ultimately show ?thesis by (simp add: AR_Retrieve_def)
  qed
qed

theorem text_index_finds_documents_witness:
  "\<exists>r docids. AR_Retrieve [[97], [98]] (add_docs [(1, [([97], 1)]), (4, [([98], 2), ([97], 1)]), (6, [([98], 1)]), (9, [([97], 3), ([98], 1)])] []) [] =
     Some (r, docids) \<and> sorted docids \<and> set docids = {4, 9} \<and> distinct docids"
proof -
  let ?docs = "[(1, [([97], 1)]), (4, [([98], 2), ([97], 1)]), (6, [([98], 1)]), (9, [([97], 3), ([98], 1)])] :: text_doc list"
  have "matches ?docs [[97], [98]] = {4, 9}" by (simp add: matches_filter)
  then show ?thesis using text_index_finds_documents [of ?docs "[[97], [98]]"] by auto
qed

text \<open>
  C11: A query of a single word lists the first of its documents twice.
\<close>

theorem single_word_repeats_first:
  assumes "sorted_wrt (<) (map fst docs)" "\<forall>(d, ws) \<in> set docs. d < 2147483648 \<and> distinct (map fst ws)"
    and "filter (has_word w) docs = x # xs"
  shows "AR_Retrieve [w] (add_docs docs []) [] = Some (int (length xs) + 2, map (sint \<circ> fst) (x # x # xs))"
proof -
  have "indexes docs (add_docs docs [])"
    using add_docs_ok [of "[]" "[]" docs] assms(2) by (auto simp: indexes_def ids_of_def)
  then show ?thesis using single_word_ok assms by fastforce
qed

theorem single_word_repeats_first_witness:
  "AR_Retrieve [[98]] (add_docs [(1, [([97], 1)]), (4, [([98], 2), ([97], 1)]), (6, [([98], 1)])] []) [] = Some (3, [4, 4, 6])"
proof -
  have "filter (has_word [98]) [(1, [([97], 1)]), (4, [([98], 2), ([97], 1)]), (6, [([98], 1)])] = [(4, [([98], 2), ([97], 1)]), (6 :: u32, [([98], 1)])]"
    by (simp add: has_word_def)
  from single_word_repeats_first [OF _ _ this] show ?thesis by simp
qed

end
