(* ===== verification/SchemaIO.thy ===== *)
theory SchemaIO
  imports DocDump VecMgr
begin

text \<open>
  The schema file of a table (\<open>search/gamma_table_io.cc\<close>) and the schema itself (\<open>TableInfo\<close>). The \<open>int\<close>s are
  words. A short read leaves a variable without a value: \<open>None\<close>, as is a negative length for \<open>new\<close>;
  the writes succeed once the file is open.
\<close>

record sch_vector =
  sv_name :: "byte list"
  sv_type :: data_type
  sv_index :: bool
  sv_dim :: u32
  sv_model :: "byte list"
  sv_store :: "byte list"
  sv_param :: "byte list"
  sv_source :: bool

record table_info =
  ti_name :: "byte list"
  ti_fields :: "field_info list"
  ti_vectors :: "sch_vector list"
  ti_size :: u32
  ti_type :: "byte list"
  ti_param :: "byte list"
  ti_compress :: bool
  ti_types :: "byte list list"
  ti_params :: "byte list list"

definition TableInfo_new :: "u32 \<Rightarrow> table_info" where
  "TableInfo_new indexing_size = \<lparr>ti_name = [], ti_fields = [], ti_vectors = [], ti_size = indexing_size, ti_type = [], ti_param = [],
     ti_compress = False, ti_types = [], ti_params = []\<rparr>"

definition kPlaceHolder :: "byte list" where "kPlaceHolder = [78, 85, 76, 76]"

subsection \<open>Writing\<close>

definition FWriteByteArray :: "byte list \<Rightarrow> byte list option" where
  "FWriteByteArray ba = (if length ba < 2 ^ 31 then Some (le32 (of_nat (length ba)) @ ba) else None)"

definition bool_byte :: "bool \<Rightarrow> byte list" where "bool_byte b = [if b then 1 else 0]"

definition type_bytes :: "data_type \<Rightarrow> byte list" where "type_bytes t = le16 (ucast (type_byte t))"

definition write_field :: "field_info \<Rightarrow> byte list option" where
  "write_field fi = do {
     name \<leftarrow> FWriteByteArray (fi_name fi);
     Some (name @ type_bytes (fi_type fi) @ bool_byte (fi_index fi)) }"

definition WriteFieldInfos :: "field_info list \<Rightarrow> byte list option" where
  "WriteFieldInfos fs = do { bs \<leftarrow> those (map write_field fs); Some (le32 (of_nat (length fs)) @ concat bs) }"

definition write_vector :: "sch_vector \<Rightarrow> byte list option" where
  "write_vector vi = do {
     name \<leftarrow> FWriteByteArray (sv_name vi);
     model \<leftarrow> FWriteByteArray (sv_model vi);
     store_type \<leftarrow> FWriteByteArray (sv_store vi);
     param \<leftarrow> FWriteByteArray (if sv_param vi \<noteq> [] then sv_param vi else kPlaceHolder);
     Some (name @ type_bytes (sv_type vi) @ bool_byte (sv_index vi) @ le32 (sv_dim vi) @ model @ store_type @ param @ bool_byte (sv_source vi)) }"

definition WriteVectorInfos :: "sch_vector list \<Rightarrow> byte list option" where
  "WriteVectorInfos vis = do { bs \<leftarrow> those (map write_vector vis); Some (le32 (of_nat (length vis)) @ concat bs) }"

text \<open>\<open>opened\<close>: \<open>fopen\<close> succeeds.\<close>

definition TS_Write :: "bool \<Rightarrow> table_info \<Rightarrow> (int \<times> byte list option) option" where
  "TS_Write opened tb =
     (if \<not> opened then Some (-1, None)
      else do {
        fs \<leftarrow> WriteFieldInfos (ti_fields tb);
        vs \<leftarrow> WriteVectorInfos (ti_vectors tb);
        ty \<leftarrow> FWriteByteArray (ti_type tb);
        param \<leftarrow> FWriteByteArray (ti_param tb);
        Some (0, Some (le32 (ti_size tb) @ fs @ vs @ ty @ param)) })"

subsection \<open>Reading\<close>

definition FReadByteArray :: "byte list \<Rightarrow> (byte list \<times> byte list) option" where
  "FReadByteArray bs = do {
     (l, bs) \<leftarrow> fread 4 bs;
     let len = sint (of_le32 l);
     (if len < 0 then None else fread (nat len) bs) }"

text \<open>An enumeration with a value that is none of its constants is \<open>None\<close>.\<close>

definition bytes_type :: "byte list \<Rightarrow> data_type option" where
  "bytes_type bs = (let w = of_le16 bs in if w \<le> 6 then Some (byte_type (ucast w)) else None)"

definition read_field :: "byte list \<Rightarrow> (field_info \<times> byte list) option" where
  "read_field bs = do {
     (name, bs) \<leftarrow> FReadByteArray bs;
     (ty, bs) \<leftarrow> fread 2 bs;
     t \<leftarrow> bytes_type ty;
     (ix, bs) \<leftarrow> fread 1 bs;
     Some (\<lparr>fi_name = name, fi_type = t, fi_index = (ix \<noteq> [0])\<rparr>, bs) }"

fun read_n :: "(byte list \<Rightarrow> ('a \<times> byte list) option) \<Rightarrow> nat \<Rightarrow> byte list \<Rightarrow> ('a list \<times> byte list) option" where
  "read_n f 0 bs = Some ([], bs)"
| "read_n f (Suc n) bs = do { (x, bs) \<leftarrow> f bs; (xs, bs) \<leftarrow> read_n f n bs; Some (x # xs, bs) }"

definition read_all :: "(byte list \<Rightarrow> ('a \<times> byte list) option) \<Rightarrow> byte list \<Rightarrow> ('a list \<times> byte list) option" where
  "read_all f bs = do { (n, bs) \<leftarrow> fread 4 bs; read_n f (nat (sint (of_le32 n))) bs }"

definition ReadFieldInfos :: "byte list \<Rightarrow> (field_info list \<times> byte list) option" where
  "ReadFieldInfos = read_all read_field"

definition read_vector :: "byte list \<Rightarrow> (sch_vector \<times> byte list) option" where
  "read_vector bs = do {
     (name, bs) \<leftarrow> FReadByteArray bs;
     (ty, bs) \<leftarrow> fread 2 bs;
     t \<leftarrow> bytes_type ty;
     (ix, bs) \<leftarrow> fread 1 bs;
     (dim, bs) \<leftarrow> fread 4 bs;
     (model, bs) \<leftarrow> FReadByteArray bs;
     (store_type, bs) \<leftarrow> FReadByteArray bs;
     (param, bs) \<leftarrow> FReadByteArray bs;
     (src, bs) \<leftarrow> fread 1 bs;
     Some (\<lparr>sv_name = name, sv_type = t, sv_index = (ix \<noteq> [0]), sv_dim = of_le32 dim, sv_model = model, sv_store = store_type,
            sv_param = (if param = kPlaceHolder then [] else param), sv_source = (src \<noteq> [0])\<rparr>, bs) }"

definition ReadVectorInfos :: "byte list \<Rightarrow> (sch_vector list \<times> byte list) option" where
  "ReadVectorInfos = read_all read_vector"

definition TS_Read :: "byte list option \<Rightarrow> byte list \<Rightarrow> table_info \<Rightarrow> (int \<times> table_info) option" where
  "TS_Read content name tb = (case content of
     None \<Rightarrow> Some (-1, tb)
   | Some bs \<Rightarrow> do {
       (sz, bs) \<leftarrow> fread 4 bs;
       (fs, bs) \<leftarrow> ReadFieldInfos bs;
       (vs, bs) \<leftarrow> ReadVectorInfos bs;
       (ty, bs) \<leftarrow> FReadByteArray bs;
       (param, bs) \<leftarrow> FReadByteArray bs;
       Some (0, tb\<lparr>ti_name := name, ti_size := of_le32 sz, ti_fields := ti_fields tb @ fs, ti_vectors := ti_vectors tb @ vs,
                  ti_type := ty, ti_param := param\<rparr>) })"

subsection \<open>Reading what was written\<close>

lemma fread_word [simp]: "fread 4 (le32 w @ ys) = Some (le32 w, ys)"
  by (simp add: fread_app)

lemma fread_type [simp]: "fread 2 (type_bytes t @ ys) = Some (type_bytes t, ys)"
  by (simp add: fread_app type_bytes_def)

lemma fread_bool [simp]: "fread (Suc 0) (bool_byte b @ ys) = Some (bool_byte b, ys)"
  by (simp add: fread_app bool_byte_def)

lemma bool_byte_0 [simp]: "(bool_byte b \<noteq> [0]) = b"
  by (simp add: bool_byte_def)

lemma bytes_type_bytes [simp]: "bytes_type (type_bytes t) = Some t"
  by (cases t) (simp_all add: bytes_type_def type_bytes_def byte_type_def)

lemma sint_length: "n < 2 ^ 31 \<Longrightarrow> nat (sint (of_nat n :: u32)) = n"
  by (simp add: sint_uint unat_of_nat32 signed_take_bit_int_eq_self uint_nat)

lemma read_byte_array: "FWriteByteArray ba = Some bs \<Longrightarrow> FReadByteArray (bs @ ys) = Some (ba, ys)"
proof -
  assume "FWriteByteArray ba = Some bs"
  then have l: "length ba < 2 ^ 31" "bs = le32 (of_nat (length ba)) @ ba" by (auto simp: FWriteByteArray_def split: if_splits)
  have "0 \<le> sint (of_nat (length ba) :: u32)"
  proof (cases "length ba = 0")
    case False
    then show ?thesis using sint_length [OF l(1)] by linarith
  qed simp
  then show ?thesis using l(2) sint_length [OF l(1)] by (simp add: FReadByteArray_def fread_app)
qed

lemma read_field_write: "write_field fi = Some bs \<Longrightarrow> read_field (bs @ ys) = Some (fi, ys)"
  by (cases fi) (auto simp: write_field_def read_field_def read_byte_array bind_eq_Some_conv)

text \<open>A store parameter that is the place holder itself is lost.\<close>

definition placeholder_lost :: "sch_vector \<Rightarrow> sch_vector" where
  "placeholder_lost vi = (if sv_param vi = kPlaceHolder then vi\<lparr>sv_param := []\<rparr> else vi)"

lemma read_vector_write: "write_vector vi = Some bs \<Longrightarrow> read_vector (bs @ ys) = Some (placeholder_lost vi, ys)"
  by (cases vi) (auto simp: write_vector_def read_vector_def read_byte_array bind_eq_Some_conv placeholder_lost_def kPlaceHolder_def split: if_splits)

lemma read_n_write:
  assumes step: "\<And>x bs ys. w x = Some bs \<Longrightarrow> f (bs @ ys) = Some (h x, ys)"
  shows "those (map w xs) = Some bss \<Longrightarrow> read_n f (length xs) (concat bss @ ys) = Some (map h xs, ys)"
proof (induction xs arbitrary: bss)
  case (Cons x xs)
  then obtain b bs where b: "w x = Some b" "those (map w xs) = Some bs" "bss = b # bs" by (auto split: option.splits)
  then show ?case using step [OF b(1)] Cons.IH [OF b(2)] by simp
qed simp

lemma read_all_write:
  assumes "\<And>x bs ys. w x = Some bs \<Longrightarrow> f (bs @ ys) = Some (h x, ys)" "those (map w xs) = Some bss" "length xs < 2 ^ 31"
  shows "read_all f (le32 (of_nat (length xs)) @ concat bss @ ys) = Some (map h xs, ys)"
  using read_n_write [OF assms(1,2)] sint_length [OF assms(3)] by (simp add: read_all_def)

text \<open>
  C32: What \<open>Load\<close> reads from the schema file is the schema that was written, except that the list of the
  retrieval types with their parameters and the compression are lost, and so is a store parameter
  that is the place holder for none.
\<close>

theorem schema_file_roundtrip:
  assumes w: "TS_Write True tb = Some (ret, Some bs)" and n: "length (ti_fields tb) < 2 ^ 31" "length (ti_vectors tb) < 2 ^ 31"
  shows "ret = 0 \<and> TS_Read (Some bs) (ti_name tb) (TableInfo_new sz) =
    Some (0, tb\<lparr>ti_vectors := map placeholder_lost (ti_vectors tb), ti_compress := False, ti_types := [], ti_params := []\<rparr>)"
proof -
  obtain fs vs ty param where p: "those (map write_field (ti_fields tb)) = Some fs" "those (map write_vector (ti_vectors tb)) = Some vs"
    "FWriteByteArray (ti_type tb) = Some ty" "FWriteByteArray (ti_param tb) = Some param" "ret = 0"
    "bs = le32 (ti_size tb) @ (le32 (of_nat (length (ti_fields tb))) @ concat fs) @ (le32 (of_nat (length (ti_vectors tb))) @ concat vs) @ ty @ param"
    using w by (auto simp: TS_Write_def WriteFieldInfos_def WriteVectorInfos_def bind_eq_Some_conv)
  have "ReadFieldInfos (le32 (of_nat (length (ti_fields tb))) @ concat fs @ ys) = Some (map (\<lambda>x. x) (ti_fields tb), ys)" for ys
    unfolding ReadFieldInfos_def by (rule read_all_write [OF _ p(1) n(1)]) (rule read_field_write)
  moreover have "ReadVectorInfos (le32 (of_nat (length (ti_vectors tb))) @ concat vs @ ys) = Some (map placeholder_lost (ti_vectors tb), ys)" for ys
    unfolding ReadVectorInfos_def by (rule read_all_write [OF _ p(2) n(2)]) (rule read_vector_write)
  moreover note read_byte_array [OF p(3)] read_byte_array [OF p(4), of "[]"]
  ultimately show ?thesis by (simp add: TS_Read_def p(5,6) TableInfo_new_def)
qed

theorem schema_file_roundtrip_witness:
  "\<exists>bs. TS_Write True \<lparr>ti_name = [116], ti_fields = [\<lparr>fi_name = [97], fi_type = data_type.LONG, fi_index = True\<rparr>], ti_vectors = [], ti_size = 5,
      ti_type = [], ti_param = [], ti_compress = True, ti_types = [[70], [72]], ti_params = [[123, 125], [123, 125]]\<rparr> = Some (0, Some bs) \<and>
    TS_Read (Some bs) [116] (TableInfo_new 0) =
      Some (0, (TableInfo_new 5)\<lparr>ti_name := [116], ti_fields := [\<lparr>fi_name = [97], fi_type = data_type.LONG, fi_index = True\<rparr>]\<rparr>)"
proof -
  let ?t = "\<lparr>ti_name = [116], ti_fields = [\<lparr>fi_name = [97], fi_type = data_type.LONG, fi_index = True\<rparr>], ti_vectors = [], ti_size = 5,
    ti_type = [], ti_param = [], ti_compress = True, ti_types = [[70], [72]], ti_params = [[123, 125], [123, 125]]\<rparr>"
  obtain bs where bs: "TS_Write True ?t = Some (0, Some bs)"
    by (simp add: TS_Write_def WriteFieldInfos_def WriteVectorInfos_def write_field_def FWriteByteArray_def)
  with schema_file_roundtrip [OF bs, of 0] show ?thesis by (simp add: TableInfo_new_def)
qed

end
