(* ===== verification/Engine.thy ===== *)
theory Engine
  imports Table VecSearch Retrieval SchemaIO
begin

text \<open>
  The engine (\<open>search/gamma_engine.cc\<close>): a table, the vectors with their indexes, the bitmap of deleted
  documents, the range index over the fields and the text index. A document is its key with its table
  fields, and its vector fields. A null pointer or another fault is \<open>None\<close>.

  Threads: where a call waits, the threads it waits for take their turns. A read waits for its row to be
  on disk, so \<open>wait_table\<close> and \<open>wait_vecs\<close> let the writers finish before; \<open>Delete\<close> of the range index waits for an empty
  queue, so \<open>IX_drain\<close> lets the worker of the index finish. The thread that feeds the vector indexes
  takes its turns (\<open>EN_IndexTurn\<close>) between the calls. No migration is running.
\<close>

datatype index_status = UNINDEXED | INDEXING | INDEXED

datatype feeder = NoThread | Started | Feeding | Failed

record ('i, 'f) engine =
  en_table :: table
  en_vec :: "('i, 'f) vecmgr"
  en_bits :: bitmap_mgr
  en_range :: "mfx option"
  en_text :: "inverted option"
  en_max :: int
  en_size :: int
  en_deleted :: int
  en_running :: int
  en_status :: index_status
  en_feeder :: feeder
  en_dirty :: bool
  en_created :: bool
  en_schema :: "(byte list \<times> byte list) option"
  en_dumped :: bool

text \<open>The parameters: the hash of the keys, the contents of variables and buffers without a value, and
  what the writes to the bitmap file return.\<close>

record eng_env =
  ee_hash :: "byte list \<Rightarrow> u64"
  ee_junk :: "nat \<Rightarrow> byte"
  ee_g :: "nat \<Rightarrow> byte"
  ee_type :: data_type
  ee_docid :: int
  ee_r1 :: int
  ee_r2 :: int
  ee_io :: "nat \<Rightarrow> u32 \<Rightarrow> int"

type_synonym full_doc = "doc \<times> doc_field list"

subsection \<open>Waiting for the threads\<close>

definition settle_mgr :: "sm option \<Rightarrow> sm option option" where
  "settle_mgr mo = (case mo of None \<Rightarrow> Some None | Some m \<Rightarrow> map_option Some (SM_Writer (length (sm_queue m)) m))"

definition settle_cols :: "(byte list \<times> column) list \<Rightarrow> (byte list \<times> column) list option" where
  "settle_cols cs = those (map (\<lambda>(n, c). map_option (\<lambda>m. (n, c\<lparr>col_sm := m\<rparr>)) (settle_mgr (col_sm c))) cs)"

definition settle_fields :: "docfields option \<Rightarrow> docfields option option" where
  "settle_fields d = (case d of
     None \<Rightarrow> Some None
   | Some d \<Rightarrow> do {
       f \<leftarrow> settle_cols (df_fixed d);
       s \<leftarrow> settle_cols (df_str d);
       u \<leftarrow> settle_cols (df_mul d);
       Some (Some (d\<lparr>df_fixed := f, df_str := s, df_mul := u\<rparr>)) })"

definition settle_table :: "table \<Rightarrow> table option" where
  "settle_table tb = do {
     m \<leftarrow> settle_mgr (tb_sm tb);
     d \<leftarrow> settle_fields (tb_fields tb);
     Some (tb\<lparr>tb_sm := m, tb_fields := d\<rparr>) }"

definition settle_vecs :: "('i, 'f) vecmgr \<Rightarrow> ('i, 'f) vecmgr option" where
  "settle_vecs vm = do {
     raw \<leftarrow> those (map (\<lambda>(n, v). map_option (\<lambda>m. (n, v\<lparr>rv_sm := m\<rparr>)) (settle_mgr (rv_sm v))) (vg_raw vm));
     Some (vm\<lparr>vg_raw := raw\<rparr>) }"

definition wait_table :: "('i, 'f) engine \<Rightarrow> ('i, 'f) engine option" where
  "wait_table e = do { tb \<leftarrow> settle_table (en_table e); Some (e\<lparr>en_table := tb\<rparr>) }"

definition wait_vecs :: "('i, 'f) engine \<Rightarrow> ('i, 'f) engine option" where
  "wait_vecs e = do { vm \<leftarrow> settle_vecs (en_vec e); Some (e\<lparr>en_vec := vm\<rparr>) }"

text \<open>A turn of the worker of the range index: an ADD reads the value from the table. Only fields with an
  index are queued.\<close>

definition IX_turn :: "eng_env \<Rightarrow> ('i, 'f) engine \<Rightarrow> ('i, 'f) engine option" where
  "IX_turn env e = do {
     m \<leftarrow> en_range e;
     (case mx_queue m of
        OpAdd docid field # q \<Rightarrow> do {
          (ret, key, tb1) \<leftarrow> TB_GetFieldRawValue (ee_g env) docid field [] None (en_table e);
          (keys, tb2) \<leftarrow> (if ret = 0 then Some (None, tb1)
             else do {
               (r, ks, tb2) \<leftarrow> TB_GetColFieldRawValue (ee_g env) (ee_type env) docid (word_of_int field) [] tb1;
               Some (if r \<noteq> 0 then None else Some ks, tb2) });
          m' \<leftarrow> MFR_Worker (\<lambda>d f. if ret = 0 then Some key else None) (\<lambda>d f. keys) m;
          Some (e\<lparr>en_table := tb2, en_range := Some m'\<rparr>) }
      | _ \<Rightarrow> do { m' \<leftarrow> MFR_Worker (\<lambda>d f. None) (\<lambda>d f. None) m; Some (e\<lparr>en_range := Some m'\<rparr>) }) }"

fun IX_turns :: "eng_env \<Rightarrow> nat \<Rightarrow> ('i, 'f) engine \<Rightarrow> ('i, 'f) engine option" where
  "IX_turns env 0 e = Some e"
| "IX_turns env (Suc n) e = do { e' \<leftarrow> IX_turn env e; IX_turns env n e' }"

definition IX_drain :: "eng_env \<Rightarrow> ('i, 'f) engine \<Rightarrow> ('i, 'f) engine option" where
  "IX_drain env e = do { e' \<leftarrow> wait_table e; m \<leftarrow> en_range e'; IX_turns env (length (mx_queue m)) e' }"

subsection \<open>The range index of the engine\<close>

definition IX_Add :: "int \<Rightarrow> int \<Rightarrow> ('i, 'f) engine \<Rightarrow> ('i, 'f) engine option" where
  "IX_Add docid field e = do { m \<leftarrow> en_range e; (r, m') \<leftarrow> MFR_Add m docid field; Some (e\<lparr>en_range := Some m'\<rparr>) }"

text \<open>\<open>MultiFieldsRangeIndex::Delete\<close> reads the value, waits for the empty queue, and queues.\<close>

definition IX_Delete :: "eng_env \<Rightarrow> int \<Rightarrow> int \<Rightarrow> ('i, 'f) engine \<Rightarrow> ('i, 'f) engine option" where
  "IX_Delete env docid field e = do {
     m \<leftarrow> en_range e;
     ix \<leftarrow> fetch (mx_flds m) field;
     (case ix of
        None \<Rightarrow> Some e
      | Some x \<Rightarrow> do {
          e1 \<leftarrow> wait_table e;
          (ret, v, tb) \<leftarrow> TB_GetFieldRawValue (ee_g env) docid field [] None (en_table e1);
          e2 \<leftarrow> IX_drain env (e1\<lparr>en_table := tb\<rparr>);
          m2 \<leftarrow> en_range e2;
          (r, m3) \<leftarrow> MFR_Delete (\<lambda>d f. Some v) m2 docid field;
          Some (e2\<lparr>en_range := Some m3\<rparr>) }) }"

fun index_fields :: "int \<Rightarrow> doc_field list \<Rightarrow> ('i, 'f) engine \<Rightarrow> ('i, 'f) engine option" where
  "index_fields docid [] e = Some e"
| "index_fields docid (f # fs) e = do {
     idx \<leftarrow> TB_GetAttrIdx (fd_name f) (en_table e);
     e' \<leftarrow> IX_Add docid idx e;
     index_fields docid fs e' }"

fun unindex_fields :: "eng_env \<Rightarrow> int \<Rightarrow> doc_field list \<Rightarrow> ('i, 'f) engine \<Rightarrow> ('i, 'f) engine option" where
  "unindex_fields env docid [] e = Some e"
| "unindex_fields env docid (f # fs) e = do {
     idx \<leftarrow> TB_GetAttrIdx (fd_name f) (en_table e);
     e' \<leftarrow> IX_Delete env docid idx e;
     unindex_fields env docid fs e' }"

fun unindex_all :: "eng_env \<Rightarrow> int \<Rightarrow> (byte list \<times> int) list \<Rightarrow> ('i, 'f) engine \<Rightarrow> ('i, 'f) engine option" where
  "unindex_all env docid [] e = Some e"
| "unindex_all env docid ((name, idx) # rest) e = do { e' \<leftarrow> IX_Delete env docid idx e; unindex_all env docid rest e' }"

subsection \<open>Building the vector indexes\<close>

definition EN_BuildIndex :: "('i, 'f) engine \<Rightarrow> int \<times> ('i, 'f) engine" where
  "EN_BuildIndex e =
     (let running = en_running e; e1 = e\<lparr>en_running := running + 1\<rparr> in
      if running \<noteq> 0
      then (let (r, vm) = VG_Indexing (en_vec e1) in (if r \<noteq> 0 then -1 else 0, e1\<lparr>en_vec := vm\<rparr>))
      else (0, e1\<lparr>en_feeder := Started\<rparr>))"

text \<open>A turn of the thread \<open>Indexing\<close>; after an error it sleeps for ever.\<close>

definition EN_IndexTurn :: "eng_env \<Rightarrow> ('i, 'f) engine \<Rightarrow> ('i, 'f) engine option" where
  "EN_IndexTurn env e = (case en_feeder e of
     Started \<Rightarrow>
       (let (r, vm) = VG_Indexing (en_vec e); e1 = e\<lparr>en_vec := vm\<rparr>
        in Some (if r \<noteq> 0 then e1\<lparr>en_running := 0, en_feeder := NoThread\<rparr> else e1\<lparr>en_feeder := Feeding\<rparr>))
   | Feeding \<Rightarrow>
       (if en_running e = 0 then Some (e\<lparr>en_feeder := NoThread\<rparr>)
        else do {
          e1 \<leftarrow> wait_vecs e;
          (r, dirty, vm) \<leftarrow> VG_AddRTVecsToIndex (ee_g env) (en_bits e1) (en_vec e1);
          let e2 = e1\<lparr>en_status := INDEXED, en_vec := vm\<rparr>;
          Some (if r < 0 then e2\<lparr>en_feeder := Failed\<rparr> else if dirty then e2\<lparr>en_dirty := True\<rparr> else e2) })
   | Failed \<Rightarrow> Some (if en_running e = 0 then e\<lparr>en_feeder := NoThread\<rparr> else e)
   | NoThread \<Rightarrow> Some e)"

definition build_if_due :: "('i, 'f) engine \<Rightarrow> ('i, 'f) engine" where
  "build_if_due e =
     (if en_running e = 0 \<and> en_status e = UNINDEXED \<and> en_size e \<le> en_max e then snd (EN_BuildIndex e) else e)"

subsection \<open>Adding and updating documents\<close>

definition EN_Update :: "eng_env \<Rightarrow> int \<Rightarrow> doc_field list \<Rightarrow> doc_field list \<Rightarrow> ('i, 'f) engine \<Rightarrow> (int \<times> ('i, 'f) engine) option" where
  "EN_Update env docid fs vs e = do {
     (ret, vm) \<leftarrow> VG_Update docid vs (en_vec e);
     let e1 = e\<lparr>en_vec := vm\<rparr>;
     (if ret \<noteq> 0 then Some (ret, e1)
      else do {
        e2 \<leftarrow> unindex_fields env docid fs e1;
        e3 \<leftarrow> wait_table e2;
        (r, tb) \<leftarrow> TB_Update (ee_g env) fs docid (en_table e3);
        let e4 = e3\<lparr>en_table := tb\<rparr>;
        (if r \<noteq> 0 then Some (-1, e4)
         else do { e5 \<leftarrow> index_fields docid fs e4; Some (0, e5\<lparr>en_dirty := True\<rparr>) }) }) }"

text \<open>The ids of \<open>n\<close> new documents are taken.\<close>

definition take_ids :: "eng_env \<Rightarrow> int \<Rightarrow> ('i, 'f) engine \<Rightarrow> ('i, 'f) engine option" where
  "take_ids env n e = do {
     bits \<leftarrow> BM_SetMaxID (ee_io env) (en_bits e) (word_of_int (en_max e + n));
     Some (e\<lparr>en_max := en_max e + n, en_bits := bits\<rparr>) }"

definition EN_AddOrUpdate :: "eng_env \<Rightarrow> full_doc \<Rightarrow> ('i, 'f) engine \<Rightarrow> (int \<times> ('i, 'f) engine) option" where
  "EN_AddOrUpdate env d e = (case d of (d, vs) \<Rightarrow> do {
     (r, docid) \<leftarrow> TB_GetDocIDByKey (ee_hash env) (dc_key d) (-1) (en_table e);
     (if docid = -1
      then do {
        (ret, tb) \<leftarrow> TB_Add (ee_hash env) (ee_junk env) (dc_key d) (dc_fields d) (en_max e) (en_table e);
        let e1 = e\<lparr>en_table := tb\<rparr>;
        (if ret \<noteq> 0 then Some (-2, e1)
         else do {
           e2 \<leftarrow> index_fields (en_max e1) (dc_fields d) e1;
           (ret, vm) \<leftarrow> VG_AddToStore (en_max e2) vs (en_vec e2);
           let e3 = e2\<lparr>en_vec := vm\<rparr>;
           (if ret \<noteq> 0 then Some (-4, e3)
            else do { e4 \<leftarrow> take_ids env 1 e3; Some (0, (build_if_due e4)\<lparr>en_dirty := True\<rparr>) }) }) }
      else do {
        (ret, e1) \<leftarrow> EN_Update env docid (dc_fields d) vs e;
        Some (if ret \<noteq> 0 then (-3, e1) else (0, e1\<lparr>en_dirty := True\<rparr>)) }) })"

subsection \<open>Batches\<close>

text \<open>The table reports the documents without a key by their place in the batch.\<close>

fun report :: "bool list \<Rightarrow> int \<Rightarrow> int list \<Rightarrow> int list option" where
  "report [] i codes = Some codes"
| "report (bad # bads) i codes = do { codes' \<leftarrow> (if bad then store codes i (-1) else Some codes); report bads (i + 1) codes' }"

type_synonym words = "(byte list \<times> nat) list list"

text \<open>The documents of a batch into the indexes and the vectors. With \<open>words\<close> (the second version of
  \<open>AddOrUpdateDocs\<close>) also into the text index.\<close>

fun batch_index :: "words option \<Rightarrow> int \<Rightarrow> full_doc list \<Rightarrow> nat list \<Rightarrow> int list \<Rightarrow> ('i, 'f) engine \<Rightarrow> (int list \<times> ('i, 'f) engine) option" where
  "batch_index words start docs [] codes e = Some (codes, e)"
| "batch_index words start docs (i # is) codes e = do {
     (d, vs) \<leftarrow> fetch docs (int i);
     let docid = en_max e + int i - start;
     e1 \<leftarrow> index_fields docid (dc_fields d) e;
     (ret, vm) \<leftarrow> VG_AddToStore docid vs (en_vec e1);
     let e2 = e1\<lparr>en_vec := vm\<rparr>;
     (if ret \<noteq> 0
      then do { codes' \<leftarrow> store codes (int i) (-1); batch_index words start docs is codes' e2 }
      else do {
        e3 \<leftarrow> (case words of
                None \<Rightarrow> Some e2
              | Some ws \<Rightarrow> do {
                  w \<leftarrow> fetch ws (int i);
                  il \<leftarrow> en_text e2;
                  Some (e2\<lparr>en_text := Some (snd (AR_AddDoc (word_of_int docid) w il))\<rparr>) });
        batch_index words start docs is codes e3 }) }"

definition batch_add :: "eng_env \<Rightarrow> words option \<Rightarrow> nat \<Rightarrow> nat \<Rightarrow> full_doc list \<Rightarrow> int list \<Rightarrow> ('i, 'f) engine \<Rightarrow>
    (full_doc list \<times> int list \<times> ('i, 'f) engine) option" where
  "batch_add env words start n docs codes e =
     (if n = 0 then Some (docs, codes, e)
      else do {
        (bad, ds, tb) \<leftarrow> TB_BatchAdd (ee_hash env) (ee_junk env) start n (en_max e) (map fst docs) (en_table e);
        codes1 \<leftarrow> report bad 0 codes;
        let docs1 = zip ds (map snd docs);
        (codes2, e1) \<leftarrow> batch_index words (int start) docs1 [start..<start + n] codes1 (e\<lparr>en_table := tb\<rparr>);
        e2 \<leftarrow> take_ids env (int n) e1;
        Some (docs1, codes2, e2) })"

text \<open>A known key ends the batch; its document is updated. Only the first version makes an updated
  document visible again that was deleted.\<close>

definition make_visible :: "eng_env \<Rightarrow> int \<Rightarrow> ('i, 'f) engine \<Rightarrow> ('i, 'f) engine option" where
  "make_visible env docid e = do {
     deleted \<leftarrow> BM_Test (en_bits e) (word_of_int docid);
     (if deleted
      then do {
        (r, bits) \<leftarrow> BM_Unset (en_bits e) (word_of_int docid);
        (r, bits) \<leftarrow> BM_Dump (ee_io env) bits (word_of_int docid) 1;
        Some (e\<lparr>en_bits := bits\<rparr>) }
      else Some e) }"

fun batch_loop :: "eng_env \<Rightarrow> words option \<Rightarrow> nat list \<Rightarrow> byte list list \<Rightarrow> nat \<Rightarrow> nat \<Rightarrow> full_doc list \<Rightarrow> int list \<Rightarrow> ('i, 'f) engine \<Rightarrow>
    (int list \<times> ('i, 'f) engine) option" where
  "batch_loop env words [] seen start n docs codes e = do {
     (docs', codes', e') \<leftarrow> batch_add env words start n docs codes e;
     Some (codes', e') }"
| "batch_loop env words (i # is) seen start n docs codes e = do {
     (d, vs) \<leftarrow> fetch docs (int i);
     let dup = dc_key d \<in> set seen;
     let seen' = (if dup then seen else dc_key d # seen);
     (r, docid) \<leftarrow> TB_GetDocIDByKey (ee_hash env) (dc_key d) (-1) (en_table e);
     (if docid = -1 \<and> \<not> dup then batch_loop env words is seen' start (n + 1) docs codes e
      else do {
        (docs1, codes1, e1) \<leftarrow> batch_add env words start n docs codes e;
        (r, docid1) \<leftarrow> (if dup then TB_GetDocIDByKey (ee_hash env) (dc_key d) docid (en_table e1) else Some (r, docid));
        (ret, e2) \<leftarrow> EN_Update env docid1 (dc_fields d) vs e1;
        e3 \<leftarrow> (if ret \<noteq> 0 \<or> words \<noteq> None then Some e2 else make_visible env docid1 e2);
        batch_loop env words is seen' (i + 1) 0 docs1 codes1 e3 }) }"

definition EN_AddOrUpdateDocs :: "eng_env \<Rightarrow> words option \<Rightarrow> full_doc list \<Rightarrow> int list \<Rightarrow> ('i, 'f) engine \<Rightarrow>
    (int \<times> int list \<times> ('i, 'f) engine) option" where
  "EN_AddOrUpdateDocs env words docs codes e = do {
     (codes', e1) \<leftarrow> batch_loop env words [0..<length docs] [] 0 0 docs codes e;
     Some (0, codes', (build_if_due e1)\<lparr>en_dirty := True\<rparr>) }"

subsection \<open>Deleting and reading documents by key\<close>

definition mark_deleted :: "eng_env \<Rightarrow> int \<Rightarrow> ('i, 'f) engine \<Rightarrow> ('i, 'f) engine option" where
  "mark_deleted env docid e = do {
     (r, bits) \<leftarrow> BM_Set (en_bits e) (word_of_int docid);
     (r, bits) \<leftarrow> BM_Dump (ee_io env) bits (word_of_int docid) 1;
     Some (e\<lparr>en_deleted := en_deleted e + 1, en_bits := bits\<rparr>) }"

text \<open>What \<open>Delete\<close> and \<open>DelDocByFilter\<close> do for a document.\<close>

definition remove_doc :: "eng_env \<Rightarrow> int \<Rightarrow> byte list \<Rightarrow> ('i, 'f) engine \<Rightarrow> ('i, 'f) engine option" where
  "remove_doc env docid key e = do {
     e1 \<leftarrow> mark_deleted env docid e;
     e2 \<leftarrow> unindex_all env docid (tb_attr_idx (en_table e1)) e1;
     (r, tb) \<leftarrow> TB_Delete (ee_hash env) key (en_table e2);
     (r, vm) \<leftarrow> VG_Delete docid (en_vec e2);
     Some (e2\<lparr>en_table := tb, en_vec := vm\<rparr>) }"

definition EN_Delete :: "eng_env \<Rightarrow> byte list \<Rightarrow> ('i, 'f) engine \<Rightarrow> (int \<times> ('i, 'f) engine) option" where
  "EN_Delete env key e = do {
     (ret, docid) \<leftarrow> TB_GetDocIDByKey (ee_hash env) key (-1) (en_table e);
     (if ret \<noteq> 0 \<or> docid < 0 then Some (1, e)
      else do {
        deleted \<leftarrow> BM_Test (en_bits e) (word_of_int docid);
        (if deleted then Some (2, e)
         else do { e1 \<leftarrow> remove_doc env docid key e; Some (0, e1\<lparr>en_dirty := True\<rparr>) }) }) }"

fun EN_DeleteDocs :: "eng_env \<Rightarrow> byte list list \<Rightarrow> ('i, 'f) engine \<Rightarrow> (bool \<times> ('i, 'f) engine) option" where
  "EN_DeleteDocs env [] e = Some (True, e)"
| "EN_DeleteDocs env (key # keys) e = do {
     (r, e1) \<leftarrow> EN_Delete env key e;
     (ok, e2) \<leftarrow> EN_DeleteDocs env keys e1;
     Some (ok \<and> \<not> r < 0, e2) }"

text \<open>The floats of a vector behind its length, as text.\<close>

definition vector_value :: "byte list \<Rightarrow> byte list option" where
  "vector_value v = do {
     fs \<leftarrow> those (map (\<lambda>j. map_option (\<lambda>b. show_float 8 23 (unat (of_le32 b))) (mem_slice v (4 * j) 4)) [1..<length v div 4]);
     Some ([91] @ concat (map (\<lambda>f. f @ [44, 32]) (butlast fs)) @ (if fs = [] then [] else last fs) @ [93]) }"

definition vector_fields :: "byte list list \<Rightarrow> byte list list \<Rightarrow> doc_field list option" where
  "vector_fields names vecs = those (map (\<lambda>(name, v). map_option (\<lambda>t.
     \<lparr>fd_name = name, fd_value = t, fd_source = [], fd_type = VECTOR, fd_mul = []\<rparr>) (vector_value v)) (zip names vecs))"

text \<open>\<open>to_str\<close>: the text of a float, not used for raw vectors.\<close>

definition float_text :: "byte list \<Rightarrow> byte list" where
  "float_text b = show_float 8 23 (unat (of_le32 b))"

definition EN_GetDocById :: "eng_env \<Rightarrow> int \<Rightarrow> full_doc \<Rightarrow> ('i, 'f) engine \<Rightarrow> (int \<times> full_doc \<times> ('i, 'f) engine) option" where
  "EN_GetDocById env docid d e = do {
     deleted \<leftarrow> BM_Test (en_bits e) (word_of_int docid);
     (if deleted then Some (-1, d, e)
      else do {
        e1 \<leftarrow> wait_table e;
        (ret, doc, tb) \<leftarrow> TB_GetDocInfo (ee_g env) (ee_type env) docid [] (fst d) (en_table e1);
        let e2 = e1\<lparr>en_table := tb\<rparr>;
        (if ret \<noteq> 0 then Some (ret, (doc, snd d), e2)
         else do {
           let names = map fst (vg_raw (en_vec e2));
           e3 \<leftarrow> wait_vecs e2;
           (ret, vecs, vm) \<leftarrow> VG_GetVector float_text (ee_g env) True (map (\<lambda>n. (n, docid)) names) (en_vec e3);
           fs \<leftarrow> (if ret = 0 \<and> length vecs = length names then vector_fields names vecs else Some []);
           Some (ret, (doc, snd d @ fs), e3\<lparr>en_vec := vm\<rparr>) }) }) }"

definition EN_GetDoc :: "eng_env \<Rightarrow> byte list \<Rightarrow> full_doc \<Rightarrow> ('i, 'f) engine \<Rightarrow> (int \<times> full_doc \<times> ('i, 'f) engine) option" where
  "EN_GetDoc env key d e = do {
     (ret, docid) \<leftarrow> TB_GetDocIDByKey (ee_hash env) key (-1) (en_table e);
     (if ret \<noteq> 0 \<or> docid < 0 then Some (-1, d, e) else EN_GetDocById env docid d e) }"

definition empty_doc :: full_doc where "empty_doc = (\<lparr>dc_key = [], dc_fields = []\<rparr>, [])"

text \<open>The documents of several keys; a document that is not found gets the key ''-1''.\<close>

fun EN_GetDocs :: "eng_env \<Rightarrow> byte list list \<Rightarrow> (byte list \<times> full_doc) list \<Rightarrow> ('i, 'f) engine \<Rightarrow>
    (int \<times> (byte list \<times> full_doc) list \<times> ('i, 'f) engine) option" where
  "EN_GetDocs env [] docs e = Some (0, docs, e)"
| "EN_GetDocs env (key # keys) docs e =
     (case om_index key empty_doc docs of (d, docs1) \<Rightarrow> do {
        (ret, d', e1) \<leftarrow> EN_GetDoc env key d e;
        let d'' = (if ret \<noteq> 0 then ((fst d')\<lparr>dc_key := [45, 49]\<rparr>, snd d') else d');
        EN_GetDocs env keys (om_put key d'' docs1) e1 })"

definition EN_GetDocsNum :: "('i, 'f) engine \<Rightarrow> int" where
  "EN_GetDocsNum e = en_max e - en_deleted e"

end
