(* ===== verification/EngineQuery.thy ===== *)
theory EngineQuery
  imports Engine "HOL-Library.Signed_Division"
begin

text \<open>
  Searching and filtering in the engine (\<open>search/gamma_engine.cc\<close>): the filters of a request over the
  range index and the text index, deletion by filter, and \<open>Search\<close> with the controller that limits the
  number of concurrent requests.
\<close>

record range_filter =
  rf_field :: "byte list"
  rf_lower :: "byte list"
  rf_upper :: "byte list"
  rf_include_lower :: bool
  rf_include_upper :: bool

record term_filter =
  tf_field :: "byte list"
  tf_value :: "byte list"
  tf_union :: nat

record 'f request =
  rq_num :: int
  rq_topn :: nat
  rq_brute :: bool
  rq_vecs :: "'f vquery list"
  rq_ranges :: "range_filter list"
  rq_terms :: "term_filter list"
  rq_texts :: "byte list list"
  rq_l2 :: bool
  rq_sqrt :: bool
  rq_and :: bool
  rq_rank :: bool
  rq_params :: "byte list"

subsection \<open>Filters\<close>

text \<open>A number that is no operator has no meaning in the model: \<open>None\<close>. \<open>resize\<close> gives a range filter the
  operator 0. The flags for the bounds are not used.\<close>

definition filter_operator :: "nat \<Rightarrow> filter_op option" where
  "filter_operator n = (if n = 0 then Some FAnd else if n = 1 then Some FOr else if n = 2 then Some FNot else None)"

definition range_info :: "table \<Rightarrow> range_filter \<Rightarrow> filter_info option" where
  "range_info tb f = do {
     idx \<leftarrow> TB_GetAttrIdx (rf_field f) tb;
     Some \<lparr>f_field = idx, f_lower = rf_lower f, f_upper = rf_upper f, f_op = FAnd\<rparr> }"

definition term_info :: "table \<Rightarrow> term_filter \<Rightarrow> filter_info option" where
  "term_info tb f = do {
     idx \<leftarrow> TB_GetAttrIdx (tf_field f) tb;
     op \<leftarrow> filter_operator (tf_union f);
     Some \<lparr>f_field = idx, f_lower = tf_value f, f_upper = [], f_op = op\<rparr> }"

definition filter_infos :: "table \<Rightarrow> range_filter list \<Rightarrow> term_filter list \<Rightarrow> filter_info list option" where
  "filter_infos tb rs ts = do {
     a \<leftarrow> those (map (range_info tb) rs);
     b \<leftarrow> those (map (term_info tb) ts);
     Some (a @ b) }"

definition EN_filter :: "eng_env \<Rightarrow> range_filter list \<Rightarrow> term_filter list \<Rightarrow> ('i, 'f) engine \<Rightarrow> (int \<times> mrq) option" where
  "EN_filter env rs ts e = do {
     fs \<leftarrow> filter_infos (en_table e) rs ts;
     m \<leftarrow> en_range e;
     MFR_Search (ee_r1 env) (ee_r2 env) (mx_flds m) fs }"

text \<open>The ids of the text filter are appended to those of the results; the value of \<open>Retrieve\<close> is not
  looked at. The second result is what the condition of the search gets.\<close>

definition EN_PageTextFilter :: "byte list list \<Rightarrow> mrq \<Rightarrow> ('i, 'f) engine \<Rightarrow> (int \<times> mrq) option" where
  "EN_PageTextFilter texts r e =
     (if texts = [] then Some (int (length (m_text r)), r)
      else do {
        il \<leftarrow> en_text e;
        (ret, ids) \<leftarrow> AR_Retrieve texts il (m_text r);
        Some (int (length ids), r\<lparr>m_text := ids\<rparr>) })"

datatype result_code = RC_SUCCESS | RC_INDEX_NOT_TRAINED | RC_SEARCH_ERROR

text \<open>The number of documents, the results of the filters, those that the condition of the search gets, and
  the codes for the response.\<close>

definition EN_MultiRangeQuery :: "eng_env \<Rightarrow> 'f request \<Rightarrow> ('i, 'f) engine \<Rightarrow> (int \<times> mrq \<times> mrq option \<times> result_code list) option" where
  "EN_MultiRangeQuery env rq e =
     (if rq_ranges rq = [] \<and> rq_terms rq = []
      then do { (n, r) \<leftarrow> EN_PageTextFilter (rq_texts rq) MR_new e; Some (n, r, Some r, []) }
      else do {
        (ret, r) \<leftarrow> EN_filter env (rq_ranges rq) (rq_terms rq) e;
        (if ret = 0 then Some (0, r, None, replicate (nat (rq_num rq)) RC_SUCCESS)
         else if ret < 0 then Some (ret, r, None, [])
         else do { (n, r') \<leftarrow> EN_PageTextFilter (rq_texts rq) r e; Some (ret, r', Some r', []) }) })"

subsection \<open>Deleting by query and by filter\<close>

fun mark_all :: "eng_env \<Rightarrow> int list \<Rightarrow> ('i, 'f) engine \<Rightarrow> ('i, 'f) engine option" where
  "mark_all env [] e = Some e"
| "mark_all env (d # ds) e = do {
     deleted \<leftarrow> BM_Test (en_bits e) (word_of_int d);
     e' \<leftarrow> (if deleted then Some e else mark_deleted env d e);
     mark_all env ds e' }"

definition EN_DelDocByQuery :: "eng_env \<Rightarrow> 'f request \<Rightarrow> ('i, 'f) engine \<Rightarrow> (int \<times> ('i, 'f) engine) option" where
  "EN_DelDocByQuery env rq e =
     (if rq_ranges rq = [] then Some (1, e)
      else do {
        (ret, r) \<leftarrow> EN_filter env (rq_ranges rq) [] e;
        (if ret = 0 then Some (1, e)
         else do {
           ds \<leftarrow> MR_ToDocs r;
           e1 \<leftarrow> mark_all env ds e;
           Some (0, e1\<lparr>en_dirty := True\<rparr>) }) })"

text \<open>The keys of the documents that were deleted. A document without its key in the table is left alone.\<close>

fun delete_filtered :: "eng_env \<Rightarrow> mrq \<Rightarrow> nat list \<Rightarrow> ('i, 'f) engine \<Rightarrow> (byte list list \<times> ('i, 'f) engine) option" where
  "delete_filtered env r [] e = Some ([], e)"
| "delete_filtered env r (d # ds) e = do {
     found \<leftarrow> MR_Has r (int d);
     (if \<not> found then delete_filtered env r ds e
      else do {
        e1 \<leftarrow> wait_table e;
        (ret, key, tb) \<leftarrow> TB_GetKeyByDocid (ee_hash env) (ee_g env) (ee_docid env) (int d) [] (en_table e1);
        let e2 = e1\<lparr>en_table := tb\<rparr>;
        (if ret \<noteq> 0 then delete_filtered env r ds e2
         else do {
           deleted \<leftarrow> BM_Test (en_bits e2) (of_nat d);
           (if deleted then delete_filtered env r ds e2
            else do {
              e3 \<leftarrow> remove_doc env (int d) key e2;
              (keys, e4) \<leftarrow> delete_filtered env r ds e3;
              Some (key # keys, e4) }) }) }) }"

definition EN_DelDocByFilter :: "eng_env \<Rightarrow> 'f request \<Rightarrow> ('i, 'f) engine \<Rightarrow> (int \<times> byte list list \<times> ('i, 'f) engine) option" where
  "EN_DelDocByFilter env rq e = do {
     (ret, r) \<leftarrow> EN_filter env (rq_ranges rq) (rq_terms rq) e;
     (keys, e1) \<leftarrow> (if 0 < ret then delete_filtered env r [0..<nat (en_max e)] e else Some ([], e));
     Some (0, keys, e1\<lparr>en_dirty := True\<rparr>) }"

fun get_filtered :: "eng_env \<Rightarrow> int list \<Rightarrow> (byte list \<times> full_doc) list \<Rightarrow> ('i, 'f) engine \<Rightarrow>
    ((byte list \<times> full_doc) list \<times> ('i, 'f) engine) option" where
  "get_filtered env [] docs e = Some (docs, e)"
| "get_filtered env (d # ds) docs e = do {
     e1 \<leftarrow> wait_table e;
     (ret, key, tb) \<leftarrow> TB_GetKeyByDocid (ee_hash env) (ee_g env) (ee_docid env) d [] (en_table e1);
     let e2 = e1\<lparr>en_table := tb\<rparr>;
     (if ret < 0 then get_filtered env ds docs e2
      else case om_index key empty_doc docs of (doc, docs1) \<Rightarrow> do {
        (ret, doc', e3) \<leftarrow> EN_GetDocById env d doc e2;
        get_filtered env ds (om_put key doc' docs1) e3 }) }"

definition EN_GetDocsByFilter :: "eng_env \<Rightarrow> 'f request \<Rightarrow> (byte list \<times> full_doc) list \<Rightarrow> ('i, 'f) engine \<Rightarrow>
    (int \<times> (byte list \<times> full_doc) list \<times> ('i, 'f) engine) option" where
  "EN_GetDocsByFilter env rq docs e = do {
     (ret, r) \<leftarrow> EN_filter env (rq_ranges rq) (rq_terms rq) e;
     (if ret \<le> 0 then Some (-1, docs, e)
      else do {
        ds \<leftarrow> MR_ToDocs r;
        (docs', e1) \<leftarrow> get_filtered env ds docs e;
        Some (0, docs', e1) }) }"

subsection \<open>The controller of concurrent requests\<close>

record controller =
  rc_cur :: int
  rc_threshold :: int

definition RC_Acquire :: "int \<Rightarrow> controller \<Rightarrow> bool \<times> controller" where
  "RC_Acquire n c = (rc_cur c < rc_threshold c, c\<lparr>rc_cur := rc_cur c + n\<rparr>)"

definition RC_Release :: "int \<Rightarrow> controller \<Rightarrow> controller" where
  "RC_Release n c = c\<lparr>rc_cur := rc_cur c - n\<rparr>"

text \<open>Half of the threads that the system allows, shared by the threads of a request; division by -1 threads
  does not occur. The values of the system are parameters; the 0.5 is exact.\<close>

definition RC_new :: "int \<Rightarrow> int \<Rightarrow> int \<Rightarrow> int \<Rightarrow> controller" where
  "RC_new omp_max threads_max max_map_count pid_max =
     (let max_threads = min (min threads_max pid_max) (max_map_count sdiv 2)
      in \<lparr>rc_cur = 0, rc_threshold = max_threads sdiv (2 * (omp_max + 1))\<rparr>)"

subsection \<open>Search\<close>

text \<open>The response: codes for requests without a result, or the results with the number of queries; the
  names of the fields of a document that was found by its key are the texts of its vectors.\<close>

record 'f response =
  rs_codes :: "result_code list"
  rs_results :: "'f gresult list"
  rs_names :: "byte list list"

definition search_condition :: "'f request \<Rightarrow> bool \<Rightarrow> mrq option \<Rightarrow> scond" where
  "search_condition rq brute fl =
     \<lparr>sc_topn = rq_topn rq, sc_is_l2 = rq_l2 rq, sc_and = (1 < length (rq_vecs rq) \<and> rq_and rq), sc_rank = rq_rank rq,
      sc_params = rq_params rq, sc_brute = brute, sc_sqrt = rq_sqrt rq, sc_filter = fl\<rparr>"

text \<open>Without vectors: the documents whose keys are the values of the term filters, when no filter gave a
  result (\<open>GetAllResult\<close> of no results is the null pointer in the library).\<close>

fun term_docs :: "eng_env \<Rightarrow> term_filter list \<Rightarrow> table \<Rightarrow> (byte list \<times> int) list option" where
  "term_docs env [] tb = Some []"
| "term_docs env (f # fs) tb = do {
     (ret, docid) \<leftarrow> TB_GetDocIDByKey (ee_hash env) (tf_value f) (-1) tb;
     rest \<leftarrow> term_docs env fs tb;
     Some (if ret \<noteq> 0 then rest else (tf_field f, docid) # rest) }"

definition search_keys :: "eng_env \<Rightarrow> 'f request \<Rightarrow> ('i, 'f :: zero) engine \<Rightarrow> ('f gresult \<times> byte list list \<times> ('i, 'f) engine) option" where
  "search_keys env rq e = do {
     ids \<leftarrow> term_docs env (rq_terms rq) (en_table e);
     (if ids = [] then Some (\<lparr>gr_total = 0, gr_docs = []\<rparr>, [], e)
      else do {
        e1 \<leftarrow> wait_vecs e;
        (ret, vecs, vm) \<leftarrow> VG_GetVector float_text (ee_g env) False ids (en_vec e1);
        let e2 = e1\<lparr>en_vec := vm\<rparr>;
        (if ret \<noteq> 0 then Some (\<lparr>gr_total = 0, gr_docs = []\<rparr>, [], e2)
         else if rq_topn rq = 0 \<or> length vecs < length ids then None
         else Some (\<lparr>gr_total = 1, gr_docs = [\<lparr>gd_docid = snd (last ids), gd_score = 0, gd_fields = map (\<lambda>i. (0, 0)) ids\<rparr>]\<rparr>,
                    take (length ids) vecs, e2)) }) }"

fun scan_docs :: "mrq \<Rightarrow> bitmap_mgr \<Rightarrow> nat \<Rightarrow> nat list \<Rightarrow> ('f :: zero) gresult \<Rightarrow> 'f gresult option" where
  "scan_docs r bm topn [] res = Some res"
| "scan_docs r bm topn (d # ds) res = do {
     found \<leftarrow> MR_Has r (int d);
     (if \<not> found then scan_docs r bm topn ds res
      else do {
        deleted \<leftarrow> BM_Test bm (of_nat d);
        scan_docs r bm topn ds
          (if deleted then res
           else res\<lparr>gr_total := gr_total res + 1,
                    gr_docs := (if length (gr_docs res) < topn
                      then gr_docs res @ [\<lparr>gd_docid = int d, gd_score = 0, gd_fields = []\<rparr>] else gr_docs res)\<rparr>) }) }"

definition search_docs :: "eng_env \<Rightarrow> 'f request \<Rightarrow> mrq \<Rightarrow> ('i, 'f :: zero) engine \<Rightarrow> ('f response \<times> ('i, 'f) engine) option" where
  "search_docs env rq r e =
     (if m_results r = [] \<and> rq_terms rq \<noteq> []
      then do { (res, names, e1) \<leftarrow> search_keys env rq e; Some (\<lparr>rs_codes = [], rs_results = [res], rs_names = names\<rparr>, e1) }
      else do {
        res \<leftarrow> scan_docs r (en_bits e) (rq_topn rq) [0..<nat (en_max e)] \<lparr>gr_total = 0, gr_docs = []\<rparr>;
        Some (\<lparr>rs_codes = [], rs_results = [res], rs_names = []\<rparr>, e) })"

definition search_vectors :: "((int \<times> int) list \<Rightarrow> (int \<times> int) list) \<Rightarrow> (('f gdoc \<Rightarrow> 'f gdoc \<Rightarrow> bool) \<Rightarrow> 'f gdoc list \<Rightarrow> 'f gdoc list) \<Rightarrow>
    'f request \<Rightarrow> scond \<Rightarrow> ('i, 'f :: {zero, one, uminus, plus, minus, times, inverse, ord}) engine \<Rightarrow> (int \<times> 'f response) option" where
  "search_vectors order srt rq c e = do {
     (ret, rs) \<leftarrow> VG_Search order srt c (rq_vecs rq)
       (replicate (nat (rq_num rq)) \<lparr>gr_total = EN_GetDocsNum e, gr_docs = []\<rparr>) (en_vec e);
     Some (if ret \<noteq> 0 then (-3, \<lparr>rs_codes = replicate (nat (rq_num rq)) RC_SEARCH_ERROR, rs_results = [], rs_names = []\<rparr>)
           else (ret, \<lparr>rs_codes = [], rs_results = rs, rs_names = []\<rparr>)) }"

text \<open>The body of \<open>Search\<close> between \<open>Acquire\<close> and \<open>Release\<close>.\<close>

definition search_permitted :: "((int \<times> int) list \<Rightarrow> (int \<times> int) list) \<Rightarrow> (('f gdoc \<Rightarrow> 'f gdoc \<Rightarrow> bool) \<Rightarrow> 'f gdoc list \<Rightarrow> 'f gdoc list) \<Rightarrow>
    eng_env \<Rightarrow> 'f request \<Rightarrow> ('i, 'f :: {zero, one, uminus, plus, minus, times, inverse, ord}) engine \<Rightarrow>
    (int \<times> 'f response \<times> ('i, 'f) engine) option" where
  "search_permitted order srt env rq e =
     (let none = \<lparr>rs_codes = [], rs_results = [], rs_names = []\<rparr>;
          brute = (if en_status e \<noteq> INDEXED then True else rq_brute rq) in
      if \<not> brute \<and> en_status e \<noteq> INDEXED
      then Some (-2, none\<lparr>rs_codes := replicate (nat (rq_num rq)) RC_INDEX_NOT_TRAINED\<rparr>, e)
      else do {
        (num, r, fl, codes) \<leftarrow>
          (if rq_ranges rq \<noteq> [] \<or> rq_terms rq \<noteq> [] \<or> rq_texts rq \<noteq> [] then EN_MultiRangeQuery env rq e
           else Some (1, MR_new, None, []));
        (if num = 0 then Some (0, none\<lparr>rs_codes := codes\<rparr>, e)
         else if rq_vecs rq \<noteq> []
         then do {
           (ret, res) \<leftarrow> search_vectors order srt rq (search_condition rq brute fl) e;
           Some (ret, res, e) }
         else do { (res, e1) \<leftarrow> search_docs env rq r e; Some (0, res, e1) }) })"

definition EN_Search :: "((int \<times> int) list \<Rightarrow> (int \<times> int) list) \<Rightarrow> (('f gdoc \<Rightarrow> 'f gdoc \<Rightarrow> bool) \<Rightarrow> 'f gdoc list \<Rightarrow> 'f gdoc list) \<Rightarrow>
    eng_env \<Rightarrow> 'f request \<Rightarrow> ('i, 'f :: {zero, one, uminus, plus, minus, times, inverse, ord}) engine \<times> controller \<Rightarrow>
    (int \<times> 'f response \<times> ('i, 'f) engine \<times> controller) option" where
  "EN_Search order srt env rq ec = (case ec of (e, c) \<Rightarrow>
     (let none = \<lparr>rs_codes = [], rs_results = [], rs_names = []\<rparr> in
      if rq_num rq \<le> 0 then Some (-1, none, e, c)
      else let (permit, c1) = RC_Acquire (rq_num rq) c in
        if \<not> permit then Some (-1, none, e, RC_Release (rq_num rq) c1)
        else do {
          (ret, res, e1) \<leftarrow> search_permitted order srt env rq e;
          Some (ret, res, e1, RC_Release (rq_num rq) c1) }))"

end
