(* ===== verification/EngineSpec.thy ===== *)
theory EngineSpec
  imports EngineQuery TableSpec
begin

text \<open>
  The engine as a whole: the table holds a list of documents, and the queue and the trees of the range index,
  with the values in the table, satisfy the invariant of the index and its worker. \<open>IX_turn\<close>, \<open>IX_Add\<close> and
  \<open>IX_Delete\<close> are steps of that system on the table as it is stored.
\<close>

subsection \<open>The values of a table\<close>

definition tblv :: "field_info list \<Rightarrow> (byte list \<rightharpoonup> byte list) list \<Rightarrow> int \<Rightarrow> int \<Rightarrow> bkey option" where
  "tblv cols rows d f = (if 0 \<le> d \<and> d < int (length rows) \<and> 0 \<le> f \<and> f < int (length cols)
     then (rows ! nat d) (fi_name (cols ! nat f)) else None)"

lemma tblv_Some:
  assumes "tblv cols rows d f = Some v"
  obtains i j where "d = int i" "i < length rows" "f = int j" "j < length cols" "(rows ! i) (fi_name (cols ! j)) = Some v"
  using assms that [of "nat d" "nat f"] by (auto simp: tblv_def split: if_splits)

lemma tblv_at: "\<lbrakk>i < length rows; j < length cols\<rbrakk> \<Longrightarrow> tblv cols rows (int i) (int j) = (rows ! i) (fi_name (cols ! j))"
  by (simp add: tblv_def)

definition no_later :: "table \<Rightarrow> bool" where
  "no_later tb \<longleftrightarrow> (case tb_fields tb of None \<Rightarrow> True | Some d \<Rightarrow> df_fixed d = [] \<and> df_str d = [] \<and> df_mul d = [])"

definition sm_changed :: "table \<Rightarrow> table \<Rightarrow> bool" where
  "sm_changed tb tb' \<longleftrightarrow> tb' = tb\<lparr>tb_sm := tb_sm tb'\<rparr>"

lemma sm_changedD:
  assumes "sm_changed tb tb'"
  shows "tb_id_type tb' = tb_id_type tb" "tb_keys tb' = tb_keys tb" "tb_bitmap tb' = tb_bitmap tb" "tb_fields tb' = tb_fields tb"
    "tb_last tb' = tb_last tb" "tb_key_name tb' = tb_key_name tb" "tb_attr_idx tb' = tb_attr_idx tb" "no_later tb' = no_later tb"
proof -
  note so = sm_only [OF assms [unfolded sm_changed_def]]
  show "tb_id_type tb' = tb_id_type tb" "tb_keys tb' = tb_keys tb" "tb_bitmap tb' = tb_bitmap tb" "tb_fields tb' = tb_fields tb"
    "tb_last tb' = tb_last tb" "tb_key_name tb' = tb_key_name tb" "tb_attr_idx tb' = tb_attr_idx tb"
    by (rule so)+
  show "no_later tb' = no_later tb" by (simp add: no_later_def so(4))
qed

lemma sm_changed_refl [simp]: "sm_changed tb tb"
  by (simp add: sm_changed_def)

lemma sm_changed_trans: "\<lbrakk>sm_changed a b; sm_changed b c\<rbrakk> \<Longrightarrow> sm_changed a c"
  by (metis sm_changed_def table.simps(21) table.surjective table.update_convs(21))

text \<open>The writer has worked off its queue.\<close>

lemma settle_table_ok:
  assumes r: "tbl_repr cols rows P tb" and n: "no_later tb"
  shows "\<exists>tb'. settle_table tb = Some tb' \<and> tbl_repr cols rows (length rows) tb' \<and> sm_changed tb tb'"
proof -
  obtain m items where m: "tb_sm tb = Some m" "rows_mgr (tb_item_length tb) items P m" "length items = length rows" "P \<le> length rows"
    by (rule tblE [OF r])
  have q: "length (sm_queue m) = length rows - P" using m(2,3) by (simp add: rows_mgr_def sm_repr_def)
  obtain tb' where t: "tbl_write (length rows - P) tb = Some tb'" "tbl_repr cols rows (length rows) tb'" "tb' = tb\<lparr>tb_sm := tb_sm tb'\<rparr>"
    using tbl_write_ok [OF r, of "length rows - P"] m(4) by auto
  obtain m' where m': "SM_Writer (length rows - P) m = Some m'" "tb' = tb\<lparr>tb_sm := Some m'\<rparr>"
    using t(1) m(1) by (auto simp: tbl_write_def bind_eq_Some_conv)
  have "settle_fields (tb_fields tb) = Some (tb_fields tb)"
    using n by (auto simp: settle_fields_def no_later_def settle_cols_def split: option.split)
  then have "settle_table tb = Some tb'" using m' q m(1) by (simp add: settle_table_def settle_mgr_def)
  then show ?thesis using t(2,3) by (auto simp: sm_changed_def)
qed

subsection \<open>The worker of the range index on the stored table\<close>

text \<open>The fields that have an index.\<close>

definition indexed :: "findex \<Rightarrow> int set" where
  "indexed flds = {f. \<exists>x. fetch flds f = Some (Some x)}"

lemma frx_keys_some: "\<exists>v ks. frx_keys x v = Some ks"
proof (cases "fx_num x")
  case True
  have "ReverseEndian [0] \<noteq> None" by (simp add: ReverseEndian_def)
  then have "\<exists>ks. frx_keys x [0] = Some ks" using True by (auto simp: frx_keys_num)
  then show ?thesis by blast
next
  case False
  then have "frx_keys x [] = Some []" by (simp add: frx_keys_def)
  then show ?thesis by blast
qed

lemma indexed_keys: "f \<in> indexed flds \<longleftrightarrow> (\<exists>v ks. flds_keys flds f v = Some ks)"
  using frx_keys_some by (auto simp: indexed_def flds_keys_def split: option.splits)

lemma indexed_cong: "flds_keys a = flds_keys b \<Longrightarrow> indexed a = indexed b"
  by (auto simp: indexed_keys)

lemma indexed_range: "f \<in> indexed flds \<Longrightarrow> 0 \<le> f \<and> f < int (length flds)"
  by (auto simp: indexed_def fetch_Some_iff)

lemma store_len: "store flds f y = Some flds' \<Longrightarrow> length flds' = length flds"
  by (auto simp: store_Some_iff)

lemma MFR_AddDoc_length: "MFR_AddDoc raw col flds d f = Some (r, flds') \<Longrightarrow> length flds' = length flds"
  by (cases "fetch flds f"; cases "raw d f"; cases "col d f") (auto simp: MFR_AddDoc_def bind_eq_Some_conv store_len split: option.splits)

lemma MFR_DeleteDoc_length: "MFR_DeleteDoc flds d f v = Some (r, flds') \<Longrightarrow> length flds' = length flds"
  by (auto simp: MFR_DeleteDoc_def bind_eq_Some_conv store_len split: option.splits if_splits)

lemma MFR_Worker_length:
  assumes "MFR_Worker raw col m = Some m'"
  shows "length (mx_flds m') = length (mx_flds m)"
proof (cases "mx_queue m")
  case Nil
  then show ?thesis using assms by (simp add: MFR_Worker_def)
next
  case (Cons op q)
  then show ?thesis using assms
    by (cases op) (auto simp: MFR_Worker_def bind_eq_Some_conv dest: MFR_AddDoc_length MFR_DeleteDoc_length)
qed

lemma MFR_AddDoc_reads: "\<lbrakk>raw d f = raw' d f; col d f = col' d f\<rbrakk> \<Longrightarrow> MFR_AddDoc raw col flds d f = MFR_AddDoc raw' col' flds d f"
  by (simp add: MFR_AddDoc_def cong: option.case_cong)

abbreviation sysof :: "mfx \<Rightarrow> field_info list \<Rightarrow> (byte list \<rightharpoonup> byte list) list \<Rightarrow> (int \<times> int) set \<Rightarrow> sys" where
  "sysof m cols rows cur \<equiv> \<lparr>s_m = m, s_hand = Idle, s_tbl = tblv cols rows, s_cur = cur\<rparr>"

lemma IX_turn_ok:
  assumes r: "tbl_repr cols rows (length rows) (en_table e)" and m: "en_range e = Some m" and inv: "sys_inv (sysof m cols rows cur)"
  shows "\<exists>tb' m'. IX_turn env e = Some (e\<lparr>en_table := tb', en_range := Some m'\<rparr>) \<and> tbl_repr cols rows (length rows) tb' \<and>
    sm_changed (en_table e) tb' \<and> sys_inv (sysof m' cols rows cur) \<and> mx_queue m' = tl (mx_queue m) \<and>
    flds_keys (mx_flds m') = flds_keys (mx_flds m) \<and> length (mx_flds m') = length (mx_flds m)"
proof -
  obtain m' where m': "MFR_Worker (tblv cols rows) no_col m = Some m'" "sys_inv (sysof m' cols rows cur)"
    "mx_queue m' = tl (mx_queue m)" "flds_keys (mx_flds m') = flds_keys (mx_flds m)"
    using worker_ok [OF inv] by auto
  note len = MFR_Worker_length [OF m'(1)]
  consider "mx_queue m = []" | d f v q where "mx_queue m = OpDelete d f v # q" | d f q where "mx_queue m = OpAdd d f # q"
    by (metis field_operate.exhaust list.exhaust)
  then show ?thesis
  proof cases
    case 1
    then have "MFR_Worker (\<lambda>d f. None) (\<lambda>d f. None) m = Some m'" using m'(1) by (simp add: MFR_Worker_def)
    then have "IX_turn env e = Some (e\<lparr>en_range := Some m'\<rparr>)" using 1 m by (simp add: IX_turn_def)
    then show ?thesis using m'(2-) len r by (intro exI [of _ "en_table e"] exI [of _ m']) simp
  next
    case (2 d f v q)
    then have "MFR_Worker (\<lambda>d f. None) (\<lambda>d f. None) m = Some m'" using m'(1) by (simp add: MFR_Worker_def)
    then have "IX_turn env e = Some (e\<lparr>en_range := Some m'\<rparr>)" using 2 m by (simp add: IX_turn_def)
    then show ?thesis using m'(2-) len r by (intro exI [of _ "en_table e"] exI [of _ m']) simp
  next
    case (3 d f q)
    then have "(d, f) \<in> cur" using inv by (simp add: sys_inv_def)
    then obtain v where v: "tblv cols rows d f = Some v" using inv by (fastforce simp: sys_inv_def)
    then obtain i j where ij: "d = int i" "i < length rows" "f = int j" "j < length cols" "(rows ! i) (fi_name (cols ! j)) = Some v"
      by (rule tblv_Some)
    obtain tb' where tb: "TB_GetFieldRawValue (ee_g env) d f [] None (en_table e) = Some (0, v, tb')" "tbl_repr cols rows (length rows) tb'"
      "tb' = (en_table e)\<lparr>tb_sm := tb_sm tb'\<rparr>"
      using TB_GetFieldRawValue_ok [OF r ij(2,4,5), of "ee_g env" "[]"] ij(1,3) by auto
    have "MFR_Worker (\<lambda>d f. Some v) (\<lambda>d f. None) m = Some m'"
      using m'(1) v 3 MFR_AddDoc_reads [of "\<lambda>d f. Some v" d f "tblv cols rows" no_col no_col] by (simp add: MFR_Worker_def)
    then have "IX_turn env e = Some (e\<lparr>en_table := tb', en_range := Some m'\<rparr>)" using 3 m tb(1) by (simp add: IX_turn_def)
    moreover have "sm_changed (en_table e) tb'" using tb(3) by (simp add: sm_changed_def)
    ultimately show ?thesis using m'(2-) len tb(2) by blast
  qed
qed

lemma IX_turns_ok:
  assumes "tbl_repr cols rows (length rows) (en_table e)" "en_range e = Some m" "sys_inv (sysof m cols rows cur)" "n = length (mx_queue m)"
  shows "\<exists>tb' m'. IX_turns env n e = Some (e\<lparr>en_table := tb', en_range := Some m'\<rparr>) \<and> tbl_repr cols rows (length rows) tb' \<and>
    sm_changed (en_table e) tb' \<and> sys_inv (sysof m' cols rows cur) \<and> mx_queue m' = [] \<and>
    flds_keys (mx_flds m') = flds_keys (mx_flds m) \<and> length (mx_flds m') = length (mx_flds m)"
  using assms
proof (induction n arbitrary: e m)
  case 0
  then show ?case by (intro exI [of _ "en_table e"] exI [of _ m]) simp
next
  case (Suc n)
  obtain tb1 m1 where s: "IX_turn env e = Some (e\<lparr>en_table := tb1, en_range := Some m1\<rparr>)" "tbl_repr cols rows (length rows) tb1"
    "sm_changed (en_table e) tb1" "sys_inv (sysof m1 cols rows cur)" "mx_queue m1 = tl (mx_queue m)"
    "flds_keys (mx_flds m1) = flds_keys (mx_flds m)" "length (mx_flds m1) = length (mx_flds m)"
    using IX_turn_ok [OF Suc.prems(1-3)] by blast
  have "n = length (mx_queue m1)" using s(5) Suc.prems(4) by simp
  from Suc.IH [of "e\<lparr>en_table := tb1, en_range := Some m1\<rparr>" m1] s(2,4) this obtain tb2 m2 where
    t: "IX_turns env n (e\<lparr>en_table := tb1, en_range := Some m1\<rparr>) = Some (e\<lparr>en_table := tb2, en_range := Some m2\<rparr>)"
    "tbl_repr cols rows (length rows) tb2" "sm_changed tb1 tb2" "sys_inv (sysof m2 cols rows cur)" "mx_queue m2 = []"
    "flds_keys (mx_flds m2) = flds_keys (mx_flds m1)" "length (mx_flds m2) = length (mx_flds m1)"
    by auto
  have "IX_turns env (Suc n) e = Some (e\<lparr>en_table := tb2, en_range := Some m2\<rparr>)" using s(1) t(1) by simp
  then show ?case using t(2,4,5) s(6,7) t(6,7) sm_changed_trans [OF s(3) t(3)] by (intro exI [of _ tb2] exI [of _ m2]) simp
qed

lemma IX_drain_ok:
  assumes r: "tbl_repr cols rows P (en_table e)" and n: "no_later (en_table e)" and m: "en_range e = Some m"
    and inv: "sys_inv (sysof m cols rows cur)"
  shows "\<exists>tb' m'. IX_drain env e = Some (e\<lparr>en_table := tb', en_range := Some m'\<rparr>) \<and> tbl_repr cols rows (length rows) tb' \<and>
    sm_changed (en_table e) tb' \<and> sys_inv (sysof m' cols rows cur) \<and> mx_queue m' = [] \<and>
    flds_keys (mx_flds m') = flds_keys (mx_flds m) \<and> length (mx_flds m') = length (mx_flds m)"
proof -
  obtain tb1 where t: "settle_table (en_table e) = Some tb1" "tbl_repr cols rows (length rows) tb1" "sm_changed (en_table e) tb1"
    using settle_table_ok [OF r n] by blast
  let ?e = "e\<lparr>en_table := tb1\<rparr>"
  obtain tb2 m2 where s: "IX_turns env (length (mx_queue m)) ?e = Some (?e\<lparr>en_table := tb2, en_range := Some m2\<rparr>)"
    "tbl_repr cols rows (length rows) tb2" "sm_changed tb1 tb2" "sys_inv (sysof m2 cols rows cur)" "mx_queue m2 = []"
    "flds_keys (mx_flds m2) = flds_keys (mx_flds m)" "length (mx_flds m2) = length (mx_flds m)"
    using IX_turns_ok [of cols rows ?e m cur "length (mx_queue m)" env] t(2) m inv by auto
  have "IX_drain env e = Some (e\<lparr>en_table := tb2, en_range := Some m2\<rparr>)"
    using t(1) m s(1) by (simp add: IX_drain_def wait_table_def)
  then show ?thesis using s(2,4-) sm_changed_trans [OF t(3) s(3)] by (intro exI [of _ tb2] exI [of _ m2]) simp
qed

subsection \<open>Entering and removing a document\<close>

lemma fetch_in: "\<lbrakk>0 \<le> f; f < int (length xs)\<rbrakk> \<Longrightarrow> fetch xs f = Some (xs ! nat f)"
  by (auto simp: fetch_Some_iff)

lemma not_indexed: "\<lbrakk>0 \<le> f; f < int (length flds); f \<notin> indexed flds\<rbrakk> \<Longrightarrow> fetch flds f = Some None"
  by (cases "flds ! nat f") (auto simp: indexed_def fetch_in)

lemma IX_Add_ok:
  assumes m: "en_range e = Some m" and f: "0 \<le> f" "f < int (length (mx_flds m))" and inv: "sys_inv (sysof m cols rows cur)"
    and new: "f \<in> indexed (mx_flds m) \<longrightarrow> (d, f) \<notin> cur \<and> docid_ok d \<and> (\<exists>v. tblv cols rows d f = Some v \<and> good_value (mx_flds m) f v)"
  shows "\<exists>m'. IX_Add d f e = Some (e\<lparr>en_range := Some m'\<rparr>) \<and> mx_flds m' = mx_flds m \<and>
    sys_inv (sysof m' cols rows (if f \<in> indexed (mx_flds m) then insert (d, f) cur else cur))"
proof (cases "f \<in> indexed (mx_flds m)")
  case True
  then obtain x where x: "fetch (mx_flds m) f = Some (Some x)" by (auto simp: indexed_def)
  obtain v where v: "(d, f) \<notin> cur" "docid_ok d" "tblv cols rows d f = Some v" "good_value (mx_flds m) f v" using new True by blast
  let ?m = "m\<lparr>mx_queue := mx_queue m @ [OpAdd d f]\<rparr>"
  have a: "MFR_Add m d f = Some (0, ?m)" using x f(1) by (simp add: MFR_Add_def)
  have "sys_inv (sysof ?m cols rows (insert (d, f) cur))" using inv_add [OF inv, of d f v ?m] v a by simp
  then show ?thesis using a m True by (intro exI [of _ ?m]) (simp add: IX_Add_def)
next
  case False
  then have "MFR_Add m d f = Some (0, m)" using not_indexed [OF f] f(1) by (simp add: MFR_Add_def)
  then show ?thesis using m inv False by (intro exI [of _ m]) (simp add: IX_Add_def)
qed

lemma attr_idx_ok:
  assumes "tbl_repr cols rows P tb" "j < length cols"
  shows "TB_GetAttrIdx (fi_name (cols ! j)) tb = Some (int j)"
  using layout_lookup(3) [of cols tb j] assms by (simp add: TB_GetAttrIdx_def tbl_repr_def)

definition cols_named :: "field_info list \<Rightarrow> byte list set \<Rightarrow> int set" where
  "cols_named cols ns = {int j |j. j < length cols \<and> fi_name (cols ! j) \<in> ns}"

lemma index_fields_ok:
  assumes "tbl_repr cols rows P (en_table e)" "en_range e = Some m" "length (mx_flds m) = length cols" "sys_inv (sysof m cols rows cur)"
    and "docid_ok d" "fd_name ` set fs \<subseteq> fi_name ` set cols" "distinct (map fd_name fs)" "\<forall>j \<in> cols_named cols (fd_name ` set fs). (d, j) \<notin> cur"
    and "\<forall>j \<in> indexed (mx_flds m). \<exists>v. tblv cols rows d j = Some v \<and> good_value (mx_flds m) j v"
  shows "\<exists>m'. index_fields d fs e = Some (e\<lparr>en_range := Some m'\<rparr>) \<and> mx_flds m' = mx_flds m \<and>
    sys_inv (sysof m' cols rows (cur \<union> {d} \<times> (indexed (mx_flds m) \<inter> cols_named cols (fd_name ` set fs))))"
  using assms
proof (induction fs arbitrary: e m cur)
  case Nil
  then show ?case by (intro exI [of _ m]) (simp add: cols_named_def)
next
  case (Cons f fs)
  have lay: "layout cols (en_table e)" using Cons.prems(1) by (simp add: tbl_repr_def)
  then have dn: "distinct (map fi_name cols)" by (simp add: layout_def)
  obtain j where j: "j < length cols" "fd_name f = fi_name (cols ! j)"
    using Cons.prems(6) by (auto simp: in_set_conv_nth)
  have only: "cols_named cols (insert (fd_name f) (fd_name ` set fs)) = insert (int j) (cols_named cols (fd_name ` set fs))"
    using j dn by (auto simp: cols_named_def distinct_conv_nth)
  have notj: "int j \<notin> cols_named cols (fd_name ` set fs)" using j(2) Cons.prems(7) by (auto simp: cols_named_def)
  let ?cur = "if int j \<in> indexed (mx_flds m) then insert (d, int j) cur else cur"
  have "(d, int j) \<notin> cur" using Cons.prems(8) only by simp
  then obtain m1 where m1: "IX_Add d (int j) e = Some (e\<lparr>en_range := Some m1\<rparr>)" "mx_flds m1 = mx_flds m" "sys_inv (sysof m1 cols rows ?cur)"
    using IX_Add_ok [OF Cons.prems(2) _ _ Cons.prems(4), of "int j" d] Cons.prems(3,5,9) j(1) by auto
  let ?e = "e\<lparr>en_range := Some m1\<rparr>"
  have p: "tbl_repr cols rows P (en_table ?e)" "en_range ?e = Some m1" "length (mx_flds m1) = length cols"
    "fd_name ` set fs \<subseteq> fi_name ` set cols" "distinct (map fd_name fs)"
    "\<forall>j \<in> indexed (mx_flds m1). \<exists>v. tblv cols rows d j = Some v \<and> good_value (mx_flds m1) j v"
    using Cons.prems m1(2) by auto
  have q: "\<forall>i \<in> cols_named cols (fd_name ` set fs). (d, i) \<notin> ?cur" using Cons.prems(8) only notj by auto
  obtain m2 where m2: "index_fields d fs ?e = Some (?e\<lparr>en_range := Some m2\<rparr>)" "mx_flds m2 = mx_flds m1"
    "sys_inv (sysof m2 cols rows (?cur \<union> {d} \<times> (indexed (mx_flds m1) \<inter> cols_named cols (fd_name ` set fs))))"
    using Cons.IH [OF p(1-3) m1(3) Cons.prems(5) p(4,5) q p(6)] by blast
  have "?cur \<union> {d} \<times> (indexed (mx_flds m1) \<inter> cols_named cols (fd_name ` set fs)) =
      cur \<union> {d} \<times> (indexed (mx_flds m) \<inter> cols_named cols (fd_name ` set (f # fs)))"
    using only m1(2) by auto
  moreover have "index_fields d (f # fs) e = Some (e\<lparr>en_range := Some m2\<rparr>)"
    using attr_idx_ok [OF Cons.prems(1) j(1)] j(2) m1(1) m2(1) by simp
  ultimately show ?case using m2(2,3) m1(2) by (intro exI [of _ m2]) simp
qed

lemma MFR_Delete_reads: "raw d f = raw' d f \<Longrightarrow> MFR_Delete raw m d f = MFR_Delete raw' m d f"
  by (simp add: MFR_Delete_def cong: option.case_cong)

lemma IX_Delete_ok:
  assumes r: "tbl_repr cols rows P (en_table e)" and n: "no_later (en_table e)" and m: "en_range e = Some m"
    and inv: "sys_inv (sysof m cols rows cur)" and f: "0 \<le> f" "f < int (length (mx_flds m))"
    and cur: "f \<in> indexed (mx_flds m) \<longleftrightarrow> (d, f) \<in> cur"
  shows "\<exists>Q tb' m'. IX_Delete env d f e = Some (e\<lparr>en_table := tb', en_range := Some m'\<rparr>) \<and> tbl_repr cols rows Q tb' \<and>
    sm_changed (en_table e) tb' \<and> sys_inv (sysof m' cols rows (cur - {(d, f)})) \<and>
    flds_keys (mx_flds m') = flds_keys (mx_flds m) \<and> length (mx_flds m') = length (mx_flds m)"
proof (cases "f \<in> indexed (mx_flds m)")
  case False
  then have "IX_Delete env d f e = Some e" using m not_indexed [OF f] by (simp add: IX_Delete_def)
  moreover have "cur - {(d, f)} = cur" using False cur by auto
  ultimately show ?thesis using r m inv by (intro exI [of _ P] exI [of _ "en_table e"] exI [of _ m]) simp
next
  case True
  then obtain x where x: "fetch (mx_flds m) f = Some (Some x)" by (auto simp: indexed_def)
  have in_cur: "(d, f) \<in> cur" using True cur by simp
  then obtain v where v: "tblv cols rows d f = Some v" using inv by (fastforce simp: sys_inv_def)
  then obtain i j where ij: "d = int i" "i < length rows" "f = int j" "j < length cols" "(rows ! i) (fi_name (cols ! j)) = Some v"
    by (rule tblv_Some)
  obtain tb1 where t1: "settle_table (en_table e) = Some tb1" "tbl_repr cols rows (length rows) tb1" "sm_changed (en_table e) tb1"
    using settle_table_ok [OF r n] by blast
  obtain tb2 where t2: "TB_GetFieldRawValue (ee_g env) d f [] None tb1 = Some (0, v, tb2)" "tbl_repr cols rows (length rows) tb2"
    "sm_changed tb1 tb2"
    using TB_GetFieldRawValue_ok [OF t1(2) ij(2,4,5), of "ee_g env" "[]"] ij(1,3) by (auto simp: sm_changed_def)
  have n2: "no_later tb2" using n sm_changedD(8) [OF t1(3)] sm_changedD(8) [OF t2(3)] by simp
  let ?e = "e\<lparr>en_table := tb2\<rparr>"
  obtain tb3 m3 where t3: "IX_drain env ?e = Some (?e\<lparr>en_table := tb3, en_range := Some m3\<rparr>)" "tbl_repr cols rows (length rows) tb3"
    "sm_changed tb2 tb3" "sys_inv (sysof m3 cols rows cur)" "mx_queue m3 = []" "flds_keys (mx_flds m3) = flds_keys (mx_flds m)"
    "length (mx_flds m3) = length (mx_flds m)"
    using IX_drain_ok [of cols rows "length rows" ?e m cur env] t2(2) n2 m inv by auto
  have "f \<in> indexed (mx_flds m3)" using True indexed_cong [OF t3(6)] by simp
  then obtain x3 where x3: "fetch (mx_flds m3) f = Some (Some x3)" by (auto simp: indexed_def)
  let ?m = "m3\<lparr>mx_queue := mx_queue m3 @ [OpDelete d f v]\<rparr>"
  have d: "MFR_Delete (tblv cols rows) m3 d f = Some (0, ?m)" using x3 v by (simp add: MFR_Delete_def)
  have "sys_inv (sysof ?m cols rows (cur - {(d, f)}))" using inv_delete [OF t3(4), of d f ?m] in_cur t3(5) d by simp
  moreover have "MFR_Delete (\<lambda>d f. Some v) m3 d f = Some (0, ?m)"
    using d v MFR_Delete_reads [of "\<lambda>d f. Some v" d f "tblv cols rows" m3] by simp
  then have "IX_Delete env d f e = Some (e\<lparr>en_table := tb3, en_range := Some ?m\<rparr>)"
    using m x t1(1) t2(1) t3(1) by (simp add: IX_Delete_def wait_table_def)
  moreover have "sm_changed (en_table e) tb3" using sm_changed_trans [OF sm_changed_trans [OF t1(3) t2(3)] t3(3)] .
  ultimately show ?thesis using t3(2,6,7) by (intro exI [of _ "length rows"] exI [of _ tb3] exI [of _ ?m]) simp
qed

lemma unindex_all_ok:
  assumes "tbl_repr cols rows P (en_table e)" "no_later (en_table e)" "en_range e = Some m" "sys_inv (sysof m cols rows cur)"
    and "\<forall>f \<in> snd ` set l. 0 \<le> f \<and> f < int (length (mx_flds m))" "distinct (map snd l)"
    and "\<forall>f \<in> snd ` set l. f \<in> indexed (mx_flds m) \<longleftrightarrow> (d, f) \<in> cur"
  shows "\<exists>Q tb' m'. unindex_all env d l e = Some (e\<lparr>en_table := tb', en_range := Some m'\<rparr>) \<and> tbl_repr cols rows Q tb' \<and>
    sm_changed (en_table e) tb' \<and> sys_inv (sysof m' cols rows (cur - {d} \<times> snd ` set l)) \<and>
    flds_keys (mx_flds m') = flds_keys (mx_flds m) \<and> length (mx_flds m') = length (mx_flds m)"
  using assms
proof (induction l arbitrary: e m cur P)
  case Nil
  then show ?case by (intro exI [of _ P] exI [of _ "en_table e"] exI [of _ m]) simp
next
  case (Cons nf l)
  obtain nm f where nf: "nf = (nm, f)" by (cases nf)
  have f: "0 \<le> f" "f < int (length (mx_flds m))" "f \<in> indexed (mx_flds m) \<longleftrightarrow> (d, f) \<in> cur" using Cons.prems(5,7) nf by simp_all
  obtain Q1 tb1 m1 where s: "IX_Delete env d f e = Some (e\<lparr>en_table := tb1, en_range := Some m1\<rparr>)" "tbl_repr cols rows Q1 tb1"
    "sm_changed (en_table e) tb1" "sys_inv (sysof m1 cols rows (cur - {(d, f)}))" "flds_keys (mx_flds m1) = flds_keys (mx_flds m)"
    "length (mx_flds m1) = length (mx_flds m)"
    using IX_Delete_ok [OF Cons.prems(1-4) f] by blast
  let ?e = "e\<lparr>en_table := tb1, en_range := Some m1\<rparr>"
  have "no_later tb1" using Cons.prems(2) sm_changedD(8) [OF s(3)] by simp
  moreover have "\<forall>g \<in> snd ` set l. g \<in> indexed (mx_flds m1) \<longleftrightarrow> (d, g) \<in> cur - {(d, f)}"
    using Cons.prems(6,7) nf indexed_cong [OF s(5)] by auto
  ultimately obtain Q tb2 m2 where t: "unindex_all env d l ?e = Some (?e\<lparr>en_table := tb2, en_range := Some m2\<rparr>)" "tbl_repr cols rows Q tb2"
    "sm_changed tb1 tb2" "sys_inv (sysof m2 cols rows (cur - {(d, f)} - {d} \<times> snd ` set l))" "flds_keys (mx_flds m2) = flds_keys (mx_flds m1)"
    "length (mx_flds m2) = length (mx_flds m1)"
    using Cons.IH [of Q1 ?e m1 "cur - {(d, f)}"] s(2,4,6) Cons.prems(5,6) by auto
  have "cur - {(d, f)} - {d} \<times> snd ` set l = cur - {d} \<times> snd ` set (nf # l)" using nf by auto
  moreover have "unindex_all env d (nf # l) e = Some (e\<lparr>en_table := tb2, en_range := Some m2\<rparr>)" using s(1) t(1) nf by simp
  ultimately show ?case using t(2,4-6) s(5,6) sm_changed_trans [OF s(3) t(3)] by (intro exI [of _ Q] exI [of _ tb2] exI [of _ m2]) simp
qed

end
