(* ===== verification/EngineDocs.thy ===== *)
theory EngineDocs
  imports EngineSpec
begin

text \<open>
  What the operations of the engine do to its documents. An engine holds a list of rows; the ids that the
  bitmap does not mark are visible. The range index holds the documents \<open>D\<close>, among them all visible ones.
\<close>

subsection \<open>The bitmap of deleted documents\<close>

definition bits_ok :: "nat \<Rightarrow> bitmap_mgr \<Rightarrow> bool" where
  "bits_ok n b \<longleftrightarrow> mgr_ok b \<and> mgr_clean b \<and> n < unat (bm_size b) \<and> unat (bm_size b) < 2147483648"

lemma bits_id:
  assumes "bits_ok n b" "i < n"
  shows "int i \<in> mgr_ids b"
proof -
  have "int i < int (unat (bm_size b))" using assms by (simp only: bits_ok_def of_nat_less_iff) linarith
  then have "int i < uint (bm_size b)" by (simp only: uint_nat)
  then show ?thesis using assms by (simp add: bits_ok_def mgr_ids_def)
qed

lemma bits_test: "\<lbrakk>bits_ok n b; i < n\<rbrakk> \<Longrightarrow> BM_Test b (of_nat i) = Some (int i \<in> mgr_set b)"
  using mgr.tst [OF bits_id] by (simp add: mgr_test_def)

lemma BM_Test_total:
  assumes "mgr_ok b"
  shows "\<exists>r. BM_Test b w = Some r"
proof (cases "w < bm_size b")
  case True
  then have "uint w \<in> mgr_ids b" using assms by (simp add: mgr_ids_def word_less_def)
  from mgr.tst [OF this] show ?thesis by (simp add: mgr_test_def)
qed (auto simp: BM_Test_def split: option.split)

lemma BM_SetMaxID_ok:
  assumes b: "bits_ok n b" and n: "n < 1000000000" and io: "io_ok io"
  shows "\<exists>b'. BM_SetMaxID io b (of_nat (n + 1)) = Some b' \<and> bits_ok (n + 1) b' \<and> mgr_set b' = mgr_set b"
proof -
  have u: "unat (of_nat (n + 1) :: u32) = n + 1" using n by (intro unat_of_nat32) simp
  show ?thesis
  proof (cases "of_nat (n + 1) < bm_size b")
    case True
    then have "n + 1 < unat (bm_size b)" using u by (simp add: word_less_nat_alt)
    then show ?thesis using True b by (simp add: BM_SetMaxID_def bits_ok_def)
  next
    case False
    then have s: "unat (bm_size b) \<le> n + 1" using u by (simp add: word_less_nat_alt)
    then have "unat (bm_size b) = n + 1" using b by (simp add: bits_ok_def)
    moreover have "bm_size b \<le> of_nat (n + 1)" using False by simp
    ultimately obtain b' where "BM_SetMaxID io b (of_nat (n + 1)) = Some b'" "mgr_ok b'" "mgr_clean b'" "mgr_set b' = mgr_set b"
      "unat (bm_size b') = 2 * (n + 1)"
      using BM_SetMaxID_grow [of b "of_nat (n + 1)" io] b io by (auto simp: bits_ok_def)
    then show ?thesis using n by (auto simp: bits_ok_def)
  qed
qed

lemma BM_Dump_one:
  assumes ok: "mgr_ok b" and i: "i < bm_size b" and io: "io_ok io"
  shows "\<exists>r b'. BM_Dump io b i 1 = Some (r, b') \<and> bm_bits b' = bm_bits b \<and> bm_size b' = bm_size b"
proof -
  have s: "unat i + unat (1 :: u32) \<le> unat (bm_size b)" using i by (simp add: word_less_nat_alt)
  then have "unat (i + 1) = unat i + 1" using u32_bound [of "bm_size b"] by (subst unat_add_lem [THEN iffD1]) auto
  then have ok1: "\<not> range_bad b i 1" using s by (simp add: range_bad_def word_less_nat_alt)
  note rng = byte_range [of 1, OF _ s]
  have "unat (drop_bit 3 i) + unat (drop_bit 3 (i + 1 - 1) - drop_bit 3 i + 1) \<le> length (mgr_bits b)"
    "unat (drop_bit 3 i) + unat (drop_bit 3 (i + 1 - 1) - drop_bit 3 i + 1) < 4294967296"
    using rng(1,2,3) mgr_bits_length [OF ok] by simp_all
  then obtain r fl where "dump_loop io (mgr_bits b) (drop_bit 3 i) (drop_bit 3 (i + 1 - 1) - drop_bit 3 i + 1) 0 0 (bm_file b) = Some (r, fl)"
    using dump_loop_safe [OF _ _ io, of "drop_bit 3 i" "drop_bit 3 (i + 1 - 1) - drop_bit 3 i + 1" "mgr_bits b" 0 0 "bm_file b"] by auto
  then show ?thesis using ok1 by (auto simp: BM_Dump_def Let_def mgr_bits_def [symmetric])
qed

lemma bits_same: "\<lbrakk>bm_bits b' = bm_bits b; bm_size b' = bm_size b\<rbrakk> \<Longrightarrow> bits_ok n b' = bits_ok n b \<and> mgr_set b' = mgr_set b"
  by (cases "bm_bits b") (simp_all add: bits_ok_def mgr_ok_def mgr_clean_def mgr_set_def mgr_bits_def mgr_ids_def)

lemma mark_deleted_ok:
  assumes b: "bits_ok n (en_bits e)" and i: "i < n" and io: "io_ok (ee_io env)"
  shows "\<exists>b'. mark_deleted env (int i) e = Some (e\<lparr>en_deleted := en_deleted e + 1, en_bits := b'\<rparr>) \<and> bits_ok n b' \<and>
    mgr_set b' = insert (int i) (mgr_set (en_bits e))"
proof -
  have u: "unat (of_nat i :: u32) = i" using b i by (intro unat_of_nat32) (simp add: bits_ok_def)
  then have lt: "of_nat i < bm_size (en_bits e)" using b i by (simp add: bits_ok_def word_less_nat_alt)
  obtain b1 where b1: "BM_Set (en_bits e) (of_nat i) = Some (0, b1)" "mgr_ok b1" "bm_size b1 = bm_size (en_bits e)"
    "mgr_set b1 = insert (uint (of_nat i :: u32)) (mgr_set (en_bits e))"
    using BM_Set_code [of "en_bits e" "of_nat i"] lt b by (auto simp: bits_ok_def)
  have "mgr_clean b1" using BM_Set_clean [OF _ b1(1)] b by (simp add: bits_ok_def)
  obtain r b2 where b2: "BM_Dump (ee_io env) b1 (of_nat i) 1 = Some (r, b2)" "bm_bits b2 = bm_bits b1" "bm_size b2 = bm_size b1"
    using BM_Dump_one [OF b1(2) _ io, of "of_nat i"] lt b1(3) by auto
  have "bits_ok n b1" using b b1(2,3) \<open>mgr_clean b1\<close> by (simp add: bits_ok_def)
  moreover have "uint (of_nat i :: u32) = int i" using u by (simp add: uint_nat)
  ultimately show ?thesis using b1(1,4) b2(1) bits_same [OF b2(2,3), of n] by (intro exI [of _ b2]) (simp add: mark_deleted_def)
qed

subsection \<open>The state of an engine\<close>

definition eng_repr :: "field_info list \<Rightarrow> (byte list \<rightharpoonup> byte list) list \<Rightarrow> int set \<Rightarrow> mfx \<Rightarrow> ('i, 'f) engine \<Rightarrow> bool" where
  "eng_repr cols rows D m e \<longleftrightarrow> (\<exists>P. tbl_repr cols rows P (en_table e)) \<and> no_later (en_table e) \<and> en_range e = Some m \<and>
     length (mx_flds m) = length cols \<and> sys_inv (sysof m cols rows (D \<times> indexed (mx_flds m))) \<and>
     D \<subseteq> {0..<int (length rows)} \<and> {0..<int (length rows)} - mgr_set (en_bits e) \<subseteq> D \<and>
     en_max e = int (length rows) \<and> bits_ok (length rows) (en_bits e)"

definition eng_inv :: "field_info list \<Rightarrow> (byte list \<rightharpoonup> byte list) list \<Rightarrow> ('i, 'f) engine \<Rightarrow> bool" where
  "eng_inv cols rows e \<longleftrightarrow> (\<exists>D m. eng_repr cols rows D m e)"

text \<open>The documents that are not marked as deleted.\<close>

definition visible :: "(byte list \<rightharpoonup> byte list) list \<Rightarrow> ('i, 'f) engine \<Rightarrow> nat set" where
  "visible rows e = {i. i < length rows \<and> int i \<notin> mgr_set (en_bits e)}"

lemma build_if_due_simps [simp]:
  "en_table (build_if_due e) = en_table e" "en_bits (build_if_due e) = en_bits e" "en_range (build_if_due e) = en_range e"
  "en_max (build_if_due e) = en_max e" "en_vec (build_if_due e) = en_vec e" "en_deleted (build_if_due e) = en_deleted e"
  "en_text (build_if_due e) = en_text e" "en_status (build_if_due e) = en_status e"
  by (simp_all add: build_if_due_def EN_BuildIndex_def)

lemma eng_repr_cong:
  "\<lbrakk>en_table e' = en_table e; en_range e' = en_range e; en_bits e' = en_bits e; en_max e' = en_max e\<rbrakk> \<Longrightarrow>
    eng_repr cols rows D m e' = eng_repr cols rows D m e"
  by (simp add: eng_repr_def)

subsection \<open>A new document\<close>

lemma names_all:
  assumes "distinct (map fi_name cols)" "fd_name ` set fs \<subseteq> fi_name ` set cols" "distinct (map fd_name fs)" "length fs = length cols"
  shows "fd_name ` set fs = fi_name ` set cols"
proof (rule card_subset_eq [OF _ assms(2)])
  have "card (fd_name ` set fs) = length fs" using distinct_card [OF assms(3)] by simp
  moreover have "card (fi_name ` set cols) = length cols" using distinct_card [OF assms(1)] by simp
  ultimately show "card (fd_name ` set fs) = card (fi_name ` set cols)" using assms(4) by simp
qed simp

lemma cols_named_all:
  assumes "fi_name ` set cols \<subseteq> ns"
  shows "cols_named cols ns = {0..<int (length cols)}"
proof -
  have "{j. j < length cols \<and> fi_name (cols ! j) \<in> ns} = {0..<length cols}" using assms by auto
  then have "cols_named cols ns = int ` {0..<length cols}" by (auto simp: cols_named_def)
  then show ?thesis by (simp add: image_int_atLeastLessThan)
qed

lemma tblv_snoc_old: "\<lbrakk>d < int (length rows)\<rbrakk> \<Longrightarrow> tblv cols (rows @ [r]) d f = tblv cols rows d f"
  by (auto simp: tblv_def nth_append)

lemma tblv_snoc_new: "j < length cols \<Longrightarrow> tblv cols (rows @ [r]) (int (length rows)) (int j) = r (fi_name (cols ! j))"
  by (simp add: tblv_def)

lemma index_new_ok:
  assumes t: "tbl_repr cols (rows @ [r]) P (en_table e)" and m: "en_range e = Some m" "length (mx_flds m) = length cols"
    and inv: "sys_inv (sysof m cols rows (D \<times> indexed (mx_flds m)))" and D: "D \<subseteq> {0..<int (length rows)}"
    and fs: "fields_ok cols fs" "distinct (map fd_name fs)" "length fs = length cols" and room: "length rows < 199000000"
    and good: "\<forall>j < length cols. int j \<in> indexed (mx_flds m) \<longrightarrow> (\<exists>v. r (fi_name (cols ! j)) = Some v \<and> good_value (mx_flds m) (int j) v)"
  shows "\<exists>m'. index_fields (int (length rows)) fs e = Some (e\<lparr>en_range := Some m'\<rparr>) \<and> mx_flds m' = mx_flds m \<and>
    sys_inv (sysof m' cols (rows @ [r]) (insert (int (length rows)) D \<times> indexed (mx_flds m')))"
proof -
  let ?I = "indexed (mx_flds m)" and ?n = "int (length rows)"
  have dn: "distinct (map fi_name cols)" using t by (simp add: tbl_repr_def layout_def)
  have sub: "fd_name ` set fs \<subseteq> fi_name ` set cols" using fs(1) by (auto simp: fields_ok_def)
  have all: "cols_named cols (fd_name ` set fs) = {0..<int (length cols)}"
    by (rule cols_named_all) (simp add: names_all [OF dn sub fs(2,3)])
  have inv1: "sys_inv (sysof m cols (rows @ [r]) (D \<times> ?I))"
  proof -
    have "tblv cols (rows @ [r]) d f = tblv cols rows d f" if "d \<in> D" for d f
      by (rule tblv_snoc_old) (use D that in auto)
    then have "\<forall>(d, f) \<in> s_cur (sysof m cols rows (D \<times> ?I)). tblv cols (rows @ [r]) d f = s_tbl (sysof m cols rows (D \<times> ?I)) d f" by simp
    from inv_write [OF inv this] show ?thesis by simp
  qed
  have g: "\<forall>j \<in> ?I. \<exists>v. tblv cols (rows @ [r]) ?n j = Some v \<and> good_value (mx_flds m) j v"
  proof
    fix f
    assume f: "f \<in> ?I"
    then have "0 \<le> f" "nat f < length cols" using indexed_range [OF f] m(2) by auto
    then show "\<exists>v. tblv cols (rows @ [r]) ?n f = Some v \<and> good_value (mx_flds m) f v"
      using good f tblv_snoc_new [of "nat f" cols rows r] by auto
  qed
  have "docid_ok ?n" using room by (simp add: docid_ok_def)
  moreover have "\<forall>j \<in> cols_named cols (fd_name ` set fs). (?n, j) \<notin> D \<times> ?I" using D by auto
  ultimately obtain m' where m': "index_fields ?n fs e = Some (e\<lparr>en_range := Some m'\<rparr>)" "mx_flds m' = mx_flds m"
    "sys_inv (sysof m' cols (rows @ [r]) (D \<times> ?I \<union> {?n} \<times> (?I \<inter> cols_named cols (fd_name ` set fs))))"
    using index_fields_ok [OF t m inv1 _ sub fs(2) _ g] by blast
  have "?I \<subseteq> {0..<int (length cols)}" using indexed_range m(2) by fastforce
  then have "D \<times> ?I \<union> {?n} \<times> (?I \<inter> cols_named cols (fd_name ` set fs)) = insert ?n D \<times> ?I" using all by auto
  then show ?thesis using m' by auto
qed

lemma EN_AddOrUpdate_new:
  assumes e: "eng_repr cols rows D m e" and key: "dc_key d \<noteq> []" "key_of (ee_hash env) (dc_key d) (en_table e) = Some k" "tb_keys (en_table e) k = None"
    and fs: "fields_ok cols (dc_fields d)" "length (dc_fields d) = length cols" "distinct (map fd_name (dc_fields d))"
    and room: "length rows < 199000000" "str_used (en_table e) + bytes_of (dc_fields d) < 4294967296"
    and good: "\<forall>j < length cols. int j \<in> indexed (mx_flds m) \<longrightarrow>
      (\<exists>v. rec_of cols (dc_fields d) (fi_name (cols ! j)) = Some v \<and> good_value (mx_flds m) (int j) v)"
    and vec: "VG_AddToStore (en_max e) vs (en_vec e) = Some (ret, vm)" and io: "io_ok (ee_io env)"
  shows "\<exists>P tb m'. tbl_repr cols (rows @ [rec_of cols (dc_fields d)]) P tb \<and>
    tb_keys tb = (tb_keys (en_table e))(k \<mapsto> en_max e) \<and> tb_id_type tb = tb_id_type (en_table e) \<and>
    str_used tb \<le> str_used (en_table e) + bytes_of (dc_fields d) \<and> mx_flds m' = mx_flds m \<and>
    (if ret \<noteq> 0 then EN_AddOrUpdate env (d, vs) e = Some (-4, e\<lparr>en_table := tb, en_range := Some m', en_vec := vm\<rparr>)
     else \<exists>e'. EN_AddOrUpdate env (d, vs) e = Some (0, e') \<and>
       eng_repr cols (rows @ [rec_of cols (dc_fields d)]) (insert (en_max e) D) m' e' \<and> en_table e' = tb \<and> en_vec e' = vm \<and>
       mgr_set (en_bits e') = mgr_set (en_bits e) \<and> en_deleted e' = en_deleted e)"
proof -
  let ?r = "rec_of cols (dc_fields d)" and ?n = "int (length rows)"
  obtain P where P: "tbl_repr cols rows P (en_table e)" using e by (auto simp: eng_repr_def)
  have mx: "en_max e = ?n" and en: "no_later (en_table e)" "en_range e = Some m" "length (mx_flds m) = length cols"
    "sys_inv (sysof m cols rows (D \<times> indexed (mx_flds m)))" "D \<subseteq> {0..<?n}" "{0..<?n} - mgr_set (en_bits e) \<subseteq> D" "bits_ok (length rows) (en_bits e)"
    using e by (simp_all add: eng_repr_def)
  obtain tb where tb: "TB_Add (ee_hash env) (ee_junk env) (dc_key d) (dc_fields d) ?n (en_table e) = Some (0, tb)" "tbl_repr cols (rows @ [?r]) P tb"
    "tb_keys tb = [k \<mapsto> ?n] ++ tb_keys (en_table e)" "tb_id_type tb = tb_id_type (en_table e)" "tb_fields tb = tb_fields (en_table e)"
    "str_used tb \<le> str_used (en_table e) + bytes_of (dc_fields d)"
    using TB_Add_ok [OF P fs(1,2) key(1,2) room] by blast
  have keys: "tb_keys tb = (tb_keys (en_table e))(k \<mapsto> ?n)" using tb(3) key(3) by (auto simp: map_add_def fun_eq_iff split: option.split)
  let ?e1 = "e\<lparr>en_table := tb\<rparr>"
  obtain m' where m': "index_fields ?n (dc_fields d) ?e1 = Some (?e1\<lparr>en_range := Some m'\<rparr>)" "mx_flds m' = mx_flds m"
    "sys_inv (sysof m' cols (rows @ [?r]) (insert ?n D \<times> indexed (mx_flds m')))"
    using index_new_ok [of cols rows ?r P ?e1 m D "dc_fields d"] tb(2) en fs room(1) good by auto
  have found: "TB_GetDocIDByKey (ee_hash env) (dc_key d) (-1) (en_table e) = Some (-1, -1)" using key(2,3) by (simp add: TB_GetDocIDByKey_def)
  show ?thesis
  proof (cases "ret = 0")
    case False
    then have "EN_AddOrUpdate env (d, vs) e = Some (-4, e\<lparr>en_table := tb, en_range := Some m', en_vec := vm\<rparr>)"
      using found tb(1) m'(1) vec mx by (simp add: EN_AddOrUpdate_def)
    then show ?thesis using False tb(2,4,6) keys mx m'(2) by auto
  next
    case True
    obtain b where b: "BM_SetMaxID (ee_io env) (en_bits e) (of_nat (length rows + 1)) = Some b" "bits_ok (length rows + 1) b" "mgr_set b = mgr_set (en_bits e)"
      using BM_SetMaxID_ok [OF en(7) _ io] room(1) by auto
    let ?e2 = "?e1\<lparr>en_range := Some m', en_vec := vm\<rparr>"
    let ?e3 = "?e2\<lparr>en_max := ?n + 1, en_bits := b\<rparr>"
    have "take_ids env 1 ?e2 = Some ?e3" using b(1) mx by (simp add: take_ids_def add.commute)
    then have run: "EN_AddOrUpdate env (d, vs) e = Some (0, (build_if_due ?e3)\<lparr>en_dirty := True\<rparr>)"
      using True found tb(1) m'(1) vec mx by (simp add: EN_AddOrUpdate_def)
    have "{0..<int (length (rows @ [?r]))} = insert ?n {0..<?n}" by auto
    then have "{0..<int (length (rows @ [?r]))} - mgr_set b \<subseteq> insert ?n D" using en(6) b(3) by blast
    moreover have "no_later tb" using en(1) tb(5) by (simp add: no_later_def)
    ultimately have "eng_repr cols (rows @ [?r]) (insert ?n D) m' ?e3"
      using tb(2) m' en(3,5) b(2) by (auto simp: eng_repr_def)
    then have "eng_repr cols (rows @ [?r]) (insert ?n D) m' ((build_if_due ?e3)\<lparr>en_dirty := True\<rparr>)"
      using eng_repr_cong [of "(build_if_due ?e3)\<lparr>en_dirty := True\<rparr>" ?e3] by simp
    then show ?thesis using True run tb(2,4,6) keys mx b(3) m'(2) by auto
  qed
qed

subsection \<open>Deleting a document\<close>

text \<open>The map from names to column numbers has every column once.\<close>

lemma attr_idx_shape:
  assumes "layout cols tb"
  shows "snd ` set (tb_attr_idx tb) = {0..<int (length cols)}" "distinct (map snd (tb_attr_idx tb))"
proof -
  let ?l = "tb_attr_idx tb"
  have m: "map_of ?l = col_map cols int" and len: "length ?l = length cols" and dn: "distinct (map fi_name cols)"
    using assms by (simp_all add: layout_def)
  have "fst ` set ?l = fi_name ` set cols"
    using m dom_map_of_conv_image_fst [of ?l] dom_map_of_conv_image_fst [of "zip (map fi_name cols) (map int [0..<length cols])"]
    by (simp add: col_map_def flip: set_map map_fst_zip)
  then have "card (set (map fst ?l)) = length (map fst ?l)" using distinct_card [OF dn] len by simp
  then have d: "distinct (map fst ?l)" by (rule card_distinct)
  have in_l: "(n, v) \<in> set ?l \<longleftrightarrow> map_of ?l n = Some v" for n v using d by (simp add: map_of_eq_Some_iff)
  have dz: "distinct (map fst (zip (map fi_name cols) (map int [0..<length cols])))" using dn by simp
  have "(n, v) \<in> set ?l \<longleftrightarrow> (n, v) \<in> set (zip (map fi_name cols) (map int [0..<length cols]))" for n v
    unfolding in_l m col_map_def using dz by (simp add: map_of_eq_Some_iff)
  then have "set ?l = set (zip (map fi_name cols) (map int [0..<length cols]))" by auto
  then have "snd ` set ?l = set (map snd (zip (map fi_name cols) (map int [0..<length cols])))" by (simp only: set_map)
  then have s: "snd ` set ?l = int ` {0..<length cols}" by simp
  then show "snd ` set ?l = {0..<int (length cols)}" by (simp add: image_int_atLeastLessThan)
  have "card (set (map snd ?l)) = length (map snd ?l)" using s len by (simp add: card_image)
  then show "distinct (map snd ?l)" by (rule card_distinct)
qed

lemma remove_doc_ok:
  assumes e: "eng_repr cols rows D m e" and key: "key_of (ee_hash env) key (en_table e) = Some k"
    and i: "i < length rows" "int i \<in> D" and vec: "VG_Delete (int i) (en_vec e) = Some (r, vm)" and io: "io_ok (ee_io env)"
  shows "\<exists>e' m'. remove_doc env (int i) key e = Some e' \<and> eng_repr cols rows (D - {int i}) m' e' \<and>
    mgr_set (en_bits e') = insert (int i) (mgr_set (en_bits e)) \<and> tb_keys (en_table e') = (tb_keys (en_table e))(k := None) \<and>
    tb_id_type (en_table e') = tb_id_type (en_table e) \<and> en_vec e' = vm \<and> en_deleted e' = en_deleted e + 1 \<and>
    flds_keys (mx_flds m') = flds_keys (mx_flds m)"
proof -
  obtain P where P: "tbl_repr cols rows P (en_table e)" using e by (auto simp: eng_repr_def)
  have lay: "layout cols (en_table e)" using P by (simp add: tbl_repr_def)
  have en: "no_later (en_table e)" "en_range e = Some m" "length (mx_flds m) = length cols"
    "sys_inv (sysof m cols rows (D \<times> indexed (mx_flds m)))" "D \<subseteq> {0..<int (length rows)}"
    "{0..<int (length rows)} - mgr_set (en_bits e) \<subseteq> D" "bits_ok (length rows) (en_bits e)" "en_max e = int (length rows)"
    using e by (simp_all add: eng_repr_def)
  obtain b where b: "mark_deleted env (int i) e = Some (e\<lparr>en_deleted := en_deleted e + 1, en_bits := b\<rparr>)" "bits_ok (length rows) b"
    "mgr_set b = insert (int i) (mgr_set (en_bits e))"
    using mark_deleted_ok [OF en(7) i(1) io] by blast
  let ?e1 = "e\<lparr>en_deleted := en_deleted e + 1, en_bits := b\<rparr>"
  let ?l = "tb_attr_idx (en_table e)" and ?I = "indexed (mx_flds m)"
  have I: "?I \<subseteq> {0..<int (length cols)}" using indexed_range en(3) by fastforce
  obtain Q tb m' where t: "unindex_all env (int i) ?l ?e1 = Some (?e1\<lparr>en_table := tb, en_range := Some m'\<rparr>)" "tbl_repr cols rows Q tb"
    "sm_changed (en_table e) tb" "sys_inv (sysof m' cols rows (D \<times> ?I - {int i} \<times> snd ` set ?l))"
    "flds_keys (mx_flds m') = flds_keys (mx_flds m)" "length (mx_flds m') = length (mx_flds m)"
    using unindex_all_ok [of cols rows P ?e1 m "D \<times> ?I" ?l "int i" env] P en(1-4) attr_idx_shape [OF lay] i(2) by auto
  have "D \<times> ?I - {int i} \<times> snd ` set ?l = (D - {int i}) \<times> indexed (mx_flds m')"
    using attr_idx_shape(1) [OF lay] I indexed_cong [OF t(5)] by auto
  then have inv: "sys_inv (sysof m' cols rows ((D - {int i}) \<times> indexed (mx_flds m')))" using t(4) by simp
  note ch = sm_changedD [OF t(3)]
  let ?tb = "tb\<lparr>tb_keys := (tb_keys tb)(k := None)\<rparr>"
  have "key_of (ee_hash env) key tb = Some k" using key ch(1) by (simp add: key_of_def)
  then have d: "TB_Delete (ee_hash env) key tb = Some (0, ?tb)" by (simp add: TB_Delete_def)
  have "layout cols ?tb" using t(2) by (auto simp: tbl_repr_def layout_def)
  then have r: "tbl_repr cols rows Q ?tb" using t(2) by (simp add: tbl_repr_def)
  let ?e' = "?e1\<lparr>en_table := tb, en_range := Some m'\<rparr>\<lparr>en_table := ?tb, en_vec := vm\<rparr>"
  have "remove_doc env (int i) key e = Some ?e'" using b(1) t(1) d vec by (simp add: remove_doc_def)
  moreover have "no_later ?tb" using en(1) ch(8) by (simp add: no_later_def)
  then have "eng_repr cols rows (D - {int i}) m' ?e'"
    using r t(6) inv en(3,5,6,8) b(2,3) unfolding eng_repr_def by auto
  ultimately show ?thesis using b(3) ch(1,2) t(5) by (intro exI [of _ ?e'] exI [of _ m']) simp
qed

end
