(* ===== verification/EngineLife.thy ===== *)
theory EngineLife
  imports Engine
begin

text \<open>
  The life of an engine (\<open>search/gamma_engine.cc\<close>): \<open>Setup\<close>, the creation of its table, new fields, the
  configuration of the caches, \<open>Dump\<close>, and \<open>Load\<close> after a restart.
\<close>

text \<open>What is on the disk and in the registry of models when a table is created: the results of opening
  and parsing \<open>dump.meta\<close>, the files of the table, and the parameters of the vectors.\<close>

record ('i, 'f) create_env =
  ce_meta :: int
  ce_folders :: "byte list \<Rightarrow> folder option"
  ce_persist :: "byte list option"
  ce_folder :: folder
  ce_vec :: "('i, 'f) vec_env"
  ce_open_schema :: bool

subsection \<open>Setup\<close>

definition engine_new :: "table \<Rightarrow> bitmap_mgr \<Rightarrow> int \<Rightarrow> ('i, 'f) engine" where
  "engine_new tb bits indexing_size =
     \<lparr>en_table = tb, en_vec = VG_new, en_bits = bits, en_range = None, en_text = None, en_max = 0, en_size = indexing_size,
      en_deleted = 0, en_running = 0, en_status = UNINDEXED, en_feeder = NoThread, en_dirty = False, en_created = False,
      en_schema = None, en_dumped = False\<rparr>"

text \<open>The bitmap is as large as its file, or 50 million bits in a new file. Results of \<open>Load\<close> and \<open>Dump\<close>
  are not looked at; \<open>id_type\<close>, \<open>indexing_size\<close> and \<open>compress\<close> have no value yet.\<close>

definition EN_Setup :: "(string \<Rightarrow> int) \<Rightarrow> (string \<Rightarrow> byte list) \<Rightarrow> (nat \<Rightarrow> u32 \<Rightarrow> int) \<Rightarrow> string \<Rightarrow> byte \<Rightarrow> bool \<Rightarrow> int \<Rightarrow>
    (int \<times> ('i, 'f) engine) option" where
  "EN_Setup opn content io path id_type compress indexing_size = do {
     let (r, b0) = BM_SetDumpFilePath opn content new_bitmap_mgr path;
     let fbytes = BM_FileBytesSize b0;
     (ret, b1) \<leftarrow> BM_Init opn content b0 (if fbytes \<noteq> 0 then fbytes * 8 else 50000000) [] None;
     (if ret \<noteq> 0 then Some (300, engine_new (Table_new id_type compress) b1 indexing_size)
      else do {
        (r, b2) \<leftarrow> (if fbytes \<noteq> 0 then BM_Load io b1 0 0 else BM_Dump io b1 0 0);
        Some (0, engine_new (Table_new id_type compress) b2 indexing_size) }) }"

subsection \<open>Creating the table\<close>

fun add_num_fields :: "(byte list \<times> data_type) list \<Rightarrow> (byte list \<times> bool) list \<Rightarrow> table \<Rightarrow> mfx \<Rightarrow> mfx option" where
  "add_num_fields [] ixs tb m = Some m"
| "add_num_fields ((name, t) # rest) ixs tb m =
     (if map_of ixs name = Some True
      then do {
        idx \<leftarrow> TB_GetAttrIdx name tb;
        (r, m') \<leftarrow> MFR_AddField m idx t;
        add_num_fields rest ixs tb m' }
      else add_num_fields rest ixs tb m)"

definition EN_AddNumIndexFields :: "table \<Rightarrow> mfx \<Rightarrow> mfx option" where
  "EN_AddNumIndexFields tb m = add_num_fields (tb_attr_type tb) (TB_GetAttrIsIndex [] tb) tb m"

definition vec_info :: "sch_vector \<Rightarrow> vector_info" where
  "vec_info v = \<lparr>vi_name = sv_name v, vi_dim = nat (sint (sv_dim v)), vi_store = sv_store v, vi_param = sv_param v,
     vi_has_source = sv_source v, vi_is_index = sv_index v\<rparr>"

definition vectors_of :: "table_info \<Rightarrow> table_vectors" where
  "vectors_of ti = \<lparr>tv_infos = map vec_info (ti_vectors ti), tv_type = ti_type ti, tv_param = ti_param ti, tv_types = ti_types ti,
     tv_params = ti_params ti, tv_indexing_size = sint (ti_size ti)\<rparr>"

text \<open>The name of the schema file is what follows the last slash of the table's name.\<close>

definition base_name :: "byte list \<Rightarrow> byte list" where
  "base_name name = rev (takeWhile (\<lambda>b. b \<noteq> 47) (rev name))"

definition write_schema :: "bool \<Rightarrow> table_info \<Rightarrow> ('i, 'f) engine \<Rightarrow> ('i, 'f) engine option" where
  "write_schema opened ti e = do {
     (r, bs) \<leftarrow> TS_Write opened ti;
     Some (case bs of None \<Rightarrow> e | Some b \<Rightarrow> e\<lparr>en_schema := Some (base_name (ti_name ti), b)\<rparr>) }"

definition EN_CreateTable :: "('i, 'f) create_env \<Rightarrow> table_info \<Rightarrow> ('i, 'f) engine \<Rightarrow> (int \<times> ('i, 'f) engine) option" where
  "EN_CreateTable ce ti e =
     (if ce_meta ce \<noteq> 0 then Some (ce_meta ce, e)
      else do {
        (ret, vm) \<leftarrow> VG_CreateVectorTable (ce_vec ce) (vectors_of ti) (en_vec e);
        let e1 = e\<lparr>en_vec := vm\<rparr>;
        (if ret \<noteq> 0 then Some (-2, e1)
         else do {
           (ret, tb) \<leftarrow> TB_CreateTable (ce_folders ce) (ce_persist ce) (ce_folder ce) (ti_compress ti) (ti_fields ti) (en_bits e1) (en_table e1);
           let e2 = e1\<lparr>en_table := tb, en_size := sint (ti_size ti)\<rparr>;
           (if ret \<noteq> 0 then Some (-2, e2)
            else do {
              m \<leftarrow> EN_AddNumIndexFields tb (new_mfx (length (tb_attrs tb)));
              e3 \<leftarrow> write_schema (ce_open_schema ce) ti (e2\<lparr>en_range := Some m, en_text := Some []\<rparr>);
              Some (0, e3\<lparr>en_created := True\<rparr>) }) }) })"

text \<open>The version for a name: the indexing size has no value.\<close>

definition EN_CreateTableByName :: "('i, 'f) create_env \<Rightarrow> u32 \<Rightarrow> byte list \<Rightarrow> ('i, 'f) engine \<Rightarrow> (int \<times> ('i, 'f) engine) option" where
  "EN_CreateTableByName ce junk name e = EN_CreateTable ce ((TableInfo_new junk)\<lparr>ti_name := name\<rparr>) e"

text \<open>The number of the field counts as an error when it is negative.\<close>

definition EN_AddNewField :: "(byte list \<Rightarrow> folder option) \<Rightarrow> field_info \<Rightarrow> ('i, 'f) engine \<Rightarrow> (int \<times> ('i, 'f) engine) option" where
  "EN_AddNewField folders fi e = do {
     (fid, tb) \<leftarrow> TB_AddNewField folders fi (en_table e);
     let e1 = e\<lparr>en_table := tb\<rparr>;
     (if fid < 0 then Some (fid, e1)
      else if fi_index fi
      then do {
        m \<leftarrow> en_range e1;
        (ret, m') \<leftarrow> MFR_AddNewField m fid (fi_type fi);
        Some (ret, e1\<lparr>en_range := Some m'\<rparr>) }
      else Some (fid, e1)) }"

subsection \<open>Dump and load\<close>

text \<open>\<open>Sync\<close> waits for the writer. \<open>done_file\<close>: the file that marks a dump as complete can be written.\<close>

definition EN_Dump :: "bool \<Rightarrow> ('i, 'f) engine \<Rightarrow> (int \<times> ('i, 'f) engine) option" where
  "EN_Dump done_file e = do {
     e1 \<leftarrow> wait_table e;
     (if en_dirty e1
      then do {
        (ret, vm) \<leftarrow> VG_Dump 0 (en_max e1 - 1) (en_vec e1);
        let e2 = e1\<lparr>en_vec := vm\<rparr>;
        (if ret \<noteq> 0 \<or> \<not> done_file then Some (-1, e2)
         else Some (0, e2\<lparr>en_dumped := True, en_dirty := False\<rparr>)) }
      else Some (0, e1)) }"

definition EN_CreateTableFromLocal :: "('i, 'f) create_env \<Rightarrow> u32 \<Rightarrow> ('i, 'f) engine \<Rightarrow> (int \<times> ('i, 'f) engine) option" where
  "EN_CreateTableFromLocal ce junk e = (case en_schema e of
     None \<Rightarrow> Some (-1, e)
   | Some (name, bs) \<Rightarrow> do {
       (ret, ti) \<leftarrow> TS_Read (Some bs) name (TableInfo_new junk);
       (if ret \<noteq> 0 then Some (-1, e)
        else do { (ret, e1) \<leftarrow> EN_CreateTable ce ti e; Some (if ret \<noteq> 0 then -1 else 0, e1) }) })"

fun load_index :: "(int \<times> int) list \<Rightarrow> ('i, 'f) engine \<Rightarrow> ('i, 'f) engine option" where
  "load_index [] e = Some e"
| "load_index ((i, j) # rest) e = do { e' \<leftarrow> IX_Add i j e; load_index rest e' }"

fun count_deleted :: "bitmap_mgr \<Rightarrow> nat list \<Rightarrow> int option" where
  "count_deleted bm [] = Some 0"
| "count_deleted bm (i # is) = do {
     deleted \<leftarrow> BM_Test bm (of_nat i);
     n \<leftarrow> count_deleted bm is;
     Some (if deleted then n + 1 else n) }"

text \<open>The dump with the latest time is loaded; \<open>en_dumped\<close> says that there is one. The documents are cut to
  the shortest field of vectors. The table shares the bitmap of the engine.\<close>

definition EN_Load :: "eng_env \<Rightarrow> ('i, 'f) create_env \<Rightarrow> u32 \<Rightarrow> ('i, 'f) engine \<Rightarrow> (int \<times> ('i, 'f) engine) option" where
  "EN_Load env ce junk e = do {
     (ret, e1) \<leftarrow> (if en_created e then Some (0, e) else EN_CreateTableFromLocal ce junk e);
     (if ret \<noteq> 0 then Some (-1, e1)
      else do {
        (ret, n, vm) \<leftarrow> VG_Load (ee_g env) (en_dumped e1) (int (TB_GetStorageManagerSize (en_table e1))) (en_vec e1);
        let e2 = e1\<lparr>en_max := n, en_vec := vm\<rparr>;
        (if ret \<noteq> 0 then Some (ret, e2)
         else do {
           (ret, tb) \<leftarrow> TB_Load (ee_hash env) (ee_g env) (nat n) ((en_table e2)\<lparr>tb_bitmap := Some (en_bits e2)\<rparr>);
           let e3 = e2\<lparr>en_table := tb\<rparr>;
           (if ret \<noteq> 0 then Some (ret, e3)
            else do {
              e4 \<leftarrow> load_index (List.product [0..n - 1] [0..int (length (tb_attrs tb)) - 1]) e3;
              deleted \<leftarrow> count_deleted (en_bits e4) [0..<nat n];
              Some (0, build_if_due (e4\<lparr>en_deleted := deleted\<rparr>)) }) }) }) }"

subsection \<open>Configuration and schema\<close>

text \<open>The names ''table'' and ''string'' stand for the two caches of the table.\<close>

definition text_table :: "byte list" where "text_table = [116, 97, 98, 108, 101]"
definition text_string :: "byte list" where "text_string = [115, 116, 114, 105, 110, 103]"

definition EN_GetConfig :: "('i, 'f) engine \<Rightarrow> (int \<times> (byte list \<times> int) list) option" where
  "EN_GetConfig e = do {
     sizes \<leftarrow> VG_GetAllCacheSize (en_vec e);
     (t, s) \<leftarrow> TB_GetCacheSize (en_table e);
     Some (0, sizes @ [(text_table, t), (text_string, s)]) }"

fun set_caches :: "(byte list \<times> int) list \<Rightarrow> int \<times> int \<Rightarrow> ('i, 'f) engine \<Rightarrow> ((int \<times> int) \<times> ('i, 'f) engine) option" where
  "set_caches [] ts e = Some (ts, e)"
| "set_caches ((name, n) # cs) (t, s) e =
     (if name = text_table then set_caches cs (n, s) e
      else if name = text_string then set_caches cs (t, n) e
      else do { (r, vm) \<leftarrow> VG_AlterCacheSize name n (en_vec e); set_caches cs (t, s) (e\<lparr>en_vec := vm\<rparr>) })"

definition EN_SetConfig :: "(byte list \<times> int) list \<Rightarrow> ('i, 'f) engine \<Rightarrow> (int \<times> (byte list \<times> int) list \<times> ('i, 'f) engine) option" where
  "EN_SetConfig conf e = do {
     ((t, s), e1) \<leftarrow> set_caches conf (0, 0) e;
     tb \<leftarrow> TB_AlterCacheSize t s (en_table e1);
     (r, conf') \<leftarrow> EN_GetConfig (e1\<lparr>en_table := tb\<rparr>);
     Some (0, conf', e1\<lparr>en_table := tb\<rparr>) }"

definition EN_GetFieldsType :: "byte list list \<Rightarrow> (byte list \<times> data_type) list \<Rightarrow> ('i, 'f) engine \<Rightarrow> (byte list \<times> data_type) list option" where
  "EN_GetFieldsType names types e = TB_GetAllAttrType names types (en_table e)"

definition EN_GetFieldsInfo :: "('i, 'f) engine \<Rightarrow> (field_info list \<times> (byte list \<times> nat) list) option" where
  "EN_GetFieldsInfo e = do { fs \<leftarrow> TB_GetAllFields (en_table e); Some (fs, VG_GetAllFields (en_vec e)) }"

text \<open>\<open>GetIndexStatus\<close> without the sizes of the memory: status, documents, the largest id, and the indexed vectors.\<close>

definition EN_GetIndexStatus :: "('i, 'f) engine \<Rightarrow> index_status \<times> int \<times> int \<times> int" where
  "EN_GetIndexStatus e = (en_status e, EN_GetDocsNum e, en_max e - 1, VG_MinIndexedNum (en_vec e))"

end
