(* ===== verification/EngineRun.thy ===== *)
theory EngineRun
  imports EngineDocs EngineLife TableOps
begin

text \<open>
  The engine from the creation of its table on: updates of documents, the creation, and the abstract
  database that an engine represents, with its rows, its keys and its deleted documents.
\<close>

subsection \<open>Updating numbers in a row\<close>

definition num_field :: "field_info list \<Rightarrow> doc_field \<Rightarrow> bool" where
  "num_field cols f \<longleftrightarrow> (\<exists>j < length cols. fd_name f = fi_name (cols ! j) \<and> fi_type (cols ! j) \<noteq> STRING \<and> fd_type f \<noteq> STRING \<and>
     length (fd_value f) = col_size cols j)"

definition upd_rec :: "doc_field list \<Rightarrow> (byte list \<rightharpoonup> byte list) \<Rightarrow> byte list \<rightharpoonup> byte list" where
  "upd_rec fs rc = foldl (\<lambda>rc f. rc(fd_name f \<mapsto> fd_value f)) rc fs"

lemma upd_rec_simps [simp]: "upd_rec [] rc = rc" "upd_rec (f # fs) rc = upd_rec fs (rc(fd_name f \<mapsto> fd_value f))"
  by (simp_all add: upd_rec_def)

lemma upd_rec_other: "n \<notin> fd_name ` set fs \<Longrightarrow> upd_rec fs rc n = rc n"
  by (induction fs arbitrary: rc) auto

lemma upd_rec_in: "\<lbrakk>f \<in> set fs; distinct (map fd_name fs)\<rbrakk> \<Longrightarrow> upd_rec fs rc (fd_name f) = Some (fd_value f)"
  by (induction fs arbitrary: rc) (auto simp: upd_rec_other)

lemma over_one:
  assumes "distinct (map fi_name cols)" "j < length cols" "length v = col_size cols j" "doc_at cols m i row rc" "fi_type (cols ! j) \<noteq> STRING"
    and "off_of cols (j + 1) \<le> length row"
  shows "doc_at cols m i (splice (off_of cols j) v row) (rc(fi_name (cols ! j) \<mapsto> v))"
proof -
  have o: "off_of cols j + length v = off_of cols (j + 1)" using off_of_Suc [OF assms(2)] assms(3) by simp
  have "over cols j 1 v rc n = (rc(fi_name (cols ! j) \<mapsto> v)) n" for n
    using assms(3) by (simp add: over_def upt_rec)
  then have "over cols j 1 v rc = rc(fi_name (cols ! j) \<mapsto> v)" by (rule ext)
  moreover have "\<forall>k. j \<le> k \<and> k < j + 1 \<longrightarrow> fi_type (cols ! k) \<noteq> STRING" using assms(5) by (metis Suc_eq_plus1 le_antisym less_Suc_eq_le)
  ultimately show ?thesis using doc_at_over [OF assms(1,4) _ o assms(6)] assms(2) by simp
qed

lemma update_nums_ok:
  assumes "layout cols tb" "\<forall>f \<in> set fs. num_field cols f" "doc_at cols m i row rc" "length row = tb_item_length tb"
  shows "\<exists>row'. update_values docid fs row tb = Some (row', tb) \<and> length row' = length row \<and> doc_at cols m i row' (upd_rec fs rc)"
  using assms
proof (induction fs arbitrary: row rc)
  case Nil
  then show ?case by simp
next
  case (Cons f fs)
  obtain j where j: "j < length cols" "fd_name f = fi_name (cols ! j)" "fi_type (cols ! j) \<noteq> STRING" "fd_type f \<noteq> STRING"
    "length (fd_value f) = col_size cols j"
    using Cons.prems(2) by (auto simp: num_field_def)
  let ?row = "splice (off_of cols j) (fd_value f) row"
  have dn: "distinct (map fi_name cols)" using Cons.prems(1) by (simp add: layout_def)
  have fit: "off_of cols j + col_size cols j \<le> length row" using off_of_in [OF j(1)] Cons.prems(1,4) by (simp add: layout_def)
  then have fit1: "off_of cols (j + 1) \<le> length row" using off_of_Suc [OF j(1)] by simp
  have "mem_put (off_of cols j) (fd_value f) row = Some ?row" using fit j(5) by (simp add: mem_put_def)
  then have u: "update_value docid f row tb = Some (?row, tb)"
    using layout_lookup(3) [OF Cons.prems(1) j(1)] layout_fetch(3) [OF Cons.prems(1) j(1)] j(2,4) by (simp add: update_value_def)
  have d: "doc_at cols m i ?row (rc(fd_name f \<mapsto> fd_value f))"
    using over_one [OF dn j(1,5) Cons.prems(3) j(3) fit1] j(2) by simp
  have l: "length ?row = length row" using fit j(5) by simp
  obtain row' where "update_values docid fs ?row tb = Some (row', tb)" "length row' = length ?row"
    "doc_at cols m i row' (upd_rec fs (rc(fd_name f \<mapsto> fd_value f)))"
    using Cons.IH [OF Cons.prems(1) _ d] Cons.prems(2,4) l by (auto simp del: fun_upd_apply)
  then show ?case using u l by simp
qed

lemma TB_Update_nums:
  assumes r: "tbl_repr cols rows P tb" and i: "i < P" and f: "\<forall>f \<in> set fs. num_field cols f"
  shows "\<exists>tb'. TB_Update g fs (int i) tb = Some (0, tb') \<and> tbl_repr cols (rows[i := upd_rec fs (rows ! i)]) P tb' \<and> sm_changed tb tb'"
proof (cases "fs = []")
  case True
  then show ?thesis using r by (intro exI [of _ tb]) (simp add: TB_Update_def)
next
  case False
  obtain m items where m: "layout cols tb" "tb_sm tb = Some m" "rows_mgr (tb_item_length tb) items P m" "length items = length rows"
    "\<forall>i < length rows. doc_at cols m i (items ! i) (rows ! i)" "P \<le> length rows"
    by (rule tblE [OF r])
  have il: "i < length rows" "i < length items" using i m(4,6) by simp_all
  obtain m1 where m1: "get_row g (int i) tb = Some (0, Some (items ! i), tb\<lparr>tb_sm := Some m1\<rparr>)" "rows_mgr (tb_item_length tb) items P m1" "has_all m m1"
    using get_row_ok [OF m(1-3) i] by blast
  have len: "length (items ! i) = tb_item_length tb" using m1(2) il(2) by (simp add: rows_mgr_def sm_repr_def)
  have l1: "layout cols (tb\<lparr>tb_sm := Some m1\<rparr>)" using m(1) by (rule layout_update) simp_all
  obtain row where row: "update_values (int i) fs (items ! i) (tb\<lparr>tb_sm := Some m1\<rparr>) = Some (row, tb\<lparr>tb_sm := Some m1\<rparr>)"
    "length row = length (items ! i)" "doc_at cols m i row (upd_rec fs (rows ! i))"
    using update_nums_ok [OF l1 f m(5) [rule_format, OF il(1)], of "int i"] len by auto
  obtain m2 where m2: "SM_Update (int i) row m1 = Some (0, m2)" "rows_mgr (tb_item_length tb) (items[i := row]) P m2" "has_all m1 m2"
    using rows_mgr_Update [OF m1(2) i, of row] len row(2) by auto
  have "TB_Update g fs (int i) tb = Some (0, tb\<lparr>tb_sm := Some m2\<rparr>)"
    using False m1(1) row(1) m2(1) len by (simp add: TB_Update_def)
  moreover have "tbl_repr cols (rows[i := upd_rec fs (rows ! i)]) P (tb\<lparr>tb_sm := Some m2\<rparr>)"
  proof (rule tbl_frame [OF m(1) _ _ m2(2)])
    show "has_all m2 m2" by simp
    have h: "\<And>b ip u. sm_has seg_items m k b ip u \<Longrightarrow> sm_has seg_items m2 k b ip u" for k
      using m1(3) m2(3) by (auto simp: has_all_def)
    have mono: "doc_at cols m k bs rc \<Longrightarrow> doc_at cols m2 k bs rc" for k bs rc using doc_at_mono h by blast
    show "\<forall>k < length (rows[i := upd_rec fs (rows ! i)]). doc_at cols m2 k (items[i := row] ! k) (rows[i := upd_rec fs (rows ! i)] ! k)"
      using m(5) row(3) mono il by (simp add: nth_list_update)
  qed (use m(4) in simp)
  moreover have "sm_changed tb (tb\<lparr>tb_sm := Some m2\<rparr>)" by (simp add: sm_changed_def)
  ultimately show ?thesis by blast
qed

subsection \<open>Updating a document\<close>

lemma unindex_fields_ok:
  assumes "tbl_repr cols rows P (en_table e)" "no_later (en_table e)" "en_range e = Some m" "length (mx_flds m) = length cols"
    and "sys_inv (sysof m cols rows cur)" "fd_name ` set fs \<subseteq> fi_name ` set cols" "distinct (map fd_name fs)"
    and "\<forall>j \<in> cols_named cols (fd_name ` set fs). j \<in> indexed (mx_flds m) \<longleftrightarrow> (d, j) \<in> cur"
  shows "\<exists>Q tb' m'. unindex_fields env d fs e = Some (e\<lparr>en_table := tb', en_range := Some m'\<rparr>) \<and> tbl_repr cols rows Q tb' \<and>
    sm_changed (en_table e) tb' \<and> sys_inv (sysof m' cols rows (cur - {d} \<times> cols_named cols (fd_name ` set fs))) \<and>
    flds_keys (mx_flds m') = flds_keys (mx_flds m) \<and> length (mx_flds m') = length (mx_flds m)"
  using assms
proof (induction fs arbitrary: e m cur P)
  case Nil
  then show ?case by (intro exI [of _ P] exI [of _ "en_table e"] exI [of _ m]) (simp add: cols_named_def)
next
  case (Cons f fs)
  have lay: "layout cols (en_table e)" using Cons.prems(1) by (simp add: tbl_repr_def)
  then have dn: "distinct (map fi_name cols)" by (simp add: layout_def)
  obtain j where j: "j < length cols" "fd_name f = fi_name (cols ! j)" using Cons.prems(6) by (auto simp: in_set_conv_nth)
  have only: "cols_named cols (insert (fd_name f) (fd_name ` set fs)) = insert (int j) (cols_named cols (fd_name ` set fs))"
    using j dn by (auto simp: cols_named_def distinct_conv_nth)
  have notj: "int j \<notin> cols_named cols (fd_name ` set fs)" using j(2) Cons.prems(7) by (auto simp: cols_named_def)
  have f: "0 \<le> int j" "int j < int (length (mx_flds m))" "int j \<in> indexed (mx_flds m) \<longleftrightarrow> (d, int j) \<in> cur"
    using j(1) Cons.prems(4,8) only by simp_all
  obtain Q1 tb1 m1 where s: "IX_Delete env d (int j) e = Some (e\<lparr>en_table := tb1, en_range := Some m1\<rparr>)" "tbl_repr cols rows Q1 tb1"
    "sm_changed (en_table e) tb1" "sys_inv (sysof m1 cols rows (cur - {(d, int j)}))" "flds_keys (mx_flds m1) = flds_keys (mx_flds m)"
    "length (mx_flds m1) = length (mx_flds m)"
    using IX_Delete_ok [OF Cons.prems(1-3,5) f] by blast
  let ?e = "e\<lparr>en_table := tb1, en_range := Some m1\<rparr>"
  have nl: "no_later tb1" using Cons.prems(2) sm_changedD(8) [OF s(3)] by simp
  have c: "\<forall>g \<in> cols_named cols (fd_name ` set fs). g \<in> indexed (mx_flds m1) \<longleftrightarrow> (d, g) \<in> cur - {(d, int j)}"
    using Cons.prems(8) only notj indexed_cong [OF s(5)] by auto
  obtain Q tb2 m2 where t: "unindex_fields env d fs ?e = Some (?e\<lparr>en_table := tb2, en_range := Some m2\<rparr>)" "tbl_repr cols rows Q tb2"
    "sm_changed tb1 tb2" "sys_inv (sysof m2 cols rows (cur - {(d, int j)} - {d} \<times> cols_named cols (fd_name ` set fs)))"
    "flds_keys (mx_flds m2) = flds_keys (mx_flds m1)" "length (mx_flds m2) = length (mx_flds m1)"
    using Cons.IH [of Q1 ?e m1 "cur - {(d, int j)}"] s(2,4,6) nl c Cons.prems(4,6,7) by auto
  have "cur - {(d, int j)} - {d} \<times> cols_named cols (fd_name ` set fs) = cur - {d} \<times> cols_named cols (fd_name ` set (f # fs))"
    using only by auto
  moreover have "unindex_fields env d (f # fs) e = Some (e\<lparr>en_table := tb2, en_range := Some m2\<rparr>)"
    using attr_idx_ok [OF Cons.prems(1) j(1)] j(2) s(1) t(1) by simp
  ultimately show ?case using t(2,4-6) s(5,6) sm_changed_trans [OF s(3) t(3)]
    by (intro exI [of _ Q] exI [of _ tb2] exI [of _ m2]) simp
qed

lemma tblv_update:
  assumes "i < length rows" "\<not> (d = int i \<and> f \<in> cols_named cols (fd_name ` set fs))"
  shows "tblv cols (rows[i := upd_rec fs (rows ! i)]) d f = tblv cols rows d f"
proof (cases "d = int i \<and> 0 \<le> f \<and> f < int (length cols)")
  case True
  then have "int (nat f) \<notin> cols_named cols (fd_name ` set fs)" using assms(2) by simp
  then have "fi_name (cols ! nat f) \<notin> fd_name ` set fs" using True unfolding cols_named_def by (smt (verit) mem_Collect_eq nat_0_le nat_less_iff)
  then show ?thesis using True assms(1) by (simp add: tblv_def upd_rec_other)
next
  case False
  then show ?thesis by (auto simp: tblv_def nth_list_update)
qed

lemma EN_Update_ok:
  assumes e: "eng_repr cols rows D m e" and i: "i < length rows" "int i \<in> D" and fs: "\<forall>f \<in> set fs. num_field cols f" "distinct (map fd_name fs)"
    and good: "\<forall>f \<in> set fs. \<forall>j < length cols. fi_name (cols ! j) = fd_name f \<and> int j \<in> indexed (mx_flds m) \<longrightarrow>
      good_value (mx_flds m) (int j) (fd_value f)"
    and vec: "VG_Update (int i) vs (en_vec e) = Some (0, vm)" and id: "docid_ok (int i)"
  shows "\<exists>e' m'. EN_Update env (int i) fs vs e = Some (0, e') \<and> eng_repr cols (rows[i := upd_rec fs (rows ! i)]) D m' e' \<and>
    en_bits e' = en_bits e \<and> tb_keys (en_table e') = tb_keys (en_table e) \<and> tb_id_type (en_table e') = tb_id_type (en_table e) \<and>
    en_vec e' = vm \<and> en_deleted e' = en_deleted e \<and> flds_keys (mx_flds m') = flds_keys (mx_flds m)"
proof -
  let ?I = "indexed (mx_flds m)" and ?N = "cols_named cols (fd_name ` set fs)" and ?rows = "rows[i := upd_rec fs (rows ! i)]"
  obtain P where P: "tbl_repr cols rows P (en_table e)" using e by (auto simp: eng_repr_def)
  have en: "no_later (en_table e)" "en_range e = Some m" "length (mx_flds m) = length cols" "sys_inv (sysof m cols rows (D \<times> ?I))"
    "D \<subseteq> {0..<int (length rows)}" "{0..<int (length rows)} - mgr_set (en_bits e) \<subseteq> D" "bits_ok (length rows) (en_bits e)" "en_max e = int (length rows)"
    using e by (simp_all add: eng_repr_def)
  have sub: "fd_name ` set fs \<subseteq> fi_name ` set cols" using fs(1) by (fastforce simp: num_field_def)
  let ?e1 = "e\<lparr>en_vec := vm\<rparr>"
  obtain Q tb1 m1 where u: "unindex_fields env (int i) fs ?e1 = Some (?e1\<lparr>en_table := tb1, en_range := Some m1\<rparr>)" "tbl_repr cols rows Q tb1"
    "sm_changed (en_table e) tb1" "sys_inv (sysof m1 cols rows (D \<times> ?I - {int i} \<times> ?N))" "flds_keys (mx_flds m1) = flds_keys (mx_flds m)"
    "length (mx_flds m1) = length (mx_flds m)"
    using unindex_fields_ok [of cols rows P ?e1 m "D \<times> ?I" fs "int i" env] P en(1-4) sub fs(2) i(2) by auto
  have I1: "indexed (mx_flds m1) = ?I" using indexed_cong [OF u(5)] .
  have nl: "no_later tb1" using en(1) sm_changedD(8) [OF u(3)] by simp
  obtain tb2 where t2: "settle_table tb1 = Some tb2" "tbl_repr cols rows (length rows) tb2" "sm_changed tb1 tb2"
    using settle_table_ok [OF u(2) nl] by blast
  obtain tb3 where t3: "TB_Update (ee_g env) fs (int i) tb2 = Some (0, tb3)" "tbl_repr cols ?rows (length rows) tb3" "sm_changed tb2 tb3"
    using TB_Update_nums [OF t2(2) i(1) fs(1)] by blast
  have ch: "sm_changed (en_table e) tb3" using sm_changed_trans [OF sm_changed_trans [OF u(3) t2(3)] t3(3)] .
  let ?e4 = "?e1\<lparr>en_range := Some m1, en_table := tb3\<rparr>"
  have "\<forall>(d, f) \<in> D \<times> ?I - {int i} \<times> ?N. tblv cols ?rows d f = tblv cols rows d f" using tblv_update [OF i(1)] by auto
  then have inv4: "sys_inv (sysof m1 cols ?rows (D \<times> ?I - {int i} \<times> ?N))" using inv_write [OF u(4), of "tblv cols ?rows"] by simp
  have vals: "\<forall>j \<in> indexed (mx_flds m1). \<exists>v. tblv cols ?rows (int i) j = Some v \<and> good_value (mx_flds m1) j v"
  proof
    fix j assume j: "j \<in> indexed (mx_flds m1)"
    show "\<exists>v. tblv cols ?rows (int i) j = Some v \<and> good_value (mx_flds m1) j v"
    proof (cases "j \<in> ?N")
      case True
      then obtain k f where k: "j = int k" "k < length cols" "f \<in> set fs" "fi_name (cols ! k) = fd_name f" by (auto simp: cols_named_def)
      have "tblv cols ?rows (int i) j = Some (fd_value f)" using k i(1) upd_rec_in [OF k(3) fs(2)] by (simp add: tblv_def)
      then show ?thesis using good k j I1 good_value_keys [OF u(5)] by auto
    next
      case False
      then have "(int i, j) \<in> s_cur (sysof m1 cols rows (D \<times> ?I - {int i} \<times> ?N))" using i(2) j I1 by simp
      then have "\<exists>v. tblv cols rows (int i) j = Some v \<and> good_value (mx_flds m1) j v" using u(4) by (fastforce simp: sys_inv_def)
      then show ?thesis using tblv_update [OF i(1), of "int i" j cols fs] False by simp
    qed
  qed
  obtain m2 where m2: "index_fields (int i) fs ?e4 = Some (?e4\<lparr>en_range := Some m2\<rparr>)" "flds_keys (mx_flds m2) = flds_keys (mx_flds m1)"
    "length (mx_flds m2) = length (mx_flds m1)"
    "sys_inv (sysof m2 cols ?rows (D \<times> ?I - {int i} \<times> ?N \<union> {int i} \<times> (indexed (mx_flds m1) \<inter> ?N)))"
    using index_fields_ok [of cols ?rows "length rows" ?e4 m1 "D \<times> ?I - {int i} \<times> ?N" "int i" fs] t3(2) inv4 sub fs(2) vals
      u(6) en(3) id by auto
  have "D \<times> ?I - {int i} \<times> ?N \<union> {int i} \<times> (indexed (mx_flds m1) \<inter> ?N) = D \<times> indexed (mx_flds m2)"
    using i(2) I1 indexed_cong [OF m2(2)] by auto
  then have inv: "sys_inv (sysof m2 cols ?rows (D \<times> indexed (mx_flds m2)))" using m2(4) by simp
  let ?e' = "?e4\<lparr>en_range := Some m2\<rparr>\<lparr>en_dirty := True\<rparr>"
  have "EN_Update env (int i) fs vs e = Some (0, ?e')"
    using vec u(1) t2(1) t3(1) m2(1) by (simp add: EN_Update_def wait_table_def)
  moreover have "no_later tb3" using en(1) sm_changedD(8) [OF ch] by simp
  then have "eng_repr cols ?rows D m2 ?e'" using t3(2) m2(3) u(6) inv en(3,5-8) unfolding eng_repr_def by auto
  ultimately show ?thesis using sm_changedD(1,2) [OF ch] m2(2) u(5) by (intro exI [of _ ?e'] exI [of _ m2]) simp
qed

subsection \<open>The creation of a table\<close>

text \<open>The indexes that the fields of a table get.\<close>

definition idx_flds :: "field_info list \<Rightarrow> findex" where
  "idx_flds cols = map (\<lambda>c. if fi_index c then Some (new_frx (fi_type c)) else None) cols"

lemma idx_flds_indexed: "indexed (idx_flds cols) = {int j |j. j < length cols \<and> fi_index (cols ! j)}"
proof (rule set_eqI)
  fix f
  have "f \<in> indexed (idx_flds cols) \<longleftrightarrow> 0 \<le> f \<and> f < int (length cols) \<and> fi_index (cols ! nat f)"
    by (auto simp: indexed_def fetch_Some_iff idx_flds_def split: if_splits)
  also have "\<dots> \<longleftrightarrow> f \<in> {int j |j. j < length cols \<and> fi_index (cols ! j)}"
  proof
    assume "0 \<le> f \<and> f < int (length cols) \<and> fi_index (cols ! nat f)"
    then show "f \<in> {int j |j. j < length cols \<and> fi_index (cols ! j)}" by (intro CollectI exI [of _ "nat f"]) auto
  qed auto
  finally show "f \<in> indexed (idx_flds cols) \<longleftrightarrow> f \<in> {int j |j. j < length cols \<and> fi_index (cols ! j)}" .
qed

lemma is_index_map: "map_of (TB_GetAttrIsIndex out tb) n = (case map_of out n of Some b \<Rightarrow> Some b | None \<Rightarrow> map_of (tb_is_index tb) n)"
proof -
  have "map_of (foldl (\<lambda>m (name, b). om_insert name b m) out l) n = (case map_of out n of Some b \<Rightarrow> Some b | None \<Rightarrow> map_of l n)" for l
  proof (induction l arbitrary: out)
    case (Cons ab l)
    obtain a b where ab: "ab = (a, b)" by (cases ab)
    have "map_of (om_insert a b out) n = (case map_of out n of Some x \<Rightarrow> Some x | None \<Rightarrow> if n = a then Some b else None)"
      by (cases "map_of out n"; cases "map_of out a") (auto simp: map_of_insert)
    then show ?case using Cons.IH [of "om_insert a b out"] ab by (cases "map_of out n") auto
  qed (simp split: option.split)
  then show ?thesis by (simp add: TB_GetAttrIsIndex_def)
qed

lemma add_num_fields_ok:
  assumes "layout cols tb" "\<forall>j < length cols. map_of ixs (fi_name (cols ! j)) = Some (fi_index (cols ! j))"
    and "\<forall>(n, t) \<in> set l. \<exists>j < length cols. n = fi_name (cols ! j) \<and> t = fi_type (cols ! j)" "length flds = length cols"
  shows "add_num_fields l ixs tb \<lparr>mx_flds = flds, mx_queue = q\<rparr> = Some \<lparr>mx_flds = map (\<lambda>j.
    if fi_name (cols ! j) \<in> fst ` set l \<and> fi_index (cols ! j) then Some (new_frx (fi_type (cols ! j))) else flds ! j) [0..<length cols], mx_queue = q\<rparr>"
  using assms
proof (induction l arbitrary: flds)
  case Nil
  have "map ((!) flds) [0..<length cols] = flds" using Nil.prems(4) map_nth [of flds] by simp
  then show ?case by simp
next
  case (Cons nt l)
  obtain j where j: "nt = (fi_name (cols ! j), fi_type (cols ! j))" "j < length cols" using Cons.prems(3) by (cases nt) auto
  have dn: "distinct (map fi_name cols)" using Cons.prems(1) by (simp add: layout_def)
  have eq: "fi_name (cols ! k) = fi_name (cols ! j) \<longleftrightarrow> k = j" if "k < length cols" for k
    using dn that j(2) nth_eq_iff_index_eq [of "map fi_name cols" k j] by simp
  have idx: "TB_GetAttrIdx (fi_name (cols ! j)) tb = Some (int j)"
    using layout_lookup(3) [OF Cons.prems(1) j(2)] by (simp add: TB_GetAttrIdx_def)
  let ?new = "Some (new_frx (fi_type (cols ! j)))"
  let ?flds = "if fi_index (cols ! j) then flds[j := ?new] else flds"
  have "store flds (int j) ?new = Some (flds[j := ?new])" using j(2) Cons.prems(4) by (simp add: store_Some_iff)
  then have "add_num_fields (nt # l) ixs tb \<lparr>mx_flds = flds, mx_queue = q\<rparr> = add_num_fields l ixs tb \<lparr>mx_flds = ?flds, mx_queue = q\<rparr>"
    using Cons.prems(2) j idx by (simp add: MFR_AddField_def)
  also have "\<dots> = Some \<lparr>mx_flds = map (\<lambda>k. if fi_name (cols ! k) \<in> fst ` set l \<and> fi_index (cols ! k) then Some (new_frx (fi_type (cols ! k))) else ?flds ! k)
      [0..<length cols], mx_queue = q\<rparr>"
    using Cons.prems by (intro Cons.IH) auto
  also have "map (\<lambda>k. if fi_name (cols ! k) \<in> fst ` set l \<and> fi_index (cols ! k) then Some (new_frx (fi_type (cols ! k))) else ?flds ! k) [0..<length cols] =
      map (\<lambda>k. if fi_name (cols ! k) \<in> fst ` set (nt # l) \<and> fi_index (cols ! k) then Some (new_frx (fi_type (cols ! k))) else flds ! k) [0..<length cols]"
    using eq j Cons.prems(4) by (intro map_cong) (auto simp: nth_list_update)
  finally show ?case .
qed

lemma TB_AddField_types: "om_ok (tb_attr_type tb) \<Longrightarrow> om_ok (tb_attr_type (snd (TB_AddField n t i tb)))"
  by (simp add: TB_AddField_def Let_def om_insert_ok)

lemma add_fields_types: "\<lbrakk>add_fields fs tb = (r, tb'); om_ok (tb_attr_type tb)\<rbrakk> \<Longrightarrow> om_ok (tb_attr_type tb')"
proof (induction fs arbitrary: tb)
  case (Cons f fs)
  obtain r1 tb1 where a: "TB_AddField (fi_name f) (fi_type f) (fi_index f) tb = (r1, tb1)" by fastforce
  have "om_ok (tb_attr_type tb1)" using TB_AddField_types [OF Cons.prems(2), of "fi_name f" "fi_type f" "fi_index f"] a by simp
  then show ?case using Cons a by (auto split: if_splits)
qed simp

lemma created_types:
  assumes "TB_CreateTable folders persist fo compress fs bm (Table_new id_type b) = Some (ret, tb)"
  shows "om_ok (tb_attr_type tb)"
proof -
  obtain r tb1 where t: "add_fields fs (Table_new id_type b\<lparr>tb_bitmap := Some bm, tb_compress := compress\<rparr>) = (r, tb1)" by fastforce
  then have om: "om_ok (tb_attr_type tb1)" by (rule add_fields_types) (simp add: Table_new_def)
  have i: "tb_attr_type y = tb_attr_type x" if "TB_InitStorageMgr fo x = (q, y)" for x y q
    using that by (auto simp: TB_InitStorageMgr_def split: option.splits prod.splits)
  have "\<not> tb_created (Table_new id_type b)" by (simp add: Table_new_def)
  then have "tb_attr_type tb = tb_attr_type tb1"
    using assms t by (cases "r = 0") (auto simp: TB_CreateTable_def Let_def bind_eq_Some_conv dest: i)
  then show ?thesis using om by simp
qed

lemma EN_AddNumIndexFields_ok:
  assumes l: "layout cols tb" and om: "om_ok (tb_attr_type tb)"
  shows "EN_AddNumIndexFields tb (new_mfx (length cols)) = Some \<lparr>mx_flds = idx_flds cols, mx_queue = []\<rparr>"
proof -
  have ty: "map_of (tb_attr_type tb) = col_map cols (\<lambda>j. fi_type (cols ! j))" and dn: "distinct (map fi_name cols)"
    and is_ix: "map_of (tb_is_index tb) = col_map cols (\<lambda>j. fi_index (cols ! j))"
    using l by (simp_all add: layout_def)
  have ix: "\<forall>j < length cols. map_of (TB_GetAttrIsIndex [] tb) (fi_name (cols ! j)) = Some (fi_index (cols ! j))"
    by (simp add: is_index_map is_ix col_map_in [OF dn])
  have sh: "\<exists>j < length cols. n = fi_name (cols ! j) \<and> t = fi_type (cols ! j)" if "(n, t) \<in> set (tb_attr_type tb)" for n t
  proof -
    have m: "col_map cols (\<lambda>j. fi_type (cols ! j)) n = Some t" using om_get [OF om] that ty by simp
    then have "col_map cols (\<lambda>j. fi_type (cols ! j)) n \<noteq> None" by simp
    then have "n \<in> fi_name ` set cols" by (simp only: col_map_None not_not)
    then obtain j where "j < length cols" "n = fi_name (cols ! j)" by (auto simp: in_set_conv_nth)
    then show ?thesis using m col_map_in [OF dn, of j "\<lambda>j. fi_type (cols ! j)"] by auto
  qed
  have "fi_name (cols ! j) \<in> fst ` set (tb_attr_type tb)" if "j < length cols" for j
    using layout_lookup(2) [OF l that] by (metis domI dom_map_of_conv_image_fst)
  then have e: "map (\<lambda>j. if fi_name (cols ! j) \<in> fst ` set (tb_attr_type tb) \<and> fi_index (cols ! j) then Some (new_frx (fi_type (cols ! j)))
      else replicate (length cols) None ! j) [0..<length cols] = idx_flds cols"
    by (intro nth_equalityI) (simp_all add: idx_flds_def)
  show ?thesis
    using add_num_fields_ok [OF l ix, of "tb_attr_type tb" "replicate (length cols) None" "[]"] sh e
    by (auto simp: EN_AddNumIndexFields_def new_mfx_def)
qed

end
