(* ===== verification/EngineDb.thy ===== *)
theory EngineDb
  imports EngineRun
begin

text \<open>
  The database that an engine represents: the rows of all documents that were added, the keys that lead to a
  document, and the documents that searches do not show. The operations of the engine on
  documents are operations of that database.
\<close>

record db =
  db_rows :: "(byte list \<rightharpoonup> byte list) list"
  db_keys :: "u64 \<rightharpoonup> nat"
  db_dead :: "nat set"

definition db_empty :: db where
  "db_empty = \<lparr>db_rows = [], db_keys = Map.empty, db_dead = {}\<rparr>"

definition db_add :: "u64 \<Rightarrow> (byte list \<rightharpoonup> byte list) \<Rightarrow> db \<Rightarrow> db" where
  "db_add k r a = a\<lparr>db_rows := db_rows a @ [r], db_keys := (db_keys a)(k \<mapsto> length (db_rows a))\<rparr>"

definition db_update :: "nat \<Rightarrow> doc_field list \<Rightarrow> db \<Rightarrow> db" where
  "db_update i fs a = a\<lparr>db_rows := (db_rows a)[i := upd_rec fs (db_rows a ! i)]\<rparr>"

definition db_delete :: "u64 \<Rightarrow> nat \<Rightarrow> db \<Rightarrow> db" where
  "db_delete k i a = a\<lparr>db_keys := (db_keys a)(k := None), db_dead := insert i (db_dead a)\<rparr>"

text \<open>\<open>ty\<close> is the type of the keys, which says how a key is hashed.\<close>

definition db_repr :: "field_info list \<Rightarrow> byte \<Rightarrow> db \<Rightarrow> ('i, 'f) engine \<Rightarrow> bool" where
  "db_repr cols ty a e \<longleftrightarrow> (\<exists>D m. eng_repr cols (db_rows a) D m e \<and> flds_keys (mx_flds m) = flds_keys (idx_flds cols) \<and>
     (\<forall>k i. db_keys a k = Some i \<longrightarrow> i < length (db_rows a) \<and> int i \<in> D)) \<and>
     tb_keys (en_table e) = map_option int \<circ> db_keys a \<and> (\<forall>k k' i. db_keys a k = Some i \<and> db_keys a k' = Some i \<longrightarrow> k = k') \<and>
     mgr_set (en_bits e) = int ` db_dead a \<and> db_dead a \<subseteq> {..<length (db_rows a)} \<and> tb_id_type (en_table e) = ty \<and> length (db_rows a) < 200000000 \<and>
     en_deleted e = int (card (db_dead a))"

lemma db_reprE:
  assumes "db_repr cols ty a e"
  obtains D m where "eng_repr cols (db_rows a) D m e" "flds_keys (mx_flds m) = flds_keys (idx_flds cols)"
    "\<And>k i. db_keys a k = Some i \<Longrightarrow> i < length (db_rows a) \<and> int i \<in> D"
    "tb_keys (en_table e) = map_option int \<circ> db_keys a" "\<And>k k' i. \<lbrakk>db_keys a k = Some i; db_keys a k' = Some i\<rbrakk> \<Longrightarrow> k = k'"
    "mgr_set (en_bits e) = int ` db_dead a" "db_dead a \<subseteq> {..<length (db_rows a)}" "tb_id_type (en_table e) = ty" "length (db_rows a) < 200000000"
    "en_deleted e = int (card (db_dead a))"
  using assms unfolding db_repr_def by blast

lemma db_reprI:
  assumes "eng_repr cols (db_rows a) D m e" "flds_keys (mx_flds m) = flds_keys (idx_flds cols)"
    "\<And>k i. db_keys a k = Some i \<Longrightarrow> i < length (db_rows a) \<and> int i \<in> D"
    "tb_keys (en_table e) = map_option int \<circ> db_keys a" "\<And>k k' i. \<lbrakk>db_keys a k = Some i; db_keys a k' = Some i\<rbrakk> \<Longrightarrow> k = k'"
    "mgr_set (en_bits e) = int ` db_dead a" "db_dead a \<subseteq> {..<length (db_rows a)}" "tb_id_type (en_table e) = ty" "length (db_rows a) < 200000000"
    "en_deleted e = int (card (db_dead a))"
  shows "db_repr cols ty a e"
  using assms unfolding db_repr_def by blast

lemma db_add_simps [simp]:
  "db_rows (db_add k r a) = db_rows a @ [r]" "db_keys (db_add k r a) = (db_keys a)(k \<mapsto> length (db_rows a))" "db_dead (db_add k r a) = db_dead a"
  by (simp_all add: db_add_def)

lemma db_delete_simps [simp]:
  "db_rows (db_delete k i a) = db_rows a" "db_keys (db_delete k i a) = (db_keys a)(k := None)" "db_dead (db_delete k i a) = insert i (db_dead a)"
  by (simp_all add: db_delete_def)

subsection \<open>The empty database\<close>

lemma created_attrs:
  assumes c: "TB_CreateTable folders persist fo compress fs bm (Table_new id_type b) = Some (0, tb)" and len: "length fs \<le> 255"
  shows "tb_attrs tb = map fi_type fs"
proof -
  let ?t0 = "Table_new id_type b\<lparr>tb_bitmap := Some bm, tb_compress := compress\<rparr>"
  have l0: "layout [] ?t0" using layout_new by (rule layout_update) simp_all
  have z: "tb_item_length ?t0 = row_size []" "tb_attrs ?t0 = map fi_type []" "\<not> tb_created (Table_new id_type b)"
    by (simp_all add: Table_new_def row_size_def)
  obtain r t1 where t: "add_fields fs ?t0 = (r, t1)" by fastforce
  have i: "tb_attrs y = tb_attrs x" if "TB_InitStorageMgr fo x = (q, y)" for x y q
    using that by (auto simp: TB_InitStorageMgr_def split: option.splits prod.splits)
  have "r = 0" using c t z(3) by (auto simp: TB_CreateTable_def split: if_splits)
  moreover have "tb_attrs tb = tb_attrs t1"
    using c t z(3) \<open>r = 0\<close> by (auto simp: TB_CreateTable_def Let_def bind_eq_Some_conv dest: i)
  ultimately show ?thesis using add_fields_layout [OF _ l0 z(1,2)] t len by simp
qed

lemma EN_CreateTable_ok:
  assumes fs: "distinct (map fi_name (ti_fields ti))" "length (ti_fields ti) \<le> 255"
    and e: "e = engine_new (Table_new ty c) bits n" "bits_ok 0 bits" "mgr_set bits = {}"
    and ce: "ce_meta ce = 0" "ce_persist ce = None" "ce_folder ce = empty_folder"
    and vec: "VG_CreateVectorTable (ce_vec ce) (vectors_of ti) VG_new = Some (0, vm)" and wr: "TS_Write (ce_open_schema ce) ti = Some w"
  shows "\<exists>e'. EN_CreateTable ce ti e = Some (0, e') \<and> db_repr (ti_fields ti) (tb_id_type (en_table e')) db_empty e' \<and> en_vec e' = vm \<and>
    str_used (en_table e') = 0 \<and> en_range e' = Some \<lparr>mx_flds = idx_flds (ti_fields ti), mx_queue = []\<rparr>"
proof -
  let ?cols = "ti_fields ti" and ?m = "\<lparr>mx_flds = idx_flds (ti_fields ti), mx_queue = []\<rparr>"
  obtain tb where tb: "TB_CreateTable (ce_folders ce) None empty_folder (ti_compress ti) ?cols bits (Table_new ty c) = Some (0, tb)"
    "tbl_repr ?cols [] 0 tb" "tb_keys tb = Map.empty" "tb_fields tb = Some (fresh 10000)" "str_used tb = 0"
    using TB_CreateTable_ok [OF fs] by blast
  have lay: "layout ?cols tb" using tb(2) by (simp add: tbl_repr_def)
  have att: "length (tb_attrs tb) = length ?cols" using created_attrs [OF tb(1) fs(2)] by simp
  have m: "EN_AddNumIndexFields tb (new_mfx (length (tb_attrs tb))) = Some ?m"
    unfolding att by (rule EN_AddNumIndexFields_ok [OF lay created_types [OF tb(1)]])
  let ?e2 = "e\<lparr>en_vec := vm, en_table := tb, en_size := sint (ti_size ti), en_range := Some ?m, en_text := Some []\<rparr>"
  obtain x where "write_schema (ce_open_schema ce) ti ?e2 = Some (?e2\<lparr>en_schema := x\<rparr>)"
  proof (cases "snd w")
    case None
    then have "write_schema (ce_open_schema ce) ti ?e2 = Some (?e2\<lparr>en_schema := None\<rparr>)"
      using wr by (cases w) (simp add: write_schema_def e(1) engine_new_def)
    then show thesis by (rule that)
  next
    case (Some bs)
    then have "write_schema (ce_open_schema ce) ti ?e2 = Some (?e2\<lparr>en_schema := Some (base_name (ti_name ti), bs)\<rparr>)"
      using wr by (cases w) (simp add: write_schema_def)
    then show thesis by (rule that)
  qed
  then obtain e3 where e3: "write_schema (ce_open_schema ce) ti ?e2 = Some e3" "e3 = ?e2\<lparr>en_schema := x\<rparr>" by blast
  have run: "EN_CreateTable ce ti e = Some (0, e3\<lparr>en_created := True\<rparr>)"
    using ce vec tb(1) m e3(1) e(1) by (simp add: EN_CreateTable_def engine_new_def)
  have nl: "no_later tb" using tb(4) by (simp add: no_later_def fresh_def DF_new_def)
  have inv: "sys_inv (sysof ?m ?cols [] ({} \<times> indexed (idx_flds ?cols)))"
  proof -
    have "\<forall>x. Some x \<in> set (idx_flds ?cols) \<longrightarrow> fx_tree x = []" by (auto simp: idx_flds_def new_frx_def split: if_splits)
    from start_inv [OF this] show ?thesis by simp
  qed
  have "eng_repr ?cols [] {} ?m (e3\<lparr>en_created := True\<rparr>)"
    using e3(2) tb(2) nl inv e(1,2) by (auto simp: eng_repr_def engine_new_def idx_flds_def)
  then have "db_repr ?cols (tb_id_type tb) db_empty (e3\<lparr>en_created := True\<rparr>)"
    using e3(2) tb(3) e(1,3) unfolding db_repr_def by (auto simp: db_empty_def engine_new_def fun_eq_iff intro!: exI [of _ "{}"] exI [of _ ?m])
  then show ?thesis using run e3(2) tb(5) by auto
qed

subsection \<open>Adding, updating and deleting\<close>

text \<open>A document that the engine can store: every field of the table once, with values of the right size for
  numbers, and values that the indexes can take.\<close>

definition doc_ok :: "field_info list \<Rightarrow> doc_field list \<Rightarrow> bool" where
  "doc_ok cols fs \<longleftrightarrow> fields_ok cols fs \<and> length fs = length cols \<and> distinct (map fd_name fs) \<and>
     (\<forall>j < length cols. fi_index (cols ! j) \<longrightarrow> (\<exists>v. rec_of cols fs (fi_name (cols ! j)) = Some v \<and> good_value (idx_flds cols) (int j) v))"

definition update_ok :: "field_info list \<Rightarrow> doc_field list \<Rightarrow> bool" where
  "update_ok cols fs \<longleftrightarrow> (\<forall>f \<in> set fs. num_field cols f) \<and> distinct (map fd_name fs) \<and>
     (\<forall>f \<in> set fs. \<forall>j < length cols. fi_name (cols ! j) = fd_name f \<and> fi_index (cols ! j) \<longrightarrow> good_value (idx_flds cols) (int j) (fd_value f))"

lemma index_config:
  assumes "flds_keys (mx_flds m) = flds_keys (idx_flds cols)"
  shows "int j \<in> indexed (mx_flds m) \<longleftrightarrow> j < length cols \<and> fi_index (cols ! j)" "good_value (mx_flds m) = good_value (idx_flds cols)"
  using indexed_cong [OF assms] good_value_keys [OF assms] by (auto simp: idx_flds_indexed)

lemma db_add_ok:
  assumes r: "db_repr cols ty a e" and d: "doc_ok cols (dc_fields d)" and key: "dc_key d \<noteq> []" "key_of (ee_hash env) (dc_key d) (en_table e) = Some k" "db_keys a k = None"
    and room: "length (db_rows a) < 199000000" "str_used (en_table e) + bytes_of (dc_fields d) < 4294967296"
    and vec: "VG_AddToStore (int (length (db_rows a))) vs (en_vec e) = Some (0, vm)" and io: "io_ok (ee_io env)"
  shows "\<exists>e'. EN_AddOrUpdate env (d, vs) e = Some (0, e') \<and> db_repr cols ty (db_add k (rec_of cols (dc_fields d)) a) e' \<and> en_vec e' = vm"
proof -
  obtain D m where D: "eng_repr cols (db_rows a) D m e" "flds_keys (mx_flds m) = flds_keys (idx_flds cols)"
    "\<And>k i. db_keys a k = Some i \<Longrightarrow> i < length (db_rows a) \<and> int i \<in> D"
    "tb_keys (en_table e) = map_option int \<circ> db_keys a" "\<And>k k' i. \<lbrakk>db_keys a k = Some i; db_keys a k' = Some i\<rbrakk> \<Longrightarrow> k = k'"
    "mgr_set (en_bits e) = int ` db_dead a" "db_dead a \<subseteq> {..<length (db_rows a)}" "tb_id_type (en_table e) = ty" "en_deleted e = int (card (db_dead a))"
    by (rule db_reprE [OF r]) blast
  let ?n = "length (db_rows a)" and ?r = "rec_of cols (dc_fields d)"
  have mx: "en_max e = int ?n" using D(1) by (simp add: eng_repr_def)
  have none: "tb_keys (en_table e) k = None" using key(3) D(4) by simp
  have fs: "fields_ok cols (dc_fields d)" "length (dc_fields d) = length cols" "distinct (map fd_name (dc_fields d))" using d by (simp_all add: doc_ok_def)
  have good: "\<forall>j < length cols. int j \<in> indexed (mx_flds m) \<longrightarrow> (\<exists>v. ?r (fi_name (cols ! j)) = Some v \<and> good_value (mx_flds m) (int j) v)"
    using d index_config [OF D(2)] by (simp add: doc_ok_def)
  have vec': "VG_AddToStore (en_max e) vs (en_vec e) = Some (0, vm)" using vec mx by simp
  obtain P tb m' e' where e': "tb_keys tb = (tb_keys (en_table e))(k \<mapsto> en_max e)" "tb_id_type tb = tb_id_type (en_table e)"
    "EN_AddOrUpdate env (d, vs) e = Some (0, e')" "eng_repr cols (db_rows a @ [?r]) (insert (en_max e) D) m' e'" "en_table e' = tb" "en_vec e' = vm"
    "mgr_set (en_bits e') = mgr_set (en_bits e)" "mx_flds m' = mx_flds m" "en_deleted e' = en_deleted e"
    using EN_AddOrUpdate_new [OF D(1) key(1,2) none fs room good vec' io] by auto
  have keys: "i < ?n \<and> int i \<in> insert (int ?n) D" if "db_keys a k' = Some i" for k' i using D(3) that by blast
  have tk: "tb_keys tb = map_option int \<circ> (db_keys a)(k \<mapsto> ?n)" using e'(1) D(4) mx by (simp add: fun_eq_iff)
  have inj: "k1 = k2" if "((db_keys a)(k \<mapsto> ?n)) k1 = Some j" "((db_keys a)(k \<mapsto> ?n)) k2 = Some j" for k1 k2 j
  proof (rule ccontr)
    assume ne: "k1 \<noteq> k2"
    have old: "db_keys a k' = Some j \<Longrightarrow> j < ?n" for k' using D(3) by blast
    consider "k1 = k" "k2 \<noteq> k" | "k1 \<noteq> k" "k2 = k" | "k1 \<noteq> k" "k2 \<noteq> k" using ne by blast
    then show False
    proof cases
      case 1
      then show False using that old [of k2] by simp
    next
      case 2
      then show False using that old [of k1] by simp
    next
      case 3
      then have "db_keys a k1 = Some j" "db_keys a k2 = Some j" using that by simp_all
      then show False using D(5) ne by blast
    qed
  qed
  have dead: "mgr_set (en_bits e') = int ` db_dead a" "db_dead a \<subseteq> {..<length (db_rows a @ [?r])}" using D(6,7) e'(7) by auto
  have "db_repr cols ty (db_add k ?r a) e'"
  proof (rule db_reprI)
    show "eng_repr cols (db_rows (db_add k ?r a)) (insert (int ?n) D) m' e'" using e'(4) mx by simp
    show "i < length (db_rows (db_add k ?r a)) \<and> int i \<in> insert (int ?n) D" if "db_keys (db_add k ?r a) k' = Some i" for k' i
      using that keys [of k' i] by (cases "k' = k") auto
    show "k1 = k2" if "db_keys (db_add k ?r a) k1 = Some j" "db_keys (db_add k ?r a) k2 = Some j" for k1 k2 j
      using inj that by (simp only: db_add_simps)
  qed (use e'(2,5,8,9) D(2,8,9) tk dead room(1) in simp_all)
  then show ?thesis using e'(3,6) by blast
qed

lemma db_key_lookup:
  assumes "db_repr cols ty a e" "key_of hash key (en_table e) = Some k"
  shows "TB_GetDocIDByKey hash key d (en_table e) = Some (case db_keys a k of Some i \<Rightarrow> (0, int i) | None \<Rightarrow> (-1, d))"
  using key_lookup [OF assms(2)] assms(1) by (auto simp: db_repr_def split: option.split)

lemma db_update_ok:
  assumes r: "db_repr cols ty a e" and fs: "update_ok cols (dc_fields d)" and key: "key_of (ee_hash env) (dc_key d) (en_table e) = Some k" "db_keys a k = Some i"
    and vec: "VG_Update (int i) vs (en_vec e) = Some (0, vm)"
  shows "\<exists>e'. EN_AddOrUpdate env (d, vs) e = Some (0, e') \<and> db_repr cols ty (db_update i (dc_fields d) a) e' \<and> en_vec e' = vm \<and> en_bits e' = en_bits e"
proof -
  obtain D m where D: "eng_repr cols (db_rows a) D m e" "flds_keys (mx_flds m) = flds_keys (idx_flds cols)"
    "\<And>k i. db_keys a k = Some i \<Longrightarrow> i < length (db_rows a) \<and> int i \<in> D"
    "tb_keys (en_table e) = map_option int \<circ> db_keys a" "\<And>k k' i. \<lbrakk>db_keys a k = Some i; db_keys a k' = Some i\<rbrakk> \<Longrightarrow> k = k'"
    "mgr_set (en_bits e) = int ` db_dead a" "db_dead a \<subseteq> {..<length (db_rows a)}" "tb_id_type (en_table e) = ty" "length (db_rows a) < 200000000"
    "en_deleted e = int (card (db_dead a))"
    by (rule db_reprE [OF r]) blast
  have i: "i < length (db_rows a)" "int i \<in> D" using D(3) [OF key(2)] by simp_all
  have fs': "\<forall>f \<in> set (dc_fields d). num_field cols f" "distinct (map fd_name (dc_fields d))"
    "\<forall>f \<in> set (dc_fields d). \<forall>j < length cols. fi_name (cols ! j) = fd_name f \<and> int j \<in> indexed (mx_flds m) \<longrightarrow> good_value (mx_flds m) (int j) (fd_value f)"
    using fs index_config [OF D(2)] by (simp_all add: update_ok_def)
  have id: "docid_ok (int i)" using i(1) D(9) by (simp add: docid_ok_def)
  obtain e1 m' where e1: "EN_Update env (int i) (dc_fields d) vs e = Some (0, e1)"
    "eng_repr cols ((db_rows a)[i := upd_rec (dc_fields d) (db_rows a ! i)]) D m' e1" "en_bits e1 = en_bits e"
    "tb_keys (en_table e1) = tb_keys (en_table e)" "tb_id_type (en_table e1) = tb_id_type (en_table e)" "en_vec e1 = vm" "flds_keys (mx_flds m') = flds_keys (mx_flds m)"
    "en_deleted e1 = en_deleted e"
    using EN_Update_ok [OF D(1) i fs' vec id] by blast
  let ?e = "e1\<lparr>en_dirty := True\<rparr>"
  have "EN_AddOrUpdate env (d, vs) e = Some (0, ?e)"
    using db_key_lookup [OF r key(1)] key(2) e1(1) by (simp add: EN_AddOrUpdate_def)
  moreover have "eng_repr cols ((db_rows a)[i := upd_rec (dc_fields d) (db_rows a ! i)]) D m' ?e" using e1(2) eng_repr_cong [of ?e e1] by simp
  then have "db_repr cols ty (db_update i (dc_fields d) a) ?e"
    unfolding db_repr_def using e1(3-5,7,8) D(2-10) by (intro conjI exI [of _ D] exI [of _ m']) (auto simp: db_update_def)
  ultimately show ?thesis using e1(3,6) by auto
qed

lemma db_delete_ok:
  assumes r: "db_repr cols ty a e" and key: "key_of (ee_hash env) key (en_table e) = Some k" "db_keys a k = Some i" "i \<notin> db_dead a"
    and vec: "VG_Delete (int i) (en_vec e) = Some (rv, vm)" and io: "io_ok (ee_io env)"
  shows "\<exists>e'. EN_Delete env key e = Some (0, e') \<and> db_repr cols ty (db_delete k i a) e' \<and> en_vec e' = vm "
proof -
  obtain D m where D: "eng_repr cols (db_rows a) D m e" "flds_keys (mx_flds m) = flds_keys (idx_flds cols)"
    "\<And>k i. db_keys a k = Some i \<Longrightarrow> i < length (db_rows a) \<and> int i \<in> D"
    "tb_keys (en_table e) = map_option int \<circ> db_keys a" "\<And>k k' i. \<lbrakk>db_keys a k = Some i; db_keys a k' = Some i\<rbrakk> \<Longrightarrow> k = k'"
    "mgr_set (en_bits e) = int ` db_dead a" "db_dead a \<subseteq> {..<length (db_rows a)}" "tb_id_type (en_table e) = ty" "length (db_rows a) < 200000000"
    "en_deleted e = int (card (db_dead a))"
    by (rule db_reprE [OF r]) blast
  have i: "i < length (db_rows a)" "int i \<in> D" using D(3) [OF key(2)] by simp_all
  have nd: "int i \<notin> mgr_set (en_bits e)" using key(3) D(6) by auto
  have "bits_ok (length (db_rows a)) (en_bits e)" using D(1) by (simp add: eng_repr_def)
  from bits_test [OF this i(1)] have t: "BM_Test (en_bits e) (of_nat i) = Some False" using nd by simp
  obtain e1 m' where e1: "remove_doc env (int i) key e = Some e1" "eng_repr cols (db_rows a) (D - {int i}) m' e1"
    "mgr_set (en_bits e1) = insert (int i) (mgr_set (en_bits e))" "tb_keys (en_table e1) = (tb_keys (en_table e))(k := None)"
    "tb_id_type (en_table e1) = tb_id_type (en_table e)" "en_vec e1 = vm" "en_deleted e1 = en_deleted e + 1" "flds_keys (mx_flds m') = flds_keys (mx_flds m)"
    using remove_doc_ok [OF D(1) key(1) i vec io] by blast
  let ?e = "e1\<lparr>en_dirty := True\<rparr>"
  have "EN_Delete env key e = Some (0, ?e)" using db_key_lookup [OF r key(1)] key(2) t e1(1) by (simp add: EN_Delete_def)
  have er: "eng_repr cols (db_rows a) (D - {int i}) m' ?e" using e1(2) eng_repr_cong [of ?e e1] by simp
  have old: "j < length (db_rows a) \<and> int j \<in> D - {int i}" if "((db_keys a)(k := None)) k' = Some j" for k' j
  proof -
    have k': "k' \<noteq> k" "db_keys a k' = Some j" using that by (auto split: if_splits)
    then have "j \<noteq> i" using D(5) [of k i k'] key(2) by auto
    then show ?thesis using D(3) [OF k'(2)] by simp
  qed
  have inj: "k1 = k2" if "((db_keys a)(k := None)) k1 = Some j" "((db_keys a)(k := None)) k2 = Some j" for k1 k2 j
  proof -
    have "db_keys a k1 = Some j" "db_keys a k2 = Some j" using that by (simp_all split: if_splits)
    then show "k1 = k2" by (rule D(5))
  qed
  have tk: "(tb_keys (en_table e))(k := None) = map_option int \<circ> (db_keys a)(k := None)" using D(4) by (simp add: fun_eq_iff)
  have dead: "insert (int i) (mgr_set (en_bits e)) = int ` insert i (db_dead a)" "insert i (db_dead a) \<subseteq> {..<length (db_rows a)}" using D(6,7) i(1) by auto
  have "db_repr cols ty (db_delete k i a) ?e"
  proof (rule db_reprI)
    show "eng_repr cols (db_rows (db_delete k i a)) (D - {int i}) m' ?e" using er by simp
    show "j < length (db_rows (db_delete k i a)) \<and> int j \<in> D - {int i}" if "db_keys (db_delete k i a) k' = Some j" for k' j
      using that old by (simp only: db_delete_simps)
    show "k1 = k2" if "db_keys (db_delete k i a) k1 = Some j" "db_keys (db_delete k i a) k2 = Some j" for k1 k2 j
      using inj that by (simp only: db_delete_simps)
    show "tb_keys (en_table ?e) = map_option int \<circ> db_keys (db_delete k i a)" using tk e1(4) by simp
      show "en_deleted ?e = int (card (db_dead (db_delete k i a)))"
      using e1(7) D(7,10) key(3) finite_subset [OF D(7)] by simp
  qed (use e1(3,5,8) D(2,8,9) dead in simp_all)
  then show ?thesis using \<open>EN_Delete env key e = Some (0, ?e)\<close> e1(6) by auto
qed

text \<open>The number of documents that the engine reports.\<close>

lemma db_docs_num:
  assumes "db_repr cols ty a e"
  shows "EN_GetDocsNum e = int (length (db_rows a)) - int (card (db_dead a))"
  using assms by (auto simp: db_repr_def eng_repr_def EN_GetDocsNum_def)

text \<open>A key that leads to no document, and one that leads to a hidden document.\<close>

lemma db_delete_refused:
  assumes r: "db_repr cols ty a e" and key: "key_of (ee_hash env) key (en_table e) = Some k"
  shows "db_keys a k = None \<Longrightarrow> EN_Delete env key e = Some (1, e)" "\<lbrakk>db_keys a k = Some i; i \<in> db_dead a\<rbrakk> \<Longrightarrow> EN_Delete env key e = Some (2, e)"
    "db_keys a k = None \<Longrightarrow> EN_GetDoc env key d e = Some (-1, d, e)" "\<lbrakk>db_keys a k = Some i; i \<in> db_dead a\<rbrakk> \<Longrightarrow> EN_GetDoc env key d e = Some (-1, d, e)"
proof -
  have t: "BM_Test (en_bits e) (of_nat i) = Some True" if "db_keys a k = Some i" "i \<in> db_dead a"
  proof -
    obtain D m where D: "eng_repr cols (db_rows a) D m e" "\<And>k i. db_keys a k = Some i \<Longrightarrow> i < length (db_rows a) \<and> int i \<in> D" "mgr_set (en_bits e) = int ` db_dead a"
      by (rule db_reprE [OF r]) blast
    then show ?thesis using bits_test [of "length (db_rows a)" "en_bits e" i] D(2) [OF that(1)] that(2) by (simp add: eng_repr_def)
  qed
  note l = db_key_lookup [OF r key]
  show "db_keys a k = None \<Longrightarrow> EN_Delete env key e = Some (1, e)" "\<lbrakk>db_keys a k = Some i; i \<in> db_dead a\<rbrakk> \<Longrightarrow> EN_Delete env key e = Some (2, e)"
    using l t by (simp_all add: EN_Delete_def)
  show "db_keys a k = None \<Longrightarrow> EN_GetDoc env key d e = Some (-1, d, e)" "\<lbrakk>db_keys a k = Some i; i \<in> db_dead a\<rbrakk> \<Longrightarrow> EN_GetDoc env key d e = Some (-1, d, e)"
    using l t by (simp_all add: EN_GetDoc_def EN_GetDocById_def)
qed

subsection \<open>Turns of the threads\<close>

text \<open>The writer of the table, one operation of the range index after the writer, and a turn of the vector thread.\<close>

definition index_turn :: "eng_env \<Rightarrow> ('i, 'f) engine \<Rightarrow> ('i, 'f) engine option" where
  "index_turn env e = do { e' \<leftarrow> wait_table e; IX_turn env e' }"

definition range_queue :: "('i, 'f) engine \<Rightarrow> field_operate list" where
  "range_queue e = (case en_range e of None \<Rightarrow> [] | Some m \<Rightarrow> mx_queue m)"

lemma eng_repr_turn:
  assumes e: "eng_repr cols rows D m e" and t: "tbl_repr cols rows P tb" "sm_changed (en_table e) tb"
    and m: "sys_inv (sysof m' cols rows (D \<times> indexed (mx_flds m)))" "flds_keys (mx_flds m') = flds_keys (mx_flds m)" "length (mx_flds m') = length (mx_flds m)"
  shows "eng_repr cols rows D m' (e\<lparr>en_table := tb, en_range := Some m'\<rparr>)"
  using assms indexed_cong [OF m(2)] sm_changedD(8) [OF t(2)] unfolding eng_repr_def by auto

lemma db_repr_turn:
  assumes r: "db_repr cols ty a e" and e: "eng_repr cols (db_rows a) D m e" "\<And>k i. db_keys a k = Some i \<Longrightarrow> i < length (db_rows a) \<and> int i \<in> D"
    and t: "tbl_repr cols (db_rows a) P tb" "sm_changed (en_table e) tb" "flds_keys (mx_flds m) = flds_keys (idx_flds cols)"
    and m: "sys_inv (sysof m' cols (db_rows a) (D \<times> indexed (mx_flds m)))" "flds_keys (mx_flds m') = flds_keys (mx_flds m)" "length (mx_flds m') = length (mx_flds m)"
  shows "db_repr cols ty a (e\<lparr>en_table := tb, en_range := Some m'\<rparr>)"
proof (rule db_reprI [OF eng_repr_turn [OF e(1) t(1,2) m] _ e(2)])
  obtain D0 m0 where D: "tb_keys (en_table e) = map_option int \<circ> db_keys a" "\<And>k k' i. \<lbrakk>db_keys a k = Some i; db_keys a k' = Some i\<rbrakk> \<Longrightarrow> k = k'"
    "mgr_set (en_bits e) = int ` db_dead a" "db_dead a \<subseteq> {..<length (db_rows a)}" "tb_id_type (en_table e) = ty" "length (db_rows a) < 200000000"
    "en_deleted e = int (card (db_dead a))"
    by (rule db_reprE [OF r]) blast
  show "k = k'" if "db_keys a k = Some i" "db_keys a k' = Some i" for k k' i using that by (rule D(2))
qed (use r sm_changedD(1,2) [OF t(2)] t(3) m(2) in \<open>auto simp: db_repr_def\<close>)

lemma index_turn_ok:
  assumes r: "db_repr cols ty a e"
  shows "\<exists>e'. index_turn env e = Some e' \<and> db_repr cols ty a e' \<and> range_queue e' = tl (range_queue e) \<and> en_bits e' = en_bits e \<and> en_vec e' = en_vec e"
proof -
  obtain D m where D: "eng_repr cols (db_rows a) D m e" "flds_keys (mx_flds m) = flds_keys (idx_flds cols)"
    "\<And>k i. db_keys a k = Some i \<Longrightarrow> i < length (db_rows a) \<and> int i \<in> D"
    by (rule db_reprE [OF r]) blast
  obtain P where P: "tbl_repr cols (db_rows a) P (en_table e)" using D(1) by (auto simp: eng_repr_def)
  have en: "no_later (en_table e)" "en_range e = Some m" "sys_inv (sysof m cols (db_rows a) (D \<times> indexed (mx_flds m)))" using D(1) by (simp_all add: eng_repr_def)
  obtain tb1 where t1: "settle_table (en_table e) = Some tb1" "tbl_repr cols (db_rows a) (length (db_rows a)) tb1" "sm_changed (en_table e) tb1"
    using settle_table_ok [OF P en(1)] by blast
  let ?e1 = "e\<lparr>en_table := tb1\<rparr>"
  obtain tb2 m' where t2: "IX_turn env ?e1 = Some (?e1\<lparr>en_table := tb2, en_range := Some m'\<rparr>)" "tbl_repr cols (db_rows a) (length (db_rows a)) tb2"
    "sm_changed tb1 tb2" "sys_inv (sysof m' cols (db_rows a) (D \<times> indexed (mx_flds m)))" "mx_queue m' = tl (mx_queue m)"
    "flds_keys (mx_flds m') = flds_keys (mx_flds m)" "length (mx_flds m') = length (mx_flds m)"
    using IX_turn_ok [of cols "db_rows a" ?e1 m "D \<times> indexed (mx_flds m)" env] t1(2) en(2,3) by auto
  let ?e' = "e\<lparr>en_table := tb2, en_range := Some m'\<rparr>"
  have "index_turn env e = Some ?e'" using t1(1) t2(1) by (simp add: index_turn_def wait_table_def)
  moreover have "db_repr cols ty a ?e'"
    using db_repr_turn [OF r D(1,3) t2(2) sm_changed_trans [OF t1(3) t2(3)] D(2) t2(4,6,7)] by simp
  ultimately show ?thesis using t2(5) en(2) by (auto simp: range_queue_def)
qed

fun index_turns :: "eng_env \<Rightarrow> nat \<Rightarrow> ('i, 'f) engine \<Rightarrow> ('i, 'f) engine option" where
  "index_turns env 0 e = Some e"
| "index_turns env (Suc n) e = do { e' \<leftarrow> index_turn env e; index_turns env n e' }"

lemma index_turns_ok:
  "db_repr cols ty a e \<Longrightarrow> \<exists>e'. index_turns env n e = Some e' \<and> db_repr cols ty a e' \<and> range_queue e' = drop n (range_queue e) \<and>
    en_bits e' = en_bits e \<and> en_vec e' = en_vec e"
proof (induction n arbitrary: e)
  case (Suc n)
  obtain e1 where e1: "index_turn env e = Some e1" "db_repr cols ty a e1" "range_queue e1 = tl (range_queue e)" "en_bits e1 = en_bits e" "en_vec e1 = en_vec e"
    using index_turn_ok [OF Suc.prems] by blast
  obtain e' where "index_turns env n e1 = Some e'" "db_repr cols ty a e'" "range_queue e' = drop n (range_queue e1)" "en_bits e' = en_bits e1" "en_vec e' = en_vec e1"
    using Suc.IH [OF e1(2)] by blast
  then show ?case using e1 by (simp add: drop_Suc)
qed simp

lemma db_repr_cong:
  assumes "en_table e' = en_table e" "en_range e' = en_range e" "en_bits e' = en_bits e" "en_max e' = en_max e" "en_deleted e' = en_deleted e"
  shows "db_repr cols ty a e' = db_repr cols ty a e"
  using eng_repr_cong [OF assms(1-4)] assms by (simp add: db_repr_def)

text \<open>The thread of the vector indexes leaves the documents alone.\<close>

lemma EN_IndexTurn_frame:
  assumes "EN_IndexTurn env e = Some e'"
  shows "en_table e' = en_table e" "en_range e' = en_range e" "en_bits e' = en_bits e" "en_max e' = en_max e" "en_deleted e' = en_deleted e"
proof -
  have w: "wait_vecs e = Some e1 \<Longrightarrow> \<exists>vm. e1 = e\<lparr>en_vec := vm\<rparr>" for e1 by (auto simp: wait_vecs_def bind_eq_Some_conv)
  have "en_table e' = en_table e \<and> en_range e' = en_range e \<and> en_bits e' = en_bits e \<and> en_max e' = en_max e \<and> en_deleted e' = en_deleted e"
    using assms w by (cases "en_feeder e") (auto simp: EN_IndexTurn_def bind_eq_Some_conv Let_def split: if_splits prod.splits)
  then show "en_table e' = en_table e" "en_range e' = en_range e" "en_bits e' = en_bits e" "en_max e' = en_max e" "en_deleted e' = en_deleted e" by simp_all
qed

end
