(* ===== verification/Spec2Isabelle.thy ===== *)
theory Spec2Isabelle
  imports BitmapManager FieldsSearch IndexQueue ConcurrentVec VidMgr RealtimeLists StorageProps CacheProps DataProps DocProps TableProps VecProps Retrieval SchemaIO EngineDb
begin

text \<open>
  The database engine of AwaDB, as far as it is the engine's own C++ code under
  \<^verbatim>\<open>src/awadb/db_engine\<close>. Paths below are relative to that directory.

  \<^bold>\<open>The parts and how they work together.\<close> An engine (\<^verbatim>\<open>search/gamma_engine.cc\<close>) owns a table of
  documents, a range index for filters, a vector manager, a text index and a bitmap of deleted
  documents. A document gets the next number, the docid. Its fields of fixed length form one row, which a
  storage manager keeps in segment files; strings go to string files and the row has their
  place; fields that were added after the creation of the table are in columns of their own, under the
  document fields manager. A storage manager puts items into a queue that a writer thread empties into the
  segment files, and reads what is on disk through a block cache. Every vector field has a raw vector, on
  disk or in memory, whose vectors a second thread feeds to the index models. The values of
  indexed fields go to the range index through an operation queue that a third thread works off; deleting
  a value waits until that queue is empty, a filter does not wait. A search collects the documents of the filters, lets
  each index look for the nearest vectors among them, merges the fields by document and ranks.

  \<^bold>\<open>Theories and sources.\<close> Each theory names the functions it models.

  \<^item> \<^verbatim>\<open>AwaPrelude\<close>, \<^verbatim>\<open>OrdMap\<close>, \<^verbatim>\<open>DiskFile\<close>: types, checked memory, ordered maps, files as byte lists.
  \<^item> \<^verbatim>\<open>util/\<close>: \<^verbatim>\<open>Bitmap\<close> (bitmap.cc), \<^verbatim>\<open>BitmapManager\<close> (bitmap_manager.cc, the deleted documents and
    their file), \<^verbatim>\<open>ConcurrentVec\<close> (concurrent_vector.h).
  \<^item> \<^verbatim>\<open>table/field_range_index.cc\<close>: \<^verbatim>\<open>WordBlocks\<close> and \<^verbatim>\<open>RangeNode\<close> (posting lists, dense or sparse),
    \<^verbatim>\<open>KeyTree\<close> (the B-tree as the ordered list of its entries), \<^verbatim>\<open>FieldIndex\<close> (one field: keys, adding,
    deleting, searching), \<^verbatim>\<open>FieldsSearch\<close> (several filters and their intersection), \<^verbatim>\<open>IndexQueue\<close> (the
    operation queue, its worker, the step relation of engine and worker).
    \<^verbatim>\<open>RangeResult\<close>: table/range_query_result.
  \<^item> \<^verbatim>\<open>storage/\<close>: \<^verbatim>\<open>LruCache\<close>, \<^verbatim>\<open>BlockCache\<close> (lru_cache.h), \<^verbatim>\<open>StrBlock\<close> (string_block), \<^verbatim>\<open>ItemBlock\<close>
    (block, table_block, async_writer), \<^verbatim>\<open>VectorBlk\<close> (vector_block), \<^verbatim>\<open>Segment\<close>, \<^verbatim>\<open>SegStrings\<close> (segment),
    \<^verbatim>\<open>StorageMgr\<close>, \<^verbatim>\<open>StorageSpec\<close>, \<^verbatim>\<open>MgrStrings\<close> (storage_manager).
  \<^item> \<^verbatim>\<open>table/\<close>: \<^verbatim>\<open>FieldColumn\<close> (field_column_data), \<^verbatim>\<open>DocFields\<close>, \<^verbatim>\<open>DocRows\<close>, \<^verbatim>\<open>DocDump\<close>
    (docid_fields_mgr), \<^verbatim>\<open>Table\<close>, \<^verbatim>\<open>TableSpec\<close>, \<^verbatim>\<open>TableOps\<close> (table.cc).
  \<^item> \<^verbatim>\<open>vector/\<close> and \<^verbatim>\<open>realtime/\<close>: \<^verbatim>\<open>VidMgr\<close> (raw_vector_common.h), \<^verbatim>\<open>RawVec\<close>, \<^verbatim>\<open>RawVecSpec\<close> (raw_vector,
    memory_raw_vector, mmap_raw_vector, io/mmap_raw_vector_io), \<^verbatim>\<open>VecResult\<close>, \<^verbatim>\<open>VecMerge\<close>
    (common/common_query_data.h), \<^verbatim>\<open>VecMgr\<close>, \<^verbatim>\<open>VecSearch\<close> (vector_manager), \<^verbatim>\<open>RealtimeData\<close>,
    \<^verbatim>\<open>RealtimeLists\<close> (realtime_mem_data, realtime_invert_index).
  \<^item> \<^verbatim>\<open>search/\<close>: \<^verbatim>\<open>Retrieval\<close> (awadb_retrieval), \<^verbatim>\<open>SchemaIO\<close> (gamma_table_io), \<^verbatim>\<open>Engine\<close>,
    \<^verbatim>\<open>EngineQuery\<close>, \<^verbatim>\<open>EngineLife\<close> (gamma_engine: documents; filters and search; setup,
    dump and load); \<^verbatim>\<open>EngineSpec\<close>, \<^verbatim>\<open>EngineRun\<close>, \<^verbatim>\<open>EngineDocs\<close>, \<^verbatim>\<open>EngineDb\<close>: the engine against its table, its
    range index and the abstract database of documents.
  \<^item> The properties are here (range index, postings, filters) and in \<^verbatim>\<open>DataProps\<close>, \<^verbatim>\<open>StorageProps\<close>,
    \<^verbatim>\<open>CacheProps\<close>, \<^verbatim>\<open>DocProps\<close>, \<^verbatim>\<open>TableProps\<close>, \<^verbatim>\<open>RawVecProps\<close>, \<^verbatim>\<open>VecProps\<close>, \<^verbatim>\<open>Retrieval\<close> and
    \<^verbatim>\<open>SchemaIO\<close>, each followed by an application at a concrete input.

  \<^bold>\<open>How the code is read.\<close> Classes are records, their methods functions that return the updated record.
  A block of memory is a list, an access outside it (or through a null pointer) is the value \<open>None\<close>, so a
  theorem that a call returns \<open>Some\<close> says that it touches its own memory only. Error codes are the
  integers of the code. Unsigned values whose wrap-around matters are words; a C++ \<open>int\<close> is an \<open>int\<close>, and
  where a product or a sum can leave the 32 bits the conversion is written out (\<open>large_segments\<close>). Memory
  that the code leaves without a value is an argument (\<open>g\<close>, \<open>Z\<close>, \<open>z\<close>), so theorems hold for every content.
  Results of \<open>pread\<close> and \<open>pwrite\<close> that may be short or fail are an oracle argument \<open>io\<close> of the
  bitmap's file. Threads are turns: the writer (\<open>SM_Writer\<close>), the worker of the range index (\<open>IX_turn\<close>) and the
  thread of the vector indexes (\<open>EN_IndexTurn\<close>) take one batch or operation at a time between the calls of
  the engine, and a call that waits for a thread lets it take its turns (\<open>wait_table\<close>, \<open>wait_vecs\<close>,
  \<open>IX_drain\<close>). The worker of the range index is finer than a turn in \<^verbatim>\<open>IndexQueue\<close>: taking an operation,
  reading the table and changing the tree are three steps (\<open>worker_step\<close>), the step relation \<open>sstep\<close> has them and those
  of the engine in any order, and \<open>worker_turn_steps\<close> shows that the turn of the engine's model is these steps when
  nothing comes between them. The steps of a cache that loads a block outside its lock are \<open>SG_begin\<close>, \<open>SG_load\<close> and
  \<open>SG_publish\<close>; \<open>LC_SetOrGet\<close> is the call of a single thread. The loop over keys in \<open>TB_BatchAdd\<close>, which OpenMP
  may run in any order, runs in the order of the documents; that matters only for two equal keys in one batch.

  \<^bold>\<open>What the lemmas show.\<close> The interfaces are locales, interpreted on the model in the theory of the
  provider: \<open>bit_store\<close> (raw bitmap, bitmap manager), \<open>seq_store\<close> (the vector with 8 and 16 bit capacity),
  \<open>key_store\<close>, \<open>posting\<close> and \<open>posting_index\<close> (the tree, the nodes and an index of postings over them),
  \<open>block_cache\<close> (LRU cache, simple cache and the dispatch), \<open>column_store\<close> (fixed, string, several strings and
  any column), \<open>vector_store\<close> (vectors on disk and in memory). The abstract states are sets for bitmaps
  and postings, lists of items for storage managers and of vectors for raw vectors, lists of maps for
  the document fields manager, lists of rows of values for the table (\<open>table_repr\<close>), and for the engine the
  sequence of those with the set of deleted documents; the refinement lemmas say that each operation does on the
  abstract state what its name says, on every branch.

  \<^bold>\<open>Termination and bounds.\<close> Loops are \<open>fun\<close> or \<open>function\<close> with a measure. Three loops that need not end, the
  growth by a factor of a string file, of a bucket and of the list of ids, are \<open>partial_function (option)\<close>; the lemmas
  about them show the result. A call that waits for the queue of the range index is given turns for the length of
  the queue, which \<open>IX_drain_ok\<close> shows to be enough; \<open>index_catches_up\<close> counts the single steps of its worker.
  Scores are of any type with the operations used; \<open>merged_documents\<close> is about exact arithmetic, since the
  floating-point sums of the code depend on their order.

  \<^bold>\<open>Parameters.\<close> Code that is not the engine's own is an argument: the MD5 hash behind the keys of the table, the
  JSON parser, the index models (virtual functions of \<open>RetrievalModel\<close>), \<open>std::sort\<close> and the order of
  \<open>unordered_map\<close>, the commands that read limits of the system. Their documented behaviour is a
  hypothesis where a theorem needs it, and the witnesses instantiate it.

  \<^bold>\<open>Not modelled.\<close> Third-party code (the B-tree itself, cJSON, the concurrent queue, libcuckoo, logging,
  flatbuffers and pybind11), the conversions of \<^verbatim>\<open>c_api\<close> and \<^verbatim>\<open>cpp_api\<close>, generated code, the
  services and clients; the numerical kernels of the vector indexes, which are calls of faiss and hnswlib; the
  optional RocksDB and zfp stores; the migration between engines (\<^verbatim>\<open>storage/migrate_data.cc\<close>); memory sizes,
  logging and timing. Memory allocation succeeds, and locks are taken as given: what runs under one lock is
  one step. Keys of the range index of more than 255 bytes are refused (\<open>bt_key_ok\<close>): the B-tree stores the length of a key
  in one byte.
\<close>

section \<open>The scalar index\<close>


abbreviation demo_flds :: findex where "demo_flds \<equiv> [Some (new_frx data_type.INT)]"
abbreviation demo_tbl :: "int \<Rightarrow> int \<Rightarrow> bkey option" where
  "demo_tbl \<equiv> (\<lambda>d f. None)(3 := (\<lambda>f. None)(0 := Some [5, 0, 0, 0]))"
abbreviation demo_start :: sys where
  "demo_start \<equiv> \<lparr>s_m = \<lparr>mx_flds = demo_flds, mx_queue = []\<rparr>, s_hand = Idle, s_tbl = \<lambda>d f. None, s_cur = {}\<rparr>"

text \<open>Document 3 has been written and its ADD queued.\<close>

abbreviation demo_queued :: sys where
  "demo_queued \<equiv> \<lparr>s_m = \<lparr>mx_flds = demo_flds, mx_queue = [OpAdd 3 0]\<rparr>, s_hand = Idle, s_tbl = demo_tbl, s_cur = {(3, 0)}\<rparr>"

lemma demo_queued_reachable: "reachable demo_start demo_queued"
proof -
  let ?s1 = "demo_start\<lparr>s_tbl := demo_tbl\<rparr>"
  have "sstep demo_start ?s1" using engine_write [of 3 0 demo_start "[5, 0, 0, 0]"] by simp
  then have r1: "reachable demo_start ?s1" by (intro reachable.move [OF reachable.start]) (simp_all add: calm_def)
  have gv: "good_value demo_flds 0 [5, 0, 0, 0]"
    by (simp add: good_value_def flds_keys_def fetch_def new_frx_def frx_keys_def ReverseEndian_def bt_key_ok_def)
  have "sstep ?s1 demo_queued"
    using engine_add [of 3 0 ?s1 "[5, 0, 0, 0]" "\<lparr>mx_flds = demo_flds, mx_queue = [OpAdd 3 0]\<rparr>"] gv
    by (simp add: docid_ok_def MFR_Add_def fetch_def)
  then show ?thesis by (intro reachable.move [OF r1]) (simp_all add: calm_def)
qed

lemma demo_empty: "\<forall>x. Some x \<in> set demo_flds \<longrightarrow> fx_tree x = []"
  by (simp add: new_frx_def)

lemma demo_reachable:
  "\<exists>m. reachable demo_start \<lparr>s_m = m, s_hand = Idle, s_tbl = demo_tbl, s_cur = {(3, 0)}\<rparr> \<and> mx_queue m = [] \<and>
     flds_keys (mx_flds m) = flds_keys demo_flds"
proof -
  have inv: "sys_inv demo_queued" by (rule reachable_inv [OF demo_queued_reachable start_inv [OF demo_empty]])
  have "todo demo_queued \<le> 3" by (simp add: todo_def)
  from worker_steps_ok [OF inv this] obtain s' where s': "worker_steps 3 demo_queued = Some s'" "todo s' = 0"
    "s_tbl s' = demo_tbl" "s_cur s' = {(3, 0)}" "flds_keys (mx_flds (s_m s')) = flds_keys demo_flds" by auto
  then have "s' = \<lparr>s_m = s_m s', s_hand = Idle, s_tbl = demo_tbl, s_cur = {(3, 0)}\<rparr>" by (simp add: todo_0)
  then have "reachable demo_start \<lparr>s_m = s_m s', s_hand = Idle, s_tbl = demo_tbl, s_cur = {(3, 0)}\<rparr>"
    using reachable_trans [OF demo_queued_reachable worker_steps_reach [OF s'(1)]] by simp
  then show ?thesis using s'(2,5) todo_0 by blast
qed


text \<open>
  C2: A range filter on an integer field (INT or LONG) finds the right documents. In every state that the
  engine and the worker reach calmly, with an empty queue and nothing in the worker's hand, where field \<open>f\<close> has a numeric
  index and the value of every indexed document is the little-endian encoding of a signed integer
  of \<open>n\<close> = 4 or 8 bytes, the search for the range \<open>l..h\<close> returns 0 when no document is in the range
  and otherwise a result that contains exactly the indexed documents whose value lies between \<open>l\<close> and \<open>h\<close>.
  Floating-point fields are not meant (see \<open>negative_floats_reversed\<close>).
\<close>

theorem range_filter_finds_documents:
  assumes "\<forall>x. Some x \<in> set flds \<longrightarrow> fx_tree x = []"
    and "reachable \<lparr>s_m = \<lparr>mx_flds = flds, mx_queue = []\<rparr>, s_hand = Idle, s_tbl = tbl, s_cur = {}\<rparr> s"
    and "s_hand s = Idle" "mx_queue (s_m s) = []" "fetch (mx_flds (s_m s)) f = Some (Some x)" "fx_num x"
    and "\<forall>d. (d, f) \<in> s_cur s \<longrightarrow> s_tbl s d f = Some (le_bytes n (val d)) \<and>
      -(2 ^ (8 * n - 1)) \<le> val d \<and> val d < 2 ^ (8 * n - 1)"
    and "n = 4 \<or> n = 8" "-(2 ^ (8 * n - 1)) \<le> l" "l < 2 ^ (8 * n - 1)" "-(2 ^ (8 * n - 1)) \<le> h" "h < 2 ^ (8 * n - 1)"
  shows "\<exists>ret out. MFR_Search g1 g2 (mx_flds (s_m s))
      [\<lparr>f_field = f, f_lower = le_bytes n l, f_upper = le_bytes n h, f_op = FAnd\<rparr>] = Some (ret, out) \<and> 0 \<le> ret \<and>
    (if ret = 0 then {d. (d, f) \<in> s_cur s \<and> l \<le> val d \<and> val d \<le> h} = {}
     else \<forall>d. MR_Has out d = Some ((d, f) \<in> s_cur s \<and> l \<le> val d \<and> val d \<le> h))"
proof -
  have n: "0 < n" "n \<le> 255" using assms(8) by auto
  show ?thesis
    by (rule numeric_filter_spec [where val = val, OF reachable_inv [OF assms(2) start_inv [OF assms(1)]] assms(3-7) n assms(9-)])
qed

lemma fx_num_keys:
  assumes "flds_keys flds = flds_keys demo_flds"
  shows "\<exists>x. fetch flds 0 = Some (Some x) \<and> fx_num x"
proof -
  have "flds_keys flds 0 [] = None" "flds_keys flds 0 [7] \<noteq> None"
    unfolding assms by (simp_all add: flds_keys_def fetch_def new_frx_def frx_keys_def ReverseEndian_def bt_key_ok_def)
  then show ?thesis
    by (auto simp: flds_keys_def frx_keys_def split: option.splits if_splits)
qed

lemma demo_search_state:
  "\<exists>m x. reachable demo_start \<lparr>s_m = m, s_hand = Idle, s_tbl = demo_tbl, s_cur = {(3, 0)}\<rparr> \<and> mx_queue m = [] \<and>
     fetch (mx_flds m) 0 = Some (Some x) \<and> fx_num x"
  using demo_reachable fx_num_keys by blast

theorem range_filter_finds_documents_witness:
  "\<exists>(m :: mfx) ret out. MFR_Search 0 0 (mx_flds m)
      [\<lparr>f_field = 0, f_lower = le_bytes 4 (-7), f_upper = le_bytes 4 9, f_op = FAnd\<rparr>] = Some (ret, out) \<and>
    0 < ret \<and> MR_Has out 3 = Some True \<and> MR_Has out 4 = Some False"
proof -
  obtain m x where m: "reachable demo_start \<lparr>s_m = m, s_hand = Idle, s_tbl = demo_tbl, s_cur = {(3, 0)}\<rparr>" "mx_queue m = []"
    "fetch (mx_flds m) 0 = Some (Some x)" "fx_num x"
    using demo_search_state by blast
  have "le_bytes 4 5 = [5, 0, 0, 0]" by (simp add: le_bytes4)
  then show ?thesis
    using range_filter_finds_documents [OF demo_empty m(1), of 0 x 4 "\<lambda>d. 5" "-7" 9 0 0] m(2-)
    by (intro exI [of _ m]) (force split: if_splits)
qed






text \<open>
  C3: Searching several filters, numeric ranges and tag lists combined with and, or and not. For filters on fields with an
  index, -1 means that every document passes, 0 that none does, and a positive return comes with results
  that \<open>Has\<close> a document exactly when it satisfies every filter. This is for numeric filters whose bounds are not
  empty and for tag filters none of whose tags has a dense posting list that deletes have emptied, with fewer
  than \<open>INT_MAX\<close> postings under the tags together. If some filter is on a negative field or on a field without an index, the whole
  search returns -1 with no result whatever the other filters are, although not every document passes those.
\<close>

theorem filters_combine:
  "((\<forall>f \<in> set fs. filter_ok flds f) \<longrightarrow>
      (\<exists>ret out. MFR_Search g1 g2 flds fs = Some (ret, out) \<and>
        (if ret < 0 then \<forall>d. \<forall>f \<in> set fs. d \<in> filter_sat flds f
         else if ret = 0 then \<forall>d. \<exists>f \<in> set fs. d \<notin> filter_sat flds f
         else \<forall>d. MR_Has out d = Some (\<forall>f \<in> set fs. d \<in> filter_sat flds f)))) \<and>
   ((\<forall>f \<in> set fs. f_field f < int (length flds)) \<and> (\<exists>f \<in> set fs. f_field f < 0 \<or> fetch flds (f_field f) = Some None) \<longrightarrow>
      MFR_Search g1 g2 flds fs = Some (-1, MR_new))"
proof (intro conjI impI)
  assume ok: "\<forall>f \<in> set fs. filter_ok flds f"
  obtain ret out where r: "MFR_Search g1 g2 flds fs = Some (ret, out)"
    "search_ok (\<Inter>f \<in> set fs. filter_sat flds f) (ret, out)"
    using MFR_Search_spec [OF ok, of g1 g2] by auto
  have "0 < ret \<Longrightarrow> MR_Has out d = Some (\<forall>f \<in> set fs. d \<in> filter_sat flds f)" for d
    using MFR_Search_Has [OF ok r(1)] .
  then show "\<exists>ret out. MFR_Search g1 g2 flds fs = Some (ret, out) \<and>
        (if ret < 0 then \<forall>d. \<forall>f \<in> set fs. d \<in> filter_sat flds f
         else if ret = 0 then \<forall>d. \<exists>f \<in> set fs. d \<notin> filter_sat flds f
         else \<forall>d. MR_Has out d = Some (\<forall>f \<in> set fs. d \<in> filter_sat flds f))"
    using r by (auto simp: search_ok_def split: if_splits)
next
  assume "(\<forall>f \<in> set fs. f_field f < int (length flds)) \<and> (\<exists>f \<in> set fs. f_field f < 0 \<or> fetch flds (f_field f) = Some None)"
  then show "MFR_Search g1 g2 flds fs = Some (-1, MR_new)" by (simp add: MFR_Search_def expand_refused)
qed

theorem filters_combine_witness:
  "(\<exists>(m :: mfx) ret out. MFR_Search 0 0 (mx_flds m)
      [\<lparr>f_field = 0, f_lower = le_bytes 4 1, f_upper = le_bytes 4 9, f_op = FAnd\<rparr>,
       \<lparr>f_field = 0, f_lower = le_bytes 4 6, f_upper = le_bytes 4 9, f_op = FNot\<rparr>] = Some (ret, out) \<and>
      0 < ret \<and> MR_Has out 3 = Some True \<and> MR_Has out 4 = Some False) \<and>
   MFR_Search 0 0 (None # demo_flds) [\<lparr>f_field = 1, f_lower = [1], f_upper = [2], f_op = FAnd\<rparr>,
       \<lparr>f_field = 0, f_lower = [1], f_upper = [2], f_op = FAnd\<rparr>] = Some (-1, MR_new)"
proof
  let ?fs = "[\<lparr>f_field = 0, f_lower = le_bytes 4 1, f_upper = le_bytes 4 9, f_op = FAnd\<rparr>,
       \<lparr>f_field = 0, f_lower = le_bytes 4 6, f_upper = le_bytes 4 9, f_op = FNot\<rparr>] :: filter_info list"
  obtain m x where m: "reachable demo_start \<lparr>s_m = m, s_hand = Idle, s_tbl = demo_tbl, s_cur = {(3, 0)}\<rparr>" "mx_queue m = []"
    "fetch (mx_flds m) 0 = Some (Some x)" "fx_num x"
    using demo_search_state by blast
  have inv: "sys_inv \<lparr>s_m = m, s_hand = Idle, s_tbl = demo_tbl, s_cur = {(3, 0)}\<rparr>"
    by (rule reachable_inv [OF m(1) start_inv [OF demo_empty]])
  have x: "frx_ok x" using inv m(3) flds_okD by (auto simp: sys_inv_def)
  have ok: "\<forall>f \<in> set ?fs. filter_ok (mx_flds m) f" using m(3,4) x by (simp add: filter_ok_def le_bytes4)
  have P: "flds_docs (mx_flds m) 0 k = (if k = [128, 0, 0, 5] then {3} else {})" for k
    using drained_postings [OF inv] m(2,3,4)
    by (auto simp: wanted_def flds_keys_def frx_keys_num ReverseEndian_def fun_eq_iff)
  then have D: "frx_docs x k = (if k = [128, 0, 0, 5] then {3} else {})" for k using m(3) by (simp add: flds_docs_def)
  have r: "the (ReverseEndian (le_bytes 4 1)) = [128, 0, 0, 1]" "the (ReverseEndian (le_bytes 4 9)) = [128, 0, 0, 9]"
    "the (ReverseEndian (le_bytes 4 6)) = [128, 0, 0, 6]" by (simp_all add: le_bytes4 ReverseEndian_def)
  have "range_docs x [128, 0, 0, 1] [128, 0, 0, 9] = {3}" "range_docs x [128, 0, 0, 6] [128, 0, 0, 9] = {}"
    by (auto simp: range_docs_def D)
  then have S: "(\<forall>f \<in> set ?fs. d \<in> filter_sat (mx_flds m) f) \<longleftrightarrow> d = 3" for d
    using m(3,4) r by (simp add: filter_sat_def filter_docs_def)
  obtain ret out where R: "MFR_Search 0 0 (mx_flds m) ?fs = Some (ret, out)"
    "if ret < 0 then \<forall>d. \<forall>f \<in> set ?fs. d \<in> filter_sat (mx_flds m) f
     else if ret = 0 then \<forall>d. \<exists>f \<in> set ?fs. d \<notin> filter_sat (mx_flds m) f
     else \<forall>d. MR_Has out d = Some (\<forall>f \<in> set ?fs. d \<in> filter_sat (mx_flds m) f)"
    using filters_combine [where flds = "mx_flds m" and fs = ?fs and ?g1.0 = 0 and ?g2.0 = 0] ok by blast
  have "\<not> ret < 0" using R(2) S [of 4] by (auto simp del: set_simps)
  moreover have "ret \<noteq> 0" using R(2) S [of 3] by (metis less_irrefl)
  ultimately have "0 < ret" "\<forall>d. MR_Has out d = Some (d = 3)" using R(2) S by simp_all
  then show "\<exists>(m :: mfx) ret out. MFR_Search 0 0 (mx_flds m) ?fs = Some (ret, out) \<and>
      0 < ret \<and> MR_Has out 3 = Some True \<and> MR_Has out 4 = Some False"
    using R(1) by (intro exI [of _ m] exI [of _ ret] exI [of _ out]) simp
next
  show "MFR_Search 0 0 (None # demo_flds) [\<lparr>f_field = 1, f_lower = [1], f_upper = [2], f_op = FAnd\<rparr>,
       \<lparr>f_field = 0, f_lower = [1], f_upper = [2], f_op = FAnd\<rparr>] = Some (-1, MR_new)"
    by (rule filters_combine [THEN conjunct2, rule_format]) (simp add: fetch_def)
qed

section \<open>Posting lists and results\<close>

text \<open>
  C4: A posting list behaves as a set of document ids. Whichever of its two forms it has and
  whether or not the operation changes the form, adding an id that is not in it or deleting one
  that is returns 0, keeps the invariant and has the effect of the set operation.
\<close>

theorem node_refines_set:
  assumes "node_inv n"
  shows "(docid_ok v \<and> v \<notin> node_set n \<longrightarrow>
      (\<exists>n'. Node_Add n v = Some (0, n') \<and> node_inv n' \<and> node_set n' = insert v (node_set n))) \<and>
    (v \<in> node_set n \<longrightarrow>
      (\<exists>n'. Node_Delete n v = Some (0, n') \<and> node_inv n' \<and> node_set n' = node_set n - {v}))"
  using Node_Add_spec [OF assms] Node_Delete_spec [OF assms] by blast

theorem node_refines_set_witness:
  "\<exists>n n'. Node_Add new_node 200 = Some (0, n) \<and> node_set n = {200} \<and>
     Node_Delete n 200 = Some (0, n') \<and> node_set n' = {}"
proof -
  obtain n where n: "Node_Add new_node 200 = Some (0, n)" "node_inv n" "node_set n = {200}"
    using node_refines_set [OF new_node_inv, of 200] new_node_set by (auto simp: docid_ok_def)
  obtain n' where "Node_Delete n 200 = Some (0, n')" "node_set n' = {}"
    using node_refines_set [OF n(2), of 200] n(3) by auto
  then show ?thesis using n by blast
qed

text \<open>
  C5: The keys of integers sort like the integers: for signed values of \<open>n\<close> bytes, reversing the
  little-endian bytes and flipping the sign bit gives keys that \<open>keycmp\<close> orders as the values.
\<close>

theorem integer_keys_sorted:
  assumes "0 < n" "-(2 ^ (8 * n - 1)) \<le> v" "v < 2 ^ (8 * n - 1)" "-(2 ^ (8 * n - 1)) \<le> w" "w < 2 ^ (8 * n - 1)"
  shows "\<exists>a b. ReverseEndian (le_bytes n v) = Some a \<and> ReverseEndian (le_bytes n w) = Some b \<and>
    keycmp a b = (if v < w then -1 else if w < v then 1 else 0)"
proof -
  obtain a b where ab: "ReverseEndian (le_bytes n v) = Some a" "ReverseEndian (le_bytes n w) = Some b"
    "a < b \<longleftrightarrow> v < w" "a \<le> b \<longleftrightarrow> v \<le> w"
    using ReverseEndian_mono [OF assms] by blast
  then have "b < a \<longleftrightarrow> w < v" by (metis not_less)
  then show ?thesis using ab keycmp_lex by metis
qed

theorem integer_keys_sorted_witness:
  "\<exists>a b. ReverseEndian (le_bytes 4 (-5)) = Some a \<and> ReverseEndian (le_bytes 4 3) = Some b \<and> keycmp a b = -1"
  using integer_keys_sorted [of 4 "-5" 3] by auto

text \<open>
  C6: The keys of floating-point numbers do not sort like the numbers: of any two negative FLOATs or DOUBLEs (with sign bit; \<open>u\<close> and \<open>w\<close> are their
  bit patterns) the key of the smaller one sorts after the key of the greater one, since only the sign bit of
  a negative float is flipped and not its magnitude. A range filter from the smaller to the greater returns 0 and nothing,
  whatever documents the index has.
\<close>

theorem negative_floats_reversed:
  assumes "n = 4 \<and> p = 23 \<or> n = 8 \<and> p = 52"
    and "2 ^ (8 * n - 1) \<le> u" "u < 2 ^ (8 * n)" "2 ^ (8 * n - 1) \<le> w" "w < 2 ^ (8 * n)"
    and "float_value n p u < float_value n p w"
  shows "\<exists>a b. ReverseEndian (le_bytes n u) = Some a \<and> ReverseEndian (le_bytes n w) = Some b \<and> keycmp a b = 1 \<and>
    FRI_SearchRange x (le_bytes n u) (le_bytes n w) (RR_new g1 g2) = Some (0, RR_new g1 g2)"
proof -
  let ?h = "2 ^ (8 * n - 1) :: int"
  have n: "0 < n" using assms(1) by auto
  have h: "(256 :: int) ^ n = ?h + ?h" "(2 :: int) ^ (8 * n) = ?h + ?h" using assms(1) by auto
  have lt: "w < u"
  proof (rule ccontr)
    assume "\<not> w < u"
    then have "float_mag p (u - ?h) \<le> float_mag p (w - ?h)" using assms(2) by (intro float_mag_mono) simp_all
    then show False using assms(2,4,6) by (simp add: float_value_def)
  qed
  have b: "le_bytes n (v - 256 ^ n) = le_bytes n v" for v
    using le_bytes_mod [of n "v - 256 ^ n"] le_bytes_mod [of n v] by simp
  have r: "-?h \<le> u - 256 ^ n" "u - 256 ^ n < ?h" "-?h \<le> w - 256 ^ n" "w - 256 ^ n < ?h"
    using assms(2-5) unfolding h by linarith+
  obtain a c where ac: "ReverseEndian (le_bytes n u) = Some a" "ReverseEndian (le_bytes n w) = Some c" "c < a"
    using ReverseEndian_mono [OF n r(3,4) r(1,2)] lt unfolding b by auto
  then have "FRI_SearchRange x (le_bytes n u) (le_bytes n w) (RR_new g1 g2) = Some (0, RR_new g1 g2)"
    by (simp add: FRI_SearchRange_def scan_backwards)
  then show ?thesis using ac by (simp add: keycmp_lex)
qed

text \<open>The interval from -2 to -1 of a FLOAT field: 0xc0000000 and 0xbf800000.\<close>

theorem negative_floats_reversed_witness:
  "FRI_SearchRange (new_frx FLOAT) [0, 0, 0, 0xc0] [0, 0, 0x80, 0xbf] (RR_new 7 9) = Some (0, RR_new 7 9) \<and>
   float_value 4 23 0xc0000000 = 2 * float_value 4 23 0xbf800000 \<and> float_value 4 23 0xbf800000 < 0"
proof -
  have v: "float_value 4 23 0xc0000000 = 2 * float_value 4 23 0xbf800000" "float_value 4 23 0xbf800000 < 0"
    by (simp_all add: float_value_def float_mag_def)
  have "le_bytes 4 0xc0000000 = [0, 0, 0, 0xc0]" "le_bytes 4 0xbf800000 = [0, 0, 0x80, 0xbf]"
    by (simp_all add: le_bytes4)
  then show ?thesis
    using negative_floats_reversed [where n = 4 and p = 23 and u = "0xc0000000" and w = "0xbf800000" and x = "new_frx FLOAT" and ?g1.0 = 7 and ?g2.0 = 9] v by auto
qed

text \<open>
  C7: Tags are cut the same way when they are indexed and when they are searched: for a value
  without NUL bytes, the \<open>strtok_r\<close> loop of \<open>Add\<close> and \<open>Delete\<close> and the position loop of
  \<open>utils::split\<close> yield the same list.
\<close>

theorem split_agrees_with_strtok:
  assumes "0 \<notin> set s"
  shows "strtok_all sep s = utils_split s sep"
  using assms by (rule strtok_split)

theorem split_agrees_with_strtok_witness:
  "strtok_all [1] [1, 65, 66, 1, 1, 67] = utils_split [1, 65, 66, 1, 1, 67] [1]"
  using split_agrees_with_strtok [of "[1, 65, 66, 1, 1, 67]" "[1]"] by simp

text \<open>
  C8: The word-wise intersection of search results with different ranges: the result holds exactly
  the documents that are in every one of them, and a return of 0 means that there is none.
\<close>

theorem intersection_correct:
  assumes "\<forall>r \<in> set rs. good_result r" "0 \<le> s" "s < int (length rs)"
  shows "\<exists>count tmp. MFR_Intersect rs s (RR_new g1 g2) = Some (count, tmp) \<and> 0 \<le> count \<and>
    (if 0 < count then \<forall>d. RR_Has tmp d = Some (\<forall>r \<in> set rs. d \<in> rr_docs r)
     else \<forall>d. \<exists>r \<in> set rs. d \<notin> rr_docs r)"
proof -
  have "rs \<noteq> []" using assms(2,3) by auto
  from MFR_Intersect_spec [OF assms(1) this assms(2,3), of g1 g2] obtain count tmp where
    c: "MFR_Intersect rs s (RR_new g1 g2) = Some (count, tmp)" "0 \<le> count"
    "if 0 < count then good_result tmp \<and> rr_docs tmp = (\<Inter>r \<in> set rs. rr_docs r)
     else (\<Inter>r \<in> set rs. rr_docs r) = {}" by blast
  have "0 < count \<Longrightarrow> RR_Has tmp d = Some (\<forall>r \<in> set rs. d \<in> rr_docs r)" for d
    using c(3) RR_Has_spec [of tmp d] by (simp add: good_result_def rr_sat_def)
  then show ?thesis using c by (auto split: if_splits)
qed

abbreviation demo_result :: "byte list \<Rightarrow> rqr" where
  "demo_result bm \<equiv> \<lparr>rr_min = 0, rr_max = 63, rr_min_al = 0, rr_max_al = 63, rr_next = -1, rr_ndoc = 2,
     rr_bits = Some bm, rr_not_in = False\<rparr>"

abbreviation demo_bits :: "byte \<Rightarrow> byte list" where "demo_bits b \<equiv> [b, 0, 0, 0, 0, 0, 0, 0, 0]"

lemma demo_good: "good_result (demo_result (demo_bits b))"
proof -
  have "\<not> bit (demo_bits b ! nat (i div 8)) (nat (i mod 8))" if "64 \<le> i" "i < 72" for i :: int
  proof -
    have "i div 8 = 8" using that by linarith
    then show ?thesis by simp
  qed
  moreover have "0 \<le> i" "i < 72" "bit (demo_bits b ! nat (i div 8)) (nat (i mod 8))"
    if "i \<in> bm_set (demo_bits b)" for i
    using that by (simp_all add: bm_set_def bm_dom_def)
  ultimately have "i \<in> bm_set (demo_bits b) \<Longrightarrow> 0 \<le> i \<and> i < 64" for i
    by (meson not_less)
  then have "i \<in> bm_set (demo_bits b) \<Longrightarrow> 0 \<le> i \<and> i \<le> 63" for i
    by fastforce
  then show ?thesis
    by (auto simp: good_result_def rr_inv_def rr_words_def span_block_def rr_block_def bm_dom_def)
qed

lemma demo_docs: "d \<in> rr_docs (demo_result (demo_bits b)) \<longleftrightarrow> 0 \<le> d \<and> d \<le> 63 \<and> d \<in> bm_set (demo_bits b)"
  by (simp add: rr_docs_def rr_block_def)

theorem intersection_correct_witness:
  "\<exists>count tmp. MFR_Intersect [demo_result (demo_bits 5), demo_result (demo_bits 9)] 0 (RR_new 0 0) = Some (count, tmp) \<and>
     RR_Has tmp 0 = Some True \<and> RR_Has tmp 2 = Some False"
proof -
  let ?rs = "[demo_result (demo_bits 5), demo_result (demo_bits 9)]"
  have g: "\<forall>r \<in> set ?rs. good_result r" using demo_good by simp
  have m: "0 \<in> bm_set (demo_bits 5)" "0 \<in> bm_set (demo_bits 9)" "2 \<notin> bm_set (demo_bits 9)"
    by (simp_all add: bm_set_def bm_dom_def)
  have d: "\<forall>r \<in> set ?rs. 0 \<in> rr_docs r" "\<not> (\<forall>r \<in> set ?rs. 2 \<in> rr_docs r)"
    using m by (simp_all add: demo_docs)
  obtain count tmp where c: "MFR_Intersect ?rs 0 (RR_new 0 0) = Some (count, tmp)"
    "if 0 < count then \<forall>d. RR_Has tmp d = Some (\<forall>r \<in> set ?rs. d \<in> rr_docs r)
     else \<forall>d. \<exists>r \<in> set ?rs. d \<notin> rr_docs r"
    using intersection_correct [OF g, of 0 0 0] by auto
  have "0 < count"
  proof (rule ccontr)
    assume "\<not> 0 < count"
    then have "\<exists>r \<in> set ?rs. 0 \<notin> rr_docs r" using c(2) by simp
    then show False using d(1) by blast
  qed
  then have h: "RR_Has tmp d = Some (\<forall>r \<in> set ?rs. d \<in> rr_docs r)" for d using c(2) by simp
  have "RR_Has tmp 0 = Some True" unfolding h using d(1) by blast
  moreover have "RR_Has tmp 2 = Some False" unfolding h using d(2) by blast
  ultimately show ?thesis using c(1) by blast
qed

text \<open>
  C9: The binary search in the sorted ids of a text filter: \<open>TextHasDoc\<close> returns, and answers
  whether the document is in the list.
\<close>

theorem text_filter_search:
  assumes "sorted (m_text m)"
  shows "MR_TextHasDoc m d = Some (d \<in> set (m_text m))"
  using assms by (rule MR_TextHasDoc_spec)

theorem text_filter_search_witness:
  "MR_TextHasDoc (MR_new\<lparr>m_text := [2, 5, 9, 9]\<rparr>) 5 = Some True"
  using text_filter_search [of "MR_new\<lparr>m_text := [2, 5, 9, 9]\<rparr>" 5] by simp

text \<open>
  \<open>Next\<close> enumerates a result: from any cursor position inside the range it returns the
  smallest document after the cursor and moves the cursor past it, or -1 when there is none.
\<close>

theorem next_enumerates:
  assumes "rr_inv r" "-1 \<le> rr_next r" "rr_next r \<le> rr_max_al r - rr_min_al r"
  shows "\<exists>d r'. RR_Next r = Some (d, r') \<and> rr_docs r' = rr_docs r \<and>
    (if rr_after r = {} then d = -1
     else d \<in> rr_after r \<and> (\<forall>e \<in> rr_after r. d \<le> e) \<and> rr_after r' = rr_after r - {d})"
  using RR_Next_spec [OF assms] by blast

theorem next_enumerates_witness:
  "\<exists>d r'. RR_Next (demo_result (demo_bits 5)) = Some (d, r') \<and> 0 \<le> d"
proof -
  have i: "rr_inv (demo_result (demo_bits 5))" using demo_good [of 5] by (simp add: good_result_def)
  have "0 \<in> rr_after (demo_result (demo_bits 5))"
    by (simp add: rr_after_def demo_docs) (simp add: bm_set_def bm_dom_def)
  moreover have "e \<in> rr_after (demo_result (demo_bits 5)) \<Longrightarrow> 0 \<le> e" for e
    by (simp add: rr_after_def demo_docs)
  ultimately show ?thesis using next_enumerates [OF i] by (auto split: if_splits)
qed

lemma count_distinct: "distinct xs \<Longrightarrow> x \<in> set xs \<Longrightarrow> count_list xs x = 1"
  by (induction xs) (auto simp: count_list_0_iff)

text \<open>
  \<open>ToDocs\<close> of several results concatenates their documents: a document of two results is
  listed twice, although the header promises sorted document ids.
\<close>

theorem to_docs_duplicates:
  assumes "rr_inv r1" "rr_inv r2" "\<not> rr_not_in r1" "\<not> rr_not_in r2"
    and "d \<in> rr_docs r1" "d \<in> rr_docs r2" "0 \<le> d" "d \<le> int_max"
  shows "\<exists>docs. MR_ToDocs (MR_Add (MR_Add MR_new r1) r2) = Some docs \<and> count_list docs d = 2"
proof -
  let ?m = "MR_Add (MR_Add MR_new r1) r2"
  let ?f = "\<lambda>r. filter (\<lambda>d. d \<in> rr_sat r) [m_min ?m..m_max ?m]"
  have m: "m_results ?m = [r1, r2]" by (simp add: MR_Add_def MR_new_def)
  have d: "d \<in> set [m_min ?m..m_max ?m]" using assms by (simp add: MR_Add_def MR_new_def rr_docs_def)
  have one: "count_list (?f r) d = 1" if "d \<in> rr_sat r" for r
    using d that by (intro count_distinct) auto
  have "MR_ToDocs ?m = Some (?f r1 @ ?f r2)" using assms(1,2) MR_ToDocs_spec [of ?m] m by simp
  moreover have "count_list (?f r1 @ ?f r2) d = 2" using assms one [of r1] one [of r2] by (simp add: rr_sat_def)
  ultimately show ?thesis by blast
qed

theorem to_docs_duplicates_witness:
  "\<exists>docs. MR_ToDocs (MR_Add (MR_Add MR_new (demo_result (demo_bits 5))) (demo_result (demo_bits 1))) = Some docs \<and>
     count_list docs 0 = 2"
  using demo_good [of 5] demo_good [of 1]
  by (intro to_docs_duplicates) (simp_all add: good_result_def demo_docs, simp_all add: bm_set_def bm_dom_def)

end
